(* ===== verification/Kogata_Base.thy ===== *)
theory Kogata_Base
  imports Main "HOL-Library.Word" "HOL-Library.Multiset"
begin

unbundle bit_operations_syntax

text \<open>
  Prelude of the kogata development: the machine types of the i586 target, the faults a
  kernel or library routine can end in, the dynamic allocator as its callers see it, and the
  generic facts on lists, multisets and machine words that the component theories share.

  The kernel is built for a 32-bit target: \<open>size_t\<close>, \<open>void*\<close> and
  \<open>uint32_t\<close> are 32 bits wide, \<open>char\<close> is signed and \<open>uint8_t\<close> is not.
\<close>

section \<open>Machine types\<close>

type_synonym u8 = "8 word"
type_synonym u16 = "16 word"
type_synonym u32 = "32 word"
type_synonym u64 = "64 word"

text \<open>
  Two collections carry the proofs: \<open>kogata_defs\<close> holds the definitions that are
  unfolded freely (small helpers), \<open>kogata_frame\<close> the facts that say which part of a
  state an operation leaves alone.
\<close>

named_theorems kogata_defs
named_theorems kogata_frame

section \<open>Faults\<close>

text \<open>
  \<open>ASSERT\<close> and \<open>PANIC\<close> stop the machine; reading or writing outside an array, or
  through a null pointer, is an error the C code does not detect; a shift by the width of its
  operand is undefined in C. Each is a value, so that every operation is total and says when
  it goes wrong. \<open>Self_deadlock\<close> is a thread that waits for a lock it holds itself; \<open>Diverged\<close> is a walk
  along pointers of more than \<open>2 ^ 32\<close> steps: addresses have 32 bits, so that such a walk is on a cycle and never
  ends.
\<close>

datatype fault = Assert_failed | Panicked | Bad_access | Undefined_shift | Self_deadlock | Diverged

type_synonym 'a res = "fault + 'a"

definition is_ok :: "'a res \<Rightarrow> bool" where
  "is_ok r = (case r of Inl _ \<Rightarrow> False | Inr _ \<Rightarrow> True)"

lemma is_ok_simps [simp]: "is_ok (Inr x)" "\<not> is_ok (Inl e)"
  by (simp_all add: is_ok_def)

lemma is_ok_iff: "is_ok r \<longleftrightarrow> (\<exists>x. r = Inr x)"
  by (cases r) auto

text \<open>Sequencing of operations that may fault, and the check of a condition.\<close>

definition rbind :: "'a res \<Rightarrow> ('a \<Rightarrow> 'b res) \<Rightarrow> 'b res" where
  "rbind r f = (case r of Inl e \<Rightarrow> Inl e | Inr x \<Rightarrow> f x)"

definition rassert :: "bool \<Rightarrow> unit res" where
  "rassert b = (if b then Inr () else Inl Assert_failed)"

text \<open>Reading through a pointer that may be dangling.\<close>

definition deref :: "(nat \<Rightarrow> 'a option) \<Rightarrow> nat \<Rightarrow> 'a res" where
  "deref m p = (case m p of None \<Rightarrow> Inl Bad_access | Some x \<Rightarrow> Inr x)"

lemma rbind_simps [simp]: "rbind (Inr x) f = f x" "rbind (Inl e) f = Inl e"
  by (simp_all add: rbind_def)

lemma rassert_simps [simp]: "rassert True = Inr ()" "rassert False = Inl Assert_failed"
  by (simp_all add: rassert_def)

lemma rbind_Inr_iff: "rbind r f = Inr y \<longleftrightarrow> (\<exists>x. r = Inr x \<and> f x = Inr y)"
  by (cases r) auto

lemma rassert_Inr_iff [simp]: "rassert b = Inr u \<longleftrightarrow> b"
  by (simp add: rassert_def)

lemma deref_Some [simp]: "m p = Some x \<Longrightarrow> deref m p = Inr x"
  by (simp add: deref_def)

lemma deref_Inr_iff: "deref m p = Inr x \<longleftrightarrow> m p = Some x"
  by (auto simp: deref_def split: option.splits)

section \<open>The dynamic allocator, as its callers see it\<close>

text \<open>
  \<open>malloc\<close> may fail at any call. Whether it does depends on the whole machine, so a
  heap carries the sequence of answers the next calls get (an exhausted sequence answers
  "success") and the number of blocks currently allocated. A statement about every heap is a
  statement about every pattern of allocation failures, and the number of live blocks makes
  leaks and double frees visible.
\<close>

record heap =
  hp_answers :: "bool list"
  hp_live :: int

definition next_answer :: "heap \<Rightarrow> bool" where
  "next_answer h = (case hp_answers h of [] \<Rightarrow> True | b # _ \<Rightarrow> b)"

definition heap_malloc :: "heap \<Rightarrow> bool \<times> heap" where
  "heap_malloc h =
     (next_answer h,
      h\<lparr>hp_answers := tl (hp_answers h),
        hp_live := hp_live h + (if next_answer h then 1 else 0)\<rparr>)"

definition heap_free :: "heap \<Rightarrow> heap" where
  "heap_free h = h\<lparr>hp_live := hp_live h - 1\<rparr>"

definition heap_frees :: "nat \<Rightarrow> heap \<Rightarrow> heap" where
  "heap_frees n h = h\<lparr>hp_live := hp_live h - int n\<rparr>"

definition all_answers_ok :: "heap \<Rightarrow> bool" where
  "all_answers_ok h = list_all id (hp_answers h)"

lemma heap_malloc_live:
  "heap_malloc h = (ok, h') \<Longrightarrow> hp_live h' = hp_live h + (if ok then 1 else 0)"
  by (auto simp: heap_malloc_def)

lemma heap_malloc_ok:
  assumes "all_answers_ok h" and "heap_malloc h = (ok, h')"
  shows "ok" and "all_answers_ok h'"
  using assms by (auto simp: heap_malloc_def next_answer_def all_answers_ok_def list_all_iff
      split: list.splits)

lemma heap_free_simps [simp]:
  "hp_live (heap_free h) = hp_live h - 1"
  "hp_answers (heap_free h) = hp_answers h"
  "hp_live (heap_frees n h) = hp_live h - int n"
  "hp_answers (heap_frees n h) = hp_answers h"
  "all_answers_ok (heap_free h) = all_answers_ok h"
  "all_answers_ok (heap_frees n h) = all_answers_ok h"
  by (simp_all add: heap_free_def heap_frees_def all_answers_ok_def)

section \<open>Lists and multisets\<close>

lemma mset_concat_update:
  "i < length xss \<Longrightarrow>
     mset (concat (xss[i := ys])) + mset (xss ! i) = mset (concat xss) + mset ys"
proof (induction xss arbitrary: i)
  case Nil
  then show ?case by simp
next
  case (Cons xs xss)
  show ?case
  proof (cases i)
    case 0
    then show ?thesis by simp
  next
    case (Suc j)
    with Cons.prems have "j < length xss" by simp
    from Cons.IH [OF this] have
      "mset xs + (mset (concat (xss[j := ys])) + mset (xss ! j))
        = mset xs + (mset (concat xss) + mset ys)" by simp
    with Suc show ?thesis by (simp add: ac_simps)
  qed
qed

lemma mset_concat_push:
  "i < length xss \<Longrightarrow>
     mset (concat (xss[i := x # xss ! i])) = add_mset x (mset (concat xss))"
  using mset_concat_update [of i xss "x # xss ! i"] by simp

lemma length_eq_of_mset_eq: "mset xs = mset ys \<Longrightarrow> length xs = length ys"
  by (metis size_mset)

lemma mset_concat_replicate_Nil [simp]: "concat (replicate n []) = []"
  by (induction n) auto

lemma set_concat_nth: "x \<in> set (concat xss) \<longleftrightarrow> (\<exists>i < length xss. x \<in> set (xss ! i))"
  unfolding set_concat by (metis UN_iff in_set_conv_nth)

end
