(* ===== verification/Cstring.thy ===== *)
theory Cstring
  imports Kogata_Base
begin

text \<open>
  The string and memory routines of src/common/libc/string.c and the character classes of
  src/common/libc/ctype.c. A C string is the list of the characters found at its address; it
  ends at its first NUL, and the end of the list reads as NUL. The routines that write go to
  a memory, a list of bytes, at explicit addresses, and fail with \<open>Bad_access\<close>
  outside of it.
\<close>

section \<open>Reading strings\<close>

definition NUL :: char where
  "NUL = CHR 0x00"

definition uchar :: "char \<Rightarrow> int" where
  "uchar c = of_char c"

text \<open>\<open>char\<close> is signed on the target: promoted to \<open>int\<close>, a byte from 128 up is negative.\<close>

definition schar :: "char \<Rightarrow> int" where
  "schar c = (if uchar c < 128 then uchar c else uchar c - 256)"

definition c_str :: "string \<Rightarrow> string" where
  "c_str s = takeWhile (\<lambda>c. c \<noteq> NUL) s"

fun strlen :: "string \<Rightarrow> nat" where
  "strlen [] = 0"
| "strlen (c # cs) = (if c = NUL then 0 else Suc (strlen cs))"

text \<open>A pointer into the argument is the index it points to; the null pointer is \<open>None\<close>.\<close>

fun strchr_from :: "nat \<Rightarrow> string \<Rightarrow> char \<Rightarrow> nat option" where
  "strchr_from i [] c = (if NUL = c then Some i else None)"
| "strchr_from i (x # xs) c =
     (if x = c then Some i else if x = NUL then None else strchr_from (Suc i) xs c)"

definition strchr :: "string \<Rightarrow> char \<Rightarrow> nat option" where
  "strchr s c = strchr_from 0 s c"

fun strrchr_loop :: "nat option \<Rightarrow> nat \<Rightarrow> string \<Rightarrow> char \<Rightarrow> nat option" where
  "strrchr_loop ret i [] c = (if NUL = c then Some i else ret)"
| "strrchr_loop ret i (x # xs) c =
     (let ret' = (if x = c then Some i else ret)
      in if x = NUL then ret' else strrchr_loop ret' (Suc i) xs c)"

definition strrchr :: "string \<Rightarrow> char \<Rightarrow> nat option" where
  "strrchr s c = strrchr_loop None 0 s c"

fun strcmp :: "string \<Rightarrow> string \<Rightarrow> int" where
  "strcmp [] [] = uchar NUL - uchar NUL"
| "strcmp [] (b # bs) = uchar NUL - uchar b"
| "strcmp (a # as) [] = uchar a - uchar NUL"
| "strcmp (a # as) (b # bs) =
     (if a \<noteq> NUL \<and> a = b then strcmp as bs else uchar a - uchar b)"

fun strncmp_loop :: "nat \<Rightarrow> string \<Rightarrow> string \<Rightarrow> nat \<Rightarrow> int" where
  "strncmp_loop i (a # as) (b # bs) n =
     (if a \<noteq> NUL \<and> a = b \<and> i \<noteq> n then strncmp_loop (Suc i) as bs n
      else if i = n then 0 else uchar a - uchar b)"
| "strncmp_loop i as bs n =
     (if i = n then 0
      else uchar (case as of [] \<Rightarrow> NUL | a # _ \<Rightarrow> a) - uchar (case bs of [] \<Rightarrow> NUL | b # _ \<Rightarrow> b))"

definition strncmp :: "string \<Rightarrow> string \<Rightarrow> nat \<Rightarrow> int" where
  "strncmp s1 s2 n = strncmp_loop 0 s1 s2 n"

definition strcoll :: "string \<Rightarrow> string \<Rightarrow> int" where
  "strcoll s1 s2 = strcmp s1 s2"

text \<open>The inner loops of \<open>strspn\<close> and \<open>strpbrk\<close> look a character up in \<open>accept\<close>.\<close>

fun accepts :: "string \<Rightarrow> char \<Rightarrow> bool" where
  "accepts [] c = False"
| "accepts (p # ps) c = (if p = NUL then False else if c = p then True else accepts ps c)"

fun strspn :: "string \<Rightarrow> string \<Rightarrow> nat" where
  "strspn [] acc = 0"
| "strspn (c # cs) acc = (if c = NUL then 0 else if accepts acc c then Suc (strspn cs acc) else 0)"

fun strpbrk_from :: "nat \<Rightarrow> string \<Rightarrow> string \<Rightarrow> nat option" where
  "strpbrk_from i [] acc = None"
| "strpbrk_from i (c # cs) acc =
     (if c = NUL then None else if accepts acc c then Some i else strpbrk_from (Suc i) cs acc)"

definition strpbrk :: "string \<Rightarrow> string \<Rightarrow> nat option" where
  "strpbrk s acc = strpbrk_from 0 s acc"

fun strstr_from :: "nat \<Rightarrow> string \<Rightarrow> string \<Rightarrow> nat \<Rightarrow> nat option" where
  "strstr_from i [] needle n = None"
| "strstr_from i (c # cs) needle n =
     (if c = NUL then None
      else if strncmp (c # cs) needle n = 0 then Some i
      else strstr_from (Suc i) cs needle n)"

definition strstr :: "string \<Rightarrow> string \<Rightarrow> nat option" where
  "strstr haystack needle = strstr_from 0 haystack needle (strlen needle)"

subsection \<open>The character classes\<close>

definition isdigit :: "int \<Rightarrow> bool" where
  "isdigit c \<longleftrightarrow> c \<ge> 48 \<and> c \<le> 57"
definition isupper :: "int \<Rightarrow> bool" where
  "isupper c \<longleftrightarrow> c \<ge> 65 \<and> c \<le> 90"
definition islower :: "int \<Rightarrow> bool" where
  "islower c \<longleftrightarrow> c \<ge> 97 \<and> c \<le> 122"
definition isalpha :: "int \<Rightarrow> bool" where
  "isalpha c \<longleftrightarrow> (c \<ge> 65 \<and> c \<le> 90) \<or> (c \<ge> 97 \<and> c \<le> 122)"
definition isalnum :: "int \<Rightarrow> bool" where
  "isalnum c \<longleftrightarrow> isalpha c \<or> isdigit c"
definition isxdigit :: "int \<Rightarrow> bool" where
  "isxdigit c \<longleftrightarrow> isdigit c \<or> (c \<ge> 97 \<and> c \<le> 102) \<or> (c \<ge> 65 \<and> c \<le> 70)"
definition isspace :: "int \<Rightarrow> bool" where
  "isspace c \<longleftrightarrow> c = 32 \<or> c = 9 \<or> c = 13 \<or> c = 10"
definition isprint :: "int \<Rightarrow> bool" where
  "isprint c \<longleftrightarrow> (c \<ge> 32 \<and> c < 256) \<or> isspace c"
definition ispunct :: "int \<Rightarrow> bool" where
  "ispunct c \<longleftrightarrow> isprint c \<and> \<not> isspace c"
definition isgraph :: "int \<Rightarrow> bool" where
  "isgraph c \<longleftrightarrow> c > 32 \<and> c < 256"
definition iscntrl :: "int \<Rightarrow> bool" where
  "iscntrl c \<longleftrightarrow> c > 0 \<and> c < 32"
definition toupper :: "int \<Rightarrow> int" where
  "toupper c = (if islower c then c + 65 - 97 else c)"
definition tolower :: "int \<Rightarrow> int" where
  "tolower c = (if isupper c then c + 97 - 65 else c)"

section \<open>Properties of the readers\<close>

lemma uchar_inj [simp]: "uchar a = uchar b \<longleftrightarrow> a = b"
  by (simp add: uchar_def)

lemma uchar_NUL [simp]: "uchar NUL = 0"
  by (simp add: uchar_def NUL_def)

lemma uchar_range: "0 \<le> uchar c" "uchar c < 256"
  by (cases c, auto simp: uchar_def of_char_def horner_sum_simps split: bool.splits)+

lemma c_str_simps [simp]:
  "c_str [] = []"
  "c_str (c # cs) = (if c = NUL then [] else c # c_str cs)"
  by (simp_all add: c_str_def)

lemma uchar_pos_iff [simp]: "0 < uchar c \<longleftrightarrow> c \<noteq> NUL"
  using uchar_range(1) [of c] uchar_inj [of c NUL] by (auto simp del: uchar_inj)

lemma uchar_zero_iff [simp]: "uchar c = 0 \<longleftrightarrow> c = NUL"
  using uchar_inj [of c NUL] by (simp del: uchar_inj)

lemma NUL_notin_c_str: "NUL \<notin> set (c_str s)"
  by (induction s) auto

lemma c_str_idem [simp]: "c_str (c_str s) = c_str s"
  by (induction s) auto

lemma c_str_id: "NUL \<notin> set s \<Longrightarrow> c_str s = s"
  by (induction s) auto

lemma strlen_c_str: "strlen s = length (c_str s)"
  by (induction s) auto

subsection \<open>Comparison\<close>

text \<open>
  \<open>strcmp\<close> depends on the two C strings only, is zero exactly on equal strings and is a
  total order by sign.
\<close>

lemma strcmp_c_str: "strcmp (c_str s) (c_str t) = strcmp s t"
  by (induction s t rule: strcmp.induct) auto

lemma strcmp_zero_iff: "strcmp s t = 0 \<longleftrightarrow> c_str s = c_str t"
  by (induction s t rule: strcmp.induct) (auto split: if_splits)

lemma strcmp_antisym: "strcmp t s = - strcmp s t"
  by (induction s t rule: strcmp.induct) auto

lemma strcmp_trans_le: "strcmp s t \<le> 0 \<Longrightarrow> strcmp t u \<le> 0 \<Longrightarrow> strcmp s u \<le> 0"
proof (induction s t arbitrary: u rule: strcmp.induct)
  case 1
  then show ?case by simp
next
  case (2 b bs)
  then show ?case using uchar_range by (cases u) auto
next
  case (3 a as)
  then show ?case using uchar_range(1) [of a] uchar_pos_iff [of a] by (cases u) auto
next
  case (4 a as b bs)
  show ?case
  proof (cases u)
    case Nil
    with 4 uchar_range(1) [of a] uchar_range(1) [of b] show ?thesis
      by (auto split: if_splits)
  next
    case (Cons c cs)
    with 4 uchar_range(1) [of a] uchar_range(1) [of b] uchar_range(1) [of c] show ?thesis
      by (auto split: if_splits)
  qed
qed

lemma strncmp_loop_zero_iff:
  "i \<le> n \<Longrightarrow> strncmp_loop i s t n = 0 \<longleftrightarrow> take (n - i) (c_str s) = take (n - i) (c_str t)"
proof (induction i s t n rule: strncmp_loop.induct [case_names Both Left Right])
  case (Both i a as b bs n)
  show ?case
  proof (cases "i = n")
    case False
    with Both.prems have "n - i = Suc (n - Suc i)" by simp
    with False Both show ?thesis by (auto simp: take_Suc_Cons)
  qed simp
next
  case (Left i bs n)
  then show ?case by (cases bs) (auto simp: take_eq_Nil)
next
  case (Right i as n)
  then show ?case by (cases as) (auto simp: take_eq_Nil)
qed

lemma strncmp_zero_iff: "strncmp s t n = 0 \<longleftrightarrow> take n (c_str s) = take n (c_str t)"
  by (simp add: strncmp_def strncmp_loop_zero_iff)

subsection \<open>Searching\<close>

lemma strchr_from_Some:
  "strchr_from i s c = Some j \<Longrightarrow>
     i \<le> j \<and> (j - i < length s \<and> s ! (j - i) = c \<or> j - i = length s \<and> c = NUL)
     \<and> (\<forall>k < j - i. s ! k \<noteq> c \<and> s ! k \<noteq> NUL)"
proof (induction i s c rule: strchr_from.induct)
  case (2 i x xs c)
  show ?case
  proof (cases "x = c \<or> x = NUL")
    case False
    with 2 have ih: "Suc i \<le> j"
      "j - Suc i < length xs \<and> xs ! (j - Suc i) = c \<or> j - Suc i = length xs \<and> c = NUL"
      "\<forall>k < j - Suc i. xs ! k \<noteq> c \<and> xs ! k \<noteq> NUL" by auto
    from ih(1) have "j - i = Suc (j - Suc i)" by simp
    with ih False show ?thesis
      by (auto simp: nth_Cons split: nat.splits)
  qed (use 2 in \<open>auto split: if_splits\<close>)
qed (auto split: if_splits)

lemma strchr_from_None: "strchr_from i s c = None \<longleftrightarrow> c \<noteq> NUL \<and> c \<notin> set (c_str s)"
  by (induction i s c rule: strchr_from.induct) auto

lemma strstr_from_Some:
  "strstr_from i s t n = Some j \<Longrightarrow>
     i \<le> j \<and> j - i < strlen s \<and> take n (c_str (drop (j - i) s)) = take n (c_str t)
     \<and> (\<forall>k < j - i. take n (c_str (drop k s)) \<noteq> take n (c_str t))"
proof (induction i s t n rule: strstr_from.induct)
  case (2 i c cs t n)
  show ?case
  proof (cases "c = NUL \<or> strncmp (c # cs) t n = 0")
    case True
    with 2 show ?thesis by (auto simp: strncmp_zero_iff split: if_splits)
  next
    case False
    with 2 have ih: "Suc i \<le> j" "j - Suc i < strlen cs"
      "take n (c_str (drop (j - Suc i) cs)) = take n (c_str t)"
      "\<forall>k < j - Suc i. take n (c_str (drop k cs)) \<noteq> take n (c_str t)" by auto
    from ih(1) have "j - i = Suc (j - Suc i)" by simp
    with ih False show ?thesis
      by (auto simp: strncmp_zero_iff drop_Cons split: nat.splits)
  qed
qed simp

lemma strspn_takeWhile: "strspn s acc = length (takeWhile (accepts acc) (c_str s))"
  by (induction s) auto

lemma accepts_iff: "accepts acc c \<longleftrightarrow> c \<in> set (c_str acc)"
  by (induction acc) auto

section \<open>Writing memory\<close>

type_synonym memory = "u8 list"

definition mem_rd :: "memory \<Rightarrow> nat \<Rightarrow> u8 res" where
  "mem_rd m a = (if a < length m then Inr (m ! a) else Inl Bad_access)"

definition mem_wr :: "memory \<Rightarrow> nat \<Rightarrow> u8 \<Rightarrow> memory res" where
  "mem_wr m a v = (if a < length m then Inr (m[a := v]) else Inl Bad_access)"

text \<open>A 32-bit access moves four bytes at once; which of them is the least significant one
  does not matter to a copy, so a word is its four bytes in address order.\<close>

definition mem_rd32 :: "memory \<Rightarrow> nat \<Rightarrow> u8 list res" where
  "mem_rd32 m a = (if a + 4 \<le> length m then Inr (take 4 (drop a m)) else Inl Bad_access)"

definition mem_wr32 :: "memory \<Rightarrow> nat \<Rightarrow> u8 list \<Rightarrow> memory res" where
  "mem_wr32 m a w =
     (if a + 4 \<le> length m then Inr (take a m @ w @ drop (a + 4) m) else Inl Bad_access)"

primrec memcpy_words :: "memory \<Rightarrow> nat \<Rightarrow> nat \<Rightarrow> nat \<Rightarrow> nat \<Rightarrow> memory res" where
  "memcpy_words m d s i 0 = Inr m"
| "memcpy_words m d s i (Suc k) =
     (case mem_rd32 m (s + 4 * i) of Inl e \<Rightarrow> Inl e
      | Inr w \<Rightarrow> (case mem_wr32 m (d + 4 * i) w of Inl e \<Rightarrow> Inl e
        | Inr m' \<Rightarrow> memcpy_words m' d s (Suc i) k))"

primrec copy_bytes :: "memory \<Rightarrow> nat \<Rightarrow> nat \<Rightarrow> nat \<Rightarrow> nat \<Rightarrow> memory res" where
  "copy_bytes m d s i 0 = Inr m"
| "copy_bytes m d s i (Suc k) =
     (case mem_rd m (s + i) of Inl e \<Rightarrow> Inl e
      | Inr b \<Rightarrow> (case mem_wr m (d + i) b of Inl e \<Rightarrow> Inl e
        | Inr m' \<Rightarrow> copy_bytes m' d s (Suc i) k))"

definition memcpy :: "memory \<Rightarrow> nat \<Rightarrow> nat \<Rightarrow> nat \<Rightarrow> memory res" where
  "memcpy m d s cnt =
     (let f = cnt mod 4; n = cnt div 4 in
      case memcpy_words m d s 0 n of Inl e \<Rightarrow> Inl e
      | Inr m' \<Rightarrow> (if f \<noteq> 0 then copy_bytes m' d s (cnt - f) f else Inr m'))"

primrec memmove_down :: "memory \<Rightarrow> nat \<Rightarrow> nat \<Rightarrow> nat \<Rightarrow> nat \<Rightarrow> nat \<Rightarrow> memory res" where
  "memmove_down m d s cnt i 0 = Inr m"
| "memmove_down m d s cnt i (Suc k) =
     (case mem_rd m (s + (cnt - i)) of Inl e \<Rightarrow> Inl e
      | Inr b \<Rightarrow> (case mem_wr m (d + (cnt - i)) b of Inl e \<Rightarrow> Inl e
        | Inr m' \<Rightarrow> memmove_down m' d s cnt (Suc i) k))"

definition memmove :: "memory \<Rightarrow> nat \<Rightarrow> nat \<Rightarrow> nat \<Rightarrow> memory res" where
  "memmove m d s cnt =
     (if d < s then copy_bytes m d s 0 cnt else memmove_down m d s cnt 0 cnt)"

primrec set_words :: "memory \<Rightarrow> nat \<Rightarrow> u8 \<Rightarrow> nat \<Rightarrow> nat \<Rightarrow> memory res" where
  "set_words m d v i 0 = Inr m"
| "set_words m d v i (Suc k) =
     (case mem_wr32 m (d + 4 * i) [v, v, v, v] of Inl e \<Rightarrow> Inl e
      | Inr m' \<Rightarrow> set_words m' d v (Suc i) k)"

primrec set_bytes :: "memory \<Rightarrow> nat \<Rightarrow> u8 \<Rightarrow> nat \<Rightarrow> nat \<Rightarrow> memory res" where
  "set_bytes m d v i 0 = Inr m"
| "set_bytes m d v i (Suc k) =
     (case mem_wr m (d + i) v of Inl e \<Rightarrow> Inl e
      | Inr m' \<Rightarrow> set_bytes m' d v (Suc i) k)"

definition memset :: "memory \<Rightarrow> nat \<Rightarrow> u32 \<Rightarrow> nat \<Rightarrow> memory res" where
  "memset m d val cnt =
     (let uval = (ucast (val AND 0xFF) :: u8) in
      case set_words m d uval 0 (cnt div 4) of Inl e \<Rightarrow> Inl e
      | Inr m' \<Rightarrow> set_bytes m' d uval (cnt - cnt mod 4) (cnt mod 4))"

fun memcmp :: "u8 list \<Rightarrow> u8 list \<Rightarrow> int" where
  "memcmp (a # as) (b # bs) = (if a \<noteq> b then uint a - uint b else memcmp as bs)"
| "memcmp _ _ = 0"

fun memchr_from :: "nat \<Rightarrow> u8 list \<Rightarrow> u32 \<Rightarrow> nat option" where
  "memchr_from i [] c = None"
| "memchr_from i (p # ps) c = (if p = ucast c then Some i else memchr_from (Suc i) ps c)"

text \<open>The length of the string at an address; running off the memory is an error.\<close>

fun strlen_at :: "u8 list \<Rightarrow> nat res" where
  "strlen_at [] = Inl Bad_access"
| "strlen_at (b # bs) =
     (if b = 0 then Inr 0 else (case strlen_at bs of Inl e \<Rightarrow> Inl e | Inr n \<Rightarrow> Inr (Suc n)))"

definition strcpy :: "memory \<Rightarrow> nat \<Rightarrow> nat \<Rightarrow> memory res" where
  "strcpy m dest src =
     (case strlen_at (drop src m) of Inl e \<Rightarrow> Inl e | Inr n \<Rightarrow> memcpy m dest src (n + 1))"

definition strncpy :: "memory \<Rightarrow> nat \<Rightarrow> nat \<Rightarrow> nat \<Rightarrow> memory res" where
  "strncpy m dest src n =
     (case strlen_at (drop src m) of Inl e \<Rightarrow> Inl e
      | Inr len \<Rightarrow>
        (let x = (if n < len then n else len) in
         case memcpy m dest src x of Inl e \<Rightarrow> Inl e
         | Inr m' \<Rightarrow> (if n > x then memset m' (dest + x) 0 (n - x) else Inr m')))"

function strcat_loop :: "memory \<Rightarrow> nat \<Rightarrow> nat \<Rightarrow> memory res" where
  "strcat_loop m d s =
     (if s < length m \<and> d < length m
      then (if m ! s = 0 then mem_wr m d 0
            else strcat_loop (m[d := m ! s]) (Suc d) (Suc s))
      else Inl Bad_access)"
  by pat_completeness auto
termination
  by (relation "measure (\<lambda>(m, d, s). length m - s)") auto

declare strcat_loop.simps [simp del]

definition strcat :: "memory \<Rightarrow> nat \<Rightarrow> nat \<Rightarrow> memory res" where
  "strcat m dest src =
     (case strlen_at (drop dest m) of Inl e \<Rightarrow> Inl e
      | Inr n \<Rightarrow> (if dest + n = 0 then Inl Bad_access else strcat_loop m (dest + n - 1) src))"

definition strdup :: "heap \<Rightarrow> string \<Rightarrow> string option \<times> heap" where
  "strdup h str =
     (case heap_malloc h of (ok, h') \<Rightarrow> (if ok then (Some (c_str str), h') else (None, h')))"

definition strndup :: "heap \<Rightarrow> string \<Rightarrow> nat \<Rightarrow> string option \<times> heap" where
  "strndup h str cnt =
     (let len = (if cnt < strlen str then cnt else strlen str) in
      case heap_malloc h of (ok, h') \<Rightarrow> (if ok then (Some (take len str), h') else (None, h')))"

section \<open>Properties of the writers\<close>

text \<open>The effect every writer should have: the bytes \<open>bs\<close> at \<open>d\<close>, nothing else.\<close>

definition blit :: "memory \<Rightarrow> nat \<Rightarrow> u8 list \<Rightarrow> memory" where
  "blit m d bs = take d m @ bs @ drop (d + length bs) m"

lemma length_blit [simp]: "d + length bs \<le> length m \<Longrightarrow> length (blit m d bs) = length m"
  by (simp add: blit_def)

lemma blit_Nil [simp]: "blit m d [] = m"
  by (simp add: blit_def)

lemma nth_blit:
  "d + length bs \<le> length m \<Longrightarrow> k < length m \<Longrightarrow>
     blit m d bs ! k = (if d \<le> k \<and> k < d + length bs then bs ! (k - d) else m ! k)"
  by (auto simp: blit_def nth_append min_def)

lemma mem_wr_blit: "a < length m \<Longrightarrow> mem_wr m a v = Inr (blit m a [v])"
  by (simp add: mem_wr_def blit_def upd_conv_take_nth_drop)

lemma mem_wr32_blit: "a + 4 \<le> length m \<Longrightarrow> length w = 4 \<Longrightarrow> mem_wr32 m a w = Inr (blit m a w)"
  by (simp add: mem_wr32_def blit_def)

lemma blit_blit_adjacent:
  "d + length xs + length ys \<le> length m \<Longrightarrow>
     blit (blit m d xs) (d + length xs) ys = blit m d (xs @ ys)"
  by (rule nth_equalityI) (auto simp: nth_blit nth_append)

lemma drop_blit_after: "d + length bs \<le> s \<Longrightarrow> d + length bs \<le> length m \<Longrightarrow> drop s (blit m d bs) = drop s m"
  by (rule nth_equalityI) (auto simp: nth_blit)

lemma take_drop_blit:
  "d + length bs \<le> length m \<Longrightarrow> d + length bs \<le> a \<or> a + k \<le> d \<Longrightarrow>
     take k (drop a (blit m d bs)) = take k (drop a m)"
  by (rule nth_equalityI) (auto simp: nth_blit)

lemma take_drop_blit_same:
  "d + length bs \<le> length m \<Longrightarrow> take (length bs) (drop d (blit m d bs)) = bs"
  by (simp add: blit_def)

lemma blit_blit_below:
  "d + length xs + length ys \<le> length m \<Longrightarrow>
     blit (blit m (d + length xs) ys) d xs = blit m d (xs @ ys)"
  by (rule nth_equalityI) (auto simp: nth_blit nth_append)

lemma take_Suc_drop:
  "a + Suc k \<le> length m \<Longrightarrow> take (Suc k) (drop a m) = m ! a # take k (drop (Suc a) m)"
  by (simp add: Cons_nth_drop_Suc [symmetric])

lemma copy_bytes_blit:
  "d + i + k \<le> length m \<Longrightarrow> s + i + k \<le> length m \<Longrightarrow> d \<le> s \<or> s + i + k \<le> d + i \<Longrightarrow>
     copy_bytes m d s i k = Inr (blit m (d + i) (take k (drop (s + i) m)))"
proof (induction k arbitrary: m i)
  case 0
  then show ?case by simp
next
  case (Suc k)
  let ?m = "blit m (d + i) [m ! (s + i)]"
  have len: "length ?m = length m" using Suc.prems by simp
  have "copy_bytes ?m d s (Suc i) k = Inr (blit ?m (d + Suc i) (take k (drop (s + Suc i) ?m)))"
    by (rule Suc.IH) (use Suc.prems len in auto)
  also have "take k (drop (s + Suc i) ?m) = take k (drop (s + Suc i) m)"
    by (rule take_drop_blit) (use Suc.prems in auto)
  also have "blit ?m (d + Suc i) (take k (drop (s + Suc i) m))
      = blit m (d + i) (take (Suc k) (drop (s + i) m))"
    using blit_blit_adjacent [of "d + i" "[m ! (s + i)]" "take k (drop (s + Suc i) m)" m] Suc.prems
    by (simp add: take_Suc_drop)
  finally show ?case
    using Suc.prems by (simp add: mem_rd_def mem_wr_blit)
qed

lemma memcpy_words_blit:
  "d + 4 * (i + k) \<le> length m \<Longrightarrow> s + 4 * (i + k) \<le> length m \<Longrightarrow>
   d \<le> s \<or> s + 4 * (i + k) \<le> d + 4 * i \<Longrightarrow>
     memcpy_words m d s i k = Inr (blit m (d + 4 * i) (take (4 * k) (drop (s + 4 * i) m)))"
proof (induction k arbitrary: m i)
  case 0
  then show ?case by simp
next
  case (Suc k)
  let ?w = "take 4 (drop (s + 4 * i) m)"
  let ?m = "blit m (d + 4 * i) ?w"
  have lw: "length ?w = 4" using Suc.prems by simp
  have len: "length ?m = length m" using Suc.prems lw by simp
  have "memcpy_words ?m d s (Suc i) k
      = Inr (blit ?m (d + 4 * Suc i) (take (4 * k) (drop (s + 4 * Suc i) ?m)))"
    by (rule Suc.IH) (use Suc.prems len in auto)
  also have "take (4 * k) (drop (s + 4 * Suc i) ?m) = take (4 * k) (drop (s + 4 * Suc i) m)"
    by (rule take_drop_blit) (use Suc.prems lw in auto)
  also have "blit ?m (d + 4 * Suc i) (take (4 * k) (drop (s + 4 * Suc i) m))
      = blit m (d + 4 * i) (?w @ take (4 * k) (drop (s + 4 * Suc i) m))"
    using blit_blit_adjacent [of "d + 4 * i" ?w "take (4 * k) (drop (s + 4 * Suc i) m)" m]
      Suc.prems lw by (simp add: ac_simps)
  also have "?w @ take (4 * k) (drop (s + 4 * Suc i) m) = take (4 * Suc k) (drop (s + 4 * i) m)"
    by (simp add: take_add add.commute add.left_commute)
  finally show ?case
    using Suc.prems lw by (simp add: mem_rd32_def mem_wr32_blit)
qed

lemma memcpy_blit:
  assumes "d + n \<le> length m" and "s + n \<le> length m" and "d \<le> s \<or> s + n \<le> d"
  shows "memcpy m d s n = Inr (blit m d (take n (drop s m)))"
proof -
  define q where "q = 4 * (n div 4)"
  define f where "f = n mod 4"
  have n: "n = q + f" "n - n mod 4 = q"
    using mult_div_mod_eq [of 4 n] by (simp_all only: q_def f_def minus_mod_eq_mult_div)
  let ?m = "blit m d (take q (drop s m))"
  have "memcpy_words m d s 0 (n div 4) = Inr ?m"
  proof -
    have "q \<le> n" by (simp add: n(1))
    with assms have "d + q \<le> length m" "s + q \<le> length m" "d \<le> s \<or> s + q \<le> d" by auto
    then show ?thesis
      using memcpy_words_blit [of d 0 "n div 4" m s] by (simp add: q_def)
  qed
  moreover have "copy_bytes ?m d s q f = Inr (blit m d (take n (drop s m)))"
  proof -
    have "copy_bytes ?m d s q f = Inr (blit ?m (d + q) (take f (drop (s + q) ?m)))"
      by (rule copy_bytes_blit) (use assms n(1) in auto)
    also have "take f (drop (s + q) ?m) = take f (drop (s + q) m)"
      by (rule take_drop_blit) (use assms n(1) in auto)
    also have "blit ?m (d + q) (take f (drop (s + q) m)) = blit m d (take n (drop s m))"
      using blit_blit_adjacent [of d "take q (drop s m)" "take f (drop (s + q) m)" m] assms
      by (simp add: n(1) take_add add.commute [of q s])
    finally show ?thesis .
  qed
  moreover have "f = 0 \<Longrightarrow> ?m = blit m d (take n (drop s m))"
    by (simp add: n(1))
  ultimately show ?thesis
    by (cases "f = 0") (simp_all only: memcpy_def Let_def n(2) f_def sum.case if_True if_False simp_thms)
qed

lemma memmove_down_blit:
  "i + k = n \<Longrightarrow> d + Suc k \<le> length m \<Longrightarrow> s \<le> d \<Longrightarrow>
     memmove_down m d s n i k = Inr (blit m (Suc d) (take k (drop (Suc s) m)))"
proof (induction k arbitrary: m i)
  case 0
  then show ?case by simp
next
  case (Suc k)
  let ?b = "m ! (s + Suc k)"
  let ?m = "blit m (d + Suc k) [?b]"
  have ni: "n - i = Suc k" using Suc.prems by simp
  have len: "length ?m = length m" using Suc.prems by simp
  have "memmove_down ?m d s n (Suc i) k = Inr (blit ?m (Suc d) (take k (drop (Suc s) ?m)))"
    by (rule Suc.IH) (use Suc.prems len in auto)
  also have "take k (drop (Suc s) ?m) = take k (drop (Suc s) m)"
    by (rule take_drop_blit) (use Suc.prems in auto)
  also have "blit ?m (Suc d) (take k (drop (Suc s) m))
      = blit m (Suc d) (take k (drop (Suc s) m) @ [?b])"
    using blit_blit_below [of "Suc d" "take k (drop (Suc s) m)" "[?b]" m] Suc.prems by simp
  also have "take k (drop (Suc s) m) @ [?b] = take (Suc k) (drop (Suc s) m)"
    using Suc.prems by (simp add: take_Suc_conv_app_nth)
  finally show ?case
    using Suc.prems ni by (simp add: mem_rd_def mem_wr_blit)
qed

lemma set_bytes_blit:
  "d + i + k \<le> length m \<Longrightarrow> set_bytes m d v i k = Inr (blit m (d + i) (replicate k v))"
proof (induction k arbitrary: m i)
  case 0
  then show ?case by simp
next
  case (Suc k)
  have "set_bytes (blit m (d + i) [v]) d v (Suc i) k
      = Inr (blit (blit m (d + i) [v]) (d + Suc i) (replicate k v))"
    by (rule Suc.IH) (use Suc.prems in simp)
  with Suc.prems show ?case
    using blit_blit_adjacent [of "d + i" "[v]" "replicate k v" m] by (simp add: mem_wr_blit)
qed

lemma set_words_blit:
  "d + 4 * (i + k) \<le> length m \<Longrightarrow>
     set_words m d v i k = Inr (blit m (d + 4 * i) (replicate (4 * k) v))"
proof (induction k arbitrary: m i)
  case 0
  then show ?case by simp
next
  case (Suc k)
  have w: "[v, v, v, v] = replicate 4 v" by (simp add: numeral_eq_Suc)
  let ?m = "blit m (d + 4 * i) (replicate 4 v)"
  have "set_words ?m d v (Suc i) k = Inr (blit ?m (d + 4 * Suc i) (replicate (4 * k) v))"
    by (rule Suc.IH) (use Suc.prems in simp)
  with Suc.prems show ?case
    using blit_blit_adjacent [of "d + 4 * i" "replicate 4 v" "replicate (4 * k) v" m]
    by (simp add: w mem_wr32_blit replicate_add ac_simps)
qed

lemma memset_blit:
  assumes "d + n \<le> length m"
  shows "memset m d val n = Inr (blit m d (replicate n (ucast (val AND 0xFF))))"
proof -
  let ?v = "ucast (val AND 0xFF) :: u8"
  define q where "q = 4 * (n div 4)"
  define f where "f = n mod 4"
  have n: "n = q + f" "n - n mod 4 = q"
    using mult_div_mod_eq [of 4 n] by (simp_all only: q_def f_def minus_mod_eq_mult_div)
  have "set_words m d ?v 0 (n div 4) = Inr (blit m d (replicate q ?v))"
  proof -
    have "d + q \<le> length m" using assms by (simp add: n(1))
    then show ?thesis
      using set_words_blit [of d 0 "n div 4" m ?v] by (simp add: q_def)
  qed
  moreover have "set_bytes (blit m d (replicate q ?v)) d ?v q f
      = Inr (blit m d (replicate q ?v @ replicate f ?v))"
    using set_bytes_blit [of d q f "blit m d (replicate q ?v)" ?v]
      blit_blit_adjacent [of d "replicate q ?v" "replicate f ?v" m] assms n(1) by simp
  moreover have "replicate q ?v @ replicate f ?v = replicate n ?v"
    by (simp add: n(1) replicate_add)
  ultimately show ?thesis
    by (simp only: memset_def Let_def n(2) f_def sum.case)
qed

subsection \<open>Strings in memory\<close>

definition string_at :: "memory \<Rightarrow> nat \<Rightarrow> u8 list \<Rightarrow> bool" where
  "string_at m a bs \<longleftrightarrow> 0 \<notin> set bs \<and> take (Suc (length bs)) (drop a m) = bs @ [0]"

lemma string_at_bound: "string_at m a bs \<Longrightarrow> a + length bs < length m"
  unfolding string_at_def using length_take [of "Suc (length bs)" "drop a m"] by simp

lemma string_at_Cons:
  "string_at m a (b # bs) \<longleftrightarrow> a < length m \<and> m ! a = b \<and> b \<noteq> 0 \<and> string_at m (Suc a) bs"
  by (cases "a < length m")
    (auto simp: string_at_def Cons_nth_drop_Suc [symmetric] dest: sym)

lemma string_at_Nil: "string_at m a [] \<longleftrightarrow> a < length m \<and> m ! a = 0"
  by (cases "a < length m") (auto simp: string_at_def take_Suc_conv_app_nth hd_drop_conv_nth take_Suc)

lemma strlen_at_string: "string_at m a bs \<Longrightarrow> strlen_at (drop a m) = Inr (length bs)"
  by (induction bs arbitrary: a)
    (auto simp: string_at_Nil string_at_Cons Cons_nth_drop_Suc [symmetric])

lemma string_at_blit_other:
  assumes "string_at m a bs" and "d + length xs \<le> length m"
    and "d + length xs \<le> a \<or> a + length bs < d"
  shows "string_at (blit m d xs) a bs"
proof -
  have "take (Suc (length bs)) (drop a (blit m d xs)) = take (Suc (length bs)) (drop a m)"
    by (rule take_drop_blit) (use assms in auto)
  with assms(1) show ?thesis by (simp add: string_at_def)
qed

lemma strcat_loop_blit:
  "string_at m s bs \<Longrightarrow> d + length bs < length m \<Longrightarrow> d + length bs < s \<or> s + length bs < d \<Longrightarrow>
     strcat_loop m d s = Inr (blit m d (bs @ [0]))"
proof (induction bs arbitrary: m d s)
  case Nil
  then show ?case
    by (subst strcat_loop.simps) (simp add: string_at_Nil mem_wr_blit)
next
  case (Cons b bs)
  then have b: "s < length m" "m ! s = b" "b \<noteq> 0" "string_at m (Suc s) bs"
    by (auto simp: string_at_Cons)
  have upd: "m[d := b] = blit m d [b]"
    using Cons.prems by (simp add: blit_def upd_conv_take_nth_drop)
  have "strcat_loop (blit m d [b]) (Suc d) (Suc s) = Inr (blit (blit m d [b]) (Suc d) (bs @ [0]))"
    by (rule Cons.IH) (use Cons.prems b(4) in \<open>auto intro!: string_at_blit_other\<close>)
  also have "\<dots> = Inr (blit m d ((b # bs) @ [0]))"
    using blit_blit_adjacent [of d "[b]" "bs @ [0]" m] Cons.prems by simp
  finally show ?case
    using b Cons.prems by (subst strcat_loop.simps) (simp add: upd)
qed

section \<open>Properties\<close>

text \<open>\<open>strcmp\<close> is a total order on the strings up to their first NUL: it answers zero exactly
  for equal strings, exchanging the arguments negates the answer, and it is transitive.\<close>

theorem strcmp_total_order:
  "(strcmp s t = 0 \<longleftrightarrow> c_str s = c_str t) \<and> strcmp t s = - strcmp s t
     \<and> (strcmp s t \<le> 0 \<and> strcmp t u \<le> 0 \<longrightarrow> strcmp s u \<le> 0)"
  using strcmp_zero_iff strcmp_antisym strcmp_trans_le by blast

theorem strcmp_total_order_witness: "strcmp ''ab'' ''b'' \<le> 0 \<and> strcmp ''ab'' ''c'' \<le> 0"
  using strcmp_total_order [of "''ab''" "''b''" "''c''"] by (simp add: NUL_def uchar_def)

text \<open>\<open>memcpy\<close>, which copies words and then the odd bytes, writes the source bytes to the
  destination and nothing else, when both lie in memory and the destination does not start inside the
  source.\<close>

theorem memcpy_correct:
  assumes "d + n \<le> length m" and "s + n \<le> length m" and "d \<le> s \<or> s + n \<le> d"
  shows "\<exists>m'. memcpy m d s n = Inr m' \<and> length m' = length m
    \<and> (\<forall>k < length m. m' ! k = (if d \<le> k \<and> k < d + n then m ! (s + (k - d)) else m ! k))"
  unfolding memcpy_blit [OF assms] using assms
  by (intro exI [of _ "blit m d (take n (drop s m))"]) (auto simp: nth_blit)

theorem memcpy_correct_witness:
  "\<exists>m'. memcpy [1, 2, 3, 4, 5, 6, 7, 8, 9, 10, 11, 12] 7 1 5 = Inr m' \<and> m' ! 11 = 6 \<and> m' ! 6 = 7"
  using memcpy_correct [of 7 5 "[1, 2, 3, 4, 5, 6, 7, 8, 9, 10, 11, 12]" 1] by force

text \<open>C17: when the destination is not below the source, \<open>memmove\<close> counts down with indices one too high:
  it copies the \<open>n\<close> bytes after the first one, so the first byte of the destination keeps its old value and
  the byte after the destination is overwritten.\<close>

theorem memmove_up_is_shifted:
  assumes "s \<le> d" and "d + n + 1 \<le> length m"
  shows "\<exists>m'. memmove m d s n = Inr m' \<and> length m' = length m
    \<and> (\<forall>k < length m. m' ! k = (if d < k \<and> k \<le> d + n then m ! (s + (k - d)) else m ! k))"
proof -
  have "memmove m d s n = Inr (blit m (Suc d) (take n (drop (Suc s) m)))"
    using assms memmove_down_blit [of 0 n n d m s] by (simp add: memmove_def)
  moreover have "length (take n (drop (Suc s) m)) = n" using assms by simp
  ultimately show ?thesis
    using assms
    by (intro exI [of _ "blit m (Suc d) (take n (drop (Suc s) m))"]) (auto simp: nth_blit Suc_diff_Suc)
qed

theorem memmove_up_is_shifted_witness:
  "\<exists>m'. memmove [10, 11, 12, 13, 14] 2 1 2 = Inr m' \<and> m' ! 2 = 12 \<and> m' ! 4 = 13"
  using memmove_up_is_shifted [of 1 2 2 "[10, 11, 12, 13, 14]"] by force

text \<open>\<open>strcat\<close> starts writing over the last character of its destination: appending \<open>bs\<close> to
  the string \<open>as\<close> followed by \<open>x\<close> leaves \<open>as\<close> followed by \<open>bs\<close>.\<close>

theorem strcat_drops_last:
  assumes "string_at m dest (as @ [x])" and "string_at m src bs"
    and "dest + length as + length bs < length m"
    and "dest + length as + length bs < src \<or> src + length bs < dest"
  shows "\<exists>m'. strcat m dest src = Inr m' \<and> string_at m' dest (as @ bs)"
proof -
  let ?d = "dest + length as"
  have loop: "strcat_loop m ?d src = Inr (blit m ?d (bs @ [0]))"
    by (rule strcat_loop_blit) (use assms in auto)
  have "strcat m dest src = Inr (blit m ?d (bs @ [0]))"
    using strlen_at_string [OF assms(1)] loop by (simp add: strcat_def)
  moreover have "string_at (blit m ?d (bs @ [0])) dest (as @ bs)"
  proof -
    have no0: "0 \<notin> set (as @ bs)" using assms(1,2) by (auto simp: string_at_def)
    have as: "take (length as) (drop dest m) = as"
      using assms(1) unfolding string_at_def
      by (metis append_assoc append_eq_conv_conj length_append_singleton min.absorb1 le_SucI order_refl take_take)
    have "take (Suc (length (as @ bs))) (drop dest (blit m ?d (bs @ [0]))) = (as @ bs) @ [0]"
    proof (rule nth_equalityI)
      show "length (take (Suc (length (as @ bs))) (drop dest (blit m ?d (bs @ [0])))) = length ((as @ bs) @ [0])"
        using assms(3) by simp
    next
      fix i assume "i < length (take (Suc (length (as @ bs))) (drop dest (blit m ?d (bs @ [0]))))"
      then have i: "i < Suc (length as + length bs)" using assms(3) by simp
      have low: "m ! (dest + i) = as ! i" if "i < length as"
        using that as assms(3) by (metis add_leD1 less_imp_le nth_drop nth_take le_add1 le_trans)
      show "take (Suc (length (as @ bs))) (drop dest (blit m ?d (bs @ [0]))) ! i = ((as @ bs) @ [0]) ! i"
        using i assms(3) low by (auto simp: nth_blit nth_append)
    qed
    with no0 show ?thesis by (simp add: string_at_def)
  qed
  ultimately show ?thesis by blast
qed

theorem strcat_drops_last_witness:
  "\<exists>m'. strcat [97, 98, 0, 0, 0, 99, 100, 0] 0 5 = Inr m' \<and> string_at m' 0 [97, 99, 100]"
  using strcat_drops_last [of "[97, 98, 0, 0, 0, 99, 100, 0]" 0 "[97]" 98 5 "[99, 100]"]
  by (simp add: string_at_def)

end
