(* ===== verification/Kernel_Sys.thy ===== *)
theory Kernel_Sys
  imports Kogata_Base
begin

text \<open>
  The alignment macros and address constants of src/kernel/include/sys.h (src/common/libkogata/region_alloc.c
  defines the same ones again). They are computed in 32-bit words, as the code does, so an address in the
  last page wraps to zero when it is aligned up.
\<close>

definition PAGE_SIZE :: u32 where "PAGE_SIZE = 0x1000"
definition PAGE_MASK :: u32 where "PAGE_MASK = 0xFFFFF000"
definition MASK4 :: u32 where "MASK4 = 0xFFFFFFFC"
definition K_HIGHHALF_ADDR :: u32 where "K_HIGHHALF_ADDR = 0xC0000000"
definition PD_MIRROR_ADDR :: u32 where "PD_MIRROR_ADDR = 0xFFC00000"
definition N_PAGES_IN_PT :: nat where "N_PAGES_IN_PT = 1024"
definition PT_SHIFT :: nat where "PT_SHIFT = 10"
definition PAGE_SHIFT :: nat where "PAGE_SHIFT = 12"

definition PAGE_ALIGNED :: "u32 \<Rightarrow> bool" where
  "PAGE_ALIGNED x \<longleftrightarrow> x AND NOT PAGE_MASK = 0"

definition PAGE_ALIGN_DOWN :: "u32 \<Rightarrow> u32" where
  "PAGE_ALIGN_DOWN x = x AND PAGE_MASK"

definition PAGE_ALIGN_UP :: "u32 \<Rightarrow> u32" where
  "PAGE_ALIGN_UP x = (if x AND NOT PAGE_MASK = 0 then x else (x AND PAGE_MASK) + PAGE_SIZE)"

definition PAGE_ID :: "u32 \<Rightarrow> u32" where
  "PAGE_ID x = x div PAGE_SIZE"

definition ALIGN4_UP :: "u32 \<Rightarrow> u32" where
  "ALIGN4_UP x = (if x AND NOT MASK4 = 0 then x else (x AND MASK4) + 4)"

lemmas sys_consts = PAGE_SIZE_def PAGE_MASK_def MASK4_def K_HIGHHALF_ADDR_def PD_MIRROR_ADDR_def
  N_PAGES_IN_PT_def PT_SHIFT_def PAGE_SHIFT_def

section \<open>Pages of a range\<close>

text \<open>\<open>for (page = offset; page < lim; page += PAGE_SIZE)\<close>: there are \<open>2 ^ 20\<close> pages, a longer loop never ends.\<close>

fun pages_from :: "nat \<Rightarrow> u32 \<Rightarrow> u32 \<Rightarrow> u32 list res" where
  "pages_from n page lim =
     (if lim \<le> page then Inr []
      else if n = 0 then Inl Diverged
      else rbind (pages_from (n - 1) (page + PAGE_SIZE) lim) (\<lambda>ps. Inr (page # ps)))"

declare pages_from.simps [simp del]

definition page_range :: "u32 \<Rightarrow> u32 \<Rightarrow> u32 list res" where
  "page_range offset len = pages_from (2 ^ 20) offset (offset + len)"

fun each_page :: "(u32 \<Rightarrow> 'a \<Rightarrow> 'a res) \<Rightarrow> u32 list \<Rightarrow> 'a \<Rightarrow> 'a res" where
  "each_page f [] s = Inr s"
| "each_page f (p # ps) s = rbind (f p s) (each_page f ps)"

section \<open>What the macros compute\<close>

lemma not_page_mask: "NOT PAGE_MASK = mask 12"
  by (simp add: PAGE_MASK_def mask_eq_exp_minus_1)

lemma not_mask4: "NOT MASK4 = mask 2"
  by (simp add: MASK4_def mask_eq_exp_minus_1)

lemma unat_and_mask: "unat ((x::u32) AND mask n) = unat x mod 2 ^ n"
  by (simp only: take_bit_eq_mask [symmetric] unsigned_take_bit_eq) (rule take_bit_eq_mod)

lemma and_not_mask_eq: "(x::u32) AND NOT (mask n) = push_bit n (drop_bit n x)"
  by (rule bit_word_eqI) (auto simp: bit_simps)

lemma unat_and_not_mask: "unat ((x::u32) AND NOT (mask n)) = unat x - unat x mod 2 ^ n"
proof -
  have "x AND NOT (mask n) = x - (x AND mask n)"
    using bits_ident [of n x] and_not_mask_eq [of x n]
    by (metis add_diff_cancel_right' take_bit_eq_mask)
  moreover have "x AND mask n \<le> x" by (rule word_and_le2)
  ultimately show ?thesis by (simp add: unat_sub unat_and_mask)
qed

lemma and_mask_zero_iff: "(x::u32) AND mask n = 0 \<longleftrightarrow> unat x mod 2 ^ n = 0"
  using unat_and_mask [of x n] by (metis unat_eq_zero)

lemma page_mask_not: "PAGE_MASK = NOT (mask 12)"
  by (simp add: PAGE_MASK_def mask_eq_exp_minus_1)

lemma mask4_not: "MASK4 = NOT (mask 2)"
  by (simp add: MASK4_def mask_eq_exp_minus_1)

lemma PAGE_ALIGNED_iff: "PAGE_ALIGNED x \<longleftrightarrow> unat x mod 4096 = 0"
  unfolding PAGE_ALIGNED_def not_page_mask and_mask_zero_iff by simp

lemma unat_PAGE_ALIGN_DOWN: "unat (PAGE_ALIGN_DOWN x) = unat x - unat x mod 4096"
  unfolding PAGE_ALIGN_DOWN_def page_mask_not unat_and_not_mask by simp

lemma unat_u32_less: "unat (x::u32) < 4294967296"
  using unsigned_less [of x, where 'a = nat] by simp

lemma unat_add_u32: "unat ((x::u32) + y) = (unat x + unat y) mod 4294967296"
  by (simp add: unat_word_ariths)

lemma round_up:
  fixes n m :: nat
  assumes "0 < m"
  shows "(n + (m - 1)) div m * m = (if n mod m = 0 then n else n - n mod m + m)"
proof -
  define q r where "q = n div m" and "r = n mod m"
  have n: "n = q * m + r" and r: "r < m"
    using assms by (simp_all add: q_def r_def)
  have "n + (m - 1) = (r + (m - 1)) + q * m"
    using n by simp
  then have "(n + (m - 1)) div m = q + (r + (m - 1)) div m"
    using assms by (metis div_mult_self1 not_gr_zero)
  also have "(r + (m - 1)) div m = (if r = 0 then 0 else 1)"
  proof (cases "r = 0")
    case False
    then have "r + (m - 1) = (r - 1) + 1 * m" using assms by simp
    then have "(r + (m - 1)) div m = 1 + (r - 1) div m"
      using assms by (metis div_mult_self1 not_gr_zero)
    then show ?thesis using False r by simp
  qed (use assms in simp)
  finally have d: "(n + (m - 1)) div m = q + (if r = 0 then 0 else 1)" .
  show ?thesis unfolding d by (cases "r = 0") (simp_all add: n r add_mult_distrib)
qed

lemma unat_PAGE_ALIGN_UP:
  "unat (PAGE_ALIGN_UP x) = (unat x + 4095) div 4096 * 4096 mod 4294967296"
proof (cases "unat x mod 4096 = 0")
  case True
  then have "PAGE_ALIGN_UP x = x"
    unfolding PAGE_ALIGN_UP_def not_page_mask and_mask_zero_iff by simp
  moreover have "(unat x + 4095) div 4096 * 4096 = unat x" using True round_up [of 4096 "unat x"] by simp
  ultimately show ?thesis using unat_u32_less [of x] by simp
next
  case False
  then have "PAGE_ALIGN_UP x = (x AND NOT (mask 12)) + PAGE_SIZE"
    unfolding PAGE_ALIGN_UP_def not_page_mask and_mask_zero_iff by (simp add: page_mask_not)
  then have "unat (PAGE_ALIGN_UP x) = (unat x - unat x mod 4096 + 4096) mod 4294967296"
    by (simp add: unat_add_u32 unat_and_not_mask PAGE_SIZE_def)
  moreover have "(unat x + 4095) div 4096 * 4096 = unat x - unat x mod 4096 + 4096"
    using False round_up [of 4096 "unat x"] by simp
  ultimately show ?thesis by simp
qed

lemma unat_ALIGN4_UP: "unat (ALIGN4_UP x) = (unat x + 3) div 4 * 4 mod 4294967296"
proof (cases "unat x mod 4 = 0")
  case True
  then have "ALIGN4_UP x = x"
    unfolding ALIGN4_UP_def not_mask4 and_mask_zero_iff by simp
  moreover have "(unat x + 3) div 4 * 4 = unat x" using True round_up [of 4 "unat x"] by simp
  ultimately show ?thesis using unat_u32_less [of x] by simp
next
  case False
  then have "ALIGN4_UP x = (x AND NOT (mask 2)) + 4"
    unfolding ALIGN4_UP_def not_mask4 and_mask_zero_iff by (simp add: mask4_not)
  then have "unat (ALIGN4_UP x) = (unat x - unat x mod 4 + 4) mod 4294967296"
    by (simp add: unat_add_u32 unat_and_not_mask)
  moreover have "(unat x + 3) div 4 * 4 = unat x - unat x mod 4 + 4"
    using False round_up [of 4 "unat x"] by simp
  ultimately show ?thesis by simp
qed

lemma unat_PAGE_ID: "unat (PAGE_ID x) = unat x div 4096"
  by (simp add: PAGE_ID_def PAGE_SIZE_def unat_div)

end
