(* ===== verification/Frame.thy ===== *)
theory Frame
  imports Kernel_Sys
begin

text \<open>
  The physical frame allocator of src/kernel/core/frame.c: a bitmap of 32-bit words, one bit for a frame,
  a count of the used frames and the index of the first word that may have a free frame. The mutex around
  each operation makes it atomic, so an operation is a function on the state. A read or write outside the
  bitmap is \<open>Bad_access\<close>, and the shift by 32 that a request for no frame runs into is
  \<open>Undefined_shift\<close>.
\<close>

section \<open>The code\<close>

record frame_state =
  frame_bitset :: "u32 list"
  nframes :: nat
  nused_frames :: nat
  begin_search_at :: nat

definition INDEX_FROM_BIT :: "nat \<Rightarrow> nat" where "INDEX_FROM_BIT a = a div (8 * 4)"
definition OFFSET_FROM_BIT :: "nat \<Rightarrow> nat" where "OFFSET_FROM_BIT a = a mod (8 * 4)"

text \<open>The loop that marks the frames of the kernel image.\<close>

fun frame_mark_loop :: "nat \<Rightarrow> nat \<Rightarrow> frame_state \<Rightarrow> frame_state res" where
  "frame_mark_loop i 0 s = Inr s"
| "frame_mark_loop i (Suc n) s =
     (let idx = INDEX_FROM_BIT i; ofs = OFFSET_FROM_BIT i in
      if idx \<ge> length (frame_bitset s) then Inl Bad_access
      else frame_mark_loop (Suc i) n
        (s\<lparr>frame_bitset := (frame_bitset s)[idx := frame_bitset s ! idx OR push_bit ofs 1],
           nused_frames := nused_frames s + 1\<rparr>))"

text \<open>The bitmap is placed after the kernel's data, whose new end is returned.\<close>

definition frame_init_allocator :: "u32 \<Rightarrow> u32 \<Rightarrow> (frame_state \<times> u32) res" where
  "frame_init_allocator total_ram kernel_data_end =
     (let nfr = unat (PAGE_ID total_ram);
          bytes = ALIGN4_UP (of_nat (nfr div 8));
          data_end = ALIGN4_UP kernel_data_end + bytes;
          kernel_pages = unat (PAGE_ALIGN_UP (data_end - K_HIGHHALF_ADDR) div PAGE_SIZE)
      in case frame_mark_loop 0 kernel_pages
           \<lparr>frame_bitset = replicate (unat bytes div 4) 0, nframes = nfr, nused_frames = 0,
            begin_search_at = 0\<rparr> of
           Inl e \<Rightarrow> Inl e
         | Inr s \<Rightarrow> Inr (s\<lparr>begin_search_at := INDEX_FROM_BIT kernel_pages\<rparr>, data_end))"

definition frame_mask :: "nat \<Rightarrow> nat \<Rightarrow> u32" where
  "frame_mask n j = push_bit j (drop_bit (32 - n) 0xFFFFFFFF)"

text \<open>The inner loop: the first offset \<open>j < 32 - n + 1\<close> at which \<open>n\<close> bits are clear.\<close>

definition frame_fit :: "u32 \<Rightarrow> nat \<Rightarrow> nat option" where
  "frame_fit w n = find (\<lambda>j. w AND frame_mask n j = 0) [0..<32 - n + 1]"

function frame_scan :: "nat \<Rightarrow> nat \<Rightarrow> frame_state \<Rightarrow> (nat \<times> frame_state) res" where
  "frame_scan n i s =
     (if i \<ge> INDEX_FROM_BIT (nframes s) then Inr (0, s)
      else if i \<ge> length (frame_bitset s) then Inl Bad_access
      else if frame_bitset s ! i = 0xFFFFFFFF
      then frame_scan n (Suc i)
             (if i = begin_search_at s then s\<lparr>begin_search_at := begin_search_at s + 1\<rparr> else s)
      else if n = 0 then Inl Undefined_shift
      else (case frame_fit (frame_bitset s ! i) n of
              Some j \<Rightarrow>
                Inr (i * 32 + j,
                  s\<lparr>frame_bitset := (frame_bitset s)[i := frame_bitset s ! i OR frame_mask n j],
                    nused_frames := nused_frames s + n\<rparr>)
            | None \<Rightarrow> frame_scan n (Suc i) s))"
  by pat_completeness auto
termination
  by (relation "measure (\<lambda>(n, i, s). INDEX_FROM_BIT (nframes s) - i)") auto

declare frame_scan.simps [simp del]

definition frame_alloc :: "nat \<Rightarrow> frame_state \<Rightarrow> (nat \<times> frame_state) res" where
  "frame_alloc n s = (if n > 32 then Inr (0, s) else frame_scan n (begin_search_at s) s)"

fun frame_free_loop :: "u32 \<Rightarrow> nat \<Rightarrow> nat \<Rightarrow> frame_state \<Rightarrow> frame_state res" where
  "frame_free_loop base i 0 s = Inr s"
| "frame_free_loop base i (Suc n) s =
     (let idx = INDEX_FROM_BIT (unat (base + of_nat i)); ofs = OFFSET_FROM_BIT (unat (base + of_nat i)) in
      if idx \<ge> length (frame_bitset s) then Inl Bad_access
      else frame_free_loop base (Suc i) n
        (if frame_bitset s ! idx AND push_bit ofs 1 \<noteq> 0
         then s\<lparr>frame_bitset := (frame_bitset s)[idx := frame_bitset s ! idx AND NOT (push_bit ofs 1)],
                nused_frames := nused_frames s - 1\<rparr>
         else s))"

definition frame_free :: "u32 \<Rightarrow> nat \<Rightarrow> frame_state \<Rightarrow> frame_state res" where
  "frame_free base n s =
     (case frame_free_loop base 0 n s of
        Inl e \<Rightarrow> Inl e
      | Inr s1 \<Rightarrow>
          Inr (if INDEX_FROM_BIT (unat base) < begin_search_at s1
               then s1\<lparr>begin_search_at := INDEX_FROM_BIT (unat base)\<rparr> else s1))"

section \<open>The frames in use\<close>

definition frame_used :: "frame_state \<Rightarrow> nat \<Rightarrow> bool" where
  "frame_used s f \<longleftrightarrow> f div 32 < length (frame_bitset s) \<and> bit (frame_bitset s ! (f div 32)) (f mod 32)"

definition used_set :: "frame_state \<Rightarrow> nat set" where
  "used_set s = {f. frame_used s f}"

definition frame_inv :: "frame_state \<Rightarrow> bool" where
  "frame_inv s \<longleftrightarrow> nframes s div 32 \<le> length (frame_bitset s)
     \<and> length (frame_bitset s) \<le> 2 ^ 27 \<and> nused_frames s = card (used_set s)
     \<and> (\<forall>i < begin_search_at s. i < length (frame_bitset s) \<longrightarrow> frame_bitset s ! i = 0xFFFFFFFF)"

lemma index_offset [simp]: "INDEX_FROM_BIT a = a div 32" "OFFSET_FROM_BIT a = a mod 32"
  by (simp_all add: INDEX_FROM_BIT_def OFFSET_FROM_BIT_def)

lemma used_set_finite: "finite (used_set s)"
proof -
  have "used_set s \<subseteq> {..< 32 * length (frame_bitset s)}"
    by (auto simp: used_set_def frame_used_def div_less_iff_less_mult)
  then show ?thesis by (rule finite_subset) simp
qed

lemma all_ones_mask: "(0xFFFFFFFF :: u32) = mask 32"
  by (simp add: mask_eq_exp_minus_1)

lemma all_ones_bit: "bit (0xFFFFFFFF :: u32) i \<longleftrightarrow> i < 32"
  unfolding all_ones_mask by (simp add: bit_mask_iff)

lemma bit_u32_less: "bit (w::u32) i \<Longrightarrow> i < 32"
  using bit_imp_le_length [of w i] by simp

lemma all_ones_iff: "(w::u32) = 0xFFFFFFFF \<longleftrightarrow> (\<forall>i < 32. bit w i)"
proof
  assume "\<forall>i < 32. bit w i"
  then have "bit w i \<longleftrightarrow> bit (0xFFFFFFFF :: u32) i" for i
    unfolding all_ones_bit using bit_u32_less [of w i] by blast
  then show "w = 0xFFFFFFFF" by (rule bit_eqI)
next
  assume "w = 0xFFFFFFFF"
  then show "\<forall>i < 32. bit w i" using all_ones_bit by blast
qed

lemma bit_frame_mask:
  "1 \<le> n \<Longrightarrow> j + n \<le> 32 \<Longrightarrow> bit (frame_mask n j) i \<longleftrightarrow> j \<le> i \<and> i < j + n"
  unfolding frame_mask_def all_ones_mask by (auto simp: bit_simps)

lemma and_frame_mask:
  assumes "1 \<le> n" "j + n \<le> 32"
  shows "(w::u32) AND frame_mask n j = 0 \<longleftrightarrow> (\<forall>k < n. \<not> bit w (j + k))"
proof
  assume z: "w AND frame_mask n j = 0"
  show "\<forall>k < n. \<not> bit w (j + k)"
  proof (intro allI impI)
    fix k assume "k < n"
    have "\<not> bit (w AND frame_mask n j) (j + k)" by (simp add: z)
    with \<open>k < n\<close> show "\<not> bit w (j + k)"
      using assms by (simp add: bit_and_iff bit_frame_mask)
  qed
next
  assume k: "\<forall>k < n. \<not> bit w (j + k)"
  show "w AND frame_mask n j = 0"
  proof (rule bit_eqI)
    fix i
    have "\<not> (bit w i \<and> j \<le> i \<and> i < j + n)"
      using k le_Suc_ex nat_add_left_cancel_less by blast
    then show "bit (w AND frame_mask n j) i = bit (0::u32) i"
      using assms by (simp add: bit_and_iff bit_frame_mask)
  qed
qed

text \<open>The frames of one word of the bitmap.\<close>

lemma frame_used_word:
  "i < length (frame_bitset s) \<Longrightarrow> j < 32 \<Longrightarrow> frame_used s (i * 32 + j) = bit (frame_bitset s ! i) j"
  by (simp add: frame_used_def)

lemma frame_used_update:
  assumes "i < length (frame_bitset s)"
  shows "frame_used (s\<lparr>frame_bitset := (frame_bitset s)[i := w], nused_frames := m\<rparr>) f
    \<longleftrightarrow> (if f div 32 = i then bit w (f mod 32) else frame_used s f)"
  using assms by (auto simp: frame_used_def nth_list_update)

lemma in_word_range:
  "f \<in> {i * 32 + j ..< i * 32 + j + n} \<longleftrightarrow> f div 32 = i \<and> j \<le> f mod 32 \<and> f mod 32 < j + n"
  if "j + n \<le> 32" for f i j n :: nat
proof
  assume f: "f \<in> {i * 32 + j ..< i * 32 + j + n}"
  then have "f div 32 = i" using that by (intro div_nat_eqI) auto
  then have "f = i * 32 + f mod 32" using div_mult_mod_eq [of f 32] by simp
  with f \<open>f div 32 = i\<close> show "f div 32 = i \<and> j \<le> f mod 32 \<and> f mod 32 < j + n" by simp
next
  assume "f div 32 = i \<and> j \<le> f mod 32 \<and> f mod 32 < j + n"
  then show "f \<in> {i * 32 + j ..< i * 32 + j + n}"
    using div_mult_mod_eq [of f 32] by auto
qed

section \<open>Allocation\<close>

definition no_fit :: "nat \<Rightarrow> u32 \<Rightarrow> bool" where
  "no_fit n w \<longleftrightarrow> (\<forall>j. j + n \<le> 32 \<longrightarrow> (\<exists>k < n. bit w (j + k)))"

lemma frame_fit_None: "1 \<le> n \<Longrightarrow> frame_fit w n = None \<Longrightarrow> no_fit n w"
  unfolding frame_fit_def find_None_iff no_fit_def
proof (intro allI impI)
  fix j assume n: "1 \<le> n" and none: "\<not> (\<exists>x. x \<in> set [0..<32 - n + 1] \<and> w AND frame_mask n x = 0)"
    and j: "j + n \<le> 32"
  then have "j < 32 - n + 1" by linarith
  then have "j \<in> set [0..<32 - n + 1]" by (simp only: set_upt atLeastLessThan_iff le0 simp_thms)
  with none have "w AND frame_mask n j \<noteq> 0" by blast
  then show "\<exists>k < n. bit w (j + k)" using and_frame_mask [OF n j] by blast
qed

lemma frame_fit_Some:
  assumes "1 \<le> n" "n \<le> 32" "frame_fit w n = Some j"
  shows "j + n \<le> 32 \<and> (\<forall>k < n. \<not> bit w (j + k))"
proof -
  obtain i where i: "i < length [0..<32 - n + 1]" "w AND frame_mask n ([0..<32 - n + 1] ! i) = 0"
    "j = [0..<32 - n + 1] ! i"
    using assms(3) unfolding frame_fit_def find_Some_iff by blast
  then have "j = i" "w AND frame_mask n j = 0" by (simp_all add: nth_append)
  moreover have "i + n \<le> 32" using i(1) assms(1,2) by simp
  ultimately show ?thesis using and_frame_mask [OF assms(1), of j w] by simp
qed

lemma full_no_fit: "1 \<le> n \<Longrightarrow> no_fit n 0xFFFFFFFF"
  unfolding no_fit_def all_ones_bit
proof (intro allI impI)
  fix j assume "1 \<le> n" "j + n \<le> 32"
  then show "\<exists>k < n. j + k < 32" by (intro exI [of _ 0]) simp
qed

lemma mark_run:
  assumes inv: "frame_inv s" and i: "i < length (frame_bitset s)" and n: "1 \<le> n" and j: "j + n \<le> 32"
    and free: "\<forall>k < n. \<not> bit (frame_bitset s ! i) (j + k)"
    and s': "s' = s\<lparr>frame_bitset := (frame_bitset s)[i := frame_bitset s ! i OR frame_mask n j],
                    nused_frames := nused_frames s + n\<rparr>"
  shows "used_set s' = used_set s \<union> {i * 32 + j ..< i * 32 + j + n}"
    and "used_set s \<inter> {i * 32 + j ..< i * 32 + j + n} = {}"
    and "frame_inv s'"
proof -
  let ?R = "{i * 32 + j ..< i * 32 + j + n}"
  have R: "f \<in> ?R \<longleftrightarrow> f div 32 = i \<and> j \<le> f mod 32 \<and> f mod 32 < j + n" for f
    by (rule in_word_range [OF j])
  show u: "used_set s' = used_set s \<union> ?R"
  proof (intro equalityI subsetI)
    fix f assume "f \<in> used_set s'"
    then show "f \<in> used_set s \<union> ?R"
      unfolding used_set_def s' mem_Collect_eq frame_used_update [OF i] Un_iff R
      using i by (auto simp: frame_used_def bit_or_iff bit_frame_mask [OF n j] split: if_splits)
  next
    fix f assume "f \<in> used_set s \<union> ?R"
    then show "f \<in> used_set s'"
      unfolding used_set_def s' mem_Collect_eq frame_used_update [OF i] Un_iff R
      using i by (auto simp: frame_used_def bit_or_iff bit_frame_mask [OF n j])
  qed
  show d: "used_set s \<inter> ?R = {}"
  proof -
    have "\<not> frame_used s f" if "f \<in> ?R" for f
    proof -
      from that have "f div 32 = i" "f mod 32 = j + (f mod 32 - j)" "f mod 32 - j < n"
        unfolding R by auto
      with free show ?thesis by (metis frame_used_def)
    qed
    then show ?thesis by (auto simp: used_set_def)
  qed
  have "card (used_set s') = card (used_set s) + n"
    unfolding u using card_Un_disjoint [OF used_set_finite finite_atLeastLessThan d] by simp
  moreover have "frame_bitset s' ! k = 0xFFFFFFFF" if "k < begin_search_at s'" "k < length (frame_bitset s')" for k
  proof -
    have full: "frame_bitset s ! k = 0xFFFFFFFF"
      using inv that unfolding frame_inv_def s' by simp
    moreover have "\<not> bit (frame_bitset s ! i) j" using free n by (metis add_0_right less_le_trans zero_less_one)
    ultimately have "k \<noteq> i" using j n all_ones_bit [of j] by auto
    with full show ?thesis by (simp add: s')
  qed
  ultimately show "frame_inv s'"
    using inv unfolding frame_inv_def by (simp add: s')
qed

text \<open>A run of frames that lies in one word of the bitmap.\<close>

definition run_at :: "frame_state \<Rightarrow> nat \<Rightarrow> nat \<Rightarrow> bool" where
  "run_at s n b \<longleftrightarrow> b div 32 < nframes s div 32 \<and> b mod 32 + n \<le> 32"

lemma run_at_cong: "nframes s = nframes s' \<Longrightarrow> run_at s n b = run_at s' n b"
  by (simp add: run_at_def)

lemma frame_scan_spec:
  assumes "frame_inv s" and "1 \<le> n" and "n \<le> 32"
    and "\<forall>k < i. k < nframes s div 32 \<longrightarrow> no_fit n (frame_bitset s ! k)"
  shows "\<exists>b s'. frame_scan n i s = Inr (b, s') \<and> frame_inv s' \<and> nframes s' = nframes s
    \<and> length (frame_bitset s') = length (frame_bitset s)
    \<and> (b = 0 \<and> frame_bitset s' = frame_bitset s
         \<and> (\<forall>k < nframes s div 32. no_fit n (frame_bitset s ! k))
       \<or> run_at s n b
         \<and> used_set s' = used_set s \<union> {b ..< b + n} \<and> used_set s \<inter> {b ..< b + n} = {})"
  using assms
proof (induction "nframes s div 32 - i" arbitrary: i s rule: less_induct)
  case less
  note inv = less.prems(1) and n = less.prems(2,3) and before = less.prems(4)
  have len: "nframes s div 32 \<le> length (frame_bitset s)" using inv by (simp add: frame_inv_def)
  show ?case
  proof (cases "i \<ge> nframes s div 32")
    case True
    then have "frame_scan n i s = Inr (0, s)" by (simp add: frame_scan.simps [of n i s])
    with True inv before show ?thesis by auto
  next
    case in_range: False
    then have i: "i < length (frame_bitset s)" using len by simp
    show ?thesis
    proof (cases "frame_bitset s ! i = 0xFFFFFFFF")
      case True
      let ?s = "if i = begin_search_at s then s\<lparr>begin_search_at := begin_search_at s + 1\<rparr> else s"
      have st: "frame_scan n i s = frame_scan n (Suc i) ?s"
        using in_range i True by (simp add: frame_scan.simps [of n i s])
      have same: "nframes ?s = nframes s" "frame_bitset ?s = frame_bitset s" "used_set ?s = used_set s"
        by (simp_all add: used_set_def frame_used_def)
      have inv': "frame_inv ?s"
        using inv True same by (auto simp: frame_inv_def less_Suc_eq)
      have pre: "\<forall>k < Suc i. k < nframes ?s div 32 \<longrightarrow> no_fit n (frame_bitset ?s ! k)"
        using before full_no_fit [OF n(1)] True same by (auto simp: less_Suc_eq)
      have "nframes ?s div 32 - Suc i < nframes s div 32 - i"
        unfolding same using in_range by simp
      from less.hyps [OF this inv' n pre] show ?thesis
        unfolding st same run_at_cong [OF same(1)] .
    next
      case False
      show ?thesis
      proof (cases "frame_fit (frame_bitset s ! i) n")
        case None
        have st: "frame_scan n i s = frame_scan n (Suc i) s"
          using in_range i False None n by (simp add: frame_scan.simps [of n i s])
        have pre: "\<forall>k < Suc i. k < nframes s div 32 \<longrightarrow> no_fit n (frame_bitset s ! k)"
          using before frame_fit_None [OF n(1) None] by (auto simp: less_Suc_eq)
        have "nframes s div 32 - Suc i < nframes s div 32 - i" using in_range by simp
        from less.hyps [OF this inv n pre] show ?thesis unfolding st .
      next
        case (Some j)
        let ?s = "s\<lparr>frame_bitset := (frame_bitset s)[i := frame_bitset s ! i OR frame_mask n j],
          nused_frames := nused_frames s + n\<rparr>"
        have st: "frame_scan n i s = Inr (i * 32 + j, ?s)"
          using in_range i False Some n by (simp add: frame_scan.simps [of n i s])
        note fit = frame_fit_Some [OF n Some]
        note m = mark_run [OF inv i n(1) conjunct1 [OF fit] conjunct2 [OF fit] refl]
        have "run_at s n (i * 32 + j)" using in_range fit n by (simp add: run_at_def)
        with st m show ?thesis by auto
      qed
    qed
  qed
qed

lemma no_fit_before_begin:
  "frame_inv s \<Longrightarrow> 1 \<le> n \<Longrightarrow> \<forall>k < begin_search_at s. k < nframes s div 32 \<longrightarrow> no_fit n (frame_bitset s ! k)"
  using full_no_fit [of n] by (simp add: frame_inv_def)

section \<open>Release\<close>

lemma test_bit_and: "(w::u32) AND push_bit ofs 1 \<noteq> 0 \<longleftrightarrow> bit w ofs"
  by (simp add: bit_iff_and_push_bit_not_eq_0)

lemma clear_one:
  assumes "idx = f div 32" and "idx < length (frame_bitset s)" and "frame_used s f"
    and "nused_frames s = card (used_set s)"
    and s': "s' = s\<lparr>frame_bitset := (frame_bitset s)[idx := frame_bitset s ! idx AND NOT (push_bit (f mod 32) 1)],
                    nused_frames := nused_frames s - 1\<rparr>"
  shows "used_set s' = used_set s - {f}" and "nused_frames s' = card (used_set s')"
proof -
  show u: "used_set s' = used_set s - {f}"
  proof (intro set_eqI)
    fix g
    have "g = f \<longleftrightarrow> g div 32 = idx \<and> g mod 32 = f mod 32"
      unfolding assms(1) using div_mult_mod_eq [of g 32] div_mult_mod_eq [of f 32] by metis
    moreover have "bit (NOT (push_bit (f mod 32) (1::u32))) (g mod 32) \<longleftrightarrow> g mod 32 \<noteq> f mod 32"
      by (auto simp: bit_simps)
    ultimately show "g \<in> used_set s' \<longleftrightarrow> g \<in> used_set s - {f}"
      unfolding used_set_def s' mem_Collect_eq frame_used_update [OF assms(2)] Diff_iff singleton_iff
      using assms(2) by (auto simp: frame_used_def bit_and_iff)
  qed
  have "f \<in> used_set s" using assms(3) by (simp add: used_set_def)
  then show "nused_frames s' = card (used_set s')"
    unfolding u using assms(4) used_set_finite [of s] by (simp add: s' card_Diff_singleton)
qed

lemma frame_free_loop_spec:
  assumes "unat base + i + n \<le> 32 * length (frame_bitset s)" and "length (frame_bitset s) \<le> 2 ^ 27"
    and "nused_frames s = card (used_set s)"
  shows "\<exists>s'. frame_free_loop base i n s = Inr s'
    \<and> used_set s' = used_set s - {unat base + i ..< unat base + i + n}
    \<and> nused_frames s' = card (used_set s') \<and> nframes s' = nframes s
    \<and> length (frame_bitset s') = length (frame_bitset s) \<and> begin_search_at s' = begin_search_at s
    \<and> (\<forall>k < unat base div 32. frame_bitset s' ! k = frame_bitset s ! k)"
  using assms
proof (induction base i n s rule: frame_free_loop.induct)
  case (2 base i n s)
  let ?f = "unat base + i"
  have "unat (of_nat i :: u32) = i" "?f < 2 ^ 32"
    using 2(2,3) by (simp_all add: unat_of_nat)
  then have f: "unat (base + of_nat i) = ?f" by (simp add: unat_add_u32)
  have idx: "?f div 32 < length (frame_bitset s)" using 2(2) by (simp add: div_less_iff_less_mult)
  have rest: "{?f ..< ?f + Suc n} = insert ?f {unat base + Suc i ..< unat base + Suc i + n}" by auto
  show ?case
  proof (cases "bit (frame_bitset s ! (?f div 32)) (?f mod 32)")
    case True
    define s1 where "s1 = s\<lparr>frame_bitset := (frame_bitset s)[?f div 32 :=
        frame_bitset s ! (?f div 32) AND NOT (push_bit (?f mod 32) 1)], nused_frames := nused_frames s - 1\<rparr>"
    have st: "frame_free_loop base i (Suc n) s = frame_free_loop base (Suc i) n s1"
      using idx True test_bit_and [of "frame_bitset s ! (?f div 32)" "?f mod 32"] f
      by (simp add: s1_def Let_def)
    have "frame_used s ?f" using True idx by (simp add: frame_used_def)
    note c = clear_one [OF refl idx this 2(4) s1_def]
    have same: "nframes s1 = nframes s" "length (frame_bitset s1) = length (frame_bitset s)"
      "begin_search_at s1 = begin_search_at s" by (simp_all add: s1_def)
    have "unat base div 32 \<le> ?f div 32" by (simp add: div_le_mono)
    then have low: "\<forall>k < unat base div 32. frame_bitset s1 ! k = frame_bitset s ! k"
      by (simp add: s1_def)
    have pre: "unat base + Suc i + n \<le> 32 * length (frame_bitset s1)" "length (frame_bitset s1) \<le> 2 ^ 27"
      using 2(2,3) same by simp_all
    have "\<exists>s'. frame_free_loop base (Suc i) n s1 = Inr s'
      \<and> used_set s' = used_set s1 - {unat base + Suc i ..< unat base + Suc i + n}
      \<and> nused_frames s' = card (used_set s') \<and> nframes s' = nframes s1
      \<and> length (frame_bitset s') = length (frame_bitset s1) \<and> begin_search_at s' = begin_search_at s1
      \<and> (\<forall>k < unat base div 32. frame_bitset s' ! k = frame_bitset s1 ! k)"
    proof -
      have "(if frame_bitset s ! (?f div 32) AND push_bit (?f mod 32) 1 \<noteq> 0
          then s\<lparr>frame_bitset := (frame_bitset s)[?f div 32 :=
                   frame_bitset s ! (?f div 32) AND NOT (push_bit (?f mod 32) 1)],
                 nused_frames := nused_frames s - 1\<rparr>
          else s) = s1"
        using True test_bit_and by (simp add: s1_def)
      from 2(1) [OF refl refl, unfolded index_offset f this, OF _ pre c(2)] idx show ?thesis by simp
    qed
    moreover have "used_set s - {?f ..< ?f + Suc n}
        = used_set s1 - {unat base + Suc i ..< unat base + Suc i + n}"
      unfolding rest c(1) by blast
    ultimately show ?thesis unfolding st same using low by simp
  next
    case False
    have st: "frame_free_loop base i (Suc n) s = frame_free_loop base (Suc i) n s"
      using idx False test_bit_and [of "frame_bitset s ! (?f div 32)" "?f mod 32"] f
      by (simp add: Let_def)
    have "used_set s - {?f ..< ?f + Suc n} = used_set s - {unat base + Suc i ..< unat base + Suc i + n}"
      unfolding rest using False by (auto simp: used_set_def frame_used_def)
    moreover have "\<exists>s'. frame_free_loop base (Suc i) n s = Inr s'
      \<and> used_set s' = used_set s - {unat base + Suc i ..< unat base + Suc i + n}
      \<and> nused_frames s' = card (used_set s') \<and> nframes s' = nframes s
      \<and> length (frame_bitset s') = length (frame_bitset s) \<and> begin_search_at s' = begin_search_at s
      \<and> (\<forall>k < unat base div 32. frame_bitset s' ! k = frame_bitset s ! k)"
      using 2(1) [OF refl refl] idx False test_bit_and [of "frame_bitset s ! (?f div 32)" "?f mod 32"] f 2(2-4)
      by simp
    ultimately show ?thesis unfolding st by simp
  qed
qed simp

lemma frame_free_inv:
  assumes inv: "frame_inv s" and range: "unat base + n \<le> 32 * length (frame_bitset s)"
  shows "\<exists>s'. frame_free base n s = Inr s' \<and> frame_inv s' \<and> nframes s' = nframes s
    \<and> length (frame_bitset s') = length (frame_bitset s)
    \<and> used_set s' = used_set s - {unat base ..< unat base + n}"
proof -
  have "unat base + 0 + n \<le> 32 * length (frame_bitset s)" "length (frame_bitset s) \<le> 2 ^ 27"
    "nused_frames s = card (used_set s)" using inv range by (simp_all add: frame_inv_def)
  from frame_free_loop_spec [OF this] obtain s1 where
    s1: "frame_free_loop base 0 n s = Inr s1" "used_set s1 = used_set s - {unat base ..< unat base + n}"
      "nused_frames s1 = card (used_set s1)" "nframes s1 = nframes s"
      "length (frame_bitset s1) = length (frame_bitset s)" "begin_search_at s1 = begin_search_at s"
      "\<forall>k < unat base div 32. frame_bitset s1 ! k = frame_bitset s ! k" by auto
  let ?s = "if unat base div 32 < begin_search_at s1 then s1\<lparr>begin_search_at := unat base div 32\<rparr> else s1"
  have u: "used_set ?s = used_set s1" by (simp add: used_set_def frame_used_def)
  have "frame_bitset ?s ! k = 0xFFFFFFFF" if "k < begin_search_at ?s" "k < length (frame_bitset ?s)" for k
  proof -
    have "k < unat base div 32" "k < begin_search_at s" using that s1(6) by (auto split: if_splits)
    moreover have "k < length (frame_bitset s)" using that s1(5) by (simp split: if_splits)
    ultimately show ?thesis using inv s1(7) by (simp add: frame_inv_def)
  qed
  moreover have "nused_frames ?s = card (used_set ?s)" unfolding u using s1(3) by simp
  ultimately have "frame_inv ?s"
    using inv s1(4,5) unfolding frame_inv_def by simp
  with s1 u show ?thesis by (auto simp: frame_free_def)
qed

section \<open>Initialisation\<close>

lemma frame_mark_loop_spec:
  assumes "i + n \<le> 32 * length (frame_bitset s)" and "used_set s = {..<i}" and "nused_frames s = i"
  shows "\<exists>s'. frame_mark_loop i n s = Inr s' \<and> used_set s' = {..<i + n} \<and> nused_frames s' = i + n
    \<and> nframes s' = nframes s \<and> length (frame_bitset s') = length (frame_bitset s)"
  using assms
proof (induction i n s rule: frame_mark_loop.induct)
  case (2 i n s)
  define s1 where "s1 = s\<lparr>frame_bitset := (frame_bitset s)[i div 32 := frame_bitset s ! (i div 32) OR push_bit (i mod 32) 1],
    nused_frames := nused_frames s + 1\<rparr>"
  have idx: "i div 32 < length (frame_bitset s)" using 2(2) by (simp add: div_less_iff_less_mult)
  have u: "used_set s1 = {..<Suc i}"
  proof (rule set_eqI)
    fix g
    have "g = i \<longleftrightarrow> g div 32 = i div 32 \<and> g mod 32 = i mod 32"
      using div_mult_mod_eq [of g 32] div_mult_mod_eq [of i 32] by metis
    moreover have "bit (push_bit (i mod 32) (1::u32)) (g mod 32) \<longleftrightarrow> g mod 32 = i mod 32"
      by (auto simp: bit_simps)
    moreover have "frame_used s g \<longleftrightarrow> g < i" using 2(3) by (auto simp: used_set_def)
    ultimately show "g \<in> used_set s1 \<longleftrightarrow> g \<in> {..<Suc i}"
      unfolding used_set_def s1_def mem_Collect_eq frame_used_update [OF idx] lessThan_iff
      using idx by (auto simp: frame_used_def bit_or_iff)
  qed
  have pre: "Suc i + n \<le> 32 * length (frame_bitset s1)" "nused_frames s1 = Suc i"
    using 2(2,4) by (simp_all add: s1_def)
  have st: "frame_mark_loop i (Suc n) s = frame_mark_loop (Suc i) n s1"
    using idx by (simp add: s1_def Let_def)
  from 2(1) [OF refl refl, unfolded index_offset, folded s1_def, OF _ pre(1) u pre(2)] idx
  show ?case unfolding st by (simp add: s1_def)
qed auto

lemma frame_mark_loop_overrun:
  "i \<le> 32 * length (frame_bitset s) \<Longrightarrow> 32 * length (frame_bitset s) < i + n \<Longrightarrow>
     frame_mark_loop i n s = Inl Bad_access"
proof (induction i n s rule: frame_mark_loop.induct)
  case (2 i n s)
  show ?case
  proof (cases "i div 32 \<ge> length (frame_bitset s)")
    case False
    then have "Suc i \<le> 32 * length (frame_bitset s)"
      by (simp add: div_less_iff_less_mult not_le)
    with 2 False show ?thesis by (simp add: Let_def)
  qed (simp add: Let_def)
qed simp

lemma bytes_words: "unat (ALIGN4_UP (of_nat (n div 8))) div 4 \<le> 2 ^ 27"
  if "n < 2 ^ 20" for n
proof -
  have "unat (of_nat (n div 8) :: u32) = n div 8" using that by (simp add: unat_of_nat)
  then have "unat (ALIGN4_UP (of_nat (n div 8))) \<le> (n div 8 + 3) div 4 * 4"
    unfolding unat_ALIGN4_UP by simp
  also have "\<dots> \<le> n div 8 + 3" by (rule div_times_less_eq_dividend)
  finally show ?thesis using that by simp
qed

lemma words_cover: "n div 32 \<le> unat (ALIGN4_UP (of_nat (n div 8))) div 4" if "n \<le> 2 ^ 20" for n
proof -
  have small: "n div 8 \<le> 131072" using that by simp
  then have "unat (of_nat (n div 8) :: u32) = n div 8" by (simp add: unat_of_nat)
  moreover have "(n div 8 + 3) div 4 * 4 < 4294967296" using small by linarith
  ultimately have "unat (ALIGN4_UP (of_nat (n div 8))) div 4 = (n div 8 + 3) div 4"
    unfolding unat_ALIGN4_UP by simp
  moreover have "n div 32 = n div 8 div 4" by (simp add: div_mult2_eq [symmetric])
  ultimately show ?thesis by (simp add: div_le_mono)
qed

section \<open>The contract of a provider of single frames\<close>

text \<open>
  What the memory managers above rely on: an allocation answers zero and changes nothing, or answers a
  frame nobody had; a release takes a frame back. The lemmas are about a client that fills a set of pages
  and gives them back.
\<close>

fun take_frames :: "('s \<Rightarrow> (nat \<times> 's) res) \<Rightarrow> nat \<Rightarrow> 's \<Rightarrow> (nat list \<times> 's) res" where
  "take_frames alloc 0 s = Inr ([], s)"
| "take_frames alloc (Suc n) s =
     (case alloc s of
        Inl e \<Rightarrow> Inl e
      | Inr (f, s1) \<Rightarrow>
          if f = 0 then Inr ([], s1)
          else (case take_frames alloc n s1 of
                  Inl e \<Rightarrow> Inl e
                | Inr (fs, s2) \<Rightarrow> Inr (f # fs, s2)))"

fun give_frames :: "(nat \<Rightarrow> 's \<Rightarrow> 's res) \<Rightarrow> nat list \<Rightarrow> 's \<Rightarrow> 's res" where
  "give_frames free [] s = Inr s"
| "give_frames free (f # fs) s =
     (case free f s of Inl e \<Rightarrow> Inl e | Inr s1 \<Rightarrow> give_frames free fs s1)"

locale frame_provider =
  fixes good :: "'s \<Rightarrow> bool"
    and owned :: "'s \<Rightarrow> nat set"
    and alloc :: "'s \<Rightarrow> (nat \<times> 's) res"
    and free :: "nat \<Rightarrow> 's \<Rightarrow> 's res"
  assumes alloc_law: "good s \<Longrightarrow> \<exists>f s'. alloc s = Inr (f, s') \<and> good s'
      \<and> (f = 0 \<and> owned s' = owned s \<or> f \<noteq> 0 \<and> f \<notin> owned s \<and> owned s' = insert f (owned s))"
    and free_law: "good s \<Longrightarrow> f \<in> owned s \<Longrightarrow> f \<noteq> 0 \<Longrightarrow>
      \<exists>s'. free f s = Inr s' \<and> good s' \<and> owned s' = owned s - {f}"
begin

lemma take_frames_spec:
  "good s \<Longrightarrow> \<exists>fs s'. take_frames alloc n s = Inr (fs, s') \<and> good s' \<and> distinct fs \<and> 0 \<notin> set fs
     \<and> set fs \<inter> owned s = {} \<and> owned s' = owned s \<union> set fs \<and> length fs \<le> n"
proof (induction n arbitrary: s)
  case (Suc n)
  obtain f s1 where a: "alloc s = Inr (f, s1)" "good s1"
    "f = 0 \<and> owned s1 = owned s \<or> f \<noteq> 0 \<and> f \<notin> owned s \<and> owned s1 = insert f (owned s)"
    using alloc_law [OF Suc.prems] by blast
  show ?case
  proof (cases "f = 0")
    case False
    obtain fs s2 where "take_frames alloc n s1 = Inr (fs, s2)" "good s2" "distinct fs" "0 \<notin> set fs"
      "set fs \<inter> owned s1 = {}" "owned s2 = owned s1 \<union> set fs" "length fs \<le> n"
      using Suc.IH [OF a(2)] by blast
    with a False show ?thesis by auto
  qed (use a in auto)
qed auto

lemma give_frames_spec:
  "good s \<Longrightarrow> distinct fs \<Longrightarrow> 0 \<notin> set fs \<Longrightarrow> set fs \<subseteq> owned s \<Longrightarrow>
     \<exists>s'. give_frames free fs s = Inr s' \<and> good s' \<and> owned s' = owned s - set fs"
proof (induction fs arbitrary: s)
  case (Cons f fs)
  then obtain s1 where s1: "free f s = Inr s1" "good s1" "owned s1 = owned s - {f}"
    using free_law [of s f] by auto
  with Cons.prems Cons.IH [of s1] show ?case by (auto simp: Diff_insert2 [symmetric])
qed simp

lemma take_give:
  assumes "good s" and "take_frames alloc n s = Inr (fs, s1)"
  shows "\<exists>s2. give_frames free fs s1 = Inr s2 \<and> good s2 \<and> owned s2 = owned s"
proof -
  from take_frames_spec [OF assms(1), of n] assms(2)
  have s1: "good s1" "distinct fs" "0 \<notin> set fs" "set fs \<inter> owned s = {}" "owned s1 = owned s \<union> set fs"
    by auto
  then have "set fs \<subseteq> owned s1" by blast
  with give_frames_spec [OF s1(1-3)] s1(4,5) show ?thesis by (metis Int_commute Un_Diff Diff_triv Diff_cancel sup_bot_right)
qed

end

definition frame_ok :: "frame_state \<Rightarrow> bool" where
  "frame_ok s \<longleftrightarrow> frame_inv s \<and> frame_used s 0"

lemma used_set_less: "f \<in> used_set s \<Longrightarrow> f < 32 * length (frame_bitset s)"
  by (auto simp: used_set_def frame_used_def div_less_iff_less_mult)

lemma frame_alloc_law:
  assumes "frame_ok s" and "1 \<le> n" and "n \<le> 32"
  shows "\<exists>b s'. frame_alloc n s = Inr (b, s') \<and> frame_ok s' \<and> nframes s' = nframes s
    \<and> (b = 0 \<and> used_set s' = used_set s \<and> (\<forall>k < nframes s div 32. no_fit n (frame_bitset s ! k))
       \<or> b \<noteq> 0 \<and> run_at s n b \<and> used_set s' = used_set s \<union> {b ..< b + n}
         \<and> used_set s \<inter> {b ..< b + n} = {})"
proof -
  have inv: "frame_inv s" and zero: "0 \<in> used_set s" using assms(1) by (simp_all add: frame_ok_def used_set_def)
  obtain b s' where r: "frame_alloc n s = Inr (b, s')" "frame_inv s'" "nframes s' = nframes s"
    "length (frame_bitset s') = length (frame_bitset s)"
    and c: "b = 0 \<and> frame_bitset s' = frame_bitset s \<and> (\<forall>k < nframes s div 32. no_fit n (frame_bitset s ! k))
     \<or> run_at s n b \<and> used_set s' = used_set s \<union> {b ..< b + n} \<and> used_set s \<inter> {b ..< b + n} = {}"
    using frame_scan_spec [OF inv assms(2,3) no_fit_before_begin [OF inv assms(2)]] assms(3)
    unfolding frame_alloc_def by auto
  show ?thesis using c
  proof
    assume *: "b = 0 \<and> frame_bitset s' = frame_bitset s \<and> (\<forall>k < nframes s div 32. no_fit n (frame_bitset s ! k))"
    then have "used_set s' = used_set s" by (simp add: used_set_def frame_used_def)
    with r * zero show ?thesis by (auto simp: frame_ok_def used_set_def)
  next
    assume *: "run_at s n b \<and> used_set s' = used_set s \<union> {b ..< b + n} \<and> used_set s \<inter> {b ..< b + n} = {}"
    then have "b \<noteq> 0" using zero assms(2) by auto
    moreover have "frame_used s' 0" using * zero by (auto simp: used_set_def)
    ultimately show ?thesis using r * by (auto simp: frame_ok_def)
  qed
qed

lemma frame_free_law:
  assumes "frame_ok s" and "f \<in> used_set s" and "f \<noteq> 0"
  shows "\<exists>s'. frame_free (of_nat f) 1 s = Inr s' \<and> frame_ok s' \<and> used_set s' = used_set s - {f}"
proof -
  have inv: "frame_inv s" using assms(1) by (simp add: frame_ok_def)
  have less: "f < 32 * length (frame_bitset s)" by (rule used_set_less [OF assms(2)])
  then have "f < 2 ^ 32" using inv by (simp add: frame_inv_def)
  then have f: "unat (of_nat f :: u32) = f" by (simp add: unat_of_nat)
  have "unat (of_nat f :: u32) + 1 \<le> 32 * length (frame_bitset s)" using f less by simp
  from frame_free_inv [OF inv this] obtain s' where s':
    "frame_free (of_nat f) 1 s = Inr s'" "frame_inv s'" "used_set s' = used_set s - {f}"
    unfolding f by auto
  have "0 \<in> used_set s'" using assms(1,3) s'(3) by (simp add: frame_ok_def used_set_def)
  with s' show ?thesis by (auto simp: frame_ok_def used_set_def)
qed

lemma frame_free_nframes:
  assumes "frame_free x n s = Inr s'"
  shows "nframes s' = nframes s"
proof -
  have "nframes t' = nframes t" if "frame_free_loop b i n t = Inr t'" for b i n t t'
    using that by (induction b i n t rule: frame_free_loop.induct) (auto simp: Let_def split: if_splits)
  then show ?thesis using assms by (auto simp: frame_free_def split: sum.splits if_splits)
qed

interpretation frames: frame_provider frame_ok used_set "frame_alloc 1" "\<lambda>f. frame_free (of_nat f) 1"
proof
  fix s
  assume "frame_ok s"
  then show "\<exists>f s'. frame_alloc 1 s = Inr (f, s') \<and> frame_ok s'
      \<and> (f = 0 \<and> used_set s' = used_set s \<or> f \<noteq> 0 \<and> f \<notin> used_set s \<and> used_set s' = insert f (used_set s))"
    using frame_alloc_law [of s 1] by fastforce
qed (fact frame_free_law)

section \<open>Properties\<close>

text \<open>C7: a request for 1 to 32 frames never faults; it answers frames of the machine's memory that were
  all free and are now used, and changes no other frame, or it answers zero and the state of no frame, and
  then no word of the bitmap has so many free frames in a row.\<close>

theorem frame_alloc_correct:
  assumes "frame_ok s" and "1 \<le> n" and "n \<le> 32"
  shows "\<exists>b s'. frame_alloc n s = Inr (b, s') \<and> frame_ok s'
    \<and> (if b = 0
       then used_set s' = used_set s
         \<and> \<not> (\<exists>b. run_at s n b \<and> used_set s \<inter> {b ..< b + n} = {})
       else b + n \<le> nframes s \<and> used_set s' = used_set s \<union> {b ..< b + n}
         \<and> used_set s \<inter> {b ..< b + n} = {})"
proof -
  obtain b s' where r: "frame_alloc n s = Inr (b, s')" "frame_ok s'"
    and c: "b = 0 \<and> used_set s' = used_set s \<and> (\<forall>k < nframes s div 32. no_fit n (frame_bitset s ! k))
       \<or> b \<noteq> 0 \<and> run_at s n b \<and> used_set s' = used_set s \<union> {b ..< b + n}
         \<and> used_set s \<inter> {b ..< b + n} = {}"
    using frame_alloc_law [OF assms] by blast
  show ?thesis using c
  proof
    assume *: "b = 0 \<and> used_set s' = used_set s \<and> (\<forall>k < nframes s div 32. no_fit n (frame_bitset s ! k))"
    have "used_set s \<inter> {a ..< a + n} \<noteq> {}" if "run_at s n a" for a
    proof -
      have a: "a div 32 < nframes s div 32" "a mod 32 + n \<le> 32" using that by (simp_all add: run_at_def)
      then obtain k where k: "k < n" "bit (frame_bitset s ! (a div 32)) (a mod 32 + k)"
        using * unfolding no_fit_def by blast
      have "a + k = a div 32 * 32 + (a mod 32 + k)" by simp
      moreover have "a div 32 < length (frame_bitset s)"
        using a(1) assms(1) by (simp add: frame_ok_def frame_inv_def)
      ultimately have "a + k \<in> used_set s"
        using k a(2) frame_used_word [of "a div 32" s "a mod 32 + k"] by (simp add: used_set_def)
      with k(1) show ?thesis by auto
    qed
    with r * show ?thesis by auto
  next
    assume *: "b \<noteq> 0 \<and> run_at s n b \<and> used_set s' = used_set s \<union> {b ..< b + n}
      \<and> used_set s \<inter> {b ..< b + n} = {}"
    then have "b div 32 * 32 + 32 \<le> nframes s" "b mod 32 + n \<le> 32"
      using div_times_less_eq_dividend [of "nframes s" 32]
      by (auto simp: run_at_def intro: order_trans [of _ "Suc (b div 32) * 32"])
    then have "b + n \<le> nframes s" using div_mult_mod_eq [of b 32] by linarith
    with r * show ?thesis by auto
  qed
qed

definition wit_frames :: frame_state where
  "wit_frames = \<lparr>frame_bitset = [1, 0], nframes = 64, nused_frames = 1, begin_search_at = 0\<rparr>"

lemma wit_frames_used: "used_set wit_frames = {0}"
proof (rule set_eqI)
  fix f :: nat
  show "f \<in> used_set wit_frames \<longleftrightarrow> f \<in> {0}"
  proof (cases "f div 32 = 0")
    case True
    then show ?thesis by (auto simp: used_set_def frame_used_def wit_frames_def bit_1_iff)
  next
    case False
    then show ?thesis
      by (auto simp: used_set_def frame_used_def wit_frames_def nth_Cons' less_Suc_eq numeral_2_eq_2)
  qed
qed

lemma wit_frames_ok: "frame_ok wit_frames"
  using wit_frames_used by (auto simp: frame_ok_def frame_inv_def wit_frames_def used_set_def)

theorem frame_alloc_correct_witness:
  "\<exists>b s'. frame_alloc 4 wit_frames = Inr (b, s') \<and> frame_ok s' \<and> b = 1 \<and> used_set s' = {0, 1, 2, 3, 4}"
proof -
  have e: "frame_alloc 4 wit_frames = Inr (1, wit_frames\<lparr>frame_bitset := [31, 0], nused_frames := 5\<rparr>)"
    by (simp add: frame_alloc_def wit_frames_def frame_scan.simps frame_fit_def frame_mask_def upt_rec)
  have "{0} \<union> {1..<1 + 4} = {0, 1, 2, 3, 4::nat}" by auto
  with frame_alloc_correct [OF wit_frames_ok, of 4] e wit_frames_used show ?thesis by auto
qed

text \<open>C9: giving back a run of frames inside the bitmap never faults, leaves exactly the other frames used
  and keeps the count exact even when some of the frames were already free (a double free is harmless), and
  the hint \<open>begin_search_at\<close> never skips a word with a free frame.\<close>

theorem frame_free_correct:
  assumes "frame_inv s" and "unat base + n \<le> 32 * length (frame_bitset s)"
  shows "\<exists>s'. frame_free base n s = Inr s' \<and> used_set s' = used_set s - {unat base ..< unat base + n}
    \<and> nused_frames s' = card (used_set s')
    \<and> (\<forall>f. f div 32 < begin_search_at s' \<and> f div 32 < length (frame_bitset s') \<longrightarrow> frame_used s' f)"
proof -
  obtain s' where s': "frame_free base n s = Inr s'" "frame_inv s'"
    "used_set s' = used_set s - {unat base ..< unat base + n}"
    using frame_free_inv [OF assms] by blast
  have "frame_used s' f" if "f div 32 < begin_search_at s'" "f div 32 < length (frame_bitset s')" for f
    using s'(2) that all_ones_bit [of "f mod 32"] by (simp add: frame_inv_def frame_used_def)
  with s' show ?thesis unfolding frame_inv_def by blast
qed

theorem frame_free_correct_witness:
  "\<exists>s'. frame_free 0 2 wit_frames = Inr s' \<and> nused_frames s' = 0"
proof -
  have "frame_inv wit_frames" using wit_frames_ok by (simp add: frame_ok_def)
  moreover have "unat (0::u32) + 2 \<le> 32 * length (frame_bitset wit_frames)" by (simp add: wit_frames_def)
  ultimately show ?thesis using frame_free_correct [of wit_frames 0 2] wit_frames_used by auto
qed

text \<open>After \<open>frame_init_allocator\<close> the frames of the kernel image and of the bitmap itself are used, no
  other frame is, and the allocator's invariant holds.\<close>

theorem frame_init_correct:
  assumes "frame_init_allocator total_ram kernel_end = Inr (s, e)"
  shows "frame_inv s \<and> nframes s = unat total_ram div 4096
    \<and> used_set s = {..< unat (PAGE_ALIGN_UP (e - K_HIGHHALF_ADDR) div PAGE_SIZE)}"
proof -
  define bytes where "bytes = ALIGN4_UP (of_nat (unat (PAGE_ID total_ram) div 8))"
  define s0 where "s0 = \<lparr>frame_bitset = replicate (unat bytes div 4) 0, nframes = unat (PAGE_ID total_ram),
    nused_frames = 0, begin_search_at = 0\<rparr>"
  define kp where "kp = unat (PAGE_ALIGN_UP (ALIGN4_UP kernel_end + bytes - K_HIGHHALF_ADDR) div PAGE_SIZE)"
  have nf: "unat (PAGE_ID total_ram) < 2 ^ 20"
    using unat_u32_less [of total_ram] by (simp add: unat_PAGE_ID div_less_iff_less_mult)
  have f: "(case frame_mark_loop 0 kp s0 of Inl e \<Rightarrow> Inl e
      | Inr s \<Rightarrow> Inr (s\<lparr>begin_search_at := INDEX_FROM_BIT kp\<rparr>, ALIGN4_UP kernel_end + bytes)) = Inr (s, e)"
    using assms unfolding frame_init_allocator_def Let_def bytes_def s0_def kp_def .
  then obtain s1 where s1: "frame_mark_loop 0 kp s0 = Inr s1" by (auto split: sum.split_asm)
  have e: "s = s1\<lparr>begin_search_at := kp div 32\<rparr>" "e = ALIGN4_UP kernel_end + bytes"
    using f s1 by simp_all
  have u0: "used_set s0 = {..<0}" by (auto simp: used_set_def frame_used_def s0_def)
  have fit: "0 + kp \<le> 32 * length (frame_bitset s0)"
    using frame_mark_loop_overrun [of 0 s0 kp] s1 by fastforce
  obtain s2 where "frame_mark_loop 0 kp s0 = Inr s2" "used_set s2 = {..<kp}" "nused_frames s2 = kp"
    "nframes s2 = nframes s0" "length (frame_bitset s2) = length (frame_bitset s0)"
    using frame_mark_loop_spec [OF fit u0] by (auto simp: s0_def)
  with s1 have s2: "used_set s1 = {..<kp}" "nused_frames s1 = kp" "nframes s1 = unat (PAGE_ID total_ram)"
    "length (frame_bitset s1) = unat bytes div 4" by (simp_all add: s0_def)
  have full: "frame_bitset s1 ! i = 0xFFFFFFFF" if "i < kp div 32" "i < length (frame_bitset s1)" for i
    unfolding all_ones_iff
  proof (intro allI impI)
    fix j :: nat assume "j < 32"
    then have "i * 32 + j < kp" using that(1) div_mult_mod_eq [of kp 32] by linarith
    then have "frame_used s1 (i * 32 + j)" using s2(1) by (auto simp: used_set_def)
    then show "bit (frame_bitset s1 ! i) j"
      using frame_used_word [OF that(2) \<open>j < 32\<close>] by simp
  qed
  have u: "used_set s = {..<kp}" using s2(1) by (simp add: e used_set_def frame_used_def)
  have "frame_inv s"
    unfolding frame_inv_def u using s2 full nf words_cover [of "unat (PAGE_ID total_ram)"]
      bytes_words [OF nf] by (simp add: e bytes_def)
  then show ?thesis using u s2(3) by (simp add: e kp_def unat_PAGE_ID)
qed

theorem frame_init_correct_witness:
  "\<exists>s e. frame_init_allocator 0x100000 0xC0002001 = Inr (s, e) \<and> used_set s = {..<3}"
proof -
  let ?r = "frame_init_allocator 0x100000 0xC0002001"
  have p: "PAGE_ID 0x100000 = 256" "ALIGN4_UP 32 = 32" "ALIGN4_UP 0xC0002001 = 0xC0002004"
    "PAGE_ALIGN_UP 0x2024 = 0x3000"
    by (simp_all add: PAGE_ID_def PAGE_SIZE_def ALIGN4_UP_def MASK4_def PAGE_ALIGN_UP_def PAGE_MASK_def)
  have "is_ok (frame_mark_loop 0 3 \<lparr>frame_bitset = replicate 8 0, nframes = 256, nused_frames = 0,
      begin_search_at = 0\<rparr>)" by (simp add: numeral_3_eq_3)
  then obtain s1 where "frame_mark_loop 0 3 \<lparr>frame_bitset = replicate 8 0, nframes = 256, nused_frames = 0,
      begin_search_at = 0\<rparr> = Inr s1" by (auto simp: is_ok_iff)
  then have "is_ok ?r"
    by (simp add: frame_init_allocator_def Let_def p K_HIGHHALF_ADDR_def PAGE_SIZE_def)
  then obtain s e where r: "?r = Inr (s, e)" by (auto simp: is_ok_iff)
  moreover have "e = 0xC0002024"
    using r by (auto simp: frame_init_allocator_def Let_def p split: sum.split_asm)
  ultimately show ?thesis
    using frame_init_correct [OF r] p by (auto simp: K_HIGHHALF_ADDR_def PAGE_SIZE_def)
qed

text \<open>a client that takes any number of frames one at a time gets distinct frames, and giving
  them back restores the set of used frames exactly, without a fault.\<close>

theorem frame_take_give:
  assumes "frame_ok s"
  shows "\<exists>fs s1 s2. take_frames (frame_alloc 1) n s = Inr (fs, s1) \<and> distinct fs
    \<and> give_frames (\<lambda>f. frame_free (of_nat f) 1) fs s1 = Inr s2 \<and> used_set s2 = used_set s"
proof -
  obtain fs s1 where t: "take_frames (frame_alloc 1) n s = Inr (fs, s1)" "distinct fs"
    using frames.take_frames_spec [OF assms, of n] by blast
  from frames.take_give [OF assms t(1)] t show ?thesis by blast
qed

theorem frame_take_give_witness:
  "\<exists>fs s1 s2. take_frames (frame_alloc 1) 3 wit_frames = Inr (fs, s1)
     \<and> give_frames (\<lambda>f. frame_free (of_nat f) 1) fs s1 = Inr s2 \<and> used_set s2 = {0}"
  using frame_take_give [OF wit_frames_ok, of 3] wit_frames_used by auto

end
