(* ===== verification/Region_Alloc.thy ===== *)
theory Region_Alloc
  imports Kernel_Sys
begin

text \<open>
  The virtual memory region allocator of src/common/libkogata/region_alloc.c, which the kernel uses for its
  own address space and every process for its user space.

  A descriptor is named by a number: 0 to 11 for \<open>base_descriptors\<close>, its address for a
  descriptor that lies in a page of descriptors. The four linked lists (unused descriptors, free regions by
  address and by size, used regions) are the lists of the descriptors they link; the pointer
  \<open>first_bigger\<close>, which jumps inside the list by size, is kept as a pointer. Addresses and sizes are
  natural numbers below \<open>2 ^ 32\<close>, and sums wrap as \<open>size_t\<close> does. The mutex makes each
  operation atomic.
\<close>

section \<open>The code\<close>

record region_state =
  ra_unused :: "nat list"
  n_unused :: nat
  ra_by_addr :: "nat list"
  ra_by_size :: "nat list"
  ra_used :: "nat list"
  ra_addr :: "nat \<Rightarrow> nat"
  ra_size :: "nat \<Rightarrow> nat"
  ra_type :: "nat \<Rightarrow> string"
  ra_bigger :: "nat \<Rightarrow> nat option"

definition N_RESERVE_DESCRIPTORS :: nat where "N_RESERVE_DESCRIPTORS = 2"
definition N_BASE_DESCRIPTORS :: nat where "N_BASE_DESCRIPTORS = 12"
definition DESCRIPTOR_BYTES :: nat where "DESCRIPTOR_BYTES = 20"

definition add32 :: "nat \<Rightarrow> nat \<Rightarrow> nat" where
  "add32 a b = (a + b) mod 2 ^ 32"

definition page_up :: "nat \<Rightarrow> nat" where
  "page_up n = unat (PAGE_ALIGN_UP (of_nat n))"

definition add_unused_region_descriptor :: "nat \<Rightarrow> region_state \<Rightarrow> region_state" where
  "add_unused_region_descriptor d s = s\<lparr>n_unused := n_unused s + 1, ra_unused := d # ra_unused s\<rparr>"

definition get_unused_region_descriptor :: "region_state \<Rightarrow> (nat \<times> region_state) res" where
  "get_unused_region_descriptor s =
     (case ra_unused s of
        [] \<Rightarrow> Inl Assert_failed
      | r # rs \<Rightarrow> Inr (r, s\<lparr>ra_unused := rs, n_unused := n_unused s - 1\<rparr>))"

text \<open>The descriptor linked after \<open>d\<close>.\<close>

fun next_in :: "nat \<Rightarrow> nat list \<Rightarrow> nat option" where
  "next_in d [] = None"
| "next_in d (x # xs) =
     (if x = d then (case xs of [] \<Rightarrow> None | y # _ \<Rightarrow> Some y) else next_in d xs)"

text \<open>The loop of \<open>remove_free_region\<close> on the list by size, when its head is not \<open>d\<close>.\<close>

fun remove_by_size ::
  "nat \<Rightarrow> nat option \<Rightarrow> (nat \<Rightarrow> nat option) \<Rightarrow> nat list \<Rightarrow> nat list \<times> (nat \<Rightarrow> nat option)" where
  "remove_by_size d nxt bigger [] = ([], bigger)"
| "remove_by_size d nxt bigger (i # js) =
     (let bigger' = (if bigger i = Some d then bigger(i := nxt) else bigger)
      in case js of
           [] \<Rightarrow> ([i], bigger')
         | j # ks \<Rightarrow>
             if j = d then (i # ks, bigger')
             else (case remove_by_size d nxt bigger' js of (l, b) \<Rightarrow> (i # l, b)))"

definition remove_free_region :: "nat \<Rightarrow> region_state \<Rightarrow> region_state" where
  "remove_free_region d s =
     (let (sizes, bigger) =
        (case ra_by_size s of
           x # xs \<Rightarrow> if x = d then (xs, ra_bigger s)
                      else remove_by_size d (next_in d (ra_by_size s)) (ra_bigger s) (ra_by_size s)
         | [] \<Rightarrow> ([], ra_bigger s))
      in s\<lparr>ra_by_size := sizes, ra_bigger := bigger, ra_by_addr := remove1 d (ra_by_addr s)\<rparr>)"

text \<open>The assertions of \<open>_region_alloc_rec_check_first_bigger\<close> along the rest of the list.\<close>

fun check_first_bigger ::
  "(nat \<Rightarrow> nat) \<Rightarrow> (nat \<Rightarrow> nat option) \<Rightarrow> nat option \<Rightarrow> nat \<Rightarrow> nat list \<Rightarrow> bool" where
  "check_first_bigger szf bigger supposed sz [] \<longleftrightarrow> supposed = None"
| "check_first_bigger szf bigger supposed sz (it # its) \<longleftrightarrow>
     (if szf it = sz then bigger it = supposed \<and> check_first_bigger szf bigger supposed sz its
      else if szf it > sz then supposed = Some it \<and> check_first_bigger szf bigger (bigger it) (szf it) its
      else False)"

datatype neighbour = Prev_free nat | Next_free nat

fun find_adjacent :: "region_state \<Rightarrow> nat \<Rightarrow> nat list \<Rightarrow> neighbour option" where
  "find_adjacent s d [] = None"
| "find_adjacent s d (it # its) =
     (if add32 (ra_addr s it) (ra_size s it) = ra_addr s d then Some (Prev_free it)
      else if ra_addr s it = add32 (ra_addr s d) (ra_size s d) then Some (Next_free it)
      else if ra_addr s it > ra_addr s d then None
      else find_adjacent s d its)"

fun insert_by_addr :: "(nat \<Rightarrow> nat) \<Rightarrow> nat \<Rightarrow> nat list \<Rightarrow> nat list" where
  "insert_by_addr addr d [] = []"
| "insert_by_addr addr d (it # its) =
     (case its of
        [] \<Rightarrow> [it, d]
      | j # js \<Rightarrow> if addr j > addr d then it # d # its else it # insert_by_addr addr d its)"

fun insert_by_size ::
  "(nat \<Rightarrow> nat) \<Rightarrow> nat \<Rightarrow> (nat \<Rightarrow> nat option) \<Rightarrow> nat list \<Rightarrow> (nat list \<times> (nat \<Rightarrow> nat option)) res" where
  "insert_by_size szf d bigger [] = Inr ([], bigger)"
| "insert_by_size szf d bigger (it # its) =
     (if \<not> szf it < szf d then Inl Assert_failed
      else (let bigger' = (case bigger it of
                             None \<Rightarrow> bigger(it := Some d)
                           | Some b \<Rightarrow> if szf b \<ge> szf d then bigger(it := Some d) else bigger)
            in case its of
                 [] \<Rightarrow> Inr ([it, d], bigger'(d := None))
               | next # _ \<Rightarrow>
                   if szf next \<ge> szf d
                   then Inr (it # d # its,
                          bigger'(d := (if szf next > szf d then Some next else bigger' next)))
                   else (case insert_by_size szf d bigger' its of
                           Inl e \<Rightarrow> Inl e
                         | Inr (l, b) \<Rightarrow> Inr (it # l, b))))"

text \<open>The insertion in both lists, and the check of the list by size.\<close>

definition insert_free_region :: "nat \<Rightarrow> region_state \<Rightarrow> region_state res" where
  "insert_free_region d s =
     (case ra_by_addr s of
        [] \<Rightarrow>
          if ra_by_size s \<noteq> [] then Inl Assert_failed
          else Inr (s\<lparr>ra_by_addr := [d], ra_by_size := [d], ra_bigger := (ra_bigger s)(d := None)\<rparr>)
      | a # as \<Rightarrow>
          (case ra_by_size s of
             [] \<Rightarrow> Inl Assert_failed
           | z # zs \<Rightarrow>
               (let addrs = (if ra_addr s a > ra_addr s d then d # a # as
                             else insert_by_addr (ra_addr s) d (a # as))
                in case (if ra_size s z \<ge> ra_size s d
                         then Inr (d # z # zs,
                           (ra_bigger s)(d := (if ra_size s z > ra_size s d then Some z else ra_bigger s z)))
                         else insert_by_size (ra_size s) d (ra_bigger s) (z # zs)) of
                     Inl e \<Rightarrow> Inl e
                   | Inr (sizes, bigger) \<Rightarrow>
                       if sizes \<noteq> [] \<and> check_first_bigger (ra_size s) bigger (bigger (hd sizes))
                            (ra_size s (hd sizes)) (tl sizes)
                       then Inr (s\<lparr>ra_by_addr := addrs, ra_by_size := sizes, ra_bigger := bigger\<rparr>)
                       else Inl Assert_failed)))"

lemma find_adjacent_in:
  "find_adjacent s d xs = Some (Prev_free it) \<Longrightarrow> it \<in> set xs"
  "find_adjacent s d xs = Some (Next_free it) \<Longrightarrow> it \<in> set xs"
  by (induction xs) (auto split: if_splits)

lemma length_remove1_less: "x \<in> set xs \<Longrightarrow> length (remove1 x xs) < length xs"
  using length_pos_if_in_set [of x xs] by (simp add: length_remove1)

lemma by_addr_removed: "ra_by_addr (remove_free_region d s) = remove1 d (ra_by_addr s)"
  by (simp add: remove_free_region_def split_beta)

function add_free_region :: "nat \<Rightarrow> region_state \<Rightarrow> region_state res" where
  "add_free_region d s =
     (case find_adjacent s d (ra_by_addr s) of
        Some (Prev_free prev) \<Rightarrow>
          (let s1 = remove_free_region prev s;
               s2 = s1\<lparr>ra_size := (ra_size s1)(prev := add32 (ra_size s1 prev) (ra_size s1 d))\<rparr>
           in add_free_region prev (add_unused_region_descriptor d s2))
      | Some (Next_free nxt) \<Rightarrow>
          (let s1 = remove_free_region nxt s;
               s2 = s1\<lparr>ra_size := (ra_size s1)(d := add32 (ra_size s1 d) (ra_size s1 nxt))\<rparr>
           in add_free_region d (add_unused_region_descriptor nxt s2))
      | None \<Rightarrow> insert_free_region d s)"
  by pat_completeness auto
termination
proof (relation "measure (\<lambda>(d, s). length (ra_by_addr s))", goal_cases)
  case (2 d s n it s1 s2)
  then have "it \<in> set (ra_by_addr s)" using find_adjacent_in by blast
  with 2 show ?case
    by (simp add: add_unused_region_descriptor_def by_addr_removed length_remove1_less)
next
  case (3 d s n it s1 s2)
  then have "it \<in> set (ra_by_addr s)" using find_adjacent_in by blast
  with 3 show ?case
    by (simp add: add_unused_region_descriptor_def by_addr_removed length_remove1_less)
qed simp

declare add_free_region.simps [simp del]

fun find_used_in :: "region_state \<Rightarrow> nat \<Rightarrow> nat list \<Rightarrow> nat option" where
  "find_used_in s addr [] = None"
| "find_used_in s addr (i # is) =
     (if addr \<ge> ra_addr s i \<and> addr < add32 (ra_addr s i) (ra_size s i) then Some i
      else if ra_addr s i > addr then None
      else find_used_in s addr is)"

definition find_used_region :: "nat \<Rightarrow> region_state \<Rightarrow> nat option" where
  "find_used_region addr s = find_used_in s addr (ra_used s)"

fun insert_used :: "(nat \<Rightarrow> nat) \<Rightarrow> nat \<Rightarrow> nat list \<Rightarrow> nat list res" where
  "insert_used addr d [] = Inl Assert_failed"
| "insert_used addr d (i # is) =
     (if \<not> addr i < addr d then Inl Assert_failed
      else (case is of
              [] \<Rightarrow> Inr [i, d]
            | j # _ \<Rightarrow>
                if addr j > addr d then Inr (i # d # is)
                else (case insert_used addr d is of Inl e \<Rightarrow> Inl e | Inr l \<Rightarrow> Inr (i # l))))"

definition add_used_region :: "nat \<Rightarrow> region_state \<Rightarrow> region_state res" where
  "add_used_region d s =
     (case ra_used s of
        [] \<Rightarrow> Inr (s\<lparr>ra_used := [d]\<rparr>)
      | u # us \<Rightarrow>
          if ra_addr s d < ra_addr s u then Inr (s\<lparr>ra_used := d # u # us\<rparr>)
          else (case insert_used (ra_addr s) d (u # us) of
                  Inl e \<Rightarrow> Inl e
                | Inr l \<Rightarrow> Inr (s\<lparr>ra_used := l\<rparr>)))"

text \<open>Walking the used list, the search for \<open>d\<close> gives up at the first region after it.\<close>

fun remove_used_loop :: "(nat \<Rightarrow> nat) \<Rightarrow> nat \<Rightarrow> nat list \<Rightarrow> nat list" where
  "remove_used_loop addr d [] = []"
| "remove_used_loop addr d (i # is) =
     (if addr i > addr d then i # is
      else (case is of
              [] \<Rightarrow> [i]
            | j # js \<Rightarrow> if j = d then i # js else i # remove_used_loop addr d is))"

definition remove_used_region :: "nat \<Rightarrow> region_state \<Rightarrow> region_state" where
  "remove_used_region d s =
     (case ra_used s of
        [] \<Rightarrow> s
      | u # us \<Rightarrow>
          s\<lparr>ra_used := (if u = d then us else remove_used_loop (ra_addr s) d (u # us))\<rparr>)"

definition region_allocator_init :: "nat \<Rightarrow> nat \<Rightarrow> nat \<Rightarrow> region_state res" where
  "region_allocator_init begin rsvd_end region_end =
     (let s0 = foldl (\<lambda>s d. add_unused_region_descriptor d s)
                 \<lparr>ra_unused = [], n_unused = 0, ra_by_addr = [], ra_by_size = [], ra_used = [],
                  ra_addr = (\<lambda>_. 0), ra_size = (\<lambda>_. 0), ra_type = (\<lambda>_. ''''), ra_bigger = (\<lambda>_. None)\<rparr>
                 [0..<N_BASE_DESCRIPTORS]
      in if \<not> (PAGE_ALIGNED (of_nat begin) \<and> PAGE_ALIGNED (of_nat rsvd_end) \<and> PAGE_ALIGNED (of_nat region_end))
         then Inl Assert_failed
         else (case get_unused_region_descriptor s0 of
                 Inl e \<Rightarrow> Inl e
               | Inr (f0, s1) \<Rightarrow>
                   (case add_free_region f0
                           (s1\<lparr>ra_addr := (ra_addr s1)(f0 := rsvd_end),
                               ra_size := (ra_size s1)(f0 := region_end - rsvd_end)\<rparr>) of
                      Inl e \<Rightarrow> Inl e
                    | Inr s2 \<Rightarrow>
                        if rsvd_end > begin then
                          (case get_unused_region_descriptor s2 of
                             Inl e \<Rightarrow> Inl e
                           | Inr (u0, s3) \<Rightarrow>
                               Inr (s3\<lparr>ra_addr := (ra_addr s3)(u0 := begin),
                                       ra_size := (ra_size s3)(u0 := rsvd_end - begin),
                                       ra_type := (ra_type s3)(u0 := ''Reserved''),
                                       ra_used := [u0]\<rparr>))
                        else Inr (s2\<lparr>ra_used := []\<rparr>))))"

definition region_free_inner :: "nat \<Rightarrow> region_state \<Rightarrow> region_state res" where
  "region_free_inner addr s =
     (case find_used_region addr s of
        None \<Rightarrow> Inr s
      | Some d \<Rightarrow> add_free_region d (remove_used_region d s))"

definition region_free :: "nat \<Rightarrow> region_state \<Rightarrow> region_state res" where
  "region_free addr s = region_free_inner addr s"

text \<open>
  The walk along \<open>first_bigger\<close> to the first region that is large enough. The fuel bounds the
  number of hops; running out of it is the outer \<open>None\<close>.
\<close>

fun find_fit :: "region_state \<Rightarrow> nat \<Rightarrow> nat \<Rightarrow> nat option \<Rightarrow> nat option option" where
  "find_fit s want fuel None = Some None"
| "find_fit s want 0 (Some i) = None"
| "find_fit s want (Suc fuel) (Some i) =
     (if ra_size s i \<ge> want then Some (Some i) else find_fit s want fuel (ra_bigger s i))"

definition region_alloc_inner :: "nat \<Rightarrow> string \<Rightarrow> bool \<Rightarrow> region_state \<Rightarrow> (nat \<times> region_state) res" where
  "region_alloc_inner sz type use_reserve s =
     (let want = page_up sz in
      case find_fit s want (length (ra_by_size s)) (case ra_by_size s of [] \<Rightarrow> None | i # _ \<Rightarrow> Some i) of
        None \<Rightarrow> Inl Panicked
      | Some None \<Rightarrow> Inr (0, s)
      | Some (Some i) \<Rightarrow>
          if ra_size s i > want \<and> n_unused s \<le> N_RESERVE_DESCRIPTORS \<and> \<not> use_reserve then Inr (0, s)
          else
            (let split =
               (if ra_size s i > want
                then (case get_unused_region_descriptor s of
                        Inl e \<Rightarrow> Inl e
                      | Inr (x, s1) \<Rightarrow>
                          (let rest = ra_size s1 i - want;
                               s2 = s1\<lparr>ra_size := (ra_size s1)(x := rest)\<rparr>
                           in Inr (Some x,
                                if want \<ge> 0x4000
                                then s2\<lparr>ra_addr := (ra_addr s2)(x := add32 (ra_addr s2 i) want)\<rparr>
                                else s2\<lparr>ra_addr := (ra_addr s2)(x := ra_addr s2 i,
                                                       i := add32 (ra_addr s2 i) rest)\<rparr>)))
                else Inr (None, s))
             in case split of
                  Inl e \<Rightarrow> Inl e
                | Inr (x, s3) \<Rightarrow>
                    (case (case x of None \<Rightarrow> Inr (remove_free_region i s3)
                           | Some x \<Rightarrow> add_free_region x (remove_free_region i s3)) of
                       Inl e \<Rightarrow> Inl e
                     | Inr s4 \<Rightarrow>
                         (case add_used_region i
                                 (s4\<lparr>ra_size := (ra_size s4)(i := want), ra_type := (ra_type s4)(i := type)\<rparr>) of
                            Inl e \<Rightarrow> Inl e
                          | Inr s5 \<Rightarrow> Inr (ra_addr s4 i, s5)))))"

text \<open>The descriptors of a fresh page, in the order the loop adds them: every whole one.\<close>

definition page_descriptors :: "nat \<Rightarrow> nat list" where
  "page_descriptors p = map (\<lambda>k. p + k * DESCRIPTOR_BYTES) [0..<4096 div DESCRIPTOR_BYTES]"

definition region_alloc :: "(nat \<Rightarrow> bool) \<Rightarrow> nat \<Rightarrow> string \<Rightarrow> region_state \<Rightarrow> (nat \<times> region_state) res" where
  "region_alloc map_page_fun sz type s =
     (if n_unused s \<le> N_RESERVE_DESCRIPTORS then
        (case region_alloc_inner 4096 ''Region descriptors'' True s of
           Inl e \<Rightarrow> Inl e
         | Inr (p, s1) \<Rightarrow>
             if p = 0 then Inl Assert_failed
             else if \<not> map_page_fun p then
               (case region_free_inner p s1 of
                  Inl e \<Rightarrow> Inl e
                | Inr s2 \<Rightarrow> region_alloc_inner sz type False s2)
             else region_alloc_inner sz type False
                    (foldl (\<lambda>s d. add_unused_region_descriptor d s) s1 (page_descriptors p)))
      else region_alloc_inner sz type False s)"

definition find_region :: "nat \<Rightarrow> region_state \<Rightarrow> (nat \<times> nat \<times> string) option" where
  "find_region addr s =
     (case find_used_region addr s of
        None \<Rightarrow> None
      | Some d \<Rightarrow> Some (ra_addr s d, ra_size s d, ra_type s d))"

end
