(* ===== verification/Paging.thy ===== *)
theory Paging
  imports Frame Region_Alloc
begin

text \<open>
  Virtual memory: src/kernel/core/paging.c (page directories, the page fault handler, mapping of pages) and
  src/kernel/core/region.c (mapping callback and release of kernel regions).

  Physical memory is read by frames of 1024 words. The code reaches the tables of the current address space
  through the mirror: the last entry of every page directory points to the directory itself, so that the
  tables appear in the last 4 MB. The model does the same: \<open>translate\<close> is the processor's walk of the two
  levels, and \<open>kread\<close> and \<open>kwrite\<close> are accesses of the kernel through it, an absent page being handed to
  the page fault handler before the access is tried again. The static tables of the kernel are reached by
  their frames: the loader maps them. The processor's translation cache is taken to agree with the tables (the
  code flushes the entry of every page it changes), and the accessed and dirty bits it sets are left out.
  Interrupts are off while a table changes, so that an operation is one step.
\<close>

section \<open>Constants and entries\<close>

definition PTE_PRESENT :: u32 where "PTE_PRESENT = 1"
definition PTE_RW :: u32 where "PTE_RW = 2"
definition PTE_USER :: u32 where "PTE_USER = 4"
definition PTE_GLOBAL :: u32 where "PTE_GLOBAL = 256"
definition PTE_FRAME_SHIFT :: nat where "PTE_FRAME_SHIFT = 12"
definition FIRST_KERNEL_PT :: nat where "FIRST_KERNEL_PT = unat (drop_bit (PAGE_SHIFT + PT_SHIFT) K_HIGHHALF_ADDR)"

definition PAGE_OF_ADDR :: "u32 \<Rightarrow> nat" where
  "PAGE_OF_ADDR x = unat (drop_bit PAGE_SHIFT x) mod N_PAGES_IN_PT"

definition PT_OF_ADDR :: "u32 \<Rightarrow> nat" where
  "PT_OF_ADDR x = unat (drop_bit (PAGE_SHIFT + PT_SHIFT) x)"

definition present :: "u32 \<Rightarrow> bool" where
  "present e \<longleftrightarrow> e AND PTE_PRESENT \<noteq> 0"

definition pte_frame :: "u32 \<Rightarrow> nat" where
  "pte_frame e = unat (drop_bit PTE_FRAME_SHIFT e)"

section \<open>State\<close>

text \<open>Addresses the linker gives to the static objects of the kernel.\<close>

record image =
  ki_kernel_pd :: u32
  ki_kernel_pt0 :: u32
  ki_stack_protector :: u32

record pagedir =
  phys_addr :: u32
  user_pfh :: "nat option"
  user_pfh_data :: nat

text \<open>\<open>pg_thread\<close> is \<open>current_pd_d\<close> of the current thread, none before there are threads; \<open>pg_dirs\<close> are the
  live \<open>pagedir_t\<close>, that of the kernel under the name 0.\<close>

record paging =
  pg_mem :: "nat \<Rightarrow> nat \<Rightarrow> u32"
  pg_cr3 :: u32
  pg_thread :: "nat option"
  pg_dirs :: "nat \<Rightarrow> pagedir option"
  pg_next :: nat
  pg_frames :: frame_state
  pg_regions :: region_state
  pg_heap :: heap

definition kernel_pd :: "image \<Rightarrow> nat" where
  "kernel_pd im = pte_frame (ki_kernel_pd im - K_HIGHHALF_ADDR)"

definition KERNEL_PD_D :: nat where "KERNEL_PD_D = 0"

definition set_word :: "nat \<Rightarrow> nat \<Rightarrow> u32 \<Rightarrow> paging \<Rightarrow> paging" where
  "set_word f i w s = s\<lparr>pg_mem := (pg_mem s)(f := (pg_mem s f)(i := w))\<rparr>"

definition cr3_frame :: "paging \<Rightarrow> nat" where
  "cr3_frame s = pte_frame (pg_cr3 s)"

section \<open>The processor's walk\<close>

definition translate :: "paging \<Rightarrow> u32 \<Rightarrow> (nat \<times> nat) option" where
  "translate s v =
     (let pde = pg_mem s (cr3_frame s) (PT_OF_ADDR v)
      in if \<not> present pde then None
         else (let pte = pg_mem s (pte_frame pde) (PAGE_OF_ADDR v)
               in if \<not> present pte then None else Some (pte_frame pte, unat (v AND NOT PAGE_MASK) div 4)))"

definition CURRENT_PD :: u32 where
  "CURRENT_PD = PD_MIRROR_ADDR + (of_nat N_PAGES_IN_PT - 1) * PAGE_SIZE"

text \<open>The addresses of \<open>current_pd->page[i]\<close> and of \<open>current_pt[pt].page[i]\<close>.\<close>

definition pd_word :: "nat \<Rightarrow> u32" where
  "pd_word i = CURRENT_PD + of_nat (4 * i)"

definition pt_word :: "nat \<Rightarrow> nat \<Rightarrow> u32" where
  "pt_word pt i = PD_MIRROR_ADDR + of_nat pt * PAGE_SIZE + of_nat (4 * i)"

definition raw_read :: "u32 \<Rightarrow> paging \<Rightarrow> u32 res" where
  "raw_read v s = (case translate s v of None \<Rightarrow> Inl Bad_access | Some (f, i) \<Rightarrow> Inr (pg_mem s f i))"

definition raw_write :: "u32 \<Rightarrow> u32 \<Rightarrow> paging \<Rightarrow> paging res" where
  "raw_write v w s = (case translate s v of None \<Rightarrow> Inl Bad_access | Some (f, i) \<Rightarrow> Inr (set_word f i w s))"

section \<open>Page faults\<close>

text \<open>The branch of the handler for a fault of the kernel in its own half: a table that is in the kernel's
  directory and not in the current one is copied. Inside the handler the directory is read through the mirror;
  were the mirror absent, the fault would recur (\<open>Bad_access\<close>).\<close>

definition kernel_fault :: "image \<Rightarrow> u32 \<Rightarrow> paging \<Rightarrow> paging res" where
  "kernel_fault im vaddr s =
     (let pt = PT_OF_ADDR vaddr; k = pg_mem s (kernel_pd im) pt
      in rbind (raw_read (pd_word pt) s) (\<lambda>c.
           if CURRENT_PD \<noteq> ki_kernel_pd im \<and> c \<noteq> k then raw_write (pd_word pt) k s
           else Inl Panicked))"

text \<open>The handlers behind the function pointers: of a page directory, with its data, and of a thread.\<close>

record handlers =
  run_user_pfh :: "nat \<Rightarrow> nat \<Rightarrow> u32 \<Rightarrow> paging \<Rightarrow> paging res"
  run_user_ex :: "(paging \<Rightarrow> paging res) option"

definition get_current_pagedir :: "paging \<Rightarrow> nat" where
  "get_current_pagedir s = (case pg_thread s of None \<Rightarrow> KERNEL_PD_D | Some d \<Rightarrow> d)"

definition get_kernel_pagedir :: nat where
  "get_kernel_pagedir = KERNEL_PD_D"

definition page_fault_handler :: "image \<Rightarrow> handlers \<Rightarrow> bool \<Rightarrow> u32 \<Rightarrow> paging \<Rightarrow> paging res" where
  "page_fault_handler im H is_user vaddr s =
     rbind (deref (pg_dirs s) (get_current_pagedir s)) (\<lambda>pd.
       if is_user then
         (if vaddr \<ge> K_HIGHHALF_ADDR then
            (case run_user_ex H of None \<Rightarrow> Inl Assert_failed | Some ex \<Rightarrow> ex s)
          else (case user_pfh pd of
                  None \<Rightarrow> Inl Panicked
                | Some h \<Rightarrow> run_user_pfh H h (user_pfh_data pd) vaddr s))
       else if vaddr < PAGE_SIZE then Inl Panicked
       else if vaddr < K_HIGHHALF_ADDR then
         (case user_pfh pd of
            None \<Rightarrow> Inl Panicked
          | Some h \<Rightarrow> run_user_pfh H h (user_pfh_data pd) vaddr s)
       else kernel_fault im vaddr s)"

text \<open>An access of the kernel in its own half: a fault is handled and the instruction started again. A second
  fault on it is handled too, and ends in the handler's panic.\<close>

definition resolve :: "image \<Rightarrow> u32 \<Rightarrow> paging \<Rightarrow> ((nat \<times> nat) \<times> paging) res" where
  "resolve im v s =
     (case translate s v of
        Some p \<Rightarrow> Inr (p, s)
      | None \<Rightarrow>
          rbind (kernel_fault im v s) (\<lambda>s1.
            case translate s1 v of
              Some p \<Rightarrow> Inr (p, s1)
            | None \<Rightarrow> rbind (kernel_fault im v s1) (\<lambda>_. Inl Diverged)))"

definition kread :: "image \<Rightarrow> u32 \<Rightarrow> paging \<Rightarrow> (u32 \<times> paging) res" where
  "kread im v s = rbind (resolve im v s) (\<lambda>((f, i), s1). Inr (pg_mem s1 f i, s1))"

definition kwrite :: "image \<Rightarrow> u32 \<Rightarrow> u32 \<Rightarrow> paging \<Rightarrow> paging res" where
  "kwrite im v w s = rbind (resolve im v s) (\<lambda>((f, i), s1). Inr (set_word f i w s1))"

text \<open>\<open>memset\<close> of a page to zero, and the loops that fill the words of a page.\<close>

fun kwrites :: "image \<Rightarrow> (u32 \<times> u32) list \<Rightarrow> paging \<Rightarrow> paging res" where
  "kwrites im [] s = Inr s"
| "kwrites im ((v, w) # xs) s = rbind (kwrite im v w s) (kwrites im xs)"

section \<open>Setting paging up\<close>

fun pt0_loop :: "image \<Rightarrow> nat \<Rightarrow> nat \<Rightarrow> nat \<Rightarrow> paging \<Rightarrow> paging res" where
  "pt0_loop im pt0 i 0 s = Inr s"
| "pt0_loop im pt0 i (Suc n) s =
     rbind (if of_nat i * PAGE_SIZE + K_HIGHHALF_ADDR = ki_stack_protector im
            then rbind (frame_free (of_nat i) 1 (pg_frames s)) (\<lambda>fr. Inr ((set_word pt0 i 0 s)\<lparr>pg_frames := fr\<rparr>))
            else Inr (set_word pt0 i (push_bit PTE_FRAME_SHIFT (of_nat i) OR PTE_PRESENT OR PTE_RW OR PTE_GLOBAL) s))
       (pt0_loop im pt0 (Suc i) n)"

definition paging_setup :: "image \<Rightarrow> u32 \<Rightarrow> paging \<Rightarrow> paging res" where
  "paging_setup im kernel_data_end s =
     (let n_kernel_pages = unat (PAGE_ALIGN_UP (kernel_data_end - K_HIGHHALF_ADDR) div PAGE_SIZE);
          pt0 = pte_frame (ki_kernel_pt0 im - K_HIGHHALF_ADDR)
      in rbind (rassert (n_kernel_pages \<le> 1024)) (\<lambda>_.
         rbind (rassert (PAGE_OF_ADDR K_HIGHHALF_ADDR = 0)) (\<lambda>_.
         rbind (rassert (FIRST_KERNEL_PT = 768)) (\<lambda>_.
         rbind (pt0_loop im pt0 0 n_kernel_pages
                  (s\<lparr>pg_dirs := (pg_dirs s)(KERNEL_PD_D \<mapsto>
                       \<lparr>phys_addr = ki_kernel_pd im - K_HIGHHALF_ADDR, user_pfh = None, user_pfh_data = 0\<rparr>)\<rparr>)) (\<lambda>s1.
           (let s2 = fold (\<lambda>i. set_word pt0 i 0) [n_kernel_pages..<1024] s1;
                s3 = set_word (kernel_pd im) FIRST_KERNEL_PT
                       (((ki_kernel_pt0 im - K_HIGHHALF_ADDR) AND PAGE_MASK) OR PTE_PRESENT OR PTE_RW) s2
            in Inr (set_word (kernel_pd im) (N_PAGES_IN_PT - 1)
                      (((ki_kernel_pd im - K_HIGHHALF_ADDR) AND PAGE_MASK) OR PTE_PRESENT OR PTE_RW) s3)))))))"

definition switch_pagedir :: "nat \<Rightarrow> paging \<Rightarrow> paging res" where
  "switch_pagedir d s =
     rbind (deref (pg_dirs s) d) (\<lambda>pd.
       Inr (s\<lparr>pg_cr3 := phys_addr pd, pg_thread := (case pg_thread s of None \<Rightarrow> None | Some _ \<Rightarrow> Some d)\<rparr>))"

section \<open>Mapping and unmapping of pages\<close>

text \<open>Entry \<open>pt\<close> of \<open>kernel_pd\<close> or of \<open>current_pd\<close>.\<close>

definition read_pde :: "image \<Rightarrow> bool \<Rightarrow> nat \<Rightarrow> paging \<Rightarrow> (u32 \<times> paging) res" where
  "read_pde im on_kernel_pd pt s =
     (if on_kernel_pd then Inr (pg_mem s (kernel_pd im) pt, s) else kread im (pd_word pt) s)"

definition pd_get_entry :: "image \<Rightarrow> u32 \<Rightarrow> paging \<Rightarrow> (u32 \<times> paging) res" where
  "pd_get_entry im vaddr s =
     (let pt = PT_OF_ADDR vaddr; page = PAGE_OF_ADDR vaddr
      in rbind (read_pde im (vaddr \<ge> K_HIGHHALF_ADDR) pt s) (\<lambda>(pde, s1).
           if \<not> present pde then Inr (0, s1)
           else rbind (kread im (pt_word pt page) s1) (\<lambda>(pte, s2).
             if \<not> present pte then Inr (0, s2) else kread im (pt_word pt page) s2)))"

definition pd_get_frame :: "image \<Rightarrow> u32 \<Rightarrow> paging \<Rightarrow> (nat \<times> paging) res" where
  "pd_get_frame im vaddr s = rbind (pd_get_entry im vaddr s) (\<lambda>(e, s1). Inr (pte_frame e, s1))"

definition new_table :: "image \<Rightarrow> bool \<Rightarrow> u32 \<Rightarrow> paging \<Rightarrow> (bool \<times> paging) res" where
  "new_table im on_kernel_pd vaddr s =
     (let pt = PT_OF_ADDR vaddr
      in rbind (frame_alloc 1 (pg_frames s)) (\<lambda>(new_pt_frame, fr).
           (let s1 = s\<lparr>pg_frames := fr\<rparr>;
                e = push_bit PTE_FRAME_SHIFT (of_nat new_pt_frame) OR PTE_PRESENT OR PTE_RW
                      OR (if vaddr < K_HIGHHALF_ADDR then PTE_USER else 0)
            in if new_pt_frame = 0 then Inr (False, s1)
               else
                 rbind (if on_kernel_pd then Inr (set_word (kernel_pd im) pt e s1)
                        else kwrite im (pd_word pt) e s1) (\<lambda>s2.
                 rbind (kwrite im (pd_word pt) e s2) (\<lambda>s3.
                 rbind (kwrites im (map (\<lambda>i. (pt_word pt i, 0)) [0..<N_PAGES_IN_PT]) s3) (\<lambda>s4.
                   Inr (True, s4)))))))"

definition pd_map_page :: "image \<Rightarrow> u32 \<Rightarrow> nat \<Rightarrow> bool \<Rightarrow> paging \<Rightarrow> (bool \<times> paging) res" where
  "pd_map_page im vaddr frame_id rw s =
     (let pt = PT_OF_ADDR vaddr; page = PAGE_OF_ADDR vaddr;
          on_kernel_pd = (vaddr \<ge> K_HIGHHALF_ADDR \<or> pg_thread s = None)
      in rbind (rassert (vaddr < PD_MIRROR_ADDR)) (\<lambda>_.
         rbind (read_pde im on_kernel_pd pt s) (\<lambda>(pde, s1).
         rbind (if \<not> present pde then new_table im on_kernel_pd vaddr s1 else Inr (True, s1)) (\<lambda>(ok, s2).
           if \<not> ok then Inr (False, s2)
           else
             rbind (kwrite im (pt_word pt page)
                      (push_bit PTE_FRAME_SHIFT (of_nat frame_id) OR PTE_PRESENT
                       OR (if vaddr < K_HIGHHALF_ADDR then PTE_USER else PTE_GLOBAL)
                       OR (if rw then PTE_RW else 0)) s2) (\<lambda>s3.
               Inr (True, s3))))))"

definition pd_unmap_page :: "image \<Rightarrow> u32 \<Rightarrow> paging \<Rightarrow> paging res" where
  "pd_unmap_page im vaddr s =
     (let pt = PT_OF_ADDR vaddr; page = PAGE_OF_ADDR vaddr
      in rbind (read_pde im (vaddr \<ge> K_HIGHHALF_ADDR) pt s) (\<lambda>(pde, s1).
           if \<not> present pde then Inr s1
           else rbind (kread im (pt_word pt page) s1) (\<lambda>(pte, s2).
             if \<not> present pte then Inr s2 else kwrite im (pt_word pt page) 0 s2)))"

section \<open>Kernel regions\<close>

definition alloc_map_single_frame :: "image \<Rightarrow> u32 \<Rightarrow> paging \<Rightarrow> (bool \<times> paging) res" where
  "alloc_map_single_frame im addr s =
     rbind (frame_alloc 1 (pg_frames s)) (\<lambda>(frame, fr).
       if frame = 0 then Inr (False, s\<lparr>pg_frames := fr\<rparr>)
       else
         rbind (pd_map_page im addr frame True (s\<lparr>pg_frames := fr\<rparr>)) (\<lambda>(ok, s1).
           if ok then Inr (True, s1)
           else rbind (frame_free (of_nat frame) 1 (pg_frames s1)) (\<lambda>fr1. Inr (False, s1\<lparr>pg_frames := fr1\<rparr>))))"

text \<open>\<open>region_alloc\<close> with \<open>alloc_map_single_frame\<close> as its callback, as src/kernel/core/kmain.c sets it up. The
  allocator calls it at most once, for the page of descriptors it has taken when it is short of them; the
  mapping does not touch the allocator's state, so it is done first and its answer handed over.\<close>

definition descriptor_page :: "region_state \<Rightarrow> nat option" where
  "descriptor_page r =
     (if n_unused r \<le> N_RESERVE_DESCRIPTORS
      then (case region_alloc_inner 4096 ''Region descriptors'' True r of
              Inl _ \<Rightarrow> None
            | Inr (p, _) \<Rightarrow> if p = 0 then None else Some p)
      else None)"

definition kregion_alloc :: "image \<Rightarrow> nat \<Rightarrow> string \<Rightarrow> paging \<Rightarrow> (nat \<times> paging) res" where
  "kregion_alloc im sz type s =
     rbind (case descriptor_page (pg_regions s) of
              None \<Rightarrow> Inr (True, s)
            | Some p \<Rightarrow> alloc_map_single_frame im (of_nat p) s) (\<lambda>(mapped, s1).
     rbind (region_alloc (\<lambda>_. mapped) sz type (pg_regions s1)) (\<lambda>(a, r). Inr (a, s1\<lparr>pg_regions := r\<rparr>)))"

definition kregion_free :: "nat \<Rightarrow> paging \<Rightarrow> paging res" where
  "kregion_free a s = rbind (region_free a (pg_regions s)) (\<lambda>r. Inr (s\<lparr>pg_regions := r\<rparr>))"

definition unmap_free_one :: "image \<Rightarrow> u32 \<Rightarrow> paging \<Rightarrow> paging res" where
  "unmap_free_one im x s =
     rbind (pd_get_frame im x s) (\<lambda>(f, s1).
       if f \<noteq> 0 then
         rbind (pd_unmap_page im x s1) (\<lambda>s2.
         rbind (frame_free (of_nat f) 1 (pg_frames s2)) (\<lambda>fr. Inr (s2\<lparr>pg_frames := fr\<rparr>)))
       else Inr s1)"

definition region_free_unmap_free :: "image \<Rightarrow> nat \<Rightarrow> paging \<Rightarrow> paging res" where
  "region_free_unmap_free im ptr s =
     (case find_region ptr (pg_regions s) of
        None \<Rightarrow> Inl Assert_failed
      | Some (a, z, _) \<Rightarrow>
          rbind (page_range (of_nat a) (of_nat z)) (\<lambda>ps.
          rbind (each_page (unmap_free_one im) ps s) (kregion_free ptr)))"

definition region_free_unmap :: "image \<Rightarrow> nat \<Rightarrow> paging \<Rightarrow> paging res" where
  "region_free_unmap im ptr s =
     (case find_region ptr (pg_regions s) of
        None \<Rightarrow> Inl Assert_failed
      | Some (a, z, _) \<Rightarrow>
          rbind (page_range (of_nat a) (of_nat z)) (\<lambda>ps.
          rbind (each_page (pd_unmap_page im) ps s) (kregion_free ptr)))"

section \<open>Page directories\<close>

definition release_pd_frame :: "nat \<Rightarrow> paging \<Rightarrow> paging res" where
  "release_pd_frame f s = rbind (frame_free (of_nat f) 1 (pg_frames s)) (\<lambda>fr. Inr (s\<lparr>pg_frames := fr\<rparr>))"

text \<open>The words of a new directory: empty in the lower half, the kernel's tables, and the mirror.\<close>

definition new_pd_words :: "image \<Rightarrow> nat \<Rightarrow> u32 \<Rightarrow> paging \<Rightarrow> (u32 \<times> u32) list" where
  "new_pd_words im temp pd_addr s =
     map (\<lambda>i. (of_nat temp + of_nat (4 * i), 0)) [0..<N_PAGES_IN_PT]
     @ map (\<lambda>i. (of_nat temp + of_nat (4 * i), pg_mem s (kernel_pd im) i)) [FIRST_KERNEL_PT..<N_PAGES_IN_PT - 1]
     @ [(of_nat temp + of_nat (4 * (N_PAGES_IN_PT - 1)), pd_addr OR PTE_PRESENT OR PTE_RW)]"

text \<open>Once the frame is mapped at \<open>temp\<close>: the structure and the frame are filled and the mapping is removed.\<close>

definition fill_pagedir :: "image \<Rightarrow> nat option \<Rightarrow> nat \<Rightarrow> nat \<Rightarrow> nat \<Rightarrow> paging \<Rightarrow> (nat option \<times> paging) res" where
  "fill_pagedir im pf pfd pd_phys temp s =
     (let pd = \<lparr>phys_addr = of_nat pd_phys * PAGE_SIZE, user_pfh = pf, user_pfh_data = pfd\<rparr>;
          a = pg_next s;
          s1 = s\<lparr>pg_dirs := (pg_dirs s)(a \<mapsto> pd), pg_next := a + 1\<rparr>
      in rbind (kwrites im (new_pd_words im temp (phys_addr pd) s1) s1) (\<lambda>s2.
         rbind (region_free_unmap im temp s2) (\<lambda>s3. Inr (Some a, s3))))"

definition map_pagedir :: "image \<Rightarrow> nat option \<Rightarrow> nat \<Rightarrow> nat \<Rightarrow> nat \<Rightarrow> paging \<Rightarrow> (nat option \<times> paging) res" where
  "map_pagedir im pf pfd pd_phys temp s =
     rbind (pd_map_page im (of_nat temp) pd_phys True s) (\<lambda>(map_ok, s1).
       if map_ok then fill_pagedir im pf pfd pd_phys temp s1
       else rbind (release_pd_frame pd_phys s1) (\<lambda>s2.
            rbind (kregion_free temp (s2\<lparr>pg_heap := heap_free (pg_heap s2)\<rparr>)) (\<lambda>s3. Inr (None, s3))))"

definition create_pagedir :: "image \<Rightarrow> nat option \<Rightarrow> nat \<Rightarrow> paging \<Rightarrow> (nat option \<times> paging) res" where
  "create_pagedir im pf pfd s =
     rbind (frame_alloc 1 (pg_frames s)) (\<lambda>(pd_phys, fr).
       (let s0 = s\<lparr>pg_frames := fr\<rparr>
        in if pd_phys = 0 then Inr (None, s0)
           else (case heap_malloc (pg_heap s0) of (ok, h) \<Rightarrow>
             (let s1 = s0\<lparr>pg_heap := h\<rparr>
              in if \<not> ok then rbind (release_pd_frame pd_phys s1) (\<lambda>s2. Inr (None, s2))
                 else
                   rbind (kregion_alloc im (unat PAGE_SIZE) ''Temporary pagedir mapping'' s1) (\<lambda>(temp, s2).
                     if temp = 0 then
                       rbind (release_pd_frame pd_phys s2) (\<lambda>s3. Inr (None, s3\<lparr>pg_heap := heap_free (pg_heap s3)\<rparr>))
                     else map_pagedir im pf pfd pd_phys temp s2)))))"

fun kreads :: "image \<Rightarrow> u32 list \<Rightarrow> paging \<Rightarrow> (u32 list \<times> paging) res" where
  "kreads im [] s = Inr ([], s)"
| "kreads im (v # vs) s =
     rbind (kread im v s) (\<lambda>(w, s1). rbind (kreads im vs s1) (\<lambda>(ws, s2). Inr (w # ws, s2)))"

fun free_tables :: "u32 list \<Rightarrow> paging \<Rightarrow> paging res" where
  "free_tables [] s = Inr s"
| "free_tables (e # es) s =
     rbind (if present e then release_pd_frame (pte_frame e) s else Inr s) (free_tables es)"

definition delete_pagedir :: "image \<Rightarrow> nat \<Rightarrow> paging \<Rightarrow> paging res" where
  "delete_pagedir im d s =
     rbind (deref (pg_dirs s) d) (\<lambda>pd.
       (let restore_pd = (if get_current_pagedir s = d then KERNEL_PD_D else get_current_pagedir s)
        in rbind (switch_pagedir d s) (\<lambda>s1.
           rbind (kreads im (map pd_word [0..<N_PAGES_IN_PT]) s1) (\<lambda>(backup, s2).
           rbind (switch_pagedir restore_pd s2) (\<lambda>s3.
           rbind (free_tables (take FIRST_KERNEL_PT backup) s3) (\<lambda>s4.
             (let pd_phys = unat (phys_addr pd div PAGE_SIZE)
              in rbind (rassert (pd_phys = pte_frame (backup ! (N_PAGES_IN_PT - 1)))) (\<lambda>_.
                 rbind (release_pd_frame pd_phys s4) (\<lambda>s5.
                   Inr (s5\<lparr>pg_dirs := (pg_dirs s5)(d := None), pg_heap := heap_free (pg_heap s5)\<rparr>))))))))))"

end
