(* ===== verification/Paging_Props.thy ===== *)
theory Paging_Props
  imports Paging
begin

text \<open>
  What the page tables of theory \<open>Paging\<close> mean: a page directory is a map from pages to entries, the kernel's
  half shared by all; mapping and unmapping a page update that map at one page, for any pattern of tables
  allocated before.
\<close>

section \<open>Words of the mirror\<close>

lemma unat_drop_bit_u32: "unat (drop_bit n (w::u32)) = unat w div 2 ^ n"
  by (simp only: unat_drop_bit_eq) (rule drop_bit_eq_div)

lemma PT_OF_ADDR_div: "PT_OF_ADDR v = unat v div 4194304"
  unfolding PT_OF_ADDR_def unat_drop_bit_u32 by (simp add: PAGE_SHIFT_def PT_SHIFT_def)

lemma PAGE_OF_ADDR_div: "PAGE_OF_ADDR v = unat v div 4096 mod 1024"
  unfolding PAGE_OF_ADDR_def unat_drop_bit_u32 by (simp add: PAGE_SHIFT_def N_PAGES_IN_PT_def)

lemma page_offset_mod: "unat (v AND NOT PAGE_MASK) = unat v mod 4096"
  by (simp add: not_page_mask unat_and_mask)

lemma FIRST_KERNEL_PT_eq: "FIRST_KERNEL_PT = 768"
  by (simp add: FIRST_KERNEL_PT_def PAGE_SHIFT_def PT_SHIFT_def K_HIGHHALF_ADDR_def)

lemma unat_pt_word:
  assumes "pt < 1024" and "i < 1024"
  shows "unat (pt_word pt i) = 4290772992 + pt * 4096 + 4 * i"
proof -
  have "pt_word pt i = of_nat (4290772992 + pt * 4096 + 4 * i)"
    by (simp add: pt_word_def PD_MIRROR_ADDR_def PAGE_SIZE_def)
  moreover have "4290772992 + pt * 4096 + 4 * i < 2 ^ 32" using assms by simp
  ultimately show ?thesis by (simp only: unat_of_nat) simp
qed

lemma pd_word_pt_word: "pd_word i = pt_word 1023 i"
  by (simp add: pd_word_def pt_word_def CURRENT_PD_def N_PAGES_IN_PT_def)

lemma mirror_parts:
  assumes "pt < 1024" and "i < 1024"
  shows "PT_OF_ADDR (pt_word pt i) = 1023" and "PAGE_OF_ADDR (pt_word pt i) = pt"
    and "unat (pt_word pt i AND NOT PAGE_MASK) div 4 = i"
proof -
  have u: "unat (pt_word pt i) = 4 * i + (1047552 + pt) * 4096" using unat_pt_word [OF assms] by simp
  have d: "unat (pt_word pt i) div 4096 = 1047552 + pt" using assms(2) unfolding u by simp
  have "unat (pt_word pt i) div 4194304 = unat (pt_word pt i) div 4096 div 1024" by (simp add: div_mult2_eq [symmetric])
  then show "PT_OF_ADDR (pt_word pt i) = 1023" unfolding PT_OF_ADDR_div d using assms(1) by simp
  have "(pt + 1023 * 1024) mod 1024 = pt" using assms(1) by (simp only: mod_mult_self1 mod_less)
  then show "PAGE_OF_ADDR (pt_word pt i) = pt" unfolding PAGE_OF_ADDR_div d by (simp add: add.commute)
  have "unat (pt_word pt i) mod 4096 = 4 * i" using assms(2) unfolding u by (simp only: mod_mult_self1) simp
  then show "unat (pt_word pt i AND NOT PAGE_MASK) div 4 = i" unfolding page_offset_mod by simp
qed

lemma addr_parts_less: "PT_OF_ADDR v < 1024" "PAGE_OF_ADDR v < 1024"
  using unat_u32_less [of v] by (auto simp: PT_OF_ADDR_div PAGE_OF_ADDR_div less_mult_imp_div_less)

lemma high_iff_pt: "K_HIGHHALF_ADDR \<le> v \<longleftrightarrow> 768 \<le> PT_OF_ADDR v"
proof -
  have "K_HIGHHALF_ADDR \<le> v \<longleftrightarrow> 3221225472 \<le> unat v"
    by (simp add: K_HIGHHALF_ADDR_def word_le_nat_alt)
  also have "\<dots> \<longleftrightarrow> 768 \<le> unat v div 4194304" by (simp add: less_eq_div_iff_mult_less_eq)
  finally show ?thesis by (simp add: PT_OF_ADDR_div)
qed

lemma below_mirror_iff_pt: "v < PD_MIRROR_ADDR \<longleftrightarrow> PT_OF_ADDR v < 1023"
proof -
  have "v < PD_MIRROR_ADDR \<longleftrightarrow> unat v < 4290772992"
    by (simp add: PD_MIRROR_ADDR_def word_less_nat_alt)
  also have "\<dots> \<longleftrightarrow> unat v div 4194304 < 1023" by (simp add: div_less_iff_less_mult)
  finally show ?thesis by (simp add: PT_OF_ADDR_div)
qed

section \<open>Entries\<close>

lemma present_bit: "present e \<longleftrightarrow> bit e 0"
  by (simp add: present_def PTE_PRESENT_def and_one_eq odd_iff_mod_2_eq_one bit_0)

lemma not_present_0 [simp]: "\<not> present 0"
  by (simp add: present_def)

lemma pte_frame_less: "pte_frame e < 1048576"
proof -
  have "pte_frame e = unat e div 4096"
    unfolding pte_frame_def unat_drop_bit_u32 by (simp add: PTE_FRAME_SHIFT_def)
  then show ?thesis using unat_u32_less [of e] by (simp add: div_less_iff_less_mult)
qed

text \<open>An entry of any flags below bit 12 with the present bit: both parts can be read back.\<close>

lemma entry_parts:
  assumes "f < 1048576" and "bit flags 0" and "drop_bit 12 flags = 0"
  shows "present (push_bit PTE_FRAME_SHIFT (of_nat f) OR flags)"
    and "pte_frame (push_bit PTE_FRAME_SHIFT (of_nat f) OR flags) = f"
proof -
  show "present (push_bit PTE_FRAME_SHIFT (of_nat f) OR flags)"
    using assms(2) by (simp add: present_bit bit_or_iff)
  have "drop_bit 12 (push_bit 12 (of_nat f :: u32) OR flags) = of_nat f OR drop_bit 12 flags"
  proof (rule bit_word_eqI)
    fix n
    assume n: "n < LENGTH(32)"
    have hi: "\<not> bit (of_nat f :: u32) n" if "20 \<le> n"
    proof -
      have "f < 2 ^ n" using assms(1) power_increasing [OF that, of "2::nat"] by simp
      then have "\<not> bit f n" by (simp add: bit_iff_odd)
      then show ?thesis by (simp add: bit_of_nat_iff)
    qed
    then show "bit (drop_bit 12 (push_bit 12 (of_nat f :: u32) OR flags)) n = bit (of_nat f OR drop_bit 12 flags) n"
      using n hi by (cases "20 \<le> n") (auto simp: bit_simps)
  qed
  also have "\<dots> = of_nat f" unfolding assms(3) by simp
  finally show "pte_frame (push_bit PTE_FRAME_SHIFT (of_nat f) OR flags) = f"
    using assms(1) by (simp add: pte_frame_def PTE_FRAME_SHIFT_def unat_of_nat)
qed

lemmas pte_flags = PTE_PRESENT_def PTE_RW_def PTE_USER_def PTE_GLOBAL_def

lemma table_entry_parts:
  assumes "f < 1048576"
  shows "present (push_bit PTE_FRAME_SHIFT (of_nat f) OR PTE_PRESENT OR PTE_RW OR (if b then PTE_USER else 0))"
    and "pte_frame (push_bit PTE_FRAME_SHIFT (of_nat f) OR PTE_PRESENT OR PTE_RW OR (if b then PTE_USER else 0)) = f"
proof -
  have "bit (PTE_PRESENT OR PTE_RW OR (if b then PTE_USER else 0)) 0"
    "drop_bit 12 (PTE_PRESENT OR PTE_RW OR (if b then PTE_USER else 0)) = 0"
    by (simp_all add: pte_flags)
  from entry_parts [OF assms this]
  show "present (push_bit PTE_FRAME_SHIFT (of_nat f) OR PTE_PRESENT OR PTE_RW OR (if b then PTE_USER else 0))"
    and "pte_frame (push_bit PTE_FRAME_SHIFT (of_nat f) OR PTE_PRESENT OR PTE_RW OR (if b then PTE_USER else 0)) = f"
    by (simp_all only: or.assoc)
qed

definition page_entry :: "bool \<Rightarrow> nat \<Rightarrow> bool \<Rightarrow> u32" where
  "page_entry user f rw =
     push_bit PTE_FRAME_SHIFT (of_nat f) OR PTE_PRESENT OR (if user then PTE_USER else PTE_GLOBAL) OR (if rw then PTE_RW else 0)"

lemma page_entry_parts:
  assumes "f < 1048576"
  shows "present (page_entry user f rw)" and "pte_frame (page_entry user f rw) = f"
proof -
  have "bit (PTE_PRESENT OR (if user then PTE_USER else PTE_GLOBAL) OR (if rw then PTE_RW else 0)) 0"
    "drop_bit 12 (PTE_PRESENT OR (if user then PTE_USER else PTE_GLOBAL) OR (if rw then PTE_RW else 0)) = 0"
    by (simp_all add: pte_flags)
  from entry_parts [OF assms this] show "present (page_entry user f rw)" and "pte_frame (page_entry user f rw) = f"
    by (simp_all only: page_entry_def or.assoc)
qed


section \<open>Address spaces\<close>

text \<open>The entry of a page as the two levels under directory \<open>d\<close> give it, zero when there is none, and what the
  processor sees at an address while \<open>d\<close> is loaded: the kernel's half is the kernel's.\<close>

definition entry_in :: "paging \<Rightarrow> nat \<Rightarrow> u32 \<Rightarrow> u32" where
  "entry_in s d v =
     (let pde = pg_mem s d (PT_OF_ADDR v); pte = pg_mem s (pte_frame pde) (PAGE_OF_ADDR v)
      in if present pde \<and> present pte then pte else 0)"

definition home :: "image \<Rightarrow> nat \<Rightarrow> u32 \<Rightarrow> nat" where
  "home im d v = (if K_HIGHHALF_ADDR \<le> v then kernel_pd im else d)"

definition space :: "image \<Rightarrow> paging \<Rightarrow> nat \<Rightarrow> u32 \<Rightarrow> u32" where
  "space im s d v = entry_in s (home im d v) v"

definition same_page :: "u32 \<Rightarrow> u32 \<Rightarrow> bool" where
  "same_page v w \<longleftrightarrow> PT_OF_ADDR v = PT_OF_ADDR w \<and> PAGE_OF_ADDR v = PAGE_OF_ADDR w"

text \<open>The entries that own a page table: those of the lower half of every directory, and the kernel's.\<close>

definition slots :: "image \<Rightarrow> nat set \<Rightarrow> paging \<Rightarrow> (nat \<times> nat) set" where
  "slots im D s = {(d, i). d \<in> D \<and> i < 1023 \<and> (i < 768 \<or> d = kernel_pd im) \<and> present (pg_mem s d i)}"

definition table_of :: "paging \<Rightarrow> nat \<times> nat \<Rightarrow> nat" where
  "table_of s x = pte_frame (pg_mem s (fst x) (snd x))"

definition tables :: "image \<Rightarrow> nat set \<Rightarrow> paging \<Rightarrow> nat set" where
  "tables im D s = table_of s ` slots im D s"

definition mirrored :: "paging \<Rightarrow> nat \<Rightarrow> bool" where
  "mirrored s d \<longleftrightarrow> present (pg_mem s d 1023) \<and> pte_frame (pg_mem s d 1023) = d"

definition shares_kernel :: "image \<Rightarrow> paging \<Rightarrow> nat \<Rightarrow> bool" where
  "shares_kernel im s d \<longleftrightarrow>
     (\<forall>i. 768 \<le> i \<and> i < 1023 \<and> present (pg_mem s d i) \<longrightarrow> pg_mem s d i = pg_mem s (kernel_pd im) i)"

definition spaces_ok :: "image \<Rightarrow> nat set \<Rightarrow> paging \<Rightarrow> bool" where
  "spaces_ok im D s \<longleftrightarrow> kernel_pd im \<in> D \<and> cr3_frame s \<in> D \<and> ki_kernel_pd im \<noteq> CURRENT_PD
     \<and> (\<forall>d \<in> D. mirrored s d \<and> shares_kernel im s d)
     \<and> inj_on (table_of s) (slots im D s) \<and> table_of s ` slots im D s \<inter> D = {}
     \<and> D \<union> table_of s ` slots im D s \<subseteq> used_set (pg_frames s) - {0}
     \<and> frame_ok (pg_frames s) \<and> nframes (pg_frames s) \<le> 1048576"

text \<open>The directory in use has the kernel's table for an address of the kernel, if there is one.\<close>

definition synced :: "image \<Rightarrow> paging \<Rightarrow> u32 \<Rightarrow> bool" where
  "synced im s v \<longleftrightarrow> (K_HIGHHALF_ADDR \<le> v \<longrightarrow> present (pg_mem s (kernel_pd im) (PT_OF_ADDR v)) \<longrightarrow>
     present (pg_mem s (cr3_frame s) (PT_OF_ADDR v)))"

lemma mirroredD: "mirrored s d \<Longrightarrow> present (pg_mem s d 1023)" "mirrored s d \<Longrightarrow> pte_frame (pg_mem s d 1023) = d"
  by (simp_all add: mirrored_def)

lemma spaces_okD:
  assumes "spaces_ok im D s"
  shows "kernel_pd im \<in> D" and "cr3_frame s \<in> D" and "d \<in> D \<Longrightarrow> mirrored s d" and "d \<in> D \<Longrightarrow> shares_kernel im s d"
    and "inj_on (table_of s) (slots im D s)" and "table_of s ` slots im D s \<inter> D = {}"
    and "D \<union> table_of s ` slots im D s \<subseteq> used_set (pg_frames s)"
    and "0 \<notin> D \<union> table_of s ` slots im D s"
    and "frame_ok (pg_frames s)" and "nframes (pg_frames s) \<le> 1048576" and "ki_kernel_pd im \<noteq> CURRENT_PD"
  using assms unfolding spaces_ok_def by blast+

section \<open>Accesses through the mirror\<close>

lemma translate_pt_word:
  assumes m: "mirrored s (cr3_frame s)" and "pt < 1024" and "i < 1024"
  shows "translate s (pt_word pt i) =
     (if present (pg_mem s (cr3_frame s) pt) then Some (pte_frame (pg_mem s (cr3_frame s) pt), i) else None)"
  by (simp add: translate_def mirror_parts [OF assms(2,3)] mirroredD [OF m] Let_def)

lemma translate_pd_word:
  assumes m: "mirrored s (cr3_frame s)" and "i < 1024"
  shows "translate s (pd_word i) = Some (cr3_frame s, i)"
  using translate_pt_word [OF m, of 1023 i] assms(2) by (simp add: pd_word_pt_word mirroredD [OF m])

lemma kread_mapped: "translate s v = Some (f, i) \<Longrightarrow> kread im v s = Inr (pg_mem s f i, s)"
  by (simp add: kread_def resolve_def)

lemma kwrite_mapped: "translate s v = Some (f, i) \<Longrightarrow> kwrite im v w s = Inr (set_word f i w s)"
  by (simp add: kwrite_def resolve_def)

lemma set_word_simps [simp]:
  "pg_cr3 (set_word f i w s) = pg_cr3 s" "pg_thread (set_word f i w s) = pg_thread s"
  "pg_dirs (set_word f i w s) = pg_dirs s" "pg_frames (set_word f i w s) = pg_frames s"
  "pg_regions (set_word f i w s) = pg_regions s" "pg_heap (set_word f i w s) = pg_heap s"
  "pg_next (set_word f i w s) = pg_next s" "cr3_frame (set_word f i w s) = cr3_frame s"
  "pg_mem (set_word f i w s) g j = (if g = f \<and> j = i then w else pg_mem s g j)"
  by (simp_all add: set_word_def cr3_frame_def)

text \<open>The page of one frame filled with given words.\<close>

definition fill :: "nat \<Rightarrow> nat set \<Rightarrow> (nat \<Rightarrow> u32) \<Rightarrow> paging \<Rightarrow> paging" where
  "fill f A g s = s\<lparr>pg_mem := (pg_mem s)(f := (\<lambda>i. if i \<in> A then g i else pg_mem s f i))\<rparr>"

lemma fill_simps [simp]:
  "pg_cr3 (fill f A g s) = pg_cr3 s" "pg_thread (fill f A g s) = pg_thread s"
  "pg_dirs (fill f A g s) = pg_dirs s" "pg_frames (fill f A g s) = pg_frames s"
  "pg_regions (fill f A g s) = pg_regions s" "pg_heap (fill f A g s) = pg_heap s"
  "pg_next (fill f A g s) = pg_next s" "cr3_frame (fill f A g s) = cr3_frame s"
  "pg_mem (fill f A g s) h j = (if h = f \<and> j \<in> A then g j else pg_mem s h j)"
  by (simp_all add: fill_def cr3_frame_def)

lemma kwrites_append: "kwrites im (xs @ ys) s = rbind (kwrites im xs s) (kwrites im ys)"
  by (induction xs arbitrary: s) (auto simp: rbind_def split: sum.split)

lemma kwrites_fill:
  assumes "\<And>A i. i \<in> set is \<Longrightarrow> A \<subseteq> set is \<Longrightarrow> translate (fill f A g s) (a i) = Some (f, i)"
  shows "kwrites im (map (\<lambda>i. (a i, g i)) is) s = Inr (fill f (set is) g s)"
  using assms
proof (induction "is" rule: rev_induct)
  case Nil
  then show ?case by (simp add: fill_def)
next
  case (snoc n ns)
  have "translate (fill f A g s) (a i) = Some (f, i)" if "i \<in> set ns" "A \<subseteq> set ns" for A i
    using that by (intro snoc.prems) auto
  then have "kwrites im (map (\<lambda>i. (a i, g i)) ns) s = Inr (fill f (set ns) g s)" by (rule snoc.IH)
  moreover have "translate (fill f (set ns) g s) (a n) = Some (f, n)" by (rule snoc.prems) auto
  moreover have "set_word f n (g n) (fill f (set ns) g s) = fill f (set (ns @ [n])) g s"
    by (auto simp: set_word_def fill_def fun_eq_iff)
  ultimately show ?case by (simp add: kwrites_append kwrite_mapped)
qed

section \<open>Tables and entries\<close>

lemma home_in: "spaces_ok im D s \<Longrightarrow> d \<in> D \<Longrightarrow> home im d v \<in> D"
  by (simp add: home_def spaces_okD)

lemma slot_of_home:
  assumes "spaces_ok im D s" and "d \<in> D" and "v < PD_MIRROR_ADDR" and "present (pg_mem s (home im d v) (PT_OF_ADDR v))"
  shows "(home im d v, PT_OF_ADDR v) \<in> slots im D s"
  using assms home_in [OF assms(1,2), of v] below_mirror_iff_pt [of v] high_iff_pt [of v]
  by (auto simp: slots_def home_def)

lemma table_props:
  assumes "spaces_ok im D s" and "x \<in> slots im D s"
  shows "table_of s x \<notin> D" and "table_of s x \<in> used_set (pg_frames s)"
    and "y \<in> slots im D s \<Longrightarrow> table_of s y = table_of s x \<longleftrightarrow> y = x"
  using spaces_okD(5-7) [OF assms(1)] assms(2) by (auto dest: inj_onD)

text \<open>The tables depend on the words of the directories alone.\<close>

lemma spaces_ok_cong:
  assumes ok: "spaces_ok im D s" and eq: "\<And>d i. d \<in> D \<Longrightarrow> i < 1024 \<Longrightarrow> pg_mem s' d i = pg_mem s d i"
    and r: "cr3_frame s' = cr3_frame s" "pg_frames s' = pg_frames s"
  shows "spaces_ok im D s'" and "slots im D s' = slots im D s" and "\<And>x. x \<in> slots im D s \<Longrightarrow> table_of s' x = table_of s x"
    and "tables im D s' = tables im D s"
proof -
  have K: "kernel_pd im \<in> D" by (rule spaces_okD(1) [OF ok])
  have e: "pg_mem s' d i = pg_mem s d i" if "d \<in> D" "i < 1023" for d i using eq [OF that(1)] that(2) by simp
  show sl: "slots im D s' = slots im D s" by (auto simp: slots_def e)
  show t: "table_of s' x = table_of s x" if "x \<in> slots im D s" for x
    using that by (auto simp: table_of_def slots_def e)
  have "mirrored s' d \<longleftrightarrow> mirrored s d" if "d \<in> D" for d by (simp add: mirrored_def eq that)
  moreover have "shares_kernel im s' d \<longleftrightarrow> shares_kernel im s d" if "d \<in> D" for d
    using e [OF that] e [OF K] by (auto simp: shares_kernel_def)
  moreover have "table_of s' ` slots im D s = table_of s ` slots im D s" by (rule image_cong) (simp_all add: t)
  moreover have "inj_on (table_of s') (slots im D s) = inj_on (table_of s) (slots im D s)" by (rule inj_on_cong) (rule t)
  moreover show "tables im D s' = tables im D s" using calculation(3) by (simp add: tables_def sl)
  ultimately show "spaces_ok im D s'" using ok by (simp add: spaces_ok_def sl r)
qed

lemma space_unfold:
  "space im s d v = (let pde = pg_mem s (home im d v) (PT_OF_ADDR v); pte = pg_mem s (pte_frame pde) (PAGE_OF_ADDR v)
     in if present pde \<and> present pte then pte else 0)"
  by (simp add: space_def entry_in_def)

text \<open>Writing a word of the table of one slot changes the entry of that page and no other.\<close>

lemma put_entry:
  fixes w :: u32
  assumes ok: "spaces_ok im D s" and c: "c \<in> D" and v: "v < PD_MIRROR_ADDR"
    and pr: "present (pg_mem s (home im c v) (PT_OF_ADDR v))"
  defines "s' \<equiv> set_word (pte_frame (pg_mem s (home im c v) (PT_OF_ADDR v))) (PAGE_OF_ADDR v) w s"
  shows "spaces_ok im D s'"
    and "d \<in> D \<Longrightarrow> x < PD_MIRROR_ADDR \<Longrightarrow> space im s' d x =
      (if same_page x v \<and> home im d x = home im c v then (if present w then w else 0) else space im s d x)"
    and "synced im s' y \<longleftrightarrow> synced im s y" and "tables im D s' = tables im D s"
proof -
  define z where "z = (home im c v, PT_OF_ADDR v)"
  have z: "z \<in> slots im D s" unfolding z_def by (rule slot_of_home [OF ok c v pr])
  have s': "s' = set_word (table_of s z) (PAGE_OF_ADDR v) w s" by (simp add: s'_def table_of_def z_def)
  have dir: "pg_mem s' d i = pg_mem s d i" if "d \<in> D" for d i
    using table_props(1) [OF ok z] that by (auto simp: s')
  show "spaces_ok im D s'" by (rule spaces_ok_cong(1) [OF ok]) (simp_all add: dir, simp_all add: s')
  show "tables im D s' = tables im D s" by (rule spaces_ok_cong(4) [OF ok]) (simp_all add: dir, simp_all add: s')
  show "synced im s' y \<longleftrightarrow> synced im s y"
  proof -
    have "cr3_frame s' = cr3_frame s" by (simp add: s')
    then show ?thesis using spaces_okD(1,2) [OF ok] by (simp add: synced_def dir)
  qed
  assume d: "d \<in> D" and x: "x < PD_MIRROR_ADDR"
  let ?y = "(home im d x, PT_OF_ADDR x)"
  have pde: "pg_mem s' (home im d x) (PT_OF_ADDR x) = pg_mem s (home im d x) (PT_OF_ADDR x)"
    by (rule dir [OF home_in [OF ok d]])
  show "space im s' d x =
      (if same_page x v \<and> home im d x = home im c v then (if present w then w else 0) else space im s d x)"
  proof (cases "present (pg_mem s (home im d x) (PT_OF_ADDR x))")
    case True
    have y: "?y \<in> slots im D s" by (rule slot_of_home [OF ok d x True])
    have "pg_mem s' (table_of s ?y) (PAGE_OF_ADDR x) =
      (if ?y = z \<and> PAGE_OF_ADDR x = PAGE_OF_ADDR v then w else pg_mem s (table_of s ?y) (PAGE_OF_ADDR x))"
      using table_props(3) [OF ok z y] by (simp add: s')
    then show ?thesis using True by (auto simp: space_unfold pde table_of_def z_def same_page_def Let_def)
  next
    case False
    then have "\<not> (same_page x v \<and> home im d x = home im c v)" using pr by (auto simp: same_page_def)
    then show ?thesis using False by (auto simp: space_unfold pde Let_def)
  qed
qed

text \<open>Adding an empty table: the entry goes into the directory the address belongs to and, for an address of the
  kernel, into the directory in use as well.\<close>

definition has_table :: "paging \<Rightarrow> nat \<Rightarrow> nat \<Rightarrow> nat set \<Rightarrow> u32 \<Rightarrow> paging \<Rightarrow> bool" where
  "has_table s f pt T e s' \<longleftrightarrow> pg_mem s' = (\<lambda>g j. if g = f \<and> j < 1024 then 0 else if g \<in> T \<and> j = pt then e else pg_mem s g j)"

lemma has_tableD: "has_table s f pt T e s' \<Longrightarrow>
   pg_mem s' g j = (if g = f \<and> j < 1024 then 0 else if g \<in> T \<and> j = pt then e else pg_mem s g j)"
  by (simp add: has_table_def)

lemma add_table:
  assumes ok: "spaces_ok im D s" and v: "v < PD_MIRROR_ADDR"
    and T: "T = {home im (cr3_frame s) v, cr3_frame s}"
    and ab: "\<And>t. t \<in> T \<Longrightarrow> \<not> present (pg_mem s t (PT_OF_ADDR v))"
    and f: "f \<notin> used_set (pg_frames s)" "f \<noteq> 0" and e: "present e" "pte_frame e = f"
    and mem: "has_table s f (PT_OF_ADDR v) T e s'"
    and r: "cr3_frame s' = cr3_frame s" "frame_ok (pg_frames s')" "used_set (pg_frames s') = insert f (used_set (pg_frames s))"
      "nframes (pg_frames s') \<le> 1048576"
  shows "spaces_ok im D s'" and "d \<in> D \<Longrightarrow> x < PD_MIRROR_ADDR \<Longrightarrow> space im s' d x = space im s d x"
    and "tables im D s' = insert f (tables im D s)"
proof -
  let ?c = "cr3_frame s" and ?pt = "PT_OF_ADDR v"
  define h where "h = home im ?c v"
  have K: "kernel_pd im \<in> D" and c: "?c \<in> D" by (rule spaces_okD [OF ok])+
  have h: "h \<in> D" unfolding h_def by (rule home_in [OF ok c])
  have T': "T = {h, ?c}" and TD: "T \<subseteq> D" using T h c by (auto simp: h_def)
  have ptl: "?pt < 1023" using v by (simp add: below_mirror_iff_pt)
  have fD: "f \<notin> D" using f(1) spaces_okD(7) [OF ok] by blast
  have dir: "pg_mem s' d i = (if d \<in> T \<and> i = ?pt then e else pg_mem s d i)" if "d \<in> D" for d i
    using fD that by (auto simp: has_tableD [OF mem])
  have hk: "h = kernel_pd im \<or> ?pt < 768 \<and> h = ?c" using high_iff_pt [of v] by (auto simp: h_def home_def)
  have sl: "slots im D s' = insert (h, ?pt) (slots im D s)"
    using h hk ptl e(1) ab T' high_iff_pt [of v] by (auto simp: slots_def dir h_def home_def split: if_splits)
  have tab: "table_of s' z = table_of s z" if "z \<in> slots im D s" for z
  proof -
    have "fst z \<in> D" "present (pg_mem s (fst z) (snd z))" using that by (auto simp: slots_def)
    then show ?thesis using ab by (auto simp: table_of_def dir)
  qed
  have tabh: "table_of s' (h, ?pt) = f" using T' h e(2) by (simp add: table_of_def dir)
  have out: "f \<notin> table_of s ` slots im D s" using f spaces_okD(7) [OF ok] by blast
  have im: "table_of s' ` slots im D s = table_of s ` slots im D s" by (rule image_cong) (simp_all add: tab)
  have inj: "inj_on (table_of s') (slots im D s)"
    using inj_on_cong [of "slots im D s" "table_of s'" "table_of s"] tab spaces_okD(5) [OF ok] by blast
  have notin: "(h, ?pt) \<notin> slots im D s" using ab T' by (auto simp: slots_def)
  have "mirrored s' d" if "d \<in> D" for d
    using spaces_okD(3) [OF ok that] ptl by (simp add: mirrored_def dir that)
  moreover have "shares_kernel im s' d" if "d \<in> D" for d
    unfolding shares_kernel_def
  proof (intro allI impI, elim conjE)
    fix i
    assume i: "768 \<le> i" "i < 1023" "present (pg_mem s' d i)"
    show "pg_mem s' d i = pg_mem s' (kernel_pd im) i"
    proof (cases "i = ?pt")
      case True
      then have hK: "h = kernel_pd im" using hk i(1) by simp
      have "\<not> present (pg_mem s (kernel_pd im) ?pt)" using ab T' hK by simp
      then have "\<not> present (pg_mem s d ?pt)"
        using spaces_okD(4) [OF ok that] i True by (auto simp: shares_kernel_def)
      then show ?thesis using i(3) True T' hK K that by (auto simp: dir split: if_splits)
    next
      case False
      then show ?thesis using spaces_okD(4) [OF ok that] i K that by (simp add: dir shares_kernel_def)
    qed
  qed
  moreover have "inj_on (table_of s') (slots im D s')"
    using inj out im notin tabh by (simp add: sl)
  moreover have "table_of s' ` slots im D s' = insert f (table_of s ` slots im D s)" by (simp add: sl im tabh)
  moreover show "tables im D s' = insert f (tables im D s)" using calculation(4) by (simp add: tables_def)
  ultimately show "spaces_ok im D s'"
    using ok fD r f(2) by (auto simp: spaces_ok_def)
  assume d: "d \<in> D" and x: "x < PD_MIRROR_ADDR"
  have g: "home im d x \<in> D" by (rule home_in [OF ok d])
  show "space im s' d x = space im s d x"
  proof (cases "home im d x \<in> T \<and> PT_OF_ADDR x = ?pt")
    case True
    then have "\<not> present (pg_mem s (home im d x) (PT_OF_ADDR x))" using ab by auto
    then show ?thesis
      using True e(2) addr_parts_less(2) [of x] by (simp add: space_unfold dir g has_tableD [OF mem] Let_def)
  next
    case False
    then have pde: "pg_mem s' (home im d x) (PT_OF_ADDR x) = pg_mem s (home im d x) (PT_OF_ADDR x)"
      using dir [OF g] by auto
    show ?thesis
    proof (cases "present (pg_mem s (home im d x) (PT_OF_ADDR x))")
      case True
      let ?z = "(home im d x, PT_OF_ADDR x)"
      have z: "?z \<in> slots im D s" by (rule slot_of_home [OF ok d x True])
      have "table_of s ?z \<noteq> f" "table_of s ?z \<notin> T" using out z table_props(1) [OF ok z] TD by auto
      then have "pg_mem s' (table_of s ?z) (PAGE_OF_ADDR x) = pg_mem s (table_of s ?z) (PAGE_OF_ADDR x)"
        by (simp add: has_tableD [OF mem])
      then show ?thesis by (simp add: space_unfold pde table_of_def)
    qed (simp add: space_unfold pde)
  qed
qed


section \<open>The operations\<close>

text \<open>What is left as it was by every operation on tables.\<close>

definition same_rest :: "paging \<Rightarrow> paging \<Rightarrow> bool" where
  "same_rest s s' \<longleftrightarrow> pg_cr3 s' = pg_cr3 s \<and> pg_thread s' = pg_thread s \<and> pg_dirs s' = pg_dirs s
     \<and> pg_regions s' = pg_regions s \<and> pg_heap s' = pg_heap s \<and> pg_next s' = pg_next s"

text \<open>The situation the code runs in: before there are threads the kernel's directory is loaded, and the table
  the address needs is not missing from the directory in use alone.\<close>

definition settled :: "image \<Rightarrow> nat set \<Rightarrow> u32 \<Rightarrow> paging \<Rightarrow> bool" where
  "settled im D v s \<longleftrightarrow> spaces_ok im D s \<and> synced im s v \<and> v < PD_MIRROR_ADDR
     \<and> (pg_thread s = None \<longrightarrow> cr3_frame s = kernel_pd im)"

lemma settledD:
  assumes "settled im D v s"
  shows "spaces_ok im D s" and "synced im s v" and "v < PD_MIRROR_ADDR"
    and "pg_thread s = None \<Longrightarrow> cr3_frame s = kernel_pd im" and "cr3_frame s \<in> D" and "mirrored s (cr3_frame s)"
  using assms by (auto simp: settled_def spaces_ok_def)

lemma same_rest_refl [simp]: "same_rest s s"
  by (simp add: same_rest_def)

lemma same_rest_simps [simp]:
  "same_rest s (set_word f i w s') = same_rest s s'" "same_rest s (s'\<lparr>pg_frames := fr\<rparr>) = same_rest s s'"
  by (simp_all add: same_rest_def)

lemma read_pde_eq:
  assumes "settled im D v s" and "on = (K_HIGHHALF_ADDR \<le> v) \<or> on = (K_HIGHHALF_ADDR \<le> v \<or> pg_thread s = None)"
  shows "read_pde im on (PT_OF_ADDR v) s = Inr (pg_mem s (home im (cr3_frame s) v) (PT_OF_ADDR v), s)"
proof (cases on)
  case True
  then have "home im (cr3_frame s) v = kernel_pd im" using assms settledD(4) [OF assms(1)] by (auto simp: home_def)
  then show ?thesis using True by (simp add: read_pde_def)
next
  case False
  then have "home im (cr3_frame s) v = cr3_frame s" using assms(2) by (auto simp: home_def)
  then show ?thesis using False kread_mapped [OF translate_pd_word [OF settledD(6) [OF assms(1)] addr_parts_less(1)]]
    by (simp add: read_pde_def)
qed

text \<open>Once the table is there, the directory in use reaches it.\<close>

lemma entry_address:
  assumes "settled im D v s" and pr: "present (pg_mem s (home im (cr3_frame s) v) (PT_OF_ADDR v))"
  shows "translate s (pt_word (PT_OF_ADDR v) (PAGE_OF_ADDR v)) =
    Some (pte_frame (pg_mem s (home im (cr3_frame s) v) (PT_OF_ADDR v)), PAGE_OF_ADDR v)"
proof -
  note st = settledD [OF assms(1)]
  have "pg_mem s (cr3_frame s) (PT_OF_ADDR v) = pg_mem s (home im (cr3_frame s) v) (PT_OF_ADDR v)"
  proof (cases "K_HIGHHALF_ADDR \<le> v")
    case True
    then have "present (pg_mem s (cr3_frame s) (PT_OF_ADDR v))" using st(2) pr by (simp add: synced_def home_def)
    then show ?thesis
      using True spaces_okD(4) [OF st(1,5)] st(3) high_iff_pt [of v] below_mirror_iff_pt [of v]
      by (simp add: shares_kernel_def home_def)
  qed (simp add: home_def)
  then show ?thesis using translate_pt_word [OF st(6) addr_parts_less] pr by simp
qed

lemma pd_get_entry_spec:
  assumes st: "settled im D v s"
  shows "pd_get_entry im v s = Inr (space im s (cr3_frame s) v, s)"
  using kread_mapped [OF entry_address [OF st]] read_pde_eq [OF st, of "K_HIGHHALF_ADDR \<le> v"]
  by (simp add: pd_get_entry_def space_unfold Let_def)

lemma pd_unmap_page_spec:
  assumes st: "settled im D v s"
  shows "\<exists>s'. pd_unmap_page im v s = Inr s' \<and> spaces_ok im D s' \<and> same_rest s s' \<and> pg_frames s' = pg_frames s
    \<and> tables im D s' = tables im D s \<and> (\<forall>y. synced im s' y \<longleftrightarrow> synced im s y)
    \<and> (\<forall>d \<in> D. \<forall>x < PD_MIRROR_ADDR. space im s' d x =
         (if same_page x v \<and> home im d x = home im (cr3_frame s) v then 0 else space im s d x))"
proof -
  let ?h = "home im (cr3_frame s) v"
  note ok = settledD(1) [OF st]
  have skip: "space im s d x = 0" if "space im s (cr3_frame s) v = 0" "same_page x v" "home im d x = ?h" for d x
    using that by (simp add: space_def entry_in_def same_page_def)
  show ?thesis
  proof (cases "present (pg_mem s ?h (PT_OF_ADDR v))")
    case pr: True
    let ?T = "pte_frame (pg_mem s ?h (PT_OF_ADDR v))"
    note tr = entry_address [OF st pr]
    show ?thesis
    proof (cases "present (pg_mem s ?T (PAGE_OF_ADDR v))")
      case True
      have "pd_unmap_page im v s = Inr (set_word ?T (PAGE_OF_ADDR v) 0 s)"
        using pr True kread_mapped [OF tr] kwrite_mapped [OF tr] read_pde_eq [OF st, of "K_HIGHHALF_ADDR \<le> v"]
        by (simp add: pd_unmap_page_def)
      then show ?thesis using put_entry [OF ok settledD(5) [OF st] settledD(3) [OF st] pr, where w = 0] by simp
    next
      case False
      then have "space im s (cr3_frame s) v = 0" by (simp add: space_unfold Let_def)
      moreover have "pd_unmap_page im v s = Inr s"
        using pr False kread_mapped [OF tr] read_pde_eq [OF st, of "K_HIGHHALF_ADDR \<le> v"]
        by (simp add: pd_unmap_page_def)
      ultimately show ?thesis using ok skip by auto
    qed
  next
    case False
    then have "space im s (cr3_frame s) v = 0" by (simp add: space_unfold Let_def)
    moreover have "pd_unmap_page im v s = Inr s"
      using False read_pde_eq [OF st, of "K_HIGHHALF_ADDR \<le> v"] by (simp add: pd_unmap_page_def)
    ultimately show ?thesis using ok skip by auto
  qed
qed

text \<open>A new table is allocated, entered and cleared; without a frame nothing changes.\<close>

lemma new_table_spec:
  assumes st: "settled im D v s" and on: "on = (K_HIGHHALF_ADDR \<le> v \<or> pg_thread s = None)"
    and ab: "\<not> present (pg_mem s (home im (cr3_frame s) v) (PT_OF_ADDR v))"
  shows "\<exists>ok s'. new_table im on v s = Inr (ok, s') \<and> settled im D v s' \<and> same_rest s s'
    \<and> (\<forall>y. synced im s y \<longrightarrow> synced im s' y)
    \<and> (\<forall>d \<in> D. \<forall>x < PD_MIRROR_ADDR. space im s' d x = space im s d x)
    \<and> (if ok then present (pg_mem s' (home im (cr3_frame s) v) (PT_OF_ADDR v))
            \<and> (\<exists>f. f \<notin> used_set (pg_frames s) \<and> used_set (pg_frames s') = insert f (used_set (pg_frames s))
                  \<and> tables im D s' = insert f (tables im D s))
       else used_set (pg_frames s') = used_set (pg_frames s) \<and> tables im D s' = tables im D s)"
proof -
  let ?c = "cr3_frame s" and ?pt = "PT_OF_ADDR v"
  define h where "h = home im ?c v"
  note ok = settledD(1) [OF st] and m = settledD(6) [OF st] and c = settledD(5) [OF st]
  have ptl: "?pt < 1023" using settledD(3) [OF st] by (simp add: below_mirror_iff_pt)
  have hin: "h \<in> D" unfolding h_def by (rule home_in [OF ok c])
  have abc: "\<not> present (pg_mem s ?c ?pt)"
    using ab spaces_okD(4) [OF ok c] high_iff_pt [of v] ptl by (auto simp: home_def shares_kernel_def split: if_splits)
  obtain f fr where al: "frame_alloc 1 (pg_frames s) = Inr (f, fr)" "frame_ok fr" "nframes fr = nframes (pg_frames s)"
    and cs: "f = 0 \<and> used_set fr = used_set (pg_frames s)
      \<or> f \<noteq> 0 \<and> run_at (pg_frames s) 1 f \<and> used_set fr = insert f (used_set (pg_frames s)) \<and> f \<notin> used_set (pg_frames s)"
    using frame_alloc_law [OF spaces_okD(9) [OF ok], of 1] by fastforce
  show ?thesis
  proof (cases "f = 0")
    case True
    let ?s' = "s\<lparr>pg_frames := fr\<rparr>"
    have used: "used_set fr = used_set (pg_frames s)" using cs True by simp
    have mem: "pg_mem ?s' = pg_mem s" "cr3_frame ?s' = cr3_frame s" by (simp_all add: cr3_frame_def)
    then have eqs: "slots im D ?s' = slots im D s" "table_of ?s' = table_of s" "mirrored ?s' = mirrored s"
      "shares_kernel im ?s' = shares_kernel im s"
      by (simp_all add: slots_def table_of_def mirrored_def shares_kernel_def fun_eq_iff)
    have "spaces_ok im D ?s'" using ok al used by (simp add: spaces_ok_def eqs mem)
    then have "settled im D v ?s'" using st by (simp add: settled_def synced_def mem)
    moreover have "new_table im on v s = Inr (False, ?s')" using True al by (simp add: new_table_def)
    moreover have "space im ?s' d x = space im s d x" for d x by (simp add: space_unfold mem)
    moreover have "synced im ?s' y = synced im s y" for y by (simp add: synced_def mem)
    moreover have "tables im D ?s' = tables im D s" by (simp add: tables_def eqs)
    ultimately show ?thesis using used by auto
  next
    case False
    then have f: "run_at (pg_frames s) 1 f" "used_set fr = insert f (used_set (pg_frames s))"
      "f \<notin> used_set (pg_frames s)" using cs by auto
    then have fl: "f < 1048576" using spaces_okD(10) [OF ok] by (auto simp: run_at_def)
    define e where "e = push_bit PTE_FRAME_SHIFT (of_nat f) OR PTE_PRESENT OR PTE_RW
      OR (if v < K_HIGHHALF_ADDR then PTE_USER else 0)"
    have e: "present e" "pte_frame e = f" unfolding e_def by (rule table_entry_parts [OF fl])+
    have fD: "f \<notin> D" using f(3) spaces_okD(7) [OF ok] by blast
    have fc: "f \<noteq> ?c" using fD c by blast
    define s1 where "s1 = s\<lparr>pg_frames := fr\<rparr>"
    define s2 where "s2 = (if on then set_word (kernel_pd im) ?pt e s1 else set_word ?c ?pt e s1)"
    define s3 where "s3 = set_word ?c ?pt e s2"
    define s4 where "s4 = fill f {0..<1024} (\<lambda>_. 0) s3"
    have c1 [simp]: "cr3_frame s1 = ?c" "cr3_frame s2 = ?c" "cr3_frame s3 = ?c"
      by (simp_all add: s1_def s2_def s3_def cr3_frame_def [of s] cr3_frame_def [of "s\<lparr>pg_frames := fr\<rparr>"])
    have m1: "mirrored s1 ?c" using m by (simp add: s1_def mirrored_def)
    have m2: "mirrored s2 ?c" using m1 ptl by (simp add: s2_def mirrored_def)
    have w2: "(if on then Inr (set_word (kernel_pd im) ?pt e s1) else kwrite im (pd_word ?pt) e s1) = Inr s2"
      using kwrite_mapped [OF translate_pd_word [of s1 ?pt]] m1 addr_parts_less(1) [of v] by (simp add: s2_def)
    have w3: "kwrite im (pd_word ?pt) e s2 = Inr s3"
      using kwrite_mapped [OF translate_pd_word [of s2 ?pt]] m2 addr_parts_less(1) [of v] by (simp add: s3_def)
    have tr: "translate (fill f A (\<lambda>_. 0) s3) (pt_word ?pt i) = Some (f, i)" if "i < 1024" for A i
    proof -
      let ?t = "fill f A (\<lambda>_. 0) s3"
      have cw: "pg_mem ?t ?c ?pt = e" using fc by (simp add: s3_def)
      have "mirrored ?t (cr3_frame ?t)" using m2 ptl fc by (simp add: mirrored_def s3_def)
      from translate_pt_word [OF this addr_parts_less(1) that, of v] show ?thesis using cw e by simp
    qed
    have w4: "kwrites im (map (\<lambda>i. (pt_word ?pt i, 0)) [0..<N_PAGES_IN_PT]) s3 = Inr s4"
      unfolding s4_def N_PAGES_IN_PT_def set_upt [symmetric] by (rule kwrites_fill) (simp add: tr)
    have run: "new_table im on v s = Inr (True, s4)"
      unfolding new_table_def Let_def al(1)
      by (simp only: rbind_simps prod.case s1_def [symmetric] e_def [symmetric] w2 w3 w4 False if_False)
    have mem: "has_table s f ?pt {h, ?c} e s4"
    proof -
      have "on \<Longrightarrow> kernel_pd im = h" "\<not> on \<Longrightarrow> h = ?c" using on settledD(4) [OF st] by (auto simp: h_def home_def)
      then show ?thesis unfolding has_table_def using fD hin c
        by (intro ext) (auto simp: s4_def s3_def s2_def s1_def)
    qed
    have fr4: "pg_frames s4 = fr" "same_rest s s4" "cr3_frame s4 = ?c"
      by (simp_all add: s4_def s3_def s2_def s1_def same_rest_def cr3_frame_def)
    have T: "\<And>t. t \<in> {h, ?c} \<Longrightarrow> \<not> present (pg_mem s t ?pt)" using ab abc by (auto simp: h_def)
    have ok4: "spaces_ok im D s4"
      by (rule add_table(1) [OF ok settledD(3) [OF st] _ T f(3) False e mem]) (simp_all add: fr4 h_def al f spaces_okD(10) [OF ok])
    have sp: "space im s4 d x = space im s d x" if "d \<in> D" "x < PD_MIRROR_ADDR" for d x
      by (rule add_table(2) [OF ok settledD(3) [OF st] _ T f(3) False e mem _ _ _ _ that])
        (simp_all add: fr4 h_def al f spaces_okD(10) [OF ok])
    have tb: "tables im D s4 = insert f (tables im D s)"
      by (rule add_table(3) [OF ok settledD(3) [OF st] _ T f(3) False e mem]) (simp_all add: fr4 h_def al f spaces_okD(10) [OF ok])
    have pr: "present (pg_mem s4 h ?pt)" "present (pg_mem s4 ?c ?pt)"
      using fD hin c e by (auto simp: has_tableD [OF mem])
    have "settled im D v s4"
      using st ok4 pr fr4 by (simp add: settled_def synced_def same_rest_def)
    moreover have "synced im s4 y" if "synced im s y" for y
    proof -
      have "pg_mem s4 (kernel_pd im) i = pg_mem s (kernel_pd im) i \<or> i = ?pt" for i
        using fD spaces_okD(1) [OF ok] by (auto simp: has_tableD [OF mem])
      moreover have "i \<noteq> ?pt \<Longrightarrow> pg_mem s4 ?c i = pg_mem s ?c i" for i
        using fc by (auto simp: has_tableD [OF mem])
      ultimately show ?thesis using that pr(2) fr4(3) unfolding synced_def by metis
    qed
    ultimately show ?thesis using run ok4 sp pr fr4 f tb by (intro exI [of _ True]) (auto simp: h_def)
  qed
qed


lemma pd_map_page_spec:
  assumes st: "settled im D v s" and fl: "f < 1048576"
  shows "\<exists>ok s'. pd_map_page im v f rw s = Inr (ok, s') \<and> spaces_ok im D s' \<and> same_rest s s'
    \<and> (\<forall>y. synced im s y \<longrightarrow> synced im s' y)
    \<and> (\<forall>d \<in> D. \<forall>x < PD_MIRROR_ADDR. space im s' d x =
         (if ok \<and> same_page x v \<and> home im d x = home im (cr3_frame s) v
          then page_entry (v < K_HIGHHALF_ADDR) f rw else space im s d x))
    \<and> (used_set (pg_frames s') = used_set (pg_frames s) \<and> tables im D s' = tables im D s
       \<or> ok \<and> (\<exists>t. t \<notin> used_set (pg_frames s) \<and> used_set (pg_frames s') = insert t (used_set (pg_frames s))
                \<and> tables im D s' = insert t (tables im D s)))"
proof -
  let ?h = "home im (cr3_frame s) v" and ?w = "page_entry (v < K_HIGHHALF_ADDR) f rw"
  define on where "on = (K_HIGHHALF_ADDR \<le> v \<or> pg_thread s = None)"
  have w: "present ?w" by (rule page_entry_parts [OF fl])
  have rd: "read_pde im on (PT_OF_ADDR v) s = Inr (pg_mem s ?h (PT_OF_ADDR v), s)"
    by (rule read_pde_eq [OF st]) (simp add: on_def)
  have run: "pd_map_page im v f rw s =
      rbind (if \<not> present (pg_mem s ?h (PT_OF_ADDR v)) then new_table im on v s else Inr (True, s)) (\<lambda>(ok, s2).
        if \<not> ok then Inr (False, s2)
        else rbind (kwrite im (pt_word (PT_OF_ADDR v) (PAGE_OF_ADDR v)) ?w s2) (\<lambda>s3. Inr (True, s3)))"
    unfolding pd_map_page_def Let_def on_def [symmetric] page_entry_def
    by (simp only: settledD(3) [OF st] rd rassert_simps rbind_simps prod.case)
  have finish: "kwrite im (pt_word (PT_OF_ADDR v) (PAGE_OF_ADDR v)) ?w s2 = Inr (set_word (pte_frame (pg_mem s2 ?h (PT_OF_ADDR v))) (PAGE_OF_ADDR v) ?w s2)
      \<and> spaces_ok im D (set_word (pte_frame (pg_mem s2 ?h (PT_OF_ADDR v))) (PAGE_OF_ADDR v) ?w s2)
      \<and> (\<forall>d \<in> D. \<forall>x < PD_MIRROR_ADDR. space im (set_word (pte_frame (pg_mem s2 ?h (PT_OF_ADDR v))) (PAGE_OF_ADDR v) ?w s2) d x =
           (if same_page x v \<and> home im d x = ?h then ?w else space im s2 d x))
      \<and> (\<forall>y. synced im (set_word (pte_frame (pg_mem s2 ?h (PT_OF_ADDR v))) (PAGE_OF_ADDR v) ?w s2) y \<longleftrightarrow> synced im s2 y)
      \<and> tables im D (set_word (pte_frame (pg_mem s2 ?h (PT_OF_ADDR v))) (PAGE_OF_ADDR v) ?w s2) = tables im D s2"
    if "settled im D v s2" "cr3_frame s2 = cr3_frame s" "present (pg_mem s2 ?h (PT_OF_ADDR v))" for s2
    using that put_entry [OF settledD(1) [OF that(1)] settledD(5) [OF that(1)] settledD(3) [OF that(1)], where w = ?w] w
      kwrite_mapped [OF entry_address [OF that(1)]] by simp
  show ?thesis
  proof (cases "present (pg_mem s ?h (PT_OF_ADDR v))")
    case True
    then show ?thesis
      by (intro exI [of _ True]) (use finish [OF st refl True] in \<open>simp add: run\<close>)
  next
    case False
    obtain ok s2 where n: "new_table im on v s = Inr (ok, s2)" "settled im D v s2" "same_rest s s2"
        "\<forall>y. synced im s y \<longrightarrow> synced im s2 y"
      and sp: "\<forall>d \<in> D. \<forall>x < PD_MIRROR_ADDR. space im s2 d x = space im s d x"
      and r: "if ok then present (pg_mem s2 ?h (PT_OF_ADDR v))
            \<and> (\<exists>t. t \<notin> used_set (pg_frames s) \<and> used_set (pg_frames s2) = insert t (used_set (pg_frames s))
                  \<and> tables im D s2 = insert t (tables im D s))
         else used_set (pg_frames s2) = used_set (pg_frames s) \<and> tables im D s2 = tables im D s"
      using new_table_spec [OF st on_def False] by blast
    have cr: "cr3_frame s2 = cr3_frame s" using n(3) by (simp add: same_rest_def cr3_frame_def)
    show ?thesis
    proof (cases ok)
      case True
      then have pr: "present (pg_mem s2 ?h (PT_OF_ADDR v))" using r by simp
      show ?thesis
        by (rule exI [of _ True]) (use finish [OF n(2) cr pr] n sp r True False in \<open>simp add: run\<close>)
    next
      case nok: False
      show ?thesis
        by (rule exI [of _ False]) (use n sp r nok False settledD(1) [OF n(2)] in \<open>simp add: run\<close>)
    qed
  qed
qed


text \<open>Mapping a fresh frame: on failure the frame is given back.\<close>

lemma frames_update:
  assumes ok: "spaces_ok im D s" and fr: "frame_ok fr" "nframes fr \<le> 1048576"
    and u: "D \<union> table_of s ` slots im D s \<subseteq> used_set fr"
  shows "spaces_ok im D (s\<lparr>pg_frames := fr\<rparr>)" and "space im (s\<lparr>pg_frames := fr\<rparr>) d x = space im s d x"
    and "synced im (s\<lparr>pg_frames := fr\<rparr>) y \<longleftrightarrow> synced im s y" and "cr3_frame (s\<lparr>pg_frames := fr\<rparr>) = cr3_frame s"
proof -
  have mem: "pg_mem (s\<lparr>pg_frames := fr\<rparr>) = pg_mem s" "cr3_frame (s\<lparr>pg_frames := fr\<rparr>) = cr3_frame s"
    by (simp_all add: cr3_frame_def)
  then have eqs: "slots im D (s\<lparr>pg_frames := fr\<rparr>) = slots im D s" "table_of (s\<lparr>pg_frames := fr\<rparr>) = table_of s"
    "mirrored (s\<lparr>pg_frames := fr\<rparr>) = mirrored s" "shares_kernel im (s\<lparr>pg_frames := fr\<rparr>) = shares_kernel im s"
    by (simp_all add: slots_def table_of_def mirrored_def shares_kernel_def fun_eq_iff)
  show "spaces_ok im D (s\<lparr>pg_frames := fr\<rparr>)" using ok fr u by (auto simp: spaces_ok_def eqs mem)
  show "space im (s\<lparr>pg_frames := fr\<rparr>) d x = space im s d x" by (simp add: space_unfold mem)
  show "synced im (s\<lparr>pg_frames := fr\<rparr>) y \<longleftrightarrow> synced im s y" by (simp add: synced_def mem)
qed (simp add: cr3_frame_def)

section \<open>Properties\<close>

text \<open>C36: the two-level tables implement address spaces that are maps from pages to entries. In any state of the
  tables where the directory in use has the kernel's table for the address, \<open>pd_get_entry\<close> reads the entry of
  the page; \<open>pd_map_page\<close> either enters the frame with the right flags at that page, in the current address
  space or in all of them for an address of the kernel, or changes nothing, and takes at most one frame, for a table;
  \<open>pd_unmap_page\<close> removes the entry. No other page of any address space changes and the tables stay well-formed:
  distinct frames, all allocated, every mirror in place.\<close>

theorem paging_refines_map:
  assumes "settled im D v s" and "f < 1048576"
  shows "pd_get_entry im v s = Inr (space im s (cr3_frame s) v, s)
    \<and> (\<exists>ok s'. pd_map_page im v f rw s = Inr (ok, s') \<and> spaces_ok im D s'
        \<and> (\<forall>d \<in> D. \<forall>x < PD_MIRROR_ADDR. space im s' d x =
             (if ok \<and> same_page x v \<and> home im d x = home im (cr3_frame s) v
              then page_entry (v < K_HIGHHALF_ADDR) f rw else space im s d x))
        \<and> (used_set (pg_frames s') = used_set (pg_frames s) \<and> tables im D s' = tables im D s
           \<or> ok \<and> (\<exists>t. t \<notin> used_set (pg_frames s) \<and> used_set (pg_frames s') = insert t (used_set (pg_frames s))
                \<and> tables im D s' = insert t (tables im D s))))
    \<and> (\<exists>s'. pd_unmap_page im v s = Inr s' \<and> spaces_ok im D s' \<and> pg_frames s' = pg_frames s
        \<and> (\<forall>d \<in> D. \<forall>x < PD_MIRROR_ADDR. space im s' d x =
             (if same_page x v \<and> home im d x = home im (cr3_frame s) v then 0 else space im s d x)))"
proof (intro conjI)
  show "\<exists>ok s'. pd_map_page im v f rw s = Inr (ok, s') \<and> spaces_ok im D s'
        \<and> (\<forall>d \<in> D. \<forall>x < PD_MIRROR_ADDR. space im s' d x =
             (if ok \<and> same_page x v \<and> home im d x = home im (cr3_frame s) v
              then page_entry (v < K_HIGHHALF_ADDR) f rw else space im s d x))
        \<and> (used_set (pg_frames s') = used_set (pg_frames s) \<and> tables im D s' = tables im D s
           \<or> ok \<and> (\<exists>t. t \<notin> used_set (pg_frames s) \<and> used_set (pg_frames s') = insert t (used_set (pg_frames s))
                \<and> tables im D s' = insert t (tables im D s)))"
    using pd_map_page_spec [OF assms, of rw] by (elim exE conjE) (intro exI conjI; assumption)
  show "\<exists>s'. pd_unmap_page im v s = Inr s' \<and> spaces_ok im D s' \<and> pg_frames s' = pg_frames s
        \<and> (\<forall>d \<in> D. \<forall>x < PD_MIRROR_ADDR. space im s' d x =
             (if same_page x v \<and> home im d x = home im (cr3_frame s) v then 0 else space im s d x))"
    using pd_unmap_page_spec [OF assms(1)] by (elim exE conjE) (intro exI conjI; assumption)
qed (rule pd_get_entry_spec [OF assms(1)])

text \<open>A machine with the kernel's directory in frame 1, before there are threads.\<close>

definition wit_image :: image where
  "wit_image = \<lparr>ki_kernel_pd = 0xC0001000, ki_kernel_pt0 = 0xC0002000, ki_stack_protector = 0\<rparr>"

definition wit_paging :: paging where
  "wit_paging = \<lparr>pg_mem = (\<lambda>f i. if f = 1 \<and> i = 1023 then 0x1003 else 0), pg_cr3 = 0x1000, pg_thread = None,
     pg_dirs = (\<lambda>_. None), pg_next = 1,
     pg_frames = \<lparr>frame_bitset = [mask 2, 0], nframes = 64, nused_frames = 2, begin_search_at = 0\<rparr>,
     pg_regions = undefined, pg_heap = \<lparr>hp_answers = [], hp_live = 0\<rparr>\<rparr>"

lemma wit_kernel_pd: "kernel_pd wit_image = 1"
  by (simp add: kernel_pd_def wit_image_def pte_frame_def PTE_FRAME_SHIFT_def K_HIGHHALF_ADDR_def)

lemma low_frames_used:
  assumes "n \<le> 32"
  shows "used_set \<lparr>frame_bitset = [mask n, 0], nframes = 64, nused_frames = n, begin_search_at = 0\<rparr> = {..<n}"
proof -
  have "frame_used \<lparr>frame_bitset = [mask n, 0], nframes = 64, nused_frames = n, begin_search_at = 0\<rparr> f \<longleftrightarrow> f < n" for f
  proof -
    consider "f < 32" | "32 \<le> f" "f < 64" | "64 \<le> f" by linarith
    then show ?thesis
    proof cases
      case 1
      then have "f div 32 = 0" "f mod 32 = f" by simp_all
      then show ?thesis using 1 by (simp add: frame_used_def bit_mask_iff)
    next
      case 2
      then have "f div 32 = 1" by simp
      then show ?thesis using 2 assms by (simp add: frame_used_def)
    next
      case 3
      then have "\<not> f div 32 < 2" by (simp add: div_less_iff_less_mult)
      then show ?thesis using 3 assms by (simp add: frame_used_def)
    qed
  qed
  then show ?thesis by (auto simp: used_set_def)
qed

lemma low_frames_ok:
  assumes "0 < n" and "n \<le> 32"
  shows "frame_ok \<lparr>frame_bitset = [mask n, 0], nframes = 64, nused_frames = n, begin_search_at = 0\<rparr>"
  using low_frames_used [OF assms(2)] assms by (auto simp: frame_ok_def frame_inv_def used_set_def)

lemma wit_settled: "settled wit_image {1} 0x400000 wit_paging"
proof -
  have c: "cr3_frame wit_paging = 1" by (simp add: cr3_frame_def wit_paging_def pte_frame_def PTE_FRAME_SHIFT_def)
  have sl: "slots wit_image {1} wit_paging = {}" by (auto simp: slots_def wit_paging_def)
  have "mirrored wit_paging 1"
    by (simp add: mirrored_def wit_paging_def present_def PTE_PRESENT_def pte_frame_def PTE_FRAME_SHIFT_def)
  moreover have "frame_ok (pg_frames wit_paging)" "used_set (pg_frames wit_paging) = {..<2}"
    using low_frames_ok [of 2] low_frames_used [of 2] by (simp_all add: wit_paging_def del: mask_numeral)
  moreover have "ki_kernel_pd wit_image \<noteq> CURRENT_PD"
    by (simp add: wit_image_def CURRENT_PD_def PD_MIRROR_ADDR_def N_PAGES_IN_PT_def PAGE_SIZE_def)
  moreover have "shares_kernel wit_image wit_paging 1" by (simp add: shares_kernel_def wit_kernel_pd)
  moreover have "nframes (pg_frames wit_paging) = 64" by (simp add: wit_paging_def)
  ultimately have "spaces_ok wit_image {1} wit_paging"
    unfolding spaces_ok_def wit_kernel_pd c sl by auto
  then show ?thesis by (simp add: settled_def synced_def c wit_kernel_pd K_HIGHHALF_ADDR_def PD_MIRROR_ADDR_def)
qed

theorem paging_refines_map_witness:
  "\<exists>ok s'. pd_map_page wit_image 0x400000 5 True wit_paging = Inr (ok, s')
     \<and> (\<forall>d \<in> {1}. \<forall>x < PD_MIRROR_ADDR. space wit_image s' d x =
         (if ok \<and> same_page x 0x400000 \<and> home wit_image d x = home wit_image (cr3_frame wit_paging) 0x400000
          then page_entry True 5 True else space wit_image wit_paging d x))"
proof -
  have "(0x400000 :: u32) < K_HIGHHALF_ADDR" by (simp add: K_HIGHHALF_ADDR_def)
  then show ?thesis using paging_refines_map [OF wit_settled, of 5 True] by auto
qed


text \<open>The page fault handler copies a missing table of the kernel when the kernel touches an address behind it.\<close>

lemma kernel_fault_syncs:
  assumes ok: "spaces_ok im D s" and v: "K_HIGHHALF_ADDR \<le> v" "v < PD_MIRROR_ADDR"
    and pr: "present (pg_mem s (kernel_pd im) (PT_OF_ADDR v))" "\<not> present (pg_mem s (cr3_frame s) (PT_OF_ADDR v))"
  shows "kernel_fault im v s = Inr (set_word (cr3_frame s) (PT_OF_ADDR v) (pg_mem s (kernel_pd im) (PT_OF_ADDR v)) s)"
    and "synced im (set_word (cr3_frame s) (PT_OF_ADDR v) (pg_mem s (kernel_pd im) (PT_OF_ADDR v)) s) v"
proof -
  have "translate s (pd_word (PT_OF_ADDR v)) = Some (cr3_frame s, PT_OF_ADDR v)"
    by (rule translate_pd_word [OF spaces_okD(3) [OF ok spaces_okD(2) [OF ok]] addr_parts_less(1)])
  moreover have "pg_mem s (cr3_frame s) (PT_OF_ADDR v) \<noteq> pg_mem s (kernel_pd im) (PT_OF_ADDR v)" using pr by metis
  ultimately show "kernel_fault im v s =
      Inr (set_word (cr3_frame s) (PT_OF_ADDR v) (pg_mem s (kernel_pd im) (PT_OF_ADDR v)) s)"
    using spaces_okD(11) [OF ok] by (simp add: kernel_fault_def raw_read_def raw_write_def Let_def)
qed (use pr in \<open>simp add: synced_def\<close>)

lemma pte_frame_div: "pte_frame e = unat (e div PAGE_SIZE)"
  unfolding pte_frame_def PTE_FRAME_SHIFT_def unat_drop_bit_u32 by (simp add: PAGE_SIZE_def unat_div)

text \<open>C39: when a process maps a page of the kernel's half whose table exists in the kernel's directory but not
  yet in its own, the fault happens in the mirror and the handler copies the last entry of the kernel's directory, the
  mirror itself, over the one of the process. The page is mapped, but from then on the process edits the kernel's
  directory instead of its own, and deleting its directory ends in a failed assertion.\<close>

theorem kernel_table_fault_loses_mirror:
  assumes ok: "spaces_ok im D s" and c: "cr3_frame s \<noteq> kernel_pd im" and v: "K_HIGHHALF_ADDR \<le> v" "v < PD_MIRROR_ADDR"
    and pr: "present (pg_mem s (kernel_pd im) (PT_OF_ADDR v))" "\<not> present (pg_mem s (cr3_frame s) (PT_OF_ADDR v))"
    and f: "f < 1048576"
  shows "\<exists>s'. pd_map_page im v f rw s = Inr (True, s') \<and> space im s' (cr3_frame s) v = page_entry False f rw
    \<and> (\<forall>i < 1024. translate s' (pd_word i) = Some (kernel_pd im, i))
    \<and> (\<forall>d pd. pg_dirs s d = Some pd \<and> pte_frame (phys_addr pd) = cr3_frame s \<longrightarrow> \<not> is_ok (delete_pagedir im d s'))"
proof -
  let ?c = "cr3_frame s" and ?K = "kernel_pd im" and ?pt = "PT_OF_ADDR v" and ?i = "PAGE_OF_ADDR v"
  let ?w = "page_entry False f rw" and ?k = "pg_mem s (kernel_pd im) 1023"
  define T where "T = pte_frame (pg_mem s ?K ?pt)"
  define s1 where "s1 = set_word ?c 1023 ?k s"
  define s2 where "s2 = set_word T ?i ?w s1"
  note K = spaces_okD(1) [OF ok] and cD = spaces_okD(2) [OF ok]
  have mc: "mirrored s ?c" and mk: "mirrored s ?K" using spaces_okD(3) [OF ok] K cD by simp_all
  have ptl: "?pt < 1023" using v(2) by (simp add: below_mirror_iff_pt)
  have low: "\<not> v < K_HIGHHALF_ADDR" using v(1) by simp
  have h: "home im ?c v = ?K" using v(1) by (simp add: home_def)
  have slot: "(?K, ?pt) \<in> slots im D s"
    using slot_of_home [OF ok cD v(2)] pr(1) by (simp add: h)
  have TD: "T \<notin> D" using table_props(1) [OF ok slot] by (simp add: table_of_def T_def)
  have TcK: "T \<noteq> ?c" "T \<noteq> ?K" using TD cD K by auto
  have tr0: "translate s (pt_word ?pt ?i) = None"
    using translate_pt_word [OF mc addr_parts_less] pr(2) by simp
  have "pg_mem s ?c 1023 \<noteq> ?k" using mirroredD(2) [OF mc] mirroredD(2) [OF mk] c by metis
  then have kf: "kernel_fault im (pt_word ?pt ?i) s = Inr s1"
    using translate_pd_word [OF mc, of 1023] spaces_okD(11) [OF ok]
    by (simp add: kernel_fault_def raw_read_def raw_write_def Let_def mirror_parts [OF addr_parts_less] s1_def)
  have cr [simp]: "cr3_frame s1 = ?c" "cr3_frame s2 = ?c" by (simp_all add: s1_def s2_def)
  have tr1: "translate s1 (pt_word ?pt ?i) = Some (T, ?i)"
    using mirroredD [OF mk] c ptl pr(1)
    by (simp add: translate_def mirror_parts [OF addr_parts_less] s1_def T_def Let_def)
  have kw: "kwrite im (pt_word ?pt ?i) ?w s = Inr s2"
    using tr0 kf tr1 by (simp add: kwrite_def resolve_def s2_def)
  have run: "pd_map_page im v f rw s = Inr (True, s2)"
    unfolding pd_map_page_def Let_def page_entry_def [symmetric]
    using kw v low pr(1) by (simp add: read_pde_def page_entry_def)
  have sp: "space im s2 ?c v = ?w"
    using TcK c ptl pr(1) page_entry_parts(1) [OF f]
    by (simp add: space_unfold h Let_def s2_def s1_def T_def [symmetric])
  have mir: "translate s' (pd_word i) = Some (?K, i)" if "i < 1024" "pg_mem s' = pg_mem s2" "cr3_frame s' = ?c" for i s'
    using mirroredD [OF mk] c TcK that
    by (simp add: translate_def pd_word_pt_word mirror_parts [OF _ that(1)] Let_def s2_def s1_def)
  have "\<not> is_ok (delete_pagedir im d s2)" if d: "pg_dirs s d = Some pd" "pte_frame (phys_addr pd) = ?c" for d pd
  proof -
    define s3 where "s3 = s2\<lparr>pg_cr3 := phys_addr pd, pg_thread := (case pg_thread s2 of None \<Rightarrow> None | Some _ \<Rightarrow> Some d)\<rparr>"
    have s3: "pg_mem s3 = pg_mem s2" "cr3_frame s3 = ?c" using d(2) by (simp_all add: s3_def cr3_frame_def)
    have dirs: "pg_dirs s2 d = Some pd" using d(1) by (simp add: s2_def s1_def)
    have sw: "switch_pagedir d s2 = Inr s3" using dirs by (simp add: switch_pagedir_def s3_def)
    have rd: "kreads im (map pd_word is) s3 = Inr (map (pg_mem s2 ?K) is, s3)" if "\<forall>i \<in> set is. i < 1024" for "is"
      using that by (induction "is") (simp_all add: kread_mapped [OF mir [OF _ s3]] s3)
    have "pg_mem s2 ?K 1023 = ?k" using c TcK by (simp add: s2_def s1_def)
    then have ne: "unat (phys_addr pd div PAGE_SIZE) \<noteq> pte_frame (map (pg_mem s2 ?K) [0..<N_PAGES_IN_PT] ! (N_PAGES_IN_PT - 1))"
      using d(2) c mirroredD(2) [OF mk] by (simp add: N_PAGES_IN_PT_def pte_frame_div [symmetric])
    show ?thesis
      using ne rd [of "[0..<N_PAGES_IN_PT]"]
      by (auto simp: delete_pagedir_def dirs sw N_PAGES_IN_PT_def is_ok_iff rbind_Inr_iff)
  qed
  moreover have "translate s2 (pd_word i) = Some (?K, i)" if "i < 1024" for i using mir [OF that] by simp
  ultimately show ?thesis using run sp by blast
qed


text \<open>A process with its directory in frame 3, while the kernel has a table, in frame 2, that the process lacks.\<close>

definition wit_process :: paging where
  "wit_process = wit_paging\<lparr>
     pg_mem := (\<lambda>f i. if i = 1023 \<and> f = 1 then 0x1003 else if i = 1023 \<and> f = 3 then 0x3003
                     else if f = 1 \<and> i = 768 then 0x2003 else 0),
     pg_cr3 := 0x3000, pg_thread := Some 7,
     pg_dirs := [7 \<mapsto> \<lparr>phys_addr = 0x3000, user_pfh = None, user_pfh_data = 0\<rparr>],
     pg_frames := \<lparr>frame_bitset = [mask 4, 0], nframes = 64, nused_frames = 4, begin_search_at = 0\<rparr>\<rparr>"

lemma wit_process_ok: "spaces_ok wit_image {1, 3} wit_process" "cr3_frame wit_process = 3"
proof -
  show c: "cr3_frame wit_process = 3"
    by (simp add: cr3_frame_def wit_process_def pte_frame_def PTE_FRAME_SHIFT_def)
  have e: "present 0x1003" "present 0x2003" "present 0x3003" "pte_frame 0x1003 = 1" "pte_frame 0x2003 = 2" "pte_frame 0x3003 = 3"
    by (simp_all add: present_def PTE_PRESENT_def pte_frame_def PTE_FRAME_SHIFT_def)
  have sl: "slots wit_image {1, 3} wit_process = {(1, 768)}"
    by (auto simp: slots_def wit_process_def wit_kernel_pd e split: if_splits)
  have t: "table_of wit_process (1, 768) = 2" by (simp add: table_of_def wit_process_def e)
  have "mirrored wit_process d" if "d \<in> {1, 3}" for d
    using that by (auto simp: mirrored_def wit_process_def e)
  moreover have "shares_kernel wit_image wit_process d" if "d \<in> {1, 3}" for d
    using that by (auto simp: shares_kernel_def wit_kernel_pd wit_process_def)
  moreover have "frame_ok (pg_frames wit_process)" "used_set (pg_frames wit_process) = {..<4}" "nframes (pg_frames wit_process) = 64"
    using low_frames_ok [of 4] low_frames_used [of 4] by (simp_all add: wit_process_def del: mask_numeral)
  moreover have "ki_kernel_pd wit_image \<noteq> CURRENT_PD"
    by (simp add: wit_image_def CURRENT_PD_def PD_MIRROR_ADDR_def N_PAGES_IN_PT_def PAGE_SIZE_def)
  ultimately show "spaces_ok wit_image {1, 3} wit_process"
    unfolding spaces_ok_def wit_kernel_pd c sl by (auto simp: t [unfolded One_nat_def])
qed

theorem kernel_table_fault_loses_mirror_witness:
  "\<exists>s'. pd_map_page wit_image 0xC0000000 9 True wit_process = Inr (True, s') \<and> translate s' (pd_word 0) = Some (1, 0)
     \<and> \<not> is_ok (delete_pagedir wit_image 7 s')"
proof -
  have pt: "PT_OF_ADDR 0xC0000000 = 768" by (simp add: PT_OF_ADDR_div)
  have p: "present 0x2003" by (simp add: present_def PTE_PRESENT_def)
  have d: "pg_dirs wit_process 7 = Some \<lparr>phys_addr = 0x3000, user_pfh = None, user_pfh_data = 0\<rparr>" "pte_frame 0x3000 = 3"
    by (simp_all add: wit_process_def pte_frame_def PTE_FRAME_SHIFT_def)
  have v: "K_HIGHHALF_ADDR \<le> 0xC0000000" "0xC0000000 < PD_MIRROR_ADDR" by (simp_all add: K_HIGHHALF_ADDR_def PD_MIRROR_ADDR_def)
  have a: "cr3_frame wit_process \<noteq> kernel_pd wit_image" "present (pg_mem wit_process (kernel_pd wit_image) (PT_OF_ADDR 0xC0000000))"
    "\<not> present (pg_mem wit_process (cr3_frame wit_process) (PT_OF_ADDR 0xC0000000))"
    unfolding pt wit_kernel_pd wit_process_ok(2) by (simp_all add: wit_process_def p)
  have "(9::nat) < 1048576" by simp
  from kernel_table_fault_loses_mirror [OF wit_process_ok(1) a(1) v a(2,3) this, of True]
  obtain s' where "pd_map_page wit_image 0xC0000000 9 True wit_process = Inr (True, s')"
    "\<forall>i < 1024. translate s' (pd_word i) = Some (kernel_pd wit_image, i)"
    "\<forall>d pd. pg_dirs wit_process d = Some pd \<and> pte_frame (phys_addr pd) = cr3_frame wit_process \<longrightarrow> \<not> is_ok (delete_pagedir wit_image d s')"
    by blast
  moreover have "\<not> is_ok (delete_pagedir wit_image 7 s')" using calculation(3) d wit_process_ok(2) by simp
  ultimately show ?thesis by (auto simp: wit_kernel_pd)
qed

end
