(* ===== verification/Region_Lists.thy ===== *)
theory Region_Lists
  imports Region_Alloc
begin

text \<open>
  The free lists of the region allocator: what keeps them well formed, and that taking a region out of them
  and putting one in preserves it, the pointer \<open>first_bigger\<close> of every region included.
\<close>

section \<open>Well-formed free lists\<close>

fun bigger_ok :: "(nat \<Rightarrow> nat) \<Rightarrow> (nat \<Rightarrow> nat option) \<Rightarrow> nat list \<Rightarrow> bool" where
  "bigger_ok szf bg [] = True"
| "bigger_ok szf bg (d # ds) \<longleftrightarrow> bg d = find (\<lambda>y. szf d < szf y) ds \<and> bigger_ok szf bg ds"

definition free_lists :: "region_state \<Rightarrow> bool" where
  "free_lists s \<longleftrightarrow> distinct (ra_by_addr s) \<and> distinct (ra_by_size s)
     \<and> set (ra_by_size s) = set (ra_by_addr s)
     \<and> sorted_wrt (\<lambda>x y. ra_addr s x + ra_size s x < ra_addr s y) (ra_by_addr s)
     \<and> sorted_wrt (\<lambda>x y. ra_size s x \<le> ra_size s y) (ra_by_size s)
     \<and> bigger_ok (ra_size s) (ra_bigger s) (ra_by_size s)
     \<and> (\<forall>d \<in> set (ra_by_addr s). 0 < ra_size s d \<and> ra_addr s d + ra_size s d < 2 ^ 32)"

text \<open>The fields that the operations on the free lists leave alone.\<close>

definition same_regions :: "region_state \<Rightarrow> region_state \<Rightarrow> bool" where
  "same_regions s s' \<longleftrightarrow> ra_addr s' = ra_addr s \<and> ra_size s' = ra_size s \<and> ra_type s' = ra_type s
     \<and> ra_used s' = ra_used s \<and> ra_unused s' = ra_unused s \<and> n_unused s' = n_unused s"

lemma bigger_ok_cong:
  "\<forall>x \<in> set ds. bg x = bg' x \<Longrightarrow> bigger_ok szf bg ds = bigger_ok szf bg' ds"
  by (induction ds) simp_all

section \<open>Searching and removing\<close>

lemma find_remove1_other: "find P xs \<noteq> Some d \<Longrightarrow> find P (remove1 d xs) = find P xs"
  by (induction xs) auto

lemma find_remove1_it:
  "find P xs = Some d \<Longrightarrow> sorted_wrt (\<lambda>x y. P x \<longrightarrow> P y) xs \<Longrightarrow> find P (remove1 d xs) = next_in d xs"
proof (induction xs)
  case (Cons x xs)
  show ?case
  proof (cases "P x")
    case True
    then have "x = d" using Cons.prems(1) by simp
    moreover have "\<forall>y \<in> set xs. P y" using Cons.prems(2) True by simp
    ultimately show ?thesis by (cases xs) simp_all
  next
    case False
    then have "find P xs = Some d" using Cons.prems(1) by simp
    moreover have "x \<noteq> d" using False \<open>find P xs = Some d\<close> by (auto simp: find_Some_iff)
    moreover have "sorted_wrt (\<lambda>x y. P x \<longrightarrow> P y) xs" using Cons.prems(2) by simp
    ultimately show ?thesis using Cons.IH False by simp
  qed
qed simp

lemma next_in_Cons: "i \<noteq> d \<Longrightarrow> next_in d (i # js) = next_in d js"
  by simp

lemma remove_by_size_spec:
  "distinct (i # js) \<Longrightarrow> d \<in> set js \<Longrightarrow> sorted_wrt (\<lambda>x y. szf x \<le> szf y) (i # js) \<Longrightarrow>
     bigger_ok szf bg (i # js) \<Longrightarrow> nxt = next_in d js \<Longrightarrow>
     \<exists>b. remove_by_size d nxt bg (i # js) = (remove1 d (i # js), b)
       \<and> bigger_ok szf b (remove1 d (i # js)) \<and> (\<forall>x. x \<notin> set (i # js) \<longrightarrow> b x = bg x)"
proof (induction js arbitrary: i bg)
  case (Cons j ks)
  let ?P = "\<lambda>y. szf i < szf y"
  define bg1 where "bg1 = (if bg i = Some d then bg(i := nxt) else bg)"
  have id: "i \<noteq> d" and i_notin: "i \<notin> set (j # ks)" using Cons.prems(1,2) by auto
  have "sorted_wrt (\<lambda>x y. ?P x \<longrightarrow> ?P y) (j # ks)"
  proof (rule sorted_wrt_mono_rel)
    show "sorted_wrt (\<lambda>x y. szf x \<le> szf y) (j # ks)" using Cons.prems(3) by simp
    show "\<And>x y. szf x \<le> szf y \<Longrightarrow> ?P x \<longrightarrow> ?P y" by simp
  qed
  then have "find ?P (remove1 d (j # ks)) = (if bg i = Some d then nxt else bg i)"
    using find_remove1_it [of ?P "j # ks" d] find_remove1_other [of ?P "j # ks" d] Cons.prems(4,5)
    by (simp del: find.simps remove1.simps)
  then have bi: "bg1 i = find ?P (remove1 d (j # ks))"
    by (simp add: bg1_def del: find.simps remove1.simps)
  have ok1: "bigger_ok szf bg1 (j # ks)"
    using Cons.prems(4) i_notin bigger_ok_cong [of "j # ks" bg1 bg szf] by (simp add: bg1_def split: if_splits)
  show ?case
  proof (cases "j = d")
    case True
    then have "remove_by_size d nxt bg (i # j # ks) = (i # ks, bg1)"
      by (simp add: bg1_def Let_def)
    moreover have "bigger_ok szf bg1 (i # ks)"
      using bi ok1 True by simp
    ultimately show ?thesis using True id by (auto simp: bg1_def)
  next
    case False
    have "nxt = next_in d ks" using Cons.prems(5) False by simp
    then obtain b where b: "remove_by_size d nxt bg1 (j # ks) = (remove1 d (j # ks), b)"
      "bigger_ok szf b (remove1 d (j # ks))" "\<forall>x. x \<notin> set (j # ks) \<longrightarrow> b x = bg1 x"
      using Cons.IH [of j bg1] Cons.prems False ok1 by auto
    have st: "remove_by_size d nxt bg (i # j # ks) = (i # remove1 d (j # ks), b)"
      using False b(1) by (simp add: bg1_def Let_def del: remove1.simps)
    have "b i = find ?P (remove1 d (j # ks))" using b(3) i_notin bi by simp
    with b st id show ?thesis
      by (intro exI [of _ b]) (auto simp: bg1_def simp del: remove_by_size.simps)
  qed
qed simp

lemma sorted_wrt_remove1: "sorted_wrt R xs \<Longrightarrow> sorted_wrt R (remove1 d xs)"
proof (induction xs)
  case (Cons x xs)
  then show ?case using set_remove1_subset [of d xs] by (cases "x = d") auto
qed simp

lemma remove_free_region_spec:
  assumes ok: "free_lists s" and d: "d \<in> set (ra_by_addr s)"
  shows "free_lists (remove_free_region d s)" and "same_regions s (remove_free_region d s)"
    and "set (ra_by_addr (remove_free_region d s)) = set (ra_by_addr s) - {d}"
proof -
  have dz: "d \<in> set (ra_by_size s)" using ok d by (simp add: free_lists_def)
  obtain z zs where z: "ra_by_size s = z # zs" using dz by (cases "ra_by_size s") auto
  have "\<exists>b. remove_free_region d s =
      s\<lparr>ra_by_size := remove1 d (z # zs), ra_bigger := b, ra_by_addr := remove1 d (ra_by_addr s)\<rparr>
      \<and> bigger_ok (ra_size s) b (remove1 d (z # zs))"
  proof (cases "z = d")
    case True
    have "bigger_ok (ra_size s) (ra_bigger s) zs" using ok z by (simp add: free_lists_def)
    with True z show ?thesis
      by (intro exI [of _ "ra_bigger s"]) (simp add: remove_free_region_def)
  next
    case False
    then have "d \<in> set zs" using dz z by simp
    moreover have "distinct (z # zs)" "sorted_wrt (\<lambda>x y. ra_size s x \<le> ra_size s y) (z # zs)"
      "bigger_ok (ra_size s) (ra_bigger s) (z # zs)" using ok z by (simp_all add: free_lists_def)
    ultimately obtain b where
      "remove_by_size d (next_in d zs) (ra_bigger s) (z # zs) = (remove1 d (z # zs), b)"
      "bigger_ok (ra_size s) b (remove1 d (z # zs))"
      using remove_by_size_spec by blast
    with False z show ?thesis
      by (intro exI [of _ b]) (simp add: remove_free_region_def del: remove_by_size.simps)
  qed
  then obtain b where r: "remove_free_region d s =
      s\<lparr>ra_by_size := remove1 d (z # zs), ra_bigger := b, ra_by_addr := remove1 d (ra_by_addr s)\<rparr>"
    and bok: "bigger_ok (ra_size s) b (remove1 d (z # zs))" by blast
  show "same_regions s (remove_free_region d s)"
    unfolding r by (simp add: same_regions_def)
  have da: "distinct (ra_by_addr s)" "distinct (ra_by_size s)" using ok by (simp_all add: free_lists_def)
  then show sa: "set (ra_by_addr (remove_free_region d s)) = set (ra_by_addr s) - {d}"
    unfolding r by simp
  show "free_lists (remove_free_region d s)"
    unfolding r free_lists_def using ok bok da z
    by (auto simp: free_lists_def simp del: remove1.simps sorted_wrt.simps intro!: sorted_wrt_remove1)
qed

section \<open>Insertion\<close>

definition insert_at :: "(nat \<Rightarrow> bool) \<Rightarrow> nat \<Rightarrow> nat list \<Rightarrow> nat list" where
  "insert_at Q d xs = takeWhile Q xs @ d # dropWhile Q xs"

lemma insert_at_simps:
  "insert_at Q d [] = [d]"
  "Q x \<Longrightarrow> insert_at Q d (x # xs) = x # insert_at Q d xs"
  "\<not> Q x \<Longrightarrow> insert_at Q d (x # xs) = d # x # xs"
  by (simp_all add: insert_at_def)

lemma set_insert_at [simp]: "set (insert_at Q d xs) = insert d (set xs)"
proof -
  have "set xs = set (takeWhile Q xs) \<union> set (dropWhile Q xs)"
    by (metis set_append takeWhile_dropWhile_id)
  then show ?thesis by (auto simp: insert_at_def)
qed

lemma distinct_insert_at: "distinct xs \<Longrightarrow> d \<notin> set xs \<Longrightarrow> distinct (insert_at Q d xs)"
proof -
  assume "distinct xs" and d: "d \<notin> set xs"
  then have "distinct (takeWhile Q xs @ dropWhile Q xs)" by simp
  then show ?thesis
    using d set_takeWhileD [of d Q xs] set_dropWhileD [of d Q xs] by (auto simp: insert_at_def simp del: takeWhile_dropWhile_id)
qed

lemma sorted_insert_at:
  "sorted_wrt R xs \<Longrightarrow> \<forall>x \<in> set xs. Q x \<longrightarrow> R x d \<Longrightarrow> \<forall>x \<in> set xs. \<not> Q x \<longrightarrow> R d x \<Longrightarrow>
     sorted_wrt (\<lambda>x y. Q y \<longrightarrow> Q x) xs \<Longrightarrow> sorted_wrt R (insert_at Q d xs)"
proof (induction xs)
  case (Cons x xs)
  show ?case
  proof (cases "Q x")
    case True
    have "sorted_wrt R (insert_at Q d xs)" using Cons by simp
    moreover have "\<forall>y \<in> set (insert_at Q d xs). R x y" using Cons.prems(1,2) True by simp
    ultimately show ?thesis using True by (simp add: insert_at_simps)
  next
    case False
    have "\<forall>y \<in> set xs. \<not> Q y" using Cons.prems(4) False by auto
    then show ?thesis using Cons.prems(1,3) False by (simp add: insert_at_simps)
  qed
qed (simp add: insert_at_simps)

lemma find_insert_at:
  "P d \<Longrightarrow> sorted_wrt (\<lambda>x y. Q y \<longrightarrow> Q x) xs \<Longrightarrow>
     find P (insert_at Q d xs) = (case find P xs of None \<Rightarrow> Some d | Some b \<Rightarrow> if Q b then Some b else Some d)"
proof (induction xs)
  case (Cons x xs)
  show ?case
  proof (cases "Q x")
    case True
    then show ?thesis using Cons by (simp add: insert_at_simps)
  next
    case False
    then have "\<forall>y \<in> set xs. \<not> Q y" using Cons.prems(2) by auto
    moreover have "y \<in> set xs" if "find P xs = Some y" for y
      using that by (auto simp: find_Some_iff)
    ultimately show ?thesis using False Cons.prems(1) by (auto simp: insert_at_simps split: option.split)
  qed
qed (simp add: insert_at_simps)

lemma insert_by_addr_spec:
  "xs \<noteq> [] \<Longrightarrow> f (hd xs) < f d \<Longrightarrow> \<forall>x \<in> set xs. f x \<noteq> f d \<Longrightarrow>
     insert_by_addr f d xs = insert_at (\<lambda>x. f x < f d) d xs"
proof (induction f d xs rule: insert_by_addr.induct)
  case (2 f d it its)
  show ?case
  proof (cases its)
    case (Cons j js)
    then show ?thesis using 2 by (auto simp: insert_at_simps)
  qed (use 2 in \<open>simp add: insert_at_simps\<close>)
qed simp

lemma find_sorted_tail:
  "sorted_wrt (\<lambda>x y. szf x \<le> szf y) (next # rest) \<Longrightarrow> bigger_ok szf bg (next # rest) \<Longrightarrow>
     szf next \<ge> szf d \<Longrightarrow> find (\<lambda>y. szf d < szf y) (next # rest) = (if szf next > szf d then Some next else bg next)"
  by auto

lemma insert_by_size_spec:
  "distinct xs \<Longrightarrow> d \<notin> set xs \<Longrightarrow> sorted_wrt (\<lambda>x y. szf x \<le> szf y) xs \<Longrightarrow> bigger_ok szf bg xs \<Longrightarrow>
     xs \<noteq> [] \<Longrightarrow> szf (hd xs) < szf d \<Longrightarrow>
     \<exists>b. insert_by_size szf d bg xs = Inr (insert_at (\<lambda>x. szf x < szf d) d xs, b)
       \<and> bigger_ok szf b (insert_at (\<lambda>x. szf x < szf d) d xs)
       \<and> (\<forall>x. x \<notin> insert d (set xs) \<longrightarrow> b x = bg x)"
proof (induction szf d bg xs rule: insert_by_size.induct)
  case (2 szf d bg it its)
  let ?Q = "\<lambda>x. szf x < szf d"
  let ?P = "\<lambda>y. szf it < szf y"
  define bg1 where "bg1 = (case bg it of None \<Rightarrow> bg(it := Some d)
    | Some b \<Rightarrow> if szf b \<ge> szf d then bg(it := Some d) else bg)"
  have lt: "szf it < szf d" using 2(7) by simp
  have notin: "it \<notin> set its" "it \<noteq> d" "d \<notin> set its" using 2(2,3) by auto
  have srt: "sorted_wrt (\<lambda>x y. szf x \<le> szf y) its" using 2(4) by simp
  then have anti: "sorted_wrt (\<lambda>x y. ?Q y \<longrightarrow> ?Q x) its"
    by (rule sorted_wrt_mono_rel [rotated]) auto
  have same: "\<forall>x. x \<noteq> it \<longrightarrow> bg1 x = bg x" by (auto simp: bg1_def split: option.split)
  have ok1: "bigger_ok szf bg1 its"
  proof -
    have "\<forall>x \<in> set its. bg1 x = bg x" using notin(1) same by metis
    from bigger_ok_cong [OF this, of szf] 2(5) show ?thesis by simp
  qed
  have b_it: "bg1 it = find ?P (insert_at ?Q d its)"
    using find_insert_at [of ?P d ?Q its] anti lt 2(5) by (auto simp: bg1_def split: option.split)
  show ?case
  proof (cases its)
    case Nil
    have "insert_by_size szf d bg (it # its) = Inr ([it, d], bg1(d := None))"
      using lt Nil by (simp add: bg1_def)
    with Nil lt b_it notin same show ?thesis by (auto simp: insert_at_simps)
  next
    case (Cons nx rest)
    show ?thesis
    proof (cases "szf nx \<ge> szf d")
      case True
      define v where "v = (if szf nx > szf d then Some nx else bg1 nx)"
      have st: "insert_by_size szf d bg (it # its) = Inr (it # d # its, bg1(d := v))"
        using lt Cons True by (simp add: bg1_def v_def Let_def)
      have ins: "insert_at ?Q d (it # its) = it # d # its" using lt Cons True by (simp add: insert_at_simps)
      have "find (\<lambda>y. szf d < szf y) its = v"
        using find_sorted_tail [of szf nx rest bg1 d] srt ok1 True Cons by (simp add: v_def)
      moreover have "bigger_ok szf (bg1(d := v)) its"
      proof -
        have "\<forall>x \<in> set its. (bg1(d := v)) x = bg1 x" using notin(3) by auto
        from bigger_ok_cong [of its "bg1(d := v)" bg1 szf, OF this] ok1 show ?thesis by simp
      qed
      moreover have "bg1 it = find ?P (d # its)"
        using b_it Cons True by (simp add: insert_at_simps)
      ultimately have "bigger_ok szf (bg1(d := v)) (it # d # its)"
        using notin by simp
      moreover have "\<forall>x. x \<notin> insert d (set (it # its)) \<longrightarrow> (bg1(d := v)) x = bg x"
        using same by simp
      ultimately show ?thesis unfolding st ins by blast
    next
      case False
      have "distinct its" "d \<notin> set its" "its \<noteq> []" "szf (hd its) < szf d"
        using 2(2,3) Cons False by auto
      then obtain b where b: "insert_by_size szf d bg1 its = Inr (insert_at ?Q d its, b)"
        "bigger_ok szf b (insert_at ?Q d its)" "\<forall>x. x \<notin> insert d (set its) \<longrightarrow> b x = bg1 x"
        using 2(1) [OF _ refl, folded bg1_def, OF _ Cons] lt False srt ok1 by auto
      have st: "insert_by_size szf d bg (it # its) = Inr (it # insert_at ?Q d its, b)"
        using lt Cons False b(1) by (simp add: bg1_def Let_def)
      have "b it = find ?P (insert_at ?Q d its)" using b(3) notin b_it by simp
      with b st lt same show ?thesis by (intro exI [of _ b]) (auto simp: insert_at_simps)
    qed
  qed
qed simp

lemma check_first_bigger_ok:
  "bigger_ok szf bg xs \<Longrightarrow> sorted_wrt (\<lambda>x y. szf x \<le> szf y) xs \<Longrightarrow> \<forall>x \<in> set xs. sz \<le> szf x \<Longrightarrow>
     sp = find (\<lambda>y. sz < szf y) xs \<Longrightarrow> check_first_bigger szf bg sp sz xs"
  by (induction xs arbitrary: sp sz) auto

end
