(* ===== verification/Region_Inv.thy ===== *)
theory Region_Inv
  imports Region_Lists
begin

text \<open>
  The invariant of the region allocator: descriptors are never shared between its lists, free and used
  regions are disjoint and tile the address range, free neighbours are always merged, and there are always
  descriptors in reserve. Every operation preserves it and none of the assertions of the code can fail.
\<close>

section \<open>Inserting a region that touches no free one\<close>

lemma insert_free_region_spec:
  assumes ok: "free_lists s" and d: "d \<notin> set (ra_by_addr s)" "0 < ra_size s d"
      "ra_addr s d + ra_size s d < 2 ^ 32"
    and gap: "\<forall>x \<in> set (ra_by_addr s). ra_addr s x + ra_size s x < ra_addr s d
      \<or> ra_addr s d + ra_size s d < ra_addr s x"
  shows "\<exists>s'. insert_free_region d s = Inr s' \<and> same_regions s s' \<and> free_lists s'
    \<and> set (ra_by_addr s') = insert d (set (ra_by_addr s))"
proof (cases "ra_by_addr s")
  case Nil
  then have "ra_by_size s = []" using ok by (simp add: free_lists_def)
  with Nil d show ?thesis by (simp add: insert_free_region_def same_regions_def free_lists_def)
next
  case (Cons a as)
  obtain z zs where z: "ra_by_size s = z # zs"
    using ok Cons by (cases "ra_by_size s") (auto simp: free_lists_def)
  note f = ok [unfolded free_lists_def]
  let ?A = "\<lambda>x. ra_addr s x < ra_addr s d"
  let ?Z = "\<lambda>x. ra_size s x < ra_size s d"
  have ne: "\<forall>x \<in> set (a # as). ra_addr s x \<noteq> ra_addr s d" using gap Cons by fastforce
  have addrs: "(if ra_addr s a > ra_addr s d then d # a # as else insert_by_addr (ra_addr s) d (a # as))
      = insert_at ?A d (a # as)"
  proof (cases "ra_addr s a > ra_addr s d")
    case False
    then have "ra_addr s (hd (a # as)) < ra_addr s d" using ne by auto
    from insert_by_addr_spec [OF _ this ne] False show ?thesis by simp
  qed (simp add: insert_at_simps)
  have srt: "sorted_wrt (\<lambda>x y. ra_size s x \<le> ra_size s y) (z # zs)" using f z by simp
  have bok: "bigger_ok (ra_size s) (ra_bigger s) (z # zs)" using f z by simp
  have dz: "distinct (z # zs)" "d \<notin> set (z # zs)" using f z d by auto
  have "\<exists>b. (if ra_size s z \<ge> ra_size s d
           then Inr (d # z # zs, (ra_bigger s)(d := (if ra_size s z > ra_size s d then Some z else ra_bigger s z)))
           else insert_by_size (ra_size s) d (ra_bigger s) (z # zs))
         = (Inr (insert_at ?Z d (z # zs), b) :: (nat list \<times> (nat \<Rightarrow> nat option)) res)
      \<and> bigger_ok (ra_size s) b (insert_at ?Z d (z # zs))"
  proof (cases "ra_size s z \<ge> ra_size s d")
    case True
    define v where "v = (if ra_size s z > ra_size s d then Some z else ra_bigger s z)"
    have "find (\<lambda>y. ra_size s d < ra_size s y) (z # zs) = v"
      unfolding v_def by (rule find_sorted_tail [OF srt bok True])
    moreover have "\<forall>x \<in> set (z # zs). ((ra_bigger s)(d := v)) x = ra_bigger s x" using dz(2) by auto
    ultimately have "bigger_ok (ra_size s) ((ra_bigger s)(d := v)) (d # z # zs)"
      using bigger_ok_cong [of "z # zs" "(ra_bigger s)(d := v)" "ra_bigger s" "ra_size s"] bok
      unfolding bigger_ok.simps(2) [of _ _ d] by simp
    with True show ?thesis unfolding v_def by (auto simp: insert_at_simps simp del: bigger_ok.simps)
  next
    case False
    then have "ra_size s (hd (z # zs)) < ra_size s d" by simp
    from insert_by_size_spec [OF dz srt bok _ this] False show ?thesis by auto
  qed
  then obtain b where sizes: "(if ra_size s z \<ge> ra_size s d
           then Inr (d # z # zs, (ra_bigger s)(d := (if ra_size s z > ra_size s d then Some z else ra_bigger s z)))
           else insert_by_size (ra_size s) d (ra_bigger s) (z # zs))
         = (Inr (insert_at ?Z d (z # zs), b) :: (nat list \<times> (nat \<Rightarrow> nat option)) res)"
    and b: "bigger_ok (ra_size s) b (insert_at ?Z d (z # zs))" by blast
  have srt': "sorted_wrt (\<lambda>x y. ra_size s x \<le> ra_size s y) (insert_at ?Z d (z # zs))"
  proof (rule sorted_insert_at [OF srt])
    show "sorted_wrt (\<lambda>x y. ?Z y \<longrightarrow> ?Z x) (z # zs)"
      by (rule sorted_wrt_mono_rel [OF _ srt]) auto
  qed auto
  obtain y ys where y: "insert_at ?Z d (z # zs) = y # ys"
    by (cases "insert_at ?Z d (z # zs)") (auto simp: insert_at_def)
  have "check_first_bigger (ra_size s) b (b y) (ra_size s y) ys"
    using b srt' unfolding y by (intro check_first_bigger_ok) simp_all
  then have st: "insert_free_region d s = Inr (s\<lparr>ra_by_addr := insert_at ?A d (a # as),
      ra_by_size := insert_at ?Z d (z # zs), ra_bigger := b\<rparr>)"
    unfolding insert_free_region_def Cons z list.case Let_def addrs sizes using y by simp
  have "sorted_wrt (\<lambda>x y. ra_addr s x + ra_size s x < ra_addr s y) (insert_at ?A d (a # as))"
  proof (rule sorted_insert_at)
    show sa: "sorted_wrt (\<lambda>x y. ra_addr s x + ra_size s x < ra_addr s y) (a # as)" using f Cons by simp
    show "sorted_wrt (\<lambda>x y. ?A y \<longrightarrow> ?A x) (a # as)"
      by (rule sorted_wrt_mono_rel [OF _ sa]) auto
    show "\<forall>x \<in> set (a # as). ?A x \<longrightarrow> ra_addr s x + ra_size s x < ra_addr s d" using gap Cons by auto
    show "\<forall>x \<in> set (a # as). \<not> ?A x \<longrightarrow> ra_addr s d + ra_size s d < ra_addr s x" using gap Cons by auto
  qed
  then have "free_lists (s\<lparr>ra_by_addr := insert_at ?A d (a # as),
      ra_by_size := insert_at ?Z d (z # zs), ra_bigger := b\<rparr>)"
    using f Cons z dz d b srt' by (auto simp: free_lists_def distinct_insert_at simp del: bigger_ok.simps sorted_wrt.simps distinct.simps)
  with st Cons show ?thesis by (auto simp: same_regions_def)
qed

section \<open>Putting a region back, with merging\<close>

definition region_bytes :: "region_state \<Rightarrow> nat \<Rightarrow> nat set" where
  "region_bytes s d = {ra_addr s d ..< ra_addr s d + ra_size s d}"

definition free_space :: "region_state \<Rightarrow> nat set" where
  "free_space s = (\<Union>d \<in> set (ra_by_addr s). region_bytes s d)"

definition apart :: "region_state \<Rightarrow> nat \<Rightarrow> nat \<Rightarrow> bool" where
  "apart s x y \<longleftrightarrow> ra_addr s x + ra_size s x \<le> ra_addr s y \<or> ra_addr s y + ra_size s y \<le> ra_addr s x"

text \<open>A region that is in no list yet and can be put among the free ones.\<close>

definition loose :: "region_state \<Rightarrow> nat \<Rightarrow> bool" where
  "loose s d \<longleftrightarrow> free_lists s \<and> distinct (d # ra_unused s @ ra_by_addr s)
     \<and> n_unused s = length (ra_unused s) \<and> 0 < ra_size s d \<and> ra_addr s d + ra_size s d < 2 ^ 32
     \<and> (\<forall>x \<in> set (ra_by_addr s). apart s x d)"

lemma free_gap:
  assumes "free_lists s" "x \<in> set (ra_by_addr s)" "y \<in> set (ra_by_addr s)" "x \<noteq> y"
  shows "ra_addr s x + ra_size s x < ra_addr s y \<or> ra_addr s y + ra_size s y < ra_addr s x"
proof -
  have srt: "sorted_wrt (\<lambda>x y. ra_addr s x + ra_size s x < ra_addr s y) (ra_by_addr s)"
    using assms(1) by (simp add: free_lists_def)
  obtain i j where ij: "i < length (ra_by_addr s)" "ra_by_addr s ! i = x"
    "j < length (ra_by_addr s)" "ra_by_addr s ! j = y"
    using assms(2,3) by (metis in_set_conv_nth)
  consider "i < j" | "j < i" using ij assms(4) by (metis linorder_neqE_nat)
  then show ?thesis
    using srt ij unfolding sorted_wrt_iff_nth_less by cases (blast, metis)
qed

lemma find_adjacent_None:
  assumes "sorted_wrt (\<lambda>x y. ra_addr s x + ra_size s x < ra_addr s y) xs"
    and "\<forall>x \<in> set xs. apart s x d \<and> ra_addr s x + ra_size s x < 2 ^ 32"
    and "ra_addr s d + ra_size s d < 2 ^ 32" and "find_adjacent s d xs = None"
  shows "\<forall>x \<in> set xs. ra_addr s x + ra_size s x < ra_addr s d \<or> ra_addr s d + ra_size s d < ra_addr s x"
  using assms
proof (induction xs)
  case (Cons it its)
  have a: "apart s it d" "ra_addr s it + ra_size s it < 2 ^ 32" using Cons.prems(2) by simp_all
  have ne: "ra_addr s it + ra_size s it \<noteq> ra_addr s d" "ra_addr s it \<noteq> ra_addr s d + ra_size s d"
    using Cons.prems(3,4) a(2) by (auto simp: add32_def split: if_splits)
  show ?case
  proof (cases "ra_addr s it > ra_addr s d")
    case True
    then have "ra_addr s d + ra_size s d < ra_addr s it" using a(1) ne by (auto simp: apart_def)
    with Cons.prems(1) show ?thesis by fastforce
  next
    case False
    then have "find_adjacent s d its = None" using Cons.prems(4) by (simp split: if_splits)
    then have "\<forall>x \<in> set its. ra_addr s x + ra_size s x < ra_addr s d \<or> ra_addr s d + ra_size s d < ra_addr s x"
      using Cons by simp
    with a(1) ne show ?thesis by (auto simp: apart_def)
  qed
qed simp

lemma find_adjacent_hit:
  assumes "sorted_wrt (\<lambda>x y. ra_addr s x + ra_size s x < ra_addr s y) xs"
    and "y \<in> set xs" and "ra_addr s y + ra_size s y = ra_addr s d" and "ra_addr s d < 2 ^ 32"
  shows "find_adjacent s d xs \<noteq> None"
  using assms by (induction xs) (auto simp: add32_def)

lemma find_adjacent_end:
  "find_adjacent s d xs = Some (Prev_free p) \<Longrightarrow> add32 (ra_addr s p) (ra_size s p) = ra_addr s d"
  "find_adjacent s d xs = Some (Next_free p) \<Longrightarrow> ra_addr s p = add32 (ra_addr s d) (ra_size s d)"
  by (induction xs) (auto split: if_splits)

lemma find_size_cong:
  "\<forall>x \<in> set xs. szf x = szf' x \<Longrightarrow> find (\<lambda>y. (c::nat) < szf y) xs = find (\<lambda>y. c < szf' y) xs"
  by (induction xs) auto

lemma bigger_ok_size_cong:
  "\<forall>x \<in> set xs. szf x = szf' x \<Longrightarrow> bigger_ok szf bg xs = bigger_ok szf' bg xs"
proof (induction xs)
  case (Cons x xs)
  then show ?case using find_size_cong [of xs szf szf' "szf' x"] by simp
qed simp

lemma sorted_wrt_cong_set:
  "sorted_wrt R xs \<Longrightarrow> \<forall>x \<in> set xs. \<forall>y \<in> set xs. R x y = R' x y \<Longrightarrow> sorted_wrt R' xs"
  by (induction xs) auto

lemma free_lists_cong:
  assumes "free_lists s" and "ra_by_addr s' = ra_by_addr s" "ra_by_size s' = ra_by_size s"
    "ra_bigger s' = ra_bigger s" and "\<forall>x \<in> set (ra_by_addr s). ra_addr s' x = ra_addr s x \<and> ra_size s' x = ra_size s x"
  shows "free_lists s'"
proof -
  note f = assms(1) [unfolded free_lists_def]
  have "bigger_ok (ra_size s') (ra_bigger s) (ra_by_size s)"
    using f assms(5) bigger_ok_size_cong [of "ra_by_size s" "ra_size s" "ra_size s'"] by simp
  moreover have "sorted_wrt (\<lambda>x y. ra_addr s' x + ra_size s' x < ra_addr s' y) (ra_by_addr s)"
    by (rule sorted_wrt_cong_set [of "\<lambda>x y. ra_addr s x + ra_size s x < ra_addr s y"]) (use f assms(5) in simp_all)
  moreover have "sorted_wrt (\<lambda>x y. ra_size s' x \<le> ra_size s' y) (ra_by_size s)"
    by (rule sorted_wrt_cong_set [of "\<lambda>x y. ra_size s x \<le> ra_size s y"]) (use f assms(5) in simp_all)
  ultimately show ?thesis
    using f assms(2-5) unfolding free_lists_def by simp
qed

text \<open>One merge: \<open>p\<close> leaves the free lists, \<open>k\<close> keeps the bytes of both and the
  descriptor \<open>gone\<close> becomes unused.\<close>

definition merged :: "region_state \<Rightarrow> nat \<Rightarrow> nat \<Rightarrow> nat \<Rightarrow> region_state" where
  "merged s p k gone =
     add_unused_region_descriptor gone
       ((remove_free_region p s)\<lparr>ra_size := (ra_size s)(k := add32 (ra_size s k) (ra_size s gone))\<rparr>)"

lemma merge_step:
  assumes l: "loose s d" and p: "p \<in> set (ra_by_addr s)"
    and adj: "k = p \<and> gone = d \<and> ra_addr s p + ra_size s p = ra_addr s d
      \<or> k = d \<and> gone = p \<and> ra_addr s d + ra_size s d = ra_addr s p"
  shows "loose (merged s p k gone) k"
    and "free_space (merged s p k gone) \<union> region_bytes (merged s p k gone) k = free_space s \<union> region_bytes s d"
    and "ra_addr (merged s p k gone) = ra_addr s" "ra_used (merged s p k gone) = ra_used s"
      "ra_type (merged s p k gone) = ra_type s" "n_unused (merged s p k gone) = n_unused s + 1"
      "ra_unused (merged s p k gone) = gone # ra_unused s"
      "set (ra_by_addr (merged s p k gone)) = set (ra_by_addr s) - {p}"
      "\<forall>x. x \<noteq> k \<longrightarrow> ra_size (merged s p k gone) x = ra_size s x"
      "ra_size (merged s p k gone) k = ra_size s p + ra_size s d"
proof -
  let ?m = "merged s p k gone"
  have fl: "free_lists s" and dist: "distinct (d # ra_unused s @ ra_by_addr s)"
    and n: "n_unused s = length (ra_unused s)" and pos: "0 < ra_size s d"
    and top: "ra_addr s d + ra_size s d < 2 ^ 32" and ap: "\<forall>x \<in> set (ra_by_addr s). apart s x d"
    using l by (simp_all add: loose_def)
  have ptop: "0 < ra_size s p" "ra_addr s p + ra_size s p < 2 ^ 32" using fl p by (auto simp: free_lists_def)
  note r = remove_free_region_spec [OF fl p]
  have same: "ra_addr (remove_free_region p s) = ra_addr s" "ra_size (remove_free_region p s) = ra_size s"
    "ra_used (remove_free_region p s) = ra_used s" "ra_unused (remove_free_region p s) = ra_unused s"
    "n_unused (remove_free_region p s) = n_unused s" "ra_type (remove_free_region p s) = ra_type s"
    using r(2) by (simp_all add: same_regions_def)
  have pd: "p \<noteq> d" using p dist by auto
  show szk: "ra_size ?m k = ra_size s p + ra_size s d"
    using adj pd top ptop by (auto simp: merged_def add_unused_region_descriptor_def add32_def)
  have fields: "ra_by_addr ?m = ra_by_addr (remove_free_region p s)" "ra_by_size ?m = ra_by_size (remove_free_region p s)"
    "ra_bigger ?m = ra_bigger (remove_free_region p s)"
    by (simp_all add: merged_def add_unused_region_descriptor_def)
  show addr: "ra_addr ?m = ra_addr s" and "ra_used ?m = ra_used s" and "ra_type ?m = ra_type s"
    and nm: "n_unused ?m = n_unused s + 1" and un: "ra_unused ?m = gone # ra_unused s"
    using same by (simp_all add: merged_def add_unused_region_descriptor_def)
  show sa: "set (ra_by_addr ?m) = set (ra_by_addr s) - {p}" using r(3) fields by simp
  show sz: "\<forall>x. x \<noteq> k \<longrightarrow> ra_size ?m x = ra_size s x"
    by (simp add: merged_def add_unused_region_descriptor_def)
  have k_notin: "k \<notin> set (ra_by_addr ?m)" using sa adj dist by auto
  have flm: "free_lists ?m"
  proof (rule free_lists_cong [OF r(1) fields])
    show "\<forall>x \<in> set (ra_by_addr (remove_free_region p s)).
        ra_addr ?m x = ra_addr (remove_free_region p s) x \<and> ra_size ?m x = ra_size (remove_free_region p s) x"
      using k_notin sz addr same fields by metis
  qed
  have ap': "apart ?m x k" if "x \<in> set (ra_by_addr ?m)" for x
  proof -
    have x: "x \<in> set (ra_by_addr s)" "x \<noteq> p" "x \<noteq> k" using that sa k_notin by auto
    have g: "ra_addr s x + ra_size s x < ra_addr s p \<or> ra_addr s p + ra_size s p < ra_addr s x"
      by (rule free_gap [OF fl x(1) p x(2)])
    have a: "apart s x d" using ap x(1) by blast
    show ?thesis
      using adj a g x(3) sz szk addr pos ptop(1) unfolding apart_def by (elim disjE conjE) auto
  qed
  have dist': "distinct (k # ra_unused ?m @ ra_by_addr ?m)"
    using adj dist sa un pd flm p by (auto simp: free_lists_def)
  have "ra_addr s k + (ra_size s p + ra_size s d) < 2 ^ 32" using adj top ptop(2) by auto
  then show "loose ?m k"
    using flm dist' n nm un szk pos ap' addr by (simp add: loose_def)
  have "free_space s = free_space ?m \<union> region_bytes s p"
  proof -
    have "free_space ?m = (\<Union>x \<in> set (ra_by_addr s) - {p}. region_bytes s x)"
    proof -
      have "region_bytes ?m x = region_bytes s x" if "x \<in> set (ra_by_addr ?m)" for x
        using that k_notin sz addr unfolding region_bytes_def by metis
      then show ?thesis unfolding free_space_def using sa by simp
    qed
    then show ?thesis using p by (auto simp: free_space_def)
  qed
  moreover have "region_bytes ?m k = region_bytes s p \<union> region_bytes s d"
    using adj szk addr by (auto simp: region_bytes_def)
  ultimately show "free_space ?m \<union> region_bytes ?m k = free_space s \<union> region_bytes s d" by blast
qed

text \<open>What \<open>add_free_region\<close> promises: the bytes of \<open>d\<close> become free, and every
  descriptor it merges away becomes unused.\<close>

definition pages :: "region_state \<Rightarrow> nat set \<Rightarrow> bool" where
  "pages s D \<longleftrightarrow> (\<forall>d \<in> D. 4096 dvd ra_addr s d \<and> 4096 dvd ra_size s d)"

definition put_back :: "region_state \<Rightarrow> nat \<Rightarrow> region_state \<Rightarrow> bool" where
  "put_back s d s' \<longleftrightarrow> free_lists s' \<and> free_space s' = free_space s \<union> region_bytes s d
     \<and> distinct (ra_unused s' @ ra_by_addr s') \<and> n_unused s' = length (ra_unused s')
     \<and> set (ra_unused s') \<union> set (ra_by_addr s') = insert d (set (ra_unused s) \<union> set (ra_by_addr s))
     \<and> ra_addr s' = ra_addr s \<and> ra_used s' = ra_used s \<and> ra_type s' = ra_type s
     \<and> n_unused s \<le> n_unused s'
     \<and> (pages s (insert d (set (ra_by_addr s))) \<longrightarrow> pages s' (set (ra_by_addr s')))
     \<and> (\<forall>x. x \<noteq> d \<and> x \<notin> set (ra_by_addr s) \<longrightarrow> ra_size s' x = ra_size s x)"

lemma loose_insert:
  assumes l: "loose s d" and none: "find_adjacent s d (ra_by_addr s) = None"
  shows "\<exists>s'. insert_free_region d s = Inr s' \<and> put_back s d s'"
proof -
  note f = l [unfolded loose_def]
  have "\<forall>x \<in> set (ra_by_addr s). ra_addr s x + ra_size s x < ra_addr s d \<or> ra_addr s d + ra_size s d < ra_addr s x"
    by (rule find_adjacent_None) (use f none in \<open>auto simp: free_lists_def\<close>)
  then obtain s' where s': "insert_free_region d s = Inr s'" "same_regions s s'" "free_lists s'"
    "set (ra_by_addr s') = insert d (set (ra_by_addr s))"
    using insert_free_region_spec [of s d] f by auto
  have "free_space s' = free_space s \<union> region_bytes s d"
    using s'(2,4) by (auto simp: free_space_def region_bytes_def same_regions_def)
  moreover have "distinct (ra_unused s' @ ra_by_addr s')"
    using s'(2-4) f by (auto simp: same_regions_def free_lists_def)
  ultimately show ?thesis
    using s' f by (intro exI [of _ s']) (auto simp: put_back_def same_regions_def pages_def)
qed

lemma put_back_merge:
  assumes l: "loose s d" and p: "p \<in> set (ra_by_addr s)"
    and adj: "k = p \<and> gone = d \<and> ra_addr s p + ra_size s p = ra_addr s d
      \<or> k = d \<and> gone = p \<and> ra_addr s d + ra_size s d = ra_addr s p"
    and b: "put_back (merged s p k gone) k s'"
  shows "put_back s d s' \<and> n_unused s < n_unused s'"
proof -
  note m = merge_step [OF l p adj]
  have kg: "insert k (insert gone (set (ra_by_addr s) - {p})) = insert d (set (ra_by_addr s))"
    using adj p by auto
  have "pages (merged s p k gone) (insert k (set (ra_by_addr s) - {p}))"
    if "pages s (insert d (set (ra_by_addr s)))"
    using that adj p m(9,10) unfolding pages_def m(3) by (metis DiffD1 dvd_add insert_iff)
  then show ?thesis
    using b unfolding put_back_def m(3-8) m(2) using kg m(9) adj p by auto
qed

lemma add_free_region_spec:
  "loose s d \<Longrightarrow> \<exists>s'. add_free_region d s = Inr s' \<and> put_back s d s'
     \<and> (find_adjacent s d (ra_by_addr s) \<noteq> None \<longrightarrow> n_unused s < n_unused s')"
proof (induction "length (ra_by_addr s)" arbitrary: s d rule: less_induct)
  case less
  note f = less.prems [unfolded loose_def]
  show ?case
  proof (cases "find_adjacent s d (ra_by_addr s)")
    case None
    then show ?thesis
      using loose_insert [OF less.prems None] by (simp add: add_free_region.simps [of d s])
  next
    case (Some nb)
    obtain p k gone where st: "add_free_region d s = add_free_region k (merged s p k gone)"
      and p: "p \<in> set (ra_by_addr s)"
      and adj: "k = p \<and> gone = d \<and> ra_addr s p + ra_size s p = ra_addr s d
        \<or> k = d \<and> gone = p \<and> ra_addr s d + ra_size s d = ra_addr s p"
    proof (cases nb)
      case (Prev_free p)
      note fa = Some [unfolded Prev_free]
      have p: "p \<in> set (ra_by_addr s)" by (rule find_adjacent_in(1) [OF fa])
      have same: "ra_size (remove_free_region p s) = ra_size s"
        using remove_free_region_spec(2) [OF conjunct1 [OF f] p] by (simp add: same_regions_def)
      have "add_free_region d s = add_free_region p (merged s p p d)"
        using fa same by (simp add: add_free_region.simps [of d s] merged_def Let_def)
      moreover have "ra_addr s p + ra_size s p = ra_addr s d"
        using find_adjacent_end(1) [OF fa] f p by (auto simp: add32_def free_lists_def)
      ultimately show ?thesis using that p by blast
    next
      case (Next_free p)
      note fa = Some [unfolded Next_free]
      have p: "p \<in> set (ra_by_addr s)" by (rule find_adjacent_in(2) [OF fa])
      have same: "ra_size (remove_free_region p s) = ra_size s"
        using remove_free_region_spec(2) [OF conjunct1 [OF f] p] by (simp add: same_regions_def)
      have "add_free_region d s = add_free_region d (merged s p d p)"
        using fa same by (simp add: add_free_region.simps [of d s] merged_def Let_def)
      moreover have "ra_addr s d + ra_size s d = ra_addr s p"
        using find_adjacent_end(2) [OF fa] f by (auto simp: add32_def)
      ultimately show ?thesis using that p by blast
    qed
    note m = merge_step [OF less.prems p adj]
    have "length (ra_by_addr (merged s p k gone)) < length (ra_by_addr s)"
      using p by (simp add: merged_def add_unused_region_descriptor_def by_addr_removed length_remove1_less)
    from less.hyps [OF this m(1)] obtain s' where
      s': "add_free_region k (merged s p k gone) = Inr s'" "put_back (merged s p k gone) k s'" by blast
    with put_back_merge [OF less.prems p adj s'(2)] st show ?thesis by auto
  qed
qed

end
