(* ===== verification/Region_Correct.thy ===== *)
theory Region_Correct
  imports Region_Inv
begin

text \<open>
  The region allocator against its specification: a set of used regions, pairwise disjoint inside the
  range; allocating adds one of the size asked for (rounded up to pages), freeing takes out the one that
  contains the address. The whole invariant is \<open>ra_inv\<close>.
\<close>

section \<open>The invariant\<close>

definition used_space :: "region_state \<Rightarrow> nat set" where
  "used_space s = (\<Union>d \<in> set (ra_used s). region_bytes s d)"

text \<open>The specification's view: address, size and type of each used region.\<close>

definition used_tab :: "region_state \<Rightarrow> (nat \<times> nat \<times> string) set" where
  "used_tab s = (\<lambda>d. (ra_addr s d, ra_size s d, ra_type s d)) ` set (ra_used s)"

definition descriptors :: "region_state \<Rightarrow> nat set" where
  "descriptors s = set (ra_unused s) \<union> set (ra_by_addr s) \<union> set (ra_used s)"

definition ra_inv :: "nat \<Rightarrow> nat \<Rightarrow> region_state \<Rightarrow> bool" where
  "ra_inv b e s \<longleftrightarrow> free_lists s
     \<and> distinct (ra_unused s @ ra_by_addr s @ ra_used s) \<and> n_unused s = length (ra_unused s)
     \<and> sorted_wrt (\<lambda>x y. ra_addr s x + ra_size s x \<le> ra_addr s y) (ra_used s)
     \<and> (\<forall>u \<in> set (ra_used s). 0 < ra_size s u)
     \<and> pages s (set (ra_by_addr s)) \<and> pages s (set (ra_used s))
     \<and> free_space s \<union> used_space s = {b ..< e} \<and> free_space s \<inter> used_space s = {} \<and> 4096 \<le> b \<and> e < 2 ^ 32
     \<and> (\<forall>d \<in> descriptors s. d < N_BASE_DESCRIPTORS \<or> d \<in> used_space s)"

lemma aligned_free:
  assumes "ra_inv b e s" "d \<in> set (ra_by_addr s)"
  shows "4096 dvd ra_addr s d" "4096 dvd ra_size s d" "0 < ra_size s d" "b \<le> ra_addr s d"
    "ra_addr s d + ra_size s d \<le> e" "e < 2 ^ 32" "4096 \<le> b"
proof -
  note i = assms(1) [unfolded ra_inv_def]
  show al: "4096 dvd ra_addr s d" "4096 dvd ra_size s d" "e < 2 ^ 32" "4096 \<le> b" using i assms(2) by (simp_all add: pages_def)
  show pos: "0 < ra_size s d" using i assms(2) by (simp add: free_lists_def)
  have "region_bytes s d \<subseteq> {b ..< e}" using i assms(2) by (auto simp: free_space_def)
  moreover have "ra_addr s d \<in> region_bytes s d" "ra_addr s d + ra_size s d - 1 \<in> region_bytes s d"
    using pos by (auto simp: region_bytes_def)
  ultimately have "ra_addr s d \<in> {b ..< e}" "ra_addr s d + ra_size s d - 1 \<in> {b ..< e}" by blast+
  then show "b \<le> ra_addr s d" "ra_addr s d + ra_size s d \<le> e" by auto
qed

lemma bounds_used:
  assumes "ra_inv b e s" "d \<in> set (ra_used s)"
  shows "4096 dvd ra_addr s d" "4096 dvd ra_size s d" "0 < ra_size s d" "b \<le> ra_addr s d"
    "ra_addr s d + ra_size s d \<le> e" "e < 2 ^ 32" "4096 \<le> b"
proof -
  note i = assms(1) [unfolded ra_inv_def]
  show al: "4096 dvd ra_addr s d" "4096 dvd ra_size s d" "e < 2 ^ 32" "4096 \<le> b" using i assms(2) by (simp_all add: pages_def)
  show pos: "0 < ra_size s d" using i assms(2) by blast
  have "region_bytes s d \<subseteq> {b ..< e}" using i assms(2) by (auto simp: used_space_def)
  moreover have "ra_addr s d \<in> region_bytes s d" "ra_addr s d + ra_size s d - 1 \<in> region_bytes s d"
    using pos by (auto simp: region_bytes_def)
  ultimately have "ra_addr s d \<in> {b ..< e}" "ra_addr s d + ra_size s d - 1 \<in> {b ..< e}" by blast+
  then show "b \<le> ra_addr s d" "ra_addr s d + ra_size s d \<le> e" by auto
qed

lemma apartI:
  assumes "region_bytes s x \<inter> region_bytes s y = {}" and "0 < ra_size s x" and "0 < ra_size s y"
  shows "apart s x y"
proof (rule ccontr)
  assume "\<not> apart s x y"
  then have "max (ra_addr s x) (ra_addr s y) \<in> region_bytes s x \<inter> region_bytes s y"
    using assms(2,3) by (auto simp: apart_def region_bytes_def)
  with assms(1) show False by blast
qed

section \<open>The list of used regions\<close>

lemma find_used_in_spec:
  assumes "sorted_wrt (\<lambda>x y. ra_addr s x + ra_size s x \<le> ra_addr s y) us"
    and "\<forall>u \<in> set us. ra_addr s u + ra_size s u < 2 ^ 32 \<and> 0 < ra_size s u"
  shows "case find_used_in s a us of
      Some d \<Rightarrow> d \<in> set us \<and> a \<in> region_bytes s d
    | None \<Rightarrow> \<forall>d \<in> set us. a \<notin> region_bytes s d"
  using assms
proof (induction us)
  case (Cons i us)
  have w: "add32 (ra_addr s i) (ra_size s i) = ra_addr s i + ra_size s i"
    using Cons.prems(2) by (simp add: add32_def)
  show ?case
  proof (cases "a \<in> region_bytes s i")
    case True
    then show ?thesis using w by (simp add: region_bytes_def)
  next
    case False
    show ?thesis
    proof (cases "ra_addr s i > a")
      case True
      then have "\<forall>d \<in> set us. a \<notin> region_bytes s d"
        using Cons.prems(1) by (fastforce simp: region_bytes_def)
      with True False w show ?thesis by (simp add: region_bytes_def)
    next
      case ge: False
      have "find_used_in s a (i # us) = find_used_in s a us"
        using False ge w by (auto simp: region_bytes_def)
      with Cons False show ?thesis by (auto split: option.split)
    qed
  qed
qed simp

lemma insert_used_spec:
  "us \<noteq> [] \<Longrightarrow> f (hd us) < f d \<Longrightarrow> \<forall>x \<in> set us. f x \<noteq> f d \<Longrightarrow>
     insert_used f d us = Inr (insert_at (\<lambda>x. f x < f d) d us)"
proof (induction f d us rule: insert_used.induct)
  case (2 f d i us)
  show ?case
  proof (cases us)
    case (Cons j js)
    then show ?thesis using 2 by (auto simp: insert_at_simps)
  qed (use 2 in \<open>simp add: insert_at_simps\<close>)
qed simp

lemma used_strict:
  "sorted_wrt (\<lambda>x y. f x + g x \<le> f y) us \<Longrightarrow> \<forall>u \<in> set us. 0 < g u \<Longrightarrow> sorted_wrt (\<lambda>x y. f x < (f y :: nat)) us"
  by (induction us) fastforce+

lemma add_used_region_spec:
  assumes srt: "sorted_wrt (\<lambda>x y. ra_addr s x + ra_size s x \<le> ra_addr s y) (ra_used s)"
    and pos: "\<forall>u \<in> set (ra_used s). 0 < ra_size s u \<and> apart s u d" and "0 < ra_size s d"
  shows "\<exists>us. add_used_region d s = Inr (s\<lparr>ra_used := us\<rparr>) \<and> set us = insert d (set (ra_used s))
    \<and> sorted_wrt (\<lambda>x y. ra_addr s x + ra_size s x \<le> ra_addr s y) us
    \<and> (distinct (ra_used s) \<longrightarrow> d \<notin> set (ra_used s) \<longrightarrow> distinct us)"
proof -
  let ?Q = "\<lambda>x. ra_addr s x < ra_addr s d"
  have ne: "\<forall>x \<in> set (ra_used s). ra_addr s x \<noteq> ra_addr s d"
    using pos assms(3) by (fastforce simp: apart_def)
  have "add_used_region d s = Inr (s\<lparr>ra_used := insert_at ?Q d (ra_used s)\<rparr>)"
  proof (cases "ra_used s")
    case Nil
    then show ?thesis by (simp add: add_used_region_def insert_at_simps)
  next
    case (Cons u us)
    show ?thesis
    proof (cases "ra_addr s d < ra_addr s u")
      case True
      then show ?thesis using Cons by (simp add: add_used_region_def insert_at_simps)
    next
      case False
      then have "ra_addr s (hd (ra_used s)) < ra_addr s d" using Cons ne by auto
      from insert_used_spec [OF _ this ne] Cons False show ?thesis
        by (simp add: add_used_region_def)
    qed
  qed
  moreover have "sorted_wrt (\<lambda>x y. ra_addr s x + ra_size s x \<le> ra_addr s y) (insert_at ?Q d (ra_used s))"
  proof (rule sorted_insert_at [OF srt])
    have "sorted_wrt (\<lambda>x y. ra_addr s x < ra_addr s y) (ra_used s)"
      by (rule used_strict [OF srt]) (use pos in blast)
    then show "sorted_wrt (\<lambda>x y. ?Q y \<longrightarrow> ?Q x) (ra_used s)"
      by (rule sorted_wrt_mono_rel [rotated]) auto
    show "\<forall>x \<in> set (ra_used s). ?Q x \<longrightarrow> ra_addr s x + ra_size s x \<le> ra_addr s d"
      using pos assms(3) by (fastforce simp: apart_def)
    show "\<forall>x \<in> set (ra_used s). \<not> ?Q x \<longrightarrow> ra_addr s d + ra_size s d \<le> ra_addr s x"
      using pos by (fastforce simp: apart_def)
  qed
  ultimately show ?thesis using distinct_insert_at by (intro exI [of _ "insert_at ?Q d (ra_used s)"]) auto
qed

lemma remove_used_loop_spec:
  "sorted_wrt (\<lambda>x y. f x < (f y :: nat)) (i # us) \<Longrightarrow> d \<in> set us \<Longrightarrow>
     remove_used_loop f d (i # us) = remove1 d (i # us)"
proof (induction us arbitrary: i)
  case (Cons j js)
  have lt: "\<not> f i > f d" "i \<noteq> d" using Cons.prems by auto
  show ?case
  proof (cases "j = d")
    case False
    then have "remove_used_loop f d (j # js) = remove1 d (j # js)"
      using Cons.IH [of j] Cons.prems by simp
    moreover have "remove_used_loop f d (i # j # js) = i # remove_used_loop f d (j # js)"
      using lt False by (subst remove_used_loop.simps) (simp del: remove_used_loop.simps)
    ultimately show ?thesis using lt by (simp del: remove_used_loop.simps)
  qed (use lt in simp)
qed simp

lemma remove_used_region_spec:
  assumes "sorted_wrt (\<lambda>x y. ra_addr s x < ra_addr s y) (ra_used s)" and "d \<in> set (ra_used s)"
  shows "remove_used_region d s = s\<lparr>ra_used := remove1 d (ra_used s)\<rparr>"
proof (cases "ra_used s")
  case (Cons u us)
  show ?thesis
  proof (cases "u = d")
    case False
    then have "d \<in> set us" using assms(2) Cons by simp
    then have "remove_used_loop (ra_addr s) d (u # us) = remove1 d (u # us)"
      using assms(1) Cons by (intro remove_used_loop_spec) simp_all
    with Cons False show ?thesis by (simp add: remove_used_region_def del: remove_used_loop.simps)
  qed (use Cons in \<open>simp add: remove_used_region_def\<close>)
qed (use assms in simp)

lemma bigger_ok_drop: "bigger_ok szf bg xs \<Longrightarrow> bigger_ok szf bg (drop n xs)"
proof (induction xs arbitrary: n)
  case (Cons x xs)
  then show ?case by (cases n) auto
qed simp

section \<open>The search along \<open>first_bigger\<close>\<close>

lemma find_skip: "\<forall>x \<in> set xs. \<not> P x \<Longrightarrow> find P (xs @ ys) = find P ys"
  by (induction xs) auto

lemma find_fit_spec:
  assumes "bigger_ok (ra_size s) (ra_bigger s) xs" and "length xs \<le> fuel"
  shows "find_fit s want fuel (case xs of [] \<Rightarrow> None | i # _ \<Rightarrow> Some i)
    = Some (find (\<lambda>i. ra_size s i \<ge> want) xs)"
  using assms
proof (induction "length xs" arbitrary: xs fuel rule: less_induct)
  case less
  show ?case
  proof (cases xs)
    case (Cons d ys)
    then obtain fuel' where fuel: "fuel = Suc fuel'" using less.prems(2) by (cases fuel) auto
    show ?thesis
    proof (cases "ra_size s d \<ge> want")
      case True
      then show ?thesis by (simp add: Cons fuel)
    next
      case False
      have bg: "ra_bigger s d = find (\<lambda>y. ra_size s d < ra_size s y) ys" using less.prems(1) Cons by simp
      show ?thesis
      proof (cases "find (\<lambda>y. ra_size s d < ra_size s y) ys")
        case None
        then have "\<forall>y \<in> set ys. \<not> ra_size s y \<ge> want" using False by (auto simp: find_None_iff)
        then have "find (\<lambda>i. ra_size s i \<ge> want) ys = None" by (auto simp: find_None_iff)
        with None False bg show ?thesis by (simp add: Cons fuel)
      next
        case (Some y)
        then obtain i where i: "i < length ys" "y = ys ! i" "\<forall>j < i. \<not> ra_size s d < ra_size s (ys ! j)"
          by (auto simp: find_Some_iff)
        define zs where "zs = drop i ys"
        have ys: "ys = take i ys @ zs" and zs: "zs = y # drop (Suc i) ys"
          using i by (simp_all add: zs_def Cons_nth_drop_Suc)
        have "\<forall>x \<in> set (take i ys). \<not> ra_size s x \<ge> want"
        proof
          fix x assume "x \<in> set (take i ys)"
          then obtain j where "j < i" "x = ys ! j" by (auto simp: in_set_conv_nth)
          with i(3) have "ra_size s x \<le> ra_size s d" by (simp add: not_less)
          with False show "\<not> ra_size s x \<ge> want" by linarith
        qed
        then have f: "find (\<lambda>i. ra_size s i \<ge> want) ys = find (\<lambda>i. ra_size s i \<ge> want) zs"
          using find_skip [of "take i ys" "\<lambda>i. ra_size s i \<ge> want" zs] ys by simp
        have "bigger_ok (ra_size s) (ra_bigger s) ys" using less.prems(1) Cons by simp
        then have "bigger_ok (ra_size s) (ra_bigger s) zs"
          unfolding zs_def by (rule bigger_ok_drop)
        moreover have "length zs < length xs" "length zs \<le> fuel'"
          using less.prems(2) Cons fuel by (simp_all add: zs_def)
        ultimately have "find_fit s want fuel' (Some y) = Some (find (\<lambda>i. ra_size s i \<ge> want) zs)"
          using less.hyps [of zs fuel'] zs by simp
        with f False bg Some show ?thesis by (simp add: Cons fuel)
      qed
    qed
  qed simp
qed

section \<open>Freeing\<close>

lemma used_disjoint:
  assumes "ra_inv b e s" "x \<in> set (ra_used s)" "y \<in> set (ra_used s)" "x \<noteq> y"
  shows "region_bytes s x \<inter> region_bytes s y = {}"
proof -
  have srt: "sorted_wrt (\<lambda>x y. ra_addr s x + ra_size s x \<le> ra_addr s y) (ra_used s)"
    using assms(1) by (simp add: ra_inv_def)
  obtain i j where ij: "i < length (ra_used s)" "ra_used s ! i = x" "j < length (ra_used s)" "ra_used s ! j = y"
    using assms(2,3) by (metis in_set_conv_nth)
  consider "i < j" | "j < i" using ij assms(4) by (metis linorder_neqE_nat)
  then show ?thesis
  proof cases
    case 1
    then have "ra_addr s x + ra_size s x \<le> ra_addr s y"
      using srt ij unfolding sorted_wrt_iff_nth_less by blast
    then show ?thesis by (auto simp: region_bytes_def)
  next
    case 2
    then have "ra_addr s y + ra_size s y \<le> ra_addr s x"
      using srt ij unfolding sorted_wrt_iff_nth_less by metis
    then show ?thesis by (auto simp: region_bytes_def)
  qed
qed

lemma find_used_region_spec:
  assumes "ra_inv b e s"
  shows "case find_used_region a s of
      Some d \<Rightarrow> d \<in> set (ra_used s) \<and> a \<in> region_bytes s d
    | None \<Rightarrow> \<forall>d \<in> set (ra_used s). a \<notin> region_bytes s d"
  unfolding find_used_region_def
proof (rule find_used_in_spec)
  show "sorted_wrt (\<lambda>x y. ra_addr s x + ra_size s x \<le> ra_addr s y) (ra_used s)"
    using assms by (simp add: ra_inv_def)
  show "\<forall>u \<in> set (ra_used s). ra_addr s u + ra_size s u < 2 ^ 32 \<and> 0 < ra_size s u"
    using bounds_used [OF assms] by fastforce
qed

lemma release_used:
  assumes inv: "ra_inv b e s" and d: "d \<in> set (ra_used s)"
    and clean: "descriptors s \<inter> region_bytes s d = {}"
  shows "\<exists>s'. add_free_region d (remove_used_region d s) = Inr s' \<and> ra_inv b e s'
    \<and> used_tab s' = used_tab s - {(ra_addr s d, ra_size s d, ra_type s d)}
    \<and> n_unused s \<le> n_unused s' \<and> descriptors s' = descriptors s
    \<and> (find_adjacent s d (ra_by_addr s) \<noteq> None \<longrightarrow> n_unused s < n_unused s')"
proof -
  note i = inv [unfolded ra_inv_def]
  have strict: "sorted_wrt (\<lambda>x y. ra_addr s x < ra_addr s y) (ra_used s)"
    by (rule used_strict [of "ra_addr s" "ra_size s"]) (use i in blast)+
  define s1 where "s1 = s\<lparr>ra_used := remove1 d (ra_used s)\<rparr>"
  have rm: "remove_used_region d s = s1"
    unfolding s1_def by (rule remove_used_region_spec [OF strict d])
  have su: "set (ra_used s1) = set (ra_used s) - {d}" using i by (simp add: s1_def)
  have rb: "region_bytes s1 x = region_bytes s x" for x by (simp add: region_bytes_def s1_def)
  have fs: "free_space s1 = free_space s" by (simp add: free_space_def rb) (simp add: s1_def)
  have fl: "free_lists s1" by (rule free_lists_cong [of s]) (use i in \<open>simp_all add: s1_def\<close>)
  have ap: "apart s1 x d" if "x \<in> set (ra_by_addr s)" for x
  proof (rule apartI)
    show "region_bytes s1 x \<inter> region_bytes s1 d = {}"
      using i that d unfolding rb free_space_def used_space_def by blast
    show "0 < ra_size s1 x" "0 < ra_size s1 d"
      using aligned_free(3) [OF inv that] bounds_used(3) [OF inv d] by (simp_all add: s1_def)
  qed
  have lo: "loose s1 d"
    unfolding loose_def using fl i d ap bounds_used [OF inv d] by (auto simp: s1_def)
  have fa: "find_adjacent s1 d xs = find_adjacent s d xs" for xs
    by (induction xs) (simp_all add: s1_def)
  obtain s' where s': "add_free_region d s1 = Inr s'" "put_back s1 d s'"
    "find_adjacent s1 d (ra_by_addr s1) \<noteq> None \<longrightarrow> n_unused s1 < n_unused s'"
    using add_free_region_spec [OF lo] by blast
  note p = s'(2) [unfolded put_back_def]
  have used': "ra_used s' = remove1 d (ra_used s)" using p by (simp add: s1_def)
  have sz: "ra_size s' x = ra_size s x" if "x \<in> set (ra_used s1)" for x
    using p that su i by (auto simp: s1_def)
  have addr: "ra_addr s' = ra_addr s" "ra_type s' = ra_type s" using p by (simp_all add: s1_def)
  have rb': "region_bytes s' x = region_bytes s x" if "x \<in> set (ra_used s1)" for x
    using sz [OF that] addr by (simp add: region_bytes_def)
  have us: "used_space s' = used_space s - region_bytes s d"
  proof -
    have "used_space s' = (\<Union>x \<in> set (ra_used s) - {d}. region_bytes s x)"
      unfolding used_space_def used' using rb' su by (simp add: s1_def)
    then show ?thesis using used_disjoint [OF inv _ d] d by (fastforce simp: used_space_def)
  qed
  have fs': "free_space s' = free_space s \<union> region_bytes s d" using p by (simp add: fs rb)
  have sub: "region_bytes s d \<subseteq> used_space s" using d by (auto simp: used_space_def)
  have desc: "descriptors s' = descriptors s"
    using p su d unfolding descriptors_def used' by (auto simp: s1_def)
  have "ra_inv b e s'"
    unfolding ra_inv_def
  proof (intro conjI)
    show "free_lists s'" "n_unused s' = length (ra_unused s')" using p by simp_all
    show "distinct (ra_unused s' @ ra_by_addr s' @ ra_used s')"
    proof -
      have "distinct (ra_unused s' @ ra_by_addr s')" using p by simp
      moreover have "distinct (ra_used s')" unfolding used' using i by simp
      moreover have "set (ra_used s') = set (ra_used s) - {d}" using su used' by (simp add: s1_def)
      moreover have "set (ra_unused s') \<union> set (ra_by_addr s') = insert d (set (ra_unused s) \<union> set (ra_by_addr s))"
        using p by (simp add: s1_def)
      moreover have "(set (ra_unused s) \<union> set (ra_by_addr s)) \<inter> set (ra_used s) = {}" using i by auto
      ultimately show ?thesis unfolding append_assoc [symmetric] distinct_append set_append by blast
    qed
    show "sorted_wrt (\<lambda>x y. ra_addr s' x + ra_size s' x \<le> ra_addr s' y) (ra_used s')"
    proof (rule sorted_wrt_cong_set)
      show "sorted_wrt (\<lambda>x y. ra_addr s x + ra_size s x \<le> ra_addr s y) (ra_used s')"
        unfolding used' by (rule sorted_wrt_remove1) (use i in simp)
    qed (use sz addr used' in \<open>simp add: s1_def\<close>)
    show "\<forall>u \<in> set (ra_used s'). 0 < ra_size s' u"
      using i sz su used' by (simp add: s1_def)
    show "pages s' (set (ra_by_addr s'))"
    proof -
      have "pages s1 (insert d (set (ra_by_addr s1)))"
        using i d unfolding pages_def by (simp add: s1_def)
      then show ?thesis using p by blast
    qed
    show "pages s' (set (ra_used s'))" using i sz su addr used' unfolding pages_def by (simp add: s1_def)
    show "free_space s' \<union> used_space s' = {b ..< e}" "free_space s' \<inter> used_space s' = {}"
      unfolding fs' us using i sub by blast+
    show "4096 \<le> b" "e < 2 ^ 32" using i by simp_all
    show "\<forall>d \<in> descriptors s'. d < N_BASE_DESCRIPTORS \<or> d \<in> used_space s'"
      using i clean unfolding us desc by blast
  qed
  moreover have "used_tab s' = used_tab s - {(ra_addr s d, ra_size s d, ra_type s d)}"
  proof -
    have "ra_addr s x \<noteq> ra_addr s d" if "x \<in> set (ra_used s)" "x \<noteq> d" for x
      using used_disjoint [OF inv that(1) d that(2)] bounds_used(3) [OF inv that(1)] bounds_used(3) [OF inv d]
      by (auto simp: region_bytes_def)
    moreover have "used_tab s' = (\<lambda>x. (ra_addr s x, ra_size s x, ra_type s x)) ` (set (ra_used s) - {d})"
    proof -
      have "set (ra_used s') = set (ra_used s) - {d}" using su used' by (simp add: s1_def)
      then show ?thesis
        unfolding used_tab_def addr using sz su by (metis (no_types, lifting) image_cong)
    qed
    ultimately show ?thesis unfolding used_tab_def by auto
  qed
  ultimately show ?thesis
    using s' p desc unfolding rm fa by (intro exI [of _ s']) (auto simp: s1_def)
qed

section \<open>Allocating\<close>

lemma page_up_bounds:
  assumes "0 < sz" and "sz \<le> 0xFFFFF000"
  shows "sz \<le> page_up sz" "4096 dvd page_up sz" "0 < page_up sz" "page_up sz < 2 ^ 32"
    "page_up sz < sz + 4096"
proof -
  have r: "page_up sz = (sz + 4095) div 4096 * 4096 mod 4294967296"
    using assms unfolding page_up_def unat_PAGE_ALIGN_UP by (simp add: unat_of_nat)
  have m: "sz \<le> (sz + 4095) div 4096 * 4096" using round_up [of 4096 sz] by (auto simp: mod_less_divisor less_imp_le)
  have "(sz + 4095) div 4096 \<le> (0xFFFFF000 + 4095) div 4096" using assms(2) by (intro div_le_mono) simp
  then have "(sz + 4095) div 4096 * 4096 < 4294967296" by simp
  then have e: "page_up sz = (sz + 4095) div 4096 * 4096" unfolding r by simp
  show "sz \<le> page_up sz" "4096 dvd page_up sz" unfolding e using m by simp_all
  then show "0 < page_up sz" using assms(1) by simp
  show "page_up sz < 2 ^ 32" unfolding r by simp
  show "page_up sz < sz + 4096" unfolding e using div_times_less_eq_dividend [of "sz + 4095" 4096] by linarith
qed

text \<open>A state in which the block \<open>{r ..< r + want}\<close> has left the free lists for the
  descriptor \<open>i\<close>, which is in no list.\<close>

definition carved :: "nat \<Rightarrow> nat \<Rightarrow> region_state \<Rightarrow> nat \<Rightarrow> nat \<Rightarrow> nat \<Rightarrow> bool" where
  "carved b e t i r want \<longleftrightarrow> free_lists t
     \<and> distinct (i # ra_unused t @ ra_by_addr t @ ra_used t) \<and> n_unused t = length (ra_unused t)
     \<and> sorted_wrt (\<lambda>x y. ra_addr t x + ra_size t x \<le> ra_addr t y) (ra_used t)
     \<and> (\<forall>u \<in> set (ra_used t). 0 < ra_size t u)
     \<and> pages t (set (ra_by_addr t)) \<and> pages t (set (ra_used t))
     \<and> free_space t \<union> used_space t \<union> {r ..< r + want} = {b ..< e} \<and> free_space t \<inter> used_space t = {}
     \<and> (free_space t \<union> used_space t) \<inter> {r ..< r + want} = {}
     \<and> ra_addr t i = r \<and> 0 < want \<and> 4096 dvd r \<and> 4096 dvd want \<and> 4096 \<le> b \<and> e < 2 ^ 32
     \<and> (\<forall>d \<in> insert i (descriptors t). d < N_BASE_DESCRIPTORS \<or> d \<in> used_space t)"

lemma finish_alloc:
  assumes c: "carved b e t i r want"
  shows "\<exists>s'. add_used_region i (t\<lparr>ra_size := (ra_size t)(i := want), ra_type := (ra_type t)(i := ty)\<rparr>) = Inr s'
    \<and> ra_inv b e s' \<and> used_tab s' = insert (r, want, ty) (used_tab t)
    \<and> set (ra_used s') = insert i (set (ra_used t)) \<and> ra_addr s' i = r \<and> ra_size s' i = want \<and> ra_type s' i = ty
    \<and> n_unused s' = n_unused t \<and> ra_by_addr s' = ra_by_addr t \<and> descriptors s' = insert i (descriptors t)
    \<and> free_space s' = free_space t"
proof -
  note k = c [unfolded carved_def]
  define t1 where "t1 = t\<lparr>ra_size := (ra_size t)(i := want), ra_type := (ra_type t)(i := ty)\<rparr>"
  have f: "ra_addr t1 = ra_addr t" "ra_used t1 = ra_used t" "ra_by_addr t1 = ra_by_addr t"
    "ra_by_size t1 = ra_by_size t" "ra_bigger t1 = ra_bigger t" "ra_unused t1 = ra_unused t"
    "n_unused t1 = n_unused t" "ra_size t1 i = want" "ra_type t1 i = ty" by (simp_all add: t1_def)
  have notin: "i \<notin> set (ra_used t)" "i \<notin> set (ra_by_addr t)" using k by auto
  have keep: "ra_size t1 x = ra_size t x \<and> ra_type t1 x = ra_type t x"
    if "x \<in> set (ra_used t) \<union> set (ra_by_addr t)" for x
    using that notin by (auto simp: t1_def)
  have rb: "region_bytes t1 x = region_bytes t x" if "x \<in> set (ra_used t) \<union> set (ra_by_addr t)" for x
    using keep [OF that] f by (simp add: region_bytes_def)
  have rbi: "region_bytes t1 i = {r ..< r + want}" using f k by (simp add: region_bytes_def)
  have fs: "free_space t1 = free_space t" using rb f by (simp add: free_space_def)
  have us: "used_space t1 = used_space t" using rb f by (simp add: used_space_def)
  have srt: "sorted_wrt (\<lambda>x y. ra_addr t1 x + ra_size t1 x \<le> ra_addr t1 y) (ra_used t1)"
    by (rule sorted_wrt_cong_set [of "\<lambda>x y. ra_addr t x + ra_size t x \<le> ra_addr t y"])
      (use k keep f in simp_all)
  have pos: "\<forall>u \<in> set (ra_used t1). 0 < ra_size t1 u \<and> apart t1 u i"
  proof
    fix u assume u: "u \<in> set (ra_used t1)"
    then have "0 < ra_size t1 u" using k keep f by auto
    moreover have "region_bytes t1 u \<inter> region_bytes t1 i = {}"
      using k u f rb unfolding rbi used_space_def by auto
    ultimately show "0 < ra_size t1 u \<and> apart t1 u i" using apartI k f by simp
  qed
  obtain us' where a: "add_used_region i t1 = Inr (t1\<lparr>ra_used := us'\<rparr>)" "set us' = insert i (set (ra_used t1))"
    "sorted_wrt (\<lambda>x y. ra_addr t1 x + ra_size t1 x \<le> ra_addr t1 y) us'" "distinct us'"
    using add_used_region_spec [OF srt pos] k f by auto
  define s' where "s' = t1\<lparr>ra_used := us'\<rparr>"
  have g: "ra_addr s' = ra_addr t" "ra_size s' = ra_size t1" "ra_by_addr s' = ra_by_addr t"
    "ra_by_size s' = ra_by_size t" "ra_bigger s' = ra_bigger t" "ra_unused s' = ra_unused t"
    "n_unused s' = n_unused t" "ra_used s' = us'" "ra_type s' = ra_type t1"
    using f by (simp_all add: s'_def)
  have rb': "region_bytes s' x = region_bytes t1 x" for x using g f by (simp add: region_bytes_def)
  have fs': "free_space s' = free_space t" unfolding free_space_def rb' g using rb by simp
  have us': "used_space s' = used_space t \<union> {r ..< r + want}"
    unfolding used_space_def rb' g a(2) using rbi rb f by auto
  have ds: "descriptors s' = insert i (descriptors t)" unfolding descriptors_def g a(2) f by auto
  have "ra_inv b e s'"
    unfolding ra_inv_def
  proof (intro conjI)
    show "free_lists s'" by (rule free_lists_cong [of t]) (use k g keep in simp_all)
    show "distinct (ra_unused s' @ ra_by_addr s' @ ra_used s')" using k g a(2,4) f by auto
    show "n_unused s' = length (ra_unused s')" using k g by simp
    show "sorted_wrt (\<lambda>x y. ra_addr s' x + ra_size s' x \<le> ra_addr s' y) (ra_used s')"
      using a(3) g f by simp
    show "\<forall>u \<in> set (ra_used s'). 0 < ra_size s' u" using pos k g f a(2) by auto
    show "pages s' (set (ra_by_addr s'))" using k g keep unfolding pages_def by simp
    show "pages s' (set (ra_used s'))" using k g keep f a(2) unfolding pages_def by simp
    show "free_space s' \<union> used_space s' = {b ..< e}" "free_space s' \<inter> used_space s' = {}"
      unfolding fs' us' using k by blast+
    show "4096 \<le> b" "e < 2 ^ 32" using k by simp_all
    show "\<forall>d \<in> descriptors s'. d < N_BASE_DESCRIPTORS \<or> d \<in> used_space s'"
      unfolding ds us' using k by blast
  qed
  moreover have "used_tab s' = insert (r, want, ty) (used_tab t)"
    unfolding used_tab_def g a(2) f image_insert using keep f(8,9) k by (auto intro!: image_cong arg_cong [of _ _ "insert _"])
  ultimately show ?thesis
    using a(1,2) g f k ds fs' unfolding t1_def [symmetric] s'_def [symmetric]
    by (intro exI [of _ s']) auto
qed

lemma free_space_remove:
  assumes fl: "free_lists s" and i: "i \<in> set (ra_by_addr s)"
    and t: "set (ra_by_addr t) = set (ra_by_addr s) - {i}"
      "\<forall>x \<in> set (ra_by_addr t). ra_addr t x = ra_addr s x \<and> ra_size t x = ra_size s x"
  shows "free_space t = free_space s - region_bytes s i" and "region_bytes s i \<subseteq> free_space s"
proof -
  have rb: "region_bytes t x = region_bytes s x" if "x \<in> set (ra_by_addr s) - {i}" for x
    using t that by (simp add: region_bytes_def)
  have dis: "region_bytes s x \<inter> region_bytes s i = {}" if "x \<in> set (ra_by_addr s) - {i}" for x
    using free_gap [OF fl _ i, of x] that by (auto simp: region_bytes_def)
  have "free_space t = (\<Union>x \<in> set (ra_by_addr s) - {i}. region_bytes s x)"
    unfolding free_space_def t(1) using rb by simp
  then show "free_space t = free_space s - region_bytes s i"
    using dis unfolding free_space_def by blast
  show "region_bytes s i \<subseteq> free_space s" using i by (auto simp: free_space_def)
qed

lemma used_same:
  assumes "ra_used t = ra_used s"
    and "\<forall>x \<in> set (ra_used s). ra_addr t x = ra_addr s x \<and> ra_size t x = ra_size s x \<and> ra_type t x = ra_type s x"
  shows "used_space t = used_space s" and "used_tab t = used_tab s"
    and "sorted_wrt (\<lambda>x y. ra_addr s x + ra_size s x \<le> ra_addr s y) (ra_used s) \<Longrightarrow>
      sorted_wrt (\<lambda>x y. ra_addr t x + ra_size t x \<le> ra_addr t y) (ra_used t)"
    and "pages s (set (ra_used s)) \<Longrightarrow> pages t (set (ra_used t))"
proof -
  show "used_space t = used_space s"
    using assms by (simp add: used_space_def region_bytes_def)
  show "used_tab t = used_tab s" using assms by (auto simp: used_tab_def)
  show "sorted_wrt (\<lambda>x y. ra_addr t x + ra_size t x \<le> ra_addr t y) (ra_used t)"
    if "sorted_wrt (\<lambda>x y. ra_addr s x + ra_size s x \<le> ra_addr s y) (ra_used s)"
    unfolding assms(1) by (rule sorted_wrt_cong_set [OF that]) (use assms(2) in simp)
  show "pages t (set (ra_used t))" if "pages s (set (ra_used s))"
    using that assms by (simp add: pages_def)
qed

lemma carve_exact:
  assumes inv: "ra_inv b e s" and i: "i \<in> set (ra_by_addr s)" and w: "ra_size s i = want"
  shows "carved b e (remove_free_region i s) i (ra_addr s i) want"
    and "used_tab (remove_free_region i s) = used_tab s"
    and "free_space (remove_free_region i s) = free_space s - {ra_addr s i ..< ra_addr s i + want}"
    and "n_unused (remove_free_region i s) = n_unused s"
    and "descriptors s = insert i (descriptors (remove_free_region i s))"
proof -
  let ?t = "remove_free_region i s"
  note k = inv [unfolded ra_inv_def]
  note r = remove_free_region_spec [OF conjunct1 [OF k] i]
  note f = r(2) [unfolded same_regions_def]
  have "\<forall>x \<in> set (ra_used s). ra_addr ?t x = ra_addr s x \<and> ra_size ?t x = ra_size s x \<and> ra_type ?t x = ra_type s x"
    using f by simp
  note u = used_same [OF _ this]
  have fs: "free_space ?t = free_space s - region_bytes s i" "region_bytes s i \<subseteq> free_space s"
    using free_space_remove [OF conjunct1 [OF k] i r(3)] f by simp_all
  have bytes: "region_bytes s i = {ra_addr s i ..< ra_addr s i + want}" using w by (simp add: region_bytes_def)
  show "used_tab ?t = used_tab s" using u f by simp
  show "free_space ?t = free_space s - {ra_addr s i ..< ra_addr s i + want}" using fs bytes by simp
  show "n_unused ?t = n_unused s" using f by simp
  show ds: "descriptors s = insert i (descriptors ?t)" using r(3) f i by (auto simp: descriptors_def)
  have us: "used_space ?t = used_space s" using u f by simp
  show "carved b e ?t i (ra_addr s i) want"
    unfolding carved_def us
  proof (intro conjI)
    show "free_lists ?t" by (rule r(1))
    show "distinct (i # ra_unused ?t @ ra_by_addr ?t @ ra_used ?t)"
    proof -
      have "distinct (ra_by_addr ?t)" using r(1) by (simp add: free_lists_def)
      moreover have "i \<notin> set (ra_unused s)" "i \<notin> set (ra_used s)"
        "set (ra_unused s) \<inter> (set (ra_by_addr s) \<union> set (ra_used s)) = {}"
        "set (ra_by_addr s) \<inter> set (ra_used s) = {}" "distinct (ra_unused s)" "distinct (ra_used s)"
        using k i by auto
      ultimately show ?thesis
        using f r(3) unfolding distinct.simps(2) distinct_append set_append by auto
    qed
    show "n_unused ?t = length (ra_unused ?t)" "\<forall>u \<in> set (ra_used ?t). 0 < ra_size ?t u"
      using k f by simp_all
    show "sorted_wrt (\<lambda>x y. ra_addr ?t x + ra_size ?t x \<le> ra_addr ?t y) (ra_used ?t)"
      "pages ?t (set (ra_used ?t))"
      using k f by (simp_all add: pages_def)
    show "pages ?t (set (ra_by_addr ?t))" using k f r(3) by (simp add: pages_def)
    show "free_space ?t \<union> used_space s \<union> {ra_addr s i ..< ra_addr s i + want} = {b ..< e}"
      "free_space ?t \<inter> used_space s = {}"
      "(free_space ?t \<union> used_space s) \<inter> {ra_addr s i ..< ra_addr s i + want} = {}"
      using k fs unfolding bytes by blast+
    show "ra_addr ?t i = ra_addr s i" using f by simp
    show "0 < want" "4096 dvd ra_addr s i" "4096 dvd want" using aligned_free [OF inv i] w by simp_all
    show "4096 \<le> b" "e < 2 ^ 32" using k by simp_all
    show "\<forall>d \<in> insert i (descriptors ?t). d < N_BASE_DESCRIPTORS \<or> d \<in> used_space s"
      unfolding ds [symmetric] using k by blast
  qed
qed

lemma remove_free_region_frame:
  "remove_free_region i (s\<lparr>ra_unused := us, n_unused := n, ra_addr := a, ra_size := z\<rparr>)
    = (remove_free_region i s)\<lparr>ra_unused := us, n_unused := n, ra_addr := a, ra_size := z\<rparr>"
  by (cases "ra_by_size s") (simp_all add: remove_free_region_def split_beta)

text \<open>Splitting: \<open>x\<close> takes the rest, at \<open>xa\<close>, and \<open>i\<close> is left with \<open>{r ..< r + want}\<close>.\<close>

lemma carve_split:
  assumes inv: "ra_inv b e s" and i: "i \<in> set (ra_by_addr s)" and w: "want < ra_size s i" "0 < want" "4096 dvd want"
    and x: "ra_unused s = x # us"
    and pos: "r = ra_addr s i \<and> xa = ra_addr s i + want
      \<or> r = ra_addr s i + (ra_size s i - want) \<and> xa = ra_addr s i"
    and t0: "t0 = (remove_free_region i s)\<lparr>ra_unused := us, n_unused := n_unused s - 1,
      ra_addr := (ra_addr s)(x := xa, i := r), ra_size := (ra_size s)(x := ra_size s i - want)\<rparr>"
  shows "\<exists>t. add_free_region x t0 = Inr t \<and> carved b e t i r want \<and> used_tab t = used_tab s
    \<and> free_space t = free_space s - {r ..< r + want} \<and> n_unused s - 1 \<le> n_unused t
    \<and> insert i (descriptors t) = descriptors s \<and> {r ..< r + want} \<subseteq> free_space s
    \<and> ra_addr t i = r"
proof -
  note k = inv [unfolded ra_inv_def]
  note rm = remove_free_region_spec [OF conjunct1 [OF k] i]
  note f = rm(2) [unfolded same_regions_def]
  have xi: "x \<noteq> i" "x \<notin> set (ra_by_addr s)" "x \<notin> set (ra_used s)" "i \<notin> set (ra_used s)" "i \<notin> set us" "x \<notin> set us"
    using k i x by auto
  have g: "ra_by_addr t0 = ra_by_addr (remove_free_region i s)" "ra_by_size t0 = ra_by_size (remove_free_region i s)"
    "ra_bigger t0 = ra_bigger (remove_free_region i s)" "ra_unused t0 = us" "n_unused t0 = n_unused s - 1"
    "ra_used t0 = ra_used s" "ra_type t0 = ra_type s" "ra_addr t0 x = xa" "ra_addr t0 i = r"
    "ra_size t0 x = ra_size s i - want" using f xi by (simp_all add: t0)
  have keep: "ra_addr t0 y = ra_addr s y" "ra_size t0 y = ra_size s y" if "y \<noteq> x" "y \<noteq> i" for y
    using that by (simp_all add: t0)
  have keepf: "\<forall>y \<in> set (ra_by_addr t0). ra_addr t0 y = ra_addr s y \<and> ra_size t0 y = ra_size s y"
  proof
    fix y assume "y \<in> set (ra_by_addr t0)"
    then have "y \<noteq> x" "y \<noteq> i" using g rm(3) xi by auto
    then show "ra_addr t0 y = ra_addr s y \<and> ra_size t0 y = ra_size s y" using keep by simp
  qed
  have sa: "set (ra_by_addr t0) = set (ra_by_addr s) - {i}" using g rm(3) by simp
  have fl: "free_lists t0"
    by (rule free_lists_cong [OF rm(1) g(1-3)]) (use keepf g f in simp)
  have fs: "free_space t0 = free_space s - region_bytes s i" "region_bytes s i \<subseteq> free_space s"
    by (rule free_space_remove [OF conjunct1 [OF k] i sa keepf])+
  note ai = aligned_free [OF inv i]
  have bytes: "region_bytes s i = region_bytes t0 x \<union> {r ..< r + want}" "region_bytes t0 x \<inter> {r ..< r + want} = {}"
    using pos w g by (auto simp: region_bytes_def)
  have lo: "loose t0 x"
    unfolding loose_def
  proof (intro conjI ballI)
    show "free_lists t0" by (rule fl)
    show "distinct (x # ra_unused t0 @ ra_by_addr t0)"
    proof -
      have "distinct (ra_by_addr t0)" using fl by (simp add: free_lists_def)
      moreover have "distinct us" "set us \<inter> set (ra_by_addr s) = {}" using k x by auto
      ultimately show ?thesis using xi sa g(4) by auto
    qed
    show "n_unused t0 = length (ra_unused t0)" using k x g by simp
    show "0 < ra_size t0 x" "ra_addr t0 x + ra_size t0 x < 2 ^ 32" using g w ai pos by auto
    fix y assume y: "y \<in> set (ra_by_addr t0)"
    show "apart t0 y x"
    proof (rule apartI)
      have "region_bytes t0 y \<subseteq> free_space t0" using y by (auto simp: free_space_def)
      then show "region_bytes t0 y \<inter> region_bytes t0 x = {}" using fs bytes by blast
      show "0 < ra_size t0 y" using fl y by (simp add: free_lists_def)
      show "0 < ra_size t0 x" using g w by simp
    qed
  qed
  obtain t where t: "add_free_region x t0 = Inr t" "put_back t0 x t"
    using add_free_region_spec [OF lo] by blast
  note p = t(2) [unfolded put_back_def]
  have keepu: "ra_addr t y = ra_addr s y \<and> ra_size t y = ra_size s y \<and> ra_type t y = ra_type s y"
    if "y \<in> set (ra_used s)" for y
  proof -
    have "y \<noteq> x" "y \<noteq> i" "y \<notin> set (ra_by_addr t0)" using that xi sa k by auto
    then show ?thesis using p keep g by simp
  qed
  have ut: "ra_used t = ra_used s" using p g by simp
  note u = used_same [OF ut] keepu
  have us: "used_space t = used_space s" "used_tab t = used_tab s" using u by blast+
  have fst: "free_space t = free_space s - {r ..< r + want}" using p fs bytes by blast
  have sub: "{r ..< r + want} \<subseteq> free_space s" using fs(2) bytes by blast
  have un: "set (ra_unused t) \<union> set (ra_by_addr t) = insert x (set us \<union> (set (ra_by_addr s) - {i}))"
    using p g sa by simp
  have ds: "insert i (descriptors t) = descriptors s"
    using un ut x i unfolding descriptors_def by auto
  have "carved b e t i r want"
    unfolding carved_def us(1)
  proof (intro conjI)
    show "free_lists t" "n_unused t = length (ra_unused t)" using p by simp_all
    show "distinct (i # ra_unused t @ ra_by_addr t @ ra_used t)"
    proof -
      have "(set (ra_unused t) \<union> set (ra_by_addr t)) \<inter> set (ra_used s) = {}"
        unfolding un using k x xi by auto
      moreover have "i \<notin> set (ra_unused t) \<union> set (ra_by_addr t)" unfolding un using xi by auto
      moreover have "distinct (ra_unused t @ ra_by_addr t)" "distinct (ra_used s)" using p k by simp_all
      ultimately show ?thesis
        unfolding ut distinct.simps(2) distinct_append set_append using xi(4) by blast
    qed
    show "sorted_wrt (\<lambda>x y. ra_addr t x + ra_size t x \<le> ra_addr t y) (ra_used t)"
      using u k by blast
    show "\<forall>u \<in> set (ra_used t). 0 < ra_size t u" using keepu ut k by simp
    show "pages t (set (ra_by_addr t))"
    proof -
      have "pages s (set (ra_by_addr s))" using k by simp
      moreover have "4096 dvd ra_size s i - want" "4096 dvd xa"
        using ai(1,2) w pos by (auto intro: dvd_diff_nat)
      ultimately have "pages t0 (insert x (set (ra_by_addr t0)))"
        using keepf sa g by (auto simp: pages_def)
      then show ?thesis using p by blast
    qed
    show "pages t (set (ra_used t))" using keepu ut k by (simp add: pages_def)
    show "free_space t \<union> used_space s \<union> {r ..< r + want} = {b ..< e}" "free_space t \<inter> used_space s = {}"
      "(free_space t \<union> used_space s) \<inter> {r ..< r + want} = {}"
      unfolding fst using k sub by blast+
    show "ra_addr t i = r" using p g by simp
    show "0 < want" "4096 dvd want" by (fact w)+
    show "4096 dvd r" using ai(1,2) w pos by (auto intro: dvd_add dvd_diff_nat)
    show "4096 \<le> b" "e < 2 ^ 32" using k by simp_all
    show "\<forall>d \<in> insert i (descriptors t). d < N_BASE_DESCRIPTORS \<or> d \<in> used_space s"
      unfolding ds using k by blast
  qed
  with t(1) us(2) fst sub ds p g show ?thesis by auto
qed

end
