(* ===== verification/Region_Props.thy ===== *)
theory Region_Props
  imports Region_Correct
begin

text \<open>
  The operations of the region allocator against the specification, and the properties: an allocation adds
  a fresh, page-aligned, disjoint region or says there is none; a release takes out exactly the region asked
  for; the assertions hold throughout.
\<close>

section \<open>The operations\<close>

lemma region_alloc_inner_spec:
  assumes inv: "ra_inv b e s" and sz: "0 < sz" "sz \<le> 0xFFFFF000" and res: "use_reserve \<longrightarrow> 1 \<le> n_unused s"
  shows "\<exists>r s'. region_alloc_inner sz ty use_reserve s = Inr (r, s') \<and> ra_inv b e s'
    \<and> (r = 0 \<and> s' = s
         \<and> ((\<forall>f \<in> set (ra_by_addr s). ra_size s f < page_up sz)
             \<or> n_unused s \<le> N_RESERVE_DESCRIPTORS \<and> \<not> use_reserve)
       \<or> r \<noteq> 0 \<and> 4096 dvd r \<and> {r ..< r + page_up sz} \<subseteq> free_space s
         \<and> used_tab s' = insert (r, page_up sz, ty) (used_tab s)
         \<and> free_space s' = free_space s - {r ..< r + page_up sz}
         \<and> descriptors s' = descriptors s \<and> n_unused s - 1 \<le> n_unused s'
         \<and> (n_unused s \<le> N_RESERVE_DESCRIPTORS \<longrightarrow> \<not> use_reserve \<longrightarrow> n_unused s \<le> n_unused s')
         \<and> (n_unused s' < n_unused s \<longrightarrow> page_up sz < 0x4000 \<longrightarrow> r - 1 \<in> free_space s'))"
proof -
  note k = inv [unfolded ra_inv_def]
  define want where "want = page_up sz"
  have w: "0 < want" "4096 dvd want" "want < 2 ^ 32" using page_up_bounds [OF sz] by (simp_all add: want_def)
  have ff: "find_fit s want (length (ra_by_size s)) (case ra_by_size s of [] \<Rightarrow> None | i # _ \<Rightarrow> Some i)
      = Some (find (\<lambda>i. ra_size s i \<ge> want) (ra_by_size s))"
    by (rule find_fit_spec) (use k in \<open>simp_all add: free_lists_def\<close>)
  have same: "set (ra_by_size s) = set (ra_by_addr s)" using k by (simp add: free_lists_def)
  show ?thesis
  proof (cases "find (\<lambda>i. ra_size s i \<ge> want) (ra_by_size s)")
    case None
    then have "\<forall>f \<in> set (ra_by_addr s). ra_size s f < want"
      using same by (auto simp: find_None_iff not_le)
    with None ff inv show ?thesis
      by (simp add: region_alloc_inner_def Let_def flip: want_def)
  next
    case (Some i)
    then have i: "i \<in> set (ra_by_addr s)" "want \<le> ra_size s i"
      using same by (auto simp: find_Some_iff)
    note ai = aligned_free [OF inv i(1)]
    consider "ra_size s i > want" "n_unused s \<le> N_RESERVE_DESCRIPTORS" "\<not> use_reserve"
      | "ra_size s i = want"
      | "ra_size s i > want" "n_unused s > N_RESERVE_DESCRIPTORS \<or> use_reserve"
      using i(2) by linarith
    then show ?thesis
    proof cases
      case 1
      then have "region_alloc_inner sz ty use_reserve s = Inr (0, s)"
        using ff Some by (simp add: region_alloc_inner_def Let_def flip: want_def)
      with 1 inv show ?thesis by auto
    next
      case 2
      note c = carve_exact [OF inv i(1) 2]
      obtain s' where s': "add_used_region i ((remove_free_region i s)\<lparr>ra_size := (ra_size (remove_free_region i s))(i := want),
          ra_type := (ra_type (remove_free_region i s))(i := ty)\<rparr>) = Inr s'"
        "ra_inv b e s'" "used_tab s' = insert (ra_addr s i, want, ty) (used_tab (remove_free_region i s))"
        "n_unused s' = n_unused (remove_free_region i s)"
        "descriptors s' = insert i (descriptors (remove_free_region i s))"
        "free_space s' = free_space (remove_free_region i s)"
        using finish_alloc [OF c(1), of ty] by blast
      have addr: "ra_addr (remove_free_region i s) i = ra_addr s i"
        using c(1) by (simp add: carved_def)
      have "region_alloc_inner sz ty use_reserve s = Inr (ra_addr s i, s')"
        using ff Some 2 s'(1) addr by (simp add: region_alloc_inner_def Let_def flip: want_def)
      moreover have "{ra_addr s i ..< ra_addr s i + want} \<subseteq> free_space s"
        using i(1) 2 by (auto simp: free_space_def region_bytes_def)
      ultimately show ?thesis
        unfolding want_def [symmetric] using s' c ai
        by (intro exI [of _ "ra_addr s i"] exI [of _ s']) auto
    next
      case 3
      have "ra_unused s \<noteq> []" using 3(2) res k by (auto simp: N_RESERVE_DESCRIPTORS_def)
      then obtain x us where x: "ra_unused s = x # us" by (cases "ra_unused s") auto
      have xi: "x \<noteq> i" using k x i(1) by auto
      define rest where "rest = ra_size s i - want"
      define xa where "xa = (if want \<ge> 0x4000 then ra_addr s i + want else ra_addr s i)"
      define r where "r = (if want \<ge> 0x4000 then ra_addr s i else ra_addr s i + rest)"
      have nowrap: "add32 (ra_addr s i) want = ra_addr s i + want" "add32 (ra_addr s i) rest = ra_addr s i + rest"
        using ai 3(1) by (simp_all add: add32_def rest_def)
      define s3 where "s3 = s\<lparr>ra_unused := us, n_unused := n_unused s - 1,
        ra_addr := (ra_addr s)(x := xa, i := r), ra_size := (ra_size s)(x := rest)\<rparr>"
      define t0 where "t0 = (remove_free_region i s)\<lparr>ra_unused := us, n_unused := n_unused s - 1,
        ra_addr := (ra_addr s)(x := xa, i := r), ra_size := (ra_size s)(x := rest)\<rparr>"
      have t0: "remove_free_region i s3 = t0"
        unfolding s3_def t0_def by (rule remove_free_region_frame)
      have pos: "r = ra_addr s i \<and> xa = ra_addr s i + want \<or> r = ra_addr s i + (ra_size s i - want) \<and> xa = ra_addr s i"
        by (simp add: r_def xa_def rest_def)
      obtain t where t: "add_free_region x t0 = Inr t" "carved b e t i r want" "used_tab t = used_tab s"
        "free_space t = free_space s - {r ..< r + want}" "n_unused s - 1 \<le> n_unused t"
        "insert i (descriptors t) = descriptors s" "{r ..< r + want} \<subseteq> free_space s" "ra_addr t i = r"
        using carve_split [OF inv i(1) 3(1) w(1,2) x pos t0_def [unfolded rest_def]] by blast
      obtain s' where s': "add_used_region i (t\<lparr>ra_size := (ra_size t)(i := want), ra_type := (ra_type t)(i := ty)\<rparr>) = Inr s'"
        "ra_inv b e s'" "used_tab s' = insert (r, want, ty) (used_tab t)" "n_unused s' = n_unused t"
        "descriptors s' = insert i (descriptors t)" "free_space s' = free_space t"
        using finish_alloc [OF t(2), of ty] by blast
      have big: "s\<lparr>ra_unused := us, n_unused := n_unused s - Suc 0, ra_size := (ra_size s)(x := ra_size s i - want),
          ra_addr := (ra_addr s)(x := add32 (ra_addr s i) want)\<rparr> = s3" if "16384 \<le> want"
      proof -
        have "(ra_addr s)(x := ra_addr s i + want, i := ra_addr s i) = (ra_addr s)(x := ra_addr s i + want)"
          using xi by auto
        then show ?thesis using that nowrap by (simp add: s3_def xa_def r_def rest_def)
      qed
      have small: "s\<lparr>ra_unused := us, n_unused := n_unused s - Suc 0, ra_size := (ra_size s)(x := ra_size s i - want),
          ra_addr := (ra_addr s)(x := ra_addr s i, i := add32 (ra_addr s i) (ra_size s i - want))\<rparr> = s3"
        if "\<not> 16384 \<le> want"
        using that nowrap xi by (auto simp: s3_def xa_def r_def rest_def)
      have go: "\<not> (n_unused s \<le> N_RESERVE_DESCRIPTORS \<and> \<not> use_reserve)" using 3(2) by auto
      have "region_alloc_inner sz ty use_reserve s = Inr (r, s')"
      proof (cases "16384 \<le> want")
        case True
        show ?thesis
          using ff Some 3(1) go x t0 t(1,8) s'(1) xi True
          by (auto simp: region_alloc_inner_def Let_def get_unused_region_descriptor_def big simp flip: want_def)
      next
        case False
        show ?thesis
          using ff Some 3(1) go x t0 t(1,8) s'(1) xi False
          by (auto simp: region_alloc_inner_def Let_def get_unused_region_descriptor_def small simp flip: want_def)
      qed
      moreover have "r \<noteq> 0" "4096 dvd r" using t(2) ai(7,4) by (auto simp: carved_def r_def)
      moreover have "r - 1 \<in> free_space s'" if "want < 0x4000"
      proof -
        have "r - 1 \<in> region_bytes s i" "r - 1 \<notin> {r ..< r + want}"
          using that 3(1) ai by (auto simp: r_def rest_def region_bytes_def)
        then show ?thesis using s'(6) t(4) i(1) by (auto simp: free_space_def)
      qed
      ultimately show ?thesis
        unfolding want_def [symmetric] using s' t 3
        by (intro exI [of _ r] exI [of _ s']) auto
    qed
  qed
qed

lemma free_run_in_region:
  assumes "free_lists s" and "0 < w" and "{a ..< a + w} \<subseteq> free_space s"
  shows "\<exists>f \<in> set (ra_by_addr s). w \<le> ra_size s f"
proof -
  have "a \<in> free_space s" using assms(2,3) by auto
  then obtain f where f: "f \<in> set (ra_by_addr s)" "a \<in> region_bytes s f" by (auto simp: free_space_def)
  let ?e = "ra_addr s f + ra_size s f"
  have "a + w \<le> ?e"
  proof (rule ccontr)
    assume "\<not> a + w \<le> ?e"
    then have "?e \<in> free_space s" using f(2) assms(3) by (auto simp: region_bytes_def)
    then obtain g where g: "g \<in> set (ra_by_addr s)" "?e \<in> region_bytes s g" by (auto simp: free_space_def)
    then have "f \<noteq> g" by (auto simp: region_bytes_def)
    from free_gap [OF assms(1) f(1) g(1) this] g(2) show False by (auto simp: region_bytes_def)
  qed
  with f show ?thesis by (intro bexI [of _ f]) (auto simp: region_bytes_def)
qed

lemma used_space_tab: "used_space s = (\<Union>(a, z, t) \<in> used_tab s. {a ..< a + z})"
  by (auto simp: used_space_def used_tab_def region_bytes_def)

lemma free_space_eq: "ra_inv b e s \<Longrightarrow> free_space s = {b ..< e} - used_space s"
  unfolding ra_inv_def by blast

lemma find_used_of_tab:
  assumes inv: "ra_inv b e s" and tab: "(a, z, t) \<in> used_tab s" and in_it: "x \<in> {a ..< a + z}"
  shows "\<exists>d. find_used_region x s = Some d \<and> d \<in> set (ra_used s) \<and> ra_addr s d = a \<and> ra_size s d = z \<and> ra_type s d = t"
proof -
  obtain d where d: "d \<in> set (ra_used s)" "a = ra_addr s d" "z = ra_size s d" "t = ra_type s d"
    using tab by (auto simp: used_tab_def)
  have x: "x \<in> region_bytes s d" using in_it d by (simp add: region_bytes_def)
  obtain d' where d': "find_used_region x s = Some d'" "d' \<in> set (ra_used s)" "x \<in> region_bytes s d'"
    using find_used_region_spec [OF inv, of x] x d(1) by (auto split: option.splits)
  then have "d' = d" using used_disjoint [OF inv d'(2) d(1)] x by blast
  with d d' show ?thesis by auto
qed

lemma region_free_inner_spec:
  assumes inv: "ra_inv b e s" and tab: "(a, z, t) \<in> used_tab s" and in_it: "x \<in> {a ..< a + z}"
    and clean: "descriptors s \<inter> {a ..< a + z} = {}"
  shows "\<exists>s'. region_free_inner x s = Inr s' \<and> ra_inv b e s' \<and> used_tab s' = used_tab s - {(a, z, t)}
    \<and> n_unused s \<le> n_unused s' \<and> descriptors s' = descriptors s \<and> (0 < a \<and> a - 1 \<in> free_space s \<longrightarrow> n_unused s < n_unused s')"
proof -
  obtain d where d: "find_used_region x s = Some d" "d \<in> set (ra_used s)"
    "ra_addr s d = a" "ra_size s d = z" "ra_type s d = t" using find_used_of_tab [OF inv tab in_it] by blast
  have "descriptors s \<inter> region_bytes s d = {}" using clean d by (simp add: region_bytes_def)
  from release_used [OF inv d(2) this] obtain s' where s': "add_free_region d (remove_used_region d s) = Inr s'"
    "ra_inv b e s'" "used_tab s' = used_tab s - {(a, z, t)}" "n_unused s \<le> n_unused s'" "descriptors s' = descriptors s"
    "find_adjacent s d (ra_by_addr s) \<noteq> None \<longrightarrow> n_unused s < n_unused s'"
    using d by auto
  have "find_adjacent s d (ra_by_addr s) \<noteq> None" if prev: "0 < a" "a - 1 \<in> free_space s"
  proof -
    obtain f where f: "f \<in> set (ra_by_addr s)" "a - 1 \<in> region_bytes s f" using prev by (auto simp: free_space_def)
    have "a \<in> used_space s" using d(2,3) bounds_used(3) [OF inv d(2)] by (auto simp: used_space_def region_bytes_def)
    then have "a \<notin> region_bytes s f" using inv f(1) unfolding ra_inv_def free_space_def by blast
    then have "ra_addr s f + ra_size s f = ra_addr s d"
      using f(2) prev(1) d(3) by (auto simp: region_bytes_def)
    moreover have "ra_addr s d < 2 ^ 32" using bounds_used(5,6) [OF inv d(2)] by simp
    ultimately show ?thesis
      using find_adjacent_hit [OF _ f(1)] inv by (auto simp: ra_inv_def free_lists_def)
  qed
  then show ?thesis using s' d(1) by (intro exI [of _ s'] conjI impI) (simp_all add: region_free_inner_def)
qed

section \<open>A page of descriptors\<close>

lemma add_descriptors:
  "foldl (\<lambda>s d. add_unused_region_descriptor d s) s ds
     = s\<lparr>ra_unused := rev ds @ ra_unused s, n_unused := n_unused s + length ds\<rparr>"
  by (induction ds arbitrary: s) (simp_all add: add_unused_region_descriptor_def)

lemma page_descriptors_props:
  "distinct (page_descriptors p)" "set (page_descriptors p) \<subseteq> {p ..< p + 4096}" "length (page_descriptors p) = 204"
  by (auto simp: page_descriptors_def DESCRIPTOR_BYTES_def distinct_map inj_on_def)

lemma add_descriptors_inv:
  assumes inv: "ra_inv b e s" and fresh: "distinct ds" "set ds \<inter> descriptors s = {}" "set ds \<subseteq> used_space s"
    and t: "t = s\<lparr>ra_unused := rev ds @ ra_unused s, n_unused := n_unused s + length ds\<rparr>"
  shows "ra_inv b e t" and "used_tab t = used_tab s" and "descriptors t = descriptors s \<union> set ds"
proof -
  have [simp]: "region_bytes t = region_bytes s" by (rule ext) (simp add: region_bytes_def t)
  have sp: "free_space t = free_space s" "used_space t = used_space s"
    by (simp_all add: free_space_def used_space_def) (simp_all add: t)
  show ds: "descriptors t = descriptors s \<union> set ds" by (auto simp: descriptors_def t)
  have fl: "free_lists t" by (rule free_lists_cong [of s]) (use inv in \<open>simp_all add: ra_inv_def t\<close>)
  show "used_tab t = used_tab s" by (simp add: used_tab_def t)
  have "distinct (ra_unused t @ ra_by_addr t @ ra_used t)"
    using inv fresh by (auto simp: ra_inv_def descriptors_def t)
  then show "ra_inv b e t"
    using inv fl fresh(3) unfolding ra_inv_def sp ds by (auto simp: pages_def t)
qed

section \<open>region_alloc\<close>

definition ra_good :: "nat \<Rightarrow> nat \<Rightarrow> region_state \<Rightarrow> bool" where
  "ra_good b e s \<longleftrightarrow> ra_inv b e s \<and> N_RESERVE_DESCRIPTORS \<le> n_unused s"

lemma fresh_page:
  assumes "ra_inv b e s" and "{p ..< p + 4096} \<subseteq> free_space s"
  shows "{p ..< p + 4096} \<inter> descriptors s = {}" and "{p ..< p + 4096} \<inter> used_space s = {}"
proof -
  show u: "{p ..< p + 4096} \<inter> used_space s = {}" using assms unfolding ra_inv_def by blast
  have "{p ..< p + 4096} \<subseteq> {b ..< e}" using assms unfolding ra_inv_def by blast
  then have "b \<le> p" by auto
  then have "\<forall>x \<in> {p ..< p + 4096}. N_BASE_DESCRIPTORS \<le> x"
    using assms(1) by (auto simp: ra_inv_def N_BASE_DESCRIPTORS_def)
  then show "{p ..< p + 4096} \<inter> descriptors s = {}"
  proof (intro equalityI subsetI)
    fix x assume x: "x \<in> {p ..< p + 4096} \<inter> descriptors s"
    have "x < N_BASE_DESCRIPTORS \<or> x \<in> used_space s" using assms(1) x by (simp add: ra_inv_def)
    with x u \<open>\<forall>x \<in> {p ..< p + 4096}. N_BASE_DESCRIPTORS \<le> x\<close> show "x \<in> {}" by fastforce
  qed simp
qed

lemma page_up_4096: "page_up 4096 = 4096"
  by (simp add: page_up_def unat_PAGE_ALIGN_UP)

text \<open>The first half of \<open>region_alloc\<close>: after it there are descriptors for a split, or
  mapping a page for them has failed and nothing has changed.\<close>

lemma refill_spec:
  assumes good: "ra_good b e s" and low: "n_unused s \<le> N_RESERVE_DESCRIPTORS" and room: "free_space s \<noteq> {}"
  shows "\<exists>p s1. region_alloc_inner 4096 ''Region descriptors'' True s = Inr (p, s1) \<and> p \<noteq> 0
    \<and> (if map_page_fun p
       then ra_good b e (foldl (\<lambda>s d. add_unused_region_descriptor d s) s1 (page_descriptors p))
         \<and> used_tab (foldl (\<lambda>s d. add_unused_region_descriptor d s) s1 (page_descriptors p))
             = insert (p, 4096, ''Region descriptors'') (used_tab s)
         \<and> descriptors (foldl (\<lambda>s d. add_unused_region_descriptor d s) s1 (page_descriptors p)) \<subseteq> descriptors s \<union> {p ..< p + 4096}
       else \<exists>s2. region_free_inner p s1 = Inr s2 \<and> ra_good b e s2 \<and> used_tab s2 = used_tab s \<and> descriptors s2 = descriptors s)"
proof -
  have inv: "ra_inv b e s" and n: "n_unused s = 2" using good low by (simp_all add: ra_good_def N_RESERVE_DESCRIPTORS_def)
  obtain f where f: "f \<in> set (ra_by_addr s)" using room by (auto simp: free_space_def)
  have "4096 \<le> ra_size s f" using aligned_free(2,3) [OF inv f] by (simp add: dvd_imp_le)
  then have nofail: "\<not> (\<forall>f \<in> set (ra_by_addr s). ra_size s f < page_up 4096)" using f by (auto simp: page_up_4096 not_less)
  obtain p s1 where a: "region_alloc_inner 4096 ''Region descriptors'' True s = Inr (p, s1)" "ra_inv b e s1"
      "p \<noteq> 0" "{p ..< p + 4096} \<subseteq> free_space s"
      "used_tab s1 = insert (p, 4096, ''Region descriptors'') (used_tab s)" "descriptors s1 = descriptors s"
      "n_unused s - 1 \<le> n_unused s1" "n_unused s1 < n_unused s \<longrightarrow> p - 1 \<in> free_space s1"
    using region_alloc_inner_spec [OF inv, of 4096 True "''Region descriptors''"] nofail n
    by (auto simp: page_up_4096)
  note fp = fresh_page [OF inv a(4)]
  have page: "{p ..< p + 4096} \<subseteq> used_space s1" unfolding used_space_tab a(5) by auto
  have ok: "ra_good b e (foldl (\<lambda>s d. add_unused_region_descriptor d s) s1 (page_descriptors p))
      \<and> used_tab (foldl (\<lambda>s d. add_unused_region_descriptor d s) s1 (page_descriptors p))
          = insert (p, 4096, ''Region descriptors'') (used_tab s)
      \<and> descriptors (foldl (\<lambda>s d. add_unused_region_descriptor d s) s1 (page_descriptors p)) \<subseteq> descriptors s \<union> {p ..< p + 4096}"
  proof -
    note pd = page_descriptors_props [of p]
    have "set (page_descriptors p) \<inter> descriptors s1 = {}" "set (page_descriptors p) \<subseteq> used_space s1"
      using pd(2) fp(1) page a(6) by blast+
    note ai = add_descriptors_inv [OF a(2) pd(1) this refl]
    show ?thesis unfolding add_descriptors using ai a(5,6) pd(2,3)
      by (auto simp: ra_good_def N_RESERVE_DESCRIPTORS_def)
  qed
  have "\<exists>s2. region_free_inner p s1 = Inr s2 \<and> ra_good b e s2 \<and> used_tab s2 = used_tab s \<and> descriptors s2 = descriptors s"
  proof -
    have tab: "(p, 4096, ''Region descriptors'') \<in> used_tab s1" using a(5) by simp
    have "descriptors s1 \<inter> {p ..< p + 4096} = {}" using fp(1) a(6) by blast
    then obtain s2 where s2: "region_free_inner p s1 = Inr s2" "ra_inv b e s2"
      "used_tab s2 = used_tab s1 - {(p, 4096, ''Region descriptors'')}"
      "n_unused s1 \<le> n_unused s2" "0 < p \<and> p - 1 \<in> free_space s1 \<longrightarrow> n_unused s1 < n_unused s2" "descriptors s2 = descriptors s1"
      using region_free_inner_spec [OF a(2) tab, of p] by auto
    have "(p, 4096, ''Region descriptors'') \<notin> used_tab s"
      using fp(2) by (force simp: used_space_tab)
    then have "used_tab s2 = used_tab s" using s2(3) a(5) by simp
    moreover have "2 \<le> n_unused s2" using s2(4,5) a(3,7,8) n by linarith
    ultimately show ?thesis using s2(1,2,6) a(6) by (auto simp: ra_good_def N_RESERVE_DESCRIPTORS_def)
  qed
  with ok a(1,3) show ?thesis by auto
qed

lemma alloc_no_reserve:
  assumes good: "ra_good b e s" and sz: "0 < sz" "sz \<le> 0xFFFFF000"
  shows "\<exists>r s'. region_alloc_inner sz ty False s = Inr (r, s') \<and> ra_good b e s' \<and> descriptors s' = descriptors s
    \<and> (if r = 0 then s' = s \<and> ((\<forall>a. \<not> {a ..< a + page_up sz} \<subseteq> free_space s) \<or> n_unused s = N_RESERVE_DESCRIPTORS)
       else 4096 dvd r \<and> {r ..< r + page_up sz} \<subseteq> free_space s
         \<and> used_tab s' = insert (r, page_up sz, ty) (used_tab s))"
proof -
  have inv: "ra_inv b e s" and n: "N_RESERVE_DESCRIPTORS \<le> n_unused s" using good by (simp_all add: ra_good_def)
  obtain r s' where a: "region_alloc_inner sz ty False s = Inr (r, s')" "ra_inv b e s'"
    and c: "r = 0 \<and> s' = s \<and> ((\<forall>f \<in> set (ra_by_addr s). ra_size s f < page_up sz) \<or> n_unused s \<le> N_RESERVE_DESCRIPTORS)
       \<or> r \<noteq> 0 \<and> 4096 dvd r \<and> {r ..< r + page_up sz} \<subseteq> free_space s
         \<and> used_tab s' = insert (r, page_up sz, ty) (used_tab s) \<and> descriptors s' = descriptors s
         \<and> n_unused s - 1 \<le> n_unused s' \<and> (n_unused s \<le> N_RESERVE_DESCRIPTORS \<longrightarrow> n_unused s \<le> n_unused s')"
    using region_alloc_inner_spec [OF inv sz, of False ty] by blast
  have w: "0 < page_up sz" by (rule page_up_bounds(3) [OF sz])
  have "(\<forall>a. \<not> {a ..< a + page_up sz} \<subseteq> free_space s)" if "\<forall>f \<in> set (ra_by_addr s). ra_size s f < page_up sz"
    using that free_run_in_region [OF _ w, of s] inv unfolding ra_inv_def by (meson not_le)
  moreover have "N_RESERVE_DESCRIPTORS \<le> n_unused s'" using c n by (cases "n_unused s = N_RESERVE_DESCRIPTORS") auto
  ultimately show ?thesis using a c n by (auto simp: ra_good_def)
qed

section \<open>Initialisation\<close>

definition boot_state :: region_state where
  "boot_state = \<lparr>ra_unused = rev [0..<11], n_unused = 11, ra_by_addr = [], ra_by_size = [], ra_used = [],
     ra_addr = (\<lambda>_. 0), ra_size = (\<lambda>_. 0), ra_type = (\<lambda>_. ''''), ra_bigger = (\<lambda>_. None)\<rparr>"

lemma aligned_of_nat: "4096 dvd x \<Longrightarrow> x < 2 ^ 32 \<Longrightarrow> PAGE_ALIGNED (of_nat x)"
  by (simp add: PAGE_ALIGNED_iff unat_of_nat)

lemma boot_unused:
  "get_unused_region_descriptor (foldl (\<lambda>s d. add_unused_region_descriptor d s)
      \<lparr>ra_unused = [], n_unused = 0, ra_by_addr = [], ra_by_size = [], ra_used = [],
       ra_addr = (\<lambda>_. 0), ra_size = (\<lambda>_. 0), ra_type = (\<lambda>_. ''''), ra_bigger = (\<lambda>_. None)\<rparr>
      [0..<N_BASE_DESCRIPTORS]) = Inr (11, boot_state)"
  unfolding add_descriptors boot_state_def
  by (simp add: get_unused_region_descriptor_def N_BASE_DESCRIPTORS_def upt_rec)

lemma region_init_spec:
  assumes "4096 dvd begin" "4096 dvd rsvd_end" "4096 dvd region_end" "4096 \<le> begin" "begin \<le> rsvd_end"
    "rsvd_end < region_end" "region_end < 2 ^ 32"
  shows "\<exists>s. region_allocator_init begin rsvd_end region_end = Inr s \<and> ra_good begin region_end s
    \<and> used_tab s = (if begin < rsvd_end then {(begin, rsvd_end - begin, ''Reserved'')} else {})
    \<and> free_space s = {rsvd_end ..< region_end} \<and> descriptors s \<subseteq> {..<N_BASE_DESCRIPTORS} \<and> 10 \<le> n_unused s"
proof -
  have al: "PAGE_ALIGNED (of_nat begin)" "PAGE_ALIGNED (of_nat rsvd_end)" "PAGE_ALIGNED (of_nat region_end)"
    using assms by (simp_all add: aligned_of_nat)
  define s1 where "s1 = boot_state\<lparr>ra_addr := (ra_addr boot_state)(11 := rsvd_end),
    ra_size := (ra_size boot_state)(11 := region_end - rsvd_end),
    ra_by_addr := [11], ra_by_size := [11], ra_bigger := (\<lambda>_. None)(11 := None)\<rparr>"
  have ins: "add_free_region 11 (boot_state\<lparr>ra_addr := (ra_addr boot_state)(11 := rsvd_end),
      ra_size := (ra_size boot_state)(11 := region_end - rsvd_end)\<rparr>) = Inr s1"
    by (simp add: add_free_region.simps insert_free_region_def s1_def boot_state_def)
  show ?thesis
  proof (cases "begin < rsvd_end")
    case False
    then have st: "region_allocator_init begin rsvd_end region_end = Inr (s1\<lparr>ra_used := []\<rparr>)"
      unfolding region_allocator_init_def Let_def boot_unused using al ins by simp
    let ?s = "s1\<lparr>ra_used := []\<rparr>"
    have fs: "free_space ?s = {rsvd_end ..< region_end}" "used_space ?s = {}"
      using assms by (auto simp: s1_def free_space_def used_space_def region_bytes_def boot_state_def)
    have "ra_inv begin region_end ?s"
      unfolding ra_inv_def fs using assms False
      by (auto simp: s1_def boot_state_def free_lists_def pages_def descriptors_def N_BASE_DESCRIPTORS_def
          intro: dvd_diff_nat)
    moreover have "n_unused ?s = 11" "used_tab ?s = {}" "descriptors ?s \<subseteq> {..<N_BASE_DESCRIPTORS}"
      by (auto simp: s1_def boot_state_def used_tab_def descriptors_def N_BASE_DESCRIPTORS_def)
    ultimately show ?thesis using st fs False by (auto simp: ra_good_def N_RESERVE_DESCRIPTORS_def)
  next
    case True
    let ?s = "s1\<lparr>ra_unused := rev [0..<10], n_unused := 10, ra_addr := (ra_addr s1)(10 := begin),
      ra_size := (ra_size s1)(10 := rsvd_end - begin), ra_type := (ra_type s1)(10 := ''Reserved''), ra_used := [10]\<rparr>"
    have "ra_unused s1 = 10 # rev [0..<10]" "n_unused s1 = 11"
      by (simp_all add: s1_def boot_state_def upt_rec)
    then have st: "region_allocator_init begin rsvd_end region_end = Inr ?s"
      unfolding region_allocator_init_def Let_def boot_unused using al ins True
      by (simp add: get_unused_region_descriptor_def)
    have fs: "free_space ?s = {rsvd_end ..< region_end}" "used_space ?s = {begin ..< rsvd_end}"
      using assms by (auto simp: s1_def free_space_def used_space_def region_bytes_def boot_state_def)
    have "ra_inv begin region_end ?s"
      unfolding ra_inv_def fs using assms True
      by (auto simp: s1_def boot_state_def free_lists_def pages_def descriptors_def N_BASE_DESCRIPTORS_def
          intro: dvd_diff_nat)
    moreover have "used_tab ?s = {(begin, rsvd_end - begin, ''Reserved'')}" "descriptors ?s \<subseteq> {..<N_BASE_DESCRIPTORS}"
      by (auto simp: used_tab_def s1_def boot_state_def descriptors_def N_BASE_DESCRIPTORS_def)
    ultimately show ?thesis using st fs True by (auto simp: ra_good_def N_RESERVE_DESCRIPTORS_def)
  qed
qed

text \<open>A concrete range of one megabyte with a reserved first page, for the examples.\<close>

lemma wit_region:
  "\<exists>s. region_allocator_init 0x100000 0x101000 0x200000 = Inr s \<and> ra_good 0x100000 0x200000 s
     \<and> used_tab s = {(0x100000, 0x1000, ''Reserved'')} \<and> free_space s = {0x101000 ..< 0x200000}
     \<and> descriptors s \<subseteq> {..<N_BASE_DESCRIPTORS} \<and> 10 \<le> n_unused s"
  using region_init_spec [of "0x100000" "0x101000" "0x200000"] by (simp add: dvd_def)

lemma region_alloc_spec:
  assumes "ra_good b e s" and "0 < sz" and "sz \<le> 0xFFFFF000" and "free_space s \<noteq> {}"
  shows "\<exists>r s' extra. region_alloc map_page_fun sz ty s = Inr (r, s') \<and> ra_good b e s'
    \<and> descriptors s' \<subseteq> descriptors s \<union> (\<Union>(p, z, t) \<in> extra. {p ..< p + z})
    \<and> (extra = {} \<or> (\<exists>p. map_page_fun p \<and> extra = {(p, 4096, ''Region descriptors'')}))
    \<and> (if r = 0
       then used_tab s' = used_tab s \<union> extra
         \<and> ((\<forall>a. \<not> {a ..< a + page_up sz} \<subseteq> free_space s') \<or> n_unused s' = N_RESERVE_DESCRIPTORS)
       else 4096 dvd r \<and> {r ..< r + page_up sz} \<subseteq> {b ..< e} - used_space s
         \<and> used_tab s' = insert (r, page_up sz, ty) (used_tab s \<union> extra))"
proof -
  have inner: "\<exists>r s'. region_alloc_inner sz ty False t = Inr (r, s') \<and> ra_good b e s' \<and> descriptors s' = descriptors t
      \<and> (if r = 0
         then used_tab s' = used_tab s \<union> extra
           \<and> ((\<forall>a. \<not> {a ..< a + page_up sz} \<subseteq> free_space s') \<or> n_unused s' = N_RESERVE_DESCRIPTORS)
         else 4096 dvd r \<and> {r ..< r + page_up sz} \<subseteq> {b ..< e} - used_space s
           \<and> used_tab s' = insert (r, page_up sz, ty) (used_tab s \<union> extra))"
    if t: "ra_good b e t" "used_tab t = used_tab s \<union> extra" for t extra
  proof -
    have "ra_inv b e t" using t(1) by (simp add: ra_good_def)
    then have "free_space t \<subseteq> {b ..< e} - used_space s"
      unfolding free_space_eq [OF \<open>ra_inv b e t\<close>] used_space_tab t(2) by blast
    with alloc_no_reserve [OF t(1) assms(2,3), of ty] t(2) show ?thesis by fastforce
  qed
  show ?thesis
  proof (cases "n_unused s \<le> N_RESERVE_DESCRIPTORS")
    case False
    then have "region_alloc map_page_fun sz ty s = region_alloc_inner sz ty False s"
      by (simp add: region_alloc_def)
    with inner [OF assms(1), of "{}"] show ?thesis by auto
  next
    case True
    obtain p s1 where p: "region_alloc_inner 4096 ''Region descriptors'' True s = Inr (p, s1)" "p \<noteq> 0"
      and m: "if map_page_fun p
       then ra_good b e (foldl (\<lambda>s d. add_unused_region_descriptor d s) s1 (page_descriptors p))
         \<and> used_tab (foldl (\<lambda>s d. add_unused_region_descriptor d s) s1 (page_descriptors p))
             = insert (p, 4096, ''Region descriptors'') (used_tab s)
         \<and> descriptors (foldl (\<lambda>s d. add_unused_region_descriptor d s) s1 (page_descriptors p)) \<subseteq> descriptors s \<union> {p ..< p + 4096}
       else \<exists>s2. region_free_inner p s1 = Inr s2 \<and> ra_good b e s2 \<and> used_tab s2 = used_tab s \<and> descriptors s2 = descriptors s"
      using refill_spec [OF assms(1) True assms(4), of map_page_fun] by blast
    show ?thesis
    proof (cases "map_page_fun p")
      case ok: True
      let ?t = "foldl (\<lambda>s d. add_unused_region_descriptor d s) s1 (page_descriptors p)"
      have "region_alloc map_page_fun sz ty s = region_alloc_inner sz ty False ?t"
        using True p ok by (simp add: region_alloc_def)
      moreover have t: "ra_good b e ?t" "used_tab ?t = used_tab s \<union> {(p, 4096, ''Region descriptors'')}"
        and d: "descriptors ?t \<subseteq> descriptors s \<union> (\<Union>(p, z, t) \<in> {(p, 4096, ''Region descriptors'')}. {p ..< p + z})"
        using m ok by auto
      ultimately show ?thesis using inner [OF t] ok by (metis (no_types, lifting))
    next
      case no: False
      obtain s2 where s2: "region_free_inner p s1 = Inr s2" "ra_good b e s2" "used_tab s2 = used_tab s" "descriptors s2 = descriptors s"
        using m no by auto
      have "region_alloc map_page_fun sz ty s = region_alloc_inner sz ty False s2"
        using True p no s2 by (simp add: region_alloc_def)
      with inner [OF s2(2), of "{}"] s2(3,4) show ?thesis by auto
    qed
  qed
qed

section \<open>Properties\<close>

text \<open>C1: in a well-formed state with room left, \<open>region_alloc\<close> of a size from 1 to
  \<open>0xFFFFF000\<close> never fails an assertion, whatever the page-mapping function answers. It returns a
  page-aligned block of the size rounded up to pages, inside the range and disjoint from every used region, and
  the used regions are then the old ones, the new one and possibly a page of descriptors; or it returns zero, and
  then no free run of bytes is large enough, or no descriptor page could be mapped.\<close>

theorem region_alloc_correct:
  assumes "ra_good b e s" and "0 < sz" and "sz \<le> 0xFFFFF000" and "free_space s \<noteq> {}"
  shows "\<exists>r s' extra. region_alloc map_page_fun sz ty s = Inr (r, s') \<and> ra_good b e s'
    \<and> (extra = {} \<or> (\<exists>p. map_page_fun p \<and> extra = {(p, 4096, ''Region descriptors'')}))
    \<and> (if r = 0
       then used_tab s' = used_tab s \<union> extra
         \<and> ((\<forall>a. \<not> {a ..< a + page_up sz} \<subseteq> free_space s') \<or> n_unused s' = N_RESERVE_DESCRIPTORS)
       else 4096 dvd r \<and> {r ..< r + page_up sz} \<subseteq> {b ..< e} - used_space s
         \<and> used_tab s' = insert (r, page_up sz, ty) (used_tab s \<union> extra))"
  using region_alloc_spec [OF assms, of map_page_fun ty] by (elim exE conjE) (intro exI conjI; assumption)

theorem region_alloc_correct_witness:
  "\<exists>s r s' extra. region_allocator_init 0x100000 0x101000 0x200000 = Inr s
     \<and> region_alloc (\<lambda>_. True) 5000 ''x'' s = Inr (r, s')
     \<and> (r = 0 \<or> used_tab s' = insert (r, 8192, ''x'') (used_tab s \<union> extra))"
proof -
  obtain s where s: "region_allocator_init 0x100000 0x101000 0x200000 = Inr s" "ra_good 0x100000 0x200000 s"
    "free_space s = {0x101000 ..< 0x200000}" using wit_region by blast
  have "page_up 5000 = 8192" by (simp add: page_up_def unat_PAGE_ALIGN_UP)
  with region_alloc_correct [OF s(2), of 5000 "\<lambda>_. True" "''x''"] s(1,3) show ?thesis
    by (auto split: if_splits)
qed

text \<open>C2: freeing an address takes out exactly the used region that contains it (and an address in no
  used region changes nothing); the other regions keep their address, size and type, and the assertions hold,
  provided the region is not a page of the allocator's own descriptors.\<close>

theorem region_free_correct:
  assumes "ra_good b e s" and "\<forall>(a, z, t) \<in> used_tab s. x \<in> {a ..< a + z} \<longrightarrow> descriptors s \<inter> {a ..< a + z} = {}"
  shows "\<exists>s'. region_free x s = Inr s' \<and> ra_good b e s'
    \<and> used_tab s' = {(a, z, t) \<in> used_tab s. x \<notin> {a ..< a + z}}"
proof -
  have inv: "ra_inv b e s" and n: "N_RESERVE_DESCRIPTORS \<le> n_unused s"
    using assms(1) by (simp_all add: ra_good_def)
  show ?thesis
  proof (cases "\<exists>(a, z, t) \<in> used_tab s. x \<in> {a ..< a + z}")
    case True
    then obtain a z t where tab: "(a, z, t) \<in> used_tab s" and x: "x \<in> {a ..< a + z}" by blast
    have "descriptors s \<inter> {a ..< a + z} = {}" using assms(2) tab x by blast
    then obtain s' where s': "region_free_inner x s = Inr s'" "ra_inv b e s'" "used_tab s' = used_tab s - {(a, z, t)}"
      "n_unused s \<le> n_unused s'" using region_free_inner_spec [OF inv tab x] by blast
    have "(a', z', t') = (a, z, t)" if "(a', z', t') \<in> used_tab s" "x \<in> {a' ..< a' + z'}" for a' z' t'
      using find_used_of_tab [OF inv tab x] find_used_of_tab [OF inv that] by auto
    then have "used_tab s - {(a, z, t)} = {(a, z, t) \<in> used_tab s. x \<notin> {a ..< a + z}}" using x by auto
    with s' n show ?thesis by (auto simp: region_free_def ra_good_def)
  next
    case False
    then have "\<forall>d \<in> set (ra_used s). x \<notin> region_bytes s d" by (auto simp: used_tab_def region_bytes_def)
    then have "find_used_region x s = None"
      using find_used_region_spec [OF inv, of x] by (auto split: option.splits)
    then have "region_free x s = Inr s" by (simp add: region_free_def region_free_inner_def)
    moreover have "used_tab s = {(a, z, t) \<in> used_tab s. x \<notin> {a ..< a + z}}" using False by auto
    ultimately show ?thesis using assms(1) by auto
  qed
qed

theorem region_free_correct_witness:
  "\<exists>s s'. region_allocator_init 0x100000 0x101000 0x200000 = Inr s
     \<and> region_free 0x100800 s = Inr s' \<and> used_tab s' = {}"
proof -
  obtain s where s: "region_allocator_init 0x100000 0x101000 0x200000 = Inr s" "ra_good 0x100000 0x200000 s"
    "used_tab s = {(0x100000, 0x1000, ''Reserved'')}" "descriptors s \<subseteq> {..<N_BASE_DESCRIPTORS}"
    using wit_region by blast
  then have "descriptors s \<inter> {0x100000 ..< 0x101000} = {}" by (fastforce simp: N_BASE_DESCRIPTORS_def)
  then have "\<forall>(a, z, t) \<in> used_tab s. 0x100800 \<in> {a ..< a + z} \<longrightarrow> descriptors s \<inter> {a ..< a + z} = {}"
    using s(3) by simp
  from region_free_correct [OF s(2) this] s(1,3) show ?thesis by auto
qed

text \<open>Initialising the allocator on a page-aligned range gives a state in which every operation is
  correct; the reserved part, if any, is the only used region and everything after it is free.\<close>

theorem region_init_correct:
  assumes "4096 dvd begin" "4096 dvd rsvd_end" "4096 dvd region_end" "4096 \<le> begin" "begin \<le> rsvd_end"
    "rsvd_end < region_end" "region_end < 2 ^ 32"
  shows "\<exists>s. region_allocator_init begin rsvd_end region_end = Inr s \<and> ra_good begin region_end s
    \<and> used_tab s = (if begin < rsvd_end then {(begin, rsvd_end - begin, ''Reserved'')} else {})
    \<and> free_space s = {rsvd_end ..< region_end}"
  using region_init_spec [OF assms] by blast

theorem region_init_correct_witness:
  "\<exists>s. region_allocator_init 0xC0000000 0xC0100000 0xFFC00000 = Inr s
     \<and> free_space s = {0xC0100000 ..< 0xFFC00000}"
  using region_init_correct [of "0xC0000000" "0xC0100000" "0xFFC00000"] by (auto simp: dvd_def)

definition wit_zero :: region_state where
  "wit_zero = \<lparr>ra_unused = [5, 4, 3], n_unused = 3, ra_by_addr = [0], ra_by_size = [0], ra_used = [1],
     ra_addr = (\<lambda>d. if d = 0 then 0x1000 else 0x8000), ra_size = (\<lambda>d. if d = 0 then 0x7000 else 0x1000),
     ra_type = (\<lambda>_. ''''), ra_bigger = (\<lambda>_. None)\<rparr>"

text \<open>The size is not checked: a request of zero bytes (or of more than \<open>0xFFFFF000\<close>, which
  \<open>PAGE_ALIGN_UP\<close> wraps to zero) takes an empty region, and when the memory after the chosen free
  region is in use the assertion of \<open>add_used_region\<close> stops the kernel.\<close>

theorem region_alloc_zero_asserts:
  "ra_good 0x1000 0x9000 wit_zero \<and> region_alloc (\<lambda>_. True) 0xFFFFF001 ''b'' wit_zero = Inl Assert_failed"
proof
  have sp: "free_space wit_zero = {0x1000 ..< 0x8000}" "used_space wit_zero = {0x8000 ..< 0x9000}"
    by (simp_all add: free_space_def used_space_def region_bytes_def wit_zero_def)
  show "ra_good 0x1000 0x9000 wit_zero"
    unfolding ra_good_def ra_inv_def sp
    by (auto simp: wit_zero_def free_lists_def pages_def descriptors_def N_BASE_DESCRIPTORS_def
        N_RESERVE_DESCRIPTORS_def dvd_def)
  have "page_up 0xFFFFF001 = 0" by (simp add: page_up_def unat_PAGE_ALIGN_UP)
  then show "region_alloc (\<lambda>_. True) 0xFFFFF001 ''b'' wit_zero = Inl Assert_failed"
    by (simp add: region_alloc_def region_alloc_inner_def Let_def wit_zero_def N_RESERVE_DESCRIPTORS_def
        get_unused_region_descriptor_def remove_free_region_def add_free_region.simps
        insert_free_region_def add_used_region_def add32_def)
qed

end
