(* ===== verification/Paging_Dirs.thy ===== *)
theory Paging_Dirs
  imports Paging_Props Region_Props
begin

text \<open>
  Creation and deletion of page directories (src/kernel/core/paging.c) on top of the frame allocator, the
  region allocator and the tables: what a new address space contains, and which frames come back.
\<close>

section \<open>Pages seen through a mapping\<close>

text \<open>The words of a mapped page are reached at its address plus four times their index.\<close>

lemma aligned_word:
  assumes "4096 dvd a" and "a < 4294967296" and "i < 1024"
  shows "PT_OF_ADDR (of_nat a + of_nat (4 * i)) = PT_OF_ADDR (of_nat a)"
    and "PAGE_OF_ADDR (of_nat a + of_nat (4 * i)) = PAGE_OF_ADDR (of_nat a)"
    and "unat ((of_nat a + of_nat (4 * i)) AND NOT PAGE_MASK) div 4 = i"
proof -
  obtain k where k: "a = k * 4096" using assms(1) by (metis dvd_def mult.commute)
  then have kl: "k < 1048576" using assms(2) by simp
  have ua: "unat (of_nat a :: u32) = a" using assms(2) by (simp only: unat_of_nat) simp
  have "of_nat a + of_nat (4 * i) = (of_nat (a + 4 * i) :: u32)" by simp
  moreover have "a + 4 * i < 4294967296" using k kl assms(3) by simp
  ultimately have u: "unat (of_nat a + of_nat (4 * i) :: u32) = a + 4 * i" by (simp only: unat_of_nat) simp
  have d: "(a + 4 * i) div 4096 = k" using k assms(3) by simp
  have d': "a div 4096 = k" using k by simp
  have "(a + 4 * i) div 4194304 = (a + 4 * i) div 4096 div 1024" "a div 4194304 = a div 4096 div 1024"
    by (simp_all add: div_mult2_eq [symmetric])
  then show "PT_OF_ADDR (of_nat a + of_nat (4 * i)) = PT_OF_ADDR (of_nat a)"
    unfolding PT_OF_ADDR_div u ua by (simp only: d d')
  show "PAGE_OF_ADDR (of_nat a + of_nat (4 * i)) = PAGE_OF_ADDR (of_nat a)"
    unfolding PAGE_OF_ADDR_div u ua by (simp only: d d')
  have "(4 * i + k * 4096) mod 4096 = 4 * i" using assms(3) by (simp only: mod_mult_self1) simp
  then show "unat ((of_nat a + of_nat (4 * i)) AND NOT PAGE_MASK) div 4 = i"
    unfolding page_offset_mod u by (simp add: k add.commute)
qed

lemma translate_mapped:
  assumes st: "settled im D (of_nat a) s" and al: "4096 dvd a" "a < 4294967296" and i: "i < 1024"
    and e: "space im s (cr3_frame s) (of_nat a) = e" "present e"
  shows "translate s (of_nat a + of_nat (4 * i)) = Some (pte_frame e, i)"
proof -
  let ?v = "of_nat a :: u32"
  let ?h = "home im (cr3_frame s) ?v"
  have pr: "present (pg_mem s ?h (PT_OF_ADDR ?v))" and
    pt: "pg_mem s (pte_frame (pg_mem s ?h (PT_OF_ADDR ?v))) (PAGE_OF_ADDR ?v) = e"
    using e by (auto simp: space_unfold Let_def split: if_splits)
  have "present (pg_mem s (cr3_frame s) (PT_OF_ADDR ?v))
      \<and> pte_frame (pg_mem s (cr3_frame s) (PT_OF_ADDR ?v)) = pte_frame (pg_mem s ?h (PT_OF_ADDR ?v))"
    using entry_address [OF st pr] translate_pt_word [OF settledD(6) [OF st] addr_parts_less(1) addr_parts_less(2), of ?v ?v]
    by (auto split: if_splits)
  then show ?thesis using pt e(2) unfolding translate_def aligned_word [OF al i] Let_def by simp
qed

text \<open>Words of a frame that is no directory and no table do not matter.\<close>

lemma fill_other:
  assumes ok: "spaces_ok im D s" and f: "f \<notin> D" "f \<notin> table_of s ` slots im D s"
  shows "spaces_ok im D (fill f A g s)" and "slots im D (fill f A g s) = slots im D s"
    and "d \<in> D \<Longrightarrow> x < PD_MIRROR_ADDR \<Longrightarrow> space im (fill f A g s) d x = space im s d x"
    and "synced im (fill f A g s) y \<longleftrightarrow> synced im s y"
    and "table_of (fill f A g s) ` slots im D s = table_of s ` slots im D s"
proof -
  let ?s = "fill f A g s"
  have dir: "pg_mem ?s d i = pg_mem s d i" if "d \<in> D" for d i using f(1) that by auto
  show "spaces_ok im D ?s" by (rule spaces_ok_cong(1) [OF ok]) (simp_all add: dir del: fill_simps(9))
  show "slots im D ?s = slots im D s" by (rule spaces_ok_cong(2) [OF ok]) (simp_all add: dir del: fill_simps(9))
  show "table_of (fill f A g s) ` slots im D s = table_of s ` slots im D s"
    by (rule image_cong) (simp, rule spaces_ok_cong(3) [OF ok], simp_all add: dir del: fill_simps(9))
  show "synced im ?s y \<longleftrightarrow> synced im s y"
    using spaces_okD(1,2) [OF ok] by (simp add: synced_def dir del: fill_simps(9))
  assume d: "d \<in> D" and x: "x < PD_MIRROR_ADDR"
  have pde: "pg_mem ?s (home im d x) (PT_OF_ADDR x) = pg_mem s (home im d x) (PT_OF_ADDR x)"
    by (rule dir [OF home_in [OF ok d]])
  show "space im ?s d x = space im s d x"
  proof (cases "present (pg_mem s (home im d x) (PT_OF_ADDR x))")
    case True
    have "table_of s (home im d x, PT_OF_ADDR x) \<noteq> f" using slot_of_home [OF ok d x True] f(2) by blast
    then show ?thesis by (simp add: space_unfold pde table_of_def del: fill_simps(9)) (simp add: Let_def)
  qed (simp add: space_unfold pde del: fill_simps(9))
qed

lemma kwrites_page:
  assumes st: "settled im D (of_nat a) s" and al: "4096 dvd a" "a < 4294967296"
    and e: "space im s (cr3_frame s) (of_nat a) = e" "present e"
    and f: "pte_frame e \<notin> D" "pte_frame e \<notin> table_of s ` slots im D s" and "\<forall>i \<in> set is. i < 1024"
  shows "kwrites im (map (\<lambda>i. (of_nat a + of_nat (4 * i), g i)) is) s = Inr (fill (pte_frame e) (set is) g s)"
proof (rule kwrites_fill)
  fix A i
  assume i: "i \<in> set is"
  let ?t = "fill (pte_frame e) A g s"
  note fo = fill_other [OF settledD(1) [OF st] f]
  have "settled im D (of_nat a) ?t" using st fo(1,4) by (simp add: settled_def)
  moreover have "space im ?t (cr3_frame ?t) (of_nat a) = e"
    using fo(3) settledD(3,5) [OF st] e(1) by simp
  ultimately show "translate ?t (of_nat a + of_nat (4 * i)) = Some (pte_frame e, i)"
    using translate_mapped al e(2) i assms(8) by blast
qed


section \<open>A page of a kernel region\<close>

text \<open>The state kernel code runs in: tables in order, all the kernel's tables reachable, a region allocator for the
  kernel's half with descriptors to spare and some space left.\<close>

definition kernel_ready :: "image \<Rightarrow> nat set \<Rightarrow> nat \<Rightarrow> nat \<Rightarrow> paging \<Rightarrow> bool" where
  "kernel_ready im D b e s \<longleftrightarrow> spaces_ok im D s \<and> (\<forall>y. synced im s y)
     \<and> (pg_thread s = None \<longrightarrow> cr3_frame s = kernel_pd im)
     \<and> ra_good b e (pg_regions s) \<and> unat K_HIGHHALF_ADDR \<le> b \<and> e \<le> unat PD_MIRROR_ADDR
     \<and> free_space (pg_regions s) \<noteq> {} \<and> N_RESERVE_DESCRIPTORS < n_unused (pg_regions s)"

lemma kernel_readyD:
  assumes "kernel_ready im D b e s"
  shows "spaces_ok im D s" and "synced im s y" and "pg_thread s = None \<Longrightarrow> cr3_frame s = kernel_pd im"
    and "ra_good b e (pg_regions s)" and "unat K_HIGHHALF_ADDR \<le> b" and "e \<le> unat PD_MIRROR_ADDR"
    and "free_space (pg_regions s) \<noteq> {}" and "N_RESERVE_DESCRIPTORS < n_unused (pg_regions s)"
  using assms by (simp_all add: kernel_ready_def)

lemma kregion_page:
  assumes g: "ra_good b e (pg_regions s)" and lo: "unat K_HIGHHALF_ADDR \<le> b" and hi: "e \<le> unat PD_MIRROR_ADDR"
    and sp: "free_space (pg_regions s) \<noteq> {}" and n: "N_RESERVE_DESCRIPTORS < n_unused (pg_regions s)"
  shows "\<exists>a r. kregion_alloc im (unat PAGE_SIZE) ty s = Inr (a, s\<lparr>pg_regions := r\<rparr>) \<and> ra_good b e r
    \<and> (if a = 0 then used_tab r = used_tab (pg_regions s)
       else 4096 dvd a \<and> a < 4294967296 \<and> K_HIGHHALF_ADDR \<le> of_nat a \<and> (of_nat a :: u32) < PD_MIRROR_ADDR
         \<and> find_region a r = Some (a, 4096, ty) \<and> page_range (of_nat a) (of_nat 4096) = Inr [of_nat a]
         \<and> (\<exists>r'. region_free a r = Inr r' \<and> ra_good b e r' \<and> used_tab r' = used_tab (pg_regions s)))"
proof -
  let ?g = "pg_regions s"
  have any: "region_alloc m 4096 ty ?g = region_alloc (\<lambda>_. False) 4096 ty ?g" for m
    using n by (simp add: region_alloc_def)
  obtain a r where r: "region_alloc (\<lambda>_. False) 4096 ty ?g = Inr (a, r)" "ra_good b e r" "descriptors r \<subseteq> descriptors ?g"
    and c: "if a = 0 then used_tab r = used_tab ?g
       else 4096 dvd a \<and> {a ..< a + 4096} \<subseteq> {b ..< e} - used_space ?g \<and> used_tab r = insert (a, 4096, ty) (used_tab ?g)"
    using region_alloc_spec [OF g _ _ sp, of 4096 "\<lambda>_. False" ty] by (auto simp: page_up_4096 split: if_splits)
  have "descriptor_page ?g = None" using n by (simp add: descriptor_page_def)
  then have run: "kregion_alloc im (unat PAGE_SIZE) ty s = Inr (a, s\<lparr>pg_regions := r\<rparr>)"
    using r(1) any [of "\<lambda>_. True"] by (simp add: kregion_alloc_def PAGE_SIZE_def)
  show ?thesis
  proof (cases "a = 0")
    case False
    then have a: "4096 dvd a" "{a ..< a + 4096} \<subseteq> {b ..< e} - used_space ?g" "used_tab r = insert (a, 4096, ty) (used_tab ?g)"
      using c by simp_all
    have in_be: "b \<le> a" "a + 4096 \<le> e" using subsetD [OF a(2), of a] subsetD [OF a(2), of "a + 4095"] by auto
    then have al: "a + 4096 \<le> 4290772992" "3221225472 \<le> a" using lo hi by (simp_all add: PD_MIRROR_ADDR_def K_HIGHHALF_ADDR_def)
    then have ua: "unat (of_nat a :: u32) = a" by (simp only: unat_of_nat) simp
    have kr: "K_HIGHHALF_ADDR \<le> of_nat a" "(of_nat a :: u32) < PD_MIRROR_ADDR"
      using al ua by (simp_all add: word_le_nat_alt word_less_nat_alt K_HIGHHALF_ADDR_def PD_MIRROR_ADDR_def)
    have inv: "ra_inv b e r" and tab: "(a, 4096, ty) \<in> used_tab r" using r(2) a(3) by (simp_all add: ra_good_def)
    have it: "a \<in> {a ..< a + 4096}" by simp
    have fr: "find_region a r = Some (a, 4096, ty)"
      using find_used_of_tab [OF inv tab it] by (auto simp: find_region_def)
    have "of_nat a + (of_nat 4096 :: u32) = of_nat (a + 4096)" by simp
    moreover have "unat (of_nat (a + 4096) :: u32) = a + 4096" using al by (simp only: unat_of_nat) simp
    ultimately have ub: "unat (of_nat a + of_nat 4096 :: u32) = a + 4096" by simp
    have "\<not> of_nat a + (of_nat 4096 :: u32) \<le> of_nat a" unfolding word_le_nat_alt ua ub by simp
    then have pr: "page_range (of_nat a) (of_nat 4096) = Inr [of_nat a]"
      unfolding page_range_def by (subst pages_from.simps, subst pages_from.simps) (simp add: PAGE_SIZE_def)
    have clean: "descriptors r \<inter> {a ..< a + 4096} = {}"
    proof -
      have "d < N_BASE_DESCRIPTORS \<or> d \<in> used_space ?g" if "d \<in> descriptors r" for d
        using that r(3) g by (auto simp: ra_good_def ra_inv_def)
      then show ?thesis using a(2) al(2) by (fastforce simp: N_BASE_DESCRIPTORS_def)
    qed
    obtain r' where r': "region_free_inner a r = Inr r'" "ra_inv b e r'" "used_tab r' = used_tab r - {(a, 4096, ty)}"
      "n_unused r \<le> n_unused r'" using region_free_inner_spec [OF inv tab it clean] by blast
    have "(a, 4096, ty) \<notin> used_tab ?g" using a(2) unfolding used_space_tab by fastforce
    then have "used_tab r' = used_tab ?g" using r'(3) a(3) by simp
    then have "region_free a r = Inr r' \<and> ra_good b e r' \<and> used_tab r' = used_tab ?g"
      using r' r(2) by (auto simp: region_free_def ra_good_def)
    then show ?thesis using run r(2) False a(1) al kr fr pr by auto
  qed (use run r c in auto)
qed


section \<open>A new directory\<close>

text \<open>The words written into the frame of a new directory.\<close>

definition new_dir_word :: "image \<Rightarrow> nat \<Rightarrow> paging \<Rightarrow> nat \<Rightarrow> u32" where
  "new_dir_word im f s i =
     (if i = 1023 then of_nat f * PAGE_SIZE OR PTE_PRESENT OR PTE_RW
      else if 768 \<le> i then pg_mem s (kernel_pd im) i else 0)"

lemma mirror_entry:
  assumes "f < 1048576"
  shows "present (of_nat f * PAGE_SIZE OR PTE_PRESENT OR PTE_RW)" and "pte_frame (of_nat f * PAGE_SIZE OR PTE_PRESENT OR PTE_RW) = f"
proof -
  have "of_nat f * PAGE_SIZE = push_bit PTE_FRAME_SHIFT (of_nat f)"
    by (simp add: PAGE_SIZE_def PTE_FRAME_SHIFT_def push_bit_eq_mult)
  moreover have "bit (PTE_PRESENT OR PTE_RW) 0" "drop_bit 12 (PTE_PRESENT OR PTE_RW) = 0" by (simp_all add: pte_flags)
  ultimately show "present (of_nat f * PAGE_SIZE OR PTE_PRESENT OR PTE_RW)" "pte_frame (of_nat f * PAGE_SIZE OR PTE_PRESENT OR PTE_RW) = f"
    using entry_parts [OF assms] by simp_all
qed

lemma pte_frame_phys: "f < 1048576 \<Longrightarrow> pte_frame (of_nat f * PAGE_SIZE) = f"
  using entry_parts(2) [of f 1]
proof -
  assume f: "f < 1048576"
  have "unat (of_nat f * PAGE_SIZE) = f * 4096"
  proof -
    have "of_nat f * PAGE_SIZE = of_nat (f * 4096)" by (simp add: PAGE_SIZE_def)
    moreover have "f * 4096 < 4294967296" using f by simp
    ultimately show ?thesis by (simp only: unat_of_nat) simp
  qed
  then show ?thesis unfolding pte_frame_def PTE_FRAME_SHIFT_def unat_drop_bit_u32 by simp
qed

text \<open>Three passes fill the frame: zeros, the kernel's tables, the mirror.\<close>

lemma write_new_dir:
  assumes st: "settled im D (of_nat a) s" and al: "4096 dvd a" "a < 4294967296"
    and e: "space im s (cr3_frame s) (of_nat a) = e" "present e"
    and f: "pte_frame e = f" "f \<notin> D" "f \<notin> table_of s ` slots im D s"
  shows "kwrites im (new_pd_words im a (of_nat f * PAGE_SIZE) s) s = Inr (fill f {..<1024} (new_dir_word im f s) s)"
proof -
  let ?w = "new_dir_word im f s"
  let ?a = "\<lambda>i. of_nat a + of_nat (4 * i) :: u32"
  define s1 where "s1 = fill f {0..<1024} (\<lambda>_. 0) s"
  define s2 where "s2 = fill f {768..<1023} ?w s1"
  have stay: "settled im D (of_nat a) (fill f A g t) \<and> space im (fill f A g t) (cr3_frame (fill f A g t)) (of_nat a) = e
      \<and> f \<notin> table_of (fill f A g t) ` slots im D (fill f A g t)"
    if t: "settled im D (of_nat a) t" "space im t (cr3_frame t) (of_nat a) = e" "f \<notin> table_of t ` slots im D t" for A g t
    using fill_other [OF settledD(1) [OF t(1)] f(2) t(3)] settledD(3,5) [OF t(1)] t
    by (simp add: settled_def)
  have t1: "settled im D (of_nat a) s1" "space im s1 (cr3_frame s1) (of_nat a) = e" "f \<notin> table_of s1 ` slots im D s1"
    using stay [OF st e(1) f(3)] by (simp_all add: s1_def)
  have t2: "settled im D (of_nat a) s2" "space im s2 (cr3_frame s2) (of_nat a) = e" "f \<notin> table_of s2 ` slots im D s2"
    using stay [OF t1] by (simp_all add: s2_def)
  have w: "kwrites im (map (\<lambda>i. (?a i, g i)) is) t = Inr (fill f (set is) g t)"
    if "settled im D (of_nat a) t" "space im t (cr3_frame t) (of_nat a) = e" "f \<notin> table_of t ` slots im D t"
      "\<forall>i \<in> set is. i < 1024" for g "is" t
    using kwrites_page [OF that(1) al that(2) e(2) _ _ that(4), of g] f that(3) by simp
  have k0: "kwrites im (map (\<lambda>i. (?a i, 0)) [0..<1024]) s = Inr s1"
    unfolding s1_def set_upt [symmetric] by (rule w [OF st e(1) f(3)]) (auto simp only: set_upt atLeastLessThan_iff)
  have k1: "kwrites im (map (\<lambda>i. (?a i, ?w i)) [768..<1023]) s1 = Inr s2"
    unfolding s2_def set_upt [symmetric] by (rule w [OF t1]) (simp only: set_upt atLeastLessThan_iff, simp)
  have k2: "kwrites im (map (\<lambda>i. (?a i, ?w i)) [1023]) s2 = Inr (fill f (set [1023]) ?w s2)"
    by (rule w [OF t2]) simp
  have m1: "map (\<lambda>i. (?a i, pg_mem s (kernel_pd im) i)) [768..<1023] = map (\<lambda>i. (?a i, ?w i)) [768..<1023]"
    by (rule map_cong [OF refl]) (simp only: set_upt atLeastLessThan_iff new_dir_word_def, simp)
  have m2: "[(?a 1023, of_nat f * PAGE_SIZE OR PTE_PRESENT OR PTE_RW)] = map (\<lambda>i. (?a i, ?w i)) [1023]"
    by (simp add: new_dir_word_def)
  have n: "N_PAGES_IN_PT - 1 = 1023" "N_PAGES_IN_PT = 1024" by (simp_all add: N_PAGES_IN_PT_def)
  have "kwrites im (new_pd_words im a (of_nat f * PAGE_SIZE) s) s = Inr (fill f (set [1023]) ?w s2)"
    unfolding new_pd_words_def n(1) FIRST_KERNEL_PT_eq m1 m2 kwrites_append unfolding n(2) by (simp only: k0 k1 k2 rbind_simps)
  also have "fill f (set [1023]) ?w s2 = fill f {..<1024} ?w s"
    by (auto simp: s2_def s1_def fill_def fun_eq_iff new_dir_word_def)
  finally show ?thesis .
qed

text \<open>The frame so filled is one more directory, with nothing in its lower half.\<close>

lemma spaces_insert:
  assumes ok: "spaces_ok im D s" and f: "f \<notin> D" "f \<notin> table_of s ` slots im D s" "f \<in> used_set (pg_frames s)" "f < 1048576" "f \<noteq> 0"
  defines "t \<equiv> fill f {..<1024} (new_dir_word im f s) s"
  shows "spaces_ok im (insert f D) t" and "x < K_HIGHHALF_ADDR \<Longrightarrow> space im t f x = 0"
    and "d \<in> D \<Longrightarrow> x < PD_MIRROR_ADDR \<Longrightarrow> space im t d x = space im s d x"
    and "slots im (insert f D) t = slots im D s" and "synced im t y \<longleftrightarrow> synced im s y"
    and "table_of t ` slots im D s = table_of s ` slots im D s"
proof -
  note fo = fill_other [OF ok f(1,2), where A = "{..<1024}" and g = "new_dir_word im f s", folded t_def]
  have K: "kernel_pd im \<in> D" by (rule spaces_okD(1) [OF ok])
  have w: "pg_mem t f i = new_dir_word im f s i" if "i < 1024" for i using that by (simp add: t_def)
  have k: "pg_mem t d i = pg_mem s d i" if "d \<in> D" for d i using that f(1) by (auto simp: t_def)
  have low: "\<not> present (pg_mem t f i)" if "i < 768" for i using that by (simp add: w new_dir_word_def)
  have fK: "f \<noteq> kernel_pd im" using K f(1) by blast
  show sl: "slots im (insert f D) t = slots im D s"
    using fo(2) low fK by (auto simp: slots_def)
  show "synced im t y \<longleftrightarrow> synced im s y" by (rule fo(4))
  show "table_of t ` slots im D s = table_of s ` slots im D s" by (rule fo(5))
  show "space im t d x = space im s d x" if "d \<in> D" "x < PD_MIRROR_ADDR" by (rule fo(3) [OF that])
  show "space im t f x = 0" if x: "x < K_HIGHHALF_ADDR"
  proof -
    have "PT_OF_ADDR x < 768" using high_iff_pt [of x] x by (simp add: not_le [symmetric])
    moreover have "\<not> K_HIGHHALF_ADDR \<le> x" using x by simp
    ultimately show ?thesis using low by (simp add: space_unfold home_def Let_def)
  qed
  have "mirrored t f" using mirror_entry [OF f(4)] by (simp add: mirrored_def w new_dir_word_def)
  moreover have "shares_kernel im t f" by (auto simp: shares_kernel_def w k [OF K] new_dir_word_def)
  moreover have "cr3_frame t = cr3_frame s" "pg_frames t = pg_frames s" by (simp_all add: t_def)
  moreover have "table_of t ` slots im D s = table_of s ` slots im D s" by (rule fo(5))
  ultimately show "spaces_ok im (insert f D) t"
    using fo(1,2) f by (simp add: spaces_ok_def sl)
qed


text \<open>Giving back one frame that holds neither a directory nor a table.\<close>

lemma release_spec:
  assumes ok: "spaces_ok im D s" and f: "f \<in> used_set (pg_frames s)" "f \<noteq> 0" "f \<notin> D" "f \<notin> table_of s ` slots im D s"
  shows "\<exists>s'. release_pd_frame f s = Inr s' \<and> spaces_ok im D s' \<and> used_set (pg_frames s') = used_set (pg_frames s) - {f}
    \<and> pg_mem s' = pg_mem s \<and> same_rest s s'"
proof -
  obtain fr where fr: "frame_free (of_nat f) 1 (pg_frames s) = Inr fr" "frame_ok fr" "used_set fr = used_set (pg_frames s) - {f}"
    using frame_free_law [OF spaces_okD(9) [OF ok] f(1,2)] by blast
  have "nframes fr \<le> 1048576"
  proof -
    have "nframes fr = nframes (pg_frames s)" by (rule frame_free_nframes [OF fr(1)])
    then show ?thesis using spaces_okD(10) [OF ok] by simp
  qed
  moreover have "D \<union> table_of s ` slots im D s \<subseteq> used_set fr"
    unfolding fr(3) using spaces_okD(7) [OF ok] f(3,4) by blast
  ultimately have "spaces_ok im D (s\<lparr>pg_frames := fr\<rparr>)" using frames_update(1) [OF ok fr(2)] by blast
  then show ?thesis using fr by (simp add: release_pd_frame_def same_rest_def)
qed

lemma spaces_ok_rest:
  "spaces_ok im D (s\<lparr>pg_regions := r\<rparr>) = spaces_ok im D s" "spaces_ok im D (s\<lparr>pg_heap := h\<rparr>) = spaces_ok im D s"
  "spaces_ok im D (s\<lparr>pg_dirs := ds, pg_next := k\<rparr>) = spaces_ok im D s"
  "space im (s\<lparr>pg_regions := r\<rparr>) d x = space im s d x" "space im (s\<lparr>pg_heap := h\<rparr>) d x = space im s d x"
  "space im (s\<lparr>pg_dirs := ds, pg_next := k\<rparr>) d x = space im s d x"
  "synced im (s\<lparr>pg_regions := r\<rparr>) y = synced im s y" "synced im (s\<lparr>pg_heap := h\<rparr>) y = synced im s y"
  "synced im (s\<lparr>pg_dirs := ds, pg_next := k\<rparr>) y = synced im s y"
  "cr3_frame (s\<lparr>pg_regions := r\<rparr>) = cr3_frame s" "cr3_frame (s\<lparr>pg_heap := h\<rparr>) = cr3_frame s"
  "cr3_frame (s\<lparr>pg_dirs := ds, pg_next := k\<rparr>) = cr3_frame s"
proof -
  have same: "spaces_ok im D t = spaces_ok im D s \<and> space im t d x = space im s d x \<and> synced im t y = synced im s y
      \<and> cr3_frame t = cr3_frame s"
    if "pg_mem t = pg_mem s" "pg_cr3 t = pg_cr3 s" "pg_frames t = pg_frames s" for t
  proof -
    have c: "cr3_frame t = cr3_frame s" using that by (simp add: cr3_frame_def)
    have "slots im D t = slots im D s" "table_of t = table_of s" "mirrored t = mirrored s" "shares_kernel im t = shares_kernel im s"
      using that by (simp_all add: slots_def table_of_def mirrored_def shares_kernel_def fun_eq_iff)
    then show ?thesis using that c by (simp add: spaces_ok_def space_unfold synced_def)
  qed
  note a = same [of "s\<lparr>pg_regions := r\<rparr>"] and b = same [of "s\<lparr>pg_heap := h\<rparr>"] and c = same [of "s\<lparr>pg_dirs := ds, pg_next := k\<rparr>"]
  show "spaces_ok im D (s\<lparr>pg_regions := r\<rparr>) = spaces_ok im D s" "space im (s\<lparr>pg_regions := r\<rparr>) d x = space im s d x"
    "synced im (s\<lparr>pg_regions := r\<rparr>) y = synced im s y" "cr3_frame (s\<lparr>pg_regions := r\<rparr>) = cr3_frame s" using a by simp_all
  show "spaces_ok im D (s\<lparr>pg_heap := h\<rparr>) = spaces_ok im D s" "space im (s\<lparr>pg_heap := h\<rparr>) d x = space im s d x"
    "synced im (s\<lparr>pg_heap := h\<rparr>) y = synced im s y" "cr3_frame (s\<lparr>pg_heap := h\<rparr>) = cr3_frame s" using b by simp_all
  show "spaces_ok im D (s\<lparr>pg_dirs := ds, pg_next := k\<rparr>) = spaces_ok im D s"
    "space im (s\<lparr>pg_dirs := ds, pg_next := k\<rparr>) d x = space im s d x"
    "synced im (s\<lparr>pg_dirs := ds, pg_next := k\<rparr>) y = synced im s y"
    "cr3_frame (s\<lparr>pg_dirs := ds, pg_next := k\<rparr>) = cr3_frame s" using c by simp_all
qed

lemma mem_cong:
  assumes "pg_mem s' = pg_mem s"
  shows "space im s' d x = space im s d x" and "tables im D s' = tables im D s" and "slots im D s' = slots im D s"
    and "table_of s' = table_of s"
  using assms by (simp_all add: space_unfold tables_def slots_def table_of_def fun_eq_iff)

lemma low_other_page: "x < K_HIGHHALF_ADDR \<Longrightarrow> K_HIGHHALF_ADDR \<le> v \<Longrightarrow> \<not> same_page x v"
  using high_iff_pt [of x] high_iff_pt [of v] by (auto simp: same_page_def not_le [symmetric])

lemma low_below_mirror: "x < K_HIGHHALF_ADDR \<Longrightarrow> x < PD_MIRROR_ADDR"
  by (simp add: K_HIGHHALF_ADDR_def PD_MIRROR_ADDR_def word_less_nat_alt)

text \<open>Taking a frame.\<close>

lemma take_frame:
  assumes ok: "spaces_ok im D s"
  shows "\<exists>f fr. frame_alloc 1 (pg_frames s) = Inr (f, fr)
    \<and> spaces_ok im D (s\<lparr>pg_frames := fr\<rparr>) \<and> (\<forall>y. synced im (s\<lparr>pg_frames := fr\<rparr>) y = synced im s y)
    \<and> (f = 0 \<and> used_set fr = used_set (pg_frames s)
       \<or> f \<noteq> 0 \<and> f < 1048576 \<and> f \<notin> used_set (pg_frames s) \<and> used_set fr = insert f (used_set (pg_frames s))
         \<and> f \<notin> D \<and> f \<notin> tables im D s)"
proof -
  obtain f fr where al: "frame_alloc 1 (pg_frames s) = Inr (f, fr)" "frame_ok fr" "nframes fr = nframes (pg_frames s)"
    and cs: "f = 0 \<and> used_set fr = used_set (pg_frames s)
      \<or> f \<noteq> 0 \<and> run_at (pg_frames s) 1 f \<and> used_set fr = insert f (used_set (pg_frames s)) \<and> f \<notin> used_set (pg_frames s)"
    using frame_alloc_law [OF spaces_okD(9) [OF ok], of 1] by fastforce
  have "f < 1048576" if "run_at (pg_frames s) 1 f" using that spaces_okD(10) [OF ok] by (auto simp: run_at_def)
  moreover have "f \<notin> D \<and> f \<notin> tables im D s" if "f \<notin> used_set (pg_frames s)"
    using that spaces_okD(7) [OF ok] by (auto simp: tables_def)
  moreover have "D \<union> table_of s ` slots im D s \<subseteq> used_set fr" using cs spaces_okD(7) [OF ok] by blast
  ultimately show ?thesis
    using al cs frames_update [OF ok al(2)] spaces_okD(10) [OF ok] by auto
qed

text \<open>What \<open>create_pagedir\<close> leaves when it fails after taking the frame: everything as before but for tables of
  the kernel.\<close>

definition create_undone :: "image \<Rightarrow> nat set \<Rightarrow> paging \<Rightarrow> paging \<Rightarrow> bool" where
  "create_undone im D s s' \<longleftrightarrow> spaces_ok im D s' \<and> used_tab (pg_regions s') = used_tab (pg_regions s)
     \<and> hp_live (pg_heap s') = hp_live (pg_heap s) \<and> pg_dirs s' = pg_dirs s
     \<and> (\<forall>d \<in> D. \<forall>x < K_HIGHHALF_ADDR. space im s' d x = space im s d x)
     \<and> (\<exists>T. T \<inter> used_set (pg_frames s) = {} \<and> tables im D s' = tables im D s \<union> T
           \<and> used_set (pg_frames s') = used_set (pg_frames s) \<union> T)"

definition directory_made :: "image \<Rightarrow> nat set \<Rightarrow> paging \<Rightarrow> nat option \<Rightarrow> nat \<Rightarrow> nat \<Rightarrow> paging \<Rightarrow> bool" where
  "directory_made im D s pf pfd a s' \<longleftrightarrow> used_tab (pg_regions s') = used_tab (pg_regions s)
     \<and> hp_live (pg_heap s') = hp_live (pg_heap s) + 1 \<and> a = pg_next s
     \<and> (\<forall>d \<in> D. \<forall>x < K_HIGHHALF_ADDR. space im s' d x = space im s d x)
     \<and> (\<exists>f T. f < 1048576 \<and> f \<notin> used_set (pg_frames s) \<union> T \<and> T \<inter> used_set (pg_frames s) = {}
           \<and> pg_dirs s' = (pg_dirs s)(a \<mapsto> \<lparr>phys_addr = of_nat f * PAGE_SIZE, user_pfh = pf, user_pfh_data = pfd\<rparr>)
           \<and> spaces_ok im (insert f D) s' \<and> tables im (insert f D) s' = tables im D s \<union> T
           \<and> used_set (pg_frames s') = insert f (used_set (pg_frames s) \<union> T)
           \<and> (\<forall>x < K_HIGHHALF_ADDR. space im s' f x = 0))"

lemma undo_frame:
  assumes ok: "spaces_ok im D t" and f: "f \<noteq> 0" "f \<notin> used_set (pg_frames s)" "f \<notin> D" "f \<notin> tables im D t" "f \<notin> T"
    and u: "used_set (pg_frames t) = insert f (used_set (pg_frames s) \<union> T)" "T \<inter> used_set (pg_frames s) = {}"
    and tb: "tables im D t = tables im D s \<union> T" and sp: "\<forall>d \<in> D. \<forall>x < K_HIGHHALF_ADDR. space im t d x = space im s d x"
    and dirs: "pg_dirs t = pg_dirs s"
  shows "\<exists>t'. release_pd_frame f t = Inr t' \<and> pg_regions t' = pg_regions t \<and> pg_heap t' = pg_heap t
    \<and> (\<forall>h r. used_tab r = used_tab (pg_regions s) \<and> hp_live h = hp_live (pg_heap s) \<longrightarrow>
         create_undone im D s (t'\<lparr>pg_heap := h, pg_regions := r\<rparr>))"
proof -
  obtain t' where t': "release_pd_frame f t = Inr t'" "spaces_ok im D t'" "used_set (pg_frames t') = used_set (pg_frames t) - {f}"
    "pg_mem t' = pg_mem t" "same_rest t t'"
    using release_spec [OF ok _ f(1,3)] u(1) f(4) by (auto simp: tables_def)
  have "used_set (pg_frames t') = used_set (pg_frames s) \<union> T" unfolding t'(3) u(1) using f(2,5) by blast
  moreover have "create_undone im D s (t'\<lparr>pg_heap := h, pg_regions := r\<rparr>)"
    if "used_tab r = used_tab (pg_regions s)" "hp_live h = hp_live (pg_heap s)" for h r
  proof -
    let ?t = "t'\<lparr>pg_heap := h, pg_regions := r\<rparr>"
    have m: "pg_mem ?t = pg_mem t" using t'(4) by simp
    show ?thesis
      unfolding create_undone_def mem_cong [OF m] unfolding spaces_ok_rest
      using that t'(2,5) sp tb u(2) calculation dirs by (auto simp: same_rest_def)
  qed
  ultimately show ?thesis using t'(1,5) by (auto simp: same_rest_def)
qed


text \<open>The situation once the frame \<open>f\<close> and the page \<open>temp\<close> are taken; \<open>s\<close> is the state at the start and
  \<open>T\<close> the tables the kernel has got since.\<close>

definition pd_window :: "nat \<Rightarrow> region_state \<Rightarrow> region_state \<Rightarrow> bool" where
  "pd_window temp r r' \<longleftrightarrow> 4096 dvd temp \<and> temp < 4294967296 \<and> K_HIGHHALF_ADDR \<le> of_nat temp \<and> (of_nat temp :: u32) < PD_MIRROR_ADDR
     \<and> find_region temp r = Some (temp, 4096, ''Temporary pagedir mapping'')
     \<and> page_range (of_nat temp) (of_nat 4096) = Inr [of_nat temp] \<and> region_free temp r = Inr r'"

lemma pd_windowD:
  assumes "pd_window temp r r'"
  shows "4096 dvd temp" "temp < 4294967296" "K_HIGHHALF_ADDR \<le> of_nat temp" "(of_nat temp :: u32) < PD_MIRROR_ADDR"
    "find_region temp r = Some (temp, 4096, ''Temporary pagedir mapping'')"
    "page_range (of_nat temp) (of_nat 4096) = Inr [of_nat temp]" "region_free temp r = Inr r'"
  using assms by (simp_all add: pd_window_def)

definition dir_taken :: "image \<Rightarrow> nat set \<Rightarrow> nat \<Rightarrow> nat set \<Rightarrow> paging \<Rightarrow> paging \<Rightarrow> bool" where
  "dir_taken im D f T s t \<longleftrightarrow> spaces_ok im D t \<and> (\<forall>y. synced im t y)
     \<and> (pg_thread t = None \<longrightarrow> cr3_frame t = kernel_pd im)
     \<and> f \<noteq> 0 \<and> f < 1048576 \<and> f \<notin> used_set (pg_frames s) \<and> f \<notin> D \<and> f \<notin> tables im D t \<and> f \<notin> T
     \<and> used_set (pg_frames t) = insert f (used_set (pg_frames s) \<union> T) \<and> T \<inter> used_set (pg_frames s) = {}
     \<and> tables im D t = tables im D s \<union> T \<and> (\<forall>d \<in> D. \<forall>x < K_HIGHHALF_ADDR. space im t d x = space im s d x)
     \<and> pg_dirs t = pg_dirs s \<and> pg_next t = pg_next s"

lemma dir_takenD:
  assumes "dir_taken im D f T s t"
  shows "spaces_ok im D t" "synced im t y" "pg_thread t = None \<Longrightarrow> cr3_frame t = kernel_pd im"
    "f \<noteq> 0" "f < 1048576" "f \<notin> used_set (pg_frames s)" "f \<notin> D" "f \<notin> tables im D t" "f \<notin> T"
    "used_set (pg_frames t) = insert f (used_set (pg_frames s) \<union> T)" "T \<inter> used_set (pg_frames s) = {}"
    "tables im D t = tables im D s \<union> T" "\<forall>d \<in> D. \<forall>x < K_HIGHHALF_ADDR. space im t d x = space im s d x"
    "pg_dirs t = pg_dirs s" "pg_next t = pg_next s"
  using assms unfolding dir_taken_def by blast+

lemma dir_taken_settled: "dir_taken im D f T s t \<Longrightarrow> v < PD_MIRROR_ADDR \<Longrightarrow> settled im D v t"
  by (simp add: dir_taken_def settled_def)

lemma dir_taken_rest: "dir_taken im D f T s (t\<lparr>pg_regions := r\<rparr>) = dir_taken im D f T s t"
  "dir_taken im D f T s (t\<lparr>pg_heap := h\<rparr>) = dir_taken im D f T s t"
proof -
  have "pg_mem (t\<lparr>pg_regions := r\<rparr>) = pg_mem t" "pg_mem (t\<lparr>pg_heap := h\<rparr>) = pg_mem t" by simp_all
  from mem_cong(2) [OF this(1)] mem_cong(2) [OF this(2)]
  show "dir_taken im D f T s (t\<lparr>pg_regions := r\<rparr>) = dir_taken im D f T s t"
    "dir_taken im D f T s (t\<lparr>pg_heap := h\<rparr>) = dir_taken im D f T s t"
    unfolding dir_taken_def spaces_ok_rest by simp_all
qed

lemma undo_taken:
  assumes "dir_taken im D f T s t"
  shows "\<exists>t'. release_pd_frame f t = Inr t' \<and> pg_regions t' = pg_regions t \<and> pg_heap t' = pg_heap t
    \<and> (\<forall>h r. used_tab r = used_tab (pg_regions s) \<and> hp_live h = hp_live (pg_heap s) \<longrightarrow>
         create_undone im D s (t'\<lparr>pg_heap := h, pg_regions := r\<rparr>))"
  using dir_takenD [OF assms] by (intro undo_frame) auto

lemma fill_pagedir_spec:
  assumes tk: "dir_taken im D f T s t" and w: "pd_window temp (pg_regions t) r'" and tab: "used_tab r' = used_tab (pg_regions s)"
    and live: "hp_live (pg_heap t) = hp_live (pg_heap s) + 1"
    and e: "space im t (cr3_frame t) (of_nat temp) = page_entry False f True"
  shows "\<exists>s'. fill_pagedir im pf pfd f temp t = Inr (Some (pg_next s), s') \<and> directory_made im D s pf pfd (pg_next s) s'"
proof -
  note tk' = dir_takenD [OF tk] and w' = pd_windowD [OF w]
  let ?v = "of_nat temp :: u32"
  define pd where "pd = \<lparr>phys_addr = of_nat f * PAGE_SIZE, user_pfh = pf, user_pfh_data = pfd\<rparr>"
  define t1 where "t1 = t\<lparr>pg_dirs := (pg_dirs s)(pg_next s \<mapsto> pd), pg_next := pg_next s + 1\<rparr>"
  define t2 where "t2 = fill f {..<1024} (new_dir_word im f t1) t1"
  have m1: "pg_mem t1 = pg_mem t" by (simp add: t1_def)
  have st1: "settled im D ?v t1"
    using dir_taken_settled [OF tk w'(4)] unfolding settled_def t1_def spaces_ok_rest by simp
  have e1: "space im t1 (cr3_frame t1) ?v = page_entry False f True" unfolding t1_def spaces_ok_rest by (rule e)
  note pe = page_entry_parts [OF tk'(5), of False True]
  have ft: "f \<notin> table_of t1 ` slots im D t1" using tk'(8) by (simp add: tables_def mem_cong [OF m1])
  have wr: "kwrites im (new_pd_words im temp (of_nat f * PAGE_SIZE) t1) t1 = Inr t2"
    unfolding t2_def by (rule write_new_dir [OF st1 w'(1,2) e1 pe(1) pe(2) tk'(7) ft])
  have fu: "f \<in> used_set (pg_frames t1)" using tk'(10) by (simp add: t1_def)
  note si = spaces_insert [OF settledD(1) [OF st1] tk'(7) ft fu tk'(5,4), folded t2_def]
  have c2: "pg_thread t2 = pg_thread t" "cr3_frame t2 = cr3_frame t" "pg_regions t2 = pg_regions t" "pg_heap t2 = pg_heap t"
    "pg_frames t2 = pg_frames t" "pg_dirs t2 = (pg_dirs s)(pg_next s \<mapsto> pd)"
    by (simp_all add: t2_def t1_def cr3_frame_def)
  have sy: "synced im t1 y" for y unfolding t1_def spaces_ok_rest by (rule tk'(2))
  have st2: "settled im (insert f D) ?v t2"
    unfolding settled_def using si(1,5) sy w'(4) tk'(3) c2 by simp
  obtain t3 where un: "pd_unmap_page im ?v t2 = Inr t3" "spaces_ok im (insert f D) t3" "same_rest t2 t3"
      "pg_frames t3 = pg_frames t2" "tables im (insert f D) t3 = tables im (insert f D) t2"
    and sp: "\<forall>d \<in> insert f D. \<forall>x < PD_MIRROR_ADDR. space im t3 d x =
      (if same_page x ?v \<and> home im d x = home im (cr3_frame t2) ?v then 0 else space im t2 d x)"
    using pd_unmap_page_spec [OF st2] by blast
  have r3: "pg_regions t3 = pg_regions t" "pg_heap t3 = pg_heap t" "pg_dirs t3 = (pg_dirs s)(pg_next s \<mapsto> pd)"
    using un(3) c2 by (simp_all add: same_rest_def)
  have ru: "region_free_unmap im temp t2 = Inr (t3\<lparr>pg_regions := r'\<rparr>)"
    using w'(5-7) un(1) c2(3) r3(1) by (simp add: region_free_unmap_def kregion_free_def)
  have run: "fill_pagedir im pf pfd f temp t = Inr (Some (pg_next s), t3\<lparr>pg_regions := r'\<rparr>)"
    using wr ru tk'(14,15) unfolding fill_pagedir_def Let_def
    by (simp add: pd_def [symmetric]) (simp add: pd_def t1_def)
  have tb: "tables im (insert f D) t3 = tables im D s \<union> T"
  proof -
    have "tables im (insert f D) t2 = tables im D t1" unfolding tables_def si(4) by (rule si(6))
    then show ?thesis using tk'(12) un(5) mem_cong(2) [OF m1] by simp
  qed
  have low: "space im t3 d x = (if d = f then 0 else space im s d x)" if "d \<in> insert f D" "x < K_HIGHHALF_ADDR" for d x
  proof -
    have "space im t3 d x = space im t2 d x"
      using bspec [OF sp that(1)] low_other_page [OF that(2) w'(3)] low_below_mirror [OF that(2)] by simp
    moreover have "d \<noteq> f \<Longrightarrow> space im t1 d x = space im s d x" using tk'(13) that by (simp add: mem_cong(1) [OF m1])
    ultimately show ?thesis using si(2) [OF that(2)] si(3) [of d x] that low_below_mirror [OF that(2)] by auto
  qed
  have "directory_made im D s pf pfd (pg_next s) (t3\<lparr>pg_regions := r'\<rparr>)"
    unfolding directory_made_def spaces_ok_rest pd_def [symmetric]
  proof (intro conjI)
    show "\<exists>f T. f < 1048576 \<and> f \<notin> used_set (pg_frames s) \<union> T \<and> T \<inter> used_set (pg_frames s) = {}
       \<and> pg_dirs (t3\<lparr>pg_regions := r'\<rparr>) = (pg_dirs s)(pg_next s \<mapsto> \<lparr>phys_addr = of_nat f * PAGE_SIZE, user_pfh = pf, user_pfh_data = pfd\<rparr>)
       \<and> spaces_ok im (insert f D) t3 \<and> tables im (insert f D) (t3\<lparr>pg_regions := r'\<rparr>) = tables im D s \<union> T
       \<and> used_set (pg_frames (t3\<lparr>pg_regions := r'\<rparr>)) = insert f (used_set (pg_frames s) \<union> T)
       \<and> (\<forall>x < K_HIGHHALF_ADDR. space im t3 f x = 0)"
      using un(2,4) tb mem_cong(2) [of "t3\<lparr>pg_regions := r'\<rparr>" t3] tk'(5,6,9-11) low r3(3) c2(5)
      by (intro exI [of _ f] exI [of _ T]) (simp add: pd_def)
  qed (use low tk'(7) r3(2) live tab in auto)
  then show ?thesis using run by blast
qed

lemma map_pagedir_spec:
  assumes tk: "dir_taken im D f {} s t" and w: "pd_window temp (pg_regions t) r'" and tab: "used_tab r' = used_tab (pg_regions s)"
    and live: "hp_live (pg_heap t) = hp_live (pg_heap s) + 1"
  shows "\<exists>r s'. map_pagedir im pf pfd f temp t = Inr (r, s')
    \<and> (case r of None \<Rightarrow> create_undone im D s s' | Some a \<Rightarrow> directory_made im D s pf pfd a s')"
proof -
  note tk' = dir_takenD [OF tk] and w' = pd_windowD [OF w]
  let ?v = "of_nat temp :: u32"
  note st = dir_taken_settled [OF tk w'(4)]
  obtain mo t1 where mp: "pd_map_page im ?v f True t = Inr (mo, t1)" "spaces_ok im D t1" "same_rest t t1"
      "\<forall>y. synced im t y \<longrightarrow> synced im t1 y"
    and sp: "\<forall>d \<in> D. \<forall>x < PD_MIRROR_ADDR. space im t1 d x =
       (if mo \<and> same_page x ?v \<and> home im d x = home im (cr3_frame t) ?v
        then page_entry (?v < K_HIGHHALF_ADDR) f True else space im t d x)"
    and u: "used_set (pg_frames t1) = used_set (pg_frames t) \<and> tables im D t1 = tables im D t
       \<or> mo \<and> (\<exists>x. x \<notin> used_set (pg_frames t) \<and> used_set (pg_frames t1) = insert x (used_set (pg_frames t))
          \<and> tables im D t1 = insert x (tables im D t))"
    using pd_map_page_spec [OF st tk'(5), of True] by blast
  obtain T where T: "T \<inter> used_set (pg_frames t) = {}" "tables im D t1 = tables im D t \<union> T"
    "used_set (pg_frames t1) = used_set (pg_frames t) \<union> T"
    using u by (metis Int_empty_left Un_empty_right Un_insert_right insert_disjoint(1))
  have r1: "pg_regions t1 = pg_regions t" "pg_heap t1 = pg_heap t" "cr3_frame t1 = cr3_frame t" "pg_thread t1 = pg_thread t"
    "pg_dirs t1 = pg_dirs t" "pg_next t1 = pg_next t"
    using mp(3) by (simp_all add: same_rest_def cr3_frame_def)
  have low: "space im t1 d x = space im s d x" if "d \<in> D" "x < K_HIGHHALF_ADDR" for d x
    using sp low_other_page [OF that(2) w'(3)] low_below_mirror tk'(13) that by simp
  have tk1: "dir_taken im D f T s t1"
    using mp(2,4) T r1 tk' low by (simp add: dir_taken_def)
  show ?thesis
  proof (cases mo)
    case False
    obtain t' where t': "release_pd_frame f t1 = Inr t'" "pg_regions t' = pg_regions t" "pg_heap t' = pg_heap t"
      "\<forall>h r. used_tab r = used_tab (pg_regions s) \<and> hp_live h = hp_live (pg_heap s) \<longrightarrow>
           create_undone im D s (t'\<lparr>pg_heap := h, pg_regions := r\<rparr>)"
      using undo_taken [OF tk1] r1 by auto
    have "create_undone im D s (t'\<lparr>pg_heap := heap_free (pg_heap t), pg_regions := r'\<rparr>)" using t'(4) tab live by simp
    then show ?thesis using mp(1) False t'(1-3) w'(7) by (simp add: map_pagedir_def kregion_free_def)
  next
    case True
    have "\<not> ?v < K_HIGHHALF_ADDR" using w'(3) by simp
    then have "space im t1 (cr3_frame t1) ?v = page_entry False f True"
      using sp True spaces_okD(2) [OF tk'(1)] w'(4) r1(3) by (simp add: same_page_def)
    from fill_pagedir_spec [OF tk1 _ tab _ this, of pf pfd] w live r1 mp(1) True
    show ?thesis by (auto simp: map_pagedir_def)
  qed
qed

lemma create_pagedir_spec:
  assumes rdy: "kernel_ready im D b e s"
  shows "\<exists>r s'. create_pagedir im pf pfd s = Inr (r, s')
    \<and> (case r of None \<Rightarrow> create_undone im D s s' | Some a \<Rightarrow> directory_made im D s pf pfd a s')"
proof -
  note ok = kernel_readyD(1) [OF rdy]
  obtain f fr where al: "frame_alloc 1 (pg_frames s) = Inr (f, fr)" and ok0: "spaces_ok im D (s\<lparr>pg_frames := fr\<rparr>)"
    and sy0: "\<forall>y. synced im (s\<lparr>pg_frames := fr\<rparr>) y = synced im s y"
    and cs: "f = 0 \<and> used_set fr = used_set (pg_frames s)
       \<or> f \<noteq> 0 \<and> f < 1048576 \<and> f \<notin> used_set (pg_frames s) \<and> used_set fr = insert f (used_set (pg_frames s))
         \<and> f \<notin> D \<and> f \<notin> tables im D s"
    using take_frame [OF ok] by blast
  have m: "pg_mem (s\<lparr>pg_frames := fr\<rparr>) = pg_mem s" by simp
  show ?thesis
  proof (cases "f = 0")
    case True
    have "create_undone im D s (s\<lparr>pg_frames := fr\<rparr>)"
      unfolding create_undone_def mem_cong [OF m] using ok0 cs True by (auto intro!: exI [of _ "{}"])
    moreover have "create_pagedir im pf pfd s = Inr (None, s\<lparr>pg_frames := fr\<rparr>)"
      using al True by (simp add: create_pagedir_def)
    ultimately show ?thesis by auto
  next
    case f0: False
    obtain okm h where hm: "heap_malloc (pg_heap s) = (okm, h)" by fastforce
    have live: "hp_live h = hp_live (pg_heap s) + (if okm then 1 else 0)" by (rule heap_malloc_live [OF hm])
    define s1 where "s1 = s\<lparr>pg_frames := fr, pg_heap := h\<rparr>"
    have s1': "s1 = s\<lparr>pg_frames := fr\<rparr>\<lparr>pg_heap := h\<rparr>" by (simp add: s1_def)
    have c1: "cr3_frame (s\<lparr>pg_frames := fr\<rparr>) = cr3_frame s" by (simp add: cr3_frame_def)
    have "dir_taken im D f {} s (s\<lparr>pg_frames := fr\<rparr>)"
      unfolding dir_taken_def mem_cong [OF m] c1 using ok0 sy0 cs f0 kernel_readyD(2,3) [OF rdy] by simp
    then have tk: "dir_taken im D f {} s (s1\<lparr>pg_regions := r\<rparr>)" "dir_taken im D f {} s s1" for r
      by (simp_all only: s1' dir_taken_rest)
    have rg: "pg_regions s1 = pg_regions s" "pg_heap s1 = h" by (simp_all add: s1_def)
    have start: "create_pagedir im pf pfd s = (if \<not> okm then rbind (release_pd_frame f s1) (\<lambda>s2. Inr (None, s2))
        else rbind (kregion_alloc im (unat PAGE_SIZE) ''Temporary pagedir mapping'' s1) (\<lambda>(temp, s2).
               if temp = 0 then rbind (release_pd_frame f s2) (\<lambda>s3. Inr (None, s3\<lparr>pg_heap := heap_free (pg_heap s3)\<rparr>))
               else map_pagedir im pf pfd f temp s2))"
      unfolding create_pagedir_def al using f0 hm by (simp add: s1_def)
    have undo: "\<exists>t'. release_pd_frame f (s1\<lparr>pg_regions := r\<rparr>) = Inr t' \<and> pg_heap t' = h
        \<and> (used_tab r = used_tab (pg_regions s) \<longrightarrow>
             (\<forall>h'. hp_live h' = hp_live (pg_heap s) \<longrightarrow> create_undone im D s (t'\<lparr>pg_heap := h'\<rparr>)))" for r
    proof -
      obtain t' where t': "release_pd_frame f (s1\<lparr>pg_regions := r\<rparr>) = Inr t'" "pg_regions t' = r" "pg_heap t' = h"
        "\<forall>h' r'. used_tab r' = used_tab (pg_regions s) \<and> hp_live h' = hp_live (pg_heap s) \<longrightarrow>
             create_undone im D s (t'\<lparr>pg_heap := h', pg_regions := r'\<rparr>)"
        using undo_taken [OF tk(1), of r] rg(2) by auto
      have "t'\<lparr>pg_heap := h', pg_regions := r\<rparr> = t'\<lparr>pg_heap := h'\<rparr>" for h' using t'(2) by simp
      then show ?thesis using t' by metis
    qed
    show ?thesis
    proof (cases okm)
      case False
      have "s1\<lparr>pg_regions := pg_regions s\<rparr> = s1" using rg(1) by simp
      then obtain t' where t': "release_pd_frame f s1 = Inr t'" "pg_heap t' = h"
        "\<forall>h'. hp_live h' = hp_live (pg_heap s) \<longrightarrow> create_undone im D s (t'\<lparr>pg_heap := h'\<rparr>)"
        using undo [of "pg_regions s"] by auto
      have "t'\<lparr>pg_heap := h\<rparr> = t'" using t'(2) by simp
      then have "create_undone im D s t'" using t'(3) live False by (metis add.right_neutral)
      then show ?thesis using start False t'(1) by simp
    next
      case mok: True
      obtain temp r where kr: "kregion_alloc im (unat PAGE_SIZE) ''Temporary pagedir mapping'' s1 = Inr (temp, s1\<lparr>pg_regions := r\<rparr>)"
        and tc: "if temp = 0 then used_tab r = used_tab (pg_regions s)
          else 4096 dvd temp \<and> temp < 4294967296 \<and> K_HIGHHALF_ADDR \<le> of_nat temp \<and> (of_nat temp :: u32) < PD_MIRROR_ADDR
            \<and> find_region temp r = Some (temp, 4096, ''Temporary pagedir mapping'')
            \<and> page_range (of_nat temp) (of_nat 4096) = Inr [of_nat temp]
            \<and> (\<exists>r'. region_free temp r = Inr r' \<and> ra_good b e r' \<and> used_tab r' = used_tab (pg_regions s))"
        using kregion_page [of b e s1 im "''Temporary pagedir mapping''"] kernel_readyD [OF rdy] unfolding rg by blast
      show ?thesis
      proof (cases "temp = 0")
        case True
        obtain t' where t': "release_pd_frame f (s1\<lparr>pg_regions := r\<rparr>) = Inr t'" "pg_heap t' = h"
          "\<forall>h'. hp_live h' = hp_live (pg_heap s) \<longrightarrow> create_undone im D s (t'\<lparr>pg_heap := h'\<rparr>)"
          using undo [of r] tc True by auto
        then have "create_undone im D s (t'\<lparr>pg_heap := heap_free h\<rparr>)" using live mok by simp
        then show ?thesis using start mok kr True t'(1,2) by simp
      next
        case False
        then obtain r' where "pd_window temp r r'" "used_tab r' = used_tab (pg_regions s)" using tc by (auto simp: pd_window_def)
        then show ?thesis
          using map_pagedir_spec [OF tk(1) [of r], of temp r' pf pfd] start mok kr False live rg(2) by simp
      qed
    qed
  qed
qed


section \<open>Deletion\<close>

text \<open>A directory fewer, with its tables still allocated.\<close>

lemma spaces_remove:
  assumes ok: "spaces_ok im D s" and d: "d \<noteq> kernel_pd im" and c: "cr3_frame s' \<in> D - {d}"
    and m: "pg_mem s' = pg_mem s" "pg_frames s' = pg_frames s"
  shows "spaces_ok im (D - {d}) s'"
proof -
  have sl: "slots im (D - {d}) s' \<subseteq> slots im D s" unfolding mem_cong(3) [OF m(1)] by (auto simp: slots_def)
  have t: "table_of s' = table_of s" by (rule mem_cong(4) [OF m(1)])
  have "mirrored s' = mirrored s" "shares_kernel im s' = shares_kernel im s"
    using m(1) by (simp_all add: mirrored_def shares_kernel_def fun_eq_iff)
  moreover have "inj_on (table_of s') (slots im (D - {d}) s')"
    unfolding t by (rule inj_on_subset [OF spaces_okD(5) [OF ok] sl])
  moreover have sub: "table_of s' ` slots im (D - {d}) s' \<subseteq> table_of s ` slots im D s" unfolding t by (rule image_mono [OF sl])
  moreover have "table_of s' ` slots im (D - {d}) s' \<inter> (D - {d}) = {}" using sub spaces_okD(6) [OF ok] by blast
  moreover have "(D - {d}) \<union> table_of s' ` slots im (D - {d}) s' \<subseteq> used_set (pg_frames s') - {0}"
    using sub spaces_okD(7,8) [OF ok] m(2) by auto
  ultimately show ?thesis
    using spaces_okD(1,3,4,9,10,11) [OF ok] d c m(2) unfolding spaces_ok_def by simp
qed

lemma kreads_mirror:
  assumes m: "mirrored s (cr3_frame s)" and "\<forall>i \<in> set is. i < 1024"
  shows "kreads im (map pd_word is) s = Inr (map (pg_mem s (cr3_frame s)) is, s)"
  using assms(2) by (induction "is") (simp_all add: kread_mapped [OF translate_pd_word [OF m]])

lemma free_tables_spec:
  assumes "spaces_ok im D s" and "\<forall>e \<in> set es. present e \<longrightarrow> pte_frame e \<in> used_set (pg_frames s)
      \<and> pte_frame e \<noteq> 0 \<and> pte_frame e \<notin> D \<and> pte_frame e \<notin> table_of s ` slots im D s"
    and "distinct (map pte_frame (filter present es))"
  shows "\<exists>s'. free_tables es s = Inr s' \<and> spaces_ok im D s' \<and> pg_mem s' = pg_mem s \<and> same_rest s s'
    \<and> used_set (pg_frames s') = used_set (pg_frames s) - pte_frame ` {e \<in> set es. present e}"
  using assms
proof (induction es arbitrary: s)
  case Nil
  then show ?case by simp
next
  case (Cons e es)
  show ?case
  proof (cases "present e")
    case False
    then have "{x \<in> set (e # es). present x} = {x \<in> set es. present x}" by auto
    then show ?thesis using Cons.IH [OF Cons.prems(1)] Cons.prems(2,3) False by simp
  next
    case True
    obtain s1 where s1: "release_pd_frame (pte_frame e) s = Inr s1" "spaces_ok im D s1"
      "used_set (pg_frames s1) = used_set (pg_frames s) - {pte_frame e}" "pg_mem s1 = pg_mem s" "same_rest s s1"
      using release_spec [OF Cons.prems(1), of "pte_frame e"] Cons.prems(2) True by auto
    have "pte_frame e \<notin> pte_frame ` {x \<in> set es. present x}" using Cons.prems(3) True by simp
    then have "pte_frame x \<noteq> pte_frame e" if "x \<in> set es" "present x" for x using that by (metis (mono_tags) imageI mem_Collect_eq)
    then have "\<forall>x \<in> set es. present x \<longrightarrow> pte_frame x \<in> used_set (pg_frames s1)
      \<and> pte_frame x \<noteq> 0 \<and> pte_frame x \<notin> D \<and> pte_frame x \<notin> table_of s1 ` slots im D s1"
      unfolding s1(3) mem_cong(3,4) [OF s1(4)] using Cons.prems(2) by simp
    moreover have "distinct (map pte_frame (filter present es))" using Cons.prems(3) True by simp
    ultimately obtain s2 where s2: "free_tables es s1 = Inr s2" "spaces_ok im D s2" "pg_mem s2 = pg_mem s1" "same_rest s1 s2"
      "used_set (pg_frames s2) = used_set (pg_frames s1) - pte_frame ` {x \<in> set es. present x}"
      using Cons.IH [OF s1(2)] by blast
    have "{x \<in> set (e # es). present x} = insert e {x \<in> set es. present x}" using True by auto
    then show ?thesis using s1 s2 True by (auto simp: same_rest_def)
  qed
qed

text \<open>The tables of the lower half of a directory.\<close>

definition user_tables :: "paging \<Rightarrow> nat \<Rightarrow> nat set" where
  "user_tables s d = (\<lambda>i. pte_frame (pg_mem s d i)) ` {i. i < 768 \<and> present (pg_mem s d i)}"

lemma delete_pagedir_spec:
  assumes ok: "spaces_ok im D s" and d: "d \<in> D" "d \<noteq> kernel_pd im"
    and a: "pg_dirs s a = Some pd" "pte_frame (phys_addr pd) = d"
    and q: "q = (if get_current_pagedir s = a then KERNEL_PD_D else get_current_pagedir s)"
      "pg_dirs s q = Some pq" "pte_frame (phys_addr pq) \<in> D - {d}"
  shows "\<exists>s'. delete_pagedir im a s = Inr s' \<and> spaces_ok im (D - {d}) s'
    \<and> used_set (pg_frames s') = used_set (pg_frames s) - insert d (user_tables s d)
    \<and> hp_live (pg_heap s') = hp_live (pg_heap s) - 1 \<and> pg_dirs s' = (pg_dirs s)(a := None)
    \<and> cr3_frame s' = pte_frame (phys_addr pq) \<and> (\<forall>x v. space im s' x v = space im s x v)"
proof -
  define s1 where "s1 = s\<lparr>pg_cr3 := phys_addr pd, pg_thread := (case pg_thread s of None \<Rightarrow> None | Some _ \<Rightarrow> Some a)\<rparr>"
  define s2 where "s2 = s1\<lparr>pg_cr3 := phys_addr pq, pg_thread := (case pg_thread s1 of None \<Rightarrow> None | Some _ \<Rightarrow> Some q)\<rparr>"
  define es where "es = map (pg_mem s d) [0..<768]"
  have es: "set es = pg_mem s d ` {0..<768}" unfolding es_def by (simp only: set_map set_upt)
  have c1: "cr3_frame s1 = d" "pg_mem s1 = pg_mem s" "pg_dirs s1 = pg_dirs s"
    using a(2) by (simp_all add: s1_def cr3_frame_def)
  have c2: "cr3_frame s2 = pte_frame (phys_addr pq)" "pg_mem s2 = pg_mem s" "pg_frames s2 = pg_frames s"
    "pg_dirs s2 = pg_dirs s" "pg_heap s2 = pg_heap s"
    by (simp_all add: s2_def s1_def cr3_frame_def)
  have md: "mirrored s d" by (rule spaces_okD(3) [OF ok d(1)])
  have sw: "switch_pagedir a s = Inr s1" "switch_pagedir q s1 = Inr s2"
    using a(1) q(2) by (simp_all add: switch_pagedir_def s1_def s2_def)
  have "mirrored s1 (cr3_frame s1)" using md c1 by (simp add: mirrored_def)
  from kreads_mirror [OF this, of "[0..<1024]"]
  have rd: "kreads im (map pd_word [0..<1024]) s1 = Inr (map (pg_mem s d) [0..<1024], s1)" by (simp add: c1)
  have ok2: "spaces_ok im (D - {d}) s2" by (rule spaces_remove [OF ok d(2)]) (use q(3) c2 in simp_all)
  have slot: "(d, i) \<in> slots im D s" if "i < 768" "present (pg_mem s d i)" for i
    using that d(1) by (simp add: slots_def)
  have tb: "table_of s (d, i) = pte_frame (pg_mem s d i)" for i by (simp add: table_of_def)
  have kept: "x \<in> slots im D s \<and> fst x \<noteq> d" if "x \<in> slots im (D - {d}) s" for x
    using that by (auto simp: slots_def)
  have not0: "table_of s x \<noteq> 0" if "x \<in> slots im D s" for x
    using spaces_okD(8) [OF ok] that by (metis UnI2 imageI)
  have fresh: "\<forall>e \<in> set es. present e \<longrightarrow> pte_frame e \<in> used_set (pg_frames s2)
      \<and> pte_frame e \<noteq> 0 \<and> pte_frame e \<notin> D - {d} \<and> pte_frame e \<notin> table_of s2 ` slots im (D - {d}) s2"
  proof (intro ballI impI)
    fix e
    assume "e \<in> set es" "present e"
    then obtain i where i: "i < 768" "e = pg_mem s d i" "present (pg_mem s d i)" by (auto simp: es)
    note tp = table_props [OF ok slot [OF i(1,3)]]
    have "table_of s y \<noteq> pte_frame e" if "y \<in> slots im (D - {d}) s" for y
      using tp(3) kept [OF that] by (auto simp: tb i(2))
    then have "pte_frame e \<notin> table_of s ` slots im (D - {d}) s" by (metis imageE)
    then show "pte_frame e \<in> used_set (pg_frames s2) \<and> pte_frame e \<noteq> 0 \<and> pte_frame e \<notin> D - {d}
        \<and> pte_frame e \<notin> table_of s2 ` slots im (D - {d}) s2"
      using tp(1,2) not0 [OF slot [OF i(1,3)]] by (auto simp: tb i(2) c2(3) mem_cong(3,4) [OF c2(2)])
  qed
  have dist: "distinct (map pte_frame (filter present es))"
  proof -
    have "map pte_frame (filter present es) = map (\<lambda>i. table_of s (d, i)) (filter (\<lambda>i. present (pg_mem s d i)) [0..<768])"
      by (simp add: es_def filter_map comp_def tb del: upt_rec_numeral)
    moreover have "inj_on (\<lambda>i. table_of s (d, i)) (set (filter (\<lambda>i. present (pg_mem s d i)) [0..<768]))"
    proof (rule inj_onI)
      fix i j
      assume "i \<in> set (filter (\<lambda>i. present (pg_mem s d i)) [0..<768])"
        "j \<in> set (filter (\<lambda>i. present (pg_mem s d i)) [0..<768])" "table_of s (d, i) = table_of s (d, j)"
      then show "i = j" using table_props(3) [OF ok slot slot, of i j] by auto
    qed
    ultimately show ?thesis by (simp add: distinct_map del: upt_rec_numeral)
  qed
  obtain s3 where s3: "free_tables es s2 = Inr s3" "spaces_ok im (D - {d}) s3" "pg_mem s3 = pg_mem s2" "same_rest s2 s3"
    "used_set (pg_frames s3) = used_set (pg_frames s2) - pte_frame ` {e \<in> set es. present e}"
    using free_tables_spec [OF ok2 fresh dist] by blast
  have ut: "pte_frame ` {e \<in> set es. present e} = user_tables s d"
    by (auto simp: user_tables_def es)
  have du: "d \<in> used_set (pg_frames s3)" "d \<noteq> 0"
  proof -
    have "pte_frame (pg_mem s d i) \<noteq> d" if "i < 768" "present (pg_mem s d i)" for i
    proof
      assume "pte_frame (pg_mem s d i) = d"
      then have "table_of s (d, i) \<in> D" using d(1) by (simp only: tb)
      then show False using table_props(1) [OF ok slot [OF that]] by blast
    qed
    then have "\<forall>x \<in> user_tables s d. x \<noteq> d" unfolding user_tables_def ball_simps by simp
    then have "d \<notin> user_tables s d" by blast
    moreover have "d \<in> used_set (pg_frames s)" using spaces_okD(7) [OF ok] d(1) by blast
    ultimately show "d \<in> used_set (pg_frames s3)" by (simp add: s3(5) ut c2(3))
    show "d \<noteq> 0" using spaces_okD(8) [OF ok] d(1) by (metis UnI1)
  qed
  have "d \<notin> table_of s3 ` slots im (D - {d}) s3"
    using kept table_props(1) [OF ok] d(1) unfolding mem_cong(3,4) [OF s3(3)] mem_cong(3,4) [OF c2(2)] by blast
  then obtain s4 where s4: "release_pd_frame d s3 = Inr s4" "spaces_ok im (D - {d}) s4"
    "used_set (pg_frames s4) = used_set (pg_frames s3) - {d}" "pg_mem s4 = pg_mem s3" "same_rest s3 s4"
    using release_spec [OF s3(2) du] by auto
  define s5 where "s5 = s4\<lparr>pg_dirs := (pg_dirs s4)(a := None), pg_heap := heap_free (pg_heap s4)\<rparr>"
  have r4: "pg_dirs s4 = pg_dirs s" "pg_heap s4 = pg_heap s" "cr3_frame s4 = pte_frame (phys_addr pq)"
    using s4(5) s3(4) c2 by (simp_all add: same_rest_def cr3_frame_def)
  have bk: "take FIRST_KERNEL_PT (map (pg_mem s d) [0..<1024]) = es" "map (pg_mem s d) [0..<1024] ! 1023 = pg_mem s d 1023"
    by (simp_all add: es_def take_map FIRST_KERNEL_PT_eq del: upt_rec_numeral)
  have ph: "unat (phys_addr pd div PAGE_SIZE) = d" using a(2) by (simp add: pte_frame_div)
  have n: "N_PAGES_IN_PT = 1024" by (simp add: N_PAGES_IN_PT_def)
  have run: "delete_pagedir im a s = Inr s5"
    unfolding delete_pagedir_def Let_def deref_Some [of "pg_dirs s", OF a(1)] n
    using sw rd s3(1) s4(1) mirroredD(2) [OF md] q(1)
    by (simp add: bk ph s5_def del: upt_rec_numeral)
  have m5: "pg_mem s5 = pg_mem s" using s4(4) s3(3) c2(2) by (simp add: s5_def)
  have "spaces_ok im (D - {d}) s5"
  proof -
    have "s5 = s4\<lparr>pg_dirs := (pg_dirs s4)(a := None), pg_next := pg_next s4\<rparr>\<lparr>pg_heap := heap_free (pg_heap s4)\<rparr>"
      by (simp add: s5_def)
    then show ?thesis using s4(2) by (simp only: spaces_ok_rest)
  qed
  moreover have "used_set (pg_frames s5) = used_set (pg_frames s) - insert d (user_tables s d)"
    using s4(3) s3(5) c2(3) by (auto simp: s5_def ut)
  moreover have "cr3_frame s5 = pte_frame (phys_addr pq)" using r4(3) by (simp add: s5_def cr3_frame_def)
  ultimately show ?thesis using run r4 mem_cong(1) [OF m5] by (simp add: s5_def)
qed


section \<open>Properties\<close>


lemma wit_ready:
  "\<exists>r. kernel_ready wit_image {1} 0xC0001000 0xFFC00000 (wit_paging\<lparr>pg_regions := r\<rparr>)"
proof -
  obtain r where r: "ra_good 0xC0001000 0xFFC00000 r" "free_space r = {0xC0002000 ..< 0xFFC00000}" "10 \<le> n_unused r"
    using region_init_spec [of "0xC0001000" "0xC0002000" "0xFFC00000"] by (auto simp: dvd_def)
  have c: "cr3_frame wit_paging = 1" by (simp add: cr3_frame_def wit_paging_def pte_frame_def PTE_FRAME_SHIFT_def)
  have "kernel_ready wit_image {1} 0xC0001000 0xFFC00000 (wit_paging\<lparr>pg_regions := r\<rparr>)"
    unfolding kernel_ready_def spaces_ok_rest using r settledD(1) [OF wit_settled]
    by (simp add: synced_def c wit_kernel_pd K_HIGHHALF_ADDR_def PD_MIRROR_ADDR_def N_RESERVE_DESCRIPTORS_def)
  then show ?thesis by blast
qed


text \<open>C37: deleting the directory of a process, in use or not, gives back the frame of the directory and the frames of all
  its tables, and nothing else: the other address spaces do not change and their tables stay well-formed, and the
  directory that was in use (the kernel's, when it was the deleted one) is loaded again. The assertion on the mirror
  holds.\<close>

theorem delete_pagedir_correct:
  assumes "spaces_ok im D s" and "d \<in> D" and "d \<noteq> kernel_pd im"
    and "pg_dirs s a = Some pd" and "pte_frame (phys_addr pd) = d"
    and "q = (if get_current_pagedir s = a then KERNEL_PD_D else get_current_pagedir s)"
    and "pg_dirs s q = Some pq" and "pte_frame (phys_addr pq) \<in> D - {d}"
  shows "\<exists>s'. delete_pagedir im a s = Inr s' \<and> spaces_ok im (D - {d}) s'
    \<and> used_set (pg_frames s') = used_set (pg_frames s) - insert d (user_tables s d)
    \<and> hp_live (pg_heap s') = hp_live (pg_heap s) - 1 \<and> pg_dirs s' = (pg_dirs s)(a := None)
    \<and> cr3_frame s' = pte_frame (phys_addr pq) \<and> (\<forall>x v. space im s' x v = space im s x v)"
  by (rule delete_pagedir_spec [OF assms])

theorem delete_pagedir_correct_witness:
  "\<exists>s s'. delete_pagedir wit_image 7 s = Inr s' \<and> used_set (pg_frames s) = {..<4} \<and> used_set (pg_frames s') = {..<3}
     \<and> cr3_frame s' = 1"
proof -
  let ?k = "\<lparr>phys_addr = 0x1000, user_pfh = None, user_pfh_data = 0\<rparr> :: pagedir"
  let ?s = "wit_process\<lparr>pg_dirs := (pg_dirs wit_process)(0 \<mapsto> ?k), pg_next := 8\<rparr>"
  have ok: "spaces_ok wit_image {1, 3} ?s" unfolding spaces_ok_rest by (rule wit_process_ok(1))
  have f: "pte_frame 0x3000 = 3" "pte_frame 0x1000 = 1" by (simp_all add: pte_frame_def PTE_FRAME_SHIFT_def)
  have u: "used_set (pg_frames ?s) = {..<4}" using low_frames_used [of 4] by (simp add: wit_process_def del: mask_numeral)
  have t: "user_tables ?s 3 = {}" by (auto simp: user_tables_def wit_process_def)
  have d: "pg_dirs ?s 7 = Some \<lparr>phys_addr = 0x3000, user_pfh = None, user_pfh_data = 0\<rparr>" "pg_dirs ?s 0 = Some ?k"
    "get_current_pagedir ?s = 7"
    by (simp_all add: wit_process_def get_current_pagedir_def)
  have "{..<4} - {3} = {..<3::nat}" by auto
  then obtain s' where "delete_pagedir wit_image 7 ?s = Inr s'" "used_set (pg_frames s') = {..<3}" "cr3_frame s' = 1"
    using delete_pagedir_correct [OF ok, of 3 7 _ 0 ?k] d f t u by (auto simp: wit_kernel_pd KERNEL_PD_D_def)
  then show ?thesis using u by (intro exI [of _ ?s] exI [of _ s']) simp
qed

end
