(* ===== verification/Kv_Keys.thy ===== *)
theory Kv_Keys
  imports Cstring
begin

text \<open>
  The hashing, equality and comparison functions of src/common/libkogata/keyval.c, and the
  two contracts a key type has to honour: \<open>hash_keys\<close> is what the hash table needs of
  its \<open>hf\<close> and \<open>ef\<close>, \<open>ordered_keys\<close> what the search tree needs of its
  \<open>cf\<close>. Both are interpreted on the functions of the source.
\<close>

section \<open>The functions of keyval.c\<close>

definition id_hash_fun :: "u32 \<Rightarrow> u32" where
  "id_hash_fun v = v"

text \<open>\<open>h = h * 101 + *s\<close>: the character is a signed one, promoted and wrapped to 32 bits.\<close>

fun str_hash_loop :: "u32 \<Rightarrow> string \<Rightarrow> u32" where
  "str_hash_loop h [] = h"
| "str_hash_loop h (c # cs) =
     (if c = NUL then h else str_hash_loop (h * 101 + word_of_int (schar c)) cs)"

definition str_hash_fun :: "string \<Rightarrow> u32" where
  "str_hash_fun v = str_hash_loop 712 v"

definition id_key_eq_fun :: "u32 \<Rightarrow> u32 \<Rightarrow> bool" where
  "id_key_eq_fun a b \<longleftrightarrow> a = b"

definition str_key_eq_fun :: "string \<Rightarrow> string \<Rightarrow> bool" where
  "str_key_eq_fun a b \<longleftrightarrow> strcmp a b = 0"

definition id_key_cmp_fun :: "u32 \<Rightarrow> u32 \<Rightarrow> int" where
  "id_key_cmp_fun a b = (if a = b then 0 else if a < b then -1 else 1)"

definition str_key_cmp_fun :: "string \<Rightarrow> string \<Rightarrow> int" where
  "str_key_cmp_fun a b = strcmp a b"

text \<open>The releasing functions: how many blocks a released binding gives back.\<close>

definition free_key :: "heap \<Rightarrow> heap" where
  "free_key h = heap_free h"

definition free_val :: "heap \<Rightarrow> heap" where
  "free_val h = heap_free h"

definition free_key_val :: "heap \<Rightarrow> heap" where
  "free_key_val h = heap_free (heap_free h)"

section \<open>The contract of hash table keys\<close>

locale hash_keys =
  fixes ef :: "'k \<Rightarrow> 'k \<Rightarrow> bool"
    and hf :: "'k \<Rightarrow> u32"
  assumes ef_refl: "ef a a"
    and ef_sym: "ef a b \<Longrightarrow> ef b a"
    and ef_trans: "ef a b \<Longrightarrow> ef b c \<Longrightarrow> ef a c"
    and hf_cong: "ef a b \<Longrightarrow> hf a = hf b"
begin

lemma ef_commute: "ef a b = ef b a"
  by (blast intro: ef_sym)

lemma ef_left_cong: "ef a b \<Longrightarrow> ef a c = ef b c"
  by (blast intro: ef_sym ef_trans)

lemma ef_right_cong: "ef a b \<Longrightarrow> ef c a = ef c b"
  by (blast intro: ef_sym ef_trans)

end

lemma str_hash_loop_c_str: "str_hash_loop h (c_str s) = str_hash_loop h s"
  by (induction h s rule: str_hash_loop.induct) auto

interpretation id_keys: hash_keys id_key_eq_fun id_hash_fun
  by unfold_locales (auto simp: id_key_eq_fun_def id_hash_fun_def)

interpretation str_keys: hash_keys str_key_eq_fun str_hash_fun
proof
  fix a b c :: string
  show "str_key_eq_fun a a"
    by (simp add: str_key_eq_fun_def strcmp_zero_iff)
  show "str_key_eq_fun b a" if "str_key_eq_fun a b"
    using that by (simp add: str_key_eq_fun_def strcmp_zero_iff)
  show "str_key_eq_fun a c" if "str_key_eq_fun a b" "str_key_eq_fun b c"
    using that by (simp add: str_key_eq_fun_def strcmp_zero_iff)
  show "str_hash_fun a = str_hash_fun b" if "str_key_eq_fun a b"
    using that str_hash_loop_c_str [of 712 a] str_hash_loop_c_str [of 712 b]
    by (simp add: str_key_eq_fun_def strcmp_zero_iff str_hash_fun_def)
qed

section \<open>The contract of search tree keys\<close>

locale ordered_keys =
  fixes cf :: "'k \<Rightarrow> 'k \<Rightarrow> int"
  assumes cf_refl: "cf a a = 0"
    and cf_antisym: "cf a b \<le> 0 \<longleftrightarrow> 0 \<le> cf b a"
    and cf_trans: "cf a b \<le> 0 \<Longrightarrow> cf b c \<le> 0 \<Longrightarrow> cf a c \<le> 0"
begin

lemma cf_zero_sym: "cf a b = 0 \<longleftrightarrow> cf b a = 0"
  using cf_antisym [of a b] cf_antisym [of b a] by linarith

lemma cf_neg_pos: "cf a b < 0 \<longleftrightarrow> 0 < cf b a"
  using cf_antisym [of b a] by linarith

lemma cf_total: "cf a b \<le> 0 \<or> cf b a \<le> 0"
  using cf_antisym [of a b] by linarith

lemma cf_zero_trans: "cf a b = 0 \<Longrightarrow> cf b c = 0 \<Longrightarrow> cf a c = 0"
  using cf_trans [of a b c] cf_trans [of c b a] cf_antisym [of c a] cf_zero_sym [of a b]
    cf_zero_sym [of b c] by force

lemma cf_less_le_trans: "cf a b < 0 \<Longrightarrow> cf b c \<le> 0 \<Longrightarrow> cf a c < 0"
proof -
  assume ab: "cf a b < 0" and bc: "cf b c \<le> 0"
  have "\<not> cf c a \<le> 0"
    using cf_trans [OF bc, of a] ab cf_neg_pos [of a b] by linarith
  then show "cf a c < 0"
    using cf_neg_pos [of a c] by linarith
qed

lemma cf_le_less_trans: "cf a b \<le> 0 \<Longrightarrow> cf b c < 0 \<Longrightarrow> cf a c < 0"
proof -
  assume ab: "cf a b \<le> 0" and bc: "cf b c < 0"
  have "\<not> cf c a \<le> 0"
    using cf_trans [of c a b] ab bc cf_neg_pos [of b c] by linarith
  then show "cf a c < 0"
    using cf_neg_pos [of a c] by linarith
qed

lemmas cf_laws = cf_refl cf_antisym cf_trans cf_zero_sym cf_neg_pos cf_zero_trans
  cf_less_le_trans cf_le_less_trans

end

interpretation id_order: ordered_keys id_key_cmp_fun
  by unfold_locales (auto simp: id_key_cmp_fun_def split: if_splits)

interpretation str_order: ordered_keys str_key_cmp_fun
proof
  fix a b c :: string
  show "str_key_cmp_fun a a = 0"
    by (simp add: str_key_cmp_fun_def strcmp_zero_iff)
  show "str_key_cmp_fun a b \<le> 0 \<longleftrightarrow> 0 \<le> str_key_cmp_fun b a"
    using strcmp_antisym [of a b] by (simp add: str_key_cmp_fun_def)
  show "str_key_cmp_fun a c \<le> 0" if "str_key_cmp_fun a b \<le> 0" "str_key_cmp_fun b c \<le> 0"
    using that strcmp_trans_le [of a b c] by (simp add: str_key_cmp_fun_def)
qed

section \<open>The contract of dictionaries\<close>

text \<open>
  What a client of an associative container relies on: every insertion that reports success
  binds its key and no other, an insertion that fails changes nothing, and a removal unbinds
  its key only. \<open>table_run\<close> performs a sequence of calls on a container and returns
  the answers; \<open>table_effect\<close> says what the same calls, with the same answers, do to a
  function from keys to values.
\<close>

datatype ('k, 'v) table_op = Put 'k 'v | Del 'k

fun table_run ::
  "(heap \<Rightarrow> 't \<Rightarrow> 'k \<Rightarrow> 'v \<Rightarrow> bool \<times> 't \<times> heap) \<Rightarrow> (heap \<Rightarrow> 't \<Rightarrow> 'k \<Rightarrow> 't \<times> heap)
    \<Rightarrow> heap \<Rightarrow> 't \<Rightarrow> ('k, 'v) table_op list \<Rightarrow> bool list \<times> 't \<times> heap" where
  "table_run put del h t [] = ([], t, h)"
| "table_run put del h t (Put k v # ops) =
     (case put h t k v of (ok, t1, h1) \<Rightarrow>
        (case table_run put del h1 t1 ops of (oks, t2, h2) \<Rightarrow> (ok # oks, t2, h2)))"
| "table_run put del h t (Del k # ops) =
     (case del h t k of (t1, h1) \<Rightarrow>
        (case table_run put del h1 t1 ops of (oks, t2, h2) \<Rightarrow> (True # oks, t2, h2)))"

fun table_effect ::
  "('k \<Rightarrow> 'k \<Rightarrow> bool) \<Rightarrow> ('k \<Rightarrow> 'v option) \<Rightarrow> ('k, 'v) table_op list \<Rightarrow> bool list \<Rightarrow> ('k \<Rightarrow> 'v option)" where
  "table_effect eq m (Put k v # ops) (ok # oks) =
     table_effect eq (\<lambda>q. if ok \<and> eq k q then Some v else m q) ops oks"
| "table_effect eq m (Del k # ops) (ok # oks) =
     table_effect eq (\<lambda>q. if eq k q then None else m q) ops oks"
| "table_effect eq m _ _ = m"

locale dictionary =
  fixes eq :: "'k \<Rightarrow> 'k \<Rightarrow> bool"
    and good :: "'t \<Rightarrow> bool"
    and look :: "'t \<Rightarrow> 'k \<Rightarrow> 'v option"
    and put :: "heap \<Rightarrow> 't \<Rightarrow> 'k \<Rightarrow> 'v \<Rightarrow> bool \<times> 't \<times> heap"
    and del :: "heap \<Rightarrow> 't \<Rightarrow> 'k \<Rightarrow> 't \<times> heap"
  assumes put_good: "good t \<Longrightarrow> put h t k v = (ok, t', h') \<Longrightarrow> good t'"
    and look_put: "good t \<Longrightarrow> put h t k v = (ok, t', h') \<Longrightarrow>
      look t' q = (if ok \<and> eq k q then Some v else look t q)"
    and del_good: "good t \<Longrightarrow> del h t k = (t', h') \<Longrightarrow> good t'"
    and look_del: "good t \<Longrightarrow> del h t k = (t', h') \<Longrightarrow>
      look t' q = (if eq k q then None else look t q)"
begin

lemma table_run_refines:
  "good t \<Longrightarrow> table_run put del h t ops = (oks, t', h') \<Longrightarrow>
     good t' \<and> look t' = table_effect eq (look t) ops oks"
proof (induction ops arbitrary: h t oks t' h')
  case (Cons op ops)
  show ?case
  proof (cases op)
    case (Put k v)
    obtain ok t1 h1 where p: "put h t k v = (ok, t1, h1)" using prod_cases3 by blast
    obtain oks1 where r: "table_run put del h1 t1 ops = (oks1, t', h')" "oks = ok # oks1"
      using Cons.prems(2) Put p by (auto split: prod.split_asm)
    have "look t1 = (\<lambda>q. if ok \<and> eq k q then Some v else look t q)"
      using look_put [OF Cons.prems(1) p] by auto
    with Cons.IH [OF put_good [OF Cons.prems(1) p] r(1)] r(2) Put show ?thesis by simp
  next
    case (Del k)
    obtain t1 h1 where d: "del h t k = (t1, h1)" using prod.exhaust by blast
    obtain oks1 where r: "table_run put del h1 t1 ops = (oks1, t', h')" "oks = True # oks1"
      using Cons.prems(2) Del d by (auto split: prod.split_asm)
    have "look t1 = (\<lambda>q. if eq k q then None else look t q)"
      using look_del [OF Cons.prems(1) d] by auto
    with Cons.IH [OF del_good [OF Cons.prems(1) d] r(1)] r(2) Del show ?thesis by simp
  qed
qed simp

end

end
