(* ===== verification/Hashtbl.thy ===== *)
theory Hashtbl
  imports Kv_Keys
begin

text \<open>
  The chained hash table of src/common/libkogata/hashtbl.c. The table is the record of the C
  structure; a bucket is the list of its items in chain order. The two function pointers are
  fields, \<open>ht_releasef\<close> says whether a release function is set, and the operations
  that release bindings return the calls they make to it, in order. Allocation goes through
  the heap of the prelude: any \<open>malloc\<close> may fail.
\<close>

section \<open>The code\<close>

text \<open>The array of chains.\<close>

type_synonym ('k, 'v) chains = "('k \<times> 'v) list list"

record ('k, 'v) hashtbl =
  ht_ef :: "'k \<Rightarrow> 'k \<Rightarrow> bool"
  ht_hf :: "'k \<Rightarrow> u32"
  ht_releasef :: bool
  ht_size :: nat
  ht_nitems :: nat
  ht_items :: "('k, 'v) chains"

definition DEFAULT_HT_INIT_SIZE :: nat where
  "DEFAULT_HT_INIT_SIZE = 16"

definition slot_of_hash :: "u32 \<Rightarrow> nat \<Rightarrow> nat" where
  "slot_of_hash k nslots = unat (k * 21179) mod nslots"

definition create_hashtbl ::
  "heap \<Rightarrow> ('k \<Rightarrow> 'k \<Rightarrow> bool) \<Rightarrow> ('k \<Rightarrow> u32) \<Rightarrow> bool \<Rightarrow> ('k, 'v) hashtbl option \<times> heap" where
  "create_hashtbl h ef hf on_release =
     (case heap_malloc h of (ok, h1) \<Rightarrow>
        if \<not> ok then (None, h1)
        else (case heap_malloc h1 of (ok2, h2) \<Rightarrow>
          if \<not> ok2 then (None, heap_free h2)
          else (Some \<lparr>ht_ef = ef, ht_hf = hf, ht_releasef = on_release,
                  ht_size = DEFAULT_HT_INIT_SIZE, ht_nitems = 0,
                  ht_items = replicate DEFAULT_HT_INIT_SIZE []\<rparr>, h2)))"

text \<open>Moving the items of one bucket to the new table, front first, each to the front.\<close>

fun rehash_bucket ::
  "('k \<Rightarrow> u32) \<Rightarrow> nat \<Rightarrow> ('k \<times> 'v) list \<Rightarrow> ('k, 'v) chains \<Rightarrow> ('k, 'v) chains" where
  "rehash_bucket hf nsize [] nitems = nitems"
| "rehash_bucket hf nsize (x # xs) nitems =
     (let slot = slot_of_hash (hf (fst x)) nsize
      in rehash_bucket hf nsize xs (nitems[slot := x # nitems ! slot]))"

fun rehash ::
  "('k \<Rightarrow> u32) \<Rightarrow> nat \<Rightarrow> ('k, 'v) chains \<Rightarrow> ('k, 'v) chains \<Rightarrow> ('k, 'v) chains" where
  "rehash hf nsize [] nitems = nitems"
| "rehash hf nsize (b # bs) nitems = rehash hf nsize bs (rehash_bucket hf nsize b nitems)"

definition wanted_size :: "('k, 'v) hashtbl \<Rightarrow> nat" where
  "wanted_size ht =
     (let nsize = (if 4 * ht_nitems ht < ht_size ht then ht_size ht div 2 else 0)
      in if 4 * ht_nitems ht > 3 * ht_size ht then ht_size ht * 2 else nsize)"

definition hashtbl_check_size :: "heap \<Rightarrow> ('k, 'v) hashtbl \<Rightarrow> ('k, 'v) hashtbl \<times> heap" where
  "hashtbl_check_size h ht =
     (let nsize = wanted_size ht in
      if nsize \<noteq> 0 \<and> nsize \<ge> DEFAULT_HT_INIT_SIZE
      then (case heap_malloc h of (ok, h1) \<Rightarrow>
              if \<not> ok then (ht, h1)
              else (ht\<lparr>ht_size := nsize,
                      ht_items := rehash (ht_hf ht) nsize (ht_items ht) (replicate nsize [])\<rparr>,
                    heap_free h1))
      else (ht, h))"

fun bucket_remove ::
  "('k \<Rightarrow> 'k \<Rightarrow> bool) \<Rightarrow> 'k \<Rightarrow> ('k \<times> 'v) list \<Rightarrow> ('k \<times> 'v) option \<times> ('k \<times> 'v) list" where
  "bucket_remove ef key [] = (None, [])"
| "bucket_remove ef key (x # xs) =
     (if ef (fst x) key then (Some x, xs)
      else (case bucket_remove ef key xs of (r, xs') \<Rightarrow> (r, x # xs')))"

definition hashtbl_remove ::
  "heap \<Rightarrow> ('k, 'v) hashtbl \<Rightarrow> 'k \<Rightarrow> ('k \<times> 'v) list \<times> ('k, 'v) hashtbl \<times> heap" where
  "hashtbl_remove h ht key =
     (let slot = slot_of_hash (ht_hf ht key) (ht_size ht) in
      if ht_items ht ! slot = [] then ([], ht, h)
      else (case bucket_remove (ht_ef ht) key (ht_items ht ! slot) of (x, bucket) \<Rightarrow>
        (case x of
           None \<Rightarrow> ([], hashtbl_check_size h ht)
         | Some kv \<Rightarrow>
             (if ht_releasef ht then [kv] else [],
              hashtbl_check_size (heap_free h)
                (ht\<lparr>ht_items := (ht_items ht)[slot := bucket], ht_nitems := ht_nitems ht - 1\<rparr>)))))"

definition hashtbl_add ::
  "heap \<Rightarrow> ('k, 'v) hashtbl \<Rightarrow> 'k \<Rightarrow> 'v \<Rightarrow> bool \<times> ('k \<times> 'v) list \<times> ('k, 'v) hashtbl \<times> heap" where
  "hashtbl_add h ht key v =
     (case heap_malloc h of (ok, h1) \<Rightarrow>
        if \<not> ok then (False, [], ht, h1)
        else (case hashtbl_remove h1 ht key of (released, ht1, h2) \<Rightarrow>
          (let slot = slot_of_hash (ht_hf ht1 key) (ht_size ht1) in
           (True, released,
            hashtbl_check_size h2
              (ht1\<lparr>ht_items := (ht_items ht1)[slot := (key, v) # ht_items ht1 ! slot],
                   ht_nitems := ht_nitems ht1 + 1\<rparr>)))))"

fun bucket_find :: "('k \<Rightarrow> 'k \<Rightarrow> bool) \<Rightarrow> 'k \<Rightarrow> ('k \<times> 'v) list \<Rightarrow> 'v option" where
  "bucket_find ef key [] = None"
| "bucket_find ef key (x # xs) = (if ef (fst x) key then Some (snd x) else bucket_find ef key xs)"

definition hashtbl_find :: "('k, 'v) hashtbl \<Rightarrow> 'k \<Rightarrow> 'v option" where
  "hashtbl_find ht key =
     bucket_find (ht_ef ht) key (ht_items ht ! slot_of_hash (ht_hf ht key) (ht_size ht))"

text \<open>The bindings \<open>hashtbl_iter\<close> passes to its function, in order.\<close>

definition hashtbl_iter :: "('k, 'v) hashtbl \<Rightarrow> ('k \<times> 'v) list" where
  "hashtbl_iter ht = concat (take (ht_size ht) (ht_items ht))"

definition hashtbl_count :: "('k, 'v) hashtbl \<Rightarrow> nat" where
  "hashtbl_count ht = ht_nitems ht"

fun bucket_change ::
  "('k \<Rightarrow> 'k \<Rightarrow> bool) \<Rightarrow> 'k \<Rightarrow> 'v \<Rightarrow> ('k \<times> 'v) list \<Rightarrow> bool \<times> ('k \<times> 'v) list" where
  "bucket_change ef key v [] = (False, [])"
| "bucket_change ef key v (x # xs) =
     (if ef (fst x) key then (True, (fst x, v) # xs)
      else (case bucket_change ef key v xs of (ok, xs') \<Rightarrow> (ok, x # xs')))"

definition hashtbl_change :: "('k, 'v) hashtbl \<Rightarrow> 'k \<Rightarrow> 'v \<Rightarrow> bool \<times> ('k, 'v) hashtbl" where
  "hashtbl_change ht key newval =
     (let slot = slot_of_hash (ht_hf ht key) (ht_size ht) in
      case bucket_change (ht_ef ht) key newval (ht_items ht ! slot) of (ok, bucket) \<Rightarrow>
        (ok, ht\<lparr>ht_items := (ht_items ht)[slot := bucket]\<rparr>))"

text \<open>
  \<open>delete_hashtbl\<close> pops every chain, releasing and freeing each item, and frees the
  array and the structure.
\<close>

fun delete_buckets :: "heap \<Rightarrow> ('k \<times> 'v) list list \<Rightarrow> ('k \<times> 'v) list \<times> heap" where
  "delete_buckets h [] = ([], h)"
| "delete_buckets h (b # bs) =
     (case delete_buckets (heap_frees (length b) h) bs of (log, h') \<Rightarrow> (b @ log, h'))"

definition delete_hashtbl :: "heap \<Rightarrow> ('k, 'v) hashtbl \<Rightarrow> ('k \<times> 'v) list \<times> heap" where
  "delete_hashtbl h ht =
     (case delete_buckets h (take (ht_size ht) (ht_items ht)) of (log, h') \<Rightarrow>
        (if ht_releasef ht then log else [], heap_free (heap_free h')))"

section \<open>The invariant\<close>

text \<open>No two bindings have equal keys.\<close>

definition keys_differ :: "('k \<Rightarrow> 'k \<Rightarrow> bool) \<Rightarrow> ('k \<times> 'v) list \<Rightarrow> bool" where
  "keys_differ ef xs \<longleftrightarrow> sorted_wrt (\<lambda>x y. \<not> ef (fst x) (fst y)) xs"

definition placed :: "('k \<Rightarrow> u32) \<Rightarrow> nat \<Rightarrow> ('k \<times> 'v) list list \<Rightarrow> bool" where
  "placed hf n bs \<longleftrightarrow> (\<forall>i < length bs. \<forall>x \<in> set (bs ! i). slot_of_hash (hf (fst x)) n = i)"

definition ht_wf :: "('k, 'v) hashtbl \<Rightarrow> bool" where
  "ht_wf ht \<longleftrightarrow> 0 < ht_size ht \<and> length (ht_items ht) = ht_size ht
     \<and> placed (ht_hf ht) (ht_size ht) (ht_items ht)
     \<and> keys_differ (ht_ef ht) (concat (ht_items ht))
     \<and> ht_nitems ht = length (concat (ht_items ht))"

definition ht_inv :: "('k, 'v) hashtbl \<Rightarrow> bool" where
  "ht_inv ht \<longleftrightarrow> hash_keys (ht_ef ht) (ht_hf ht) \<and> ht_wf ht"

lemma slot_of_hash_less [simp]: "0 < n \<Longrightarrow> slot_of_hash k n < n"
  by (simp add: slot_of_hash_def)

section \<open>Buckets\<close>

lemma length_rehash_bucket [simp]: "length (rehash_bucket hf n b bs) = length bs"
  by (induction b arbitrary: bs) (auto simp: Let_def)

lemma length_rehash [simp]: "length (rehash hf n old bs) = length bs"
  by (induction old arbitrary: bs) auto

lemma mset_rehash_bucket:
  "length bs = n \<Longrightarrow> 0 < n \<Longrightarrow>
     mset (concat (rehash_bucket hf n b bs)) = mset b + mset (concat bs)"
  by (induction b arbitrary: bs) (auto simp: Let_def mset_concat_push)

lemma mset_rehash:
  "length bs = n \<Longrightarrow> 0 < n \<Longrightarrow>
     mset (concat (rehash hf n old bs)) = mset (concat old) + mset (concat bs)"
  by (induction old arbitrary: bs) (auto simp: mset_rehash_bucket)

lemma placed_push:
  "placed hf n bs \<Longrightarrow> slot_of_hash (hf (fst x)) n = i \<Longrightarrow> placed hf n (bs[i := x # bs ! i])"
  by (cases "i < length bs") (auto simp: placed_def nth_list_update)

lemma placed_rehash_bucket: "placed hf n bs \<Longrightarrow> placed hf n (rehash_bucket hf n b bs)"
  by (induction b arbitrary: bs) (auto simp: Let_def intro!: placed_push)

lemma placed_rehash: "placed hf n bs \<Longrightarrow> placed hf n (rehash hf n old bs)"
  by (induction old arbitrary: bs) (auto simp: placed_rehash_bucket)

lemma placed_empty [simp]: "placed hf n (replicate n [])"
  by (simp add: placed_def)

lemma bucket_remove_None: "fst (bucket_remove ef k xs) = None \<longleftrightarrow> (\<forall>x \<in> set xs. \<not> ef (fst x) k)"
  by (induction xs) (auto split: prod.splits)

lemma bucket_remove_NoneD: "bucket_remove ef k xs = (None, ys) \<Longrightarrow> ys = xs"
  by (induction xs arbitrary: ys) (auto split: prod.splits if_splits)

lemma bucket_remove_Some:
  "bucket_remove ef k xs = (Some x, ys) \<Longrightarrow> ef (fst x) k \<and> mset xs = add_mset x (mset ys)"
  by (induction xs arbitrary: ys) (auto split: prod.splits if_splits)

lemma bucket_find_set:
  "bucket_find ef k xs = Some v \<Longrightarrow> \<exists>x \<in> set xs. ef (fst x) k \<and> snd x = v"
  by (induction xs) (auto split: if_splits)

lemma bucket_find_None: "bucket_find ef k xs = None \<longleftrightarrow> (\<forall>x \<in> set xs. \<not> ef (fst x) k)"
  by (induction xs) auto

lemma bucket_change_keys: "map fst (snd (bucket_change ef k v xs)) = map fst xs"
  by (induction xs) (auto split: prod.splits)

lemma bucket_change_ok: "fst (bucket_change ef k v xs) \<longleftrightarrow> (\<exists>x \<in> set xs. ef (fst x) k)"
  by (induction xs) (auto split: prod.splits)

section \<open>Lookup as a set of bindings\<close>

lemma keys_differ_append:
  "keys_differ ef (xs @ ys) \<longleftrightarrow> keys_differ ef xs \<and> keys_differ ef ys
     \<and> (\<forall>x \<in> set xs. \<forall>y \<in> set ys. \<not> ef (fst x) (fst y))"
  by (simp add: keys_differ_def sorted_wrt_append)

lemma keys_differ_concat_nth:
  "keys_differ ef (concat bs) \<Longrightarrow> i < length bs \<Longrightarrow> keys_differ ef (bs ! i)"
proof (induction bs arbitrary: i)
  case (Cons b bs)
  then show ?case by (cases i) (auto simp: keys_differ_append)
qed simp

context hash_keys
begin

lemma keys_differ_perm:
  assumes "mset xs = mset ys" and "keys_differ ef xs"
  shows "keys_differ ef ys"
proof -
  have *: "keys_differ ef zs \<longleftrightarrow> distinct (map (\<lambda>x. Collect (ef (fst x))) zs)" for zs :: "('k \<times> 'c) list"
  proof (induction zs)
    case Nil
    then show ?case by (simp add: keys_differ_def)
  next
    case (Cons z zs)
    have "(\<forall>y \<in> set zs. \<not> ef (fst z) (fst y))
        \<longleftrightarrow> Collect (ef (fst z)) \<notin> (\<lambda>x. Collect (ef (fst x))) ` set zs"
      using ef_refl ef_left_cong by blast
    with Cons show ?case by (auto simp: keys_differ_def)
  qed
  have "mset (map (\<lambda>x. Collect (ef (fst x))) xs) = mset (map (\<lambda>x. Collect (ef (fst x))) ys)"
    using assms(1) by simp
  then show ?thesis
    using assms(2) * mset_eq_imp_distinct_iff by blast
qed

lemma keys_differ_unique:
  "keys_differ ef xs \<Longrightarrow> x \<in> set xs \<Longrightarrow> y \<in> set xs \<Longrightarrow> ef (fst x) (fst y) \<Longrightarrow> x = y"
  by (induction xs) (auto simp: keys_differ_def dest: ef_sym)

lemma bucket_find_iff:
  assumes "keys_differ ef xs"
  shows "bucket_find ef k xs = Some v \<longleftrightarrow> (\<exists>x \<in> set xs. ef (fst x) k \<and> snd x = v)"
proof
  assume "\<exists>x \<in> set xs. ef (fst x) k \<and> snd x = v"
  then obtain x where x: "x \<in> set xs" "ef (fst x) k" "snd x = v" by auto
  show "bucket_find ef k xs = Some v"
  proof (cases "bucket_find ef k xs")
    case None
    with x(1,2) show ?thesis unfolding bucket_find_None by simp
  next
    case (Some w)
    from bucket_find_set [OF Some]
    obtain y where y: "y \<in> set xs" "ef (fst y) k" "snd y = w" by auto
    have "ef (fst x) (fst y)"
      by (rule ef_trans [OF x(2) ef_sym [OF y(2)]])
    then have "x = y"
      by (rule keys_differ_unique [OF assms x(1) y(1)])
    with Some x(3) y(3) show ?thesis by simp
  qed
qed (rule bucket_find_set)

lemma bucket_find_change:
  "bucket_find ef q (snd (bucket_change ef k v xs)) =
    (if fst (bucket_change ef k v xs) \<and> ef k q then Some v else bucket_find ef q xs)"
proof (induction xs)
  case (Cons x xs)
  show ?case
  proof (cases "ef (fst x) k")
    case True
    then show ?thesis using ef_left_cong [of "fst x" k q] by simp
  next
    case False
    then have "\<not> (ef k q \<and> ef (fst x) q)"
      using ef_trans [of "fst x" q k] ef_sym [of k q] by blast
    with False Cons show ?thesis by (auto split: prod.splits)
  qed
qed simp

lemma placed_slot:
  assumes "placed hf n bs" "x \<in> set (bs ! i)" "i < length bs" "ef (fst x) k"
  shows "slot_of_hash (hf k) n = i"
proof -
  have "slot_of_hash (hf (fst x)) n = i"
    using assms(1-3) by (simp add: placed_def)
  with hf_cong [OF assms(4)] show ?thesis by simp
qed

end

text \<open>A lookup finds exactly the bindings that are in the table, wherever they are.\<close>

lemma hashtbl_find_iff:
  assumes "ht_inv ht"
  shows "hashtbl_find ht k = Some v
    \<longleftrightarrow> (\<exists>x \<in> set (concat (ht_items ht)). ht_ef ht (fst x) k \<and> snd x = v)"
proof -
  let ?slot = "slot_of_hash (ht_hf ht k) (ht_size ht)"
  have keys: "hash_keys (ht_ef ht) (ht_hf ht)" and wf: "ht_wf ht"
    using assms by (simp_all add: ht_inv_def)
  have sl: "?slot < length (ht_items ht)"
    using wf by (simp add: ht_wf_def)
  have kd: "keys_differ (ht_ef ht) (ht_items ht ! ?slot)"
    using wf sl by (intro keys_differ_concat_nth) (simp_all add: ht_wf_def)
  have "hashtbl_find ht k = Some v
      \<longleftrightarrow> (\<exists>x \<in> set (ht_items ht ! ?slot). ht_ef ht (fst x) k \<and> snd x = v)"
    unfolding hashtbl_find_def by (rule hash_keys.bucket_find_iff [OF keys kd])
  also have "\<dots> \<longleftrightarrow> (\<exists>x \<in> set (concat (ht_items ht)). ht_ef ht (fst x) k \<and> snd x = v)"
  proof
    assume "\<exists>x \<in> set (ht_items ht ! ?slot). ht_ef ht (fst x) k \<and> snd x = v"
    with sl show "\<exists>x \<in> set (concat (ht_items ht)). ht_ef ht (fst x) k \<and> snd x = v"
      unfolding Bex_def set_concat_nth by blast
  next
    assume "\<exists>x \<in> set (concat (ht_items ht)). ht_ef ht (fst x) k \<and> snd x = v"
    then obtain x i where x: "i < length (ht_items ht)" "x \<in> set (ht_items ht ! i)"
      "ht_ef ht (fst x) k" "snd x = v" unfolding Bex_def set_concat_nth by blast
    have "placed (ht_hf ht) (ht_size ht) (ht_items ht)" using wf by (simp add: ht_wf_def)
    from hash_keys.placed_slot [OF keys this x(2,1,3)] x
    show "\<exists>x \<in> set (ht_items ht ! ?slot). ht_ef ht (fst x) k \<and> snd x = v" by blast
  qed
  finally show ?thesis .
qed

section \<open>Every operation keeps the invariant\<close>

definition ht_bindings :: "('k, 'v) hashtbl \<Rightarrow> ('k \<times> 'v) multiset" where
  "ht_bindings ht = mset (concat (ht_items ht))"

text \<open>The parts of a table that no operation changes.\<close>

definition ht_same_funs :: "('k, 'v) hashtbl \<Rightarrow> ('k, 'v) hashtbl \<Rightarrow> bool" where
  "ht_same_funs ht ht' \<longleftrightarrow> ht_ef ht' = ht_ef ht \<and> ht_hf ht' = ht_hf ht
     \<and> ht_releasef ht' = ht_releasef ht"

lemma ht_same_funs_refl [simp]: "ht_same_funs ht ht"
  by (simp add: ht_same_funs_def)

lemma ht_same_funs_trans: "ht_same_funs a b \<Longrightarrow> ht_same_funs b c \<Longrightarrow> ht_same_funs a c"
  by (simp add: ht_same_funs_def)

lemma set_ht_bindings: "set_mset (ht_bindings ht) = set (concat (ht_items ht))"
  by (simp only: ht_bindings_def set_mset_mset)

lemma ht_invI:
  assumes "hash_keys (ht_ef ht) (ht_hf ht)" and "0 < ht_size ht"
    and "length (ht_items ht) = ht_size ht" and "placed (ht_hf ht) (ht_size ht) (ht_items ht)"
    and "keys_differ (ht_ef ht) (concat (ht_items ht))"
    and "ht_nitems ht = size (ht_bindings ht)"
  shows "ht_inv ht"
  using assms by (simp add: ht_inv_def ht_wf_def ht_bindings_def)

lemma ht_inv_size: "ht_inv ht \<Longrightarrow> 0 < ht_size ht \<and> length (ht_items ht) = ht_size ht"
  by (simp add: ht_inv_def ht_wf_def)

lemma ht_inv_keys: "ht_inv ht \<Longrightarrow> hash_keys (ht_ef ht) (ht_hf ht)"
  by (simp add: ht_inv_def)

lemma ht_inv_differ: "ht_inv ht \<Longrightarrow> keys_differ (ht_ef ht) (concat (ht_items ht))"
  by (simp add: ht_inv_def ht_wf_def)

lemma ht_inv_placed: "ht_inv ht \<Longrightarrow> placed (ht_hf ht) (ht_size ht) (ht_items ht)"
  by (simp add: ht_inv_def ht_wf_def)

lemma ht_inv_count: "ht_inv ht \<Longrightarrow> hashtbl_count ht = size (ht_bindings ht)"
  by (simp add: ht_inv_def ht_wf_def ht_bindings_def hashtbl_count_def)

lemma create_hashtbl_inv:
  assumes "hash_keys ef hf" and "create_hashtbl h ef hf rel = (Some ht, h')"
  shows "ht_inv ht" and "ht_bindings ht = {#}" and "hp_live h' = hp_live h + 2"
proof -
  have ht: "ht = \<lparr>ht_ef = ef, ht_hf = hf, ht_releasef = rel, ht_size = 16, ht_nitems = 0,
      ht_items = replicate 16 []\<rparr>"
    using assms(2) by (auto simp: create_hashtbl_def DEFAULT_HT_INIT_SIZE_def split: prod.splits if_splits)
  have c: "concat (replicate 16 ([]::('a \<times> 'b) list)) = []"
    by (rule mset_concat_replicate_Nil)
  show "ht_bindings ht = {#}"
    unfolding ht ht_bindings_def by (simp only: hashtbl.simps c mset.simps)
  show "ht_inv ht"
    unfolding ht by (rule ht_invI)
      (simp_all only: hashtbl.simps c ht_bindings_def assms(1) placed_empty length_replicate
        keys_differ_def sorted_wrt.simps mset.simps size_empty zero_less_numeral)
  show "hp_live h' = hp_live h + 2"
    using assms(2) by (auto simp: create_hashtbl_def dest!: heap_malloc_live split: prod.splits if_splits)
qed

lemma check_size_cases:
  assumes "hashtbl_check_size h ht = (ht', h')"
  shows "ht' = ht \<and> hp_live h' = hp_live h
    \<or> 0 < wanted_size ht
      \<and> ht' = ht\<lparr>ht_size := wanted_size ht,
          ht_items := rehash (ht_hf ht) (wanted_size ht) (ht_items ht) (replicate (wanted_size ht) [])\<rparr>
      \<and> hp_live h' = hp_live h"
proof (cases "heap_malloc h")
  case (Pair ok h1)
  show ?thesis
    using assms heap_malloc_live [OF Pair] unfolding hashtbl_check_size_def Let_def Pair
    by (cases ok) (auto split: if_split_asm)
qed

lemma check_size_inv:
  assumes "ht_inv ht" and "hashtbl_check_size h ht = (ht', h')"
  shows "ht_inv ht'" and "ht_bindings ht' = ht_bindings ht" and "ht_same_funs ht ht'"
    and "hp_live h' = hp_live h" and "ht_nitems ht' = ht_nitems ht"
proof -
  let ?n = "wanted_size ht"
  let ?new = "ht\<lparr>ht_size := ?n,
    ht_items := rehash (ht_hf ht) ?n (ht_items ht) (replicate ?n [])\<rparr>"
  from check_size_cases [OF assms(2)]
  have "ht_inv ht' \<and> ht_bindings ht' = ht_bindings ht \<and> ht_same_funs ht ht'
      \<and> hp_live h' = hp_live h \<and> ht_nitems ht' = ht_nitems ht"
  proof (elim disjE conjE)
    assume "ht' = ht" "hp_live h' = hp_live h"
    with assms(1) show ?thesis by simp
  next
    assume 2: "0 < ?n" "ht' = ?new" "hp_live h' = hp_live h"
    have b: "ht_bindings ?new = ht_bindings ht"
      using 2(1) by (simp add: ht_bindings_def mset_rehash del: mset_concat)
    have "keys_differ (ht_ef ht) (concat (ht_items ?new))"
    proof (rule hash_keys.keys_differ_perm)
      show "hash_keys (ht_ef ht) (ht_hf ht)" using assms(1) by (simp add: ht_inv_def)
      show "mset (concat (ht_items ht)) = mset (concat (ht_items ?new))"
        using b by (simp only: ht_bindings_def)
      show "keys_differ (ht_ef ht) (concat (ht_items ht))"
        using assms(1) by (simp add: ht_inv_def ht_wf_def)
    qed
    moreover have "placed (ht_hf ht) ?n (ht_items ?new)"
      by (simp add: placed_rehash)
    ultimately have "ht_inv ?new"
      using 2(1) ht_inv_count [OF assms(1)] b ht_inv_keys [OF assms(1)]
      by (intro ht_invI) (simp_all add: hashtbl_count_def)
    with b 2 show ?thesis by (simp add: ht_same_funs_def)
  qed
  then show "ht_inv ht'" and "ht_bindings ht' = ht_bindings ht" and "ht_same_funs ht ht'"
    and "hp_live h' = hp_live h" and "ht_nitems ht' = ht_nitems ht" by simp_all
qed

text \<open>Replacing one bucket of a well-formed table.\<close>

lemma ht_inv_replace_bucket:
  assumes inv: "ht_inv ht" and sl: "slot < ht_size ht"
    and pl: "\<forall>x \<in> set bucket. slot_of_hash (ht_hf ht (fst x)) (ht_size ht) = slot"
    and bs: "mset (concat ((ht_items ht)[slot := bucket])) = mset ys"
    and kd: "keys_differ (ht_ef ht) ys" and n: "n = length ys"
  shows "ht_inv (ht\<lparr>ht_items := (ht_items ht)[slot := bucket], ht_nitems := n\<rparr>)"
proof (rule ht_invI)
  let ?new = "ht\<lparr>ht_items := (ht_items ht)[slot := bucket], ht_nitems := n\<rparr>"
  show keys: "hash_keys (ht_ef ?new) (ht_hf ?new)" using inv by (simp add: ht_inv_def)
  show "0 < ht_size ?new" "length (ht_items ?new) = ht_size ?new"
    using inv by (simp_all add: ht_inv_def ht_wf_def)
  show "placed (ht_hf ?new) (ht_size ?new) (ht_items ?new)"
    using inv pl sl by (auto simp: ht_inv_def ht_wf_def placed_def nth_list_update)
  show "keys_differ (ht_ef ?new) (concat (ht_items ?new))"
    using hash_keys.keys_differ_perm [OF keys bs [symmetric]] kd by simp
  show "ht_nitems ?new = size (ht_bindings ?new)"
    using n length_eq_of_mset_eq [OF bs] by (simp add: ht_bindings_def)
qed

lemma keys_differ_mset:
  assumes "hash_keys ef hf" and "keys_differ ef xs" and "mset xs = add_mset x (mset ys)"
  shows "keys_differ ef ys" and "y \<in> set ys \<Longrightarrow> \<not> ef (fst y) (fst x)"
proof -
  have m: "mset xs = mset (ys @ [x])" using assms(3) by simp
  have "keys_differ ef (ys @ [x])"
    by (rule hash_keys.keys_differ_perm [OF assms(1) m assms(2)])
  then show "keys_differ ef ys" and "y \<in> set ys \<Longrightarrow> \<not> ef (fst y) (fst x)"
    by (auto simp: keys_differ_append)
qed

text \<open>A key is bound in the bucket of its hash or nowhere.\<close>

lemma bound_iff_in_bucket:
  assumes "ht_inv ht"
  shows "(\<exists>x \<in> set (concat (ht_items ht)). ht_ef ht (fst x) k)
    \<longleftrightarrow> (\<exists>x \<in> set (ht_items ht ! slot_of_hash (ht_hf ht k) (ht_size ht)). ht_ef ht (fst x) k)"
proof -
  have "(\<exists>x \<in> set (concat (ht_items ht)). ht_ef ht (fst x) k) \<longleftrightarrow> hashtbl_find ht k \<noteq> None"
    using hashtbl_find_iff [OF assms, of k] by auto
  also have "\<dots> \<longleftrightarrow> (\<exists>x \<in> set (ht_items ht ! slot_of_hash (ht_hf ht k) (ht_size ht)). ht_ef ht (fst x) k)"
    by (simp add: hashtbl_find_def bucket_find_None)
  finally show ?thesis .
qed

definition ht_removed ::
  "('k, 'v) hashtbl \<Rightarrow> 'k \<Rightarrow> ('k \<times> 'v) list \<Rightarrow> ('k, 'v) hashtbl \<Rightarrow> nat \<Rightarrow> bool" where
  "ht_removed ht k rel ht' n \<longleftrightarrow>
     (\<exists>kv. ht_ef ht (fst kv) k \<and> ht_bindings ht = add_mset kv (ht_bindings ht')
        \<and> rel = (if ht_releasef ht then [kv] else []) \<and> n = 1)
     \<or> (\<forall>x \<in># ht_bindings ht. \<not> ht_ef ht (fst x) k)
        \<and> ht_bindings ht' = ht_bindings ht \<and> rel = [] \<and> n = 0"

lemma bucket_removed_inv:
  assumes inv: "ht_inv ht" and sl: "slot = slot_of_hash (ht_hf ht k) (ht_size ht)"
    and rm: "bucket_remove (ht_ef ht) k (ht_items ht ! slot) = (Some kv, bucket)"
    and new: "new = ht\<lparr>ht_items := (ht_items ht)[slot := bucket], ht_nitems := ht_nitems ht - 1\<rparr>"
  shows "ht_inv new" and "ht_removed ht k (if ht_releasef ht then [kv] else []) new 1"
proof -
  have less: "slot < ht_size ht" and less': "slot < length (ht_items ht)"
    using ht_inv_size [OF inv] sl by simp_all
  have kv: "ht_ef ht (fst kv) k" and m: "mset (ht_items ht ! slot) = add_mset kv (mset bucket)"
    using bucket_remove_Some [OF rm] by simp_all
  let ?ys = "concat ((ht_items ht)[slot := bucket])"
  have eq: "mset (concat (ht_items ht)) = add_mset kv (mset ?ys)"
    using mset_concat_update [OF less', of bucket] m by (simp del: mset_concat)
  show "ht_inv new"
    unfolding new
  proof (rule ht_inv_replace_bucket [OF inv less _ refl])
    show "keys_differ (ht_ef ht) ?ys"
      by (rule keys_differ_mset [OF ht_inv_keys [OF inv] ht_inv_differ [OF inv] eq])
    have "set bucket \<subseteq> set (ht_items ht ! slot)"
      using arg_cong [OF m, of set_mset] by auto
    then show "\<forall>x \<in> set bucket. slot_of_hash (ht_hf ht (fst x)) (ht_size ht) = slot"
      using ht_inv_placed [OF inv] less' unfolding placed_def by blast
    show "ht_nitems ht - 1 = length ?ys"
      using length_eq_of_mset_eq [of "concat (ht_items ht)" "kv # ?ys"] eq ht_inv_count [OF inv]
      unfolding hashtbl_count_def ht_bindings_def by simp
  qed
  show "ht_removed ht k (if ht_releasef ht then [kv] else []) new 1"
    unfolding ht_removed_def by (rule disjI1, rule exI [of _ kv])
      (use kv eq in \<open>simp add: new ht_bindings_def del: mset_concat\<close>)
qed

lemma hashtbl_remove_inv:
  assumes inv: "ht_inv ht" and rm: "hashtbl_remove h ht k = (rel, ht', h')"
  shows "ht_inv ht' \<and> ht_same_funs ht ht'
    \<and> ht_removed ht k rel ht' (nat (hp_live h - hp_live h')) \<and> hp_live h' \<le> hp_live h"
proof -
  define slot where "slot = slot_of_hash (ht_hf ht k) (ht_size ht)"
  define bucket where "bucket = ht_items ht ! slot"
  obtain x b' where br: "bucket_remove (ht_ef ht) k bucket = (x, b')" by fastforce
  have none: "ht_removed ht k [] ht 0" if "x = None"
  proof -
    have "\<forall>y \<in> set bucket. \<not> ht_ef ht (fst y) k"
      using br that bucket_remove_None [of "ht_ef ht" k bucket] by simp
    then have "\<not> (\<exists>y \<in> set (concat (ht_items ht)). ht_ef ht (fst y) k)"
      using bound_iff_in_bucket [OF inv, of k] unfolding bucket_def slot_def by blast
    then show ?thesis unfolding ht_removed_def set_ht_bindings by blast
  qed
  show ?thesis
  proof (cases x)
    case None
    then have "rel = []" and c: "bucket = [] \<and> ht' = ht \<and> h' = h \<or> hashtbl_check_size h ht = (ht', h')"
      using rm br by (auto simp: hashtbl_remove_def Let_def simp flip: slot_def bucket_def
          split: if_split_asm prod.split_asm)
    show ?thesis using c
    proof
      assume "bucket = [] \<and> ht' = ht \<and> h' = h"
      with none [OF None] inv \<open>rel = []\<close> show ?thesis by simp
    next
      assume "hashtbl_check_size h ht = (ht', h')"
      from check_size_inv [OF inv this] none [OF None] \<open>rel = []\<close>
      show ?thesis by (simp add: ht_removed_def)
    qed
  next
    case (Some kv)
    then have "bucket \<noteq> []" using br by auto
    define new where "new = ht\<lparr>ht_items := (ht_items ht)[slot := b'], ht_nitems := ht_nitems ht - 1\<rparr>"
    have rel: "rel = (if ht_releasef ht then [kv] else [])"
      and cs: "hashtbl_check_size (heap_free h) new = (ht', h')"
      using rm br Some \<open>bucket \<noteq> []\<close>
      by (simp_all add: hashtbl_remove_def Let_def new_def flip: slot_def bucket_def)
    note r = bucket_removed_inv [OF inv slot_def br [unfolded Some bucket_def] new_def]
    note c = check_size_inv [OF r(1) cs]
    have f: "ht_same_funs ht new" by (simp add: new_def ht_same_funs_def)
    have "ht_removed ht k rel ht' 1"
      using r(2) unfolding rel ht_removed_def c(2) .
    with c(1,3,4) f show ?thesis by (auto intro: ht_same_funs_trans)
  qed
qed

lemma hashtbl_add_fail:
  "hashtbl_add h ht k v = (False, rel, ht', h') \<Longrightarrow> rel = [] \<and> ht' = ht \<and> hp_live h' = hp_live h"
  by (auto simp: hashtbl_add_def Let_def dest!: heap_malloc_live split: prod.split_asm if_split_asm)

lemma keys_differ_Cons:
  "keys_differ ef (x # xs) \<longleftrightarrow> (\<forall>y \<in> set xs. \<not> ef (fst x) (fst y)) \<and> keys_differ ef xs"
  by (auto simp: keys_differ_def)

text \<open>After a removal no binding has the removed key.\<close>

lemma ht_removed_absent:
  assumes inv: "ht_inv ht" and rm: "ht_removed ht k rel ht' n"
  shows "\<forall>y \<in># ht_bindings ht'. \<not> ht_ef ht (fst y) k"
proof
  fix y assume y: "y \<in># ht_bindings ht'"
  from rm consider kv where "ht_ef ht (fst kv) k" "ht_bindings ht = add_mset kv (ht_bindings ht')"
    | "\<forall>x \<in># ht_bindings ht. \<not> ht_ef ht (fst x) k" "ht_bindings ht' = ht_bindings ht"
    unfolding ht_removed_def by blast
  then show "\<not> ht_ef ht (fst y) k"
  proof cases
    case 1
    have "\<not> ht_ef ht (fst y) (fst kv)"
      by (rule keys_differ_mset(2) [OF ht_inv_keys [OF inv] ht_inv_differ [OF inv]
            1(2) [unfolded ht_bindings_def]]) (use y in \<open>simp only: set_ht_bindings\<close>)
    then show ?thesis
      using hash_keys.ef_right_cong [OF ht_inv_keys [OF inv] 1(1)] by simp
  next
    case 2
    show ?thesis using 2(1) y [unfolded 2(2)] by blast
  qed
qed

lemma hashtbl_add_inv:
  assumes inv: "ht_inv ht" and add: "hashtbl_add h ht k v = (True, rel, ht', h')"
  shows "\<exists>ht1 n. ht_inv ht1 \<and> ht_same_funs ht ht1 \<and> ht_removed ht k rel ht1 n \<and> ht_inv ht' \<and> ht_same_funs ht ht'
    \<and> ht_bindings ht' = add_mset (k, v) (ht_bindings ht1)
    \<and> hp_live h' = hp_live h + 1 - int n"
proof -
  obtain h1 where h1: "heap_malloc h = (True, h1)"
    using add by (auto simp: hashtbl_add_def split: prod.split_asm if_split_asm)
  obtain ht1 h2 where rm: "hashtbl_remove h1 ht k = (rel, ht1, h2)"
    using add h1 by (auto simp: hashtbl_add_def Let_def split: prod.split_asm)
  define slot where "slot = slot_of_hash (ht_hf ht1 k) (ht_size ht1)"
  define new where "new = ht1\<lparr>ht_items := (ht_items ht1)[slot := (k, v) # ht_items ht1 ! slot],
    ht_nitems := ht_nitems ht1 + 1\<rparr>"
  have cs: "hashtbl_check_size h2 new = (ht', h')"
    using add h1 rm by (auto simp: hashtbl_add_def Let_def new_def slot_def)
  obtain n where inv1: "ht_inv ht1" and same: "ht_same_funs ht ht1"
    and r: "ht_removed ht k rel ht1 n" and n: "int n = hp_live h1 - hp_live h2"
    using hashtbl_remove_inv [OF inv rm] by (metis int_nat_eq diff_ge_0_iff_ge)
  have ef: "ht_ef ht1 = ht_ef ht" using same by (simp add: ht_same_funs_def)
  note sl = ht_inv_size [OF inv1]
  then have less: "slot < ht_size ht1" by (simp add: slot_def)
  have m: "mset (concat ((ht_items ht1)[slot := (k, v) # ht_items ht1 ! slot]))
      = mset ((k, v) # concat (ht_items ht1))"
    using less sl by (simp add: mset_concat_push del: mset_concat)
  have "ht_inv new"
    unfolding new_def
  proof (rule ht_inv_replace_bucket [OF inv1 less _ m])
    show "\<forall>x \<in> set ((k, v) # ht_items ht1 ! slot). slot_of_hash (ht_hf ht1 (fst x)) (ht_size ht1) = slot"
      using ht_inv_placed [OF inv1] less sl by (auto simp: placed_def slot_def)
    show "keys_differ (ht_ef ht1) ((k, v) # concat (ht_items ht1))"
      using ht_removed_absent [OF inv r, unfolded set_ht_bindings] ht_inv_differ [OF inv1]
      by (simp add: keys_differ_Cons ef hash_keys.ef_commute [OF ht_inv_keys [OF inv], of k] del: set_concat)
    show "ht_nitems ht1 + 1 = length ((k, v) # concat (ht_items ht1))"
      using ht_inv_count [OF inv1] by (simp add: hashtbl_count_def ht_bindings_def del: mset_concat)
  qed
  note c = check_size_inv [OF this cs]
  have "ht_bindings ht' = add_mset (k, v) (ht_bindings ht1)"
    using c(2) m by (simp add: new_def ht_bindings_def del: mset_concat)
  moreover have "ht_same_funs ht ht'"
    using c(3) same by (simp add: new_def ht_same_funs_def)
  moreover have "hp_live h' = hp_live h + 1 - int n"
    using c(4) n heap_malloc_live [OF h1] by simp
  ultimately show ?thesis using c(1) inv1 r same by blast
qed

section \<open>What a lookup returns after each operation\<close>

lemma hashtbl_find_bound:
  "ht_inv ht \<Longrightarrow> hashtbl_find ht k = Some v
    \<longleftrightarrow> (\<exists>x \<in># ht_bindings ht. ht_ef ht (fst x) k \<and> snd x = v)"
  by (simp only: hashtbl_find_iff set_ht_bindings)

lemma hashtbl_find_eqI:
  assumes "ht_inv ht" "ht_inv ht'" "ht_ef ht' = ht_ef ht"
    and "\<And>x. ht_ef ht (fst x) k \<Longrightarrow> x \<in># ht_bindings ht' \<longleftrightarrow> x \<in># ht_bindings ht"
  shows "hashtbl_find ht' k = hashtbl_find ht k"
proof -
  have "hashtbl_find ht' k = Some v \<longleftrightarrow> hashtbl_find ht k = Some v" for v
    using hashtbl_find_bound [OF assms(1), of k v] hashtbl_find_bound [OF assms(2), of k v]
      assms(3,4) by auto
  then show ?thesis by (metis not_Some_eq)
qed

lemma find_after_removed:
  assumes inv: "ht_inv ht" "ht_inv ht'" and same: "ht_same_funs ht ht'"
    and rm: "ht_removed ht k rel ht' n"
  shows "hashtbl_find ht' q = (if ht_ef ht k q then None else hashtbl_find ht q)"
proof (cases "ht_ef ht k q")
  case True
  have ef: "ht_ef ht' = ht_ef ht" using same by (simp add: ht_same_funs_def)
  have "hashtbl_find ht' q \<noteq> Some v" for v
    using ht_removed_absent [OF inv(1) rm] hashtbl_find_bound [OF inv(2), of q v]
      hash_keys.ef_right_cong [OF ht_inv_keys [OF inv(1)] True] ef by metis
  with True show ?thesis by (cases "hashtbl_find ht' q") auto
next
  case False
  have "x \<in># ht_bindings ht' \<longleftrightarrow> x \<in># ht_bindings ht" if "ht_ef ht (fst x) q" for x
  proof -
    have "\<not> ht_ef ht (fst x) k"
      using False that hash_keys.ef_trans [OF ht_inv_keys [OF inv(1)]]
        hash_keys.ef_sym [OF ht_inv_keys [OF inv(1)]] by metis
    with rm show ?thesis unfolding ht_removed_def by auto
  qed
  with False show ?thesis
    using hashtbl_find_eqI [OF inv] same by (simp add: ht_same_funs_def)
qed

lemma find_after_added:
  assumes inv: "ht_inv ht1" "ht_inv ht'" and ef: "ht_ef ht' = ht_ef ht1"
    and b: "ht_bindings ht' = add_mset (k, v) (ht_bindings ht1)"
  shows "hashtbl_find ht' q = (if ht_ef ht1 k q then Some v else hashtbl_find ht1 q)"
proof (cases "ht_ef ht1 k q")
  case True
  have "\<exists>x \<in># ht_bindings ht'. ht_ef ht' (fst x) q \<and> snd x = v"
    by (rule bexI [of _ "(k, v)"]) (use True ef b in simp_all)
  then have "hashtbl_find ht' q = Some v"
    using hashtbl_find_bound [OF inv(2), of q v] by simp
  with True show ?thesis by simp
next
  case False
  then have "x \<in># ht_bindings ht' \<longleftrightarrow> x \<in># ht_bindings ht1" if "ht_ef ht1 (fst x) q" for x
    using that b by (cases "x = (k, v)") auto
  with False show ?thesis using hashtbl_find_eqI [OF inv ef] by simp
qed

lemma hashtbl_change_spec:
  assumes inv: "ht_inv ht" and ch: "hashtbl_change ht k v = (ok, ht')"
  shows "ht_inv ht'" and "ht_same_funs ht ht'" and "ok \<longleftrightarrow> hashtbl_find ht k \<noteq> None"
    and "hashtbl_find ht' q = (if ok \<and> ht_ef ht k q then Some v else hashtbl_find ht q)"
    and "ht_nitems ht' = ht_nitems ht"
proof -
  define slot where "slot = slot_of_hash (ht_hf ht k) (ht_size ht)"
  define bucket where "bucket = snd (bucket_change (ht_ef ht) k v (ht_items ht ! slot))"
  have ht': "ht' = ht\<lparr>ht_items := (ht_items ht)[slot := bucket]\<rparr>"
    and ok: "ok = fst (bucket_change (ht_ef ht) k v (ht_items ht ! slot))"
    using ch by (auto simp: hashtbl_change_def Let_def slot_def bucket_def split: prod.split_asm)
  have keys: "map fst bucket = map fst (ht_items ht ! slot)"
    by (simp add: bucket_def bucket_change_keys)
  have less: "slot < ht_size ht" "slot < length (ht_items ht)"
    using ht_inv_size [OF inv] by (simp_all add: slot_def)
  have ck: "map fst (concat (ht_items ht')) = map fst (concat (ht_items ht))"
    by (simp add: ht' map_concat map_update keys list_update_beyond)
       (metis list_update_id map_update)
  have kd: "keys_differ (ht_ef ht) (concat (ht_items ht'))"
    using ht_inv_differ [OF inv] ck sorted_wrt_map [of "\<lambda>a b. \<not> ht_ef ht a b" fst]
    unfolding keys_differ_def by metis
  have pl: "placed (ht_hf ht) (ht_size ht) (ht_items ht')"
  proof -
    have "slot_of_hash (ht_hf ht (fst x)) (ht_size ht) = slot" if "x \<in> set bucket" for x
    proof -
      have "fst x \<in> fst ` set (ht_items ht ! slot)"
        using that keys by (metis image_eqI set_map)
      then show ?thesis using ht_inv_placed [OF inv] less unfolding placed_def by fastforce
    qed
    then show ?thesis
      using ht_inv_placed [OF inv] less by (simp add: placed_def ht' nth_list_update)
  qed
  have len: "length (concat (ht_items ht')) = length (concat (ht_items ht))"
    using arg_cong [OF ck, of length] by (simp only: length_map)
  show inv': "ht_inv ht'"
  proof (rule ht_invI)
    show "ht_nitems ht' = size (ht_bindings ht')"
      using len ht_inv_count [OF inv] by (simp add: ht' hashtbl_count_def ht_bindings_def del: mset_concat)
  qed (use inv kd pl ht_inv_size [OF inv] in \<open>simp_all add: ht' ht_inv_keys\<close>)
  show same: "ht_same_funs ht ht'" by (simp add: ht' ht_same_funs_def)
  show ok': "ok \<longleftrightarrow> hashtbl_find ht k \<noteq> None"
    by (simp add: ok bucket_change_ok hashtbl_find_def bucket_find_None flip: slot_def)
  show "ht_nitems ht' = ht_nitems ht" by (simp add: ht')
  show "hashtbl_find ht' q = (if ok \<and> ht_ef ht k q then Some v else hashtbl_find ht q)"
  proof (cases "slot_of_hash (ht_hf ht q) (ht_size ht) = slot")
    case True
    then show ?thesis
      using less ok
      by (simp add: hashtbl_find_def ht' bucket_def hash_keys.bucket_find_change [OF ht_inv_keys [OF inv]]
          flip: slot_def)
  next
    case False
    then have "\<not> ht_ef ht k q"
      using hash_keys.hf_cong [OF ht_inv_keys [OF inv], of k q] by (auto simp: slot_def)
    with False show ?thesis by (simp add: hashtbl_find_def ht')
  qed
qed

section \<open>The size of the table follows the number of items\<close>

text \<open>
  What \<open>hashtbl_check_size\<close> establishes when its \<open>malloc\<close> succeeds: at most three
  items for four slots, and, above the initial size, at least one for four.
\<close>

definition ht_load_ok :: "('k, 'v) hashtbl \<Rightarrow> bool" where
  "ht_load_ok ht \<longleftrightarrow> 16 \<le> ht_size ht \<and> 4 * ht_nitems ht \<le> 3 * ht_size ht
     \<and> (ht_size ht < 32 \<or> ht_size ht \<le> 4 * ht_nitems ht)"

lemma check_size_load:
  assumes "hashtbl_check_size h ht = (ht', h')" and "all_answers_ok h"
    and "16 \<le> ht_size ht" and "4 * ht_nitems ht \<le> 3 * ht_size ht + 4"
    and "ht_size ht < 32 \<or> ht_size ht \<le> 4 * ht_nitems ht + 4"
  shows "ht_load_ok ht'" and "all_answers_ok h'"
proof -
  obtain ok h1 where m: "heap_malloc h = (ok, h1)" by fastforce
  note ok = heap_malloc_ok [OF assms(2) m]
  have "ht_nitems ht' = ht_nitems ht
    \<and> ht_size ht' = (if 16 \<le> wanted_size ht then wanted_size ht else ht_size ht)"
    using assms(1) m ok by (auto simp: hashtbl_check_size_def DEFAULT_HT_INIT_SIZE_def Let_def
        split: if_split_asm)
  then show "ht_load_ok ht'"
    using assms(3-5) by (auto simp: ht_load_ok_def wanted_size_def Let_def split: if_split_asm)
  show "all_answers_ok h'"
    using assms(1,2) m ok by (auto simp: hashtbl_check_size_def Let_def split: if_split_asm)
qed

lemma remove_cases_size:
  assumes "hashtbl_remove h ht k = (rel, ht', h')"
  shows "ht' = ht \<and> h' = h
    \<or> (\<exists>ht0 h0. hashtbl_check_size h0 ht0 = (ht', h') \<and> hp_answers h0 = hp_answers h
        \<and> ht_size ht0 = ht_size ht \<and> (ht_nitems ht0 = ht_nitems ht \<or> ht_nitems ht0 = ht_nitems ht - 1))"
proof (cases "ht_items ht ! slot_of_hash (ht_hf ht k) (ht_size ht) = []")
  case True
  with assms show ?thesis by (simp add: hashtbl_remove_def Let_def)
next
  case False
  obtain x b where b: "bucket_remove (ht_ef ht) k
    (ht_items ht ! slot_of_hash (ht_hf ht k) (ht_size ht)) = (x, b)" by fastforce
  show ?thesis
  proof (cases x)
    case None
    with assms False b have "hashtbl_check_size h ht = (ht', h')"
      by (simp add: hashtbl_remove_def Let_def)
    then show ?thesis by blast
  next
    case (Some kv)
    with assms False b have "hashtbl_check_size (heap_free h)
      (ht\<lparr>ht_items := (ht_items ht)[slot_of_hash (ht_hf ht k) (ht_size ht) := b],
         ht_nitems := ht_nitems ht - 1\<rparr>) = (ht', h')"
      by (simp add: hashtbl_remove_def Let_def)
    then show ?thesis
      by (intro disjI2 exI conjI) (assumption, simp_all)
  qed
qed

lemma remove_load:
  assumes "hashtbl_remove h ht k = (rel, ht', h')" and "all_answers_ok h" and "ht_load_ok ht"
  shows "ht_load_ok ht'" and "all_answers_ok h'"
proof -
  have "ht_load_ok ht' \<and> all_answers_ok h'"
    using remove_cases_size [OF assms(1)]
  proof
    assume "ht' = ht \<and> h' = h"
    with assms(2,3) show ?thesis by simp
  next
    assume "\<exists>ht0 h0. hashtbl_check_size h0 ht0 = (ht', h') \<and> hp_answers h0 = hp_answers h
      \<and> ht_size ht0 = ht_size ht \<and> (ht_nitems ht0 = ht_nitems ht \<or> ht_nitems ht0 = ht_nitems ht - 1)"
    then obtain ht0 h0 where c: "hashtbl_check_size h0 ht0 = (ht', h')"
      and a: "hp_answers h0 = hp_answers h" "ht_size ht0 = ht_size ht"
        "ht_nitems ht0 = ht_nitems ht \<or> ht_nitems ht0 = ht_nitems ht - 1" by blast
    have "all_answers_ok h0" "16 \<le> ht_size ht0" "4 * ht_nitems ht0 \<le> 3 * ht_size ht0 + 4"
      "ht_size ht0 < 32 \<or> ht_size ht0 \<le> 4 * ht_nitems ht0 + 4"
      using a assms(2,3) by (auto simp: all_answers_ok_def ht_load_ok_def)
    from check_size_load [OF c this] show ?thesis by simp
  qed
  then show "ht_load_ok ht'" and "all_answers_ok h'" by simp_all
qed

lemma add_load:
  assumes "hashtbl_add h ht k v = (ok, rel, ht', h')" and "all_answers_ok h" and "ht_load_ok ht"
  shows "ok" and "ht_load_ok ht'" and "all_answers_ok h'"
proof -
  obtain ok' h1 where m: "heap_malloc h = (ok', h1)" by fastforce
  note ok = heap_malloc_ok [OF assms(2) m]
  obtain rel1 ht1 h2 where r: "hashtbl_remove h1 ht k = (rel1, ht1, h2)" using prod_cases3 by blast
  note l = remove_load [OF r ok(2) assms(3)]
  let ?slot = "slot_of_hash (ht_hf ht1 k) (ht_size ht1)"
  let ?new = "ht1\<lparr>ht_items := (ht_items ht1)[?slot := (k, v) # ht_items ht1 ! ?slot],
    ht_nitems := ht_nitems ht1 + 1\<rparr>"
  have c: "hashtbl_check_size h2 ?new = (ht', h')" and o: "ok"
    using assms(1) m ok r by (auto simp: hashtbl_add_def Let_def)
  have "16 \<le> ht_size ?new" "4 * ht_nitems ?new \<le> 3 * ht_size ?new + 4"
    "ht_size ?new < 32 \<or> ht_size ?new \<le> 4 * ht_nitems ?new + 4"
    using l(1) by (auto simp: ht_load_ok_def)
  from check_size_load [OF c l(2) this] o
  show "ok" and "ht_load_ok ht'" and "all_answers_ok h'" by simp_all
qed

section \<open>Traversal and deletion\<close>

lemma hashtbl_iter_bindings: "ht_inv ht \<Longrightarrow> mset (hashtbl_iter ht) = ht_bindings ht"
  using ht_inv_size [of ht] by (simp add: hashtbl_iter_def ht_bindings_def del: mset_concat)

lemma delete_buckets_spec:
  "delete_buckets h bs = (log, h') \<Longrightarrow>
     log = concat bs \<and> hp_live h' = hp_live h - int (length (concat bs))"
proof (induction bs arbitrary: h log h')
  case (Cons b bs)
  obtain log1 h1 where d: "delete_buckets (heap_frees (length b) h) bs = (log1, h1)" by fastforce
  from Cons.IH [OF d] Cons.prems d show ?case by auto
qed simp

lemma delete_hashtbl_spec:
  assumes "ht_inv ht" and "delete_hashtbl h ht = (log, h')"
  shows "log = (if ht_releasef ht then hashtbl_iter ht else [])"
    and "hp_live h' = hp_live h - 2 - int (hashtbl_count ht)"
proof -
  obtain log1 h1 where d: "delete_buckets h (take (ht_size ht) (ht_items ht)) = (log1, h1)" by fastforce
  note s = delete_buckets_spec [OF d]
  show "log = (if ht_releasef ht then hashtbl_iter ht else [])"
    using assms(2) d s by (simp add: delete_hashtbl_def hashtbl_iter_def split: if_split_asm)
  show "hp_live h' = hp_live h - 2 - int (hashtbl_count ht)"
    using assms d s ht_inv_size [OF assms(1)] ht_inv_count [OF assms(1)]
    by (auto simp: delete_hashtbl_def ht_bindings_def simp del: mset_concat)
qed

section \<open>The table honours the contract of dictionaries\<close>

definition ht_put :: "heap \<Rightarrow> ('k, 'v) hashtbl \<Rightarrow> 'k \<Rightarrow> 'v \<Rightarrow> bool \<times> ('k, 'v) hashtbl \<times> heap" where
  "ht_put h ht k v = (case hashtbl_add h ht k v of (ok, _, ht', h') \<Rightarrow> (ok, ht', h'))"

definition ht_del :: "heap \<Rightarrow> ('k, 'v) hashtbl \<Rightarrow> 'k \<Rightarrow> ('k, 'v) hashtbl \<times> heap" where
  "ht_del h ht k = (case hashtbl_remove h ht k of (_, ht', h') \<Rightarrow> (ht', h'))"

definition ht_ok :: "('k \<Rightarrow> 'k \<Rightarrow> bool) \<Rightarrow> ('k \<Rightarrow> u32) \<Rightarrow> ('k, 'v) hashtbl \<Rightarrow> bool" where
  "ht_ok ef hf ht \<longleftrightarrow> ht_inv ht \<and> ht_ef ht = ef \<and> ht_hf ht = hf"

lemma ht_put_spec:
  assumes "ht_ok ef hf t" and "ht_put h t k v = (b, t', h')"
  shows "ht_ok ef hf t'" and "hashtbl_find t' q = (if b \<and> ef k q then Some v else hashtbl_find t q)"
proof -
  have inv: "ht_inv t" and f: "ht_ef t = ef" "ht_hf t = hf" using assms(1) by (simp_all add: ht_ok_def)
  obtain rel where add: "hashtbl_add h t k v = (b, rel, t', h')"
    using assms(2) by (auto simp: ht_put_def split: prod.split_asm)
  have "ht_ok ef hf t' \<and> hashtbl_find t' q = (if b \<and> ef k q then Some v else hashtbl_find t q)"
  proof (cases b)
    case True
    have "hashtbl_add h t k v = (True, rel, t', h')" using add True by simp
    from hashtbl_add_inv [OF inv this]
    obtain ht1 n where 1: "ht_inv ht1" "ht_removed t k rel ht1 n" "ht_inv t'" "ht_same_funs t t'"
      "ht_bindings t' = add_mset (k, v) (ht_bindings ht1)" "ht_same_funs t ht1" by blast
    from find_after_removed [OF inv 1(1,6,2), of q] find_after_added [OF 1(1,3) _ 1(5), of q] 1 f True
    show ?thesis by (auto simp: ht_same_funs_def ht_ok_def)
  next
    case False
    with hashtbl_add_fail add assms(1) show ?thesis by fastforce
  qed
  then show "ht_ok ef hf t'"
    and "hashtbl_find t' q = (if b \<and> ef k q then Some v else hashtbl_find t q)" by simp_all
qed

lemma ht_del_spec:
  assumes "ht_ok ef hf t" and "ht_del h t k = (t', h')"
  shows "ht_ok ef hf t'" and "hashtbl_find t' q = (if ef k q then None else hashtbl_find t q)"
proof -
  have inv: "ht_inv t" and f: "ht_ef t = ef" "ht_hf t = hf" using assms(1) by (simp_all add: ht_ok_def)
  obtain rel where rm: "hashtbl_remove h t k = (rel, t', h')"
    using assms(2) by (auto simp: ht_del_def split: prod.split_asm)
  note r = hashtbl_remove_inv [OF inv rm]
  show "ht_ok ef hf t'" using r f by (simp add: ht_ok_def ht_same_funs_def)
  show "hashtbl_find t' q = (if ef k q then None else hashtbl_find t q)"
    using find_after_removed [OF inv conjunct1 [OF r], of k rel _ q] r f by blast
qed

interpretation id_table: dictionary id_key_eq_fun "ht_ok id_key_eq_fun id_hash_fun" hashtbl_find ht_put ht_del
  by unfold_locales (fact ht_put_spec ht_del_spec)+

interpretation str_table: dictionary str_key_eq_fun "ht_ok str_key_eq_fun str_hash_fun" hashtbl_find ht_put ht_del
  by unfold_locales (fact ht_put_spec ht_del_spec)+

section \<open>Accounting of blocks\<close>

lemma size_ht_removed:
  "ht_removed ht k rel ht' n \<Longrightarrow> size (ht_bindings ht) = size (ht_bindings ht') + n"
  unfolding ht_removed_def by auto

lemma ht_put_live:
  assumes "ht_inv t" and "ht_put h t k v = (b, t', h')"
  shows "hp_live h' - hp_live h = int (hashtbl_count t') - int (hashtbl_count t)"
proof -
  obtain rel where add: "hashtbl_add h t k v = (b, rel, t', h')"
    using assms(2) by (auto simp: ht_put_def split: prod.split_asm)
  show ?thesis
  proof (cases b)
    case True
    then have "hashtbl_add h t k v = (True, rel, t', h')" using add by simp
    from hashtbl_add_inv [OF assms(1) this]
    show ?thesis using size_ht_removed ht_inv_count [OF assms(1)] ht_inv_count [of t'] by fastforce
  next
    case False
    with hashtbl_add_fail add show ?thesis by fastforce
  qed
qed

lemma ht_del_live:
  assumes "ht_inv t" and "ht_del h t k = (t', h')"
  shows "hp_live h' - hp_live h = int (hashtbl_count t') - int (hashtbl_count t)"
proof -
  obtain rel where rm: "hashtbl_remove h t k = (rel, t', h')"
    using assms(2) by (auto simp: ht_del_def split: prod.split_asm)
  from hashtbl_remove_inv [OF assms(1) rm] size_ht_removed [of t k rel t']
  show ?thesis using ht_inv_count [OF assms(1)] ht_inv_count [of t'] by fastforce
qed

lemma table_run_live:
  "ht_ok ef hf t \<Longrightarrow> table_run ht_put ht_del h t ops = (oks, t', h') \<Longrightarrow>
     ht_ok ef hf t' \<and> hp_live h' - hp_live h = int (hashtbl_count t') - int (hashtbl_count t)"
proof (induction ops arbitrary: h t oks t' h')
  case (Cons op ops)
  have inv: "ht_inv t" using Cons.prems(1) by (simp add: ht_ok_def)
  obtain b t1 h1 oks1 where r: "table_run ht_put ht_del h1 t1 ops = (oks1, t', h')"
    and one: "(\<exists>k v. ht_put h t k v = (b, t1, h1)) \<or> (\<exists>k. ht_del h t k = (t1, h1))"
    using Cons.prems(2) by (cases op) (auto split: prod.split_asm, blast+)
  have "ht_ok ef hf t1 \<and> hp_live h1 - hp_live h = int (hashtbl_count t1) - int (hashtbl_count t)"
    using one ht_put_spec(1) [OF Cons.prems(1)] ht_del_spec(1) [OF Cons.prems(1)]
      ht_put_live [OF inv] ht_del_live [OF inv] by blast
  with Cons.IH [OF _ r] show ?case by auto
qed simp

lemma create_hashtbl_funs:
  "create_hashtbl h ef hf rel = (Some t, h') \<Longrightarrow>
     ht_ef t = ef \<and> ht_hf t = hf \<and> ht_releasef t = rel \<and> ht_load_ok t"
  by (auto simp: create_hashtbl_def ht_load_ok_def DEFAULT_HT_INIT_SIZE_def
      split: prod.split_asm if_split_asm)

section \<open>Properties\<close>

text \<open>C5: whatever sequence of insertions and removals is performed on a new table with
  string keys, and whichever of its allocations fail, a lookup returns what the insertions that
  answered "true" and the removals leave bound: the hash table refines a finite function, through
  every resizing and every collision.\<close>

theorem hashtbl_refines_map:
  assumes "create_hashtbl h str_key_eq_fun str_hash_fun rel = (Some t0, h0)"
    and "table_run ht_put ht_del h0 t0 ops = (oks, t, h1)"
  shows "hashtbl_find t = table_effect str_key_eq_fun (\<lambda>_. None) ops oks"
proof -
  note inv = create_hashtbl_inv [OF str_keys.hash_keys_axioms assms(1)]
  have ok: "ht_ok str_key_eq_fun str_hash_fun t0"
    using inv(1) create_hashtbl_funs [OF assms(1)] by (simp add: ht_ok_def)
  have "hashtbl_find t0 q \<noteq> Some v" for q v
    using hashtbl_find_bound [OF inv(1), of q v] inv(2) by simp
  then have "hashtbl_find t0 = (\<lambda>_. None)"
    by (intro ext) (metis not_Some_eq)
  with str_table.table_run_refines [OF ok assms(2)] show ?thesis by simp
qed

definition wit_ht :: "(string, nat) hashtbl option \<times> heap" where
  "wit_ht = create_hashtbl \<lparr>hp_answers = [True, True, False], hp_live = 0\<rparr>
     str_key_eq_fun str_hash_fun True"

definition wit_ops :: "(string, nat) table_op list" where
  "wit_ops = [Put ''ab'' 1, Put ''c'' 2, Put ''c'' 3, Del ''d'']"

lemma replicate_16: "replicate 16 x = [x, x, x, x, x, x, x, x, x, x, x, x, x, x, x, x]"
  by (simp add: eval_nat_numeral)

lemma wit_slots:
  "slot_of_hash (str_hash_fun ''c'') 16 = 9" "slot_of_hash (str_hash_fun ''d'') 16 = 4"
  "slot_of_hash (str_hash_fun ''ab'') 16 = 5"
  by (simp_all add: str_hash_fun_def slot_of_hash_def NUL_def schar_def uchar_def)

lemmas ht_eval = create_hashtbl_def heap_malloc_def next_answer_def DEFAULT_HT_INIT_SIZE_def
  ht_put_def ht_del_def hashtbl_add_def hashtbl_remove_def hashtbl_check_size_def wanted_size_def
  Let_def str_key_eq_fun_def heap_free_def hashtbl_find_def replicate_16 wit_slots
  wit_ht_def wit_ops_def

theorem hashtbl_refines_map_witness:
  "hashtbl_find (fst (snd (table_run ht_put ht_del (snd wit_ht) (the (fst wit_ht)) wit_ops))) ''c'' = Some 3"
proof -
  let ?r = "table_run ht_put ht_del (snd wit_ht) (the (fst wit_ht)) wit_ops"
  have c: "create_hashtbl \<lparr>hp_answers = [True, True, False], hp_live = 0\<rparr> str_key_eq_fun str_hash_fun True
      = (Some (the (fst wit_ht)), snd wit_ht)"
    by (simp add: wit_ht_def create_hashtbl_def heap_malloc_def next_answer_def)
  have r: "table_run ht_put ht_del (snd wit_ht) (the (fst wit_ht)) wit_ops
      = (fst ?r, fst (snd ?r), snd (snd ?r))" by simp
  have o: "fst ?r = [False, True, True, True]" by (simp add: ht_eval)
  have e: "table_effect str_key_eq_fun (\<lambda>_. None) wit_ops [False, True, True, True] ''c'' = Some 3"
    by (simp add: wit_ops_def str_key_eq_fun_def NUL_def)
  show ?thesis using hashtbl_refines_map [OF c r] o e by simp
qed

text \<open>C10: over any sequence of insertions and removals, and any pattern of failed
  allocations, the table holds exactly its items, its array and its header: deleting it brings the
  number of live blocks back to what it was before the table was created, and the release function
  is called once for each remaining binding.\<close>

theorem hashtbl_no_leak:
  assumes "hash_keys ef hf" and "create_hashtbl h ef hf rel = (Some t0, h0)"
    and "table_run ht_put ht_del h0 t0 ops = (oks, t, h1)" and "delete_hashtbl h1 t = (log, h2)"
  shows "hp_live h2 = hp_live h \<and> mset log = (if ht_releasef t then ht_bindings t else {#})"
proof -
  note inv = create_hashtbl_inv [OF assms(1,2)]
  have c0: "hashtbl_count t0 = 0" using ht_inv_count [OF inv(1)] inv(2) by simp
  have "ht_ok ef hf t0"
    using inv(1) create_hashtbl_funs [OF assms(2)] by (simp add: ht_ok_def)
  note r = table_run_live [OF this assms(3)]
  then have t: "ht_inv t" by (simp add: ht_ok_def)
  show ?thesis
    using delete_hashtbl_spec [OF t assms(4)] r c0 inv(3) hashtbl_iter_bindings [OF t] by simp
qed

theorem hashtbl_no_leak_witness:
  "hp_live (snd (delete_hashtbl
      (snd (snd (table_run ht_put ht_del (snd wit_ht) (the (fst wit_ht)) wit_ops)))
      (fst (snd (table_run ht_put ht_del (snd wit_ht) (the (fst wit_ht)) wit_ops))))) = 0"
proof -
  let ?r = "table_run ht_put ht_del (snd wit_ht) (the (fst wit_ht)) wit_ops"
  let ?d = "delete_hashtbl (snd (snd ?r)) (fst (snd ?r))"
  have c: "create_hashtbl \<lparr>hp_answers = [True, True, False], hp_live = 0\<rparr> str_key_eq_fun str_hash_fun True
      = (Some (the (fst wit_ht)), snd wit_ht)"
    by (simp add: wit_ht_def create_hashtbl_def heap_malloc_def next_answer_def)
  have r: "table_run ht_put ht_del (snd wit_ht) (the (fst wit_ht)) wit_ops
      = (fst ?r, fst (snd ?r), snd (snd ?r))" by simp
  have d: "?d = (fst ?d, snd ?d)" by simp
  show ?thesis
    using hashtbl_no_leak [OF str_keys.hash_keys_axioms c r d] by simp
qed

text \<open>While no allocation fails, an insertion succeeds and leaves the load of the table in
  its bounds: at most three items for four slots, and at least one for four once the array has
  grown beyond 31 slots.\<close>

theorem hashtbl_load_bounds:
  assumes "ht_load_ok ht" and "all_answers_ok h" and "hashtbl_add h ht k v = (ok, rel, ht', h')"
  shows "ok \<and> 4 * hashtbl_count ht' \<le> 3 * ht_size ht'
    \<and> (ht_size ht' < 32 \<or> ht_size ht' \<le> 4 * hashtbl_count ht')"
  using add_load [OF assms(3,2,1)] by (simp add: ht_load_ok_def hashtbl_count_def)

theorem hashtbl_load_bounds_witness:
  "fst (hashtbl_add \<lparr>hp_answers = [], hp_live = 2\<rparr> (the (fst wit_ht)) ''c'' 7)"
proof -
  let ?h = "\<lparr>hp_answers = [], hp_live = 2\<rparr> :: heap"
  let ?r = "hashtbl_add ?h (the (fst wit_ht)) ''c'' 7"
  have l: "ht_load_ok (the (fst wit_ht))"
    by (simp add: wit_ht_def create_hashtbl_def heap_malloc_def next_answer_def
        DEFAULT_HT_INIT_SIZE_def ht_load_ok_def)
  have "all_answers_ok ?h" by (simp add: all_answers_ok_def)
  moreover have "?r = (fst ?r, fst (snd ?r), fst (snd (snd ?r)), snd (snd (snd ?r)))" by simp
  ultimately show ?thesis using hashtbl_load_bounds [OF l] by blast
qed

end
