(* ===== verification/Btree.thy ===== *)
theory Btree
  imports Kv_Keys
begin

text \<open>
  The search tree of src/common/libkogata/btree.c. An item keeps the height the code stored in
  it, which need not be the height of the subtree: \<open>btree_remove\<close> does not recompute it on
  the way down. A height is only ever written by \<open>btree_recalc_height\<close>, so it is a
  natural number. The same key may be bound several times.
\<close>

section \<open>The code\<close>

datatype ('k, 'v) btree_item =
    Null
  | Item (bt_key: 'k) (bt_val: 'v) (bt_height: nat)
      (bt_left: "('k, 'v) btree_item") (bt_right: "('k, 'v) btree_item")

record ('k, 'v) btree =
  bt_cf :: "'k \<Rightarrow> 'k \<Rightarrow> int"
  bt_releasef :: bool
  bt_root :: "('k, 'v) btree_item"
  bt_nitems :: int

definition create_btree ::
  "heap \<Rightarrow> ('k \<Rightarrow> 'k \<Rightarrow> int) \<Rightarrow> bool \<Rightarrow> ('k, 'v) btree option \<times> heap" where
  "create_btree h cf relf =
     (case heap_malloc h of (ok, h') \<Rightarrow>
        if \<not> ok then (None, h')
        else (Some \<lparr>bt_cf = cf, bt_releasef = relf, bt_root = Null, bt_nitems = 0\<rparr>, h'))"

text \<open>Deleting visits the children first; the log lists the items in the order they are
  released.\<close>

fun btree_delete_item_rec :: "('k, 'v) btree_item \<Rightarrow> ('k \<times> 'v) list" where
  "btree_delete_item_rec Null = []"
| "btree_delete_item_rec (Item k v _ l r) =
     btree_delete_item_rec l @ btree_delete_item_rec r @ [(k, v)]"

definition delete_btree :: "heap \<Rightarrow> ('k, 'v) btree \<Rightarrow> ('k \<times> 'v) list \<times> heap" where
  "delete_btree h t =
     (let items = btree_delete_item_rec (bt_root t)
      in (if bt_releasef t then items else [], heap_free (heap_frees (length items) h)))"

definition btree_count :: "('k, 'v) btree \<Rightarrow> int" where
  "btree_count t = bt_nitems t"

fun height :: "('k, 'v) btree_item \<Rightarrow> nat" where
  "height Null = 0"
| "height (Item _ _ h _ _) = h"

fun btree_recalc_height :: "('k, 'v) btree_item \<Rightarrow> ('k, 'v) btree_item" where
  "btree_recalc_height Null = Null"
| "btree_recalc_height (Item k v _ l r) = Item k v (max (height l) (height r) + 1) l r"

text \<open>The rotations, with the pointers they move written as constructor patterns.\<close>

fun btree_rotate_left :: "('k, 'v) btree_item \<Rightarrow> ('k, 'v) btree_item" where
  "btree_rotate_left (Item ik iv ih (Item xk xv xh a b) y) =
     btree_recalc_height (Item xk xv xh a (btree_recalc_height (Item ik iv ih b y)))"
| "btree_rotate_left i = i"

fun btree_rotate_right :: "('k, 'v) btree_item \<Rightarrow> ('k, 'v) btree_item" where
  "btree_rotate_right (Item ik iv ih x (Item yk yv yh a b)) =
     btree_recalc_height (Item yk yv yh (btree_recalc_height (Item ik iv ih x a)) b)"
| "btree_rotate_right i = i"

text \<open>The two loops of \<open>btree_equilibrate\<close>; each turn takes items out of one subtree.\<close>

fun left_excess :: "('k, 'v) btree_item \<Rightarrow> bool" where
  "left_excess Null = False"
| "left_excess (Item _ _ _ l r) \<longleftrightarrow> height l \<ge> height r + 2"

fun right_excess :: "('k, 'v) btree_item \<Rightarrow> bool" where
  "right_excess Null = False"
| "right_excess (Item _ _ _ l r) \<longleftrightarrow> height r \<ge> height l + 2"

lemma rotate_left_shrinks:
  "left_excess i \<Longrightarrow> size (bt_left (btree_rotate_left i)) < size (bt_left i)"
  by (induction i rule: btree_rotate_left.induct) auto

lemma rotate_right_shrinks:
  "right_excess i \<Longrightarrow> size (bt_right (btree_rotate_right i)) < size (bt_right i)"
  by (induction i rule: btree_rotate_right.induct) auto

function equilibrate_left_loop :: "('k, 'v) btree_item \<Rightarrow> ('k, 'v) btree_item" where
  "equilibrate_left_loop i =
     (if left_excess i then equilibrate_left_loop (btree_rotate_left i) else i)"
  by pat_completeness auto
termination
  by (relation "measure (\<lambda>i. size (bt_left i))") (auto simp: rotate_left_shrinks)

function equilibrate_right_loop :: "('k, 'v) btree_item \<Rightarrow> ('k, 'v) btree_item" where
  "equilibrate_right_loop i =
     (if right_excess i then equilibrate_right_loop (btree_rotate_right i) else i)"
  by pat_completeness auto
termination
  by (relation "measure (\<lambda>i. size (bt_right i))") (auto simp: rotate_right_shrinks)

declare equilibrate_left_loop.simps [simp del] equilibrate_right_loop.simps [simp del]

definition btree_equilibrate :: "('k, 'v) btree_item \<Rightarrow> ('k, 'v) btree_item" where
  "btree_equilibrate i = equilibrate_right_loop (equilibrate_left_loop i)"

fun btree_insert ::
  "('k \<Rightarrow> 'k \<Rightarrow> int) \<Rightarrow> ('k, 'v) btree_item \<Rightarrow> ('k, 'v) btree_item \<Rightarrow> ('k, 'v) btree_item" where
  "btree_insert cf Null i = i"
| "btree_insert cf (Item k v h l r) i =
     (if cf (bt_key i) k \<le> 0
      then btree_equilibrate (btree_recalc_height (Item k v h (btree_insert cf l i) r))
      else btree_equilibrate (btree_recalc_height (Item k v h l (btree_insert cf r i))))"

definition btree_add ::
  "heap \<Rightarrow> ('k, 'v) btree \<Rightarrow> 'k \<Rightarrow> 'v \<Rightarrow> bool \<times> ('k, 'v) btree \<times> heap" where
  "btree_add h t key v =
     (case heap_malloc h of (ok, h') \<Rightarrow>
        if \<not> ok then (False, t, h')
        else (let x = btree_recalc_height (Item key v 0 Null Null)
              in (True,
                  t\<lparr>bt_root := btree_insert (bt_cf t) (bt_root t) x, bt_nitems := bt_nitems t + 1\<rparr>,
                  h')))"

fun btree_extract_smallest ::
  "('k, 'v) btree_item \<Rightarrow> (('k \<times> 'v \<times> nat) \<times> ('k, 'v) btree_item) res" where
  "btree_extract_smallest Null = Inl Assert_failed"
| "btree_extract_smallest (Item k v h Null r) = Inr ((k, v, h), r)"
| "btree_extract_smallest (Item k v h (Item k1 v1 h1 l1 r1) r) =
     (case btree_extract_smallest (Item k1 v1 h1 l1 r1) of
        Inl e \<Rightarrow> Inl e
      | Inr (s, l') \<Rightarrow> Inr (s, btree_equilibrate (btree_recalc_height (Item k v h l' r))))"

text \<open>What replaces an item that is taken out, given its two children.\<close>

definition btree_join ::
  "('k, 'v) btree_item \<Rightarrow> ('k, 'v) btree_item \<Rightarrow> ('k, 'v) btree_item res" where
  "btree_join l r =
     (if r = Null \<or> l = Null then Inr (if r = Null then l else r)
      else (case btree_extract_smallest r of
              Inl e \<Rightarrow> Inl e
            | Inr ((k, v, h), r') \<Rightarrow>
                Inr (btree_equilibrate (btree_recalc_height (Item k v h l r')))))"

section \<open>Balancing moves items without reordering them\<close>

fun inorder :: "('k, 'v) btree_item \<Rightarrow> ('k \<times> 'v) list" where
  "inorder Null = []"
| "inorder (Item k v _ l r) = inorder l @ (k, v) # inorder r"

lemma inorder_recalc [simp]: "inorder (btree_recalc_height i) = inorder i"
  by (cases i) auto

lemma inorder_rotate_left [simp]: "inorder (btree_rotate_left i) = inorder i"
  by (induction i rule: btree_rotate_left.induct) auto

lemma inorder_rotate_right [simp]: "inorder (btree_rotate_right i) = inorder i"
  by (induction i rule: btree_rotate_right.induct) auto

lemma inorder_left_loop [simp]: "inorder (equilibrate_left_loop i) = inorder i"
  by (induction i rule: equilibrate_left_loop.induct) (subst equilibrate_left_loop.simps, simp)

lemma inorder_right_loop [simp]: "inorder (equilibrate_right_loop i) = inorder i"
  by (induction i rule: equilibrate_right_loop.induct) (subst equilibrate_right_loop.simps, simp)

lemma inorder_equilibrate [simp]: "inorder (btree_equilibrate i) = inorder i"
  by (simp add: btree_equilibrate_def)

lemma inorder_Nil_iff [simp]: "inorder i = [] \<longleftrightarrow> i = Null"
  by (cases i) auto

lemma length_inorder: "length (inorder i) = size i"
  by (induction i) auto

lemma extract_smallest_inorder:
  "i \<noteq> Null \<Longrightarrow>
     \<exists>k v h r. btree_extract_smallest i = Inr ((k, v, h), r) \<and> inorder i = (k, v) # inorder r"
  by (induction i rule: btree_extract_smallest.induct) (auto split: sum.splits)

lemma join_inorder: "\<exists>j. btree_join l r = Inr j \<and> inorder j = inorder l @ inorder r"
proof (cases "r = Null \<or> l = Null")
  case False
  then obtain k v h r' where "btree_extract_smallest r = Inr ((k, v, h), r')"
    "inorder r = (k, v) # inorder r'" using extract_smallest_inorder [of r] by blast
  with False show ?thesis by (simp add: btree_join_def)
qed (auto simp: btree_join_def)

lemma join_size: "btree_join l r = Inr j \<Longrightarrow> size j = size l + size r"
  using join_inorder [of l r] length_inorder [of j] length_inorder [of l] length_inorder [of r] by auto

section \<open>Removal\<close>

text \<open>The result is the new subtree and the items released, in order; the caller counts them.\<close>

function btree_remove_aux ::
  "('k \<Rightarrow> 'k \<Rightarrow> int) \<Rightarrow> ('k, 'v) btree_item \<Rightarrow> 'k \<Rightarrow> (('k, 'v) btree_item \<times> ('k \<times> 'v) list) res" where
  "btree_remove_aux cf Null key = Inr (Null, [])"
| "btree_remove_aux cf (Item k v h l r) key =
     (let c = cf key k in
      if c < 0 then
        (case btree_remove_aux cf l key of
           Inl e \<Rightarrow> Inl e
         | Inr (l', log) \<Rightarrow> Inr (btree_equilibrate (Item k v h l' r), log))
      else if c > 0 then
        (case btree_remove_aux cf r key of
           Inl e \<Rightarrow> Inl e
         | Inr (r', log) \<Rightarrow> Inr (btree_equilibrate (Item k v h l r'), log))
      else
        (case btree_join l r of
           Inl e \<Rightarrow> Inl e
         | Inr new_i \<Rightarrow>
             (case btree_remove_aux cf new_i key of
                Inl e \<Rightarrow> Inl e
              | Inr (i', log) \<Rightarrow> Inr (i', (k, v) # log))))"
  by pat_completeness auto
termination
  by (relation "measure (\<lambda>(cf, i, key). size i)") (auto dest: join_size)

definition btree_remove ::
  "heap \<Rightarrow> ('k, 'v) btree \<Rightarrow> 'k \<Rightarrow> (('k \<times> 'v) list \<times> ('k, 'v) btree \<times> heap) res" where
  "btree_remove h t key =
     (case btree_remove_aux (bt_cf t) (bt_root t) key of
        Inl e \<Rightarrow> Inl e
      | Inr (i, log) \<Rightarrow>
          Inr (if bt_releasef t then log else [],
               t\<lparr>bt_root := i, bt_nitems := bt_nitems t - int (length log)\<rparr>,
               heap_frees (length log) h))"

function btree_remove_aux_v ::
  "('k \<Rightarrow> 'k \<Rightarrow> int) \<Rightarrow> ('k, 'v) btree_item \<Rightarrow> 'k \<Rightarrow> 'v
    \<Rightarrow> (('k, 'v) btree_item \<times> ('k \<times> 'v) list) res" where
  "btree_remove_aux_v cf Null key val = Inr (Null, [])"
| "btree_remove_aux_v cf (Item k v h l r) key val =
     (let c = cf key k in
      if c < 0 then
        (case btree_remove_aux_v cf l key val of
           Inl e \<Rightarrow> Inl e
         | Inr (l', log) \<Rightarrow> Inr (btree_equilibrate (Item k v h l' r), log))
      else if c > 0 then
        (case btree_remove_aux_v cf r key val of
           Inl e \<Rightarrow> Inl e
         | Inr (r', log) \<Rightarrow> Inr (btree_equilibrate (Item k v h l r'), log))
      else if v = val then
        (case btree_join l r of
           Inl e \<Rightarrow> Inl e
         | Inr new_i \<Rightarrow>
             (case btree_remove_aux_v cf new_i key val of
                Inl e \<Rightarrow> Inl e
              | Inr (i', log) \<Rightarrow> Inr (i', (k, v) # log)))
      else
        (case btree_remove_aux_v cf l key val of
           Inl e \<Rightarrow> Inl e
         | Inr (l', log1) \<Rightarrow>
             (case btree_remove_aux_v cf r key val of
                Inl e \<Rightarrow> Inl e
              | Inr (r', log2) \<Rightarrow>
                  Inr (btree_equilibrate (btree_recalc_height (Item k v h l' r')), log1 @ log2))))"
  by pat_completeness auto
termination
  by (relation "measure (\<lambda>(cf, i, key, val). size i)") (auto dest: join_size)

definition btree_remove_v ::
  "heap \<Rightarrow> ('k, 'v) btree \<Rightarrow> 'k \<Rightarrow> 'v \<Rightarrow> (('k \<times> 'v) list \<times> ('k, 'v) btree \<times> heap) res" where
  "btree_remove_v h t key val =
     (case btree_remove_aux_v (bt_cf t) (bt_root t) key val of
        Inl e \<Rightarrow> Inl e
      | Inr (i, log) \<Rightarrow>
          Inr (if bt_releasef t then log else [],
               t\<lparr>bt_root := i, bt_nitems := bt_nitems t - int (length log)\<rparr>,
               heap_frees (length log) h))"

section \<open>Lookup and traversal\<close>

fun btree_find_aux :: "('k \<Rightarrow> 'k \<Rightarrow> int) \<Rightarrow> ('k, 'v) btree_item \<Rightarrow> 'k \<Rightarrow> ('k \<times> 'v) option" where
  "btree_find_aux cf Null key = None"
| "btree_find_aux cf (Item k v h l r) key =
     (let c = cf key k in
      if c = 0 then Some (k, v) else if c < 0 then btree_find_aux cf l key else btree_find_aux cf r key)"

definition btree_find :: "('k, 'v) btree \<Rightarrow> 'k \<Rightarrow> 'v option" where
  "btree_find t key =
     (case btree_find_aux (bt_cf t) (bt_root t) key of None \<Rightarrow> None | Some i \<Rightarrow> Some (snd i))"

fun btree_lower_aux :: "('k \<Rightarrow> 'k \<Rightarrow> int) \<Rightarrow> ('k, 'v) btree_item \<Rightarrow> 'k \<Rightarrow> ('k \<times> 'v) option" where
  "btree_lower_aux cf Null key = None"
| "btree_lower_aux cf (Item k v h l r) key =
     (let c = cf key k in
      if c = 0 then Some (k, v)
      else if c < 0 then btree_lower_aux cf l key
      else (case btree_lower_aux cf r key of None \<Rightarrow> Some (k, v) | Some i \<Rightarrow> Some i))"

definition btree_lower :: "('k, 'v) btree \<Rightarrow> 'k \<Rightarrow> ('k \<times> 'v) option" where
  "btree_lower t key = btree_lower_aux (bt_cf t) (bt_root t) key"

fun btree_upper_aux :: "('k \<Rightarrow> 'k \<Rightarrow> int) \<Rightarrow> ('k, 'v) btree_item \<Rightarrow> 'k \<Rightarrow> ('k \<times> 'v) option" where
  "btree_upper_aux cf Null key = None"
| "btree_upper_aux cf (Item k v h l r) key =
     (let c = cf key k in
      if c = 0 then Some (k, v)
      else if c < 0 then
        (case btree_upper_aux cf l key of None \<Rightarrow> Some (k, v) | Some i \<Rightarrow> Some i)
      else btree_upper_aux cf r key)"

definition btree_upper :: "('k, 'v) btree \<Rightarrow> 'k \<Rightarrow> ('k \<times> 'v) option" where
  "btree_upper t key = btree_upper_aux (bt_cf t) (bt_root t) key"

fun btree_iter_aux :: "('k, 'v) btree_item \<Rightarrow> ('k \<times> 'v) list" where
  "btree_iter_aux Null = []"
| "btree_iter_aux (Item k v h l r) = btree_iter_aux l @ [(k, v)] @ btree_iter_aux r"

definition btree_iter :: "('k, 'v) btree \<Rightarrow> ('k \<times> 'v) list" where
  "btree_iter t = btree_iter_aux (bt_root t)"

fun btree_iter_on_aux ::
  "('k \<Rightarrow> 'k \<Rightarrow> int) \<Rightarrow> ('k, 'v) btree_item \<Rightarrow> 'k \<Rightarrow> ('k \<times> 'v) list" where
  "btree_iter_on_aux cf Null key = []"
| "btree_iter_on_aux cf (Item k v h l r) key =
     (let c = cf key k in
      if c = 0 then btree_iter_on_aux cf l key @ [(k, v)] @ btree_iter_on_aux cf r key
      else if c < 0 then btree_iter_on_aux cf l key
      else btree_iter_on_aux cf r key)"

definition btree_iter_on :: "('k, 'v) btree \<Rightarrow> 'k \<Rightarrow> ('k \<times> 'v) list" where
  "btree_iter_on t key = btree_iter_on_aux (bt_cf t) (bt_root t) key"

section \<open>Sorted trees\<close>

definition bt_sorted :: "('k \<Rightarrow> 'k \<Rightarrow> int) \<Rightarrow> ('k \<times> 'v) list \<Rightarrow> bool" where
  "bt_sorted cf xs \<longleftrightarrow> sorted_wrt (\<lambda>x y. cf (fst x) (fst y) \<le> 0) xs"

lemma bt_sorted_simps [simp]:
  "bt_sorted cf []"
  "bt_sorted cf (x # xs) \<longleftrightarrow> (\<forall>y \<in> set xs. cf (fst x) (fst y) \<le> 0) \<and> bt_sorted cf xs"
  "bt_sorted cf (xs @ ys) \<longleftrightarrow> bt_sorted cf xs \<and> bt_sorted cf ys
     \<and> (\<forall>x \<in> set xs. \<forall>y \<in> set ys. cf (fst x) (fst y) \<le> 0)"
  by (auto simp: bt_sorted_def sorted_wrt_append)

lemma bt_sorted_filter: "bt_sorted cf xs \<Longrightarrow> bt_sorted cf (filter P xs)"
  by (simp add: bt_sorted_def sorted_wrt_filter)

lemma iter_inorder: "btree_iter_aux i = inorder i"
  by (induction i) auto

lemma mset_delete_rec: "mset (btree_delete_item_rec i) = mset (inorder i)"
  by (induction i) auto

lemma filter_all: "\<forall>x \<in> set xs. P x \<Longrightarrow> filter P xs = xs"
  by (simp add: filter_id_conv)

lemma filter_none: "\<forall>x \<in> set xs. \<not> P x \<Longrightarrow> filter P xs = []"
  by (simp add: filter_empty_conv)

context ordered_keys
begin

text \<open>What a comparison with the root says of the two subtrees.\<close>

lemma left_of_root:
  "bt_sorted cf (inorder (Item k v h l r)) \<Longrightarrow> x \<in> set (inorder l) \<Longrightarrow> 0 < cf key k \<Longrightarrow> 0 < cf key (fst x)"
  using cf_trans [of key "fst x" k] by fastforce

lemma right_of_root:
  "bt_sorted cf (inorder (Item k v h l r)) \<Longrightarrow> x \<in> set (inorder r) \<Longrightarrow> cf key k < 0 \<Longrightarrow> cf key (fst x) < 0"
  using cf_less_le_trans [of key k "fst x"] by fastforce

lemma right_of_root_le:
  "bt_sorted cf (inorder (Item k v h l r)) \<Longrightarrow> x \<in> set (inorder r) \<Longrightarrow> cf key k \<le> 0 \<Longrightarrow> cf key (fst x) \<le> 0"
  using cf_trans [of key k "fst x"] by fastforce

lemma left_of_root_le:
  "bt_sorted cf (inorder (Item k v h l r)) \<Longrightarrow> x \<in> set (inorder l) \<Longrightarrow> 0 \<le> cf key k \<Longrightarrow> 0 \<le> cf key (fst x)"
  using cf_trans [of "fst x" k key] cf_antisym [of k key] cf_antisym [of "fst x" key] by fastforce

lemma sorted_subtrees:
  "bt_sorted cf (inorder (Item k v h l r)) \<Longrightarrow> bt_sorted cf (inorder l) \<and> bt_sorted cf (inorder r)"
  by simp

lemma inorder_insert:
  "bt_sorted cf (inorder i) \<Longrightarrow>
     inorder (btree_insert cf i (Item k v h Null Null)) =
       filter (\<lambda>x. 0 < cf k (fst x)) (inorder i) @ (k, v)
         # filter (\<lambda>x. cf k (fst x) \<le> 0) (inorder i)"
proof (induction i)
  case (Item k1 v1 h1 l r)
  note sub = sorted_subtrees [OF Item.prems]
  show ?case
  proof (cases "cf k k1 \<le> 0")
    case True
    have "\<forall>x \<in> set (inorder r). cf k (fst x) \<le> 0"
      using right_of_root_le [OF Item.prems] True by blast
    then have "filter (\<lambda>x. 0 < cf k (fst x)) (inorder r) = []"
      "filter (\<lambda>x. cf k (fst x) \<le> 0) (inorder r) = inorder r"
      by (simp_all add: filter_empty_conv filter_id_conv not_less)
    with True Item.IH(1) sub show ?thesis by simp
  next
    case False
    then have "\<forall>x \<in> set (inorder l). 0 < cf k (fst x)"
      using left_of_root [OF Item.prems] by auto
    then have "filter (\<lambda>x. 0 < cf k (fst x)) (inorder l) = inorder l"
      "filter (\<lambda>x. cf k (fst x) \<le> 0) (inorder l) = []"
      by (simp_all add: filter_empty_conv filter_id_conv not_le)
    with False Item.IH(2) sub show ?thesis by simp
  qed
qed simp

lemma sorted_insert:
  assumes "bt_sorted cf (inorder i)"
  shows "bt_sorted cf (inorder (btree_insert cf i (Item k v h Null Null)))"
proof -
  have "cf a k \<le> 0" if "0 < cf k a" for a
    using that cf_neg_pos [of a k] by simp
  moreover have "cf a b \<le> 0" if "0 < cf k a" "cf k b \<le> 0" for a b
    using that cf_trans [of a k b] cf_neg_pos [of a k] by simp
  ultimately show ?thesis
    using assms by (simp add: inorder_insert bt_sorted_filter)
qed

text \<open>Removal takes out the items that match and nothing else, and its assertion never fails.\<close>

lemma remove_aux_spec:
  "bt_sorted cf (inorder i) \<Longrightarrow>
     \<exists>i' log. btree_remove_aux cf i key = Inr (i', log)
       \<and> inorder i' = filter (\<lambda>x. cf key (fst x) \<noteq> 0) (inorder i)
       \<and> mset log = mset (filter (\<lambda>x. cf key (fst x) = 0) (inorder i))"
proof (induction "size i" arbitrary: i rule: less_induct)
  case less
  show ?case
  proof (cases i)
    case (Item k v h l r)
    note srt = less.prems [unfolded Item]
    note sub = sorted_subtrees [OF srt]
    consider "cf key k < 0" | "cf key k > 0" | "cf key k = 0" by linarith
    then show ?thesis
    proof cases
      case 1
      have r: "\<forall>x \<in> set (inorder r). cf key (fst x) \<noteq> 0"
        using right_of_root [OF srt] 1 by fastforce
      obtain l' log where "btree_remove_aux cf l key = Inr (l', log)"
        "inorder l' = filter (\<lambda>x. cf key (fst x) \<noteq> 0) (inorder l)"
        "mset log = mset (filter (\<lambda>x. cf key (fst x) = 0) (inorder l))"
        using less.hyps [of l] sub Item by auto
      with 1 r show ?thesis by (simp add: Item filter_all filter_none)
    next
      case 2
      have l: "\<forall>x \<in> set (inorder l). cf key (fst x) \<noteq> 0"
        using left_of_root [OF srt] 2 by fastforce
      obtain r' log where "btree_remove_aux cf r key = Inr (r', log)"
        "inorder r' = filter (\<lambda>x. cf key (fst x) \<noteq> 0) (inorder r)"
        "mset log = mset (filter (\<lambda>x. cf key (fst x) = 0) (inorder r))"
        using less.hyps [of r] sub Item by auto
      with 2 l show ?thesis by (simp add: Item filter_all filter_none)
    next
      case 3
      obtain j where j: "btree_join l r = Inr j" "inorder j = inorder l @ inorder r"
        using join_inorder by blast
      have "size j < size i" using join_size [OF j(1)] Item by simp
      moreover have "bt_sorted cf (inorder j)" using srt j(2) by auto
      ultimately obtain i' log where "btree_remove_aux cf j key = Inr (i', log)"
        "inorder i' = filter (\<lambda>x. cf key (fst x) \<noteq> 0) (inorder j)"
        "mset log = mset (filter (\<lambda>x. cf key (fst x) = 0) (inorder j))"
        using less.hyps by blast
      with 3 j show ?thesis by (simp add: Item)
    qed
  qed simp
qed

lemma remove_aux_v_spec:
  "bt_sorted cf (inorder i) \<Longrightarrow>
     \<exists>i' log. btree_remove_aux_v cf i key val = Inr (i', log)
       \<and> inorder i' = filter (\<lambda>x. \<not> (cf key (fst x) = 0 \<and> snd x = val)) (inorder i)
       \<and> mset log = mset (filter (\<lambda>x. cf key (fst x) = 0 \<and> snd x = val) (inorder i))"
proof (induction "size i" arbitrary: i rule: less_induct)
  case less
  show ?case
  proof (cases i)
    case (Item k v h l r)
    note srt = less.prems [unfolded Item]
    note sub = sorted_subtrees [OF srt]
    obtain l' logl where l': "btree_remove_aux_v cf l key val = Inr (l', logl)"
      "inorder l' = filter (\<lambda>x. \<not> (cf key (fst x) = 0 \<and> snd x = val)) (inorder l)"
      "mset logl = mset (filter (\<lambda>x. cf key (fst x) = 0 \<and> snd x = val) (inorder l))"
      using less.hyps [of l] sub Item by auto
    obtain r' logr where r': "btree_remove_aux_v cf r key val = Inr (r', logr)"
      "inorder r' = filter (\<lambda>x. \<not> (cf key (fst x) = 0 \<and> snd x = val)) (inorder r)"
      "mset logr = mset (filter (\<lambda>x. cf key (fst x) = 0 \<and> snd x = val) (inorder r))"
      using less.hyps [of r] sub Item by auto
    consider "cf key k < 0" | "cf key k > 0" | "cf key k = 0" "v = val" | "cf key k = 0" "v \<noteq> val"
      by linarith
    then show ?thesis
    proof cases
      case 1
      have r: "\<forall>x \<in> set (inorder r). cf key (fst x) \<noteq> 0"
        using right_of_root [OF srt] 1 by fastforce
      with 1 l' show ?thesis by (simp add: Item filter_all filter_none)
    next
      case 2
      have l: "\<forall>x \<in> set (inorder l). cf key (fst x) \<noteq> 0"
        using left_of_root [OF srt] 2 by fastforce
      with 2 r' show ?thesis by (simp add: Item filter_all filter_none)
    next
      case 3
      obtain j where j: "btree_join l r = Inr j" "inorder j = inorder l @ inorder r"
        using join_inorder by blast
      have "size j < size i" using join_size [OF j(1)] Item by simp
      moreover have "bt_sorted cf (inorder j)" using srt j(2) by auto
      ultimately obtain i' log where "btree_remove_aux_v cf j key val = Inr (i', log)"
        "inorder i' = filter (\<lambda>x. \<not> (cf key (fst x) = 0 \<and> snd x = val)) (inorder j)"
        "mset log = mset (filter (\<lambda>x. cf key (fst x) = 0 \<and> snd x = val) (inorder j))"
        using less.hyps by blast
      with 3 j show ?thesis by (simp add: Item)
    next
      case 4
      with l' r' show ?thesis by (simp add: Item)
    qed
  qed simp
qed

lemma find_aux_Some:
  "btree_find_aux cf i key = Some x \<Longrightarrow> x \<in> set (inorder i) \<and> cf key (fst x) = 0"
  by (induction i) (auto simp: Let_def split: if_splits)

lemma find_aux_None:
  "bt_sorted cf (inorder i) \<Longrightarrow> btree_find_aux cf i key = None \<Longrightarrow> x \<in> set (inorder i)
     \<Longrightarrow> cf key (fst x) \<noteq> 0"
proof (induction i)
  case (Item k v h l r)
  note sub = sorted_subtrees [OF Item.prems(1)]
  consider "cf key k < 0" | "cf key k > 0"
    using Item.prems(2) by (auto simp: Let_def neq_iff split: if_splits)
  then show ?case
  proof cases
    case 1
    with Item sub right_of_root [OF Item.prems(1), of x key] show ?thesis by (auto simp: Let_def)
  next
    case 2
    with Item sub left_of_root [OF Item.prems(1), of x key] show ?thesis by (auto simp: Let_def)
  qed
qed simp

text \<open>The answer of \<open>btree_lower\<close> is a greatest item at most the key, that of
  \<open>btree_upper\<close> a least item at least the key.\<close>

lemma lower_aux_spec:
  "bt_sorted cf (inorder i) \<Longrightarrow>
     (case btree_lower_aux cf i key of
        None \<Rightarrow> \<forall>x \<in> set (inorder i). cf key (fst x) < 0
      | Some y \<Rightarrow> y \<in> set (inorder i) \<and> 0 \<le> cf key (fst y)
          \<and> (\<forall>x \<in> set (inorder i). 0 \<le> cf key (fst x) \<longrightarrow> cf (fst x) (fst y) \<le> 0))"
proof (induction i)
  case (Item k v h l r)
  note sub = sorted_subtrees [OF Item.prems]
  have lt: "\<forall>x \<in> set (inorder l). cf (fst x) k \<le> 0" and rt: "\<forall>x \<in> set (inorder r). cf k (fst x) \<le> 0"
    using Item.prems by simp_all
  consider "cf key k = 0" | "cf key k < 0" | "cf key k > 0" by linarith
  then show ?case
  proof cases
    case 1
    have "cf a k \<le> 0" if "0 \<le> cf key a" for a
      using that 1 cf_trans [of a key k] cf_antisym [of a key] by simp
    with 1 show ?thesis by (simp add: Let_def)
  next
    case 2
    with right_of_root [OF Item.prems] have "\<forall>x \<in> set (inorder r). cf key (fst x) < 0" by blast
    with 2 Item.IH(1) sub show ?thesis by (fastforce simp: Let_def split: option.splits)
  next
    case 3
    show ?thesis
    proof (cases "btree_lower_aux cf r key")
      case None
      with Item.IH(2) sub have "\<forall>x \<in> set (inorder r). cf key (fst x) < 0" by simp
      with 3 None lt show ?thesis by (fastforce simp: Let_def cf_refl)
    next
      case (Some y)
      with Item.IH(2) sub have y: "y \<in> set (inorder r)" "0 \<le> cf key (fst y)"
        "\<forall>x \<in> set (inorder r). 0 \<le> cf key (fst x) \<longrightarrow> cf (fst x) (fst y) \<le> 0" by simp_all
      have "cf (fst x) (fst y) \<le> 0" if "x \<in> set (inorder l)" for x
        using Item.prems that y(1) cf_trans [of "fst x" k "fst y"] by simp
      with 3 Some y rt show ?thesis by (auto simp: Let_def)
    qed
  qed
qed simp

lemma upper_aux_spec:
  "bt_sorted cf (inorder i) \<Longrightarrow>
     (case btree_upper_aux cf i key of
        None \<Rightarrow> \<forall>x \<in> set (inorder i). 0 < cf key (fst x)
      | Some y \<Rightarrow> y \<in> set (inorder i) \<and> cf key (fst y) \<le> 0
          \<and> (\<forall>x \<in> set (inorder i). cf key (fst x) \<le> 0 \<longrightarrow> cf (fst y) (fst x) \<le> 0))"
proof (induction i)
  case (Item k v h l r)
  note sub = sorted_subtrees [OF Item.prems]
  have lt: "\<forall>x \<in> set (inorder l). cf (fst x) k \<le> 0" and rt: "\<forall>x \<in> set (inorder r). cf k (fst x) \<le> 0"
    using Item.prems by simp_all
  consider "cf key k = 0" | "cf key k > 0" | "cf key k < 0" by linarith
  then show ?case
  proof cases
    case 1
    have "cf k a \<le> 0" if "cf key a \<le> 0" for a
      using that 1 cf_trans [of k key a] cf_zero_sym [of key k] by simp
    with 1 show ?thesis by (simp add: Let_def)
  next
    case 2
    with left_of_root [OF Item.prems] have "\<forall>x \<in> set (inorder l). 0 < cf key (fst x)" by blast
    with 2 Item.IH(2) sub show ?thesis by (fastforce simp: Let_def split: option.splits)
  next
    case 3
    show ?thesis
    proof (cases "btree_upper_aux cf l key")
      case None
      with Item.IH(1) sub have "\<forall>x \<in> set (inorder l). 0 < cf key (fst x)" by simp
      with 3 None rt show ?thesis by (fastforce simp: Let_def cf_refl)
    next
      case (Some y)
      with Item.IH(1) sub have y: "y \<in> set (inorder l)" "cf key (fst y) \<le> 0"
        "\<forall>x \<in> set (inorder l). cf key (fst x) \<le> 0 \<longrightarrow> cf (fst y) (fst x) \<le> 0" by simp_all
      have "cf (fst y) (fst x) \<le> 0" if "x \<in> set (inorder r)" for x
        using Item.prems that y(1) cf_trans [of "fst y" k "fst x"] by simp
      with 3 Some y lt show ?thesis by (auto simp: Let_def)
    qed
  qed
qed simp

lemma iter_on_spec:
  "bt_sorted cf (inorder i) \<Longrightarrow>
     btree_iter_on_aux cf i key = filter (\<lambda>x. cf key (fst x) = 0) (inorder i)"
proof (induction i)
  case (Item k v h l r)
  note sub = sorted_subtrees [OF Item.prems]
  consider "cf key k = 0" | "cf key k < 0" | "cf key k > 0" by linarith
  then show ?case
  proof cases
    case 1
    with Item sub show ?thesis by (simp add: Let_def)
  next
    case 2
    then have "\<forall>x \<in> set (inorder r). cf key (fst x) \<noteq> 0"
      using right_of_root [OF Item.prems] by fastforce
    with 2 Item sub show ?thesis by (simp add: Let_def filter_none)
  next
    case 3
    then have "\<forall>x \<in> set (inorder l). cf key (fst x) \<noteq> 0"
      using left_of_root [OF Item.prems] by fastforce
    with 3 Item sub show ?thesis by (simp add: Let_def filter_none)
  qed
qed simp

end

section \<open>The invariant of a tree\<close>

definition bt_inv :: "('k, 'v) btree \<Rightarrow> bool" where
  "bt_inv t \<longleftrightarrow> ordered_keys (bt_cf t) \<and> bt_sorted (bt_cf t) (btree_iter t)
     \<and> btree_count t = int (length (btree_iter t))"

lemma bt_inv_sorted: "bt_inv t \<Longrightarrow> bt_sorted (bt_cf t) (inorder (bt_root t))"
  by (simp add: bt_inv_def btree_iter_def iter_inorder)

lemma bt_inv_keys: "bt_inv t \<Longrightarrow> ordered_keys (bt_cf t)"
  by (simp add: bt_inv_def)

lemma create_btree_inv:
  "ordered_keys cf \<Longrightarrow> create_btree h cf rel = (Some t, h') \<Longrightarrow>
     bt_inv t \<and> btree_iter t = [] \<and> bt_cf t = cf \<and> hp_live h' = hp_live h + 1"
  by (auto simp: create_btree_def bt_inv_def btree_iter_def btree_count_def dest!: heap_malloc_live
      split: prod.split_asm if_split_asm)

lemma length_filter_split:
  "length (filter P xs) + length (filter (\<lambda>x. \<not> P x) xs) = length xs"
  by (induction xs) auto

lemma btree_removed:
  assumes inv: "bt_inv t"
    and spec: "inorder i' = filter (\<lambda>x. \<not> P x) (inorder (bt_root t))"
      "mset log = mset (filter P (inorder (bt_root t)))"
    and new: "t' = t\<lparr>bt_root := i', bt_nitems := bt_nitems t - int (length log)\<rparr>"
  shows "bt_inv t'" and "btree_iter t' = filter (\<lambda>x. \<not> P x) (btree_iter t)"
    and "length log = length (filter P (btree_iter t))"
proof -
  show it: "btree_iter t' = filter (\<lambda>x. \<not> P x) (btree_iter t)"
    by (simp add: new btree_iter_def iter_inorder spec(1))
  show len: "length log = length (filter P (btree_iter t))"
    using length_eq_of_mset_eq [OF spec(2)] by (simp add: btree_iter_def iter_inorder)
  show "bt_inv t'"
    using inv it len length_filter_split [of P "btree_iter t"]
    by (auto simp: bt_inv_def btree_count_def new bt_sorted_filter)
qed

section \<open>Properties\<close>

lemma btree_add_facts:
  assumes "bt_inv t" and "btree_add h t k v = (ok, t', h')"
  shows "bt_inv t' \<and> hp_live h' - hp_live h = (if ok then 1 else 0)
    \<and> btree_iter t' =
        (if ok then filter (\<lambda>x. 0 < bt_cf t k (fst x)) (btree_iter t) @ (k, v)
             # filter (\<lambda>x. bt_cf t k (fst x) \<le> 0) (btree_iter t)
         else btree_iter t)"
proof -
  obtain ok1 h1 where m: "heap_malloc h = (ok1, h1)" by fastforce
  have ok: "ok = ok1" "h' = h1"
    using assms(2) m by (auto simp: btree_add_def Let_def split: if_split_asm)
  show ?thesis
  proof (cases ok)
    case True
    let ?x = "Item k v 1 Null Null"
    have t': "t' = t\<lparr>bt_root := btree_insert (bt_cf t) (bt_root t) ?x, bt_nitems := bt_nitems t + 1\<rparr>"
      using assms(2) m ok True by (simp add: btree_add_def Let_def)
    note io = ordered_keys.inorder_insert [OF bt_inv_keys [OF assms(1)] bt_inv_sorted [OF assms(1)], of k v 1]
    note so = ordered_keys.sorted_insert [OF bt_inv_keys [OF assms(1)] bt_inv_sorted [OF assms(1)], of k v 1]
    have len: "length (btree_iter t') = length (btree_iter t) + 1"
      using length_filter_split [of "\<lambda>x. 0 < bt_cf t k (fst x)" "inorder (bt_root t)"] io
      by (simp add: t' btree_iter_def iter_inorder not_less)
    have "bt_inv t'"
      using assms(1) so len by (simp add: bt_inv_def btree_count_def btree_iter_def iter_inorder t')
    moreover have "btree_iter t' = filter (\<lambda>x. 0 < bt_cf t k (fst x)) (btree_iter t) @ (k, v)
        # filter (\<lambda>x. bt_cf t k (fst x) \<le> 0) (btree_iter t)"
      using io by (simp add: t' btree_iter_def iter_inorder)
    ultimately show ?thesis using True ok heap_malloc_live [OF m] by simp
  next
    case False
    with assms m ok heap_malloc_live [OF m] show ?thesis by (auto simp: btree_add_def)
  qed
qed

definition wit_bt :: "(u32, nat) btree" where
  "wit_bt = \<lparr>bt_cf = id_key_cmp_fun, bt_releasef = True,
     bt_root = Item 5 50 2 (Item 3 30 1 Null Null) (Item 5 51 1 Null Null), bt_nitems = 3\<rparr>"

lemma wit_bt_inv: "bt_inv wit_bt"
  by (simp add: wit_bt_def bt_inv_def btree_iter_def btree_count_def id_key_cmp_fun_def
      id_order.ordered_keys_axioms)

text \<open>C8: inserting a binding keeps the items of the tree sorted and counted, and puts the new
  item right before the first item whose key is not smaller (before all items of an equal key); when
  the item cannot be allocated the tree is unchanged. Rotations never lose, duplicate or reorder an
  item.\<close>

theorem btree_add_spec:
  assumes "bt_inv t" and "btree_add h t k v = (ok, t', h')"
  shows "bt_inv t' \<and> hp_live h' - hp_live h = (if ok then 1 else 0)
    \<and> btree_iter t' =
        (if ok then filter (\<lambda>x. 0 < bt_cf t k (fst x)) (btree_iter t) @ (k, v)
             # filter (\<lambda>x. bt_cf t k (fst x) \<le> 0) (btree_iter t)
         else btree_iter t)"
  by (rule btree_add_facts [OF assms])

theorem btree_add_spec_witness:
  "btree_iter (fst (snd (btree_add \<lparr>hp_answers = [], hp_live = 4\<rparr> wit_bt 5 52)))
     = [(3, 30), (5, 52), (5, 50), (5, 51)]"
proof -
  let ?r = "btree_add \<lparr>hp_answers = [], hp_live = 4\<rparr> wit_bt 5 52"
  have r: "?r = (fst ?r, fst (snd ?r), snd (snd ?r))" by simp
  have ok: "fst ?r" by (simp add: btree_add_def heap_malloc_def next_answer_def Let_def)
  show ?thesis
    using btree_add_spec [OF wit_bt_inv r] ok
    by (simp add: wit_bt_def btree_iter_def id_key_cmp_fun_def)
qed

text \<open>C6: removing a key never runs into the assertion of \<open>_btree_extract_smallest\<close>; it
  removes every item with that key and no other, keeps the order and the count, releases each removed
  item exactly once and frees its block.\<close>

theorem btree_remove_spec:
  assumes "bt_inv t"
  shows "\<exists>log t' h'. btree_remove h t k = Inr (log, t', h') \<and> bt_inv t'
    \<and> btree_iter t' = filter (\<lambda>x. bt_cf t k (fst x) \<noteq> 0) (btree_iter t)
    \<and> mset log = (if bt_releasef t then mset (filter (\<lambda>x. bt_cf t k (fst x) = 0) (btree_iter t)) else {#})
    \<and> hp_live h - hp_live h' = int (length (filter (\<lambda>x. bt_cf t k (fst x) = 0) (btree_iter t)))"
proof -
  obtain i' log where r: "btree_remove_aux (bt_cf t) (bt_root t) k = Inr (i', log)"
    "inorder i' = filter (\<lambda>x. bt_cf t k (fst x) \<noteq> 0) (inorder (bt_root t))"
    "mset log = mset (filter (\<lambda>x. bt_cf t k (fst x) = 0) (inorder (bt_root t)))"
    using ordered_keys.remove_aux_spec [OF bt_inv_keys [OF assms] bt_inv_sorted [OF assms]] by blast
  note b = btree_removed [OF assms r(2,3) refl]
  show ?thesis
    using b r by (auto simp: btree_remove_def btree_iter_def iter_inorder)
qed

theorem btree_remove_spec_witness:
  "\<exists>log t' h'. btree_remove \<lparr>hp_answers = [], hp_live = 4\<rparr> wit_bt 5 = Inr (log, t', h')
     \<and> btree_iter t' = [(3, 30)]"
  using btree_remove_spec [OF wit_bt_inv, of "\<lparr>hp_answers = [], hp_live = 4\<rparr>" 5]
  by (auto simp: wit_bt_def btree_iter_def id_key_cmp_fun_def)

lemma btree_remove_v_facts:
  assumes "bt_inv t"
  shows "\<exists>log t' h'. btree_remove_v h t k v = Inr (log, t', h') \<and> bt_inv t'
    \<and> btree_iter t' = filter (\<lambda>x. \<not> (bt_cf t k (fst x) = 0 \<and> snd x = v)) (btree_iter t)
    \<and> hp_live h - hp_live h' =
        int (length (filter (\<lambda>x. bt_cf t k (fst x) = 0 \<and> snd x = v) (btree_iter t)))"
proof -
  obtain i' log where r: "btree_remove_aux_v (bt_cf t) (bt_root t) k v = Inr (i', log)"
    "inorder i' = filter (\<lambda>x. \<not> (bt_cf t k (fst x) = 0 \<and> snd x = v)) (inorder (bt_root t))"
    "mset log = mset (filter (\<lambda>x. bt_cf t k (fst x) = 0 \<and> snd x = v) (inorder (bt_root t)))"
    using ordered_keys.remove_aux_v_spec [OF bt_inv_keys [OF assms] bt_inv_sorted [OF assms]] by blast
  note b = btree_removed [OF assms r(2,3) refl]
  show ?thesis
    using b r by (auto simp: btree_remove_v_def btree_iter_def iter_inorder)
qed

text \<open>Removing a pair of a key and a value takes out exactly the items that match both,
  including those that an item with the same key and another value separates from the root.\<close>

theorem btree_remove_v_spec:
  assumes "bt_inv t"
  shows "\<exists>log t' h'. btree_remove_v h t k v = Inr (log, t', h') \<and> bt_inv t'
    \<and> btree_iter t' = filter (\<lambda>x. \<not> (bt_cf t k (fst x) = 0 \<and> snd x = v)) (btree_iter t)
    \<and> hp_live h - hp_live h' =
        int (length (filter (\<lambda>x. bt_cf t k (fst x) = 0 \<and> snd x = v) (btree_iter t)))"
  by (rule btree_remove_v_facts [OF assms])

theorem btree_remove_v_spec_witness:
  "\<exists>log t' h'. btree_remove_v \<lparr>hp_answers = [], hp_live = 4\<rparr> wit_bt 5 51 = Inr (log, t', h')
     \<and> btree_iter t' = [(3, 30), (5, 50)]"
  using btree_remove_v_spec [OF wit_bt_inv, of "\<lparr>hp_answers = [], hp_live = 4\<rparr>" 5 51]
  by (auto simp: wit_bt_def btree_iter_def id_key_cmp_fun_def)

lemma btree_lower_upper_facts:
  assumes "bt_inv t"
  shows "(case btree_lower t k of
       None \<Rightarrow> \<forall>x \<in> set (btree_iter t). bt_cf t k (fst x) < 0
     | Some y \<Rightarrow> y \<in> set (btree_iter t) \<and> 0 \<le> bt_cf t k (fst y)
         \<and> (\<forall>x \<in> set (btree_iter t). 0 \<le> bt_cf t k (fst x) \<longrightarrow> bt_cf t (fst x) (fst y) \<le> 0))
   \<and> (case btree_upper t k of
       None \<Rightarrow> \<forall>x \<in> set (btree_iter t). 0 < bt_cf t k (fst x)
     | Some y \<Rightarrow> y \<in> set (btree_iter t) \<and> bt_cf t k (fst y) \<le> 0
         \<and> (\<forall>x \<in> set (btree_iter t). bt_cf t k (fst x) \<le> 0 \<longrightarrow> bt_cf t (fst y) (fst x) \<le> 0))"
  unfolding btree_lower_def btree_upper_def btree_iter_def iter_inorder
  using ordered_keys.lower_aux_spec [OF bt_inv_keys [OF assms] bt_inv_sorted [OF assms], of k]
    ordered_keys.upper_aux_spec [OF bt_inv_keys [OF assms] bt_inv_sorted [OF assms], of k]
  by (rule conjI)

text \<open>\<open>btree_lower\<close> answers an item with the greatest key at most the one asked for
  (the null pointer when every key is greater), \<open>btree_upper\<close> one with the least key at
  least it.\<close>

theorem btree_lower_upper_spec:
  assumes "bt_inv t"
  shows "(case btree_lower t k of
       None \<Rightarrow> \<forall>x \<in> set (btree_iter t). bt_cf t k (fst x) < 0
     | Some y \<Rightarrow> y \<in> set (btree_iter t) \<and> 0 \<le> bt_cf t k (fst y)
         \<and> (\<forall>x \<in> set (btree_iter t). 0 \<le> bt_cf t k (fst x) \<longrightarrow> bt_cf t (fst x) (fst y) \<le> 0))
   \<and> (case btree_upper t k of
       None \<Rightarrow> \<forall>x \<in> set (btree_iter t). 0 < bt_cf t k (fst x)
     | Some y \<Rightarrow> y \<in> set (btree_iter t) \<and> bt_cf t k (fst y) \<le> 0
         \<and> (\<forall>x \<in> set (btree_iter t). bt_cf t k (fst x) \<le> 0 \<longrightarrow> bt_cf t (fst y) (fst x) \<le> 0))"
  by (rule btree_lower_upper_facts [OF assms])

theorem btree_lower_upper_spec_witness:
  "0 \<le> id_key_cmp_fun 4 (fst (the (btree_lower wit_bt 4))) \<and> the (btree_lower wit_bt 4) = (3, 30)"
  using btree_lower_upper_spec [OF wit_bt_inv, of 4]
  by (simp add: wit_bt_def btree_lower_def id_key_cmp_fun_def Let_def)

definition bt_adds :: "u32 list \<Rightarrow> (u32, nat) btree" where
  "bt_adds ks =
     foldl (\<lambda>t k. fst (snd (btree_add \<lparr>hp_answers = [], hp_live = 0\<rparr> t k 0)))
       \<lparr>bt_cf = id_key_cmp_fun, bt_releasef = False, bt_root = Null, bt_nitems = 0\<rparr> ks"

text \<open>The tree is not an AVL tree, although the README calls it one: \<open>btree_equilibrate\<close>
  knows single rotations only, and inserting 3, 1 and 2 leaves a root whose left subtree has height two
  and whose right subtree is empty.\<close>

theorem btree_not_avl:
  "bt_root (bt_adds [3, 1, 2])
     = Item 3 0 3 (Item 1 0 2 Null (Item 2 0 1 Null Null)) Null"
  by (simp add: bt_adds_def btree_add_def heap_malloc_def next_answer_def Let_def
      id_key_cmp_fun_def btree_equilibrate_def equilibrate_left_loop.simps equilibrate_right_loop.simps)

end
