(* ===== verification/Slab.thy ===== *)
theory Slab
  imports Region_Alloc
begin

text \<open>
  The slab allocator of src/common/libkogata/slab_alloc.c, behind the kernel's and the user library's
  \<open>malloc\<close>. The page allocation and release functions it is given are parameters, with their own
  state; they may stop the machine, which is the outer sum. The linked lists of caches, of free objects, of
  regions and of free descriptors are lists; a descriptor (a 16-byte union of a cache and a region) is named by
  its address. Addresses are natural numbers: a C pointer stays inside the block it points into, so sums do not
  wrap.
\<close>

section \<open>The data\<close>

record slab_type =
  descr :: string
  obj_size :: nat
  pages_per_cache :: nat

record cache =
  c_desc :: nat
  c_region :: nat
  n_free_objs :: nat
  first_free_obj :: "nat list"

record region =
  r_desc :: nat
  r_region :: nat
  region_size :: nat
  contains_descriptors :: bool

text \<open>The allocator itself lies at the start of the page \<open>ma_self\<close>; \<open>types\<close> ends at
  the entry of object size zero, which is not an element of the list.\<close>

record mem_allocator =
  ma_self :: nat
  types :: "slab_type list"
  slabs :: "cache list list"
  first_free_descriptor :: "nat list"
  all_regions :: "region list"

definition SIZEOF_DESCRIPTOR :: nat where "SIZEOF_DESCRIPTOR = 16"
definition SIZEOF_ALLOCATOR :: nat where "SIZEOF_ALLOCATOR = 24"
definition SIZEOF_SLAB :: nat where "SIZEOF_SLAB = 4"
definition SIZEOF_OBJECT :: nat where "SIZEOF_OBJECT = 4"
definition SLAB_PAGE :: nat where "SLAB_PAGE = 4096"

type_synonym 'p page_alloc_fun = "nat \<Rightarrow> 'p \<Rightarrow> (nat \<times> 'p) res"
type_synonym 'p page_free_fun = "nat \<Rightarrow> 'p \<Rightarrow> 'p res"

definition cache_bytes :: "slab_type \<Rightarrow> nat" where
  "cache_bytes t = pages_per_cache t * SLAB_PAGE"

section \<open>Descriptors\<close>

definition add_free_descriptor :: "nat \<Rightarrow> mem_allocator \<Rightarrow> mem_allocator" where
  "add_free_descriptor c a = a\<lparr>first_free_descriptor := c # first_free_descriptor a\<rparr>"

text \<open>The loops that add every whole descriptor between two addresses.\<close>

function add_descriptors_upto :: "nat \<Rightarrow> nat \<Rightarrow> mem_allocator \<Rightarrow> mem_allocator" where
  "add_descriptors_upto i stop a =
     (if i + SIZEOF_DESCRIPTOR \<le> stop
      then add_descriptors_upto (i + SIZEOF_DESCRIPTOR) stop (add_free_descriptor i a) else a)"
  by pat_completeness auto
termination
  by (relation "measure (\<lambda>(i, stop, a). stop - i)") (auto simp: SIZEOF_DESCRIPTOR_def)

declare add_descriptors_upto.simps [simp del]

definition take_descriptor ::
  "'p page_alloc_fun \<Rightarrow> mem_allocator \<Rightarrow> 'p \<Rightarrow> (nat option \<times> mem_allocator \<times> 'p) res" where
  "take_descriptor af a ps =
     (let refilled =
        (if first_free_descriptor a = [] then
           (case af SLAB_PAGE ps of
              Inl e \<Rightarrow> Inl e
            | Inr (p, ps1) \<Rightarrow>
                if p = 0 then Inr (None, ps1)
                else
                  (let a1 = add_descriptors_upto p (p + SLAB_PAGE) a
                   in case first_free_descriptor a1 of
                        [] \<Rightarrow> Inl Assert_failed
                      | dd # ds \<Rightarrow>
                          Inr (Some (a1\<lparr>first_free_descriptor := ds,
                            all_regions := \<lparr>r_desc = dd, r_region = p, region_size = SLAB_PAGE,
                                            contains_descriptors = True\<rparr> # all_regions a1\<rparr>), ps1)))
         else Inr (Some a, ps))
      in case refilled of
           Inl e \<Rightarrow> Inl e
         | Inr (None, ps1) \<Rightarrow> Inr (None, a, ps1)
         | Inr (Some a1, ps1) \<Rightarrow>
             (case first_free_descriptor a1 of
                [] \<Rightarrow> Inl Assert_failed
              | x # xs \<Rightarrow> Inr (Some x, a1\<lparr>first_free_descriptor := xs\<rparr>, ps1)))"

section \<open>Creation and destruction\<close>

definition create_slab_allocator ::
  "slab_type list \<Rightarrow> 'p page_alloc_fun \<Rightarrow> 'p \<Rightarrow> (mem_allocator option \<times> 'p) res" where
  "create_slab_allocator ts af ps =
     (case af SLAB_PAGE ps of
        Inl e \<Rightarrow> Inl e
      | Inr (p, ps1) \<Rightarrow>
          if p = 0 then Inr (None, ps1)
          else if \<exists>t \<in> set ts. \<not> obj_size t \<ge> SIZEOF_OBJECT then Inl Assert_failed
          else Inr (Some (add_descriptors_upto (p + SIZEOF_ALLOCATOR + SIZEOF_SLAB * length ts) (p + SLAB_PAGE)
                      \<lparr>ma_self = p, types = ts, slabs = replicate (length ts) [],
                       first_free_descriptor = [], all_regions = []\<rparr>), ps1))"

fun free_all :: "'p page_free_fun \<Rightarrow> nat list \<Rightarrow> 'p \<Rightarrow> 'p res" where
  "free_all ff [] ps = Inr ps"
| "free_all ff (p # qs) ps = (case ff p ps of Inl e \<Rightarrow> Inl e | Inr ps1 \<Rightarrow> free_all ff qs ps1)"

text \<open>The recursion frees on the way back, so the last region of the stack goes first.\<close>

fun stack_and_destroy_regions :: "'p page_free_fun \<Rightarrow> region list \<Rightarrow> 'p \<Rightarrow> 'p res" where
  "stack_and_destroy_regions ff [] ps = Inr ps"
| "stack_and_destroy_regions ff (r # rs) ps =
     (case rs of
        [] \<Rightarrow> ff (r_region r) ps
      | q # _ \<Rightarrow>
          if r_desc r = r_desc q then Inl Assert_failed
          else (case stack_and_destroy_regions ff rs ps of Inl e \<Rightarrow> Inl e | Inr ps1 \<Rightarrow> ff (r_region r) ps1))"

text \<open>The loop over \<open>all_regions\<close>: regions that hold descriptors are stacked, the others freed.\<close>

fun destroy_regions :: "'p page_free_fun \<Rightarrow> region list \<Rightarrow> region list \<Rightarrow> 'p \<Rightarrow> (region list \<times> 'p) res" where
  "destroy_regions ff dr [] ps = Inr (dr, ps)"
| "destroy_regions ff dr (r # rs) ps =
     (if contains_descriptors r then destroy_regions ff (r # dr) rs ps
      else (case ff (r_region r) ps of Inl e \<Rightarrow> Inl e | Inr ps1 \<Rightarrow> destroy_regions ff dr rs ps1))"

definition destroy_slab_allocator :: "'p page_free_fun \<Rightarrow> mem_allocator \<Rightarrow> 'p \<Rightarrow> 'p res" where
  "destroy_slab_allocator ff a ps =
     (case free_all ff (map c_region (concat (slabs a))) ps of
        Inl e \<Rightarrow> Inl e
      | Inr ps1 \<Rightarrow>
          (case destroy_regions ff [] (all_regions a) ps1 of
             Inl e \<Rightarrow> Inl e
           | Inr (dr, ps2) \<Rightarrow>
               (case stack_and_destroy_regions ff dr ps2 of Inl e \<Rightarrow> Inl e | Inr ps3 \<Rightarrow> ff (ma_self a) ps3)))"

section \<open>Allocation\<close>

text \<open>The slab a request is served from: the first whose objects are large enough.\<close>

fun slab_for :: "nat \<Rightarrow> slab_type list \<Rightarrow> nat option" where
  "slab_for sz [] = None"
| "slab_for sz (t # ts) = (if sz > obj_size t then map_option Suc (slab_for sz ts) else Some 0)"

fun find_cache :: "cache list \<Rightarrow> nat option res" where
  "find_cache [] = Inr None"
| "find_cache (fc # cs) =
     (if n_free_objs fc = 0 then
        if (first_free_obj fc = []) \<noteq> (n_free_objs fc = 0) then Inl Assert_failed
        else (case find_cache cs of Inl e \<Rightarrow> Inl e | Inr k \<Rightarrow> Inr (map_option Suc k))
      else Inr (Some 0))"

text \<open>The loop that cuts a fresh block into objects: the stack of objects, and their number.\<close>

function cut_objects :: "nat \<Rightarrow> nat \<Rightarrow> nat \<Rightarrow> nat list \<times> nat \<Rightarrow> nat list \<times> nat" where
  "cut_objects sz p stop acc =
     (if sz = 0 then acc
      else if p + sz \<le> stop then cut_objects sz (p + sz) stop (p # fst acc, snd acc + 1) else acc)"
  by pat_completeness auto
termination
  by (relation "measure (\<lambda>(sz, p, stop, acc). stop - p)") auto

declare cut_objects.simps [simp del]

definition new_cache ::
  "'p page_alloc_fun \<Rightarrow> slab_type \<Rightarrow> mem_allocator \<Rightarrow> 'p \<Rightarrow> (cache option \<times> mem_allocator \<times> 'p) res" where
  "new_cache af t a ps =
     (case take_descriptor af a ps of
        Inl e \<Rightarrow> Inl e
      | Inr (None, a1, ps1) \<Rightarrow> Inr (None, a1, ps1)
      | Inr (Some fcd, a1, ps1) \<Rightarrow>
          (case af (cache_bytes t) ps1 of
             Inl e \<Rightarrow> Inl e
           | Inr (p, ps2) \<Rightarrow>
               if p = 0 then Inr (None, add_free_descriptor fcd a1, ps2)
               else
                 (let (objs, n) = cut_objects (obj_size t) p (p + cache_bytes t) ([], 0)
                  in if n \<noteq> cache_bytes t div obj_size t then Inl Assert_failed
                     else Inr (Some \<lparr>c_desc = fcd, c_region = p, n_free_objs = n, first_free_obj = objs\<rparr>,
                               a1, ps2))))"

definition pop_object :: "cache \<Rightarrow> (nat \<times> cache) res" where
  "pop_object fc =
     (if \<not> n_free_objs fc > 0 then Inl Assert_failed
      else case first_free_obj fc of
             [] \<Rightarrow> Inl Assert_failed
           | x # xs \<Rightarrow>
               if (n_free_objs fc - 1 = 0) \<noteq> (xs = []) then Inl Assert_failed
               else Inr (x, fc\<lparr>first_free_obj := xs, n_free_objs := n_free_objs fc - 1\<rparr>))"

definition slab_alloc ::
  "'p page_alloc_fun \<Rightarrow> nat \<Rightarrow> mem_allocator \<Rightarrow> 'p \<Rightarrow> (nat \<times> mem_allocator \<times> 'p) res" where
  "slab_alloc af sz a ps =
     (case slab_for sz (types a) of
        Some i \<Rightarrow>
          (case find_cache (slabs a ! i) of
             Inl e \<Rightarrow> Inl e
           | Inr found \<Rightarrow>
               (let with_cache =
                  (case found of
                     Some k \<Rightarrow> Inr (Some k, a, ps)
                   | None \<Rightarrow>
                       (case new_cache af (types a ! i) a ps of
                          Inl e \<Rightarrow> Inl e
                        | Inr (None, a1, ps1) \<Rightarrow> Inr (None, a1, ps1)
                        | Inr (Some fc, a1, ps1) \<Rightarrow>
                            Inr (Some 0, a1\<lparr>slabs := (slabs a1)[i := fc # slabs a1 ! i]\<rparr>, ps1)))
                in case with_cache of
                     Inl e \<Rightarrow> Inl e
                   | Inr (None, a1, ps1) \<Rightarrow> Inr (0, a1, ps1)
                   | Inr (Some k, a1, ps1) \<Rightarrow>
                       (case pop_object (slabs a1 ! i ! k) of
                          Inl e \<Rightarrow> Inl e
                        | Inr (x, fc) \<Rightarrow>
                            Inr (x, a1\<lparr>slabs := (slabs a1)[i := (slabs a1 ! i)[k := fc]]\<rparr>, ps1))))
      | None \<Rightarrow>
          (case take_descriptor af a ps of
             Inl e \<Rightarrow> Inl e
           | Inr (None, a1, ps1) \<Rightarrow> Inr (0, a1, ps1)
           | Inr (Some rd, a1, ps1) \<Rightarrow>
               (case af sz ps1 of
                  Inl e \<Rightarrow> Inl e
                | Inr (p, ps2) \<Rightarrow>
                    if p = 0 then Inr (0, add_free_descriptor rd a1, ps2)
                    else Inr (p, a1\<lparr>all_regions :=
                           \<lparr>r_desc = rd, r_region = p, region_size = sz, contains_descriptors = False\<rparr>
                             # all_regions a1\<rparr>, ps2))))"

section \<open>Release\<close>

text \<open>The first cache, slab by slab, whose block contains the address.\<close>

fun cache_with :: "nat \<Rightarrow> nat \<Rightarrow> cache list \<Rightarrow> nat option" where
  "cache_with addr bytes [] = None"
| "cache_with addr bytes (r # rs) =
     (if addr \<ge> c_region r \<and> addr < c_region r + bytes then Some 0
      else map_option Suc (cache_with addr bytes rs))"

fun owner_from :: "nat \<Rightarrow> nat \<Rightarrow> slab_type list \<Rightarrow> cache list list \<Rightarrow> (nat \<times> nat) option" where
  "owner_from addr i (t # ts) (cs # css) =
     (case cache_with addr (cache_bytes t) cs of
        Some k \<Rightarrow> Some (i, k)
      | None \<Rightarrow> owner_from addr (Suc i) ts css)"
| "owner_from addr i ts css = None"

text \<open>The assertions of \<open>slab_free\<close> on the free objects of the cache, in their order.\<close>

fun check_free_objs :: "nat \<Rightarrow> nat \<Rightarrow> nat \<Rightarrow> nat list \<Rightarrow> bool" where
  "check_free_objs addr base bytes [] \<longleftrightarrow> True"
| "check_free_objs addr base bytes (i # is) \<longleftrightarrow>
     i \<ge> base \<and> i < base + bytes \<and> addr \<noteq> i \<and> check_free_objs addr base bytes is"

text \<open>Taking the \<open>k\<close>th cache out of its list.\<close>

definition unlink_at :: "nat \<Rightarrow> 'a list \<Rightarrow> 'a list" where
  "unlink_at k xs = take k xs @ drop (Suc k) xs"

definition slab_free_object ::
  "'p page_free_fun \<Rightarrow> nat \<Rightarrow> nat \<Rightarrow> nat \<Rightarrow> mem_allocator \<Rightarrow> 'p \<Rightarrow> (mem_allocator \<times> 'p) res" where
  "slab_free_object ff addr i k a ps =
     (let t = types a ! i; r = slabs a ! i ! k
      in if (addr - c_region r) mod obj_size t \<noteq> 0 then Inl Assert_failed
         else if \<not> check_free_objs addr (c_region r) (cache_bytes t) (first_free_obj r) then Inl Assert_failed
         else (let r1 = r\<lparr>first_free_obj := addr # first_free_obj r, n_free_objs := n_free_objs r + 1\<rparr>
               in if n_free_objs r1 = cache_bytes t div obj_size t
                  then (case ff (c_region r) ps of
                          Inl e \<Rightarrow> Inl e
                        | Inr ps1 \<Rightarrow>
                            Inr (add_free_descriptor (c_desc r)
                                   (a\<lparr>slabs := (slabs a)[i := unlink_at k (slabs a ! i)]\<rparr>), ps1))
                  else Inr (a\<lparr>slabs := (slabs a)[i := (slabs a ! i)[k := r1]]\<rparr>, ps)))"

text \<open>The search of the regions after the first: the region found, and the list without it.\<close>

fun unlink_region :: "nat \<Rightarrow> region list \<Rightarrow> (region \<times> region list) option" where
  "unlink_region addr [] = None"
| "unlink_region addr (i # is) =
     (if r_region i = addr then Some (i, is)
      else (case unlink_region addr is of None \<Rightarrow> None | Some (r, rs) \<Rightarrow> Some (r, i # rs)))"

definition slab_free ::
  "'p page_free_fun \<Rightarrow> nat \<Rightarrow> mem_allocator \<Rightarrow> 'p \<Rightarrow> (mem_allocator \<times> 'p) res" where
  "slab_free ff addr a ps =
     (case owner_from addr 0 (types a) (slabs a) of
        Some (i, k) \<Rightarrow> slab_free_object ff addr i k a ps
      | None \<Rightarrow>
          (case all_regions a of
             [] \<Rightarrow> Inl Assert_failed
           | r # rs \<Rightarrow>
               if r_region r = addr
               then (case ff addr ps of
                       Inl e \<Rightarrow> Inl e
                     | Inr ps1 \<Rightarrow> Inr (add_free_descriptor (r_desc r) (a\<lparr>all_regions := rs\<rparr>), ps1))
               else (case unlink_region addr rs of
                       None \<Rightarrow> Inl Assert_failed
                     | Some (q, qs) \<Rightarrow>
                         (case ff addr ps of
                            Inl e \<Rightarrow> Inl e
                          | Inr ps1 \<Rightarrow>
                              if contains_descriptors q then Inl Assert_failed
                              else Inr (add_free_descriptor (r_desc q) (a\<lparr>all_regions := r # qs\<rparr>), ps1)))))"

section \<open>Sizes and reallocation\<close>

definition slab_find_getsize :: "nat \<Rightarrow> mem_allocator \<Rightarrow> nat res" where
  "slab_find_getsize addr a =
     (case owner_from addr 0 (types a) (slabs a) of
        Some (i, k) \<Rightarrow>
          if (addr - c_region (slabs a ! i ! k)) mod obj_size (types a ! i) \<noteq> 0 then Inl Assert_failed
          else Inr (obj_size (types a ! i))
      | None \<Rightarrow>
          (case find (\<lambda>r. r_region r = addr) (all_regions a) of
             None \<Rightarrow> Inl Panicked
           | Some r \<Rightarrow> Inr (region_size r)))"

definition size_for :: "nat \<Rightarrow> slab_type list \<Rightarrow> nat" where
  "size_for sz ts = (case slab_for sz ts of None \<Rightarrow> sz | Some i \<Rightarrow> obj_size (ts ! i))"

text \<open>\<open>slab_realloc\<close> answers the new address, and the copy it makes (destination, source, length),
  if it makes one.\<close>

definition slab_realloc ::
  "'p page_alloc_fun \<Rightarrow> 'p page_free_fun \<Rightarrow> nat \<Rightarrow> nat \<Rightarrow> mem_allocator \<Rightarrow> 'p
     \<Rightarrow> (nat \<times> (nat \<times> nat \<times> nat) option \<times> mem_allocator \<times> 'p) res" where
  "slab_realloc af ff ptr sz a ps =
     (if ptr = 0 then
        (case slab_alloc af sz a ps of Inl e \<Rightarrow> Inl e | Inr (p, a1, ps1) \<Rightarrow> Inr (p, None, a1, ps1))
      else if sz = 0 then
        (case slab_free ff ptr a ps of Inl e \<Rightarrow> Inl e | Inr (a1, ps1) \<Rightarrow> Inr (0, None, a1, ps1))
      else
        (case slab_find_getsize ptr a of
           Inl e \<Rightarrow> Inl e
         | Inr old_sz \<Rightarrow>
             if old_sz = size_for sz (types a) then Inr (ptr, None, a, ps)
             else
               (case slab_alloc af sz a ps of
                  Inl e \<Rightarrow> Inl e
                | Inr (ptr2, a1, ps1) \<Rightarrow>
                    if ptr2 = 0 then Inr (0, None, a1, ps1)
                    else (case slab_free ff ptr a1 ps1 of
                            Inl e \<Rightarrow> Inl e
                          | Inr (a2, ps2) \<Rightarrow>
                              Inr (ptr2, Some (ptr2, ptr, if old_sz < sz then old_sz else sz), a2, ps2)))))"

end
