(* ===== verification/Slab_Inv.thy ===== *)
theory Slab_Inv
  imports Slab Region_Lists
begin

text \<open>
  The invariant of the slab allocator, its abstract view (the objects handed out), and the contract of the page
  provider it relies on. The invariant is stated on multisets of caches, regions and free descriptors: the blocks
  the allocator holds are exactly the provider's live blocks (so none leaks and none is held twice), and every
  descriptor of every descriptor page is free, a cache's or a region's, once.
\<close>

section \<open>Cutting a block into equal pieces\<close>

definition strides :: "nat \<Rightarrow> nat \<Rightarrow> nat \<Rightarrow> nat list" where
  "strides p sz stop = map (\<lambda>k. p + k * sz) [0..<(stop - p) div sz]"

lemma strides_rec:
  assumes "0 < sz"
  shows "strides p sz stop = (if p + sz \<le> stop then p # strides (p + sz) sz stop else [])"
proof (cases "p + sz \<le> stop")
  case True
  then have "(stop - p) div sz = Suc ((stop - (p + sz)) div sz)"
    using assms le_div_geq [of sz "stop - p"] by simp
  then show ?thesis using True
    by (simp add: strides_def upt_conv_Cons map_Suc_upt [symmetric] del: upt_Suc)
next
  case False
  then have "stop - p < sz" using assms by linarith
  then have "(stop - p) div sz = 0" by simp
  with False show ?thesis by (simp add: strides_def)
qed

lemma strides_props:
  assumes "0 < sz"
  shows "distinct (strides p sz stop)" and "length (strides p sz stop) = (stop - p) div sz"
    and "x \<in> set (strides p sz stop) \<Longrightarrow> p \<le> x \<and> x + sz \<le> stop \<and> (x - p) mod sz = 0"
proof -
  show "distinct (strides p sz stop)" "length (strides p sz stop) = (stop - p) div sz"
    using assms by (auto simp: strides_def distinct_map inj_on_def)
  assume "x \<in> set (strides p sz stop)"
  then obtain k where k: "x = p + k * sz" "k < (stop - p) div sz"
    unfolding strides_def set_map by fastforce
  then have "Suc k * sz \<le> (stop - p) div sz * sz" by (intro mult_le_mono1) simp
  also have "\<dots> \<le> stop - p" by simp
  finally have "k * sz + sz \<le> stop - p" by simp
  moreover have "0 < (stop - p) div sz" using k(2) by simp
  then have "p \<le> stop" by (metis bot_nat_0.not_eq_extremum diff_is_0_eq' div_0 nat_le_linear)
  ultimately show "p \<le> x \<and> x + sz \<le> stop \<and> (x - p) mod sz = 0" using k(1) by simp
qed

lemma strides_apart:
  assumes "x \<in> set (strides p sz stop)" "y \<in> set (strides p sz stop)" "x \<noteq> y"
  shows "x + sz \<le> y \<or> y + sz \<le> x"
proof -
  obtain j k where jk: "x = p + j * sz" "y = p + k * sz" using assms by (auto simp: strides_def)
  then have "j < k \<or> k < j" using assms(3) by auto
  then have "Suc j * sz \<le> k * sz \<or> Suc k * sz \<le> j * sz" by (metis Suc_leI mult_le_mono1)
  then show ?thesis using jk by auto
qed

lemma cut_objects_spec:
  "0 < sz \<Longrightarrow> cut_objects sz p stop acc = (rev (strides p sz stop) @ fst acc, snd acc + length (strides p sz stop))"
proof (induction sz p stop acc rule: cut_objects.induct)
  case (1 sz p stop acc)
  show ?case
    by (subst cut_objects.simps, subst strides_rec [OF 1(2)], subst strides_rec [OF 1(2)])
      (use 1 in auto)
qed

lemma add_descriptors_spec:
  "add_descriptors_upto i stop a
     = a\<lparr>first_free_descriptor := rev (strides i SIZEOF_DESCRIPTOR stop) @ first_free_descriptor a\<rparr>"
proof (induction i stop a rule: add_descriptors_upto.induct)
  case (1 i stop a)
  have p: "0 < SIZEOF_DESCRIPTOR" by (simp add: SIZEOF_DESCRIPTOR_def)
  show ?case
    by (subst add_descriptors_upto.simps, subst strides_rec [OF p])
      (use 1 in \<open>auto simp: add_free_descriptor_def\<close>)
qed

section \<open>The invariant\<close>

type_synonym tagged_cache = "slab_type \<times> cache"

definition types_ok :: "slab_type list \<Rightarrow> bool" where
  "types_ok ts \<longleftrightarrow> ts \<noteq> [] \<and> SIZEOF_ALLOCATOR + SIZEOF_SLAB * length ts \<le> SLAB_PAGE
     \<and> (\<forall>t \<in> set ts. SIZEOF_OBJECT \<le> obj_size t \<and> obj_size t \<le> cache_bytes t \<and> cache_bytes t \<le> 0xFFFFF000)"

definition objects :: "slab_type \<Rightarrow> nat \<Rightarrow> nat list" where
  "objects t p = strides p (obj_size t) (p + cache_bytes t)"

definition cache_ok :: "tagged_cache \<Rightarrow> bool" where
  "cache_ok = (\<lambda>(t, c). distinct (first_free_obj c) \<and> set (first_free_obj c) \<subseteq> set (objects t (c_region c))
     \<and> n_free_objs c = length (first_free_obj c) \<and> n_free_objs c < length (objects t (c_region c)))"

definition region_ok :: "region \<Rightarrow> bool" where
  "region_ok r \<longleftrightarrow> 0 < region_size r \<and> region_size r \<le> 0xFFFFF000 \<and> (contains_descriptors r \<longrightarrow> region_size r = SLAB_PAGE)"

definition cblock :: "tagged_cache \<Rightarrow> nat \<times> nat" where
  "cblock = (\<lambda>(t, c). (c_region c, cache_bytes t))"

definition rblock :: "region \<Rightarrow> nat \<times> nat" where
  "rblock r = (r_region r, page_up (region_size r))"

definition held :: "nat \<Rightarrow> tagged_cache multiset \<Rightarrow> region multiset \<Rightarrow> (nat \<times> nat) multiset" where
  "held self C R = {#(self, SLAB_PAGE)#} + image_mset cblock C + image_mset rblock R"

definition page_descs :: "nat \<Rightarrow> nat list" where
  "page_descs p = strides p SIZEOF_DESCRIPTOR (p + SLAB_PAGE)"

definition self_descs :: "nat \<Rightarrow> slab_type list \<Rightarrow> nat list" where
  "self_descs p ts = strides (p + SIZEOF_ALLOCATOR + SIZEOF_SLAB * length ts) SIZEOF_DESCRIPTOR (p + SLAB_PAGE)"

definition desc_supply :: "nat \<Rightarrow> slab_type list \<Rightarrow> region multiset \<Rightarrow> nat multiset" where
  "desc_supply self ts R =
     mset (self_descs self ts) + (\<Sum>r \<in># filter_mset contains_descriptors R. mset (page_descs (r_region r)))"

definition desc_use :: "tagged_cache multiset \<Rightarrow> region multiset \<Rightarrow> nat multiset \<Rightarrow> nat multiset" where
  "desc_use C R F = F + image_mset (\<lambda>(t, c). c_desc c) C + image_mset r_desc R"

definition slab_view ::
  "(nat \<times> nat) set \<Rightarrow> nat \<Rightarrow> slab_type list \<Rightarrow> tagged_cache multiset \<Rightarrow> region multiset \<Rightarrow> nat multiset \<Rightarrow> bool" where
  "slab_view B self ts C R F \<longleftrightarrow>
     (\<forall>x \<in># C. fst x \<in> set ts \<and> cache_ok x) \<and> (\<forall>r \<in># R. region_ok r)
     \<and> held self C R = mset_set B \<and> desc_use C R F = desc_supply self ts R"

definition tagged :: "mem_allocator \<Rightarrow> tagged_cache list" where
  "tagged a = concat (map2 (\<lambda>t cs. map (Pair t) cs) (types a) (slabs a))"

definition slab_inv :: "(nat \<times> nat) set \<Rightarrow> mem_allocator \<Rightarrow> bool" where
  "slab_inv B a \<longleftrightarrow> types_ok (types a) \<and> length (slabs a) = length (types a)
     \<and> slab_view B (ma_self a) (types a) (mset (tagged a)) (mset (all_regions a)) (mset (first_free_descriptor a))"

text \<open>The objects in the hands of the callers, with the size that may be used.\<close>

definition cache_used :: "tagged_cache \<Rightarrow> (nat \<times> nat) set" where
  "cache_used = (\<lambda>(t, c). (set (objects t (c_region c)) - set (first_free_obj c)) \<times> {obj_size t})"

definition region_used :: "region \<Rightarrow> (nat \<times> nat) set" where
  "region_used r = (if contains_descriptors r then {} else {(r_region r, region_size r)})"

definition slab_used :: "mem_allocator \<Rightarrow> (nat \<times> nat) set" where
  "slab_used a = (\<Union>x \<in> set (tagged a). cache_used x) \<union> (\<Union>r \<in> set (all_regions a). region_used r)"

section \<open>Updates of the caches of a slab\<close>

lemma tagged_cong: "types a = types b \<Longrightarrow> slabs a = slabs b \<Longrightarrow> tagged a = tagged b"
  by (simp add: tagged_def)

lemma tagged_update:
  assumes "length (slabs a) = length (types a)" "i < length (types a)"
  shows "mset (tagged (a\<lparr>slabs := (slabs a)[i := cs]\<rparr>)) + mset (map (Pair (types a ! i)) (slabs a ! i))
    = mset (tagged a) + mset (map (Pair (types a ! i)) cs)"
proof -
  let ?L = "map2 (\<lambda>t cs. map (Pair t) cs) (types a) (slabs a)"
  have "map2 (\<lambda>t cs. map (Pair t) cs) (types a) ((slabs a)[i := cs]) = ?L[i := map (Pair (types a ! i)) cs]"
    using assms by (intro nth_equalityI) (auto simp: nth_list_update)
  moreover have "?L ! i = map (Pair (types a ! i)) (slabs a ! i)" "i < length ?L" using assms by auto
  ultimately show ?thesis
    using mset_concat_update [of i ?L "map (Pair (types a ! i)) cs"] by (simp add: tagged_def)
qed

lemma tagged_member:
  assumes "length (slabs a) = length (types a)" "i < length (types a)" "k < length (slabs a ! i)"
  shows "(types a ! i, slabs a ! i ! k) \<in> set (tagged a)"
proof -
  let ?L = "map2 (\<lambda>t cs. map (Pair t) cs) (types a) (slabs a)"
  have "?L ! i = map (Pair (types a ! i)) (slabs a ! i)" "i < length ?L" using assms by auto
  then have "(types a ! i, slabs a ! i ! k) \<in> set (?L ! i)" using assms(3) by auto
  then show ?thesis unfolding tagged_def set_concat_nth using \<open>i < length ?L\<close> by blast
qed

lemma tagged_find:
  assumes "length (slabs a) = length (types a)" "(t, c) \<in> set (tagged a)"
  shows "\<exists>i k. i < length (types a) \<and> k < length (slabs a ! i) \<and> t = types a ! i \<and> c = slabs a ! i ! k"
proof -
  let ?L = "map2 (\<lambda>t cs. map (Pair t) cs) (types a) (slabs a)"
  obtain i where i: "i < length ?L" "(t, c) \<in> set (?L ! i)" using assms(2) unfolding tagged_def set_concat_nth by blast
  then have "i < length (types a)" "?L ! i = map (Pair (types a ! i)) (slabs a ! i)" using assms(1) by auto
  moreover from this i(2) obtain k where "k < length (slabs a ! i)" "c = slabs a ! i ! k" "t = types a ! i"
    by (auto simp: in_set_conv_nth)
  ultimately show ?thesis by blast
qed

lemma mset_list_update: "k < length xs \<Longrightarrow> mset (xs[k := x]) + {#xs ! k#} = mset xs + {#x#}"
  by (simp add: mset_update)

lemma mset_unlink: "k < length xs \<Longrightarrow> add_mset (xs ! k) (mset (unlink_at k xs)) = mset xs"
proof -
  assume k: "k < length xs"
  have "mset xs = mset (take k xs @ xs ! k # drop (Suc k) xs)" using id_take_nth_drop [OF k] by simp
  then show ?thesis by (simp add: unlink_at_def)
qed

lemma tagged_replace:
  assumes "length (slabs a) = length (types a)" "i < length (types a)" "k < length (slabs a ! i)"
  shows "add_mset (types a ! i, slabs a ! i ! k) (mset (tagged (a\<lparr>slabs := (slabs a)[i := (slabs a ! i)[k := c]]\<rparr>)))
    = add_mset (types a ! i, c) (mset (tagged a))"
proof -
  let ?P = "image_mset (Pair (types a ! i))"
  have "?P (mset ((slabs a ! i)[k := c])) + {#(types a ! i, slabs a ! i ! k)#}
      = ?P (mset (slabs a ! i)) + {#(types a ! i, c)#}"
    using arg_cong [OF mset_list_update [OF assms(3), of c], of ?P] by simp
  then have e: "add_mset (types a ! i, slabs a ! i ! k) (?P (mset ((slabs a ! i)[k := c])))
      = add_mset (types a ! i, c) (?P (mset (slabs a ! i)))" by simp
  have u: "mset (tagged (a\<lparr>slabs := (slabs a)[i := (slabs a ! i)[k := c]]\<rparr>)) + ?P (mset (slabs a ! i))
      = mset (tagged a) + ?P (mset ((slabs a ! i)[k := c]))"
    using tagged_update [OF assms(1,2)] by simp
  have "add_mset (types a ! i, slabs a ! i ! k) (mset (tagged (a\<lparr>slabs := (slabs a)[i := (slabs a ! i)[k := c]]\<rparr>)))
      + ?P (mset (slabs a ! i)) = mset (tagged a) + add_mset (types a ! i, slabs a ! i ! k) (?P (mset ((slabs a ! i)[k := c])))"
    using u by simp
  also have "\<dots> = add_mset (types a ! i, c) (mset (tagged a)) + ?P (mset (slabs a ! i))" unfolding e by simp
  finally show ?thesis by simp
qed

lemma tagged_push:
  assumes "length (slabs a) = length (types a)" "i < length (types a)"
  shows "mset (tagged (a\<lparr>slabs := (slabs a)[i := c # slabs a ! i]\<rparr>)) = add_mset (types a ! i, c) (mset (tagged a))"
  using tagged_update [OF assms, of "c # slabs a ! i"] by simp

lemma tagged_unlink:
  assumes "length (slabs a) = length (types a)" "i < length (types a)" "k < length (slabs a ! i)"
  shows "add_mset (types a ! i, slabs a ! i ! k) (mset (tagged (a\<lparr>slabs := (slabs a)[i := unlink_at k (slabs a ! i)]\<rparr>)))
    = mset (tagged a)"
proof -
  let ?P = "image_mset (Pair (types a ! i))"
  have "?P (mset (slabs a ! i)) = add_mset (types a ! i, slabs a ! i ! k) (?P (mset (unlink_at k (slabs a ! i))))"
    using arg_cong [OF mset_unlink [OF assms(3)], of ?P] by simp
  with tagged_update [OF assms(1,2), of "unlink_at k (slabs a ! i)"] show ?thesis by simp
qed

end
