(* ===== verification/Slab_Correct.thy ===== *)
theory Slab_Correct
  imports Slab_Inv
begin

text \<open>
  What the slab allocator relies on and what it guarantees. The page provider's contract is the locale
  \<open>page_provider\<close>: a release never fails on a live block, an allocation that returns answers either
  zero, with nothing changed, or a fresh block. Everything the operations of the slab allocator do is proved once
  inside the locale.
\<close>

section \<open>The contract of the page provider\<close>

locale page_provider =
  fixes palloc :: "nat \<Rightarrow> 'p \<Rightarrow> (nat \<times> 'p) res"
    and pfree :: "nat \<Rightarrow> 'p \<Rightarrow> 'p res"
    and pgood :: "'p \<Rightarrow> bool"
    and blocks :: "'p \<Rightarrow> (nat \<times> nat) set"
  assumes palloc_good: "pgood ps \<Longrightarrow> 0 < n \<Longrightarrow> n \<le> 0xFFFFF000 \<Longrightarrow> palloc n ps = Inr (p, ps') \<Longrightarrow> pgood ps'"
    and palloc_none: "pgood ps \<Longrightarrow> 0 < n \<Longrightarrow> n \<le> 0xFFFFF000 \<Longrightarrow> palloc n ps = Inr (0, ps') \<Longrightarrow> blocks ps' = blocks ps"
    and palloc_some: "pgood ps \<Longrightarrow> 0 < n \<Longrightarrow> n \<le> 0xFFFFF000 \<Longrightarrow> palloc n ps = Inr (p, ps') \<Longrightarrow> p \<noteq> 0
        \<Longrightarrow> (p, page_up n) \<notin> blocks ps \<and> blocks ps' = insert (p, page_up n) (blocks ps)"
    and pfree_law: "pgood ps \<Longrightarrow> (p, n) \<in> blocks ps
        \<Longrightarrow> \<exists>ps'. pfree p ps = Inr ps' \<and> pgood ps' \<and> blocks ps' = blocks ps - {(p, n)}"
    and blocks_finite: "pgood ps \<Longrightarrow> finite (blocks ps)"
    and blocks_pos: "pgood ps \<Longrightarrow> (p, n) \<in> blocks ps \<Longrightarrow> 0 < p \<and> 0 < n"
    and blocks_apart: "pgood ps \<Longrightarrow> (p, n) \<in> blocks ps \<Longrightarrow> (q, m) \<in> blocks ps \<Longrightarrow> (p, n) \<noteq> (q, m)
        \<Longrightarrow> {p ..< p + n} \<inter> {q ..< q + m} = {}"

text \<open>A fault of the provider, in the state an operation starts in or after one page was allocated.\<close>

definition provider_fault :: "'p page_alloc_fun \<Rightarrow> 'p \<Rightarrow> fault \<Rightarrow> bool" where
  "provider_fault af ps e \<longleftrightarrow> (\<exists>n. af n ps = Inl e) \<or> (\<exists>p ps1 n. af SLAB_PAGE ps = Inr (p, ps1) \<and> af n ps1 = Inl e)"

section \<open>Facts on the invariant\<close>

lemma set_parts:
  assumes "P + Q = mset_set B" "finite B" "x \<in># P" "y \<in># Q"
  shows "x \<in> B" and "y \<in> B" and "x \<noteq> y"
proof -
  have "x \<in># mset_set B" "y \<in># mset_set B" unfolding assms(1) [symmetric] using assms(3,4) by auto
  then show "x \<in> B" "y \<in> B" using assms(2) by auto
  have "count (mset_set B) x \<le> 1" by (simp add: count_mset_set')
  then have "count P x + count Q x \<le> 1" unfolding assms(1) [symmetric] by simp
  moreover have "0 < count P x" "x = y \<Longrightarrow> 0 < count Q x" using assms(3,4) by simp_all
  ultimately show "x \<noteq> y" by linarith
qed

lemma image_parts:
  assumes "image_mset f P + Q = mset_set B" "x \<in># P" "y \<in># P" "x \<noteq> y"
  shows "f x \<noteq> f y"
proof
  assume e: "f x = f y"
  obtain P1 where P1: "P = add_mset x P1" using assms(2) by (rule mset_add)
  have "y \<in># P1" using assms(3,4) P1 by auto
  then obtain P2 where "P1 = add_mset y P2" by (rule mset_add)
  then have "mset_set B = add_mset (f x) (add_mset (f x) (image_mset f P2 + Q))" using assms(1) P1 e by simp
  moreover have "count (mset_set B) (f x) \<le> 1" by (simp add: count_mset_set')
  ultimately show False by simp
qed

lemma held_finite: "slab_view B self ts C R F \<Longrightarrow> finite B"
  unfolding slab_view_def held_def by (metis add_mset_not_empty add_mset_add_single mset_set.infinite union_mset_add_mset_left)

lemma view_held: "slab_view B self ts C R F \<Longrightarrow> {#(self, SLAB_PAGE)#} + image_mset cblock C + image_mset rblock R = mset_set B"
  by (simp add: slab_view_def held_def)

lemma cache_block_in: "slab_view B self ts C R F \<Longrightarrow> x \<in># C \<Longrightarrow> cblock x \<in> B"
  using set_parts(2) [of "{#(self, SLAB_PAGE)#} + image_mset rblock R" "image_mset cblock C" B "(self, SLAB_PAGE)" "cblock x"]
    view_held [of B self ts C R F] held_finite [of B self ts C R F] by (simp add: ac_simps)

lemma region_block_in: "slab_view B self ts C R F \<Longrightarrow> r \<in># R \<Longrightarrow> rblock r \<in> B"
  using set_parts(2) [of "{#(self, SLAB_PAGE)#} + image_mset cblock C" "image_mset rblock R" B "(self, SLAB_PAGE)" "rblock r"]
    view_held [of B self ts C R F] held_finite [of B self ts C R F] by (simp add: ac_simps)

lemma self_block_in:
  assumes "slab_view B self ts C R F" shows "(self, SLAB_PAGE) \<in> B"
proof -
  have "(self, SLAB_PAGE) \<in># mset_set B" unfolding view_held [OF assms, symmetric] by simp
  with held_finite [OF assms] show ?thesis by simp
qed

lemma held_distinct:
  assumes v: "slab_view B self ts C R F"
  shows "x \<in># C \<Longrightarrow> y \<in># C \<Longrightarrow> x \<noteq> y \<Longrightarrow> cblock x \<noteq> cblock y"
    and "x \<in># C \<Longrightarrow> r \<in># R \<Longrightarrow> cblock x \<noteq> rblock r"
    and "r \<in># R \<Longrightarrow> q \<in># R \<Longrightarrow> r \<noteq> q \<Longrightarrow> rblock r \<noteq> rblock q"
    and "x \<in># C \<Longrightarrow> cblock x \<noteq> (self, SLAB_PAGE)"
    and "r \<in># R \<Longrightarrow> rblock r \<noteq> (self, SLAB_PAGE)"
proof -
  note h = view_held [OF v] and fin = held_finite [OF v]
  have h1: "image_mset cblock C + ({#(self, SLAB_PAGE)#} + image_mset rblock R) = mset_set B"
    and h2: "image_mset rblock R + ({#(self, SLAB_PAGE)#} + image_mset cblock C) = mset_set B"
    using h by (simp_all add: ac_simps)
  show "x \<in># C \<Longrightarrow> y \<in># C \<Longrightarrow> x \<noteq> y \<Longrightarrow> cblock x \<noteq> cblock y" by (rule image_parts [OF h1])
  show "r \<in># R \<Longrightarrow> q \<in># R \<Longrightarrow> r \<noteq> q \<Longrightarrow> rblock r \<noteq> rblock q" by (rule image_parts [OF h2])
  show "x \<in># C \<Longrightarrow> r \<in># R \<Longrightarrow> cblock x \<noteq> rblock r" by (rule set_parts(3) [OF h1 fin]) auto
  show "x \<in># C \<Longrightarrow> cblock x \<noteq> (self, SLAB_PAGE)" by (rule set_parts(3) [OF h1 fin]) auto
  show "r \<in># R \<Longrightarrow> rblock r \<noteq> (self, SLAB_PAGE)" by (rule set_parts(3) [OF h2 fin]) auto
qed

lemma page_up_multiple:
  assumes "n \<le> 0xFFFFF000" shows "n \<le> page_up n" and "4096 dvd n \<Longrightarrow> page_up n = n"
proof -
  have "page_up n = (n + 4095) div 4096 * 4096"
    using assms by (simp add: page_up_def unat_PAGE_ALIGN_UP unat_of_nat)
  with round_up [of 4096 n] show "n \<le> page_up n" "4096 dvd n \<Longrightarrow> page_up n = n" by (auto simp: dvd_eq_mod_eq_0)
qed


section \<open>Moves between the parts of the view\<close>

lemma view_take_page:
  assumes "slab_view B self ts C R F" and "(p, SLAB_PAGE) \<notin> B" and "F + mset (page_descs p) = add_mset d F'"
  shows "slab_view (insert (p, SLAB_PAGE) B) self ts C
    (add_mset \<lparr>r_desc = d, r_region = p, region_size = SLAB_PAGE, contains_descriptors = True\<rparr> R) F'"
proof -
  have "page_up SLAB_PAGE = SLAB_PAGE" using page_up_multiple(2) [of SLAB_PAGE] by (simp add: SLAB_PAGE_def)
  then have "held self C (add_mset \<lparr>r_desc = d, r_region = p, region_size = SLAB_PAGE, contains_descriptors = True\<rparr> R)
      = mset_set (insert (p, SLAB_PAGE) B)"
    using view_held [OF assms(1)] held_finite [OF assms(1)] assms(2) by (simp add: held_def rblock_def)
  moreover have "add_mset d F' + M = F + M + mset (page_descs p)" for M
    using assms(3) by (metis add.assoc add.commute)
  then have "desc_use C (add_mset \<lparr>r_desc = d, r_region = p, region_size = SLAB_PAGE, contains_descriptors = True\<rparr> R) F'
      = desc_use C R F + mset (page_descs p)"
    by (simp add: desc_use_def)
  ultimately show ?thesis
    using assms(1) by (simp add: slab_view_def desc_supply_def region_ok_def SLAB_PAGE_def)
qed

lemma view_add_region:
  assumes "slab_view B self ts C R (add_mset (r_desc r) F)" and "rblock r \<notin> B" and "region_ok r" "\<not> contains_descriptors r"
  shows "slab_view (insert (rblock r) B) self ts C (add_mset r R) F"
  using assms view_held [OF assms(1)] held_finite [OF assms(1)]
  by (simp add: slab_view_def held_def desc_use_def desc_supply_def)

lemma view_del_region:
  assumes "slab_view B self ts C (add_mset r R) F" and "\<not> contains_descriptors r"
  shows "slab_view (B - {rblock r}) self ts C R (add_mset (r_desc r) F)"
proof -
  have "mset_set B = add_mset (rblock r) (mset_set (B - {rblock r}))"
    using mset_set.remove [OF held_finite [OF assms(1)] region_block_in [OF assms(1)]] by simp
  then have "held self C R = mset_set (B - {rblock r})"
    using view_held [OF assms(1)] by (simp add: held_def)
  then show ?thesis using assms by (simp add: slab_view_def desc_use_def desc_supply_def)
qed

lemma view_add_cache:
  assumes "slab_view B self ts C R (add_mset (c_desc c) F)" and "cblock (t, c) \<notin> B" and "cache_ok (t, c)" "t \<in> set ts"
  shows "slab_view (insert (cblock (t, c)) B) self ts (add_mset (t, c) C) R F"
  using assms view_held [OF assms(1)] held_finite [OF assms(1)]
  by (simp add: slab_view_def held_def desc_use_def desc_supply_def)

lemma view_del_cache:
  assumes "slab_view B self ts (add_mset (t, c) C) R F"
  shows "slab_view (B - {cblock (t, c)}) self ts C R (add_mset (c_desc c) F)"
proof -
  have "mset_set B = add_mset (cblock (t, c)) (mset_set (B - {cblock (t, c)}))"
    using mset_set.remove [OF held_finite [OF assms(1)] cache_block_in [OF assms(1)]] by simp
  then have "held self C R = mset_set (B - {cblock (t, c)})"
    using view_held [OF assms(1)] by (simp add: held_def)
  then show ?thesis using assms by (simp add: slab_view_def desc_use_def desc_supply_def)
qed

lemma view_swap_cache:
  assumes "slab_view B self ts (add_mset (t, c) C) R F" and "cache_ok (t, c')"
    and "c_desc c' = c_desc c" "c_region c' = c_region c"
  shows "slab_view B self ts (add_mset (t, c') C) R F"
proof -
  have "cblock (t, c') = cblock (t, c)" using assms(4) by (simp add: cblock_def)
  then show ?thesis using assms by (simp add: slab_view_def held_def desc_use_def)
qed

lemma slab_inv_view:
  "slab_inv B a \<Longrightarrow> slab_view B (ma_self a) (types a) (mset (tagged a)) (mset (all_regions a)) (mset (first_free_descriptor a))"
  by (simp add: slab_inv_def)

end
