(* ===== verification/Slab_Ops.thy ===== *)
theory Slab_Ops
  imports Slab_Correct
begin

text \<open>
  The operations of the slab allocator against the contract of the page provider, proved inside the locale.
\<close>

definition regions_used :: "mem_allocator \<Rightarrow> (nat \<times> nat) set" where
  "regions_used a = (\<Union>r \<in> set (all_regions a). region_used r)"

definition caches_used :: "mem_allocator \<Rightarrow> (nat \<times> nat) set" where
  "caches_used a = (\<Union>x \<in> set (tagged a). cache_used x)"

lemma slab_used_parts: "slab_used a = caches_used a \<union> regions_used a"
  by (simp add: slab_used_def caches_used_def regions_used_def)

lemma page_descs_length: "length (page_descs p) = 256"
  by (simp add: page_descs_def strides_props SIZEOF_DESCRIPTOR_def SLAB_PAGE_def)

lemma page_size_ok: "0 < SLAB_PAGE" "SLAB_PAGE \<le> 0xFFFFF000" "page_up SLAB_PAGE = SLAB_PAGE"
  using page_up_multiple(2) [of SLAB_PAGE] by (simp_all add: SLAB_PAGE_def)

lemma slab_for_spec:
  "slab_for sz ts = Some i \<Longrightarrow> i < length ts \<and> sz \<le> obj_size (ts ! i)"
  "slab_for sz ts = None \<Longrightarrow> \<forall>t \<in> set ts. obj_size t < sz"
  by (induction ts arbitrary: i) (auto split: if_splits)

lemma find_cache_spec:
  assumes "\<forall>c \<in> set cs. n_free_objs c = length (first_free_obj c)"
  shows "\<exists>r. find_cache cs = Inr r \<and> (case r of Some k \<Rightarrow> k < length cs \<and> first_free_obj (cs ! k) \<noteq> []
    | None \<Rightarrow> \<forall>c \<in> set cs. first_free_obj c = [])"
  using assms
proof (induction cs)
  case (Cons c cs)
  then obtain r where r: "find_cache cs = Inr r" "case r of Some k \<Rightarrow> k < length cs \<and> first_free_obj (cs ! k) \<noteq> []
    | None \<Rightarrow> \<forall>c \<in> set cs. first_free_obj c = []" by auto
  show ?case
  proof (cases "n_free_objs c = 0")
    case True
    with r Cons.prems show ?thesis by (intro exI [of _ "map_option Suc r"]) (auto split: option.splits)
  qed (use Cons.prems in simp)
qed simp

lemma pop_object_spec:
  assumes "n_free_objs c = length (first_free_obj c)" "first_free_obj c = x # xs"
  shows "pop_object c = Inr (x, c\<lparr>first_free_obj := xs, n_free_objs := length xs\<rparr>)"
  using assms by (simp add: pop_object_def)

lemma cache_ok_pop:
  assumes "distinct objs" "set objs \<subseteq> set (objects t (c_region c))" "objs = x # xs" "length objs \<le> length (objects t (c_region c))"
    and "c' = c\<lparr>first_free_obj := xs, n_free_objs := length xs\<rparr>"
  shows "cache_ok (t, c')" and "cache_used (t, c') = insert (x, obj_size t) ((set (objects t (c_region c)) - set objs) \<times> {obj_size t})"
  using assms by (auto simp: cache_ok_def cache_used_def)

lemma caches_used_mset: "caches_used a = (\<Union>x \<in> set_mset (mset (tagged a)). cache_used x)"
  by (simp add: caches_used_def)

lemma objects_bounds:
  assumes "x \<in> set (objects t p)" "0 < obj_size t"
  shows "p \<le> x" "x + obj_size t \<le> p + cache_bytes t" "(x - p) mod obj_size t = 0"
  using strides_props(3) [OF assms(2) assms(1) [unfolded objects_def]] by simp_all

lemma types_pos: "slab_inv B a \<Longrightarrow> t \<in> set (types a) \<Longrightarrow> 0 < obj_size t \<and> 0 < cache_bytes t"
  by (auto simp: slab_inv_def types_ok_def SIZEOF_OBJECT_def)

lemma tagged_ok:
  assumes "slab_inv B a" "(t, c) \<in> set (tagged a)"
  shows "t \<in> set (types a)" "cache_ok (t, c)" "cblock (t, c) \<in> B"
  using assms cache_block_in [OF slab_inv_view [OF assms(1)], of "(t, c)"]
  by (auto simp: slab_inv_def slab_view_def)

lemma region_ok_in:
  assumes "slab_inv B a" "r \<in> set (all_regions a)"
  shows "region_ok r" "rblock r \<in> B"
  using assms region_block_in [OF slab_inv_view [OF assms(1)], of r] by (auto simp: slab_inv_def slab_view_def)

text \<open>A used object lies in a block of the allocator.\<close>

lemma used_cases:
  assumes inv: "slab_inv B a" and u: "(x, z) \<in> slab_used a"
  obtains (in_cache) t c where "(t, c) \<in> set (tagged a)" "x \<in> set (objects t (c_region c))"
      "x \<notin> set (first_free_obj c)" "z = obj_size t" "c_region c \<le> x" "x + z \<le> c_region c + cache_bytes t"
    | (in_region) r where "r \<in> set (all_regions a)" "\<not> contains_descriptors r" "x = r_region r" "z = region_size r"
      "z \<le> page_up z"
proof -
  from u consider "\<exists>y \<in> set (tagged a). (x, z) \<in> cache_used y" | "\<exists>r \<in> set (all_regions a). (x, z) \<in> region_used r"
    unfolding slab_used_def by blast
  then show thesis
  proof cases
    case 1
    then obtain t c where c: "(t, c) \<in> set (tagged a)" "x \<in> set (objects t (c_region c))"
      "x \<notin> set (first_free_obj c)" "z = obj_size t" by (auto simp: cache_used_def)
    have "0 < obj_size t" using types_pos [OF inv tagged_ok(1) [OF inv c(1)]] by simp
    from objects_bounds [OF c(2) this] c show thesis by (intro in_cache) auto
  next
    case 2
    then obtain r where r: "r \<in> set (all_regions a)" "\<not> contains_descriptors r" "x = r_region r" "z = region_size r"
      by (auto simp: region_used_def split: if_splits)
    have "z \<le> page_up z" using region_ok_in(1) [OF inv r(1)] r(4) page_up_multiple(1) [of z] by (simp add: region_ok_def)
    with r show thesis by (rule in_region)
  qed
qed

lemma used_in_block:
  assumes "slab_inv B a" "(x, z) \<in> slab_used a"
  shows "0 < z \<and> (\<exists>q m. (q, m) \<in> B \<and> q \<le> x \<and> x + z \<le> q + m)"
  using assms
proof (cases rule: used_cases)
  case (in_cache t c)
  with tagged_ok(1,3) [OF assms(1) in_cache(1)] types_pos [OF assms(1), of t] show ?thesis by (auto simp: cblock_def)
next
  case (in_region r)
  then have "(x, page_up z) \<in> B \<and> 0 < z \<and> x + z \<le> x + page_up z"
    using region_ok_in [OF assms(1) in_region(1)] by (simp add: rblock_def region_ok_def)
  then show ?thesis by blast
qed

context page_provider
begin

lemma take_descriptor_spec:
  assumes good: "pgood ps" and inv: "slab_inv (blocks ps) a" and run: "take_descriptor palloc a ps = Inr (r, a', ps')"
  shows "pgood ps' \<and> types a' = types a \<and> slabs a' = slabs a \<and> ma_self a' = ma_self a \<and> regions_used a' = regions_used a
    \<and> (case r of None \<Rightarrow> a' = a \<and> blocks ps' = blocks ps
       | Some d \<Rightarrow> slab_view (blocks ps') (ma_self a) (types a) (mset (tagged a)) (mset (all_regions a'))
           (add_mset d (mset (first_free_descriptor a'))))"
proof (cases "first_free_descriptor a")
  case (Cons x xs)
  with run have "r = Some x" "a' = a\<lparr>first_free_descriptor := xs\<rparr>" "ps' = ps"
    by (auto simp: take_descriptor_def)
  with good slab_inv_view [OF inv] Cons show ?thesis by (simp add: regions_used_def)
next
  case Nil
  obtain p ps1 where p: "palloc SLAB_PAGE ps = Inr (p, ps1)"
    using run Nil by (auto simp: take_descriptor_def split: sum.splits)
  note law = palloc_good [OF good page_size_ok(1,2) p]
  show ?thesis
  proof (cases "p = 0")
    case True
    then have "r = None" "a' = a" "ps' = ps1" using run Nil p by (auto simp: take_descriptor_def)
    with law palloc_none [OF good page_size_ok(1,2)] p True show ?thesis by simp
  next
    case False
    have fresh: "(p, SLAB_PAGE) \<notin> blocks ps" "blocks ps1 = insert (p, SLAB_PAGE) (blocks ps)"
      using palloc_some [OF good page_size_ok(1,2) p False] by (simp_all add: page_size_ok(3))
    obtain dd x xs where d: "rev (page_descs p) = dd # x # xs"
      using page_descs_length [of p] by (metis length_0_conv length_rev neq_Nil_conv length_Cons Suc_eq_numeral
          zero_neq_numeral list.size(3) One_nat_def numeral_eq_one_iff semiring_norm(83))
    have ffd: "first_free_descriptor (add_descriptors_upto p (p + SLAB_PAGE) a) = dd # x # xs"
      using d Nil by (simp add: add_descriptors_spec page_descs_def)
    have a': "r = Some x" "ps' = ps1" "a' = a\<lparr>first_free_descriptor := xs,
        all_regions := \<lparr>r_desc = dd, r_region = p, region_size = SLAB_PAGE, contains_descriptors = True\<rparr> # all_regions a\<rparr>"
      using run Nil p False ffd by (auto simp: take_descriptor_def add_descriptors_spec)
    have "mset (first_free_descriptor a) + mset (page_descs p) = add_mset dd (add_mset x (mset xs))"
      using Nil d by (metis mset.simps mset_rev add.left_neutral)
    from view_take_page [OF slab_inv_view [OF inv] fresh(1) this] law a' fresh show ?thesis
      by (simp add: regions_used_def region_used_def)
  qed
qed

lemma take_descriptor_fault:
  assumes run: "take_descriptor palloc a ps = Inl e" shows "palloc SLAB_PAGE ps = Inl e"
proof (cases "first_free_descriptor a")
  case (Cons x xs)
  with run show ?thesis by (simp add: take_descriptor_def)
next
  case Nil
  have l: "length (first_free_descriptor (add_descriptors_upto p (p + SLAB_PAGE) a)) = 256" for p
    using Nil page_descs_length [of p] by (simp add: add_descriptors_spec page_descs_def)
  show ?thesis
  proof (cases "palloc SLAB_PAGE ps")
    case (Inl e')
    with run Nil show ?thesis by (simp add: take_descriptor_def)
  next
    case (Inr q)
    obtain p ps1 where q: "q = (p, ps1)" by (cases q)
    obtain u v w where "first_free_descriptor (add_descriptors_upto p (p + SLAB_PAGE) a) = u # v # w"
      using l [of p] by (metis length_0_conv neq_Nil_conv length_Cons Suc_eq_numeral
          zero_neq_numeral list.size(3) One_nat_def numeral_eq_one_iff semiring_norm(83))
    with run Nil Inr q show ?thesis by (simp add: take_descriptor_def Let_def split: if_splits)
  qed
qed


text \<open>Two blocks of the allocator that share a byte are the same.\<close>

lemma same_block:
  assumes "pgood ps" "b1 \<in> blocks ps" "b2 \<in> blocks ps"
    and "fst b1 \<le> x" "x < fst b1 + snd b1" "fst b2 \<le> x" "x < fst b2 + snd b2"
  shows "b1 = b2"
proof (rule ccontr)
  assume "b1 \<noteq> b2"
  then have "{fst b1 ..< fst b1 + snd b1} \<inter> {fst b2 ..< fst b2 + snd b2} = {}"
    using blocks_apart [OF assms(1), of "fst b1" "snd b1" "fst b2" "snd b2"] assms(2,3) by simp
  moreover have "x \<in> {fst b1 ..< fst b1 + snd b1} \<inter> {fst b2 ..< fst b2 + snd b2}" using assms(4-7) by simp
  ultimately show False by blast
qed

lemma same_cache:
  assumes "pgood ps" and inv: "slab_inv (blocks ps) a"
    and "(t, c) \<in> set (tagged a)" "c_region c \<le> x" "x < c_region c + cache_bytes t"
    and "(u, d) \<in> set (tagged a)" "c_region d \<le> x" "x < c_region d + cache_bytes u"
  shows "(t, c) = (u, d)"
proof (rule ccontr)
  assume n: "(t, c) \<noteq> (u, d)"
  have "cblock (t, c) = cblock (u, d)"
    by (rule same_block [OF assms(1) tagged_ok(3) [OF inv assms(3)] tagged_ok(3) [OF inv assms(6)], of x])
      (use assms in \<open>simp_all add: cblock_def\<close>)
  with held_distinct(1) [OF slab_inv_view [OF inv], of "(t, c)" "(u, d)"] n assms(3,6) show False by simp
qed

lemma cache_not_region:
  assumes "pgood ps" and inv: "slab_inv (blocks ps) a"
    and "(t, c) \<in> set (tagged a)" "c_region c \<le> x" "x < c_region c + cache_bytes t"
    and "r \<in> set (all_regions a)" "r_region r \<le> x" "x < r_region r + page_up (region_size r)"
  shows False
proof -
  have "cblock (t, c) = rblock r"
    by (rule same_block [OF assms(1) tagged_ok(3) [OF inv assms(3)] region_ok_in(2) [OF inv assms(6)], of x])
      (use assms in \<open>simp_all add: cblock_def rblock_def\<close>)
  with held_distinct(2) [OF slab_inv_view [OF inv], of "(t, c)" r] assms(3,6) show False by simp
qed

lemma same_region:
  assumes "pgood ps" and inv: "slab_inv (blocks ps) a"
    and "q \<in> set (all_regions a)" "r \<in> set (all_regions a)" "r_region q = r_region r"
  shows "q = r"
proof (rule ccontr)
  assume n: "q \<noteq> r"
  have p: "0 < page_up (region_size q)" "0 < page_up (region_size r)"
    using region_ok_in(2) [OF inv assms(3)] region_ok_in(2) [OF inv assms(4)] blocks_pos [OF assms(1)]
    by (auto simp: rblock_def)
  have "rblock q = rblock r"
    by (rule same_block [OF assms(1) region_ok_in(2) [OF inv assms(3)] region_ok_in(2) [OF inv assms(4)], of "r_region r"])
      (use assms p in \<open>simp_all add: rblock_def\<close>)
  with held_distinct(3) [OF slab_inv_view [OF inv], of q r] n assms(3,4) show False by simp
qed

text \<open>The objects in use do not overlap, and none lies at address zero.\<close>

lemma used_apart:
  assumes good: "pgood ps" and inv: "slab_inv (blocks ps) a"
    and "(x, z) \<in> slab_used a" "(y, w) \<in> slab_used a" "(x, z) \<noteq> (y, w)"
  shows "0 < x" and "{x ..< x + z} \<inter> {y ..< y + w} = {}"
proof -
  show "0 < x" using used_in_block [OF inv assms(3)] blocks_pos [OF good] by fastforce
  show "{x ..< x + z} \<inter> {y ..< y + w} = {}"
    using inv assms(3)
  proof (cases rule: used_cases)
    case tc: (in_cache t c)
    from inv assms(4) show ?thesis
    proof (cases rule: used_cases)
      case (in_cache u d)
      show ?thesis
      proof (cases "(t, c) = (u, d)")
        case True
        then have "x + z \<le> y \<or> y + w \<le> x"
          using tc(2,4) in_cache(2,4) assms(5) strides_apart [of x "c_region c" "obj_size t" "c_region c + cache_bytes t" y]
          by (auto simp: objects_def)
        then show ?thesis by auto
      next
        case False
        have False if "v \<in> {x ..< x + z} \<inter> {y ..< y + w}" for v
          using same_cache [OF good inv tc(1) _ _ in_cache(1), of v] that False tc(5,6) in_cache(5,6) by auto
        then show ?thesis by blast
      qed
    next
      case (in_region r)
      have False if "v \<in> {x ..< x + z} \<inter> {y ..< y + w}" for v
        using cache_not_region [OF good inv tc(1) _ _ in_region(1), of v] that in_region tc(5,6) by auto
      then show ?thesis by blast
    qed
  next
    case rg: (in_region r)
    from inv assms(4) show ?thesis
    proof (cases rule: used_cases)
      case (in_cache u d)
      have False if "v \<in> {x ..< x + z} \<inter> {y ..< y + w}" for v
        using cache_not_region [OF good inv in_cache(1) _ _ rg(1), of v] that in_cache(5,6) rg by auto
      then show ?thesis by blast
    next
      case (in_region q)
      have "r \<noteq> q" using rg(3,4) in_region(3,4) assms(5) by auto
      then have "rblock r \<noteq> rblock q" using held_distinct(3) [OF slab_inv_view [OF inv], of r q] rg(1) in_region(1) by simp
      then have "{x ..< x + page_up z} \<inter> {y ..< y + page_up w} = {}"
        using blocks_apart [OF good, of x "page_up z" y "page_up w"] region_ok_in(2) [OF inv rg(1)]
          region_ok_in(2) [OF inv in_region(1)] rg in_region by (simp add: rblock_def)
      then show ?thesis using rg(5) in_region(5) by fastforce
    qed
  qed
qed

text \<open>A byte of a fresh block starts no object that was in use before.\<close>

lemma used_not_fresh:
  assumes good: "pgood ps" and inv: "slab_inv B a" and fresh: "blocks ps = insert (q, m) B" "(q, m) \<notin> B"
    and x: "q \<le> x" "x < q + m"
  shows "(x, z) \<notin> slab_used a"
proof
  assume "(x, z) \<in> slab_used a"
  from used_in_block [OF inv this] obtain b n where b: "0 < z" "(b, n) \<in> B" "b \<le> x" "x + z \<le> b + n" by blast
  have "(b, n) = (q, m)" by (rule same_block [OF good, of _ _ x]) (use b fresh x in auto)
  with b fresh show False by simp
qed

lemma take_descriptor_inv:
  assumes good: "pgood ps" and inv: "slab_inv (blocks ps) a" and run: "take_descriptor palloc a ps = Inr (Some d, a', ps')"
  shows "slab_inv (blocks ps') (add_free_descriptor d a')" and "slab_used (add_free_descriptor d a') = slab_used a"
proof -
  note ts = take_descriptor_spec [OF good inv run]
  have tg: "tagged a' = tagged a" using ts by (intro tagged_cong) simp_all
  show "slab_inv (blocks ps') (add_free_descriptor d a')"
    using ts inv tg by (simp add: slab_inv_def add_free_descriptor_def tagged_def)
  show "slab_used (add_free_descriptor d a') = slab_used a"
    using ts tg by (simp add: slab_used_parts caches_used_def regions_used_def add_free_descriptor_def tagged_def)
qed

lemma new_cache_spec:
  assumes good: "pgood ps" and inv: "slab_inv (blocks ps) a" and t: "t \<in> set (types a)"
    and run: "new_cache palloc t a ps = Inr (r, a', ps')"
  shows "pgood ps' \<and> types a' = types a \<and> slabs a' = slabs a \<and> ma_self a' = ma_self a \<and> regions_used a' = regions_used a
    \<and> (case r of None \<Rightarrow> slab_inv (blocks ps') a'
       | Some c \<Rightarrow> first_free_obj c = rev (objects t (c_region c)) \<and> n_free_objs c = length (objects t (c_region c))
           \<and> (\<forall>x z. c_region c \<le> x \<longrightarrow> x < c_region c + cache_bytes t \<longrightarrow> (x, z) \<notin> slab_used a)
           \<and> (\<forall>c'. c_desc c' = c_desc c \<longrightarrow> c_region c' = c_region c \<longrightarrow> cache_ok (t, c') \<longrightarrow>
                slab_view (blocks ps') (ma_self a) (types a) (add_mset (t, c') (mset (tagged a)))
                  (mset (all_regions a')) (mset (first_free_descriptor a'))))"
proof -
  obtain d a1 ps1 where td: "take_descriptor palloc a ps = Inr (d, a1, ps1)"
    using run by (auto simp: new_cache_def split: sum.splits)
  note ts = take_descriptor_spec [OF good inv td]
  have tok: "0 < cache_bytes t" "cache_bytes t \<le> 0xFFFFF000" "0 < obj_size t"
    using inv t by (auto simp: slab_inv_def types_ok_def SIZEOF_OBJECT_def)
  have dv: "4096 dvd cache_bytes t" by (simp add: cache_bytes_def SLAB_PAGE_def)
  show ?thesis
  proof (cases d)
    case None
    with run td have "r = None" "a' = a1" "ps' = ps1" by (simp_all add: new_cache_def)
    with ts None inv show ?thesis by simp
  next
    case (Some fcd)
    have v: "slab_view (blocks ps1) (ma_self a) (types a) (mset (tagged a)) (mset (all_regions a1))
        (add_mset fcd (mset (first_free_descriptor a1)))" using ts Some by simp
    obtain p ps2 where p: "palloc (cache_bytes t) ps1 = Inr (p, ps2)"
      using run td Some by (auto simp: new_cache_def split: sum.splits)
    have g1: "pgood ps1" using ts by simp
    note g2 = palloc_good [OF g1 tok(1,2) p]
    have tg: "tagged a1 = tagged a" using ts by (intro tagged_cong) simp_all
    show ?thesis
    proof (cases "p = 0")
      case True
      with run td Some p have r: "r = None" "a' = add_free_descriptor fcd a1" "ps' = ps2"
        by (simp_all add: new_cache_def)
      have "blocks ps2 = blocks ps1" using palloc_none [OF g1 tok(1,2)] p True by simp
      then have "slab_inv (blocks ps') a'"
        using v ts inv tg r by (simp add: slab_inv_def add_free_descriptor_def tagged_def)
      with r g2 ts show ?thesis by (simp add: add_free_descriptor_def regions_used_def)
    next
      case False
      have pu: "page_up (cache_bytes t) = cache_bytes t" by (rule page_up_multiple(2) [OF tok(2) dv])
      have fresh: "(p, cache_bytes t) \<notin> blocks ps1" "blocks ps2 = insert (p, cache_bytes t) (blocks ps1)"
        using palloc_some [OF g1 tok(1,2) p False] by (simp_all add: pu)
      let ?c = "\<lparr>c_desc = fcd, c_region = p, n_free_objs = length (objects t p), first_free_obj = rev (objects t p)\<rparr>"
      have l: "length (objects t p) = cache_bytes t div obj_size t"
        by (simp add: objects_def strides_props [OF tok(3)])
      have r: "r = Some ?c" "a' = a1" "ps' = ps2"
        using run td Some p False l by (simp_all add: new_cache_def cut_objects_spec [OF tok(3)] objects_def)
      have "slab_view (blocks ps2) (ma_self a) (types a) (add_mset (t, c') (mset (tagged a)))
          (mset (all_regions a1)) (mset (first_free_descriptor a1))"
        if "c_desc c' = fcd" "c_region c' = p" "cache_ok (t, c')" for c'
        using view_add_cache [of "blocks ps1" "ma_self a" "types a" "mset (tagged a)" "mset (all_regions a1)" c'
            "mset (first_free_descriptor a1)" t] that v fresh t by (simp add: cblock_def)
      moreover have "(x, z) \<notin> slab_used a" if "p \<le> x" "x < p + cache_bytes t" for x z
        using used_not_fresh [OF g2 take_descriptor_inv(1) [OF good inv td[unfolded Some]] fresh(2,1) that, of z]
          take_descriptor_inv(2) [OF good inv td[unfolded Some]] by simp
      ultimately show ?thesis using r g2 ts by simp
    qed
  qed
qed

lemma new_cache_fault:
  assumes good: "pgood ps" and inv: "slab_inv (blocks ps) a" and t: "t \<in> set (types a)"
    and run: "new_cache palloc t a ps = Inl e"
  shows "provider_fault palloc ps e"
proof (cases "take_descriptor palloc a ps")
  case (Inl e')
  with run have "take_descriptor palloc a ps = Inl e" by (simp add: new_cache_def)
  from take_descriptor_fault [OF this] show ?thesis unfolding provider_fault_def by blast
next
  case (Inr q)
  obtain d a1 ps1 where q: "q = (d, a1, ps1)" by (cases q)
  have o: "0 < obj_size t" using inv t by (auto simp: slab_inv_def types_ok_def SIZEOF_OBJECT_def)
  have "palloc (cache_bytes t) ps1 = Inl e"
    using run Inr q by (auto simp: new_cache_def cut_objects_spec [OF o] strides_props [OF o]
        split: option.splits sum.splits if_splits)
  moreover have "ps1 = ps \<or> (\<exists>p. palloc SLAB_PAGE ps = Inr (p, ps1))"
    using Inr q by (auto simp: take_descriptor_def Let_def split: if_splits sum.splits list.splits)
  ultimately show ?thesis unfolding provider_fault_def by blast
qed

end

end
