(* ===== verification/Slab_Alloc_Free.thy ===== *)
theory Slab_Alloc_Free
  imports Slab_Ops
begin

text \<open>
  Allocation, release and reallocation against the contract of the page provider.
\<close>

context page_provider
begin

text \<open>Popping an object of the \<open>k\<close>th cache of slab \<open>i\<close>.\<close>

lemma pop_from_cache:
  assumes good: "pgood ps" and inv: "slab_inv (blocks ps) a" and i: "i < length (types a)" and k: "k < length (slabs a ! i)"
    and some: "first_free_obj (slabs a ! i ! k) = x # xs"
  shows "\<exists>c'. pop_object (slabs a ! i ! k) = Inr (x, c')
    \<and> slab_inv (blocks ps) (a\<lparr>slabs := (slabs a)[i := (slabs a ! i)[k := c']]\<rparr>)
    \<and> (x, obj_size (types a ! i)) \<notin> slab_used a \<and> x \<noteq> 0
    \<and> slab_used (a\<lparr>slabs := (slabs a)[i := (slabs a ! i)[k := c']]\<rparr>)
        = insert (x, obj_size (types a ! i)) (slab_used a)"
proof -
  let ?t = "types a ! i" and ?c = "slabs a ! i ! k"
  let ?c' = "?c\<lparr>first_free_obj := xs, n_free_objs := length xs\<rparr>"
  let ?a' = "a\<lparr>slabs := (slabs a)[i := (slabs a ! i)[k := ?c']]\<rparr>"
  have len: "length (slabs a) = length (types a)" using inv by (simp add: slab_inv_def)
  have mem: "(?t, ?c) \<in> set (tagged a)" by (rule tagged_member [OF len i k])
  have ok: "distinct (first_free_obj ?c)" "set (first_free_obj ?c) \<subseteq> set (objects ?t (c_region ?c))"
    "n_free_objs ?c = length (first_free_obj ?c)" "length (first_free_obj ?c) \<le> length (objects ?t (c_region ?c))"
    using tagged_ok(2) [OF inv mem] by (simp_all add: cache_ok_def)
  note pop = pop_object_spec [OF ok(3) some]
  note cok = cache_ok_pop [OF ok(1,2) some ok(4) refl]
  obtain C0 where C0: "mset (tagged a) = add_mset (?t, ?c) C0" using mem by (metis mset_add set_mset_mset)
  have C1: "mset (tagged ?a') = add_mset (?t, ?c') C0"
    using tagged_replace [OF len i k, of ?c'] C0 by (simp add: add_mset_commute)
  have inv': "slab_inv (blocks ps) ?a'"
    using view_swap_cache [of "blocks ps" "ma_self a" "types a" ?t ?c C0 _ _ ?c'] slab_inv_view [OF inv] C0 C1 cok(1) inv
    by (simp add: slab_inv_def)
  have x: "x \<in> set (objects ?t (c_region ?c))" using ok(2) some by auto
  have os: "0 < obj_size ?t" using types_pos [OF inv tagged_ok(1) [OF inv mem]] by simp
  note xb = objects_bounds [OF x os]
  have used': "slab_used ?a' = insert (x, obj_size ?t) (slab_used a)"
    using C0 C1 cok(2) x unfolding slab_used_parts caches_used_mset
    by (auto simp: cache_used_def some regions_used_def)
  have new: "(x, obj_size ?t) \<notin> slab_used a"
  proof
    assume "(x, obj_size ?t) \<in> slab_used a"
    with inv show False
    proof (cases rule: used_cases)
      case (in_cache u d)
      have "(?t, ?c) = (u, d)"
        by (rule same_cache [OF good inv mem _ _ in_cache(1), of x]) (use xb os in_cache in auto)
      then show False using in_cache(3) some by auto
    next
      case (in_region r)
      show False by (rule cache_not_region [OF good inv mem _ _ in_region(1), of x]) (use xb os in_region in auto)
    qed
  qed
  have "0 < c_region ?c" using tagged_ok(3) [OF inv mem] blocks_pos [OF good] by (auto simp: cblock_def)
  then have "x \<noteq> 0" using xb(1) by simp
  with pop inv' new used' show ?thesis by blast
qed

text \<open>Serving a request from a slab, from a cache that has room or from a new one.\<close>

lemma slab_caches_ok:
  assumes inv: "slab_inv B a" and i: "i < length (types a)" and c: "c \<in> set (slabs a ! i)"
  shows "n_free_objs c = length (first_free_obj c)"
proof -
  have len: "length (slabs a) = length (types a)" using inv by (simp add: slab_inv_def)
  obtain k where k: "k < length (slabs a ! i)" "c = slabs a ! i ! k" using c by (auto simp: in_set_conv_nth)
  from tagged_ok(2) [OF inv tagged_member [OF len i k(1)]] k(2) show ?thesis by (simp add: cache_ok_def)
qed

lemma slab_alloc_existing:
  assumes good: "pgood ps" and inv: "slab_inv (blocks ps) a"
    and slab: "slab_for sz (types a) = Some i" and found: "find_cache (slabs a ! i) = Inr (Some k)"
  shows "\<exists>x a'. slab_alloc palloc sz a ps = Inr (x, a', ps) \<and> slab_inv (blocks ps) a' \<and> types a' = types a \<and> x \<noteq> 0
    \<and> (x, obj_size (types a ! i)) \<notin> slab_used a \<and> slab_used a' = insert (x, obj_size (types a ! i)) (slab_used a)"
proof -
  have i: "i < length (types a)" using slab_for_spec(1) [OF slab] by simp
  have "k < length (slabs a ! i) \<and> first_free_obj (slabs a ! i ! k) \<noteq> []"
    using find_cache_spec [of "slabs a ! i"] slab_caches_ok [OF inv i] found by auto
  then obtain x xs where "k < length (slabs a ! i)" "first_free_obj (slabs a ! i ! k) = x # xs"
    by (cases "first_free_obj (slabs a ! i ! k)") auto
  from pop_from_cache [OF good inv i this] slab found show ?thesis by (auto simp: slab_alloc_def)
qed

lemma slab_alloc_new:
  assumes good: "pgood ps" and inv: "slab_inv (blocks ps) a"
    and slab: "slab_for sz (types a) = Some i" and full: "find_cache (slabs a ! i) = Inr None"
    and nc: "new_cache palloc (types a ! i) a ps = Inr (Some c, a1, ps1)"
  shows "\<exists>x a'. slab_alloc palloc sz a ps = Inr (x, a', ps1) \<and> pgood ps1 \<and> slab_inv (blocks ps1) a' \<and> types a' = types a
    \<and> x \<noteq> 0 \<and> (x, obj_size (types a ! i)) \<notin> slab_used a \<and> slab_used a' = insert (x, obj_size (types a ! i)) (slab_used a)
    \<and> (\<exists>d. (types a ! i, d) \<in> set (tagged a') \<and> Suc (length (first_free_obj d)) = cache_bytes (types a ! i) div obj_size (types a ! i))"
proof -
  let ?t = "types a ! i"
  have i: "i < length (types a)" using slab_for_spec(1) [OF slab] by simp
  have len: "length (slabs a) = length (types a)" using inv by (simp add: slab_inv_def)
  have ti: "?t \<in> set (types a)" using i by simp
  note ns = new_cache_spec [OF good inv ti nc]
  have os: "0 < obj_size ?t" "0 < cache_bytes ?t" using types_pos [OF inv ti] by auto
  have "obj_size ?t \<le> cache_bytes ?t" using inv ti by (auto simp: slab_inv_def types_ok_def)
  then have "0 < cache_bytes ?t div obj_size ?t" using os(1) div_greater_zero_iff [of "cache_bytes ?t"] by blast
  then have "0 < length (objects ?t (c_region c))"
    using strides_props(2) [OF os(1), of "c_region c" "c_region c + cache_bytes ?t"] by (simp add: objects_def)
  then obtain x xs where xs: "rev (objects ?t (c_region c)) = x # xs" by (cases "rev (objects ?t (c_region c))") auto
  have c: "first_free_obj c = x # xs" "n_free_objs c = length (first_free_obj c)" using ns xs by simp_all
  let ?c' = "c\<lparr>first_free_obj := xs, n_free_objs := length xs\<rparr>"
  have dist: "distinct (first_free_obj c)" "set (first_free_obj c) \<subseteq> set (objects ?t (c_region c))"
    "length (first_free_obj c) \<le> length (objects ?t (c_region c))" "set (first_free_obj c) = set (objects ?t (c_region c))"
    using strides_props(1) [OF os(1)] ns by (simp_all add: objects_def)
  note cok = cache_ok_pop [OF dist(1,2) c(1) dist(3) refl]
  let ?a' = "a1\<lparr>slabs := (slabs a)[i := ?c' # slabs a ! i]\<rparr>"
  have run: "slab_alloc palloc sz a ps = Inr (x, ?a', ps1)"
    using slab full nc pop_object_spec [OF c(2,1)] ns len i by (simp add: slab_alloc_def)
  have tg: "mset (tagged ?a') = add_mset (?t, ?c') (mset (tagged a))"
    using tagged_push [OF len i, of ?c'] ns by (simp add: tagged_def)
  have v: "slab_view (blocks ps1) (ma_self a) (types a) (add_mset (?t, ?c') (mset (tagged a)))
      (mset (all_regions a1)) (mset (first_free_descriptor a1))" using ns cok(1) by simp
  then have inv': "slab_inv (blocks ps1) ?a'" using inv tg ns len by (simp add: slab_inv_def)
  have x: "x \<in> set (objects ?t (c_region c))" using xs by (metis list.set_intros(1) set_rev)
  have used: "slab_used ?a' = insert (x, obj_size ?t) (slab_used a)"
    using tg cok(2) dist(4) ns unfolding slab_used_parts caches_used_mset by (simp add: regions_used_def)
  have new: "(x, obj_size ?t) \<notin> slab_used a" using objects_bounds [OF x os(1)] ns os(1) by simp
  have "x \<noteq> 0" using used_in_block [OF inv', of x "obj_size ?t"] used blocks_pos [of ps1] ns by fastforce
  moreover have "(?t, ?c') \<in> set (tagged ?a')" using tg by (metis set_mset_mset union_single_eq_member)
  moreover have "Suc (length (first_free_obj ?c')) = cache_bytes ?t div obj_size ?t"
    using arg_cong [OF xs, of length] strides_props(2) [OF os(1), of "c_region c" "c_region c + cache_bytes ?t"]
    by (simp add: objects_def)
  moreover have "pgood ps1" "types ?a' = types a" using ns by simp_all
  ultimately show ?thesis using run used new inv' \<open>x \<noteq> 0\<close> by (intro exI [of _ x] exI [of _ ?a'] conjI exI [of _ ?c'])
qed

lemma slab_alloc_direct:
  assumes good: "pgood ps" and inv: "slab_inv (blocks ps) a" and sz: "sz \<le> 0xFFFFF000"
    and slab: "slab_for sz (types a) = None" and run: "slab_alloc palloc sz a ps = Inr (p, a', ps')"
  shows "pgood ps' \<and> slab_inv (blocks ps') a' \<and> types a' = types a
    \<and> (if p = 0 then slab_used a' = slab_used a
       else (p, sz) \<notin> slab_used a \<and> slab_used a' = insert (p, sz) (slab_used a))"
proof -
  have big: "0 < sz" using slab_for_spec(2) [OF slab] inv by (cases "types a") (auto simp: slab_inv_def types_ok_def)
  obtain d a1 ps1 where td: "take_descriptor palloc a ps = Inr (d, a1, ps1)"
    using run slab by (auto simp: slab_alloc_def split: sum.splits)
  note ts = take_descriptor_spec [OF good inv td]
  have tg: "tagged a1 = tagged a" using ts by (intro tagged_cong) simp_all
  show ?thesis
  proof (cases d)
    case no: None
    with run slab td have "p = 0" "a' = a1" "ps' = ps1" by (simp_all add: slab_alloc_def)
    with ts no inv show ?thesis by simp
  next
    case (Some rd)
    note ti = take_descriptor_inv [OF good inv td[unfolded Some]]
    have g1: "pgood ps1" and v: "slab_view (blocks ps1) (ma_self a) (types a) (mset (tagged a)) (mset (all_regions a1))
        (add_mset rd (mset (first_free_descriptor a1)))" using ts Some by simp_all
    obtain q ps2 where q: "palloc sz ps1 = Inr (q, ps2)"
      using run slab td Some by (auto simp: slab_alloc_def split: sum.splits)
    note g2 = palloc_good [OF g1 big sz q]
    show ?thesis
    proof (cases "q = 0")
      case True
      with run slab td Some q have e: "p = 0" "a' = add_free_descriptor rd a1" "ps' = ps2" by (simp_all add: slab_alloc_def)
      have "blocks ps2 = blocks ps1" using palloc_none [OF g1 big sz] q True by simp
      then show ?thesis using e g2 ts ti by (simp add: add_free_descriptor_def)
    next
      case False
      let ?r = "\<lparr>r_desc = rd, r_region = q, region_size = sz, contains_descriptors = False\<rparr>"
      have e: "p = q" "a' = a1\<lparr>all_regions := ?r # all_regions a1\<rparr>" "ps' = ps2"
        using run slab td Some q False by (auto simp: slab_alloc_def)
      have fresh: "(q, page_up sz) \<notin> blocks ps1" "blocks ps2 = insert (q, page_up sz) (blocks ps1)"
        using palloc_some [OF g1 big sz q False] by simp_all
      have "slab_view (blocks ps2) (ma_self a) (types a) (mset (tagged a)) (mset (all_regions a')) (mset (first_free_descriptor a1))"
        using view_add_region [of "blocks ps1" _ _ _ _ ?r] v fresh big sz e by (simp add: rblock_def region_ok_def)
      then have inv': "slab_inv (blocks ps') a'" using ts inv tg e by (simp add: slab_inv_def tagged_def)
      have used: "slab_used a' = insert (q, sz) (slab_used a)"
        using ts tg e by (simp add: slab_used_parts caches_used_def regions_used_def region_used_def tagged_def)
      have "(q, sz) \<notin> slab_used a"
        using used_not_fresh [OF g2 ti(1) fresh(2,1), of q sz] ti(2) big page_up_multiple(1) [OF sz] by simp
      with e used inv' g2 ts False show ?thesis by auto
    qed
  qed
qed

lemma slab_alloc_spec:
  assumes good: "pgood ps" and inv: "slab_inv (blocks ps) a" and sz: "sz \<le> 0xFFFFF000"
    and run: "slab_alloc palloc sz a ps = Inr (p, a', ps')"
  shows "pgood ps' \<and> slab_inv (blocks ps') a' \<and> types a' = types a
    \<and> (if p = 0 then slab_used a' = slab_used a
       else sz \<le> size_for sz (types a) \<and> (p, size_for sz (types a)) \<notin> slab_used a
         \<and> slab_used a' = insert (p, size_for sz (types a)) (slab_used a))"
proof (cases "slab_for sz (types a)")
  case None
  with slab_alloc_direct [OF good inv sz None run] show ?thesis by (simp add: size_for_def)
next
  case (Some i)
  have i: "i < length (types a)" "sz \<le> obj_size (types a ! i)" using slab_for_spec(1) [OF Some] by auto
  have sf: "size_for sz (types a) = obj_size (types a ! i)" using Some by (simp add: size_for_def)
  obtain r where r: "find_cache (slabs a ! i) = Inr r"
    using find_cache_spec [of "slabs a ! i"] slab_caches_ok [OF inv i(1)] by blast
  show ?thesis
  proof (cases r)
    case found: (Some k)
    from slab_alloc_existing [OF good inv Some r[unfolded found]] run good i(2) sf show ?thesis by auto
  next
    case None
    obtain d a1 ps1 where nc: "new_cache palloc (types a ! i) a ps = Inr (d, a1, ps1)"
      using run Some r None by (auto simp: slab_alloc_def split: sum.splits)
    show ?thesis
    proof (cases d)
      case no: None
      have "types a ! i \<in> set (types a)" using i by simp
      note ns = new_cache_spec [OF good inv this nc]
      from run Some r None nc no have e: "p = 0" "a' = a1" "ps' = ps1" by (simp_all add: slab_alloc_def)
      have "caches_used a1 = caches_used a" using ns unfolding caches_used_def by (metis tagged_cong)
      with e ns no show ?thesis by (simp add: slab_used_parts)
    next
      case yes: (Some c)
      from slab_alloc_new [OF good inv Some r[unfolded None] nc[unfolded yes]] run i(2) sf show ?thesis by auto
    qed
  qed
qed

lemma slab_alloc_fault:
  assumes good: "pgood ps" and inv: "slab_inv (blocks ps) a" and run: "slab_alloc palloc sz a ps = Inl e"
  shows "provider_fault palloc ps e"
proof (cases "slab_for sz (types a)")
  case None
  show ?thesis
  proof (cases "take_descriptor palloc a ps")
    case (Inl e')
    with run None have "take_descriptor palloc a ps = Inl e" by (simp add: slab_alloc_def)
    from take_descriptor_fault [OF this] show ?thesis unfolding provider_fault_def by blast
  next
    case (Inr q)
    obtain d a1 ps1 where q: "q = (d, a1, ps1)" by (cases q)
    then have "palloc sz ps1 = Inl e" using run None Inr by (auto simp: slab_alloc_def split: option.splits sum.splits if_splits)
    moreover have "ps1 = ps \<or> (\<exists>p. palloc SLAB_PAGE ps = Inr (p, ps1))"
      using Inr q by (auto simp: take_descriptor_def Let_def split: if_splits sum.splits list.splits)
    ultimately show ?thesis unfolding provider_fault_def by blast
  qed
next
  case (Some i)
  have i: "i < length (types a)" using slab_for_spec(1) [OF Some] by auto
  then have ti: "types a ! i \<in> set (types a)" by simp
  obtain r where r: "find_cache (slabs a ! i) = Inr r"
    using find_cache_spec [of "slabs a ! i"] slab_caches_ok [OF inv i] by blast
  show ?thesis
  proof (cases r)
    case (Some k)
    with slab_alloc_existing [OF good inv \<open>slab_for sz (types a) = Some i\<close>] r run show ?thesis by fastforce
  next
    case None
    show ?thesis
    proof (cases "new_cache palloc (types a ! i) a ps")
      case (Inl e')
      then have "e' = e" using run Some r None by (simp add: slab_alloc_def)
      with new_cache_fault [OF good inv ti] Inl show ?thesis by simp
    next
      case (Inr q)
      obtain d a1 ps1 where q: "q = (d, a1, ps1)" by (cases q)
      show ?thesis
      proof (cases d)
        case None
        with run Some r \<open>r = None\<close> Inr q show ?thesis by (simp add: slab_alloc_def)
      next
        case (Some c)
        from slab_alloc_new [OF good inv \<open>slab_for sz (types a) = Some i\<close> r[unfolded \<open>r = None\<close>] Inr[unfolded q Some]] run
        show ?thesis by auto
      qed
    qed
  qed
qed

text \<open>The search for the cache of an address.\<close>

lemma cache_with_spec:
  "case cache_with x b cs of Some k \<Rightarrow> k < length cs \<and> c_region (cs ! k) \<le> x \<and> x < c_region (cs ! k) + b
   | None \<Rightarrow> \<forall>c \<in> set cs. \<not> (c_region c \<le> x \<and> x < c_region c + b)"
  by (induction cs) (auto split: option.splits)

lemma owner_from_spec:
  "length css = length ts \<Longrightarrow>
   case owner_from x n ts css of
     Some (i, k) \<Rightarrow> n \<le> i \<and> i - n < length ts \<and> k < length (css ! (i - n))
       \<and> c_region (css ! (i - n) ! k) \<le> x \<and> x < c_region (css ! (i - n) ! k) + cache_bytes (ts ! (i - n))
   | None \<Rightarrow> \<forall>i < length ts. \<forall>c \<in> set (css ! i). \<not> (c_region c \<le> x \<and> x < c_region c + cache_bytes (ts ! i))"
proof (induction x n ts css rule: owner_from.induct)
  case (1 x n t ts cs css)
  show ?case
  proof (cases "cache_with x (cache_bytes t) cs")
    case None
    with cache_with_spec [where x = x and b = "cache_bytes t" and cs = cs]
    have no: "\<forall>c \<in> set cs. \<not> (c_region c \<le> x \<and> x < c_region c + cache_bytes t)" by simp
    have l: "length css = length ts" using 1(2) by simp
    show ?thesis
    proof (cases "owner_from x (Suc n) ts css")
      case None
      then have "\<forall>i < length ts. \<forall>c \<in> set (css ! i). \<not> (c_region c \<le> x \<and> x < c_region c + cache_bytes (ts ! i))"
        using 1(1) [OF \<open>cache_with x (cache_bytes t) cs = None\<close> l] by simp
      with no show ?thesis using \<open>cache_with x (cache_bytes t) cs = None\<close> None by (simp add: All_less_Suc2)
    next
      case (Some ik)
      obtain i k where ik: "ik = (i, k)" by (cases ik)
      have h: "Suc n \<le> i" using 1(1) [OF None l] Some ik by simp
      then have "i - n = Suc (i - Suc n)" by simp
      with 1(1) [OF None l] Some ik None h show ?thesis by simp
    qed
  next
    case (Some k)
    with cache_with_spec [where x = x and b = "cache_bytes t" and cs = cs] show ?thesis by simp
  qed
qed simp_all

text \<open>Where the search of \<open>slab_free\<close> and \<open>slab_find_getsize\<close> ends for an object in use.\<close>

lemma owner_of_object:
  assumes good: "pgood ps" and inv: "slab_inv (blocks ps) a"
    and c: "(t, c) \<in> set (tagged a)" "c_region c \<le> x" "x < c_region c + cache_bytes t"
  obtains i k where "owner_from x 0 (types a) (slabs a) = Some (i, k)" "i < length (types a)" "k < length (slabs a ! i)"
    "types a ! i = t" "slabs a ! i ! k = c"
proof -
  have len: "length (slabs a) = length (types a)" using inv by (simp add: slab_inv_def)
  note os = owner_from_spec [OF len, where x = x and n = 0]
  show thesis
  proof (cases "owner_from x 0 (types a) (slabs a)")
    case None
    obtain i k where "i < length (types a)" "k < length (slabs a ! i)" "t = types a ! i" "c = slabs a ! i ! k"
      using tagged_find [OF len c(1)] by blast
    with None os c show thesis by auto
  next
    case (Some ik)
    obtain i k where ik: "ik = (i, k)" by (cases ik)
    have o: "i < length (types a)" "k < length (slabs a ! i)" "c_region (slabs a ! i ! k) \<le> x"
      "x < c_region (slabs a ! i ! k) + cache_bytes (types a ! i)" using os Some ik by simp_all
    have "(types a ! i, slabs a ! i ! k) = (t, c)"
      by (rule same_cache [OF good inv tagged_member [OF len o(1,2)] o(3,4) c])
    with that Some ik o show thesis by simp
  qed
qed

lemma owner_of_region:
  assumes good: "pgood ps" and inv: "slab_inv (blocks ps) a" and r: "r \<in> set (all_regions a)"
  shows "owner_from (r_region r) 0 (types a) (slabs a) = None"
proof (cases "owner_from (r_region r) 0 (types a) (slabs a)")
  case (Some ik)
  obtain i k where ik: "ik = (i, k)" by (cases ik)
  have len: "length (slabs a) = length (types a)" using inv by (simp add: slab_inv_def)
  have o: "i < length (types a)" "k < length (slabs a ! i)" "c_region (slabs a ! i ! k) \<le> r_region r"
      "r_region r < c_region (slabs a ! i ! k) + cache_bytes (types a ! i)"
    using owner_from_spec [OF len, where x = "r_region r" and n = 0] Some ik by simp_all
  have "0 < page_up (region_size r)" using region_ok_in(2) [OF inv r] blocks_pos [OF good] by (auto simp: rblock_def)
  then have False using cache_not_region [OF good inv tagged_member [OF len o(1,2)] o(3,4) r] by simp
  then show ?thesis ..
qed simp

lemma check_free_objs_iff:
  "check_free_objs x b n xs \<longleftrightarrow> x \<notin> set xs \<and> (\<forall>y \<in> set xs. b \<le> y \<and> y < b + n)"
  by (induction xs) auto

lemma free_objs_check:
  assumes inv: "slab_inv B a" and c: "(t, c) \<in> set (tagged a)"
  shows "check_free_objs x (c_region c) (cache_bytes t) (first_free_obj c) \<longleftrightarrow> x \<notin> set (first_free_obj c)"
proof -
  have os: "0 < obj_size t" using types_pos [OF inv tagged_ok(1) [OF inv c]] by simp
  have "set (first_free_obj c) \<subseteq> set (objects t (c_region c))" using tagged_ok(2) [OF inv c] by (simp add: cache_ok_def)
  then show ?thesis using objects_bounds [OF _ os] os by (fastforce simp: check_free_objs_iff)
qed

end

end
