(* ===== verification/Slab_Free.thy ===== *)
theory Slab_Free
  imports Slab_Alloc_Free
begin

text \<open>
  Release, sizes, reallocation, creation and destruction against the contract of the page provider.
\<close>

lemma unlink_region_spec:
  "unlink_region x rs = Some (r, qs) \<Longrightarrow> r_region r = x \<and> mset rs = add_mset r (mset qs)"
  "unlink_region x rs = None \<Longrightarrow> \<forall>r \<in> set rs. r_region r \<noteq> x"
  by (induction rs arbitrary: r qs) (auto split: if_splits option.splits)

lemma cache_once:
  assumes "slab_view B self ts (add_mset y C) R F" shows "y \<notin># C"
proof
  assume "y \<in># C"
  then obtain D where "C = add_mset y D" by (rule mset_add)
  then have "add_mset (cblock y) (add_mset (cblock y) ({#(self, SLAB_PAGE)#} + image_mset cblock D + image_mset rblock R)) = mset_set B"
    using view_held [OF assms] by simp
  then have "2 \<le> count (mset_set B) (cblock y)" by (metis count_add_mset le_add1 add_2_eq_Suc plus_1_eq_Suc one_add_one add.commute)
  moreover have "count (mset_set B) (cblock y) \<le> 1" by (simp add: count_mset_set')
  ultimately show False by simp
qed

lemma full_of_length:
  assumes "distinct (x # xs)" "set (x # xs) \<subseteq> set ys" "distinct ys" "length (x # xs) = length ys"
  shows "set ys = insert x (set xs)"
proof -
  have "card (set (x # xs)) = card (set ys)" using assms by (metis distinct_card)
  then have "set (x # xs) = set ys" by (intro card_subset_eq) (use assms(2) in auto)
  then show ?thesis by auto
qed

lemma free_all_append:
  "free_all ff (xs @ ys) ps = (case free_all ff xs ps of Inl e \<Rightarrow> Inl e | Inr ps1 \<Rightarrow> free_all ff ys ps1)"
  by (induction xs arbitrary: ps) (auto split: sum.splits)

lemma destroy_regions_eq:
  "destroy_regions ff dr rs ps =
     (case free_all ff (map r_region (filter (\<lambda>r. \<not> contains_descriptors r) rs)) ps of
        Inl e \<Rightarrow> Inl e | Inr ps1 \<Rightarrow> Inr (rev (filter contains_descriptors rs) @ dr, ps1))"
  by (induction rs arbitrary: dr ps) (auto split: sum.splits)

lemma stack_and_destroy_eq:
  "distinct (map r_desc rs) \<Longrightarrow> stack_and_destroy_regions ff rs ps = free_all ff (map r_region (rev rs)) ps"
proof (induction rs)
  case (Cons r rs)
  then show ?case
    by (cases rs) (auto simp: free_all_append split: sum.splits)
qed simp

lemma destroy_eq:
  assumes "distinct (map r_desc (all_regions a))"
  shows "destroy_slab_allocator ff a ps = free_all ff (map c_region (concat (slabs a))
    @ map r_region (filter (\<lambda>r. \<not> contains_descriptors r) (all_regions a))
    @ map r_region (filter contains_descriptors (all_regions a)) @ [ma_self a]) ps"
proof -
  have "distinct (map r_desc (rev (filter contains_descriptors (all_regions a))))"
    using distinct_map_filter [OF assms, of contains_descriptors] by (simp add: rev_map [symmetric])
  note st = stack_and_destroy_eq [OF this, of ff]
  show ?thesis
    by (auto simp: destroy_slab_allocator_def destroy_regions_eq free_all_append st split: sum.split)
qed

lemma tagged_caches: "length ts = length css \<Longrightarrow> map snd (concat (map2 (\<lambda>t cs. map (Pair t) cs) ts css)) = concat css"
  by (induction ts css rule: list_induct2) (simp_all add: comp_def)

lemma page_descs_in: "x \<in> set (page_descs p) \<Longrightarrow> p \<le> x \<and> x < p + SLAB_PAGE"
  using strides_props(3) [of SIZEOF_DESCRIPTOR x p "p + SLAB_PAGE"] by (auto simp: page_descs_def SIZEOF_DESCRIPTOR_def)

lemma self_descs_in: "x \<in> set (self_descs p ts) \<Longrightarrow> p \<le> x \<and> x < p + SLAB_PAGE"
  using strides_props(3) [of SIZEOF_DESCRIPTOR x "p + SIZEOF_ALLOCATOR + SIZEOF_SLAB * length ts" "p + SLAB_PAGE"]
  by (auto simp: self_descs_def SIZEOF_DESCRIPTOR_def)

context page_provider
begin

lemma slab_free_cached:
  assumes good: "pgood ps" and inv: "slab_inv (blocks ps) a" and c: "(t, c) \<in> set (tagged a)"
    and x: "x \<in> set (objects t (c_region c))" "x \<notin> set (first_free_obj c)"
  shows "\<exists>a' ps'. slab_free pfree x a ps = Inr (a', ps') \<and> pgood ps' \<and> slab_inv (blocks ps') a' \<and> types a' = types a
    \<and> slab_used a' = slab_used a - {(x, obj_size t)}"
proof -
  have len: "length (slabs a) = length (types a)" using inv by (simp add: slab_inv_def)
  have os: "0 < obj_size t" using types_pos [OF inv tagged_ok(1) [OF inv c]] by simp
  note xb = objects_bounds [OF x(1) os]
  have xlt: "x < c_region c + cache_bytes t" using xb os by simp
  obtain i k where ik: "owner_from x 0 (types a) (slabs a) = Some (i, k)" "i < length (types a)" "k < length (slabs a ! i)"
    "types a ! i = t" "slabs a ! i ! k = c" using owner_of_object [OF good inv c xb(1) xlt] by blast
  have ok: "distinct (first_free_obj c)" "set (first_free_obj c) \<subseteq> set (objects t (c_region c))"
    "n_free_objs c = length (first_free_obj c)" "n_free_objs c < length (objects t (c_region c))"
    using tagged_ok(2) [OF inv c] by (simp_all add: cache_ok_def)
  have tot: "length (objects t (c_region c)) = cache_bytes t div obj_size t" "distinct (objects t (c_region c))"
    using strides_props [OF os] by (simp_all add: objects_def)
  obtain C0 where C0: "mset (tagged a) = add_mset (t, c) C0" using c by (metis mset_add set_mset_mset)
  have v: "slab_view (blocks ps) (ma_self a) (types a) (add_mset (t, c) C0) (mset (all_regions a)) (mset (first_free_descriptor a))"
    using slab_inv_view [OF inv] C0 by simp
  let ?c1 = "c\<lparr>first_free_obj := x # first_free_obj c, n_free_objs := n_free_objs c + 1\<rparr>"
  have run: "slab_free pfree x a ps =
     (if n_free_objs c + 1 = cache_bytes t div obj_size t
      then (case pfree (c_region c) ps of Inl e \<Rightarrow> Inl e
         | Inr ps1 \<Rightarrow> Inr (add_free_descriptor (c_desc c) (a\<lparr>slabs := (slabs a)[i := unlink_at k (slabs a ! i)]\<rparr>), ps1))
      else Inr (a\<lparr>slabs := (slabs a)[i := (slabs a ! i)[k := ?c1]]\<rparr>, ps))"
    using ik x(2) xb(3) free_objs_check [OF inv c, of x] by (simp add: slab_free_def slab_free_object_def)
  show ?thesis
  proof (cases "n_free_objs c + 1 = cache_bytes t div obj_size t")
    case True
    let ?a' = "add_free_descriptor (c_desc c) (a\<lparr>slabs := (slabs a)[i := unlink_at k (slabs a ! i)]\<rparr>)"
    have blk: "(c_region c, cache_bytes t) \<in> blocks ps" using tagged_ok(3) [OF inv c] by (simp add: cblock_def)
    obtain ps1 where p: "pfree (c_region c) ps = Inr ps1" "pgood ps1" "blocks ps1 = blocks ps - {(c_region c, cache_bytes t)}"
      using pfree_law [OF good blk] by blast
    have tg: "mset (tagged ?a') = C0"
      using tagged_unlink [OF len ik(2,3)] ik(4,5) C0 by (simp add: add_free_descriptor_def tagged_def)
    have inv': "slab_inv (blocks ps1) ?a'"
      using view_del_cache [OF v] tg p(3) inv len by (simp add: slab_inv_def add_free_descriptor_def cblock_def)
    have "set (objects t (c_region c)) = insert x (set (first_free_obj c))"
      by (rule full_of_length) (use ok x tot True in auto)
    then have cu: "cache_used (t, c) = {(x, obj_size t)}" using x(2) by (auto simp: cache_used_def)
    have "slab_used a = insert (x, obj_size t) (slab_used ?a')"
      using C0 tg cu unfolding slab_used_parts caches_used_mset by (simp add: regions_used_def add_free_descriptor_def)
    moreover have "(x, obj_size t) \<notin> slab_used ?a'"
      by (rule used_not_fresh [OF good inv', of "c_region c" "cache_bytes t"]) (use blk p(3) xb(1) xlt in auto)
    ultimately have "slab_used ?a' = slab_used a - {(x, obj_size t)}" by simp
    moreover have "slab_free pfree x a ps = Inr (?a', ps1)" using run True p(1) by simp
    ultimately show ?thesis using p(2) inv' by (auto simp: add_free_descriptor_def)
  next
    case False
    let ?a' = "a\<lparr>slabs := (slabs a)[i := (slabs a ! i)[k := ?c1]]\<rparr>"
    have tg: "mset (tagged ?a') = add_mset (t, ?c1) C0"
      using tagged_replace [OF len ik(2,3), of ?c1] ik(4,5) C0 by (simp add: add_mset_commute)
    have cok: "cache_ok (t, ?c1)" using ok x tot False by (auto simp: cache_ok_def)
    have "slab_inv (blocks ps) ?a'"
      using view_swap_cache [OF v cok] tg inv len by (simp add: slab_inv_def)
    moreover have "slab_used ?a' = slab_used a - {(x, obj_size t)}"
    proof -
      have "(x, obj_size t) \<notin> cache_used y" if y: "y \<in># C0" for y
      proof
        assume u: "(x, obj_size t) \<in> cache_used y"
        obtain s d where y2: "y = (s, d)" by (cases y)
        have mem: "(s, d) \<in> set (tagged a)" using C0 y y2 by (metis set_mset_mset union_iff add_mset_add_single)
        have os': "0 < obj_size s" using types_pos [OF inv tagged_ok(1) [OF inv mem]] by simp
        have "x \<in> set (objects s (c_region d))" using u y2 by (auto simp: cache_used_def)
        from objects_bounds [OF this os'] have "(t, c) = (s, d)"
          by (intro same_cache [OF good inv c _ _ mem, of x]) (use xb(1) xlt os' in auto)
        with cache_once [OF v] y y2 show False by simp
      qed
      moreover have "(x, obj_size t) \<notin> regions_used a"
      proof
        assume "(x, obj_size t) \<in> regions_used a"
        then obtain r where r: "r \<in> set (all_regions a)" "r_region r = x"
          by (auto simp: regions_used_def region_used_def split: if_splits)
        have "0 < page_up (region_size r)" using region_ok_in(2) [OF inv r(1)] blocks_pos [OF good] by (auto simp: rblock_def)
        then show False using cache_not_region [OF good inv c xb(1) xlt r(1)] r(2) by simp
      qed
      moreover have "cache_used (t, ?c1) = cache_used (t, c) - {(x, obj_size t)}" by (auto simp: cache_used_def)
      ultimately show ?thesis using C0 tg unfolding slab_used_parts caches_used_mset by (auto simp: regions_used_def)
    qed
    ultimately show ?thesis using run False good by simp
  qed
qed

lemma slab_free_region:
  assumes good: "pgood ps" and inv: "slab_inv (blocks ps) a" and r: "r \<in> set (all_regions a)" "\<not> contains_descriptors r"
  shows "\<exists>a' ps'. slab_free pfree (r_region r) a ps = Inr (a', ps') \<and> pgood ps' \<and> slab_inv (blocks ps') a' \<and> types a' = types a
    \<and> slab_used a' = slab_used a - {(r_region r, region_size r)}"
proof -
  have own: "owner_from (r_region r) 0 (types a) (slabs a) = None" by (rule owner_of_region [OF good inv r(1)])
  have blk: "(r_region r, page_up (region_size r)) \<in> blocks ps" using region_ok_in(2) [OF inv r(1)] by (simp add: rblock_def)
  obtain ps1 where p: "pfree (r_region r) ps = Inr ps1" "pgood ps1"
      "blocks ps1 = blocks ps - {(r_region r, page_up (region_size r))}"
    using pfree_law [OF good blk] by blast
  obtain h rs where hr: "all_regions a = h # rs" using r(1) by (cases "all_regions a") auto
  obtain R' where R': "slab_free pfree (r_region r) a ps = Inr (add_free_descriptor (r_desc r) (a\<lparr>all_regions := R'\<rparr>), ps1)"
    "mset (all_regions a) = add_mset r (mset R')"
  proof (cases "r_region h = r_region r")
    case True
    then have "h = r" using same_region [OF good inv _ r(1), of h] hr by simp
    with that [of rs] own hr p(1) show thesis by (simp add: slab_free_def)
  next
    case False
    then have "r \<in> set rs" using r(1) hr by auto
    then obtain q qs where u: "unlink_region (r_region r) rs = Some (q, qs)"
      using unlink_region_spec(2) [of "r_region r" rs] by fastforce
    note us = unlink_region_spec(1) [OF u]
    have "q \<in> set (all_regions a)" using us hr by (metis list.set_intros(2) set_mset_mset union_single_eq_member)
    then have "q = r" using same_region [OF good inv _ r(1)] us by simp
    with that [of "h # qs"] own hr p(1) u us False r(2) show thesis by (simp add: slab_free_def add_mset_commute)
  qed
  let ?a' = "add_free_descriptor (r_desc r) (a\<lparr>all_regions := R'\<rparr>)"
  have tg: "tagged ?a' = tagged a" by (simp add: tagged_def add_free_descriptor_def)
  have v: "slab_view (blocks ps) (ma_self a) (types a) (mset (tagged a)) (add_mset r (mset R')) (mset (first_free_descriptor a))"
    using slab_inv_view [OF inv] R'(2) by simp
  have inv': "slab_inv (blocks ps1) ?a'"
    using view_del_region [OF v r(2)] tg p(3) inv by (simp add: slab_inv_def add_free_descriptor_def rblock_def)
  have "set (all_regions a) = insert r (set R')" using R'(2) by (metis set_mset_mset set_mset_add_mset_insert)
  then have "slab_used a = insert (r_region r, region_size r) (slab_used ?a')"
    using tg r(2) by (simp add: slab_used_parts caches_used_def regions_used_def region_used_def add_free_descriptor_def)
  moreover have "0 < page_up (region_size r)" using blk blocks_pos [OF good] by auto
  then have "(r_region r, region_size r) \<notin> slab_used ?a'"
    by (intro used_not_fresh [OF good inv', of "r_region r" "page_up (region_size r)"]) (use blk p(3) in auto)
  ultimately have "slab_used ?a' = slab_used a - {(r_region r, region_size r)}" by simp
  then show ?thesis using R'(1) p(2) inv' by (auto simp: add_free_descriptor_def)
qed

lemma slab_free_spec:
  assumes good: "pgood ps" and inv: "slab_inv (blocks ps) a" and u: "(x, z) \<in> slab_used a"
  shows "\<exists>a' ps'. slab_free pfree x a ps = Inr (a', ps') \<and> pgood ps' \<and> slab_inv (blocks ps') a' \<and> types a' = types a
    \<and> slab_used a' = slab_used a - {(x, z)}"
  using inv u
proof (cases rule: used_cases)
  case (in_cache t c)
  from slab_free_cached [OF good inv in_cache(1-3)] in_cache(4) show ?thesis by simp
next
  case (in_region r)
  from slab_free_region [OF good inv in_region(1,2)] in_region(3,4) show ?thesis by simp
qed

lemma slab_getsize_spec:
  assumes good: "pgood ps" and inv: "slab_inv (blocks ps) a" and u: "(x, z) \<in> slab_used a"
  shows "slab_find_getsize x a = Inr z"
  using inv u
proof (cases rule: used_cases)
  case (in_cache t c)
  have os: "0 < obj_size t" using types_pos [OF inv tagged_ok(1) [OF inv in_cache(1)]] by simp
  have "x < c_region c + cache_bytes t" using in_cache os by simp
  then obtain i k where "owner_from x 0 (types a) (slabs a) = Some (i, k)" "types a ! i = t" "slabs a ! i ! k = c"
    using owner_of_object [OF good inv in_cache(1,5)] by blast
  with objects_bounds(3) [OF in_cache(2) os] in_cache(4) show ?thesis by (simp add: slab_find_getsize_def)
next
  case (in_region r)
  have own: "owner_from x 0 (types a) (slabs a) = None" using owner_of_region [OF good inv in_region(1)] in_region(3) by simp
  have "find (\<lambda>r. r_region r = x) (all_regions a) \<noteq> None" using in_region(1,3) by (auto simp: find_None_iff)
  then obtain q where q: "find (\<lambda>r. r_region r = x) (all_regions a) = Some q" by auto
  then have "q \<in> set (all_regions a)" "r_region q = x" by (auto simp: find_Some_iff)
  then have "q = r" using same_region [OF good inv _ in_region(1)] in_region(3) by simp
  with own q in_region(4) show ?thesis by (simp add: slab_find_getsize_def)
qed

text \<open>A second release of an object that is on a free list stops the machine.\<close>

lemma slab_double_free:
  assumes good: "pgood ps" and inv: "slab_inv (blocks ps) a" and c: "(t, c) \<in> set (tagged a)" and x: "x \<in> set (first_free_obj c)"
  shows "slab_free pfree x a ps = Inl Assert_failed"
proof -
  have os: "0 < obj_size t" using types_pos [OF inv tagged_ok(1) [OF inv c]] by simp
  have "x \<in> set (objects t (c_region c))" using tagged_ok(2) [OF inv c] x by (auto simp: cache_ok_def)
  note xb = objects_bounds [OF this os]
  have "x < c_region c + cache_bytes t" using xb os by simp
  then obtain i k where "owner_from x 0 (types a) (slabs a) = Some (i, k)" "types a ! i = t" "slabs a ! i ! k = c"
    using owner_of_object [OF good inv c xb(1)] by blast
  with x xb free_objs_check [OF inv c, of x] show ?thesis by (simp add: slab_free_def slab_free_object_def)
qed

text \<open>Reallocation: the old object stays, or the new one replaces it and gets a copy of the part that fits
  both.\<close>

lemma slab_realloc_spec:
  assumes good: "pgood ps" and inv: "slab_inv (blocks ps) a" and u: "(x, z) \<in> slab_used a"
    and sz: "0 < sz" "sz \<le> 0xFFFFF000" and run: "slab_realloc palloc pfree x sz a ps = Inr (p, cp, a', ps')"
  shows "pgood ps' \<and> slab_inv (blocks ps') a'
    \<and> (if p = 0 then cp = None \<and> slab_used a' = slab_used a
       else if cp = None then p = x \<and> sz \<le> z \<and> slab_used a' = slab_used a
       else cp = Some (p, x, min z sz) \<and> sz \<le> size_for sz (types a) \<and> (p, size_for sz (types a)) \<notin> slab_used a
         \<and> {x ..< x + min z sz} \<inter> {p ..< p + min z sz} = {}
         \<and> slab_used a' = insert (p, size_for sz (types a)) (slab_used a - {(x, z)}))"
proof -
  have x0: "x \<noteq> 0" using used_in_block [OF inv u] blocks_pos [OF good] by fastforce
  note gs = slab_getsize_spec [OF good inv u]
  show ?thesis
  proof (cases "z = size_for sz (types a)")
    case True
    have "sz \<le> size_for sz (types a)" using slab_for_spec(1) by (auto simp: size_for_def split: option.splits)
    with run x0 sz gs True good inv show ?thesis by (simp add: slab_realloc_def)
  next
    case False
    obtain q a1 ps1 where al: "slab_alloc palloc sz a ps = Inr (q, a1, ps1)"
      using run x0 sz gs False by (auto simp: slab_realloc_def split: sum.splits)
    note as = slab_alloc_spec [OF good inv sz(2) al]
    show ?thesis
    proof (cases "q = 0")
      case True
      with run x0 sz gs False al as show ?thesis by (auto simp: slab_realloc_def)
    next
      case q: False
      have g1: "pgood ps1" and i1: "slab_inv (blocks ps1) a1" and u1: "(x, z) \<in> slab_used a1" using as q u by auto
      obtain a2 ps2 where fr: "slab_free pfree x a1 ps1 = Inr (a2, ps2)" "pgood ps2" "slab_inv (blocks ps2) a2"
        "slab_used a2 = slab_used a1 - {(x, z)}" using slab_free_spec [OF g1 i1 u1] by blast
      have e: "p = q" "cp = Some (q, x, min z sz)" "a' = a2" "ps' = ps2"
        using run x0 sz gs False al q fr(1) by (auto simp: slab_realloc_def min_def)
      have n: "(q, size_for sz (types a)) \<in> slab_used a1" "(x, z) \<noteq> (q, size_for sz (types a))" using as q u by auto
      have "{x ..< x + z} \<inter> {q ..< q + size_for sz (types a)} = {}" by (rule used_apart(2) [OF g1 i1 u1 n])
      moreover have "sz \<le> size_for sz (types a)" using as q by simp
      ultimately have "{x ..< x + min z sz} \<inter> {q ..< q + min z sz} = {}" by fastforce
      moreover have "slab_used a2 = insert (q, size_for sz (types a)) (slab_used a - {(x, z)})"
        using fr(4) as q n(2) by auto
      ultimately show ?thesis using e fr(2,3) as q by simp
    qed
  qed
qed

lemma create_spec:
  assumes good: "pgood ps" and none: "blocks ps = {}" and ts: "types_ok ts"
    and run: "create_slab_allocator ts palloc ps = Inr (r, ps')"
  shows "pgood ps' \<and> (case r of None \<Rightarrow> blocks ps' = {}
    | Some a \<Rightarrow> slab_inv (blocks ps') a \<and> types a = ts \<and> slab_used a = {})"
proof -
  obtain p ps1 where p: "palloc SLAB_PAGE ps = Inr (p, ps1)"
    using run by (auto simp: create_slab_allocator_def split: sum.splits)
  note law = palloc_good [OF good page_size_ok(1,2) p]
  show ?thesis
  proof (cases "p = 0")
    case True
    with run p law palloc_none [OF good page_size_ok(1,2)] none show ?thesis by (auto simp: create_slab_allocator_def)
  next
    case False
    have b: "blocks ps1 = {(p, SLAB_PAGE)}" using palloc_some [OF good page_size_ok(1,2) p False] none by (simp add: page_size_ok(3))
    define a where "a = \<lparr>ma_self = p, types = ts, slabs = replicate (length ts) [],
        first_free_descriptor = rev (self_descs p ts), all_regions = []\<rparr>"
    have "\<not> (\<exists>t \<in> set ts. \<not> obj_size t \<ge> SIZEOF_OBJECT)" using ts by (simp add: types_ok_def)
    then have e: "r = Some a" "ps' = ps1"
      using run p False by (simp_all add: create_slab_allocator_def add_descriptors_spec self_descs_def a_def)
    have tg: "tagged a = []" by (auto simp: tagged_def a_def set_zip)
    have "slab_inv (blocks ps1) a" using ts b tg
      by (simp add: slab_inv_def slab_view_def held_def desc_use_def desc_supply_def a_def)
    moreover have "slab_used a = {}" using tg by (simp add: slab_used_def a_def)
    ultimately show ?thesis using e law by (simp add: a_def)
  qed
qed

lemma free_all_spec:
  assumes "pgood ps" "mset (map fst bs) = mset qs" "mset bs + M = mset_set (blocks ps)"
  shows "\<exists>ps'. free_all pfree qs ps = Inr ps' \<and> pgood ps' \<and> M = mset_set (blocks ps')"
  using assms
proof (induction qs arbitrary: ps bs)
  case (Cons q qs)
  obtain b where b: "b \<in> set bs" "fst b = q"
    using Cons.prems(2) by (metis image_iff list.set_intros(1) list.set_map set_mset_mset)
  have "b \<in># mset_set (blocks ps)" using Cons.prems(3) b(1) by (metis set_mset_mset union_iff)
  then have fin: "b \<in> blocks ps" using blocks_finite [OF Cons.prems(1)] by simp
  then obtain ps1 where p: "pfree q ps = Inr ps1" "pgood ps1" "blocks ps1 = blocks ps - {b}"
    using pfree_law [OF Cons.prems(1), of "fst b" "snd b"] b(2) by auto
  have "mset bs = add_mset b (mset (remove1 b bs))" using b(1) by simp
  moreover have "mset_set (blocks ps) = add_mset b (mset_set (blocks ps1))"
    using mset_set.remove [OF blocks_finite [OF Cons.prems(1)] fin] p(3) by simp
  ultimately have "add_mset b (mset (remove1 b bs) + M) = add_mset b (mset_set (blocks ps1))"
    using Cons.prems(3) by (metis union_mset_add_mset_left)
  then have m: "mset (remove1 b bs) + M = mset_set (blocks ps1)" by (simp only: add_mset_add_mset_same_iff)
  have "mset (map fst (remove1 b bs)) = mset qs"
  proof -
    have "add_mset (fst b) (image_mset fst (mset (remove1 b bs))) = add_mset q (mset qs)"
      using arg_cong [OF \<open>mset bs = add_mset b (mset (remove1 b bs))\<close>, of "image_mset fst"] Cons.prems(2) by simp
    then show ?thesis using b(2) by simp
  qed
  from Cons.IH [OF p(2) this m] p(1) show ?case by simp
qed simp

text \<open>No two descriptors in use have the same address.\<close>

lemma supply_distinct:
  assumes good: "pgood ps" and v: "slab_view (blocks ps) self ts C (mset rs) F"
    and rs: "\<forall>r \<in> set rs. contains_descriptors r \<longrightarrow> region_size r = SLAB_PAGE"
  shows "distinct (self_descs self ts @ concat (map (\<lambda>r. page_descs (r_region r)) (filter contains_descriptors rs)))"
proof -
  have ps': "page_up SLAB_PAGE = SLAB_PAGE" by (rule page_size_ok(3))
  have dr: "\<forall>r \<in> set (filter contains_descriptors rs). rblock r = (r_region r, SLAB_PAGE)"
    using rs ps' by (simp add: rblock_def)
  have self: "set (self_descs self ts) \<inter> set (page_descs (r_region r)) = {}" if r: "r \<in> set (filter contains_descriptors rs)" for r
  proof -
    have "rblock r \<noteq> (self, SLAB_PAGE)" "rblock r \<in> blocks ps" using held_distinct(5) [OF v, of r] region_block_in [OF v, of r] r by auto
    then have "{r_region r ..< r_region r + SLAB_PAGE} \<inter> {self ..< self + SLAB_PAGE} = {}"
      using blocks_apart [OF good _ self_block_in [OF v], of "r_region r" SLAB_PAGE] dr r by auto
    then show ?thesis using page_descs_in self_descs_in by fastforce
  qed
  have tail: "distinct (concat (map (\<lambda>r. page_descs (r_region r)) (filter contains_descriptors qs)))" if "\<exists>us. rs = us @ qs" for qs
    using that
  proof (induction qs)
    case (Cons q qs)
    then obtain us where us: "rs = us @ q # qs" by blast
    then have ih: "distinct (concat (map (\<lambda>r. page_descs (r_region r)) (filter contains_descriptors qs)))"
      using Cons.IH by (metis append.assoc append_Cons append_Nil)
    have "set (page_descs (r_region q)) \<inter> set (page_descs (r_region r)) = {}"
      if q: "contains_descriptors q" and r: "r \<in> set (filter contains_descriptors qs)" for r
    proof -
      have m: "mset rs = add_mset q (mset us + mset qs)" using us by simp
      have "{#(self, SLAB_PAGE)#} + image_mset cblock C + image_mset rblock (mset rs) = mset_set (blocks ps)" by (rule view_held [OF v])
      then have h: "image_mset rblock (mset us + mset qs) + add_mset (rblock q) ({#(self, SLAB_PAGE)#} + image_mset cblock C) = mset_set (blocks ps)"
        unfolding m by (simp add: ac_simps)
      have "rblock r \<in># image_mset rblock (mset us + mset qs)" using r by auto
      from set_parts [OF h held_finite [OF v] this, of "rblock q"]
      have "rblock r \<in> blocks ps" "rblock q \<in> blocks ps" "rblock r \<noteq> rblock q" by auto
      then have "{r_region q ..< r_region q + SLAB_PAGE} \<inter> {r_region r ..< r_region r + SLAB_PAGE} = {}"
        using blocks_apart [OF good, of "r_region q" SLAB_PAGE "r_region r" SLAB_PAGE] dr r q us by auto
      then show ?thesis using page_descs_in by fastforce
    qed
    moreover have "distinct (page_descs (r_region q))"
      unfolding page_descs_def by (rule strides_props(1)) (simp add: SIZEOF_DESCRIPTOR_def)
    ultimately show ?case using ih by auto
  qed simp
  have "distinct (self_descs self ts)" unfolding self_descs_def by (rule strides_props(1)) (simp add: SIZEOF_DESCRIPTOR_def)
  with tail [of rs] self show ?thesis by auto
qed

lemma region_descs_distinct:
  assumes good: "pgood ps" and inv: "slab_inv (blocks ps) a"
  shows "distinct (map r_desc (all_regions a))"
proof -
  let ?L = "first_free_descriptor a @ map (\<lambda>(t, c). c_desc c) (tagged a) @ map r_desc (all_regions a)"
  note v = slab_inv_view [OF inv]
  have rs: "\<forall>r \<in> set (all_regions a). contains_descriptors r \<longrightarrow> region_size r = SLAB_PAGE"
    using region_ok_in(1) [OF inv] by (simp add: region_ok_def)
  have sum: "(\<Sum>r \<in># mset qs. mset (page_descs (r_region r))) = mset (concat (map (\<lambda>r. page_descs (r_region r)) qs))" for qs
    by (induction qs) simp_all
  have "mset ?L = mset (self_descs (ma_self a) (types a) @ concat (map (\<lambda>r. page_descs (r_region r)) (filter contains_descriptors (all_regions a))))"
    using v sum [of "filter contains_descriptors (all_regions a)"]
    by (simp add: slab_view_def desc_use_def desc_supply_def add.assoc)
  then have "distinct ?L" using supply_distinct [OF good v rs] mset_eq_imp_distinct_iff by blast
  then show ?thesis by simp
qed

lemma destroy_spec:
  assumes good: "pgood ps" and inv: "slab_inv (blocks ps) a"
  shows "\<exists>ps'. destroy_slab_allocator pfree a ps = Inr ps' \<and> pgood ps' \<and> blocks ps' = {}"
proof -
  let ?bs = "map cblock (tagged a) @ map rblock (all_regions a) @ [(ma_self a, SLAB_PAGE)]"
  let ?qs = "map c_region (concat (slabs a)) @ map r_region (filter (\<lambda>r. \<not> contains_descriptors r) (all_regions a))
    @ map r_region (filter contains_descriptors (all_regions a)) @ [ma_self a]"
  have len: "length (types a) = length (slabs a)" using inv by (simp add: slab_inv_def)
  have "mset ?bs + {#} = mset_set (blocks ps)" using view_held [OF slab_inv_view [OF inv]] by (simp add: ac_simps)
  moreover have "mset (map fst ?bs) = mset ?qs"
  proof -
    have "map fst (map cblock (tagged a)) = map c_region (map snd (tagged a))" by (simp add: cblock_def case_prod_beta comp_def)
    then have c: "map fst (map cblock (tagged a)) = map c_region (concat (slabs a))"
      unfolding tagged_def tagged_caches [OF len] .
    have "mset (all_regions a) = mset (filter (\<lambda>r. \<not> contains_descriptors r) (all_regions a)) + mset (filter contains_descriptors (all_regions a))"
      using multiset_partition [of "mset (all_regions a)" contains_descriptors] by (simp add: add.commute)
    then have "image_mset r_region (mset (all_regions a)) = image_mset r_region (mset (filter (\<lambda>r. \<not> contains_descriptors r) (all_regions a))
        + mset (filter contains_descriptors (all_regions a)))" by (rule arg_cong)
    then have "mset (map r_region (all_regions a)) = mset (map r_region (filter (\<lambda>r. \<not> contains_descriptors r) (all_regions a)))
        + mset (map r_region (filter contains_descriptors (all_regions a)))" by (simp only: mset_map image_mset_union)
    moreover have "map fst (map rblock (all_regions a)) = map r_region (all_regions a)" by (simp add: rblock_def)
    ultimately show ?thesis using c by (simp del: map_map)
  qed
  ultimately obtain ps' where ps': "free_all pfree ?qs ps = Inr ps'" "pgood ps'" "{#} = mset_set (blocks ps')"
    using free_all_spec [OF good, of ?bs ?qs "{#}"] by blast
  then have "blocks ps' = {}" using blocks_finite by (metis mset_set_empty_iff)
  with ps' destroy_eq [OF region_descs_distinct [OF good inv], of pfree ps] show ?thesis by auto
qed

end

end
