(* ===== verification/Proto_Fs.thy ===== *)
theory Proto_Fs
  imports Kogata_Base
begin

text \<open>
  The constants shared by the kernel and user programs: file types and modes (src/common/include/proto/fs.h)
  and mapping modes (src/common/include/proto/mmap.h), as 32-bit flag words; and the record that
  \<open>stat\<close> fills.
\<close>

definition FT_REGULAR :: u32 where "FT_REGULAR = 0"
definition FT_DIR :: u32 where "FT_DIR = 0x01"
definition FT_DEV :: u32 where "FT_DEV = 0x02"
definition FT_BLOCKDEV :: u32 where "FT_BLOCKDEV = 0x04"
definition FT_CHARDEV :: u32 where "FT_CHARDEV = 0x08"
definition FT_CHANNEL :: u32 where "FT_CHANNEL = 0x10"
definition FT_FRAMEBUFFER :: u32 where "FT_FRAMEBUFFER = 0x20"

definition FM_READ :: u32 where "FM_READ = 0x01"
definition FM_WRITE :: u32 where "FM_WRITE = 0x02"
definition FM_READDIR :: u32 where "FM_READDIR = 0x04"
definition FM_MMAP :: u32 where "FM_MMAP = 0x08"
definition FM_CREATE :: u32 where "FM_CREATE = 0x10"
definition FM_TRUNC :: u32 where "FM_TRUNC = 0x20"
definition FM_APPEND :: u32 where "FM_APPEND = 0x40"
definition FM_IOCTL :: u32 where "FM_IOCTL = 0x100"
definition FM_BLOCKING :: u32 where "FM_BLOCKING = 0x200"
definition FM_DCREATE :: u32 where "FM_DCREATE = 0x1000"
definition FM_DMOVE :: u32 where "FM_DMOVE = 0x2000"
definition FM_DDELETE :: u32 where "FM_DDELETE = 0x4000"
definition FM_ALL_MODES :: u32 where "FM_ALL_MODES = 0xFFFF"

definition DIR_MAX :: nat where "DIR_MAX = 128"

definition SEL_READ :: u32 where "SEL_READ = 0x01"
definition SEL_WRITE :: u32 where "SEL_WRITE = 0x02"
definition SEL_ERROR :: u32 where "SEL_ERROR = 0x04"

definition MM_READ :: u32 where "MM_READ = 0x01"
definition MM_WRITE :: u32 where "MM_WRITE = 0x02"
definition MM_EXEC :: u32 where "MM_EXEC = 0x04"

lemmas fs_flags = FT_REGULAR_def FT_DIR_def FT_DEV_def FT_BLOCKDEV_def FT_CHARDEV_def FT_CHANNEL_def
  FT_FRAMEBUFFER_def FM_READ_def FM_WRITE_def FM_READDIR_def FM_MMAP_def FM_CREATE_def FM_TRUNC_def
  FM_APPEND_def FM_IOCTL_def FM_BLOCKING_def FM_DCREATE_def FM_DMOVE_def FM_DDELETE_def FM_ALL_MODES_def
  SEL_READ_def SEL_WRITE_def SEL_ERROR_def MM_READ_def MM_WRITE_def MM_EXEC_def

record stat_t =
  st_type :: u32
  st_access :: u32
  st_size :: nat

text \<open>C's \<open>mode & flag\<close> as a condition, and \<open>mode & ~allowed\<close>.\<close>

definition has_flag :: "u32 \<Rightarrow> u32 \<Rightarrow> bool" where
  "has_flag mode flag \<longleftrightarrow> mode AND flag \<noteq> 0"

definition beyond :: "u32 \<Rightarrow> u32 \<Rightarrow> bool" where
  "beyond mode allowed \<longleftrightarrow> mode AND NOT allowed \<noteq> 0"

lemma not_beyond_iff: "\<not> beyond mode allowed \<longleftrightarrow> (\<forall>i. bit mode i \<longrightarrow> bit allowed i)"
proof -
  have "\<not> beyond mode allowed \<longleftrightarrow> (\<forall>i. \<not> bit (mode AND NOT allowed) i)"
    unfolding beyond_def by (metis bit_0_eq bit_eqI bot_apply bot_bool_def)
  also have "\<dots> \<longleftrightarrow> (\<forall>i. bit mode i \<longrightarrow> bit allowed i)"
    using bit_imp_le_length [of mode] by (auto simp: bit_simps)
  finally show ?thesis .
qed

lemma not_beyond_trans: "\<not> beyond a b \<Longrightarrow> \<not> beyond b c \<Longrightarrow> \<not> beyond a c"
  by (simp add: not_beyond_iff)

end
