(* ===== verification/Malloc.thy ===== *)
theory Malloc
  imports Slab_Free Region_Props Proto_Fs
begin

text \<open>
  The \<open>malloc\<close> of user programs (src/lib/libc/malloc.c): a slab allocator whose pages come from a region
  allocator over the process's heap range, each region mapped by a system call. Whether the kernel grants a
  mapping is a parameter; the mappings in force are part of the state.
\<close>

section \<open>The code\<close>

record user_heap =
  uh_regions :: region_state
  uh_maps :: "nat set"

type_synonym sc_mmap = "nat \<Rightarrow> nat \<Rightarrow> u32 \<Rightarrow> bool"

definition mmap_single_page :: "sc_mmap \<Rightarrow> nat \<Rightarrow> bool" where
  "mmap_single_page mmap addr = mmap addr 4096 (MM_READ OR MM_WRITE)"

definition heap_alloc_pages :: "sc_mmap \<Rightarrow> nat \<Rightarrow> user_heap \<Rightarrow> (nat \<times> user_heap) res" where
  "heap_alloc_pages mmap s h =
     (case region_alloc (mmap_single_page mmap) s ''Heap'' (uh_regions h) of
        Inl e \<Rightarrow> Inl e
      | Inr (addr, r1) \<Rightarrow>
          if addr = 0 then Inr (0, h\<lparr>uh_regions := r1\<rparr>)
          else if \<not> mmap addr s (FM_READ OR FM_WRITE) then
            (case region_free addr r1 of Inl e \<Rightarrow> Inl e | Inr r2 \<Rightarrow> Inr (0, h\<lparr>uh_regions := r2\<rparr>))
          else Inr (addr, h\<lparr>uh_regions := r1, uh_maps := insert addr (uh_maps h)\<rparr>))"

definition heap_free_pages :: "nat \<Rightarrow> user_heap \<Rightarrow> user_heap res" where
  "heap_free_pages addr h =
     (case region_free addr (uh_regions h) of
        Inl e \<Rightarrow> Inl e
      | Inr r1 \<Rightarrow> Inr (h\<lparr>uh_regions := r1, uh_maps := uh_maps h - {addr}\<rparr>))"

definition slab_sizes :: "slab_type list" where
  "slab_sizes =
     [\<lparr>descr = ''8B malloc objects'', obj_size = 8, pages_per_cache = 2\<rparr>,
      \<lparr>descr = ''16B malloc objects'', obj_size = 16, pages_per_cache = 4\<rparr>,
      \<lparr>descr = ''32B malloc objects'', obj_size = 32, pages_per_cache = 4\<rparr>,
      \<lparr>descr = ''64B malloc objects'', obj_size = 64, pages_per_cache = 4\<rparr>,
      \<lparr>descr = ''128B malloc objects'', obj_size = 128, pages_per_cache = 8\<rparr>,
      \<lparr>descr = ''256B malloc objects'', obj_size = 256, pages_per_cache = 8\<rparr>,
      \<lparr>descr = ''512B malloc objects'', obj_size = 512, pages_per_cache = 8\<rparr>,
      \<lparr>descr = ''1KB malloc objects'', obj_size = 1024, pages_per_cache = 16\<rparr>,
      \<lparr>descr = ''2KB malloc objects'', obj_size = 2048, pages_per_cache = 16\<rparr>,
      \<lparr>descr = ''4KB malloc objects'', obj_size = 4096, pages_per_cache = 16\<rparr>]"

text \<open>The state of the library: the allocator and the heap it takes pages from.\<close>

type_synonym malloc_state = "mem_allocator \<times> user_heap"

definition malloc_setup :: "sc_mmap \<Rightarrow> malloc_state res" where
  "malloc_setup mmap =
     (case region_allocator_init 0x40000000 0x40000000 0xB0000000 of
        Inl e \<Rightarrow> Inl e
      | Inr r \<Rightarrow>
          (case create_slab_allocator slab_sizes (heap_alloc_pages mmap) \<lparr>uh_regions = r, uh_maps = {}\<rparr> of
             Inl e \<Rightarrow> Inl e
           | Inr (None, h) \<Rightarrow> Inl Assert_failed
           | Inr (Some a, h) \<Rightarrow> Inr (a, h)))"

definition malloc :: "sc_mmap \<Rightarrow> nat \<Rightarrow> malloc_state \<Rightarrow> (nat \<times> malloc_state) res" where
  "malloc mmap sz st =
     (if sz = 0 then Inr (0, st)
      else case slab_alloc (heap_alloc_pages mmap) sz (fst st) (snd st) of
             Inl e \<Rightarrow> Inl e
           | Inr (p, a, h) \<Rightarrow> Inr (p, a, h))"

text \<open>\<open>calloc\<close> also answers the area it clears (address and length), if any.\<close>

definition calloc :: "sc_mmap \<Rightarrow> nat \<Rightarrow> nat \<Rightarrow> malloc_state \<Rightarrow> (nat \<times> (nat \<times> nat) option \<times> malloc_state) res" where
  "calloc mmap nmemb sz st =
     (let bytes = nmemb * sz mod 2 ^ 32
      in case malloc mmap bytes st of
           Inl e \<Rightarrow> Inl e
         | Inr (r, st1) \<Rightarrow> Inr (r, if r \<noteq> 0 then Some (r, bytes) else None, st1))"

definition realloc ::
  "sc_mmap \<Rightarrow> nat \<Rightarrow> nat \<Rightarrow> malloc_state \<Rightarrow> (nat \<times> (nat \<times> nat \<times> nat) option \<times> malloc_state) res" where
  "realloc mmap ptr sz st =
     (case slab_realloc (heap_alloc_pages mmap) heap_free_pages ptr sz (fst st) (snd st) of
        Inl e \<Rightarrow> Inl e
      | Inr (p, cp, a, h) \<Rightarrow> Inr (p, cp, a, h))"

definition free :: "nat \<Rightarrow> malloc_state \<Rightarrow> malloc_state res" where
  "free ptr st =
     (if ptr = 0 then Inr st
      else case slab_free heap_free_pages ptr (fst st) (snd st) of Inl e \<Rightarrow> Inl e | Inr (a, h) \<Rightarrow> Inr (a, h))"

section \<open>The heap range as a page provider\<close>

text \<open>No region of the heap holds descriptors of the region allocator: those lie in regions of their own.\<close>

definition region_clean :: "region_state \<Rightarrow> bool" where
  "region_clean s \<longleftrightarrow> (\<forall>(a, z, t) \<in> used_tab s. t = ''Heap'' \<longrightarrow> descriptors s \<inter> {a ..< a + z} = {})"

definition heap_blocks :: "user_heap \<Rightarrow> (nat \<times> nat) set" where
  "heap_blocks h = {(a, z). (a, z, ''Heap'') \<in> used_tab (uh_regions h)}"

definition heap_good :: "user_heap \<Rightarrow> bool" where
  "heap_good h \<longleftrightarrow> ra_good 0x40000000 0xB0000000 (uh_regions h) \<and> region_clean (uh_regions h)
     \<and> uh_maps h = fst ` heap_blocks h"

lemma used_tab_apart:
  assumes inv: "ra_inv b e s" and "(a, z, t) \<in> used_tab s" "(a', z', t') \<in> used_tab s" "(a, z, t) \<noteq> (a', z', t')"
  shows "{a ..< a + z} \<inter> {a' ..< a' + z'} = {}"
proof -
  obtain d d' where d: "d \<in> set (ra_used s)" "a = ra_addr s d" "z = ra_size s d" "t = ra_type s d"
    "d' \<in> set (ra_used s)" "a' = ra_addr s d'" "z' = ra_size s d'" "t' = ra_type s d'"
    using assms(2,3) by (auto simp: used_tab_def)
  then have "d \<noteq> d'" using assms(4) by auto
  from used_disjoint [OF inv d(1,5) this] d show ?thesis by (simp add: region_bytes_def)
qed

lemma used_tab_bounds:
  assumes inv: "ra_inv b e s" and "(a, z, t) \<in> used_tab s" shows "0 < z \<and> 4096 dvd a \<and> 4096 dvd z \<and> b \<le> a \<and> a + z \<le> e \<and> 4096 \<le> b"
  using assms(2) bounds_used [OF inv] by (auto simp: used_tab_def)

lemma used_tab_finite: "finite (used_tab s)"
  by (simp add: used_tab_def)

lemma region_alloc_clean:
  assumes good: "ra_good b e s" "region_clean s" and good': "ra_good b e s'"
    and desc: "descriptors s' \<subseteq> descriptors s \<union> (\<Union>(p, z, t) \<in> extra. {p ..< p + z})"
    and extra: "extra = {} \<or> (\<exists>p. extra = {(p, 4096, ''Region descriptors'')})"
    and tab: "used_tab s' = insert (r, w, ty) (used_tab s \<union> extra) \<and> {r ..< r + w} \<subseteq> {b ..< e} - used_space s
      \<or> used_tab s' = used_tab s \<union> extra"
  shows "region_clean s'"
  unfolding region_clean_def
proof clarify
  fix a z assume h: "(a, z, ''Heap'') \<in> used_tab s'"
  have inv: "ra_inv b e s" "ra_inv b e s'" using good good' by (simp_all add: ra_good_def)
  have sub: "extra \<subseteq> used_tab s'" using tab by auto
  have ne: "(a, z, ''Heap'') \<notin> extra" using extra by auto
  have "{p ..< p + y} \<inter> {a ..< a + z} = {}" if "(p, y, t) \<in> extra" for p y t
    using used_tab_apart [OF inv(2) _ h, of p y t] that sub ne by blast
  then have x: "(\<Union>(p, z, t) \<in> extra. {p ..< p + z}) \<inter> {a ..< a + z} = {}" by blast
  have "descriptors s \<inter> {a ..< a + z} = {}"
  proof (cases "(a, z, ''Heap'') \<in> used_tab s")
    case True
    with good(2) show ?thesis by (auto simp: region_clean_def)
  next
    case False
    then have "{a ..< a + z} \<subseteq> {b ..< e} - used_space s" using tab h ne by auto
    moreover have "d < 4096 \<or> d \<in> used_space s" if "d \<in> descriptors s" for d
      using inv(1) that by (auto simp: ra_inv_def N_BASE_DESCRIPTORS_def)
    moreover have "4096 \<le> b" using inv(1) by (simp add: ra_inv_def)
    ultimately show ?thesis by fastforce
  qed
  with x desc show "descriptors s' \<inter> {a ..< a + z} = {}" by blast
qed

lemma region_free_heap:
  assumes good: "ra_good b e s" "region_clean s" and h: "(a, z, ''Heap'') \<in> used_tab s"
  shows "\<exists>s'. region_free a s = Inr s' \<and> ra_good b e s' \<and> region_clean s' \<and> used_tab s' = used_tab s - {(a, z, ''Heap'')}"
proof -
  have inv: "ra_inv b e s" and n: "N_RESERVE_DESCRIPTORS \<le> n_unused s" using good by (simp_all add: ra_good_def)
  have c: "descriptors s \<inter> {a ..< a + z} = {}" using good(2) h by (auto simp: region_clean_def)
  have "a \<in> {a ..< a + z}" using used_tab_bounds [OF inv h] by simp
  from region_free_inner_spec [OF inv h this c] obtain s' where s': "region_free_inner a s = Inr s'" "ra_inv b e s'"
    "used_tab s' = used_tab s - {(a, z, ''Heap'')}" "n_unused s \<le> n_unused s'" "descriptors s' = descriptors s" by blast
  moreover have "region_clean s'" using good(2) s'(3,5) by (auto simp: region_clean_def)
  ultimately show ?thesis using n by (auto simp: region_free_def ra_good_def)
qed

lemma region_alloc_any:
  assumes good: "ra_good b e s" "region_clean s" and sz: "0 < sz" "sz \<le> 0xFFFFF000"
    and run: "region_alloc mp sz ty s = Inr (r, s')"
  shows "ra_good b e s' \<and> region_clean s' \<and> (\<exists>extra. (extra = {} \<or> (\<exists>p. extra = {(p, 4096, ''Region descriptors'')}))
    \<and> (if r = 0 then used_tab s' = used_tab s \<union> extra
       else {r ..< r + page_up sz} \<subseteq> {b ..< e} - used_space s
         \<and> used_tab s' = insert (r, page_up sz, ty) (used_tab s \<union> extra)))"
proof (cases "free_space s = {}")
  case False
  obtain r0 s0 extra where e0: "region_alloc mp sz ty s = Inr (r0, s0)" "ra_good b e s0"
    "descriptors s0 \<subseteq> descriptors s \<union> (\<Union>(p, z, t) \<in> extra. {p ..< p + z})"
    "extra = {} \<or> (\<exists>p. mp p \<and> extra = {(p, 4096, ''Region descriptors'')})"
    "if r0 = 0 then used_tab s0 = used_tab s \<union> extra
         \<and> ((\<forall>a. \<not> {a ..< a + page_up sz} \<subseteq> free_space s0) \<or> n_unused s0 = N_RESERVE_DESCRIPTORS)
     else 4096 dvd r0 \<and> {r0 ..< r0 + page_up sz} \<subseteq> {b ..< e} - used_space s
       \<and> used_tab s0 = insert (r0, page_up sz, ty) (used_tab s \<union> extra)"
    using region_alloc_spec [OF good(1) sz False, of mp ty] by (elim exE conjE) (rule that; assumption)
  have "r0 = r" "s0 = s'" using e0(1) run by simp_all
  note e0 = e0(2-5) [unfolded this]
  have e: "ra_good b e s'" "descriptors s' \<subseteq> descriptors s \<union> (\<Union>(p, z, t) \<in> extra. {p ..< p + z})"
    "extra = {} \<or> (\<exists>p. extra = {(p, 4096, ''Region descriptors'')})"
    using e0(1-3) by blast+
  have e4: "if r = 0 then used_tab s' = used_tab s \<union> extra
     else {r ..< r + page_up sz} \<subseteq> {b ..< e} - used_space s \<and> used_tab s' = insert (r, page_up sz, ty) (used_tab s \<union> extra)"
    using e0(4) by (simp split: if_splits)
  moreover have "region_clean s'"
    by (rule region_alloc_clean [OF good e(1) e(2) e(3), of r "page_up sz" ty]) (use e4 in \<open>auto split: if_splits\<close>)
  moreover have "\<exists>x. (x = {} \<or> (\<exists>p. x = {(p, 4096, ''Region descriptors'')}))
      \<and> (if r = 0 then used_tab s' = used_tab s \<union> x
         else {r ..< r + page_up sz} \<subseteq> {b ..< e} - used_space s \<and> used_tab s' = insert (r, page_up sz, ty) (used_tab s \<union> x))"
    using e(3) e4 by (rule exI [of _ extra, OF conjI])
  ultimately show ?thesis using e(1) by (intro conjI)
next
  case True
  have inv: "ra_inv b e s" and n: "N_RESERVE_DESCRIPTORS \<le> n_unused s" using good by (simp_all add: ra_good_def)
  have w: "0 < page_up sz" by (rule page_up_bounds(3) [OF sz])
  show ?thesis
  proof (cases "n_unused s \<le> N_RESERVE_DESCRIPTORS")
    case low: True
    obtain q s1 where q: "region_alloc_inner 4096 ''Region descriptors'' True s = Inr (q, s1)"
      "q = 0 \<or> {q ..< q + page_up 4096} \<subseteq> free_space s"
      using region_alloc_inner_spec [OF inv, of 4096 True "''Region descriptors''"] n by (auto simp: N_RESERVE_DESCRIPTORS_def)
    then have "q = 0" using True by (simp add: page_up_4096)
    with run low q(1) show ?thesis by (simp add: region_alloc_def)
  next
    case False
    then have "region_alloc_inner sz ty False s = Inr (r, s')" using run by (simp add: region_alloc_def)
    with alloc_no_reserve [OF good(1) sz, of ty] True w have "r = 0" "s' = s" by (auto split: if_splits)
    with good show ?thesis by (intro conjI exI [of _ "{}"]) simp_all
  qed
qed

lemma heap_extra:
  "extra = {} \<or> (\<exists>p. extra = {(p, 4096::nat, ''Region descriptors'')}) \<Longrightarrow> (a, z, ''Heap'') \<notin> extra"
  by auto

lemma heap_alloc_law:
  assumes good: "heap_good h" and sz: "0 < sz" "sz \<le> 0xFFFFF000" and run: "heap_alloc_pages mmap sz h = Inr (p, h')"
  shows "heap_good h' \<and> (if p = 0 then heap_blocks h' = heap_blocks h
    else (p, page_up sz) \<notin> heap_blocks h \<and> heap_blocks h' = insert (p, page_up sz) (heap_blocks h))"
proof -
  obtain a r1 where a: "region_alloc (mmap_single_page mmap) sz ''Heap'' (uh_regions h) = Inr (a, r1)"
    using run by (auto simp: heap_alloc_pages_def split: sum.splits)
  have g: "ra_good 0x40000000 0xB0000000 (uh_regions h)" "region_clean (uh_regions h)"
    and m: "uh_maps h = fst ` heap_blocks h" using good by (simp_all add: heap_good_def)
  obtain extra where e: "ra_good 0x40000000 0xB0000000 r1" "region_clean r1"
    "extra = {} \<or> (\<exists>p. extra = {(p, 4096, ''Region descriptors'')})"
    "if a = 0 then used_tab r1 = used_tab (uh_regions h) \<union> extra
     else {a ..< a + page_up sz} \<subseteq> {0x40000000 ..< 0xB0000000} - used_space (uh_regions h)
       \<and> used_tab r1 = insert (a, page_up sz, ''Heap'') (used_tab (uh_regions h) \<union> extra)"
    using region_alloc_any [OF g sz a] by blast
  note he = heap_extra [OF e(3)]
  show ?thesis
  proof (cases "a = 0")
    case True
    then have "heap_blocks (h\<lparr>uh_regions := r1\<rparr>) = heap_blocks h" using e(4) he by (auto simp: heap_blocks_def)
    moreover have "p = 0" "h' = h\<lparr>uh_regions := r1\<rparr>" using run a True by (simp_all add: heap_alloc_pages_def)
    ultimately show ?thesis using e(1,2) m by (simp add: heap_good_def)
  next
    case False
    have w: "0 < page_up sz" by (rule page_up_bounds(3) [OF sz])
    have new: "(a, page_up sz, ''Heap'') \<notin> used_tab (uh_regions h)"
      using e(4) False w unfolding used_space_tab by fastforce
    show ?thesis
    proof (cases "mmap a sz (FM_READ OR FM_WRITE)")
      case True
      with run a False have r: "p = a" "h' = h\<lparr>uh_regions := r1, uh_maps := insert a (uh_maps h)\<rparr>"
        by (auto simp: heap_alloc_pages_def)
      have "heap_blocks h' = insert (a, page_up sz) (heap_blocks h)" using e(4) False he r by (auto simp: heap_blocks_def)
      moreover have "(a, page_up sz) \<notin> heap_blocks h" using new by (simp add: heap_blocks_def)
      ultimately show ?thesis using r e(1,2) m False by (simp add: heap_good_def)
    next
      case no: False
      have tab: "(a, page_up sz, ''Heap'') \<in> used_tab r1" using e(4) False by simp
      from region_free_heap [OF e(1,2) this] obtain r2 where r2: "region_free a r1 = Inr r2"
        "ra_good 0x40000000 0xB0000000 r2" "region_clean r2" "used_tab r2 = used_tab r1 - {(a, page_up sz, ''Heap'')}" by blast
      have r: "p = 0" "h' = h\<lparr>uh_regions := r2\<rparr>" using run a False no r2(1) by (auto simp: heap_alloc_pages_def)
      have "heap_blocks h' = heap_blocks h" using e(4) False he r r2(4) new by (auto simp: heap_blocks_def)
      then show ?thesis using r r2 m by (simp add: heap_good_def)
    qed
  qed
qed

lemma heap_free_law:
  assumes good: "heap_good h" and b: "(p, n) \<in> heap_blocks h"
  shows "\<exists>h'. heap_free_pages p h = Inr h' \<and> heap_good h' \<and> heap_blocks h' = heap_blocks h - {(p, n)}"
proof -
  have g: "ra_good 0x40000000 0xB0000000 (uh_regions h)" "region_clean (uh_regions h)"
    and m: "uh_maps h = fst ` heap_blocks h" using good by (simp_all add: heap_good_def)
  have t: "(p, n, ''Heap'') \<in> used_tab (uh_regions h)" using b by (simp add: heap_blocks_def)
  from region_free_heap [OF g t] obtain r where r: "region_free p (uh_regions h) = Inr r"
    "ra_good 0x40000000 0xB0000000 r" "region_clean r" "used_tab r = used_tab (uh_regions h) - {(p, n, ''Heap'')}" by blast
  let ?h' = "h\<lparr>uh_regions := r, uh_maps := uh_maps h - {p}\<rparr>"
  have hb: "heap_blocks ?h' = heap_blocks h - {(p, n)}" using r(4) by (auto simp: heap_blocks_def)
  have inv: "ra_inv 0x40000000 0xB0000000 (uh_regions h)" using g by (simp add: ra_good_def)
  have "n' = n" if n': "(p, n', ''Heap'') \<in> used_tab (uh_regions h)" for n'
  proof (rule ccontr)
    assume "n' \<noteq> n"
    then have "{p ..< p + n} \<inter> {p ..< p + n'} = {}" using used_tab_apart [OF inv t n'] by simp
    moreover have "0 < n" "0 < n'" using used_tab_bounds [OF inv t] used_tab_bounds [OF inv n'] by simp_all
    then have "p \<in> {p ..< p + n} \<inter> {p ..< p + n'}" by simp
    ultimately show False by blast
  qed
  then have "n' = n" if "(p, n') \<in> heap_blocks h" for n' using that by (simp add: heap_blocks_def)
  then have "fst x \<noteq> p" if "x \<in> heap_blocks h" "x \<noteq> (p, n)" for x
    using that by (cases x) auto
  then have "fst ` (heap_blocks h - {(p, n)}) \<subseteq> uh_maps h - {p}" unfolding m by blast
  moreover have "uh_maps h - {p} \<subseteq> fst ` (heap_blocks h - {(p, n)})" unfolding m by force
  ultimately have "uh_maps h - {p} = fst ` (heap_blocks h - {(p, n)})" by blast
  with r hb show ?thesis by (simp add: heap_free_pages_def heap_good_def)
qed

interpretation heap: page_provider "heap_alloc_pages mmap" heap_free_pages heap_good heap_blocks
proof (unfold_locales, goal_cases)
  case (1 ps n p ps') then show ?case using heap_alloc_law by blast
next
  case (2 ps n ps') then show ?case using heap_alloc_law [of ps n mmap 0 ps'] by simp
next
  case (3 ps n p ps') then show ?case using heap_alloc_law [of ps n mmap p ps'] by simp
next
  case (4 ps p n) then show ?case using heap_free_law by blast
next
  case (5 ps)
  have "heap_blocks ps \<subseteq> (\<lambda>(a, z, t). (a, z)) ` used_tab (uh_regions ps)" by (force simp: heap_blocks_def)
  then show ?case using used_tab_finite finite_surj by blast
next
  case (6 ps p n)
  then show ?case using used_tab_bounds [of "0x40000000" "0xB0000000" "uh_regions ps" p n "''Heap''"]
    by (simp add: heap_good_def heap_blocks_def ra_good_def)
next
  case (7 ps p n q m)
  then show ?case using used_tab_apart [of "0x40000000" "0xB0000000" "uh_regions ps" p n "''Heap''" q m "''Heap''"]
    by (simp add: heap_good_def heap_blocks_def ra_good_def)
qed

end
