(* ===== verification/Malloc_Props.thy ===== *)
theory Malloc_Props
  imports Malloc
begin

text \<open>
  What \<open>malloc\<close>, \<open>realloc\<close> and \<open>free\<close> of user programs guarantee: the facts proved for
  any page provider, on the process's own heap.
\<close>

definition malloc_good :: "malloc_state \<Rightarrow> bool" where
  "malloc_good st \<longleftrightarrow> heap_good (snd st) \<and> slab_inv (heap_blocks (snd st)) (fst st)"

text \<open>The objects handed out and not yet released: address and usable size.\<close>

definition in_use :: "malloc_state \<Rightarrow> (nat \<times> nat) set" where
  "in_use st = slab_used (fst st)"

lemma slab_sizes_ok: "types_ok slab_sizes"
  by (simp add: types_ok_def slab_sizes_def cache_bytes_def SLAB_PAGE_def SIZEOF_OBJECT_def SIZEOF_ALLOCATOR_def SIZEOF_SLAB_def)

section \<open>A heap with room\<close>

lemma heap_alloc_room:
  assumes good: "heap_good h" and sz: "0 < sz" "sz \<le> 0xFFFFF000" and n: "2 < n_unused (uh_regions h)"
    and run: "{x ..< x + page_up sz} \<subseteq> free_space (uh_regions h)"
  shows "\<exists>p h'. heap_alloc_pages (\<lambda>_ _ _. True) sz h = Inr (p, h') \<and> p \<noteq> 0
    \<and> free_space (uh_regions h') = free_space (uh_regions h) - {p ..< p + page_up sz}
    \<and> n_unused (uh_regions h) - 1 \<le> n_unused (uh_regions h')"
proof -
  let ?s = "uh_regions h"
  have inv: "ra_inv 0x40000000 0xB0000000 ?s" using good by (simp add: heap_good_def ra_good_def)
  have w: "0 < page_up sz" by (rule page_up_bounds(3) [OF sz])
  have "\<not> (\<forall>f \<in> set (ra_by_addr ?s). ra_size ?s f < page_up sz)"
    using free_run_in_region [OF _ w run] inv unfolding ra_inv_def by (meson not_le)
  then obtain r s' where r: "region_alloc_inner sz ''Heap'' False ?s = Inr (r, s')" "r \<noteq> 0"
    "free_space s' = free_space ?s - {r ..< r + page_up sz}" "n_unused ?s - 1 \<le> n_unused s'"
    using region_alloc_inner_spec [OF inv sz, of False "''Heap''"] n by (auto simp: N_RESERVE_DESCRIPTORS_def)
  then show ?thesis
    using n by (simp add: heap_alloc_pages_def region_alloc_def N_RESERVE_DESCRIPTORS_def mmap_single_page_def)
qed

definition fresh_heap :: "region_state \<Rightarrow> user_heap" where
  "fresh_heap r = \<lparr>uh_regions = r, uh_maps = {}\<rparr>"

lemma setup_region:
  "\<exists>r. region_allocator_init 0x40000000 0x40000000 0xB0000000 = Inr r \<and> heap_good (fresh_heap r)
    \<and> heap_blocks (fresh_heap r) = {} \<and> free_space r = {0x40000000 ..< 0xB0000000} \<and> 10 \<le> n_unused r"
proof -
  obtain r where r: "region_allocator_init 0x40000000 0x40000000 0xB0000000 = Inr r" "ra_good 0x40000000 0xB0000000 r"
    "used_tab r = {}" "free_space r = {0x40000000 ..< 0xB0000000}" "10 \<le> n_unused r"
    using region_init_spec [of "0x40000000" "0x40000000" "0xB0000000"] by (auto simp: dvd_def)
  then show ?thesis by (simp add: fresh_heap_def heap_good_def region_clean_def heap_blocks_def)
qed

lemma setup_good:
  assumes "malloc_setup mmap = Inr st"
  shows "malloc_good st \<and> types (fst st) = slab_sizes \<and> in_use st = {}"
proof -
  obtain r where r: "region_allocator_init 0x40000000 0x40000000 0xB0000000 = Inr r" "heap_good (fresh_heap r)"
    "heap_blocks (fresh_heap r) = {}" using setup_region by blast
  obtain a h where a: "create_slab_allocator slab_sizes (heap_alloc_pages mmap) (fresh_heap r) = Inr (Some a, h)" "st = (a, h)"
    using assms r(1) by (auto simp: malloc_setup_def fresh_heap_def split: sum.splits option.splits)
  from heap.create_spec [OF r(2,3) slab_sizes_ok a(1)] a(2) show ?thesis
    by (simp add: malloc_good_def in_use_def)
qed

text \<open>When the kernel grants every mapping, the library starts, and a first object can be allocated.\<close>

lemma setup_runs:
  "\<exists>st. malloc_setup (\<lambda>_ _ _. True) = Inr st \<and> malloc_good st \<and> types (fst st) = slab_sizes \<and> in_use st = {}
    \<and> slabs (fst st) = replicate 10 [] \<and> first_free_descriptor (fst st) \<noteq> []
    \<and> 9 \<le> n_unused (uh_regions (snd st)) \<and> (\<exists>x. {x ..< x + 0x8000} \<subseteq> free_space (uh_regions (snd st)))"
proof -
  obtain r where r: "region_allocator_init 0x40000000 0x40000000 0xB0000000 = Inr r" "heap_good (fresh_heap r)"
    "heap_blocks (fresh_heap r) = {}" "free_space r = {0x40000000 ..< 0xB0000000}" "10 \<le> n_unused r" using setup_region by blast
  have f: "uh_regions (fresh_heap r) = r" by (simp add: fresh_heap_def)
  have "{0x40000000 ..< 0x40000000 + page_up SLAB_PAGE} \<subseteq> free_space (uh_regions (fresh_heap r))"
    unfolding f r(4) page_size_ok(3) by (auto simp: SLAB_PAGE_def)
  then obtain p h where p: "heap_alloc_pages (\<lambda>_ _ _. True) SLAB_PAGE (fresh_heap r) = Inr (p, h)" "p \<noteq> 0"
      "free_space (uh_regions h) = free_space r - {p ..< p + SLAB_PAGE}" "n_unused r - 1 \<le> n_unused (uh_regions h)"
    using heap_alloc_room [OF r(2) page_size_ok(1,2), of "0x40000000"] r(5) unfolding f page_size_ok(3) by auto
  have "\<not> (\<exists>t \<in> set slab_sizes. \<not> obj_size t \<ge> SIZEOF_OBJECT)" using slab_sizes_ok by (simp add: types_ok_def)
  moreover define a where "a = \<lparr>ma_self = p, types = slab_sizes, slabs = replicate (length slab_sizes) [],
      first_free_descriptor = rev (self_descs p slab_sizes), all_regions = []\<rparr>"
  ultimately have "create_slab_allocator slab_sizes (heap_alloc_pages (\<lambda>_ _ _. True)) (fresh_heap r) = Inr (Some a, h)"
    unfolding create_slab_allocator_def p(1) using p(2) by (simp add: add_descriptors_spec self_descs_def)
  then have "malloc_setup (\<lambda>_ _ _. True) = Inr (a, h)" using r(1) by (simp add: malloc_setup_def fresh_heap_def)
  moreover have "length slab_sizes = 10" by (simp add: slab_sizes_def)
  ultimately have a: "malloc_setup (\<lambda>_ _ _. True) = Inr (a, h)" "slabs a = replicate 10 []"
      "first_free_descriptor a = rev (self_descs p slab_sizes)"
    by (simp_all add: a_def)
  have "first_free_descriptor a \<noteq> []" unfolding a(3) rev_is_Nil_conv length_0_conv [symmetric] self_descs_def
    by (simp add: strides_props SIZEOF_DESCRIPTOR_def SLAB_PAGE_def SIZEOF_ALLOCATOR_def SIZEOF_SLAB_def slab_sizes_def)
  moreover have "\<exists>x. {x ..< x + 0x8000} \<subseteq> free_space (uh_regions h)"
  proof (cases "p < 0x50000000")
    case True
    then have "{0x60000000 ..< 0x60000000 + 0x8000} \<subseteq> free_space (uh_regions h)"
      unfolding p(3) r(4) by (auto simp: SLAB_PAGE_def)
    then show ?thesis by blast
  next
    case False
    then have "{0x40000000 ..< 0x40000000 + 0x8000} \<subseteq> free_space (uh_regions h)"
      unfolding p(3) r(4) by auto
    then show ?thesis by blast
  qed
  ultimately show ?thesis using a setup_good [OF a(1)] p(4) r(5) by (intro exI [of _ "(a, h)"]) simp
qed

lemma wit_malloc:
  "\<exists>st p st'. malloc_setup (\<lambda>_ _ _. True) = Inr st \<and> malloc (\<lambda>_ _ _. True) 100 st = Inr (p, st') \<and> p \<noteq> 0
    \<and> malloc_good st \<and> malloc_good st' \<and> in_use st = {} \<and> in_use st' = {(p, 128)} \<and> types (fst st') = slab_sizes
    \<and> (\<exists>t c x. (t, c) \<in> set (tagged (fst st')) \<and> x \<in> set (first_free_obj c))"
proof -
  let ?m = "heap_alloc_pages (\<lambda>_ _ _. True)"
  obtain a h where st: "malloc_setup (\<lambda>_ _ _. True) = Inr (a, h)" "malloc_good (a, h)" "types a = slab_sizes" "in_use (a, h) = {}"
    "slabs a = replicate 10 []" "first_free_descriptor a \<noteq> []" "9 \<le> n_unused (uh_regions h)"
    "\<exists>x. {x ..< x + 0x8000} \<subseteq> free_space (uh_regions h)" using setup_runs by auto
  have good: "heap_good h" and inv: "slab_inv (heap_blocks h) a" using st(2) by (simp_all add: malloc_good_def)
  let ?t = "slab_sizes ! 4"
  have t: "cache_bytes ?t = 0x8000" "obj_size ?t = 128" by (simp_all add: slab_sizes_def cache_bytes_def SLAB_PAGE_def)
  have slab: "slab_for 100 (types a) = Some 4" using st(3) by (simp add: slab_sizes_def eval_nat_numeral)
  have full: "find_cache (slabs a ! 4) = Inr None" using st(5) by simp
  obtain d ds where d: "first_free_descriptor a = d # ds" using st(6) by (cases "first_free_descriptor a") auto
  have td: "take_descriptor ?m a h = Inr (Some d, a\<lparr>first_free_descriptor := ds\<rparr>, h)" using d by (simp add: take_descriptor_def)
  have pu: "page_up 0x8000 = 0x8000" using page_up_multiple(2) [of "0x8000"] by (simp add: dvd_def)
  obtain x where x: "{x ..< x + page_up 0x8000} \<subseteq> free_space (uh_regions h)" using st(8) unfolding pu by blast
  have n: "2 < n_unused (uh_regions h)" using st(7) by simp
  obtain q h1 where q: "?m 0x8000 h = Inr (q, h1)" "q \<noteq> 0"
    using heap_alloc_room [OF good _ _ n x] by auto
  have os: "0 < obj_size ?t" using t(2) by simp
  obtain c a1 where nc: "new_cache ?m (types a ! 4) a h = Inr (Some c, a1, h1)"
    using td q t(1) st(3) by (simp add: new_cache_def cut_objects_spec [OF os] strides_props [OF os])
  from heap.slab_alloc_new [OF good inv slab full nc] obtain p a' where
    al: "slab_alloc ?m 100 a h = Inr (p, a', h1)" "heap_good h1" "slab_inv (heap_blocks h1) a'" "p \<noteq> 0" "types a' = types a"
      "slab_used a' = insert (p, 128) (slab_used a)"
    and fr: "\<exists>d. (?t, d) \<in> set (tagged a') \<and> Suc (length (first_free_obj d)) = 256"
    unfolding st(3) t using t by auto
  obtain d where d: "(?t, d) \<in> set (tagged a')" "length (first_free_obj d) = 255" using fr by auto
  then obtain x where x: "x \<in> set (first_free_obj d)" by (cases "first_free_obj d") auto
  have "malloc (\<lambda>_ _ _. True) 100 (a, h) = Inr (p, a', h1)" using al(1) by (simp add: malloc_def)
  moreover have "\<exists>t c x. (t, c) \<in> set (tagged a') \<and> x \<in> set (first_free_obj c)" using d(1) x by blast
  ultimately show ?thesis using st(1-4) al(2-6) by (intro exI [of _ "(a, h)"] exI [of _ p] exI [of _ "(a', h1)"])
      (simp add: malloc_good_def in_use_def)
qed

section \<open>Properties\<close>

text \<open>C3: on the heap of a process, \<open>malloc\<close> keeps the allocator well formed and either answers zero
  and changes nothing of what is in use, or hands out an object at least as large as asked, not at zero, that
  overlaps no object in use. The slab allocator's own assertions never fail: when the machine stops, it is the
  region allocator, out of address space, that stopped it.\<close>

theorem malloc_correct:
  assumes "malloc_good st" and "0 < sz" and "sz \<le> 0xFFFFF000"
  shows "case malloc mmap sz st of
      Inl e \<Rightarrow> provider_fault (heap_alloc_pages mmap) (snd st) e
    | Inr (p, st') \<Rightarrow> malloc_good st' \<and>
        (if p = 0 then in_use st' = in_use st
         else \<exists>z \<ge> sz. in_use st' = insert (p, z) (in_use st) \<and> (p, z) \<notin> in_use st
           \<and> (\<forall>(q, w) \<in> in_use st. {p ..< p + z} \<inter> {q ..< q + w} = {}))"
proof (cases "slab_alloc (heap_alloc_pages mmap) sz (fst st) (snd st)")
  case (Inl e)
  with heap.slab_alloc_fault [of "snd st" "fst st" mmap sz e] assms show ?thesis
    by (simp add: malloc_def malloc_good_def)
next
  case (Inr r)
  obtain p a h where r: "r = (p, a, h)" by (cases r)
  have g: "heap_good (snd st)" "slab_inv (heap_blocks (snd st)) (fst st)" using assms(1) by (simp_all add: malloc_good_def)
  note sp = heap.slab_alloc_spec [OF g assms(3) Inr[unfolded r]]
  let ?z = "size_for sz (types (fst st))"
  have m: "malloc mmap sz st = Inr (p, a, h)" using Inr r assms(2) by (simp add: malloc_def)
  show ?thesis
  proof (cases "p = 0")
    case True
    with sp m show ?thesis by (simp add: malloc_good_def in_use_def)
  next
    case False
    have "{p ..< p + ?z} \<inter> {q ..< q + w} = {}" if "(q, w) \<in> slab_used (fst st)" for q w
      using sp that False heap.used_apart(2) [of h a p ?z q w] by auto
    then have "\<exists>z \<ge> sz. slab_used a = insert (p, z) (slab_used (fst st)) \<and> (p, z) \<notin> slab_used (fst st)
        \<and> (\<forall>(q, w) \<in> slab_used (fst st). {p ..< p + z} \<inter> {q ..< q + w} = {})"
      using sp False by (intro exI [of _ ?z]) auto
    with sp m False show ?thesis by (simp add: malloc_good_def in_use_def)
  qed
qed

theorem malloc_correct_witness:
  "\<exists>st. malloc_setup (\<lambda>_ _ _. True) = Inr st \<and> in_use st = {}
    \<and> (case malloc (\<lambda>_ _ _. True) 100 st of Inl e \<Rightarrow> False
       | Inr (p, st') \<Rightarrow> malloc_good st' \<and> p \<noteq> 0 \<and> (\<exists>z \<ge> 100. in_use st' = {(p, z)}))"
proof -
  obtain st p st' where w: "malloc_setup (\<lambda>_ _ _. True) = Inr st" "malloc (\<lambda>_ _ _. True) 100 st = Inr (p, st')" "p \<noteq> 0"
    "malloc_good st" "in_use st = {}" using wit_malloc by blast
  from malloc_correct [OF w(4), of 100 "\<lambda>_ _ _. True"] w show ?thesis by (intro exI [of _ st]) auto
qed

text \<open>C4: \<open>free\<close> of an object in use never fails: it takes exactly that object out of use and keeps
  the allocator well formed, whatever cache or region it was in.\<close>

theorem free_correct:
  assumes "malloc_good st" and "(p, z) \<in> in_use st"
  shows "\<exists>st'. free p st = Inr st' \<and> malloc_good st' \<and> in_use st' = in_use st - {(p, z)}"
proof -
  have g: "heap_good (snd st)" "slab_inv (heap_blocks (snd st)) (fst st)" "(p, z) \<in> slab_used (fst st)"
    using assms by (simp_all add: malloc_good_def in_use_def)
  have "p \<noteq> 0" using used_in_block [OF g(2,3)] heap.blocks_pos [OF g(1)] by fastforce
  with heap.slab_free_spec [OF g] show ?thesis by (fastforce simp: free_def malloc_good_def in_use_def)
qed

theorem free_correct_witness:
  "\<exists>st p st' st''. malloc_setup (\<lambda>_ _ _. True) = Inr st \<and> malloc (\<lambda>_ _ _. True) 100 st = Inr (p, st')
    \<and> in_use st' = {(p, 128)} \<and> free p st' = Inr st'' \<and> malloc_good st'' \<and> in_use st'' = {}"
proof -
  obtain st p st' where w: "malloc_setup (\<lambda>_ _ _. True) = Inr st" "malloc (\<lambda>_ _ _. True) 100 st = Inr (p, st')"
    "malloc_good st'" "in_use st' = {(p, 128)}" using wit_malloc by blast
  obtain st'' where "free p st' = Inr st''" "malloc_good st''" "in_use st'' = {}"
    using free_correct [OF w(3), of p 128] w(4) by auto
  with w show ?thesis by blast
qed



text \<open>Releasing an object that lies on the free list of its cache (a double free) stops the machine.\<close>

theorem double_free_asserts:
  assumes "malloc_good st" and "(t, c) \<in> set (tagged (fst st))" and "p \<in> set (first_free_obj c)"
  shows "free p st = Inl Assert_failed"
proof -
  have g: "heap_good (snd st)" "slab_inv (heap_blocks (snd st)) (fst st)" using assms(1) by (simp_all add: malloc_good_def)
  have os: "0 < obj_size t" using types_pos [OF g(2) tagged_ok(1) [OF g(2) assms(2)]] by simp
  have "p \<in> set (objects t (c_region c))" using tagged_ok(2) [OF g(2) assms(2)] assms(3) by (auto simp: cache_ok_def)
  moreover have "0 < c_region c" using tagged_ok(3) [OF g(2) assms(2)] heap.blocks_pos [OF g(1)] by (auto simp: cblock_def)
  ultimately have "p \<noteq> 0" using objects_bounds(1) [OF _ os] by fastforce
  with heap.slab_double_free [OF g assms(2,3)] show ?thesis by (simp add: free_def)
qed

theorem double_free_asserts_witness:
  "\<exists>st p st' x. malloc_setup (\<lambda>_ _ _. True) = Inr st \<and> malloc (\<lambda>_ _ _. True) 100 st = Inr (p, st')
    \<and> free x st' = Inl Assert_failed"
proof -
  obtain st p st' t c x where w: "malloc_setup (\<lambda>_ _ _. True) = Inr st" "malloc (\<lambda>_ _ _. True) 100 st = Inr (p, st')"
    "malloc_good st'" "(t, c) \<in> set (tagged (fst st'))" "x \<in> set (first_free_obj c)" using wit_malloc by blast
  from double_free_asserts [OF w(3-5)] w(1,2) show ?thesis by blast
qed

text \<open>C12: destroying the allocator gives every block it holds back to the heap: caches, regions, pages of
  descriptors and its own page, each once, and no assertion fails.\<close>

theorem destroy_no_leak:
  assumes "malloc_good st"
  shows "\<exists>h. destroy_slab_allocator heap_free_pages (fst st) (snd st) = Inr h \<and> heap_good h \<and> heap_blocks h = {}"
  using heap.destroy_spec [of "snd st" "fst st"] assms by (simp add: malloc_good_def)

theorem destroy_no_leak_witness:
  "\<exists>st p st' h. malloc_setup (\<lambda>_ _ _. True) = Inr st \<and> malloc (\<lambda>_ _ _. True) 100 st = Inr (p, st')
    \<and> destroy_slab_allocator heap_free_pages (fst st') (snd st') = Inr h \<and> heap_blocks h = {}"
proof -
  obtain st p st' where w: "malloc_setup (\<lambda>_ _ _. True) = Inr st" "malloc (\<lambda>_ _ _. True) 100 st = Inr (p, st')"
    "malloc_good st'" using wit_malloc by blast
  from destroy_no_leak [OF w(3)] w show ?thesis by blast
qed

end
