(* ===== verification/Ipc_Channel.thy ===== *)
theory Ipc_Channel
  imports Proto_Fs
begin

text \<open>
  The communication channels of src/kernel/user/ipc.c. A channel is a pair of sides; each side has a ring buffer of
  200 bytes that the other side writes into. A store maps the addresses of the sides to them. The mutex of a side
  makes one pass of the transfer loops atomic; a thread that waits in a blocking transfer is woken after the other
  threads have changed the store, which is given as the list of what they do at each wait (the list running out
  means that the thread waits for ever: no result).
\<close>

section \<open>The data\<close>

definition CHANNEL_BUFFER_SIZE :: nat where "CHANNEL_BUFFER_SIZE = 200"

record channel =
  other_side :: "nat option"
  ch_locked :: bool
  ch_buf :: "u8 list"
  buf_use_begin :: nat
  buf_used :: nat

type_synonym chans = "nat \<Rightarrow> channel option"

text \<open>The state of the component: the sides in memory and the log of the objects waiters are resumed on.\<close>

record ipc_state =
  ip_chans :: chans
  ip_resumed :: "nat list"

definition resume_on_chan :: "nat \<Rightarrow> ipc_state \<Rightarrow> ipc_state" where
  "resume_on_chan x s = s\<lparr>ip_resumed := ip_resumed s @ [x]\<rparr>"

text \<open>A handle on a side: the side and the mode it was opened with.\<close>

record ipc_handle =
  ih_chan :: nat
  ih_mode :: u32

definition uadd32 :: "nat \<Rightarrow> nat \<Rightarrow> nat" where
  "uadd32 a b = (a + b) mod 2 ^ 32"

text \<open>Writing bytes into the buffer, which has to hold them all.\<close>

definition blit :: "u8 list \<Rightarrow> nat \<Rightarrow> u8 list \<Rightarrow> u8 list res" where
  "blit xs k bs =
     (if k + length bs \<le> length xs then Inr (take k xs @ bs @ drop (k + length bs) xs) else Inl Bad_access)"

section \<open>One pass of the transfer loops\<close>

text \<open>What \<open>channel_read\<close> does under the lock: at most \<open>n\<close> bytes taken from the ring.\<close>

definition channel_take :: "nat \<Rightarrow> channel \<Rightarrow> u8 list \<times> channel" where
  "channel_take n c =
     (let len = (if buf_used c < n then buf_used c else n)
      in if len = 0 then ([], c)
         else
           (let (len0, len1) =
              (if uadd32 (buf_use_begin c) len > CHANNEL_BUFFER_SIZE
               then (CHANNEL_BUFFER_SIZE - buf_use_begin c, len - (CHANNEL_BUFFER_SIZE - buf_use_begin c))
               else (len, 0));
              bytes = take len0 (drop (buf_use_begin c) (ch_buf c)) @ take len1 (ch_buf c);
              c1 = c\<lparr>buf_use_begin := uadd32 (buf_use_begin c) len mod CHANNEL_BUFFER_SIZE,
                     buf_used := buf_used c - len\<rparr>
            in (bytes, if buf_used c1 = 0 then c1\<lparr>buf_use_begin := 0\<rparr> else c1)))"

text \<open>What \<open>channel_write\<close> does under the lock: how many bytes went in. The check of the room is a 32-bit sum.\<close>

definition channel_put :: "u8 list \<Rightarrow> channel \<Rightarrow> (nat \<times> channel) res" where
  "channel_put bytes c =
     (let n = length bytes;
          len = (if uadd32 (buf_used c) n > CHANNEL_BUFFER_SIZE then CHANNEL_BUFFER_SIZE - buf_used c else n)
      in if len = 0 then Inr (0, c)
         else
           (let written =
              (if buf_use_begin c + buf_used c \<ge> CHANNEL_BUFFER_SIZE
               then blit (ch_buf c) (buf_use_begin c + buf_used c - CHANNEL_BUFFER_SIZE) (take len bytes)
               else
                 (let (len0, len1) =
                    (if uadd32 (buf_use_begin c + buf_used c) len > CHANNEL_BUFFER_SIZE
                     then (CHANNEL_BUFFER_SIZE - buf_use_begin c - buf_used c,
                           len - (CHANNEL_BUFFER_SIZE - buf_use_begin c - buf_used c))
                     else (len, 0))
                  in case blit (ch_buf c) (buf_use_begin c + buf_used c) (take len0 bytes) of
                       Inl e \<Rightarrow> Inl e
                     | Inr b1 \<Rightarrow> if len1 \<noteq> 0 then blit b1 0 (take len1 (drop len0 bytes)) else Inr b1))
            in case written of
                 Inl e \<Rightarrow> Inl e
               | Inr b \<Rightarrow> Inr (len, c\<lparr>ch_buf := b, buf_used := buf_used c + len\<rparr>)))"

section \<open>The operations of a node\<close>

text \<open>
  \<open>channel_read\<close>: \<open>got\<close> is what was read so far. A pass that moves bytes notifies the waiters of the
  side; a pass that moves none waits when the handle is blocking.
\<close>

function channel_read_loop ::
  "bool \<Rightarrow> (ipc_state \<Rightarrow> ipc_state) list \<Rightarrow> nat \<Rightarrow> nat \<Rightarrow> u8 list \<Rightarrow> ipc_state \<Rightarrow> (u8 list \<times> ipc_state) option res" where
  "channel_read_loop blocking others x req got s =
     (case ip_chans s x of
        None \<Rightarrow> Inl Bad_access
      | Some c \<Rightarrow>
          if ch_locked c then Inl Self_deadlock
          else (case channel_take (req - length got) c of
             (bytes, c1) \<Rightarrow>
               if bytes \<noteq> [] then
                 (let s1 = resume_on_chan x (s\<lparr>ip_chans := (ip_chans s)(x \<mapsto> c1)\<rparr>); got1 = got @ bytes
                  in if blocking \<and> length got1 < req then channel_read_loop blocking others x req got1 s1
                     else Inr (Some (got1, s1)))
               else if blocking then
                 (case others of
                    [] \<Rightarrow> Inr None
                  | w # ws \<Rightarrow> if length got < req then channel_read_loop blocking ws x req got (w s)
                              else Inr (Some (got, w s)))
               else Inr (Some (got, s))))"
  by pat_completeness auto
termination
  by (relation "measure (\<lambda>(b, others, x, req, got, s). length others + (req - length got))") (auto simp: neq_Nil_conv)

declare channel_read_loop.simps [simp del]

definition channel_read ::
  "(ipc_state \<Rightarrow> ipc_state) list \<Rightarrow> ipc_handle \<Rightarrow> nat \<Rightarrow> nat \<Rightarrow> ipc_state \<Rightarrow> (u8 list \<times> ipc_state) option res" where
  "channel_read others h offset req_len s =
     channel_read_loop (has_flag (ih_mode h) FM_BLOCKING) others (ih_chan h) req_len [] s"

text \<open>\<open>channel_write\<close> writes into the other side, whose address it reads once, before the loop.\<close>

function channel_write_loop ::
  "bool \<Rightarrow> (ipc_state \<Rightarrow> ipc_state) list \<Rightarrow> nat \<Rightarrow> u8 list \<Rightarrow> nat \<Rightarrow> ipc_state \<Rightarrow> (nat \<times> ipc_state) option res" where
  "channel_write_loop blocking others x bytes ret s =
     (case ip_chans s x of
        None \<Rightarrow> Inl Bad_access
      | Some c \<Rightarrow>
          if ch_locked c then Inl Self_deadlock
          else (case channel_put (drop ret bytes) c of
             Inl e \<Rightarrow> Inl e
           | Inr (len, c1) \<Rightarrow>
               if len \<noteq> 0 then
                 (let s1 = resume_on_chan x (s\<lparr>ip_chans := (ip_chans s)(x \<mapsto> c1)\<rparr>); ret1 = ret + len
                  in if blocking \<and> ret1 < length bytes then channel_write_loop blocking others x bytes ret1 s1
                     else Inr (Some (ret1, s1)))
               else if blocking then
                 (case others of
                    [] \<Rightarrow> Inr None
                  | w # ws \<Rightarrow> if ret < length bytes then channel_write_loop blocking ws x bytes ret (w s)
                              else Inr (Some (ret, w s)))
               else Inr (Some (ret, s))))"
  by pat_completeness auto
termination
  by (relation "measure (\<lambda>(b, others, x, bytes, ret, s). length others + (length bytes - ret))") auto

declare channel_write_loop.simps [simp del]

definition channel_write ::
  "(ipc_state \<Rightarrow> ipc_state) list \<Rightarrow> ipc_handle \<Rightarrow> nat \<Rightarrow> u8 list \<Rightarrow> ipc_state \<Rightarrow> (nat \<times> ipc_state) option res" where
  "channel_write others h offset bytes s =
     (case ip_chans s (ih_chan h) of
        None \<Rightarrow> Inl Bad_access
      | Some tc \<Rightarrow>
          (case other_side tc of
             None \<Rightarrow> Inr (Some (0, s))
           | Some x \<Rightarrow> channel_write_loop (has_flag (ih_mode h) FM_BLOCKING) others x bytes 0 s))"

text \<open>\<open>channel_poll\<close>: the conditions that hold, and the object to wait on.\<close>

definition channel_poll :: "ipc_handle \<Rightarrow> ipc_state \<Rightarrow> (u32 \<times> nat) res" where
  "channel_poll h s =
     (case ip_chans s (ih_chan h) of
        None \<Rightarrow> Inl Bad_access
      | Some c \<Rightarrow>
          (let readable = (if buf_used c > 0 then SEL_READ else 0)
           in case other_side c of
                None \<Rightarrow> Inr (SEL_ERROR OR readable, ih_chan h)
              | Some x \<Rightarrow>
                  (case ip_chans s x of
                     None \<Rightarrow> Inl Bad_access
                   | Some oc \<Rightarrow>
                       Inr ((if buf_used oc < CHANNEL_BUFFER_SIZE then SEL_WRITE else 0) OR readable, ih_chan h))))"

definition channel_open :: "u32 \<Rightarrow> bool" where
  "channel_open mode \<longleftrightarrow> \<not> beyond mode (FM_READ OR FM_WRITE OR FM_BLOCKING)"

definition channel_stat :: "nat \<Rightarrow> ipc_state \<Rightarrow> stat_t res" where
  "channel_stat x s =
     (case ip_chans s x of
        None \<Rightarrow> Inl Bad_access
      | Some c \<Rightarrow>
          if ch_locked c then Inl Self_deadlock
          else Inr \<lparr>st_type = FT_CHANNEL, st_access = FM_READ OR FM_WRITE, st_size = buf_used c\<rparr>)"

definition channel_close :: "ipc_handle \<Rightarrow> ipc_state \<Rightarrow> ipc_state" where
  "channel_close h s = s"

text \<open>Disposing of a side cuts it off its other side, whose waiters are resumed, and frees it.\<close>

definition channel_dispose :: "nat \<Rightarrow> ipc_state \<Rightarrow> heap \<Rightarrow> (ipc_state \<times> heap) res" where
  "channel_dispose x s h =
     (case ip_chans s x of
        None \<Rightarrow> Inl Bad_access
      | Some c \<Rightarrow>
          if ch_locked c then Inl Self_deadlock
          else
            (case other_side c of
               None \<Rightarrow> Inr (s\<lparr>ip_chans := (ip_chans s)(x := None)\<rparr>, heap_free h)
             | Some y \<Rightarrow>
                 (case ip_chans s y of
                    None \<Rightarrow> Inl Bad_access
                  | Some oc \<Rightarrow>
                      Inr ((resume_on_chan y s)\<lparr>ip_chans := (ip_chans s)(y \<mapsto> oc\<lparr>other_side := None\<rparr>, x := None)\<rparr>,
                           heap_free h))))"

text \<open>
  \<open>make_channel\<close> takes six blocks, two sides, two handles and two nodes, and gives back those it got when one
  is refused. The addresses \<open>xa\<close> and \<open>xb\<close> are those of the two sides.
\<close>

fun take_blocks :: "nat \<Rightarrow> heap \<Rightarrow> nat \<times> heap" where
  "take_blocks 0 h = (0, h)"
| "take_blocks (Suc n) h =
     (case heap_malloc h of (ok, h1) \<Rightarrow>
        if ok then (case take_blocks n h1 of (k, h2) \<Rightarrow> (Suc k, h2)) else (0, h1))"

definition fresh_side :: "nat \<Rightarrow> channel" where
  "fresh_side other = \<lparr>other_side = Some other, ch_locked = False, ch_buf = replicate CHANNEL_BUFFER_SIZE 0,
     buf_use_begin = 0, buf_used = 0\<rparr>"

definition make_channel ::
  "bool \<Rightarrow> nat \<Rightarrow> nat \<Rightarrow> heap \<Rightarrow> ipc_state \<Rightarrow> (ipc_handle \<times> ipc_handle) option \<times> heap \<times> ipc_state" where
  "make_channel blocking xa xb h s =
     (case take_blocks 6 h of (got, h1) \<Rightarrow>
        if got < 6 then (None, heap_frees got h1, s)
        else
          (let mode = FM_READ OR FM_WRITE OR (if blocking then FM_BLOCKING else 0)
           in (Some (\<lparr>ih_chan = xa, ih_mode = mode\<rparr>, \<lparr>ih_chan = xb, ih_mode = mode\<rparr>), h1,
               s\<lparr>ip_chans := (ip_chans s)(xa \<mapsto> fresh_side xb, xb \<mapsto> fresh_side xa)\<rparr>)))"

end
