(* ===== verification/Ipc_Channel_Props.thy ===== *)
theory Ipc_Channel_Props
  imports Ipc_Channel
begin

text \<open>
  A channel is a pair of bounded first-in first-out queues: the ring buffer of a side, read from its first used
  slot, is a list that reads take from the front and writes extend at the back.
\<close>

section \<open>The ring as a list\<close>

definition ch_wf :: "channel \<Rightarrow> bool" where
  "ch_wf c \<longleftrightarrow> length (ch_buf c) = CHANNEL_BUFFER_SIZE \<and> buf_use_begin c < CHANNEL_BUFFER_SIZE
     \<and> buf_used c \<le> CHANNEL_BUFFER_SIZE \<and> \<not> ch_locked c"

definition contents :: "channel \<Rightarrow> u8 list" where
  "contents c = take (buf_used c) (drop (buf_use_begin c) (ch_buf c) @ ch_buf c)"

lemma contents_length: "ch_wf c \<Longrightarrow> length (contents c) = buf_used c"
  by (auto simp: contents_def ch_wf_def CHANNEL_BUFFER_SIZE_def min_def)

lemma channel_take_spec:
  assumes wf: "ch_wf c" and run: "channel_take n c = (bytes, c')"
  shows "bytes = take n (contents c) \<and> contents c' = drop n (contents c) \<and> ch_wf c'
    \<and> other_side c' = other_side c \<and> (bytes = [] \<longrightarrow> c' = c)"
proof -
  define len where "len = min n (buf_used c)"
  have b: "buf_use_begin c < 200" "buf_used c \<le> 200" "length (ch_buf c) = 200" "len \<le> buf_used c" "\<not> ch_locked c"
    using wf by (simp_all add: ch_wf_def CHANNEL_BUFFER_SIZE_def len_def)
  have u: "uadd32 (buf_use_begin c) len = buf_use_begin c + len" using b by (simp add: uadd32_def)
  have tk: "take n (contents c) = take len (drop (buf_use_begin c) (ch_buf c) @ ch_buf c)"
    by (simp only: contents_def len_def take_take)
  have dl: "drop n (contents c) = drop len (contents c)"
    using contents_length [OF wf] by (simp add: len_def min_def)
  show ?thesis
  proof (cases "len = 0")
    case True
    then have "bytes = []" "c' = c" using run by (auto simp: channel_take_def len_def min_def split: if_splits)
    with True wf tk dl show ?thesis by simp
  next
    case False
    let ?b = "(buf_use_begin c + len) mod 200"
    have m: "(if buf_used c < n then buf_used c else n) = len" by (simp add: len_def min_def)
    have r: "bytes = take len (drop (buf_use_begin c) (ch_buf c) @ ch_buf c)"
        "c' = (if buf_used c - len = 0 then c\<lparr>buf_use_begin := 0, buf_used := 0\<rparr>
               else c\<lparr>buf_use_begin := ?b, buf_used := buf_used c - len\<rparr>)"
      using run False b unfolding channel_take_def Let_def m u by (auto simp: CHANNEL_BUFFER_SIZE_def split: if_splits)
    have nb: "bytes \<noteq> []" using r(1) False b by simp
    have "contents c' = drop len (contents c)"
    proof (cases "buf_used c - len = 0")
      case True
      then have "contents c' = []" using r(2) by (simp add: contents_def)
      moreover have "drop len (contents c) = []" using True contents_length [OF wf] by simp
      ultimately show ?thesis by simp
    next
      case more: False
      then have c': "contents c' = take (buf_used c - len) (drop ?b (ch_buf c) @ ch_buf c)" using r(2) by (simp add: contents_def)
      show ?thesis
      proof (cases "buf_use_begin c + len < 200")
        case True
        then show ?thesis using c' b by (simp add: contents_def drop_take add.commute)
      next
        case False
        then have "?b = buf_use_begin c + len - 200" using b by (simp add: mod_if)
        then have "contents c' = take (buf_used c - len) (drop (len - (200 - buf_use_begin c)) (ch_buf c))"
          using c' b False by (simp add: add.commute)
        moreover have "drop len (contents c) = take (buf_used c - len) (drop (len - (200 - buf_use_begin c)) (ch_buf c))"
          using b False by (simp add: contents_def drop_take)
        ultimately show ?thesis by simp
      qed
    qed
    moreover have "ch_wf c'" using r(2) b by (auto simp: ch_wf_def CHANNEL_BUFFER_SIZE_def)
    moreover have "other_side c' = other_side c" using r(2) by simp
    moreover have "bytes = take n (contents c)" using r(1) tk by simp
    ultimately show ?thesis using dl nb by simp
  qed
qed

lemma blit_ok: "k + length bs \<le> length xs \<Longrightarrow> blit xs k bs = Inr (take k xs @ bs @ drop (k + length bs) xs)"
  by (simp add: blit_def)

lemma channel_put_spec:
  assumes wf: "ch_wf c" and small: "length bytes + 200 < 2 ^ 32"
  shows "\<exists>c'. channel_put bytes c = Inr (min (length bytes) (200 - buf_used c), c')
    \<and> contents c' = contents c @ take (200 - buf_used c) bytes \<and> ch_wf c' \<and> other_side c' = other_side c
    \<and> (min (length bytes) (200 - buf_used c) = 0 \<longrightarrow> c' = c)"
proof -
  define len where "len = min (length bytes) (200 - buf_used c)"
  define n where "n = length bytes"
  have b: "buf_use_begin c < 200" "buf_used c \<le> 200" "length (ch_buf c) = 200" "\<not> ch_locked c"
    using wf by (simp_all add: ch_wf_def CHANNEL_BUFFER_SIZE_def)
  have l: "len \<le> 200 - buf_used c" "len \<le> n" by (simp_all add: len_def n_def)
  have u: "uadd32 (buf_used c) (length bytes) = buf_used c + length bytes" using small b by (simp add: uadd32_def)
  have u2: "uadd32 (buf_use_begin c + buf_used c) len = buf_use_begin c + buf_used c + len" using b l by (simp add: uadd32_def)
  have m: "(if buf_used c + length bytes > CHANNEL_BUFFER_SIZE then CHANNEL_BUFFER_SIZE - buf_used c else length bytes) = len"
    using b by (auto simp: len_def CHANNEL_BUFFER_SIZE_def)
  have tl: "take (200 - buf_used c) bytes = take len bytes" by (simp add: len_def min_def)
  show ?thesis
  proof (cases "len = 0")
    case True
    then have "channel_put bytes c = Inr (0, c)" unfolding channel_put_def Let_def u m by simp
    moreover have "take (200 - buf_used c) bytes = []" using True by (auto simp: len_def min_def split: if_splits)
    ultimately show ?thesis using True wf len_def by simp
  next
    case False
    let ?new = "take len bytes"
    have nl: "length ?new = len" using l by (simp add: n_def)
    obtain b' where b': "channel_put bytes c = Inr (len, c\<lparr>ch_buf := b', buf_used := buf_used c + len\<rparr>)"
      "length b' = 200" "take (buf_used c + len) (drop (buf_use_begin c) b' @ b') = contents c @ ?new"
    proof (cases "buf_use_begin c + buf_used c \<ge> 200")
      case True
      define k where "k = buf_use_begin c + buf_used c - 200"
      have k: "k + len \<le> buf_use_begin c" using True b l by (simp add: k_def)
      have "blit (ch_buf c) k ?new = Inr (take k (ch_buf c) @ ?new @ drop (k + len) (ch_buf c))"
        using k b nl by (simp add: blit_def)
      then have p: "channel_put bytes c = Inr (len, c\<lparr>ch_buf := take k (ch_buf c) @ ?new @ drop (k + len) (ch_buf c),
          buf_used := buf_used c + len\<rparr>)"
        unfolding channel_put_def Let_def u m using False True by (simp add: CHANNEL_BUFFER_SIZE_def k_def)
      have "take (buf_used c + len) (drop (buf_use_begin c) (take k (ch_buf c) @ ?new @ drop (k + len) (ch_buf c))
          @ take k (ch_buf c) @ ?new @ drop (k + len) (ch_buf c)) = contents c @ ?new"
        using k b nl True by (simp add: contents_def k_def add.commute)
      moreover have "length (take k (ch_buf c) @ ?new @ drop (k + len) (ch_buf c)) = 200" using k b nl by simp
      ultimately show thesis using p by (intro that)
    next
      case room: False
      define k where "k = buf_use_begin c + buf_used c"
      show thesis
      proof (cases "k + len > 200")
        case False
        have "blit (ch_buf c) k ?new = Inr (take k (ch_buf c) @ ?new @ drop (k + len) (ch_buf c))"
          using False b nl by (simp add: blit_def)
        then have p: "channel_put bytes c = Inr (len, c\<lparr>ch_buf := take k (ch_buf c) @ ?new @ drop (k + len) (ch_buf c),
            buf_used := buf_used c + len\<rparr>)"
          unfolding channel_put_def Let_def u m u2 using False room \<open>len \<noteq> 0\<close> by (simp add: CHANNEL_BUFFER_SIZE_def k_def)
        have "take (buf_used c + len) (drop (buf_use_begin c) (take k (ch_buf c) @ ?new @ drop (k + len) (ch_buf c))
            @ take k (ch_buf c) @ ?new @ drop (k + len) (ch_buf c)) = contents c @ ?new"
          using False b nl room by (simp add: contents_def k_def drop_take)
        moreover have "length (take k (ch_buf c) @ ?new @ drop (k + len) (ch_buf c)) = 200" using False b nl by simp
        ultimately show thesis using p by (intro that)
      next
        case True
        define l0 where "l0 = 200 - k"
        have l0: "l0 < len" "len - l0 \<le> buf_use_begin c" using True b l room by (simp_all add: l0_def k_def)
        have t0: "length (take l0 bytes) = l0" "length (take (len - l0) (drop l0 bytes)) = len - l0"
          using l0 l by (simp_all add: n_def)
        define b1 where "b1 = take k (ch_buf c) @ take l0 bytes"
        have b1: "blit (ch_buf c) k (take l0 bytes) = Inr b1" "length b1 = 200"
          using t0 b room by (simp_all add: blit_def b1_def l0_def k_def)
        let ?b' = "take (len - l0) (drop l0 bytes) @ drop (len - l0) b1"
        have b2: "blit b1 0 (take (len - l0) (drop l0 bytes)) = Inr ?b'"
          using t0 b1 l0 b by (simp add: blit_def)
        have p: "channel_put bytes c = Inr (len, c\<lparr>ch_buf := ?b', buf_used := buf_used c + len\<rparr>)"
          unfolding channel_put_def Let_def u m u2 using True room \<open>len \<noteq> 0\<close> b1 b2 l0
          by (simp add: CHANNEL_BUFFER_SIZE_def k_def l0_def)
        have s: "?new = take l0 bytes @ take (len - l0) (drop l0 bytes)"
          using l0(1) by (metis le_add_diff_inverse less_imp_le take_add)
        have "take (buf_used c + len) (drop (buf_use_begin c) ?b' @ ?b') = contents c @ ?new"
          using b l0 t0 room unfolding s by (simp add: contents_def b1_def k_def l0_def drop_take)
        moreover have "length ?b' = 200" using b1 l0 t0 b l by simp
        ultimately show thesis using p by (intro that)
      qed
    qed
    let ?c = "c\<lparr>ch_buf := b', buf_used := buf_used c + len\<rparr>"
    have "contents ?c = contents c @ take (200 - buf_used c) bytes" using b'(3) tl by (simp add: contents_def)
    moreover have "ch_wf ?c" using b b'(2) l by (simp add: ch_wf_def CHANNEL_BUFFER_SIZE_def)
    ultimately show ?thesis using b'(1) False unfolding len_def [symmetric] by (intro exI [of _ ?c]) simp
  qed
qed


section \<open>Both directions at once\<close>

text \<open>Sends and receives on the two ends, in any order; the flag says which end sends or receives.\<close>

datatype chan_op = Send bool "u8 list" | Recv bool nat

type_synonym chan_log = "bool \<Rightarrow> u8 list"

fun run_chan :: "(bool \<Rightarrow> ipc_handle) \<Rightarrow> chan_op list \<Rightarrow> chan_log \<Rightarrow> chan_log \<Rightarrow> ipc_state
    \<Rightarrow> (chan_log \<times> chan_log \<times> ipc_state) res" where
  "run_chan hs [] sent got s = Inr (sent, got, s)"
| "run_chan hs (Send e bytes # ops) sent got s =
     (case channel_write [] (hs e) 0 bytes s of
        Inr (Some (n, s1)) \<Rightarrow> run_chan hs ops (sent(e := sent e @ take n bytes)) got s1
      | Inr None \<Rightarrow> Inl Self_deadlock
      | Inl f \<Rightarrow> Inl f)"
| "run_chan hs (Recv e n # ops) sent got s =
     (case channel_read [] (hs e) 0 n s of
        Inr (Some (bytes, s1)) \<Rightarrow> run_chan hs ops sent (got(e := got e @ bytes)) s1
      | Inr None \<Rightarrow> Inl Self_deadlock
      | Inl f \<Rightarrow> Inl f)"

definition small_op :: "chan_op \<Rightarrow> bool" where
  "small_op p = (case p of Send e bytes \<Rightarrow> length bytes + 200 < 2 ^ 32 | Recv e n \<Rightarrow> True)"

definition linked :: "(bool \<Rightarrow> ipc_handle) \<Rightarrow> ipc_state \<Rightarrow> bool" where
  "linked hs s \<longleftrightarrow> ih_chan (hs True) \<noteq> ih_chan (hs False)
     \<and> (\<forall>e. \<not> has_flag (ih_mode (hs e)) FM_BLOCKING
          \<and> (\<exists>c. ip_chans s (ih_chan (hs e)) = Some c \<and> ch_wf c \<and> other_side c = Some (ih_chan (hs (\<not> e)))))"

text \<open>What waits to be received at an end.\<close>

definition pending :: "(bool \<Rightarrow> ipc_handle) \<Rightarrow> ipc_state \<Rightarrow> bool \<Rightarrow> u8 list" where
  "pending hs s e = (case ip_chans s (ih_chan (hs e)) of None \<Rightarrow> [] | Some c \<Rightarrow> contents c)"

lemma linked_ne: "linked hs s \<Longrightarrow> ih_chan (hs e) = ih_chan (hs d) \<longleftrightarrow> e = d"
  unfolding linked_def by (cases e; cases d) auto

lemma linked_end:
  assumes "linked hs s"
  obtains c where "ip_chans s (ih_chan (hs e)) = Some c" "ch_wf c" "other_side c = Some (ih_chan (hs (\<not> e)))"
    "\<not> has_flag (ih_mode (hs e)) FM_BLOCKING"
  using assms unfolding linked_def by blast

lemma linked_update:
  assumes l: "linked hs s" and c: "ip_chans s (ih_chan (hs e)) = Some c" "ch_wf c'" "other_side c' = other_side c"
  shows "linked hs (s\<lparr>ip_chans := (ip_chans s)(ih_chan (hs e) \<mapsto> c'), ip_resumed := r\<rparr>)"
    and "pending hs (s\<lparr>ip_chans := (ip_chans s)(ih_chan (hs e) \<mapsto> c'), ip_resumed := r\<rparr>) = (pending hs s)(e := contents c')"
proof -
  let ?s = "s\<lparr>ip_chans := (ip_chans s)(ih_chan (hs e) \<mapsto> c'), ip_resumed := r\<rparr>"
  have get: "ip_chans ?s (ih_chan (hs d)) = (if d = e then Some c' else ip_chans s (ih_chan (hs d)))" for d
    using linked_ne [OF l] by simp
  have "other_side c = Some (ih_chan (hs (\<not> e)))" using linked_end [OF l, of e] c(1) by auto
  note oc = this
  have base: "\<exists>x. ip_chans s (ih_chan (hs d)) = Some x \<and> ch_wf x \<and> other_side x = Some (ih_chan (hs (\<not> d)))" for d
    using linked_end [OF l, of d] by blast
  have "\<exists>x. ip_chans ?s (ih_chan (hs d)) = Some x \<and> ch_wf x \<and> other_side x = Some (ih_chan (hs (\<not> d)))" for d
    using c oc base [of d] unfolding get by (cases "d = e") simp_all
  then show "linked hs ?s" using l unfolding linked_def by blast
  show "pending hs ?s = (pending hs s)(e := contents c')"
    
  proof
    fix d show "pending hs ?s d = ((pending hs s)(e := contents c')) d"
      unfolding pending_def get by simp
  qed
qed

lemma read_step:
  assumes l: "linked hs s"
  shows "\<exists>s1. channel_read [] (hs e) 0 n s = Inr (Some (take n (pending hs s e), s1)) \<and> linked hs s1
    \<and> pending hs s1 = (pending hs s)(e := drop n (pending hs s e))"
proof -
  obtain c where c: "ip_chans s (ih_chan (hs e)) = Some c" "ch_wf c" "\<not> has_flag (ih_mode (hs e)) FM_BLOCKING"
    using l unfolding linked_def by blast
  obtain bytes c' where t: "channel_take n c = (bytes, c')" by (cases "channel_take n c")
  note sp = channel_take_spec [OF c(2) t]
  have p: "pending hs s e = contents c" using c(1) by (simp add: pending_def)
  have lk: "\<not> ch_locked c" using c(2) by (simp add: ch_wf_def)
  show ?thesis
  proof (cases "bytes = []")
    case True
    then have "channel_read [] (hs e) 0 n s = Inr (Some ([], s))"
      using c t lk by (simp add: channel_read_def channel_read_loop.simps)
    moreover have "drop n (contents c) = contents c" using sp True by auto
    ultimately show ?thesis using sp True p l by (simp add: fun_upd_idem)
  next
    case False
    let ?s1 = "s\<lparr>ip_chans := (ip_chans s)(ih_chan (hs e) \<mapsto> c'), ip_resumed := ip_resumed s @ [ih_chan (hs e)]\<rparr>"
    have "channel_read [] (hs e) 0 n s = Inr (Some (bytes, ?s1))"
      using c t lk False by (simp add: channel_read_def channel_read_loop.simps resume_on_chan_def)
    moreover have "linked hs ?s1" "pending hs ?s1 = (pending hs s)(e := contents c')"
      using linked_update [OF l c(1)] sp by simp_all
    ultimately show ?thesis using sp unfolding p by (intro exI [of _ ?s1]) (simp del: fun_upd_apply)
  qed
qed

lemma write_step:
  assumes l: "linked hs s" and small: "length bytes + 200 < 2 ^ 32"
  shows "\<exists>n s1. channel_write [] (hs e) 0 bytes s = Inr (Some (n, s1)) \<and> linked hs s1
    \<and> n = min (length bytes) (200 - length (pending hs s (\<not> e)))
    \<and> pending hs s1 = (pending hs s)((\<not> e) := pending hs s (\<not> e) @ take n bytes)"
proof -
  obtain tc where tc: "ip_chans s (ih_chan (hs e)) = Some tc" "other_side tc = Some (ih_chan (hs (\<not> e)))"
    "\<not> has_flag (ih_mode (hs e)) FM_BLOCKING" using l unfolding linked_def by blast
  obtain c where c: "ip_chans s (ih_chan (hs (\<not> e))) = Some c" "ch_wf c" using l unfolding linked_def by blast
  obtain c' where put: "channel_put bytes c = Inr (min (length bytes) (200 - buf_used c), c')"
    "contents c' = contents c @ take (200 - buf_used c) bytes" "ch_wf c'" "other_side c' = other_side c"
    "min (length bytes) (200 - buf_used c) = 0 \<longrightarrow> c' = c"
    using channel_put_spec [OF c(2) small] by (elim exE conjE) (rule that; assumption)
  have p: "pending hs s (\<not> e) = contents c" "length (contents c) = buf_used c"
    using c by (simp_all add: pending_def contents_length)
  have lk: "\<not> ch_locked c" using c(2) by (simp add: ch_wf_def)
  let ?n = "min (length bytes) (200 - buf_used c)"
  have tk: "take ?n bytes = take (200 - buf_used c) bytes" by (simp add: min_def)
  show ?thesis
  proof (cases "?n = 0")
    case True
    then have "channel_write [] (hs e) 0 bytes s = Inr (Some (0, s))"
      using tc c put(1) lk by (simp add: channel_write_def channel_write_loop.simps)
    then show ?thesis using True l unfolding p by (intro exI [of _ 0] exI [of _ s]) (simp add: fun_upd_idem p)
  next
    case False
    let ?s1 = "s\<lparr>ip_chans := (ip_chans s)(ih_chan (hs (\<not> e)) \<mapsto> c'), ip_resumed := ip_resumed s @ [ih_chan (hs (\<not> e))]\<rparr>"
    have "channel_write [] (hs e) 0 bytes s = Inr (Some (?n, ?s1))"
      using tc c put(1) lk False by (simp add: channel_write_def channel_write_loop.simps resume_on_chan_def)
    moreover have "linked hs ?s1" "pending hs ?s1 = (pending hs s)((\<not> e) := contents c')"
      using linked_update [OF l c(1) put(3,4)] by simp_all
    ultimately show ?thesis using put(2) tk unfolding p by (intro exI [of _ ?n] exI [of _ ?s1]) (simp del: fun_upd_apply)
  qed
qed

lemma run_chan_fifo:
  assumes "linked hs s" "\<forall>p \<in> set ops. small_op p" "\<forall>e. sent e = got (\<not> e) @ pending hs s (\<not> e)"
  shows "\<exists>sent' got' s'. run_chan hs ops sent got s = Inr (sent', got', s') \<and> linked hs s'
    \<and> (\<forall>e. sent' e = got' (\<not> e) @ pending hs s' (\<not> e))"
  using assms
proof (induction ops arbitrary: sent got s)
  case (Cons p ops)
  show ?case
  proof (cases p)
    case (Send e bytes)
    have sm: "length bytes + 200 < 2 ^ 32" using Cons.prems(2) Send by (simp add: small_op_def)
    obtain n s1 where w: "channel_write [] (hs e) 0 bytes s = Inr (Some (n, s1))" "linked hs s1"
      "pending hs s1 = (pending hs s)((\<not> e) := pending hs s (\<not> e) @ take n bytes)" using write_step [OF Cons.prems(1) sm] by blast
    have "\<forall>d. (sent(e := sent e @ take n bytes)) d = got (\<not> d) @ pending hs s1 (\<not> d)"
      using Cons.prems(3) w(3) by simp
    from Cons.IH [OF w(2) _ this] Cons.prems(2) show ?thesis using w(1) Send by (simp del: fun_upd_apply)
  next
    case (Recv e n)
    obtain s1 where r: "channel_read [] (hs e) 0 n s = Inr (Some (take n (pending hs s e), s1))" "linked hs s1"
      "pending hs s1 = (pending hs s)(e := drop n (pending hs s e))" using read_step [OF Cons.prems(1)] by blast
    have "\<forall>d. sent d = (got(e := got e @ take n (pending hs s e))) (\<not> d) @ pending hs s1 (\<not> d)"
      using Cons.prems(3) r(3) by auto
    from Cons.IH [OF r(2) _ this] Cons.prems(2) show ?thesis using r(1) Recv by (simp del: fun_upd_apply)
  qed
qed simp


section \<open>Making a channel\<close>

lemma take_blocks_spec:
  "take_blocks n h = (k, h') \<Longrightarrow> k \<le> n \<and> hp_live h' = hp_live h + int k"
proof (induction n arbitrary: h k h')
  case (Suc n)
  obtain ok h1 where m: "heap_malloc h = (ok, h1)" by (cases "heap_malloc h")
  show ?case
  proof (cases ok)
    case True
    obtain j h2 where t: "take_blocks n h1 = (j, h2)" by (cases "take_blocks n h1")
    have "k = Suc j" "h' = h2" using Suc.prems m True t by auto
    with Suc.IH [OF t] heap_malloc_live [OF m] True show ?thesis by simp
  next
    case False
    with Suc.prems m heap_malloc_live [OF m] show ?thesis by simp
  qed
qed simp

lemma fresh_side_ok: "ch_wf (fresh_side x)" "contents (fresh_side x) = []" "other_side (fresh_side x) = Some x"
  by (simp_all add: ch_wf_def contents_def fresh_side_def CHANNEL_BUFFER_SIZE_def)

lemma mode_not_blocking: "\<not> has_flag (FM_READ OR FM_WRITE OR 0) FM_BLOCKING"
  by (simp add: has_flag_def fs_flags)

definition ends :: "ipc_handle \<Rightarrow> ipc_handle \<Rightarrow> bool \<Rightarrow> ipc_handle" where
  "ends ha hb e = (if e then ha else hb)"

lemma make_channel_linked:
  assumes "make_channel False xa xb h s0 = (Some (ha, hb), h', s)" "xa \<noteq> xb"
  shows "linked (ends ha hb) s" and "pending (ends ha hb) s e = []"
  using assms fresh_side_ok mode_not_blocking
  by (auto simp: make_channel_def linked_def ends_def pending_def Let_def split: prod.splits if_splits)

section \<open>Blocking transfers\<close>

definition side_ok :: "nat \<Rightarrow> ipc_state \<Rightarrow> bool" where
  "side_ok x s \<longleftrightarrow> (\<exists>c. ip_chans s x = Some c \<and> ch_wf c)"

definition side_filled :: "nat \<Rightarrow> ipc_state \<Rightarrow> bool" where
  "side_filled x s \<longleftrightarrow> (\<exists>c. ip_chans s x = Some c \<and> ch_wf c \<and> contents c \<noteq> [])"

lemma read_pass:
  assumes f: "side_filled x s" and r: "length got < req"
  shows "\<exists>b s1. b \<noteq> [] \<and> side_ok x s1 \<and> length (got @ b) \<le> req
    \<and> channel_read_loop True others x req got s =
        (if length (got @ b) < req then channel_read_loop True others x req (got @ b) s1 else Inr (Some (got @ b, s1)))"
proof -
  obtain c where c: "ip_chans s x = Some c" "ch_wf c" "contents c \<noteq> []" using f by (auto simp: side_filled_def)
  have lk: "\<not> ch_locked c" using c(2) by (simp add: ch_wf_def)
  obtain b c' where t: "channel_take (req - length got) c = (b, c')" by (cases "channel_take (req - length got) c")
  note sp = channel_take_spec [OF c(2) t]
  have nb: "b \<noteq> []" using sp c(3) r by auto
  let ?s1 = "resume_on_chan x (s\<lparr>ip_chans := (ip_chans s)(x \<mapsto> c')\<rparr>)"
  have "channel_read_loop True others x req got s =
      (if length (got @ b) < req then channel_read_loop True others x req (got @ b) ?s1 else Inr (Some (got @ b, ?s1)))"
    using c t lk nb by (subst channel_read_loop.simps) (simp add: Let_def)
  moreover have "side_ok x ?s1" using sp by (simp add: side_ok_def resume_on_chan_def)
  moreover have "length (got @ b) \<le> req" using sp r by simp
  ultimately show ?thesis using nb by blast
qed

lemma read_wait:
  assumes ok: "side_ok x s" and n: "\<not> side_filled x s" and r: "length got < req"
  shows "channel_read_loop True (w # ws) x req got s = channel_read_loop True ws x req got (w s)"
proof -
  obtain c where c: "ip_chans s x = Some c" "ch_wf c" "contents c = []" using ok n by (auto simp: side_ok_def side_filled_def)
  have lk: "\<not> ch_locked c" using c(2) by (simp add: ch_wf_def)
  obtain b c' where t: "channel_take (req - length got) c = (b, c')" by (cases "channel_take (req - length got) c")
  have "b = []" using channel_take_spec [OF c(2) t] c(3) by simp
  then show ?thesis using c t lk r by (subst channel_read_loop.simps) simp
qed

lemma read_loop_returns:
  assumes "req - length got \<le> length others" and "side_ok x s" and "length got < req"
    and "\<forall>w \<in> set others. \<forall>t. side_ok x t \<longrightarrow> side_filled x (w t)"
  shows "\<exists>bytes s'. channel_read_loop True others x req got s = Inr (Some (bytes, s')) \<and> length bytes = req"
  using assms
proof (induction "req - length got" arbitrary: others got s rule: less_induct)
  case less
  have step: "\<exists>bytes s'. channel_read_loop True ws x req got t = Inr (Some (bytes, s')) \<and> length bytes = req"
    if t: "side_filled x t" "req - length got \<le> Suc (length ws)" "set ws \<subseteq> set others" for t ws
  proof -
    obtain b s1 where b: "b \<noteq> []" "side_ok x s1" "length (got @ b) \<le> req"
      and run: "channel_read_loop True ws x req got t =
        (if length (got @ b) < req then channel_read_loop True ws x req (got @ b) s1 else Inr (Some (got @ b, s1)))"
      using read_pass [OF t(1) less.prems(3)] by blast
    have pos: "0 < length b" using b(1) by simp
    show ?thesis
    proof (cases "length (got @ b) < req")
      case True
      have "\<exists>bytes s'. channel_read_loop True ws x req (got @ b) s1 = Inr (Some (bytes, s')) \<and> length bytes = req"
      proof (rule less.hyps)
        show "req - length (got @ b) < req - length got" using pos less.prems(3) unfolding length_append by linarith
        show "req - length (got @ b) \<le> length ws" using pos t(2) unfolding length_append by linarith
        show "\<forall>w \<in> set ws. \<forall>t. side_ok x t \<longrightarrow> side_filled x (w t)" using less.prems(4) t(3) by blast
      qed (use b True in auto)
      with run True show ?thesis by simp
    next
      case False
      with run b(3) show ?thesis by simp
    qed
  qed
  show ?case
  proof (cases "side_filled x s")
    case True
    then show ?thesis using step [of s others] less.prems(1) by simp
  next
    case False
    obtain w ws where w: "others = w # ws" using less.prems(1,3) by (cases others) auto
    have "side_filled x (w s)" using less.prems(2,4) w by simp
    with step [of "w s" ws] read_wait [OF less.prems(2) False less.prems(3), of w ws] less.prems(1) w show ?thesis by auto
  qed
qed

section \<open>Properties\<close>


definition wit_heap :: heap where "wit_heap = \<lparr>hp_answers = [], hp_live = 0\<rparr>"
definition wit_ipc :: ipc_state where "wit_ipc = \<lparr>ip_chans = \<lambda>_. None, ip_resumed = []\<rparr>"

lemma wit_channel:
  "make_channel False 1 2 wit_heap wit_ipc =
     (Some (\<lparr>ih_chan = 1, ih_mode = 3\<rparr>, \<lparr>ih_chan = 2, ih_mode = 3\<rparr>), \<lparr>hp_answers = [], hp_live = 6\<rparr>,
      wit_ipc\<lparr>ip_chans := (\<lambda>_. None)(1 \<mapsto> fresh_side 2, 2 \<mapsto> fresh_side 1)\<rparr>)"
  by (simp add: make_channel_def wit_heap_def wit_ipc_def heap_malloc_def next_answer_def eval_nat_numeral fs_flags Let_def)


text \<open>A blocking read returns all the bytes it was asked for, when each time it waits the other threads put
  at least one byte into its buffer before it is woken: it does not starve, and it never returns short.\<close>

theorem blocking_read_returns:
  assumes "has_flag (ih_mode h) FM_BLOCKING" and "0 < n" and "n \<le> length others" and "side_ok (ih_chan h) s"
    and "\<forall>w \<in> set others. \<forall>t. side_ok (ih_chan h) t \<longrightarrow> side_filled (ih_chan h) (w t)"
  shows "\<exists>bytes s'. channel_read others h 0 n s = Inr (Some (bytes, s')) \<and> length bytes = n"
  using read_loop_returns [of n "[]" others "ih_chan h" s] assms by (simp add: channel_read_def)

text \<open>Another thread that puts one byte into the side at address 1, when there is room.\<close>

definition wit_writer :: "ipc_state \<Rightarrow> ipc_state" where
  "wit_writer s = (case ip_chans s 1 of None \<Rightarrow> s
     | Some c \<Rightarrow> (case channel_put [7] c of Inr (k, c1) \<Rightarrow> s\<lparr>ip_chans := (ip_chans s)(1 \<mapsto> c1)\<rparr> | Inl e \<Rightarrow> s))"

lemma wit_writer_fills: "side_ok 1 t \<Longrightarrow> side_filled 1 (wit_writer t)"
proof -
  assume "side_ok 1 t"
  then obtain c where c: "ip_chans t 1 = Some c" "ch_wf c" by (auto simp: side_ok_def)
  obtain k c' where p: "channel_put [7] c = Inr (k, c')" "contents c' = contents c @ take (200 - buf_used c) [7]" "ch_wf c'"
    using channel_put_spec [OF c(2), of "[7]"] by auto
  have "length (contents c) = buf_used c" by (rule contents_length [OF c(2)])
  then have "contents c' \<noteq> []" using p(2) by (cases "buf_used c < 200") auto
  then show ?thesis using c p by (simp add: wit_writer_def side_filled_def)
qed

theorem blocking_read_returns_witness:
  "\<exists>bytes s'. channel_read [wit_writer, wit_writer] \<lparr>ih_chan = 1, ih_mode = FM_READ OR FM_BLOCKING\<rparr> 0 2
       (wit_ipc\<lparr>ip_chans := (\<lambda>_. None)(1 \<mapsto> fresh_side 2)\<rparr>) = Inr (Some (bytes, s')) \<and> length bytes = 2"
proof (rule blocking_read_returns)
  show "has_flag (ih_mode \<lparr>ih_chan = 1, ih_mode = FM_READ OR FM_BLOCKING\<rparr>) FM_BLOCKING"
    by (simp add: has_flag_def fs_flags)
  show "side_ok (ih_chan \<lparr>ih_chan = 1, ih_mode = FM_READ OR FM_BLOCKING\<rparr>) (wit_ipc\<lparr>ip_chans := (\<lambda>_. None)(1 \<mapsto> fresh_side 2)\<rparr>)"
    using fresh_side_ok by (simp add: side_ok_def)
qed (use wit_writer_fills in simp_all)

text \<open>Making a channel leaks nothing: whichever of its six allocations fails, the blocks taken before it
  are given back and the store is unchanged; when none fails, the two sides are empty and point to each other.\<close>

theorem make_channel_no_leak:
  assumes "xa \<noteq> xb"
  shows "case make_channel blocking xa xb h s of
      (None, h', s') \<Rightarrow> hp_live h' = hp_live h \<and> s' = s
    | (Some (ha, hb), h', s') \<Rightarrow> hp_live h' = hp_live h + 6
        \<and> ip_chans s' (ih_chan ha) = Some (fresh_side (ih_chan hb)) \<and> ip_chans s' (ih_chan hb) = Some (fresh_side (ih_chan ha))"
  using assms take_blocks_spec [of 6 h] by (auto simp: make_channel_def Let_def split: prod.splits)

theorem make_channel_no_leak_witness:
  "case make_channel True 1 2 \<lparr>hp_answers = [True, True, False], hp_live = 5\<rparr> wit_ipc of
     (None, h', s') \<Rightarrow> hp_live h' = 5 \<and> s' = wit_ipc | (Some _, h', s') \<Rightarrow> hp_live h' = 11"
  using make_channel_no_leak [where xa = 1 and xb = 2 and blocking = True and s = wit_ipc
      and h = "\<lparr>hp_answers = [True, True, False], hp_live = 5\<rparr>"]
  by (auto split: prod.splits option.splits)

text \<open>The room check of \<open>channel_write\<close> is a 32-bit sum: with bytes waiting, a request so long that
  the sum wraps is not cut to the room left, and the copy runs past the end of the buffer.\<close>

theorem channel_write_overflow:
  assumes "ch_wf c" and "buf_use_begin c = 0" and "0 < buf_used c" and "buf_used c < 200"
    and "length bytes = 2 ^ 32 - buf_used c"
  shows "channel_put bytes c = Inl Bad_access"
proof -
  have "uadd32 (buf_used c) (length bytes) = 0" using assms(4,5) by (simp add: uadd32_def)
  moreover have "length bytes \<noteq> 0" "take (length bytes) bytes = bytes" using assms(4,5) by simp_all
  moreover have "uadd32 (buf_used c) (length bytes) > CHANNEL_BUFFER_SIZE \<longleftrightarrow> False" using calculation(1) by simp
  ultimately show ?thesis
    using assms by (simp add: channel_put_def blit_def ch_wf_def CHANNEL_BUFFER_SIZE_def)
qed

theorem channel_write_overflow_witness:
  "channel_put (replicate (2 ^ 32 - 100) 0) ((fresh_side 2)\<lparr>buf_used := 100\<rparr>) = Inl Bad_access"
  by (rule channel_write_overflow) (simp_all add: ch_wf_def fresh_side_def CHANNEL_BUFFER_SIZE_def)

end
