(* ===== verification/Prng.thy ===== *)
theory Prng
  imports Kogata_Base
begin

text \<open>
  The kernel's pseudo-random generator (src/kernel/core/prng.c): a multiplicative generator modulo
  \<open>2 ^ 31 - 1\<close>, computed in 32 bits, that every 100 words adds a byte of its entropy pool to its state. The
  critical sections make each operation atomic.
\<close>

section \<open>The code\<close>

record prng_state =
  prng_x :: u32
  prng_n :: nat
  prng_entropy :: "u8 list"

definition EPOOLSIZE :: nat where "EPOOLSIZE = 2048"
definition prng_a :: u32 where "prng_a = 16807"
definition prng_m :: u32 where "prng_m = 0x7FFFFFFF"

definition prng_init :: prng_state where
  "prng_init = \<lparr>prng_x = 211, prng_n = 0, prng_entropy = []\<rparr>"

text \<open>The pool is a stack: \<open>entropy[--entropy_count]\<close> is its last element, a signed \<open>char\<close>.\<close>

definition prng_word :: "prng_state \<Rightarrow> u16 \<times> prng_state" where
  "prng_word s =
     (let s1 = (if prng_n s + 1 \<ge> 100
                then (if prng_entropy s \<noteq> []
                      then s\<lparr>prng_n := 0, prng_x := prng_x s + scast (last (prng_entropy s)),
                             prng_entropy := butlast (prng_entropy s)\<rparr>
                      else s\<lparr>prng_n := 0\<rparr>)
                else s\<lparr>prng_n := prng_n s + 1\<rparr>);
          x = (prng_x s1 * prng_a) mod prng_m
      in (ucast (x AND 0xFFFF), s1\<lparr>prng_x := x\<rparr>))"

text \<open>The words are stored little-endian, two bytes each; an odd length ends with one low byte.\<close>

fun prng_bytes_loop :: "nat \<Rightarrow> prng_state \<Rightarrow> u8 list \<times> prng_state" where
  "prng_bytes_loop 0 s = ([], s)"
| "prng_bytes_loop (Suc k) s =
     (case prng_word s of (w, s1) \<Rightarrow>
        (case prng_bytes_loop k s1 of (bs, s2) \<Rightarrow> (ucast w # ucast (drop_bit 8 w) # bs, s2)))"

definition prng_bytes :: "nat \<Rightarrow> prng_state \<Rightarrow> u8 list \<times> prng_state" where
  "prng_bytes nbytes s =
     (case prng_bytes_loop (nbytes div 2) s of (bs, s1) \<Rightarrow>
        if odd nbytes then (case prng_word s1 of (w, s2) \<Rightarrow> (bs @ [ucast (w AND 0xFF)], s2)) else (bs, s1))"

fun prng_add_entropy :: "u8 list \<Rightarrow> prng_state \<Rightarrow> prng_state" where
  "prng_add_entropy [] s = s"
| "prng_add_entropy (b # bs) s =
     (if length (prng_entropy s) < EPOOLSIZE - 1
      then prng_add_entropy bs (s\<lparr>prng_entropy := prng_entropy s @ [b]\<rparr>) else s)"

section \<open>What is guaranteed\<close>

definition prng_inv :: "prng_state \<Rightarrow> bool" where
  "prng_inv s \<longleftrightarrow> prng_n s < 100 \<and> length (prng_entropy s) < EPOOLSIZE"

lemma prng_word_inv: "prng_inv s \<Longrightarrow> prng_word s = (w, s') \<Longrightarrow> prng_inv s' \<and> prng_x s' < prng_m"
  by (auto simp: prng_inv_def prng_word_def Let_def EPOOLSIZE_def prng_m_def word_mod_less_divisor split: if_splits)

lemma prng_bytes_loop_inv:
  "prng_inv s \<Longrightarrow> prng_bytes_loop k s = (bs, s') \<Longrightarrow> prng_inv s' \<and> length bs = 2 * k"
proof (induction k arbitrary: s bs)
  case (Suc k)
  obtain w s1 where w: "prng_word s = (w, s1)" by (cases "prng_word s")
  obtain cs s2 where c: "prng_bytes_loop k s1 = (cs, s2)" by (cases "prng_bytes_loop k s1")
  have "prng_inv s1" using prng_word_inv [OF Suc.prems(1) w] by simp
  from Suc.IH [OF this] c w Suc.prems(2) show ?case by auto
qed auto

lemma prng_bytes_inv: "prng_inv s \<Longrightarrow> prng_bytes n s = (bs, s') \<Longrightarrow> prng_inv s' \<and> length bs = n"
proof -
  assume inv: "prng_inv s" and run: "prng_bytes n s = (bs, s')"
  obtain cs s1 where c: "prng_bytes_loop (n div 2) s = (cs, s1)" by (cases "prng_bytes_loop (n div 2) s")
  note l = prng_bytes_loop_inv [OF inv c]
  show ?thesis
  proof (cases "odd n")
    case True
    obtain w s2 where w: "prng_word s1 = (w, s2)" by (cases "prng_word s1")
    have "prng_inv s2" using prng_word_inv [OF _ w] l by simp
    then show ?thesis using run c w True l by (auto simp: prng_bytes_def)
  next
    case False
    then show ?thesis using run c l by (auto simp: prng_bytes_def)
  qed
qed

lemma prng_add_entropy_inv: "prng_inv s \<Longrightarrow> prng_inv (prng_add_entropy bs s)"
  by (induction bs arbitrary: s) (auto simp: prng_inv_def EPOOLSIZE_def)

text \<open>A call sequence: how many bytes are drawn, or which entropy is added.\<close>

datatype prng_call = Draw nat | Feed "u8 list"

fun prng_run :: "prng_call list \<Rightarrow> prng_state \<Rightarrow> u8 list \<times> prng_state" where
  "prng_run [] s = ([], s)"
| "prng_run (Draw n # cs) s =
     (case prng_bytes n s of (bs, s1) \<Rightarrow> (case prng_run cs s1 of (rest, s2) \<Rightarrow> (bs @ rest, s2)))"
| "prng_run (Feed bs # cs) s = prng_run cs (prng_add_entropy bs s)"

lemma prng_run_inv: "prng_inv s \<Longrightarrow> prng_inv (snd (prng_run cs s))"
proof (induction cs s rule: prng_run.induct)
  case (2 n cs s)
  obtain bs s1 where b: "prng_bytes n s = (bs, s1)" by (cases "prng_bytes n s")
  with 2 prng_bytes_inv [OF 2(2) b] show ?case by (auto split: prod.splits)
qed (auto simp: prng_add_entropy_inv)

section \<open>Properties\<close>

text \<open>Whatever is drawn and fed, in any order, the generator never reads or writes outside its entropy
  pool, its counter stays below 100, and a draw gives exactly as many bytes as asked.\<close>

theorem prng_bounds:
  "prng_inv (snd (prng_run cs prng_init))
     \<and> length (fst (prng_bytes n (snd (prng_run cs prng_init)))) = n"
proof -
  have "prng_inv prng_init" by (simp add: prng_inv_def prng_init_def EPOOLSIZE_def)
  from prng_run_inv [OF this, of cs] prng_bytes_inv show ?thesis by (metis prod.collapse)
qed

end
