(* ===== verification/Linked.thy ===== *)
theory Linked
  imports Kogata_Base
begin

text \<open>Part of the prelude: the linked lists of the kernel, seen as the list of the addresses they run through.\<close>

section \<open>Lists linked through a field of the objects in memory\<close>

text \<open>
  \<open>linked m nx p as\<close>: from the pointer \<open>p\<close>, following the field \<open>nx\<close> of the objects in the memory \<open>m\<close>, one meets
  the addresses \<open>as\<close> and then the null pointer.
\<close>

fun linked :: "(nat \<Rightarrow> 'a option) \<Rightarrow> ('a \<Rightarrow> nat option) \<Rightarrow> nat option \<Rightarrow> nat list \<Rightarrow> bool" where
  "linked m nx p [] = (p = None)"
| "linked m nx p (a # as) = (p = Some a \<and> (case m a of None \<Rightarrow> False | Some t \<Rightarrow> linked m nx (nx t) as))"

lemma linked_None [simp]: "linked m nx None as \<longleftrightarrow> as = []"
  by (cases as) auto

lemma linked_cong:
  "(\<And>a. a \<in> set as \<Longrightarrow> map_option nx (m a) = map_option nx (m' a)) \<Longrightarrow> linked m nx p as = linked m' nx p as"
proof (induction as arbitrary: p)
  case Nil
  then show ?case by simp
next
  case (Cons a as)
  have a: "map_option nx (m a) = map_option nx (m' a)" using Cons.prems by simp
  have ih: "linked m nx q as = linked m' nx q as" for q using Cons.IH Cons.prems by simp
  from a ih show ?case by (cases "m a"; cases "m' a") auto
qed

lemma linked_update_other: "a \<notin> set as \<Longrightarrow> linked (m(a := x)) nx p as = linked m nx p as"
  by (rule linked_cong) auto

lemma linked_update_same:
  "m a = Some t \<Longrightarrow> nx t' = nx t \<Longrightarrow> linked (m(a := Some t')) nx p as = linked m nx p as"
  by (rule linked_cong) auto

lemma linked_dom: "linked m nx p as \<Longrightarrow> a \<in> set as \<Longrightarrow> \<exists>t. m a = Some t"
  by (induction as arbitrary: p) (auto split: option.splits)

text \<open>Hanging a new object behind the last one.\<close>

lemma linked_snoc:
  assumes "linked m nx p (as @ [l])" and "m l = Some t" and "nx t' = Some a" and "a \<noteq> l"
    and "m a = Some ta" and "nx ta = None" and "a \<notin> set as" and "l \<notin> set as"
  shows "linked (m(l := Some t')) nx p (as @ [l, a])"
  using assms by (induction as arbitrary: p) (auto split: option.splits)

lemma linked_distinct_bound:
  assumes "distinct as" and "set as \<subseteq> {1 ..< (2 :: nat) ^ 32}"
  shows "length as < 2 ^ 32"
proof -
  have "length as = card (set as)" using assms(1) by (simp add: distinct_card)
  also have "\<dots> \<le> card {1 ..< (2 :: nat) ^ 32}" using assms(2) by (intro card_mono) auto
  finally show ?thesis by simp
qed

text \<open>Taking the object \<open>b\<close> out, by letting the one before it point behind it.\<close>

lemma linked_skip:
  assumes "linked m nx p (us @ z # b # vs)" and "distinct (us @ z # b # vs)" and "m z = Some tz" and "m b = Some tb"
    and "nx tz' = nx tb"
  shows "linked (m(z \<mapsto> tz')) nx p (us @ z # vs)"
  using assms
proof (induction us arbitrary: p)
  case Nil
  then have "linked m nx (nx tb) vs" by (auto split: option.splits)
  moreover have "z \<notin> set vs" using Nil.prems by simp
  ultimately have "linked (m(z \<mapsto> tz')) nx (nx tb) vs" by (simp add: linked_update_other)
  with Nil.prems show ?case by (simp del: fun_upd_apply add: fun_upd_same)
next
  case (Cons u us)
  then show ?case by (auto split: option.splits)
qed

lemma in_list_split_before:
  assumes "b \<in> set (v # w)" and "b \<noteq> v"
  obtains us z vs where "v # w = us @ z # b # vs"
proof -
  from assms have "b \<in> set w" by simp
  then obtain as vs where w: "w = as @ b # vs" by (meson split_list)
  show ?thesis
  proof (cases as rule: rev_cases)
    case Nil
    with w have "v # w = [] @ v # b # vs" by simp
    then show ?thesis by (rule that)
  next
    case (snoc us z)
    with w have "v # w = (v # us) @ z # b # vs" by simp
    then show ?thesis by (rule that)
  qed
qed

end
