(* ===== verification/Worker_Tasks.thy ===== *)
theory Worker_Tasks
  imports Btree
begin

text \<open>
  The time-ordered task queue of src/kernel/core/worker.c: a search tree keyed by 64-bit deadlines in microseconds,
  the kernel's clock, and the deadline of the next task. The threads that run the tasks are in theory
  \<open>Worker\<close>.
\<close>

text \<open>
  A task; its address tells it from the others. The functions that the kernel pushes as tasks are told apart by name.
\<close>

datatype task_fun =
    Usleep_resume_on  \<comment> \<open>\<open>_usleep_resume_on_v\<close>: wakes the thread given as data\<close>
  | Exit_cleanup      \<comment> \<open>\<open>exit_cleanup_task\<close>: deletes the thread given as data\<close>
  | Token_expiration  \<comment> \<open>\<open>token_expiration_check\<close>\<close>
  | Other_task nat

record worker_task =
  wt_addr :: nat
  wt_time :: u64
  wt_fun :: task_fun
  wt_data :: nat

record task_state =
  k_time :: u64
  next_task_time :: u64
  tasks :: "(u64, worker_task) btree"
  wk_heap :: heap

definition UINT64_MAX :: u64 where "UINT64_MAX = 0xFFFFFFFFFFFFFFFF"

definition uint64_key_cmp_fun :: "u64 \<Rightarrow> u64 \<Rightarrow> int" where
  "uint64_key_cmp_fun x y = (if x = y then 0 else if x > y then 1 else -1)"

text \<open>\<open>addr\<close> is the address \<open>malloc\<close> gives the task.\<close>

definition worker_push_in :: "nat \<Rightarrow> int \<Rightarrow> task_fun \<Rightarrow> nat \<Rightarrow> task_state \<Rightarrow> bool \<times> task_state" where
  "worker_push_in addr usecs f data s =
     (case heap_malloc (wk_heap s) of (ok, h1) \<Rightarrow>
        if \<not> ok then (False, s\<lparr>wk_heap := h1\<rparr>)
        else
          (let t = \<lparr>wt_addr = addr, wt_time = k_time s + word_of_int usecs, wt_fun = f, wt_data = data\<rparr>
           in case btree_add h1 (tasks s) (wt_time t) t of (added, bt, h2) \<Rightarrow>
                (True, s\<lparr>tasks := bt, wk_heap := h2,
                         next_task_time := (if wt_time t < next_task_time s then wt_time t else next_task_time s)\<rparr>)))"

definition worker_push :: "nat \<Rightarrow> task_fun \<Rightarrow> nat \<Rightarrow> task_state \<Rightarrow> bool \<times> task_state" where
  "worker_push addr f data s = worker_push_in addr 0 f data s"

definition get_kernel_time :: "task_state \<Rightarrow> u64" where
  "get_kernel_time s = k_time s"

text \<open>The part of \<open>worker_thread\<close> under the mutex: the task to run now, if one is due.\<close>

definition take_due_task :: "task_state \<Rightarrow> (worker_task option \<times> task_state) res" where
  "take_due_task s =
     (case btree_upper (tasks s) 0 of
        None \<Rightarrow> Inr (None, s\<lparr>next_task_time := UINT64_MAX\<rparr>)
      | Some (key, t) \<Rightarrow>
          (let s1 = s\<lparr>next_task_time := wt_time t\<rparr>
           in if wt_time t \<le> k_time s1 then
                (case btree_remove_v (wk_heap s1) (tasks s1) (wt_time t) t of
                   Inl e \<Rightarrow> Inl e
                 | Inr (released, bt, h) \<Rightarrow> Inr (Some t, s1\<lparr>tasks := bt, wk_heap := h\<rparr>))
              else Inr (None, s1)))"

end
