(* ===== verification/Thread.thy ===== *)
theory Thread
  imports Linked Prng Worker_Tasks
begin

text \<open>
  The threads of the kernel (src/kernel/core/thread.c): critical sections, the queue of runnable threads, the
  scheduler, waiting and waking, exit and kill, and the timer interrupt with the kernel clock of worker.c.

  A thread is an object in memory, and the queue and the list of waiters are linked through fields of these objects.
  The code switches stacks in the middle of a function; what a suspended thread does when it is resumed is therefore
  a value, its saved context: \<open>Begin\<close> for the first instructions of a new thread, \<open>In_yield\<close>, \<open>In_wait\<close> for the
  second half of \<open>wait_on_many\<close>, \<open>In_irq\<close> for the return from the timer interrupt. Tracing output is left out.
\<close>

section \<open>Threads\<close>

datatype thread_state = T_STATE_LOADING | T_STATE_RUNNING | T_STATE_PAUSED | T_STATE_FINISHED

definition CL_EXCL :: nat where "CL_EXCL = 3"
definition CL_NOINT :: nat where "CL_NOINT = 2"
definition CL_NOSWITCH :: nat where "CL_NOSWITCH = 1"
definition CL_USER :: nat where "CL_USER = 0"

datatype continuation = Begin nat nat | In_yield | In_wait nat | In_irq

record saved_context =
  sv_cont :: continuation
  sv_int :: bool

record thread =
  ctx :: saved_context
  t_state :: thread_state
  last_ran :: u64
  critical_level :: nat
  proc :: "nat option"
  next_in_queue :: "nat option"
  waiting_on :: "nat list"
  next_waiter :: "nat option"
  must_exit :: bool

record sched =
  th :: "nat \<Rightarrow> thread option"
  current_thread :: "nat option"
  waiters :: "nat option"
  queue_first_thread :: "nat option"
  queue_last_thread :: "nat option"
  int_flag :: bool
  s_tasks :: task_state
  s_prng :: prng_state
  proc_last_ran :: "nat \<Rightarrow> u64"
  workers :: "nat option list"

definition set_thread :: "nat \<Rightarrow> thread \<Rightarrow> sched \<Rightarrow> sched" where
  "set_thread a t s = s\<lparr>th := (th s)(a \<mapsto> t)\<rparr>"

text \<open>The current thread, and its address: a null pointer is not checked for when it is followed.\<close>

definition self :: "sched \<Rightarrow> (nat \<times> thread) res" where
  "self s = (case current_thread s of None \<Rightarrow> Inl Bad_access
             | Some a \<Rightarrow> rbind (deref (th s) a) (\<lambda>t. Inr (a, t)))"

text \<open>The fields of a new thread, from \<open>t->ctx.eip = run_thread\<close> on.\<close>

definition fresh_thread :: "nat \<Rightarrow> nat \<Rightarrow> thread" where
  "fresh_thread entry data =
     \<lparr>ctx = \<lparr>sv_cont = Begin entry data, sv_int = False\<rparr>, t_state = T_STATE_LOADING, last_ran = 0,
      critical_level = CL_EXCL, proc = None, next_in_queue = None, waiting_on = [], next_waiter = None,
      must_exit = False\<rparr>"

section \<open>Critical sections\<close>

definition enter_critical :: "nat \<Rightarrow> sched \<Rightarrow> (nat \<times> sched) res" where
  "enter_critical level s =
     (case current_thread s of
        None \<Rightarrow> Inr (CL_EXCL, s\<lparr>int_flag := False\<rparr>)
      | Some a \<Rightarrow> rbind (deref (th s) a) (\<lambda>t.
          (let prev_level = critical_level t;
               lv = (if level > prev_level then level else prev_level)
           in Inr (prev_level, (set_thread a (t\<lparr>critical_level := lv\<rparr>) s)\<lparr>int_flag := (lv < CL_NOINT)\<rparr>))))"

definition exit_critical :: "nat \<Rightarrow> sched \<Rightarrow> sched res" where
  "exit_critical prev_level s =
     (case current_thread s of
        None \<Rightarrow> Inr (s\<lparr>int_flag := False\<rparr>)
      | Some a \<Rightarrow> rbind (deref (th s) a) (\<lambda>t.
          (let lv = (if prev_level < critical_level t then prev_level else critical_level t)
           in Inr ((set_thread a (t\<lparr>critical_level := lv\<rparr>) s)\<lparr>int_flag := (lv < CL_NOINT)\<rparr>))))"

section \<open>The queue of runnable threads\<close>

definition enqueue_thread :: "nat \<Rightarrow> bool \<Rightarrow> sched \<Rightarrow> sched res" where
  "enqueue_thread a just_ran s =
     rbind (deref (th s) a) (\<lambda>t. rbind (rassert (t_state t = T_STATE_RUNNING)) (\<lambda>_.
       case queue_first_thread s of
         None \<Rightarrow> Inr ((set_thread a (t\<lparr>next_in_queue := None\<rparr>) s)
                        \<lparr>queue_first_thread := Some a, queue_last_thread := Some a\<rparr>)
       | Some first \<Rightarrow>
           if just_ran then
             (let s1 = set_thread a (t\<lparr>next_in_queue := None\<rparr>) s
              in case queue_last_thread s1 of
                   None \<Rightarrow> Inl Bad_access
                 | Some l \<Rightarrow> rbind (deref (th s1) l) (\<lambda>tl.
                     Inr ((set_thread l (tl\<lparr>next_in_queue := Some a\<rparr>) s1)\<lparr>queue_last_thread := Some a\<rparr>)))
           else Inr ((set_thread a (t\<lparr>next_in_queue := Some first\<rparr>) s)\<lparr>queue_first_thread := Some a\<rparr>)))"

definition dequeue_thread :: "sched \<Rightarrow> (nat option \<times> sched) res" where
  "dequeue_thread s =
     (case queue_first_thread s of
        None \<Rightarrow> Inr (None, s)
      | Some a \<Rightarrow> rbind (deref (th s) a) (\<lambda>t.
          Inr (Some a,
               (if next_in_queue t = None then s\<lparr>queue_first_thread := None, queue_last_thread := None\<rparr>
                else s\<lparr>queue_first_thread := next_in_queue t\<rparr>))))"

text \<open>The walk of \<open>remove_thread_from_queue\<close> from the thread \<open>it\<close> on.\<close>

fun unlink_from :: "nat \<Rightarrow> nat \<Rightarrow> nat option \<Rightarrow> sched \<Rightarrow> sched res" where
  "unlink_from n a None s = Inr s"
| "unlink_from n a (Some it) s =
     (if n = 0 then Inl Diverged
      else rbind (deref (th s) it) (\<lambda>ti.
        if next_in_queue ti = Some a then
          rbind (deref (th s) a) (\<lambda>t.
            (let s1 = set_thread it (ti\<lparr>next_in_queue := next_in_queue t\<rparr>) s
             in Inr (if next_in_queue t = None then s1\<lparr>queue_last_thread := Some a\<rparr> else s1)))
        else unlink_from (n - 1) a (next_in_queue ti) s))"

definition remove_thread_from_queue :: "nat \<Rightarrow> sched \<Rightarrow> sched res" where
  "remove_thread_from_queue a s =
     (if queue_first_thread s = Some a then
        rbind (deref (th s) a) (\<lambda>t.
          Inr (if next_in_queue t = None then s\<lparr>queue_first_thread := None, queue_last_thread := None\<rparr>
               else s\<lparr>queue_first_thread := next_in_queue t\<rparr>))
      else unlink_from (2 ^ 32) a (queue_first_thread s) s)"

section \<open>The scheduler\<close>

definition le_bytes :: "nat \<Rightarrow> u8 list" where
  "le_bytes p = map (\<lambda>i. of_nat (p div 256 ^ i)) [0 ..< 4]"

text \<open>
  One round of \<open>run_scheduler\<close>, up to the jump to the context of the next thread. When no thread is runnable, the
  processor halts with interrupts on, and the function is run again after the next interrupt.
\<close>

definition run_scheduler :: "sched \<Rightarrow> sched res" where
  "run_scheduler s =
     rbind (case current_thread s of
              None \<Rightarrow> Inr s
            | Some a \<Rightarrow> rbind (deref (th s) a) (\<lambda>t.
                if t_state t = T_STATE_RUNNING then
                  (let now = get_kernel_time (s_tasks s);
                       s1 = set_thread a (t\<lparr>last_ran := now\<rparr>) s;
                       s2 = (case proc t of None \<Rightarrow> s1 | Some p \<Rightarrow> s1\<lparr>proc_last_ran := (proc_last_ran s1)(p := now)\<rparr>)
                   in enqueue_thread a True s2)
                else Inr s))
       (\<lambda>s3. rbind (dequeue_thread (s3\<lparr>current_thread := None\<rparr>)) (\<lambda>(next_thread, s4).
          case next_thread of
            None \<Rightarrow> Inr (s4\<lparr>int_flag := True\<rparr>)
          | Some b \<Rightarrow> Inr (s4\<lparr>s_prng := prng_add_entropy (le_bytes b) (s_prng s4), current_thread := Some b\<rparr>)))"

text \<open>\<open>save_context_and_enter_scheduler\<close> saves the flags and where to go on, and clears the interrupt flag.\<close>

definition save_context :: "continuation \<Rightarrow> sched \<Rightarrow> sched res" where
  "save_context k s =
     rbind (self s) (\<lambda>(a, t).
       Inr ((set_thread a (t\<lparr>ctx := \<lparr>sv_cont = k, sv_int = int_flag s\<rparr>\<rparr>) s)\<lparr>int_flag := False\<rparr>))"

text \<open>The second half of \<open>wait_on_many\<close>: the thread takes itself off the list of waiters.\<close>

fun unlink_waiter :: "nat \<Rightarrow> nat \<Rightarrow> nat \<Rightarrow> sched \<Rightarrow> sched res" where
  "unlink_waiter n a w s =
     (if n = 0 then Inl Diverged
      else rbind (deref (th s) w) (\<lambda>tw.
        case next_waiter tw of
          None \<Rightarrow> Inl Assert_failed
        | Some w' \<Rightarrow>
            if w' = a then
              rbind (deref (th s) a) (\<lambda>t. Inr (set_thread w (tw\<lparr>next_waiter := next_waiter t\<rparr>) s))
            else unlink_waiter (n - 1) a w' s))"

declare unlink_waiter.simps [simp del]

definition wait_end :: "nat \<Rightarrow> sched \<Rightarrow> (bool \<times> sched) res" where
  "wait_end st s =
     rbind (self s) (\<lambda>(a, t).
       (let s1 = set_thread a (t\<lparr>waiting_on := []\<rparr>) s
        in rbind (if waiters s1 = Some a then Inr (s1\<lparr>waiters := next_waiter t\<rparr>)
                  else (case waiters s1 of
                          None \<Rightarrow> Inl Assert_failed
                        | Some w \<Rightarrow> unlink_waiter (2 ^ 32) a w s1)) (\<lambda>s2.
           rbind (exit_critical st s2) (\<lambda>s3.
           rbind (self s3) (\<lambda>(_, t3). Inr (\<not> must_exit t3, s3))))))"

text \<open>
  The jump to the context of the current thread and what it does first: \<open>run_thread\<close> for a new thread; the flags are
  restored for the others. The value is the result of the \<open>wait_on_many\<close> that returns, if one does.
\<close>

definition resume_context :: "sched \<Rightarrow> (bool option \<times> sched) res" where
  "resume_context s =
     rbind (self s) (\<lambda>(a, t).
       case sv_cont (ctx t) of
         Begin entry data \<Rightarrow>
           rbind (rassert (t_state t = T_STATE_RUNNING)) (\<lambda>_.
           rbind (exit_critical CL_USER s) (\<lambda>s1. Inr (None, s1)))
       | In_yield \<Rightarrow> Inr (None, s\<lparr>int_flag := sv_int (ctx t)\<rparr>)
       | In_wait st \<Rightarrow> rbind (wait_end st (s\<lparr>int_flag := sv_int (ctx t)\<rparr>)) (\<lambda>(r, s1). Inr (Some r, s1))
       | In_irq \<Rightarrow> Inr (None, s\<lparr>int_flag := sv_int (ctx t)\<rparr>))"

text \<open>A switch: the current thread is suspended in \<open>k\<close>, and the next one is resumed, if there is one.\<close>

definition enter_scheduler :: "sched \<Rightarrow> (bool option \<times> sched) res" where
  "enter_scheduler s =
     rbind (run_scheduler s) (\<lambda>s1.
       if current_thread s1 = None then Inr (None, s1) else resume_context s1)"

definition switch_from :: "continuation \<Rightarrow> sched \<Rightarrow> (bool option \<times> sched) res" where
  "switch_from k s = rbind (save_context k s) enter_scheduler"

section \<open>Operations of threads\<close>

definition start_thread :: "nat \<Rightarrow> sched \<Rightarrow> sched res" where
  "start_thread a s =
     rbind (deref (th s) a) (\<lambda>t. rbind (rassert (t_state t = T_STATE_LOADING)) (\<lambda>_.
     rbind (enter_critical CL_NOINT (set_thread a (t\<lparr>t_state := T_STATE_RUNNING\<rparr>) s)) (\<lambda>(st, s1).
     rbind (enqueue_thread a False s1) (\<lambda>s2. exit_critical st s2))))"

definition yield :: "sched \<Rightarrow> (bool option \<times> sched) res" where
  "yield s =
     rbind (rassert (current_thread s \<noteq> None)) (\<lambda>_. rbind (self s) (\<lambda>(a, t).
     rbind (rassert (critical_level t \<noteq> CL_EXCL)) (\<lambda>_. switch_from In_yield s)))"

text \<open>The first half of \<open>wait_on_many\<close>, to the moment where another thread runs.\<close>

definition wait_on_many :: "nat list \<Rightarrow> sched \<Rightarrow> (bool option \<times> sched) res" where
  "wait_on_many xs s =
     rbind (rassert (current_thread s \<noteq> None)) (\<lambda>_. rbind (self s) (\<lambda>(a, t).
     rbind (rassert (critical_level t \<noteq> CL_EXCL)) (\<lambda>_. rbind (rassert (length xs > 0)) (\<lambda>_.
     rbind (enter_critical CL_NOINT s) (\<lambda>(st, s1).
     rbind (self s1) (\<lambda>(_, t1).
       switch_from (In_wait st)
         ((set_thread a (t1\<lparr>waiting_on := xs, next_waiter := waiters s1, t_state := T_STATE_PAUSED\<rparr>) s1)
            \<lparr>waiters := Some a\<rparr>)))))))"

definition wait_on :: "nat \<Rightarrow> sched \<Rightarrow> (bool option \<times> sched) res" where
  "wait_on x s = wait_on_many [x] s"

text \<open>The loop of \<open>resume_on\<close> over the list of waiters, from the thread \<open>p\<close> on.\<close>

fun resume_loop :: "nat \<Rightarrow> nat \<Rightarrow> nat option \<Rightarrow> bool \<Rightarrow> sched \<Rightarrow> (bool \<times> sched) res" where
  "resume_loop n x None ret s = Inr (ret, s)"
| "resume_loop n x (Some a) ret s =
     (if n = 0 then Inl Diverged
      else rbind (deref (th s) a) (\<lambda>t.
        rbind (if x \<in> set (waiting_on t) \<and> t_state t = T_STATE_PAUSED then
                 rbind (enqueue_thread a False (set_thread a (t\<lparr>t_state := T_STATE_RUNNING\<rparr>) s))
                   (\<lambda>s1. Inr (True, s1))
               else Inr (ret, s)) (\<lambda>(ret1, s1).
        rbind (deref (th s1) a) (\<lambda>t1. resume_loop (n - 1) x (next_waiter t1) ret1 s1))))"

definition resume_on :: "nat \<Rightarrow> sched \<Rightarrow> (bool \<times> sched) res" where
  "resume_on x s =
     rbind (enter_critical CL_NOINT s) (\<lambda>(st, s1).
     rbind (resume_loop (2 ^ 32) x (waiters s1) False s1) (\<lambda>(ret, s2).
     rbind (exit_critical st s2) (\<lambda>s3. Inr (ret, s3))))"

text \<open>\<open>addr\<close> is the address \<open>malloc\<close> gives the task that is pushed.\<close>

definition usleep :: "nat \<Rightarrow> int \<Rightarrow> sched \<Rightarrow> (bool option \<times> sched) res" where
  "usleep addr usecs s =
     (case current_thread s of
        None \<Rightarrow> Inr (None, s)
      | Some a \<Rightarrow>
          (case worker_push_in addr usecs Usleep_resume_on a (s_tasks s) of
             (ok, ts) \<Rightarrow> if ok then wait_on a (s\<lparr>s_tasks := ts\<rparr>) else Inr (None, s\<lparr>s_tasks := ts\<rparr>)))"

definition delete_thread :: "nat \<Rightarrow> sched \<Rightarrow> sched res" where
  "delete_thread a s =
     rbind (deref (th s) a) (\<lambda>t. rbind (rassert (t_state t = T_STATE_FINISHED)) (\<lambda>_.
       Inr (s\<lparr>th := (th s)(a := None)\<rparr>)))"

definition exit_thread :: "nat \<Rightarrow> sched \<Rightarrow> (bool option \<times> sched) res" where
  "exit_thread addr s =
     rbind (enter_critical CL_NOSWITCH s) (\<lambda>(st, s1). rbind (self s1) (\<lambda>(a, _).
       (let s2 = s1\<lparr>s_tasks := snd (worker_push addr Exit_cleanup a (s_tasks s1))\<rparr>
        in rbind (self s2) (\<lambda>(_, t).
           rbind (exit_critical st (set_thread a (t\<lparr>t_state := T_STATE_FINISHED\<rparr>) s2)) yield))))"

text \<open>\<open>kill_thread\<close>: its beginning, and one round of its loop; the loop ends when the thread has finished.\<close>

definition kill_begin :: "nat \<Rightarrow> sched \<Rightarrow> (nat \<times> sched) res" where
  "kill_begin a s =
     rbind (rassert (current_thread s \<noteq> Some a)) (\<lambda>_.
     rbind (enter_critical CL_NOSWITCH s) (\<lambda>(st, s1).
     rbind (deref (th s1) a) (\<lambda>t. Inr (st, set_thread a (t\<lparr>must_exit := True\<rparr>) s1))))"

definition kill_round :: "nat \<Rightarrow> sched \<Rightarrow> (bool option \<times> sched) res" where
  "kill_round a s =
     rbind (deref (th s) a) (\<lambda>t.
       if t_state t = T_STATE_FINISHED then Inr (None, s)
       else
         rbind (if t_state t = T_STATE_PAUSED
                then enqueue_thread a False (set_thread a (t\<lparr>t_state := T_STATE_RUNNING\<rparr>) s)
                else Inr s) yield)"

section \<open>Time\<close>

definition TASK_SWITCH_FREQUENCY :: int where "TASK_SWITCH_FREQUENCY = 100"

fun wake_worker :: "nat option list \<Rightarrow> sched \<Rightarrow> sched res" where
  "wake_worker [] s = Inr s"
| "wake_worker (None # ws) s = wake_worker ws s"
| "wake_worker (Some w # ws) s =
     rbind (resume_on w s) (\<lambda>(r, s1). if r then Inr s1 else wake_worker ws s1)"

definition notify_time_pass :: "int \<Rightarrow> sched \<Rightarrow> sched res" where
  "notify_time_pass usecs s =
     (let ts = (s_tasks s)\<lparr>k_time := k_time (s_tasks s) + word_of_int usecs\<rparr>;
          s1 = s\<lparr>s_tasks := ts\<rparr>
      in if next_task_time ts \<le> k_time ts then wake_worker (workers s1) s1 else Inr s1)"

definition irq0_handler :: "sched \<Rightarrow> sched res" where
  "irq0_handler s = notify_time_pass (1000000 div TASK_SWITCH_FREQUENCY) s"

definition threading_irq0_handler :: "sched \<Rightarrow> (bool option \<times> sched) res" where
  "threading_irq0_handler s =
     (case current_thread s of
        None \<Rightarrow> Inr (None, s)
      | Some a \<Rightarrow> rbind (deref (th s) a) (\<lambda>t.
          if critical_level t = CL_USER then switch_from In_irq s else Inr (None, s)))"

text \<open>
  \<open>idt_irq_handler\<close> of src/kernel/core/idt.c, for an interrupt with the handler \<open>h\<close>; the acknowledgement of the
  interrupt controller is left out. What follows the switch is run when the interrupted thread is resumed; it is
  \<open>irq_maybe_exit\<close>. When the processor was idle, the scheduler is run again after the interrupt.
\<close>

definition idt_irq_handler :: "nat \<Rightarrow> (sched \<Rightarrow> sched res) option \<Rightarrow> sched \<Rightarrow> (bool option \<times> sched) res" where
  "idt_irq_handler err_code h s =
     rbind (enter_critical CL_EXCL s) (\<lambda>(st, s1).
     rbind (case h of None \<Rightarrow> Inr s1 | Some f \<Rightarrow> f s1) (\<lambda>s2.
     rbind (exit_critical st s2) (\<lambda>s3.
       if err_code = 0 then threading_irq0_handler s3 else Inr (None, s3))))"

definition irq_maybe_exit :: "nat \<Rightarrow> bool \<Rightarrow> sched \<Rightarrow> (bool option \<times> sched) res" where
  "irq_maybe_exit addr in_user s =
     (case current_thread s of
        None \<Rightarrow> Inr (None, s)
      | Some a \<Rightarrow> rbind (deref (th s) a) (\<lambda>t.
          if in_user \<and> must_exit t then exit_thread addr s else Inr (None, s)))"

definition interrupt :: "nat \<Rightarrow> (sched \<Rightarrow> sched res) option \<Rightarrow> sched \<Rightarrow> (bool option \<times> sched) res" where
  "interrupt err_code h s =
     rbind (idt_irq_handler err_code h s) (\<lambda>(r, s1).
       if current_thread s = None then enter_scheduler s1 else Inr (r, s1))"

text \<open>The start of the system: the first thread, whose memory is at \<open>a\<close>, is started and scheduled.\<close>

definition threading_setup :: "nat \<Rightarrow> nat \<Rightarrow> nat \<Rightarrow> sched \<Rightarrow> (bool option \<times> sched) res" where
  "threading_setup a cont arg s =
     rbind (start_thread a (set_thread a (fresh_thread cont arg) s)) enter_scheduler"

end
