(* ===== verification/Thread_Inv.thy ===== *)
theory Thread_Inv
  imports Thread
begin

text \<open>
  The invariant of the scheduler and the contract of each primitive of theory \<open>Thread\<close>. The queue is read as a list
  \<open>q\<close> and the list of waiters as a list \<open>w\<close>; a runnable thread other than the running one is in the queue exactly
  once, and a paused thread is among the waiters.
\<close>

section \<open>The invariant\<close>

fun is_wait :: "continuation \<Rightarrow> bool" where
  "is_wait (In_wait _) = True"
| "is_wait _ = False"

fun ctx_ok :: "continuation \<Rightarrow> bool \<Rightarrow> nat \<Rightarrow> bool" where
  "ctx_ok (Begin _ _) i l = (l = 3)"
| "ctx_ok In_yield i l = (l < 3 \<and> i = (l < 2))"
| "ctx_ok (In_wait st) i l = (l = 2 \<and> \<not> i \<and> st \<le> 2)"
| "ctx_ok In_irq i l = (l = 0 \<and> i)"

definition sched_rep :: "sched \<Rightarrow> nat list \<Rightarrow> nat list \<Rightarrow> bool" where
  "sched_rep s q w \<longleftrightarrow>
     linked (th s) next_in_queue (queue_first_thread s) q
     \<and> queue_last_thread s = (if q = [] then None else Some (last q))
     \<and> linked (th s) next_waiter (waiters s) w \<and> distinct q \<and> distinct w"

text \<open>\<open>x\<close> is the thread that is runnable and not queued, \<open>c\<close> the one whose saved context is stale.\<close>

definition thr_ok :: "nat option \<Rightarrow> nat option \<Rightarrow> nat set \<Rightarrow> nat set \<Rightarrow> nat \<Rightarrow> thread \<Rightarrow> bool" where
  "thr_ok x c Q W a t \<longleftrightarrow>
     0 < a \<and> a < 2 ^ 32 \<and> critical_level t \<le> 3
     \<and> (a \<in> Q \<longleftrightarrow> t_state t = T_STATE_RUNNING \<and> x \<noteq> Some a)
     \<and> (if c = Some a then t_state t = T_STATE_RUNNING \<and> a \<notin> W
        else ctx_ok (sv_cont (ctx t)) (sv_int (ctx t)) (critical_level t)
             \<and> (a \<in> W \<longleftrightarrow> is_wait (sv_cont (ctx t)))
             \<and> (t_state t = T_STATE_PAUSED \<longrightarrow> is_wait (sv_cont (ctx t)))
             \<and> (is_wait (sv_cont (ctx t)) \<longrightarrow> t_state t = T_STATE_RUNNING \<or> t_state t = T_STATE_PAUSED))"

definition threads_ok :: "nat option \<Rightarrow> nat option \<Rightarrow> (nat \<Rightarrow> thread option) \<Rightarrow> nat list \<Rightarrow> nat list \<Rightarrow> bool" where
  "threads_ok x c m q w \<longleftrightarrow> (\<forall>a t. m a = Some t \<longrightarrow> thr_ok x c (set q) (set w) a t)"

definition inv_at :: "sched \<Rightarrow> nat list \<Rightarrow> nat list \<Rightarrow> bool" where
  "inv_at s q w \<longleftrightarrow>
     sched_rep s q w \<and> threads_ok (current_thread s) (current_thread s) (th s) q w
     \<and> (case current_thread s of
          None \<Rightarrow> q = [] \<and> int_flag s
        | Some a \<Rightarrow> \<exists>t. th s a = Some t \<and> int_flag s = (critical_level t < 2))"

definition sched_inv :: "sched \<Rightarrow> bool" where
  "sched_inv s \<longleftrightarrow> (\<exists>q w. inv_at s q w)"

lemma threads_okD: "threads_ok x c m q w \<Longrightarrow> m a = Some t \<Longrightarrow> thr_ok x c (set q) (set w) a t"
  unfolding threads_ok_def by blast

lemma threads_okI: "(\<And>a t. m a = Some t \<Longrightarrow> thr_ok x c (set q) (set w) a t) \<Longrightarrow> threads_ok x c m q w"
  unfolding threads_ok_def by blast

text \<open>The links do not matter to a thread's own conditions.\<close>

definition no_links :: "thread \<Rightarrow> thread" where
  "no_links t = t\<lparr>next_in_queue := None, next_waiter := None\<rparr>"

definition same_threads :: "(nat \<Rightarrow> thread option) \<Rightarrow> (nat \<Rightarrow> thread option) \<Rightarrow> bool" where
  "same_threads m m' \<longleftrightarrow> (\<forall>a. map_option no_links (m a) = map_option no_links (m' a))"

lemma thr_ok_no_links: "thr_ok x c Q W a (no_links t) = thr_ok x c Q W a t"
  by (simp add: thr_ok_def no_links_def)

lemma same_threadsD:
  assumes "same_threads m m'" and "m' a = Some t'"
  obtains t where "m a = Some t" and "no_links t = no_links t'"
  using assms unfolding same_threads_def
  by (metis (no_types, opaque_lifting) map_option_eq_Some option.simps(9))

lemma same_threadsD2:
  assumes "same_threads m m'" and "m a = Some t"
  obtains t' where "m' a = Some t'" and "no_links t = no_links t'"
  using assms unfolding same_threads_def
  by (metis (no_types, opaque_lifting) map_option_eq_Some option.simps(9))

lemma same_threads_refl [simp]: "same_threads m m"
  by (simp add: same_threads_def)

lemma same_threads_trans: "same_threads m m1 \<Longrightarrow> same_threads m1 m2 \<Longrightarrow> same_threads m m2"
  by (simp add: same_threads_def)

lemma same_threads_upd:
  "m a = Some t \<Longrightarrow> no_links t' = no_links t \<Longrightarrow> same_threads m (m(a \<mapsto> t'))"
  by (simp add: same_threads_def)

lemma same_threads_upd2:
  "same_threads m m' \<Longrightarrow> m' a = Some t \<Longrightarrow> no_links t' = no_links t \<Longrightarrow> same_threads m (m'(a \<mapsto> t'))"
  by (erule same_threads_trans) (rule same_threads_upd)

lemma threads_ok_same:
  assumes "same_threads m m'" and "threads_ok x c m q w"
  shows "threads_ok x c m' q w"
proof (rule threads_okI)
  fix a t'
  assume "m' a = Some t'"
  with assms(1) obtain t where t: "m a = Some t" "no_links t = no_links t'" by (rule same_threadsD)
  from threads_okD [OF assms(2) t(1)] have "thr_ok x c (set q) (set w) a (no_links t)" by (simp add: thr_ok_no_links)
  with t(2) show "thr_ok x c (set q) (set w) a t'" by (simp add: thr_ok_no_links)
qed

lemma no_links_simps [simp]:
  "no_links (t\<lparr>next_in_queue := p\<rparr>) = no_links t"
  "no_links (t\<lparr>next_waiter := p\<rparr>) = no_links t"
  by (simp_all add: no_links_def)

lemma no_links_fields:
  assumes "no_links t = no_links t'"
  shows "t_state t' = t_state t" and "ctx t' = ctx t" and "critical_level t' = critical_level t"
    and "must_exit t' = must_exit t" and "waiting_on t' = waiting_on t" and "proc t' = proc t"
  using assms by (cases t; cases t'; simp add: no_links_def)+

section \<open>The queue\<close>

lemma enqueue_spec:
  assumes rep: "sched_rep s q w" and a: "th s a = Some t" "t_state t = T_STATE_RUNNING" and new: "a \<notin> set q"
  obtains m f l where "enqueue_thread a jr s = Inr (s\<lparr>th := m, queue_first_thread := f, queue_last_thread := l\<rparr>)"
    and "same_threads (th s) m" and "linked m next_in_queue f (if jr then q @ [a] else a # q)"
    and "l = Some (last (if jr then q @ [a] else a # q))" and "linked m next_waiter (waiters s) w"
proof -
  have last: "queue_last_thread s = (if q = [] then None else Some (last q))"
    and lq: "linked (th s) next_in_queue (queue_first_thread s) q" and lw: "linked (th s) next_waiter (waiters s) w"
    and d: "distinct q"
    using rep by (simp_all add: sched_rep_def)
  define t0 where "t0 = t\<lparr>next_in_queue := None\<rparr>"
  define t1 where "t1 = t\<lparr>next_in_queue := queue_first_thread s\<rparr>"
  have s0: "same_threads (th s) ((th s)(a \<mapsto> t0))" and s1: "same_threads (th s) ((th s)(a \<mapsto> t1))"
    by (rule same_threads_upd [where m = "th s" and a = a]; simp add: a t0_def t1_def)+
  have w0: "linked ((th s)(a \<mapsto> t0)) next_waiter (waiters s) w" and w1: "linked ((th s)(a \<mapsto> t1)) next_waiter (waiters s) w"
    using lw linked_update_same [of "th s" a t next_waiter, OF a(1)] by (simp_all add: t0_def t1_def)
  have q0: "linked ((th s)(a \<mapsto> t0)) next_in_queue (queue_first_thread s) q"
    and q1: "linked ((th s)(a \<mapsto> t1)) next_in_queue (queue_first_thread s) q"
    using lq new by (simp_all add: linked_update_other)
  show ?thesis
  proof (cases "queue_first_thread s")
    case None
    with lq have "q = []" by simp
    with None a last show ?thesis
      by (intro that [where m = "(th s)(a \<mapsto> t0)" and f = "Some a" and l = "Some a"]) (simp_all add: enqueue_thread_def set_thread_def s0 w0, simp_all add: t0_def)
  next
    case (Some first)
    with lq have ne: "q \<noteq> []" by auto
    show ?thesis
    proof (cases jr)
      case False
      have "linked ((th s)(a \<mapsto> t1)) next_in_queue (Some a) (a # q)" using q1 by (simp add: t1_def)
      with False Some a last ne show ?thesis
        by (intro that [where m = "(th s)(a \<mapsto> t1)" and f = "Some a" and l = "queue_last_thread s"])
          (simp_all add: enqueue_thread_def set_thread_def s1 w1, simp_all add: t1_def)
    next
      case True
      define l where "l = last q"
      have ql: "q = butlast q @ [l]" "l \<in> set q" "l \<notin> set (butlast q)"
        using ne d unfolding l_def by (simp_all add: append_butlast_last_id)
          (metis append_butlast_last_id distinct_append distinct.simps(2) disjoint_iff list.set_intros(1) not_distinct_conv_prefix)
      with new have al: "a \<noteq> l" by auto
      obtain tl where tl: "th s l = Some tl" using linked_dom [OF lq ql(2)] by blast
      define m where "m = (th s)(a \<mapsto> t0, l \<mapsto> tl\<lparr>next_in_queue := Some a\<rparr>)"
      have m1: "same_threads (th s) m" unfolding m_def
        by (rule same_threads_upd2 [OF s0, of l tl]) (use al tl in simp_all)
      have m2: "linked m next_waiter (waiters s) w" unfolding m_def
        using w0 linked_update_same [of "(th s)(a \<mapsto> t0)" l tl next_waiter] al tl by simp
      have "linked m next_in_queue (queue_first_thread s) (butlast q @ [l, a])" unfolding m_def
        by (rule linked_snoc [of _ _ _ _ _ tl _ _ t0])
          (use q0 ql al tl new in \<open>auto simp: t0_def dest: in_set_butlastD\<close>)
      then have m3: "linked m next_in_queue (queue_first_thread s) (q @ [a])" using ql(1) by (metis append.assoc append_Cons append_Nil)
      show ?thesis
        by (rule that [where m = m and f = "queue_first_thread s" and l = "Some a"])
          (use True Some a last ne al tl m1 m2 m3 in \<open>simp_all add: enqueue_thread_def set_thread_def l_def m_def t0_def\<close>)
    qed
  qed
qed

lemma dequeue_spec:
  assumes rep: "sched_rep s q w"
  shows "dequeue_thread s = (case q of [] \<Rightarrow> Inr (None, s)
      | a # q' \<Rightarrow> Inr (Some a, s\<lparr>queue_first_thread := next_in_queue (the (th s a)),
                                queue_last_thread := (if q' = [] then None else queue_last_thread s)\<rparr>))"
    and "q = a # q' \<Longrightarrow> linked (th s) next_in_queue (next_in_queue (the (th s a))) q'"
proof -
  show "q = a # q' \<Longrightarrow> linked (th s) next_in_queue (next_in_queue (the (th s a))) q'"
    using rep by (auto simp: sched_rep_def split: option.splits)
  show "dequeue_thread s = (case q of [] \<Rightarrow> Inr (None, s)
      | a # q' \<Rightarrow> Inr (Some a, s\<lparr>queue_first_thread := next_in_queue (the (th s a)),
                                queue_last_thread := (if q' = [] then None else queue_last_thread s)\<rparr>))"
  proof (cases q)
    case Nil
    with rep show ?thesis by (simp add: sched_rep_def dequeue_thread_def)
  next
    case (Cons a q')
    with rep obtain t where t: "th s a = Some t" "queue_first_thread s = Some a" "linked (th s) next_in_queue (next_in_queue t) q'"
      by (auto simp: sched_rep_def split: option.splits)
    then have "next_in_queue t = None \<longleftrightarrow> q' = []" by (cases q') auto
    with t Cons show ?thesis by (auto simp: dequeue_thread_def)
  qed
qed

lemma threads_ok_upd:
  "threads_ok x c m q w \<Longrightarrow> thr_ok x c (set q) (set w) a t \<Longrightarrow> threads_ok x c (m(a \<mapsto> t)) q w"
  by (auto simp: threads_ok_def)

text \<open>Lists of threads are shorter than the walks allow.\<close>

lemma waiters_short:
  assumes "sched_rep s q w" and "threads_ok x c (th s) q w"
  shows "length w < 2 ^ 32"
proof (rule linked_distinct_bound)
  show "distinct w" using assms(1) by (simp add: sched_rep_def)
  show "set w \<subseteq> {1 ..< 2 ^ 32}"
  proof
    fix a assume "a \<in> set w"
    moreover have "linked (th s) next_waiter (waiters s) w" using assms(1) by (simp add: sched_rep_def)
    ultimately obtain t where "th s a = Some t" using linked_dom by blast
    from threads_okD [OF assms(2) this] show "a \<in> {1 ..< 2 ^ 32}" by (simp add: thr_ok_def)
  qed
qed

section \<open>The end of a wait\<close>

lemma unlink_waiter_path:
  assumes "linked (th s) next_waiter (Some v) (us @ z # b # vs)" and "length us < n" and "b \<notin> set us" and "z \<noteq> b"
    and "th s z = Some tz" and "th s b = Some tb"
  shows "unlink_waiter n b v s = Inr (set_thread z (tz\<lparr>next_waiter := next_waiter tb\<rparr>) s)"
  using assms
proof (induction us arbitrary: v n)
  case Nil
  then show ?case by (subst unlink_waiter.simps) (auto split: option.splits)
next
  case (Cons u us)
  from Cons.prems obtain tu where v: "v = u" "th s u = Some tu" "linked (th s) next_waiter (next_waiter tu) (us @ z # b # vs)"
    by (auto split: option.splits)
  then obtain v' where v': "next_waiter tu = Some v'" by (cases "next_waiter tu") auto
  have "v' \<noteq> b" using v(3) v' Cons.prems(3,4) by (cases us) auto
  moreover have "unlink_waiter (n - 1) b v' s = Inr (set_thread z (tz\<lparr>next_waiter := next_waiter tb\<rparr>) s)"
    using Cons.IH [of v' "n - 1"] v(3) v' Cons.prems by auto
  moreover have "n \<noteq> 0" using Cons.prems(2) by simp
  ultimately show ?case using v v' by (subst unlink_waiter.simps) simp
qed

text \<open>Taking the running thread \<open>b\<close> off the list of waiters.\<close>

lemma drop_waiter_spec:
  assumes rep: "sched_rep s q w" and ok: "threads_ok x c (th s) q w" and b: "b \<in> set w" "th s b = Some t"
  obtains m p where
    "(if waiters s = Some b then Inr (s\<lparr>waiters := next_waiter t\<rparr>)
      else (case waiters s of None \<Rightarrow> Inl Assert_failed | Some w0 \<Rightarrow> unlink_waiter (2 ^ 32) b w0 s))
       = Inr (s\<lparr>th := m, waiters := p\<rparr>)"
    and "same_threads (th s) m" and "m b = Some t"
    and "sched_rep (s\<lparr>th := m, waiters := p\<rparr>) q (remove1 b w)"
proof -
  have lq: "linked (th s) next_in_queue (queue_first_thread s) q" and lw: "linked (th s) next_waiter (waiters s) w"
    and d: "distinct w" "distinct q" and la: "queue_last_thread s = (if q = [] then None else Some (last q))"
    using rep by (simp_all add: sched_rep_def)
  from b(1) obtain v w' where w: "w = v # w'" by (cases w) auto
  with lw have v: "waiters s = Some v" by simp
  show ?thesis
  proof (cases "v = b")
    case True
    with lw w b(2) have "linked (th s) next_waiter (next_waiter t) w'" by simp
    then show ?thesis
      using that [where m = "th s" and p = "next_waiter t"] True w v d lq la b(2) by (simp add: sched_rep_def)
  next
    case False
    with b(1) w obtain us z vs where split: "v # w' = us @ z # b # vs" by (metis in_list_split_before)
    with lw w v have path: "linked (th s) next_waiter (Some v) (us @ z # b # vs)" by simp
    obtain tz where tz: "th s z = Some tz" using linked_dom [OF path, of z] by auto
    have dist: "distinct (us @ z # b # vs)" using d split w by simp
    have len: "length us < 2 ^ 32"
    proof -
      have "length us < length w" using split w by (metis add_Suc_right length_append length_Cons less_add_Suc1)
      with waiters_short [OF rep ok] show ?thesis by simp
    qed
    define m where "m = (th s)(z \<mapsto> tz\<lparr>next_waiter := next_waiter t\<rparr>)"
    have u: "unlink_waiter (2 ^ 32) b v s = Inr (s\<lparr>th := m\<rparr>)"
      using unlink_waiter_path [OF path len _ _ tz b(2)] dist by (simp add: set_thread_def m_def)
    have r: "remove1 b w = us @ z # vs" using w split dist by (simp add: remove1_append)
    have "linked m next_waiter (Some v) (us @ z # vs)" unfolding m_def
      by (rule linked_skip [OF path dist tz b(2)]) simp
    moreover have "linked m next_in_queue (queue_first_thread s) q" unfolding m_def
      using lq linked_update_same [of "th s" z tz next_in_queue, OF tz] by simp
    ultimately have rep': "sched_rep (s\<lparr>th := m, waiters := Some v\<rparr>) q (remove1 b w)"
      using d la r dist by (simp add: sched_rep_def)
    have "s\<lparr>th := m\<rparr> = s\<lparr>th := m, waiters := Some v\<rparr>" using v by simp
    moreover have "m b = Some t" using b(2) dist by (simp add: m_def)
    moreover have "same_threads (th s) m" unfolding m_def by (rule same_threads_upd [where m = "th s" and a = z]) (simp_all add: tz)
    ultimately show ?thesis using that [where m = m and p = "Some v"] u v False rep' by simp
  qed
qed

lemma sched_rep_same_links:
  assumes "sched_rep s q w" and "th s a = Some t" and "next_in_queue t' = next_in_queue t" and "next_waiter t' = next_waiter t"
  shows "sched_rep (set_thread a t' s) q w"
  using assms linked_update_same [of "th s" a t] by (simp add: sched_rep_def set_thread_def)

text \<open>\<open>sched_rep\<close> looks at five fields only.\<close>

lemma sched_rep_fields:
  "sched_rep s q w \<Longrightarrow> th s' = th s \<Longrightarrow> queue_first_thread s' = queue_first_thread s
     \<Longrightarrow> queue_last_thread s' = queue_last_thread s \<Longrightarrow> waiters s' = waiters s \<Longrightarrow> sched_rep s' q w"
  by (simp add: sched_rep_def)

text \<open>What the running thread looks like to the others does not depend on its context and its level.\<close>

lemma threads_ok_resume:
  assumes ok: "threads_ok (Some b) None (th s) q w" and b: "th s b = Some t" and run: "t_state t = T_STATE_RUNNING"
    and t': "t_state t' = T_STATE_RUNNING" "critical_level t' \<le> 3" and d: "distinct w"
  shows "threads_ok (Some b) (Some b) ((th s)(b \<mapsto> t')) q (remove1 b w)"
proof (rule threads_okI)
  fix a u
  assume u: "((th s)(b \<mapsto> t')) a = Some u"
  have w: "set (remove1 b w) = set w - {b}" using d by (simp add: set_remove1_eq)
  show "thr_ok (Some b) (Some b) (set q) (set (remove1 b w)) a u"
  proof (cases "a = b")
    case True
    with u have "u = t'" by simp
    with True threads_okD [OF ok b] t' run w show ?thesis by (auto simp: thr_ok_def)
  next
    case False
    with u have "th s a = Some u" by simp
    from threads_okD [OF ok this] False w show ?thesis by (auto simp: thr_ok_def)
  qed
qed

text \<open>The thread that is resumed runs on in a state that satisfies the invariant.\<close>

lemma resume_spec:
  assumes rep: "sched_rep s q w" and ok: "threads_ok (Some b) None (th s) q w" and cur: "current_thread s = Some b"
    and b: "th s b = Some t" and run: "t_state t = T_STATE_RUNNING"
  obtains v s' where "resume_context s = Inr (v, s')" and "inv_at s' q (remove1 b w)" and "current_thread s' = Some b"
    and "\<exists>t'. th s' b = Some t' \<and> critical_level t' < 3"
proof -
  note tb = threads_okD [OF ok b]
  have d: "distinct w" using rep by (simp add: sched_rep_def)
  have nw: "b \<notin> set w" if "\<not> is_wait (sv_cont (ctx t))" using tb that by (simp add: thr_ok_def)
  have same_w: "remove1 b w = w" if "\<not> is_wait (sv_cont (ctx t))" using nw [OF that] by (simp add: remove1_idem)
  show ?thesis
  proof (cases "sv_cont (ctx t)")
    case (Begin e dt)
    define s' where "s' = (set_thread b (t\<lparr>critical_level := 0\<rparr>) s)\<lparr>int_flag := True\<rparr>"
    have r: "resume_context s = Inr (None, s')"
      using cur b run Begin by (simp add: resume_context_def self_def exit_critical_def s'_def CL_USER_def CL_NOINT_def)
    have "sched_rep s' q w" unfolding s'_def
      by (rule sched_rep_fields [OF sched_rep_same_links [OF rep b, of "t\<lparr>critical_level := 0\<rparr>"]]) (simp_all add: set_thread_def)
    moreover have "threads_ok (Some b) (Some b) (th s') q (remove1 b w)"
      using threads_ok_resume [OF ok b run _ _ d, of "t\<lparr>critical_level := 0\<rparr>"] run by (simp add: s'_def set_thread_def)
    ultimately have "inv_at s' q (remove1 b w)" using cur same_w Begin by (simp add: inv_at_def s'_def set_thread_def)
    then show ?thesis by (rule that [OF r]) (simp_all add: s'_def set_thread_def cur)
  next
    case In_yield
    have r: "resume_context s = Inr (None, s\<lparr>int_flag := sv_int (ctx t)\<rparr>)"
      using cur b In_yield by (simp add: resume_context_def self_def)
    have "threads_ok (Some b) (Some b) (th s) q (remove1 b w)"
      using threads_ok_resume [OF ok b run run _ d] tb b by (simp add: thr_ok_def fun_upd_idem)
    moreover have "sched_rep (s\<lparr>int_flag := sv_int (ctx t)\<rparr>) q w" by (rule sched_rep_fields [OF rep]) simp_all
    ultimately have "inv_at (s\<lparr>int_flag := sv_int (ctx t)\<rparr>) q (remove1 b w)"
      using cur same_w In_yield tb b by (simp add: inv_at_def thr_ok_def)
    then show ?thesis by (rule that [OF r]) (use cur b tb In_yield in \<open>simp_all add: thr_ok_def\<close>)
  next
    case In_irq
    have r: "resume_context s = Inr (None, s\<lparr>int_flag := sv_int (ctx t)\<rparr>)"
      using cur b In_irq by (simp add: resume_context_def self_def)
    have "threads_ok (Some b) (Some b) (th s) q (remove1 b w)"
      using threads_ok_resume [OF ok b run run _ d] tb b by (simp add: thr_ok_def fun_upd_idem)
    moreover have "sched_rep (s\<lparr>int_flag := sv_int (ctx t)\<rparr>) q w" by (rule sched_rep_fields [OF rep]) simp_all
    ultimately have "inv_at (s\<lparr>int_flag := sv_int (ctx t)\<rparr>) q (remove1 b w)"
      using cur same_w In_irq tb b by (simp add: inv_at_def thr_ok_def)
    then show ?thesis by (rule that [OF r]) (use cur b tb In_irq in \<open>simp_all add: thr_ok_def\<close>)
  next
    case (In_wait st)
    with tb have bw: "b \<in> set w" and st: "st \<le> 2" and lv: "critical_level t = 2" by (simp_all add: thr_ok_def)
    define t1 where "t1 = t\<lparr>waiting_on := []\<rparr>"
    define s1 where "s1 = set_thread b t1 (s\<lparr>int_flag := sv_int (ctx t)\<rparr>)"
    have rep1: "sched_rep s1 q w" unfolding s1_def
      by (rule sched_rep_same_links [where t = t])
        (use b in \<open>simp_all add: t1_def sched_rep_fields [OF rep]\<close>)
    have ok1: "threads_ok (Some b) None (th s1) q w"
      unfolding s1_def set_thread_def using threads_ok_upd [OF ok, of b t1] tb by (simp add: t1_def thr_ok_def)
    have b1: "th s1 b = Some t1" by (simp add: s1_def set_thread_def)
    have cur1: "current_thread s1 = Some b" by (simp add: s1_def set_thread_def cur)
    obtain m p where drop: "(if waiters s1 = Some b then Inr (s1\<lparr>waiters := next_waiter t1\<rparr>)
        else (case waiters s1 of None \<Rightarrow> Inl Assert_failed | Some w0 \<Rightarrow> unlink_waiter (2 ^ 32) b w0 s1))
          = Inr (s1\<lparr>th := m, waiters := p\<rparr>)"
      and m: "same_threads (th s1) m" "m b = Some t1" and rep2: "sched_rep (s1\<lparr>th := m, waiters := p\<rparr>) q (remove1 b w)"
      by (rule drop_waiter_spec [OF rep1 ok1 bw b1])
    define t3 where "t3 = t1\<lparr>critical_level := st\<rparr>"
    define s3 where "s3 = (s1\<lparr>th := m(b \<mapsto> t3), waiters := p\<rparr>)\<lparr>int_flag := (st < 2)\<rparr>"
    have "wait_end st (s\<lparr>int_flag := sv_int (ctx t)\<rparr>) = Inr (\<not> must_exit t, s3)"
    proof -
      have "wait_end st (s\<lparr>int_flag := sv_int (ctx t)\<rparr>)
          = rbind (Inr (s1\<lparr>th := m, waiters := p\<rparr>)) (\<lambda>s2. rbind (exit_critical st s2) (\<lambda>s3.
              rbind (self s3) (\<lambda>(_, t3). Inr (\<not> must_exit t3, s3))))"
        using cur b by (simp add: wait_end_def self_def drop [symmetric] s1_def [symmetric] t1_def [symmetric])
          (simp add: t1_def)
      also have "\<dots> = Inr (\<not> must_exit t, s3)"
        using cur1 m(2) lv st
        by (auto simp: exit_critical_def self_def set_thread_def CL_NOINT_def s3_def t3_def t1_def)
      finally show ?thesis .
    qed
    then have r: "resume_context s = Inr (Some (\<not> must_exit t), s3)"
      using cur b In_wait by (simp add: resume_context_def self_def)
    have "sched_rep s3 q (remove1 b w)"
      using sched_rep_same_links [OF rep2, of b t1 t3] m(2)
      by (simp add: s3_def t3_def set_thread_def sched_rep_def)
    moreover have "threads_ok (Some b) (Some b) (m(b \<mapsto> t3)) q (remove1 b w)"
      using threads_ok_resume [of b "s1\<lparr>th := m\<rparr>" q w t1 t3] threads_ok_same [OF m(1) ok1] m(2) d run st
      by (simp add: t3_def t1_def)
    ultimately have "inv_at s3 q (remove1 b w)" using cur1 by (simp add: inv_at_def s3_def t3_def)
    then show ?thesis by (rule that [OF r]) (use cur1 st in \<open>simp_all add: s3_def t3_def\<close>)
  qed
qed

section \<open>The scheduler\<close>

definition pick_next :: "sched \<Rightarrow> sched res" where
  "pick_next s3 = rbind (dequeue_thread (s3\<lparr>current_thread := None\<rparr>)) (\<lambda>(next_thread, s4).
          case next_thread of
            None \<Rightarrow> Inr (s4\<lparr>int_flag := True\<rparr>)
          | Some b \<Rightarrow> Inr (s4\<lparr>s_prng := prng_add_entropy (le_bytes b) (s_prng s4), current_thread := Some b\<rparr>))"

text \<open>The next thread is the first of the queue; the processor is idle when there is none.\<close>

lemma pick_next_spec:
  assumes rep: "sched_rep s q w" and ok: "threads_ok None None (th s) q w"
  obtains v s' where "rbind (pick_next s) (\<lambda>s1. if current_thread s1 = None then Inr (None, s1) else resume_context s1) = Inr (v, s')"
    and "inv_at s' (tl q) (case q of [] \<Rightarrow> w | b # _ \<Rightarrow> remove1 b w)"
    and "current_thread s' = (case q of [] \<Rightarrow> None | b # _ \<Rightarrow> Some b)"
    and "\<forall>b. current_thread s' = Some b \<longrightarrow> (\<exists>t'. th s' b = Some t' \<and> critical_level t' < 3)"
proof (cases q)
  case Nil
  define s0 where "s0 = s\<lparr>current_thread := None\<rparr>"
  have "sched_rep s0 q w" by (rule sched_rep_fields [OF rep]) (simp_all add: s0_def)
  from dequeue_spec(1) [OF this] Nil have "pick_next s = Inr (s0\<lparr>int_flag := True\<rparr>)"
    by (simp add: pick_next_def s0_def)
  moreover have "sched_rep (s0\<lparr>int_flag := True\<rparr>) [] w" using rep Nil by (simp add: sched_rep_def s0_def)
  then have "inv_at (s0\<lparr>int_flag := True\<rparr>) [] w" using ok Nil by (simp add: inv_at_def s0_def)
  ultimately show ?thesis
    by (intro that [of None "s0\<lparr>int_flag := True\<rparr>"]) (simp_all add: Nil s0_def)
next
  case (Cons b r)
  define s0 where "s0 = s\<lparr>current_thread := None\<rparr>"
  have rep0: "sched_rep s0 q w" by (rule sched_rep_fields [OF rep]) (simp_all add: s0_def)
  define s1 where "s1 = s0\<lparr>queue_first_thread := next_in_queue (the (th s b)),
    queue_last_thread := (if r = [] then None else queue_last_thread s),
    s_prng := prng_add_entropy (le_bytes b) (s_prng s), current_thread := Some b\<rparr>"
  have pick: "pick_next s = Inr s1"
    using dequeue_spec(1) [OF rep0] Cons by (simp add: pick_next_def s1_def s0_def)
  have path: "linked (th s) next_in_queue (next_in_queue (the (th s b))) r"
    using dequeue_spec(2) [OF rep Cons] .
  have rep1: "sched_rep s1 r w" using rep Cons path by (auto simp: sched_rep_def s1_def s0_def)
  have nr: "b \<notin> set r" using rep Cons by (simp add: sched_rep_def)
  obtain t where t: "th s b = Some t" using rep Cons by (auto simp: sched_rep_def split: option.splits)
  from threads_okD [OF ok t] Cons have run: "t_state t = T_STATE_RUNNING" by (simp add: thr_ok_def)
  have ok1: "threads_ok (Some b) None (th s1) r w"
  proof (rule threads_okI)
    fix a u assume "th s1 a = Some u"
    then have "th s a = Some u" by (simp add: s1_def s0_def)
    from threads_okD [OF ok this] Cons nr show "thr_ok (Some b) None (set r) (set w) a u"
      by (auto simp: thr_ok_def)
  qed
  have cur1: "current_thread s1 = Some b" and t1: "th s1 b = Some t" by (simp_all add: s1_def s0_def t)
  obtain v s' where "resume_context s1 = Inr (v, s')" "inv_at s' r (remove1 b w)" "current_thread s' = Some b"
    "\<exists>t'. th s' b = Some t' \<and> critical_level t' < 3"
    by (rule resume_spec [OF rep1 ok1 cur1 t1 run])
  then show ?thesis using that [of v s'] pick cur1 Cons by simp
qed

text \<open>A suspended thread that can still run goes to the end of the queue.\<close>

lemma enter_scheduler_spec:
  assumes rep: "sched_rep s q w" and ok: "threads_ok (Some a) None (th s) q w" and cur: "current_thread s = Some a"
    and a: "th s a = Some t" and q': "q' = (if t_state t = T_STATE_RUNNING then q @ [a] else q)"
  obtains v s' where "enter_scheduler s = Inr (v, s')"
    and "inv_at s' (tl q') (case q' of [] \<Rightarrow> w | b # _ \<Rightarrow> remove1 b w)"
    and "current_thread s' = (case q' of [] \<Rightarrow> None | b # _ \<Rightarrow> Some b)"
    and "\<forall>b. current_thread s' = Some b \<longrightarrow> (\<exists>t'. th s' b = Some t' \<and> critical_level t' < 3)"
proof -
  have unq: "a \<notin> set q" using threads_okD [OF ok a] by (auto simp: thr_ok_def)
  have "\<exists>s3. run_scheduler s = pick_next s3 \<and> sched_rep s3 q' w \<and> threads_ok None None (th s3) q' w"
  proof (cases "t_state t = T_STATE_RUNNING")
    case False
    have "run_scheduler s = pick_next s"
      using cur a False by (simp add: run_scheduler_def pick_next_def)
    moreover have "threads_ok None None (th s) q' w"
    proof (rule threads_okI)
      fix b u assume "th s b = Some u"
      with threads_okD [OF ok this] a False q' show "thr_ok None None (set q') (set w) b u"
        by (auto simp: thr_ok_def)
    qed
    ultimately show ?thesis using rep q' False by auto
  next
    case True
    define now where "now = get_kernel_time (s_tasks s)"
    define t1 where "t1 = t\<lparr>last_ran := now\<rparr>"
    define s1 where "s1 = set_thread a t1 s"
    define s2 where "s2 = (case proc t of None \<Rightarrow> s1 | Some p \<Rightarrow> s1\<lparr>proc_last_ran := (proc_last_ran s1)(p := now)\<rparr>)"
    have rep1: "sched_rep s1 q w" unfolding s1_def by (rule sched_rep_same_links [OF rep a]) (simp_all add: t1_def)
    have rep2: "sched_rep s2 q w" by (rule sched_rep_fields [OF rep1]) (simp_all add: s2_def split: option.splits)
    have th2: "th s2 = (th s)(a \<mapsto> t1)" by (simp add: s2_def s1_def set_thread_def split: option.splits)
    then have a2: "th s2 a = Some t1" "t_state t1 = T_STATE_RUNNING" using True by (simp_all add: t1_def)
    obtain m f l where e: "enqueue_thread a True s2 = Inr (s2\<lparr>th := m, queue_first_thread := f, queue_last_thread := l\<rparr>)"
      and m: "same_threads (th s2) m" "linked m next_in_queue f (q @ [a])" "l = Some (last (q @ [a]))"
        "linked m next_waiter (waiters s2) w"
      by (rule enqueue_spec [OF rep2 a2 unq, of True]) simp_all
    define s3 where "s3 = s2\<lparr>th := m, queue_first_thread := f, queue_last_thread := l\<rparr>"
    have "run_scheduler s = rbind (enqueue_thread a True s2) pick_next"
      unfolding run_scheduler_def pick_next_def [abs_def] s2_def s1_def t1_def now_def
      using cur a True by (simp add: Let_def)
    then have "run_scheduler s = pick_next s3" by (simp add: e s3_def)
    moreover have "sched_rep s3 q' w"
      using m rep unq q' True by (auto simp: sched_rep_def s3_def s2_def split: option.splits)
    moreover have "threads_ok None None (th s3) q' w"
    proof (rule threads_okI)
      fix b u assume "th s3 b = Some u"
      then have "m b = Some u" by (simp add: s3_def)
      with m(1) obtain u0 where u0: "th s2 b = Some u0" "no_links u0 = no_links u" by (rule same_threadsD)
      have "thr_ok None None (set q') (set w) b u0"
      proof (cases "b = a")
        case True
        with u0 a2 have "u0 = t1" by simp
        with True threads_okD [OF ok a] q' \<open>t_state t = T_STATE_RUNNING\<close> show ?thesis by (simp add: thr_ok_def t1_def)
      next
        case False
        with u0 th2 have "th s b = Some u0" by simp
        with threads_okD [OF ok this] False q' \<open>t_state t = T_STATE_RUNNING\<close> show ?thesis by (auto simp: thr_ok_def)
      qed
      then have "thr_ok None None (set q') (set w) b (no_links u0)" by (simp add: thr_ok_no_links)
      with u0(2) show "thr_ok None None (set q') (set w) b u" by (simp add: thr_ok_no_links)
    qed
    ultimately show ?thesis by blast
  qed
  then obtain s3 where s3: "run_scheduler s = pick_next s3" "sched_rep s3 q' w" "threads_ok None None (th s3) q' w"
    by (elim exE conjE) (rule that; assumption)
  obtain v s' where "rbind (pick_next s3) (\<lambda>s1. if current_thread s1 = None then Inr (None, s1) else resume_context s1) = Inr (v, s')"
    "inv_at s' (tl q') (case q' of [] \<Rightarrow> w | b # _ \<Rightarrow> remove1 b w)"
    "current_thread s' = (case q' of [] \<Rightarrow> None | b # _ \<Rightarrow> Some b)"
    "\<forall>b. current_thread s' = Some b \<longrightarrow> (\<exists>t'. th s' b = Some t' \<and> critical_level t' < 3)"
    by (rule pick_next_spec [OF s3(2,3)])
  then show ?thesis by (intro that [of v s']) (simp_all add: enter_scheduler_def s3(1))
qed

text \<open>The same from the idle processor, after an interrupt.\<close>

lemma enter_scheduler_idle:
  assumes "sched_rep s q w" and "threads_ok None None (th s) q w" and "current_thread s = None"
  obtains v s' where "enter_scheduler s = Inr (v, s')"
    and "inv_at s' (tl q) (case q of [] \<Rightarrow> w | b # _ \<Rightarrow> remove1 b w)"
    and "current_thread s' = (case q of [] \<Rightarrow> None | b # _ \<Rightarrow> Some b)"
proof -
  have "run_scheduler s = pick_next s" using assms(3) by (simp add: run_scheduler_def pick_next_def)
  then have e: "enter_scheduler s = rbind (pick_next s) (\<lambda>s1. if current_thread s1 = None then Inr (None, s1) else resume_context s1)"
    by (simp add: enter_scheduler_def)
  obtain v s' where "rbind (pick_next s) (\<lambda>s1. if current_thread s1 = None then Inr (None, s1) else resume_context s1) = Inr (v, s')"
    "inv_at s' (tl q) (case q of [] \<Rightarrow> w | b # _ \<Rightarrow> remove1 b w)"
    "current_thread s' = (case q of [] \<Rightarrow> None | b # _ \<Rightarrow> Some b)"
    by (rule pick_next_spec [OF assms(1,2)])
  with e show ?thesis by (intro that [of v s']) simp_all
qed

end
