(* ===== verification/Thread_Wake.thy ===== *)
theory Thread_Wake
  imports Thread_Inv
begin

text \<open>
  Waking and starting threads, and the timer: what \<open>resume_on\<close>, \<open>start_thread\<close> and \<open>notify_time_pass\<close> of theory
  \<open>Thread\<close> do to the queue, and that they keep the invariant of theory \<open>Thread_Inv\<close>.
\<close>

section \<open>Waking\<close>

text \<open>A thread is woken by \<open>x\<close> when it is paused and waits on \<open>x\<close>.\<close>

definition wakes :: "nat \<Rightarrow> (nat \<Rightarrow> thread option) \<Rightarrow> nat \<Rightarrow> bool" where
  "wakes x m a = (case m a of None \<Rightarrow> False | Some t \<Rightarrow> t_state t = T_STATE_PAUSED \<and> x \<in> set (waiting_on t))"

definition wake_all :: "nat set \<Rightarrow> (nat \<Rightarrow> thread option) \<Rightarrow> nat \<Rightarrow> thread option" where
  "wake_all A m = (\<lambda>a. if a \<in> A then map_option (t_state_update (\<lambda>_. T_STATE_RUNNING)) (m a) else m a)"

lemma wake_all_empty [simp]: "wake_all {} m = m"
  by (simp add: wake_all_def fun_eq_iff)

lemma linked_mid:
  "linked m nx p (us @ a # vs) \<Longrightarrow> \<exists>t. m a = Some t \<and> linked m nx (nx t) vs"
  by (induction us arbitrary: p) (auto split: option.splits)

definition head_of :: "nat list \<Rightarrow> nat option" where
  "head_of as = (case as of [] \<Rightarrow> None | a # _ \<Rightarrow> Some a)"

lemma linked_head: "linked m nx p as \<Longrightarrow> p = head_of as"
  by (cases as) (auto simp: head_of_def)

lemma no_links_state: "no_links t = no_links t' \<Longrightarrow>
    no_links (t\<lparr>t_state := x\<rparr>) = no_links (t'\<lparr>t_state := x\<rparr>)"
  by (cases t; cases t'; simp add: no_links_def)

lemma same_threads_wake:
  assumes "same_threads m m'"
  shows "same_threads (wake_all A m) (wake_all A m')"
  unfolding same_threads_def
proof
  fix a
  from assms have "map_option no_links (m a) = map_option no_links (m' a)" by (simp add: same_threads_def)
  then show "map_option no_links (wake_all A m a) = map_option no_links (wake_all A m' a)"
    by (cases "m a"; cases "m' a") (auto simp: wake_all_def intro: no_links_state)
qed

lemma wakes_same: "same_threads m m' \<Longrightarrow> wakes x m a = wakes x m' a"
proof -
  assume "same_threads m m'"
  then have "map_option no_links (m a) = map_option no_links (m' a)" by (simp add: same_threads_def)
  then show ?thesis
    by (cases "m a"; cases "m' a") (simp_all add: wakes_def, metis no_links_fields(1,5))
qed

lemma resume_loop_spec:
  assumes "sched_rep s q (us @ ws)" and "threads_ok c c (th s) q (us @ ws)" and "length ws \<le> n"
    and "woken = filter (wakes x (th s)) ws"
  shows "\<exists>m f l. resume_loop n x (head_of ws) ret s
        = Inr (ret \<or> woken \<noteq> [], s\<lparr>th := m, queue_first_thread := f, queue_last_thread := l\<rparr>)
      \<and> sched_rep (s\<lparr>th := m, queue_first_thread := f, queue_last_thread := l\<rparr>) (rev woken @ q) (us @ ws)
      \<and> threads_ok c c m (rev woken @ q) (us @ ws) \<and> same_threads (wake_all (set woken) (th s)) m"
  using assms
proof (induction ws arbitrary: us n ret s q woken)
  case Nil
  then show ?case
    by (intro exI [of _ "th s"] exI [of _ "queue_first_thread s"] exI [of _ "queue_last_thread s"]) (simp add: head_of_def)
next
  case (Cons a ws)
  from Cons.prems(1) have lw: "linked (th s) next_waiter (waiters s) (us @ a # ws)" and dw: "distinct (us @ a # ws)"
    and dq: "distinct q" by (simp_all add: sched_rep_def)
  from linked_mid [OF lw] obtain t where t: "th s a = Some t" "linked (th s) next_waiter (next_waiter t) ws" by blast
  from Cons.prems(3) have n: "n \<noteq> 0" "length ws \<le> n - 1" by simp_all
  note ta = threads_okD [OF Cons.prems(2) t(1)]
  show ?case
  proof (cases "wakes x (th s) a")
    case False
    have step: "resume_loop n x (head_of (a # ws)) ret s = resume_loop (n - 1) x (head_of ws) ret s"
      using False t n linked_head [OF t(2)] by (auto simp: head_of_def wakes_def)
    have "sched_rep s q ((us @ [a]) @ ws)" and "threads_ok c c (th s) q ((us @ [a]) @ ws)"
      using Cons.prems by simp_all
    from Cons.IH [OF this n(2) refl, of ret] False Cons.prems(4) show ?thesis unfolding step by simp
  next
    case True
    with t have w: "t_state t = T_STATE_PAUSED" "x \<in> set (waiting_on t)" by (simp_all add: wakes_def)
    define t1 where "t1 = t\<lparr>t_state := T_STATE_RUNNING\<rparr>"
    define s1 where "s1 = set_thread a t1 s"
    have rep1: "sched_rep s1 q (us @ a # ws)" unfolding s1_def
      by (rule sched_rep_same_links [OF Cons.prems(1) t(1)]) (simp_all add: t1_def)
    have a1: "th s1 a = Some t1" "t_state t1 = T_STATE_RUNNING" by (simp_all add: s1_def set_thread_def t1_def)
    have nq: "a \<notin> set q" using ta w by (simp add: thr_ok_def)
    have ca: "c \<noteq> Some a" using ta by (auto simp: thr_ok_def)
    obtain m f l where e: "enqueue_thread a False s1 = Inr (s1\<lparr>th := m, queue_first_thread := f, queue_last_thread := l\<rparr>)"
      and m: "same_threads (th s1) m" "linked m next_in_queue f (a # q)" "l = Some (last (a # q))"
        "linked m next_waiter (waiters s1) (us @ a # ws)"
      by (rule enqueue_spec [OF rep1 a1 nq, of False]) simp_all
    define s2 where "s2 = s\<lparr>th := m, queue_first_thread := f, queue_last_thread := l\<rparr>"
    have s2: "s1\<lparr>th := m, queue_first_thread := f, queue_last_thread := l\<rparr> = s2"
      by (simp add: s1_def set_thread_def s2_def)
    have th1: "th s1 = (th s)(a \<mapsto> t1)" by (simp add: s1_def set_thread_def)
    obtain t2 where t2: "m a = Some t2" "linked m next_waiter (next_waiter t2) ws" using linked_mid [OF m(4)] by blast
    have step: "resume_loop n x (head_of (a # ws)) ret s = resume_loop (n - 1) x (head_of ws) True s2"
    proof -
      have "resume_loop n x (head_of (a # ws)) ret s
          = rbind (enqueue_thread a False s1) (\<lambda>s'. rbind (deref (th s') a) (\<lambda>t1. resume_loop (n - 1) x (next_waiter t1) True s'))"
        using t w n by (simp add: head_of_def t1_def s1_def) (simp add: rbind_def split: sum.splits)
      then show ?thesis using t2 linked_head [OF t2(2)] by (simp add: e s2) (simp add: s2_def)
    qed
    have rep2: "sched_rep s2 (a # q) (us @ a # ws)"
      using m dw dq nq by (simp add: sched_rep_def s2_def s1_def set_thread_def)
    have "threads_ok c c ((th s)(a \<mapsto> t1)) (a # q) (us @ a # ws)"
    proof (rule threads_okI)
      fix b u assume b: "((th s)(a \<mapsto> t1)) b = Some u"
      show "thr_ok c c (set (a # q)) (set (us @ a # ws)) b u"
      proof (cases "b = a")
        case True
        with b ta ca w show ?thesis by (auto simp: thr_ok_def t1_def)
      next
        case False
        with b have "th s b = Some u" by simp
        from threads_okD [OF Cons.prems(2) this] False show ?thesis by (auto simp: thr_ok_def)
      qed
    qed
    then have ok2: "threads_ok c c (th s2) (a # q) (us @ a # ws)"
      using threads_ok_same [OF m(1)] by (simp add: th1 s2_def)
    have wk: "woken = a # filter (wakes x (th s2)) ws"
    proof -
      have "wakes x (th s2) b = wakes x (th s) b" if "b \<in> set ws" for b
      proof -
        have "b \<noteq> a" using dw that by auto
        moreover have "wakes x (th s2) b = wakes x (th s1) b" using wakes_same [OF m(1), of x b] by (simp add: s2_def)
        ultimately show ?thesis by (simp add: th1 wakes_def)
      qed
      then have "filter (wakes x (th s2)) ws = filter (wakes x (th s)) ws" by (intro filter_cong) simp_all
      with Cons.prems(4) True show ?thesis by simp
    qed
    define woken' where "woken' = filter (wakes x (th s2)) ws"
    have "sched_rep s2 (a # q) ((us @ [a]) @ ws)" and "threads_ok c c (th s2) (a # q) ((us @ [a]) @ ws)"
      using rep2 ok2 by simp_all
    from Cons.IH [OF this n(2) woken'_def, of True] obtain m' f' l' where
      ih: "resume_loop (n - 1) x (head_of ws) True s2
          = Inr (True, s2\<lparr>th := m', queue_first_thread := f', queue_last_thread := l'\<rparr>)"
        "sched_rep (s2\<lparr>th := m', queue_first_thread := f', queue_last_thread := l'\<rparr>) (rev woken' @ a # q) (us @ a # ws)"
        "threads_ok c c m' (rev woken' @ a # q) (us @ a # ws)" "same_threads (wake_all (set woken') (th s2)) m'"
      by auto
    have s3: "s2\<lparr>th := m', queue_first_thread := f', queue_last_thread := l'\<rparr>
        = s\<lparr>th := m', queue_first_thread := f', queue_last_thread := l'\<rparr>" by (simp add: s2_def)
    have "same_threads (wake_all (set woken') (th s1)) (wake_all (set woken') (th s2))"
      by (rule same_threads_wake) (use m(1) in \<open>simp add: s2_def\<close>)
    moreover have "wake_all (set woken') (th s1) = wake_all (set woken) (th s)"
      using t(1) by (auto simp: wake_all_def th1 wk woken'_def t1_def fun_eq_iff)
    ultimately have "same_threads (wake_all (set woken) (th s)) m'"
      using ih(4) same_threads_trans by metis
    with ih show ?thesis unfolding step wk s3 woken'_def by (intro exI [of _ m'] exI [of _ f'] exI [of _ l']) simp
  qed
qed

lemma no_links_level:
  "no_links t2 = no_links (t\<lparr>critical_level := l\<rparr>) \<Longrightarrow> no_links (t2\<lparr>critical_level := critical_level t\<rparr>) = no_links t"
  by (cases t; cases t2; simp add: no_links_def)

text \<open>
  \<open>resume_on x\<close> puts exactly the paused threads that wait on \<open>x\<close> at the front of the queue; the critical section
  leaves no trace.
\<close>

lemma resume_on_spec:
  assumes rep: "sched_rep s q w" and ok: "threads_ok (current_thread s) (current_thread s) (th s) q w"
    and live: "\<And>a. current_thread s = Some a \<Longrightarrow> th s a \<noteq> None" and wk: "woken = filter (wakes x (th s)) w"
  obtains m f l i where
    "resume_on x s = Inr (woken \<noteq> [], s\<lparr>th := m, queue_first_thread := f, queue_last_thread := l, int_flag := i\<rparr>)"
    and "sched_rep (s\<lparr>th := m, queue_first_thread := f, queue_last_thread := l, int_flag := i\<rparr>) (rev woken @ q) w"
    and "threads_ok (current_thread s) (current_thread s) m (rev woken @ q) w"
    and "same_threads (wake_all (set woken) (th s)) m"
    and "i = (case current_thread s of None \<Rightarrow> False | Some a \<Rightarrow> critical_level (the (th s a)) < 2)"
proof (cases "current_thread s")
  case None
  define s1 where "s1 = s\<lparr>int_flag := False\<rparr>"
  have short: "length w \<le> 2 ^ 32" using waiters_short [OF rep ok] by simp
  have rep1: "sched_rep s1 q ([] @ w)" using sched_rep_fields [OF rep] by (simp add: s1_def)
  have ok1: "threads_ok None None (th s1) q ([] @ w)" using ok None by (simp add: s1_def)
  have wk1: "woken = filter (wakes x (th s1)) w" using wk by (simp add: s1_def)
  from resume_loop_spec [OF rep1 ok1 short wk1, of False] obtain m f l where
    r: "resume_loop (2 ^ 32) x (head_of w) False s1
          = Inr (woken \<noteq> [], s1\<lparr>th := m, queue_first_thread := f, queue_last_thread := l\<rparr>)"
      "sched_rep (s1\<lparr>th := m, queue_first_thread := f, queue_last_thread := l\<rparr>) (rev woken @ q) w"
      "threads_ok None None m (rev woken @ q) w" "same_threads (wake_all (set woken) (th s1)) m"
    by (simp only: append_Nil HOL.simp_thms) (elim exE conjE, rule that; assumption)
  have hd: "waiters s1 = head_of w" using rep by (auto simp: s1_def sched_rep_def dest: linked_head)
  have "resume_on x s = Inr (woken \<noteq> [], s1\<lparr>th := m, queue_first_thread := f, queue_last_thread := l\<rparr>)"
  proof -
    have "enter_critical CL_NOINT s = Inr (CL_EXCL, s1)" using None by (simp add: enter_critical_def s1_def)
    moreover have "exit_critical CL_EXCL (s1\<lparr>th := m, queue_first_thread := f, queue_last_thread := l\<rparr>)
        = Inr (s1\<lparr>th := m, queue_first_thread := f, queue_last_thread := l\<rparr>)"
      using None by (simp add: exit_critical_def s1_def)
    ultimately show ?thesis using r(1) by (simp only: resume_on_def rbind_simps prod.case hd)
  qed
  moreover have eq: "s1\<lparr>th := m, queue_first_thread := f, queue_last_thread := l\<rparr>
      = s\<lparr>th := m, queue_first_thread := f, queue_last_thread := l, int_flag := False\<rparr>" by (simp add: s1_def)
  ultimately show ?thesis
    using that [where m = m and f = f and l = l and i = False] r(2-4) None
    by (simp only: eq) (simp add: s1_def)
next
  case (Some a)
  with live obtain t where t: "th s a = Some t" by blast
  note ta = threads_okD [OF ok t]
  define lv where "lv = (if CL_NOINT > critical_level t then CL_NOINT else critical_level t)"
  define t1 where "t1 = t\<lparr>critical_level := lv\<rparr>"
  define s1 where "s1 = (set_thread a t1 s)\<lparr>int_flag := (lv < CL_NOINT)\<rparr>"
  have lv: "critical_level t \<le> lv" "lv \<le> 3" using ta by (simp_all add: lv_def CL_NOINT_def thr_ok_def)
  have th1: "th s1 = (th s)(a \<mapsto> t1)" by (simp add: s1_def set_thread_def)
  have short: "length w \<le> 2 ^ 32" using waiters_short [OF rep ok] by simp
  have "sched_rep (set_thread a t1 s) q w" by (rule sched_rep_same_links [OF rep t]) (simp_all add: t1_def)
  then have rep1: "sched_rep s1 q ([] @ w)" using sched_rep_fields by (simp add: s1_def)
  have "thr_ok (Some a) (Some a) (set q) (set w) a t1" using ta Some lv by (simp add: thr_ok_def t1_def)
  then have ok1: "threads_ok (Some a) (Some a) (th s1) q ([] @ w)"
    using threads_ok_upd [OF ok, of a t1] Some th1 by simp
  have "wakes x (th s1) = wakes x (th s)" using t by (simp add: fun_eq_iff th1 wakes_def t1_def)
  with wk have wk1: "woken = filter (wakes x (th s1)) w" by simp
  from resume_loop_spec [OF rep1 ok1 short wk1, of False] obtain m f l where
    r: "resume_loop (2 ^ 32) x (head_of w) False s1
          = Inr (woken \<noteq> [], s1\<lparr>th := m, queue_first_thread := f, queue_last_thread := l\<rparr>)"
      "sched_rep (s1\<lparr>th := m, queue_first_thread := f, queue_last_thread := l\<rparr>) (rev woken @ q) w"
      "threads_ok (Some a) (Some a) m (rev woken @ q) w" "same_threads (wake_all (set woken) (th s1)) m"
    by (simp only: append_Nil HOL.simp_thms) (elim exE conjE, rule that; assumption)
  have hd: "waiters s1 = head_of w" using rep by (auto simp: s1_def set_thread_def sched_rep_def dest: linked_head)
  have aw: "a \<notin> set woken" using ta Some wk by (simp add: thr_ok_def)
  have "wake_all (set woken) (th s1) a = Some t1" using aw by (simp add: wake_all_def th1)
  with r(4) obtain t2 where t2: "m a = Some t2" "no_links t1 = no_links t2" by (rule same_threadsD2)
  have lv2: "critical_level t2 = lv" using no_links_fields(3) [OF t2(2)] by (simp add: t1_def)
  define t3 where "t3 = t2\<lparr>critical_level := critical_level t\<rparr>"
  define i where "i = (critical_level t < 2)"
  define s3 where "s3 = s\<lparr>th := m(a \<mapsto> t3), queue_first_thread := f, queue_last_thread := l, int_flag := i\<rparr>"
  have "resume_on x s = Inr (woken \<noteq> [], s3)"
  proof -
    have "enter_critical CL_NOINT s = Inr (critical_level t, s1)"
      using Some t by (simp add: enter_critical_def s1_def t1_def lv_def Let_def)
    moreover have "exit_critical (critical_level t) (s1\<lparr>th := m, queue_first_thread := f, queue_last_thread := l\<rparr>) = Inr s3"
    proof -
      have "(if critical_level t < critical_level t2 then critical_level t else critical_level t2) = critical_level t"
        using lv lv2 by simp
      then show ?thesis
        using Some t2(1)
        by (simp add: exit_critical_def s1_def set_thread_def s3_def t3_def i_def CL_NOINT_def Let_def)
    qed
    ultimately show ?thesis using r(1) by (simp only: resume_on_def rbind_simps prod.case hd)
  qed
  moreover have "sched_rep s3 (rev woken @ q) w"
    using sched_rep_same_links [OF r(2), of a t2 t3] t2(1)
    by (simp add: s3_def t3_def set_thread_def sched_rep_def s1_def)
  moreover have "threads_ok (Some a) (Some a) (m(a \<mapsto> t3)) (rev woken @ q) w"
  proof (rule threads_ok_upd [OF r(3)])
    show "thr_ok (Some a) (Some a) (set (rev woken @ q)) (set w) a t3"
      using threads_okD [OF r(3) t2(1)] ta Some by (simp add: thr_ok_def t3_def)
  qed
  moreover have "same_threads (wake_all (set woken) (th s)) (m(a \<mapsto> t3))"
    unfolding same_threads_def
  proof
    fix b
    show "map_option no_links (wake_all (set woken) (th s) b) = map_option no_links ((m(a \<mapsto> t3)) b)"
    proof (cases "b = a")
      case True
      have "no_links t3 = no_links t" unfolding t3_def by (rule no_links_level [where l = lv]) (use t2(2) in \<open>simp add: t1_def\<close>)
      with True aw t show ?thesis by (simp add: wake_all_def)
    next
      case False
      have "map_option no_links (wake_all (set woken) (th s1) b) = map_option no_links (m b)"
        using r(4) unfolding same_threads_def by blast
      with False show ?thesis by (simp add: wake_all_def th1 split: if_splits)
    qed
  qed
  ultimately show ?thesis
    using that [where m = "m(a \<mapsto> t3)" and f = f and l = l and i = i] Some t by (simp add: s3_def i_def)
qed

end
