(* ===== verification/Thread_Steps.thy ===== *)
theory Thread_Steps
  imports Thread_Wake
begin

text \<open>
  The kernel as a machine whose events are the calls the running thread makes and the interrupts; every event
  keeps the invariant of the scheduler and ends without a fault.
\<close>

section \<open>The invariant without the interrupt flag\<close>

definition level :: "sched \<Rightarrow> nat option" where
  "level s = (case current_thread s of None \<Rightarrow> None | Some a \<Rightarrow> map_option critical_level (th s a))"

definition core_at :: "sched \<Rightarrow> nat list \<Rightarrow> nat list \<Rightarrow> bool" where
  "core_at s q w \<longleftrightarrow> sched_rep s q w \<and> threads_ok (current_thread s) (current_thread s) (th s) q w
     \<and> (\<forall>a. current_thread s = Some a \<longrightarrow> th s a \<noteq> None)"

definition core :: "sched \<Rightarrow> bool" where
  "core s \<longleftrightarrow> (\<exists>q w. core_at s q w)"

lemma core_at_coreI [intro]: "core_at s q w \<Longrightarrow> core s"
  by (auto simp: core_def)

lemma sched_inv_iff:
  "sched_inv s \<longleftrightarrow> core s \<and> (case level s of None \<Rightarrow> queue_first_thread s = None \<and> int_flag s | Some l \<Rightarrow> int_flag s = (l < 2))"
proof (cases "current_thread s")
  case None
  have "queue_first_thread s = None \<longleftrightarrow> q = []" if "sched_rep s q w" for q w
    using that by (cases q) (auto simp: sched_rep_def)
  with None show ?thesis by (fastforce simp: sched_inv_def inv_at_def core_def core_at_def level_def)
next
  case (Some a)
  then show ?thesis by (cases "th s a") (auto simp: sched_inv_def inv_at_def core_def core_at_def level_def)
qed

lemma inv_at_core: "inv_at s q w \<Longrightarrow> core_at s q w"
  by (auto simp: inv_at_def core_at_def split: option.splits)

lemma core_at_upd:
  assumes c: "core_at s q w" and a: "th s a = Some t"
    and l: "next_in_queue t' = next_in_queue t" "next_waiter t' = next_waiter t"
    and ok: "thr_ok (current_thread s) (current_thread s) (set q) (set w) a t'"
  shows "core_at (set_thread a t' s) q w"
proof -
  have "sched_rep (set_thread a t' s) q w" using c a l by (auto simp: core_at_def intro: sched_rep_same_links)
  moreover have "threads_ok (current_thread s) (current_thread s) ((th s)(a \<mapsto> t')) q w"
    using c ok by (auto simp: core_at_def intro: threads_ok_upd)
  ultimately show ?thesis using c by (auto simp: core_at_def set_thread_def)
qed

text \<open>Fields that the invariant does not mention.\<close>

lemma core_at_fields [simp]:
  "core_at (s\<lparr>int_flag := i\<rparr>) q w = core_at s q w"
  "core_at (s\<lparr>s_tasks := ts\<rparr>) q w = core_at s q w"
  by (simp_all add: core_at_def sched_rep_def)

lemma level_fields [simp]:
  "level (s\<lparr>int_flag := i\<rparr>) = level s" "level (s\<lparr>s_tasks := ts\<rparr>) = level s"
  by (simp_all add: level_def split: option.splits)

section \<open>Critical sections\<close>

definition clamp :: "nat \<Rightarrow> sched \<Rightarrow> sched \<Rightarrow> bool" where
  "clamp l s s' \<longleftrightarrow> current_thread s' = current_thread s
     \<and> level s' = map_option (\<lambda>_. l) (level s) \<and> (current_thread s \<noteq> None \<longrightarrow> int_flag s' = (l < 2))
     \<and> s_tasks s' = s_tasks s \<and> workers s' = workers s"

lemma set_level_core:
  assumes c: "core_at s q w" and cur: "current_thread s = Some a" and t: "th s a = Some t" and l: "l \<le> 3"
  shows "core_at ((set_thread a (t\<lparr>critical_level := l\<rparr>) s)\<lparr>int_flag := i\<rparr>) q w"
proof -
  have "thr_ok (Some a) (Some a) (set q) (set w) a t" using c cur t by (auto simp: core_at_def dest: threads_okD)
  with l have "thr_ok (Some a) (Some a) (set q) (set w) a (t\<lparr>critical_level := l\<rparr>)" by (simp add: thr_ok_def)
  with core_at_upd [OF c t, of "t\<lparr>critical_level := l\<rparr>"] cur show ?thesis by simp
qed

lemma enter_core:
  assumes c: "core_at s q w" and L: "L \<le> 3"
  obtains st s1 where "enter_critical L s = Inr (st, s1)" and "core_at s1 q w"
    and "clamp (case level s of None \<Rightarrow> L | Some l \<Rightarrow> max l L) s s1"
    and "st = (case level s of None \<Rightarrow> 3 | Some l \<Rightarrow> l)" and "st \<le> 3"
    and "\<And>b. map_option t_state (th s1 b) = map_option t_state (th s b)"
proof (cases "current_thread s")
  case None
  with c show ?thesis
    by (intro that [of 3 "s\<lparr>int_flag := False\<rparr>"]) (simp_all add: enter_critical_def CL_EXCL_def level_def clamp_def)
next
  case (Some a)
  with c obtain t where t: "th s a = Some t" by (auto simp: core_at_def)
  have l3: "critical_level t \<le> 3" using c t by (auto simp: core_at_def thr_ok_def dest: threads_okD)
  define l where "l = max (critical_level t) L"
  define s1 where "s1 = (set_thread a (t\<lparr>critical_level := l\<rparr>) s)\<lparr>int_flag := (l < 2)\<rparr>"
  have f1: "enter_critical L s = Inr (critical_level t, s1)"
    using Some t by (auto simp: enter_critical_def s1_def CL_NOINT_def l_def max_def Let_def)
  have f2: "core_at s1 q w" unfolding s1_def by (rule set_level_core [OF c Some t]) (use l3 L in \<open>simp add: l_def\<close>)
  have f3: "clamp (case level s of None \<Rightarrow> L | Some l \<Rightarrow> max l L) s s1"
    using Some t by (simp add: clamp_def s1_def set_thread_def level_def l_def)
  have f4: "map_option t_state (th s1 b) = map_option t_state (th s b)" for b
    using t by (simp add: s1_def set_thread_def)
  show ?thesis
    by (rule that [OF f1 f2 f3 _ _ f4]) (use Some t l3 in \<open>simp_all add: level_def\<close>)
qed

lemma exit_core:
  assumes c: "core_at s q w"
  obtains s1 where "exit_critical st s = Inr s1" and "core_at s1 q w"
    and "clamp (case level s of None \<Rightarrow> 0 | Some l \<Rightarrow> min l st) s s1"
    and "\<And>b. map_option t_state (th s1 b) = map_option t_state (th s b)"
proof (cases "current_thread s")
  case None
  with c show ?thesis
    by (intro that [of "s\<lparr>int_flag := False\<rparr>"]) (simp_all add: exit_critical_def level_def clamp_def)
next
  case (Some a)
  with c obtain t where t: "th s a = Some t" by (auto simp: core_at_def)
  have l3: "critical_level t \<le> 3" using c t by (auto simp: core_at_def thr_ok_def dest: threads_okD)
  define l where "l = min (critical_level t) st"
  define s1 where "s1 = (set_thread a (t\<lparr>critical_level := l\<rparr>) s)\<lparr>int_flag := (l < 2)\<rparr>"
  have "exit_critical st s = Inr s1"
    using Some t by (auto simp: exit_critical_def s1_def CL_NOINT_def l_def min_def Let_def)
  moreover have "core_at s1 q w" unfolding s1_def by (rule set_level_core [OF c Some t]) (use l3 in \<open>simp add: l_def\<close>)
  moreover have "clamp (case level s of None \<Rightarrow> 0 | Some l \<Rightarrow> min l st) s s1"
    using Some t by (simp add: clamp_def s1_def set_thread_def level_def l_def)
  moreover have "map_option t_state (th s1 b) = map_option t_state (th s b)" for b
    using t by (simp add: s1_def set_thread_def)
  ultimately show ?thesis by (rule that)
qed

section \<open>Waking and starting\<close>

text \<open>An operation that runs to its end in the running thread, at the level it was called at.\<close>

definition stays :: "sched \<Rightarrow> sched \<Rightarrow> bool" where
  "stays s s' \<longleftrightarrow> current_thread s' = current_thread s \<and> level s' = level s
     \<and> (\<forall>l. level s = Some l \<longrightarrow> int_flag s' = (l < 2)) \<and> workers s' = workers s"

lemma core_level: "core s \<Longrightarrow> level s = None \<longleftrightarrow> current_thread s = None"
  by (auto simp: core_def core_at_def level_def split: option.splits)

lemma stays_inv: "core s' \<Longrightarrow> stays s s' \<Longrightarrow> current_thread s \<noteq> None \<Longrightarrow> sched_inv s'"
  using core_level [of s'] by (auto simp: sched_inv_iff stays_def split: option.splits)

lemma resume_on_core:
  assumes "core s"
  obtains r s' where "resume_on x s = Inr (r, s')" and "core s'" and "stays s s'"
proof -
  from assms obtain q w where c: "core_at s q w" by (auto simp: core_def)
  then have c': "sched_rep s q w" "threads_ok (current_thread s) (current_thread s) (th s) q w"
    "\<And>a. current_thread s = Some a \<Longrightarrow> th s a \<noteq> None" by (simp_all add: core_at_def)
  define woken where "woken = filter (wakes x (th s)) w"
  obtain m f l i where
    r: "resume_on x s = Inr (woken \<noteq> [], s\<lparr>th := m, queue_first_thread := f, queue_last_thread := l, int_flag := i\<rparr>)"
    and rep: "sched_rep (s\<lparr>th := m, queue_first_thread := f, queue_last_thread := l, int_flag := i\<rparr>) (rev woken @ q) w"
    and ok: "threads_ok (current_thread s) (current_thread s) m (rev woken @ q) w"
    and m: "same_threads (wake_all (set woken) (th s)) m"
    and i: "i = (case current_thread s of None \<Rightarrow> False | Some a \<Rightarrow> critical_level (the (th s a)) < 2)"
    by (rule resume_on_spec [OF c' woken_def])
  define s' where "s' = s\<lparr>th := m, queue_first_thread := f, queue_last_thread := l, int_flag := i\<rparr>"
  have lv: "map_option critical_level (m a) = map_option critical_level (th s a)" for a
  proof -
    have "map_option no_links (wake_all (set woken) (th s) a) = map_option no_links (m a)"
      using m by (simp add: same_threads_def)
    then show ?thesis
      by (cases "m a"; cases "th s a"; cases "a \<in> set woken") (auto simp: wake_all_def dest: no_links_fields(3))
  qed
  have "core_at s' (rev woken @ q) w"
    unfolding core_at_def
  proof (intro conjI allI impI)
    fix a assume "current_thread s' = Some a"
    then have "th s a \<noteq> None" using c'(3) by (simp add: s'_def)
    then show "th s' a \<noteq> None" using lv [of a] by (cases "m a") (auto simp: s'_def)
  qed (use rep ok in \<open>simp_all add: s'_def\<close>)
  moreover have "stays s s'"
    using lv c'(3) i by (auto simp: stays_def level_def s'_def split: option.splits)
  ultimately show ?thesis using r [folded s'_def] by (intro that) (rule | blast)+
qed

lemma stays_trans: "stays s s1 \<Longrightarrow> stays s1 s2 \<Longrightarrow> stays s s2"
  by (simp add: stays_def)

lemma wake_worker_core:
  assumes "core s" and "\<forall>l. level s = Some l \<longrightarrow> int_flag s = (l < 2)"
  shows "\<exists>s'. wake_worker ws s = Inr s' \<and> core s' \<and> stays s s'"
  using assms
proof (induction ws s rule: wake_worker.induct)
  case (1 s)
  then show ?case by (simp add: stays_def)
next
  case (2 ws s)
  then show ?case by simp
next
  case (3 w ws s)
  from 3(2) obtain r s1 where r: "resume_on w s = Inr (r, s1)" "core s1" "stays s s1" by (rule resume_on_core)
  show ?case
  proof (cases r)
    case True
    with r show ?thesis by simp
  next
    case False
    from r(2) have "\<exists>s'. wake_worker ws s1 = Inr s' \<and> core s' \<and> stays s1 s'"
      using 3(1) [OF False r(2)] r(3) by (simp add: stays_def)
    with r False show ?thesis by (auto intro: stays_trans)
  qed
qed

lemma notify_core:
  assumes "core s" and "\<forall>l. level s = Some l \<longrightarrow> int_flag s = (l < 2)"
  obtains s' where "notify_time_pass usecs s = Inr s'" and "core s'" and "stays s s'"
proof -
  define ts where "ts = (s_tasks s)\<lparr>k_time := k_time (s_tasks s) + word_of_int usecs\<rparr>"
  define s1 where "s1 = s\<lparr>s_tasks := ts\<rparr>"
  have 1: "core s1" "stays s s1" "\<forall>l. level s1 = Some l \<longrightarrow> int_flag s1 = (l < 2)"
    using assms by (auto simp: s1_def stays_def core_def)
  show ?thesis
  proof (cases "next_task_time ts \<le> k_time ts")
    case False
    then have "notify_time_pass usecs s = Inr s1"
      by (simp add: notify_time_pass_def Let_def s1_def ts_def)
    with 1 that show ?thesis by blast
  next
    case True
    then have "notify_time_pass usecs s = wake_worker (workers s1) s1"
      by (simp add: notify_time_pass_def Let_def s1_def ts_def)
    with wake_worker_core [OF 1(1,3), of "workers s1"] 1(2) that show ?thesis by (metis stays_trans)
  qed
qed

end
