(* ===== verification/Thread_Machine.thy ===== *)
theory Thread_Machine
  imports Thread_Steps
begin

text \<open>
  Switching threads, and the kernel as a machine whose events are the calls of the running thread and the
  interrupts. The properties of the scheduler are in theory \<open>Thread_Props\<close>.
\<close>

section \<open>Suspending the running thread\<close>

lemma threads_ok_suspend:
  assumes ok: "threads_ok (Some a) (Some a) m q w" and w': "set w' - {a} = set w - {a}"
    and a: "thr_ok (Some a) None (set q) (set w') a t'"
  shows "threads_ok (Some a) None (m(a \<mapsto> t')) q w'"
proof (rule threads_okI)
  fix b u assume b: "(m(a \<mapsto> t')) b = Some u"
  show "thr_ok (Some a) None (set q) (set w') b u"
  proof (cases "b = a")
    case True
    with a b show ?thesis by simp
  next
    case False
    with b have "m b = Some u" by simp
    from threads_okD [OF ok this] False w' show ?thesis by (auto simp: thr_ok_def)
  qed
qed

lemma switch_spec:
  assumes rep: "sched_rep s q w" and cur: "current_thread s = Some a" and t: "th s a = Some t"
    and t': "t' = t\<lparr>ctx := \<lparr>sv_cont = k, sv_int = int_flag s\<rparr>\<rparr>"
    and ok: "threads_ok (Some a) None ((th s)(a \<mapsto> t')) q w"
    and q': "q' = (if t_state t = T_STATE_RUNNING then q @ [a] else q)"
  obtains v s' where "switch_from k s = Inr (v, s')"
    and "inv_at s' (tl q') (case q' of [] \<Rightarrow> w | b # _ \<Rightarrow> remove1 b w)"
    and "current_thread s' = (case q' of [] \<Rightarrow> None | b # _ \<Rightarrow> Some b)"
    and "\<forall>l. level s' = Some l \<longrightarrow> l < 3"
proof -
  define s1 where "s1 = (set_thread a t' s)\<lparr>int_flag := False\<rparr>"
  have sw: "switch_from k s = enter_scheduler s1"
    using cur t by (simp add: switch_from_def save_context_def self_def s1_def t')
  have rep1: "sched_rep s1 q w" unfolding s1_def
    by (rule sched_rep_fields [OF sched_rep_same_links [OF rep t, of t']]) (simp_all add: t' set_thread_def)
  have ok1: "threads_ok (Some a) None (th s1) q w" using ok by (simp add: s1_def set_thread_def)
  have cur1: "current_thread s1 = Some a" and t1: "th s1 a = Some t'" by (simp_all add: s1_def set_thread_def cur)
  have q1: "q' = (if t_state t' = T_STATE_RUNNING then q @ [a] else q)" by (simp add: q' t')
  obtain v s' where "enter_scheduler s1 = Inr (v, s')"
    and "inv_at s' (tl q') (case q' of [] \<Rightarrow> w | b # _ \<Rightarrow> remove1 b w)"
    and "current_thread s' = (case q' of [] \<Rightarrow> None | b # _ \<Rightarrow> Some b)"
    and "\<forall>b. current_thread s' = Some b \<longrightarrow> (\<exists>t'. th s' b = Some t' \<and> critical_level t' < 3)"
    by (rule enter_scheduler_spec [OF rep1 ok1 cur1 t1 q1])
  then show ?thesis using sw by (intro that [of v s']) (auto simp: level_def split: option.splits)
qed

text \<open>\<open>yield\<close> is a rotation of the queue.\<close>

lemma yield_spec:
  assumes inv: "inv_at s q w" and cur: "current_thread s = Some a" and lv: "level s = Some l" "l < 3"
  obtains v s' where "yield s = Inr (v, s')" and "inv_at s' (tl (q @ [a])) (remove1 (hd (q @ [a])) w)"
    and "current_thread s' = Some (hd (q @ [a]))" and "\<forall>l. level s' = Some l \<longrightarrow> l < 3"
proof -
  have rep: "sched_rep s q w" and ok: "threads_ok (Some a) (Some a) (th s) q w" using inv cur by (simp_all add: inv_at_def)
  obtain t where t: "th s a = Some t" "critical_level t = l" using lv cur by (auto simp: level_def)
  note ta = threads_okD [OF ok t(1)]
  have run: "t_state t = T_STATE_RUNNING" using ta by (simp add: thr_ok_def)
  have i: "int_flag s = (l < 2)" using inv cur t by (simp add: inv_at_def)
  define t' where "t' = t\<lparr>ctx := \<lparr>sv_cont = In_yield, sv_int = int_flag s\<rparr>\<rparr>"
  have ok': "threads_ok (Some a) None ((th s)(a \<mapsto> t')) q w"
    by (rule threads_ok_suspend [OF ok refl]) (use ta t lv i in \<open>simp add: thr_ok_def t'_def\<close>)
  have y: "yield s = switch_from In_yield s"
    using cur t lv by (simp add: yield_def self_def CL_EXCL_def)
  obtain v s' where "switch_from In_yield s = Inr (v, s')"
    and "inv_at s' (tl (q @ [a])) (case q @ [a] of [] \<Rightarrow> w | b # _ \<Rightarrow> remove1 b w)"
    and "current_thread s' = (case q @ [a] of [] \<Rightarrow> None | b # _ \<Rightarrow> Some b)" and "\<forall>l. level s' = Some l \<longrightarrow> l < 3"
    by (rule switch_spec [OF rep cur t(1) t'_def ok', of "q @ [a]"]) (simp_all add: run)
  moreover have "(case q @ [a] of [] \<Rightarrow> w | b # _ \<Rightarrow> remove1 b w) = remove1 (hd (q @ [a])) w"
    and "(case q @ [a] of [] \<Rightarrow> None | b # _ \<Rightarrow> Some b) = Some (hd (q @ [a]))" by (cases q; simp)+
  ultimately show ?thesis unfolding y using that [of v s'] by (simp only: y simp_thms)
qed

lemma inv_levelD:
  assumes "sched_inv s" and "current_thread s \<noteq> None"
  obtains q w a l where "inv_at s q w" and "current_thread s = Some a" and "level s = Some l" and "int_flag s = (l < 2)"
    and "l \<le> 3"
proof -
  from assms obtain q w a where i: "inv_at s q w" "current_thread s = Some a" by (auto simp: sched_inv_def)
  then obtain t where "th s a = Some t" "int_flag s = (critical_level t < 2)" by (auto simp: inv_at_def)
  moreover from this i have "critical_level t \<le> 3" by (auto simp: inv_at_def thr_ok_def dest: threads_okD)
  ultimately show ?thesis using that [OF i, of "critical_level t"] i by (simp add: level_def)
qed

lemma yield_inv:
  assumes "sched_inv s" and "level s = Some l" and "l < 3"
  obtains v s' where "yield s = Inr (v, s')" and "sched_inv s'"
proof -
  have "current_thread s \<noteq> None" using assms(2) by (auto simp: level_def split: option.splits)
  with assms(1) obtain q w a where "inv_at s q w" "current_thread s = Some a" by (rule inv_levelD)
  from yield_spec [OF this assms(2,3)] that show ?thesis by (metis sched_inv_def)
qed

text \<open>\<open>wait_on_many\<close> pauses the running thread and puts it on the list of waiters.\<close>

lemma wait_inv:
  assumes inv: "sched_inv s" and lv: "level s = Some l" "l < 3" and xs: "xs \<noteq> []"
  obtains v s' where "wait_on_many xs s = Inr (v, s')" and "sched_inv s'"
proof -
  have "current_thread s \<noteq> None" using lv by (auto simp: level_def split: option.splits)
  with inv obtain q w a where i: "inv_at s q w" and cur: "current_thread s = Some a" by (rule inv_levelD)
  have rep: "sched_rep s q w" and ok: "threads_ok (Some a) (Some a) (th s) q w" using i cur by (simp_all add: inv_at_def)
  obtain t where t: "th s a = Some t" "critical_level t = l" using lv cur by (auto simp: level_def)
  note ta = threads_okD [OF ok t(1)]
  define t1 where "t1 = t\<lparr>critical_level := 2, waiting_on := xs, next_waiter := waiters s, t_state := T_STATE_PAUSED\<rparr>"
  define s1 where "s1 = (set_thread a t1 s)\<lparr>int_flag := False, waiters := Some a\<rparr>"
  define t' where "t' = t1\<lparr>ctx := \<lparr>sv_cont = In_wait l, sv_int = int_flag s1\<rparr>\<rparr>"
  have e: "wait_on_many xs s = switch_from (In_wait l) s1"
  proof -
    have l2: "(if CL_NOINT > critical_level t then CL_NOINT else critical_level t) = 2"
      using t lv by (simp add: CL_NOINT_def)
    define s0 where "s0 = (set_thread a (t\<lparr>critical_level := 2\<rparr>) s)\<lparr>int_flag := (2 < CL_NOINT)\<rparr>"
    have en: "enter_critical CL_NOINT s = Inr (l, s0)"
      using cur t l2 by (simp only: enter_critical_def s0_def Let_def option.case deref_Some rbind_simps)
    have a0: "self s0 = Inr (a, t\<lparr>critical_level := 2\<rparr>)" using cur by (simp add: self_def s0_def set_thread_def)
    have "self s = Inr (a, t)" using cur t by (simp add: self_def)
    then have "wait_on_many xs s = switch_from (In_wait l) ((set_thread a (t\<lparr>critical_level := 2, waiting_on := xs,
        next_waiter := waiters s0, t_state := T_STATE_PAUSED\<rparr>) s0)\<lparr>waiters := Some a\<rparr>)"
      using cur t lv xs by (simp add: wait_on_many_def CL_EXCL_def en a0)
    also have "(set_thread a (t\<lparr>critical_level := 2, waiting_on := xs,
        next_waiter := waiters s0, t_state := T_STATE_PAUSED\<rparr>) s0)\<lparr>waiters := Some a\<rparr> = s1"
      by (rule sched.equality) (simp_all add: s0_def s1_def set_thread_def t1_def CL_NOINT_def)
    finally show ?thesis .
  qed
  have rep1: "sched_rep s1 q (a # w)"
  proof -
    have "a \<notin> set w" using ta by (simp add: thr_ok_def)
    then have "linked ((th s)(a \<mapsto> t1)) next_waiter (Some a) (a # w)"
      using rep linked_update_other [of a w "th s" "Some t1" next_waiter] by (simp add: sched_rep_def t1_def del: fun_upd_apply add: fun_upd_same)
    moreover have "linked ((th s)(a \<mapsto> t1)) next_in_queue (queue_first_thread s) q"
      using rep linked_update_same [of "th s" a t next_in_queue t1, OF t(1)] by (simp add: sched_rep_def t1_def)
    ultimately show ?thesis using rep \<open>a \<notin> set w\<close> by (simp add: sched_rep_def s1_def set_thread_def)
  qed
  have cur1: "current_thread s1 = Some a" and a1: "th s1 a = Some t1" by (simp_all add: s1_def set_thread_def cur)
  have "threads_ok (Some a) None ((th s)(a \<mapsto> t')) q (a # w)"
    by (rule threads_ok_suspend [OF ok])
      (use ta t lv in \<open>auto simp: thr_ok_def t'_def t1_def s1_def\<close>)
  then have ok1: "threads_ok (Some a) None ((th s1)(a \<mapsto> t')) q (a # w)" by (simp add: s1_def set_thread_def)
  obtain v s' where "switch_from (In_wait l) s1 = Inr (v, s')"
    and "inv_at s' (tl q) (case q of [] \<Rightarrow> a # w | b # _ \<Rightarrow> remove1 b (a # w))"
    by (rule switch_spec [OF rep1 cur1 a1 t'_def ok1, of q]) (simp_all add: t1_def)
  then show ?thesis using that [of v s'] e by (auto simp: sched_inv_def)
qed

lemma exit_inv:
  assumes inv: "sched_inv s" and lv: "level s = Some l" "l < 3"
  obtains v s' where "exit_thread addr s = Inr (v, s')" and "sched_inv s'"
proof -
  have "current_thread s \<noteq> None" using lv by (auto simp: level_def split: option.splits)
  with inv obtain q w a where i: "inv_at s q w" and cur: "current_thread s = Some a" by (rule inv_levelD)
  have rep: "sched_rep s q w" and ok: "threads_ok (Some a) (Some a) (th s) q w" using i cur by (simp_all add: inv_at_def)
  obtain t where t: "th s a = Some t" "critical_level t = l" using lv cur by (auto simp: level_def)
  note ta = threads_okD [OF ok t(1)]
  define ts where "ts = snd (worker_push addr Exit_cleanup a (s_tasks s))"
  define t1 where "t1 = t\<lparr>t_state := T_STATE_FINISHED\<rparr>"
  define s1 where "s1 = (set_thread a t1 s)\<lparr>int_flag := (l < 2), s_tasks := ts\<rparr>"
  define t' where "t' = t1\<lparr>ctx := \<lparr>sv_cont = In_yield, sv_int = int_flag s1\<rparr>\<rparr>"
  have e: "exit_thread addr s = switch_from In_yield s1"
  proof -
    have "max l 1 = (if CL_NOSWITCH > critical_level t then CL_NOSWITCH else critical_level t)"
      and "l = (if l < max l 1 then l else max l 1)" using t by (auto simp: CL_NOSWITCH_def)
    moreover have "t\<lparr>t_state := T_STATE_FINISHED, critical_level := l\<rparr> = t1"
      using t by (intro thread.equality) (simp_all add: t1_def)
    ultimately show ?thesis using cur t lv
      by (simp add: exit_thread_def self_def enter_critical_def exit_critical_def set_thread_def Let_def yield_def
          CL_EXCL_def ts_def CL_NOINT_def)
        (intro arg_cong [where f = "switch_from In_yield"] sched.equality; simp add: s1_def set_thread_def ts_def)
  qed
  have rep1: "sched_rep s1 q w" unfolding s1_def
    by (rule sched_rep_fields [OF sched_rep_same_links [OF rep t(1), of t1]]) (simp_all add: t1_def set_thread_def)
  have cur1: "current_thread s1 = Some a" and a1: "th s1 a = Some t1" by (simp_all add: s1_def set_thread_def cur)
  have "threads_ok (Some a) None ((th s)(a \<mapsto> t')) q w"
    by (rule threads_ok_suspend [OF ok refl])
      (use ta t lv in \<open>simp add: thr_ok_def t'_def t1_def s1_def\<close>)
  then have ok1: "threads_ok (Some a) None ((th s1)(a \<mapsto> t')) q w" by (simp add: s1_def set_thread_def)
  obtain v s' where "switch_from In_yield s1 = Inr (v, s')"
    and "inv_at s' (tl q) (case q of [] \<Rightarrow> w | b # _ \<Rightarrow> remove1 b w)"
    by (rule switch_spec [OF rep1 cur1 a1 t'_def ok1, of q]) (simp_all add: t1_def)
  then show ?thesis using that [of v s'] e by (auto simp: sched_inv_def)
qed

end
