(* ===== verification/Thread_Events.thy ===== *)
theory Thread_Events
  imports Thread_Machine
begin

text \<open>The other operations of threads, the interrupts, and the events of the kernel seen as a machine.\<close>

section \<open>Making a thread runnable\<close>

lemma make_runnable:
  assumes c: "core_at s q w" and a: "th s a = Some t" and st: "t_state t \<noteq> T_STATE_RUNNING"
  obtains s' where "enqueue_thread a False (set_thread a (t\<lparr>t_state := T_STATE_RUNNING\<rparr>) s) = Inr s'"
    and "core_at s' (a # q) w" and "current_thread s' = current_thread s" and "int_flag s' = int_flag s"
    and "level s' = level s" and "workers s' = workers s" and "s_tasks s' = s_tasks s"
proof -
  have rep: "sched_rep s q w" and ok: "threads_ok (current_thread s) (current_thread s) (th s) q w"
    using c by (simp_all add: core_at_def)
  note ta = threads_okD [OF ok a]
  have nc: "current_thread s \<noteq> Some a" and nq: "a \<notin> set q" using ta st by (auto simp: thr_ok_def)
  define t1 where "t1 = t\<lparr>t_state := T_STATE_RUNNING\<rparr>"
  define s1 where "s1 = set_thread a t1 s"
  have th1: "th s1 = (th s)(a \<mapsto> t1)" by (simp add: s1_def set_thread_def)
  have rep1: "sched_rep s1 q w" unfolding s1_def by (rule sched_rep_same_links [OF rep a]) (simp_all add: t1_def)
  have a1: "th s1 a = Some t1" "t_state t1 = T_STATE_RUNNING" by (simp_all add: th1 t1_def)
  obtain m f l where e: "enqueue_thread a False s1 = Inr (s1\<lparr>th := m, queue_first_thread := f, queue_last_thread := l\<rparr>)"
    and m: "same_threads (th s1) m" "linked m next_in_queue f (a # q)" "l = Some (last (a # q))"
      "linked m next_waiter (waiters s1) w"
    by (rule enqueue_spec [OF rep1 a1 nq, of False]) simp_all
  define s' where "s' = s1\<lparr>th := m, queue_first_thread := f, queue_last_thread := l\<rparr>"
  have "threads_ok (current_thread s) (current_thread s) (th s1) (a # q) w"
  proof (rule threads_okI)
    fix b u assume b: "th s1 b = Some u"
    show "thr_ok (current_thread s) (current_thread s) (set (a # q)) (set w) b u"
    proof (cases "b = a")
      case True
      with b ta nc st show ?thesis by (auto simp: thr_ok_def th1 t1_def)
    next
      case False
      with b have "th s b = Some u" by (simp add: th1)
      from threads_okD [OF ok this] False show ?thesis by (auto simp: thr_ok_def)
    qed
  qed
  then have ok': "threads_ok (current_thread s) (current_thread s) m (a # q) w" by (rule threads_ok_same [OF m(1)])
  have lv: "map_option critical_level (m b) = map_option critical_level (th s b)" for b
  proof -
    have "map_option no_links (th s1 b) = map_option no_links (m b)" using m(1) by (simp add: same_threads_def)
    then have "map_option critical_level (th s1 b) = map_option critical_level (m b)"
      by (cases "m b"; cases "th s1 b") (auto dest: no_links_fields(3))
    then show ?thesis using a by (simp add: th1 t1_def split: if_splits)
  qed
  have rep': "sched_rep s' (a # q) w" using rep m nq by (simp add: sched_rep_def s'_def s1_def set_thread_def)
  have cur': "current_thread s' = current_thread s" by (simp add: s'_def s1_def set_thread_def)
  have "core_at s' (a # q) w"
    unfolding core_at_def
  proof (intro conjI allI impI)
    fix b assume "current_thread s' = Some b"
    then have "th s b \<noteq> None" using c cur' by (simp add: core_at_def)
    then show "th s' b \<noteq> None" using lv [of b] by (cases "m b") (auto simp: s'_def)
  qed (use rep' ok' cur' in \<open>simp_all add: s'_def\<close>)
  moreover have "level s' = level s" using lv cur' by (simp add: level_def s'_def split: option.splits)
  ultimately show ?thesis using e [folded s'_def] cur'
    by (intro that [of s']) (simp_all add: s1_def t1_def, simp_all add: s'_def s1_def set_thread_def)
qed

lemma enter_commute:
  "enter_critical L s = Inr (st, s1) \<Longrightarrow> current_thread s \<noteq> Some a
     \<Longrightarrow> enter_critical L (set_thread a t s) = Inr (st, set_thread a t s1)"
  by (cases "current_thread s"; cases "th s (the (current_thread s))")
    (auto simp: enter_critical_def set_thread_def deref_def Let_def fun_upd_twist)

lemma start_core:
  assumes c: "core s" and a: "th s a = Some t" "t_state t = T_STATE_LOADING"
  obtains s' where "start_thread a s = Inr s'" and "core s'" and "stays s s'"
proof -
  from c obtain q w where cw: "core_at s q w" by (auto simp: core_def)
  have nc: "current_thread s \<noteq> Some a"
    using cw a by (auto simp: core_at_def thr_ok_def dest: threads_okD)
  define t1 where "t1 = t\<lparr>t_state := T_STATE_RUNNING\<rparr>"
  obtain st s1 where e: "enter_critical CL_NOINT s = Inr (st, s1)" and c1: "core_at s1 q w"
    and cl: "clamp (case level s of None \<Rightarrow> CL_NOINT | Some l \<Rightarrow> max l CL_NOINT) s s1"
    and st: "st = (case level s of None \<Rightarrow> 3 | Some l \<Rightarrow> l)"
    by (rule enter_core [OF cw, of CL_NOINT]) (simp_all add: CL_NOINT_def)
  have a1: "th s1 a = Some t"
    using e a nc by (cases "current_thread s"; cases "th s (the (current_thread s))")
      (auto simp: enter_critical_def set_thread_def deref_def Let_def)
  have "t_state t \<noteq> T_STATE_RUNNING" using a by simp
  with c1 a1 obtain s2 where e2: "enqueue_thread a False (set_thread a t1 s1) = Inr s2" and c2: "core_at s2 (a # q) w"
    and s2: "current_thread s2 = current_thread s1" "level s2 = level s1" "workers s2 = workers s1"
    unfolding t1_def by (rule make_runnable) 
  obtain s3 where e3: "exit_critical st s2 = Inr s3" and c3: "core_at s3 (a # q) w"
    and cl3: "clamp (case level s2 of None \<Rightarrow> 0 | Some l \<Rightarrow> min l st) s2 s3"
    by (rule exit_core [OF c2])
  have "start_thread a s = Inr s3"
    using a e e2 e3 enter_commute [OF e nc, of t1] by (simp add: start_thread_def t1_def)
  moreover have "stays s s3"
    using cl cl3 s2 st by (auto simp: stays_def clamp_def level_def split: option.splits)
  ultimately show ?thesis using that c3 by blast
qed

section \<open>Memory of threads\<close>

text \<open>A new thread object at a free address, and the deletion of a finished one.\<close>

lemma new_core:
  assumes c: "core s" and a: "th s a = None" "0 < a" "a < 2 ^ 32"
  shows "core (set_thread a (fresh_thread e d) s)" and "level (set_thread a (fresh_thread e d) s) = level s"
proof -
  from c obtain q w where cw: "sched_rep s q w" "threads_ok (current_thread s) (current_thread s) (th s) q w"
    "\<forall>a. current_thread s = Some a \<longrightarrow> th s a \<noteq> None" by (auto simp: core_def core_at_def)
  have nq: "a \<notin> set q" and nw: "a \<notin> set w"
    using cw(1) a(1) by (auto simp: sched_rep_def dest: linked_dom)
  have "sched_rep (set_thread a (fresh_thread e d) s) q w"
    using cw(1) nq nw by (simp add: sched_rep_def set_thread_def linked_update_other)
  moreover have "thr_ok (current_thread s) (current_thread s) (set q) (set w) a (fresh_thread e d)"
    using a nq nw cw(3) by (auto simp: thr_ok_def fresh_thread_def CL_EXCL_def)
  then have "threads_ok (current_thread s) (current_thread s) ((th s)(a \<mapsto> fresh_thread e d)) q w"
    by (rule threads_ok_upd [OF cw(2)])
  ultimately show "core (set_thread a (fresh_thread e d) s)"
    unfolding core_def core_at_def using cw(3)
    by (intro exI [of _ q] exI [of _ w]) (auto simp: set_thread_def)
  show "level (set_thread a (fresh_thread e d) s) = level s"
    using a(1) cw(3) by (auto simp: level_def set_thread_def split: option.splits)
qed

lemma delete_core:
  assumes c: "core s" and a: "th s a = Some t" "t_state t = T_STATE_FINISHED"
  shows "delete_thread a s = Inr (s\<lparr>th := (th s)(a := None)\<rparr>)" and "core (s\<lparr>th := (th s)(a := None)\<rparr>)"
    and "level (s\<lparr>th := (th s)(a := None)\<rparr>) = level s" and "current_thread s \<noteq> Some a"
proof -
  show "delete_thread a s = Inr (s\<lparr>th := (th s)(a := None)\<rparr>)" using a by (simp add: delete_thread_def)
  from c obtain q w where cw: "sched_rep s q w" "threads_ok (current_thread s) (current_thread s) (th s) q w"
    "\<forall>a. current_thread s = Some a \<longrightarrow> th s a \<noteq> None" by (auto simp: core_def core_at_def)
  note ta = threads_okD [OF cw(2) a(1)]
  have nq: "a \<notin> set q" and nw: "a \<notin> set w" using ta a(2) by (auto simp: thr_ok_def split: if_splits)
  show nc: "current_thread s \<noteq> Some a" using ta a(2) by (auto simp: thr_ok_def)
  have "sched_rep (s\<lparr>th := (th s)(a := None)\<rparr>) q w"
    using cw(1) nq nw by (simp add: sched_rep_def linked_update_other)
  moreover have "threads_ok (current_thread s) (current_thread s) ((th s)(a := None)) q w"
    using cw(2) by (auto simp: threads_ok_def)
  ultimately show "core (s\<lparr>th := (th s)(a := None)\<rparr>)"
    unfolding core_def core_at_def using cw(3) nc by (intro exI [of _ q] exI [of _ w]) auto
  show "level (s\<lparr>th := (th s)(a := None)\<rparr>) = level s" using nc by (auto simp: level_def split: option.splits)
qed

section \<open>Killing\<close>

lemma inv_core: "sched_inv s \<Longrightarrow> core s"
  by (simp add: sched_inv_iff)

lemma inv_flag: "sched_inv s \<Longrightarrow> level s = Some l \<Longrightarrow> int_flag s = (l < 2)"
  by (simp add: sched_inv_iff)

lemma core_inv: "core s \<Longrightarrow> level s = Some l \<Longrightarrow> int_flag s = (l < 2) \<Longrightarrow> sched_inv s"
  by (simp add: sched_inv_iff)

lemma set_must_exit_core:
  assumes "core s" and "th s a = Some t"
  shows "core (set_thread a (t\<lparr>must_exit := b\<rparr>) s)" and "level (set_thread a (t\<lparr>must_exit := b\<rparr>) s) = level s"
proof -
  from assms(1) obtain q w where c: "core_at s q w" by (auto simp: core_def)
  then have "thr_ok (current_thread s) (current_thread s) (set q) (set w) a t"
    using assms(2) by (auto simp: core_at_def dest: threads_okD)
  then have "thr_ok (current_thread s) (current_thread s) (set q) (set w) a (t\<lparr>must_exit := b\<rparr>)" by (simp add: thr_ok_def)
  with core_at_upd [OF c assms(2), of "t\<lparr>must_exit := b\<rparr>"] show "core (set_thread a (t\<lparr>must_exit := b\<rparr>) s)" by auto
  show "level (set_thread a (t\<lparr>must_exit := b\<rparr>) s) = level s"
    using assms(2) by (auto simp: level_def set_thread_def split: option.splits)
qed

lemma kill_begin_inv:
  assumes inv: "sched_inv s" and lv: "level s = Some l" and a: "th s a = Some t" and nc: "current_thread s \<noteq> Some a"
  obtains st s' where "kill_begin a s = Inr (st, s')" and "sched_inv s'"
proof -
  from inv obtain q w where c: "core_at s q w" by (auto simp: sched_inv_iff core_def)
  obtain st s1 where e: "enter_critical CL_NOSWITCH s = Inr (st, s1)" and c1: "core_at s1 q w"
    and cl: "clamp (case level s of None \<Rightarrow> CL_NOSWITCH | Some l \<Rightarrow> max l CL_NOSWITCH) s s1"
    and stt: "\<And>b. map_option t_state (th s1 b) = map_option t_state (th s b)"
    by (rule enter_core [OF c, of CL_NOSWITCH]) (simp_all add: CL_NOSWITCH_def)
  from stt [of a] a obtain t1 where t1: "th s1 a = Some t1" by auto
  define s2 where "s2 = set_thread a (t1\<lparr>must_exit := True\<rparr>) s1"
  have "core s2" "level s2 = level s1"
    unfolding s2_def using set_must_exit_core [OF core_at_coreI [OF c1] t1] by simp_all
  moreover have "level s1 = Some (max l CL_NOSWITCH)" "int_flag s2 = (max l CL_NOSWITCH < 2)"
    using cl lv by (auto simp: clamp_def s2_def set_thread_def level_def split: option.splits)
  ultimately have "sched_inv s2" by (intro core_inv [where l = "max l CL_NOSWITCH"]) simp_all
  moreover have "kill_begin a s = Inr (st, s2)"
    using nc e t1 by (simp add: kill_begin_def s2_def)
  ultimately show ?thesis using that by blast
qed

lemma kill_round_inv:
  assumes inv: "sched_inv s" and lv: "level s = Some l" "l < 3" and a: "th s a = Some t"
  obtains v s' where "kill_round a s = Inr (v, s')" and "sched_inv s'"
proof (cases "t_state t = T_STATE_FINISHED")
  case True
  with a inv that show ?thesis by (simp add: kill_round_def)
next
  case False
  show ?thesis
  proof (cases "t_state t = T_STATE_PAUSED")
    case True
    from inv obtain q w where c: "core_at s q w" by (auto simp: sched_inv_iff core_def)
    obtain s1 where e: "enqueue_thread a False (set_thread a (t\<lparr>t_state := T_STATE_RUNNING\<rparr>) s) = Inr s1"
      and c1: "core_at s1 (a # q) w" and s1: "int_flag s1 = int_flag s" "level s1 = level s"
      by (rule make_runnable [OF c a]) (use True in simp_all)
    have "sched_inv s1" using core_inv [OF core_at_coreI [OF c1]] s1 lv inv_flag [OF inv] by simp
    with lv s1 obtain v s' where "yield s1 = Inr (v, s')" "sched_inv s'" by (metis yield_inv)
    then show ?thesis using that [of v s'] a False True e by (simp add: kill_round_def)
  next
    case P: False
    from inv lv obtain v s' where "yield s = Inr (v, s')" "sched_inv s'" by (metis yield_inv)
    then show ?thesis using that [of v s'] a False P by (simp add: kill_round_def)
  qed
qed

section \<open>Interrupts\<close>

text \<open>
  What the scheduler relies on in an interrupt handler: it ends in the same thread, at the same level. The timer's
  handler and the handlers of devices, which wake the threads that wait for the device, keep to it.
\<close>

locale irq_handler =
  fixes h :: "sched \<Rightarrow> sched res"
  assumes handles: "core s \<Longrightarrow> (\<forall>l. level s = Some l \<longrightarrow> int_flag s = (l < 2)) \<Longrightarrow>
    \<exists>s'. h s = Inr s' \<and> core s' \<and> stays s s'"
begin

lemma idt_irq_handler_spec:
  assumes c: "core s" and fl: "\<forall>l. level s = Some l \<longrightarrow> int_flag s = (l < 2)"
  obtains s3 where "rbind (enter_critical CL_EXCL s) (\<lambda>(st, s1). rbind (h s1) (exit_critical st)) = Inr s3"
    and "core s3" and "stays s s3"
proof -
  from c obtain q w where cw: "core_at s q w" by (auto simp: core_def)
  obtain st s1 where e: "enter_critical CL_EXCL s = Inr (st, s1)" and c1: "core_at s1 q w"
    and cl: "clamp (case level s of None \<Rightarrow> CL_EXCL | Some l \<Rightarrow> max l CL_EXCL) s s1"
    and st: "st = (case level s of None \<Rightarrow> 3 | Some l \<Rightarrow> l)" "st \<le> 3"
    by (rule enter_core [OF cw, of CL_EXCL]) (simp_all add: CL_EXCL_def)
  have l1: "level s1 = map_option (\<lambda>_. 3) (level s)"
    using cl st by (auto simp: clamp_def CL_EXCL_def max_def split: option.splits)
  have "\<forall>l. level s1 = Some l \<longrightarrow> int_flag s1 = (l < 2)"
    using cl l1 core_level [OF c] st by (auto simp: clamp_def CL_EXCL_def split: option.splits)
  with c1 obtain s2 where h: "h s1 = Inr s2" "core s2" "stays s1 s2" using handles by blast
  then obtain q2 w2 where c2: "core_at s2 q2 w2" by (auto simp: core_def)
  obtain s3 where e3: "exit_critical st s2 = Inr s3" and c3: "core_at s3 q2 w2"
    and cl3: "clamp (case level s2 of None \<Rightarrow> 0 | Some l \<Rightarrow> min l st) s2 s3"
    by (rule exit_core [OF c2])
  have "stays s s3"
    using cl l1 h(3) cl3 st core_level [OF c]
    by (auto simp: stays_def clamp_def split: option.splits)
  then show ?thesis using that [of s3] e h e3 c3 by auto
qed

text \<open>An interrupt keeps the invariant, whether or not it ends in a switch.\<close>

lemma interrupt_inv:
  assumes inv: "sched_inv s" and i: "int_flag s"
  obtains v s' where "interrupt err_code (Some h) s = Inr (v, s')" and "sched_inv s'"
proof -
  have fl: "\<forall>l. level s = Some l \<longrightarrow> int_flag s = (l < 2)" using inv inv_flag by blast
  obtain s3 where e: "rbind (enter_critical CL_EXCL s) (\<lambda>(st, s1). rbind (h s1) (exit_critical st)) = Inr s3"
    and c3: "core s3" and st3: "stays s s3" by (rule idt_irq_handler_spec [OF inv_core [OF inv] fl])
  have idt: "idt_irq_handler err_code (Some h) s = (if err_code = 0 then threading_irq0_handler s3 else Inr (None, s3))"
  proof -
    from e obtain st s1 where 1: "enter_critical CL_EXCL s = Inr (st, s1)" "rbind (h s1) (exit_critical st) = Inr s3"
      by (auto simp: rbind_Inr_iff)
    from 1(2) obtain s2 where "h s1 = Inr s2" "exit_critical st s2 = Inr s3" by (auto simp: rbind_Inr_iff)
    with 1 show ?thesis by (simp add: idt_irq_handler_def)
  qed
  show ?thesis
  proof (cases "current_thread s")
    case None
    with st3 have cur3: "current_thread s3 = None" by (simp add: stays_def)
    then have "interrupt err_code (Some h) s = enter_scheduler s3"
      using None by (simp add: interrupt_def idt threading_irq0_handler_def)
    moreover from c3 cur3 obtain q w where "sched_rep s3 q w" "threads_ok None None (th s3) q w"
      by (auto simp: core_def core_at_def)
    then obtain v s' where "enter_scheduler s3 = Inr (v, s')"
      "inv_at s' (tl q) (case q of [] \<Rightarrow> w | b # _ \<Rightarrow> remove1 b w)"
      by (rule enter_scheduler_idle [OF _ _ cur3])
    ultimately show ?thesis using that [of v s'] by (auto simp: sched_inv_def)
  next
    case (Some a)
    with core_level [OF inv_core [OF inv]] obtain l where l: "level s = Some l" by (cases "level s") auto
    with inv i have l2: "l < 2" using inv_flag by blast
    from st3 l l2 Some have l3: "level s3 = Some l" "int_flag s3" "current_thread s3 = Some a" by (simp_all add: stays_def)
    then have inv3: "sched_inv s3" using core_inv [OF c3] l2 by simp
    show ?thesis
    proof (cases "err_code = 0 \<and> l = 0")
      case False
      have "threading_irq0_handler s3 = Inr (None, s3)" if "err_code = 0"
      proof -
        from l3 obtain t where "th s3 a = Some t" "critical_level t = l" by (auto simp: level_def)
        then show ?thesis using l3 that False by (simp add: threading_irq0_handler_def CL_USER_def)
      qed
      then have "interrupt err_code (Some h) s = Inr (None, s3)" using Some False by (auto simp: interrupt_def idt)
      with inv3 that show ?thesis by blast
    next
      case True
      from inv3 obtain q w where i3: "inv_at s3 q w" by (auto simp: sched_inv_def)
      then have rep: "sched_rep s3 q w" and ok: "threads_ok (Some a) (Some a) (th s3) q w"
        using l3 by (simp_all add: inv_at_def)
      from l3 obtain t where t: "th s3 a = Some t" "critical_level t = 0" using True by (auto simp: level_def)
      note ta = threads_okD [OF ok t(1)]
      define t' where "t' = t\<lparr>ctx := \<lparr>sv_cont = In_irq, sv_int = int_flag s3\<rparr>\<rparr>"
      have ok': "threads_ok (Some a) None ((th s3)(a \<mapsto> t')) q w"
        by (rule threads_ok_suspend [OF ok refl]) (use ta t l3 in \<open>simp add: thr_ok_def t'_def\<close>)
      obtain v s' where "switch_from In_irq s3 = Inr (v, s')"
        and "inv_at s' (tl (q @ [a])) (case q @ [a] of [] \<Rightarrow> w | b # _ \<Rightarrow> remove1 b w)"
        by (rule switch_spec [OF rep l3(3) t(1) t'_def ok', of "q @ [a]"]) (use ta in \<open>simp_all add: thr_ok_def\<close>)
      moreover have "interrupt err_code (Some h) s = switch_from In_irq s3"
      proof -
        have "idt_irq_handler err_code (Some h) s = switch_from In_irq s3"
          using idt True l3 t by (simp add: threading_irq0_handler_def CL_USER_def)
        then show ?thesis using Some by (simp add: interrupt_def rbind_def split: sum.splits)
      qed
      ultimately show ?thesis using that [of v s'] by (auto simp: sched_inv_def)
    qed
  qed
qed

end

interpretation timer: irq_handler irq0_handler
  by unfold_locales (metis irq0_handler_def notify_core)

text \<open>A device whose handler wakes the threads waiting on the object \<open>x\<close>.\<close>

definition device_handler :: "nat \<Rightarrow> sched \<Rightarrow> sched res" where
  "device_handler x s = rbind (resume_on x s) (\<lambda>(_, s'). Inr s')"

interpretation device: irq_handler "device_handler x" for x
proof unfold_locales
  fix s assume "core s"
  then obtain r s' where "resume_on x s = Inr (r, s')" "core s'" "stays s s'" by (rule resume_on_core)
  then show "\<exists>s'. device_handler x s = Inr s' \<and> core s' \<and> stays s s'" by (simp add: device_handler_def)
qed

end
