(* ===== verification/Thread_Props.thy ===== *)
theory Thread_Props
  imports Thread_Events
begin

text \<open>The kernel as a machine, and the properties of the scheduler.\<close>

section \<open>The machine\<close>

text \<open>What the running thread, or a device, can do next.\<close>

datatype event =
    Ev_timer | Ev_device nat
  | Ev_new nat nat nat | Ev_start nat | Ev_delete nat
  | Ev_yield | Ev_wait "nat list" | Ev_resume nat | Ev_usleep nat int
  | Ev_enter nat | Ev_leave nat
  | Ev_kill nat | Ev_kill_round nat | Ev_exit nat

definition may_switch :: "sched \<Rightarrow> bool" where
  "may_switch s = (case level s of None \<Rightarrow> False | Some l \<Rightarrow> l < CL_EXCL)"

text \<open>The obligations of the callers: most are the assertions the code states, the others are about memory.\<close>

fun allowed :: "event \<Rightarrow> sched \<Rightarrow> bool" where
  "allowed Ev_timer s = int_flag s"
| "allowed (Ev_device x) s = int_flag s"
| "allowed (Ev_new a entry data) s = (current_thread s \<noteq> None \<and> th s a = None \<and> 0 < a \<and> a < 2 ^ 32)"
| "allowed (Ev_start a) s =
     (current_thread s \<noteq> None \<and> (case th s a of None \<Rightarrow> False | Some t \<Rightarrow> t_state t = T_STATE_LOADING))"
| "allowed (Ev_delete a) s =
     (current_thread s \<noteq> None \<and> (case th s a of None \<Rightarrow> False | Some t \<Rightarrow> t_state t = T_STATE_FINISHED))"
| "allowed Ev_yield s = may_switch s"
| "allowed (Ev_wait xs) s = (may_switch s \<and> xs \<noteq> [])"
| "allowed (Ev_resume x) s = (current_thread s \<noteq> None)"
| "allowed (Ev_usleep addr usecs) s = may_switch s"
| "allowed (Ev_enter l) s = (current_thread s \<noteq> None \<and> l \<le> CL_EXCL)"
| "allowed (Ev_leave l) s = (current_thread s \<noteq> None)"
| "allowed (Ev_kill a) s = (current_thread s \<noteq> None \<and> current_thread s \<noteq> Some a \<and> th s a \<noteq> None)"
| "allowed (Ev_kill_round a) s = (may_switch s \<and> th s a \<noteq> None)"
| "allowed (Ev_exit addr) s = may_switch s"

definition done_with :: "sched res \<Rightarrow> (bool option \<times> sched) res" where
  "done_with r = rbind r (\<lambda>s. Inr (None, s))"

fun perform :: "event \<Rightarrow> sched \<Rightarrow> (bool option \<times> sched) res" where
  "perform Ev_timer s = interrupt 0 (Some irq0_handler) s"
| "perform (Ev_device x) s = interrupt 1 (Some (device_handler x)) s"
| "perform (Ev_new a entry data) s = Inr (None, set_thread a (fresh_thread entry data) s)"
| "perform (Ev_start a) s = done_with (start_thread a s)"
| "perform (Ev_delete a) s = done_with (delete_thread a s)"
| "perform Ev_yield s = yield s"
| "perform (Ev_wait xs) s = wait_on_many xs s"
| "perform (Ev_resume x) s = rbind (resume_on x s) (\<lambda>(r, s'). Inr (Some r, s'))"
| "perform (Ev_usleep addr usecs) s = usleep addr usecs s"
| "perform (Ev_enter l) s = rbind (enter_critical l s) (\<lambda>(st, s'). Inr (None, s'))"
| "perform (Ev_leave l) s = done_with (exit_critical l s)"
| "perform (Ev_kill a) s = rbind (kill_begin a s) (\<lambda>(st, s'). Inr (None, s'))"
| "perform (Ev_kill_round a) s = kill_round a s"
| "perform (Ev_exit addr) s = exit_thread addr s"

definition sched0 :: "task_state \<Rightarrow> prng_state \<Rightarrow> nat option list \<Rightarrow> sched" where
  "sched0 ts p ws = \<lparr>th = (\<lambda>_. None), current_thread = None, waiters = None, queue_first_thread = None,
     queue_last_thread = None, int_flag = False, s_tasks = ts, s_prng = p, proc_last_ran = (\<lambda>_. 0), workers = ws\<rparr>"

inductive reachable :: "sched \<Rightarrow> bool" where
  boot: "0 < a \<Longrightarrow> a < 2 ^ 32 \<Longrightarrow> threading_setup a cont arg (sched0 ts p ws) = Inr (v, s) \<Longrightarrow> reachable s"
| step: "reachable s \<Longrightarrow> allowed e s \<Longrightarrow> perform e s = Inr (v, s') \<Longrightarrow> reachable s'"

section \<open>The invariant holds in every reachable state\<close>

lemma sched0_core: "core (sched0 ts p ws)"
proof -
  have "core_at (sched0 ts p ws) [] []"
    by (simp add: core_at_def sched0_def sched_rep_def threads_ok_def)
  then show ?thesis by (auto simp: core_def)
qed

lemma setup_inv:
  assumes "0 < a" and "a < 2 ^ 32"
  obtains v s where "threading_setup a cont arg (sched0 ts p ws) = Inr (v, s)" and "sched_inv s"
proof -
  define s0 where "s0 = set_thread a (fresh_thread cont arg) (sched0 ts p ws)"
  have c0: "core s0" unfolding s0_def by (rule new_core [OF sched0_core]) (use assms in \<open>simp_all add: sched0_def\<close>)
  have "th s0 a = Some (fresh_thread cont arg)" by (simp add: s0_def set_thread_def)
  with c0 obtain s1 where s1: "start_thread a s0 = Inr s1" "core s1" "stays s0 s1"
    by (rule start_core) (simp add: fresh_thread_def)
  then have cur: "current_thread s1 = None" by (simp add: stays_def s0_def set_thread_def sched0_def)
  from s1(2) cur obtain q w where "sched_rep s1 q w" "threads_ok None None (th s1) q w" by (auto simp: core_def core_at_def)
  then obtain v s' where "enter_scheduler s1 = Inr (v, s')"
    "inv_at s' (tl q) (case q of [] \<Rightarrow> w | b # _ \<Rightarrow> remove1 b w)" by (rule enter_scheduler_idle [OF _ _ cur])
  then show ?thesis using that [of v s'] s1(1) by (auto simp: threading_setup_def s0_def sched_inv_def)
qed

lemma may_switchD: "may_switch s \<Longrightarrow> \<exists>l. level s = Some l \<and> l < 3"
  by (auto simp: may_switch_def CL_EXCL_def split: option.splits)

lemma inv_tasks: "sched_inv (s\<lparr>s_tasks := ts\<rparr>) = sched_inv s"
  by (simp add: sched_inv_iff core_def split: option.splits)

lemma done_with_Inr [simp]: "done_with (Inr s) = Inr (None, s)"
  by (simp add: done_with_def)

lemma clamp_inv: "core s' \<Longrightarrow> clamp l s s' \<Longrightarrow> level s \<noteq> None \<Longrightarrow> current_thread s \<noteq> None \<Longrightarrow> sched_inv s'"
  by (rule core_inv [of _ l]) (auto simp: clamp_def)

lemma perform_inv:
  assumes inv: "sched_inv s" and al: "allowed e s"
  shows "\<exists>v s'. perform e s = Inr (v, s') \<and> sched_inv s'"
proof (cases e)
  case Ev_timer
  with al have "int_flag s" by simp
  with inv show ?thesis unfolding Ev_timer perform.simps by (metis timer.interrupt_inv)
next
  case (Ev_device x)
  with al have "int_flag s" by simp
  with inv show ?thesis unfolding Ev_device perform.simps by (metis device.interrupt_inv)
next
  case (Ev_new a f d)
  with al have a: "current_thread s \<noteq> None" "th s a = None" "0 < a" "a < 2 ^ 32" by simp_all
  note c = new_core [OF inv_core [OF inv] a(2-4), of f d]
  from core_level [OF inv_core [OF inv]] a(1) obtain l where l: "level s = Some l" by (cases "level s") auto
  have "int_flag (set_thread a (fresh_thread f d) s) = int_flag s" by (simp add: set_thread_def)
  with core_inv [OF c(1), of l] c(2) l inv_flag [OF inv l] show ?thesis by (simp add: Ev_new)
next
  case (Ev_start a)
  with al obtain t where a: "current_thread s \<noteq> None" "th s a = Some t" "t_state t = T_STATE_LOADING"
    by (auto split: option.splits)
  obtain s' where "start_thread a s = Inr s'" "core s'" "stays s s'" by (rule start_core [OF inv_core [OF inv] a(2,3)])
  with stays_inv a(1) show ?thesis by (simp add: Ev_start)
next
  case (Ev_delete a)
  with al obtain t where a: "current_thread s \<noteq> None" "th s a = Some t" "t_state t = T_STATE_FINISHED"
    by (auto split: option.splits)
  note d = delete_core [OF inv_core [OF inv] a(2,3)]
  from core_level [OF inv_core [OF inv]] a(1) obtain l where l: "level s = Some l" by (cases "level s") auto
  with core_inv [OF d(2), of l] d(1,3) inv_flag [OF inv l] show ?thesis by (simp add: Ev_delete)
next
  case Ev_yield
  with al may_switchD obtain l where "level s = Some l" "l < 3" by auto
  with inv show ?thesis unfolding Ev_yield perform.simps by (metis yield_inv)
next
  case (Ev_wait xs)
  with al may_switchD obtain l where "level s = Some l" "l < 3" "xs \<noteq> []" by auto
  with inv show ?thesis unfolding Ev_wait perform.simps by (metis wait_inv)
next
  case (Ev_resume x)
  obtain r s' where "resume_on x s = Inr (r, s')" "core s'" "stays s s'" by (rule resume_on_core [OF inv_core [OF inv]])
  with stays_inv al Ev_resume show ?thesis by simp
next
  case (Ev_usleep addr usecs)
  with al may_switchD obtain l where l: "level s = Some l" "l < 3" by auto
  then obtain a where a: "current_thread s = Some a" by (auto simp: level_def split: option.splits)
  obtain ok ts where p: "worker_push_in addr usecs Usleep_resume_on a (s_tasks s) = (ok, ts)" by (rule prod.exhaust)
  have inv': "sched_inv (s\<lparr>s_tasks := ts\<rparr>)" using inv by (simp add: inv_tasks)
  have "level (s\<lparr>s_tasks := ts\<rparr>) = Some l" using l by simp
  then obtain v s' where "wait_on_many [a] (s\<lparr>s_tasks := ts\<rparr>) = Inr (v, s')" "sched_inv s'"
    using wait_inv [OF inv', of l "[a]"] l(2) by blast
  then show ?thesis using a p inv' by (simp add: Ev_usleep usleep_def wait_on_def)
next
  case (Ev_enter L)
  with al have L: "L \<le> 3" "current_thread s \<noteq> None" by (simp_all add: CL_EXCL_def)
  from inv obtain q w where c: "core_at s q w" by (auto simp: sched_inv_iff core_def)
  obtain st s1 where "enter_critical L s = Inr (st, s1)" "core_at s1 q w"
    "clamp (case level s of None \<Rightarrow> L | Some l \<Rightarrow> max l L) s s1" by (rule enter_core [OF c L(1)])
  with clamp_inv [of s1] L(2) core_level [OF inv_core [OF inv]] show ?thesis by (auto simp: Ev_enter)
next
  case (Ev_leave L)
  from inv obtain q w where c: "core_at s q w" by (auto simp: sched_inv_iff core_def)
  obtain s1 where "exit_critical L s = Inr s1" "core_at s1 q w"
    "clamp (case level s of None \<Rightarrow> 0 | Some l \<Rightarrow> min l L) s s1" by (rule exit_core [OF c])
  with clamp_inv [of s1] al core_level [OF inv_core [OF inv]] show ?thesis by (auto simp: Ev_leave)
next
  case (Ev_kill a)
  with al obtain t where a: "current_thread s \<noteq> None" "th s a = Some t" "current_thread s \<noteq> Some a" by auto
  from core_level [OF inv_core [OF inv]] a(1) obtain l where l: "level s = Some l" by (cases "level s") auto
  obtain st s' where "kill_begin a s = Inr (st, s')" "sched_inv s'" by (rule kill_begin_inv [OF inv l a(2,3)])
  then show ?thesis by (simp add: Ev_kill)
next
  case (Ev_kill_round a)
  with al obtain t where "th s a = Some t" by auto
  moreover from Ev_kill_round al may_switchD obtain l where "level s = Some l" "l < 3" by auto
  ultimately show ?thesis
    using inv unfolding Ev_kill_round perform.simps by (metis kill_round_inv)
next
  case (Ev_exit addr)
  with al may_switchD obtain l where "level s = Some l" "l < 3" by auto
  with inv show ?thesis unfolding Ev_exit perform.simps by (metis exit_inv)
qed

lemma reachable_inv: "reachable s \<Longrightarrow> sched_inv s"
proof (induction rule: reachable.induct)
  case (boot a cont arg ts p ws v s)
  then show ?case by (metis Inr_inject prod.inject setup_inv)
next
  case (step s e v s')
  then show ?case by (metis Inr_inject prod.inject perform_inv)
qed


section \<open>A booted system, for the witnesses\<close>

definition wit_tasks :: task_state where
  "wit_tasks = \<lparr>k_time = 0, next_task_time = UINT64_MAX,
     tasks = \<lparr>bt_cf = uint64_key_cmp_fun, bt_releasef = False, bt_root = Null, bt_nitems = 0\<rparr>,
     wk_heap = \<lparr>hp_answers = [], hp_live = 0\<rparr>\<rparr>"

text \<open>The state after the events \<open>es\<close>, each of which has to be allowed, starting with one thread at 4096.\<close>

fun perform_all :: "event list \<Rightarrow> sched \<Rightarrow> sched res" where
  "perform_all [] s = Inr s"
| "perform_all (e # es) s =
     (if allowed e s then rbind (perform e s) (\<lambda>(v, s'). perform_all es s') else Inl Assert_failed)"

definition boot_run :: "event list \<Rightarrow> sched res" where
  "boot_run es = rbind (threading_setup 4096 1 2 (sched0 wit_tasks prng_init [])) (\<lambda>(v, s). perform_all es s)"

lemma perform_all_reachable: "reachable s \<Longrightarrow> perform_all es s = Inr s' \<Longrightarrow> reachable s'"
proof (induction es arbitrary: s)
  case Nil
  then show ?case by simp
next
  case (Cons e es)
  then obtain v s1 where "allowed e s" "perform e s = Inr (v, s1)" "perform_all es s1 = Inr s'"
    by (auto simp: rbind_Inr_iff split: if_splits)
  with Cons show ?case by (blast intro: reachable.step)
qed

lemma boot_run_reachable: "boot_run es = Inr s \<Longrightarrow> reachable s"
proof -
  assume "boot_run es = Inr s"
  then obtain v s0 where "threading_setup 4096 1 2 (sched0 wit_tasks prng_init []) = Inr (v, s0)" "perform_all es s0 = Inr s"
    by (auto simp: boot_run_def rbind_Inr_iff)
  moreover from this have "reachable s0" by (intro reachable.boot) simp_all
  ultimately show ?thesis using perform_all_reachable by blast
qed

lemmas sched_evals = boot_run_def threading_setup_def start_thread_def set_thread_def fresh_thread_def sched0_def
  enter_critical_def exit_critical_def enqueue_thread_def enter_scheduler_def run_scheduler_def dequeue_thread_def
  resume_context_def self_def level_def CL_USER_def CL_NOINT_def CL_EXCL_def wait_on_many_def switch_from_def
  save_context_def may_switch_def

text \<open>Two threads: the second one is queued, or runs while the first one waits on 77.\<close>

lemma wit_two_threads:
  obtains s where "boot_run [Ev_new 8192 3 4, Ev_start 8192] = Inr s" and "current_thread s = Some 4096"
    and "may_switch s" and "linked (th s) next_in_queue (queue_first_thread s) [8192]"
proof -
  have "\<exists>s. boot_run [Ev_new 8192 3 4, Ev_start 8192] = Inr s \<and> current_thread s = Some 4096
      \<and> may_switch s \<and> linked (th s) next_in_queue (queue_first_thread s) [8192]"
    by (simp add: sched_evals)
  then show ?thesis using that by blast
qed

lemma wit_one_waits:
  obtains s t where "boot_run [Ev_new 8192 3 4, Ev_start 8192, Ev_wait [77]] = Inr s" and "current_thread s = Some 8192"
    and "th s 4096 = Some t" and "t_state t = T_STATE_PAUSED" and "waiting_on t = [77]"
proof -
  have "\<exists>s. boot_run [Ev_new 8192 3 4, Ev_start 8192, Ev_wait [77]] = Inr s \<and> current_thread s = Some 8192
      \<and> (\<exists>t. th s 4096 = Some t \<and> t_state t = T_STATE_PAUSED \<and> waiting_on t = [77])"
    by (simp add: sched_evals)
  then show ?thesis using that by blast
qed


section \<open>Waking\<close>



section \<open>Fairness\<close>

fun yields :: "nat \<Rightarrow> sched \<Rightarrow> sched res" where
  "yields 0 s = Inr s"
| "yields (Suc n) s = rbind (yield s) (\<lambda>(v, s'). yields n s')"

lemma yields_spec:
  assumes "inv_at s q w" and "current_thread s = Some a" and "\<exists>l. level s = Some l \<and> l < 3"
  shows "\<exists>s' w'. yields n s = Inr s' \<and> inv_at s' (tl (rotate n (a # q))) w'
      \<and> current_thread s' = Some (hd (rotate n (a # q))) \<and> (\<exists>l. level s' = Some l \<and> l < 3)"
  using assms
proof (induction n arbitrary: s q w a)
  case 0
  then show ?case by auto
next
  case (Suc n)
  then obtain l where l: "level s = Some l" "l < 3" by blast
  obtain v s1 where s1: "yield s = Inr (v, s1)" "inv_at s1 (tl (q @ [a])) (remove1 (hd (q @ [a])) w)"
    "current_thread s1 = Some (hd (q @ [a]))" "\<forall>l. level s1 = Some l \<longrightarrow> l < 3"
    by (rule yield_spec [OF Suc.prems(1,2) l])
  have l1: "\<exists>l. level s1 = Some l \<and> l < 3"
    using s1(3,4) core_level [OF core_at_coreI [OF inv_at_core [OF s1(2)]]] by (cases "level s1") auto
  have "hd (q @ [a]) # tl (q @ [a]) = rotate1 (a # q)" by (cases q) simp_all
  then have rot: "rotate n (hd (q @ [a]) # tl (q @ [a])) = rotate (Suc n) (a # q)" by (simp add: rotate1_rotate_swap)
  from Suc.IH [OF s1(2,3) l1] s1(1) show ?case unfolding rot by simp
qed

lemma linked_unique: "linked m nx p as \<Longrightarrow> linked m nx p bs \<Longrightarrow> as = bs"
proof (induction as arbitrary: p bs)
  case Nil
  then show ?case by simp
next
  case (Cons a as)
  then show ?case by (cases bs) (auto split: option.splits)
qed

text \<open>C14: the scheduler is fair to the threads that are queued: when the running threads do nothing but yield, the
  thread at place \<open>i\<close> of the queue runs after \<open>i + 1\<close> switches, and the thread that runs now runs again after the
  others had their turn.\<close>

theorem round_robin:
  assumes "reachable s" and "may_switch s" and "current_thread s = Some a"
    and "linked (th s) next_in_queue (queue_first_thread s) q"
  shows "(\<forall>i < length q. \<exists>s'. yields (Suc i) s = Inr s' \<and> current_thread s' = Some (q ! i))
    \<and> (\<exists>s'. yields (Suc (length q)) s = Inr s' \<and> current_thread s' = Some a)"
proof -
  from reachable_inv [OF assms(1)] obtain q' w where i: "inv_at s q' w" by (auto simp: sched_inv_def)
  then have "q' = q" using linked_unique assms(4) by (metis inv_at_def sched_rep_def)
  with i have inv: "inv_at s q w" by simp
  have y: "\<exists>s'. yields n s = Inr s' \<and> current_thread s' = Some ((a # q) ! (n mod length (a # q)))" for n
    using yields_spec [OF inv assms(3) may_switchD [OF assms(2)], of n] hd_rotate_conv_nth [of "a # q" n]
    by (metis list.distinct(1))
  have "\<exists>s'. yields (Suc i) s = Inr s' \<and> current_thread s' = Some (q ! i)" if "i < length q" for i
  proof -
    have "(a # q) ! (Suc i mod length (a # q)) = q ! i" using that by simp
    with y [of "Suc i"] show ?thesis by metis
  qed
  moreover have "(a # q) ! (Suc (length q) mod length (a # q)) = a" by simp
  with y [of "Suc (length q)"] have "\<exists>s'. yields (Suc (length q)) s = Inr s' \<and> current_thread s' = Some a" by metis
  ultimately show ?thesis by blast
qed

theorem round_robin_witness:
  "\<exists>s s'. boot_run [Ev_new 8192 3 4, Ev_start 8192] = Inr s \<and> yields 1 s = Inr s' \<and> current_thread s' = Some 8192"
proof -
  obtain s where s: "boot_run [Ev_new 8192 3 4, Ev_start 8192] = Inr s" "current_thread s = Some 4096"
    "may_switch s" "linked (th s) next_in_queue (queue_first_thread s) [8192]" by (rule wit_two_threads)
  from round_robin [OF boot_run_reachable [OF s(1)] s(3,2,4)]
  have "\<exists>s'. yields (Suc 0) s = Inr s' \<and> current_thread s' = Some 8192" by force
  with s(1) show ?thesis by auto
qed

end
