(* ===== verification/Worker.thy ===== *)
theory Worker
  imports Thread_Events
begin

text \<open>
  The worker threads of src/kernel/core/worker.c: the start of the workers, one round of \<open>worker_thread\<close>, and the
  properties of the task queue of theory \<open>Worker_Tasks\<close>: tasks are taken in the order of their deadlines, and the
  deadline the timer compares the clock with is never later than that of a queued task.
\<close>

section \<open>The code\<close>

definition WORKER_ENTRY :: nat where "WORKER_ENTRY = 1"

text \<open>
  \<open>start_workers\<close>: \<open>addrs\<close> are the answers of \<open>new_thread\<close>, one for each worker. The tree is created before the
  threads; both allocations are asserted.
\<close>

fun start_worker_list :: "nat option list \<Rightarrow> sched \<Rightarrow> sched res" where
  "start_worker_list [] s = Inr s"
| "start_worker_list (None # as) s = start_worker_list as s"
| "start_worker_list (Some a # as) s =
     rbind (start_thread a (set_thread a (fresh_thread WORKER_ENTRY 0) s)) (start_worker_list as)"

definition start_workers :: "nat option list \<Rightarrow> sched \<Rightarrow> sched res" where
  "start_workers addrs s =
     rbind (rassert (length addrs > 0)) (\<lambda>_.
       (case heap_malloc (wk_heap (s_tasks s)) of (ok, h1) \<Rightarrow>
          rbind (rassert ok) (\<lambda>_.
            (case create_btree h1 uint64_key_cmp_fun False of
               (None, h2) \<Rightarrow> Inl Assert_failed
             | (Some bt, h2) \<Rightarrow>
                 start_worker_list addrs
                   (s\<lparr>s_tasks := (s_tasks s)\<lparr>tasks := bt, wk_heap := h2\<rparr>, workers := addrs\<rparr>)))))"

text \<open>
  The task functions of the kernel. What a task of another component does is given by \<open>other\<close>; so is the exit of a
  thread of a process.
\<close>

definition exit_cleanup_task :: "(nat \<Rightarrow> sched \<Rightarrow> sched res) \<Rightarrow> nat \<Rightarrow> sched \<Rightarrow> sched res" where
  "exit_cleanup_task process_thread_exited a s =
     rbind (deref (th s) a) (\<lambda>t. if proc t = None then delete_thread a s else process_thread_exited a s)"

definition run_task ::
  "(nat \<Rightarrow> sched \<Rightarrow> sched res) \<Rightarrow> (task_fun \<Rightarrow> nat \<Rightarrow> sched \<Rightarrow> sched res) \<Rightarrow> worker_task \<Rightarrow> sched \<Rightarrow> sched res" where
  "run_task process_thread_exited other t s =
     (case wt_fun t of
        Usleep_resume_on \<Rightarrow> rbind (resume_on (wt_data t) s) (\<lambda>(_, s'). Inr s')
      | Exit_cleanup \<Rightarrow> exit_cleanup_task process_thread_exited (wt_data t) s
      | f \<Rightarrow> other f (wt_data t) s)"

text \<open>One round of the loop of \<open>worker_thread\<close>: a due task is run and freed, or the worker waits for its wake-up.\<close>

definition worker_round ::
  "(nat \<Rightarrow> sched \<Rightarrow> sched res) \<Rightarrow> (task_fun \<Rightarrow> nat \<Rightarrow> sched \<Rightarrow> sched res) \<Rightarrow> sched \<Rightarrow> (bool option \<times> sched) res" where
  "worker_round pte other s =
     rbind (take_due_task (s_tasks s)) (\<lambda>(next_task, ts).
       (let s1 = s\<lparr>s_tasks := ts\<rparr>
        in case next_task of
             None \<Rightarrow> (case current_thread s1 of None \<Rightarrow> Inl Assert_failed | Some a \<Rightarrow> wait_on a s1)
           | Some t \<Rightarrow>
               rbind (run_task pte other t (s1\<lparr>s_prng := prng_add_entropy (le_bytes (wt_addr t)) (s_prng s1)\<rparr>)) (\<lambda>s2.
                 Inr (None, s2\<lparr>s_tasks := (s_tasks s2)\<lparr>wk_heap := heap_free (wk_heap (s_tasks s2))\<rparr>\<rparr>))))"

section \<open>The task queue\<close>

interpretation deadlines: ordered_keys uint64_key_cmp_fun
  by unfold_locales (auto simp: uint64_key_cmp_fun_def split: if_splits)

text \<open>The tree is a search tree whose keys are the deadlines, and the hint is a lower bound of them.\<close>

definition tasks_ok :: "task_state \<Rightarrow> bool" where
  "tasks_ok s \<longleftrightarrow> bt_inv (tasks s) \<and> bt_cf (tasks s) = uint64_key_cmp_fun
     \<and> (\<forall>(k, t) \<in> set (btree_iter (tasks s)). k = wt_time t \<and> next_task_time s \<le> k)"

definition queued :: "task_state \<Rightarrow> worker_task list" where
  "queued s = map snd (btree_iter (tasks s))"

lemma cmp_iff:
  "uint64_key_cmp_fun a b \<le> 0 \<longleftrightarrow> a \<le> b" "0 < uint64_key_cmp_fun a b \<longleftrightarrow> b < a" "uint64_key_cmp_fun a b = 0 \<longleftrightarrow> a = b"
  by (auto simp: uint64_key_cmp_fun_def)

lemma push_ok:
  assumes ok: "tasks_ok s" and p: "worker_push_in addr usecs f d s = (r, s')"
  shows "tasks_ok s'"
    and "set (queued s') = set (queued s) \<or>
         set (queued s') = insert \<lparr>wt_addr = addr, wt_time = k_time s + word_of_int usecs, wt_fun = f, wt_data = d\<rparr> (set (queued s))"
proof -
  obtain a h1 where m: "heap_malloc (wk_heap s) = (a, h1)" by (rule prod.exhaust)
  define t where "t = \<lparr>wt_addr = addr, wt_time = k_time s + word_of_int usecs, wt_fun = f, wt_data = d\<rparr>"
  obtain added bt h2 where b: "btree_add h1 (tasks s) (wt_time t) t = (added, bt, h2)" by (rule prod_cases3)
  have "tasks_ok s' \<and> (set (queued s') = set (queued s) \<or> set (queued s') = insert t (set (queued s)))"
  proof (cases a)
    case False
    with p m have "s' = s\<lparr>wk_heap := h1\<rparr>" by (simp add: worker_push_in_def)
    with ok show ?thesis by (simp add: tasks_ok_def queued_def)
  next
    case True
    have s': "s' = s\<lparr>tasks := bt, wk_heap := h2,
        next_task_time := (if wt_time t < next_task_time s then wt_time t else next_task_time s)\<rparr>"
      using p m b True unfolding worker_push_in_def t_def by (simp add: Let_def)
    have inv: "bt_inv (tasks s)" and cf: "bt_cf (tasks s) = uint64_key_cmp_fun" using ok by (simp_all add: tasks_ok_def)
    note f = btree_add_facts [OF inv b]
    have cf': "bt_cf bt = uint64_key_cmp_fun"
      using b cf by (auto simp: btree_add_def Let_def split: prod.splits if_splits)
    have it: "set (btree_iter bt) = (if added then insert (wt_time t, t) (set (btree_iter (tasks s))) else set (btree_iter (tasks s)))"
    proof -
      have "set (filter P xs @ x # filter (\<lambda>y. \<not> P y) xs) = insert x (set xs)" for P xs and x :: "u64 \<times> worker_task" by auto
      from this [of "\<lambda>x. 0 < bt_cf (tasks s) (wt_time t) (fst x)"] f show ?thesis by (simp add: not_less)
    qed
    have "tasks_ok s'"
      using ok f cf' it by (auto simp: tasks_ok_def s' split: if_splits)
    moreover have "set (queued s') = set (queued s) \<or> set (queued s') = insert t (set (queued s))"
      using it by (auto simp: queued_def s' split: if_splits)
    ultimately show ?thesis by blast
  qed
  then show "tasks_ok s'" and "set (queued s') = set (queued s) \<or> set (queued s') = insert \<lparr>wt_addr = addr, wt_time = k_time s + word_of_int usecs, wt_fun = f, wt_data = d\<rparr> (set (queued s))"
    by (simp_all add: t_def)
qed

lemma take_ok:
  assumes ok: "tasks_ok s"
  obtains r s' where "take_due_task s = Inr (r, s')" and "tasks_ok s'" and "k_time s' = k_time s"
    and "case r of
        None \<Rightarrow> queued s' = queued s \<and> (\<forall>t \<in> set (queued s). k_time s < wt_time t)
      | Some t \<Rightarrow> t \<in> set (queued s) \<and> wt_time t \<le> k_time s \<and> (\<forall>u \<in> set (queued s). wt_time t \<le> wt_time u)
          \<and> set (queued s') = set (queued s) - {t}"
proof -
  have inv: "bt_inv (tasks s)" and cf: "bt_cf (tasks s) = uint64_key_cmp_fun"
    and keys: "\<forall>(k, t) \<in> set (btree_iter (tasks s)). k = wt_time t \<and> next_task_time s \<le> k"
    using ok by (simp_all add: tasks_ok_def)
  note up = conjunct2 [OF btree_lower_upper_facts [OF inv, of 0]]
  show ?thesis
  proof (cases "btree_upper (tasks s) 0")
    case None
    with up cf have "\<forall>x \<in> set (btree_iter (tasks s)). False" by (auto simp: cmp_iff)
    then have "btree_iter (tasks s) = []" by (metis list.set_intros(1) neq_Nil_conv)
    then show ?thesis using None ok
      by (intro that [of None "s\<lparr>next_task_time := UINT64_MAX\<rparr>"])
        (simp_all add: take_due_task_def tasks_ok_def queued_def)
  next
    case (Some y)
    obtain key t where y: "y = (key, t)" by (rule prod.exhaust)
    with Some up cf have t: "(key, t) \<in> set (btree_iter (tasks s))"
      and min: "\<forall>x \<in> set (btree_iter (tasks s)). key \<le> fst x"
      by (simp_all add: cmp_iff)
    with keys have kt: "key = wt_time t" by blast
    define s1 where "s1 = s\<lparr>next_task_time := wt_time t\<rparr>"
    have min': "\<forall>(k, u) \<in> set (btree_iter (tasks s)). k = wt_time u \<and> wt_time t \<le> k" using keys min kt by fastforce
    have ok1: "tasks_ok s1" using inv cf min' by (simp add: tasks_ok_def s1_def)
    have tq: "t \<in> set (queued s)" using t by (force simp: queued_def)
    have minq: "\<forall>u \<in> set (queued s). wt_time t \<le> wt_time u" using min' by (auto simp: queued_def)
    show ?thesis
    proof (cases "wt_time t \<le> k_time s")
      case False
      then have "take_due_task s = Inr (None, s1)"
        by (simp add: take_due_task_def Some y s1_def Let_def)
      moreover have "\<forall>u \<in> set (queued s). k_time s < wt_time u" using False minq by force
      ultimately show ?thesis using ok1 by (intro that [of None s1]) (simp_all add: s1_def queued_def)
    next
      case True
      obtain log bt h where r: "btree_remove_v (wk_heap s) (tasks s) (wt_time t) t = Inr (log, bt, h)" "bt_inv bt"
        "btree_iter bt = filter (\<lambda>x. \<not> (bt_cf (tasks s) (wt_time t) (fst x) = 0 \<and> snd x = t)) (btree_iter (tasks s))"
        using btree_remove_v_facts [OF inv, of "wk_heap s" "wt_time t" t] by blast
      define s2 where "s2 = s1\<lparr>tasks := bt, wk_heap := h\<rparr>"
      have cf2: "bt_cf bt = uint64_key_cmp_fun"
        using r(1) cf by (auto simp: btree_remove_v_def split: sum.splits)
      have it: "set (btree_iter bt) = {x \<in> set (btree_iter (tasks s)). snd x \<noteq> t}"
        using r(3) cf keys by (auto simp: cmp_iff)
      have e: "take_due_task s = Inr (Some t, s2)"
        using True r(1) by (simp add: take_due_task_def Some y s1_def s2_def Let_def)
      have "tasks_ok s2" using r(2) cf2 it min' by (auto simp: tasks_ok_def s2_def s1_def)
      moreover have "set (queued s2) = set (queued s) - {t}" using it by (force simp: queued_def s2_def)
      ultimately show ?thesis using e True tq minq by (intro that [of "Some t" s2]) (simp_all add: s2_def s1_def)
    qed
  qed
qed

text \<open>The calls that reach the task queue, in any order: pushes, rounds of the workers, ticks of the clock.\<close>

datatype task_call = Push nat int task_fun nat | Take | Pass int

fun task_run :: "task_call list \<Rightarrow> task_state \<Rightarrow> task_state res" where
  "task_run [] s = Inr s"
| "task_run (Push a u f d # cs) s = task_run cs (snd (worker_push_in a u f d s))"
| "task_run (Take # cs) s = rbind (take_due_task s) (\<lambda>(r, s'). task_run cs s')"
| "task_run (Pass u # cs) s = task_run cs (s\<lparr>k_time := k_time s + word_of_int u\<rparr>)"

lemma task_run_ok: "tasks_ok s \<Longrightarrow> \<exists>s'. task_run cs s = Inr s' \<and> tasks_ok s'"
proof (induction cs s rule: task_run.induct)
  case (1 s)
  then show ?case by simp
next
  case (2 a u f d cs s)
  then show ?case using push_ok(1) [OF 2(2), of a u f d] by (metis prod.collapse task_run.simps(2))
next
  case (3 cs s)
  obtain r s' where t: "take_due_task s = Inr (r, s')" "tasks_ok s'" by (rule take_ok [OF 3(2)])
  with 3(1) show ?case by simp
next
  case (4 u cs s)
  then show ?case by (simp add: tasks_ok_def)
qed

definition fresh_tasks :: "heap \<Rightarrow> task_state" where
  "fresh_tasks h = \<lparr>k_time = 0, next_task_time = UINT64_MAX,
     tasks = \<lparr>bt_cf = uint64_key_cmp_fun, bt_releasef = False, bt_root = Null, bt_nitems = 0\<rparr>, wk_heap = h\<rparr>"

lemma fresh_tasks_ok: "tasks_ok (fresh_tasks h)"
  by (simp add: tasks_ok_def fresh_tasks_def bt_inv_def deadlines.ordered_keys_axioms bt_sorted_def btree_iter_def btree_count_def)

text \<open>C16: whatever is pushed, taken and however time passes, a worker that asks for a task gets one whose deadline
  has passed and is the earliest of all queued ones, and gets none only when no deadline has passed; the removal
  takes exactly this task out. The deadline that the timer interrupt compares the clock with is never later than
  that of a queued task, so that no due task goes unnoticed.\<close>

theorem tasks_in_deadline_order:
  assumes "task_run cs (fresh_tasks h) = Inr s"
  shows "(\<forall>t \<in> set (queued s). next_task_time s \<le> wt_time t)
    \<and> (\<exists>r s'. take_due_task s = Inr (r, s')
      \<and> (case r of
          None \<Rightarrow> \<forall>t \<in> set (queued s). k_time s < wt_time t
        | Some t \<Rightarrow> t \<in> set (queued s) \<and> wt_time t \<le> k_time s \<and> (\<forall>u \<in> set (queued s). wt_time t \<le> wt_time u)
            \<and> set (queued s') = set (queued s) - {t}))"
proof -
  have ok: "tasks_ok s" using task_run_ok [OF fresh_tasks_ok, of cs h] assms by auto
  then have "\<forall>t \<in> set (queued s). next_task_time s \<le> wt_time t" by (auto simp: tasks_ok_def queued_def)
  moreover obtain r s' where "take_due_task s = Inr (r, s')"
    "case r of
        None \<Rightarrow> queued s' = queued s \<and> (\<forall>t \<in> set (queued s). k_time s < wt_time t)
      | Some t \<Rightarrow> t \<in> set (queued s) \<and> wt_time t \<le> k_time s \<and> (\<forall>u \<in> set (queued s). wt_time t \<le> wt_time u)
          \<and> set (queued s') = set (queued s) - {t}"
    by (rule take_ok [OF ok])
  ultimately show ?thesis by (cases r) auto
qed

theorem tasks_in_deadline_order_witness:
  "\<exists>s s'. task_run [Push 16 500 (Other_task 1) 0, Push 32 100 (Other_task 2) 0, Pass 600] (fresh_tasks \<lparr>hp_answers = [], hp_live = 0\<rparr>) = Inr s
     \<and> take_due_task s = Inr (Some \<lparr>wt_addr = 32, wt_time = 100, wt_fun = Other_task 2, wt_data = 0\<rparr>, s')
     \<and> (\<forall>t \<in> set (queued s). next_task_time s \<le> wt_time t)"
proof -
  obtain s where s: "task_run [Push 16 500 (Other_task 1) 0, Push 32 100 (Other_task 2) 0, Pass 600]
      (fresh_tasks \<lparr>hp_answers = [], hp_live = 0\<rparr>) = Inr s"
    using task_run_ok [OF fresh_tasks_ok] by blast
  have "\<exists>s'. take_due_task s = Inr (Some \<lparr>wt_addr = 32, wt_time = 100, wt_fun = Other_task 2, wt_data = 0\<rparr>, s')"
    using s by (auto simp: fresh_tasks_def worker_push_in_def heap_malloc_def next_answer_def btree_add_def Let_def
        uint64_key_cmp_fun_def take_due_task_def btree_upper_def btree_remove_v_def UINT64_MAX_def
        btree_equilibrate_def equilibrate_left_loop.simps equilibrate_right_loop.simps btree_join_def btree_remove_aux_v.simps)
  with s tasks_in_deadline_order [OF s] show ?thesis by blast
qed

end
