(* ===== verification/Mutex.thy ===== *)
theory Mutex
  imports Thread
begin

text \<open>
  The spin locks of src/common/libkogata/mutex.c. \<open>atomic_exchange\<close> is one instruction. \<open>mutex_lock\<close> gives the
  processor away while the lock is taken: what the other threads do to the word meanwhile is a list of values, one for
  each time the thread is back; when the list ends, the lock is not obtained (no result).
\<close>

definition MUTEX_LOCKED :: u32 where "MUTEX_LOCKED = 1"
definition MUTEX_UNLOCKED :: u32 where "MUTEX_UNLOCKED = 0"

definition atomic_exchange :: "u32 \<Rightarrow> u32 \<Rightarrow> u32 \<times> u32" where
  "atomic_exchange m newval = (m, newval)"

fun mutex_lock :: "u32 list \<Rightarrow> u32 \<Rightarrow> u32 option" where
  "mutex_lock others m =
     (case atomic_exchange m MUTEX_LOCKED of (r, m1) \<Rightarrow>
        if r = MUTEX_LOCKED then (case others of [] \<Rightarrow> None | m2 # rest \<Rightarrow> mutex_lock rest m2) else Some m1)"

declare mutex_lock.simps [simp del]

definition mutex_try_lock :: "u32 \<Rightarrow> bool \<times> u32" where
  "mutex_try_lock m = (case atomic_exchange m MUTEX_LOCKED of (r, m1) \<Rightarrow> (r \<noteq> MUTEX_LOCKED, m1))"

definition mutex_unlock :: "u32 \<Rightarrow> u32" where
  "mutex_unlock m = MUTEX_UNLOCKED"

lemma mutex_lock_free [simp]: "m \<noteq> MUTEX_LOCKED \<Longrightarrow> mutex_lock others m = Some MUTEX_LOCKED"
  by (subst mutex_lock.simps) (simp add: atomic_exchange_def)

text \<open>The lock is obtained as soon as one of the other threads leaves it unlocked.\<close>

lemma mutex_lock_obtained: "m \<noteq> MUTEX_LOCKED \<or> (\<exists>x \<in> set others. x \<noteq> MUTEX_LOCKED) \<Longrightarrow> mutex_lock others m = Some MUTEX_LOCKED"
proof (induction others arbitrary: m)
  case Nil
  then show ?case by (simp add: mutex_lock_free)
next
  case (Cons x others)
  then show ?case
    by (cases "m = MUTEX_LOCKED"; subst mutex_lock.simps) (auto simp: atomic_exchange_def)
qed

text \<open>Threads that take and give back one lock, in any order; only a holder unlocks. The list is of the holders.\<close>

datatype lock_call = Try nat | Release nat

fun lock_run :: "lock_call list \<Rightarrow> u32 \<Rightarrow> nat list \<Rightarrow> u32 \<times> nat list" where
  "lock_run [] m hs = (m, hs)"
| "lock_run (Try t # cs) m hs =
     (case mutex_try_lock m of (ok, m1) \<Rightarrow> lock_run cs m1 (if ok then t # hs else hs))"
| "lock_run (Release t # cs) m hs =
     (if t \<in> set hs then lock_run cs (mutex_unlock m) (removeAll t hs) else lock_run cs m hs)"

lemma lock_run_inv:
  "(m = MUTEX_LOCKED \<and> length hs = 1 \<or> m = MUTEX_UNLOCKED \<and> hs = []) \<Longrightarrow> lock_run cs m hs = (m', hs') \<Longrightarrow>
     m' = MUTEX_LOCKED \<and> length hs' = 1 \<or> m' = MUTEX_UNLOCKED \<and> hs' = []"
proof (induction cs m hs rule: lock_run.induct)
  case (1 m hs)
  then show ?case by simp
next
  case (2 t cs m hs)
  have "MUTEX_LOCKED \<noteq> MUTEX_UNLOCKED" by (simp add: MUTEX_LOCKED_def MUTEX_UNLOCKED_def)
  with 2 show ?case by (auto simp: mutex_try_lock_def atomic_exchange_def split: if_splits)
next
  case (3 t cs m hs)
  then show ?case by (cases hs) (auto simp: mutex_unlock_def split: if_splits)
qed

text \<open>The lock is held by at most one thread, and is marked as locked exactly while it is held.\<close>

lemma mutual_exclusion:
  "lock_run cs MUTEX_UNLOCKED [] = (m, hs) \<Longrightarrow> length hs \<le> 1 \<and> (m = MUTEX_LOCKED \<longleftrightarrow> hs \<noteq> [])"
  using lock_run_inv [of MUTEX_UNLOCKED "[]" cs m hs] by (auto simp: MUTEX_LOCKED_def MUTEX_UNLOCKED_def)

end
