(* ===== verification/Pager.thy ===== *)
theory Pager
  imports Hashtbl Frame
begin

text \<open>
  The pagers of src/kernel/user/pager.c: an object that owns the frames of a memory area, page by page, in a hash
  table from page offsets to entries. There are three kinds: anonymous memory (\<open>swap\<close>), memory backed by a file
  system driver, and the memory of a device. Offsets and sizes are 32-bit words, and their sums wrap as in C.

  The frames come from the frame allocator of theory \<open>Frame\<close>. The kernel maps frames in a temporary region
  of its address space to reach their contents; whether there is room for the region and whether the page tables can be
  extended are two lists of answers (an exhausted list answers "yes"). A mapped region is a window on the contents of
  its frames, \<open>pe_phys\<close>. In the address spaces of processes only the presence of pages matters.
\<close>

section \<open>Data\<close>

definition PAGE_PINNED :: u32 where "PAGE_PINNED = 0x01"
definition PAGE_ACCESSED :: u32 where "PAGE_ACCESSED = 0x02"
definition PAGE_DIRTY :: u32 where "PAGE_DIRTY = 0x04"
definition ENT_FRAME_SHIFT :: nat where "ENT_FRAME_SHIFT = 12"

record 's vfs_pager_ops =
  vp_read :: "(nat \<Rightarrow> u32 \<Rightarrow> u32 \<Rightarrow> 's \<Rightarrow> u8 list \<times> 's) option"
  vp_write :: "(nat \<Rightarrow> u32 \<Rightarrow> u8 list \<Rightarrow> 's \<Rightarrow> u32 \<times> 's) option"
  vp_resize :: "(nat \<Rightarrow> u32 \<Rightarrow> 's \<Rightarrow> bool \<times> 's) option"

text \<open>The union of the three kinds; the operations of a driver are given by the address of their table.\<close>

datatype pager_kind =
    Swap_pager bool
  | Vfs_pager nat nat
  | Device_pager u32

record user_map =
  um_proc :: nat
  um_addr :: u32
  um_offset :: u32

record pager =
  pg_kind :: pager_kind
  pg_size :: u32
  pg_pages :: "(u32, u32) hashtbl"
  pg_locked :: bool
  pg_maps :: "user_map list"

record 's pager_env =
  pe_frames :: frame_state
  pe_phys :: "nat \<Rightarrow> u8 list"
  pe_regions :: "bool list"
  pe_tables :: "bool list"
  pe_heap :: heap
  pe_present :: "nat \<Rightarrow> u32 \<Rightarrow> bool"
  pe_dev :: 's

definition region_answer :: "'s pager_env \<Rightarrow> bool \<times> 's pager_env" where
  "region_answer e = (pe_regions e = [] \<or> hd (pe_regions e), e\<lparr>pe_regions := tl (pe_regions e)\<rparr>)"

definition map_answer :: "'s pager_env \<Rightarrow> bool \<times> 's pager_env" where
  "map_answer e = (pe_tables e = [] \<or> hd (pe_tables e), e\<lparr>pe_tables := tl (pe_tables e)\<rparr>)"

type_synonym 's pstate = "pager \<times> 's pager_env"

section \<open>Entries\<close>

definition entry :: "pager \<Rightarrow> u32 \<Rightarrow> u32" where
  "entry p page = (case hashtbl_find (pg_pages p) page of None \<Rightarrow> 0 | Some v \<Rightarrow> v)"

definition entry_frame :: "u32 \<Rightarrow> nat" where
  "entry_frame v = unat (drop_bit ENT_FRAME_SHIFT v)"

definition add_entry :: "u32 \<Rightarrow> u32 \<Rightarrow> 's pstate \<Rightarrow> bool \<times> 's pstate" where
  "add_entry page v = (\<lambda>(p, e). case ht_put (pe_heap e) (pg_pages p) page v of (ok, ht, h) \<Rightarrow>
     (ok, p\<lparr>pg_pages := ht\<rparr>, e\<lparr>pe_heap := h\<rparr>))"

definition remove_entry :: "u32 \<Rightarrow> 's pstate \<Rightarrow> 's pstate" where
  "remove_entry page = (\<lambda>(p, e). case ht_del (pe_heap e) (pg_pages p) page of (ht, h) \<Rightarrow>
     (p\<lparr>pg_pages := ht\<rparr>, e\<lparr>pe_heap := h\<rparr>))"

definition change_entry :: "u32 \<Rightarrow> u32 \<Rightarrow> pager \<Rightarrow> pager" where
  "change_entry page v p = p\<lparr>pg_pages := snd (hashtbl_change (pg_pages p) page v)\<rparr>"

definition release_frame :: "nat \<Rightarrow> 's pstate \<Rightarrow> 's pstate res" where
  "release_frame f = (\<lambda>(p, e). rbind (frame_free (of_nat f) 1 (pe_frames e)) (\<lambda>fr. Inr (p, e\<lparr>pe_frames := fr\<rparr>)))"

definition get_frame :: "'s pager_env \<Rightarrow> (nat \<times> 's pager_env) res" where
  "get_frame e = rbind (frame_alloc 1 (pe_frames e)) (\<lambda>(f, fr). Inr (f, e\<lparr>pe_frames := fr\<rparr>))"

section \<open>New pagers\<close>

definition new_pager :: "pager_kind \<Rightarrow> u32 \<Rightarrow> heap \<Rightarrow> pager option \<times> heap" where
  "new_pager k sz h =
     (case heap_malloc h of (ok, h1) \<Rightarrow>
        if \<not> ok then (None, h1)
        else (case create_hashtbl h1 id_key_eq_fun id_hash_fun False of
                (None, h2) \<Rightarrow> (None, heap_free h2)
              | (Some ht, h2) \<Rightarrow>
                  (Some \<lparr>pg_kind = k, pg_size = sz, pg_pages = ht, pg_locked = False, pg_maps = []\<rparr>, h2)))"

definition new_swap_pager :: "u32 \<Rightarrow> bool \<Rightarrow> heap \<Rightarrow> pager option \<times> heap" where
  "new_swap_pager sz allow_resize h = new_pager (Swap_pager allow_resize) sz h"

definition new_vfs_pager :: "u32 \<Rightarrow> nat \<Rightarrow> nat \<Rightarrow> heap \<Rightarrow> pager option \<times> heap" where
  "new_vfs_pager sz vfs_node ops h = new_pager (Vfs_pager vfs_node ops) sz h"

definition new_device_pager :: "u32 \<Rightarrow> u32 \<Rightarrow> heap \<Rightarrow> (pager option \<times> heap) res" where
  "new_device_pager sz phys_offset h =
     rbind (rassert (PAGE_ALIGNED phys_offset)) (\<lambda>_. Inr (new_pager (Device_pager phys_offset) sz h))"

section \<open>Anonymous memory\<close>

definition zero_page :: "u8 list" where "zero_page = replicate 4096 0"

definition swap_page_in_one :: "u32 \<Rightarrow> 's pstate \<Rightarrow> 's pstate res" where
  "swap_page_in_one page = (\<lambda>(p, e).
     if entry p page \<noteq> 0 then Inr (p, e)
     else rbind (get_frame e) (\<lambda>(f, e1).
       if f = 0 then Inr (p, e1)
       else (case map_answer e1 of (mapped, e2) \<Rightarrow>
         if \<not> mapped then Inr (p, e2)
         else (let e3 = e2\<lparr>pe_phys := (pe_phys e2)(f := zero_page)\<rparr>
               in case add_entry page (push_bit ENT_FRAME_SHIFT (of_nat f)) (p, e3) of
                    (ok, s) \<Rightarrow> if ok then Inr s else release_frame f s))))"

definition swap_page_in :: "u32 \<Rightarrow> u32 \<Rightarrow> 's pstate \<Rightarrow> 's pstate res" where
  "swap_page_in offset len = (\<lambda>(p, e).
     rbind (rassert (PAGE_ALIGNED offset)) (\<lambda>_.
       (case region_answer e of (ok, e1) \<Rightarrow>
          if \<not> ok then Inr (p, e1)
          else rbind (page_range offset len) (\<lambda>ps. each_page swap_page_in_one ps (p, e1)))))"

definition swap_page_out :: "u32 \<Rightarrow> u32 \<Rightarrow> 's pstate \<Rightarrow> 's pstate res" where
  "swap_page_out offset len s = Inr s"

definition release_one :: "u32 \<Rightarrow> 's pstate \<Rightarrow> 's pstate res" where
  "release_one page = (\<lambda>(p, e).
     (let f = entry_frame (entry p page)
      in if f \<noteq> 0 then release_frame f (remove_entry page (p, e)) else Inr (p, e)))"

definition swap_page_release :: "u32 \<Rightarrow> u32 \<Rightarrow> 's pstate \<Rightarrow> 's pstate res" where
  "swap_page_release offset len s =
     rbind (rassert (PAGE_ALIGNED offset)) (\<lambda>_. rbind (page_range offset len) (\<lambda>ps. each_page release_one ps s))"

definition swap_pager_resize :: "bool \<Rightarrow> bool" where
  "swap_pager_resize allow_resize = allow_resize"

section \<open>Memory backed by a driver\<close>

text \<open>What is expected of the page at \<open>page\<close>: less than a page at the end of the file.\<close>

definition expect_len :: "pager \<Rightarrow> u32 \<Rightarrow> u32" where
  "expect_len p page = (if page + PAGE_SIZE > pg_size p then pg_size p - page else PAGE_SIZE)"

definition vfs_page_in_one :: "'s vfs_pager_ops \<Rightarrow> nat \<Rightarrow> u32 \<Rightarrow> 's pstate \<Rightarrow> 's pstate res" where
  "vfs_page_in_one ops node page = (\<lambda>(p, e).
     if entry p page \<noteq> 0 then Inr (p, e)
     else rbind (get_frame e) (\<lambda>(f, e1).
       if f = 0 then Inr (p, e1)
       else (case map_answer e1 of (mapped, e2) \<Rightarrow>
         if \<not> mapped then release_frame f (p, e2)
         else
           (let len = expect_len p page; n = unat len
            in if n > 4096 then Inl Bad_access
               else
                 (let c0 = pe_phys e2 f;
                      c1 = (if n < 4096 then take n c0 @ replicate (4096 - n) 0 else c0)
                  in case the (vp_read ops) node page len (pe_dev e2) of (bytes, d) \<Rightarrow>
                       (let e3 = e2\<lparr>pe_phys := (pe_phys e2)(f := bytes @ drop (length bytes) c1), pe_dev := d\<rparr>
                        in if length bytes \<noteq> n then release_frame f (p, e3)
                           else (case add_entry page (push_bit ENT_FRAME_SHIFT (of_nat f)) (p, e3) of
                                   (ok, s) \<Rightarrow> if ok then Inr s else release_frame f s)))))))"

definition vfs_page_in :: "'s vfs_pager_ops \<Rightarrow> nat \<Rightarrow> u32 \<Rightarrow> u32 \<Rightarrow> 's pstate \<Rightarrow> 's pstate res" where
  "vfs_page_in ops node offset len = (\<lambda>(p, e).
     rbind (rassert (PAGE_ALIGNED offset)) (\<lambda>_. rbind (rassert (vp_read ops \<noteq> None)) (\<lambda>_.
       (case region_answer e of (ok, e1) \<Rightarrow>
          if \<not> ok then Inr (p, e1)
          else rbind (page_range offset len) (\<lambda>ps. each_page (vfs_page_in_one ops node) ps (p, e1))))))"

definition vfs_commit_one :: "'s vfs_pager_ops \<Rightarrow> nat \<Rightarrow> u32 \<Rightarrow> 's pstate \<Rightarrow> 's pstate res" where
  "vfs_commit_one ops node page = (\<lambda>(p, e).
     (let ent = entry p page
      in if ent AND PAGE_DIRTY = 0 then Inr (p, e)
         else (case map_answer e of (mapped, e1) \<Rightarrow>
           if \<not> mapped then Inr (p, e1)
           else (case vp_write ops of
                   None \<Rightarrow> Inr (p, e1)
                 | Some wr \<Rightarrow>
                     (let len = expect_len p page
                      in if unat len > 4096 then Inl Bad_access
                         else (case wr node page (take (unat len) (pe_phys e1 (entry_frame ent))) (pe_dev e1) of
                                 (written, d) \<Rightarrow>
                                   Inr (if written = len then change_entry page (ent AND NOT PAGE_DIRTY) p else p,
                                        e1\<lparr>pe_dev := d\<rparr>)))))))"

definition vfs_page_commit :: "'s vfs_pager_ops \<Rightarrow> nat \<Rightarrow> u32 \<Rightarrow> u32 \<Rightarrow> 's pstate \<Rightarrow> 's pstate res" where
  "vfs_page_commit ops node offset len = (\<lambda>(p, e).
     rbind (rassert (PAGE_ALIGNED offset)) (\<lambda>_. rbind (rassert (vp_read ops \<noteq> None)) (\<lambda>_.
       (case region_answer e of (ok, e1) \<Rightarrow>
          if \<not> ok then Inr (p, e1)
          else rbind (page_range offset len) (\<lambda>ps. each_page (vfs_commit_one ops node) ps (p, e1))))))"

definition vfs_out_one :: "u32 \<Rightarrow> 's pstate \<Rightarrow> 's pstate res" where
  "vfs_out_one page = (\<lambda>(p, e).
     (let ent = entry p page
      in if ent = 0 \<or> ent AND PAGE_DIRTY \<noteq> 0 then Inr (p, e)
         else release_frame (entry_frame ent) (remove_entry page (p, e))))"

definition vfs_page_out :: "'s vfs_pager_ops \<Rightarrow> nat \<Rightarrow> u32 \<Rightarrow> u32 \<Rightarrow> 's pstate \<Rightarrow> 's pstate res" where
  "vfs_page_out ops node offset len s =
     rbind (vfs_page_commit ops node offset len s) (\<lambda>s1.
       rbind (page_range offset len) (\<lambda>ps. each_page vfs_out_one ps s1))"

definition vfs_release_one :: "u32 \<Rightarrow> 's pstate \<Rightarrow> 's pstate res" where
  "vfs_release_one page = (\<lambda>(p, e).
     (let ent = entry p page
      in if ent = 0 then Inr (p, e) else release_frame (entry_frame ent) (remove_entry page (p, e))))"

definition vfs_page_release :: "'s vfs_pager_ops \<Rightarrow> u32 \<Rightarrow> u32 \<Rightarrow> 's pstate \<Rightarrow> 's pstate res" where
  "vfs_page_release ops offset len s =
     rbind (rassert (PAGE_ALIGNED offset)) (\<lambda>_. rbind (rassert (vp_read ops \<noteq> None)) (\<lambda>_.
       rbind (page_range offset len) (\<lambda>ps. each_page vfs_release_one ps s)))"

definition vfs_pager_resize :: "'s vfs_pager_ops \<Rightarrow> nat \<Rightarrow> u32 \<Rightarrow> 's pager_env \<Rightarrow> bool \<times> 's pager_env" where
  "vfs_pager_resize ops node new_size e =
     (case vp_resize ops of
        None \<Rightarrow> (False, e)
      | Some f \<Rightarrow> (case f node new_size (pe_dev e) of (ok, d) \<Rightarrow> (ok, e\<lparr>pe_dev := d\<rparr>)))"

section \<open>Device memory\<close>

definition device_page_in :: "u32 \<Rightarrow> u32 \<Rightarrow> u32 \<Rightarrow> 's pstate \<Rightarrow> 's pstate res" where
  "device_page_in phys_offset offset len s =
     rbind (rassert (PAGE_ALIGNED offset)) (\<lambda>_. rbind (page_range offset len) (\<lambda>ps.
       each_page (\<lambda>page (p, e). Inr (if entry p page = 0 then snd (add_entry page (phys_offset + page) (p, e)) else (p, e))) ps s))"

definition device_page_release :: "u32 \<Rightarrow> u32 \<Rightarrow> 's pstate \<Rightarrow> 's pstate res" where
  "device_page_release offset len s =
     rbind (rassert (PAGE_ALIGNED offset)) (\<lambda>_. rbind (page_range offset len) (\<lambda>ps.
       each_page (\<lambda>page s. Inr (remove_entry page s)) ps s))"

section \<open>The operations of a pager\<close>

text \<open>The tables of function pointers: a null pointer is an operation that does nothing, except for \<open>page_in\<close>.\<close>

definition op_page_in :: "(nat \<Rightarrow> 's vfs_pager_ops) \<Rightarrow> u32 \<Rightarrow> u32 \<Rightarrow> 's pstate \<Rightarrow> 's pstate res" where
  "op_page_in V offset len s =
     (case pg_kind (fst s) of
        Swap_pager _ \<Rightarrow> swap_page_in offset len s
      | Vfs_pager node ops \<Rightarrow> vfs_page_in (V ops) node offset len s
      | Device_pager phys \<Rightarrow> device_page_in phys offset len s)"

definition op_page_commit :: "(nat \<Rightarrow> 's vfs_pager_ops) \<Rightarrow> u32 \<Rightarrow> u32 \<Rightarrow> 's pstate \<Rightarrow> 's pstate res" where
  "op_page_commit V offset len s =
     (case pg_kind (fst s) of Vfs_pager node ops \<Rightarrow> vfs_page_commit (V ops) node offset len s | _ \<Rightarrow> Inr s)"

definition op_page_release :: "(nat \<Rightarrow> 's vfs_pager_ops) \<Rightarrow> u32 \<Rightarrow> u32 \<Rightarrow> 's pstate \<Rightarrow> 's pstate res" where
  "op_page_release V offset len s =
     (case pg_kind (fst s) of
        Swap_pager _ \<Rightarrow> swap_page_release offset len s
      | Vfs_pager node ops \<Rightarrow> vfs_page_release (V ops) offset len s
      | Device_pager _ \<Rightarrow> device_page_release offset len s)"

text \<open>\<open>p->ops->resize\<close>; the device pager has none.\<close>

definition op_resize :: "(nat \<Rightarrow> 's vfs_pager_ops) \<Rightarrow> u32 \<Rightarrow> 's pstate \<Rightarrow> (bool \<times> 's pager_env) option" where
  "op_resize V new_size s =
     (case pg_kind (fst s) of
        Swap_pager allow \<Rightarrow> Some (swap_pager_resize allow, snd s)
      | Vfs_pager node ops \<Rightarrow> Some (vfs_pager_resize (V ops) node new_size (snd s))
      | Device_pager _ \<Rightarrow> None)"

definition lock_pager :: "pager \<Rightarrow> pager res" where
  "lock_pager p = (if pg_locked p then Inl Self_deadlock else Inr (p\<lparr>pg_locked := True\<rparr>))"

definition unlock_pager :: "'s pstate \<Rightarrow> 's pstate" where
  "unlock_pager = (\<lambda>(p, e). (p\<lparr>pg_locked := False\<rparr>, e))"

text \<open>
  The pages are taken out of the address spaces that map the pager. The address in the loop does not depend on the page.
\<close>

definition unmap_in :: "u32 \<Rightarrow> u32 list \<Rightarrow> user_map \<Rightarrow> (nat \<Rightarrow> u32 \<Rightarrow> bool) \<Rightarrow> (nat \<Rightarrow> u32 \<Rightarrow> bool)" where
  "unmap_in offset ps it present =
     foldl (\<lambda>pr page. (let addr = um_addr it + offset - um_offset it
                       in pr(um_proc it := (pr (um_proc it))(addr := False)))) present ps"

definition pager_unmap :: "u32 \<Rightarrow> u32 \<Rightarrow> 's pstate \<Rightarrow> 's pstate res" where
  "pager_unmap offset len = (\<lambda>(p, e).
     if pg_maps p = [] then Inr (p, e)
     else rbind (page_range offset len) (\<lambda>ps.
            Inr (p, e\<lparr>pe_present := foldl (\<lambda>pr it. unmap_in offset ps it pr) (pe_present e) (pg_maps p)\<rparr>)))"

definition change_device_pager :: "u32 \<Rightarrow> u32 \<Rightarrow> 's pstate \<Rightarrow> 's pstate res" where
  "change_device_pager new_size new_phys_offset = (\<lambda>(p, e).
     case pg_kind p of
       Device_pager _ \<Rightarrow>
         rbind (lock_pager p) (\<lambda>p1.
         rbind (pager_unmap 0 (pg_size p1) (p1, e)) (\<lambda>s1.
         rbind (device_page_release 0 (pg_size p1) s1) (\<lambda>(p2, e2).
           Inr (unlock_pager (p2\<lparr>pg_size := new_size, pg_kind := Device_pager new_phys_offset\<rparr>, e2)))))
     | _ \<Rightarrow> Inr (p, e))"

text \<open>The pager is freed; what is left is the environment.\<close>

definition delete_pager :: "(nat \<Rightarrow> 's vfs_pager_ops) \<Rightarrow> 's pstate \<Rightarrow> 's pager_env res" where
  "delete_pager V = (\<lambda>(p, e).
     rbind (rassert (pg_maps p = [])) (\<lambda>_. rbind (lock_pager p) (\<lambda>p1.
     rbind (op_page_commit V 0 (pg_size p1) (p1, e)) (\<lambda>s1.
     rbind (op_page_release V 0 (pg_size (fst s1)) s1) (\<lambda>(p2, e2).
       Inr (e2\<lparr>pe_heap := heap_free (snd (delete_hashtbl (pe_heap e2) (pg_pages p2)))\<rparr>))))))"

definition pager_resize :: "(nat \<Rightarrow> 's vfs_pager_ops) \<Rightarrow> u32 \<Rightarrow> 's pstate \<Rightarrow> (bool \<times> 's pstate) res" where
  "pager_resize V new_size = (\<lambda>(p, e).
     case op_resize V new_size (p, e) of
       None \<Rightarrow> Inr (False, p, e)
     | Some (ret, e1) \<Rightarrow>
         rbind (lock_pager p) (\<lambda>p1.
           if \<not> ret then Inr (False, unlock_pager (p1, e1))
           else
             rbind (if PAGE_ALIGN_UP new_size < pg_size p1 then
                      (let cut = PAGE_ALIGN_UP new_size; len = pg_size p1 - cut
                       in rbind (pager_unmap cut len (p1, e1)) (op_page_release V cut len))
                    else Inr (p1, e1)) (\<lambda>(p2, e2).
               Inr (True, unlock_pager (p2\<lparr>pg_size := new_size\<rparr>, e2)))))"

definition pager_access :: "u32 \<Rightarrow> u32 \<Rightarrow> bool \<Rightarrow> bool \<Rightarrow> 's pstate \<Rightarrow> 's pstate res" where
  "pager_access offset len accessed dirty = (\<lambda>(p, e).
     rbind (lock_pager p) (\<lambda>p1. rbind (rassert (PAGE_ALIGNED offset)) (\<lambda>_. rbind (page_range offset len) (\<lambda>ps.
     rbind (each_page (\<lambda>page q.
         (let v = entry q page
          in Inr (if v \<noteq> 0 then change_entry page (v OR (if accessed then PAGE_ACCESSED else 0) OR (if dirty then PAGE_DIRTY else 0)) q
                  else q))) ps p1) (\<lambda>p2.
       Inr (unlock_pager (p2, e)))))))"

definition pager_commit_dirty :: "(nat \<Rightarrow> 's vfs_pager_ops) \<Rightarrow> 's pstate \<Rightarrow> 's pstate res" where
  "pager_commit_dirty V = (\<lambda>(p, e).
     case pg_kind p of
       Vfs_pager _ _ \<Rightarrow>
         rbind (lock_pager p) (\<lambda>p1. rbind (op_page_commit V 0 (pg_size p1) (p1, e)) (\<lambda>s. Inr (unlock_pager s)))
     | _ \<Rightarrow> Inr (p, e))"

definition pager_get_frame :: "(nat \<Rightarrow> 's vfs_pager_ops) \<Rightarrow> u32 \<Rightarrow> 's pstate \<Rightarrow> (nat \<times> 's pstate) res" where
  "pager_get_frame V offset = (\<lambda>(p, e).
     rbind (lock_pager p) (\<lambda>p1. rbind (rassert (PAGE_ALIGNED offset)) (\<lambda>_.
     rbind (if entry p1 offset = 0 then op_page_in V offset PAGE_SIZE (p1, e) else Inr (p1, e)) (\<lambda>s.
       Inr (entry_frame (entry (fst s) offset), unlock_pager s)))))"

section \<open>Reading and writing\<close>

text \<open>The window on the frames of the pages, and its contents stored back into them.\<close>

definition window :: "nat list \<Rightarrow> (nat \<Rightarrow> u8 list) \<Rightarrow> u8 list" where
  "window fs phys = concat (map phys fs)"

fun store_window :: "nat list \<Rightarrow> u8 list \<Rightarrow> (nat \<Rightarrow> u8 list) \<Rightarrow> (nat \<Rightarrow> u8 list)" where
  "store_window [] w phys = phys"
| "store_window (f # fs) w phys = store_window fs (drop 4096 w) (phys(f := take 4096 w))"

text \<open>The loop that maps the frames; no list when a page has no frame or cannot be mapped.\<close>

fun map_pages :: "u32 list \<Rightarrow> 's pstate \<Rightarrow> nat list option \<times> 's pager_env" where
  "map_pages [] s = (Some [], snd s)"
| "map_pages (page # ps) s =
     (let f = entry_frame (entry (fst s) page)
      in if f = 0 then (None, snd s)
         else (case map_answer (snd s) of (mapped, e1) \<Rightarrow>
                 if \<not> mapped then (None, e1)
                 else (case map_pages ps (fst s, e1) of
                         (None, e2) \<Rightarrow> (None, e2)
                       | (Some fs, e2) \<Rightarrow> (Some (f # fs), e2))))"

definition touch_one :: "u32 \<Rightarrow> pager \<Rightarrow> pager res" where
  "touch_one page p =
     (let v = entry p page in rbind (rassert (v \<noteq> 0)) (\<lambda>_. Inr (change_entry page (v OR PAGE_ACCESSED) p)))"

text \<open>
  \<open>pager_do_rw\<close>: \<open>data\<close> is the buffer of a write, and none for a read, that gives the bytes read. Two results count the
  bytes.
\<close>

definition pager_do_rw ::
  "(nat \<Rightarrow> 's vfs_pager_ops) \<Rightarrow> u32 \<Rightarrow> u32 \<Rightarrow> u8 list option \<Rightarrow> 's pstate \<Rightarrow> ((u32 \<times> u8 list) \<times> 's pstate) res" where
  "pager_do_rw V offset len0 data = (\<lambda>(p, e).
     rbind (lock_pager p) (\<lambda>p1.
       if pg_size p1 \<le> offset then Inr ((0, []), p1, e)
       else
         (let len = (if offset + len0 > pg_size p1 then pg_size p1 - offset else len0);
              first_page = PAGE_ALIGN_DOWN offset;
              region_len = offset + len - first_page
          in case region_answer e of (ok, e1) \<Rightarrow>
               if \<not> ok then Inr ((0, []), unlock_pager (p1, e1))
               else
                 rbind (op_page_in V first_page region_len (p1, e1)) (\<lambda>(p2, e2).
                 rbind (page_range first_page region_len) (\<lambda>ps.
                   (case map_pages ps (p2, e2) of
                      (None, e3) \<Rightarrow> Inr ((0, []), unlock_pager (p2, e3))
                    | (Some fs, e3) \<Rightarrow>
                        (let k = unat (offset - first_page); n = unat len; w = window fs (pe_phys e3)
                         in if length w < k + n then Inl Bad_access
                            else (case data of
                                    None \<Rightarrow> Inr ((len, take n (drop k w)), unlock_pager (p2, e3))
                                  | Some buf \<Rightarrow>
                                      if length buf < n then Inl Bad_access
                                      else
                                        rbind (each_page touch_one ps p2) (\<lambda>p3.
                                          Inr ((len, []), unlock_pager (p3,
                                            e3\<lparr>pe_phys := store_window fs (take k w @ take n buf @ drop (k + n) w) (pe_phys e3)\<rparr>)))))))))))"

definition pager_read :: "(nat \<Rightarrow> 's vfs_pager_ops) \<Rightarrow> u32 \<Rightarrow> u32 \<Rightarrow> 's pstate \<Rightarrow> ((u32 \<times> u8 list) \<times> 's pstate) res" where
  "pager_read V offset len s = pager_do_rw V offset len None s"

definition pager_write :: "(nat \<Rightarrow> 's vfs_pager_ops) \<Rightarrow> u32 \<Rightarrow> u8 list \<Rightarrow> 's pstate \<Rightarrow> (u32 \<times> 's pstate) res" where
  "pager_write V offset buf s =
     rbind (pager_do_rw V offset (of_nat (length buf)) (Some buf) s) (\<lambda>((n, _), s'). Inr (n, s'))"

definition pager_add_map :: "user_map \<Rightarrow> pager \<Rightarrow> pager res" where
  "pager_add_map reg p = rbind (lock_pager p) (\<lambda>p1. Inr (p1\<lparr>pg_maps := reg # pg_maps p1, pg_locked := False\<rparr>))"

text \<open>The walk of \<open>pager_rm_map\<close> reads the first region of the list, that has to exist.\<close>

definition pager_rm_map :: "user_map \<Rightarrow> pager \<Rightarrow> pager res" where
  "pager_rm_map reg p =
     rbind (lock_pager p) (\<lambda>p1.
       if pg_maps p1 = [] then Inl Bad_access
       else Inr (p1\<lparr>pg_maps := remove1 reg (pg_maps p1), pg_locked := False\<rparr>))"

text \<open>For file systems that cache their files in a pager.\<close>

definition fs_read_from_pager ::
  "(nat \<Rightarrow> 's vfs_pager_ops) \<Rightarrow> u32 \<Rightarrow> u32 \<Rightarrow> 's pstate option \<Rightarrow> ((u32 \<times> u8 list) \<times> 's pstate) res" where
  "fs_read_from_pager V offset len pager =
     (case pager of None \<Rightarrow> Inl Assert_failed | Some s \<Rightarrow> pager_read V offset len s)"

definition fs_write_to_pager ::
  "(nat \<Rightarrow> 's vfs_pager_ops) \<Rightarrow> u32 \<Rightarrow> u8 list \<Rightarrow> 's pstate option \<Rightarrow> (u32 \<times> 's pstate) res" where
  "fs_write_to_pager V offset buf pager =
     (case pager of
        None \<Rightarrow> Inl Assert_failed
      | Some s \<Rightarrow>
          rbind (if offset + of_nat (length buf) > pg_size (fst s)
                 then rbind (pager_resize V (offset + of_nat (length buf)) s) (\<lambda>(_, s1). Inr s1) else Inr s)
            (pager_write V offset buf))"

end
