(* ===== verification/Pager_Props.thy ===== *)
theory Pager_Props
  imports Pager
begin

text \<open>
  A pager of anonymous memory is an array of bytes, zero at first: reading gives the bytes written last, through the
  frames that appear at the first access and through every failure of an allocation, which makes an access give up with
  nothing done. The frames of a pager are all different, so that a write changes the bytes of its own range only.
\<close>

section \<open>The contents of a pager\<close>

definition frame_of :: "pager \<Rightarrow> u32 \<Rightarrow> nat" where
  "frame_of p page = entry_frame (entry p page)"

definition page_at :: "nat \<Rightarrow> u32" where
  "page_at a = of_nat (a div 4096 * 4096)"

definition byte_at :: "'s pstate \<Rightarrow> nat \<Rightarrow> u8" where
  "byte_at = (\<lambda>(p, e) a. if entry p (page_at a) = 0 then 0 else pe_phys e (frame_of p (page_at a)) ! (a mod 4096))"

definition frames_sound :: "pager \<Rightarrow> 's pager_env \<Rightarrow> bool" where
  "frames_sound p e \<longleftrightarrow> (\<forall>q. entry p q \<noteq> 0 \<longrightarrow>
     frame_of p q \<noteq> 0 \<and> frame_of p q \<in> used_set (pe_frames e) \<and> length (pe_phys e (frame_of p q)) = 4096)"

definition frames_apart :: "pager \<Rightarrow> bool" where
  "frames_apart p \<longleftrightarrow> (\<forall>q r. entry p q \<noteq> 0 \<and> entry p r \<noteq> 0 \<and> frame_of p q = frame_of p r \<longrightarrow> q = r)"

definition frames_ok :: "'s pstate \<Rightarrow> bool" where
  "frames_ok = (\<lambda>(p, e). ht_ok id_key_eq_fun id_hash_fun (pg_pages p) \<and> frame_ok (pe_frames e) \<and> nframes (pe_frames e) \<le> 2 ^ 20
     \<and> frames_sound p e \<and> frames_apart p)"

lemma frames_soundD:
  "frames_sound p e \<Longrightarrow> entry p q \<noteq> 0 \<Longrightarrow>
     frame_of p q \<noteq> 0 \<and> frame_of p q \<in> used_set (pe_frames e) \<and> length (pe_phys e (frame_of p q)) = 4096"
  unfolding frames_sound_def by blast

lemma frames_cong:
  "entry p' = entry p \<Longrightarrow> frames_apart p' = frames_apart p"
  "entry p' = entry p \<Longrightarrow> pe_frames e' = pe_frames e \<Longrightarrow> pe_phys e' = pe_phys e \<Longrightarrow> frames_sound p' e' = frames_sound p e"
  by (simp_all only: frames_apart_def frames_sound_def frame_of_def)

lemma frames_apartD: "frames_apart p \<Longrightarrow> entry p q \<noteq> 0 \<Longrightarrow> entry p r \<noteq> 0 \<Longrightarrow> frame_of p q = frame_of p r \<Longrightarrow> q = r"
  unfolding frames_apart_def by blast

lemma frames_okD:
  assumes "frames_ok (p, e)"
  shows "ht_ok id_key_eq_fun id_hash_fun (pg_pages p)" "frame_ok (pe_frames e)" "nframes (pe_frames e) \<le> 2 ^ 20"
    "frames_sound p e" "frames_apart p"
  using assms by (simp_all add: frames_ok_def)

text \<open>What an operation of the pager keeps, whatever happens to its entries.\<close>

definition same_pager :: "pager \<Rightarrow> pager \<Rightarrow> bool" where
  "same_pager p p' \<longleftrightarrow> pg_kind p' = pg_kind p \<and> pg_size p' = pg_size p \<and> pg_locked p' = pg_locked p"

lemma same_pager_refl [simp]: "same_pager p p"
  by (simp add: same_pager_def)

lemma same_pager_trans: "same_pager p q \<Longrightarrow> same_pager q r \<Longrightarrow> same_pager p r"
  by (simp add: same_pager_def)

section \<open>One page\<close>

lemma entry_frame_shift: "f < 2 ^ 20 \<Longrightarrow> entry_frame (push_bit ENT_FRAME_SHIFT (of_nat f)) = f"
proof -
  assume f: "f < 2 ^ 20"
  have "push_bit 12 (of_nat f :: u32) = of_nat (f * 4096)" by (simp add: push_bit_eq_mult)
  then have "unat (push_bit 12 (of_nat f) :: u32) = f * 4096" using f by (simp only: unat_of_nat) simp
  moreover have "unat (drop_bit 12 w) = unat w div 4096" for w :: u32 by (simp add: drop_bit_eq_div unat_div)
  ultimately show ?thesis unfolding entry_frame_def ENT_FRAME_SHIFT_def by simp
qed

text \<open>The entry that gets its frame becomes a page of zeros, which is what the missing page was.\<close>

definition same_bytes :: "'s pstate \<Rightarrow> 's pstate \<Rightarrow> bool" where
  "same_bytes s s' \<longleftrightarrow> (\<forall>a. byte_at s' a = byte_at s a)"

definition same_env :: "'s pager_env \<Rightarrow> 's pager_env \<Rightarrow> bool" where
  "same_env e e' \<longleftrightarrow> pe_dev e' = pe_dev e \<and> pe_present e' = pe_present e"

text \<open>A step that keeps the invariant, the contents and the entries there are.\<close>

definition quiet_step :: "'s pstate \<Rightarrow> 's pstate \<Rightarrow> bool" where
  "quiet_step s s' \<longleftrightarrow> frames_ok s' \<and> same_bytes s s' \<and> same_pager (fst s) (fst s')
     \<and> (\<forall>q. entry (fst s) q \<noteq> 0 \<longrightarrow> entry (fst s') q = entry (fst s) q)
     \<and> (pe_regions (snd s) = [] \<longrightarrow> pe_regions (snd s') = []) \<and> (pe_tables (snd s) = [] \<longrightarrow> pe_tables (snd s') = [])"

lemma quiet_step_refl: "frames_ok s \<Longrightarrow> quiet_step s s"
  by (simp add: quiet_step_def same_bytes_def)

lemma quiet_step_trans: "quiet_step s t \<Longrightarrow> quiet_step t u \<Longrightarrow> quiet_step s u"
  by (auto simp: quiet_step_def same_bytes_def intro: same_pager_trans)

text \<open>The parts of the environment that matter; only used frames do.\<close>

lemma quiet_env:
  assumes ok: "frames_ok (p, e)" and fr: "frame_ok (pe_frames e')" "nframes (pe_frames e') \<le> 2 ^ 20"
    "used_set (pe_frames e) \<subseteq> used_set (pe_frames e')"
    and ph: "\<And>f. f \<in> used_set (pe_frames e) \<Longrightarrow> pe_phys e' f = pe_phys e f"
    and an: "pe_regions e = [] \<longrightarrow> pe_regions e' = []" "pe_tables e = [] \<longrightarrow> pe_tables e' = []"
  shows "quiet_step (p, e) (p, e')"
proof -
  have u: "frame_of p q \<in> used_set (pe_frames e)" if "entry p q \<noteq> 0" for q
    using frames_soundD [OF frames_okD(4) [OF ok] that] by simp
  have "frames_sound p e'"
    unfolding frames_sound_def using frames_soundD [OF frames_okD(4) [OF ok]] fr(3) ph [OF u] by auto
  then have "frames_ok (p, e')" using frames_okD [OF ok] fr by (simp add: frames_ok_def)
  moreover have "same_bytes (p, e) (p, e')" using u ph by (simp add: same_bytes_def byte_at_def)
  ultimately show ?thesis using an by (simp add: quiet_step_def)
qed

lemma get_frame_ok:
  assumes ok: "frames_ok (p, e)"
  obtains f e' where "get_frame e = Inr (f, e')" and "quiet_step (p, e) (p, e')"
    and "pe_phys e' = pe_phys e" "pe_regions e' = pe_regions e" "pe_tables e' = pe_tables e" "pe_heap e' = pe_heap e"
    and "f = 0 \<or> 0 < f \<and> f < 2 ^ 20 \<and> f \<notin> used_set (pe_frames e) \<and> f \<in> used_set (pe_frames e')"
proof -
  obtain f fr where a: "frame_alloc 1 (pe_frames e) = Inr (f, fr)" "frame_ok fr" "nframes fr = nframes (pe_frames e)"
    "f = 0 \<and> used_set fr = used_set (pe_frames e)
     \<or> f \<noteq> 0 \<and> run_at (pe_frames e) 1 f \<and> used_set fr = used_set (pe_frames e) \<union> {f ..< f + 1} \<and> used_set (pe_frames e) \<inter> {f ..< f + 1} = {}"
    using frame_alloc_law [OF frames_okD(2) [OF ok], of 1] by auto
  have "f < 2 ^ 20" if "run_at (pe_frames e) 1 f"
  proof -
    have "f div 32 < nframes (pe_frames e) div 32" using that by (simp add: run_at_def)
    then have "f < nframes (pe_frames e)" by (meson div_le_mono not_le)
    then show ?thesis using frames_okD(3) [OF ok] by simp
  qed
  then have "f = 0 \<or> 0 < f \<and> f < 2 ^ 20 \<and> f \<notin> used_set (pe_frames e) \<and> f \<in> used_set fr" using a(4) by auto
  moreover have "quiet_step (p, e) (p, e\<lparr>pe_frames := fr\<rparr>)"
    using a frames_okD(3) [OF ok] by (intro quiet_env [OF ok]) auto
  moreover have "get_frame e = Inr (f, e\<lparr>pe_frames := fr\<rparr>)" using a(1) by (simp add: get_frame_def)
  ultimately show ?thesis using that [of f "e\<lparr>pe_frames := fr\<rparr>"] by simp
qed

lemma map_answer_ok:
  assumes "frames_ok (p, e)" and "map_answer e = (b, e')"
  shows "quiet_step (p, e) (p, e')" "pe_phys e' = pe_phys e" "pe_frames e' = pe_frames e" "pe_heap e' = pe_heap e"
    "pe_tables e = [] \<Longrightarrow> b"
  using assms by (auto simp: map_answer_def intro!: quiet_env dest: frames_okD)

lemma region_answer_ok:
  assumes "frames_ok (p, e)" and "region_answer e = (b, e')"
  shows "quiet_step (p, e) (p, e')" "pe_regions e = [] \<Longrightarrow> b" "pe_tables e' = pe_tables e"
  using assms by (auto simp: region_answer_def intro!: quiet_env dest: frames_okD)

lemma release_quiet:
  assumes ok: "frames_ok (p, e)" and f: "f \<in> used_set (pe_frames e)" "f \<noteq> 0" and new: "\<And>q. entry p q \<noteq> 0 \<Longrightarrow> frame_of p q \<noteq> f"
  shows "\<exists>e'. release_frame f (p, e) = Inr (p, e') \<and> quiet_step (p, e) (p, e')"
proof -
  obtain fr where fr: "frame_free (of_nat f) 1 (pe_frames e) = Inr fr" "frame_ok fr" "used_set fr = used_set (pe_frames e) - {f}"
    using frame_free_law [OF frames_okD(2) [OF ok] f] by blast
  have "frames_ok (p, e\<lparr>pe_frames := fr\<rparr>)"
  proof -
    have "frames_sound p (e\<lparr>pe_frames := fr\<rparr>)"
      unfolding frames_sound_def using frames_soundD [OF frames_okD(4) [OF ok]] new fr(3) by simp
    then show ?thesis using frames_okD [OF ok] fr(2) frame_free_nframes [OF fr(1)] by (simp add: frames_ok_def)
  qed
  then have "quiet_step (p, e) (p, e\<lparr>pe_frames := fr\<rparr>)" by (simp add: quiet_step_def same_bytes_def byte_at_def)
  then show ?thesis using fr(1) by (simp add: release_frame_def)
qed

lemma entry_add:
  assumes "ht_ok id_key_eq_fun id_hash_fun (pg_pages p)" and "add_entry page v (p, e) = (b, p', e')"
  shows "ht_ok id_key_eq_fun id_hash_fun (pg_pages p')" "entry p' q = (if b \<and> q = page then v else entry p q)"
    "same_pager p p'" "\<exists>h. e' = e\<lparr>pe_heap := h\<rparr>"
  using assms ht_put_spec [OF assms(1)] 
  by (auto simp: add_entry_def entry_def same_pager_def id_key_eq_fun_def split: prod.splits)

lemma swap_page_in_one_ok:
  assumes ok: "frames_ok s"
  shows "\<exists>s'. swap_page_in_one page s = Inr s' \<and> quiet_step s s' \<and> (entry (fst s) page \<noteq> 0 \<longrightarrow> s' = s)"
proof -
  obtain p e where s: "s = (p, e)" by (cases s)
  show ?thesis
  proof (cases "entry p page = 0")
    case False
    then show ?thesis using quiet_step_refl [OF ok] by (simp add: s swap_page_in_one_def)
  next
    case True
    obtain f e1 where g: "get_frame e = Inr (f, e1)" "quiet_step (p, e) (p, e1)" "pe_phys e1 = pe_phys e"
      and f: "f = 0 \<or> 0 < f \<and> f < 2 ^ 20 \<and> f \<notin> used_set (pe_frames e) \<and> f \<in> used_set (pe_frames e1)"
      using get_frame_ok [of p e] ok s by metis
    show ?thesis
    proof (cases "f = 0")
      case True
      then show ?thesis using g \<open>entry p page = 0\<close> by (simp add: s swap_page_in_one_def)
    next
      case False
      have ok1: "frames_ok (p, e1)" using g(2) by (simp add: quiet_step_def)
      obtain m e2 where m: "map_answer e1 = (m, e2)" by (cases "map_answer e1")
      note m1 = map_answer_ok [OF ok1 m]
      have q2: "quiet_step (p, e) (p, e2)" by (rule quiet_step_trans [OF g(2) m1(1)])
      show ?thesis
      proof (cases m)
        case False
        then show ?thesis using g m q2 \<open>entry p page = 0\<close> \<open>f \<noteq> 0\<close> by (simp add: s swap_page_in_one_def)
      next
        case True
        define e3 where "e3 = e2\<lparr>pe_phys := (pe_phys e2)(f := zero_page)\<rparr>"
        have fr: "frame_of p q \<noteq> f" if "entry p q \<noteq> 0" for q
          using frames_soundD [OF frames_okD(4) [OF ok [unfolded s]] that] f \<open>f \<noteq> 0\<close> by auto
        have used: "f \<in> used_set (pe_frames e3)" using f \<open>f \<noteq> 0\<close> m1(3) by (simp add: e3_def)
        have ok2: "frames_ok (p, e2)" using q2 by (simp add: quiet_step_def)
        have "frames_sound p e3"
          unfolding frames_sound_def using frames_soundD [OF frames_okD(4) [OF ok2]] fr by (simp add: e3_def)
        then have ok3: "frames_ok (p, e3)" using frames_okD [OF ok2] by (simp add: frames_ok_def e3_def)
        have sb3: "same_bytes (p, e2) (p, e3)" using fr by (simp add: same_bytes_def byte_at_def e3_def)
        have "quiet_step (p, e2) (p, e3)" using ok3 sb3 by (simp add: quiet_step_def e3_def)
        then have q3: "quiet_step (p, e) (p, e3)" by (rule quiet_step_trans [OF q2])
        let ?v = "push_bit ENT_FRAME_SHIFT (of_nat f) :: u32"
        have fv: "entry_frame ?v = f" using f \<open>f \<noteq> 0\<close> by (intro entry_frame_shift) auto
        then have v0: "?v \<noteq> 0" using \<open>f \<noteq> 0\<close> by (auto simp: entry_frame_def)
        obtain b p' e4 where a: "add_entry page ?v (p, e3) = (b, p', e4)" by (metis prod_cases3)
        note a1 = entry_add [OF frames_okD(1) [OF ok3] a]
        obtain h where h: "e4 = e3\<lparr>pe_heap := h\<rparr>" using a1(4) by blast
        have run: "swap_page_in_one page s = (if b then Inr (p', e4) else release_frame f (p', e4))"
          using g(1) \<open>f \<noteq> 0\<close> m True \<open>entry p page = 0\<close> a by (simp add: s swap_page_in_one_def e3_def)
        show ?thesis
        proof (cases b)
          case False
          then have same: "entry p' = entry p" using a1(2) by (intro ext) simp
          then have sf: "frame_of p' = frame_of p" by (simp add: frame_of_def fun_eq_iff)
          have ok4: "frames_ok (p', e4)"
            using frames_okD [OF ok3] a1(1) frames_cong(1) [OF same] frames_cong(2) [OF same, of e4 e3]
            by (simp add: frames_ok_def h)
          have "quiet_step (p, e3) (p', e4)"
            using ok4 a1(3) same sf by (simp add: quiet_step_def same_bytes_def byte_at_def h)
          moreover obtain e5 where "release_frame f (p', e4) = Inr (p', e5)" "quiet_step (p', e4) (p', e5)"
            using release_quiet [OF ok4, of f] used fr same sf \<open>f \<noteq> 0\<close> h by auto
          ultimately show ?thesis using run False q3 \<open>entry p page = 0\<close> s by (auto intro: quiet_step_trans)
        next
          case b: True
          have en: "entry p' q = (if q = page then ?v else entry p q)" for q using a1(2) b by simp
          have fn: "frame_of p' q = (if q = page then f else frame_of p q)" for q using en fv by (simp add: frame_of_def)
          have z: "length zero_page = 4096" by (simp add: zero_page_def)
          have inj: "q = r" if "entry p' q \<noteq> 0" "entry p' r \<noteq> 0" "frame_of p' q = frame_of p' r" for q r
            using that frames_apartD [OF frames_okD(5) [OF ok3], of q r] fr [of q] fr [of r]
            by (simp add: en fn split: if_split_asm)
          have each: "frame_of p' q \<noteq> 0 \<and> frame_of p' q \<in> used_set (pe_frames e4) \<and> length (pe_phys e4 (frame_of p' q)) = 4096"
            if "entry p' q \<noteq> 0" for q
          proof (cases "q = page")
            case True
            then show ?thesis using \<open>f \<noteq> 0\<close> used z by (simp add: fn h e3_def)
          next
            case False
            then have "entry p q \<noteq> 0" using that by (simp add: en)
            then show ?thesis using frames_soundD [OF frames_okD(4) [OF ok3], of q] False by (simp add: fn h)
          qed
          have "frames_ok (p', e4)"
            using a1(1) frames_okD(2,3) [OF ok3] inj each unfolding frames_ok_def frames_sound_def frames_apart_def prod.case
            by (simp add: h)
          moreover have "same_bytes (p, e3) (p', e4)"
            unfolding same_bytes_def
          proof
            fix a
            show "byte_at (p', e4) a = byte_at (p, e3) a"
              using \<open>entry p page = 0\<close> v0 by (simp add: byte_at_def en fn h) (simp add: e3_def zero_page_def)
          qed
          ultimately have "quiet_step (p, e3) (p', e4)"
            using a1(3) \<open>entry p page = 0\<close> by (auto simp: quiet_step_def en h)
          then show ?thesis using run b quiet_step_trans [OF q3] \<open>entry p page = 0\<close> s by auto
        qed
      qed
    qed
  qed
qed

section \<open>Ranges of pages\<close>

lemma each_page_quiet:
  assumes ok: "frames_ok s" and step: "\<And>q s. frames_ok s \<Longrightarrow> \<exists>s'. f q s = Inr s' \<and> quiet_step s s' \<and> (entry (fst s) q \<noteq> 0 \<longrightarrow> s' = s)"
  shows "\<exists>s'. each_page f ps s = Inr s' \<and> quiet_step s s' \<and> ((\<forall>q \<in> set ps. entry (fst s) q \<noteq> 0) \<longrightarrow> s' = s)"
  using ok
proof (induction ps arbitrary: s)
  case Nil
  then show ?case using quiet_step_refl [OF Nil] by (intro exI [of _ s]) simp
next
  case (Cons q ps)
  obtain s1 where s1: "f q s = Inr s1" "quiet_step s s1" "entry (fst s) q \<noteq> 0 \<longrightarrow> s1 = s" using step [OF Cons.prems] by blast
  have "frames_ok s1" using s1(2) by (simp add: quiet_step_def)
  from Cons.IH [OF this] obtain s' where s': "each_page f ps s1 = Inr s'" "quiet_step s1 s'"
      "(\<forall>q \<in> set ps. entry (fst s1) q \<noteq> 0) \<longrightarrow> s' = s1" by blast
  show ?case using s1 s' quiet_step_trans [OF s1(2) s'(2)] by auto
qed

definition pages :: "nat \<Rightarrow> nat \<Rightarrow> u32 list" where
  "pages first m = map (\<lambda>i. of_nat (first + 4096 * i)) [0..<m]"

text \<open>The loops over pages end when the last page is not the one at the top of the address space.\<close>

lemma pages_from_eq:
  assumes "first + 4096 * m < lim + 4096" and "lim \<le> first + 4096 * m" and "lim \<le> 2 ^ 32 - 4096" and "m \<le> n"
  shows "pages_from n (of_nat first) (of_nat lim) = Inr (pages first m)"
  using assms
proof (induction m arbitrary: n first)
  case 0
  have "(of_nat lim :: u32) \<le> of_nat first"
    using 0 by (simp add: word_le_nat_alt unat_of_nat)
  then show ?case by (simp add: pages_from.simps [of n] pages_def)
next
  case (Suc m)
  have l: "first < lim" using Suc.prems(1) by simp
  then have "\<not> (of_nat lim :: u32) \<le> of_nat first" using Suc.prems(3) by (simp add: word_le_nat_alt unat_of_nat)
  moreover obtain k where n: "n = Suc k" using Suc.prems(4) by (cases n) simp_all
  moreover have "of_nat first + PAGE_SIZE = (of_nat (first + 4096) :: u32)" by (simp add: PAGE_SIZE_def)
  moreover have "pages_from k (of_nat (first + 4096)) (of_nat lim) = Inr (pages (first + 4096) m)"
    by (rule Suc.IH) (use Suc.prems n in auto)
  moreover have "pages first (Suc m) = of_nat first # pages (first + 4096) m"
    by (simp add: pages_def upt_conv_Cons map_Suc_upt [symmetric] del: upt_Suc map_Suc_upt)
  ultimately show ?case by (simp add: pages_from.simps [of "Suc k"])
qed

lemma swap_page_in_ok:
  assumes ok: "frames_ok (p, e)" and al: "PAGE_ALIGNED offset" and r: "page_range offset len = Inr ps"
  shows "\<exists>p' e'. swap_page_in offset len (p, e) = Inr (p', e') \<and> quiet_step (p, e) (p', e')"
proof -
  obtain b e1 where a: "region_answer e = (b, e1)" by (cases "region_answer e")
  have q: "quiet_step (p, e) (p, e1)" by (rule region_answer_ok [OF ok a])
  then have ok1: "frames_ok (p, e1)" by (simp add: quiet_step_def)
  obtain s' where "each_page swap_page_in_one ps (p, e1) = Inr s'" "quiet_step (p, e1) s'"
    using each_page_quiet [OF ok1 swap_page_in_one_ok] by blast
  then show ?thesis using quiet_step_trans [OF q] q a al r by (cases s') (auto simp: swap_page_in_def)
qed

lemma map_pages_ok:
  assumes "frames_ok (p, e)" and "map_pages ps (p, e) = (r, e')"
  shows "quiet_step (p, e) (p, e') \<and> pe_phys e' = pe_phys e \<and> pe_frames e' = pe_frames e
    \<and> (\<forall>fs. r = Some fs \<longrightarrow> fs = map (frame_of p) ps \<and> (\<forall>q \<in> set ps. entry p q \<noteq> 0))
    \<and> ((\<forall>q \<in> set ps. entry p q \<noteq> 0) \<and> pe_tables e = [] \<longrightarrow> r \<noteq> None)"
  using assms
proof (induction ps arbitrary: e r e')
  case Nil
  then show ?case using quiet_step_refl [OF Nil(1)] by auto
next
  case (Cons q ps)
  have z: "entry p q \<noteq> 0" if "frame_of p q \<noteq> 0" using that by (auto simp: frame_of_def entry_frame_def)
  have nz: "frame_of p q \<noteq> 0" if "entry p q \<noteq> 0" using frames_soundD [OF frames_okD(4) [OF Cons.prems(1)] that] by simp
  show ?case
  proof (cases "frame_of p q = 0")
    case True
    then show ?thesis using Cons.prems(2) quiet_step_refl [OF Cons.prems(1)] nz by (auto simp: frame_of_def)
  next
    case False
    obtain b e1 where m: "map_answer e = (b, e1)" by (cases "map_answer e")
    note m1 = map_answer_ok [OF Cons.prems(1) m]
    have ok1: "frames_ok (p, e1)" using m1(1) by (simp add: quiet_step_def)
    obtain r2 e2 where m2: "map_pages ps (p, e1) = (r2, e2)" by (cases "map_pages ps (p, e1)")
    note ih = Cons.IH [OF ok1 m2]
    have t: "pe_tables e1 = []" if "pe_tables e = []" using m that by (auto simp: map_answer_def)
    have q2: "quiet_step (p, e) (p, e2)" using quiet_step_trans [OF m1(1)] ih by blast
    show ?thesis
    proof (cases b)
      case False
      then have "r = None" "e' = e1" using Cons.prems(2) \<open>frame_of p q \<noteq> 0\<close> m by (auto simp: frame_of_def Let_def)
      then show ?thesis using m1 False by auto
    next
      case True
      then have r: "r = map_option ((#) (frame_of p q)) r2" "e' = e2"
        using Cons.prems(2) \<open>frame_of p q \<noteq> 0\<close> m m2 by (auto simp: frame_of_def Let_def split: option.splits)
      show ?thesis using r q2 ih m1(2,3) z [OF False] t by (cases r2) auto
    qed
  qed
qed

lemma concat_nth:
  assumes "\<forall>xs \<in> set xss. length xs = n" and "0 < n" and "i < n * length xss"
  shows "concat xss ! i = xss ! (i div n) ! (i mod n)"
  using assms
proof (induction xss arbitrary: i)
  case (Cons xs xss)
  show ?case
  proof (cases "i < n")
    case True
    then show ?thesis using Cons.prems by (simp add: nth_append)
  next
    case False
    then have "i div n = Suc ((i - n) div n)" "i mod n = (i - n) mod n"
      using Cons.prems(2) by (simp_all add: le_div_geq le_mod_geq)
    then show ?thesis using Cons.IH [of "i - n"] Cons.prems False by (simp add: nth_append)
  qed
qed simp

lemma window_length: "\<forall>f \<in> set fs. length (phys f) = 4096 \<Longrightarrow> length (window fs phys) = 4096 * length fs"
  by (induction fs) (auto simp: window_def)

lemma window_byte:
  assumes "\<forall>q \<in> set (pages first m). entry p q \<noteq> 0" and "frames_ok (p, e)" and "4096 dvd first" and "i < 4096 * m"
  shows "window (map (frame_of p) (pages first m)) (pe_phys e) ! i = byte_at (p, e) (first + i)"
proof -
  have "length (pe_phys e (frame_of p q)) = 4096" if "q \<in> set (pages first m)" for q
    using frames_soundD [OF frames_okD(4) [OF assms(2)]] assms(1) that by blast
  then have "window (map (frame_of p) (pages first m)) (pe_phys e) ! i
      = map (pe_phys e \<circ> frame_of p) (pages first m) ! (i div 4096) ! (i mod 4096)"
    unfolding window_def by (subst concat_nth [where n = 4096]) (use assms(4) in \<open>auto simp: pages_def\<close>)
  moreover have k: "i div 4096 < m" using assms(4) by (simp add: div_less_iff_less_mult mult.commute)
  moreover have pg: "page_at (first + i) = of_nat (first + 4096 * (i div 4096))" "(first + i) mod 4096 = i mod 4096"
    using assms(3) by (auto simp: page_at_def elim!: dvdE)
  moreover have "pages first m ! (i div 4096) = page_at (first + i)" using k pg by (simp add: pages_def)
  moreover have "page_at (first + i) \<in> set (pages first m)" using k pg by (auto simp: pages_def)
  ultimately show ?thesis using assms(1) by (simp add: byte_at_def) (simp add: pages_def)
qed

lemma store_window_other: "f \<notin> set fs \<Longrightarrow> store_window fs w phys f = phys f"
  by (induction fs w phys rule: store_window.induct) auto

lemma store_window_at:
  "distinct fs \<Longrightarrow> k < length fs \<Longrightarrow> store_window fs w phys (fs ! k) = take 4096 (drop (4096 * k) w)"
proof (induction fs arbitrary: w phys k)
  case (Cons g fs)
  show ?case
  proof (cases k)
    case 0
    then show ?thesis using store_window_other [of g fs] Cons.prems by simp
  next
    case (Suc j)
    then show ?thesis using Cons.IH [of j "drop 4096 w"] Cons.prems by (simp add: add.commute)
  qed
qed simp

section \<open>Reading and writing\<close>

text \<open>Marking the entries of the pages accessed changes no frame.\<close>

lemma accessed_frame: "entry_frame (v OR PAGE_ACCESSED) = entry_frame v" "v \<noteq> 0 \<Longrightarrow> v OR PAGE_ACCESSED \<noteq> 0"
proof -
  have "drop_bit 12 (v OR PAGE_ACCESSED) = drop_bit 12 v"
    by (rule bit_word_eqI) (auto simp: bit_simps PAGE_ACCESSED_def bit_numeral_iff dest: bit_imp_le_length)
  then show "entry_frame (v OR PAGE_ACCESSED) = entry_frame v" by (simp add: entry_frame_def ENT_FRAME_SHIFT_def)
  have "bit (v OR PAGE_ACCESSED) 1" by (simp add: bit_or_iff PAGE_ACCESSED_def)
  then show "v \<noteq> 0 \<Longrightarrow> v OR PAGE_ACCESSED \<noteq> 0" by auto
qed

lemma touch_pages:
  assumes "ht_ok id_key_eq_fun id_hash_fun (pg_pages p)" and "\<forall>q \<in> set ps. entry p q \<noteq> 0"
  shows "\<exists>p'. each_page touch_one ps p = Inr p' \<and> ht_ok id_key_eq_fun id_hash_fun (pg_pages p') \<and> same_pager p p'
    \<and> frame_of p' = frame_of p \<and> (\<forall>q. entry p' q = 0 \<longleftrightarrow> entry p q = 0)"
  using assms
proof (induction ps arbitrary: p)
  case (Cons q ps)
  define p1 where "p1 = change_entry q (entry p q OR PAGE_ACCESSED) p"
  obtain b ht where ch: "hashtbl_change (pg_pages p) q (entry p q OR PAGE_ACCESSED) = (b, ht)" by fastforce
  have inv: "ht_inv (pg_pages p)" "ht_ef (pg_pages p) = id_key_eq_fun" "ht_hf (pg_pages p) = id_hash_fun"
    using Cons.prems(1) by (simp_all add: ht_ok_def)
  note c = hashtbl_change_spec [OF inv(1) ch]
  have found: "hashtbl_find (pg_pages p) q \<noteq> None" using Cons.prems(2) by (auto simp: entry_def split: option.splits)
  have ok1: "ht_ok id_key_eq_fun id_hash_fun (pg_pages p1)"
    using c(1,2) inv ch by (simp add: p1_def change_entry_def ht_ok_def ht_same_funs_def)
  have e1: "entry p1 r = (if r = q then entry p q OR PAGE_ACCESSED else entry p r)" for r
    using c(3,4) found inv ch by (auto simp: p1_def change_entry_def entry_def id_key_eq_fun_def)
  have f1: "frame_of p1 = frame_of p" using accessed_frame(1) by (auto simp: frame_of_def e1)
  have z1: "entry p1 r = 0 \<longleftrightarrow> entry p r = 0" for r using accessed_frame(2) Cons.prems(2) by (auto simp: e1)
  have "\<forall>r \<in> set ps. entry p1 r \<noteq> 0" using Cons.prems(2) z1 by simp
  from Cons.IH [OF ok1 this] obtain p' where p': "each_page touch_one ps p1 = Inr p'"
    "ht_ok id_key_eq_fun id_hash_fun (pg_pages p')" "same_pager p1 p'" "frame_of p' = frame_of p1"
    "\<forall>q. entry p' q = 0 \<longleftrightarrow> entry p1 q = 0" by blast
  have "same_pager p p1" by (simp add: p1_def change_entry_def same_pager_def)
  then have "same_pager p p'" using p'(3) by (rule same_pager_trans)
  moreover have "touch_one q p = Inr p1" using Cons.prems(2) by (simp add: touch_one_def p1_def Let_def)
  then have "each_page touch_one (q # ps) p = Inr p'" using p'(1) by simp
  moreover have "\<forall>q. entry p' q = 0 \<longleftrightarrow> entry p q = 0" using p'(5) z1 by simp
  ultimately show ?case using p'(2,4) f1 by metis
qed auto

lemma frames_transfer:
  assumes ok: "frames_ok (p, e)" and ht: "ht_ok id_key_eq_fun id_hash_fun (pg_pages p')"
    and f: "frame_of p' = frame_of p" and z: "\<And>q. entry p' q = 0 \<longleftrightarrow> entry p q = 0"
    and fr: "pe_frames e' = pe_frames e" and l: "\<And>f. length (pe_phys e f) = 4096 \<Longrightarrow> length (pe_phys e' f) = 4096"
  shows "frames_ok (p', e')"
proof -
  have "frames_sound p' e'"
    unfolding frames_sound_def f z fr using frames_soundD [OF frames_okD(4) [OF ok]] l by blast
  moreover have "frames_apart p'"
    unfolding frames_apart_def f z using frames_apartD [OF frames_okD(5) [OF ok]] by blast
  ultimately show ?thesis using ht fr frames_okD(2,3) [OF ok] by (simp add: frames_ok_def)
qed

text \<open>A pager of anonymous memory that is in order: sizes near the top of the address space are excluded, where the loops
  over the pages do not end.\<close>

definition swap_ok :: "'s pstate \<Rightarrow> bool" where
  "swap_ok s \<longleftrightarrow> frames_ok s \<and> (\<exists>b. pg_kind (fst s) = Swap_pager b) \<and> \<not> pg_locked (fst s) \<and> unat (pg_size (fst s)) \<le> 2 ^ 32 - 4096"

text \<open>The length that is left of a request.\<close>

definition clamp :: "pager \<Rightarrow> u32 \<Rightarrow> u32 \<Rightarrow> u32" where
  "clamp p offset len = (if offset + len > pg_size p then pg_size p - offset else len)"

definition in_range :: "pager \<Rightarrow> u32 \<Rightarrow> u32 \<Rightarrow> bool" where
  "in_range p offset len \<longleftrightarrow> offset < pg_size p \<and> unat offset + unat len < 2 ^ 32"

text \<open>The pages that an access to \<open>l\<close> bytes at \<open>b\<close> goes through.\<close>

definition span :: "nat \<Rightarrow> nat \<Rightarrow> u32 list" where
  "span b l = pages (b - b mod 4096) ((b mod 4096 + l + 4095) div 4096)"

lemma clamp_range:
  assumes "in_range p offset len"
  shows "unat (clamp p offset len) = min (unat len) (unat (pg_size p) - unat offset)"
    and "unat offset + unat (clamp p offset len) \<le> unat (pg_size p)"
proof -
  have o: "unat offset < unat (pg_size p)" "unat (offset + len) = unat offset + unat len"
    using assms by (simp_all add: in_range_def word_less_nat_alt unat_add_u32)
  have d: "unat (pg_size p - offset) = unat (pg_size p) - unat offset"
    using o(1) by (intro unat_sub) (simp add: word_le_nat_alt)
  show "unat (clamp p offset len) = min (unat len) (unat (pg_size p) - unat offset)"
    unfolding clamp_def word_less_nat_alt o(2) using d by auto
  with o show "unat offset + unat (clamp p offset len) \<le> unat (pg_size p)" by simp
qed

lemma span_range:
  assumes "unat offset + unat len \<le> 2 ^ 32 - 4096"
  shows "page_range (PAGE_ALIGN_DOWN offset) (offset + len - PAGE_ALIGN_DOWN offset) = Inr (span (unat offset) (unat len))"
proof -
  define b where "b = unat offset"
  define l where "l = unat len"
  have f: "PAGE_ALIGN_DOWN offset = of_nat (b - b mod 4096)"
  proof -
    have "PAGE_ALIGN_DOWN offset = of_nat (unat (PAGE_ALIGN_DOWN offset))" by simp
    then show ?thesis by (simp only: unat_PAGE_ALIGN_DOWN b_def)
  qed
  have lim: "PAGE_ALIGN_DOWN offset + (offset + len - PAGE_ALIGN_DOWN offset) = of_nat (b + l)"
    by (simp add: b_def l_def)
  have m: "b - b mod 4096 + 4096 * ((b mod 4096 + l + 4095) div 4096) < b + l + 4096"
    "b + l \<le> b - b mod 4096 + 4096 * ((b mod 4096 + l + 4095) div 4096)"
    "(b mod 4096 + l + 4095) div 4096 \<le> 2 ^ 20"
    using assms by (simp_all add: b_def l_def)
  show ?thesis
    unfolding page_range_def lim unfolding f span_def b_def [symmetric] l_def [symmetric]
    by (rule pages_from_eq [OF m(1,2) _ m(3)]) (use assms in \<open>simp add: b_def l_def\<close>)
qed

text \<open>What an access does before the bytes move.\<close>

definition opened_window :: "nat \<Rightarrow> nat \<Rightarrow> 's pstate \<Rightarrow> nat list option \<Rightarrow> 's pstate \<Rightarrow> bool" where
  "opened_window b l s r s' \<longleftrightarrow> quiet_step s s'
     \<and> (\<forall>fs. r = Some fs \<longrightarrow> fs = map (frame_of (fst s')) (span b l) \<and> (\<forall>q \<in> set (span b l). entry (fst s') q \<noteq> 0))
     \<and> ((\<forall>q \<in> set (span b l). entry (fst s) q \<noteq> 0) \<and> pe_regions (snd s) = [] \<and> pe_tables (snd s) = [] \<longrightarrow> r \<noteq> None)"

lemma span_window:
  assumes "frames_ok (p, e)" and "\<forall>q \<in> set (span b l). entry p q \<noteq> 0"
  defines "w \<equiv> window (map (frame_of p) (span b l)) (pe_phys e)"
  shows "b mod 4096 + l \<le> length w"
    and "take l (drop (b mod 4096) w) = map (\<lambda>i. byte_at (p, e) (b + i)) [0..<l]"
    and "length w = 4096 * length (span b l)"
proof -
  let ?m = "(b mod 4096 + l + 4095) div 4096" and ?first = "b - b mod 4096"
  have ph: "\<forall>f \<in> set (map (frame_of p) (span b l)). length (pe_phys e f) = 4096"
    using frames_soundD [OF frames_okD(4) [OF assms(1)]] assms(2) by auto
  show lw: "length w = 4096 * length (span b l)" unfolding w_def using window_length [OF ph] by simp
  have m: "b mod 4096 + l \<le> 4096 * ?m" by linarith
  then show le: "b mod 4096 + l \<le> length w" using lw by (simp add: span_def pages_def)
  define k where "k = b mod 4096"
  have at: "w ! (k + i) = byte_at (p, e) (b + i)" if "i < l" for i
  proof -
    have "b mod 4096 + i < 4096 * ?m" using that m by linarith
    from window_byte [OF assms(2) [unfolded span_def] assms(1) _ this]
    have "w ! (b mod 4096 + i) = byte_at (p, e) (?first + (b mod 4096 + i))" by (simp add: w_def span_def)
    also have "?first + (b mod 4096 + i) = b + i" by simp
    finally show ?thesis by (simp add: k_def)
  qed
  have le2: "k + l \<le> length w" using le by (simp add: k_def)
  have "take l (drop k w) = map (\<lambda>i. byte_at (p, e) (b + i)) [0..<l]"
  proof (rule nth_equalityI)
    show "length (take l (drop k w)) = length (map (\<lambda>i. byte_at (p, e) (b + i)) [0..<l])" using le2 by simp
    fix i assume "i < length (take l (drop k w))"
    then have "i < l" by simp
    then show "take l (drop k w) ! i = map (\<lambda>i. byte_at (p, e) (b + i)) [0..<l] ! i" using le2 at [of i] by simp
  qed
  then show "take l (drop (b mod 4096) w) = map (\<lambda>i. byte_at (p, e) (b + i)) [0..<l]" by (simp add: k_def)
qed

lemma entry_lock [simp]:
  "entry (p\<lparr>pg_locked := b\<rparr>) = entry p" "frame_of (p\<lparr>pg_locked := b\<rparr>) = frame_of p"
  "entry (p\<lparr>pg_size := n\<rparr>) = entry p" "frame_of (p\<lparr>pg_size := n\<rparr>) = frame_of p"
  by (simp_all add: entry_def frame_of_def fun_eq_iff)

lemma frames_ok_same:
  assumes "pg_pages p' = pg_pages p"
  shows "frames_ok (p', e) = frames_ok (p, e)"
proof -
  have e: "entry p' = entry p" using assms by (simp add: entry_def fun_eq_iff)
  show ?thesis unfolding frames_ok_def prod.case assms frames_cong(1) [OF e] frames_cong(2) [OF e refl refl] ..
qed

lemma frames_lock [simp]: "frames_ok (p\<lparr>pg_locked := b\<rparr>, e) = frames_ok (p, e)"
  by (rule frames_ok_same) simp

lemma byte_lock [simp]: "byte_at (p\<lparr>pg_locked := b\<rparr>, e) = byte_at (p, e)"
  by (simp add: byte_at_def fun_eq_iff)

lemma swap_page_in_quiet:
  assumes ok: "frames_ok (p, e)" and al: "PAGE_ALIGNED offset" and r: "page_range offset len = Inr ps"
    and all: "\<forall>q \<in> set ps. entry p q \<noteq> 0"
  shows "\<exists>e'. swap_page_in offset len (p, e) = Inr (p, e') \<and> pe_tables e' = pe_tables e"
proof -
  obtain b e1 where a: "region_answer e = (b, e1)" by (cases "region_answer e")
  have ok1: "frames_ok (p, e1)" using region_answer_ok [OF ok a] by (simp add: quiet_step_def)
  have "each_page swap_page_in_one ps (p, e1) = Inr (p, e1)"
    using each_page_quiet [OF ok1 swap_page_in_one_ok, of ps] all by auto
  then show ?thesis using a al r region_answer_ok(3) [OF ok a] by (auto simp: swap_page_in_def)
qed

lemma aligned_down: "PAGE_ALIGNED (PAGE_ALIGN_DOWN x)"
  by (simp add: PAGE_ALIGNED_iff unat_PAGE_ALIGN_DOWN)

lemma first_div: "(b - b mod 4096 + 4096 * k) div 4096 = b div 4096 + k" for b k :: nat
  by (simp add: minus_mod_eq_mult_div)

lemma first_page: "(b - b mod 4096 + 4096 * k) div 4096 * 4096 = b - b mod 4096 + 4096 * k" for b k :: nat
  unfolding first_div by (simp add: minus_mod_eq_mult_div add_mult_distrib)

lemma span_nth:
  assumes "k < length (span b l)"
  shows "span b l ! k = page_at (b - b mod 4096 + 4096 * k)"
  unfolding page_at_def first_page using assms by (simp add: span_def pages_def)

lemma page_at_index:
  assumes "page_at a = page_at c" and "a < 2 ^ 32" and "c < 2 ^ 32"
  shows "a div 4096 = c div 4096"
proof -
  have "a div 4096 * 4096 < 2 ^ 32" "c div 4096 * 4096 < 2 ^ 32" using assms(2,3) by linarith+
  then have "unat (page_at a) = a div 4096 * 4096" "unat (page_at c) = c div 4096 * 4096"
    by (simp_all only: page_at_def unat_of_nat) simp_all
  then show ?thesis using assms(1) by simp
qed

lemma span_below: "b + l \<le> 2 ^ 32 - 4096 \<Longrightarrow> k < length (span b l) \<Longrightarrow> b - b mod 4096 + 4096 * k < 2 ^ 32"
  by (simp add: span_def pages_def)

text \<open>Which bytes are on a page of the span, and where.\<close>

lemma in_span:
  assumes bl: "b + l \<le> 2 ^ 32 - 4096" and a: "a < 2 ^ 32"
  shows "page_at a \<in> set (span b l) \<longleftrightarrow> b div 4096 \<le> a div 4096 \<and> a div 4096 < b div 4096 + length (span b l)"
    and "b \<le> a \<Longrightarrow> a < b + l \<Longrightarrow> page_at a \<in> set (span b l)"
    and "page_at a \<in> set (span b l) \<Longrightarrow> span b l ! (a div 4096 - b div 4096) = page_at a"
proof -
  have at: "span b l ! k = page_at a \<longleftrightarrow> a div 4096 = b div 4096 + k" if k: "k < length (span b l)" for k
  proof
    assume "span b l ! k = page_at a"
    then show "a div 4096 = b div 4096 + k"
      using page_at_index [of "b - b mod 4096 + 4096 * k" a] span_nth [OF k] span_below [OF bl k] a first_div by simp
  next
    assume e: "a div 4096 = b div 4096 + k"
    have "page_at (b - b mod 4096 + 4096 * k) = of_nat ((b div 4096 + k) * 4096)" unfolding page_at_def first_div ..
    then show "span b l ! k = page_at a" unfolding span_nth [OF k] by (simp only: page_at_def e)
  qed
  show one: "page_at a \<in> set (span b l) \<longleftrightarrow> b div 4096 \<le> a div 4096 \<and> a div 4096 < b div 4096 + length (span b l)"
  proof
    assume "page_at a \<in> set (span b l)"
    then obtain k where "k < length (span b l)" "span b l ! k = page_at a" by (auto simp: in_set_conv_nth)
    then show "b div 4096 \<le> a div 4096 \<and> a div 4096 < b div 4096 + length (span b l)" using at by auto
  next
    assume r: "b div 4096 \<le> a div 4096 \<and> a div 4096 < b div 4096 + length (span b l)"
    then have k: "a div 4096 - b div 4096 < length (span b l)" by linarith
    then have "span b l ! (a div 4096 - b div 4096) = page_at a" using at r by simp
    then show "page_at a \<in> set (span b l)" using k nth_mem by metis
  qed
  show "b \<le> a \<Longrightarrow> a < b + l \<Longrightarrow> page_at a \<in> set (span b l)"
  proof -
    assume r: "b \<le> a" "a < b + l"
    have "length (span b l) = (b mod 4096 + l + 4095) div 4096" by (simp add: span_def pages_def)
    moreover have "a div 4096 < b div 4096 + (b mod 4096 + l + 4095) div 4096"
    proof -
      have "a < (b div 4096 + (b mod 4096 + l + 4095) div 4096) * 4096"
      proof -
        have "b mod 4096 + l \<le> (b mod 4096 + l + 4095) div 4096 * 4096" by linarith
        moreover have "b div 4096 * 4096 + b mod 4096 = b" by (rule div_mult_mod_eq)
        ultimately show ?thesis using r(2) unfolding add_mult_distrib by linarith
      qed
      then show ?thesis by (simp only: less_mult_imp_div_less)
    qed
    ultimately show ?thesis using one r(1) by (simp add: div_le_mono)
  qed
  show "page_at a \<in> set (span b l) \<Longrightarrow> span b l ! (a div 4096 - b div 4096) = page_at a"
  proof -
    assume "page_at a \<in> set (span b l)"
    then have "b div 4096 \<le> a div 4096 \<and> a div 4096 < b div 4096 + length (span b l)" using one by blast
    then have "a div 4096 - b div 4096 < length (span b l)" "a div 4096 = b div 4096 + (a div 4096 - b div 4096)" by linarith+
    then show ?thesis using at by blast
  qed
qed

lemma span_distinct: "b + l \<le> 2 ^ 32 - 4096 \<Longrightarrow> distinct (span b l)"
  unfolding distinct_conv_nth
proof (intro allI impI)
  fix j k assume bl: "b + l \<le> 2 ^ 32 - 4096" and jk: "j < length (span b l)" "k < length (span b l)" "j \<noteq> k"
  show "span b l ! j \<noteq> span b l ! k"
  proof
    assume "span b l ! j = span b l ! k"
    then have "(b - b mod 4096 + 4096 * j) div 4096 = (b - b mod 4096 + 4096 * k) div 4096"
      using page_at_index span_nth [OF jk(1)] span_nth [OF jk(2)] span_below [OF bl jk(1)] span_below [OF bl jk(2)] by metis
    then show False using jk(3) unfolding first_div by simp
  qed
qed

definition overwritten :: "nat \<Rightarrow> nat \<Rightarrow> u8 list \<Rightarrow> (nat \<Rightarrow> u8) \<Rightarrow> nat \<Rightarrow> u8" where
  "overwritten b l buf m a = (if b \<le> a \<and> a < b + l then buf ! (a - b) else m a)"

lemma store_bytes:
  assumes ok: "frames_ok (p, e)" and all: "\<forall>q \<in> set (span b l). entry p q \<noteq> 0" and bl: "b + l \<le> 2 ^ 32 - 4096"
    and a: "a < 2 ^ 32" and buf: "l \<le> length buf"
  defines "fs \<equiv> map (frame_of p) (span b l)"
  defines "w \<equiv> window fs (pe_phys e)"
  defines "w' \<equiv> take (b mod 4096) w @ take l buf @ drop (b mod 4096 + l) w"
  shows "byte_at (p, e\<lparr>pe_phys := store_window fs w' (pe_phys e)\<rparr>) a = overwritten b l buf (byte_at (p, e)) a"
proof (cases "page_at a \<in> set (span b l)")
  case False
  then have out: "\<not> (b \<le> a \<and> a < b + l)" using in_span(2) [OF bl a] by blast
  then have ov: "overwritten b l buf (byte_at (p, e)) a = byte_at (p, e) a" by (simp only: overwritten_def if_False)
  show ?thesis
  proof (cases "entry p (page_at a) = 0")
    case z: False
    have "frame_of p (page_at a) \<notin> set fs"
    proof
      assume "frame_of p (page_at a) \<in> set fs"
      then obtain q where "q \<in> set (span b l)" "frame_of p (page_at a) = frame_of p q" by (auto simp: fs_def)
      then show False using frames_apartD [OF frames_okD(5) [OF ok], of "page_at a" q] z all False by blast
    qed
    then show ?thesis unfolding ov using z by (simp add: byte_at_def store_window_other)
  next
    case True
    then show ?thesis unfolding ov by (simp add: byte_at_def)
  qed
next
  case True
  define k where "k = a div 4096 - b div 4096"
  have r: "b div 4096 \<le> a div 4096" "a div 4096 < b div 4096 + length (span b l)" using in_span(1) [OF bl a] True by blast+
  have k: "k < length (span b l)" "a div 4096 = b div 4096 + k" using r by (auto simp: k_def)
  have nth: "span b l ! k = page_at a" using in_span(3) [OF bl a True] by (simp add: k_def)
  note sw = span_window [OF ok all, folded fs_def, folded w_def]
  have "distinct fs"
  proof -
    have "inj_on (frame_of p) (set (span b l))"
      using frames_apartD [OF frames_okD(5) [OF ok]] all by (intro inj_onI) blast
    then show ?thesis using span_distinct [OF bl] by (simp add: fs_def distinct_map)
  qed
  then have st: "store_window fs w' (pe_phys e) (frame_of p (page_at a)) = take 4096 (drop (4096 * k) w')"
    using store_window_at [of fs k w' "pe_phys e"] k(1) nth by (simp add: fs_def)
  have lw': "length w' = length w" using sw(1) buf by (simp add: w'_def)
  define j where "j = 4096 * k + a mod 4096"
  have jl: "j < length w" using k(1) sw(3) by (simp add: j_def)
  have ja: "b mod 4096 + a = b + j"
  proof -
    have "a = 4096 * (b div 4096 + k) + a mod 4096" using k(2) mult_div_mod_eq [of 4096 a] by simp
    then show ?thesis using mult_div_mod_eq [of 4096 b] unfolding j_def add_mult_distrib2 by linarith
  qed
  have "byte_at (p, e\<lparr>pe_phys := store_window fs w' (pe_phys e)\<rparr>) a = take 4096 (drop (4096 * k) w') ! (a mod 4096)"
    using all True st by (simp add: byte_at_def)
  also have "\<dots> = w' ! j" using jl lw' by (simp add: j_def)
  also have "\<dots> = overwritten b l buf (byte_at (p, e)) a"
  proof -
    have old: "w ! j = byte_at (p, e) a"
    proof -
      let ?m = "(b mod 4096 + l + 4095) div 4096"
      have "j < 4096 * ?m" using jl sw(3) by (simp add: span_def pages_def)
      from window_byte [OF all [unfolded span_def] ok _ this]
      have "w ! j = byte_at (p, e) (b - b mod 4096 + j)" by (simp add: w_def fs_def span_def)
      moreover have "b - b mod 4096 + j = a" using ja mod_less_eq_dividend [of b 4096] by linarith
      ultimately show ?thesis by simp
    qed
    define c where "c = b mod 4096"
    have cw: "c + l \<le> length w" using sw(1) by (simp add: c_def)
    have ja2: "c + a = b + j" using ja by (simp add: c_def)
    consider "j < c" | "c \<le> j" "j < c + l" | "c + l \<le> j" by linarith
    then show ?thesis
    proof cases
      case 1
      then have "w' ! j = w ! j" using cw unfolding w'_def c_def [symmetric] by (simp add: nth_append)
      moreover have "\<not> (b \<le> a \<and> a < b + l)" using 1 ja2 by linarith
      ultimately show ?thesis using old by (auto simp: overwritten_def)
    next
      case 2
      then have "j - c < l" by linarith
      then have "w' ! j = buf ! (j - c)" using 2 cw buf unfolding w'_def c_def [symmetric] by (simp add: nth_append)
      moreover have "b \<le> a \<and> a < b + l" "a - b = j - c" using 2 ja2 by linarith+
      ultimately show ?thesis by (simp add: overwritten_def)
    next
      case 3
      then have "\<not> j - c < l" "j - (c + l) + (c + l) = j" by linarith+
      then have "w' ! j = w ! j" using 3 cw buf jl unfolding w'_def c_def [symmetric] by (simp add: nth_append)
      moreover have "\<not> (b \<le> a \<and> a < b + l)" using 3 ja2 by linarith
      ultimately show ?thesis using old by (auto simp: overwritten_def)
    qed
  qed
  finally show ?thesis .
qed

text \<open>One access: it gives up with nothing done, or it does the whole of what is in the pager.\<close>

definition given_up :: "'s pstate \<Rightarrow> (u32 \<times> u8 list) \<times> 's pstate \<Rightarrow> bool" where
  "given_up s r \<longleftrightarrow> fst r = (0, []) \<and> same_bytes s (snd r)"

definition has_read :: "u32 \<Rightarrow> u32 \<Rightarrow> 's pstate \<Rightarrow> (u32 \<times> u8 list) \<times> 's pstate \<Rightarrow> bool" where
  "has_read offset n s r \<longleftrightarrow> fst r = (n, map (\<lambda>i. byte_at s (unat offset + i)) [0..<unat n]) \<and> same_bytes s (snd r)"

definition has_written :: "u32 \<Rightarrow> u32 \<Rightarrow> u8 list \<Rightarrow> 's pstate \<Rightarrow> (u32 \<times> u8 list) \<times> 's pstate \<Rightarrow> bool" where
  "has_written offset n buf s r \<longleftrightarrow> fst r = (n, [])
     \<and> (\<forall>a < 2 ^ 32. byte_at (snd r) a = overwritten (unat offset) (unat n) buf (byte_at s) a)"

definition fills :: "u32 \<Rightarrow> u32 \<Rightarrow> 's pstate \<Rightarrow> bool" where
  "fills offset n s \<longleftrightarrow> (\<forall>q \<in> set (span (unat offset) (unat n)). entry (fst s) q \<noteq> 0)"

definition no_failures :: "'s pager_env \<Rightarrow> bool" where
  "no_failures e \<longleftrightarrow> pe_regions e = [] \<and> pe_tables e = []"

lemma pager_do_rw_ok:
  assumes ok: "swap_ok (p, e)" and rng: "in_range p offset len"
    and buf: "\<And>bs. data = Some bs \<Longrightarrow> length bs = unat len"
  defines "n \<equiv> clamp p offset len"
  shows "\<exists>r s'. pager_do_rw V offset len data (p, e) = Inr (r, s') \<and> swap_ok s' \<and> pg_size (fst s') = pg_size p
    \<and> (given_up (p, e) (r, s') \<or> fills offset n s' \<and>
        (case data of None \<Rightarrow> has_read offset n (p, e) (r, s') | Some bs \<Rightarrow> has_written offset n bs (p, e) (r, s')))
    \<and> (no_failures e \<longrightarrow> no_failures (snd s') \<and> (fills offset n (p, e) \<longrightarrow> fst r = n))"
proof -
  obtain al where kind: "pg_kind p = Swap_pager al" and unl: "\<not> pg_locked p" and sz: "unat (pg_size p) \<le> 2 ^ 32 - 4096"
    and ok0: "frames_ok (p, e)" using ok by (auto simp: swap_ok_def)
  define p1 where "p1 = p\<lparr>pg_locked := True\<rparr>"
  define first where "first = PAGE_ALIGN_DOWN offset"
  define b where "b = unat offset"
  define l where "l = unat n"
  define ps where "ps = span b l"
  note cl = clamp_range [OF rng, folded n_def, folded b_def l_def]
  have bl: "b + l \<le> 2 ^ 32 - 4096" using cl(2) sz by linarith
  have pr: "page_range first (offset + n - first) = Inr ps"
    using span_range [of offset n] bl by (simp add: b_def l_def first_def ps_def)
  have first: "unat (offset - first) = b mod 4096"
  proof -
    have "unat (offset - first) = unat offset - unat first"
      by (rule unat_sub) (simp add: first_def word_le_nat_alt unat_PAGE_ALIGN_DOWN)
    then show ?thesis by (simp add: first_def unat_PAGE_ALIGN_DOWN b_def)
  qed
  have in_sz: "\<not> pg_size p \<le> offset" using rng by (simp add: in_range_def linorder_not_le)
  have lk: "lock_pager p = Inr p1" using unl by (simp add: lock_pager_def p1_def)
  have ok1: "frames_ok (p1, e)" using ok0 by (simp add: p1_def)
  have unlock: "unlock_pager (q, e2) = (q\<lparr>pg_locked := False\<rparr>, e2)" for q and e2 :: "'a pager_env" by (simp add: unlock_pager_def)
  obtain rb e1 where ra: "region_answer e = (rb, e1)" by (cases "region_answer e")
  have q1: "quiet_step (p1, e) (p1, e1)" by (rule region_answer_ok [OF ok1 ra])
  have okA: "frames_ok (p1, e1)" using q1 by (simp add: quiet_step_def)
  have fin: "swap_ok s' \<and> pg_size (fst s') = pg_size p"
    if "frames_ok (q, e')" "same_pager p1 q" "s' = (q\<lparr>pg_locked := False\<rparr>, e')" for q e' s'
    using that kind sz by (auto simp: swap_ok_def same_pager_def p1_def)
  have up: "given_up (p, e) ((0, []), q\<lparr>pg_locked := False\<rparr>, e')" if "quiet_step (p1, e) (q, e')" for q e'
    using that by (simp add: given_up_def quiet_step_def same_bytes_def p1_def)
  have run0: "pager_do_rw V offset len data (p, e) =
      (if \<not> rb then Inr ((0, []), unlock_pager (p1, e1))
       else rbind (swap_page_in first (offset + n - first) (p1, e1)) (\<lambda>(p2, e2).
         (case map_pages ps (p2, e2) of
            (None, e3) \<Rightarrow> Inr ((0, []), unlock_pager (p2, e3))
          | (Some fs, e3) \<Rightarrow>
              (let k = b mod 4096; w = window fs (pe_phys e3)
               in if length w < k + l then Inl Bad_access
                  else (case data of
                          None \<Rightarrow> Inr ((n, take l (drop k w)), unlock_pager (p2, e3))
                        | Some buf \<Rightarrow>
                            if length buf < l then Inl Bad_access
                            else
                              rbind (each_page touch_one ps p2) (\<lambda>p3.
                                Inr ((n, []), unlock_pager (p3,
                                  e3\<lparr>pe_phys := store_window fs (take k w @ take l buf @ drop (k + l) w) (pe_phys e3)\<rparr>))))))))"
  proof -
    have e: "(if pg_size p1 < offset + len then pg_size p1 - offset else len) = n" "pg_kind p1 = Swap_pager al"
      "\<not> pg_size p1 \<le> offset" using kind in_sz by (simp_all add: n_def clamp_def p1_def)
    show ?thesis
      unfolding pager_do_rw_def prod.case lk rbind_simps Let_def e first_def [symmetric] ra first l_def [symmetric]
        op_page_in_def fst_conv pager_kind.case pr by (simp only: e if_False prod.case pr rbind_simps)
  qed
  show ?thesis
  proof (cases rb)
    case False
    have "\<not> no_failures e" using region_answer_ok(2) [OF ok1 ra] False by (auto simp: no_failures_def)
    then show ?thesis using run0 False fin [OF okA] up [OF q1] unlock by (auto simp: same_pager_refl)
  next
    case True
    obtain p2 e2 where in2: "swap_page_in first (offset + n - first) (p1, e1) = Inr (p2, e2)" and q2: "quiet_step (p1, e1) (p2, e2)"
      using swap_page_in_ok [OF okA _ pr] aligned_down first_def by blast
    have q12: "quiet_step (p1, e) (p2, e2)" by (rule quiet_step_trans [OF q1 q2])
    have ok2: "frames_ok (p2, e2)" using q2 by (simp add: quiet_step_def)
    obtain mf e3 where mp: "map_pages ps (p2, e2) = (mf, e3)" by (cases "map_pages ps (p2, e2)")
    note m = map_pages_ok [OF ok2 mp]
    have q13: "quiet_step (p1, e) (p2, e3)" using quiet_step_trans [OF q12] m by blast
    have ok3: "frames_ok (p2, e3)" using q13 by (simp add: quiet_step_def)
    have sp: "same_pager p1 p2" using q13 by (simp add: quiet_step_def)
    have prog: "mf \<noteq> None" if "no_failures e" "fills offset n (p, e)"
    proof -
      have "\<forall>q \<in> set ps. entry p2 q \<noteq> 0"
        using that(2) q12 by (auto simp: fills_def quiet_step_def p1_def ps_def b_def l_def)
      moreover have "pe_tables e2 = []" using that(1) q12 by (simp add: no_failures_def quiet_step_def)
      ultimately show ?thesis using m by blast
    qed
    have nf: "no_failures e3" if "no_failures e" using that q13 by (simp add: no_failures_def quiet_step_def)
    show ?thesis
    proof (cases mf)
      case None
      then show ?thesis using run0 True in2 mp fin [OF ok3 sp] up [OF q13] prog nf unlock by auto
    next
      case (Some fs)
      have fs: "fs = map (frame_of p2) (span b l)" and all: "\<forall>q \<in> set (span b l). entry p2 q \<noteq> 0"
        using m Some by (simp_all add: ps_def)
      note w = span_window [OF ok3 all, folded fs]
      have same: "byte_at (p2, e3) a = byte_at (p, e) a" for a using q13 by (simp add: quiet_step_def same_bytes_def p1_def)
      show ?thesis
      proof (cases data)
        case None
        let ?s = "(p2\<lparr>pg_locked := False\<rparr>, e3)"
        let ?bytes = "map (\<lambda>i. byte_at (p2, e3) (b + i)) [0..<l]"
        have "pager_do_rw V offset len data (p, e) = Inr ((n, ?bytes), ?s)"
          using run0 True in2 mp Some None w(1,2) unlock by (simp add: Let_def)
        moreover have "has_read offset n (p, e) ((n, ?bytes), ?s)"
          using same by (simp add: has_read_def same_bytes_def b_def l_def)
        moreover have "fills offset n ?s" using all by (simp add: fills_def b_def l_def)
        ultimately show ?thesis using fin [OF ok3 sp refl] nf None by auto
      next
        case d: (Some bs)
        define ww where "ww = take (b mod 4096) (window fs (pe_phys e3)) @ take l bs @ drop (b mod 4096 + l) (window fs (pe_phys e3))"
        define ph where "ph = store_window fs ww (pe_phys e3)"
        have lb: "l \<le> length bs" using buf [OF d] cl(1) by simp
        obtain p3 where t: "each_page touch_one ps p2 = Inr p3" "ht_ok id_key_eq_fun id_hash_fun (pg_pages p3)" "same_pager p2 p3"
          "frame_of p3 = frame_of p2" "\<forall>q. entry p3 q = 0 \<longleftrightarrow> entry p2 q = 0"
          using touch_pages [OF frames_okD(1) [OF ok2], of ps] all by (auto simp: ps_def)
        let ?e = "e3\<lparr>pe_phys := ph\<rparr>" and ?s = "(p3\<lparr>pg_locked := False\<rparr>, e3\<lparr>pe_phys := ph\<rparr>)"
        have run: "pager_do_rw V offset len data (p, e) = Inr ((n, []), ?s)"
          using run0 True in2 mp Some d w(1) lb t(1) unlock by (simp add: Let_def ph_def ww_def)
        have wr: "byte_at (p2, ?e) a = overwritten b l bs (byte_at (p2, e3)) a" if "a < 2 ^ 32" for a
          using store_bytes [OF ok3 all bl that lb] unfolding ph_def ww_def fs .
        have "byte_at (p3, ?e) a = byte_at (p2, ?e) a" for a using t(4,5) by (simp add: byte_at_def)
        then have "has_written offset n bs (p, e) ((n, []), ?s)"
          using wr same by (simp add: has_written_def b_def l_def overwritten_def)
        moreover have "length (ph f) = 4096" if lf: "length (pe_phys e3 f) = 4096" for f
        proof (cases "f \<in> set fs")
          case True
          have "distinct fs"
          proof -
            have "inj_on (frame_of p2) (set (span b l))"
              using frames_apartD [OF frames_okD(5) [OF ok3]] all by (intro inj_onI) blast
            then show ?thesis using span_distinct [OF bl] by (simp add: fs distinct_map)
          qed
          moreover obtain k where k: "k < length fs" "f = fs ! k" using True by (auto simp: in_set_conv_nth)
          moreover have "length ww = 4096 * length fs" using w(1,3) lb fs by (simp add: ww_def)
          then have "length (take 4096 (drop (4096 * k) ww)) = 4096" using k(1) by simp
          ultimately show ?thesis using store_window_at [of fs k] by (simp add: ph_def)
        qed (simp add: ph_def store_window_other lf)
        then have ok4: "frames_ok (p3, ?e)"
          by (intro frames_transfer [OF ok3 t(2,4)]) (use t(5) in simp_all)
        moreover have "same_pager p1 p3" by (rule same_pager_trans [OF sp t(3)])
        moreover have "fills offset n ?s" using all t(5) by (simp add: fills_def b_def l_def)
        ultimately show ?thesis using run fin [OF ok4 _ refl] nf d by (auto simp: no_failures_def)
      qed
    qed
  qed
qed

section \<open>Sequences of accesses\<close>

datatype pager_call = Pg_read u32 u32 | Pg_write u32 "u8 list"

fun pager_do :: "(nat \<Rightarrow> 's vfs_pager_ops) \<Rightarrow> pager_call \<Rightarrow> 's pstate \<Rightarrow> ((u32 \<times> u8 list) \<times> 's pstate) res" where
  "pager_do V (Pg_read offset len) s = pager_read V offset len s"
| "pager_do V (Pg_write offset buf) s = rbind (pager_write V offset buf s) (\<lambda>(n, s'). Inr ((n, []), s'))"

fun pager_calls :: "(nat \<Rightarrow> 's vfs_pager_ops) \<Rightarrow> pager_call list \<Rightarrow> 's pstate \<Rightarrow> ((u32 \<times> u8 list) list \<times> 's pstate) res" where
  "pager_calls V [] s = Inr ([], s)"
| "pager_calls V (c # cs) s =
     rbind (pager_do V c s) (\<lambda>(r, s1). rbind (pager_calls V cs s1) (\<lambda>(rs, s2). Inr (r # rs, s2)))"

text \<open>The accesses that are not beyond the end, and whose end is an address.\<close>

fun call_ok :: "u32 \<Rightarrow> pager_call \<Rightarrow> bool" where
  "call_ok sz (Pg_read offset len) \<longleftrightarrow> offset < sz \<and> unat offset + unat len < 2 ^ 32"
| "call_ok sz (Pg_write offset buf) \<longleftrightarrow> offset < sz \<and> unat offset + length buf < 2 ^ 32"

text \<open>
  The specification: an array \<open>m\<close> of bytes. Each call answers the number of bytes that are in the pager, and a read the
  bytes of the array; or it answers zero and changes nothing.
\<close>

definition in_pager :: "u32 \<Rightarrow> u32 \<Rightarrow> nat \<Rightarrow> nat" where
  "in_pager sz offset len = min len (unat sz - unat offset)"

fun memory_admits :: "u32 \<Rightarrow> pager_call list \<Rightarrow> (u32 \<times> u8 list) list \<Rightarrow> (nat \<Rightarrow> u8) \<Rightarrow> bool" where
  "memory_admits sz [] [] m = True"
| "memory_admits sz (Pg_read offset len # cs) ((n, bytes) # rs) m =
     ((n = 0 \<and> bytes = []
       \<or> unat n = in_pager sz offset (unat len) \<and> bytes = map (\<lambda>i. m (unat offset + i)) [0..<in_pager sz offset (unat len)])
      \<and> memory_admits sz cs rs m)"
| "memory_admits sz (Pg_write offset buf # cs) ((n, bytes) # rs) m =
     (n = 0 \<and> memory_admits sz cs rs m
      \<or> unat n = in_pager sz offset (length buf)
        \<and> memory_admits sz cs rs (overwritten (unat offset) (in_pager sz offset (length buf)) buf m))"
| "memory_admits sz _ _ m = False"

lemma pager_do_ok:
  assumes ok: "swap_ok s" and c: "call_ok (pg_size (fst s)) c"
  shows "\<exists>n bytes s'. pager_do V c s = Inr ((n, bytes), s') \<and> swap_ok s' \<and> pg_size (fst s') = pg_size (fst s)
    \<and> (\<forall>m cs rs. (\<forall>a < 2 ^ 32. m a = byte_at s a) \<longrightarrow>
        (\<exists>m'. (\<forall>a < 2 ^ 32. m' a = byte_at s' a) \<and>
          (memory_admits (pg_size (fst s)) cs rs m' \<longrightarrow> memory_admits (pg_size (fst s)) (c # cs) ((n, bytes) # rs) m)))"
proof -
  obtain p e where s: "s = (p, e)" by (cases s)
  show ?thesis
  proof (cases c)
    case (Pg_read offset len)
    have rng: "in_range p offset len" using c Pg_read by (simp add: s in_range_def)
    obtain n bytes s' where r: "pager_do_rw V offset len None (p, e) = Inr ((n, bytes), s')" "swap_ok s'" "pg_size (fst s') = pg_size p"
      "given_up (p, e) ((n, bytes), s') \<or> has_read offset (clamp p offset len) (p, e) ((n, bytes), s')"
      using pager_do_rw_ok [OF ok [unfolded s] rng, of None V] by auto
    have cl: "unat (clamp p offset len) = in_pager (pg_size p) offset (unat len)"
      using clamp_range(1) [OF rng] by (simp add: in_pager_def)
    have same: "byte_at s' a = byte_at (p, e) a" for a
      using r(4) by (auto simp: given_up_def has_read_def same_bytes_def)
    have "memory_admits (pg_size p) (c # cs) ((n, bytes) # rs) m" if "\<forall>a < 2 ^ 32. m a = byte_at (p, e) a"
      "memory_admits (pg_size p) cs rs m" for m cs rs
    proof -
      have "unat offset + i < 2 ^ 32" if "i < in_pager (pg_size p) offset (unat len)" for i
        using that rng by (simp add: in_pager_def in_range_def)
      then have "map (\<lambda>i. byte_at (p, e) (unat offset + i)) [0..<in_pager (pg_size p) offset (unat len)]
          = map (\<lambda>i. m (unat offset + i)) [0..<in_pager (pg_size p) offset (unat len)]" using that(1) by simp
      then show ?thesis using that(2) r(4) cl Pg_read by (auto simp: given_up_def has_read_def)
    qed
    then show ?thesis using r(1-3) same Pg_read by (auto simp: s pager_read_def)
  next
    case (Pg_write offset buf)
    have len: "unat (of_nat (length buf) :: u32) = length buf" using c Pg_write by (simp add: unat_of_nat)
    have rng: "in_range p offset (of_nat (length buf))" using c Pg_write len by (simp add: s in_range_def)
    obtain n bytes s' where r: "pager_do_rw V offset (of_nat (length buf)) (Some buf) (p, e) = Inr ((n, bytes), s')" "swap_ok s'"
      "pg_size (fst s') = pg_size p"
      "given_up (p, e) ((n, bytes), s') \<or> has_written offset (clamp p offset (of_nat (length buf))) buf (p, e) ((n, bytes), s')"
      using pager_do_rw_ok [OF ok [unfolded s] rng, of "Some buf" V] len by auto
    have cl: "unat (clamp p offset (of_nat (length buf))) = in_pager (pg_size p) offset (length buf)"
      using clamp_range(1) [OF rng] len by (simp add: in_pager_def)
    have "\<exists>m'. (\<forall>a < 2 ^ 32. m' a = byte_at s' a) \<and>
          (memory_admits (pg_size p) cs rs m' \<longrightarrow> memory_admits (pg_size p) (c # cs) ((n, []) # rs) m)"
      if m: "\<forall>a < 2 ^ 32. m a = byte_at (p, e) a" for m cs rs
      using r(4)
    proof
      assume "given_up (p, e) ((n, bytes), s')"
      then show ?thesis using m Pg_write by (intro exI [of _ m]) (simp add: given_up_def same_bytes_def)
    next
      assume w: "has_written offset (clamp p offset (of_nat (length buf))) buf (p, e) ((n, bytes), s')"
      let ?m = "overwritten (unat offset) (in_pager (pg_size p) offset (length buf)) buf m"
      have "\<forall>a < 2 ^ 32. ?m a = byte_at s' a" using w m cl by (simp add: has_written_def overwritten_def)
      then show ?thesis using w cl Pg_write by (intro exI [of _ ?m]) (simp add: has_written_def)
    qed
    then show ?thesis using r(1-3) Pg_write by (auto simp: s pager_write_def)
  qed
qed

lemma pager_calls_ok:
  assumes "swap_ok s" and "pg_size (fst s) = sz" and "\<forall>c \<in> set cs. call_ok sz c" and "\<forall>a < 2 ^ 32. m a = byte_at s a"
  shows "\<exists>rs s'. pager_calls V cs s = Inr (rs, s') \<and> memory_admits sz cs rs m"
  using assms
proof (induction cs arbitrary: s m)
  case (Cons c cs)
  have c: "call_ok (pg_size (fst s)) c" using Cons.prems by simp
  obtain n bytes s1 where 1: "pager_do V c s = Inr ((n, bytes), s1)" "swap_ok s1" "pg_size (fst s1) = pg_size (fst s)"
    "\<forall>m cs rs. (\<forall>a < 2 ^ 32. m a = byte_at s a) \<longrightarrow>
        (\<exists>m'. (\<forall>a < 2 ^ 32. m' a = byte_at s1 a) \<and>
          (memory_admits (pg_size (fst s)) cs rs m' \<longrightarrow> memory_admits (pg_size (fst s)) (c # cs) ((n, bytes) # rs) m))"
    using pager_do_ok [OF Cons.prems(1) c] by blast
  have sz: "pg_size (fst s1) = sz" "\<forall>c \<in> set cs. call_ok sz c" using 1(3) Cons.prems(2,3) by simp_all
  have "\<exists>rs s'. pager_calls V cs s1 = Inr (rs, s')" using Cons.IH [OF 1(2) sz, of "byte_at s1"] by blast
  then obtain rs s' where r: "pager_calls V cs s1 = Inr (rs, s')" by blast
  obtain m' where m': "\<forall>a < 2 ^ 32. m' a = byte_at s1 a"
      "memory_admits sz cs rs m' \<longrightarrow> memory_admits sz (c # cs) ((n, bytes) # rs) m"
    using 1(4) Cons.prems(2,4) by blast
  have "memory_admits sz cs rs m'" using Cons.IH [OF 1(2) sz m'(1)] r by auto
  then show ?case using m'(2) 1(1) r by (intro exI [of _ "(n, bytes) # rs"] exI [of _ s']) simp
qed simp

text \<open>The state after \<open>new_swap_pager\<close>, in a kernel whose frames are in order.\<close>

lemma new_swap_ok:
  assumes n: "new_swap_pager sz al h = (Some p, h')" and fr: "frame_ok (pe_frames e)" "nframes (pe_frames e) \<le> 2 ^ 20"
    and sz: "unat sz \<le> 2 ^ 32 - 4096"
  shows "swap_ok (p, e\<lparr>pe_heap := h'\<rparr>)" "pg_size p = sz" "byte_at (p, e\<lparr>pe_heap := h'\<rparr>) a = 0"
proof -
  obtain h1 ht where c: "create_hashtbl h1 id_key_eq_fun id_hash_fun False = (Some ht, h')"
    and p: "p = \<lparr>pg_kind = Swap_pager al, pg_size = sz, pg_pages = ht, pg_locked = False, pg_maps = []\<rparr>"
    using n by (auto simp: new_swap_pager_def new_pager_def split: prod.splits option.splits if_splits)
  have t: "ht_inv ht" "ht_bindings ht = {#}" using create_hashtbl_inv [OF id_keys.hash_keys_axioms c] by simp_all
  have z: "entry p q = 0" for q
    using hashtbl_find_bound [OF t(1), of q] t(2) by (auto simp: entry_def p split: option.splits)
  have "ht_ok id_key_eq_fun id_hash_fun (pg_pages p)" using t(1) create_hashtbl_funs [OF c] by (simp add: ht_ok_def p)
  then have "frames_ok (p, e\<lparr>pe_heap := h'\<rparr>)" using fr z by (simp add: frames_ok_def frames_sound_def frames_apart_def)
  then show "swap_ok (p, e\<lparr>pe_heap := h'\<rparr>)" using sz by (simp add: swap_ok_def p)
  show "pg_size p = sz" "byte_at (p, e\<lparr>pe_heap := h'\<rparr>) a = 0" using z by (simp_all add: p byte_at_def)
qed


text \<open>What a write has stored is there: after a write that answers the number of bytes it took, reading as many bytes at
  the same place gives them back, without any allocation of frames or entries, when the kernel has address space and
  page tables left.\<close>

theorem pager_write_read:
  assumes "swap_ok (p, e)" and "no_failures e" and "in_range p offset (of_nat (length buf))" and "length buf < 2 ^ 32"
    and "pager_write V offset buf (p, e) = Inr (n, s')" and "0 < n"
  shows "\<exists>s''. pager_read V offset n s' = Inr ((n, take (unat n) buf), s'')"
proof -
  define l where "l = clamp p offset (of_nat (length buf))"
  have len: "unat (of_nat (length buf) :: u32) = length buf" using assms(4) by (simp add: unat_of_nat)
  obtain bytes where w: "pager_do_rw V offset (of_nat (length buf)) (Some buf) (p, e) = Inr ((n, bytes), s')"
    using assms(5) by (auto simp: pager_write_def rbind_Inr_iff)
  obtain r2 s2 where 2: "pager_do_rw V offset (of_nat (length buf)) (Some buf) (p, e) = Inr (r2, s2)" "swap_ok s2"
    "pg_size (fst s2) = pg_size p"
    "given_up (p, e) (r2, s2) \<or> fills offset l s2 \<and> has_written offset l buf (p, e) (r2, s2)" "no_failures (snd s2)"
    using pager_do_rw_ok [OF assms(1,3), of "Some buf" V] len assms(2) unfolding l_def [symmetric] by (auto simp del: split_paired_Ex)
  have "r2 = (n, bytes)" "s2 = s'" using 2(1) w by simp_all
  then have s': "swap_ok s'" "pg_size (fst s') = pg_size p" "fills offset l s'" "has_written offset l buf (p, e) ((n, bytes), s')"
    "no_failures (snd s')" using 2 assms(6) by (auto simp: given_up_def)
  have n: "n = l" using s'(4) by (simp add: has_written_def)
  obtain p' e' where pe: "s' = (p', e')" by (cases s')
  note cl = clamp_range [OF assms(3), folded l_def]
  have lb: "unat l \<le> length buf" using cl(1) len by simp
  have rng: "in_range p' offset n"
    using assms(3) cl(2) s'(2) n unsigned_less [of "pg_size p", where 'a = nat] by (simp add: in_range_def pe) 
  have cln: "clamp p' offset n = n"
  proof -
    have "unat (clamp p' offset n) = min (unat n) (unat (pg_size p') - unat offset)" by (rule clamp_range(1) [OF rng])
    also have "\<dots> = unat n" using cl(2) n s'(2) pe by simp
    finally show ?thesis by (simp only: word_unat_eq_iff)
  qed
  obtain r s2 where r: "pager_do_rw V offset n None (p', e') = Inr (r, s2)"
    "given_up (p', e') (r, s2) \<or> has_read offset n (p', e') (r, s2)" "fst r = n"
    using pager_do_rw_ok [OF s'(1) [unfolded pe] rng, of None V] s'(3,5) pe n cln by auto
  then have "has_read offset n (p', e') (r, s2)" using assms(6) by (auto simp: given_up_def)
  then have "snd r = map (\<lambda>i. byte_at (p', e') (unat offset + i)) [0..<unat n]" by (simp add: has_read_def)
  also have "\<dots> = take (unat n) buf"
  proof (rule nth_equalityI)
    show "length (map (\<lambda>i. byte_at (p', e') (unat offset + i)) [0..<unat n]) = length (take (unat n) buf)"
      using lb n by simp
    fix i assume "i < length (map (\<lambda>i. byte_at (p', e') (unat offset + i)) [0..<unat n])"
    then have i: "i < unat n" by simp
    have "unat offset + i < 2 ^ 32" using i cl(2) n unsigned_less [of "pg_size p", where 'a = nat] by simp
    then have "byte_at (p', e') (unat offset + i) = buf ! i"
      using s'(4) i n pe by (simp add: has_written_def overwritten_def)
    then show "map (\<lambda>i. byte_at (p', e') (unat offset + i)) [0..<unat n] ! i = take (unat n) buf ! i" using i by simp
  qed
  finally have "r = (n, take (unat n) buf)" using r(3) by (cases r) simp
  then show ?thesis using r(1) by (simp add: pager_read_def pe)
qed

text \<open>C40: An access that starts at the end of a pager or beyond it, which answers zero, does not give the lock back: the
  next access to the pager, wherever it is, waits for ever.\<close>

theorem pager_read_past_end_locks:
  assumes "\<not> pg_locked p" and "pg_size p \<le> offset"
  shows "\<exists>s'. pager_read V offset len (p, e) = Inr ((0, []), s') \<and> pager_read V offset2 len2 s' = Inl Self_deadlock
    \<and> pager_write V offset2 buf s' = Inl Self_deadlock \<and> pager_get_frame V offset2 s' = Inl Self_deadlock
    \<and> delete_pager V s' \<noteq> Inr e'"
  using assms
  by (auto simp: pager_read_def pager_write_def pager_do_rw_def lock_pager_def pager_get_frame_def delete_pager_def rbind_Inr_iff)

section \<open>Witnesses\<close>

definition no_driver :: "nat \<Rightarrow> unit vfs_pager_ops" where
  "no_driver = (\<lambda>_. \<lparr>vp_read = None, vp_write = None, vp_resize = None\<rparr>)"

definition fresh_heap :: heap where "fresh_heap = \<lparr>hp_answers = [], hp_live = 0\<rparr>"

definition wit_env :: "frame_state \<Rightarrow> unit pager_env" where
  "wit_env fr = \<lparr>pe_frames = fr, pe_phys = (\<lambda>_. zero_page), pe_regions = [], pe_tables = [], pe_heap = fresh_heap,
     pe_present = (\<lambda>_ _. False), pe_dev = ()\<rparr>"

lemma wit_table:
  obtains ht :: "(u32, u32) hashtbl" and h where "create_hashtbl fresh_heap id_key_eq_fun id_hash_fun False = (Some ht, h)"
    and "hp_answers h = []" and "ht_ok id_key_eq_fun id_hash_fun ht" and "\<And>q. hashtbl_find ht q = None"
proof -
  obtain ht :: "(u32, u32) hashtbl" and h where c: "create_hashtbl fresh_heap id_key_eq_fun id_hash_fun False = (Some ht, h)" "hp_answers h = []"
    by (simp add: create_hashtbl_def fresh_heap_def heap_malloc_def next_answer_def)
  have t: "ht_inv ht" "ht_bindings ht = {#}" using create_hashtbl_inv [OF id_keys.hash_keys_axioms c(1)] by simp_all
  have "hashtbl_find ht q = None" for q
    using hashtbl_find_bound [OF t(1), of q] t(2) by (cases "hashtbl_find ht q") auto
  moreover have "ht_ok id_key_eq_fun id_hash_fun ht" using t(1) create_hashtbl_funs [OF c(1)] by (simp add: ht_ok_def)
  ultimately show ?thesis using that c by blast
qed


theorem pager_write_read_witness:
  "\<exists>p e n s' s''. pager_write no_driver 5 [7, 8, 9] (p, e) = Inr (n, s') \<and> 0 < n
     \<and> pager_read no_driver 5 n s' = Inr ((n, take (unat n) [7, 8, 9]), s'')"
proof -
  obtain fr where fr: "frame_ok fr" "nframes fr = 64" "1 \<in> used_set fr"
  proof -
    have a: "frame_alloc 1 wit_frames = Inr (1, wit_frames\<lparr>frame_bitset := [3, 0], nused_frames := 2\<rparr>)"
      by (simp add: frame_alloc_def wit_frames_def frame_scan.simps frame_fit_def frame_mask_def upt_rec)
    show ?thesis
      using frame_alloc_law [OF wit_frames_ok, of 1] a that [of "wit_frames\<lparr>frame_bitset := [3, 0], nused_frames := 2\<rparr>"]
      by (auto simp: wit_frames_def)
  qed
  obtain ht :: "(u32, u32) hashtbl" and h :: heap where t: "hp_answers h = []" "ht_ok id_key_eq_fun id_hash_fun ht"
    "\<And>q. hashtbl_find ht q = None" by (rule wit_table) blast
  obtain b t' h' where put: "ht_put h ht 0 0x1000 = (b, t', h')" by (metis prod_cases3)
  have b: "b" using put t(1) by (auto simp: ht_put_def hashtbl_add_def heap_malloc_def next_answer_def Let_def split: prod.splits)
  define p where "p = \<lparr>pg_kind = Swap_pager True, pg_size = 4096, pg_pages = t', pg_locked = False, pg_maps = []\<rparr>"
  define e where "e = wit_env fr"
  have en: "entry p q = (if q = 0 then 0x1000 else 0)" for q
    using ht_put_spec(2) [OF t(2) put, of q] b t(3) by (simp add: entry_def p_def id_key_eq_fun_def)
  have "entry_frame 0x1000 = 1" using entry_frame_shift [of 1] by (simp add: ENT_FRAME_SHIFT_def)
  then have fo: "frame_of p 0 = 1" by (simp add: frame_of_def en)
  have pt: "pg_pages p = t'" by (simp add: p_def)
  have e: "pe_frames e = fr" "pe_phys e f = zero_page" for f by (simp_all add: e_def wit_env_def)
  have "frames_sound p e" using fr fo by (auto simp: frames_sound_def en e zero_page_def)
  moreover have "frames_apart p" by (auto simp: frames_apart_def en)
  ultimately have "frames_ok (p, e)"
    using fr ht_put_spec(1) [OF t(2) put] by (simp add: frames_ok_def pt e)
  then have ok: "swap_ok (p, e)" by (auto simp: swap_ok_def p_def)
  have nf: "no_failures e" by (simp add: no_failures_def e_def wit_env_def)
  have rng: "in_range p 5 (of_nat (length [7, 8, 9 :: u8]))" by (simp add: in_range_def p_def)
  have cl: "clamp p 5 3 = 3" by (simp add: clamp_def p_def)
  have "fills 5 3 (p, e)" by (simp add: fills_def span_def pages_def en)
  then obtain r s' where w: "pager_do_rw no_driver 5 3 (Some [7, 8, 9]) (p, e) = Inr (r, s')" "fst r = 3"
    using pager_do_rw_ok [OF ok rng, of "Some [7, 8, 9]" no_driver] nf cl by auto
  then have "pager_write no_driver 5 [7, 8, 9] (p, e) = Inr (3, s')" by (cases r) (simp add: pager_write_def)
  with pager_write_read [OF ok nf rng _ this] show ?thesis by fastforce
qed

theorem pager_read_past_end_locks_witness:
  "\<exists>p e s'. pager_read no_driver 4096 1 (p, e) = Inr ((0, []), s') \<and> pager_read no_driver 0 1 s' = Inl Self_deadlock"
proof -
  obtain ht :: "(u32, u32) hashtbl" and h :: heap where "ht_ok id_key_eq_fun id_hash_fun ht" "hp_answers h = []" by (rule wit_table) blast
  let ?p = "\<lparr>pg_kind = Swap_pager True, pg_size = 4096, pg_pages = ht, pg_locked = False, pg_maps = []\<rparr>"
  show ?thesis
    using pager_read_past_end_locks [of ?p 4096 no_driver 1 "wit_env wit_frames" 0 1 "[]" "wit_env wit_frames"]
    by (simp del: split_paired_Ex) blast
qed

end
