(* ===== verification/Vfs.thy ===== *)
theory Vfs
  imports Hashtbl Proto_Fs
begin

text \<open>
  The virtual file system of src/kernel/user/vfs.c: nodes, file systems and handles are reference-counted objects in
  memory, a node keeps those of its children that are in memory in a hash table, and a path is walked one name at a
  time. The operations of a driver are function pointers in tables; a table is given by its address, and what the code
  there does is given by \<open>code\<close>, on the driver's own state and the kernel heap.

  Operations run one at a time, as the locks of the nodes make them do on each node: a lock that is found taken is
  one that the running thread holds itself, and it waits for ever. The counter \<open>v_next\<close> gives the addresses of new
  objects, so that an address is not used twice and a dangling pointer is recognised.
\<close>

section \<open>Objects\<close>

record fs_node =
  fn_refs :: int
  fn_locked :: bool
  fn_name :: "string option"
  fn_fs :: "nat option"
  fn_children :: "(string, nat) hashtbl option"
  fn_parent :: "nat option"
  fn_ops :: nat
  fn_data :: nat
  fn_pager :: "nat option"

record fs =
  fs_refs :: int
  fs_locked :: bool
  from_fs :: "nat option"
  ok_modes :: u32
  fs_ops :: nat
  fs_data :: nat
  fs_root :: nat

record fs_handle =
  fh_refs :: int
  fh_locked :: bool
  fh_fs :: "nat option"
  fh_node :: nat
  fh_mode :: u32

record dirent =
  d_name :: string
  d_st :: stat_t

text \<open>\<open>v_junk\<close>: whether the lock of a new object reads as taken before it is initialised.\<close>

record 's vfs =
  v_nodes :: "nat \<Rightarrow> fs_node option"
  v_fs :: "nat \<Rightarrow> fs option"
  v_files :: "nat \<Rightarrow> fs_handle option"
  v_next :: nat
  v_heap :: heap
  v_dev :: 's
  v_drivers :: "(string \<times> nat) list"
  v_junk :: bool

section \<open>Drivers\<close>

text \<open>The code of a driver sees the heap and its own state; a node is passed by its value.\<close>

type_synonym 's io = "heap \<times> 's"

record 's node_ops =
  op_open :: "(fs_node \<Rightarrow> u32 \<Rightarrow> 's io \<Rightarrow> (bool \<times> 's io) res) option"
  op_read :: "(fs_handle \<Rightarrow> fs_node \<Rightarrow> nat \<Rightarrow> nat \<Rightarrow> 's io \<Rightarrow> (u8 list \<times> 's io) res) option"
  op_write :: "(fs_handle \<Rightarrow> fs_node \<Rightarrow> nat \<Rightarrow> u8 list \<Rightarrow> 's io \<Rightarrow> (nat \<times> 's io) res) option"
  op_readdir :: "(fs_handle \<Rightarrow> fs_node \<Rightarrow> nat \<Rightarrow> 's io \<Rightarrow> (dirent option \<times> 's io) res) option"
  op_poll :: "(fs_handle \<Rightarrow> fs_node \<Rightarrow> 's io \<Rightarrow> ((u32 \<times> nat option) \<times> 's io) res) option"
  op_close :: "(fs_handle \<Rightarrow> fs_node \<Rightarrow> 's io \<Rightarrow> (unit \<times> 's io) res) option"
  op_stat :: "(fs_node \<Rightarrow> 's io \<Rightarrow> (stat_t option \<times> 's io) res) option"
  op_ioctl :: "(fs_handle \<Rightarrow> fs_node \<Rightarrow> int \<Rightarrow> nat \<Rightarrow> 's io \<Rightarrow> (int \<times> 's io) res) option"
  op_walk :: "(fs_node \<Rightarrow> string \<Rightarrow> fs_node \<Rightarrow> 's io \<Rightarrow> ((bool \<times> fs_node) \<times> 's io) res) option"
  op_delete :: "(fs_node \<Rightarrow> string \<Rightarrow> 's io \<Rightarrow> (bool \<times> 's io) res) option"
  op_move :: "(fs_node option \<Rightarrow> string \<Rightarrow> fs_node \<Rightarrow> string \<Rightarrow> 's io \<Rightarrow> (bool \<times> 's io) res) option"
  op_create :: "(fs_node \<Rightarrow> string \<Rightarrow> u32 \<Rightarrow> 's io \<Rightarrow> (bool \<times> 's io) res) option"
  op_dispose :: "(fs_node \<Rightarrow> 's io \<Rightarrow> (unit \<times> 's io) res) option"

record 's fs_ops_t =
  fo_add_source :: "(nat \<Rightarrow> nat option \<Rightarrow> string \<Rightarrow> 's io \<Rightarrow> (bool \<times> 's io) res) option"
  fo_shutdown :: "(nat \<Rightarrow> 's io \<Rightarrow> (unit \<times> 's io) res) option"

record 's code =
  node_ops_at :: "nat \<Rightarrow> 's node_ops"
  fs_ops_at :: "nat \<Rightarrow> 's fs_ops_t"
  make_at :: "nat \<Rightarrow> nat option \<Rightarrow> string \<Rightarrow> fs \<times> fs_node \<Rightarrow> 's io \<Rightarrow> ((bool \<times> fs \<times> fs_node) \<times> 's io) res"

definition NO_FS_OPS :: nat where "NO_FS_OPS = 1"

definition no_fs_ops :: "'s fs_ops_t" where
  "no_fs_ops = \<lparr>fo_add_source = None, fo_shutdown = None\<rparr>"

definition fs_ops_of :: "'s code \<Rightarrow> fs \<Rightarrow> 's fs_ops_t" where
  "fs_ops_of C f = (if fs_ops f = NO_FS_OPS then no_fs_ops else fs_ops_at C (fs_ops f))"

definition ops_of :: "'s code \<Rightarrow> fs_node \<Rightarrow> 's node_ops" where
  "ops_of C n = node_ops_at C (fn_ops n)"

text \<open>A call into a driver.\<close>

definition call :: "('s io \<Rightarrow> ('r \<times> 's io) res) \<Rightarrow> 's vfs \<Rightarrow> ('r \<times> 's vfs) res" where
  "call f s = rbind (f (v_heap s, v_dev s)) (\<lambda>(r, h, d). Inr (r, s\<lparr>v_heap := h, v_dev := d\<rparr>))"

definition run_op :: "('s io \<Rightarrow> (unit \<times> 's io) res) \<Rightarrow> 's vfs \<Rightarrow> 's vfs res" where
  "run_op f s = rbind (call f s) (\<lambda>(_, s'). Inr s')"

text \<open>\<open>ops->f && ops->f(...)\<close>\<close>

definition call_if :: "('f option) \<Rightarrow> ('f \<Rightarrow> 's io \<Rightarrow> (bool \<times> 's io) res) \<Rightarrow> 's vfs \<Rightarrow> (bool \<times> 's vfs) res" where
  "call_if op args s = (case op of None \<Rightarrow> Inr (False, s) | Some f \<Rightarrow> call (args f) s)"

section \<open>Memory\<close>

definition set_node :: "nat \<Rightarrow> fs_node \<Rightarrow> 's vfs \<Rightarrow> 's vfs" where
  "set_node a n s = s\<lparr>v_nodes := (v_nodes s)(a \<mapsto> n)\<rparr>"

definition new_object :: "'s vfs \<Rightarrow> nat option \<times> 's vfs" where
  "new_object s =
     (case heap_malloc (v_heap s) of (ok, h) \<Rightarrow>
        if ok then (Some (v_next s), s\<lparr>v_heap := h, v_next := v_next s + 1\<rparr>) else (None, s\<lparr>v_heap := h\<rparr>))"

definition free_block :: "'s vfs \<Rightarrow> 's vfs" where
  "free_block s = s\<lparr>v_heap := heap_free (v_heap s)\<rparr>"

definition lock_node :: "nat \<Rightarrow> 's vfs \<Rightarrow> 's vfs res" where
  "lock_node a s = rbind (deref (v_nodes s) a) (\<lambda>n.
     if fn_locked n then Inl Self_deadlock else Inr (set_node a (n\<lparr>fn_locked := True\<rparr>) s))"

definition unlock_node :: "nat \<Rightarrow> 's vfs \<Rightarrow> 's vfs res" where
  "unlock_node a s = rbind (deref (v_nodes s) a) (\<lambda>n. Inr (set_node a (n\<lparr>fn_locked := False\<rparr>) s))"

definition lock_fs :: "nat \<Rightarrow> 's vfs \<Rightarrow> 's vfs res" where
  "lock_fs a s = rbind (deref (v_fs s) a) (\<lambda>f.
     if fs_locked f then Inl Self_deadlock else Inr (s\<lparr>v_fs := (v_fs s)(a \<mapsto> f\<lparr>fs_locked := True\<rparr>)\<rparr>))"

definition unlock_fs :: "nat \<Rightarrow> 's vfs \<Rightarrow> 's vfs res" where
  "unlock_fs a s = rbind (deref (v_fs s) a) (\<lambda>f. Inr (s\<lparr>v_fs := (v_fs s)(a \<mapsto> f\<lparr>fs_locked := False\<rparr>)\<rparr>))"

section \<open>Reference counts\<close>

definition ref_fs :: "nat \<Rightarrow> 's vfs \<Rightarrow> 's vfs res" where
  "ref_fs a s =
     rbind (lock_fs a s) (\<lambda>s1. rbind (deref (v_fs s1) a) (\<lambda>f.
       unlock_fs a (s1\<lparr>v_fs := (v_fs s1)(a \<mapsto> f\<lparr>fs_refs := fs_refs f + 1\<rparr>)\<rparr>)))"

definition ref_fs_node :: "nat \<Rightarrow> 's vfs \<Rightarrow> 's vfs res" where
  "ref_fs_node a s =
     rbind (lock_node a s) (\<lambda>s1. rbind (deref (v_nodes s1) a) (\<lambda>n.
       unlock_node a (set_node a (n\<lparr>fn_refs := fn_refs n + 1\<rparr>) s1)))"

text \<open>Taking the node \<open>a\<close> off the table of its parent \<open>p\<close>.\<close>

definition remove_child :: "nat \<Rightarrow> string \<Rightarrow> 's vfs \<Rightarrow> 's vfs res" where
  "remove_child p name s =
     rbind (deref (v_nodes s) p) (\<lambda>np.
       case fn_children np of
         None \<Rightarrow> Inl Bad_access
       | Some ht \<Rightarrow>
           (case ht_del (v_heap s) ht name of (ht', h) \<Rightarrow>
              Inr ((set_node p (np\<lparr>fn_children := Some ht'\<rparr>) s)\<lparr>v_heap := h\<rparr>)))"

definition dispose_node :: "'s code \<Rightarrow> nat \<Rightarrow> 's vfs \<Rightarrow> 's vfs res" where
  "dispose_node C a s =
     rbind (deref (v_nodes s) a) (\<lambda>n.
       case op_dispose (ops_of C n) of None \<Rightarrow> Inr s | Some f \<Rightarrow> run_op (f n) s)"

text \<open>The table of children of a node that goes has to be empty.\<close>

definition drop_children :: "nat \<Rightarrow> 's vfs \<Rightarrow> 's vfs res" where
  "drop_children a s =
     rbind (deref (v_nodes s) a) (\<lambda>n.
       case fn_children n of
         None \<Rightarrow> Inr s
       | Some ht \<Rightarrow>
           rbind (rassert (hashtbl_count ht = 0)) (\<lambda>_. Inr (s\<lparr>v_heap := snd (delete_hashtbl (v_heap s) ht)\<rparr>)))"

definition free_node :: "nat \<Rightarrow> 's vfs \<Rightarrow> 's vfs res" where
  "free_node a s =
     rbind (deref (v_nodes s) a) (\<lambda>n.
       (let s1 = (if fn_name n \<noteq> None then free_block s else s)
        in Inr ((free_block s1)\<lparr>v_nodes := (v_nodes s1)(a := None)\<rparr>)))"

text \<open>
  The counts go down along the parents, and from a node to its file system. The number bounds the depth of the calls;
  when it runs out, the parents are on a cycle.
\<close>

fun unref_fs_node :: "'s code \<Rightarrow> nat \<Rightarrow> nat \<Rightarrow> 's vfs \<Rightarrow> 's vfs res"
  and unref_fs :: "'s code \<Rightarrow> nat \<Rightarrow> nat \<Rightarrow> 's vfs \<Rightarrow> 's vfs res" where
  "unref_fs_node C k a s =
     (if k = 0 then Inl Diverged
      else rbind (lock_node a s) (\<lambda>s1. rbind (deref (v_nodes s1) a) (\<lambda>n1.
        (let n = n1\<lparr>fn_refs := fn_refs n1 - 1\<rparr>;
             s2 = set_node a n s1
         in if fn_refs n = 0 then
              rbind (case fn_fs n of
                  Some f \<Rightarrow>
                    rbind (deref (v_fs s2) f) (\<lambda>ff. rbind (rassert (a \<noteq> fs_root ff)) (\<lambda>_.
                    rbind (rassert (fn_parent n \<noteq> None)) (\<lambda>_. rbind (rassert (fn_name n \<noteq> None)) (\<lambda>_.
                      (let p = the (fn_parent n)
                       in rbind (lock_node p s2) (\<lambda>s3. rbind (remove_child p (the (fn_name n)) s3) (\<lambda>s4.
                          rbind (dispose_node C a s4) (\<lambda>s5. rbind (unlock_node p s5) (\<lambda>s6.
                          rbind (unref_fs_node C (k - 1) p s6) (\<lambda>s7. rbind (unref_fs C (k - 1) f s7) (\<lambda>s8.
                            drop_children a s8))))))))))) 
                | None \<Rightarrow>
                    rbind (rassert (fn_parent n = None \<and> fn_children n = None)) (\<lambda>_. dispose_node C a s2))
                (\<lambda>s9. free_node a s9)
            else unlock_node a s2))))"
| "unref_fs C k a s =
     (if k = 0 then Inl Diverged
      else rbind (lock_fs a s) (\<lambda>s1. rbind (deref (v_fs s1) a) (\<lambda>f1.
        (let f = f1\<lparr>fs_refs := fs_refs f1 - 1\<rparr>;
             s2 = s1\<lparr>v_fs := (v_fs s1)(a \<mapsto> f)\<rparr>
         in if fs_refs f = 0 then
              rbind (if from_fs f \<noteq> None then unref_fs_node C (k - 1) (fs_root f) s2
                     else rbind (deref (v_nodes s2) (fs_root f)) (\<lambda>r.
                            rbind (rassert (fn_refs r = 1)) (\<lambda>_. dispose_node C (fs_root f) s2))) (\<lambda>s3.
              rbind (case fo_shutdown (fs_ops_of C f) of None \<Rightarrow> Inr s3 | Some g \<Rightarrow> run_op (g (fs_data f)) s3) (\<lambda>s4.
                Inr ((free_block s4)\<lparr>v_fs := (v_fs s4)(a := None)\<rparr>)))
            else unlock_fs a s2))))"

declare unref_fs_node.simps [simp del] unref_fs.simps [simp del]

text \<open>Parents are older than their children, and a file system is left last: this depth is enough.\<close>

definition depth :: "'s vfs \<Rightarrow> nat" where
  "depth s = 2 * v_next s + 2"

definition unref_node :: "'s code \<Rightarrow> nat \<Rightarrow> 's vfs \<Rightarrow> 's vfs res" where
  "unref_node C a s = unref_fs_node C (depth s) a s"

section \<open>Walking\<close>

definition find_child :: "fs_node \<Rightarrow> string \<Rightarrow> nat option" where
  "find_child n file = (case fn_children n of None \<Rightarrow> None | Some ht \<Rightarrow> hashtbl_find ht file)"

text \<open>The end of \<open>fs_walk_one\<close> on an error: \<open>disposing\<close> is the new node when the driver has filled it in.\<close>

definition walk_error :: "'s code \<Rightarrow> nat \<Rightarrow> fs_node option \<Rightarrow> bool \<Rightarrow> 's vfs \<Rightarrow> (nat option \<times> 's vfs) res" where
  "walk_error C from disposing named s =
     rbind (case disposing of
              None \<Rightarrow> Inr s
            | Some n \<Rightarrow> (case op_dispose (ops_of C n) of None \<Rightarrow> Inl Bad_access | Some f \<Rightarrow> run_op (f n) s)) (\<lambda>s1.
       (let s2 = (if named then free_block s1 else s1)
        in rbind (unlock_node from (free_block s2)) (\<lambda>s3. Inr (None, s3))))"

text \<open>The new node \<open>n\<close>, at \<open>a\<close>, is entered into the table of its parent, which is made when there is none.\<close>

definition walk_add :: "'s code \<Rightarrow> nat \<Rightarrow> nat \<Rightarrow> fs_node \<Rightarrow> 's vfs \<Rightarrow> (nat option \<times> 's vfs) res" where
  "walk_add C from a n s =
     rbind (deref (v_nodes s) from) (\<lambda>p.
       case (case fn_children p of
               Some ht \<Rightarrow> (Some ht, v_heap s)
             | None \<Rightarrow> create_hashtbl (v_heap s) str_key_eq_fun str_hash_fun False) of
         (None, h1) \<Rightarrow> walk_error C from (Some n) True (s\<lparr>v_heap := h1\<rparr>)
       | (Some ht, h1) \<Rightarrow>
           (case ht_put h1 ht (the (fn_name n)) a of (add_ok, ht', h2) \<Rightarrow>
              (let s1 = (set_node from (p\<lparr>fn_children := Some ht'\<rparr>) s)\<lparr>v_heap := h2\<rparr>
               in if \<not> add_ok then walk_error C from (Some n) True s1
                  else
                    rbind (unlock_node from (set_node a n s1)) (\<lambda>s2.
                    rbind (ref_fs_node from s2) (\<lambda>s3.
                    rbind (case fn_fs n of None \<Rightarrow> Inl Bad_access | Some f \<Rightarrow> ref_fs f s3) (\<lambda>s4.
                      Inr (Some a, s4)))))))"

definition fs_walk_one :: "'s code \<Rightarrow> nat \<Rightarrow> string \<Rightarrow> 's vfs \<Rightarrow> (nat option \<times> 's vfs) res" where
  "fs_walk_one C from file s =
     rbind (lock_node from s) (\<lambda>s1. rbind (deref (v_nodes s1) from) (\<lambda>p.
       case find_child p file of
         Some a \<Rightarrow> rbind (ref_fs_node a s1) (\<lambda>s2. rbind (unlock_node from s2) (\<lambda>s3. Inr (Some a, s3)))
       | None \<Rightarrow>
           (case new_object s1 of
              (None, s2) \<Rightarrow> rbind (unlock_node from s2) (\<lambda>s3. Inr (None, s3))
            | (Some a, s2) \<Rightarrow>
                (case strdup (v_heap s2) file of
                   (None, h) \<Rightarrow> walk_error C from None False (s2\<lparr>v_heap := h\<rparr>)
                 | (Some name, h) \<Rightarrow>
                     (let n = \<lparr>fn_refs = 1, fn_locked = False, fn_name = Some name, fn_fs = fn_fs p,
                               fn_children = None, fn_parent = Some from, fn_ops = 0, fn_data = 0, fn_pager = None\<rparr>;
                          s3 = s2\<lparr>v_heap := h\<rparr>
                      in case op_walk (ops_of C p) of
                           None \<Rightarrow> walk_error C from None True s3
                         | Some f \<Rightarrow>
                             rbind (call (f p file n) s3) (\<lambda>((walk_ok, n'), s4).
                               if walk_ok then walk_add C from a n' s4
                               else walk_error C from None True s4))))))"

text \<open>
  The walk along a path, from the node \<open>n\<close> that the walker holds a reference to. The position of the next slash is
  found by \<open>strchr\<close>; a name that is not the last one goes through a buffer of \<open>DIR_MAX\<close> bytes.
\<close>

lemma strchr_length: "strchr_from i path c = Some d \<Longrightarrow> d - i \<le> length path \<and> i \<le> d"
  by (induction i path c arbitrary: d rule: strchr_from.induct) (auto split: if_splits dest: Suc_leD)

function walk_from :: "'s code \<Rightarrow> nat \<Rightarrow> string \<Rightarrow> 's vfs \<Rightarrow> (nat option \<times> 's vfs) res" where
  "walk_from C n path s =
     (if path = [] then Inr (Some n, s)
      else if hd path = CHR ''/'' then rbind (unref_node C n s) (\<lambda>s1. Inr (None, s1))
      else (case strchr path (CHR ''/'') of
              None \<Rightarrow>
                rbind (fs_walk_one C n path s) (\<lambda>(n2, s1). rbind (unref_node C n s1) (\<lambda>s2. Inr (n2, s2)))
            | Some d \<Rightarrow>
                if d \<ge> DIR_MAX - 1 then rbind (unref_node C n s) (\<lambda>s1. Inr (None, s1))
                else
                  rbind (fs_walk_one C n (take d path) s) (\<lambda>(n2, s1). rbind (unref_node C n s1) (\<lambda>s2.
                    (case n2 of None \<Rightarrow> Inr (None, s2) | Some m \<Rightarrow> walk_from C m (drop (d + 1) path) s2)))))"
  by pat_completeness auto
termination
  by (relation "measure (\<lambda>(C, n, path, s). length path)") auto

declare walk_from.simps [simp del]

definition skip_slash :: "string \<Rightarrow> string" where
  "skip_slash path = (if path \<noteq> [] \<and> hd path = CHR ''/'' then tl path else path)"

definition fs_walk_path :: "'s code \<Rightarrow> nat \<Rightarrow> string \<Rightarrow> 's vfs \<Rightarrow> (nat option \<times> 's vfs) res" where
  "fs_walk_path C from path s = rbind (ref_fs_node from s) (walk_from C from (skip_slash (c_str path)))"

text \<open>The same without the last name, which is left in the buffer \<open>last_file_buf\<close>.\<close>

function except_last_from ::
  "'s code \<Rightarrow> nat \<Rightarrow> string \<Rightarrow> string \<Rightarrow> 's vfs \<Rightarrow> ((nat option \<times> string) \<times> 's vfs) res" where
  "except_last_from C n path buf s =
     (if path = [] then Inr ((Some n, buf), s)
      else if hd path = CHR ''/'' then rbind (unref_node C n s) (\<lambda>s1. Inr ((None, buf), s1))
      else (case strchr path (CHR ''/'') of
              None \<Rightarrow>
                if length path \<ge> DIR_MAX - 1 then rbind (unref_node C n s) (\<lambda>s1. Inr ((None, buf), s1))
                else Inr ((Some n, path), s)
            | Some d \<Rightarrow>
                if d \<ge> DIR_MAX - 1 then rbind (unref_node C n s) (\<lambda>s1. Inr ((None, buf), s1))
                else if drop (d + 1) path = [] then Inr ((Some n, take d path), s)
                else
                  rbind (fs_walk_one C n (take d path) s) (\<lambda>(n2, s1). rbind (unref_node C n s1) (\<lambda>s2.
                    (case n2 of None \<Rightarrow> Inr ((None, take d path), s2)
                     | Some m \<Rightarrow> except_last_from C m (drop (d + 1) path) (take d path) s2)))))"
  by pat_completeness auto
termination
  by (relation "measure (\<lambda>(C, n, path, buf, s). length path)") auto

declare except_last_from.simps [simp del]

definition fs_walk_path_except_last ::
  "'s code \<Rightarrow> nat \<Rightarrow> string \<Rightarrow> 's vfs \<Rightarrow> ((nat option \<times> string) \<times> 's vfs) res" where
  "fs_walk_path_except_last C from path s =
     (let p = skip_slash (c_str path)
      in if p = [] then Inr ((None, []), s)
         else rbind (ref_fs_node from s) (except_last_from C from p []))"

section \<open>Making file systems\<close>

definition register_fs_driver :: "string \<Rightarrow> nat \<Rightarrow> 's vfs \<Rightarrow> 's vfs res" where
  "register_fs_driver name ops s =
     (case heap_malloc (v_heap s) of (ok, h) \<Rightarrow>
        if ok then Inr (s\<lparr>v_heap := h, v_drivers := (name, ops) # v_drivers s\<rparr>) else Inl Assert_failed)"

text \<open>The first driver with the name; without a name, any driver when there is a source.\<close>

definition pick_driver :: "string option \<Rightarrow> nat option \<Rightarrow> (string \<times> nat) list \<Rightarrow> nat option" where
  "pick_driver drv_name source ds =
     map_option snd (List.find (\<lambda>(name, ops).
       (case drv_name of Some dn \<Rightarrow> strcmp name dn = 0 | None \<Rightarrow> source \<noteq> None)) ds)"

definition make_fs :: "'s code \<Rightarrow> string option \<Rightarrow> nat option \<Rightarrow> string \<Rightarrow> 's vfs \<Rightarrow> (nat option \<times> 's vfs) res" where
  "make_fs C drv_name source opts s =
     (case new_object s of
        (None, s1) \<Rightarrow> Inr (None, s1)
      | (Some fa, s1) \<Rightarrow>
          (case new_object s1 of
             (None, s2) \<Rightarrow> Inr (None, free_block s2)
           | (Some ra, s2) \<Rightarrow>
               (let f = \<lparr>fs_refs = 1, fs_locked = False, from_fs = None, ok_modes = FM_ALL_MODES, fs_ops = 0,
                         fs_data = 0, fs_root = ra\<rparr>;
                    r = \<lparr>fn_refs = 1, fn_locked = v_junk s2, fn_name = None, fn_fs = Some fa, fn_children = None,
                         fn_parent = None, fn_ops = 0, fn_data = 0, fn_pager = None\<rparr>
                in case pick_driver drv_name source (v_drivers s2) of
                     None \<Rightarrow> Inr (None, free_block (free_block s2))
                   | Some d \<Rightarrow>
                       rbind (call (make_at C d source opts (f, r)) s2) (\<lambda>((ok, f', r'), s3).
                         if ok then Inr (Some fa, (set_node ra r' s3)\<lparr>v_fs := (v_fs s3)(fa \<mapsto> f')\<rparr>)
                         else Inr (None, free_block (free_block s3))))))"

definition fs_subfs :: "'s code \<Rightarrow> nat \<Rightarrow> string \<Rightarrow> u32 \<Rightarrow> 's vfs \<Rightarrow> (nat option \<times> 's vfs) res" where
  "fs_subfs C fa root modes s =
     rbind (deref (v_fs s) fa) (\<lambda>f. rbind (fs_walk_path C (fs_root f) root s) (\<lambda>(new_root, s1).
       case new_root of
         None \<Rightarrow> Inr (None, s1)
       | Some r \<Rightarrow>
           (case new_object s1 of
              (None, s2) \<Rightarrow> Inr (None, s2)
            | (Some a, s2) \<Rightarrow>
                Inr (Some a, s2\<lparr>v_fs := (v_fs s2)(a \<mapsto>
                  \<lparr>fs_refs = 1, fs_locked = False, from_fs = Some fa, ok_modes = modes AND ok_modes f,
                   fs_ops = NO_FS_OPS, fs_data = 0, fs_root = r\<rparr>)\<rparr>))))"

definition fs_add_source :: "'s code \<Rightarrow> nat \<Rightarrow> nat option \<Rightarrow> string \<Rightarrow> 's vfs \<Rightarrow> (bool \<times> 's vfs) res" where
  "fs_add_source C fa source opts s =
     rbind (deref (v_fs s) fa) (\<lambda>f. call_if (fo_add_source (fs_ops_of C f)) (\<lambda>g. g (fs_data f) source opts) s)"

section \<open>Operations on paths\<close>

definition fs_create :: "'s code \<Rightarrow> nat \<Rightarrow> string \<Rightarrow> u32 \<Rightarrow> 's vfs \<Rightarrow> (bool \<times> 's vfs) res" where
  "fs_create C fa file type s =
     rbind (deref (v_fs s) fa) (\<lambda>f.
       if \<not> has_flag (ok_modes f) FM_DCREATE then Inr (False, s)
       else rbind (fs_walk_path_except_last C (fs_root f) file s) (\<lambda>((n, name), s1).
         case n of
           None \<Rightarrow> Inr (False, s1)
         | Some a \<Rightarrow>
             rbind (lock_node a s1) (\<lambda>s2. rbind (deref (v_nodes s2) a) (\<lambda>nd.
             rbind (call_if (op_create (ops_of C nd)) (\<lambda>g. g nd name type) s2) (\<lambda>(ret, s3).
             rbind (unlock_node a s3) (\<lambda>s4. rbind (unref_node C a s4) (\<lambda>s5. Inr (ret, s5))))))))"

definition fs_delete :: "'s code \<Rightarrow> nat \<Rightarrow> string \<Rightarrow> 's vfs \<Rightarrow> (bool \<times> 's vfs) res" where
  "fs_delete C fa file s =
     rbind (deref (v_fs s) fa) (\<lambda>f.
       if \<not> has_flag (ok_modes f) FM_DDELETE then Inr (False, s)
       else rbind (fs_walk_path_except_last C (fs_root f) file s) (\<lambda>((n, name), s1).
         case n of
           None \<Rightarrow> Inr (False, s1)
         | Some a \<Rightarrow>
             rbind (deref (v_nodes s1) a) (\<lambda>nd0.
               if find_child nd0 name \<noteq> None then Inr (False, s1)
               else
                 rbind (lock_node a s1) (\<lambda>s2. rbind (deref (v_nodes s2) a) (\<lambda>nd.
                 rbind (call_if (op_delete (ops_of C nd)) (\<lambda>g. g nd name) s2) (\<lambda>(ret, s3).
                 rbind (unlock_node a s3) (\<lambda>s4. rbind (unref_node C a s4) (\<lambda>s5. Inr (ret, s5)))))))))"

text \<open>
  The part of \<open>fs_move\<close> between the locks. When the node is not in memory, the driver is given the data pointer of the
  old parent in the place of a node: it must not look at it.
\<close>

definition move_locked ::
  "'s code \<Rightarrow> nat \<Rightarrow> string \<Rightarrow> nat \<Rightarrow> string \<Rightarrow> 's vfs \<Rightarrow> (bool \<times> 's vfs) res" where
  "move_locked C old_parent old_name new_parent new_name s =
     rbind (deref (v_nodes s) old_parent) (\<lambda>op. rbind (deref (v_nodes s) new_parent) (\<lambda>np.
       case op_move (ops_of C op) of
         None \<Rightarrow> Inl Bad_access
       | Some mv \<Rightarrow>
           (case find_child op old_name of
              None \<Rightarrow> call (mv None old_name np new_name) s
            | Some x \<Rightarrow>
                rbind (lock_node x s) (\<lambda>s1.
                rbind (case strdup (v_heap s1) new_name of
                    (None, h) \<Rightarrow> Inr (False, s1\<lparr>v_heap := h\<rparr>)
                  | (Some dup, h) \<Rightarrow>
                      rbind (deref (v_nodes s1) new_parent) (\<lambda>np1.
                        case fn_children np1 of
                          None \<Rightarrow> Inl Bad_access
                        | Some ht \<Rightarrow>
                            (case ht_put h ht dup x of (add_ok, ht', h2) \<Rightarrow>
                               (let s2 = (set_node new_parent (np1\<lparr>fn_children := Some ht'\<rparr>) s1)\<lparr>v_heap := h2\<rparr>
                                in if \<not> add_ok then Inr (False, free_block s2)
                                   else
                                     rbind (deref (v_nodes s2) old_parent) (\<lambda>op2. rbind (deref (v_nodes s2) new_parent) (\<lambda>np2.
                                     rbind (call (mv (Some op2) old_name np2 new_name) s2) (\<lambda>(ret, s3).
                                       if ret then
                                         rbind (remove_child old_parent old_name s3) (\<lambda>s4.
                                         rbind (deref (v_nodes s4) x) (\<lambda>nx.
                                           Inr (True, set_node x (nx\<lparr>fn_name := Some dup, fn_parent := Some new_parent\<rparr>)
                                                        (free_block s4))))
                                       else
                                         rbind (remove_child new_parent dup s3) (\<lambda>s4. Inr (False, free_block s4))))))))) (\<lambda>(ret, s5).
                rbind (unlock_node x s5) (\<lambda>s6. Inr (ret, s6)))))))"

definition fs_move :: "'s code \<Rightarrow> nat \<Rightarrow> string \<Rightarrow> string \<Rightarrow> 's vfs \<Rightarrow> (bool \<times> 's vfs) res" where
  "fs_move C fa from to s =
     rbind (deref (v_fs s) fa) (\<lambda>f.
       if \<not> has_flag (ok_modes f) FM_DMOVE then Inr (False, s)
       else rbind (fs_walk_path_except_last C (fs_root f) from s) (\<lambda>((n, old_name), s1).
         case n of
           None \<Rightarrow> Inr (False, s1)
         | Some old_parent \<Rightarrow>
             rbind (fs_walk_path_except_last C (fs_root f) to s1) (\<lambda>((n2, new_name), s2).
               case n2 of
                 None \<Rightarrow> rbind (unref_node C old_parent s2) (\<lambda>s3. Inr (False, s3))
               | Some new_parent \<Rightarrow>
                   rbind (deref (v_nodes s2) old_parent) (\<lambda>op.
                   rbind (if op_move (ops_of C op) = None then Inr (False, s2)
                          else
                            rbind (lock_node old_parent s2) (\<lambda>s3. rbind (lock_node new_parent s3) (\<lambda>s4.
                            rbind (move_locked C old_parent old_name new_parent new_name s4) (\<lambda>(ret, s5).
                            rbind (unlock_node old_parent s5) (\<lambda>s6. rbind (unlock_node new_parent s6) (\<lambda>s7.
                              Inr (ret, s7))))))) (\<lambda>(ret, s8).
                   rbind (unref_node C old_parent s8) (\<lambda>s9. rbind (unref_node C new_parent s9) (\<lambda>s10.
                     Inr (ret, s10))))))))"

definition fs_stat :: "'s code \<Rightarrow> nat \<Rightarrow> string \<Rightarrow> 's vfs \<Rightarrow> (stat_t option \<times> 's vfs) res" where
  "fs_stat C fa file s =
     rbind (deref (v_fs s) fa) (\<lambda>f. rbind (fs_walk_path C (fs_root f) file s) (\<lambda>(n, s1).
       case n of
         None \<Rightarrow> Inr (None, s1)
       | Some a \<Rightarrow>
           rbind (lock_node a s1) (\<lambda>s2. rbind (deref (v_nodes s2) a) (\<lambda>nd.
           rbind (case op_stat (ops_of C nd) of None \<Rightarrow> Inr (None, s2) | Some g \<Rightarrow> call (g nd) s2) (\<lambda>(st, s3).
           rbind (unlock_node a s3) (\<lambda>s4. rbind (unref_node C a s4) (\<lambda>s5. Inr (st, s5))))))))"

section \<open>Handles\<close>

definition open_node :: "'s code \<Rightarrow> nat \<Rightarrow> nat \<Rightarrow> u32 \<Rightarrow> 's vfs \<Rightarrow> (nat option \<times> 's vfs) res" where
  "open_node C fa a mode0 s =
     rbind (lock_node a s) (\<lambda>s1.
       (let mode = mode0 AND NOT FM_CREATE
        in case new_object s1 of
             (None, s2) \<Rightarrow> rbind (unlock_node a s2) (\<lambda>s3. rbind (unref_node C a s3) (\<lambda>s4. Inr (None, s4)))
           | (Some h, s2) \<Rightarrow>
               rbind (deref (v_nodes s2) a) (\<lambda>n.
                 case op_open (ops_of C n) of
                   None \<Rightarrow> Inl Bad_access
                 | Some g \<Rightarrow>
                     rbind (call (g n mode) s2) (\<lambda>(open_ok, s3).
                       if \<not> open_ok then
                         rbind (unlock_node a s3) (\<lambda>s4. rbind (unref_node C a s4) (\<lambda>s5. Inr (None, free_block s5)))
                       else
                         rbind (unlock_node a (s3\<lparr>v_files := (v_files s3)(h \<mapsto>
                             \<lparr>fh_refs = 1, fh_locked = False, fh_fs = Some fa, fh_node = a, fh_mode = mode\<rparr>)\<rparr>)) (\<lambda>s4.
                         rbind (ref_fs fa s4) (\<lambda>s5. Inr (Some h, s5)))))))"

definition fs_open :: "'s code \<Rightarrow> nat \<Rightarrow> string \<Rightarrow> u32 \<Rightarrow> 's vfs \<Rightarrow> (nat option \<times> 's vfs) res" where
  "fs_open C fa file mode s =
     rbind (deref (v_fs s) fa) (\<lambda>f.
       if beyond mode (ok_modes f) then Inr (None, s)
       else
         rbind (fs_walk_path C (fs_root f) file s) (\<lambda>(n1, s1).
         rbind (if n1 = None \<and> has_flag mode FM_CREATE then
                  rbind (fs_create C fa file FT_REGULAR s1) (\<lambda>(created, s2).
                    if created then fs_walk_path C (fs_root f) file s2 else Inr (None, s2))
                else Inr (n1, s1)) (\<lambda>(n, s3).
           case n of None \<Rightarrow> Inr (None, s3) | Some a \<Rightarrow> open_node C fa a mode s3)))"

definition ref_file :: "nat \<Rightarrow> 's vfs \<Rightarrow> 's vfs res" where
  "ref_file h s =
     rbind (deref (v_files s) h) (\<lambda>fh.
       if fh_locked fh then Inl Self_deadlock
       else Inr (s\<lparr>v_files := (v_files s)(h \<mapsto> fh\<lparr>fh_refs := fh_refs fh + 1\<rparr>)\<rparr>))"

definition unref_file :: "'s code \<Rightarrow> nat \<Rightarrow> 's vfs \<Rightarrow> 's vfs res" where
  "unref_file C h s =
     rbind (deref (v_files s) h) (\<lambda>fh0.
       if fh_locked fh0 then Inl Self_deadlock
       else
         (let fh = fh0\<lparr>fh_refs := fh_refs fh0 - 1\<rparr>;
              s1 = s\<lparr>v_files := (v_files s)(h \<mapsto> fh)\<rparr>
          in if fh_refs fh = 0 then
               rbind (deref (v_nodes s1) (fh_node fh)) (\<lambda>n.
               rbind (case op_close (ops_of C n) of None \<Rightarrow> Inr s1 | Some g \<Rightarrow> run_op (g fh n) s1) (\<lambda>s2.
               rbind (unref_node C (fh_node fh) s2) (\<lambda>s3.
               rbind (case fh_fs fh of None \<Rightarrow> Inr s3 | Some fa \<Rightarrow> unref_fs C (depth s3) fa s3) (\<lambda>s4.
                 Inr ((free_block s4)\<lparr>v_files := (v_files s4)(h := None)\<rparr>)))))
             else Inr s1))"

text \<open>The handle and the node a call on a handle works with.\<close>

definition on_file :: "nat \<Rightarrow> 's vfs \<Rightarrow> (fs_handle \<times> fs_node) res" where
  "on_file h s = rbind (deref (v_files s) h) (\<lambda>fh. rbind (deref (v_nodes s) (fh_node fh)) (\<lambda>n. Inr (fh, n)))"

definition file_read :: "'s code \<Rightarrow> nat \<Rightarrow> nat \<Rightarrow> nat \<Rightarrow> 's vfs \<Rightarrow> (u8 list \<times> 's vfs) res" where
  "file_read C h offset len s =
     (if len = 0 then Inr ([], s)
      else rbind (on_file h s) (\<lambda>(fh, n).
        if \<not> has_flag (fh_mode fh) FM_READ then Inr ([], s)
        else (case op_read (ops_of C n) of None \<Rightarrow> Inr ([], s) | Some g \<Rightarrow> call (g fh n offset len) s)))"

definition file_write :: "'s code \<Rightarrow> nat \<Rightarrow> nat \<Rightarrow> u8 list \<Rightarrow> 's vfs \<Rightarrow> (nat \<times> 's vfs) res" where
  "file_write C h offset buf s =
     (if buf = [] then Inr (0, s)
      else rbind (on_file h s) (\<lambda>(fh, n).
        if \<not> has_flag (fh_mode fh) FM_WRITE then Inr (0, s)
        else (case op_write (ops_of C n) of None \<Rightarrow> Inr (0, s) | Some g \<Rightarrow> call (g fh n offset buf) s)))"

definition file_stat :: "'s code \<Rightarrow> nat \<Rightarrow> 's vfs \<Rightarrow> (stat_t option \<times> 's vfs) res" where
  "file_stat C h s =
     rbind (on_file h s) (\<lambda>(fh, n).
       case op_stat (ops_of C n) of None \<Rightarrow> Inr (None, s) | Some g \<Rightarrow> call (g n) s)"

definition file_ioctl :: "'s code \<Rightarrow> nat \<Rightarrow> int \<Rightarrow> nat \<Rightarrow> 's vfs \<Rightarrow> (int \<times> 's vfs) res" where
  "file_ioctl C h command arg s =
     rbind (on_file h s) (\<lambda>(fh, n).
       if \<not> has_flag (fh_mode fh) FM_IOCTL then Inr (-1, s)
       else (case op_ioctl (ops_of C n) of None \<Rightarrow> Inr (-1, s) | Some g \<Rightarrow> call (g fh n command arg) s))"

definition file_readdir :: "'s code \<Rightarrow> nat \<Rightarrow> nat \<Rightarrow> 's vfs \<Rightarrow> (dirent option \<times> 's vfs) res" where
  "file_readdir C h ent_no s =
     rbind (on_file h s) (\<lambda>(fh, n).
       if \<not> has_flag (fh_mode fh) FM_READDIR then Inr (None, s)
       else (case op_readdir (ops_of C n) of None \<Rightarrow> Inr (None, s) | Some g \<Rightarrow> call (g fh n ent_no) s))"

definition file_poll :: "'s code \<Rightarrow> nat \<Rightarrow> 's vfs \<Rightarrow> ((u32 \<times> nat option) \<times> 's vfs) res" where
  "file_poll C h s =
     rbind (on_file h s) (\<lambda>(fh, n).
       case op_poll (ops_of C n) of None \<Rightarrow> Inr ((0, None), s) | Some g \<Rightarrow> call (g fh n) s)"

end
