(* ===== verification/Vfs_Inv.thy ===== *)
theory Vfs_Inv
  imports Vfs
begin

text \<open>
  The reference counts of the virtual file system: every node in memory counts the children in memory, the open
  handles and the file systems that point to it, and the references the running operation holds. The contract of a
  driver is the locale \<open>vfs_driver\<close>.
\<close>

section \<open>Counting\<close>

text \<open>What the place of a node depends on: its parent and its name.\<close>

definition kin :: "(nat \<Rightarrow> fs_node option) \<Rightarrow> nat \<Rightarrow> (nat option \<times> string option) option" where
  "kin M b = map_option (\<lambda>n. (fn_parent n, fn_name n)) (M b)"

definition nchild :: "(nat \<Rightarrow> (nat option \<times> string option) option) \<Rightarrow> nat \<Rightarrow> nat" where
  "nchild K a = card {b. \<exists>nm. K b = Some (Some a, nm)}"

definition nhand :: "(nat \<Rightarrow> fs_handle option) \<Rightarrow> nat \<Rightarrow> nat" where
  "nhand H a = card {h. \<exists>f. H h = Some f \<and> fh_node f = a}"

definition nroot :: "(nat \<Rightarrow> fs option) \<Rightarrow> nat \<Rightarrow> nat" where
  "nroot F a = card {f. \<exists>ff. F f = Some ff \<and> fs_root ff = a}"

definition fsnodes :: "(nat \<Rightarrow> fs_node option) \<Rightarrow> nat \<Rightarrow> nat" where
  "fsnodes M f = card {b. \<exists>n. M b = Some n \<and> fn_parent n \<noteq> None \<and> fn_fs n = Some f}"

definition fshand :: "(nat \<Rightarrow> fs_handle option) \<Rightarrow> nat \<Rightarrow> nat" where
  "fshand H f = card {h. \<exists>fh. H h = Some fh \<and> fh_fs fh = Some f}"

text \<open>Adding or taking away one element of a counted set.\<close>

lemma finite_below: "(\<And>a. P a \<Longrightarrow> a < (k :: nat)) \<Longrightarrow> finite {a. P a}"
  by (rule finite_subset [of _ "{..< k}"]) auto

lemma card_add_one:
  assumes "finite {b. P b}" and "\<not> P a" and "\<And>b. Q b \<longleftrightarrow> P b \<or> b = a"
  shows "card {b. Q b} = card {b. P b} + 1"
proof -
  have "{b. Q b} = insert a {b. P b}" using assms(3) by auto
  with assms(1,2) show ?thesis by simp
qed

lemma card_pos_ex: "P a \<Longrightarrow> finite {b. P b} \<Longrightarrow> 1 \<le> card {b. P b}"
  by (metis (mono_tags) One_nat_def Suc_leI card_gt_0_iff empty_iff mem_Collect_eq)

lemma card_less_one:
  assumes "finite {b. P b}" and "P a" and "\<And>b. Q b \<longleftrightarrow> P b \<and> b \<noteq> a"
  shows "card {b. P b} = card {b. Q b} + 1"
proof (rule card_add_one)
  show "finite {b. Q b}" by (rule finite_subset [OF _ assms(1)]) (use assms(3) in auto)
qed (use assms(2,3) in auto)

lemma kin_Some: "kin M b = Some (p, nm) \<longleftrightarrow> (\<exists>n. M b = Some n \<and> fn_parent n = p \<and> fn_name n = nm)"
  by (auto simp: kin_def)

lemma kin_upd: "kin (M(a \<mapsto> n)) = (kin M)(a \<mapsto> (fn_parent n, fn_name n))"
  by (auto simp: kin_def fun_eq_iff)

lemma kin_del: "kin (M(a := None)) = (kin M)(a := None)"
  by (auto simp: kin_def fun_eq_iff)

lemma kin_same: "M a = Some n \<Longrightarrow> fn_parent n' = fn_parent n \<Longrightarrow> fn_name n' = fn_name n \<Longrightarrow> kin (M(a \<mapsto> n')) = kin M"
  by (auto simp: kin_def fun_eq_iff)

lemma fsnodes_same:
  "M a = Some n \<Longrightarrow> fn_parent n' = fn_parent n \<Longrightarrow> fn_fs n' = fn_fs n \<Longrightarrow> fsnodes (M(a \<mapsto> n')) f = fsnodes M f"
  unfolding fsnodes_def by (rule arg_cong [where f = card]) auto

section \<open>Runs without a fault\<close>

definition ends :: "'a res \<Rightarrow> ('a \<Rightarrow> bool) \<Rightarrow> bool" where
  "ends r P = (case r of Inl _ \<Rightarrow> False | Inr x \<Rightarrow> P x)"

lemma ends_Inr [simp]: "ends (Inr x) P = P x"
  by (simp add: ends_def)

lemma rbind_assoc: "rbind (rbind r f) g = rbind r (\<lambda>x. rbind (f x) g)"
  by (cases r) simp_all

lemma ends_rbind: "ends r P \<Longrightarrow> (\<And>x. P x \<Longrightarrow> ends (f x) Q) \<Longrightarrow> ends (rbind r f) Q"
  by (cases r) (simp_all add: ends_def)

lemma ends_mono: "ends r P \<Longrightarrow> (\<And>x. P x \<Longrightarrow> Q x) \<Longrightarrow> ends r Q"
  by (cases r) (simp_all add: ends_def)

lemma ends_iff: "ends r P \<longleftrightarrow> (\<exists>x. r = Inr x \<and> P x)"
  by (cases r) (simp_all add: ends_def)

section \<open>The invariant\<close>

definition key :: "fs_node \<Rightarrow> nat \<times> nat \<times> nat option" where
  "key n = (fn_ops n, fn_data n, fn_pager n)"

definition bare_fs :: "fs \<Rightarrow> fs" where
  "bare_fs f = f\<lparr>fs_refs := 0\<rparr>"

text \<open>
  What a call leaves alone: the handles in memory and those that count, the file systems but for their counts, and the
  nodes that are being destroyed, that count no more.
\<close>

record cx =
  c_files :: "nat \<Rightarrow> fs_handle option"
  c_hand :: "nat \<Rightarrow> fs_handle option"
  c_fs :: "nat \<Rightarrow> fs option"
  c_dying :: "nat \<Rightarrow> fs_node option"

definition live :: "'s vfs \<Rightarrow> cx \<Rightarrow> nat \<Rightarrow> fs_node option" where
  "live s x = (\<lambda>a. if c_dying x a = None then v_nodes s a else None)"

definition children_ok :: "(nat \<Rightarrow> (nat option \<times> string option) option) \<Rightarrow> nat \<Rightarrow> fs_node \<Rightarrow> bool" where
  "children_ok K a n \<longleftrightarrow>
     (case fn_children n of
        None \<Rightarrow> \<forall>b nm. K b \<noteq> Some (Some a, nm)
      | Some ht \<Rightarrow> ht_ok str_key_eq_fun str_hash_fun ht
          \<and> (\<forall>k b. hashtbl_find ht k = Some b \<longleftrightarrow> (\<exists>nm. K b = Some (Some a, Some nm) \<and> str_key_eq_fun nm k)))"

definition place_ok :: "(nat \<Rightarrow> fs option) \<Rightarrow> (nat \<Rightarrow> fs_node option) \<Rightarrow> nat \<Rightarrow> fs_node \<Rightarrow> bool" where
  "place_ok F M a n \<longleftrightarrow>
     (\<exists>f ff. fn_fs n = Some f \<and> F f = Some ff
       \<and> (case fn_parent n of
            None \<Rightarrow> fs_root ff = a
          | Some p \<Rightarrow> p < a \<and> (\<forall>g gg. F g = Some gg \<longrightarrow> fs_root gg \<noteq> a) \<and> fn_name n \<noteq> None \<and> (\<exists>np. M p = Some np \<and> fn_fs np = fn_fs n)))"

definition refs_ok :: "cx \<Rightarrow> (nat \<Rightarrow> fs_node option) \<Rightarrow> (nat \<Rightarrow> nat) \<Rightarrow> nat \<Rightarrow> fs_node \<Rightarrow> bool" where
  "refs_ok x M E a n \<longleftrightarrow>
     fn_refs n = int (E a + nchild (kin M) a + nhand (c_hand x) a + nroot (c_fs x) a) \<and> 1 \<le> fn_refs n"

definition fs_ok :: "cx \<Rightarrow> (nat \<Rightarrow> fs_node option) \<Rightarrow> (nat \<Rightarrow> nat) \<Rightarrow> nat \<Rightarrow> fs \<Rightarrow> bool" where
  "fs_ok x M G f ff \<longleftrightarrow>
     \<not> fs_locked ff \<and> fs_refs ff = int (G f + fsnodes M f + fshand (c_hand x) f) \<and> 1 \<le> fs_refs ff
     \<and> M (fs_root ff) \<noteq> None"

definition handle_ok :: "cx \<Rightarrow> (nat \<Rightarrow> fs_node option) \<Rightarrow> fs_handle \<Rightarrow> bool" where
  "handle_ok x M fh \<longleftrightarrow>
     \<not> fh_locked fh \<and> 1 \<le> fh_refs fh \<and> M (fh_node fh) \<noteq> None \<and> (\<exists>f. fh_fs fh = Some f \<and> c_fs x f \<noteq> None)"

text \<open>The contract of a driver: its operations keep its state in order, and what they have given for a node stays good.\<close>

locale vfs_driver =
  fixes C :: "'s code"
    and dinv :: "'s \<Rightarrow> bool"
    and good :: "nat \<times> nat \<times> nat option \<Rightarrow> 's \<Rightarrow> bool"
  assumes has_open: "good (key n) d \<Longrightarrow> op_open (ops_of C n) \<noteq> None"
    and has_dispose: "good (key n) d \<Longrightarrow> op_dispose (ops_of C n) \<noteq> None"
    and open_ok: "dinv d \<Longrightarrow> good (key n) d \<Longrightarrow> op_open (ops_of C n) = Some g \<Longrightarrow>
      ends (g n mode (h, d)) (\<lambda>(r, h', d'). dinv d' \<and> (\<forall>k. good k d \<longrightarrow> good k d'))"
    and stat_ok: "dinv d \<Longrightarrow> good (key n) d \<Longrightarrow> op_stat (ops_of C n) = Some g2 \<Longrightarrow>
      ends (g2 n (h, d)) (\<lambda>(r, h', d'). dinv d' \<and> (\<forall>k. good k d \<longrightarrow> good k d'))"
    and create_ok: "dinv d \<Longrightarrow> good (key n) d \<Longrightarrow> op_create (ops_of C n) = Some g3 \<Longrightarrow>
      ends (g3 n name type (h, d)) (\<lambda>(r, h', d'). dinv d' \<and> (\<forall>k. good k d \<longrightarrow> good k d'))"
    and close_ok: "dinv d \<Longrightarrow> good (key n) d \<Longrightarrow> op_close (ops_of C n) = Some g4 \<Longrightarrow>
      ends (g4 fh n (h, d)) (\<lambda>(r, h', d'). dinv d' \<and> (\<forall>k. good k d \<longrightarrow> good k d'))"
    and dispose_ok: "dinv d \<Longrightarrow> good (key n) d \<Longrightarrow> op_dispose (ops_of C n) = Some g5 \<Longrightarrow>
      ends (g5 n (h, d)) (\<lambda>(r, h', d'). dinv d' \<and> (\<forall>k. good k d \<longrightarrow> good k d'))"
    and walk_ok: "dinv d \<Longrightarrow> good (key n) d \<Longrightarrow> op_walk (ops_of C n) = Some g6 \<Longrightarrow>
      ends (g6 n file n0 (h, d)) (\<lambda>((ok, n'), h', d'). dinv d' \<and> (\<forall>k. good k d \<longrightarrow> good k d')
        \<and> (ok \<longrightarrow> (\<exists>o' dt pg. n' = n0\<lparr>fn_ops := o', fn_data := dt, fn_pager := pg\<rparr> \<and> good (o', dt, pg) d')))"
begin

text \<open>
  \<open>E\<close> and \<open>G\<close> are the references to nodes and to file systems that are held from outside, \<open>L\<close> the locked nodes.
\<close>

definition vinv :: "cx \<Rightarrow> 's vfs \<Rightarrow> (nat \<Rightarrow> nat) \<Rightarrow> (nat \<Rightarrow> nat) \<Rightarrow> nat set \<Rightarrow> bool" where
  "vinv x s E G L \<longleftrightarrow>
     v_files s = c_files x \<and> (\<forall>f. map_option bare_fs (v_fs s f) = c_fs x f) \<and> dinv (v_dev s)
     \<and> (\<forall>a. v_nodes s a \<noteq> None \<or> v_fs s a \<noteq> None \<or> c_hand x a \<noteq> None \<longrightarrow> a < v_next s)
     \<and> (\<forall>a n. c_dying x a = Some n \<longrightarrow> v_nodes s a = Some n)
     \<and> (\<forall>a n. live s x a = Some n \<longrightarrow> refs_ok x (live s x) E a n \<and> (fn_locked n \<longleftrightarrow> a \<in> L) \<and> good (key n) (v_dev s)
          \<and> children_ok (kin (live s x)) a n \<and> place_ok (c_fs x) (live s x) a n)
     \<and> (\<forall>f ff. v_fs s f = Some ff \<longrightarrow> fs_ok x (live s x) G f ff)
     \<and> (\<forall>h fh. c_hand x h = Some fh \<longrightarrow> handle_ok x (live s x) fh)
     \<and> (\<forall>a. 0 < E a \<longrightarrow> live s x a \<noteq> None)"

lemma vinvD:
  assumes "vinv x s E G L"
  shows vinv_files: "v_files s = c_files x" and vinv_fss: "map_option bare_fs (v_fs s f) = c_fs x f"
    and vinv_dev: "dinv (v_dev s)"
    and vinv_below: "v_nodes s a \<noteq> None \<or> v_fs s a \<noteq> None \<or> c_hand x a \<noteq> None \<Longrightarrow> a < v_next s"
    and vinv_dying: "c_dying x a = Some n \<Longrightarrow> v_nodes s a = Some n"
    and vinv_refs: "live s x a = Some n \<Longrightarrow> refs_ok x (live s x) E a n"
    and vinv_locked: "live s x a = Some n \<Longrightarrow> fn_locked n \<longleftrightarrow> a \<in> L"
    and vinv_good: "live s x a = Some n \<Longrightarrow> good (key n) (v_dev s)"
    and vinv_children: "live s x a = Some n \<Longrightarrow> children_ok (kin (live s x)) a n"
    and vinv_place: "live s x a = Some n \<Longrightarrow> place_ok (c_fs x) (live s x) a n"
    and vinv_fs: "v_fs s f = Some ff \<Longrightarrow> fs_ok x (live s x) G f ff"
    and vinv_hand: "c_hand x h = Some fh \<Longrightarrow> handle_ok x (live s x) fh"
    and vinv_held: "0 < E a \<Longrightarrow> live s x a \<noteq> None"
  using assms unfolding vinv_def by blast+

lemma vinvI:
  assumes "v_files s = c_files x" and "\<And>f. map_option bare_fs (v_fs s f) = c_fs x f" and "dinv (v_dev s)"
    and "\<And>a. v_nodes s a \<noteq> None \<or> v_fs s a \<noteq> None \<or> c_hand x a \<noteq> None \<Longrightarrow> a < v_next s"
    and "\<And>a n. c_dying x a = Some n \<Longrightarrow> v_nodes s a = Some n"
    and "\<And>a n. live s x a = Some n \<Longrightarrow> refs_ok x (live s x) E a n \<and> (fn_locked n \<longleftrightarrow> a \<in> L) \<and> good (key n) (v_dev s)
          \<and> children_ok (kin (live s x)) a n \<and> place_ok (c_fs x) (live s x) a n"
    and "\<And>f ff. v_fs s f = Some ff \<Longrightarrow> fs_ok x (live s x) G f ff"
    and "\<And>h fh. c_hand x h = Some fh \<Longrightarrow> handle_ok x (live s x) fh"
    and "\<And>a. 0 < E a \<Longrightarrow> live s x a \<noteq> None"
  shows "vinv x s E G L"
  using assms unfolding vinv_def by blast

end

lemma live_Some: "live s x a = Some n \<longleftrightarrow> c_dying x a = None \<and> v_nodes s a = Some n"
  by (simp add: live_def)

context vfs_driver
begin

lemma live_below: "vinv x s E G L \<Longrightarrow> live s x a = Some n \<Longrightarrow> a < v_next s"
  using vinv_below by (fastforce simp: live_Some)

lemma finite_nodes: "vinv x s E G L \<Longrightarrow> finite {b. \<exists>n. live s x b = Some n \<and> P b n}"
  by (rule finite_below [of _ "v_next s"]) (auto dest: live_below)

lemma finite_files: "vinv x s E G L \<Longrightarrow> finite {h. \<exists>f. c_hand x h = Some f \<and> P f}"
  by (rule finite_below [of _ "v_next s"]) (use vinv_below in fastforce)

lemma finite_fs: "vinv x s E G L \<Longrightarrow> finite {h. \<exists>f. c_fs x h = Some f \<and> P f}"
  by (rule finite_below [of _ "v_next s"]) (metis (mono_tags) map_option_is_None option.distinct(1) vinv_below vinv_fss)

text \<open>Nothing but the heap, the driver and the free addresses have changed.\<close>

lemma vinv_step:
  assumes inv: "vinv x s E G L"
    and same: "v_nodes s' = v_nodes s" "v_fs s' = v_fs s" "v_files s' = v_files s" "v_next s \<le> v_next s'"
    and dev: "dinv (v_dev s')" "\<And>k. good k (v_dev s) \<Longrightarrow> good k (v_dev s')"
  shows "vinv x s' E G L"
proof -
  have l: "live s' x = live s x" by (simp add: live_def same(1) fun_eq_iff)
  show ?thesis
    by (rule vinvI, unfold l same(1-3))
      (use vinvD [OF inv] dev same(4) in \<open>(blast | meson less_le_trans)+\<close>)
qed

text \<open>A node is changed in its count, its lock or its table.\<close>

lemma vinv_set_node:
  assumes inv: "vinv x s E G L" and a: "live s x a = Some n"
    and same: "fn_parent n' = fn_parent n" "fn_fs n' = fn_fs n" "fn_name n' = fn_name n" "key n' = key n"
    and ch: "children_ok (kin (live s x)) a n'"
    and refs: "fn_refs n' = fn_refs n + int e' - int (E a)" "1 \<le> fn_refs n'"
    and s': "v_nodes s' = (v_nodes s)(a \<mapsto> n')" "v_fs s' = v_fs s" "v_files s' = v_files s" "v_next s \<le> v_next s'"
    and dev: "dinv (v_dev s')" "\<And>k. good k (v_dev s) \<Longrightarrow> good k (v_dev s')"
  shows "vinv x s' (E(a := e')) G (if fn_locked n' then insert a L else L - {a})"
proof -
  have az: "c_dying x a = None" using a by (simp add: live_Some)
  define M where "M = live s x"
  define M' where "M' = M(a \<mapsto> n')"
  have M': "live s' x = M'" using az by (auto simp: live_def s'(1) M'_def M_def fun_eq_iff)
  have Ma: "M a = Some n" using a by (simp add: M_def)
  have kin: "kin M' = kin M" unfolding M'_def using same(1,3) by (rule kin_same [of M a n n', OF Ma])
  have nf: "fsnodes M' f = fsnodes M f" for f
    unfolding M'_def using same(1,2) by (rule fsnodes_same [of M a n n' f, OF Ma])
  have po: "place_ok F M' b m \<longleftrightarrow> place_ok F M b m" for F b m
  proof -
    have "(\<exists>np. M' p = Some np \<and> fn_fs np = y) \<longleftrightarrow> (\<exists>np. M p = Some np \<and> fn_fs np = y)" for p y
      using Ma same by (auto simp: M'_def)
    then show ?thesis unfolding place_ok_def by (simp split: option.split)
  qed
  have dom: "M' y \<noteq> None \<longleftrightarrow> M y \<noteq> None" for y using Ma by (simp add: M'_def)
  show ?thesis
  proof (rule vinvI, unfold M')
    fix b m assume b: "M' b = Some m"
    show "refs_ok x M' (E(a := e')) b m \<and> (fn_locked m \<longleftrightarrow> b \<in> (if fn_locked n' then insert a L else L - {a}))
        \<and> good (key m) (v_dev s') \<and> children_ok (kin M') b m \<and> place_ok (c_fs x) M' b m"
    proof (cases "b = a")
      case True
      with b have m: "m = n'" by (simp add: M'_def)
      have o: "refs_ok x M E a n" "good (key n) (v_dev s)" "place_ok (c_fs x) M a n"
        using vinvD [OF inv] a by (simp_all add: M_def)
      have "place_ok (c_fs x) M a n'" using o(3) unfolding place_ok_def same(1-3) .
      then show ?thesis
        unfolding True m kin po refs_ok_def using o(1,2) refs same(4) ch dev(2) by (simp add: M_def refs_ok_def)
    next
      case False
      with b have b': "live s x b = Some m" by (simp add: M'_def M_def)
      then show ?thesis
        unfolding kin po refs_ok_def
        using vinv_refs [OF inv b'] vinv_locked [OF inv b'] vinv_good [OF inv b'] vinv_children [OF inv b']
          vinv_place [OF inv b'] False dev(2) by (simp add: M_def refs_ok_def)
    qed
  next
    fix f ff assume "v_fs s' f = Some ff"
    then have "fs_ok x M G f ff" using vinv_fs [OF inv] s'(2) by (simp add: M_def)
    then show "fs_ok x M' G f ff" unfolding fs_ok_def nf dom .
  next
    fix h fh assume "c_hand x h = Some fh"
    then have "handle_ok x M fh" using vinv_hand [OF inv] by (simp add: M_def)
    then show "handle_ok x M' fh" unfolding handle_ok_def dom .
  next
    fix b assume "v_nodes s' b \<noteq> None \<or> v_fs s' b \<noteq> None \<or> c_hand x b \<noteq> None"
    then show "b < v_next s'"
      using vinv_below [OF inv, of b] live_below [OF inv a] s' by (auto split: if_splits)
  next
    fix b m assume "c_dying x b = Some m"
    then show "v_nodes s' b = Some m" using vinv_dying [OF inv] az by (auto simp: s'(1))
  next
    fix b assume "0 < (E(a := e')) b"
    then show "M' b \<noteq> None" using vinv_held [OF inv, of b] by (auto simp: M'_def M_def split: if_splits)
  qed (use vinvD [OF inv] s' dev in auto)
qed

end

end
