(* ===== verification/Vfs_Refs.thy ===== *)
theory Vfs_Refs
  imports Vfs_Inv
begin

text \<open>
  Taking and giving back references: the counts go up and down by one, and a node whose count falls to zero leaves its
  parent, gives back its own references and is freed.
\<close>

lemma children_ok_fields [simp]:
  "children_ok K a (n\<lparr>fn_locked := b\<rparr>) = children_ok K a n" "children_ok K a (n\<lparr>fn_refs := r\<rparr>) = children_ok K a n"
  by (simp_all add: children_ok_def)

lemma key_fields [simp]:
  "key (n\<lparr>fn_locked := b\<rparr>) = key n" "key (n\<lparr>fn_refs := r\<rparr>) = key n" "key (n\<lparr>fn_children := c\<rparr>) = key n"
  by (simp_all add: key_def)

lemma set_node_simps [simp]:
  "v_nodes (set_node a n s) = (v_nodes s)(a \<mapsto> n)" "v_fs (set_node a n s) = v_fs s"
  "v_files (set_node a n s) = v_files s" "v_dev (set_node a n s) = v_dev s" "v_next (set_node a n s) = v_next s"
  "v_heap (set_node a n s) = v_heap s"
  by (simp_all add: set_node_def)

lemma set_node_twice: "set_node a m (set_node a n s) = set_node a m s"
  by (simp add: set_node_def)

text \<open>One node less: the counts of its parent and of its file system, and the tables.\<close>

lemma nchild_del:
  assumes "finite {b. \<exists>nm. K b = Some (Some q, nm)}" and "K a = Some (Some p, nm)"
  shows "nchild K q = nchild (K(a := None)) q + (if q = p then 1 else 0)"
proof (cases "q = p")
  case True
  have "nchild K q = nchild (K(a := None)) q + 1"
    unfolding nchild_def by (rule card_less_one [where a = a]) (use assms True in auto)
  with True show ?thesis by simp
next
  case False
  have "{b. \<exists>nm. K b = Some (Some q, nm)} = {b. \<exists>nm. (K(a := None)) b = Some (Some q, nm)}"
    using assms(2) False by auto
  with False show ?thesis by (simp add: nchild_def)
qed

lemma fsnodes_del:
  assumes "finite {b. \<exists>n. M b = Some n \<and> fn_parent n \<noteq> None \<and> fn_fs n = Some g}"
    and "M a = Some n" "fn_parent n \<noteq> None" "fn_fs n = Some f"
  shows "fsnodes M g = fsnodes (M(a := None)) g + (if g = f then 1 else 0)"
proof (cases "g = f")
  case True
  have "fsnodes M g = fsnodes (M(a := None)) g + 1"
    unfolding fsnodes_def by (rule card_less_one [where a = a]) (use assms True in auto)
  with True show ?thesis by simp
next
  case False
  have "{b. \<exists>n. M b = Some n \<and> fn_parent n \<noteq> None \<and> fn_fs n = Some g}
      = {b. \<exists>n. (M(a := None)) b = Some n \<and> fn_parent n \<noteq> None \<and> fn_fs n = Some g}"
    using assms(2,4) False by auto
  with False show ?thesis by (simp add: fsnodes_def)
qed

lemma children_ok_remove:
  assumes co: "children_ok K p np" and ht: "fn_children np = Some ht" and a: "K a = Some (Some p, Some nm)"
    and del: "ht_del h ht nm = (ht', h')"
  shows "children_ok (K(a := None)) p (np\<lparr>fn_children := Some ht'\<rparr>)"
proof -
  have ok: "ht_ok str_key_eq_fun str_hash_fun ht"
    and found: "\<And>k b. hashtbl_find ht k = Some b \<longleftrightarrow> (\<exists>nm. K b = Some (Some p, Some nm) \<and> str_key_eq_fun nm k)"
    using co ht by (simp_all add: children_ok_def)
  have "hashtbl_find ht' k = Some b \<longleftrightarrow> (\<exists>m. (K(a := None)) b = Some (Some p, Some m) \<and> str_key_eq_fun m k)" for k b
  proof (cases "str_key_eq_fun nm k")
    case True
    then have "hashtbl_find ht k = Some a" using found a by blast
    then show ?thesis using ht_del_spec(2) [OF ok del, of k] found [of k b] True by auto
  next
    case False
    then show ?thesis using ht_del_spec(2) [OF ok del, of k] found [of k b] a by auto
  qed
  then show ?thesis using ht_del_spec(1) [OF ok del] by (simp add: children_ok_def)
qed

lemma children_ok_other:
  assumes "K a = Some (Some p, nm)" and "b \<noteq> p"
  shows "children_ok (K(a := None)) b m = children_ok K b m"
proof -
  have e: "(K(a := None)) c = Some (Some b, y) \<longleftrightarrow> K c = Some (Some b, y)" for c y
    using assms by auto
  show ?thesis unfolding children_ok_def e ..
qed

lemma table_empty:
  assumes ok: "ht_ok ef hf t" and none: "\<And>k. hashtbl_find t k = None"
  shows "hashtbl_count t = 0"
proof -
  have inv: "ht_inv t" using ok by (simp add: ht_ok_def)
  have "ht_bindings t = {#}"
  proof (rule ccontr)
    assume "ht_bindings t \<noteq> {#}"
    then obtain k v where "(k, v) \<in># ht_bindings t" by (metis multiset_nonemptyE surj_pair)
    moreover have "ht_ef t k k" using ht_inv_keys [OF inv] by (rule hash_keys.ef_refl)
    ultimately show False using hashtbl_find_bound [OF inv, of k v] none [of k] by force
  qed
  then show ?thesis using ht_inv_count [OF inv] by simp
qed

text \<open>A file system that is held from outside stays.\<close>

definition held_fs :: "cx \<Rightarrow> (nat \<Rightarrow> nat) \<Rightarrow> bool" where
  "held_fs x G \<longleftrightarrow> (\<forall>f. c_fs x f \<noteq> None \<longrightarrow> 1 \<le> G f)"

context vfs_driver
begin

section \<open>Locks\<close>

lemma live_unlocked: "vinv x s E G L \<Longrightarrow> a \<notin> L \<Longrightarrow> live s x a = Some n \<Longrightarrow> v_nodes s a = Some n \<and> \<not> fn_locked n"
  using vinv_locked by (auto simp: live_Some)

lemma set_lock_inv:
  assumes "vinv x s E G L" and "live s x a = Some n"
  shows "vinv x (set_node a (n\<lparr>fn_locked := b\<rparr>) s) E G (if b then insert a L else L - {a})"
proof -
  have "vinv x (set_node a (n\<lparr>fn_locked := b\<rparr>) s) (E(a := E a)) G
      (if fn_locked (n\<lparr>fn_locked := b\<rparr>) then insert a L else L - {a})"
    by (rule vinv_set_node [OF assms])
      (use vinv_children [OF assms] vinv_refs [OF assms] vinv_dev [OF assms(1)] in \<open>simp_all add: refs_ok_def\<close>)
  then show ?thesis by (simp del: if_split)
qed

lemma lock_node_ok:
  assumes "vinv x s E G L" and "live s x a = Some n" and "a \<notin> L"
  shows "ends (lock_node a s) (\<lambda>s'. s' = set_node a (n\<lparr>fn_locked := True\<rparr>) s \<and> vinv x s' E G (insert a L)
           \<and> live s' x a = Some (n\<lparr>fn_locked := True\<rparr>))"
  using set_lock_inv [OF assms(1,2), of True] live_unlocked [OF assms(1,3,2)] assms(2)
  by (simp add: lock_node_def live_Some)

lemma unlock_node_ok:
  assumes "vinv x s E G L" and "live s x a \<noteq> None"
  shows "ends (unlock_node a s) (\<lambda>s'. vinv x s' E G (L - {a}) \<and> (\<forall>b. live s' x b = None \<longleftrightarrow> live s x b = None)
           \<and> v_next s' = v_next s \<and> v_fs s' = v_fs s)"
proof -
  obtain n where n: "live s x a = Some n" using assms(2) by blast
  have "v_nodes s a = Some n" "c_dying x a = None" using n by (simp_all add: live_Some)
  then show ?thesis using set_lock_inv [OF assms(1) n, of False] by (simp add: unlock_node_def) (simp add: live_def)
qed

section \<open>References\<close>

lemma ref_fs_node_ok:
  assumes inv: "vinv x s E G L" and a: "live s x a \<noteq> None" "a \<notin> L"
  shows "ends (ref_fs_node a s) (\<lambda>s'. vinv x s' (E(a := E a + 1)) G L \<and> v_next s' = v_next s)"
proof -
  obtain n where n: "live s x a = Some n" using a by blast
  have m: "v_nodes s a = Some n" "\<not> fn_locked n" using live_unlocked [OF inv a(2) n] by auto
  define n' where "n' = n\<lparr>fn_refs := fn_refs n + 1\<rparr>"
  have "vinv x (set_node a n' s) (E(a := E a + 1)) G (if fn_locked n' then insert a L else L - {a})"
    by (rule vinv_set_node [OF inv n])
      (use vinv_children [OF inv n] vinv_refs [OF inv n] vinv_dev [OF inv] in \<open>simp_all add: n'_def refs_ok_def\<close>)
  with m a have "vinv x (set_node a n' s) (E(a := E a + 1)) G L" by (simp add: n'_def)
  moreover have "n\<lparr>fn_refs := fn_refs n + 1, fn_locked := False\<rparr> = n'" using m by (simp add: n'_def)
  ultimately show ?thesis using m
    by (simp add: ref_fs_node_def lock_node_def unlock_node_def set_node_twice)
qed

text \<open>A file system is changed in its count.\<close>

lemma vinv_set_fs:
  assumes inv: "vinv x s E G L" and f: "v_fs s f = Some ff" and same: "bare_fs ff' = bare_fs ff"
    and refs: "fs_refs ff' = fs_refs ff + int g' - int (G f)" "1 \<le> fs_refs ff'"
  shows "vinv x (s\<lparr>v_fs := (v_fs s)(f \<mapsto> ff')\<rparr>) E (G(f := g')) L"
proof -
  have l: "live (s\<lparr>v_fs := (v_fs s)(f \<mapsto> ff')\<rparr>) x = live s x" by (simp add: live_def fun_eq_iff)
  have ff: "fs_root ff' = fs_root ff" "fs_locked ff' = fs_locked ff" using arg_cong [OF same, of fs_root] arg_cong [OF same, of fs_locked] by (simp_all add: bare_fs_def)
  show ?thesis
  proof (rule vinvI, unfold l)
    fix h fh assume "v_fs (s\<lparr>v_fs := (v_fs s)(f \<mapsto> ff')\<rparr>) h = Some fh"
    then show "fs_ok x (live s x) (G(f := g')) h fh"
      using vinv_fs [OF inv f] vinv_fs [OF inv, of h fh] ff refs by (auto simp: fs_ok_def split: if_splits)
  next
    fix h show "map_option bare_fs (v_fs (s\<lparr>v_fs := (v_fs s)(f \<mapsto> ff')\<rparr>) h) = c_fs x h"
      using vinv_fss [OF inv, of h] f same by auto
  next
    fix b assume "v_nodes (s\<lparr>v_fs := (v_fs s)(f \<mapsto> ff')\<rparr>) b \<noteq> None \<or> v_fs (s\<lparr>v_fs := (v_fs s)(f \<mapsto> ff')\<rparr>) b \<noteq> None
      \<or> c_hand x b \<noteq> None"
    then show "b < v_next (s\<lparr>v_fs := (v_fs s)(f \<mapsto> ff')\<rparr>)"
      using vinv_below [OF inv, of b] f by (auto split: if_splits)
  qed (use vinvD [OF inv] in auto)
qed

lemma bare_fs_refs [simp]: "bare_fs (ff\<lparr>fs_refs := r\<rparr>) = bare_fs ff"
  by (simp add: bare_fs_def)

lemma ref_fs_ok:
  assumes inv: "vinv x s E G L" and f: "v_fs s f \<noteq> None"
  shows "ends (ref_fs f s) (\<lambda>s'. vinv x s' E (G(f := G f + 1)) L \<and> v_next s' = v_next s)"
proof -
  obtain ff where ff: "v_fs s f = Some ff" using f by blast
  have o: "fs_ok x (live s x) G f ff" using inv ff by (rule vinv_fs)
  then have i: "vinv x (s\<lparr>v_fs := (v_fs s)(f \<mapsto> ff\<lparr>fs_refs := fs_refs ff + 1\<rparr>)\<rparr>) E (G(f := G f + 1)) L"
    by (intro vinv_set_fs [OF inv ff]) (simp_all add: fs_ok_def)
  have u: "\<not> fs_locked ff" using o by (simp add: fs_ok_def)
  then have e: "ff\<lparr>fs_refs := fs_refs ff + 1, fs_locked := False\<rparr> = ff\<lparr>fs_refs := fs_refs ff + 1\<rparr>" by simp
  then show ?thesis using i u ff by (simp add: e ref_fs_def lock_fs_def unlock_fs_def)
qed

lemma unref_fs_ok:
  assumes inv: "vinv x s E G L" and f: "v_fs s f \<noteq> None" and g: "2 \<le> G f" and k: "1 \<le> k"
  shows "ends (unref_fs C k f s) (\<lambda>s'. vinv x s' E (G(f := G f - 1)) L \<and> v_next s' = v_next s)"
proof -
  obtain ff where ff: "v_fs s f = Some ff" using f by blast
  have o: "fs_ok x (live s x) G f ff" using inv ff by (rule vinv_fs)
  then have i: "vinv x (s\<lparr>v_fs := (v_fs s)(f \<mapsto> ff\<lparr>fs_refs := fs_refs ff - 1\<rparr>)\<rparr>) E (G(f := G f - 1)) L"
    using g by (intro vinv_set_fs [OF inv ff]) (simp_all add: fs_ok_def)
  have u: "\<not> fs_locked ff" using o by (simp add: fs_ok_def)
  then have e: "ff\<lparr>fs_refs := fs_refs ff - 1, fs_locked := False\<rparr> = ff\<lparr>fs_refs := fs_refs ff - 1\<rparr>" by simp
  have "fs_refs ff - 1 \<noteq> 0" using o g by (simp add: fs_ok_def)
  then show ?thesis using i u ff k
    by (simp add: e unref_fs.simps [of C k] lock_fs_def unlock_fs_def)
qed

section \<open>A node that dies\<close>

lemma last_ref:
  assumes inv: "vinv x s E G L" and a: "live s x a = Some n" and e: "1 \<le> E a" and r: "fn_refs n = 1"
  shows "E a = 1" and "live s x b = Some nb \<Longrightarrow> fn_parent nb \<noteq> Some a"
    and "c_hand x h = Some fh \<Longrightarrow> fh_node fh \<noteq> a" and "c_fs x f = Some ff \<Longrightarrow> fs_root ff \<noteq> a"
proof -
  have o: "E a = 1" "nchild (kin (live s x)) a = 0" "nhand (c_hand x) a = 0" "nroot (c_fs x) a = 0"
    using vinv_refs [OF inv a] e r by (simp_all add: refs_ok_def)
  show "E a = 1" by (rule o)
  show "fn_parent nb \<noteq> Some a" if "live s x b = Some nb"
    using o(2) finite_nodes [OF inv, of "\<lambda>_ n. fn_parent n = Some a"] that by (auto simp: nchild_def kin_Some)
  show "fh_node fh \<noteq> a" if "c_hand x h = Some fh"
    using o(3) finite_files [OF inv, of "\<lambda>f. fh_node f = a"] that by (auto simp: nhand_def)
  show "fs_root ff \<noteq> a" if "c_fs x f = Some ff"
    using o(4) finite_fs [OF inv, of "\<lambda>f. fs_root f = a"] that by (auto simp: nroot_def)
qed

text \<open>The parent of a node in memory has a table, and the node is in it.\<close>

lemma parent_table:
  assumes inv: "vinv x s E G L" and a: "live s x a = Some n" and p: "fn_parent n = Some p"
  obtains np ht nm where "live s x p = Some np" and "fn_children np = Some ht" and "fn_name n = Some nm"
    and "ht_ok str_key_eq_fun str_hash_fun ht" and "p < a" and "fn_fs np = fn_fs n"
proof -
  obtain np where np: "live s x p = Some np" "p < a" "fn_name n \<noteq> None" "fn_fs np = fn_fs n"
    using vinv_place [OF inv a] p by (auto simp: place_ok_def)
  have "children_ok (kin (live s x)) p np" using inv np(1) by (rule vinv_children)
  then obtain ht where "fn_children np = Some ht" "ht_ok str_key_eq_fun str_hash_fun ht"
    using a p by (fastforce simp: children_ok_def kin_Some split: option.split_asm)
  with np that show ?thesis by blast
qed






lemma retire:
  assumes inv: "vinv x s E G {}" and a: "live s x a = Some n" and e: "1 \<le> E a" "fn_refs n = 1"
    and p: "fn_parent n = Some p" "live s x p = Some np" "fn_children np = Some ht" and f: "fn_fs n = Some f"
    and nm: "fn_name n = Some nm" and del: "ht_del h ht nm = (ht', h')"
    and s': "v_nodes s' = (v_nodes s)(a \<mapsto> n', p \<mapsto> np\<lparr>fn_children := Some ht'\<rparr>)" "v_fs s' = v_fs s" "v_files s' = v_files s"
      "v_next s' = v_next s"
    and dev: "dinv (v_dev s')" "\<And>k. good k (v_dev s) \<Longrightarrow> good k (v_dev s')"
  shows "vinv (x\<lparr>c_dying := (c_dying x)(a \<mapsto> n')\<rparr>) s' (E(a := 0, p := E p + 1)) (G(f := G f + 1)) {}"
proof -
  note lr = last_ref [OF inv a e]
  define M where "M = live s x"
  define np' where "np' = np\<lparr>fn_children := Some ht'\<rparr>"
  define M1 where "M1 = M(a := None)"
  define M' where "M' = M1(p \<mapsto> np')"
  define x' where "x' = x\<lparr>c_dying := (c_dying x)(a \<mapsto> n')\<rparr>"
  have pa: "p \<noteq> a" using lr(2) [OF p(2)] vinv_place [OF inv a] p(1) by (auto simp: place_ok_def)
  have Ma: "M a = Some n" and Mp: "M1 p = Some np" using a p(2) pa by (simp_all add: M_def M1_def)
  have M': "live s' x' = M'"
    using p(2) pa by (auto simp: live_def x'_def M'_def M1_def M_def s'(1) np'_def fun_eq_iff)
  have kin: "kin M' = (kin M)(a := None)"
    unfolding M'_def using kin_same [of M1 p np np', OF Mp] by (simp add: np'_def M1_def kin_del)
  have Ka: "kin M a = Some (Some p, Some nm)" using Ma p(1) nm by (simp add: kin_def)
  have fin: "finite {b. \<exists>nm. kin M b = Some (Some q, nm)}" for q
    using finite_nodes [OF inv, of "\<lambda>_ n. fn_parent n = Some q"] by (simp add: kin_Some M_def)
  note nc = nchild_del [OF fin Ka]
  have nf: "fsnodes M g = fsnodes M' g + (if g = f then 1 else 0)" for g
  proof -
    have "fsnodes M' g = fsnodes M1 g"
      unfolding M'_def by (rule fsnodes_same [of M1 p np np' g, OF Mp]) (simp_all add: np'_def)
    then show ?thesis
      using fsnodes_del [of M g a n f] finite_nodes [OF inv, of "\<lambda>_ n. fn_parent n \<noteq> None \<and> fn_fs n = Some g"] Ma p(1) f
      by (simp add: M1_def M_def)
  qed
  have other: "\<exists>m0. M b = Some m0 \<and> b \<noteq> a \<and> (m = m0 \<or> b = p \<and> m0 = np \<and> m = np')" if "M' b = Some m" for b m
    using that Mp by (auto simp: M'_def M1_def split: if_splits)
  have dom: "M' y \<noteq> None \<longleftrightarrow> M y \<noteq> None \<and> y \<noteq> a" for y using Mp by (auto simp: M'_def M1_def)
  have fs: "(\<exists>np. M q = Some np \<and> fn_fs np = y) \<Longrightarrow> q \<noteq> a \<Longrightarrow> (\<exists>np. M' q = Some np \<and> fn_fs np = y)" for q y
    using Mp by (auto simp: M'_def M1_def np'_def)
  show ?thesis
    unfolding x'_def [symmetric]
  proof (rule vinvI, unfold M')
    fix b m assume b: "M' b = Some m"
    obtain m0 where m0: "M b = Some m0" "b \<noteq> a" "m = m0 \<or> b = p \<and> m0 = np \<and> m = np'" using other [OF b] by blast
    have b': "live s x b = Some m0" using m0 by (simp add: M_def)
    have same: "fn_refs m = fn_refs m0" "fn_parent m = fn_parent m0" "fn_locked m = fn_locked m0" "key m = key m0"
      "fn_fs m = fn_fs m0" "fn_name m = fn_name m0" using m0(3) by (auto simp: np'_def)
    have ch: "children_ok (kin M') b m"
    proof (cases "b = p")
      case True
      then have "m = np'" using b by (simp add: M'_def)
      moreover have "children_ok (kin M) p np" using vinv_children [OF inv p(2)] by (simp add: M_def)
      ultimately show ?thesis
        using children_ok_remove [of "kin M" p np ht a nm, OF _ p(3) Ka del] True by (simp add: kin np'_def)
    next
      case False
      then have "m = m0" using m0(3) by blast
      moreover have "children_ok (kin M) b m0" using vinv_children [OF inv b'] by (simp add: M_def)
      ultimately show ?thesis using children_ok_other [of "kin M" a p "Some nm" b m0, OF Ka False] by (simp add: kin)
    qed
    have rf: "refs_ok x' M' (E(a := 0, p := E p + 1)) b m"
      using vinv_refs [OF inv b'] nc [of b] m0(2) same(1) by (auto simp: refs_ok_def kin M_def x'_def)
    have "place_ok (c_fs x) M b m0" using vinv_place [OF inv b'] by (simp add: M_def)
    then have pl: "place_ok (c_fs x') M' b m"
      using lr(2) [OF b'] fs same by (auto simp: place_ok_def x'_def split: option.splits)
    show "refs_ok x' M' (E(a := 0, p := E p + 1)) b m \<and> (fn_locked m \<longleftrightarrow> b \<in> {}) \<and> good (key m) (v_dev s')
        \<and> children_ok (kin M') b m \<and> place_ok (c_fs x') M' b m"
      using rf ch pl same vinv_locked [OF inv b'] vinv_good [OF inv b'] dev(2) by simp
  next
    fix g ff assume "v_fs s' g = Some ff"
    then have g: "v_fs s g = Some ff" by (simp add: s')
    then have "fs_root ff \<noteq> a" using lr(4) [of g "bare_fs ff"] vinv_fss [OF inv, of g] by (simp add: bare_fs_def)
    then show "fs_ok x' M' (G(f := G f + 1)) g ff"
      using vinv_fs [OF inv g] nf [of g] dom by (auto simp: fs_ok_def M_def x'_def)
  next
    fix h fh assume h: "c_hand x' h = Some fh"
    then have "c_hand x h = Some fh" by (simp add: x'_def)
    then show "handle_ok x' M' fh"
      using vinv_hand [OF inv] lr(3) dom [of "fh_node fh"] by (auto simp: handle_ok_def M_def x'_def)
  next
    fix b assume "v_nodes s' b \<noteq> None \<or> v_fs s' b \<noteq> None \<or> c_hand x' b \<noteq> None"
    then show "b < v_next s'"
      using vinv_below [OF inv, of b] live_below [OF inv a] live_below [OF inv p(2)] by (auto simp: s' x'_def split: if_splits)
  next
    fix b m assume "c_dying x' b = Some m"
    then show "v_nodes s' b = Some m"
      using vinv_dying [OF inv, of b m] a p(2) pa by (auto simp: s' x'_def live_Some split: if_splits)
  next
    fix b assume "0 < (E(a := 0, p := E p + 1)) b"
    then show "M' b \<noteq> None" using vinv_held [OF inv, of b] Mp by (auto simp: M'_def M1_def M_def split: if_splits)
  qed (use vinvD [OF inv] s' dev in \<open>auto simp: x'_def\<close>)
qed


lemma vinv_freed:
  assumes inv: "vinv (x\<lparr>c_dying := (c_dying x)(a \<mapsto> n')\<rparr>) s E G L" and a: "c_dying x a = None"
    and s': "v_nodes s' = (v_nodes s)(a := None)" "v_fs s' = v_fs s" "v_files s' = v_files s" "v_next s' = v_next s"
      "v_dev s' = v_dev s"
  shows "vinv x s' E G L"
proof -
  define x' where "x' = x\<lparr>c_dying := (c_dying x)(a \<mapsto> n')\<rparr>"
  have i: "vinv x' s E G L" using inv by (simp add: x'_def)
  have l: "live s' x = live s x'" using a by (auto simp: live_def x'_def s'(1) fun_eq_iff)
  have c: "c_files x' = c_files x" "c_hand x' = c_hand x" "c_fs x' = c_fs x" by (simp_all add: x'_def)
  have eq: "refs_ok x' = refs_ok x" "fs_ok x' = fs_ok x" "handle_ok x' = handle_ok x"
    by (simp_all add: fun_eq_iff refs_ok_def fs_ok_def handle_ok_def c)
  show ?thesis
  proof (rule vinvI, unfold l)
    fix b m assume "c_dying x b = Some m"
    then show "v_nodes s' b = Some m" using vinv_dying [OF i, of b m] a by (auto simp: x'_def s'(1))
  next
    fix b assume "v_nodes s' b \<noteq> None \<or> v_fs s' b \<noteq> None \<or> c_hand x b \<noteq> None"
    then show "b < v_next s'" using vinv_below [OF i, of b] by (auto simp: s' c split: if_splits)
  qed (use vinvD [OF i] s' in \<open>simp_all add: c eq\<close>)
qed

text \<open>
  Giving back a reference to a node. The last reference: up to the point
  where the parent is given back, the code does the following.
\<close>

lemma unref_last:
  assumes inv: "vinv x s E G {}" and a: "live s x a = Some n" and e: "1 \<le> E a" "fn_refs n = 1" and k: "0 < k"
  obtains n' f p s' where "unref_fs_node C k a s = rbind (unref_fs_node C (k - 1) p s') (\<lambda>s7. rbind (unref_fs C (k - 1) f s7)
      (\<lambda>s8. rbind (drop_children a s8) (free_node a)))"
    and "vinv (x\<lparr>c_dying := (c_dying x)(a \<mapsto> n')\<rparr>) s' (E(a := 0, p := E p + 1)) (G(f := G f + 1)) {}"
    and "p < a" and "v_next s' = v_next s" and "c_fs x f \<noteq> None" and "fn_children n' = fn_children n"
proof -
  note lr = last_ref [OF inv a e]
  obtain f ff where f: "fn_fs n = Some f" "c_fs x f = Some ff" using vinv_place [OF inv a] by (auto simp: place_ok_def)
  obtain p where p: "fn_parent n = Some p"
    using vinv_place [OF inv a] f lr(4) [OF f(2)] by (auto simp: place_ok_def split: option.split_asm)
  obtain np ht nm where np: "live s x p = Some np" "fn_children np = Some ht" "fn_name n = Some nm" "p < a"
    by (rule parent_table [OF inv a p])
  obtain f0 where f0: "v_fs s f = Some f0" "fs_root f0 \<noteq> a"
    using vinv_fss [OF inv, of f] f(2) lr(4) [OF f(2)] by (cases "v_fs s f") (auto simp: bare_fs_def)
  have na: "v_nodes s a = Some n" "\<not> fn_locked n" using live_unlocked [OF inv _ a] by auto
  have nap: "v_nodes s p = Some np" "\<not> fn_locked np" using live_unlocked [OF inv _ np(1)] by auto
  define n' where "n' = n\<lparr>fn_locked := True, fn_refs := 0\<rparr>"
  obtain ht' h' where del: "ht_del (v_heap s) ht nm = (ht', h')" by fastforce
  have "good (key n') (v_dev s)" using vinv_good [OF inv a] by (simp add: n'_def)
  moreover from this obtain g where g: "op_dispose (ops_of C n') = Some g" using has_dispose by blast
  ultimately obtain h2 d2 where d: "g n' (h', v_dev s) = Inr ((), h2, d2)" "dinv d2" "\<And>k. good k (v_dev s) \<Longrightarrow> good k d2"
    using dispose_ok [OF vinv_dev [OF inv], of n' g h'] by (auto simp: ends_iff)
  define np' where "np' = np\<lparr>fn_children := Some ht'\<rparr>"
  define s' where "s' = s\<lparr>v_nodes := (v_nodes s)(a \<mapsto> n', p \<mapsto> np'), v_heap := h2, v_dev := d2\<rparr>"
  have l1: "lock_node a s = Inr (set_node a (n\<lparr>fn_locked := True\<rparr>) s)" using na by (simp add: lock_node_def)
  have l2: "lock_node p (set_node a n' s) = Inr (set_node p (np\<lparr>fn_locked := True\<rparr>) (set_node a n' s))"
    using nap np(4) by (simp add: lock_node_def)
  have n'f: "fn_fs n' = Some f" "fn_parent n' = Some p" "fn_name n' = Some nm" "fn_refs n' = 0"
    using f p np(3) by (simp_all add: n'_def)
  let ?s4 = "s\<lparr>v_nodes := (v_nodes s)(a \<mapsto> n', p \<mapsto> np\<lparr>fn_locked := True, fn_children := Some ht'\<rparr>), v_heap := h'\<rparr>"
  have rc: "remove_child p nm (set_node p (np\<lparr>fn_locked := True\<rparr>) (set_node a n' s)) = Inr ?s4"
    using np del by (simp add: remove_child_def np'_def) (simp add: set_node_def)
  have dn: "dispose_node C a ?s4 = Inr (?s4\<lparr>v_heap := h2, v_dev := d2\<rparr>)"
    using g d(1) np(4) by (simp add: dispose_node_def run_op_def call_def)
  have ul: "unlock_node p (s\<lparr>v_nodes := (v_nodes s)(a \<mapsto> n', p \<mapsto> np\<lparr>fn_locked := True, fn_children := Some ht'\<rparr>),
      v_heap := h2, v_dev := d2\<rparr>) = Inr s'"
  proof -
    have "np\<lparr>fn_children := Some ht', fn_locked := False\<rparr> = np'" using nap by (simp add: np'_def)
    then show ?thesis by (simp add: unlock_node_def s'_def) (simp add: set_node_def)
  qed
  have "unref_fs_node C k a s = rbind (unref_fs_node C (k - 1) p s') (\<lambda>s7. rbind (unref_fs C (k - 1) f s7)
      (\<lambda>s8. rbind (drop_children a s8) (free_node a)))"
    using k e(2) f0 n'f
    by (simp add: unref_fs_node.simps [of C k] l1 set_node_twice n'_def [symmetric] l2 rc dn ul rbind_assoc Let_def)
  moreover have "vinv (x\<lparr>c_dying := (c_dying x)(a \<mapsto> n')\<rparr>) s' (E(a := 0, p := E p + 1)) (G(f := G f + 1)) {}"
    by (rule retire [OF inv a e p np(1,2) f(1) np(3) del]) (use d in \<open>simp_all add: s'_def np'_def\<close>)
  ultimately show ?thesis using that [of p s' f n'] np(4) f(2) by (simp add: s'_def n'_def)
qed

lemma drop_free_ok:
  assumes inv: "vinv (x\<lparr>c_dying := (c_dying x)(a \<mapsto> n)\<rparr>) s E G {}" and a: "c_dying x a = None"
    and none: "\<And>ht. fn_children n = Some ht \<Longrightarrow> hashtbl_count ht = 0"
  shows "ends (rbind (drop_children a s) (free_node a)) (\<lambda>s'. vinv x s' E G {} \<and> v_next s' = v_next s)"
proof -
  have na: "v_nodes s a = Some n" using vinv_dying [OF inv, of a n] by simp
  obtain s1 where s1: "drop_children a s = Inr s1" "v_nodes s1 = v_nodes s" "v_fs s1 = v_fs s" "v_files s1 = v_files s"
      "v_next s1 = v_next s" "v_dev s1 = v_dev s"
    using na none by (cases "fn_children n") (auto simp: drop_children_def)
  show ?thesis
    using s1 na vinv_freed [OF inv a]
    by (simp add: free_node_def Let_def free_block_def)
qed

lemma unref_fs_node_ok:
  "vinv x s E G {} \<Longrightarrow> held_fs x G \<Longrightarrow> 1 \<le> E a \<Longrightarrow> a + 2 \<le> k \<Longrightarrow>
     ends (unref_fs_node C k a s) (\<lambda>s'. vinv x s' (E(a := E a - 1)) G {} \<and> v_next s' = v_next s)"
proof (induction a arbitrary: x s E G k rule: less_induct)
  case (less a)
  note inv = less.prems(1)
  obtain n where n: "live s x a = Some n" using vinv_held [OF inv, of a] less.prems(3) by auto
  have na: "v_nodes s a = Some n" "\<not> fn_locked n" "c_dying x a = None"
    using live_unlocked [OF inv _ n] n by (auto simp: live_Some)
  show ?case
  proof (cases "fn_refs n = 1")
    case False
    define n' where "n' = n\<lparr>fn_refs := fn_refs n - 1\<rparr>"
    have "vinv x (set_node a n' s) (E(a := E a - 1)) G (if fn_locked n' then insert a {} else {} - {a})"
      by (rule vinv_set_node [OF inv n])
        (use vinv_children [OF inv n] vinv_refs [OF inv n] vinv_dev [OF inv] less.prems(3) False
          in \<open>simp_all add: n'_def refs_ok_def\<close>)
    then have "vinv x (set_node a n' s) (E(a := E a - 1)) G {}" using na by (simp add: n'_def)
    moreover have eq: "n\<lparr>fn_refs := fn_refs n - 1, fn_locked := False\<rparr> = n'" using na by (simp add: n'_def)
    ultimately show ?thesis
      using na False less.prems(4)
      by (simp add: eq unref_fs_node.simps [of C k] lock_node_def unlock_node_def set_node_twice fun_upd_same del: fun_upd_apply)
  next
    case True
    obtain n' f p s' where u: "unref_fs_node C k a s = rbind (unref_fs_node C (k - 1) p s') (\<lambda>s7. rbind (unref_fs C (k - 1) f s7)
        (\<lambda>s8. rbind (drop_children a s8) (free_node a)))"
      and i1: "vinv (x\<lparr>c_dying := (c_dying x)(a \<mapsto> n')\<rparr>) s' (E(a := 0, p := E p + 1)) (G(f := G f + 1)) {}"
      and p: "p < a" "v_next s' = v_next s" and f: "c_fs x f \<noteq> None" and n': "fn_children n' = fn_children n"
      by (rule unref_last [OF inv n less.prems(3) True, of k]) (use less.prems(4) in auto)
    let ?x = "x\<lparr>c_dying := (c_dying x)(a \<mapsto> n')\<rparr>"
    have ea: "E a = 1" using last_ref(1) [OF inv n less.prems(3) True] .
    have e2: "(E(a := 0, p := E p + 1))(p := (E(a := 0, p := E p + 1)) p - 1) = E(a := E a - 1)"
      using p ea by (auto simp: fun_eq_iff)
    have "held_fs ?x (G(f := G f + 1))" using less.prems(2) by (auto simp: held_fs_def)
    then have r1: "ends (unref_fs_node C (k - 1) p s') (\<lambda>t. vinv ?x t (E(a := E a - 1)) (G(f := G f + 1)) {} \<and> v_next t = v_next s)"
      using less.IH [OF p(1) i1, of "k - 1"] p(1,2) less.prems(4) unfolding e2
    by (simp add: fun_upd_same del: fun_upd_apply)
    have none: "hashtbl_count ht = 0" if "fn_children n' = Some ht" for ht
    proof -
      have "children_ok (kin (live s x)) a n" using inv n by (rule vinv_children)
      then have "ht_ok str_key_eq_fun str_hash_fun ht"
        and "\<And>k b. hashtbl_find ht k = Some b \<longleftrightarrow> (\<exists>nm. kin (live s x) b = Some (Some a, Some nm) \<and> str_key_eq_fun nm k)"
        using that n' by (simp_all add: children_ok_def)
      moreover have "kin (live s x) b \<noteq> Some (Some a, y)" for b y
        using last_ref(2) [OF inv n less.prems(3) True, of b] by (auto simp: kin_Some)
      ultimately show ?thesis using table_empty by (metis not_Some_eq)
    qed
    show ?thesis
      unfolding u
    proof (rule ends_rbind [OF r1], elim conjE)
      fix t assume t: "vinv ?x t (E(a := E a - 1)) (G(f := G f + 1)) {}" "v_next t = v_next s"
      have ft: "v_fs t f \<noteq> None" using vinv_fss [OF t(1), of f] f by auto
      have g2: "2 \<le> (G(f := G f + 1)) f" using less.prems(2) f by (auto simp: held_fs_def)
      have g3: "(G(f := G f + 1))(f := (G(f := G f + 1)) f - 1) = G" by simp
      show "ends (rbind (unref_fs C (k - 1) f t) (\<lambda>s8. rbind (drop_children a s8) (free_node a)))
          (\<lambda>s'. vinv x s' (E(a := E a - 1)) G {} \<and> v_next s' = v_next s)"
      proof (rule ends_rbind [OF unref_fs_ok [OF t(1) ft g2]])
        show "1 \<le> k - 1" using less.prems(4) by simp
      next
        fix y assume y: "vinv ?x y (E(a := E a - 1)) ((G(f := G f + 1))(f := (G(f := G f + 1)) f - 1)) {} \<and> v_next y = v_next t"
        then have "vinv ?x y (E(a := E a - 1)) G {}" unfolding g3 by blast
        from drop_free_ok [OF this na(3) none] show "ends (rbind (drop_children a y) (free_node a))
            (\<lambda>s'. vinv x s' (E(a := E a - 1)) G {} \<and> v_next s' = v_next s)"
          using y t(2) by simp
      qed
    qed
  qed
qed

end

end
