(* ===== verification/Vfs_Walk.thy ===== *)
theory Vfs_Walk
  imports Vfs_Refs
begin

text \<open>
  Walking: a step along a path answers a node that the caller holds a reference to, which is found among the children in
  memory or read in by the driver. Whatever fails on the way, no reference is lost.
\<close>

lemma children_ok_add:
  assumes co: "children_ok K p (np\<lparr>fn_children := Some ht\<rparr>)" and new: "K a = None"
    and none: "\<And>k. str_key_eq_fun nm k \<Longrightarrow> hashtbl_find ht k = None" and put: "ht_put h ht nm a = (True, ht', h')"
  shows "children_ok (K(a \<mapsto> (Some p, Some nm))) p (np\<lparr>fn_children := Some ht'\<rparr>)"
proof -
  have ok: "ht_ok str_key_eq_fun str_hash_fun ht"
    and found: "\<And>k b. hashtbl_find ht k = Some b \<longleftrightarrow> (\<exists>nm. K b = Some (Some p, Some nm) \<and> str_key_eq_fun nm k)"
    using co by (simp_all add: children_ok_def)
  have "hashtbl_find ht' k = Some b \<longleftrightarrow>
      (\<exists>m. (K(a \<mapsto> (Some p, Some nm))) b = Some (Some p, Some m) \<and> str_key_eq_fun m k)" for k b
    using ht_put_spec(2) [OF ok put, of k] found [of k b] none [of k] new by (auto split: if_splits)
  then show ?thesis using ht_put_spec(1) [OF ok put] by (simp add: children_ok_def)
qed

lemma fsnodes_upd: "M a = Some n \<Longrightarrow> fn_parent n' = fn_parent n \<Longrightarrow> fn_fs n' = fn_fs n \<Longrightarrow> M' = M(a \<mapsto> n') \<Longrightarrow>
    fsnodes M' f = fsnodes M f"
  using fsnodes_same [of M a n n' f] by simp

context vfs_driver
begin

lemma parent_live: "vinv x s E G L \<Longrightarrow> kin (live s x) b = Some (Some q, nm) \<Longrightarrow> live s x q \<noteq> None"
  by (auto simp: kin_Some dest!: vinv_place simp: place_ok_def)

lemma root_live:
  assumes "vinv x s E G L" and "c_fs x f = Some ff"
  shows "live s x (fs_root ff) \<noteq> None"
proof -
  obtain g where g: "v_fs s f = Some g" "ff = bare_fs g" using vinv_fss [OF assms(1), of f] assms(2) by auto
  then show ?thesis using vinv_fs [OF assms(1) g(1)] by (simp add: fs_ok_def bare_fs_def)
qed

lemma add_child:
  assumes inv: "vinv x s E G L" and p: "live s x fr = Some p" and e: "1 \<le> E fr" "fn_fs p = Some f" "1 \<le> G f"
    and new: "v_nodes s a = None" "fr < a" "a < v_next s" "a \<notin> L"
    and ht: "children_ok (kin (live s x)) fr (p\<lparr>fn_children := Some ht\<rparr>)"
    and none: "\<And>k. str_key_eq_fun nm k \<Longrightarrow> hashtbl_find ht k = None" and put: "ht_put h ht nm a = (True, ht', h')"
    and n: "fn_refs n = 1" "\<not> fn_locked n" "fn_name n = Some nm" "fn_fs n = Some f" "fn_children n = None"
      "fn_parent n = Some fr" "good (key n) (v_dev s)"
    and s': "v_nodes s' = (v_nodes s)(fr \<mapsto> p\<lparr>fn_children := Some ht'\<rparr>, a \<mapsto> n)" "v_fs s' = v_fs s"
      "v_files s' = v_files s" "v_next s' = v_next s" "v_dev s' = v_dev s"
  shows "vinv x s' (E(fr := E fr - 1, a := 1)) (G(f := G f - 1)) L"
proof -
  define M where "M = live s x"
  define p' where "p' = p\<lparr>fn_children := Some ht'\<rparr>"
  define M1 where "M1 = M(fr \<mapsto> p')"
  define M' where "M' = M1(a \<mapsto> n)"
  have la: "live s x a = None" using new(1) by (simp add: live_def)
  have da: "c_dying x a = None" using vinv_dying [OF inv, of a] new(1) by (cases "c_dying x a") auto
  have dp: "c_dying x fr = None" using p by (simp add: live_Some)
  have Mp: "M fr = Some p" using p by (simp add: M_def)
  have M': "live s' x = M'"
    using da dp by (auto simp: live_def M'_def M1_def M_def s'(1) p'_def fun_eq_iff)
  have kin1: "kin M1 = kin M" unfolding M1_def by (rule kin_same [of M fr p p', OF Mp]) (simp_all add: p'_def)
  have kin: "kin M' = (kin M)(a \<mapsto> (Some fr, Some nm))" unfolding M'_def kin_upd kin1 using n by simp
  have Ka: "kin M a = None" using la by (simp add: kin_def M_def)
  then have unadd: "(kin M')(a := None) = kin M" by (simp add: kin fun_eq_iff)
  have Ka': "kin M' a = Some (Some fr, Some nm)" by (simp add: kin)
  have noch: "kin M b \<noteq> Some (Some a, y)" for b y using parent_live [OF inv, of b a y] la by (auto simp: M_def)
  have fin: "finite {b. \<exists>nm. kin M' b = Some (Some q, nm)}" for q
    by (rule finite_subset [of _ "insert a {b. \<exists>nm. kin M b = Some (Some q, nm)}"])
      (use finite_nodes [OF inv, of "\<lambda>_ n. fn_parent n = Some q"] in \<open>auto simp: kin kin_Some M_def split: if_splits\<close>)
  have nc: "nchild (kin M') q = nchild (kin M) q + (if q = fr then 1 else 0)" for q
    using nchild_del [OF fin Ka', of q] unfolding unadd .
  have nf: "fsnodes M' g = fsnodes M g + (if g = f then 1 else 0)" for g
  proof -
    have f1: "fsnodes M1 g = fsnodes M g" by (rule fsnodes_upd [OF Mp _ _ M1_def]) (simp_all add: p'_def)
    have "finite {b. \<exists>n. M' b = Some n \<and> fn_parent n \<noteq> None \<and> fn_fs n = Some g}"
      by (rule finite_subset [of _ "insert a {b. \<exists>n. M b = Some n \<and> fn_parent n \<noteq> None \<and> fn_fs n = Some g}"])
        (use finite_nodes [OF inv, of "\<lambda>_ n. fn_parent n \<noteq> None \<and> fn_fs n = Some g"] Mp
          in \<open>auto simp: M'_def M1_def M_def p'_def split: if_splits\<close>)
    then have "fsnodes M' g = fsnodes (M'(a := None)) g + (if g = f then 1 else 0)"
      by (rule fsnodes_del [of M' g a n f]) (use n in \<open>simp_all add: M'_def\<close>)
    moreover have "M'(a := None) = M1" using la new(2) by (auto simp: M'_def M1_def M_def fun_eq_iff)
    ultimately show ?thesis using f1 by simp
  qed
  have dom: "M' y \<noteq> None \<longleftrightarrow> M y \<noteq> None \<or> y = a" for y using Mp by (auto simp: M'_def M1_def)
  have fs: "(\<exists>np. M q = Some np \<and> fn_fs np = y) \<Longrightarrow> (\<exists>np. M' q = Some np \<and> fn_fs np = y)" for q y
    using Mp la by (auto simp: M'_def M1_def p'_def M_def)
  have old: "\<exists>m0. M b = Some m0 \<and> b \<noteq> a \<and> (b \<noteq> fr \<and> m = m0 \<or> b = fr \<and> m0 = p \<and> m = p')" if "M' b = Some m" "b \<noteq> a" for b m
    using that Mp by (auto simp: M'_def M1_def split: if_splits)
  have place: "place_ok (c_fs x) M' b m" if "place_ok (c_fs x) M b m0" "fn_parent m = fn_parent m0" "fn_fs m = fn_fs m0"
      "fn_name m = fn_name m0" for b m m0
    using that fs by (auto simp: place_ok_def split: option.splits)
  let ?E = "E(fr := E fr - 1, a := 1)"
  show ?thesis
  proof (rule vinvI, unfold M')
    fix b m assume b: "M' b = Some m"
    show "refs_ok x M' ?E b m \<and> (fn_locked m \<longleftrightarrow> b \<in> L) \<and> good (key m) (v_dev s')
        \<and> children_ok (kin M') b m \<and> place_ok (c_fs x) M' b m"
    proof (cases "b = a")
      case True
      then have m: "m = n" using b by (simp add: M'_def)
      have "nchild (kin M) a = 0" using noch by (simp add: nchild_def)
      moreover have h0: "{h. \<exists>f. c_hand x h = Some f \<and> fh_node f = a} = {}"
        using la by (auto simp: handle_ok_def dest!: vinv_hand [OF inv])
      moreover have r0: "{f. \<exists>ff. c_fs x f = Some ff \<and> fs_root ff = a} = {}"
        using la by (auto dest: root_live [OF inv])
      ultimately have "refs_ok x M' ?E a n"
        using nc [of a] new(2) n(1) unfolding refs_ok_def nhand_def nroot_def h0 r0 by simp
      moreover have "children_ok (kin M') a n" using noch n(5) new(2) by (auto simp: children_ok_def kin)
      moreover have "place_ok (c_fs x) M' a n"
      proof -
        have "\<exists>ff. c_fs x f = Some ff" using vinv_place [OF inv p] e(2) by (auto simp: place_ok_def)
        moreover have "\<exists>np. M' fr = Some np \<and> fn_fs np = Some f" by (rule fs) (use Mp e(2) in simp)
        moreover have "fs_root gg \<noteq> a" if "c_fs x g = Some gg" for g gg using root_live [OF inv that] la by auto
        ultimately show ?thesis using n new(2) by (simp add: place_ok_def)
      qed
      ultimately show ?thesis unfolding True m using n new(4) s'(5) by simp
    next
      case False
      obtain m0 where m0: "M b = Some m0" "b \<noteq> fr \<and> m = m0 \<or> b = fr \<and> m0 = p \<and> m = p'" using old [OF b False] by blast
      have b': "live s x b = Some m0" using m0 by (simp add: M_def)
      have same: "fn_refs m = fn_refs m0" "fn_parent m = fn_parent m0" "fn_locked m = fn_locked m0" "key m = key m0"
        "fn_fs m = fn_fs m0" "fn_name m = fn_name m0" using m0(2) by (auto simp: p'_def)
      have ch: "children_ok (kin M') b m"
      proof (cases "b = fr")
        case True
        then show ?thesis
          using children_ok_add [of "kin M" fr ht p a nm, OF _ Ka none put] ht m0(2) by (simp add: kin p'_def M_def)
      next
        case False
        then have "children_ok (kin M) b m" using vinv_children [OF inv b'] m0(2) by (simp add: M_def)
        then show ?thesis
          using children_ok_other [of "kin M'" a fr "Some nm" b m, OF Ka' False] unfolding unadd by simp
      qed
      have "refs_ok x M' ?E b m"
        using vinv_refs [OF inv b'] nc [of b] same(1) False e(1) by (auto simp: refs_ok_def M_def)
      moreover have "place_ok (c_fs x) M' b m"
        by (rule place [OF _ same(2,5,6)]) (use vinv_place [OF inv b'] in \<open>simp add: M_def\<close>)
      ultimately show ?thesis using ch same vinv_locked [OF inv b'] vinv_good [OF inv b'] s'(5) by simp
    qed
  next
    fix g ff assume "v_fs s' g = Some ff"
    then have g: "v_fs s g = Some ff" by (simp add: s')
    show "fs_ok x M' (G(f := G f - 1)) g ff"
      using vinv_fs [OF inv g] nf [of g] dom e(3) by (auto simp: fs_ok_def M_def)
  next
    fix h fh assume "c_hand x h = Some fh"
    then show "handle_ok x M' fh"
      using vinv_hand [OF inv] dom [of "fh_node fh"] by (auto simp: handle_ok_def M_def)
  next
    fix b assume "v_nodes s' b \<noteq> None \<or> v_fs s' b \<noteq> None \<or> c_hand x b \<noteq> None"
    then show "b < v_next s'"
      using vinv_below [OF inv, of b] live_below [OF inv p] new(3) by (auto simp: s' split: if_splits)
  next
    fix b m assume "c_dying x b = Some m"
    then show "v_nodes s' b = Some m" using vinv_dying [OF inv, of b m] da dp by (auto simp: s')
  next
    fix b assume "0 < ?E b"
    then show "M' b \<noteq> None" using vinv_held [OF inv, of b] dom [of b] e(1) vinv_held [OF inv, of fr]
      by (auto simp: M_def split: if_splits)
  qed (use vinvD [OF inv] s' in auto)
qed

section \<open>One step\<close>

definition bump :: "nat option \<Rightarrow> (nat \<Rightarrow> nat) \<Rightarrow> nat \<Rightarrow> nat" where
  "bump r E = (case r of None \<Rightarrow> E | Some a \<Rightarrow> E(a := E a + 1))"

lemma bump_simps [simp]: "bump None E = E" "bump (Some a) E = E(a := E a + 1)"
  by (simp_all add: bump_def)

lemma free_block_simps [simp]:
  "v_nodes (free_block s) = v_nodes s" "v_fs (free_block s) = v_fs s" "v_files (free_block s) = v_files s"
  "v_next (free_block s) = v_next s" "v_dev (free_block s) = v_dev s"
  by (simp_all add: free_block_def)

lemma vinv_heap: "vinv x s E G L \<Longrightarrow> vinv x (s\<lparr>v_heap := h\<rparr>) E G L"
  by (rule vinv_step) (simp_all add: vinv_dev)

lemma vinv_free_block: "vinv x s E G L \<Longrightarrow> vinv x (free_block s) E G L"
  by (rule vinv_step) (simp_all add: vinv_dev)

lemma run_op_ok:
  assumes inv: "vinv x s E G L"
    and f: "ends (f (v_heap s, v_dev s)) (\<lambda>(r, h, d). dinv d \<and> (\<forall>k. good k (v_dev s) \<longrightarrow> good k d))"
  shows "ends (run_op f s) (\<lambda>s'. vinv x s' E G L \<and> v_nodes s' = v_nodes s \<and> v_next s' = v_next s)"
proof -
  obtain h d where hd: "f (v_heap s, v_dev s) = Inr ((), h, d)" "dinv d" "\<And>k. good k (v_dev s) \<Longrightarrow> good k d"
    using f by (auto simp: ends_iff)
  have "vinv x (s\<lparr>v_heap := h, v_dev := d\<rparr>) E G L" by (rule vinv_step [OF inv]) (use hd in simp_all)
  then show ?thesis by (simp add: run_op_def call_def hd(1))
qed

lemma walk_error_ok:
  assumes inv: "vinv x s E G {fr}" and e: "1 \<le> E fr"
    and d: "\<And>n. d = Some n \<Longrightarrow> good (key n) (v_dev s)"
  shows "ends (walk_error C fr d named s) (\<lambda>(r, s'). r = None \<and> vinv x s' E G {})"
proof -
  have r: "ends (case d of None \<Rightarrow> Inr s
      | Some n \<Rightarrow> (case op_dispose (ops_of C n) of None \<Rightarrow> Inl Bad_access | Some f \<Rightarrow> run_op (f n) s)) (\<lambda>s'. vinv x s' E G {fr})"
  proof (cases d)
    case (Some n)
    have gn: "good (key n) (v_dev s)" using Some by (rule d)
    obtain f where f: "op_dispose (ops_of C n) = Some f" using has_dispose [OF gn] by blast
    have "ends (run_op (f n) s) (\<lambda>s'. vinv x s' E G {fr} \<and> v_nodes s' = v_nodes s \<and> v_next s' = v_next s)"
      by (rule run_op_ok [OF inv]) (rule dispose_ok [OF vinv_dev [OF inv] gn f])
    then show ?thesis using Some f by (auto elim: ends_mono)
  qed (use inv in simp)
  show ?thesis
    unfolding walk_error_def
  proof (rule ends_rbind [OF r])
    fix s1 assume i: "vinv x s1 E G {fr}"
    define s2 where "s2 = free_block (if named then free_block s1 else s1)"
    have i2: "vinv x s2 E G {fr}" using i by (auto simp: s2_def intro: vinv_free_block)
    have "live s2 x fr \<noteq> None" using vinv_held [OF i2, of fr] e by simp
    from unlock_node_ok [OF i2 this] show "ends (let s2 = (if named then free_block s1 else s1)
        in rbind (unlock_node fr (free_block s2)) (\<lambda>s3. Inr (None, s3))) (\<lambda>(r, s'). r = None \<and> vinv x s' E G {})"
      unfolding Let_def s2_def by (auto intro: ends_rbind)
  qed
qed

lemma str_key_c_str [simp]: "str_key_eq_fun (c_str a) b = str_key_eq_fun a b"
  unfolding str_key_eq_fun_def by (metis strcmp_c_str c_str_idem)

text \<open>The table of the parent, made when there is none, answers nothing for a name that was not found.\<close>

lemma table_for_child:
  assumes co: "children_ok K a p" and none: "find_child p file = None"
    and ht: "(case fn_children p of Some ht \<Rightarrow> (Some ht, h) | None \<Rightarrow> create_hashtbl h str_key_eq_fun str_hash_fun False) = (Some ht, h1)"
  shows "children_ok K a (p\<lparr>fn_children := Some ht\<rparr>)" and "str_key_eq_fun (c_str file) k \<Longrightarrow> hashtbl_find ht k = None"
proof -
  have "children_ok K a (p\<lparr>fn_children := Some ht\<rparr>) \<and> hashtbl_find ht file = None"
  proof (cases "fn_children p")
    case None
    then have c: "create_hashtbl h str_key_eq_fun str_hash_fun False = (Some ht, h1)" using ht by simp
    have hk: "hash_keys str_key_eq_fun str_hash_fun" by unfold_locales
    note c1 = create_hashtbl_inv [OF hk c] create_hashtbl_funs [OF c]
    have "hashtbl_find ht k = None" for k using hashtbl_find_bound [OF c1(1), of k] c1(2) by (cases "hashtbl_find ht k") auto
    then show ?thesis using co None c1 by (simp add: children_ok_def ht_ok_def)
  next
    case (Some t)
    then show ?thesis using co none ht by (simp add: children_ok_def find_child_def)
  qed
  moreover from this have found: "\<And>k b. hashtbl_find ht k = Some b \<longleftrightarrow> (\<exists>nm. K b = Some (Some a, Some nm) \<and> str_key_eq_fun nm k)"
    by (simp add: children_ok_def)
  ultimately have f: "children_ok K a (p\<lparr>fn_children := Some ht\<rparr>)" "\<And>b nm. K b = Some (Some a, Some nm) \<Longrightarrow> \<not> str_key_eq_fun nm file"
    by (simp, metis option.distinct(1))
  show "children_ok K a (p\<lparr>fn_children := Some ht\<rparr>)" by (rule f)
  show "hashtbl_find ht k = None" if k: "str_key_eq_fun (c_str file) k"
  proof (rule ccontr)
    assume "hashtbl_find ht k \<noteq> None"
    then obtain b nm where b: "K b = Some (Some a, Some nm)" "str_key_eq_fun nm k" using found by blast
    have "str_key_eq_fun nm file" using str_keys.ef_right_cong [of "file" k nm] b(2) k by simp
    with f(2) [OF b(1)] show False by blast
  qed
qed

lemma walk_add_ok:
  assumes inv: "vinv x s E G {fr}" and e: "1 \<le> E fr" and held: "held_fs x G"
    and p: "live s x fr = Some p" and none: "find_child p file = None"
    and new: "v_nodes s a = None" "fr < a" "a < v_next s"
    and n: "fn_refs n = 1" "\<not> fn_locked n" "fn_name n = Some (c_str file)" "fn_fs n = fn_fs p" "fn_children n = None"
      "fn_parent n = Some fr" "good (key n) (v_dev s)"
  shows "ends (walk_add C fr a n s) (\<lambda>(r, s'). vinv x s' (bump r E) G {})"
proof -
  have dr: "deref (v_nodes s) fr = Inr p" using p by (simp add: live_Some)
  have err: "ends (walk_error C fr (Some n) True s') (\<lambda>(r, s'). vinv x s' (bump r E) G {})"
    if "vinv x s' E G {fr}" "v_dev s' = v_dev s" for s'
    using walk_error_ok [OF that(1) e, of "Some n" True] n(7) that(2) by (auto elim!: ends_mono)
  obtain f where f: "fn_fs p = Some f" "c_fs x f \<noteq> None" using vinv_place [OF inv p] by (auto simp: place_ok_def)
  have g1: "1 \<le> G f" using held f(2) by (simp add: held_fs_def)
  show ?thesis
  proof (cases "case fn_children p of Some ht \<Rightarrow> (Some ht, v_heap s)
      | None \<Rightarrow> create_hashtbl (v_heap s) str_key_eq_fun str_hash_fun False")
    case (Pair t h1)
    show ?thesis
    proof (cases t)
      case None
      then show ?thesis using Pair err [OF vinv_heap [OF inv]] by (simp add: walk_add_def dr)
    next
      case (Some ht)
      note tb = table_for_child [OF vinv_children [OF inv p] none Pair [unfolded Some]]
      obtain ok ht' h2 where put: "ht_put h1 ht (c_str file) a = (ok, ht', h2)" by (metis prod_cases3)
      define s1 where "s1 = (set_node fr (p\<lparr>fn_children := Some ht'\<rparr>) s)\<lparr>v_heap := h2\<rparr>"
      show ?thesis
      proof (cases ok)
        case False
        have hto: "ht_ok str_key_eq_fun str_hash_fun ht" using tb(1) by (simp add: children_ok_def)
        have "vinv x s1 (E(fr := E fr)) G (if fn_locked (p\<lparr>fn_children := Some ht'\<rparr>) then insert fr {fr} else {fr} - {fr})"
          by (rule vinv_set_node [OF inv p])
            (use tb(1) vinv_refs [OF inv p] vinv_dev [OF inv] ht_put_spec [OF hto put] False
              in \<open>simp_all add: s1_def children_ok_def refs_ok_def\<close>)
        then have "vinv x s1 E G {fr}" using vinv_locked [OF inv p] by simp
        moreover have "v_dev s1 = v_dev s" by (simp add: s1_def)
        ultimately show ?thesis using err put Pair Some False n(3) by (simp add: walk_add_def dr s1_def)
      next
        case True
        have put1: "ht_put h1 ht (c_str file) a = (True, ht', h2)" using put True by simp
        have i2: "vinv x (set_node a n s1) (E(fr := E fr - 1, a := 1)) (G(f := G f - 1)) {fr}"
          by (rule add_child [OF inv p e f(1) g1 new(1-3) _ tb put1])
            (use n f new(2) in \<open>simp_all add: s1_def\<close>)
        have lf: "live (set_node a n s1) x fr \<noteq> None"
          using p new(2) by (auto simp: live_def s1_def split: if_splits)
        have Ea: "E a = 0" using vinv_held [OF inv, of a] new(1) by (cases "E a") (auto simp: live_def split: if_splits)
        have r: "ends (rbind (unlock_node fr (set_node a n s1)) (\<lambda>s2. rbind (ref_fs_node fr s2) (\<lambda>s3.
            rbind (ref_fs f s3) (\<lambda>s4. Inr (Some a, s4))))) (\<lambda>(r, s'). vinv x s' (bump r E) G {})"
        proof (rule ends_rbind [OF unlock_node_ok [OF i2 lf]], elim conjE)
          fix s2 assume "vinv x s2 (E(fr := E fr - 1, a := 1)) (G(f := G f - 1)) ({fr} - {fr})"
            and l: "\<forall>b. live s2 x b = None \<longleftrightarrow> live (set_node a n s1) x b = None"
          then have i: "vinv x s2 (E(fr := E fr - 1, a := 1)) (G(f := G f - 1)) {}" by simp
          have E': "(E(fr := E fr - 1, a := 1))(fr := (E(fr := E fr - 1, a := 1)) fr + 1) = bump (Some a) E"
            using e new(2) Ea by (auto simp: fun_eq_iff)
          have "ends (ref_fs_node fr s2) (\<lambda>s3. vinv x s3 (bump (Some a) E) (G(f := G f - 1)) {} \<and> v_next s3 = v_next s2)"
            using ref_fs_node_ok [OF i, of fr] l lf unfolding E' by simp
          then show "ends (rbind (ref_fs_node fr s2) (\<lambda>s3. rbind (ref_fs f s3) (\<lambda>s4. Inr (Some a, s4))))
            (\<lambda>(r, s'). vinv x s' (bump r E) G {})"
          proof (rule ends_rbind, elim conjE)
            fix s3 assume i3: "vinv x s3 (bump (Some a) E) (G(f := G f - 1)) {}"
            have "v_fs s3 f \<noteq> None" using vinv_fss [OF i3, of f] f by auto
            moreover have "(G(f := G f - 1))(f := (G(f := G f - 1)) f + 1) = G" using g1 by auto
            ultimately show "ends (rbind (ref_fs f s3) (\<lambda>s4. Inr (Some a, s4))) (\<lambda>(r, s'). vinv x s' (bump r E) G {})"
              using ref_fs_ok [OF i3, of f] by (auto intro!: ends_rbind simp: ends_iff)
          qed
        qed
        then show ?thesis using put Pair Some True n f by (simp add: walk_add_def dr s1_def)
      qed
    qed
  qed
qed

lemma new_object_ok:
  assumes inv: "vinv x s E G L" and new: "new_object s = (r, s')"
  shows "vinv x s' E G L" and "v_nodes s' = v_nodes s" and "v_dev s' = v_dev s" and "live s' x = live s x"
    and "r = Some a \<Longrightarrow> a = v_next s \<and> v_next s' = v_next s + 1"
proof -
  have s': "v_nodes s' = v_nodes s" "v_fs s' = v_fs s" "v_files s' = v_files s" "v_next s \<le> v_next s'" "v_dev s' = v_dev s"
    using new by (auto simp: new_object_def split: prod.split_asm if_split_asm)
  show "vinv x s' E G L" by (rule vinv_step [OF inv s'(1-4)]) (use s'(5) vinv_dev [OF inv] in simp_all)
  show "v_nodes s' = v_nodes s" "v_dev s' = v_dev s" by (rule s')+
  show "live s' x = live s x" using s'(1) by (simp add: live_def fun_eq_iff)
  show "a = v_next s \<and> v_next s' = v_next s + 1" if "r = Some a"
    using new that by (auto simp: new_object_def split: prod.split_asm if_split_asm)
qed

lemma kin_child: "children_ok K a p \<Longrightarrow> find_child p file = Some b \<Longrightarrow> \<exists>nm. K b = Some (Some a, Some nm)"
  by (auto simp: children_ok_def find_child_def split: option.split_asm)

lemma fs_walk_one_ok:
  assumes inv: "vinv x s E G {}" and e: "1 \<le> E fr" and held: "held_fs x G"
  shows "ends (fs_walk_one C fr file s) (\<lambda>(r, s'). vinv x s' (bump r E) G {})"
proof -
  obtain p0 where p0: "live s x fr = Some p0" using vinv_held [OF inv, of fr] e by auto
  define p where "p = p0\<lparr>fn_locked := True\<rparr>"
  define s1 where "s1 = set_node fr p s"
  have lk: "lock_node fr s = Inr s1" "vinv x s1 E G {fr}" "live s1 x fr = Some p"
    using lock_node_ok [OF inv p0] by (auto simp: ends_iff s1_def p_def)
  have dr: "deref (v_nodes s1) fr = Inr p" by (simp add: s1_def)
  have fail: "ends (rbind (unlock_node fr t) (\<lambda>s3. Inr (None, s3))) (\<lambda>(r, s'). vinv x s' (bump r E) G {})"
    if t: "vinv x t E G {fr}" for t
  proof -
    have "live t x fr \<noteq> None" using vinv_held [OF t, of fr] e by simp
    from unlock_node_ok [OF t this] show ?thesis by (auto simp: ends_iff)
  qed
  have err: "ends (walk_error C fr None b t) (\<lambda>(r, s'). vinv x s' (bump r E) G {})" if t: "vinv x t E G {fr}" for t b
    using walk_error_ok [OF t e, of None b] by (auto elim!: ends_mono)
  show ?thesis
  proof (cases "find_child p file")
    case (Some a)
    have "\<exists>nm. kin (live s1 x) a = Some (Some fr, Some nm)"
      by (rule kin_child [OF vinv_children [OF lk(2,3)] Some])
    then obtain m where m: "live s1 x a = Some m" "fn_parent m = Some fr" by (auto simp: kin_Some)
    have af: "a \<noteq> fr" using vinv_place [OF lk(2) m(1)] m(2) by (auto simp: place_ok_def)
    have "ends (rbind (ref_fs_node a s1) (\<lambda>s2. rbind (unlock_node fr s2) (\<lambda>s3. Inr (Some a, s3))))
        (\<lambda>(r, s'). vinv x s' (bump r E) G {})"
    proof (rule ends_rbind [OF ref_fs_node_ok [OF lk(2), of a]])
      fix s2 assume "vinv x s2 (E(a := E a + 1)) G {fr} \<and> v_next s2 = v_next s1"
      then have t: "vinv x s2 (bump (Some a) E) G {fr}" by simp
      have "live s2 x fr \<noteq> None" using vinv_held [OF t, of fr] e by simp
      then show "ends (rbind (unlock_node fr s2) (\<lambda>s3. Inr (Some a, s3))) (\<lambda>(r, s'). vinv x s' (bump r E) G {})"
        using unlock_node_ok [OF t, of fr] by (auto simp: ends_iff)
    qed (use m af in auto)
    then show ?thesis using Some by (simp add: fs_walk_one_def lk(1) dr)
  next
    case None
    obtain r s2 where no: "new_object s1 = (r, s2)" by fastforce
    note n2 = new_object_ok [OF lk(2) no]
    show ?thesis
    proof (cases r)
      case None
      with \<open>find_child p file = None\<close> show ?thesis using fail [OF n2(1)] no by (simp add: fs_walk_one_def lk(1) dr)
    next
      case (Some a)
      have a: "a = v_next s1" "v_next s2 = v_next s1 + 1" using n2(5) [of a] Some by simp_all
      obtain ok h where sd: "heap_malloc (v_heap s2) = (ok, h)" by fastforce
      define s3 where "s3 = s2\<lparr>v_heap := h\<rparr>"
      have i3: "vinv x s3 E G {fr}" using vinv_heap [OF n2(1)] by (simp add: s3_def)
      have l3: "live s3 x fr = Some p" using lk(3) n2(2) by (simp add: s3_def live_Some)
      define n where "n = \<lparr>fn_refs = 1, fn_locked = False, fn_name = Some (c_str file), fn_fs = fn_fs p,
        fn_children = None, fn_parent = Some fr, fn_ops = 0, fn_data = 0, fn_pager = None\<rparr>"
      have f0: "find_child p file = None" by (rule None)
      show ?thesis
      proof (cases "ok \<and> op_walk (ops_of C p) \<noteq> None")
        case False
        have w: "ends (walk_error C fr None False s3) (\<lambda>(r, s'). vinv x s' (bump r E) G {})"
          "ends (walk_error C fr None True s3) (\<lambda>(r, s'). vinv x s' (bump r E) G {})" using err [OF i3] by simp_all
        show ?thesis
          using False w Some no sd f0 unfolding s3_def by (simp add: fs_walk_one_def lk(1) dr strdup_def Let_def split: option.split)
      next
        case True
        then obtain g where g: "op_walk (ops_of C p) = Some g" and ok by blast
        have gp: "good (key p) (v_dev s3)" using vinv_good [OF i3 l3] .
        obtain y where y: "g p file n (v_heap s3, v_dev s3) = Inr y" "case y of ((ok, n'), h', d') \<Rightarrow> dinv d'
            \<and> (\<forall>k. good k (v_dev s3) \<longrightarrow> good k d')
            \<and> (ok \<longrightarrow> (\<exists>o' dt pg. n' = n\<lparr>fn_ops := o', fn_data := dt, fn_pager := pg\<rparr> \<and> good (o', dt, pg) d'))"
          using walk_ok [OF vinv_dev [OF i3] gp g, of "file" n "v_heap s3"] unfolding ends_iff by blast
        obtain w n' h' d' where y': "y = ((w, n'), h', d')" by (metis prod.collapse)
        have w: "g p file n (v_heap s3, v_dev s3) = Inr ((w, n'), h', d')" "dinv d'"
            "\<And>k. good k (v_dev s3) \<Longrightarrow> good k d'"
            "w \<Longrightarrow> \<exists>o' dt pg. n' = n\<lparr>fn_ops := o', fn_data := dt, fn_pager := pg\<rparr> \<and> good (o', dt, pg) d'"
          using y unfolding y' prod.case by blast+
        define s4 where "s4 = s3\<lparr>v_heap := h', v_dev := d'\<rparr>"
        have i4: "vinv x s4 E G {fr}" by (rule vinv_step [OF i3]) (use w(2,3) in \<open>simp_all add: s4_def\<close>)
        have eq: "fs_walk_one C fr file s = (if w then walk_add C fr a n' s4 else walk_error C fr None True s4)"
          using Some no sd f0 \<open>ok\<close> g w(1) by (simp add: fs_walk_one_def lk(1) dr strdup_def Let_def call_def n_def s3_def s4_def)
        show ?thesis
        proof (cases w)
          case False
          then show ?thesis using err [OF i4] eq by simp
        next
          case True
          obtain o' dt pg where n': "n' = n\<lparr>fn_ops := o', fn_data := dt, fn_pager := pg\<rparr>" "good (o', dt, pg) d'"
            using w(4) [OF True] by blast
          have "v_nodes s1 a = None" using vinv_below [OF lk(2), of a] a(1) by fastforce
          then have new: "v_nodes s4 a = None" "fr < a" "a < v_next s4"
            using n2(2) a live_below [OF lk(2,3)] by (simp_all add: s4_def s3_def)
          have l4: "live s4 x fr = Some p" using l3 by (simp add: s4_def live_Some)
          have "ends (walk_add C fr a n' s4) (\<lambda>(r, s'). vinv x s' (bump r E) G {})"
            by (rule walk_add_ok [OF i4 e held l4 f0 new]) (use n' in \<open>simp_all add: n_def key_def s4_def\<close>)
          then show ?thesis using eq True by simp
        qed
      qed
    qed
  qed
qed

section \<open>Paths\<close>

lemma unref_node_ok:
  assumes inv: "vinv x s E G {}" and held: "held_fs x G" and e: "1 \<le> E a"
  shows "ends (unref_node C a s) (\<lambda>s'. vinv x s' (E(a := E a - 1)) G {})"
proof -
  obtain n where "live s x a = Some n" using vinv_held [OF inv, of a] e by auto
  then have "a < v_next s" by (rule live_below [OF inv])
  then show ?thesis
    using unref_fs_node_ok [OF inv held e, of "depth s"] unfolding unref_node_def
    by (auto simp: depth_def elim: ends_mono)
qed

lemma bump_unref: "1 \<le> E n \<Longrightarrow> (bump r E)(n := bump r E n - 1) = bump r (E(n := E n - 1))"
  by (cases r) auto

lemma bump_put: "1 \<le> E n \<Longrightarrow> bump (Some n) (E(n := E n - 1)) = E"
  by auto

lemma bump_drop: "(bump (Some m) E)(m := bump (Some m) E m - 1) = E"
  by auto

lemma bump_one: "1 \<le> bump (Some m) E m"
  by simp

lemma bump_ge: "E n \<le> bump r E n"
  by (cases r) auto

text \<open>A step from \<open>n\<close>, whose reference is then given back.\<close>

lemma step_ok:
  assumes inv: "vinv x s E G {}" and held: "held_fs x G" and e: "1 \<le> E n"
    and f: "\<And>r s'. vinv x s' (bump r (E(n := E n - 1))) G {} \<Longrightarrow> ends (f r s') Q"
  shows "ends (rbind (fs_walk_one C n name s) (\<lambda>(n2, s1). rbind (unref_node C n s1) (f n2))) Q"
proof (rule ends_rbind [OF fs_walk_one_ok [OF inv e held]], clarify)
  fix r t assume t: "vinv x t (bump r E) G {}"
  have "1 \<le> bump r E n" using e bump_ge [of E n r] by simp
  from unref_node_ok [OF t held this] show "ends (rbind (unref_node C n t) (f r)) Q"
    unfolding bump_unref [of E n r, OF e] by (rule ends_rbind) (rule f)
qed

lemma walk_from_ok:
  "vinv x s E G {} \<Longrightarrow> held_fs x G \<Longrightarrow> 1 \<le> E n \<Longrightarrow>
     ends (walk_from C n path s) (\<lambda>(r, s'). vinv x s' (bump r (E(n := E n - 1))) G {})"
proof (induction path arbitrary: n s E rule: length_induct)
  case (1 path)
  have same: "bump (Some n) (E(n := E n - 1)) = E" using 1(4) by (rule bump_put)
  have stop: "ends (rbind (unref_node C n s) (\<lambda>s1. Inr (None, s1))) (\<lambda>(r, s'). vinv x s' (bump r (E(n := E n - 1))) G {})"
    by (rule ends_rbind [OF unref_node_ok [OF 1(2,3,4)]]) simp
  show ?case
  proof (cases "path = [] \<or> hd path = CHR ''/''")
    case True
    then show ?thesis using stop 1(2) same
      by (auto simp: walk_from.simps [of C n path] simp del: fun_upd_apply bump_simps)
  next
    case False
    show ?thesis
    proof (cases "strchr path (CHR ''/'')")
      case None
      have "ends (rbind (fs_walk_one C n path s) (\<lambda>(n2, s1). rbind (unref_node C n s1) (\<lambda>s2. Inr (n2, s2))))
          (\<lambda>(r, s'). vinv x s' (bump r (E(n := E n - 1))) G {})"
        by (rule step_ok [OF 1(2,3,4)]) simp
      then show ?thesis using False None by (simp add: walk_from.simps [of C n path] del: fun_upd_apply bump_simps)
    next
      case (Some d)
      show ?thesis
      proof (cases "d \<ge> DIR_MAX - 1")
        case True
        then show ?thesis using False Some stop by (simp add: walk_from.simps [of C n path] del: fun_upd_apply bump_simps)
      next
        case small: False
        have "ends (rbind (fs_walk_one C n (take d path) s) (\<lambda>(n2, s1). rbind (unref_node C n s1) (\<lambda>s2.
            (case n2 of None \<Rightarrow> Inr (None, s2) | Some m \<Rightarrow> walk_from C m (drop (d + 1) path) s2))))
            (\<lambda>(r, s'). vinv x s' (bump r (E(n := E n - 1))) G {})"
        proof (rule step_ok [OF 1(2,3,4)])
          fix r t assume t: "vinv x t (bump r (E(n := E n - 1))) G {}"
          show "ends (case r of None \<Rightarrow> Inr (None, t) | Some m \<Rightarrow> walk_from C m (drop (d + 1) path) t)
              (\<lambda>(r, s'). vinv x s' (bump r (E(n := E n - 1))) G {})"
          proof (cases r)
            case (Some m)
            have "length (drop (d + 1) path) < length path" using False by simp
            then have "ends (walk_from C m (drop (d + 1) path) t) (\<lambda>(r', s'). vinv x s' (bump r' ((bump (Some m) (E(n := E n - 1)))
                (m := bump (Some m) (E(n := E n - 1)) m - 1))) G {})"
              by (rule 1(1) [rule_format, OF _ t [unfolded Some] 1(3) bump_one])
            then show ?thesis unfolding Some bump_drop by simp
          qed (use t in simp)
        qed
        then show ?thesis using False Some small by (simp add: walk_from.simps [of C n path] del: fun_upd_apply bump_simps)
      qed
    qed
  qed
qed

lemma fs_walk_path_ok:
  assumes inv: "vinv x s E G {}" and held: "held_fs x G" and l: "live s x n \<noteq> None"
  shows "ends (fs_walk_path C n path s) (\<lambda>(r, s'). vinv x s' (bump r E) G {})"
  unfolding fs_walk_path_def
proof (rule ends_rbind [OF ref_fs_node_ok [OF inv l]])
  fix t assume t: "vinv x t (E(n := E n + 1)) G {} \<and> v_next t = v_next s"
  have e: "(E(n := E n + 1))(n := (E(n := E n + 1)) n - 1) = E" by auto
  show "ends (walk_from C n (skip_slash (c_str path)) t) (\<lambda>(r, s'). vinv x s' (bump r E) G {})"
    using walk_from_ok [OF conjunct1 [OF t] held, of n] unfolding e by simp
qed simp

lemma except_last_ok:
  "vinv x s E G {} \<Longrightarrow> held_fs x G \<Longrightarrow> 1 \<le> E n \<Longrightarrow>
     ends (except_last_from C n path buf s) (\<lambda>((r, b), s'). vinv x s' (bump r (E(n := E n - 1))) G {})"
proof (induction path arbitrary: n s E buf rule: length_induct)
  case (1 path)
  have stop: "ends (rbind (unref_node C n s) (\<lambda>s1. Inr ((None, buf), s1)))
      (\<lambda>((r, b), s'). vinv x s' (bump r (E(n := E n - 1))) G {})"
    by (rule ends_rbind [OF unref_node_ok [OF 1(2,3,4)]]) simp
  have same: "bump (Some n) (E(n := E n - 1)) = E" using 1(4) by (rule bump_put)
  show ?case
  proof (cases "path = [] \<or> hd path = CHR ''/''")
    case True
    then show ?thesis using stop same 1(2) by (auto simp: except_last_from.simps [of C n path] simp del: fun_upd_apply bump_simps)
  next
    case False
    show ?thesis
    proof (cases "strchr path (CHR ''/'')")
      case None
      then show ?thesis using False stop same 1(2) by (simp add: except_last_from.simps [of C n path] del: fun_upd_apply bump_simps)
    next
      case (Some d)
      show ?thesis
      proof (cases "d \<ge> DIR_MAX - 1 \<or> drop (d + 1) path = []")
        case True
        then show ?thesis using False Some stop same 1(2) by (auto simp: except_last_from.simps [of C n path] simp del: fun_upd_apply bump_simps)
      next
        case small: False
        have "ends (rbind (fs_walk_one C n (take d path) s) (\<lambda>(n2, s1). rbind (unref_node C n s1) (\<lambda>s2.
            (case n2 of None \<Rightarrow> Inr ((None, take d path), s2)
             | Some m \<Rightarrow> except_last_from C m (drop (d + 1) path) (take d path) s2))))
            (\<lambda>((r, b), s'). vinv x s' (bump r (E(n := E n - 1))) G {})"
        proof (rule step_ok [OF 1(2,3,4)])
          fix r t assume t: "vinv x t (bump r (E(n := E n - 1))) G {}"
          show "ends (case r of None \<Rightarrow> Inr ((None, take d path), t)
              | Some m \<Rightarrow> except_last_from C m (drop (d + 1) path) (take d path) t)
              (\<lambda>((r, b), s'). vinv x s' (bump r (E(n := E n - 1))) G {})"
          proof (cases r)
            case (Some m)
            have "length (drop (d + 1) path) < length path" using False by simp
            then have "ends (except_last_from C m (drop (d + 1) path) (take d path) t) (\<lambda>((r', b), s').
                vinv x s' (bump r' ((bump (Some m) (E(n := E n - 1)))(m := bump (Some m) (E(n := E n - 1)) m - 1))) G {})"
              by (rule 1(1) [rule_format, OF _ t [unfolded Some] 1(3) bump_one])
            then show ?thesis unfolding Some bump_drop by simp
          qed (use t in simp)
        qed
        then show ?thesis using False Some small by (simp add: except_last_from.simps [of C n path] del: fun_upd_apply bump_simps)
      qed
    qed
  qed
qed

lemma fs_walk_path_except_last_ok:
  assumes inv: "vinv x s E G {}" and held: "held_fs x G" and l: "live s x n \<noteq> None"
  shows "ends (fs_walk_path_except_last C n path s) (\<lambda>((r, b), s'). vinv x s' (bump r E) G {})"
proof (cases "skip_slash (c_str path) = []")
  case True
  then show ?thesis using inv by (simp add: fs_walk_path_except_last_def)
next
  case False
  have "ends (rbind (ref_fs_node n s) (except_last_from C n (skip_slash (c_str path)) []))
      (\<lambda>((r, b), s'). vinv x s' (bump r E) G {})"
  proof (rule ends_rbind [OF ref_fs_node_ok [OF inv l]])
    fix t assume t: "vinv x t (E(n := E n + 1)) G {} \<and> v_next t = v_next s"
    have e: "(E(n := E n + 1))(n := (E(n := E n + 1)) n - 1) = E" by auto
    show "ends (except_last_from C n (skip_slash (c_str path)) [] t) (\<lambda>((r, b), s'). vinv x s' (bump r E) G {})"
      using except_last_ok [OF conjunct1 [OF t] held, of n] unfolding e by simp
  qed simp
  then show ?thesis using False by (simp add: fs_walk_path_except_last_def Let_def)
qed

end

end
