(* ===== verification/Vfs_Ops.thy ===== *)
theory Vfs_Ops
  imports Vfs_Walk
begin

text \<open>
  The operations on paths and on handles: between two calls, the only references are those of the children, the handles
  and the file systems.
\<close>

section \<open>Counting handles\<close>

definition cnt :: "(nat \<Rightarrow> fs_handle option) \<Rightarrow> (fs_handle \<Rightarrow> bool) \<Rightarrow> nat" where
  "cnt H P = card {h. \<exists>f. H h = Some f \<and> P f}"

lemma cnt_eqs: "nhand H a = cnt H (\<lambda>f. fh_node f = a)" "fshand H g = cnt H (\<lambda>f. fh_fs f = Some g)"
  by (simp_all add: cnt_def nhand_def fshand_def)

lemma cnt_del:
  assumes fin: "finite {h. \<exists>f. H h = Some f \<and> P f}" and h: "H h = Some fh"
  shows "cnt H P = cnt (H(h := None)) P + (if P fh then 1 else 0)"
proof (cases "P fh")
  case True
  have "cnt H P = cnt (H(h := None)) P + 1"
    unfolding cnt_def by (rule card_less_one [where a = h]) (use assms True in auto)
  with True show ?thesis by simp
next
  case False
  have "{h. \<exists>f. H h = Some f \<and> P f} = {b. \<exists>f. (H(h := None)) b = Some f \<and> P f}" using h False by auto
  with False show ?thesis by (simp add: cnt_def)
qed

lemma cnt_add:
  assumes fin: "finite {h. \<exists>f. H h = Some f \<and> P f}" and h: "H h = None"
  shows "cnt (H(h \<mapsto> fh)) P = cnt H P + (if P fh then 1 else 0)"
proof -
  have "finite {b. \<exists>f. (H(h \<mapsto> fh)) b = Some f \<and> P f}"
    by (rule finite_subset [of _ "insert h {h. \<exists>f. H h = Some f \<and> P f}"]) (use fin in \<open>auto split: if_splits\<close>)
  then have "cnt (H(h \<mapsto> fh)) P = cnt ((H(h \<mapsto> fh))(h := None)) P + (if P fh then 1 else 0)" by (rule cnt_del) simp
  moreover have "(H(h \<mapsto> fh))(h := None) = H" using h by auto
  ultimately show ?thesis by simp
qed

lemma cnt_change: "H h = Some fh \<Longrightarrow> P fh' = P fh \<Longrightarrow> cnt (H(h \<mapsto> fh')) P = cnt H P"
  unfolding cnt_def by (rule arg_cong [where f = card]) auto

definition set_hands :: "(nat \<Rightarrow> fs_handle option) \<Rightarrow> (nat \<Rightarrow> fs_handle option) \<Rightarrow> cx \<Rightarrow> cx" where
  "set_hands W H x = x\<lparr>c_files := W, c_hand := H\<rparr>"

text \<open>The counts, without the context: what a reader of the state can check.\<close>

definition counts_exact :: "'s vfs \<Rightarrow> bool" where
  "counts_exact s \<longleftrightarrow>
     (\<forall>a n. v_nodes s a = Some n \<longrightarrow> \<not> fn_locked n
        \<and> fn_refs n = int (nchild (kin (v_nodes s)) a + nhand (v_files s) a + nroot (v_fs s) a))
     \<and> (\<forall>f ff. v_fs s f = Some ff \<longrightarrow> \<not> fs_locked ff
        \<and> fs_refs ff = 1 + int (fsnodes (v_nodes s) f + fshand (v_files s) f))"

context vfs_driver
begin

lemma vinv_hands:
  assumes inv: "vinv x s E G L"
    and E': "\<And>q. E' q + nhand H q = E q + nhand (c_hand x) q" and G': "\<And>g. G' g + fshand H g = G g + fshand (c_hand x) g"
    and H: "\<And>h fh. H h = Some fh \<Longrightarrow> handle_ok x (live s x) fh \<and> h < v_next s"
    and held: "\<And>a. 0 < E' a \<Longrightarrow> live s x a \<noteq> None"
  shows "vinv (set_hands W H x) (s\<lparr>v_files := W\<rparr>) E' G' L"
proof -
  let ?x = "set_hands W H x"
  have l: "live (s\<lparr>v_files := W\<rparr>) ?x = live s x" by (simp add: live_def set_hands_def fun_eq_iff)
  have c: "c_files ?x = W" "c_hand ?x = H" "c_fs ?x = c_fs x" "c_dying ?x = c_dying x" by (simp_all add: set_hands_def)
  have r: "refs_ok ?x M E' a n = refs_ok x M E a n" for M a n
    using E' [of a] by (auto simp: refs_ok_def c)
  have f: "fs_ok ?x M G' g ff = fs_ok x M G g ff" for M g ff
    using G' [of g] by (auto simp: fs_ok_def c)
  show ?thesis
  proof (rule vinvI, unfold l)
    fix b m assume "live s x b = Some m"
    then show "refs_ok ?x (live s x) E' b m \<and> fn_locked m = (b \<in> L) \<and> good (key m) (v_dev (s\<lparr>v_files := W\<rparr>))
        \<and> children_ok (kin (live s x)) b m \<and> place_ok (c_fs ?x) (live s x) b m"
      using vinvD [OF inv] by (simp add: r c)
  next
    fix g ff assume "v_fs (s\<lparr>v_files := W\<rparr>) g = Some ff"
    then show "fs_ok ?x (live s x) G' g ff" using vinv_fs [OF inv] by (simp add: f)
  next
    fix h fh assume "c_hand ?x h = Some fh"
    then show "handle_ok ?x (live s x) fh" using H by (simp add: c handle_ok_def)
  next
    fix b assume "v_nodes (s\<lparr>v_files := W\<rparr>) b \<noteq> None \<or> v_fs (s\<lparr>v_files := W\<rparr>) b \<noteq> None \<or> c_hand ?x b \<noteq> None"
    then show "b < v_next (s\<lparr>v_files := W\<rparr>)" using vinv_below [OF inv, of b] H by (auto simp: c)
  qed (use vinvD [OF inv] held in \<open>auto simp: c\<close>)
qed

lemma hand_counts:
  assumes "vinv x s E G L"
  shows "c_hand x h = Some fh \<Longrightarrow> nhand (c_hand x) q = nhand ((c_hand x)(h := None)) q + (if fh_node fh = q then 1 else 0)"
    and "c_hand x h = Some fh \<Longrightarrow> fshand (c_hand x) g = fshand ((c_hand x)(h := None)) g + (if fh_fs fh = Some g then 1 else 0)"
    and "c_hand x h = None \<Longrightarrow> nhand ((c_hand x)(h \<mapsto> fh)) q = nhand (c_hand x) q + (if fh_node fh = q then 1 else 0)"
    and "c_hand x h = None \<Longrightarrow> fshand ((c_hand x)(h \<mapsto> fh)) g = fshand (c_hand x) g + (if fh_fs fh = Some g then 1 else 0)"
  unfolding cnt_eqs
  by (rule cnt_del [OF finite_files [OF assms]], assumption)+ (rule cnt_add [OF finite_files [OF assms]], assumption)+

section \<open>Operations on a node\<close>

lemma call_ok:
  assumes inv: "vinv x s E G L"
    and f: "ends (f (v_heap s, v_dev s)) (\<lambda>(r, h, d). dinv d \<and> (\<forall>k. good k (v_dev s) \<longrightarrow> good k d))"
  shows "ends (call f s) (\<lambda>(r, s'). vinv x s' E G L \<and> v_nodes s' = v_nodes s \<and> v_next s' = v_next s \<and> v_files s' = v_files s)"
proof -
  obtain r h d where hd: "f (v_heap s, v_dev s) = Inr (r, h, d)" "dinv d" "\<And>k. good k (v_dev s) \<Longrightarrow> good k d"
    using f by (auto simp: ends_iff)
  have "vinv x (s\<lparr>v_heap := h, v_dev := d\<rparr>) E G L" by (rule vinv_step [OF inv]) (use hd in simp_all)
  then show ?thesis by (simp add: call_def hd(1))
qed

text \<open>A node that the caller holds is locked, worked on, unlocked and given back.\<close>

lemma locked_work:
  assumes inv: "vinv x s E G {}" and held: "held_fs x G" and e: "1 \<le> E a"
    and act: "\<And>nd t. vinv x t E G {a} \<Longrightarrow> live t x a = Some nd \<Longrightarrow> ends (act nd t) (\<lambda>(r, t'). vinv x t' E G {a})"
  shows "ends (rbind (lock_node a s) (\<lambda>s2. rbind (deref (v_nodes s2) a) (\<lambda>nd. rbind (act nd s2) (\<lambda>(ret, s3).
      rbind (unlock_node a s3) (\<lambda>s4. rbind (unref_node C a s4) (\<lambda>s5. Inr (ret, s5)))))))
    (\<lambda>(r, s'). vinv x s' (E(a := E a - 1)) G {})"
proof -
  obtain n where n: "live s x a = Some n" using vinv_held [OF inv, of a] e by auto
  show ?thesis
  proof (rule ends_rbind [OF lock_node_ok [OF inv n]], simp, elim conjE)
    fix t assume t: "vinv x t E G {a}" and lt: "live t x a = Some (n\<lparr>fn_locked := True\<rparr>)"
    have dr: "deref (v_nodes t) a = Inr (n\<lparr>fn_locked := True\<rparr>)" using lt by (simp add: live_Some)
    show "ends (rbind (deref (v_nodes t) a) (\<lambda>nd. rbind (act nd t) (\<lambda>(ret, s3).
        rbind (unlock_node a s3) (\<lambda>s4. rbind (unref_node C a s4) (\<lambda>s5. Inr (ret, s5))))))
        (\<lambda>(r, s'). vinv x s' (E(a := E a - 1)) G {})"
      unfolding dr rbind_simps
    proof (rule ends_rbind [OF act [OF t lt]], clarify)
      fix r u assume u: "vinv x u E G {a}"
      have lu: "live u x a \<noteq> None" using vinv_held [OF u, of a] e by simp
      show "ends (rbind (unlock_node a u) (\<lambda>s4. rbind (unref_node C a s4) (\<lambda>s5. Inr (r, s5))))
          (\<lambda>(r, s'). vinv x s' (E(a := E a - 1)) G {})"
      proof (rule ends_rbind [OF unlock_node_ok [OF u lu]], elim conjE)
        fix v assume v: "vinv x v E G ({a} - {a})"
        then have v': "vinv x v E G {}" by simp
        show "ends (rbind (unref_node C a v) (\<lambda>s5. Inr (r, s5))) (\<lambda>(r, s'). vinv x s' (E(a := E a - 1)) G {})"
          by (rule ends_rbind [OF unref_node_ok [OF v' held e]]) simp
      qed
    qed
  qed
qed

lemma fs_known: "vinv x s E G L \<Longrightarrow> c_fs x fa \<noteq> None \<Longrightarrow> \<exists>f. v_fs s fa = Some f \<and> live s x (fs_root f) \<noteq> None"
  using vinv_fss [of x s E G L fa] vinv_fs [of x s E G L fa] by (auto simp: fs_ok_def)

lemma bump_taken: "(bump (Some a) E)(a := bump (Some a) E a - 1) = E"
  by auto

lemma fs_create_ok:
  assumes inv: "vinv x s E G {}" and held: "held_fs x G" and fa: "c_fs x fa \<noteq> None"
  shows "ends (fs_create C fa file type s) (\<lambda>(r, s'). vinv x s' E G {})"
proof -
  obtain f where f: "v_fs s fa = Some f" "live s x (fs_root f) \<noteq> None" using fs_known [OF inv fa] by blast
  have "ends (rbind (fs_walk_path_except_last C (fs_root f) file s) (\<lambda>((n, name), s1).
      case n of None \<Rightarrow> Inr (False, s1)
      | Some a \<Rightarrow> rbind (lock_node a s1) (\<lambda>s2. rbind (deref (v_nodes s2) a) (\<lambda>nd.
          rbind (call_if (op_create (ops_of C nd)) (\<lambda>g. g nd name type) s2) (\<lambda>(ret, s3).
          rbind (unlock_node a s3) (\<lambda>s4. rbind (unref_node C a s4) (\<lambda>s5. Inr (ret, s5))))))))
      (\<lambda>(r, s'). vinv x s' E G {})"
  proof (rule ends_rbind [OF fs_walk_path_except_last_ok [OF inv held f(2)]], clarify)
    fix n name t assume t: "vinv x t (bump n E) G {}"
    show "ends (case n of None \<Rightarrow> Inr (False, t)
      | Some a \<Rightarrow> rbind (lock_node a t) (\<lambda>s2. rbind (deref (v_nodes s2) a) (\<lambda>nd.
          rbind (call_if (op_create (ops_of C nd)) (\<lambda>g. g nd name type) s2) (\<lambda>(ret, s3).
          rbind (unlock_node a s3) (\<lambda>s4. rbind (unref_node C a s4) (\<lambda>s5. Inr (ret, s5)))))))
      (\<lambda>(r, s'). vinv x s' E G {})"
    proof (cases n)
      case (Some a)
      have "ends (rbind (lock_node a t) (\<lambda>s2. rbind (deref (v_nodes s2) a) (\<lambda>nd.
          rbind (call_if (op_create (ops_of C nd)) (\<lambda>g. g nd name type) s2) (\<lambda>(ret, s3).
          rbind (unlock_node a s3) (\<lambda>s4. rbind (unref_node C a s4) (\<lambda>s5. Inr (ret, s5)))))))
        (\<lambda>(r, s'). vinv x s' ((bump n E)(a := bump n E a - 1)) G {})"
      proof (rule locked_work [OF t held])
        fix nd u assume u: "vinv x u (bump n E) G {a}" "live u x a = Some nd"
        show "ends (call_if (op_create (ops_of C nd)) (\<lambda>g. g nd name type) u) (\<lambda>(r, t'). vinv x t' (bump n E) G {a})"
        proof (cases "op_create (ops_of C nd)")
          case (Some g)
          have "ends (call (g nd name type) u) (\<lambda>(r, s'). vinv x s' (bump n E) G {a} \<and> v_nodes s' = v_nodes u
              \<and> v_next s' = v_next u \<and> v_files s' = v_files u)"
            by (rule call_ok [OF u(1)]) (rule create_ok [OF vinv_dev [OF u(1)] vinv_good [OF u] Some])
          then show ?thesis using Some by (auto simp: call_if_def elim!: ends_mono)
        qed (use u in \<open>simp add: call_if_def\<close>)
      qed (use Some in simp)
      then show ?thesis unfolding Some bump_taken by simp
    qed (use t in simp)
  qed
  then show ?thesis using f inv by (simp add: fs_create_def)
qed

lemma fs_stat_ok:
  assumes inv: "vinv x s E G {}" and held: "held_fs x G" and fa: "c_fs x fa \<noteq> None"
  shows "ends (fs_stat C fa file s) (\<lambda>(r, s'). vinv x s' E G {})"
proof -
  obtain f where f: "v_fs s fa = Some f" "live s x (fs_root f) \<noteq> None" using fs_known [OF inv fa] by blast
  let ?work = "\<lambda>a t. rbind (lock_node a t) (\<lambda>s2. rbind (deref (v_nodes s2) a) (\<lambda>nd.
          rbind (case op_stat (ops_of C nd) of None \<Rightarrow> Inr (None, s2) | Some g \<Rightarrow> call (g nd) s2) (\<lambda>(st, s3).
          rbind (unlock_node a s3) (\<lambda>s4. rbind (unref_node C a s4) (\<lambda>s5. Inr (st, s5))))))"
  have "ends (rbind (fs_walk_path C (fs_root f) file s) (\<lambda>(n, s1). case n of None \<Rightarrow> Inr (None, s1) | Some a \<Rightarrow> ?work a s1))
      (\<lambda>(r, s'). vinv x s' E G {})"
  proof (rule ends_rbind [OF fs_walk_path_ok [OF inv held f(2)]], clarify)
    fix n t assume t: "vinv x t (bump n E) G {}"
    show "ends (case n of None \<Rightarrow> Inr (None, t) | Some a \<Rightarrow> ?work a t) (\<lambda>(r, s'). vinv x s' E G {})"
    proof (cases n)
      case (Some a)
      have "ends (?work a t) (\<lambda>(r, s'). vinv x s' ((bump n E)(a := bump n E a - 1)) G {})"
      proof (rule locked_work [OF t held])
        fix nd u assume u: "vinv x u (bump n E) G {a}" "live u x a = Some nd"
        show "ends (case op_stat (ops_of C nd) of None \<Rightarrow> Inr (None, u) | Some g \<Rightarrow> call (g nd) u)
            (\<lambda>(r, t'). vinv x t' (bump n E) G {a})"
        proof (cases "op_stat (ops_of C nd)")
          case (Some g)
          have "ends (call (g nd) u) (\<lambda>(r, s'). vinv x s' (bump n E) G {a} \<and> v_nodes s' = v_nodes u
              \<and> v_next s' = v_next u \<and> v_files s' = v_files u)"
            by (rule call_ok [OF u(1)]) (rule stat_ok [OF vinv_dev [OF u(1)] vinv_good [OF u] Some])
          then show ?thesis using Some by (auto elim!: ends_mono)
        qed (use u in simp)
      qed (use Some in simp)
      then show ?thesis unfolding Some bump_taken by simp
    qed (use t in simp)
  qed
  then show ?thesis using f by (simp add: fs_stat_def)
qed

section \<open>Handles\<close>

definition add_hand :: "nat \<Rightarrow> fs_handle \<Rightarrow> cx \<Rightarrow> cx" where
  "add_hand h fh x = set_hands ((c_files x)(h \<mapsto> fh)) ((c_hand x)(h \<mapsto> fh)) x"

lemma add_hand_ok:
  assumes inv: "vinv x s E G L" and new: "c_hand x h = None" "h < v_next s"
    and fh: "fh_refs fh = 1" "\<not> fh_locked fh" "fh_fs fh = Some fa" and e: "1 \<le> E (fh_node fh)"
    and fa: "c_fs x fa \<noteq> None" "1 \<le> G fa"
  shows "vinv (add_hand h fh x) (s\<lparr>v_files := (c_files x)(h \<mapsto> fh)\<rparr>)
    (E(fh_node fh := E (fh_node fh) - 1)) (G(fa := G fa - 1)) L"
  unfolding add_hand_def
proof (rule vinv_hands [OF inv])
  show "(E(fh_node fh := E (fh_node fh) - 1)) q + nhand ((c_hand x)(h \<mapsto> fh)) q = E q + nhand (c_hand x) q" for q
    using hand_counts(3) [OF inv new(1), of fh q] e by auto
  show "(G(fa := G fa - 1)) g + fshand ((c_hand x)(h \<mapsto> fh)) g = G g + fshand (c_hand x) g" for g
    using hand_counts(4) [OF inv new(1), of fh g] fh(3) fa(2) by auto
  show "handle_ok x (live s x) fh' \<and> h' < v_next s" if "((c_hand x)(h \<mapsto> fh)) h' = Some fh'" for h' fh'
    using that vinv_hand [OF inv, of h' fh'] vinv_below [OF inv, of h'] new(2) fh e fa(1) vinv_held [OF inv, of "fh_node fh"]
    by (auto simp: handle_ok_def split: if_splits)
  show "live s x b \<noteq> None" if "0 < (E(fh_node fh := E (fh_node fh) - 1)) b" for b
    using that vinv_held [OF inv, of b] by (auto split: if_splits)
qed

text \<open>The result of opening: no handle, or a new one that takes over the reference to the node.\<close>

definition opened :: "cx \<Rightarrow> (nat \<Rightarrow> nat) \<Rightarrow> (nat \<Rightarrow> nat) \<Rightarrow> nat option \<times> 's vfs \<Rightarrow> bool" where
  "opened x E G = (\<lambda>(r, s'). case r of None \<Rightarrow> vinv x s' E G {}
     | Some h \<Rightarrow> \<exists>fh. c_hand x h = None \<and> fh_refs fh = 1 \<and> vinv (add_hand h fh x) s' E G {})"

lemma unlock_unref:
  assumes inv: "vinv x s E G {a}" and held: "held_fs x G" and e: "1 \<le> E a"
    and f: "\<And>t. vinv x t (E(a := E a - 1)) G {} \<Longrightarrow> ends (f t) Q"
  shows "ends (rbind (unlock_node a s) (\<lambda>s3. rbind (unref_node C a s3) f)) Q"
proof -
  have l: "live s x a \<noteq> None" using vinv_held [OF inv, of a] e by simp
  show ?thesis
  proof (rule ends_rbind [OF unlock_node_ok [OF inv l]], elim conjE)
    fix t assume "vinv x t E G ({a} - {a})"
    then have "vinv x t E G {}" by simp
    from unref_node_ok [OF this held e] show "ends (rbind (unref_node C a t) f) Q" by (rule ends_rbind) (rule f)
  qed
qed

lemma open_node_ok:
  assumes inv: "vinv x s E G {}" and held: "held_fs x G" and e: "1 \<le> E a" and fa: "c_fs x fa \<noteq> None"
  shows "ends (open_node C fa a mode s) (opened x (E(a := E a - 1)) G)"
proof -
  obtain n where n: "live s x a = Some n" using vinv_held [OF inv, of a] e by auto
  define m where "m = mode AND NOT FM_CREATE"
  show ?thesis
    unfolding open_node_def
  proof (rule ends_rbind [OF lock_node_ok [OF inv n]], simp, elim conjE)
    fix s1 assume i1: "vinv x s1 E G {a}" and l1: "live s1 x a = Some (n\<lparr>fn_locked := True\<rparr>)"
    define n1 where "n1 = n\<lparr>fn_locked := True\<rparr>"
    obtain r s2 where no: "new_object s1 = (r, s2)" by fastforce
    note n2 = new_object_ok [OF i1 no]
    show "ends (let mode = mode AND NOT FM_CREATE
        in case new_object s1 of
             (None, s2) \<Rightarrow> rbind (unlock_node a s2) (\<lambda>s3. rbind (unref_node C a s3) (\<lambda>s4. Inr (None, s4)))
           | (Some h, s2) \<Rightarrow>
               rbind (deref (v_nodes s2) a) (\<lambda>n.
                 case op_open (ops_of C n) of
                   None \<Rightarrow> Inl Bad_access
                 | Some g \<Rightarrow>
                     rbind (call (g n mode) s2) (\<lambda>(open_ok, s3).
                       if \<not> open_ok then
                         rbind (unlock_node a s3) (\<lambda>s4. rbind (unref_node C a s4) (\<lambda>s5. Inr (None, free_block s5)))
                       else
                         rbind (unlock_node a (s3\<lparr>v_files := (v_files s3)(h \<mapsto>
                             \<lparr>fh_refs = 1, fh_locked = False, fh_fs = Some fa, fh_node = a, fh_mode = mode\<rparr>)\<rparr>)) (\<lambda>s4.
                         rbind (ref_fs fa s4) (\<lambda>s5. Inr (Some h, s5))))))
      (opened x (E(a := E a - 1)) G)"
    proof (cases r)
      case None
      then show ?thesis unfolding no Let_def prod.case None option.case
        by (intro unlock_unref [OF n2(1) held e]) (simp add: opened_def)
    next
      case (Some h)
      have h: "h = v_next s1" "v_next s2 = v_next s1 + 1" using n2(5) [of h] Some by simp_all
      have l2: "live s2 x a = Some n1" using l1 n2(4) by (simp add: n1_def)
      have dr: "deref (v_nodes s2) a = Inr n1" using l2 by (simp add: live_Some)
      have gd: "good (key n1) (v_dev s2)" using vinv_good [OF n2(1) l2] .
      obtain g where g: "op_open (ops_of C n1) = Some g" using has_open [OF gd] by blast
      have cl: "ends (call (g n1 m) s2) (\<lambda>(r, s'). vinv x s' E G {a} \<and> v_nodes s' = v_nodes s2 \<and> v_next s' = v_next s2
          \<and> v_files s' = v_files s2)"
        by (rule call_ok [OF n2(1)]) (rule open_ok [OF vinv_dev [OF n2(1)] gd g])
      define fh where "fh = \<lparr>fh_refs = 1, fh_locked = False, fh_fs = Some fa, fh_node = a, fh_mode = m\<rparr>"
      have new: "c_hand x h = None" using vinv_below [OF i1, of h] h(1) by fastforce
      have "ends (rbind (call (g n1 m) s2) (\<lambda>(open_ok, s3).
            if \<not> open_ok then rbind (unlock_node a s3) (\<lambda>s4. rbind (unref_node C a s4) (\<lambda>s5. Inr (None, free_block s5)))
            else rbind (unlock_node a (s3\<lparr>v_files := (v_files s3)(h \<mapsto> fh)\<rparr>)) (\<lambda>s4. rbind (ref_fs fa s4) (\<lambda>s5. Inr (Some h, s5)))))
          (opened x (E(a := E a - 1)) G)"
      proof (rule ends_rbind [OF cl], clarify)
        fix ok s3 assume i3: "vinv x s3 E G {a}" and v3: "v_next s3 = v_next s2" "v_files s3 = v_files s2"
        show "ends (if \<not> ok then rbind (unlock_node a s3) (\<lambda>s4. rbind (unref_node C a s4) (\<lambda>s5. Inr (None, free_block s5)))
            else rbind (unlock_node a (s3\<lparr>v_files := (v_files s3)(h \<mapsto> fh)\<rparr>)) (\<lambda>s4. rbind (ref_fs fa s4) (\<lambda>s5. Inr (Some h, s5))))
          (opened x (E(a := E a - 1)) G)"
        proof (cases ok)
          case False
          have "ends (rbind (unlock_node a s3) (\<lambda>s4. rbind (unref_node C a s4) (\<lambda>s5. Inr (None, free_block s5))))
              (opened x (E(a := E a - 1)) G)"
            by (rule unlock_unref [OF i3 held e]) (simp add: opened_def vinv_free_block)
          then show ?thesis using False by simp
        next
          case True
          have g1: "1 \<le> G fa" using held fa by (simp add: held_fs_def)
          have vf: "v_files s3 = c_files x" by (rule vinv_files [OF i3])
          let ?x = "add_hand h fh x" and ?s = "s3\<lparr>v_files := (v_files s3)(h \<mapsto> fh)\<rparr>"
          have hb: "h < v_next s3" using h v3(1) by simp
          have i4: "vinv ?x ?s (E(a := E a - 1)) (G(fa := G fa - 1)) {a}"
            using add_hand_ok [OF i3 new hb, of fh fa] e fa g1 vf by (simp add: fh_def del: fun_upd_apply)
          have "live s3 x a \<noteq> None" using vinv_held [OF i3, of a] e by simp
          then have la: "live ?s ?x a \<noteq> None" by (auto simp: live_def add_hand_def set_hands_def split: if_splits)
          have "ends (rbind (unlock_node a ?s) (\<lambda>s4. rbind (ref_fs fa s4) (\<lambda>s5. Inr (Some h, s5))))
              (opened x (E(a := E a - 1)) G)"
          proof (rule ends_rbind [OF unlock_node_ok [OF i4 la]], elim conjE)
            fix t assume "vinv ?x t (E(a := E a - 1)) (G(fa := G fa - 1)) ({a} - {a})"
            then have t: "vinv ?x t (E(a := E a - 1)) (G(fa := G fa - 1)) {}" by simp
            have "c_fs ?x fa \<noteq> None" using fa by (simp add: add_hand_def set_hands_def)
            then have ft: "v_fs t fa \<noteq> None" using vinv_fss [OF t, of fa] by auto
            have G': "(G(fa := G fa - 1))(fa := (G(fa := G fa - 1)) fa + 1) = G" using g1 by auto
            have fh1: "fh_refs fh = 1" by (simp add: fh_def)
            show "ends (rbind (ref_fs fa t) (\<lambda>s5. Inr (Some h, s5))) (opened x (E(a := E a - 1)) G)"
              by (rule ends_rbind [OF ref_fs_ok [OF t ft, unfolded G']])
                (use new fh1 in \<open>auto simp: opened_def simp del: fun_upd_apply\<close>)
          qed
          then show ?thesis using True by simp
        qed
      qed
      then show ?thesis unfolding no Some prod.case option.case Let_def dr rbind_simps g fh_def m_def .
    qed
  qed
qed

lemma fs_open_ok:
  assumes inv: "vinv x s E G {}" and held: "held_fs x G" and fa: "c_fs x fa \<noteq> None"
  shows "ends (fs_open C fa file mode s) (opened x E G)"
proof -
  obtain f where f: "v_fs s fa = Some f" "live s x (fs_root f) \<noteq> None" using fs_known [OF inv fa] by blast
  have create: "ends (if n1 = None \<and> has_flag mode FM_CREATE then
        rbind (fs_create C fa file FT_REGULAR s1) (\<lambda>(created, s2).
          if created then fs_walk_path C (fs_root f) file s2 else Inr (None, s2))
      else Inr (n1, s1)) (\<lambda>(r, s'). vinv x s' (bump r E) G {})" if t: "vinv x s1 (bump n1 E) G {}" for n1 s1
  proof (cases "n1 = None \<and> has_flag mode FM_CREATE")
    case True
    have t': "vinv x s1 E G {}" using t True by simp
    have "ends (rbind (fs_create C fa file FT_REGULAR s1) (\<lambda>(created, s2).
          if created then fs_walk_path C (fs_root f) file s2 else Inr (None, s2))) (\<lambda>(r, s'). vinv x s' (bump r E) G {})"
    proof (rule ends_rbind [OF fs_create_ok [OF t' held fa]], clarify)
      fix b u assume u: "vinv x u E G {}"
      obtain f' where f': "v_fs u fa = Some f'" "live u x (fs_root f') \<noteq> None" using fs_known [OF u fa] by blast
      have "fs_root f' = fs_root f"
        using vinv_fss [OF u, of fa] vinv_fss [OF inv, of fa] f(1) f'(1)
        by (metis bare_fs_def fs.select_convs(7) fs.surjective fs.update_convs(1) option.inject option.simps(9))
      then show "ends (if b then fs_walk_path C (fs_root f) file u else Inr (None, u)) (\<lambda>(r, s'). vinv x s' (bump r E) G {})"
        using fs_walk_path_ok [OF u held f'(2)] u by simp
    qed
    then show ?thesis using True by simp
  qed (use t in auto)
  have "ends (rbind (fs_walk_path C (fs_root f) file s) (\<lambda>(n1, s1).
         rbind (if n1 = None \<and> has_flag mode FM_CREATE then
                  rbind (fs_create C fa file FT_REGULAR s1) (\<lambda>(created, s2).
                    if created then fs_walk_path C (fs_root f) file s2 else Inr (None, s2))
                else Inr (n1, s1)) (\<lambda>(n, s3).
           case n of None \<Rightarrow> Inr (None, s3) | Some a \<Rightarrow> open_node C fa a mode s3))) (opened x E G)"
  proof (rule ends_rbind [OF fs_walk_path_ok [OF inv held f(2)]], clarify)
    fix n1 s1 assume "vinv x s1 (bump n1 E) G {}"
    from create [OF this] show "ends (rbind (if n1 = None \<and> has_flag mode FM_CREATE then
          rbind (fs_create C fa file FT_REGULAR s1) (\<lambda>(created, s2).
            if created then fs_walk_path C (fs_root f) file s2 else Inr (None, s2))
        else Inr (n1, s1)) (\<lambda>(n, s3). case n of None \<Rightarrow> Inr (None, s3) | Some a \<Rightarrow> open_node C fa a mode s3)) (opened x E G)"
    proof (rule ends_rbind, clarify)
      fix n u assume u: "vinv x u (bump n E) G {}"
      show "ends (case n of None \<Rightarrow> Inr (None, u) | Some a \<Rightarrow> open_node C fa a mode u) (opened x E G)"
      proof (cases n)
        case (Some a)
        then show ?thesis
          using open_node_ok [OF u [unfolded Some] held bump_one fa, of mode] unfolding bump_taken by simp
      qed (use u in \<open>simp add: opened_def\<close>)
    qed
  qed
  then show ?thesis using f inv by (simp add: fs_open_def opened_def)
qed

text \<open>
  Between two calls: every handle counts, no node is dying or locked, and nothing but the tables and handles holds a
  node. The file systems are held by \<open>G\<close>.
\<close>

definition quiet :: "cx \<Rightarrow> 's vfs \<Rightarrow> (nat \<Rightarrow> nat) \<Rightarrow> bool" where
  "quiet x s G \<longleftrightarrow> c_hand x = c_files x \<and> c_dying x = Map.empty \<and> held_fs x G \<and> vinv x s (\<lambda>_. 0) G {}"

lemma hand_node:
  assumes "vinv x s E G L" and "c_hand x h = Some fh"
  obtains n f where "live s x (fh_node fh) = Some n" and "fh_fs fh = Some f" and "c_fs x f \<noteq> None"
    and "\<not> fh_locked fh" and "1 \<le> fh_refs fh"
  using vinv_hand [OF assms] that by (auto simp: handle_ok_def)

lemma ref_file_ok:
  assumes q: "quiet x s G" and h: "v_files s h = Some fh"
  shows "ends (ref_file h s) (\<lambda>s'. quiet (set_hands (v_files s') (v_files s') x) s' G
    \<and> v_files s' = (v_files s)(h \<mapsto> fh\<lparr>fh_refs := fh_refs fh + 1\<rparr>))"
proof -
  have inv: "vinv x s (\<lambda>_. 0) G {}" and hf: "c_hand x = c_files x" using q by (auto simp: quiet_def)
  have fs: "v_files s = c_hand x" using vinv_files [OF inv] hf by simp
  have hh: "c_hand x h = Some fh" using h fs by simp
  define fh' where "fh' = fh\<lparr>fh_refs := fh_refs fh + 1\<rparr>"
  have k: "fh_node fh' = fh_node fh" "fh_fs fh' = fh_fs fh" by (simp_all add: fh'_def)
  have "vinv (set_hands ((c_hand x)(h \<mapsto> fh')) ((c_hand x)(h \<mapsto> fh')) x) (s\<lparr>v_files := (c_hand x)(h \<mapsto> fh')\<rparr>) (\<lambda>_. 0) G {}"
  proof (rule vinv_hands [OF inv])
    show "0 + nhand ((c_hand x)(h \<mapsto> fh')) q = 0 + nhand (c_hand x) q" for q
      unfolding cnt_eqs by (simp add: cnt_change [of "c_hand x" h fh, OF hh] k)
    show "G g + fshand ((c_hand x)(h \<mapsto> fh')) g = G g + fshand (c_hand x) g" for g
      unfolding cnt_eqs by (simp add: cnt_change [of "c_hand x" h fh, OF hh] k)
    show "handle_ok x (live s x) f \<and> h' < v_next s" if "((c_hand x)(h \<mapsto> fh')) h' = Some f" for h' f
      using that vinv_hand [OF inv, of h'] vinv_hand [OF inv hh] vinv_below [OF inv, of h'] hh
      by (auto simp: handle_ok_def fh'_def split: if_splits)
  qed simp
  moreover have "\<not> fh_locked fh" using vinv_hand [OF inv hh] by (simp add: handle_ok_def)
  ultimately show ?thesis
    using q h fs by (simp add: ref_file_def quiet_def fh'_def set_hands_def held_fs_def)
qed

lemma file_stat_ok:
  assumes q: "quiet x s G" and h: "v_files s h = Some fh"
  shows "ends (file_stat C h s) (\<lambda>(r, s'). quiet x s' G)"
proof -
  have inv: "vinv x s (\<lambda>_. 0) G {}" and hf: "c_hand x = c_files x" using q by (auto simp: quiet_def)
  have hh: "c_hand x h = Some fh" using h vinv_files [OF inv] hf by simp
  obtain n where n: "live s x (fh_node fh) = Some n" by (rule hand_node [OF inv hh])
  have on: "on_file h s = Inr (fh, n)" using h n by (simp add: on_file_def live_Some)
  show ?thesis
  proof (cases "op_stat (ops_of C n)")
    case (Some g)
    have "ends (call (g n) s) (\<lambda>(r, s'). vinv x s' (\<lambda>_. 0) G {} \<and> v_nodes s' = v_nodes s \<and> v_next s' = v_next s
        \<and> v_files s' = v_files s)"
      by (rule call_ok [OF inv]) (rule stat_ok [OF vinv_dev [OF inv] vinv_good [OF inv n] Some])
    then show ?thesis using Some q by (auto simp: file_stat_def on quiet_def elim!: ends_mono)
  qed (use q in \<open>simp add: file_stat_def on\<close>)
qed

text \<open>The last reference to a handle: its node and its file system are given back.\<close>

lemma drop_hand_ok:
  assumes inv: "vinv x s E G L" and hh: "c_hand x h = Some fh" and f: "fh_fs fh = Some f" and l: "live s x (fh_node fh) \<noteq> None"
  shows "vinv (set_hands W ((c_hand x)(h := None)) x) (s\<lparr>v_files := W\<rparr>) (E(fh_node fh := E (fh_node fh) + 1)) (G(f := G f + 1)) L"
proof (rule vinv_hands [OF inv])
  show "(E(fh_node fh := E (fh_node fh) + 1)) q + nhand ((c_hand x)(h := None)) q = E q + nhand (c_hand x) q" for q
    using hand_counts(1) [OF inv hh, of q] by auto
  show "(G(f := G f + 1)) g + fshand ((c_hand x)(h := None)) g = G g + fshand (c_hand x) g" for g
    using hand_counts(2) [OF inv hh, of g] f by auto
  show "handle_ok x (live s x) f' \<and> h' < v_next s" if "((c_hand x)(h := None)) h' = Some f'" for h' f'
    using that vinv_hand [OF inv, of h'] vinv_below [OF inv, of h'] by (auto split: if_splits)
  show "live s x b \<noteq> None" if "0 < (E(fh_node fh := E (fh_node fh) + 1)) b" for b
    using that vinv_held [OF inv, of b] l by (auto split: if_splits)
qed

lemma unref_file_ok:
  assumes q: "quiet x s G" and h: "v_files s h = Some fh0"
  shows "ends (unref_file C h s) (\<lambda>s'. quiet (set_hands (v_files s') (v_files s') x) s' G
    \<and> v_files s' = (v_files s)(h := (if fh_refs fh0 = 1 then None else Some (fh0\<lparr>fh_refs := fh_refs fh0 - 1\<rparr>))))"
proof -
  have inv: "vinv x s (\<lambda>_. 0) G {}" and hf: "c_hand x = c_files x" and held: "held_fs x G" and nd: "c_dying x = Map.empty"
    using q by (auto simp: quiet_def)
  have fs: "v_files s = c_hand x" using vinv_files [OF inv] hf by simp
  have hh: "c_hand x h = Some fh0" using h fs by simp
  obtain n f where n: "live s x (fh_node fh0) = Some n" and f: "fh_fs fh0 = Some f" "c_fs x f \<noteq> None"
    and u: "\<not> fh_locked fh0" "1 \<le> fh_refs fh0"
    by (rule hand_node [OF inv hh])
  define fh where "fh = fh0\<lparr>fh_refs := fh_refs fh0 - 1\<rparr>"
  define W where "W = (c_hand x)(h \<mapsto> fh)"
  have k: "fh_node fh = fh_node fh0" "fh_fs fh = fh_fs fh0" by (simp_all add: fh_def)
  show ?thesis
  proof (cases "fh_refs fh0 = 1")
    case False
    have "vinv (set_hands W W x) (s\<lparr>v_files := W\<rparr>) (\<lambda>_. 0) G {}"
    proof (rule vinv_hands [OF inv])
      show "0 + nhand W q = 0 + nhand (c_hand x) q" for q
        unfolding cnt_eqs W_def by (simp add: cnt_change [of "c_hand x" h fh0, OF hh] k)
      show "G g + fshand W g = G g + fshand (c_hand x) g" for g
        unfolding cnt_eqs W_def by (simp add: cnt_change [of "c_hand x" h fh0, OF hh] k)
      show "handle_ok x (live s x) f \<and> h' < v_next s" if "W h' = Some f" for h' f
        using that vinv_hand [OF inv, of h'] vinv_hand [OF inv hh] vinv_below [OF inv, of h'] hh False u
        by (auto simp: handle_ok_def fh_def W_def split: if_splits)
    qed simp
    then show ?thesis
      using h u False fs held nd by (simp add: unref_file_def Let_def quiet_def W_def fh_def set_hands_def held_fs_def)
  next
    case True
    let ?a = "fh_node fh0" and ?x = "set_hands W ((c_hand x)(h := None)) x"
    let ?E = "(\<lambda>_. 0 :: nat)(?a := 1)" and ?G = "G(f := G f + 1)"
    have i1: "vinv ?x (s\<lparr>v_files := W\<rparr>) ?E ?G {}"
      using drop_hand_ok [OF inv hh f(1), of W] n by simp
    have l1: "live (s\<lparr>v_files := W\<rparr>) ?x ?a = Some n" using n by (simp add: live_Some set_hands_def)
    have held1: "held_fs ?x ?G" using held by (auto simp: held_fs_def set_hands_def)
    have close: "ends (case op_close (ops_of C n) of None \<Rightarrow> Inr (s\<lparr>v_files := W\<rparr>) | Some g \<Rightarrow> run_op (g fh n) (s\<lparr>v_files := W\<rparr>))
        (\<lambda>t. vinv ?x t ?E ?G {})"
    proof (cases "op_close (ops_of C n)")
      case (Some g)
      have "ends (run_op (g fh n) (s\<lparr>v_files := W\<rparr>)) (\<lambda>t. vinv ?x t ?E ?G {} \<and> v_nodes t = v_nodes (s\<lparr>v_files := W\<rparr>)
          \<and> v_next t = v_next (s\<lparr>v_files := W\<rparr>))"
        by (rule run_op_ok [OF i1]) (rule close_ok [OF vinv_dev [OF i1] vinv_good [OF i1 l1] Some])
      then show ?thesis using Some by (auto elim!: ends_mono)
    qed (use i1 in simp)
    have E0: "?E(?a := ?E ?a - 1) = (\<lambda>_. 0)" by auto
    have G0: "?G(f := ?G f - 1) = G" by auto
    have "ends (rbind (case op_close (ops_of C n) of None \<Rightarrow> Inr (s\<lparr>v_files := W\<rparr>) | Some g \<Rightarrow> run_op (g fh n) (s\<lparr>v_files := W\<rparr>))
        (\<lambda>s2. rbind (unref_node C ?a s2) (\<lambda>s3. rbind (unref_fs C (depth s3) f s3) (\<lambda>s4.
          Inr ((free_block s4)\<lparr>v_files := (v_files s4)(h := None)\<rparr>)))))
        (\<lambda>s'. vinv (set_hands ((c_hand x)(h := None)) ((c_hand x)(h := None)) x) s' (\<lambda>_. 0) G {})"
    proof (rule ends_rbind [OF close])
      fix s2 assume i2: "vinv ?x s2 ?E ?G {}"
      have "ends (unref_node C ?a s2) (\<lambda>t. vinv ?x t (\<lambda>_. 0) ?G {})"
        using unref_node_ok [OF i2 held1, of ?a] unfolding E0 by simp
      then show "ends (rbind (unref_node C ?a s2) (\<lambda>s3. rbind (unref_fs C (depth s3) f s3) (\<lambda>s4.
          Inr ((free_block s4)\<lparr>v_files := (v_files s4)(h := None)\<rparr>))))
        (\<lambda>s'. vinv (set_hands ((c_hand x)(h := None)) ((c_hand x)(h := None)) x) s' (\<lambda>_. 0) G {})"
      proof (rule ends_rbind)
        fix s3 assume i3: "vinv ?x s3 (\<lambda>_. 0) ?G {}"
        have "v_fs s3 f \<noteq> None" using vinv_fss [OF i3, of f] f(2) by (auto simp: set_hands_def)
        then have "ends (unref_fs C (depth s3) f s3) (\<lambda>t. vinv ?x t (\<lambda>_. 0) G {} \<and> v_next t = v_next s3)"
          using unref_fs_ok [OF i3, of f "depth s3"] held f(2) unfolding G0 by (auto simp: held_fs_def depth_def)
        then show "ends (rbind (unref_fs C (depth s3) f s3) (\<lambda>s4. Inr ((free_block s4)\<lparr>v_files := (v_files s4)(h := None)\<rparr>)))
          (\<lambda>s'. vinv (set_hands ((c_hand x)(h := None)) ((c_hand x)(h := None)) x) s' (\<lambda>_. 0) G {})"
        proof (rule ends_rbind, elim conjE)
          fix s4 assume "vinv ?x s4 (\<lambda>_. 0) G {}"
          then have i4: "vinv ?x (free_block s4) (\<lambda>_. 0) G {}" by (rule vinv_free_block)
          have w: "v_files s4 = W" using vinv_files [OF i4] by (simp add: set_hands_def)
          have e: "W(h := None) = (c_hand x)(h := None)" by (auto simp: W_def)
          have "vinv (set_hands (W(h := None)) ((c_hand x)(h := None)) ?x) ((free_block s4)\<lparr>v_files := W(h := None)\<rparr>) (\<lambda>_. 0) G {}"
            by (rule vinv_hands [OF i4]) (use vinv_hand [OF i4] vinv_below [OF i4] in \<open>auto simp: set_hands_def\<close>)
          then show "ends (Inr ((free_block s4)\<lparr>v_files := (v_files s4)(h := None)\<rparr>))
            (\<lambda>s'. vinv (set_hands ((c_hand x)(h := None)) ((c_hand x)(h := None)) x) s' (\<lambda>_. 0) G {})"
            unfolding w e by (simp add: set_hands_def)
        qed
      qed
    qed
    moreover have r0: "fh_refs fh = 0" using True by (simp add: fh_def)
    moreover have fh0: "fh0\<lparr>fh_refs := 0\<rparr> = fh" using True by (simp add: fh_def)
    moreover have "v_nodes (s\<lparr>v_files := W\<rparr>) (fh_node fh) = Some n" using l1 k by (simp add: live_Some)
    ultimately have main: "ends (unref_file C h s) (\<lambda>s'. vinv (set_hands ((c_hand x)(h := None)) ((c_hand x)(h := None)) x) s' (\<lambda>_. 0) G {})"
      using h u True f(1) k r0 unfolding W_def by (simp add: unref_file_def Let_def fs fh0)
    show ?thesis
      using main
    proof (rule ends_mono)
      fix s' assume i: "vinv (set_hands ((c_hand x)(h := None)) ((c_hand x)(h := None)) x) s' (\<lambda>_. 0) G {}"
      then have "v_files s' = (c_hand x)(h := None)" using vinv_files [OF i] by (simp add: set_hands_def)
      then show "quiet (set_hands (v_files s') (v_files s') x) s' G
          \<and> v_files s' = (v_files s)(h := (if fh_refs fh0 = 1 then None else Some (fh0\<lparr>fh_refs := fh_refs fh0 - 1\<rparr>)))"
        using i held nd True fs by (simp add: quiet_def set_hands_def held_fs_def)
    qed
  qed
qed

section \<open>No handle, no node\<close>

text \<open>
  When no handle is open, only the roots of the file systems are in memory: take the youngest of the other nodes; it has
  no children, for they would be younger, and nothing else holds it.
\<close>

lemma quiet_only_roots:
  assumes q: "quiet x s G" and none: "v_files s = Map.empty" and a: "v_nodes s a \<noteq> None"
  shows "\<exists>f ff. v_fs s f = Some ff \<and> fs_root ff = a"
proof (rule ccontr)
  assume no: "\<not> ?thesis"
  have inv: "vinv x s (\<lambda>_. 0) G {}" and hf: "c_hand x = c_files x" and nd: "c_dying x = Map.empty"
    using q by (auto simp: quiet_def)
  have l: "live s x = v_nodes s" using nd by (simp add: live_def fun_eq_iff)
  have noh: "c_hand x = Map.empty" using vinv_files [OF inv] hf none by simp
  have bare: "\<exists>f ff. v_fs s f = Some ff \<and> fs_root ff = fs_root gg" if "c_fs x g = Some gg" for g gg
    using vinv_fss [OF inv, of g] that by (cases "v_fs s g") (force simp: bare_fs_def)+
  define B where "B = {b. v_nodes s b \<noteq> None \<and> \<not> (\<exists>f ff. v_fs s f = Some ff \<and> fs_root ff = b)}"
  have "finite B" by (rule finite_subset [of _ "{..< v_next s}"]) (use vinv_below [OF inv] in \<open>auto simp: B_def\<close>)
  moreover have "a \<in> B" using no a by (auto simp: B_def)
  ultimately obtain b where b: "b \<in> B" "\<And>c. c \<in> B \<Longrightarrow> c \<le> b" by (metis Max_ge Max_in empty_iff)
  obtain m where m: "v_nodes s b = Some m" using b(1) by (auto simp: B_def)
  have root: "fs_root ff \<noteq> b" if "c_fs x f = Some ff" for f ff using bare [OF that] b(1) unfolding B_def by blast
  have nc: "kin (v_nodes s) c \<noteq> Some (Some b, nm)" for c nm
  proof
    assume "kin (v_nodes s) c = Some (Some b, nm)"
    then obtain mc where mc: "v_nodes s c = Some mc" "fn_parent mc = Some b" by (auto simp: kin_Some)
    have pl: "b < c" "\<And>g gg. c_fs x g = Some gg \<Longrightarrow> fs_root gg \<noteq> c"
      using vinv_place [OF inv, of c mc] mc by (auto simp: place_ok_def l)
    have "\<not> (\<exists>f ff. v_fs s f = Some ff \<and> fs_root ff = c)"
    proof clarify
      fix f ff assume "v_fs s f = Some ff" "c = fs_root ff"
      then show False using vinv_fss [OF inv, of f] pl(2) [of f "bare_fs ff"] by (simp add: bare_fs_def)
    qed
    then have "c \<in> B" using mc(1) by (simp add: B_def)
    with b(2) [of c] pl(1) show False by simp
  qed
  have "nchild (kin (v_nodes s)) b = 0" using nc by (simp add: nchild_def)
  moreover have "nhand (c_hand x) b = 0" by (simp add: nhand_def noh)
  moreover have "nroot (c_fs x) b = 0"
  proof -
    have e: "{f. \<exists>ff. c_fs x f = Some ff \<and> fs_root ff = b} = {}" using root by blast
    show ?thesis unfolding nroot_def e by simp
  qed
  ultimately show False using vinv_refs [OF inv, of b m] m by (auto simp: refs_ok_def l)
qed

end

end
