(* ===== verification/Nullfs.thy ===== *)
theory Nullfs
  imports Vfs Pager
begin

text \<open>
  The file system in memory of src/kernel/user/nullfs.c, a driver for the virtual file system of theory \<open>Vfs\<close>. A
  directory keeps its items in a linked list and in a hash table; a file is a pager of anonymous memory. The driver's
  own locks are taken as in theory \<open>Vfs\<close>: one that is found taken is never given back.
\<close>

section \<open>Data\<close>

record nullfs_t =
  can_create :: bool
  can_move :: bool
  can_delete :: bool

record nullfs_item =
  ni_name :: string
  ni_data :: nat
  ni_ops :: nat
  ni_pager :: "nat option"
  ni_next :: "nat option"

record nullfs_dir =
  items_list :: "nat option"
  items_idx :: "(string, nat) hashtbl"
  nd_locked :: bool
  nd_fs :: nat

record nullfs_file =
  nf_pager :: nat
  nf_ok_modes :: u32
  nf_locked :: bool

record nullfs_state =
  n_fs :: "nat \<Rightarrow> nullfs_t option"
  n_dirs :: "nat \<Rightarrow> nullfs_dir option"
  n_files :: "nat \<Rightarrow> nullfs_file option"
  n_items :: "nat \<Rightarrow> nullfs_item option"
  n_pagers :: "nat \<Rightarrow> pager option"
  n_next :: nat
  n_env :: "unit pager_env"

type_synonym nio = "nullfs_state io"

text \<open>The addresses of the tables.\<close>

definition NULLFS_OPS :: nat where "NULLFS_OPS = 2"
definition NULLFS_D_OPS :: nat where "NULLFS_D_OPS = 3"
definition NULLFS_F_OPS :: nat where "NULLFS_F_OPS = 4"
definition NULLFS_DRIVER :: nat where "NULLFS_DRIVER = 5"

section \<open>Memory, locks and pagers\<close>

definition n_malloc :: "nio \<Rightarrow> nat option \<times> nio" where
  "n_malloc = (\<lambda>(h, st). case heap_malloc h of (ok, h1) \<Rightarrow>
     if ok then (Some (n_next st), h1, st\<lparr>n_next := n_next st + 1\<rparr>) else (None, h1, st))"

definition n_free :: "nio \<Rightarrow> nio" where
  "n_free = (\<lambda>(h, st). (heap_free h, st))"

definition set_dir :: "nat \<Rightarrow> nullfs_dir \<Rightarrow> nio \<Rightarrow> nio" where
  "set_dir a d = (\<lambda>(h, st). (h, st\<lparr>n_dirs := (n_dirs st)(a \<mapsto> d)\<rparr>))"

definition set_item :: "nat \<Rightarrow> nullfs_item \<Rightarrow> nio \<Rightarrow> nio" where
  "set_item a i = (\<lambda>(h, st). (h, st\<lparr>n_items := (n_items st)(a \<mapsto> i)\<rparr>))"

definition set_file :: "nat \<Rightarrow> nullfs_file \<Rightarrow> nio \<Rightarrow> nio" where
  "set_file a f = (\<lambda>(h, st). (h, st\<lparr>n_files := (n_files st)(a \<mapsto> f)\<rparr>))"

definition lock_dir :: "nat \<Rightarrow> nio \<Rightarrow> (nullfs_dir \<times> nio) res" where
  "lock_dir a io = rbind (deref (n_dirs (snd io)) a) (\<lambda>d.
     if nd_locked d then Inl Self_deadlock
     else (let d' = d\<lparr>nd_locked := True\<rparr> in Inr (d', set_dir a d' io)))"

definition unlock_dir :: "nat \<Rightarrow> nio \<Rightarrow> nio res" where
  "unlock_dir a io = rbind (deref (n_dirs (snd io)) a) (\<lambda>d. Inr (set_dir a (d\<lparr>nd_locked := False\<rparr>) io))"

definition lock_file :: "nat \<Rightarrow> nio \<Rightarrow> (nullfs_file \<times> nio) res" where
  "lock_file a io = rbind (deref (n_files (snd io)) a) (\<lambda>f.
     if nf_locked f then Inl Self_deadlock
     else (let f' = f\<lparr>nf_locked := True\<rparr> in Inr (f', set_file a f' io)))"

definition unlock_file :: "nat \<Rightarrow> nio \<Rightarrow> nio res" where
  "unlock_file a io = rbind (deref (n_files (snd io)) a) (\<lambda>f. Inr (set_file a (f\<lparr>nf_locked := False\<rparr>) io))"

definition no_vfs_pagers :: "nat \<Rightarrow> unit vfs_pager_ops" where
  "no_vfs_pagers = (\<lambda>_. \<lparr>vp_read = None, vp_write = None, vp_resize = None\<rparr>)"

text \<open>An operation on the pager at \<open>a\<close>.\<close>

definition on_pager :: "nat \<Rightarrow> (unit pstate \<Rightarrow> ('r \<times> unit pstate) res) \<Rightarrow> nio \<Rightarrow> ('r \<times> nio) res" where
  "on_pager a f = (\<lambda>(h, st).
     rbind (deref (n_pagers st) a) (\<lambda>p. rbind (f (p, (n_env st)\<lparr>pe_heap := h\<rparr>)) (\<lambda>(r, p', e').
       Inr (r, pe_heap e', st\<lparr>n_pagers := (n_pagers st)(a \<mapsto> p'), n_env := e'\<rparr>))))"

definition n_new_swap_pager :: "u32 \<Rightarrow> nio \<Rightarrow> nat option \<times> nio" where
  "n_new_swap_pager sz = (\<lambda>(h, st).
     case new_swap_pager sz True h of
       (None, h1) \<Rightarrow> (None, h1, st)
     | (Some p, h1) \<Rightarrow>
         (Some (n_next st), h1, st\<lparr>n_pagers := (n_pagers st)(n_next st \<mapsto> p), n_next := n_next st + 1\<rparr>))"

definition n_delete_pager :: "nat \<Rightarrow> nio \<Rightarrow> nio res" where
  "n_delete_pager a = (\<lambda>(h, st).
     rbind (deref (n_pagers st) a) (\<lambda>p. rbind (delete_pager no_vfs_pagers (p, (n_env st)\<lparr>pe_heap := h\<rparr>)) (\<lambda>e'.
       Inr (pe_heap e', st\<lparr>n_pagers := (n_pagers st)(a := None), n_env := e'\<rparr>))))"

section \<open>The file system\<close>

definition nullfs_fs_make :: "nat option \<Rightarrow> string \<Rightarrow> fs \<times> fs_node \<Rightarrow> nio \<Rightarrow> ((bool \<times> fs \<times> fs_node) \<times> nio) res" where
  "nullfs_fs_make source opts = (\<lambda>(fs_s, root_node) io.
     if source \<noteq> None then Inr ((False, fs_s, root_node), io)
     else (case n_malloc io of
             (None, io1) \<Rightarrow> Inr ((False, fs_s, root_node), io1)
           | (Some fa, io1) \<Rightarrow>
               (case n_malloc io1 of
                  (None, io2) \<Rightarrow> Inr ((False, fs_s, root_node), n_free io2)
                | (Some ra, (h, st)) \<Rightarrow>
                    (case create_hashtbl h str_key_eq_fun str_hash_fun False of
                       (None, h1) \<Rightarrow> Inr ((False, fs_s, root_node), n_free (n_free (h1, st)))
                     | (Some ht, h1) \<Rightarrow>
                         Inr ((True, fs_s\<lparr>fs_ops := NULLFS_OPS, fs_data := fa\<rparr>,
                               root_node\<lparr>fn_ops := NULLFS_D_OPS, fn_data := ra\<rparr>),
                              h1, st\<lparr>n_fs := (n_fs st)(fa \<mapsto>
                                       \<lparr>can_create = strchr opts (CHR ''c'') \<noteq> None,
                                        can_move = strchr opts (CHR ''m'') \<noteq> None,
                                        can_delete = strchr opts (CHR ''d'') \<noteq> None\<rparr>),
                                     n_dirs := (n_dirs st)(ra \<mapsto>
                                       \<lparr>items_list = None, items_idx = ht, nd_locked = False, nd_fs = fa\<rparr>)\<rparr>)))))"

definition nullfs_fs_shutdown :: "nat \<Rightarrow> nio \<Rightarrow> (unit \<times> nio) res" where
  "nullfs_fs_shutdown fs io = Inr ((), io)"

section \<open>Directories\<close>

definition nullfs_d_open :: "fs_node \<Rightarrow> u32 \<Rightarrow> nio \<Rightarrow> (bool \<times> nio) res" where
  "nullfs_d_open n mode io = Inr (mode = FM_READDIR, io)"

definition nullfs_d_stat :: "fs_node \<Rightarrow> nio \<Rightarrow> (stat_t option \<times> nio) res" where
  "nullfs_d_stat n io =
     rbind (lock_dir (fn_data n) io) (\<lambda>(d, io1). rbind (deref (n_fs (snd io1)) (nd_fs d)) (\<lambda>fs.
     rbind (unlock_dir (fn_data n) io1) (\<lambda>io2.
       Inr (Some \<lparr>st_type = FT_DIR,
                  st_access = FM_READDIR OR (if can_create fs then FM_DCREATE else 0)
                    OR (if can_move fs then FM_DMOVE else 0) OR (if can_delete fs then FM_DDELETE else 0),
                  st_size = hashtbl_count (items_idx d)\<rparr>, io2))))"

definition nullfs_d_walk :: "fs_node \<Rightarrow> string \<Rightarrow> fs_node \<Rightarrow> nio \<Rightarrow> ((bool \<times> fs_node) \<times> nio) res" where
  "nullfs_d_walk n file node_d io =
     rbind (lock_dir (fn_data n) io) (\<lambda>(d, io1).
       case hashtbl_find (items_idx d) file of
         None \<Rightarrow> rbind (unlock_dir (fn_data n) io1) (\<lambda>io2. Inr ((False, node_d), io2))
       | Some x \<Rightarrow>
           rbind (deref (n_items (snd io1)) x) (\<lambda>i. rbind (unlock_dir (fn_data n) io1) (\<lambda>io2.
             Inr ((True, node_d\<lparr>fn_ops := ni_ops i, fn_data := ni_data i, fn_pager := ni_pager i\<rparr>), io2))))"

text \<open>
  Taking the item \<open>x\<close> off the list. Where it is neither the first nor the second, the code moves on by pointer
  arithmetic, to whatever lies behind the item in memory.
\<close>

definition unlink_item :: "nat \<Rightarrow> nullfs_dir \<Rightarrow> nat \<Rightarrow> nio \<Rightarrow> nio res" where
  "unlink_item da d x io =
     rbind (deref (n_items (snd io)) x) (\<lambda>i.
       if items_list d = Some x then Inr (set_dir da (d\<lparr>items_list := ni_next i\<rparr>) io)
       else (case items_list d of
               None \<Rightarrow> Inr io
             | Some it \<Rightarrow>
                 rbind (deref (n_items (snd io)) it) (\<lambda>ni.
                   if ni_next ni = Some x then Inr (set_item it (ni\<lparr>ni_next := ni_next i\<rparr>) io) else Inl Bad_access)))"

text \<open>
  The object of the item is deleted first; the value says whether that went well. The lock of a subdirectory that is
  not empty is not given back.
\<close>

definition delete_object :: "nullfs_item \<Rightarrow> nio \<Rightarrow> (bool \<times> nio) res" where
  "delete_object i io =
     (if ni_ops i = NULLFS_D_OPS then
        rbind (deref (n_dirs (snd io)) (ni_data i)) (\<lambda>sd.
          if nd_locked sd then Inr (False, io)
          else if items_list sd \<noteq> None then Inr (False, set_dir (ni_data i) (sd\<lparr>nd_locked := True\<rparr>) io)
          else (case io of (h, st) \<Rightarrow>
                  Inr (True, heap_free (snd (delete_hashtbl h (items_idx sd))),
                       st\<lparr>n_dirs := (n_dirs st)(ni_data i := None)\<rparr>)))
      else if ni_ops i = NULLFS_F_OPS then
        rbind (deref (n_files (snd io)) (ni_data i)) (\<lambda>f.
          if nf_locked f then Inr (False, io)
          else
            rbind (n_delete_pager (nf_pager f) io) (\<lambda>(h, st).
              Inr (True, heap_free h, st\<lparr>n_files := (n_files st)(ni_data i := None)\<rparr>)))
      else Inr (False, io))"

definition nullfs_d_delete :: "fs_node \<Rightarrow> string \<Rightarrow> nio \<Rightarrow> (bool \<times> nio) res" where
  "nullfs_d_delete n file io =
     (let da = fn_data n
      in rbind (lock_dir da io) (\<lambda>(d, io1). rbind (deref (n_fs (snd io1)) (nd_fs d)) (\<lambda>fs.
           if \<not> can_delete fs then rbind (unlock_dir da io1) (\<lambda>io2. Inr (False, io2))
           else (case hashtbl_find (items_idx d) file of
                   None \<Rightarrow> rbind (unlock_dir da io1) (\<lambda>io2. Inr (False, io2))
                 | Some x \<Rightarrow>
                     rbind (deref (n_items (snd io1)) x) (\<lambda>i.
                     rbind (delete_object i io1) (\<lambda>(ok, io2).
                       if \<not> ok then rbind (unlock_dir da io2) (\<lambda>io3. Inr (False, io3))
                       else
                         rbind (deref (n_dirs (snd io2)) da) (\<lambda>d2.
                           (case ht_del (fst io2) (items_idx d2) (ni_name i) of (ht, h3) \<Rightarrow>
                              (let d3 = d2\<lparr>items_idx := ht\<rparr>; io3 = set_dir da d3 (h3, snd io2)
                               in rbind (unlink_item da d3 x io3) (\<lambda>io4.
                                  rbind (unlock_dir da (n_free (n_free
                                     (fst io4, (snd io4)\<lparr>n_items := (n_items (snd io4))(x := None)\<rparr>)))) (\<lambda>io5.
                                    Inr (True, io5))))))))))))"

definition nullfs_d_move ::
  "fs_node option \<Rightarrow> string \<Rightarrow> fs_node \<Rightarrow> string \<Rightarrow> nio \<Rightarrow> (bool \<times> nio) res" where
  "nullfs_d_move n old_name new_parent new_name io = Inr (False, io)"

text \<open>
  A new item for the object at \<open>data\<close>, at the front of the list. On an error, \<open>undo\<close> gives the object back; the item
  is freed when it was allocated.
\<close>

definition add_item ::
  "nat \<Rightarrow> string \<Rightarrow> nat \<Rightarrow> nat \<Rightarrow> nat option \<Rightarrow> (nio \<Rightarrow> nio res) \<Rightarrow> nio \<Rightarrow> (bool \<times> nio) res" where
  "add_item da file ops data pager undo io =
     (case n_malloc io of
        (None, io1) \<Rightarrow> rbind (undo io1) (\<lambda>io2. rbind (unlock_dir da io2) (\<lambda>io3. Inr (False, io3)))
      | (Some x, (h, st)) \<Rightarrow>
          (case strdup h file of
             (None, h1) \<Rightarrow> rbind (undo (n_free (h1, st))) (\<lambda>io2. rbind (unlock_dir da io2) (\<lambda>io3. Inr (False, io3)))
           | (Some name, h1) \<Rightarrow>
               rbind (deref (n_dirs st) da) (\<lambda>d.
                 case ht_put h1 (items_idx d) name x of (add_ok, ht, h2) \<Rightarrow>
                   (let io2 = set_dir da (d\<lparr>items_idx := ht\<rparr>) (h2, st)
                    in if \<not> add_ok then
                         rbind (undo (n_free (n_free io2))) (\<lambda>io3. rbind (unlock_dir da io3) (\<lambda>io4. Inr (False, io4)))
                       else
                         (let i = \<lparr>ni_name = name, ni_data = data, ni_ops = ops, ni_pager = pager, ni_next = items_list d\<rparr>;
                              io3 = set_dir da (d\<lparr>items_idx := ht, items_list := Some x\<rparr>) (set_item x i io2)
                          in rbind (unlock_dir da io3) (\<lambda>io4. Inr (True, io4)))))))"

definition nullfs_d_create :: "fs_node \<Rightarrow> string \<Rightarrow> u32 \<Rightarrow> nio \<Rightarrow> (bool \<times> nio) res" where
  "nullfs_d_create n file type io =
     (let da = fn_data n
      in if type = FT_REGULAR then
           rbind (lock_dir da io) (\<lambda>(d, io1).
             case n_malloc io1 of
               (None, io2) \<Rightarrow> rbind (unlock_dir da io2) (\<lambda>io3. Inr (False, io3))
             | (Some f, io2) \<Rightarrow>
                 (case n_new_swap_pager 0 io2 of
                    (None, io3) \<Rightarrow> rbind (unlock_dir da (n_free io3)) (\<lambda>io4. Inr (False, io4))
                  | (Some p, io3) \<Rightarrow>
                      add_item da file NULLFS_F_OPS f (Some p) (\<lambda>io4. rbind (n_delete_pager p (n_free io4)) (\<lambda>(h, st).
                          Inr (h, st\<lparr>n_files := (n_files st)(f := None)\<rparr>)))
                        (set_file f \<lparr>nf_pager = p, nf_ok_modes = FM_READ OR FM_WRITE OR FM_TRUNC OR FM_APPEND,
                                     nf_locked = False\<rparr> io3)))
         else if type = FT_DIR then
           rbind (lock_dir da io) (\<lambda>(d, io1).
             case n_malloc io1 of
               (None, io2) \<Rightarrow> rbind (unlock_dir da io2) (\<lambda>io3. Inr (False, io3))
             | (Some xd, (h, st)) \<Rightarrow>
                 (case create_hashtbl h str_key_eq_fun str_hash_fun False of
                    (None, h1) \<Rightarrow> rbind (unlock_dir da (n_free (h1, st))) (\<lambda>io4. Inr (False, io4))
                  | (Some ht, h1) \<Rightarrow>
                      add_item da file NULLFS_D_OPS xd None
                        (\<lambda>(h4, st4). Inr (heap_free (snd (delete_hashtbl h4 ht)), st4\<lparr>n_dirs := (n_dirs st4)(xd := None)\<rparr>))
                        (set_dir xd \<lparr>items_list = None, items_idx = ht, nd_locked = False, nd_fs = nd_fs d\<rparr> (h1, st))))
         else Inr (False, io))"

definition nullfs_d_dispose :: "fs_node \<Rightarrow> nio \<Rightarrow> (unit \<times> nio) res" where
  "nullfs_d_dispose n io = Inr ((), io)"

definition nullfs_d_close :: "fs_handle \<Rightarrow> fs_node \<Rightarrow> nio \<Rightarrow> (unit \<times> nio) res" where
  "nullfs_d_close f n io = Inr ((), io)"

section \<open>Files\<close>

definition nullfs_f_open :: "fs_node \<Rightarrow> u32 \<Rightarrow> nio \<Rightarrow> (bool \<times> nio) res" where
  "nullfs_f_open n mode io =
     rbind (deref (n_files (snd io)) (fn_data n)) (\<lambda>f0.
       if beyond mode (nf_ok_modes f0) then Inr (False, io)
       else if has_flag mode FM_TRUNC then
         rbind (lock_file (fn_data n) io) (\<lambda>(f, io1).
         rbind (on_pager (nf_pager f) (pager_resize no_vfs_pagers 0) io1) (\<lambda>(_, io2).
         rbind (unlock_file (fn_data n) io2) (\<lambda>io3. Inr (True, io3))))
       else Inr (True, io))"

definition nullfs_f_stat :: "fs_node \<Rightarrow> nio \<Rightarrow> (stat_t option \<times> nio) res" where
  "nullfs_f_stat n io =
     rbind (lock_file (fn_data n) io) (\<lambda>(f, io1). rbind (deref (n_pagers (snd io1)) (nf_pager f)) (\<lambda>p.
     rbind (unlock_file (fn_data n) io1) (\<lambda>io2.
       Inr (Some \<lparr>st_type = FT_REGULAR, st_access = nf_ok_modes f, st_size = unat (pg_size p)\<rparr>, io2))))"

definition nullfs_f_dispose :: "fs_node \<Rightarrow> nio \<Rightarrow> (unit \<times> nio) res" where
  "nullfs_f_dispose n io = Inr ((), io)"

definition nullfs_f_close :: "fs_handle \<Rightarrow> fs_node \<Rightarrow> nio \<Rightarrow> (unit \<times> nio) res" where
  "nullfs_f_close f n io = Inr ((), io)"

text \<open>Reading and writing go to the pager of the node.\<close>

definition nullfs_f_read :: "fs_handle \<Rightarrow> fs_node \<Rightarrow> nat \<Rightarrow> nat \<Rightarrow> nio \<Rightarrow> (u8 list \<times> nio) res" where
  "nullfs_f_read f n offset len io =
     (case fn_pager n of
        None \<Rightarrow> Inl Assert_failed
      | Some a \<Rightarrow>
          rbind (on_pager a (\<lambda>s. fs_read_from_pager no_vfs_pagers (of_nat offset) (of_nat len) (Some s)) io)
            (\<lambda>((cnt, bytes), io1). Inr (bytes, io1)))"

definition nullfs_f_write :: "fs_handle \<Rightarrow> fs_node \<Rightarrow> nat \<Rightarrow> u8 list \<Rightarrow> nio \<Rightarrow> (nat \<times> nio) res" where
  "nullfs_f_write f n offset buf io =
     (case fn_pager n of
        None \<Rightarrow> Inl Assert_failed
      | Some a \<Rightarrow>
          rbind (on_pager a (\<lambda>s. fs_write_to_pager no_vfs_pagers (of_nat offset) buf (Some s)) io)
            (\<lambda>(cnt, io1). Inr (unat cnt, io1)))"

section \<open>Listing a directory\<close>

text \<open>The tables of other drivers, whose nodes can be put into a directory, are given by \<open>other\<close>.\<close>

definition nullfs_stat_at ::
  "(nat \<Rightarrow> nullfs_state node_ops) \<Rightarrow> nat \<Rightarrow> (fs_node \<Rightarrow> nio \<Rightarrow> (stat_t option \<times> nio) res) option" where
  "nullfs_stat_at other a =
     (if a = NULLFS_D_OPS then Some nullfs_d_stat else if a = NULLFS_F_OPS then Some nullfs_f_stat
      else op_stat (other a))"

fun nth_item :: "nat \<Rightarrow> nat option \<Rightarrow> (nat \<Rightarrow> nullfs_item option) \<Rightarrow> nullfs_item option res" where
  "nth_item k None items = Inr None"
| "nth_item 0 (Some x) items = rbind (deref items x) (\<lambda>i. Inr (Some i))"
| "nth_item (Suc k) (Some x) items = rbind (deref items x) (\<lambda>i. nth_item k (ni_next i) items)"

text \<open>A \<open>stat\<close> that fails leaves what the caller had in the record; zeros stand for it.\<close>

definition nullfs_d_readdir ::
  "(nat \<Rightarrow> nullfs_state node_ops) \<Rightarrow> fs_handle \<Rightarrow> fs_node \<Rightarrow> nat \<Rightarrow> nio \<Rightarrow> (dirent option \<times> nio) res" where
  "nullfs_d_readdir other f fn ent_no io =
     (let da = fn_data fn
      in rbind (lock_dir da io) (\<lambda>(d, io1). rbind (nth_item ent_no (items_list d) (n_items (snd io1))) (\<lambda>it.
           case it of
             None \<Rightarrow> rbind (unlock_dir da io1) (\<lambda>io2. Inr (None, io2))
           | Some i \<Rightarrow>
               (let n = \<lparr>fn_refs = 0, fn_locked = False, fn_name = None, fn_fs = fn_fs fn, fn_children = None,
                         fn_parent = None, fn_ops = ni_ops i, fn_data = ni_data i, fn_pager = ni_pager i\<rparr>
                in case nullfs_stat_at other (ni_ops i) of
                     None \<Rightarrow> Inl Bad_access
                   | Some g \<Rightarrow>
                       rbind (g n io1) (\<lambda>(st, io2). rbind (unlock_dir da io2) (\<lambda>io3.
                         Inr (Some \<lparr>d_name = take (DIR_MAX - 1) (c_str (ni_name i)),
                                    d_st = (case st of None \<Rightarrow> \<lparr>st_type = 0, st_access = 0, st_size = 0\<rparr> | Some r \<Rightarrow> r)\<rparr>,
                              io3)))))))"

section \<open>The tables\<close>

definition nullfs_d_ops :: "(nat \<Rightarrow> nullfs_state node_ops) \<Rightarrow> nullfs_state node_ops" where
  "nullfs_d_ops other =
     \<lparr>op_open = Some nullfs_d_open, op_read = None, op_write = None, op_readdir = Some (nullfs_d_readdir other),
      op_poll = None, op_close = Some nullfs_d_close, op_stat = Some nullfs_d_stat, op_ioctl = None,
      op_walk = Some nullfs_d_walk, op_delete = Some nullfs_d_delete, op_move = Some nullfs_d_move,
      op_create = Some nullfs_d_create, op_dispose = Some nullfs_d_dispose\<rparr>"

definition nullfs_f_ops :: "nullfs_state node_ops" where
  "nullfs_f_ops =
     \<lparr>op_open = Some nullfs_f_open, op_read = Some nullfs_f_read, op_write = Some nullfs_f_write, op_readdir = None,
      op_poll = None, op_close = Some nullfs_f_close, op_stat = Some nullfs_f_stat, op_ioctl = None,
      op_walk = None, op_delete = None, op_move = None, op_create = None, op_dispose = Some nullfs_f_dispose\<rparr>"

definition nullfs_ops :: "nullfs_state fs_ops_t" where
  "nullfs_ops = \<lparr>fo_add_source = None, fo_shutdown = Some nullfs_fs_shutdown\<rparr>"

definition nullfs_code :: "(nat \<Rightarrow> nullfs_state node_ops) \<Rightarrow> nullfs_state code" where
  "nullfs_code other =
     \<lparr>node_ops_at = (\<lambda>a. if a = NULLFS_D_OPS then nullfs_d_ops other else if a = NULLFS_F_OPS then nullfs_f_ops else other a),
      fs_ops_at = (\<lambda>_. nullfs_ops),
      make_at = (\<lambda>_. nullfs_fs_make)\<rparr>"

definition register_nullfs_driver :: "nullfs_state vfs \<Rightarrow> nullfs_state vfs res" where
  "register_nullfs_driver s = register_fs_driver ''nullfs'' NULLFS_DRIVER s"

section \<open>Putting nodes into a file system\<close>

text \<open>The reference on the directory that the walk takes is not given back.\<close>

definition nullfs_add_node ::
  "nullfs_state code \<Rightarrow> nat \<Rightarrow> string \<Rightarrow> nat \<Rightarrow> nat \<Rightarrow> nat option \<Rightarrow> nullfs_state vfs \<Rightarrow> (bool \<times> nullfs_state vfs) res" where
  "nullfs_add_node C fa name data ops pager s =
     rbind (deref (v_fs s) fa) (\<lambda>f. rbind (fs_walk_path_except_last C (fs_root f) name s) (\<lambda>((n, file_name), s1).
       case n of
         None \<Rightarrow> Inr (False, s1)
       | Some a \<Rightarrow>
           rbind (deref (v_nodes s1) a) (\<lambda>nd.
             if fn_ops nd \<noteq> NULLFS_D_OPS then Inr (False, s1)
             else
               call (\<lambda>io. rbind (lock_dir (fn_data nd) io) (\<lambda>(d, io1).
                       add_item (fn_data nd) file_name ops data pager Inr io1)) s1)))"

definition nullfs_add_ram_file ::
  "nullfs_state code \<Rightarrow> nat \<Rightarrow> string \<Rightarrow> u8 list \<Rightarrow> u32 \<Rightarrow> nullfs_state vfs \<Rightarrow> (bool \<times> nullfs_state vfs) res" where
  "nullfs_add_ram_file C fa name data modes s =
     rbind (call (\<lambda>io. Inr (n_malloc io)) s) (\<lambda>(f, s1).
       case f of
         None \<Rightarrow> Inr (False, s1)
       | Some fl \<Rightarrow>
           rbind (call (\<lambda>io. Inr (n_new_swap_pager (of_nat (length data)) io)) s1) (\<lambda>(p, s2).
             case p of
               None \<Rightarrow> rbind (run_op (\<lambda>io. Inr ((), n_free io)) s2) (\<lambda>s3. Inr (False, s3))
             | Some pa \<Rightarrow>
                 rbind (run_op (\<lambda>io. Inr ((), set_file fl \<lparr>nf_pager = pa,
                     nf_ok_modes = modes AND (FM_MMAP OR FM_TRUNC OR FM_READ OR FM_WRITE), nf_locked = False\<rparr> io)) s2) (\<lambda>s3.
                 rbind (nullfs_add_node C fa name fl NULLFS_F_OPS (Some pa) s3) (\<lambda>(add_ok, s4).
                   if add_ok then
                     rbind (run_op (\<lambda>io. rbind (on_pager pa (pager_write no_vfs_pagers 0 data) io) (\<lambda>(_, io'). Inr ((), io'))) s4)
                       (\<lambda>s5. Inr (True, s5))
                   else
                     rbind (run_op (\<lambda>io. rbind (n_delete_pager pa io) (\<lambda>(h, st).
                         Inr ((), heap_free h, st\<lparr>n_files := (n_files st)(fl := None)\<rparr>))) s4) (\<lambda>s5. Inr (False, s5))))))"

end
