(* ===== verification/Nullfs_Inv.thy ===== *)
theory Nullfs_Inv
  imports Vfs_Ops Nullfs
begin

text \<open>
  The file system in memory keeps the contract of a driver: its directories and files are in order between two calls,
  and an object that the virtual file system has a node for stays. Deleting, reading and writing are left out: the
  properties at the end of theory \<open>Vfs_Props\<close> say what goes wrong there.
\<close>

section \<open>The invariant of the driver\<close>

definition ngood :: "nat \<times> nat \<times> nat option \<Rightarrow> nullfs_state \<Rightarrow> bool" where
  "ngood = (\<lambda>(ops, data, pager) d.
     ops = NULLFS_D_OPS \<and> n_dirs d data \<noteq> None \<or> ops = NULLFS_F_OPS \<and> n_files d data \<noteq> None)"

definition dir_ok :: "nullfs_state \<Rightarrow> nullfs_dir \<Rightarrow> bool" where
  "dir_ok d di \<longleftrightarrow> \<not> nd_locked di \<and> n_fs d (nd_fs di) \<noteq> None \<and> ht_ok str_key_eq_fun str_hash_fun (items_idx di)
     \<and> (\<forall>k x. hashtbl_find (items_idx di) k = Some x \<longrightarrow>
          (\<exists>i. n_items d x = Some i \<and> ngood (ni_ops i, ni_data i, ni_pager i) d))"

definition empty_pager :: "pager \<Rightarrow> bool" where
  "empty_pager p \<longleftrightarrow> \<not> pg_locked p \<and> pg_size p = 0 \<and> pg_maps p = [] \<and> pg_kind p = Swap_pager True"

definition file_ok :: "nullfs_state \<Rightarrow> nullfs_file \<Rightarrow> bool" where
  "file_ok d f \<longleftrightarrow> \<not> nf_locked f \<and> (\<exists>p. n_pagers d (nf_pager f) = Some p \<and> empty_pager p)"

definition ninv :: "nullfs_state \<Rightarrow> bool" where
  "ninv d \<longleftrightarrow>
     (\<forall>a di. n_dirs d a = Some di \<longrightarrow> dir_ok d di) \<and> (\<forall>a f. n_files d a = Some f \<longrightarrow> file_ok d f)
     \<and> (\<forall>a. n_next d \<le> a \<longrightarrow> n_dirs d a = None \<and> n_files d a = None \<and> n_items d a = None \<and> n_pagers d a = None)"

definition keeps :: "nullfs_state \<Rightarrow> nullfs_state \<Rightarrow> bool" where
  "keeps d d' \<longleftrightarrow> ninv d' \<and> (\<forall>k. ngood k d \<longrightarrow> ngood k d')"

lemma ninvD:
  assumes "ninv d"
  shows "n_dirs d a = Some di \<Longrightarrow> dir_ok d di" and "n_files d a = Some f \<Longrightarrow> file_ok d f"
    and "n_next d \<le> a \<Longrightarrow> n_dirs d a = None \<and> n_files d a = None \<and> n_items d a = None \<and> n_pagers d a = None"
  using assms unfolding ninv_def by blast+

lemma keeps_refl: "ninv d \<Longrightarrow> keeps d d"
  by (simp add: keeps_def)

text \<open>
  The state after a call: the directory \<open>da\<close> may have a new table, and there may be a new directory, file, pager and
  item at addresses that were free. Every binding of the new table is an old one, or leads to the new item.
\<close>

lemma keeps_extend:
  assumes inv: "ninv d" and da: "n_dirs d da = Some di"
    and dirs: "n_dirs d' da = Some di'" "\<And>a. a \<noteq> da \<Longrightarrow> n_dirs d a \<noteq> None \<Longrightarrow> n_dirs d' a = n_dirs d a"
    and new_dir: "\<And>a e. a \<noteq> da \<Longrightarrow> n_dirs d a = None \<Longrightarrow> n_dirs d' a = Some e \<Longrightarrow> dir_ok d' e"
    and di': "\<not> nd_locked di'" "nd_fs di' = nd_fs di" "ht_ok str_key_eq_fun str_hash_fun (items_idx di')"
      "\<And>k x. hashtbl_find (items_idx di') k = Some x \<Longrightarrow> hashtbl_find (items_idx di) k = Some x
        \<or> (\<exists>i. n_items d' x = Some i \<and> ngood (ni_ops i, ni_data i, ni_pager i) d')"
    and fs: "n_fs d' = n_fs d"
    and files: "\<And>a f. n_files d a = Some f \<Longrightarrow> n_files d' a = Some f"
      "\<And>a f. n_files d a = None \<Longrightarrow> n_files d' a = Some f \<Longrightarrow> file_ok d' f"
    and items: "\<And>a i. n_items d a = Some i \<Longrightarrow> n_items d' a = Some i"
    and pagers: "\<And>a p. n_pagers d a = Some p \<Longrightarrow> n_pagers d' a = Some p"
    and fresh: "\<And>a. n_next d' \<le> a \<Longrightarrow> n_dirs d' a = None \<and> n_files d' a = None \<and> n_items d' a = None \<and> n_pagers d' a = None"
  shows "keeps d d'"
proof -
  have g: "ngood k d \<Longrightarrow> ngood k d'" for k
    using da dirs files(1) by (auto simp: ngood_def split: prod.splits) (metis option.distinct(1))+
  have dok: "dir_ok d' e" if "n_dirs d a = Some e" "a \<noteq> da" for a e
    using ninvD(1) [OF inv that(1)] fs items g unfolding dir_ok_def by metis
  have "dir_ok d' di'"
    using ninvD(1) [OF inv da] di' fs items g unfolding dir_ok_def by metis
  then have "dir_ok d' e" if "n_dirs d' a = Some e" for a e
    using that dok new_dir dirs by (metis option.exhaust option.inject)
  moreover have "file_ok d' f" if "n_files d' a = Some f" for a f
  proof (cases "n_files d a")
    case (Some f0)
    then have "file_ok d f" using ninvD(2) [OF inv] files(1) that by fastforce
    then show ?thesis using pagers by (auto simp: file_ok_def)
  qed (use files(2) that in blast)
  ultimately show ?thesis using fresh g unfolding keeps_def ninv_def by blast
qed

section \<open>The simple operations\<close>

lemma ngood_cases:
  assumes "ngood (key n) d"
  obtains di where "fn_ops n = NULLFS_D_OPS" and "n_dirs d (fn_data n) = Some di"
  | f where "fn_ops n = NULLFS_F_OPS" and "n_files d (fn_data n) = Some f"
  using assms by (auto simp: ngood_def key_def)

lemma nullfs_ops_of:
  "fn_ops n = NULLFS_D_OPS \<Longrightarrow> ops_of (nullfs_code other) n = nullfs_d_ops other"
  "fn_ops n = NULLFS_F_OPS \<Longrightarrow> ops_of (nullfs_code other) n = nullfs_f_ops"
  by (simp_all add: ops_of_def nullfs_code_def NULLFS_D_OPS_def NULLFS_F_OPS_def)

lemma dir_restore: "\<not> nd_locked di \<Longrightarrow> n_dirs d a = Some di \<Longrightarrow>
    d\<lparr>n_dirs := (n_dirs d)(a \<mapsto> di\<lparr>nd_locked := False\<rparr>)\<rparr> = d"
  by (rule nullfs_state.equality) (simp_all add: fun_upd_idem)

lemma file_restore: "\<not> nf_locked f \<Longrightarrow> n_files d a = Some f \<Longrightarrow>
    d\<lparr>n_files := (n_files d)(a \<mapsto> f\<lparr>nf_locked := False\<rparr>)\<rparr> = d"
  by (rule nullfs_state.equality) (simp_all add: fun_upd_idem)

lemma d_stat_ok: "ninv d \<Longrightarrow> n_dirs d (fn_data n) = Some di \<Longrightarrow> ends (nullfs_d_stat n (h, d)) (\<lambda>(r, h', d'). d' = d)"
  using ninvD(1) [of d "fn_data n" di]
  by (auto simp: nullfs_d_stat_def lock_dir_def unlock_dir_def set_dir_def dir_ok_def Let_def dir_restore)

lemma d_walk_ok:
  assumes inv: "ninv d" and di: "n_dirs d (fn_data n) = Some di"
  shows "ends (nullfs_d_walk n name n0 (h, d)) (\<lambda>((ok, n'), h', d'). d' = d
    \<and> (ok \<longrightarrow> (\<exists>o' dt pg. n' = n0\<lparr>fn_ops := o', fn_data := dt, fn_pager := pg\<rparr> \<and> ngood (o', dt, pg) d)))"
proof -
  have ok: "dir_ok d di" using ninvD(1) [OF inv di] .
  show ?thesis
  proof (cases "hashtbl_find (items_idx di) name")
    case None
    then show ?thesis using ok di
      by (simp add: nullfs_d_walk_def lock_dir_def unlock_dir_def set_dir_def dir_ok_def Let_def dir_restore)
  next
    case (Some x)
    then obtain i where "n_items d x = Some i" "ngood (ni_ops i, ni_data i, ni_pager i) d" using ok by (auto simp: dir_ok_def)
    then show ?thesis using ok di Some
      by (auto simp: nullfs_d_walk_def lock_dir_def unlock_dir_def set_dir_def dir_ok_def Let_def dir_restore)
  qed
qed

lemma f_stat_ok: "ninv d \<Longrightarrow> n_files d (fn_data n) = Some f \<Longrightarrow> ends (nullfs_f_stat n (h, d)) (\<lambda>(r, h', d'). d' = d)"
  using ninvD(2) [of d "fn_data n" f]
  by (auto simp: nullfs_f_stat_def lock_file_def unlock_file_def set_file_def file_ok_def Let_def file_restore)

lemma pager_resize_empty:
  assumes "empty_pager p"
  shows "ends (pager_resize V 0 (p, e)) (\<lambda>(r, p', e'). empty_pager p')"
  using assms by (simp add: pager_resize_def op_resize_def swap_pager_resize_def lock_pager_def unlock_pager_def
      empty_pager_def)

lemma f_open_ok:
  assumes inv: "ninv d" and fl: "n_files d (fn_data n) = Some f"
  shows "ends (nullfs_f_open n mode (h, d)) (\<lambda>(r, h', d'). keeps d d')"
proof -
  have ok: "file_ok d f" by (rule ninvD(2) [OF inv fl])
  obtain p where p: "n_pagers d (nf_pager f) = Some p" "empty_pager p" and ul: "\<not> nf_locked f" using ok by (auto simp: file_ok_def)
  show ?thesis
  proof (cases "beyond mode (nf_ok_modes f) \<or> \<not> has_flag mode FM_TRUNC")
    case True
    then show ?thesis using fl keeps_refl [OF inv] by (auto simp: nullfs_f_open_def)
  next
    case False
    obtain r p' e' where r: "pager_resize no_vfs_pagers 0 (p, (n_env d)\<lparr>pe_heap := h\<rparr>) = Inr (r, p', e')" "empty_pager p'"
      using pager_resize_empty [OF p(2), of no_vfs_pagers "(n_env d)\<lparr>pe_heap := h\<rparr>"] by (auto simp: ends_iff)
    define d' where "d' = d\<lparr>n_pagers := (n_pagers d)(nf_pager f \<mapsto> p'), n_env := e'\<rparr>"
    have "nullfs_f_open n mode (h, d) = Inr (True, pe_heap e', d')"
    proof -
      have "d\<lparr>n_pagers := (n_pagers d)(nf_pager f \<mapsto> p'), n_env := e', n_files := (n_files d)(fn_data n \<mapsto> f\<lparr>nf_locked := False\<rparr>)\<rparr> = d'"
        unfolding d'_def by (rule nullfs_state.equality) (simp_all add: ul fl fun_upd_idem)
      then show ?thesis
        using False fl ul p(1) r(1) by (simp add: nullfs_f_open_def lock_file_def unlock_file_def set_file_def on_pager_def Let_def)
    qed
    moreover have "keeps d d'"
    proof -
      have g: "ngood k d' = ngood k d" for k by (auto simp: ngood_def d'_def split: prod.splits)
      have "dir_ok d' e = dir_ok d e" for e unfolding dir_ok_def g by (simp add: d'_def)
      moreover have "file_ok d e \<Longrightarrow> file_ok d' e" for e using r(2) by (auto simp: file_ok_def d'_def)
      ultimately show ?thesis
        using inv p(1) unfolding keeps_def ninv_def g by (auto simp: d'_def)
    qed
    ultimately show ?thesis by simp
  qed
qed

section \<open>Creating\<close>

text \<open>What the undo of a failed creation leaves: the new object, file or directory, is gone.\<close>

definition undone :: "nat \<Rightarrow> (nat \<Rightarrow> nullfs_file option) \<Rightarrow> (nat \<Rightarrow> pager option) \<Rightarrow> nullfs_state \<Rightarrow> nullfs_state \<Rightarrow> bool" where
  "undone xd F P s s' \<longleftrightarrow> n_dirs s' = (n_dirs s)(xd := None) \<and> n_items s' = n_items s \<and> n_fs s' = n_fs s
     \<and> n_next s' = n_next s \<and> n_files s' = F \<and> n_pagers s' = P"

text \<open>The state after a failure differs in the table of the directory, that finds what it found before.\<close>

definition only_table :: "nat \<Rightarrow> nullfs_dir \<Rightarrow> nat \<Rightarrow> (nat \<Rightarrow> nullfs_file option) \<Rightarrow> (nat \<Rightarrow> pager option) \<Rightarrow>
    nullfs_state \<Rightarrow> nullfs_state \<Rightarrow> bool" where
  "only_table da di xd F P st st' \<longleftrightarrow> (\<exists>ht. ht_ok str_key_eq_fun str_hash_fun ht
     \<and> hashtbl_find ht = hashtbl_find (items_idx di)
     \<and> n_dirs st' = (n_dirs st)(xd := None, da \<mapsto> di\<lparr>items_idx := ht, nd_locked := False\<rparr>)
     \<and> n_items st' = n_items st \<and> n_fs st' = n_fs st \<and> n_next st \<le> n_next st' \<and> n_files st' = F \<and> n_pagers st' = P)"

text \<open>The state after success: the new item and the binding for it.\<close>

definition item_added :: "nat \<Rightarrow> nullfs_dir \<Rightarrow> nat \<Rightarrow> nat \<Rightarrow> nat option \<Rightarrow> nullfs_state \<Rightarrow> nullfs_state \<Rightarrow> bool" where
  "item_added da di ops data pager st st' \<longleftrightarrow> (\<exists>ht name i. ht_ok str_key_eq_fun str_hash_fun ht
     \<and> (\<forall>k x. hashtbl_find ht k = Some x \<longrightarrow> hashtbl_find (items_idx di) k = Some x \<or> x = n_next st)
     \<and> ni_ops i = ops \<and> ni_data i = data \<and> ni_pager i = pager \<and> ni_name i = name
     \<and> st' = st\<lparr>n_next := n_next st + 1, n_items := (n_items st)(n_next st \<mapsto> i),
              n_dirs := (n_dirs st)(da \<mapsto> di\<lparr>items_idx := ht, items_list := Some (n_next st), nd_locked := False\<rparr>)\<rparr>)"

lemma unlock_dir_Inr: "n_dirs st da = Some di \<Longrightarrow>
    unlock_dir da (h, st) = Inr (h, st\<lparr>n_dirs := (n_dirs st)(da \<mapsto> di\<lparr>nd_locked := False\<rparr>)\<rparr>)"
  by (simp add: unlock_dir_def set_dir_def)

lemma undo_unlock:
  assumes u: "\<exists>h' st'. undo (h, st1) = Inr (h', st') \<and> undone xd F P st1 st'"
    and da: "n_dirs st1 = (n_dirs st)(da \<mapsto> di\<lparr>items_idx := ht\<rparr>)" "da \<noteq> xd"
    and same: "n_items st1 = n_items st" "n_fs st1 = n_fs st" "n_next st \<le> n_next st1"
    and ht: "ht_ok str_key_eq_fun str_hash_fun ht" "hashtbl_find ht = hashtbl_find (items_idx di)"
  shows "ends (rbind (undo (h, st1)) (\<lambda>io2. rbind (unlock_dir da io2) (\<lambda>io3. Inr (False, io3))))
    (\<lambda>(ok, h', st'). \<not> ok \<and> only_table da di xd F P st st')"
proof -
  obtain h' st' where s': "undo (h, st1) = Inr (h', st')" "undone xd F P st1 st'" using u by blast
  have d: "n_dirs st' da = Some (di\<lparr>items_idx := ht\<rparr>)" using s'(2) da by (simp add: undone_def)
  have "(n_dirs st')(da \<mapsto> di\<lparr>items_idx := ht, nd_locked := False\<rparr>)
      = (n_dirs st)(xd := None, da \<mapsto> di\<lparr>items_idx := ht, nd_locked := False\<rparr>)"
    using s'(2) da by (auto simp: undone_def fun_eq_iff)
  then show ?thesis
    using s' ht same unlock_dir_Inr [OF d, of h'] by (auto simp: only_table_def undone_def)
qed

lemma add_item_ok:
  assumes da: "n_dirs st da = Some di" "da \<noteq> xd" and ht: "ht_ok str_key_eq_fun str_hash_fun (items_idx di)"
    and undo: "\<And>h s. n_files s = n_files st \<Longrightarrow> n_pagers s = n_pagers st \<Longrightarrow> (\<And>a. a \<noteq> da \<Longrightarrow> n_dirs s a = n_dirs st a) \<Longrightarrow>
      \<exists>h' s'. undo (h, s) = Inr (h', s') \<and> undone xd F P s s'"
  shows "ends (add_item da name ops data pager undo (h, st))
    (\<lambda>(ok, h', st'). if ok then item_added da di ops data pager st st' else only_table da di xd F P st st')"
proof -
  obtain ok1 h1 where m: "heap_malloc h = (ok1, h1)" by fastforce
  have idem: "(n_dirs st)(da \<mapsto> di\<lparr>items_idx := items_idx di\<rparr>) = n_dirs st" using da(1) by (simp add: fun_upd_idem)
  have fail: "ends (rbind (undo (h', s)) (\<lambda>io2. rbind (unlock_dir da io2) (\<lambda>io3. Inr (False, io3))))
      (\<lambda>(ok, h', st'). if ok then item_added da di ops data pager st st' else only_table da di xd F P st st')"
    if s: "n_dirs s = (n_dirs st)(da \<mapsto> di\<lparr>items_idx := t\<rparr>)" "n_items s = n_items st" "n_fs s = n_fs st" "n_next st \<le> n_next s"
      "n_files s = n_files st" "n_pagers s = n_pagers st" "ht_ok str_key_eq_fun str_hash_fun t"
      "hashtbl_find t = hashtbl_find (items_idx di)" for s t h'
  proof (rule ends_mono)
    show "ends (rbind (undo (h', s)) (\<lambda>io2. rbind (unlock_dir da io2) (\<lambda>io3. Inr (False, io3))))
      (\<lambda>(ok, h', st'). \<not> ok \<and> only_table da di xd F P st st')"
    proof (rule undo_unlock [where ht = t])
      show "\<exists>h'' st'. undo (h', s) = Inr (h'', st') \<and> undone xd F P s st'" by (rule undo [OF s(5,6)]) (simp add: s(1))
    qed (fact s da)+
  qed auto
  show ?thesis
  proof (cases ok1)
    case False
    then show ?thesis
      using fail [of st "items_idx di" h1] idem ht m by (simp add: add_item_def n_malloc_def)
  next
    case True
    define st1 where "st1 = st\<lparr>n_next := n_next st + 1\<rparr>"
    obtain ok2 h2 where m2: "heap_malloc h1 = (ok2, h2)" by fastforce
    show ?thesis
    proof (cases ok2)
      case False
      then show ?thesis
        using fail [of st1 "items_idx di" "heap_free h2"] idem ht m m2 True
        by (simp add: add_item_def n_malloc_def strdup_def n_free_def st1_def)
    next
      case ok2: True
      obtain ok3 t h3 where put: "ht_put h2 (items_idx di) (c_str name) (n_next st) = (ok3, t, h3)" by (metis prod_cases3)
      note p = ht_put_spec [OF ht put]
      show ?thesis
      proof (cases ok3)
        case False
        have "hashtbl_find t = hashtbl_find (items_idx di)" using p(2) False by (auto simp: fun_eq_iff)
        then show ?thesis
          using fail [of "st1\<lparr>n_dirs := (n_dirs st)(da \<mapsto> di\<lparr>items_idx := t\<rparr>)\<rparr>" t "heap_free (heap_free h3)"] p(1) m m2 True ok2 put da False
          by (simp add: add_item_def n_malloc_def strdup_def n_free_def set_dir_def Let_def st1_def)
      next
        case ok3: True
        define i where "i = \<lparr>ni_name = c_str name, ni_data = data, ni_ops = ops, ni_pager = pager, ni_next = items_list di\<rparr>"
        have "item_added da di ops data pager st (st\<lparr>n_next := n_next st + 1, n_items := (n_items st)(n_next st \<mapsto> i),
            n_dirs := (n_dirs st)(da \<mapsto> di\<lparr>items_idx := t, items_list := Some (n_next st), nd_locked := False\<rparr>)\<rparr>)"
          unfolding item_added_def
          by (rule exI [of _ t], rule exI [of _ "c_str name"], rule exI [of _ i]) (use p in \<open>auto simp: i_def split: if_splits\<close>)
        moreover have "add_item da name ops data pager undo (h, st) = Inr (True, h3, st\<lparr>n_next := n_next st + 1,
            n_items := (n_items st)(n_next st \<mapsto> i),
            n_dirs := (n_dirs st)(da \<mapsto> di\<lparr>items_idx := t, items_list := Some (n_next st), nd_locked := False\<rparr>)\<rparr>)"
          using m m2 True ok2 put da ok3
          by (simp add: add_item_def n_malloc_def strdup_def set_dir_def set_item_def Let_def unlock_dir_def i_def)
        ultimately show ?thesis by simp
      qed
    qed
  qed
qed

lemma keeps_table:
  assumes inv: "ninv d" and da: "n_dirs d da = Some di" and ot: "only_table da di' xd (n_files d) (n_pagers d) st st'"
    and di': "di' = di\<lparr>nd_locked := True\<rparr>" and st: "(n_dirs st)(xd := None) = (n_dirs d)(da \<mapsto> di')"
      "n_items st = n_items d" "n_fs st = n_fs d" "n_next d \<le> n_next st"
  shows "keeps d st'"
proof -
  obtain ht where ht: "ht_ok str_key_eq_fun str_hash_fun ht" "hashtbl_find ht = hashtbl_find (items_idx di)"
    and s': "n_dirs st' = (n_dirs d)(da \<mapsto> di\<lparr>items_idx := ht, nd_locked := False\<rparr>)" "n_items st' = n_items d"
      "n_fs st' = n_fs d" "n_next d \<le> n_next st'" "n_files st' = n_files d" "n_pagers st' = n_pagers d"
  proof -
    obtain ht where h: "ht_ok str_key_eq_fun str_hash_fun ht" "hashtbl_find ht = hashtbl_find (items_idx di')"
      "n_dirs st' = (n_dirs st)(xd := None, da \<mapsto> di'\<lparr>items_idx := ht, nd_locked := False\<rparr>)" "n_items st' = n_items st"
      "n_fs st' = n_fs st" "n_next st \<le> n_next st'" "n_files st' = n_files d" "n_pagers st' = n_pagers d"
      using ot unfolding only_table_def by blast
    have "n_dirs st' = (n_dirs d)(da \<mapsto> di\<lparr>items_idx := ht, nd_locked := False\<rparr>)"
      unfolding h(3) st(1) fun_upd_upd by (simp add: di')
    with h st show ?thesis using that [of ht] di' by simp
  qed
  show ?thesis
    by (rule keeps_extend [OF inv da, of st' "di\<lparr>items_idx := ht, nd_locked := False\<rparr>"])
      (use s' ht ninvD(3) [OF inv] da in \<open>auto split: if_splits\<close>)
qed

lemma new_swap_pager_cases:
  "new_swap_pager sz True h = (r, h') \<Longrightarrow> (case r of None \<Rightarrow> True | Some p \<Rightarrow> \<not> pg_locked p \<and> pg_size p = sz \<and> pg_maps p = []
     \<and> pg_kind p = Swap_pager True)"
  by (auto simp: new_swap_pager_def new_pager_def split: prod.split_asm if_split_asm option.split_asm)

lemma page_range_zero: "page_range 0 0 = Inr []"
  unfolding page_range_def by (subst pages_from.simps) simp

lemma delete_empty_pager: "empty_pager p \<Longrightarrow> \<exists>e'. delete_pager V (p, e) = Inr e'"
  by (simp add: delete_pager_def empty_pager_def lock_pager_def op_page_commit_def op_page_release_def
      swap_page_release_def page_range_zero PAGE_ALIGNED_def)

lemma undo_file:
  assumes "n_pagers s p = Some pg" and "empty_pager pg"
  shows "\<exists>h' s'. (\<lambda>io4. rbind (n_delete_pager p (n_free io4)) (\<lambda>(h, st). Inr (h, st\<lparr>n_files := (n_files st)(f := None)\<rparr>)))
      (h, s) = Inr (h', s') \<and> n_dirs s' = n_dirs s \<and> n_items s' = n_items s \<and> n_fs s' = n_fs s \<and> n_next s' = n_next s
      \<and> n_files s' = (n_files s)(f := None) \<and> n_pagers s' = (n_pagers s)(p := None)"
proof -
  obtain e' where "delete_pager no_vfs_pagers (pg, (n_env s)\<lparr>pe_heap := heap_free h\<rparr>) = Inr e'"
    using delete_empty_pager [OF assms(2)] by blast
  then show ?thesis using assms(1) by (simp add: n_delete_pager_def n_free_def)
qed

lemma create_file_ok:
  assumes inv: "ninv d" and da: "n_dirs d (fn_data n) = Some di"
  shows "ends (nullfs_d_create n name FT_REGULAR (h, d)) (\<lambda>(r, h', d'). keeps d d')"
proof -
  let ?da = "fn_data n"
  have ok: "dir_ok d di" by (rule ninvD(1) [OF inv da])
  then have ul: "\<not> nd_locked di" and ht: "ht_ok str_key_eq_fun str_hash_fun (items_idx di)" by (simp_all add: dir_ok_def)
  define di1 where "di1 = di\<lparr>nd_locked := True\<rparr>"
  define d1 where "d1 = d\<lparr>n_dirs := (n_dirs d)(?da \<mapsto> di1)\<rparr>"
  let ?N = "n_next d"
  have fresh: "n_dirs d ?N = None" "n_files d ?N = None" "n_pagers d (?N + 1) = None" "?da \<noteq> ?N"
    using ninvD(3) [OF inv, of ?N] ninvD(3) [OF inv, of "?N + 1"] da by auto
  have early: "keeps d st'" if "n_dirs st' = (n_dirs d)(?da \<mapsto> di1\<lparr>nd_locked := False\<rparr>)" "n_items st' = n_items d"
      "n_fs st' = n_fs d" "?N \<le> n_next st'" "n_files st' = n_files d" "n_pagers st' = n_pagers d" for st'
    by (rule keeps_extend [OF inv da, of st' "di1\<lparr>nd_locked := False\<rparr>"])
      (use that ht ninvD(3) [OF inv] da in \<open>auto simp: di1_def split: if_splits\<close>)
  obtain b1 h1 where m1: "heap_malloc h = (b1, h1)" by fastforce
  obtain q h2 where ns: "new_swap_pager 0 True h1 = (q, h2)" by fastforce
  show ?thesis
  proof (cases "b1 \<and> q \<noteq> None")
    case False
    then show ?thesis
      using m1 ns da ul
      by (auto simp: nullfs_d_create_def Let_def lock_dir_def set_dir_def n_malloc_def n_new_swap_pager_def n_free_def
          unlock_dir_def di1_def [symmetric] intro!: early)
  next
    case True
    then obtain pg where q: "q = Some pg" by blast
    have pg: "empty_pager pg" using new_swap_pager_cases [OF ns] by (simp add: q empty_pager_def)
    define fl where "fl = \<lparr>nf_pager = ?N + 1, nf_ok_modes = FM_READ OR FM_WRITE OR FM_TRUNC OR FM_APPEND, nf_locked = False\<rparr>"
    define st where "st = d1\<lparr>n_pagers := (n_pagers d)(?N + 1 \<mapsto> pg), n_next := ?N + 2, n_files := (n_files d)(?N \<mapsto> fl)\<rparr>"
    define undo where "undo = (\<lambda>io4. rbind (n_delete_pager (?N + 1) (n_free io4))
      (\<lambda>(h, st). Inr (h, st\<lparr>n_files := (n_files st)(?N := None)\<rparr>)) :: nio res)"
    have eq: "nullfs_d_create n name FT_REGULAR (h, d) = add_item ?da name NULLFS_F_OPS ?N (Some (?N + 1)) undo (h2, st)"
      using m1 ns True q da ul
      by (simp add: nullfs_d_create_def Let_def lock_dir_def set_dir_def n_malloc_def n_new_swap_pager_def set_file_def
          undo_def st_def d1_def di1_def fl_def)
    have dst: "n_dirs st ?da = Some di1" "n_dirs st ?N = None" using fresh by (simp_all add: st_def d1_def)
    have "ends (add_item ?da name NULLFS_F_OPS ?N (Some (?N + 1)) undo (h2, st)) (\<lambda>(ok, h', st'). if ok
        then item_added ?da di1 NULLFS_F_OPS ?N (Some (?N + 1)) st st'
        else only_table ?da di1 ?N (n_files d) (n_pagers d) st st')"
    proof (rule add_item_ok [OF dst(1) fresh(4)])
      fix h and s :: nullfs_state assume s: "n_files s = n_files st" "n_pagers s = n_pagers st" "\<And>a. a \<noteq> ?da \<Longrightarrow> n_dirs s a = n_dirs st a"
      have p: "n_pagers s (?N + 1) = Some pg" using s(2) by (simp add: st_def)
      have "(n_dirs s)(?N := None) = n_dirs s" using s(3) [of ?N] fresh(4) dst(2) by auto
      moreover have "(n_files s)(?N := None) = n_files d" "(n_pagers s)(?N + 1 := None) = n_pagers d"
        using s fresh by (auto simp: st_def d1_def)
      ultimately show "\<exists>h' s'. undo (h, s) = Inr (h', s') \<and> undone ?N (n_files d) (n_pagers d) s s'"
        using undo_file [OF p pg, of h ?N] unfolding undo_def undone_def by fastforce
    qed (use ht in \<open>simp add: di1_def\<close>)
    then show ?thesis
      unfolding eq
    proof (rule ends_mono, clarify)
      fix b h' st' assume r: "if b then item_added ?da di1 NULLFS_F_OPS ?N (Some (?N + 1)) st st'
        else only_table ?da di1 ?N (n_files d) (n_pagers d) st st'"
      show "keeps d st'"
      proof (cases b)
        case False
        then have ot: "only_table ?da di1 ?N (n_files d) (n_pagers d) st st'" using r by simp
        show ?thesis
          by (rule keeps_table [OF inv da ot di1_def]) (use fresh in \<open>auto simp: st_def d1_def\<close>)
      next
        case True
        then obtain t nm i where t: "ht_ok str_key_eq_fun str_hash_fun t"
            "\<And>k x. hashtbl_find t k = Some x \<Longrightarrow> hashtbl_find (items_idx di) k = Some x \<or> x = n_next st"
            "ni_ops i = NULLFS_F_OPS" "ni_data i = ?N" "ni_pager i = Some (?N + 1)"
            "st' = st\<lparr>n_next := n_next st + 1, n_items := (n_items st)(n_next st \<mapsto> i),
              n_dirs := (n_dirs st)(?da \<mapsto> di1\<lparr>items_idx := t, items_list := Some (n_next st), nd_locked := False\<rparr>)\<rparr>"
          using r by (auto simp: item_added_def di1_def)
        have fo: "file_ok st' fl" using pg by (simp add: file_ok_def t(6) st_def fl_def)
        have gd: "ngood (NULLFS_F_OPS, ?N, Some (?N + 1)) st'" by (simp add: ngood_def t(6) st_def)
        define di2 where "di2 = di1\<lparr>items_idx := t, items_list := Some (?N + 2), nd_locked := False\<rparr>"
        have f: "n_dirs st' = (n_dirs d)(?da \<mapsto> di2)" "n_items st' = (n_items d)(?N + 2 \<mapsto> i)" "n_fs st' = n_fs d"
          "n_files st' = (n_files d)(?N \<mapsto> fl)" "n_pagers st' = (n_pagers d)(?N + 1 \<mapsto> pg)" "n_next st' = ?N + 3"
          unfolding t(6) by (simp_all add: st_def d1_def di2_def)
        have t2: "x = ?N + 2" if "hashtbl_find t k = Some x" "hashtbl_find (items_idx di) k \<noteq> Some x" for k x
          using t(2) [OF that(1)] that(2) by (simp add: st_def)
        have dz: "\<not> nd_locked di2" "nd_fs di2 = nd_fs di" "items_idx di2 = t" by (simp_all add: di2_def di1_def)
        have io: "\<exists>i. n_items st' (?N + 2) = Some i \<and> ngood (ni_ops i, ni_data i, ni_pager i) st'"
          using gd t(3-5) by (simp add: f(2))
        note fr = ninvD(3) [OF inv]
        show ?thesis
        proof (rule keeps_extend [OF inv da, of st' di2])
          show "hashtbl_find (items_idx di) k = Some x \<or> (\<exists>i. n_items st' x = Some i \<and> ngood (ni_ops i, ni_data i, ni_pager i) st')"
            if "hashtbl_find (items_idx di2) k = Some x" for k x
            using t2 [of k x] that io unfolding dz(3) by blast
          show "n_files st' a = Some g" if "n_files d a = Some g" for a g using that fr [of a] by (auto simp: f)
          show "file_ok st' g" if "n_files d a = None" "n_files st' a = Some g" for a g
            using that fo by (auto simp: f(4) split: if_splits)
          show "n_items st' a = Some j" if "n_items d a = Some j" for a j using that fr [of a] by (auto simp: f)
          show "n_pagers st' a = Some q" if "n_pagers d a = Some q" for a q using that fr [of a] by (auto simp: f)
          show "n_dirs st' a = None \<and> n_files st' a = None \<and> n_items st' a = None \<and> n_pagers st' a = None"
            if "n_next st' \<le> a" for a using that fr [of a] fr [of ?da] da by (auto simp: f)
        qed (use dz t(1) in \<open>auto simp: f split: if_splits\<close>)
      qed
    qed
  qed
qed

lemma fresh_table:
  assumes "create_hashtbl h str_key_eq_fun str_hash_fun False = (Some t, h')"
  shows "ht_ok str_key_eq_fun str_hash_fun t" and "hashtbl_find t k = None"
proof -
  have hk: "hash_keys str_key_eq_fun str_hash_fun" by unfold_locales
  note c = create_hashtbl_inv [OF hk assms] create_hashtbl_funs [OF assms]
  show "ht_ok str_key_eq_fun str_hash_fun t" using c by (simp add: ht_ok_def)
  show "hashtbl_find t k = None" using hashtbl_find_bound [OF c(1), of k] c(2) by (cases "hashtbl_find t k") auto
qed

lemma create_dir_ok:
  assumes inv: "ninv d" and da: "n_dirs d (fn_data n) = Some di"
  shows "ends (nullfs_d_create n name FT_DIR (h, d)) (\<lambda>(r, h', d'). keeps d d')"
proof -
  let ?da = "fn_data n"
  have ok: "dir_ok d di" by (rule ninvD(1) [OF inv da])
  then have ul: "\<not> nd_locked di" and ht: "ht_ok str_key_eq_fun str_hash_fun (items_idx di)"
    and nfs: "n_fs d (nd_fs di) \<noteq> None" by (simp_all add: dir_ok_def)
  define di1 where "di1 = di\<lparr>nd_locked := True\<rparr>"
  define d1 where "d1 = d\<lparr>n_dirs := (n_dirs d)(?da \<mapsto> di1)\<rparr>"
  let ?N = "n_next d"
  note fr = ninvD(3) [OF inv]
  have fresh: "n_dirs d ?N = None" "?da \<noteq> ?N" using fr [of ?N] da by auto
  have early: "keeps d st'" if "n_dirs st' = (n_dirs d)(?da \<mapsto> di1\<lparr>nd_locked := False\<rparr>)" "n_items st' = n_items d"
      "n_fs st' = n_fs d" "?N \<le> n_next st'" "n_files st' = n_files d" "n_pagers st' = n_pagers d" for st'
    by (rule keeps_extend [OF inv da, of st' "di1\<lparr>nd_locked := False\<rparr>"])
      (use that ht fr da in \<open>auto simp: di1_def split: if_splits\<close>)
  have types: "FT_DIR \<noteq> FT_REGULAR" by (simp add: FT_DIR_def FT_REGULAR_def)
  obtain b1 h1 where m1: "heap_malloc h = (b1, h1)" by fastforce
  obtain q :: "(string, nat) hashtbl option" and h2 where ns: "create_hashtbl h1 str_key_eq_fun str_hash_fun False = (q, h2)"
    by (meson surj_pair)
  show ?thesis
  proof (cases "b1 \<and> q \<noteq> None")
    case False
    then show ?thesis
      using m1 ns da ul types
      by (auto simp: nullfs_d_create_def Let_def lock_dir_def set_dir_def n_malloc_def n_free_def
          unlock_dir_def di1_def [symmetric] intro!: early)
  next
    case True
    then obtain nt where q: "q = Some nt" by blast
    note nt = fresh_table [OF ns [unfolded q]]
    define xd where "xd = \<lparr>items_list = None, items_idx = nt, nd_locked = False, nd_fs = nd_fs di\<rparr>"
    define st where "st = d\<lparr>n_next := ?N + 1, n_dirs := (n_dirs d)(?da \<mapsto> di1, ?N \<mapsto> xd)\<rparr>"
    define undo where "undo = (\<lambda>(h4, st4). Inr (heap_free (snd (delete_hashtbl h4 nt)), st4\<lparr>n_dirs := (n_dirs st4)(?N := None)\<rparr>) :: nio res)"
    have eq: "nullfs_d_create n name FT_DIR (h, d) = add_item ?da name NULLFS_D_OPS ?N None undo (h2, st)"
      using m1 ns True q da ul types
      by (simp add: nullfs_d_create_def Let_def lock_dir_def set_dir_def n_malloc_def undo_def st_def di1_def xd_def)
    have dst: "n_dirs st ?da = Some di1" using fresh by (simp add: st_def)
    have "ends (add_item ?da name NULLFS_D_OPS ?N None undo (h2, st)) (\<lambda>(ok, h', st'). if ok
        then item_added ?da di1 NULLFS_D_OPS ?N None st st' else only_table ?da di1 ?N (n_files d) (n_pagers d) st st')"
      by (rule add_item_ok [OF dst fresh(2)]) (use ht in \<open>auto simp: di1_def undo_def undone_def st_def\<close>)
    then show ?thesis
      unfolding eq
    proof (rule ends_mono, clarify)
      fix b h' st' assume r: "if b then item_added ?da di1 NULLFS_D_OPS ?N None st st'
        else only_table ?da di1 ?N (n_files d) (n_pagers d) st st'"
      show "keeps d st'"
      proof (cases b)
        case False
        then have ot: "only_table ?da di1 ?N (n_files d) (n_pagers d) st st'" using r by simp
        show ?thesis
          by (rule keeps_table [OF inv da ot di1_def]) (use fresh in \<open>auto simp: st_def\<close>)
      next
        case True
        then obtain t nm i where t: "ht_ok str_key_eq_fun str_hash_fun t"
            "\<And>k x. hashtbl_find t k = Some x \<Longrightarrow> hashtbl_find (items_idx di) k = Some x \<or> x = n_next st"
            "ni_ops i = NULLFS_D_OPS" "ni_data i = ?N" "ni_pager i = None"
            "st' = st\<lparr>n_next := n_next st + 1, n_items := (n_items st)(n_next st \<mapsto> i),
              n_dirs := (n_dirs st)(?da \<mapsto> di1\<lparr>items_idx := t, items_list := Some (n_next st), nd_locked := False\<rparr>)\<rparr>"
          using r by (auto simp: item_added_def di1_def)
        define di2 where "di2 = di1\<lparr>items_idx := t, items_list := Some (?N + 1), nd_locked := False\<rparr>"
        have f: "n_dirs st' = (n_dirs d)(?da \<mapsto> di2, ?N \<mapsto> xd)" "n_items st' = (n_items d)(?N + 1 \<mapsto> i)" "n_fs st' = n_fs d"
          "n_files st' = n_files d" "n_pagers st' = n_pagers d" "n_next st' = ?N + 2"
          unfolding t(6) using fresh(2) by (simp_all add: st_def di2_def fun_upd_twist)
        have t2: "x = ?N + 1" if "hashtbl_find t k = Some x" "hashtbl_find (items_idx di) k \<noteq> Some x" for k x
          using t(2) [OF that(1)] that(2) by (simp add: st_def)
        have dz: "\<not> nd_locked di2" "nd_fs di2 = nd_fs di" "items_idx di2 = t" by (simp_all add: di2_def di1_def)
        have io: "\<exists>i. n_items st' (?N + 1) = Some i \<and> ngood (ni_ops i, ni_data i, ni_pager i) st'"
          using t(3-5) by (simp add: f ngood_def)
        have xok: "dir_ok st' xd" using nfs nt by (simp add: dir_ok_def xd_def f)
        show ?thesis
        proof (rule keeps_extend [OF inv da, of st' di2])
          show "hashtbl_find (items_idx di) k = Some x \<or> (\<exists>i. n_items st' x = Some i \<and> ngood (ni_ops i, ni_data i, ni_pager i) st')"
            if "hashtbl_find (items_idx di2) k = Some x" for k x
            using t2 [of k x] that io unfolding dz(3) by blast
          show "dir_ok st' e" if "a \<noteq> ?da" "n_dirs d a = None" "n_dirs st' a = Some e" for a e
            using that xok by (auto simp: f(1) split: if_splits)
          show "n_items st' a = Some j" if "n_items d a = Some j" for a j using that fr [of a] by (auto simp: f)
          show "n_dirs st' a = None \<and> n_files st' a = None \<and> n_items st' a = None \<and> n_pagers st' a = None"
            if "n_next st' \<le> a" for a using that fr [of a] fr [of ?da] da by (auto simp: f)
        qed (use dz t(1) fresh in \<open>auto simp: f split: if_splits\<close>)
      qed
    qed
  qed
qed

section \<open>The contract\<close>

lemma keeps_ends: "ends r (\<lambda>(x, h', d'). keeps d d') \<Longrightarrow>
    ends r (\<lambda>(x, h', d'). ninv d' \<and> (\<forall>k. ngood k d \<longrightarrow> ngood k d'))"
  by (auto simp: ends_iff keeps_def)

lemma same_ends: "ninv d \<Longrightarrow> ends r (\<lambda>(x, h', d'). d' = d) \<Longrightarrow>
    ends r (\<lambda>(x, h', d'). ninv d' \<and> (\<forall>k. ngood k d \<longrightarrow> ngood k d'))"
  by (erule ends_mono) auto

interpretation nullfs: vfs_driver "nullfs_code other" ninv ngood for other
proof unfold_locales
  fix n and d :: nullfs_state and h :: heap assume g: "ngood (key n) d"
  note ops = nullfs_ops_of nullfs_d_ops_def nullfs_f_ops_def
  show "op_open (ops_of (nullfs_code other) n) \<noteq> None" using g by (cases rule: ngood_cases) (simp_all add: ops)
  show "op_dispose (ops_of (nullfs_code other) n) \<noteq> None" using g by (cases rule: ngood_cases) (simp_all add: ops)
  assume d: "ninv d"
  show "ends (op n mode (h, d)) (\<lambda>(r, h', d'). ninv d' \<and> (\<forall>k. ngood k d \<longrightarrow> ngood k d'))"
    if "op_open (ops_of (nullfs_code other) n) = Some op" for op mode
    using g that d f_open_ok [OF d, of n] by (cases rule: ngood_cases) (auto simp: ops nullfs_d_open_def intro!: keeps_ends simp del: split_paired_All)
  show "ends (op n (h, d)) (\<lambda>(r, h', d'). ninv d' \<and> (\<forall>k. ngood k d \<longrightarrow> ngood k d'))"
    if "op_stat (ops_of (nullfs_code other) n) = Some op" for op
    using g that d d_stat_ok [OF d, of n] f_stat_ok [OF d, of n] by (cases rule: ngood_cases) (auto simp: ops intro!: same_ends simp del: split_paired_All)
  show "ends (op n name type (h, d)) (\<lambda>(r, h', d'). ninv d' \<and> (\<forall>k. ngood k d \<longrightarrow> ngood k d'))"
    if "op_create (ops_of (nullfs_code other) n) = Some op" for op name type
    using g
  proof (cases rule: ngood_cases)
    case (1 di)
    then have op: "op = nullfs_d_create" using that by (simp add: ops)
    consider "type = FT_REGULAR" | "type = FT_DIR" | "type \<noteq> FT_REGULAR" "type \<noteq> FT_DIR" by blast
    then have "ends (nullfs_d_create n name type (h, d)) (\<lambda>(r, h', d'). keeps d d')"
      using create_file_ok [OF d 1(2), of name h] create_dir_ok [OF d 1(2), of name h] keeps_refl [OF d]
      by cases (simp_all add: nullfs_d_create_def)
    then show ?thesis unfolding op by (rule keeps_ends)
  qed (use that in \<open>simp add: ops\<close>)
  show "ends (op fh n (h, d)) (\<lambda>(r, h', d'). ninv d' \<and> (\<forall>k. ngood k d \<longrightarrow> ngood k d'))"
    if "op_close (ops_of (nullfs_code other) n) = Some op" for op fh
    using g that d by (cases rule: ngood_cases) (auto simp: ops nullfs_d_close_def nullfs_f_close_def)
  show "ends (op n (h, d)) (\<lambda>(r, h', d'). ninv d' \<and> (\<forall>k. ngood k d \<longrightarrow> ngood k d'))"
    if "op_dispose (ops_of (nullfs_code other) n) = Some op" for op
    using g that d by (cases rule: ngood_cases) (auto simp: ops nullfs_d_dispose_def nullfs_f_dispose_def)
  show "ends (op n name n0 (h, d)) (\<lambda>((ok, n'), h', d'). ninv d' \<and> (\<forall>k. ngood k d \<longrightarrow> ngood k d')
      \<and> (ok \<longrightarrow> (\<exists>o' dt pg. n' = n0\<lparr>fn_ops := o', fn_data := dt, fn_pager := pg\<rparr> \<and> ngood (o', dt, pg) d')))"
    if "op_walk (ops_of (nullfs_code other) n) = Some op" for op name n0
    using g
  proof (cases rule: ngood_cases)
    case (1 di)
    then have op: "op = nullfs_d_walk" using that by (simp add: ops)
    show ?thesis unfolding op by (rule ends_mono [OF d_walk_ok [OF d 1(2)]]) (use d in auto)
  qed (use that in \<open>simp add: ops\<close>)
qed

end
