(* ===== verification/Vfs_Props.thy ===== *)
theory Vfs_Props
  imports Nullfs_Inv
begin

text \<open>
  The virtual file system with the file system in memory mounted: sequences of calls, what they keep, and what goes wrong
  in the calls that are left out of them.
\<close>

section \<open>Sequences of calls\<close>

text \<open>A call on a handle that is not open, or a file system that is not there, is refused by the caller.\<close>

datatype vfs_call =
    Open_path nat string u32
  | Create_path nat string u32
  | Stat_path nat string
  | Dup_file nat
  | Close_file nat
  | Stat_file nat

fun vfs_do :: "'s code \<Rightarrow> vfs_call \<Rightarrow> 's vfs \<Rightarrow> 's vfs res" where
  "vfs_do C (Open_path fa path mode) s = (if v_fs s fa = None then Inr s else rbind (fs_open C fa path mode s) (\<lambda>(_, s'). Inr s'))"
| "vfs_do C (Create_path fa path type) s = (if v_fs s fa = None then Inr s else rbind (fs_create C fa path type s) (\<lambda>(_, s'). Inr s'))"
| "vfs_do C (Stat_path fa path) s = (if v_fs s fa = None then Inr s else rbind (fs_stat C fa path s) (\<lambda>(_, s'). Inr s'))"
| "vfs_do C (Dup_file h) s = (if v_files s h = None then Inr s else ref_file h s)"
| "vfs_do C (Close_file h) s = (if v_files s h = None then Inr s else unref_file C h s)"
| "vfs_do C (Stat_file h) s = (if v_files s h = None then Inr s else rbind (file_stat C h s) (\<lambda>(_, s'). Inr s'))"

fun vfs_calls :: "'s code \<Rightarrow> vfs_call list \<Rightarrow> 's vfs \<Rightarrow> 's vfs res" where
  "vfs_calls C [] s = Inr s"
| "vfs_calls C (c # cs) s = rbind (vfs_do C c s) (vfs_calls C cs)"

context vfs_driver
begin

lemma quiet_after: "quiet x s G \<Longrightarrow> vinv x s' (\<lambda>_. 0) G {} \<Longrightarrow> quiet x s' G"
  by (simp add: quiet_def)

lemma vfs_do_ok:
  assumes q: "quiet x s G"
  shows "ends (vfs_do C c s) (\<lambda>s'. \<exists>x'. quiet x' s' G \<and> c_fs x' = c_fs x)"
proof -
  have inv: "vinv x s (\<lambda>_. 0) G {}" and hf: "c_hand x = c_files x" and held: "held_fs x G" and nd: "c_dying x = Map.empty"
    using q by (auto simp: quiet_def)
  have fa: "c_fs x fa \<noteq> None" if "v_fs s fa \<noteq> None" for fa
    using vinv_fss [OF inv, of fa] that by (metis map_option_is_None)
  have stay: "\<exists>x'. quiet x' s G \<and> c_fs x' = c_fs x" using q by blast
  have pass: "ends (rbind r (\<lambda>(_, s'). Inr s')) (\<lambda>s'. \<exists>x'. quiet x' s' G \<and> c_fs x' = c_fs x)"
    if "ends r (\<lambda>(y, s'). vinv x s' (\<lambda>_. 0) G {})" for r :: "('y \<times> 's vfs) res"
    by (rule ends_rbind [OF that], clarify) (use quiet_after [OF q] in \<open>simp, blast\<close>)
  show ?thesis
  proof (cases c)
    case (Open_path f path mode)
    have "ends (rbind (fs_open C f path mode s) (\<lambda>(_, s'). Inr s')) (\<lambda>s'. \<exists>x'. quiet x' s' G \<and> c_fs x' = c_fs x)"
      if f: "v_fs s f \<noteq> None"
    proof (rule ends_rbind [OF fs_open_ok [OF inv held fa [OF f]]], clarify)
      fix r t assume o: "opened x (\<lambda>_. 0) G (r, t)"
      have "\<exists>x'. quiet x' t G \<and> c_fs x' = c_fs x"
      proof (cases r)
        case None
        then show ?thesis using o by (auto simp: opened_def intro: quiet_after [OF q])
      next
        case (Some h)
        then obtain fh where v: "vinv (add_hand h fh x) t (\<lambda>_. 0) G {}" using o by (auto simp: opened_def)
        then have "quiet (add_hand h fh x) t G"
          using hf nd held by (simp add: quiet_def add_hand_def set_hands_def held_fs_def)
        then show ?thesis by (auto simp: add_hand_def set_hands_def)
      qed
      then show "ends (Inr t) (\<lambda>s'. \<exists>x'. quiet x' s' G \<and> c_fs x' = c_fs x)" by simp
    qed
    then show ?thesis using Open_path stay by simp
  next
    case (Create_path f path type)
    then show ?thesis using stay pass [OF fs_create_ok [OF inv held fa, of f path type]] by simp
  next
    case (Stat_path f path)
    then show ?thesis using stay pass [OF fs_stat_ok [OF inv held fa, of f path]] by simp
  next
    case (Dup_file h)
    then show ?thesis using stay ref_file_ok [OF q, of h] by (cases "v_files s h") (auto simp: set_hands_def elim!: ends_mono)
  next
    case (Close_file h)
    then show ?thesis using stay unref_file_ok [OF q, of h] by (cases "v_files s h") (auto simp: set_hands_def elim!: ends_mono)
  next
    case (Stat_file h)
    have "ends (rbind (file_stat C h s) (\<lambda>(_, s'). Inr s')) (\<lambda>s'. \<exists>x'. quiet x' s' G \<and> c_fs x' = c_fs x)"
      if "v_files s h = Some fh" for fh
      by (rule ends_rbind [OF file_stat_ok [OF q that]]) auto
    then show ?thesis using stay Stat_file by (cases "v_files s h") simp_all
  qed
qed

lemma vfs_calls_ok: "quiet x s G \<Longrightarrow> ends (vfs_calls C cs s) (\<lambda>s'. \<exists>x'. quiet x' s' G \<and> c_fs x' = c_fs x)"
proof (induction cs arbitrary: x s)
  case (Cons c cs)
  show ?case
    unfolding vfs_calls.simps
  proof (rule ends_rbind [OF vfs_do_ok [OF Cons.prems]], clarify)
    fix t x' assume x': "quiet x' t G" "c_fs x' = c_fs x"
    show "ends (vfs_calls C cs t) (\<lambda>s'. \<exists>x'. quiet x' s' G \<and> c_fs x' = c_fs x)" using Cons.IH [OF x'(1)] x'(2) by simp
  qed
qed auto

lemma quiet_counts:
  assumes q: "quiet x s G" and G: "\<And>f. c_fs x f \<noteq> None \<Longrightarrow> G f = 1"
  shows "counts_exact s"
proof -
  have inv: "vinv x s (\<lambda>_. 0) G {}" and hf: "c_hand x = c_files x" and nd: "c_dying x = Map.empty"
    using q by (auto simp: quiet_def)
  have l: "live s x = v_nodes s" using nd by (simp add: live_def fun_eq_iff)
  have h: "c_hand x = v_files s" using vinv_files [OF inv] hf by simp
  have r: "nroot (c_fs x) a = nroot (v_fs s) a" for a
  proof -
    have "(\<exists>ff. c_fs x f = Some ff \<and> fs_root ff = a) \<longleftrightarrow> (\<exists>ff. v_fs s f = Some ff \<and> fs_root ff = a)" for f
      using vinv_fss [OF inv, of f, symmetric] by (cases "v_fs s f") (auto simp: bare_fs_def)
    then show ?thesis by (simp add: nroot_def)
  qed
  have "c_fs x f \<noteq> None" if "v_fs s f = Some ff" for f ff
    using vinv_fss [OF inv, of f, symmetric] that by auto
  then show ?thesis
    using vinv_refs [OF inv] vinv_locked [OF inv] vinv_fs [OF inv] G unfolding counts_exact_def
    by (fastforce simp: l h r refs_ok_def fs_ok_def)
qed

end

section \<open>After boot\<close>

definition nullfs0 :: "unit pager_env \<Rightarrow> nullfs_state" where
  "nullfs0 e = \<lparr>n_fs = Map.empty, n_dirs = Map.empty, n_files = Map.empty, n_items = Map.empty, n_pagers = Map.empty,
     n_next = 0, n_env = e\<rparr>"

definition vfs0 :: "heap \<Rightarrow> 's \<Rightarrow> 's vfs" where
  "vfs0 h d = \<lparr>v_nodes = Map.empty, v_fs = Map.empty, v_files = Map.empty, v_next = 0, v_heap = h, v_dev = d,
     v_drivers = [], v_junk = False\<rparr>"

text \<open>The driver is registered and one file system is made, as at the start of the kernel.\<close>

definition boot_nullfs :: "(nat \<Rightarrow> nullfs_state node_ops) \<Rightarrow> string \<Rightarrow> heap \<Rightarrow> unit pager_env \<Rightarrow>
    (nat option \<times> nullfs_state vfs) res" where
  "boot_nullfs other opts h e =
     rbind (register_nullfs_driver (vfs0 h (nullfs0 e))) (make_fs (nullfs_code other) (Some ''nullfs'') None opts)"

text \<open>The state it ends in: the file system is at address 0 and its root at 1, as are the driver's own objects.\<close>

definition booted :: "string \<Rightarrow> (string, nat) hashtbl \<Rightarrow> heap \<Rightarrow> unit pager_env \<Rightarrow> nullfs_state vfs" where
  "booted opts t h e =
     \<lparr>v_nodes = [1 \<mapsto> \<lparr>fn_refs = 1, fn_locked = False, fn_name = None, fn_fs = Some 0, fn_children = None,
        fn_parent = None, fn_ops = NULLFS_D_OPS, fn_data = 1, fn_pager = None\<rparr>],
      v_fs = [0 \<mapsto> \<lparr>fs_refs = 1, fs_locked = False, from_fs = None, ok_modes = FM_ALL_MODES, fs_ops = NULLFS_OPS,
        fs_data = 0, fs_root = 1\<rparr>],
      v_files = Map.empty, v_next = 2, v_heap = h,
      v_dev = (nullfs0 e)\<lparr>n_next := 2,
        n_fs := [0 \<mapsto> \<lparr>can_create = strchr opts (CHR ''c'') \<noteq> None, can_move = strchr opts (CHR ''m'') \<noteq> None,
          can_delete = strchr opts (CHR ''d'') \<noteq> None\<rparr>],
        n_dirs := [1 \<mapsto> \<lparr>items_list = None, items_idx = t, nd_locked = False, nd_fs = 0\<rparr>]\<rparr>,
      v_drivers = [(''nullfs'', NULLFS_DRIVER)], v_junk = False\<rparr>"

lemma boot_state:
  assumes "boot_nullfs other opts h e = Inr (Some fa, s)"
  obtains t h' where "fa = 0" and "s = booted opts t h' e" and "ht_ok str_key_eq_fun str_hash_fun t"
    and "\<And>k. hashtbl_find t k = None"
proof -
  have dn: "strcmp ''nullfs'' ''nullfs'' = 0" by (simp add: strcmp_zero_iff)
  obtain b1 h1 where m1: "heap_malloc h = (b1, h1)" by fastforce
  obtain b2 h2 where m2: "heap_malloc h1 = (b2, h2)" by fastforce
  obtain b3 h3 where m3: "heap_malloc h2 = (b3, h3)" by fastforce
  obtain b4 h4 where m4: "heap_malloc h3 = (b4, h4)" by fastforce
  obtain b5 h5 where m5: "heap_malloc h4 = (b5, h5)" by fastforce
  obtain q :: "(string, nat) hashtbl option" and h6 where c: "create_hashtbl h5 str_key_eq_fun str_hash_fun False = (q, h6)"
    by (meson surj_pair)
  note defs = boot_nullfs_def register_nullfs_driver_def register_fs_driver_def vfs0_def make_fs_def new_object_def
    pick_driver_def call_def nullfs_code_def nullfs_fs_make_def n_malloc_def n_free_def nullfs0_def Let_def
  have ok: "b1 \<and> b2 \<and> b3 \<and> b4 \<and> b5 \<and> q \<noteq> None"
    using assms m1 m2 m3 m4 m5 c dn by (auto simp: defs split: if_split_asm option.split_asm)
  then obtain t where q: "q = Some t" by blast
  have "fa = 0 \<and> s = booted opts t h6 e"
    using assms m1 m2 m3 m4 m5 c dn ok q by (auto simp: defs booted_def set_node_def)
  then show ?thesis using that fresh_table [OF c [unfolded q]] by blast
qed

lemma booted_quiet:
  assumes "ht_ok str_key_eq_fun str_hash_fun t" and "\<And>k. hashtbl_find t k = None"
  obtains x where "nullfs.quiet x (booted opts t h e) (\<lambda>_. 1)" and "c_fs x = map_option bare_fs \<circ> v_fs (booted opts t h e)"
proof -
  let ?s = "booted opts t h e"
  define x where "x = \<lparr>c_files = Map.empty, c_hand = Map.empty, c_fs = map_option bare_fs \<circ> v_fs ?s, c_dying = Map.empty\<rparr>"
  have l: "live ?s x = v_nodes ?s" by (simp add: live_def x_def fun_eq_iff)
  have dev: "ninv (v_dev ?s)" using assms
    by (simp add: ninv_def dir_ok_def booted_def nullfs0_def)
  have r: "{f. \<exists>ff. c_fs x f = Some ff \<and> fs_root ff = 1} = {0}" by (auto simp: x_def booted_def bare_fs_def)
  have k: "kin (v_nodes ?s) b \<noteq> Some (Some a, nm)" for a b nm by (simp add: kin_def booted_def)
  have "nullfs.vinv x ?s (\<lambda>_. 0) (\<lambda>_. 1) {}"
  proof (rule nullfs.vinvI, unfold l)
    fix a n assume n: "v_nodes ?s a = Some n"
    then have a: "a = 1" and n': "fn_refs n = 1" "\<not> fn_locked n" "fn_children n = None" "fn_ops n = NULLFS_D_OPS"
        "fn_data n = 1" "fn_fs n = Some 0" "fn_parent n = None"
      by (auto simp: booted_def split: if_splits)
    have "refs_ok x (v_nodes ?s) (\<lambda>_. 0) a n"
      using n' unfolding refs_ok_def nchild_def nroot_def a r by (simp add: k nhand_def x_def)
    moreover have "ngood (key n) (v_dev ?s)" using n' by (simp add: ngood_def key_def booted_def)
    moreover have "children_ok (kin (v_nodes ?s)) a n" using n' k by (simp add: children_ok_def)
    moreover have "place_ok (c_fs x) (v_nodes ?s) a n" using n' a by (simp add: place_ok_def x_def booted_def bare_fs_def)
    ultimately show "refs_ok x (v_nodes ?s) (\<lambda>_. 0) a n \<and> fn_locked n = (a \<in> {}) \<and> ngood (key n) (v_dev ?s)
        \<and> children_ok (kin (v_nodes ?s)) a n \<and> place_ok (c_fs x) (v_nodes ?s) a n" using n' by simp
  next
    fix f ff assume "v_fs ?s f = Some ff"
    then show "fs_ok x (v_nodes ?s) (\<lambda>_. 1) f ff"
      by (auto simp: fs_ok_def booted_def fsnodes_def fshand_def x_def split: if_splits)
  qed (use dev in \<open>auto simp: x_def booted_def split: if_splits\<close>)
  then have "nullfs.quiet x ?s (\<lambda>_. 1)" by (simp add: nullfs.quiet_def held_fs_def x_def)
  then show ?thesis by (rule that) (simp add: x_def)
qed

section \<open>Properties\<close>


definition wit_pager_env :: "unit pager_env" where
  "wit_pager_env = \<lparr>pe_frames = \<lparr>frame_bitset = [], nframes = 0, nused_frames = 0, begin_search_at = 0\<rparr>, pe_phys = (\<lambda>_. []),
     pe_regions = [], pe_tables = [], pe_heap = \<lparr>hp_answers = [], hp_live = 0\<rparr>, pe_present = (\<lambda>_ _. False), pe_dev = ()\<rparr>"

definition wit_heap :: heap where "wit_heap = \<lparr>hp_answers = [], hp_live = 0\<rparr>"

lemma wit_boot: "\<exists>s1. boot_nullfs (\<lambda>_. nullfs_f_ops) ''cd'' wit_heap wit_pager_env = Inr (Some 0, s1)"
proof -
  have "strcmp ''nullfs'' ''nullfs'' = 0" by (simp add: strcmp_zero_iff)
  then show ?thesis
    by (simp add: boot_nullfs_def register_nullfs_driver_def register_fs_driver_def vfs0_def make_fs_def new_object_def
      pick_driver_def call_def nullfs_code_def nullfs_fs_make_def n_malloc_def nullfs0_def Let_def wit_heap_def
      heap_malloc_def next_answer_def create_hashtbl_def DEFAULT_HT_INIT_SIZE_def)
qed


text \<open>A name without a slash, that fits into the buffer of a walk.\<close>

definition plain_name :: "string \<Rightarrow> bool" where
  "plain_name p \<longleftrightarrow> p \<noteq> [] \<and> length p < DIR_MAX - 1 \<and> CHR ''/'' \<notin> set p \<and> c_str p = p"

lemma plain_name_walk:
  assumes p: "plain_name p" and n: "v_nodes s r = Some n" "\<not> fn_locked n"
  shows "fs_walk_path_except_last C r p s = Inr ((Some r, p), set_node r (n\<lparr>fn_refs := fn_refs n + 1\<rparr>) s)"
proof -
  have "CHR ''/'' \<noteq> NUL" by (simp add: NUL_def)
  then have "strchr p (CHR ''/'') = None" using p by (simp add: plain_name_def strchr_def strchr_from_None)
  moreover have "hd p \<noteq> CHR ''/''" using p by (cases p) (auto simp: plain_name_def)
  moreover have e: "n\<lparr>fn_refs := fn_refs n + 1, fn_locked := False\<rparr> = n\<lparr>fn_refs := fn_refs n + 1\<rparr>" using n by simp
  ultimately show ?thesis
    using p n by (simp add: fs_walk_path_except_last_def skip_slash_def plain_name_def Let_def ref_fs_node_def lock_node_def
        unlock_node_def set_node_twice except_last_from.simps [of C r p] e)
qed

text \<open>Renaming a file inside the root directory never returns: \<open>fs_move\<close> locks the old parent and then the new one,
  and when both are the same directory it waits for the lock it already holds. This holds for every driver that has a
  move operation, and every pair of names.\<close>

theorem move_in_directory_deadlocks:
  assumes "v_fs s fa = Some f" and "has_flag (ok_modes f) FM_DMOVE" and "v_nodes s (fs_root f) = Some n"
    and "\<not> fn_locked n" and "op_move (ops_of C n) \<noteq> None" and "plain_name old_name" and "plain_name new_name"
  shows "fs_move C fa old_name new_name s = Inl Self_deadlock"
proof -
  define m where "m = n\<lparr>fn_refs := fn_refs n + 1\<rparr>"
  define k where "k = m\<lparr>fn_refs := fn_refs m + 1\<rparr>"
  have w1: "fs_walk_path_except_last C (fs_root f) old_name s = Inr ((Some (fs_root f), old_name), set_node (fs_root f) m s)"
    using plain_name_walk [OF assms(6,3,4)] by (simp add: m_def)
  have w2: "fs_walk_path_except_last C (fs_root f) new_name (set_node (fs_root f) m s)
      = Inr ((Some (fs_root f), new_name), set_node (fs_root f) k s)"
    using plain_name_walk [OF assms(7), of "set_node (fs_root f) m s" "fs_root f" m] assms(4)
    by (simp add: m_def k_def set_node_twice)
  have k: "fn_locked k = False" "ops_of C k = ops_of C n" using assms(4) by (simp_all add: k_def m_def ops_of_def)
  obtain mv where "op_move (ops_of C n) = Some mv" using assms(5) by (cases "op_move (ops_of C n)") simp_all
  then show ?thesis
    using assms(1,2) by (simp add: fs_move_def w1 w2 lock_node_def set_node_twice k)
qed

definition wit_table :: "(string, nat) hashtbl" where
  "wit_table = \<lparr>ht_ef = str_key_eq_fun, ht_hf = str_hash_fun, ht_releasef = False, ht_size = 1, ht_nitems = 0, ht_items = [[]]\<rparr>"

lemma plain_old_new: "plain_name ''old''" "plain_name ''new''"
  by (simp_all add: plain_name_def DIR_MAX_def c_str_def NUL_def)

theorem move_in_directory_deadlocks_witness:
  "fs_move (nullfs_code (\<lambda>_. nullfs_f_ops)) 0 ''old'' ''new'' (booted ''m'' wit_table wit_heap wit_pager_env) = Inl Self_deadlock"
proof (rule move_in_directory_deadlocks)
  show "has_flag (ok_modes (the (v_fs (booted ''m'' wit_table wit_heap wit_pager_env) 0))) FM_DMOVE"
    by (simp add: booted_def) code_simp
  show "v_fs (booted ''m'' wit_table wit_heap wit_pager_env) 0 = Some (the (v_fs (booted ''m'' wit_table wit_heap wit_pager_env) 0))"
    by (simp add: booted_def)
  show "v_nodes (booted ''m'' wit_table wit_heap wit_pager_env) (fs_root (the (v_fs (booted ''m'' wit_table wit_heap wit_pager_env) 0)))
      = Some (the (v_nodes (booted ''m'' wit_table wit_heap wit_pager_env) 1))"
    by (simp add: booted_def)
qed (simp_all add: booted_def plain_old_new ops_of_def nullfs_code_def nullfs_d_ops_def)

end
