(* ===== verification/Ipc_Token.thy ===== *)
theory Ipc_Token
  imports Vfs_Props Prng Worker_Tasks
begin

text \<open>
  Tokens and shared memory, the second half of src/kernel/user/ipc.c. A process that wants to pass an open file to
  another one asks for a token: sixteen random bytes under which the kernel keeps the handle, with a reference of its
  own. Whoever shows the token gets the handle and the reference, once; a task of the workers drops the tokens that
  have grown too old. The table is the hash table of theory \<open>Hashtbl\<close>, keyed by tokens, with the addresses of
  the entries as values; the handles are those of theory \<open>Vfs\<close>. The mutex of the table makes each call atomic.
\<close>

section \<open>The table of tokens\<close>

definition TOKEN_LENGTH :: nat where "TOKEN_LENGTH = 16"
definition TOKEN_LIFETIME :: u64 where "TOKEN_LIFETIME = 1500000"

type_synonym token = "u8 list"

record token_table_entry =
  te_tok :: token
  te_time :: u64
  te_h :: nat

record token_state =
  token_table :: "(token, nat) hashtbl option"
  tk_entries :: "nat \<Rightarrow> token_table_entry option"
  tk_next :: nat
  tk_heap :: heap
  tk_prng :: prng_state
  tk_work :: task_state

text \<open>The bytes are of type \<open>char\<close>, which is signed.\<close>

definition token_hash_fun :: "token \<Rightarrow> u32" where
  "token_hash_fun t = foldl (\<lambda>h i. h * 101 + scast (t ! i)) 707 [0..<TOKEN_LENGTH]"

definition token_eq_fun :: "token \<Rightarrow> token \<Rightarrow> bool" where
  "token_eq_fun ta tb = list_all (\<lambda>i. ta ! i = tb ! i) [0..<TOKEN_LENGTH]"

text \<open>\<open>while (!worker_push_in(...)) yield()\<close>: the heap has finitely many failures to answer.\<close>

function push_expiration :: "nat \<Rightarrow> task_state \<Rightarrow> task_state" where
  "push_expiration addr w =
     (case worker_push_in addr 1000000 Token_expiration 0 w of (ok, w') \<Rightarrow>
        if ok then w' else push_expiration addr w')"
  by auto

termination
  by (relation "measure (\<lambda>(_, w). length (hp_answers (wk_heap w)))")
    (auto simp: worker_push_in_def heap_malloc_def next_answer_def Let_def split: prod.splits if_splits list.splits)

declare push_expiration.simps [simp del]

text \<open>The table is made by the first call; \<open>None\<close> when there is no memory for it.\<close>

definition open_table :: "token_state \<Rightarrow> (token, nat) hashtbl option \<times> token_state" where
  "open_table s =
     (case token_table s of
        Some t \<Rightarrow> (Some t, s)
      | None \<Rightarrow>
          (case create_hashtbl (tk_heap s) token_eq_fun token_hash_fun False of
             (None, h) \<Rightarrow> (None, s\<lparr>tk_heap := h\<rparr>)
           | (Some t, h) \<Rightarrow>
               (Some t, s\<lparr>token_table := Some t, tk_heap := h, tk_next := tk_next s + 1,
                          tk_work := push_expiration (tk_next s) (tk_work s)\<rparr>)))"

text \<open>The answer, the bytes written to \<open>tok\<close> if any, and the new states.\<close>

definition gen_token_for :: "nat \<Rightarrow> token_state \<Rightarrow> 's vfs \<Rightarrow> (bool \<times> token option \<times> token_state \<times> 's vfs) res" where
  "gen_token_for fh s v =
     (case open_table s of
        (None, s1) \<Rightarrow> Inr (False, None, s1, v)
      | (Some t, s1) \<Rightarrow>
          (case heap_malloc (tk_heap s1) of (okm, h1) \<Rightarrow>
             if \<not> okm then Inr (False, None, s1\<lparr>tk_heap := h1\<rparr>, v)
             else
               (case prng_bytes TOKEN_LENGTH (tk_prng s1) of (bytes, p) \<Rightarrow>
                  (let e = tk_next s1;
                       entry = \<lparr>te_tok = bytes, te_time = get_kernel_time (tk_work s1), te_h = fh\<rparr>
                   in case hashtbl_add h1 t bytes e of (ok, _, t', h2) \<Rightarrow>
                        if \<not> ok then
                          Inr (False, Some bytes,
                               s1\<lparr>token_table := Some t', tk_next := e + 1, tk_prng := p, tk_heap := heap_free h2\<rparr>, v)
                        else
                          rbind (ref_file fh v) (\<lambda>v'.
                            Inr (True, Some bytes,
                                 s1\<lparr>token_table := Some t', tk_entries := (tk_entries s1)(e \<mapsto> entry),
                                    tk_next := e + 1, tk_prng := p, tk_heap := h2\<rparr>, v'))))))"

text \<open>\<open>use_token\<close> looks up before the first token is made, too: then the table is a null pointer.\<close>

definition use_token :: "token \<Rightarrow> token_state \<Rightarrow> (nat option \<times> token_state) res" where
  "use_token tok s =
     (case token_table s of
        None \<Rightarrow> Inl Bad_access
      | Some t \<Rightarrow>
          (case hashtbl_find t tok of
             None \<Rightarrow> Inr (None, s)
           | Some e \<Rightarrow>
               rbind (deref (tk_entries s) e) (\<lambda>entry.
                 (case hashtbl_remove (tk_heap s) t tok of (_, t', h) \<Rightarrow>
                    Inr (Some (te_h entry),
                         s\<lparr>token_table := Some t', tk_entries := (tk_entries s)(e := None), tk_heap := heap_free h\<rparr>)))))"

text \<open>The iteration leaves the last expired entry in \<open>expired_token\<close>.\<close>

fun find_expired :: "token_state \<Rightarrow> (token \<times> nat) list \<Rightarrow> nat option \<Rightarrow> nat option res" where
  "find_expired s [] expired = Inr expired"
| "find_expired s ((k, a) # xs) expired =
     rbind (deref (tk_entries s) a) (\<lambda>e.
       find_expired s xs (if te_time e + TOKEN_LIFETIME < get_kernel_time (tk_work s) then Some a else expired))"

text \<open>One round of the loop; the answer says whether an entry was dropped.\<close>

definition expire_once :: "'s code \<Rightarrow> token_state \<Rightarrow> 's vfs \<Rightarrow> (bool \<times> token_state \<times> 's vfs) res" where
  "expire_once C s v =
     (case token_table s of
        None \<Rightarrow> Inl Bad_access
      | Some t \<Rightarrow>
          rbind (find_expired s (hashtbl_iter t) None) (\<lambda>expired.
            case expired of
              None \<Rightarrow> Inr (False, s, v)
            | Some a \<Rightarrow>
                rbind (deref (tk_entries s) a) (\<lambda>e.
                  (case hashtbl_remove (tk_heap s) t (te_tok e) of (_, t', h) \<Rightarrow>
                     rbind (unref_file C (te_h e) v) (\<lambda>v'.
                       Inr (True,
                            s\<lparr>token_table := Some t', tk_entries := (tk_entries s)(a := None), tk_heap := heap_free h\<rparr>,
                            v'))))))"

text \<open>The loop; \<open>None\<close> would be a loop that does not end.\<close>

partial_function (option) expire_loop :: "'s code \<Rightarrow> token_state \<Rightarrow> 's vfs \<Rightarrow> (token_state \<times> 's vfs) res option" where
  "expire_loop C s v =
     (case expire_once C s v of
        Inl e \<Rightarrow> Some (Inl e)
      | Inr (again, s', v') \<Rightarrow> if again then expire_loop C s' v' else Some (Inr (s', v')))"

definition token_expiration_check :: "'s code \<Rightarrow> token_state \<Rightarrow> 's vfs \<Rightarrow> (token_state \<times> 's vfs) res option" where
  "token_expiration_check C s v =
     (case expire_loop C s v of
        None \<Rightarrow> None
      | Some (Inl e) \<Rightarrow> Some (Inl e)
      | Some (Inr (s', v')) \<Rightarrow>
          Some (Inr (s'\<lparr>tk_next := tk_next s' + 1, tk_work := push_expiration (tk_next s') (tk_work s')\<rparr>, v')))"

section \<open>Tokens are keys of the hash table\<close>

interpretation token_keys: hash_keys token_eq_fun token_hash_fun
proof
  fix a b c :: token
  show "token_eq_fun a a" by (simp add: token_eq_fun_def list_all_iff)
  show "token_eq_fun b a" if "token_eq_fun a b" using that by (simp add: token_eq_fun_def list_all_iff)
  show "token_eq_fun a c" if "token_eq_fun a b" "token_eq_fun b c" using that by (simp add: token_eq_fun_def list_all_iff)
  show "token_hash_fun a = token_hash_fun b" if "token_eq_fun a b"
    unfolding token_hash_fun_def using that
    by (intro foldl_cong) (auto simp: token_eq_fun_def list_all_iff)
qed

interpretation token_tables: dictionary token_eq_fun "ht_ok token_eq_fun token_hash_fun" hashtbl_find ht_put ht_del
  by unfold_locales (fact ht_put_spec ht_del_spec)+

section \<open>The invariant of the table\<close>

definition entry_of :: "token_state \<Rightarrow> token \<times> nat \<Rightarrow> token_table_entry" where
  "entry_of s b = the (tk_entries s (snd b))"

definition bindings_ok :: "token_state \<Rightarrow> (token \<times> nat) multiset \<Rightarrow> bool" where
  "bindings_ok s B \<longleftrightarrow>
     (\<forall>b \<in># B. tk_entries s (snd b) \<noteq> None \<and> te_tok (entry_of s b) = fst b \<and> snd b < tk_next s)
     \<and> (\<forall>a. count (image_mset snd B) a \<le> 1)"

definition table_bindings :: "token_state \<Rightarrow> (token \<times> nat) multiset" where
  "table_bindings s = (case token_table s of None \<Rightarrow> {#} | Some t \<Rightarrow> ht_bindings t)"

definition tokens_ok :: "token_state \<Rightarrow> bool" where
  "tokens_ok s \<longleftrightarrow> (\<forall>t. token_table s = Some t \<longrightarrow> ht_ok token_eq_fun token_hash_fun t)
     \<and> bindings_ok s (table_bindings s)"

text \<open>The handles that the table holds, with their multiplicities.\<close>

definition held :: "token_state \<Rightarrow> nat multiset" where
  "held s = image_mset (\<lambda>b. te_h (entry_of s b)) (table_bindings s)"

lemma image_mset_same: "(\<And>b. b \<in># B \<Longrightarrow> f b = g b) \<Longrightarrow> image_mset f B = image_mset g B"
  by (rule image_mset_cong)

lemma drop_binding:
  assumes ok: "bindings_ok s (add_mset b B)"
    and s': "tk_entries s' = (tk_entries s)(snd b := None)" "tk_next s \<le> tk_next s'"
  shows "bindings_ok s' B" and "\<And>c. c \<in># B \<Longrightarrow> entry_of s' c = entry_of s c"
proof -
  have "count (image_mset snd (add_mset b B)) (snd b) \<le> 1" using ok unfolding bindings_ok_def by blast
  then have "count (image_mset snd B) (snd b) = 0" by simp
  then have "snd b \<notin># image_mset snd B" by (simp only: count_eq_zero_iff not_False_eq_True)
  then have ne: "snd c \<noteq> snd b" if "c \<in># B" for c
    using that by (metis image_eqI set_image_mset)
  show *: "entry_of s' c = entry_of s c" if "c \<in># B" for c using ne [OF that] by (simp add: entry_of_def s')
  have "count (image_mset snd B) a \<le> 1" for a
  proof -
    have "count (image_mset snd (add_mset b B)) a \<le> 1" using ok unfolding bindings_ok_def by blast
    then show ?thesis by (simp split: if_splits)
  qed
  moreover have "tk_entries s' (snd c) \<noteq> None \<and> te_tok (entry_of s' c) = fst c \<and> snd c < tk_next s'" if c: "c \<in># B" for c
  proof -
    have "tk_entries s (snd c) \<noteq> None \<and> te_tok (entry_of s c) = fst c \<and> snd c < tk_next s"
      using ok c by (simp add: bindings_ok_def)
    then show ?thesis using ne [OF c] * [OF c] s' by simp
  qed
  ultimately show "bindings_ok s' B" by (simp add: bindings_ok_def)
qed

lemma new_binding:
  assumes ok: "bindings_ok s B" and e: "te_tok e = k"
    and s': "tk_entries s' = (tk_entries s)(tk_next s \<mapsto> e)" "tk_next s < tk_next s'"
  shows "bindings_ok s' (add_mset (k, tk_next s) B)" and "\<And>c. c \<in># B \<Longrightarrow> entry_of s' c = entry_of s c"
    and "entry_of s' (k, tk_next s) = e"
proof -
  have below: "snd c < tk_next s" if "c \<in># B" for c using ok that unfolding bindings_ok_def by blast
  show *: "entry_of s' c = entry_of s c" if "c \<in># B" for c using below [OF that] by (simp add: entry_of_def s')
  show "entry_of s' (k, tk_next s) = e" by (simp add: entry_of_def s')
  have "tk_next s \<notin># image_mset snd B" using below by fastforce
  then have "count (image_mset snd B) (tk_next s) = 0" by (simp only: count_eq_zero_iff not_False_eq_True)
  then have "count (image_mset snd (add_mset (k, tk_next s) B)) a \<le> 1" for a
    using ok unfolding bindings_ok_def by (cases "tk_next s = a") auto
  moreover have "tk_entries s' (snd c) \<noteq> None \<and> te_tok (entry_of s' c) = fst c \<and> snd c < tk_next s'" if c: "c \<in># B" for c
  proof -
    have "tk_entries s (snd c) \<noteq> None \<and> te_tok (entry_of s c) = fst c \<and> snd c < tk_next s"
      using ok c by (simp add: bindings_ok_def)
    then show ?thesis using below [OF c] * [OF c] s' by simp
  qed
  moreover have "entry_of s' (k, tk_next s) = e" by (simp add: entry_of_def s')
  ultimately show "bindings_ok s' (add_mset (k, tk_next s) B)" using e s' by (simp add: bindings_ok_def)
qed

lemma same_bindings:
  assumes "bindings_ok s B" and "tk_entries s' = tk_entries s" and "tk_next s \<le> tk_next s'"
  shows "bindings_ok s' B" and "entry_of s' = entry_of s"
  using assms by (auto simp: bindings_ok_def entry_of_def fun_eq_iff intro: order_less_le_trans)

text \<open>Removing a bound token takes out its binding and nothing else.\<close>

lemma remove_bound:
  assumes ok: "ht_ok token_eq_fun token_hash_fun t" and f: "hashtbl_find t k = Some a"
    and r: "hashtbl_remove h t k = (rel, t', h')"
  obtains b where "snd b = a" and "token_eq_fun (fst b) k" and "ht_bindings t = add_mset b (ht_bindings t')"
    and "ht_ok token_eq_fun token_hash_fun t'"
proof -
  have inv: "ht_inv t" and ef: "ht_ef t = token_eq_fun" "ht_hf t = token_hash_fun" using ok by (simp_all add: ht_ok_def)
  note rm = hashtbl_remove_inv [OF inv r]
  have ok': "ht_ok token_eq_fun token_hash_fun t'" using rm ef by (simp add: ht_ok_def ht_same_funs_def)
  obtain c where c: "c \<in># ht_bindings t" "token_eq_fun (fst c) k" "snd c = a"
    using f hashtbl_find_bound [OF inv, of k a] ef by auto
  have "\<not> (\<forall>x \<in># ht_bindings t. \<not> token_eq_fun (fst x) k)" using c by blast
  then obtain b where b: "token_eq_fun (fst b) k" "ht_bindings t = add_mset b (ht_bindings t')"
    using rm ef unfolding ht_removed_def by auto
  have "b \<in># ht_bindings t" using b(2) by simp
  then have "hashtbl_find t k = Some (snd b)" using hashtbl_find_bound [OF inv, of k "snd b"] b(1) ef by auto
  then show ?thesis using that b ok' f by simp
qed

lemma bound_is_found:
  assumes ok: "ht_ok token_eq_fun token_hash_fun t" and b: "b \<in># ht_bindings t"
  shows "hashtbl_find t (fst b) = Some (snd b)"
  using hashtbl_find_bound [of t "fst b" "snd b"] ok b token_keys.ef_refl by (auto simp: ht_ok_def)

section \<open>The operations\<close>

lemma open_table_ok:
  assumes "tokens_ok s" and "open_table s = (r, s1)"
  shows "tokens_ok s1 \<and> held s1 = held s \<and> (\<forall>t. r = Some t \<longrightarrow> token_table s1 = Some t)
    \<and> (token_table s \<noteq> None \<longrightarrow> s1 = s \<and> r = token_table s)"
proof (cases "token_table s")
  case (Some t)
  then show ?thesis using assms by (auto simp: open_table_def)
next
  case None
  obtain x :: "(token, nat) hashtbl option" and h
    where c: "create_hashtbl (tk_heap s) token_eq_fun token_hash_fun False = (x, h)" by fastforce
  show ?thesis
  proof (cases x)
    case (Some t)
    have t: "ht_inv t" "ht_bindings t = {#}"
      using create_hashtbl_inv [OF token_keys.hash_keys_axioms c [unfolded Some]] by simp_all
    moreover have "ht_ok token_eq_fun token_hash_fun t"
      using t(1) create_hashtbl_funs [OF c [unfolded Some]] by (simp add: ht_ok_def)
    ultimately show ?thesis using assms None c Some
      by (auto simp: open_table_def tokens_ok_def table_bindings_def held_def bindings_ok_def)
  next
    case x: None
    then show ?thesis using assms None c
      by (auto simp: open_table_def tokens_ok_def table_bindings_def held_def bindings_ok_def)
  qed
qed

lemma use_token_ok:
  assumes ok: "tokens_ok s" and t: "token_table s = Some t"
  shows "\<exists>r s'. use_token tok s = Inr (r, s') \<and> tokens_ok s' \<and> token_table s' \<noteq> None \<and>
    (case r of None \<Rightarrow> s' = s | Some h \<Rightarrow> held s = add_mset h (held s'))"
proof (cases "hashtbl_find t tok")
  case None
  then show ?thesis using ok t by (simp add: use_token_def)
next
  case (Some a)
  have tt: "ht_ok token_eq_fun token_hash_fun t" and B: "bindings_ok s (ht_bindings t)"
    using ok t by (simp_all add: tokens_ok_def table_bindings_def)
  obtain rel t' h' where r: "hashtbl_remove (tk_heap s) t tok = (rel, t', h')" by (metis prod_cases3)
  obtain b where b: "snd b = a" "ht_bindings t = add_mset b (ht_bindings t')" "ht_ok token_eq_fun token_hash_fun t'"
    by (rule remove_bound [OF tt Some r])
  define s' where "s' = s\<lparr>token_table := Some t', tk_entries := (tk_entries s)(a := None), tk_heap := heap_free h'\<rparr>"
  have e: "tk_entries s a = Some (entry_of s b)"
    using B b(1,2) unfolding bindings_ok_def by (auto simp: entry_of_def)
  note d = drop_binding [OF B [unfolded b(2)], of s']
  have "bindings_ok s' (ht_bindings t')" by (rule d(1)) (simp_all add: s'_def b(1))
  moreover have "entry_of s' c = entry_of s c" if "c \<in># ht_bindings t'" for c
    by (rule d(2) [OF _ _ that]) (simp_all add: s'_def b(1))
  then have "held s = add_mset (te_h (entry_of s b)) (held s')"
    using t b(2) by (simp add: held_def table_bindings_def s'_def) (metis (mono_tags, lifting) image_mset_same s'_def)
  moreover have "use_token tok s = Inr (Some (te_h (entry_of s b)), s')"
    using t Some e r by (simp add: use_token_def s'_def)
  ultimately show ?thesis using b(3) by (auto simp: tokens_ok_def table_bindings_def s'_def)
qed

definition expired_entry :: "token_state \<Rightarrow> token \<times> nat \<Rightarrow> bool" where
  "expired_entry s b \<longleftrightarrow> te_time (entry_of s b) + TOKEN_LIFETIME < get_kernel_time (tk_work s)"

lemma find_expired_ok:
  assumes "\<forall>b \<in> set xs. tk_entries s (snd b) \<noteq> None"
  shows "\<exists>r. find_expired s xs e0 = Inr r \<and> (r = e0 \<and> (\<forall>b \<in> set xs. \<not> expired_entry s b)
    \<or> (\<exists>b \<in> set xs. expired_entry s b \<and> r = Some (snd b)))"
  using assms
proof (induction s xs e0 rule: find_expired.induct)
  case (2 s k a xs expired)
  obtain e where e: "tk_entries s a = Some e" using 2(2) by auto
  let ?e = "if te_time e + TOKEN_LIFETIME < get_kernel_time (tk_work s) then Some a else expired"
  obtain r where "find_expired s xs ?e = Inr r" "r = ?e \<and> (\<forall>b \<in> set xs. \<not> expired_entry s b)
    \<or> (\<exists>b \<in> set xs. expired_entry s b \<and> r = Some (snd b))" using 2(1) [of e] 2(2) by auto
  then show ?case by (auto simp: e expired_entry_def entry_of_def)
qed simp

lemma fewer_bindings: "bindings_ok s B \<Longrightarrow> A \<subseteq># B \<Longrightarrow> bindings_ok s A"
  unfolding bindings_ok_def
  by (meson image_mset_subseteq_mono le_trans mset_subset_eqD mset_subset_eq_count)

lemma ht_removed_subset: "ht_removed t k rel t' n \<Longrightarrow> ht_bindings t' \<subseteq># ht_bindings t"
  unfolding ht_removed_def by auto

text \<open>The files a client may close: the references that the table and the clients own are counted in the handles.\<close>

definition file_refs :: "'s vfs \<Rightarrow> nat \<Rightarrow> int" where
  "file_refs v h = (case v_files v h of None \<Rightarrow> 0 | Some fh \<Rightarrow> fh_refs fh)"

definition covered :: "(nat \<Rightarrow> nat) \<Rightarrow> token_state \<Rightarrow> 's vfs \<Rightarrow> bool" where
  "covered own s v \<longleftrightarrow> (\<forall>h. int (own h) + int (count (held s) h) \<le> file_refs v h)"

context vfs_driver
begin

lemma gen_token_ok:
  assumes ok: "tokens_ok s" and q: "quiet x v G" and h: "v_files v h = Some fh"
  shows "\<exists>b tok s' v'. gen_token_for h s v = Inr (b, tok, s', v') \<and> tokens_ok s' \<and> (\<exists>x'. quiet x' v' G \<and> c_fs x' = c_fs x)
    \<and> (if b then v_files v' = (v_files v)(h \<mapsto> fh\<lparr>fh_refs := fh_refs fh + 1\<rparr>) \<and> (\<exists>R. R \<subseteq># held s \<and> held s' = add_mset h R)
       else v_files v' = v_files v \<and> held s' = held s)"
proof -
  obtain r s1 where op: "open_table s = (r, s1)" by (cases "open_table s")
  note o = open_table_ok [OF ok op]
  show ?thesis
  proof (cases r)
    case None
    then show ?thesis using op o q by (simp add: gen_token_for_def) blast
  next
    case (Some t)
    have t: "token_table s1 = Some t" using o Some by simp
    have tt: "ht_ok token_eq_fun token_hash_fun t" and B: "bindings_ok s1 (ht_bindings t)"
      using o t by (simp_all add: tokens_ok_def table_bindings_def)
    have inv: "ht_inv t" "ht_ef t = token_eq_fun" "ht_hf t = token_hash_fun" using tt by (simp_all add: ht_ok_def)
    have keep: "tokens_ok s' \<and> held s' = held s"
      if "token_table s' = Some t" "tk_entries s' = tk_entries s1" "tk_next s1 \<le> tk_next s'" for s'
      using same_bindings [OF B that(2,3)] that(1) tt o t by (simp add: tokens_ok_def table_bindings_def held_def)
    obtain okm h1 where m: "heap_malloc (tk_heap s1) = (okm, h1)" by (cases "heap_malloc (tk_heap s1)")
    obtain bytes p where b: "prng_bytes TOKEN_LENGTH (tk_prng s1) = (bytes, p)" by (cases "prng_bytes TOKEN_LENGTH (tk_prng s1)")
    obtain oka rel t' h2 where a: "hashtbl_add h1 t bytes (tk_next s1) = (oka, rel, t', h2)" by (metis prod_cases4)
    consider "\<not> okm" | "okm" "\<not> oka" | "okm" "oka" by blast
    then show ?thesis
    proof cases
      case 1
      then show ?thesis using op Some m q keep [of "s1\<lparr>tk_heap := h1\<rparr>"] t by (simp add: gen_token_for_def) blast
    next
      case 2
      have "t' = t" using hashtbl_add_fail [of h1 t bytes "tk_next s1" rel t' h2] a 2 by simp
      then show ?thesis
        using 2 op Some m b a q keep [of "s1\<lparr>token_table := Some t', tk_next := tk_next s1 + 1, tk_prng := p, tk_heap := heap_free h2\<rparr>"]
        by (simp add: gen_token_for_def Let_def) blast
    next
      case 3
      define e where "e = \<lparr>te_tok = bytes, te_time = get_kernel_time (tk_work s1), te_h = h\<rparr>"
      define s' where "s' = s1\<lparr>token_table := Some t', tk_entries := (tk_entries s1)(tk_next s1 \<mapsto> e),
        tk_next := tk_next s1 + 1, tk_prng := p, tk_heap := h2\<rparr>"
      have a1: "hashtbl_add h1 t bytes (tk_next s1) = (True, rel, t', h2)" using a 3 by simp
      obtain t1 n where t1: "ht_removed t bytes rel t1 n" "ht_inv t'" "ht_same_funs t t'"
          "ht_bindings t' = add_mset (bytes, tk_next s1) (ht_bindings t1)"
        using hashtbl_add_inv [OF inv(1) a1] by blast
      have sub: "ht_bindings t1 \<subseteq># ht_bindings t" by (rule ht_removed_subset [OF t1(1)])
      note nb = new_binding [OF fewer_bindings [OF B sub], of e bytes s']
      have "tokens_ok s'"
        using nb(1) t1 inv by (simp add: tokens_ok_def table_bindings_def s'_def e_def ht_ok_def ht_same_funs_def)
      moreover have "entry_of s' c = entry_of s1 c" if "c \<in># ht_bindings t1" for c
        by (rule nb(2) [OF _ _ _ that]) (simp_all add: s'_def e_def)
      then have im: "image_mset (\<lambda>b. te_h (entry_of s' b)) (ht_bindings t1) = image_mset (\<lambda>b. te_h (entry_of s1 b)) (ht_bindings t1)"
        by (intro image_mset_same) simp
      have "entry_of s' (bytes, tk_next s1) = e" by (rule nb(3)) (simp_all add: s'_def e_def)
      then have "held s' = add_mset h (image_mset (\<lambda>b. te_h (entry_of s1 b)) (ht_bindings t1))"
        using t1(4) im by (simp add: held_def table_bindings_def s'_def e_def)
      moreover have "image_mset (\<lambda>b. te_h (entry_of s1 b)) (ht_bindings t1) \<subseteq># held s"
        using image_mset_subseteq_mono [OF sub, of "\<lambda>b. te_h (entry_of s1 b)"] o t by (simp add: held_def table_bindings_def)
      moreover obtain v' where v': "ref_file h v = Inr v'" "quiet (set_hands (v_files v') (v_files v') x) v' G"
          "v_files v' = (v_files v)(h \<mapsto> fh\<lparr>fh_refs := fh_refs fh + 1\<rparr>)"
        using ref_file_ok [OF q h] by (auto simp: ends_iff)
      moreover have "gen_token_for h s v = Inr (True, Some bytes, s', v')"
        using 3 op Some m b a v'(1) by (simp add: gen_token_for_def Let_def s'_def e_def)
      moreover have "c_fs (set_hands (v_files v') (v_files v') x) = c_fs x" by (simp add: set_hands_def)
      ultimately show ?thesis by (intro exI [of _ True] exI [of _ "Some bytes"] exI [of _ s'] exI [of _ v']) auto
    qed
  qed
qed

lemma file_refs_set:
  "v_files v h = Some fh \<Longrightarrow> v_files v' = (v_files v)(h \<mapsto> fh\<lparr>fh_refs := fh_refs fh + 1\<rparr>) \<Longrightarrow>
     file_refs v' q = file_refs v q + (if q = h then 1 else 0)"
  by (simp add: file_refs_def)

lemma file_refs_drop:
  "v_files v h = Some fh \<Longrightarrow>
     v_files v' = (v_files v)(h := (if fh_refs fh = 1 then None else Some (fh\<lparr>fh_refs := fh_refs fh - 1\<rparr>))) \<Longrightarrow>
     file_refs v' q = file_refs v q - (if q = h then 1 else 0)"
  by (simp add: file_refs_def)

text \<open>Giving up one reference that is covered.\<close>

lemma close_covered:
  assumes q: "quiet x v G" and c: "0 < file_refs v h"
  shows "\<exists>v'. unref_file C h v = Inr v' \<and> (\<exists>x'. quiet x' v' G \<and> c_fs x' = c_fs x)
    \<and> (\<forall>q. file_refs v' q = file_refs v q - (if q = h then 1 else 0))"
proof -
  obtain fh where h: "v_files v h = Some fh" using c by (cases "v_files v h") (auto simp: file_refs_def)
  obtain v' where v': "unref_file C h v = Inr v'" "quiet (set_hands (v_files v') (v_files v') x) v' G"
      "v_files v' = (v_files v)(h := (if fh_refs fh = 1 then None else Some (fh\<lparr>fh_refs := fh_refs fh - 1\<rparr>)))"
    using unref_file_ok [OF q h] by (auto simp: ends_iff)
  have "c_fs (set_hands (v_files v') (v_files v') x) = c_fs x" by (simp add: set_hands_def)
  then show ?thesis using v' file_refs_drop [OF h v'(3)] by blast
qed

lemma expire_once_ok:
  assumes ok: "tokens_ok s" and t: "token_table s = Some t" and q: "quiet x v G" and c: "covered own s v"
  shows "\<exists>again s' v'. expire_once C s v = Inr (again, s', v') \<and> tokens_ok s' \<and> token_table s' \<noteq> None
    \<and> (\<exists>x'. quiet x' v' G \<and> c_fs x' = c_fs x) \<and> covered own s' v' \<and> tk_work s' = tk_work s \<and> tk_next s' = tk_next s
    \<and> (if again then \<exists>b. expired_entry s b \<and> table_bindings s = add_mset b (table_bindings s')
            \<and> (\<forall>b \<in># table_bindings s'. entry_of s' b = entry_of s b)
       else s' = s \<and> v' = v \<and> (\<forall>b \<in># table_bindings s. \<not> expired_entry s b))"
proof -
  have tt: "ht_ok token_eq_fun token_hash_fun t" and B: "bindings_ok s (ht_bindings t)"
    using ok t by (simp_all add: tokens_ok_def table_bindings_def)
  have inv: "ht_inv t" using tt by (simp add: ht_ok_def)
  have it: "mset (hashtbl_iter t) = ht_bindings t" by (rule hashtbl_iter_bindings [OF inv])
  then have sit: "set (hashtbl_iter t) = set_mset (ht_bindings t)" by (metis set_mset_mset)
  have "\<forall>b \<in> set (hashtbl_iter t). tk_entries s (snd b) \<noteq> None" using B sit by (simp add: bindings_ok_def)
  from find_expired_ok [OF this, of None] obtain r where
    r: "find_expired s (hashtbl_iter t) None = Inr r" and
    rr: "r = None \<and> (\<forall>b \<in># ht_bindings t. \<not> expired_entry s b)
      \<or> (\<exists>b \<in># ht_bindings t. expired_entry s b \<and> r = Some (snd b))" using sit by auto
  show ?thesis
  proof (cases r)
    case None
    then show ?thesis using r rr t ok q c by (simp add: expire_once_def table_bindings_def) blast
  next
    case (Some a)
    obtain b where b: "b \<in># ht_bindings t" "expired_entry s b" "a = snd b" using rr Some by auto
    have e: "tk_entries s a = Some (entry_of s b)" "te_tok (entry_of s b) = fst b"
      using B b(1,3) by (auto simp: bindings_ok_def entry_of_def)
    obtain rel t' h' where rm: "hashtbl_remove (tk_heap s) t (fst b) = (rel, t', h')" by (metis prod_cases3)
    obtain b' where b': "snd b' = snd b" "ht_bindings t = add_mset b' (ht_bindings t')" "ht_ok token_eq_fun token_hash_fun t'"
      by (rule remove_bound [OF tt bound_is_found [OF tt b(1)] rm])
    define s' where "s' = s\<lparr>token_table := Some t', tk_entries := (tk_entries s)(a := None), tk_heap := heap_free h'\<rparr>"
    have ee: "entry_of s b' = entry_of s b" by (simp add: entry_of_def b')
    note d = drop_binding [OF B [unfolded b'(2)], of s']
    have B': "bindings_ok s' (ht_bindings t')" by (rule d(1)) (simp_all add: s'_def b b')
    have same: "entry_of s' c = entry_of s c" if "c \<in># ht_bindings t'" for c
      by (rule d(2) [OF _ _ that]) (simp_all add: s'_def b b')
    then have im: "image_mset (\<lambda>b. te_h (entry_of s' b)) (ht_bindings t') = image_mset (\<lambda>b. te_h (entry_of s b)) (ht_bindings t')"
      by (intro image_mset_same) simp
    let ?h = "te_h (entry_of s b)"
    have hd: "held s = add_mset ?h (held s')"
      using t b'(2) im ee by (simp add: held_def table_bindings_def s'_def)
    have "0 < file_refs v ?h"
    proof -
      have "int (own ?h) + int (count (held s) ?h) \<le> file_refs v ?h" using c by (simp add: covered_def)
      then show ?thesis using hd by simp
    qed
    from close_covered [OF q this] obtain v' where v': "unref_file C ?h v = Inr v'" "\<exists>x'. quiet x' v' G \<and> c_fs x' = c_fs x"
      "\<forall>q. file_refs v' q = file_refs v q - (if q = ?h then 1 else 0)" by blast
    have "covered own s' v'"
      unfolding covered_def
    proof
      fix k
      have "int (own k) + int (count (held s) k) \<le> file_refs v k" using c by (simp add: covered_def)
      then show "int (own k) + int (count (held s') k) \<le> file_refs v' k" using hd v'(3) by (auto split: if_splits)
    qed
    moreover have "expire_once C s v = Inr (True, s', v')"
      using t r Some e rm v'(1) b(3) by (simp add: expire_once_def s'_def)
    moreover have "expired_entry s b'" using b(2) ee by (simp add: expired_entry_def)
    moreover have "table_bindings s = add_mset b' (table_bindings s')" using t b'(2) by (simp add: table_bindings_def s'_def)
    moreover have "tokens_ok s'" "token_table s' \<noteq> None" "tk_work s' = tk_work s" "tk_next s' = tk_next s"
      "\<forall>c \<in># table_bindings s'. entry_of s' c = entry_of s c"
      using B' b'(3) same by (simp_all add: s'_def tokens_ok_def table_bindings_def)
    ultimately show ?thesis using v'(2)
      by (intro exI [of _ True] exI [of _ s'] exI [of _ v']) (simp only: if_True simp_thms, blast)
  qed
qed

end

text \<open>
  A client: it opens files, closes those it owns a reference of, makes tokens for them and uses tokens; now and then
  the expiration task runs, at some time. The first component counts the references the client owns.
\<close>

datatype token_call =
    Tk_open nat string u32
  | Tk_close nat
  | Tk_gen nat
  | Tk_use token
  | Tk_expire u64

type_synonym 's token_sys = "(nat \<Rightarrow> nat) \<times> token_state \<times> 's vfs"

fun tk_do :: "'s code \<Rightarrow> token_call \<Rightarrow> 's token_sys \<Rightarrow> 's token_sys res option" where
  "tk_do C (Tk_open fa path mode) (own, s, v) =
     Some (if v_fs v fa = None then Inr (own, s, v)
       else rbind (fs_open C fa path mode v) (\<lambda>(r, v').
         Inr (case r of None \<Rightarrow> own | Some h \<Rightarrow> own(h := own h + 1), s, v')))"
| "tk_do C (Tk_close h) (own, s, v) =
     Some (if own h = 0 then Inr (own, s, v) else rbind (unref_file C h v) (\<lambda>v'. Inr (own(h := own h - 1), s, v')))"
| "tk_do C (Tk_gen h) (own, s, v) =
     Some (if own h = 0 then Inr (own, s, v) else rbind (gen_token_for h s v) (\<lambda>(_, _, s', v'). Inr (own, s', v')))"
| "tk_do C (Tk_use tok) (own, s, v) =
     Some (if token_table s = None then Inr (own, s, v)
       else rbind (use_token tok s) (\<lambda>(r, s'). Inr (case r of None \<Rightarrow> own | Some h \<Rightarrow> own(h := own h + 1), s', v)))"
| "tk_do C (Tk_expire t) (own, s, v) =
     (if token_table s = None then Some (Inr (own, s, v))
      else (case token_expiration_check C (s\<lparr>tk_work := (tk_work s)\<lparr>k_time := t\<rparr>\<rparr>) v of
              None \<Rightarrow> None
            | Some r \<Rightarrow> Some (rbind r (\<lambda>(s', v'). Inr (own, s', v')))))"

fun tk_run :: "'s code \<Rightarrow> token_call list \<Rightarrow> 's token_sys \<Rightarrow> 's token_sys res option" where
  "tk_run C [] z = Some (Inr z)"
| "tk_run C (c # cs) z =
     (case tk_do C c z of None \<Rightarrow> None | Some (Inl e) \<Rightarrow> Some (Inl e) | Some (Inr z') \<Rightarrow> tk_run C cs z')"

definition tokens0 :: "heap \<Rightarrow> prng_state \<Rightarrow> task_state \<Rightarrow> token_state" where
  "tokens0 h p w = \<lparr>token_table = None, tk_entries = (\<lambda>_. None), tk_next = 0, tk_heap = h, tk_prng = p, tk_work = w\<rparr>"

lemma tokens0_ok [simp]: "tokens_ok (tokens0 h p w)" "held (tokens0 h p w) = {#}"
  by (simp_all add: tokens0_def tokens_ok_def table_bindings_def bindings_ok_def held_def)

lemma image_filter_cong:
  "(\<And>b. b \<in># B \<Longrightarrow> P b = Q b) \<Longrightarrow> filter_mset P B = filter_mset Q B"
  by (rule filter_mset_cong) simp_all

context vfs_driver
begin

lemma expire_loop_ok:
  assumes "tokens_ok s" and "token_table s \<noteq> None" and "quiet x v G" and "covered own s v"
  shows "\<exists>s' v'. expire_loop C s v = Some (Inr (s', v')) \<and> tokens_ok s' \<and> token_table s' \<noteq> None
    \<and> (\<exists>x'. quiet x' v' G \<and> c_fs x' = c_fs x) \<and> covered own s' v' \<and> tk_work s' = tk_work s
    \<and> table_bindings s' = filter_mset (\<lambda>b. \<not> expired_entry s b) (table_bindings s)
    \<and> (\<forall>b \<in># table_bindings s'. entry_of s' b = entry_of s b)"
  using assms
proof (induction "size (table_bindings s)" arbitrary: s x v rule: less_induct)
  case less
  obtain t where t: "token_table s = Some t" using less.prems(2) by auto
  obtain again s1 v1 where o: "expire_once C s v = Inr (again, s1, v1)" "tokens_ok s1" "token_table s1 \<noteq> None"
    "\<exists>x'. quiet x' v1 G \<and> c_fs x' = c_fs x" "covered own s1 v1" "tk_work s1 = tk_work s"
    "if again then \<exists>b. expired_entry s b \<and> table_bindings s = add_mset b (table_bindings s1)
            \<and> (\<forall>b \<in># table_bindings s1. entry_of s1 b = entry_of s b)
       else s1 = s \<and> v1 = v \<and> (\<forall>b \<in># table_bindings s. \<not> expired_entry s b)"
    using expire_once_ok [OF less.prems(1) t less.prems(3,4)] by blast
  show ?case
  proof (cases again)
    case False
    then have f: "expire_loop C s v = Some (Inr (s, v))" "\<forall>b \<in># table_bindings s. \<not> expired_entry s b"
      using o(1,7) by (simp_all add: expire_loop.simps [of C s v])
    have "filter_mset (\<lambda>b. \<not> expired_entry s b) (table_bindings s) = table_bindings s"
      using f(2) by (simp add: filter_mset_eq_conv)
    then show ?thesis using f(1) less.prems by auto
  next
    case True
    then obtain b where b: "expired_entry s b" "table_bindings s = add_mset b (table_bindings s1)"
        "\<forall>b \<in># table_bindings s1. entry_of s1 b = entry_of s b" using o(7) by auto
    obtain x1 where x1: "quiet x1 v1 G" "c_fs x1 = c_fs x" using o(4) by blast
    have "size (table_bindings s1) < size (table_bindings s)" using b(2) by simp
    from less.hyps [OF this o(2,3) x1(1) o(5)] obtain s' v' where r: "expire_loop C s1 v1 = Some (Inr (s', v'))"
        "tokens_ok s'" "token_table s' \<noteq> None" "\<exists>x'. quiet x' v' G \<and> c_fs x' = c_fs x1" "covered own s' v'" "tk_work s' = tk_work s1"
        "table_bindings s' = filter_mset (\<lambda>b. \<not> expired_entry s1 b) (table_bindings s1)"
        "\<forall>b \<in># table_bindings s'. entry_of s' b = entry_of s1 b" by blast
    have "expired_entry s1 c = expired_entry s c" if "c \<in># table_bindings s1" for c
      using b(3) that o(6) by (simp add: expired_entry_def)
    then have fl: "filter_mset (\<lambda>b. \<not> expired_entry s1 b) (table_bindings s1)
        = filter_mset (\<lambda>b. \<not> expired_entry s b) (table_bindings s1)" by (intro image_filter_cong) simp
    have "expire_loop C s v = Some (Inr (s', v'))"
      using o(1) True r(1) by (simp add: expire_loop.simps [of C s v])
    moreover have "table_bindings s' = filter_mset (\<lambda>b. \<not> expired_entry s b) (table_bindings s)"
      using r(7) fl b(1,2) by simp
    moreover have "\<forall>b \<in># table_bindings s'. entry_of s' b = entry_of s b"
    proof
      fix c assume c: "c \<in># table_bindings s'"
      then have "c \<in># table_bindings s1" unfolding r(7) by simp
      with c show "entry_of s' c = entry_of s c" using r(8) b(3) by simp
    qed
    ultimately show ?thesis using r x1(2) o(6) by (intro exI [of _ s'] exI [of _ v']) simp
  qed
qed

lemma token_expiration_ok:
  assumes "tokens_ok s" and "token_table s \<noteq> None" and "quiet x v G" and "covered own s v"
  shows "\<exists>s' v'. token_expiration_check C s v = Some (Inr (s', v')) \<and> tokens_ok s' \<and> token_table s' \<noteq> None
    \<and> (\<exists>x'. quiet x' v' G \<and> c_fs x' = c_fs x) \<and> covered own s' v'
    \<and> table_bindings s' = filter_mset (\<lambda>b. \<not> expired_entry s b) (table_bindings s)
    \<and> (\<forall>b \<in># table_bindings s'. entry_of s' b = entry_of s b)"
proof -
  obtain s1 v1 where r: "expire_loop C s v = Some (Inr (s1, v1))" "tokens_ok s1" "token_table s1 \<noteq> None"
    "\<exists>x'. quiet x' v1 G \<and> c_fs x' = c_fs x" "covered own s1 v1"
    "table_bindings s1 = filter_mset (\<lambda>b. \<not> expired_entry s b) (table_bindings s)"
    "\<forall>b \<in># table_bindings s1. entry_of s1 b = entry_of s b" using expire_loop_ok [OF assms] by blast
  define s' where "s' = s1\<lparr>tk_next := tk_next s1 + 1, tk_work := push_expiration (tk_next s1) (tk_work s1)\<rparr>"
  have t: "table_bindings s' = table_bindings s1" "token_table s' = token_table s1"
    by (simp_all add: s'_def table_bindings_def)
  have B: "bindings_ok s1 (table_bindings s1)" using r(2) by (simp add: tokens_ok_def)
  have e: "bindings_ok s' (table_bindings s1)" "entry_of s' = entry_of s1"
    by (rule same_bindings [OF B]; simp add: s'_def)+
  have "tokens_ok s'" using r(2) e t by (simp add: tokens_ok_def)
  moreover have "held s' = held s1" using e t by (simp add: held_def)
  moreover have "token_expiration_check C s v = Some (Inr (s', v1))" using r(1) by (simp add: token_expiration_check_def s'_def)
  ultimately show ?thesis using r e t by (intro exI [of _ s'] exI [of _ v1]) (simp add: covered_def)
qed

definition sys_ok :: "(nat \<Rightarrow> nat) \<Rightarrow> (nat \<Rightarrow> fs option) \<Rightarrow> 's token_sys \<Rightarrow> bool" where
  "sys_ok G F = (\<lambda>(own, s, v). tokens_ok s \<and> (\<exists>x. quiet x v G \<and> c_fs x = F) \<and> covered own s v)"

lemma tk_do_ok:
  assumes "sys_ok G F z"
  shows "\<exists>z'. tk_do C c z = Some (Inr z') \<and> sys_ok G F z'"
proof -
  obtain own s v where z: "z = (own, s, v)" by (cases z)
  obtain x where s: "tokens_ok s" and q: "quiet x v G" and F: "c_fs x = F" and cov: "covered own s v"
    using assms by (auto simp: z sys_ok_def)
  have inv: "vinv x v (\<lambda>_. 0) G {}" and hf: "c_hand x = c_files x" and heldG: "held_fs x G" and nd: "c_dying x = Map.empty"
    using q by (auto simp: quiet_def)
  have stay: "sys_ok G F (own, s, v)" using assms by (simp add: z)
  have fit: "int (own h) + int (count (held s) h) \<le> file_refs v h" for h using cov by (simp add: covered_def)
  show ?thesis
  proof (cases c)
    case (Tk_open fa path mode)
    show ?thesis
    proof (cases "v_fs v fa = None")
      case False
      then have fa: "c_fs x fa \<noteq> None" using vinv_fss [OF inv, of fa] by (metis map_option_is_None)
      obtain r v' where o: "fs_open C fa path mode v = Inr (r, v')" "opened x (\<lambda>_. 0) G (r, v')"
        using fs_open_ok [OF inv heldG fa, of path mode] by (auto simp: ends_iff)
      have fv: "v_files v = c_files x" by (rule vinv_files [OF inv])
      have "sys_ok G F (case r of None \<Rightarrow> own | Some h \<Rightarrow> own(h := own h + 1), s, v')"
      proof (cases r)
        case None
        then have i: "vinv x v' (\<lambda>_. 0) G {}" using o(2) by (simp add: opened_def)
        then have "v_files v' = v_files v" using vinv_files [OF i] fv by simp
        then have "covered own s v'" using cov by (simp add: covered_def file_refs_def)
        then show ?thesis using None s F quiet_after [OF q i] by (auto simp: sys_ok_def)
      next
        case (Some h)
        then obtain fh where fh: "c_hand x h = None" "fh_refs fh = 1" "vinv (add_hand h fh x) v' (\<lambda>_. 0) G {}"
          using o(2) by (auto simp: opened_def)
        have "v_files v' = (v_files v)(h \<mapsto> fh)" using vinv_files [OF fh(3)] fv by (simp add: add_hand_def set_hands_def)
        moreover have "v_files v h = None" using fh(1) hf fv by simp
        ultimately have "file_refs v' k = file_refs v k + (if k = h then 1 else 0)" for k
          using fh(2) by (simp add: file_refs_def)
        then have "covered (own(h := own h + 1)) s v'" using fit by (simp add: covered_def add.commute add.left_commute)
        moreover have "quiet (add_hand h fh x) v' G" "c_fs (add_hand h fh x) = F"
          using fh(3) hf nd heldG F by (simp_all add: quiet_def add_hand_def set_hands_def held_fs_def)
        ultimately show ?thesis using Some s by (auto simp: sys_ok_def)
      qed
      then show ?thesis using Tk_open z False o(1) by (cases "v_fs v fa") simp_all
    qed (use Tk_open z stay in simp)
  next
    case (Tk_close h)
    show ?thesis
    proof (cases "own h = 0")
      case False
      then have "0 < file_refs v h" using fit [of h] by linarith
      from close_covered [OF q this] obtain v' where v': "unref_file C h v = Inr v'" "\<exists>x'. quiet x' v' G \<and> c_fs x' = c_fs x"
        "\<forall>k. file_refs v' k = file_refs v k - (if k = h then 1 else 0)" by blast
      have "covered (own(h := own h - 1)) s v'"
        unfolding covered_def
      proof
        fix k show "int ((own(h := own h - 1)) k) + int (count (held s) k) \<le> file_refs v' k"
          using fit [of k] v'(3) False by (auto split: if_splits)
      qed
      then have "sys_ok G F (own(h := own h - 1), s, v')" using v'(2) F s by (auto simp: sys_ok_def)
      then show ?thesis using Tk_close z False v'(1) by simp
    qed (use Tk_close z stay in simp)
  next
    case (Tk_gen h)
    show ?thesis
    proof (cases "own h = 0")
      case False
      then have "0 < file_refs v h" using fit [of h] by linarith
      then obtain fh where fh: "v_files v h = Some fh" by (cases "v_files v h") (auto simp: file_refs_def)
      obtain b tok s' v' where g: "gen_token_for h s v = Inr (b, tok, s', v')" "tokens_ok s'" "\<exists>x'. quiet x' v' G \<and> c_fs x' = c_fs x"
        "if b then v_files v' = (v_files v)(h \<mapsto> fh\<lparr>fh_refs := fh_refs fh + 1\<rparr>) \<and> (\<exists>R. R \<subseteq># held s \<and> held s' = add_mset h R)
         else v_files v' = v_files v \<and> held s' = held s" using gen_token_ok [OF s q fh] by blast
      have "covered own s' v'"
      proof (cases b)
        case True
        then obtain R where R: "R \<subseteq># held s" "held s' = add_mset h R" "v_files v' = (v_files v)(h \<mapsto> fh\<lparr>fh_refs := fh_refs fh + 1\<rparr>)"
          using g(4) by auto
        show ?thesis
          unfolding covered_def
        proof
          fix k
          have "count R k \<le> count (held s) k" using R(1) by (simp add: mset_subset_eq_count)
          then show "int (own k) + int (count (held s') k) \<le> file_refs v' k"
            using fit [of k] file_refs_set [OF fh R(3), of k] R(2) by auto
        qed
      next
        case False
        then show ?thesis using g(4) cov by (simp add: covered_def file_refs_def)
      qed
      then have "sys_ok G F (own, s', v')" using g(2,3) F by (auto simp: sys_ok_def)
      then show ?thesis using Tk_gen z False g(1) by simp
    qed (use Tk_gen z stay in simp)
  next
    case (Tk_use tok)
    show ?thesis
    proof (cases "token_table s")
      case (Some t)
      obtain r s' where u: "use_token tok s = Inr (r, s')" "tokens_ok s'"
          "case r of None \<Rightarrow> s' = s | Some h \<Rightarrow> held s = add_mset h (held s')" using use_token_ok [OF s Some, of tok] by blast
      have "covered (case r of None \<Rightarrow> own | Some h \<Rightarrow> own(h := own h + 1)) s' v"
      proof (cases r)
        case r: (Some h)
        then have hs: "held s = add_mset h (held s')" using u(3) by simp
        show ?thesis unfolding covered_def
        proof
          fix k show "int ((case r of None \<Rightarrow> own | Some h \<Rightarrow> own(h := own h + 1)) k) + int (count (held s') k) \<le> file_refs v k"
            using fit [of k] hs r by (auto split: if_splits)
        qed
      qed (use u(3) cov in simp)
      then have "sys_ok G F (case r of None \<Rightarrow> own | Some h \<Rightarrow> own(h := own h + 1), s', v)"
        using u(2) q F by (auto simp: sys_ok_def)
      then show ?thesis using Tk_use z Some u(1) by simp
    qed (use Tk_use z stay in simp)
  next
    case (Tk_expire t)
    show ?thesis
    proof (cases "token_table s = None")
      case False
      define s1 where "s1 = s\<lparr>tk_work := (tk_work s)\<lparr>k_time := t\<rparr>\<rparr>"
      have B: "bindings_ok s (table_bindings s)" using s by (simp add: tokens_ok_def)
      have t1: "table_bindings s1 = table_bindings s" "token_table s1 = token_table s"
        by (simp_all add: s1_def table_bindings_def)
      have e: "bindings_ok s1 (table_bindings s)" "entry_of s1 = entry_of s"
        by (rule same_bindings [OF B]; simp add: s1_def)+
      have "tokens_ok s1" "covered own s1 v" using s cov e t1 by (simp_all add: tokens_ok_def covered_def held_def)
      from token_expiration_ok [OF this(1) _ q this(2)] False t1 obtain s' v' where
        r: "token_expiration_check C s1 v = Some (Inr (s', v'))" "tokens_ok s'" "\<exists>x'. quiet x' v' G \<and> c_fs x' = c_fs x" "covered own s' v'"
        by auto
      then have "sys_ok G F (own, s', v')" using F by (auto simp: sys_ok_def)
      then show ?thesis using Tk_expire z False r(1) by (cases "token_table s") (simp_all add: s1_def)
    qed (use Tk_expire z stay in simp)
  qed
qed

lemma tk_run_ok: "sys_ok G F z \<Longrightarrow> \<exists>z'. tk_run C cs z = Some (Inr z') \<and> sys_ok G F z'"
proof (induction cs arbitrary: z)
  case (Cons c cs)
  obtain z1 where z1: "tk_do C c z = Some (Inr z1)" "sys_ok G F z1" using tk_do_ok [OF Cons.prems] by blast
  then show ?case using Cons.IH [OF z1(2)] by simp
qed simp

end

section \<open>Tokens over the file system in memory\<close>

lemma boot_sys_ok:
  assumes "boot_nullfs other opts h e = Inr (Some fa, v0)"
  shows "\<exists>F. nullfs.sys_ok (\<lambda>_. 1) F (\<lambda>_. 0, tokens0 th p w, v0)"
proof -
  obtain t h' where b: "v0 = booted opts t h' e" "ht_ok str_key_eq_fun str_hash_fun t" "\<And>k. hashtbl_find t k = None"
    by (rule boot_state [OF assms]) blast
  obtain x0 where x0: "nullfs.quiet x0 v0 (\<lambda>_. 1)" using booted_quiet [OF b(2,3), of opts h' e] b(1) by blast
  have "v_files v0 = Map.empty" using b(1) by (simp add: booted_def)
  then have "nullfs.sys_ok (\<lambda>_. 1) (c_fs x0) (\<lambda>_. 0, tokens0 th p w, v0)"
    using x0 by (auto simp: nullfs.sys_ok_def covered_def file_refs_def)
  then show ?thesis by blast
qed


text \<open>C21: The expiration task ends, in every state that a run can reach, and drops exactly the tokens whose lifetime is
  over at the present time: the others stay, with their files.\<close>

theorem token_expiration_ends:
  assumes "boot_nullfs other opts h e = Inr (Some fa, v0)"
    and "tk_run (nullfs_code other) calls (\<lambda>_. 0, tokens0 th p w, v0) = Some (Inr (own, s, v))"
    and "token_table s \<noteq> None"
  shows "\<exists>s' v'. token_expiration_check (nullfs_code other) s v = Some (Inr (s', v'))
    \<and> image_mset (entry_of s') (table_bindings s') =
        filter_mset (\<lambda>entry. \<not> te_time entry + TOKEN_LIFETIME < get_kernel_time (tk_work s))
          (image_mset (entry_of s) (table_bindings s))"
proof -
  obtain F where F: "nullfs.sys_ok (\<lambda>_. 1) F (\<lambda>_. 0, tokens0 th p w, v0)" using boot_sys_ok [OF assms(1)] by blast
  from nullfs.tk_run_ok [OF F, of other calls] assms(2) have "nullfs.sys_ok (\<lambda>_. 1) F (own, s, v)" by simp
  then obtain x where "tokens_ok s" "nullfs.quiet x v (\<lambda>_. 1)" "covered own s v" by (auto simp: nullfs.sys_ok_def)
  from nullfs.token_expiration_ok [OF this(1) assms(3) this(2,3), of other] obtain s' v' where
    r: "token_expiration_check (nullfs_code other) s v = Some (Inr (s', v'))"
      "table_bindings s' = filter_mset (\<lambda>b. \<not> expired_entry s b) (table_bindings s)"
      "\<forall>b \<in># table_bindings s'. entry_of s' b = entry_of s b" by blast
  have "image_mset (entry_of s') (table_bindings s') = image_mset (entry_of s) (table_bindings s')"
    by (rule image_mset_same) (use r(3) in simp)
  also have "\<dots> = filter_mset (\<lambda>entry. \<not> te_time entry + TOKEN_LIFETIME < get_kernel_time (tk_work s))
          (image_mset (entry_of s) (table_bindings s))"
    unfolding r(2) expired_entry_def by (simp add: filter_mset_image_mset o_def)
  finally show ?thesis using r(1) by blast
qed

definition wit_tasks :: task_state where
  "wit_tasks = \<lparr>k_time = 0, next_task_time = UINT64_MAX,
     tasks = \<lparr>bt_cf = uint64_key_cmp_fun, bt_releasef = False, bt_root = Null, bt_nitems = 0\<rparr>, wk_heap = wit_heap\<rparr>"

abbreviation wit_code :: "nullfs_state code" where
  "wit_code \<equiv> nullfs_code (\<lambda>_. nullfs_f_ops)"

lemma wit_booted:
  "\<exists>t n. boot_nullfs (\<lambda>_. nullfs_f_ops) ''cd'' wit_heap wit_pager_env
     = Inr (Some 0, booted ''cd'' t \<lparr>hp_answers = [], hp_live = n\<rparr> wit_pager_env)"
proof -
  have "strcmp ''nullfs'' ''nullfs'' = 0" by (simp add: strcmp_zero_iff)
  then have "\<exists>s1. boot_nullfs (\<lambda>_. nullfs_f_ops) ''cd'' wit_heap wit_pager_env = Inr (Some 0, s1) \<and> hp_answers (v_heap s1) = []"
    by (simp add: boot_nullfs_def register_nullfs_driver_def register_fs_driver_def vfs0_def make_fs_def new_object_def
      pick_driver_def call_def nullfs_code_def nullfs_fs_make_def n_malloc_def nullfs0_def Let_def wit_heap_def
      heap_malloc_def next_answer_def create_hashtbl_def DEFAULT_HT_INIT_SIZE_def)
  then obtain s1 where s1: "boot_nullfs (\<lambda>_. nullfs_f_ops) ''cd'' wit_heap wit_pager_env = Inr (Some 0, s1)" "hp_answers (v_heap s1) = []"
    by blast
  obtain t h' where "s1 = booted ''cd'' t h' wit_pager_env" by (rule boot_state [OF s1(1)])
  moreover then have "h' = \<lparr>hp_answers = [], hp_live = hp_live h'\<rparr>" using s1(2) by (simp add: booted_def)
  ultimately show ?thesis using s1(1) by metis
qed


text \<open>The first token makes the table.\<close>

lemma gen_makes_table:
  assumes "gen_token_for h s v = Inr (b, tok, s', v')" and "open_table s = (Some t, s1)"
  shows "token_table s' \<noteq> None"
  using assms by (auto simp: gen_token_for_def Let_def rbind_Inr_iff open_table_def split: prod.splits if_splits option.splits)

lemma wit_open_root:
  "\<exists>v. fs_open wit_code 0 ''/'' FM_READDIR (booted ''cd'' t \<lparr>hp_answers = [], hp_live = n\<rparr> wit_pager_env) = Inr (Some 2, v)"
proof -
  have "beyond FM_READDIR FM_ALL_MODES = False" "(FM_READDIR AND NOT FM_CREATE) = FM_READDIR" by code_simp+
  moreover have "c_str ''/'' = ''/''" by (simp add: c_str_def NUL_def)
  ultimately show ?thesis
    by (simp add: fs_open_def booted_def fs_walk_path_def skip_slash_def ref_fs_node_def lock_node_def unlock_node_def
      walk_from.simps [of _ _ "[]"] open_node_def new_object_def heap_malloc_def next_answer_def set_node_def Let_def
      ops_of_def nullfs_code_def nullfs_d_ops_def call_def nullfs_d_open_def ref_fs_def lock_fs_def unlock_fs_def)
qed

theorem token_expiration_ends_witness:
  "\<exists>v0 own s v s' v'. boot_nullfs (\<lambda>_. nullfs_f_ops) ''cd'' wit_heap wit_pager_env = Inr (Some 0, v0)
    \<and> tk_run wit_code [Tk_open 0 ''/'' FM_READDIR, Tk_gen 2] (\<lambda>_. 0, tokens0 wit_heap prng_init wit_tasks, v0) = Some (Inr (own, s, v))
    \<and> token_table s \<noteq> None \<and> token_expiration_check wit_code s v = Some (Inr (s', v'))"
proof -
  obtain t n where b: "boot_nullfs (\<lambda>_. nullfs_f_ops) ''cd'' wit_heap wit_pager_env
     = Inr (Some 0, booted ''cd'' t \<lparr>hp_answers = [], hp_live = n\<rparr> wit_pager_env)" using wit_booted by blast
  define v0 where "v0 = booted ''cd'' t \<lparr>hp_answers = [], hp_live = n\<rparr> wit_pager_env"
  let ?s = "tokens0 wit_heap prng_init wit_tasks" and ?calls = "[Tk_open 0 ''/'' FM_READDIR, Tk_gen 2]"
  obtain F where F: "nullfs.sys_ok (\<lambda>_. 1) F (\<lambda>_. 0, ?s, v0)" using boot_sys_ok [OF b] v0_def by blast
  obtain own s v where r: "tk_run wit_code ?calls (\<lambda>_. 0, ?s, v0) = Some (Inr (own, s, v))"
    using nullfs.tk_run_ok [OF F, of _ ?calls] by (metis prod_cases3)
  obtain v1 where v1: "fs_open wit_code 0 ''/'' FM_READDIR v0 = Inr (Some 2, v1)"
    using wit_open_root [of t n] by (auto simp: v0_def)
  have "v_fs v0 0 \<noteq> None" by (simp add: v0_def booted_def)
  then have g: "rbind (gen_token_for 2 ?s v1) (\<lambda>(_, _, s', v'). Inr ((\<lambda>_. 0)(2 := 1), s', v')) = Inr (own, s, v)"
    using r v1 by (auto split: option.split_asm sum.split_asm)
  obtain tb s1 where o: "open_table ?s = (Some tb, s1)"
    by (auto simp: open_table_def tokens0_def create_hashtbl_def wit_heap_def heap_malloc_def next_answer_def)
  have "token_table s \<noteq> None" using g gen_makes_table [OF _ o] by (auto simp: rbind_Inr_iff)
  then show ?thesis using token_expiration_ends [OF b r [unfolded v0_def]] b r unfolding v0_def by metis
qed

end
