(* ===== verification/Ipc_Shm.thy ===== *)
theory Ipc_Shm
  imports Nullfs
begin

text \<open>
  The shared memory of src/kernel/user/ipc.c: a node of the virtual file system without a file system, over a pager of
  anonymous memory that does not grow. The pagers are those of the file system in memory, whose operations on
  pagers (theory \<open>Nullfs\<close>) serve here too.
\<close>

definition SHM_OPS :: nat where "SHM_OPS = 6"

definition shm_open :: "fs_node \<Rightarrow> u32 \<Rightarrow> nio \<Rightarrow> (bool \<times> nio) res" where
  "shm_open n mode io = Inr (mode AND NOT (FM_READ OR FM_WRITE OR FM_MMAP) = 0, io)"

definition shm_close :: "fs_handle \<Rightarrow> fs_node \<Rightarrow> nio \<Rightarrow> (unit \<times> nio) res" where
  "shm_close h n io = Inr ((), io)"

definition shm_stat :: "fs_node \<Rightarrow> nio \<Rightarrow> (stat_t option \<times> nio) res" where
  "shm_stat n io =
     (case fn_pager n of
        None \<Rightarrow> Inl Bad_access
      | Some a \<Rightarrow> rbind (deref (n_pagers (snd io)) a) (\<lambda>p.
          Inr (Some \<lparr>st_type = FT_REGULAR, st_access = FM_READ OR FM_WRITE OR FM_MMAP, st_size = unat (pg_size p)\<rparr>, io)))"

definition shm_dispose :: "fs_node \<Rightarrow> nio \<Rightarrow> (unit \<times> nio) res" where
  "shm_dispose n io =
     (case fn_pager n of None \<Rightarrow> Inl Bad_access | Some a \<Rightarrow> rbind (n_delete_pager a io) (\<lambda>io1. Inr ((), io1)))"

definition shm_ops :: "nullfs_state node_ops" where
  "shm_ops =
     \<lparr>op_open = Some shm_open, op_read = Some nullfs_f_read, op_write = Some nullfs_f_write, op_readdir = None,
      op_poll = None, op_close = Some shm_close, op_stat = Some shm_stat, op_ioctl = None, op_walk = None,
      op_delete = None, op_move = None, op_create = None, op_dispose = Some shm_dispose\<rparr>"

text \<open>The kernel with both kinds of nodes.\<close>

definition shm_code :: "nullfs_state code" where
  "shm_code = nullfs_code (\<lambda>a. if a = SHM_OPS then shm_ops else nullfs_f_ops)"

text \<open>\<open>make_shm\<close> gives back what it has taken when an allocation fails.\<close>

definition make_shm :: "u32 \<Rightarrow> nullfs_state vfs \<Rightarrow> nat option \<times> nullfs_state vfs" where
  "make_shm sz s =
     (case new_object s of
        (None, s1) \<Rightarrow> (None, s1)
      | (Some n, s1) \<Rightarrow>
          (case new_object s1 of
             (None, s2) \<Rightarrow> (None, free_block s2)
           | (Some h, s2) \<Rightarrow>
               (case new_swap_pager sz False (v_heap s2) of
                  (None, hp) \<Rightarrow> (None, free_block (free_block (s2\<lparr>v_heap := hp\<rparr>)))
                | (Some p, hp) \<Rightarrow>
                    (let st = v_dev s2; a = n_next st
                     in (Some h,
                         s2\<lparr>v_heap := hp,
                            v_dev := st\<lparr>n_pagers := (n_pagers st)(a \<mapsto> p), n_next := a + 1\<rparr>,
                            v_nodes := (v_nodes s2)(n \<mapsto>
                              \<lparr>fn_refs = 1, fn_locked = False, fn_name = None, fn_fs = None, fn_children = None,
                               fn_parent = None, fn_ops = SHM_OPS, fn_data = 0, fn_pager = Some a\<rparr>),
                            v_files := (v_files s2)(h \<mapsto>
                              \<lparr>fh_refs = 1, fh_locked = False, fh_fs = None, fh_node = n,
                               fh_mode = FM_READ OR FM_WRITE OR FM_MMAP\<rparr>)\<rparr>)))))"

lemma new_pager_live:
  assumes "new_pager k sz h = (r, h')"
  shows "hp_live h' = hp_live h + (if r = None then 0 else 3)"
proof -
  obtain ok h1 where 1: "heap_malloc h = (ok, h1)" by (cases "heap_malloc h")
  obtain t :: "(u32, u32) hashtbl option" and h2 where 2: "create_hashtbl h1 id_key_eq_fun id_hash_fun False = (t, h2)" by fastforce
  have "hp_live h2 = hp_live h1 + (if t = None then 0 else 2)"
    using 2 by (auto simp: create_hashtbl_def dest!: heap_malloc_live split: prod.splits if_splits)
  then show ?thesis
    using assms 1 2 heap_malloc_live [OF 1] by (auto simp: new_pager_def split: if_splits option.splits)
qed

text \<open>A failure leaves no block behind; a success holds the node, the handle and the pager with its table.\<close>

lemma make_shm_blocks:
  assumes "make_shm sz s = (r, s')"
  shows "hp_live (v_heap s') = hp_live (v_heap s) + (if r = None then 0 else 5)"
proof -
  obtain a s1 where 1: "new_object s = (a, s1)" by (cases "new_object s")
  obtain b s2 where 2: "new_object s1 = (b, s2)" by (cases "new_object s1")
  obtain p h where 3: "new_swap_pager sz False (v_heap s2) = (p, h)" by (cases "new_swap_pager sz False (v_heap s2)")
  have l1: "hp_live (v_heap s1) = hp_live (v_heap s) + (if a = None then 0 else 1)"
    using 1 by (auto simp: new_object_def dest!: heap_malloc_live split: prod.splits if_splits)
  have l2: "hp_live (v_heap s2) = hp_live (v_heap s1) + (if b = None then 0 else 1)"
    using 2 by (auto simp: new_object_def dest!: heap_malloc_live split: prod.splits if_splits)
  have l3: "hp_live h = hp_live (v_heap s2) + (if p = None then 0 else 3)"
    using new_pager_live 3 by (simp add: new_swap_pager_def)
  show ?thesis
    using assms 1 2 3 l1 l2 l3 by (auto simp: make_shm_def free_block_def Let_def split: option.splits)
qed

text \<open>A process that reads at the end of its shared memory leaves the lock of the pager taken.\<close>

lemma shm_read_at_end:
  assumes "make_shm sz s = (Some h, s1)" and "0 < sz"
  shows "\<exists>s2. file_read shm_code h (unat sz) 1 s1 = Inr ([], s2) \<and> file_read shm_code h 0 1 s2 = Inl Self_deadlock"
proof -
  obtain n sa where 1: "new_object s = (Some n, sa)" using assms(1) by (auto simp: make_shm_def split: prod.splits option.splits)
  obtain sb where 2: "new_object sa = (Some h, sb)"
    using assms(1) 1 by (auto simp: make_shm_def Let_def split: prod.splits option.splits)
  obtain p hp where 3: "new_swap_pager sz False (v_heap sb) = (Some p, hp)"
    using assms(1) 1 2 by (auto simp: make_shm_def Let_def split: prod.splits option.splits)
  have p: "pg_size p = sz" "\<not> pg_locked p"
    using 3 by (auto simp: new_swap_pager_def new_pager_def split: prod.splits option.splits if_splits)
  have m: "has_flag (FM_READ OR FM_WRITE OR FM_MMAP) FM_READ" by code_simp
  have ops: "op_read (ops_of shm_code nd) = Some nullfs_f_read" if "fn_ops nd = SHM_OPS" for nd
    using that by (simp add: ops_of_def shm_code_def nullfs_code_def shm_ops_def SHM_OPS_def NULLFS_D_OPS_def NULLFS_F_OPS_def)
  have s1: "s1 = snd (make_shm sz s)" using assms(1) by simp
  show ?thesis
    using p
    by (simp add: s1 make_shm_def 1 2 3 Let_def file_read_def on_file_def m ops call_def nullfs_f_read_def on_pager_def
        fs_read_from_pager_def pager_read_def pager_do_rw_def lock_pager_def)
qed

end
