(* ===== verification/Printf.thy ===== *)
theory Printf
  imports Cstring "HOL-Library.Signed_Division"
begin

text \<open>
  Formatted printing, src/common/libc/printf.c. A variadic argument is a value of \<open>printf_arg\<close>; a callback gets a
  character (an \<open>int\<close>) and a state of its own and answers like \<open>putc_fun\<close>. Formats and strings are lists of
  characters whose end reads as NUL, as in the theory of C strings. What C leaves undefined is an error of the result:
  an argument that is missing or of another type, more than two \<open>l\<close> (the variable of the value is not set), a
  width that overflows its \<open>int\<close>, reading past the end of the format, writing outside of the buffer. \<open>long\<close>
  has 32 bits on the target, so that one \<open>l\<close> changes nothing.
\<close>

section \<open>The code\<close>

datatype print_error = Bad_argument | Uninitialised | Int_overflow | Past_format | Outside_buffer | Return_assert

datatype printf_arg = Int_arg u32 | Long_long_arg u64 | String_arg "string option"

type_synonym 'p putc = "int \<Rightarrow> 'p \<Rightarrow> print_error + int \<times> 'p"

text \<open>\<open>PUTCHAR\<close> goes on or returns from \<open>vcprintf\<close>, with the count or the error of the callback.\<close>

datatype 'p step = Going int 'p | Returned int 'p

definition PUTCHAR :: "'p putc \<Rightarrow> int \<Rightarrow> int \<Rightarrow> 'p \<Rightarrow> print_error + 'p step" where
  "PUTCHAR putc_fun c ret p =
     (case putc_fun c p of
        Inl e \<Rightarrow> Inl e
      | Inr (tmp, p') \<Rightarrow>
          Inr (if tmp = 1 then Going (ret + 1) p'
               else if tmp = 0 then Returned ret p'
               else if tmp < 0 then Returned tmp p'
               else Going ret p'))"

definition and_then :: "print_error + 'p step \<Rightarrow> (int \<Rightarrow> 'p \<Rightarrow> print_error + 'p step) \<Rightarrow> print_error + 'p step" where
  "and_then r k =
     (case r of Inl e \<Rightarrow> Inl e | Inr (Going ret p) \<Rightarrow> k ret p | Inr (Returned ret p) \<Rightarrow> Inr (Returned ret p))"

fun put_all :: "'p putc \<Rightarrow> int list \<Rightarrow> int \<Rightarrow> 'p \<Rightarrow> print_error + 'p step" where
  "put_all f [] ret p = Inr (Going ret p)"
| "put_all f (c # cs) ret p = and_then (PUTCHAR f c ret p) (put_all f cs)"

text \<open>The specification between the percent sign and the letter of the conversion. Widths are read and not used.\<close>

record spec =
  sp_na :: int
  sp_nb :: int
  sp_u :: bool
  sp_l :: nat
  sp_dotspec :: bool

definition spec0 :: spec where
  "spec0 = \<lparr>sp_na = -1, sp_nb = -1, sp_u = False, sp_l = 0, sp_dotspec = False\<rparr>"

definition width_digit :: "int \<Rightarrow> char \<Rightarrow> int" where
  "width_digit n c = (if n = -1 then 0 else n) * 10 + (schar c - 48)"

fun parse_spec :: "spec \<Rightarrow> string \<Rightarrow> print_error + spec \<times> string" where
  "parse_spec sp [] = Inr (sp, [])"
| "parse_spec sp (c # cs) =
     (if c = CHR ''l'' then parse_spec (sp\<lparr>sp_l := sp_l sp + 1\<rparr>) cs
      else if c = CHR ''u'' then parse_spec (sp\<lparr>sp_u := True\<rparr>) cs
      else if isdigit (schar c) then
        (if sp_dotspec sp then
           (if width_digit (sp_nb sp) c < 2 ^ 31 then parse_spec (sp\<lparr>sp_nb := width_digit (sp_nb sp) c\<rparr>) cs
            else Inl Int_overflow)
         else
           (if width_digit (sp_na sp) c < 2 ^ 31 then parse_spec (sp\<lparr>sp_na := width_digit (sp_na sp) c\<rparr>) cs
            else Inl Int_overflow))
      else if c = CHR ''.'' then parse_spec (sp\<lparr>sp_dotspec := True\<rparr>) cs
      else Inr (sp, c # cs))"

text \<open>
  \<open>int_digits\<close> fills \<open>buff_int\<close>, from the last digit to the first; the loop ends when the value is zero. The
  buffer has 32 characters.
\<close>

function int_digits :: "int \<Rightarrow> int list" where
  "int_digits integer =
     (let m10 = integer smod 10; d = 48 + (if m10 < 0 then - m10 else m10)
      in d # (if integer sdiv 10 \<noteq> 0 then int_digits (integer sdiv 10) else []))"
  by auto

termination
proof (relation "measure (\<lambda>n. nat \<bar>n\<bar>)", goal_cases)
  case (2 n)
  then show ?case by (auto simp: signed_divide_int_def sgn_if abs_if split: if_splits)
qed simp

declare int_digits.simps [simp del]

definition BUFF_INT_SIZE :: nat where "BUFF_INT_SIZE = 32"

definition int_text :: "int \<Rightarrow> print_error + int list" where
  "int_text integer =
     (let ds = int_digits integer
      in if length ds > BUFF_INT_SIZE then Inl Outside_buffer
         else Inr ((if integer < 0 then [45] else []) @ rev ds))"

text \<open>The eight nibbles of the low 32 bits, from the highest.\<close>

definition nibble :: "u64 \<Rightarrow> nat \<Rightarrow> u32" where
  "nibble hexa j = drop_bit 28 (ucast (push_bit (j * 4) hexa) :: u32) AND 0xf"

definition hex_char :: "u32 \<Rightarrow> int" where
  "hex_char nb = (if nb < 10 then 48 + uint nb else 97 + (uint nb - 10))"

fun hex_loop :: "nat list \<Rightarrow> bool \<Rightarrow> u64 \<Rightarrow> int list" where
  "hex_loop [] had_nonzero hexa = (if had_nonzero then [] else [48])"
| "hex_loop (j # js) had_nonzero hexa =
     (let nb = nibble hexa j
      in if nb = 0 then (if had_nonzero then [48] else []) @ hex_loop js had_nonzero hexa
         else hex_char nb # hex_loop js True hexa)"

definition hex_text :: "u64 \<Rightarrow> int list" where
  "hex_text hexa = hex_loop [0..<8] False hexa"

definition pointer_text :: "u32 \<Rightarrow> int list" where
  "pointer_text hexa = map (\<lambda>j. hex_char (nibble (ucast hexa) j)) [0..<8]"

text \<open>The value the two integer conversions take from the arguments: \<open>long long\<close> for two \<open>l\<close>.\<close>

definition int_arg :: "nat \<Rightarrow> printf_arg list \<Rightarrow> print_error + int \<times> printf_arg list" where
  "int_arg l args =
     (case args of
        Int_arg w # rest \<Rightarrow> if l \<le> 1 then Inr (sint w, rest) else if l = 2 then Inl Bad_argument else Inl Uninitialised
      | Long_long_arg w # rest \<Rightarrow> if l = 2 then Inr (sint w, rest) else if l \<le> 1 then Inl Bad_argument else Inl Uninitialised
      | _ \<Rightarrow> if l \<le> 2 then Inl Bad_argument else Inl Uninitialised)"

definition uint_arg :: "nat \<Rightarrow> printf_arg list \<Rightarrow> print_error + u64 \<times> printf_arg list" where
  "uint_arg l args =
     (case args of
        Int_arg w # rest \<Rightarrow> if l \<le> 1 then Inr (ucast w, rest) else if l = 2 then Inl Bad_argument else Inl Uninitialised
      | Long_long_arg w # rest \<Rightarrow> if l = 2 then Inr (w, rest) else if l \<le> 1 then Inl Bad_argument else Inl Uninitialised
      | _ \<Rightarrow> if l \<le> 2 then Inl Bad_argument else Inl Uninitialised)"

text \<open>
  One conversion: the characters it prints, whether the code leaves the loop after it (\<open>break\<close> in the case of a
  single character) and the arguments left. The letter can be the NUL at the end of the format: the code prints it and
  goes on behind it, which \<open>after_letter\<close> answers by \<open>None\<close>.
\<close>

definition conversion :: "spec \<Rightarrow> char \<Rightarrow> printf_arg list \<Rightarrow> print_error + int list \<times> bool \<times> printf_arg list" where
  "conversion sp c args =
     (if c = CHR ''%'' then Inr ([37], False, args)
      else if c = CHR ''i'' \<or> c = CHR ''d'' then
        (if sp_u sp then Inr ([], False, args)
         else case int_arg (sp_l sp) args of
             Inl e \<Rightarrow> Inl e
           | Inr (integer, args') \<Rightarrow>
               (case int_text integer of Inl e \<Rightarrow> Inl e | Inr t \<Rightarrow> Inr (t, False, args')))
      else if c = CHR ''c'' then
        (case args of Int_arg w # args' \<Rightarrow> Inr ([schar (char_of (uint w))], True, args') | _ \<Rightarrow> Inl Bad_argument)
      else if c = CHR ''s'' then
        (case args of
           String_arg s # args' \<Rightarrow> Inr (map schar (case s of None \<Rightarrow> ''(null)'' | Some t \<Rightarrow> c_str t), False, args')
         | _ \<Rightarrow> Inl Bad_argument)
      else if c = CHR ''x'' then
        (case uint_arg (sp_l sp) args of
           Inl e \<Rightarrow> Inl e
         | Inr (hexa, args') \<Rightarrow> Inr (hex_text hexa, False, args'))
      else if c = CHR ''p'' then
        (case args of Int_arg w # args' \<Rightarrow> Inr (pointer_text w, False, args') | _ \<Rightarrow> Inl Bad_argument)
      else Inr ([37, schar c], False, args))"

definition letter :: "string \<Rightarrow> char" where
  "letter cs = (case cs of [] \<Rightarrow> NUL | c # _ \<Rightarrow> c)"

definition after_letter :: "string \<Rightarrow> string option" where
  "after_letter cs = (case cs of [] \<Rightarrow> None | c # rest \<Rightarrow> if c = NUL then None else Some rest)"

lemma parse_spec_shorter: "parse_spec sp cs = Inr (sp', rest) \<Longrightarrow> length rest \<le> length cs"
proof (induction cs arbitrary: sp)
  case (Cons c cs)
  have step: "parse_spec sp2 cs = Inr (sp', rest) \<Longrightarrow> length rest \<le> Suc (length cs)" for sp2
    using Cons.IH [of sp2] by simp
  show ?case using Cons.prems by (simp split: if_split_asm) (auto simp only: length_Cons le_refl dest!: step)
qed simp

lemma after_letter_shorter: "after_letter cs = Some rest \<Longrightarrow> length rest < length cs"
  by (cases cs) (simp_all add: after_letter_def split: if_splits)

function vcprintf_loop :: "'p putc \<Rightarrow> string \<Rightarrow> printf_arg list \<Rightarrow> int \<Rightarrow> 'p \<Rightarrow> print_error + 'p step" where
  "vcprintf_loop f [] args ret p = Inr (Going ret p)"
| "vcprintf_loop f (c # cs) args ret p =
     (if c = NUL then Inr (Going ret p)
      else if c \<noteq> CHR ''%'' then and_then (PUTCHAR f (schar c) ret p) (vcprintf_loop f cs args)
      else case parse_spec spec0 cs of
          Inl e \<Rightarrow> Inl e
        | Inr (sp, spec_end) \<Rightarrow>
            (case conversion sp (letter spec_end) args of
               Inl e \<Rightarrow> Inl e
             | Inr (t, stop, args') \<Rightarrow>
                 and_then (put_all f t ret p)
                   (\<lambda>ret' p'. if stop then Inr (Going ret' p')
                      else case after_letter spec_end of None \<Rightarrow> Inl Past_format | Some cs' \<Rightarrow> vcprintf_loop f cs' args' ret' p')))"
  by pat_completeness auto

termination
  by (relation "measure (\<lambda>(f, cs, args, ret, p). length cs)")
    (auto dest!: parse_spec_shorter after_letter_shorter)

declare vcprintf_loop.simps(2) [simp del]

definition vcprintf :: "'p putc \<Rightarrow> 'p \<Rightarrow> string option \<Rightarrow> printf_arg list \<Rightarrow> print_error + int \<times> 'p" where
  "vcprintf putc_fun p format ap =
     (case format of
        None \<Rightarrow> Inr (-1, p)
      | Some fmt \<Rightarrow>
          (case vcprintf_loop putc_fun fmt ap 0 p of
             Inl e \<Rightarrow> Inl e
           | Inr (Going ret p') \<Rightarrow> Inr (ret, p')
           | Inr (Returned ret p') \<Rightarrow> Inr (ret, p')))"

record vsnprintf_s =
  vs_buff :: string
  vs_len :: u32
  vs_i :: u32

definition vsnprintf_putc_fun :: "vsnprintf_s putc" where
  "vsnprintf_putc_fun c s =
     (if vs_i s < vs_len s - 1 then
        (if unat (vs_i s) < length (vs_buff s)
         then Inr (1, s\<lparr>vs_buff := (vs_buff s)[unat (vs_i s) := char_of c], vs_i := vs_i s + 1\<rparr>)
         else Inl Outside_buffer)
      else Inr (0, s))"

definition vsnprintf :: "string option \<Rightarrow> u32 \<Rightarrow> string option \<Rightarrow> printf_arg list \<Rightarrow> print_error + int \<times> string option" where
  "vsnprintf buff len format arg =
     (case (buff, format) of
        (Some b, Some fmt) \<Rightarrow>
          (case vcprintf vsnprintf_putc_fun \<lparr>vs_buff = b, vs_len = len, vs_i = 0\<rparr> (Some fmt) arg of
             Inl e \<Rightarrow> Inl e
           | Inr (ret, s) \<Rightarrow>
               if (word_of_int ret :: u32) \<noteq> vs_i s then Inl Return_assert
               else if unat (vs_i s) < length (vs_buff s)
                 then Inr (sint (vs_i s), Some ((vs_buff s)[unat (vs_i s) := NUL]))
                 else Inl Outside_buffer)
      | _ \<Rightarrow> Inr (-1, buff))"

definition snprintf :: "string option \<Rightarrow> u32 \<Rightarrow> string option \<Rightarrow> printf_arg list \<Rightarrow> print_error + int \<times> string option" where
  "snprintf buff len format arg = vsnprintf buff len format arg"

end
