(* ===== verification/Printf_Props.thy ===== *)
theory Printf_Props
  imports Printf
begin

text \<open>
  What printing does: whatever the callback, \<open>vcprintf\<close> feeds it the same text (\<open>text_of\<close>) until it stops; the
  bounded printing into a buffer is the unbounded one cut to the buffer; printed numbers can be read back.
\<close>

section \<open>The text does not depend on the callback\<close>

lemma and_then_simps [simp]:
  "and_then (Inl e) k = Inl e"
  "and_then (Inr (Going r p)) k = k r p"
  "and_then (Inr (Returned r p)) k = Inr (Returned r p)"
  by (simp_all add: and_then_def)

lemma and_then_assoc: "and_then (and_then r k) h = and_then r (\<lambda>x p. and_then (k x p) h)"
  by (cases r) (auto simp: and_then_def split: step.splits)

lemma and_then_put_nil [simp]: "and_then r (put_all f []) = r"
  by (cases r) (auto simp: and_then_def split: step.splits)

lemma put_all_append: "put_all f (xs @ ys) r p = and_then (put_all f xs r p) (put_all f ys)"
proof (induction xs arbitrary: r p)
  case (Cons x xs)
  then have "put_all f (xs @ ys) = (\<lambda>r p. and_then (put_all f xs r p) (put_all f ys))" by (intro ext)
  then show ?case by (simp add: and_then_assoc)
qed simp

text \<open>The reference: the whole text, and the error it ends with, if any.\<close>

definition prepend :: "int list \<Rightarrow> int list \<times> print_error option \<Rightarrow> int list \<times> print_error option" where
  "prepend t x = (t @ fst x, snd x)"

function text_of :: "string \<Rightarrow> printf_arg list \<Rightarrow> int list \<times> print_error option" where
  "text_of [] args = ([], None)"
| "text_of (c # cs) args =
     (if c = NUL then ([], None)
      else if c \<noteq> CHR ''%'' then prepend [schar c] (text_of cs args)
      else case parse_spec spec0 cs of
          Inl e \<Rightarrow> ([], Some e)
        | Inr (sp, spec_end) \<Rightarrow>
            (case conversion sp (letter spec_end) args of
               Inl e \<Rightarrow> ([], Some e)
             | Inr (t, stop, args') \<Rightarrow>
                 if stop then (t, None)
                 else case after_letter spec_end of None \<Rightarrow> (t, Some Past_format) | Some cs' \<Rightarrow> prepend t (text_of cs' args')))"
  by pat_completeness auto

termination
  by (relation "measure (\<lambda>(cs, args). length cs)") (auto dest!: parse_spec_shorter after_letter_shorter)

declare text_of.simps(2) [simp del]

definition feed :: "'p putc \<Rightarrow> int list \<times> print_error option \<Rightarrow> int \<Rightarrow> 'p \<Rightarrow> print_error + 'p step" where
  "feed f x ret p =
     and_then (put_all f (fst x) ret p) (\<lambda>r q. case snd x of None \<Rightarrow> Inr (Going r q) | Some e \<Rightarrow> Inl e)"

lemma feed_prepend: "feed f (prepend t x) r p = and_then (put_all f t r p) (feed f x)"
  unfolding feed_def prepend_def fst_conv snd_conv put_all_append and_then_assoc ..

lemma feed_simps:
  "feed f ([], None) r p = Inr (Going r p)"
  "feed f ([], Some e) r p = Inl e"
  "feed f (t, None) r p = and_then (put_all f t r p) (\<lambda>r q. Inr (Going r q))"
  "feed f (t, Some e) r p = and_then (put_all f t r p) (\<lambda>r q. Inl e)"
  by (simp_all add: feed_def)

lemma vcprintf_loop_feed: "vcprintf_loop f cs args ret p = feed f (text_of cs args) ret p"
proof (induction f cs args ret p rule: vcprintf_loop.induct)
  case (1 f args ret p)
  show ?case by (simp add: feed_simps)
next
  case (2 f c cs args ret p)
  show ?case
  proof (cases "c = NUL \<or> c \<noteq> CHR ''%''")
    case True
    then consider "c = NUL" | "c \<noteq> NUL" "c \<noteq> CHR ''%''" by metis
    then show ?thesis
    proof cases
      case 2
      then have "vcprintf_loop f cs args = feed f (text_of cs args)" using \<open>\<And>x xa. \<lbrakk>c \<noteq> NUL; c \<noteq> CHR ''%''\<rbrakk> \<Longrightarrow> vcprintf_loop f cs args x xa = feed f (text_of cs args) x xa\<close>
        by (intro ext)
      with 2 show ?thesis by (simp add: vcprintf_loop.simps(2) text_of.simps(2) feed_prepend)
    qed (simp add: vcprintf_loop.simps(2) text_of.simps(2) feed_simps)
  next
    case False
    then have c: "c \<noteq> NUL" "\<not> c \<noteq> CHR ''%''" by metis+
    note unf = vcprintf_loop.simps(2) [where f = f] text_of.simps(2)
    show ?thesis
    proof (cases "parse_spec spec0 cs")
      case (Inl e)
      then show ?thesis using c by (simp add: unf feed_simps)
    next
      case (Inr x)
      obtain sp se where x: "x = (sp, se)" by (cases x)
      show ?thesis
      proof (cases "conversion sp (letter se) args")
        case (Inl e)
        then show ?thesis using c Inr x by (simp add: unf feed_simps)
      next
        case (Inr y)
        obtain t stop args' where y: "y = (t, stop, args')" by (cases y) auto
        have ih: "vcprintf_loop f cs' args' r q = feed f (text_of cs' args') r q"
          if "\<not> stop" "after_letter se = Some cs'" for cs' r q
          using 2(2) [OF c \<open>parse_spec spec0 cs = Inr x\<close> x [symmetric] Inr _ _ that(1)] y that by auto
        show ?thesis
        proof (cases "stop \<or> after_letter se = None")
          case True
          then show ?thesis using c \<open>parse_spec spec0 cs = Inr x\<close> x Inr y
            by (cases stop) (simp_all add: unf feed_simps)
        next
          case False
          then obtain cs' where "\<not> stop" "after_letter se = Some cs'" by auto
          then have "vcprintf_loop f cs' args' = feed f (text_of cs' args')" using ih [of cs'] by (intro ext) simp
          then show ?thesis using c \<open>parse_spec spec0 cs = Inr x\<close> x Inr y \<open>\<not> stop\<close> \<open>after_letter se = Some cs'\<close>
            by (simp add: unf feed_prepend)
        qed
      qed
    qed
  qed
qed

definition step_result :: "'p step \<Rightarrow> int \<times> 'p" where
  "step_result x = (case x of Going r p \<Rightarrow> (r, p) | Returned r p \<Rightarrow> (r, p))"

lemma vcprintf_feed:
  "vcprintf f p (Some fmt) args =
     (case feed f (text_of fmt args) 0 p of Inl e \<Rightarrow> Inl e | Inr x \<Rightarrow> Inr (step_result x))"
  by (auto simp: vcprintf_def vcprintf_loop_feed step_result_def split: sum.split step.split)

section \<open>The unbounded printing\<close>

definition collect :: "int list putc" where
  "collect c out = Inr (1, out @ [c])"

lemma put_all_collect: "put_all collect t r out = Inr (Going (r + int (length t)) (out @ t))"
  by (induction t arbitrary: r out) (simp_all add: PUTCHAR_def collect_def)

lemma vcprintf_collect:
  "vcprintf collect [] (Some fmt) args =
     (case text_of fmt args of (t, None) \<Rightarrow> Inr (int (length t), t) | (t, Some e) \<Rightarrow> Inl e)"
  by (auto simp: vcprintf_feed feed_def put_all_collect step_result_def split: prod.split option.split)

section \<open>The bounded printing\<close>

definition room :: "vsnprintf_s \<Rightarrow> nat" where
  "room s = unat (vs_len s) - 1 - unat (vs_i s)"

definition cut_to :: "vsnprintf_s \<Rightarrow> int list \<Rightarrow> int \<Rightarrow> nat \<Rightarrow> vsnprintf_s step \<Rightarrow> bool" where
  "cut_to s t ret k x \<longleftrightarrow>
     fst (step_result x) = ret + int k \<and> vs_len (snd (step_result x)) = vs_len s \<and>
     unat (vs_i (snd (step_result x))) = unat (vs_i s) + k \<and>
     vs_buff (snd (step_result x)) = take (unat (vs_i s)) (vs_buff s) @ map char_of (take k t) @ drop (unat (vs_i s) + k) (vs_buff s)"

lemma put_all_buffer:
  assumes "unat (vs_len s) \<le> length (vs_buff s)" and "unat (vs_i s) < unat (vs_len s)"
  shows "\<exists>x. put_all vsnprintf_putc_fun t ret s = Inr x \<and> cut_to s t ret (min (length t) (room s)) x"
  using assms
proof (induction t arbitrary: ret s)
  case Nil
  then show ?case by (simp add: step_result_def cut_to_def)
next
  case (Cons c t)
  have len: "unat (vs_len s - 1) = unat (vs_len s) - 1" using Cons.prems(2) by (intro unat_minus_one) auto
  show ?case
  proof (cases "vs_i s < vs_len s - 1")
    case False
    then have "room s = 0" using len by (simp add: word_less_nat_alt room_def)
    moreover have "put_all vsnprintf_putc_fun (c # t) ret s = Inr (Returned ret s)"
      using False by (simp add: PUTCHAR_def vsnprintf_putc_fun_def)
    ultimately show ?thesis by (simp add: step_result_def cut_to_def)
  next
    case True
    then have i: "unat (vs_i s) < unat (vs_len s) - 1" using len by (simp add: word_less_nat_alt)
    then have il: "unat (vs_i s) < length (vs_buff s)" using Cons.prems(1) by linarith
    define s1 where "s1 = s\<lparr>vs_buff := (vs_buff s)[unat (vs_i s) := char_of c], vs_i := vs_i s + 1\<rparr>"
    have inc: "unat (vs_i s1) = Suc (unat (vs_i s))"
      using i unsigned_less [of "vs_len s", where 'a = nat] by (simp add: s1_def unat_word_ariths(1))
    have same: "vs_len s1 = vs_len s" "length (vs_buff s1) = length (vs_buff s)" by (simp_all add: s1_def)
    have "put_all vsnprintf_putc_fun (c # t) ret s = put_all vsnprintf_putc_fun t (ret + 1) s1"
      using True il by (simp add: PUTCHAR_def vsnprintf_putc_fun_def s1_def)
    moreover obtain x where x: "put_all vsnprintf_putc_fun t (ret + 1) s1 = Inr x"
        "cut_to s1 t (ret + 1) (min (length t) (room s1)) x"
    proof -
      have "unat (vs_i s1) < unat (vs_len s1)" unfolding same(1) inc using i by linarith
      then show ?thesis using Cons.IH [of s1 "ret + 1"] Cons.prems(1) same that by auto
    qed
    moreover have k: "min (length (c # t)) (room s) = Suc (min (length t) (room s1))"
      using i inc same by (simp add: room_def)
    have "take (unat (vs_i s1)) (vs_buff s1) = take (unat (vs_i s)) (vs_buff s) @ [char_of c]"
      using il inc by (simp add: s1_def take_Suc_conv_app_nth)
    moreover have "drop (unat (vs_i s1) + n) (vs_buff s1) = drop (unat (vs_i s1) + n) (vs_buff s)" for n
      using inc by (simp add: s1_def drop_update_cancel)
    ultimately have "cut_to s (c # t) ret (min (length (c # t)) (room s)) x"
      unfolding k using inc same by (simp add: cut_to_def)
    then show ?thesis using x(1) \<open>put_all vsnprintf_putc_fun (c # t) ret s = _\<close> by simp
  qed
qed

definition signed_ok :: "u32 \<Rightarrow> bool" where
  "signed_ok len \<longleftrightarrow> 0 < len \<and> unat len \<le> 2 ^ 31"

text \<open>C22: Bounded printing is the unbounded printing cut to the buffer: for every format and arguments that print
  \<open>out\<close> to a callback that takes everything, \<open>snprintf\<close> into a buffer of \<open>len\<close> characters writes the first
  \<open>len - 1\<close> of them, or all when they are fewer, and the NUL behind, leaves the rest of the memory as it is, answers the
  number of characters written, and its assertion holds.\<close>

theorem snprintf_truncates:
  assumes "vcprintf collect [] (Some fmt) args = Inr (n, out)" and "signed_ok len" and "unat len \<le> length b"
  shows "snprintf (Some b) len (Some fmt) args =
    (let k = min (length out) (unat len - 1) in Inr (int k, Some (map char_of (take k out) @ NUL # drop (Suc k) b)))"
proof -
  define k where "k = min (length out) (unat len - 1)"
  have t: "text_of fmt args = (out, None)"
    using assms(1) by (auto simp: vcprintf_collect split: prod.splits option.splits)
  define s where "s = \<lparr>vs_buff = b, vs_len = len, vs_i = 0\<rparr>"
  have pos: "0 < unat len" using assms(2) by (simp add: signed_ok_def unat_gt_0 word_neq_0_conv)
  obtain x where x: "put_all vsnprintf_putc_fun out 0 s = Inr x" "fst (step_result x) = int k"
      "unat (vs_i (snd (step_result x))) = k" "vs_buff (snd (step_result x)) = map char_of (take k out) @ drop k b"
    using put_all_buffer [of s out 0] assms(3) pos by (auto simp: s_def k_def cut_to_def room_def)
  have kb: "k < length b" "k < 2 ^ 31" using pos assms(2,3) by (auto simp: k_def signed_ok_def)
  have i: "vs_i (snd (step_result x)) = word_of_nat k" unfolding x(3) [symmetric] by simp
  have "feed vsnprintf_putc_fun (out, None) 0 s = Inr x"
    by (cases x) (simp_all add: feed_simps x(1))
  then have v: "vcprintf vsnprintf_putc_fun s (Some fmt) args = Inr (int k, snd (step_result x))"
    by (simp add: vcprintf_feed t) (metis prod.collapse x(2))
  have sk: "sint (word_of_nat k :: u32) = int k"
    using kb(2) by (simp add: sint_uint signed_take_bit_int_eq_self unsigned_of_nat take_bit_nat_eq_self)
  have upd: "(map char_of (take k out) @ drop k b)[k := NUL] = map char_of (take k out) @ NUL # drop (Suc k) b"
    using kb(1) by (simp add: k_def list_update_append Cons_nth_drop_Suc [symmetric])
  have "unat (word_of_nat k :: u32) = k" using x(3) i by simp
  moreover have "length (take k out) = k" by (simp add: k_def)
  ultimately show ?thesis
    unfolding Let_def k_def [symmetric] using kb(1)
    by (simp add: snprintf_def vsnprintf_def v [unfolded s_def] i sk x(4) upd)
qed

theorem snprintf_truncates_witness:
  "snprintf (Some ''........'') 4 (Some ''%d-'') [Int_arg (- 12)] = Inr (3, Some (''-12'' @ [NUL] @ ''....''))"
proof -
  have c: "vcprintf collect [] (Some ''%d-'') [Int_arg (- 12)] = Inr (4, [45, 49, 50, 45])"
    by (simp add: vcprintf_collect text_of.simps(2) letter_def after_letter_def conversion_def NUL_def spec0_def isdigit_def
        schar_def uchar_def int_arg_def int_text_def int_digits.simps BUFF_INT_SIZE_def prepend_def Let_def
        signed_divide_int_def signed_modulo_int_def)
  have "signed_ok 4" by (simp add: signed_ok_def)
  then show ?thesis using snprintf_truncates [OF c, of 4 "''........''"] by (simp add: char_of_def)
qed

section \<open>Numbers can be read back\<close>

definition read_nat :: "int list \<Rightarrow> int" where
  "read_nat ds = foldl (\<lambda>a d. a * 10 + (d - 48)) 0 ds"

definition read_int :: "int list \<Rightarrow> int" where
  "read_int t = (case t of [] \<Rightarrow> 0 | c # ds \<Rightarrow> if c = 45 then - read_nat ds else read_nat t)"

definition hex_value :: "int \<Rightarrow> int" where
  "hex_value c = (if c < 58 then c - 48 else c - 97 + 10)"

definition read_hex :: "int list \<Rightarrow> int" where
  "read_hex ds = foldl (\<lambda>a c. a * 16 + hex_value c) 0 ds"

lemma int_digits_value:
  "read_nat (rev (int_digits n)) = \<bar>n\<bar> \<and> (\<forall>d \<in> set (int_digits n). 48 \<le> d \<and> d \<le> 57) \<and> int_digits n \<noteq> []"
proof (induction n rule: int_digits.induct)
  case (1 n)
  define m where "m = \<bar>n\<bar> mod 10"
  have m: "(if n smod 10 < 0 then - (n smod 10) else n smod 10) = m" "0 \<le> m" "m \<le> 9"
    by (auto simp: signed_modulo_int_def m_def sgn_if abs_if)
  have q: "\<bar>n sdiv 10\<bar> = \<bar>n\<bar> div 10" by (simp add: signed_divide_int_def abs_mult sgn_if)
  have eq: "int_digits n = (48 + m) # (if n sdiv 10 \<noteq> 0 then int_digits (n sdiv 10) else [])"
    by (subst int_digits.simps) (simp add: m(1) Let_def)
  show ?case
  proof (cases "n sdiv 10 = 0")
    case True
    then show ?thesis using m q by (simp add: eq read_nat_def m_def)
  next
    case False
    then show ?thesis using 1 m q by (simp add: eq read_nat_def m_def)
  qed
qed

lemma int_digits_length: "\<bar>n\<bar> < 10 ^ k \<Longrightarrow> 0 < k \<Longrightarrow> length (int_digits n) \<le> k"
proof (induction k arbitrary: n)
  case (Suc k)
  have q: "\<bar>n sdiv 10\<bar> = \<bar>n\<bar> div 10" by (simp add: signed_divide_int_def abs_mult sgn_if)
  have eq: "length (int_digits n) = Suc (if n sdiv 10 \<noteq> 0 then length (int_digits (n sdiv 10)) else 0)"
    by (subst int_digits.simps) (simp add: Let_def)
  show ?case
  proof (cases "n sdiv 10 = 0")
    case False
    then have "0 < k" using Suc.prems q by (cases k) auto
    then show ?thesis using Suc.IH [of "n sdiv 10"] Suc.prems q False eq by auto
  qed (simp add: eq)
qed simp

lemma int_text_reads:
  assumes "\<bar>n\<bar> < 10 ^ k" and "0 < k" and "k \<le> 32"
  shows "\<exists>t. int_text n = Inr t \<and> read_int t = n \<and> length t \<le> Suc k"
proof -
  have l: "length (int_digits n) \<le> k" by (rule int_digits_length [OF assms(1,2)])
  obtain d ds where r: "rev (int_digits n) = d # ds" using int_digits_value [of n] by (cases "rev (int_digits n)") auto
  then have "d \<in> set (int_digits n)" by (metis list.set_intros(1) set_rev)
  then have "d \<noteq> 45" using int_digits_value [of n] by auto
  moreover have "read_nat (d # ds) = \<bar>n\<bar>" using int_digits_value [of n] r by simp
  moreover have "int_text n = Inr ((if n < 0 then [45] else []) @ d # ds)"
    using l assms(3) by (simp add: int_text_def BUFF_INT_SIZE_def r Let_def)
  moreover have "length (d # ds) \<le> k" using l r by (metis length_rev)
  ultimately show ?thesis by (cases "n < 0") (auto simp: read_int_def)
qed

lemma nibble_value:
  assumes "j < 8"
  shows "uint (nibble w j) = uint (ucast w :: u32) div 16 ^ (7 - j) mod 16"
proof -
  define v where "v = (ucast w :: u32)"
  have e: "(16::int) ^ (7 - j) = 2 ^ (28 - 4 * j)"
  proof -
    have "28 - 4 * j = 4 * (7 - j)" using assms by simp
    then show ?thesis by (simp add: power_mult)
  qed
  have "nibble w j = take_bit 4 (drop_bit 28 (push_bit (j * 4) v))"
  proof -
    have "(ucast (push_bit (j * 4) w) :: u32) = push_bit (j * 4) v"
      unfolding v_def by (rule bit_word_eqI) (auto simp: bit_simps)
    moreover have "x AND 0xf = take_bit 4 x" for x :: u32
      by (simp add: take_bit_eq_mask mask_eq_exp_minus_1)
    ultimately show ?thesis by (simp add: nibble_def)
  qed
  moreover have "take_bit 4 (drop_bit 28 (push_bit (j * 4) v)) = take_bit 4 (drop_bit (28 - 4 * j) v)"
    using assms by (intro bit_word_eqI) (auto simp: bit_simps; auto simp: algebra_simps)
  moreover have "take_bit 32 (uint v) = uint v" using unsigned_less [of v, where 'a = int] by (simp add: take_bit_int_eq_self)
  ultimately have "uint (nibble w j) = take_bit 4 (drop_bit (28 - 4 * j) (uint v))"
    by (simp add: unsigned_take_bit_eq unsigned_drop_bit_eq)
  then show ?thesis by (simp add: take_bit_eq_mod drop_bit_eq_div e v_def)
qed

lemma ucast_up_down [simp]: "(ucast (ucast (v :: u32) :: u64) :: u32) = v"
  by (rule bit_word_eqI) (auto simp: bit_simps)

lemma nibble_less: "nibble w j < 16"
proof -
  have "nibble w j \<le> 0xf" unfolding nibble_def by (rule word_and_le1)
  then show ?thesis by (simp add: word_le_nat_alt word_less_nat_alt)
qed

lemma hex_char_value: "nb < 16 \<Longrightarrow> hex_value (hex_char nb) = uint nb"
  by (auto simp: hex_value_def hex_char_def word_less_def)

abbreviation push_nibble :: "u64 \<Rightarrow> int \<Rightarrow> nat \<Rightarrow> int" where
  "push_nibble w a j \<equiv> a * 16 + uint (nibble w j)"

lemma nibbles_value: "k \<le> 8 \<Longrightarrow> foldl (push_nibble w) 0 [0..<k] = uint (ucast w :: u32) div 16 ^ (8 - k)"
proof (induction k)
  case 0
  have "uint (ucast w :: u32) < 16 ^ 8" using unsigned_less [of "ucast w :: u32", where 'a = int] by simp
  then show ?case by simp
next
  case (Suc k)
  define v where "v = uint (ucast w :: u32)"
  have "8 - k = Suc (7 - k)" using Suc.prems by simp
  then have e: "(16::int) ^ (8 - k) = 16 ^ (7 - k) * 16" by simp
  have "foldl (push_nibble w) 0 [0..<Suc k] = v div 16 ^ (8 - k) * 16 + v div 16 ^ (7 - k) mod 16"
    using Suc nibble_value [of k w] by (simp add: v_def)
  also have "\<dots> = v div 16 ^ (7 - k)"
    unfolding e by (simp add: zdiv_zmult2_eq)
  finally show ?case by (simp add: v_def)
qed

lemma hex_loop_value:
  "had \<or> a = 0 \<Longrightarrow> foldl (\<lambda>a c. a * 16 + hex_value c) a (hex_loop js had w) = foldl (push_nibble w) a js"
proof (induction js had w arbitrary: a rule: hex_loop.induct)
  case (1 had w)
  then show ?case by (auto simp: hex_value_def)
next
  case (2 j js had w)
  moreover have "hex_value 48 = 0" by (simp add: hex_value_def)
  ultimately show ?case by (auto simp: Let_def hex_char_value nibble_less)
qed

lemma hex_loop_length: "length (hex_loop js had w) \<le> length js + (if had \<or> js \<noteq> [] then 0 else 1)"
  by (induction js had w rule: hex_loop.induct) (auto simp: Let_def split: if_splits)

lemma hex_text_reads: "read_hex (hex_text w) = uint (ucast w :: u32)" "length (hex_text w) \<le> 8"
  using hex_loop_value [of False 0 "[0..<8]" w] nibbles_value [of 8 w] hex_loop_length [of "[0..<8]" False w]
  by (simp_all add: read_hex_def hex_text_def)

lemma pointer_text_reads: "read_hex (pointer_text v) = uint v" "length (pointer_text v) = 8"
proof -
  have "foldl (\<lambda>a c. a * 16 + hex_value c) a (map (\<lambda>j. hex_char (nibble w j)) js) = foldl (push_nibble w) a js" for a w js
    by (induction js arbitrary: a) (simp_all add: hex_char_value nibble_less)
  then show "read_hex (pointer_text v) = uint v"
    using nibbles_value [of 8 "ucast v"] by (simp add: read_hex_def pointer_text_def)
qed (simp add: pointer_text_def)

lemma one_conversion:
  assumes "parse_spec spec0 cs = Inr (sp, [c])" and "conversion sp c args = Inr (t, stop, args')" and "c \<noteq> NUL"
  shows "vcprintf collect [] (Some (CHR ''%'' # cs)) args = Inr (int (length t), t)"
  using assms by (simp add: vcprintf_collect text_of.simps(2) letter_def after_letter_def prepend_def NUL_def)


section \<open>Where the code leaves its specification\<close>

text \<open>A format that ends in a percent sign is read beyond its end; what follows a \<open>%c\<close> is never printed; a
  \<open>%llx\<close> prints the low half of its argument only; and a buffer of length zero is written to.\<close>

lemma printf_percent_at_end: "vcprintf collect [] (Some ''%'') args = Inl Past_format"
  by (simp add: vcprintf_collect text_of.simps(2) letter_def after_letter_def conversion_def NUL_def spec0_def)

lemma printf_stops_after_char:
  "vcprintf collect [] (Some (CHR ''%'' # CHR ''c'' # rest)) (Int_arg 65 # args) = Inr (1, [65])"
  by (simp add: vcprintf_collect text_of.simps(2) letter_def after_letter_def conversion_def NUL_def spec0_def isdigit_def
      schar_def uchar_def)

lemma printf_long_hex_cut: "hex_text w = hex_text (ucast (ucast w :: u32))"
proof -
  have "nibble w j = nibble (ucast (ucast w :: u32)) j" if "j < 8" for j
    using nibble_value [OF that, of w] nibble_value [OF that, of "ucast (ucast w :: u32)"]
    by (simp add: word_uint_eq_iff)
  then have "hex_loop js b w = hex_loop js b (ucast (ucast w :: u32))" if "\<forall>j \<in> set js. j < 8" for js b
    using that by (induction js arbitrary: b) (simp_all add: Let_def)
  then show ?thesis by (simp add: hex_text_def)
qed

lemma snprintf_zero_length: "snprintf (Some []) 0 (Some []) args = Inl Outside_buffer"
  by (simp add: snprintf_def vsnprintf_def vcprintf_def)

end
