(* ===== verification/Process.thy ===== *)
theory Process
  imports Btree Pager Paging Vfs
begin

text \<open>
  Processes (src/kernel/user/process.c, src/kernel/include/process.h): the state of the kernel that a process
  owns parts of, its memory regions, and the faults of its pages.

  The state puts together the components a process uses: the pagers and their environment, the address spaces, the
  virtual file system and the heap. What they share is kept once: the frames in the address spaces, the state of the
  drivers in the file system, the heap in \<open>k_heap\<close>; \<open>on_pager\<close>, \<open>on_paging\<close> and \<open>on_vfs\<close> hand it over and take
  it back. The scheduler is called for its effect on threads only: its calls are recorded in \<open>k_log\<close>.

  A process whose lock is found taken is locked by the running thread itself. A C \<open>int\<close> is a word of 32 bits,
  read with its sign where it is compared.
\<close>

section \<open>Constants\<close>


definition PS_LOADING :: u32 where "PS_LOADING = 1"
definition PS_RUNNING :: u32 where "PS_RUNNING = 2"
definition PS_FINISHED :: u32 where "PS_FINISHED = 3"
definition PS_FAILURE :: u32 where "PS_FAILURE = 4"
definition PS_KILLED :: u32 where "PS_KILLED = 5"

definition FAIL_EXCEPTION :: u32 where "FAIL_EXCEPTION = 1"
definition FAIL_ZEROPTR :: u32 where "FAIL_ZEROPTR = 2"
definition FAIL_SEGFAULT :: u32 where "FAIL_SEGFAULT = 3"
definition FAIL_SC_SEGFAULT :: u32 where "FAIL_SC_SEGFAULT = 4"

definition USERSTACK_ADDR :: u32 where "USERSTACK_ADDR = 0xB8000000"
definition USERSTACK_SIZE :: u32 where "USERSTACK_SIZE = 0x00020000"

definition PF_PRESENT_BIT :: u32 where "PF_PRESENT_BIT = 1"
definition PF_WRITE_BIT :: u32 where "PF_WRITE_BIT = 2"
definition PTE_ACCESSED :: u32 where "PTE_ACCESSED = 32"
definition PTE_DIRTY :: u32 where "PTE_DIRTY = 64"


lemmas ps_states = PS_LOADING_def PS_RUNNING_def PS_FINISHED_def PS_FAILURE_def PS_KILLED_def

section \<open>State\<close>

record user_region =
  ur_proc :: nat
  ur_addr :: u32
  ur_size :: u32
  ur_file :: "nat option"
  ur_pager :: nat
  ur_offset :: u32
  ur_own_pager :: bool
  ur_mode :: u16

text \<open>The lists linked through \<open>next_in_proc\<close> and \<open>next_child\<close> are lists of addresses; a null table is \<open>None\<close>.\<close>

record process =
  p_pd :: "nat option"
  p_regions :: "nat list"
  p_regions_idx :: "(u32, nat) btree option"
  p_filesystems :: "(string, nat) hashtbl option"
  p_files :: "(u32, nat) hashtbl option"
  p_next_fd :: u32
  p_threads :: "nat list"
  p_pid :: u32
  p_status :: u32
  p_exit_code :: u32
  p_parent :: "nat option"
  p_children :: "nat list"
  p_locked :: bool

text \<open>What a waiting thread waits on: the list of children of a process, or a process.\<close>

datatype wait_object = Children_of nat | Process_at nat

datatype sched_event =
    Start_thread nat u32 u32
  | Kill_thread nat
  | Delete_thread nat
  | Resume_on wait_object
  | Push_exit_task nat u32 u32

text \<open>\<open>k_threads\<close> gives the process of a thread, \<open>k_stacks\<close> whether the next threads can be allocated (an
  exhausted list answers "yes"), \<open>k_current\<close> the process of the running thread; \<open>k_junk\<close> and \<open>k_junk_proc\<close> are what the
  fields \<open>pager\<close> and \<open>proc\<close> of a newly allocated region read as before they are set.\<close>

record 's ksys =
  k_procs :: "nat \<Rightarrow> process option"
  k_regions :: "nat \<Rightarrow> user_region option"
  k_pagers :: "nat \<Rightarrow> pager option"
  k_next :: nat
  k_next_pid :: u32
  k_heap :: heap
  k_env :: "'s pager_env"
  k_paging :: paging
  k_vfs :: "'s vfs"
  k_threads :: "nat \<Rightarrow> nat option"
  k_stacks :: "bool list"
  k_log :: "sched_event list"
  k_current :: "nat option"
  k_junk :: "nat option"
  k_junk_proc :: nat

text \<open>What does not change: the addresses of the kernel image and the code of the drivers.\<close>

record 's world =
  w_image :: image
  w_pager_ops :: "nat \<Rightarrow> 's vfs_pager_ops"
  w_code :: "'s code"

section \<open>The components below\<close>

definition pager_env :: "'s ksys \<Rightarrow> 's pager_env" where
  "pager_env s = (k_env s)\<lparr>pe_frames := pg_frames (k_paging s), pe_heap := k_heap s, pe_dev := v_dev (k_vfs s)\<rparr>"

definition put_env :: "'s pager_env \<Rightarrow> 's ksys \<Rightarrow> 's ksys" where
  "put_env e s = s\<lparr>k_env := e, k_paging := (k_paging s)\<lparr>pg_frames := pe_frames e\<rparr>, k_heap := pe_heap e,
                   k_vfs := (k_vfs s)\<lparr>v_dev := pe_dev e\<rparr>\<rparr>"

definition set_pager :: "nat \<Rightarrow> pager \<Rightarrow> 's ksys \<Rightarrow> 's ksys" where
  "set_pager a q s = s\<lparr>k_pagers := (k_pagers s)(a \<mapsto> q)\<rparr>"

definition on_pager :: "nat \<Rightarrow> ('s pstate \<Rightarrow> ('r \<times> 's pstate) res) \<Rightarrow> 's ksys \<Rightarrow> ('r \<times> 's ksys) res" where
  "on_pager a f s =
     rbind (deref (k_pagers s) a) (\<lambda>q. rbind (f (q, pager_env s)) (\<lambda>(r, q', e).
       Inr (r, set_pager a q' (put_env e s))))"

definition free_pager :: "'s world \<Rightarrow> nat \<Rightarrow> 's ksys \<Rightarrow> 's ksys res" where
  "free_pager W a s =
     rbind (deref (k_pagers s) a) (\<lambda>q. rbind (delete_pager (w_pager_ops W) (q, pager_env s)) (\<lambda>e.
       (let s1 = put_env e s in Inr (s1\<lparr>k_pagers := (k_pagers s1)(a := None)\<rparr>))))"

definition on_paging :: "(paging \<Rightarrow> ('r \<times> paging) res) \<Rightarrow> 's ksys \<Rightarrow> ('r \<times> 's ksys) res" where
  "on_paging f s =
     rbind (f ((k_paging s)\<lparr>pg_heap := k_heap s\<rparr>)) (\<lambda>(r, g). Inr (r, s\<lparr>k_paging := g, k_heap := pg_heap g\<rparr>))"

definition on_space :: "(paging \<Rightarrow> paging res) \<Rightarrow> 's ksys \<Rightarrow> 's ksys res" where
  "on_space f s = rbind (on_paging (\<lambda>g. rbind (f g) (\<lambda>g1. Inr ((), g1))) s) (\<lambda>(_, s1). Inr s1)"

definition on_vfs :: "('s vfs \<Rightarrow> 's vfs res) \<Rightarrow> 's ksys \<Rightarrow> 's ksys res" where
  "on_vfs f s =
     rbind (f ((k_vfs s)\<lparr>v_heap := k_heap s\<rparr>)) (\<lambda>v. Inr (s\<lparr>k_vfs := v, k_heap := v_heap v\<rparr>))"

definition set_proc :: "nat \<Rightarrow> process \<Rightarrow> 's ksys \<Rightarrow> 's ksys" where
  "set_proc p pr s = s\<lparr>k_procs := (k_procs s)(p \<mapsto> pr)\<rparr>"

definition set_region :: "nat \<Rightarrow> user_region \<Rightarrow> 's ksys \<Rightarrow> 's ksys" where
  "set_region a r s = s\<lparr>k_regions := (k_regions s)(a \<mapsto> r)\<rparr>"

definition lock_proc :: "nat \<Rightarrow> 's ksys \<Rightarrow> 's ksys res" where
  "lock_proc p s =
     rbind (deref (k_procs s) p) (\<lambda>pr.
       if p_locked pr then Inl Self_deadlock else Inr (set_proc p (pr\<lparr>p_locked := True\<rparr>) s))"

definition unlock_proc :: "nat \<Rightarrow> 's ksys \<Rightarrow> 's ksys res" where
  "unlock_proc p s = rbind (deref (k_procs s) p) (\<lambda>pr. Inr (set_proc p (pr\<lparr>p_locked := False\<rparr>) s))"

definition change_proc :: "(process \<Rightarrow> process) \<Rightarrow> nat \<Rightarrow> 's ksys \<Rightarrow> 's ksys res" where
  "change_proc f p s = rbind (deref (k_procs s) p) (\<lambda>pr. Inr (set_proc p (f pr) s))"

definition free_mem :: "'s ksys \<Rightarrow> 's ksys" where
  "free_mem s = s\<lparr>k_heap := heap_free (k_heap s)\<rparr>"

section \<open>Memory regions\<close>

text \<open>The lock is taken and given back around the search.\<close>

definition find_user_region :: "nat \<Rightarrow> u32 \<Rightarrow> 's ksys \<Rightarrow> nat option res" where
  "find_user_region p addr s =
     rbind (deref (k_procs s) p) (\<lambda>pr.
       if p_locked pr then Inl Self_deadlock
       else (case p_regions_idx pr of
               None \<Rightarrow> Inr None
             | Some idx \<Rightarrow>
                 (case btree_lower idx addr of
                    None \<Rightarrow> Inr None
                  | Some (_, a) \<Rightarrow>
                      rbind (deref (k_regions s) a) (\<lambda>r. rbind (rassert (addr \<ge> ur_addr r)) (\<lambda>_.
                        Inr (if addr \<ge> ur_addr r + ur_size r then None else Some a))))))"

definition bad_range :: "u32 \<Rightarrow> u32 \<Rightarrow> bool" where
  "bad_range addr sz \<longleftrightarrow>
     addr \<ge> K_HIGHHALF_ADDR \<or> addr + sz > K_HIGHHALF_ADDR \<or> addr + sz \<le> addr \<or> sz = 0"

definition region_map :: "user_region \<Rightarrow> user_map" where
  "region_map r = \<lparr>um_proc = ur_proc r, um_addr = ur_addr r, um_offset = ur_offset r\<rparr>"

text \<open>The ends of \<open>mmap\<close> and \<open>mmap_file\<close>: on an error (\<open>pa\<close> is the field \<open>pager\<close> of the region that is given up), and
  with the region \<open>r\<close> at \<open>a\<close>.\<close>

definition mmap_error :: "'s world \<Rightarrow> nat \<Rightarrow> nat option \<Rightarrow> 's ksys \<Rightarrow> (bool \<times> 's ksys) res" where
  "mmap_error W p pa s =
     rbind (case pa of None \<Rightarrow> Inr s | Some q \<Rightarrow> free_pager W q s) (\<lambda>s1.
     rbind (unlock_proc p (free_mem s1)) (\<lambda>s2. Inr (False, s2)))"

definition mmap_end :: "nat \<Rightarrow> nat \<Rightarrow> user_region \<Rightarrow> 's ksys \<Rightarrow> (bool \<times> 's ksys) res" where
  "mmap_end p a r s =
     rbind (change_proc (\<lambda>pr. pr\<lparr>p_regions := a # p_regions pr\<rparr>) p (set_region a r s)) (\<lambda>s1.
     rbind (on_pager (ur_pager r) (\<lambda>(q, e). rbind (pager_add_map (region_map r) q) (\<lambda>q1. Inr ((), q1, e))) s1) (\<lambda>(_, s2).
     rbind (unlock_proc p s2) (\<lambda>s3. Inr (True, s3))))"

text \<open>The pager and the entry in the index of the region at \<open>a\<close>, with the process locked.\<close>

definition mmap_locked :: "'s world \<Rightarrow> nat \<Rightarrow> nat \<Rightarrow> u32 \<Rightarrow> u32 \<Rightarrow> u32 \<Rightarrow> 's ksys \<Rightarrow> (bool \<times> 's ksys) res" where
  "mmap_locked W p a addr sz mode s =
     rbind (deref (k_procs s) p) (\<lambda>pr.
       case p_regions_idx pr of
         None \<Rightarrow> mmap_error W p (k_junk s) s
       | Some idx \<Rightarrow>
           (case new_swap_pager sz False (k_heap s) of
              (None, h) \<Rightarrow> mmap_error W p None (s\<lparr>k_heap := h\<rparr>)
            | (Some q, h) \<Rightarrow>
                (let pa = k_next s
                 in case btree_add h idx addr a of (add_ok, idx', h') \<Rightarrow>
                      (let s1 = set_proc p (pr\<lparr>p_regions_idx := Some idx'\<rparr>)
                                  (set_pager pa q (s\<lparr>k_heap := h', k_next := pa + 1\<rparr>))
                       in if \<not> add_ok then mmap_error W p (Some pa) s1
                          else mmap_end p a
                                 \<lparr>ur_proc = p, ur_addr = addr, ur_size = sz, ur_file = None, ur_pager = pa,
                                  ur_offset = 0, ur_own_pager = True, ur_mode = ucast mode\<rparr> s1))))"

definition mmap :: "'s world \<Rightarrow> nat \<Rightarrow> u32 \<Rightarrow> u32 \<Rightarrow> u32 \<Rightarrow> 's ksys \<Rightarrow> (bool \<times> 's ksys) res" where
  "mmap W p addr sz mode s =
     rbind (find_user_region p addr s) (\<lambda>r.
       if r \<noteq> None then Inr (False, s)
       else if addr AND NOT PAGE_MASK \<noteq> 0 then Inr (False, s)
       else if bad_range addr sz then Inr (False, s)
       else (case heap_malloc (k_heap s) of (ok, h) \<Rightarrow>
         if \<not> ok then Inr (False, s\<lparr>k_heap := h\<rparr>)
         else rbind (lock_proc p (s\<lparr>k_heap := h, k_next := k_next s + 1\<rparr>)) (mmap_locked W p (k_next s) addr sz mode)))"

definition mmap_file_locked ::
  "'s world \<Rightarrow> nat \<Rightarrow> nat \<Rightarrow> nat \<Rightarrow> nat \<Rightarrow> u32 \<Rightarrow> u32 \<Rightarrow> u32 \<Rightarrow> u32 \<Rightarrow> 's ksys \<Rightarrow> (bool \<times> 's ksys) res" where
  "mmap_file_locked W p a h pa offset addr sz mode s =
     rbind (deref (k_procs s) p) (\<lambda>pr.
       case p_regions_idx pr of
         None \<Rightarrow> mmap_error W p None s
       | Some idx \<Rightarrow>
           (case btree_add (k_heap s) idx addr a of (add_ok, idx', h') \<Rightarrow>
              (let s1 = set_proc p (pr\<lparr>p_regions_idx := Some idx'\<rparr>) (s\<lparr>k_heap := h'\<rparr>)
               in if \<not> add_ok then mmap_error W p None s1
                  else rbind (on_vfs (ref_file h) s1) (\<lambda>s2.
                    mmap_end p a
                      \<lparr>ur_proc = k_junk_proc s2, ur_addr = addr, ur_size = sz, ur_file = Some h, ur_pager = pa,
                       ur_offset = offset, ur_own_pager = False, ur_mode = ucast mode\<rparr> s2))))"

definition mmap_file ::
  "'s world \<Rightarrow> nat \<Rightarrow> nat \<Rightarrow> u32 \<Rightarrow> u32 \<Rightarrow> u32 \<Rightarrow> u32 \<Rightarrow> 's ksys \<Rightarrow> (bool \<times> 's ksys) res" where
  "mmap_file W p h offset addr sz mode s =
     rbind (find_user_region p addr s) (\<lambda>r.
       if r \<noteq> None then Inr (False, s)
       else if addr AND NOT PAGE_MASK \<noteq> 0 then Inr (False, s)
       else if offset AND NOT PAGE_MASK \<noteq> 0 then Inr (False, s)
       else rbind (on_file h (k_vfs s)) (\<lambda>(fh, n).
         if \<not> has_flag (fh_mode fh) FM_MMAP \<or> \<not> has_flag (fh_mode fh) FM_READ then Inr (False, s)
         else if has_flag mode MM_WRITE \<and> \<not> has_flag (fh_mode fh) FM_WRITE then Inr (False, s)
         else (case fn_pager n of
                 None \<Rightarrow> Inl Assert_failed
               | Some pa \<Rightarrow>
                   if bad_range addr sz then Inr (False, s)
                   else (case heap_malloc (k_heap s) of (ok, hp) \<Rightarrow>
                     if \<not> ok then Inr (False, s\<lparr>k_heap := hp\<rparr>)
                     else rbind (lock_proc p (s\<lparr>k_heap := hp, k_next := k_next s + 1\<rparr>))
                            (mmap_file_locked W p (k_next s) h pa offset addr sz mode)))))"

text \<open>A loop over the pages of a region in the address space of the process.\<close>

definition in_space_of :: "nat \<Rightarrow> ('s ksys \<Rightarrow> 's ksys res) \<Rightarrow> 's ksys \<Rightarrow> 's ksys res" where
  "in_space_of p f s =
     (let save = get_current_pagedir (k_paging s)
      in rbind (deref (k_procs s) p) (\<lambda>pr.
           case p_pd pr of
             None \<Rightarrow> Inl Bad_access
           | Some pd \<Rightarrow>
               rbind (on_space (switch_pagedir pd) s) (\<lambda>s1. rbind (f s1) (on_space (switch_pagedir save)))))"

definition mchmap_page :: "'s world \<Rightarrow> bool \<Rightarrow> u32 \<Rightarrow> 's ksys \<Rightarrow> 's ksys res" where
  "mchmap_page W should_w it s =
     rbind (on_paging (pd_get_entry (w_image W) it) s) (\<lambda>(ent, s1).
     rbind (on_paging (pd_get_frame (w_image W) it) s1) (\<lambda>(frame, s2).
       if present ent \<and> (ent AND PTE_RW \<noteq> 0) \<noteq> should_w
       then rbind (on_paging (pd_map_page (w_image W) it frame should_w) s2) (\<lambda>(_, s3). Inr s3)
       else Inr s2))"

definition mchmap :: "'s world \<Rightarrow> nat \<Rightarrow> u32 \<Rightarrow> u32 \<Rightarrow> 's ksys \<Rightarrow> (bool \<times> 's ksys) res" where
  "mchmap W p addr mode s =
     rbind (find_user_region p addr s) (\<lambda>x.
       case x of
         None \<Rightarrow> Inr (False, s)
       | Some a \<Rightarrow>
           rbind (deref (k_regions s) a) (\<lambda>r.
           rbind (case ur_file r of
                    None \<Rightarrow> Inr True
                  | Some h \<Rightarrow> rbind (deref (v_files (k_vfs s)) h) (\<lambda>fh.
                      Inr (\<not> (has_flag mode MM_WRITE \<and> \<not> has_flag (fh_mode fh) FM_WRITE)))) (\<lambda>allowed.
             if \<not> allowed then Inr (False, s)
             else
               rbind (lock_proc p s) (\<lambda>s1.
               rbind (in_space_of p (\<lambda>s2. rbind (page_range (ur_addr r) (ur_size r)) (\<lambda>ps.
                        each_page (mchmap_page W (has_flag mode MM_WRITE)) ps s2))
                      (set_region a (r\<lparr>ur_mode := ucast mode\<rparr>) s1)) (\<lambda>s3.
               rbind (unlock_proc p s3) (\<lambda>s4. Inr (True, s4)))))))"

definition munmap_page :: "'s world \<Rightarrow> user_region \<Rightarrow> u32 \<Rightarrow> 's ksys \<Rightarrow> 's ksys res" where
  "munmap_page W r it s =
     rbind (on_paging (pd_get_entry (w_image W) it) s) (\<lambda>(ent, s1).
       if present ent then
         rbind (on_pager (ur_pager r) (\<lambda>st.
             rbind (pager_access (it - ur_addr r + ur_offset r) PAGE_SIZE (ent AND PTE_ACCESSED \<noteq> 0) (ent AND PTE_DIRTY \<noteq> 0) st)
               (\<lambda>st1. Inr ((), st1))) s1) (\<lambda>(_, s2).
         on_space (pd_unmap_page (w_image W) it) s2)
       else Inr s1)"

definition munmap_inner :: "'s world \<Rightarrow> nat \<Rightarrow> nat \<Rightarrow> 's ksys \<Rightarrow> 's ksys res" where
  "munmap_inner W p a s =
     rbind (deref (k_regions s) a) (\<lambda>r. rbind (deref (k_procs s) p) (\<lambda>pr.
       case p_regions_idx pr of
         None \<Rightarrow> Inl Bad_access
       | Some idx \<Rightarrow>
           rbind (btree_remove_v (k_heap s) idx (ur_addr r) a) (\<lambda>(_, idx', h).
           rbind (in_space_of p (\<lambda>s2. rbind (page_range (ur_addr r) (ur_size r)) (\<lambda>ps. each_page (munmap_page W r) ps s2))
                  (set_proc p (pr\<lparr>p_regions := remove1 a (p_regions pr), p_regions_idx := Some idx'\<rparr>) (s\<lparr>k_heap := h\<rparr>)))
             (\<lambda>s3.
           rbind (on_pager (ur_pager r) (\<lambda>(q, e). rbind (pager_rm_map (region_map r) q) (\<lambda>q1. Inr ((), q1, e))) s3) (\<lambda>(_, s4).
           rbind (case ur_file r of None \<Rightarrow> Inr s4 | Some h \<Rightarrow> on_vfs (unref_file (w_code W) h) s4) (\<lambda>s5.
           rbind (if ur_own_pager r then free_pager W (ur_pager r) s5 else Inr s5) (\<lambda>s6.
             Inr (free_mem (s6\<lparr>k_regions := (k_regions s6)(a := None)\<rparr>)))))))))"

definition munmap :: "'s world \<Rightarrow> nat \<Rightarrow> u32 \<Rightarrow> 's ksys \<Rightarrow> (bool \<times> 's ksys) res" where
  "munmap W p addr s =
     rbind (find_user_region p addr s) (\<lambda>x.
       case x of
         None \<Rightarrow> Inr (False, s)
       | Some a \<Rightarrow> rbind (lock_proc p s) (\<lambda>s1. rbind (munmap_inner W p a s1) (\<lambda>s2.
                   rbind (unlock_proc p s2) (\<lambda>s3. Inr (True, s3)))))"

section \<open>Leaving a process, page faults and accesses of the kernel\<close>

text \<open>\<open>current_process_exit\<close> does not return: a task that ends the process is left to the workers. An operation of a
  process therefore either returns or exits. (When the task cannot be allocated, it is tried again.)\<close>

datatype 'a outcome = Returns 'a | Exits u32 u32

definition current_process_exit :: "u32 \<Rightarrow> u32 \<Rightarrow> 's ksys \<Rightarrow> ('a outcome \<times> 's ksys) res" where
  "current_process_exit status exit_code s =
     (case k_current s of
        None \<Rightarrow> Inl Bad_access
      | Some p \<Rightarrow> Inr (Exits status exit_code, s\<lparr>k_log := k_log s @ [Push_exit_task p status exit_code]\<rparr>))"

definition proc_user_exception :: "'s ksys \<Rightarrow> (unit outcome \<times> 's ksys) res" where
  "proc_user_exception s = current_process_exit PS_FAILURE FAIL_EXCEPTION s"

text \<open>The loops that wait for memory: \<open>others\<close> is what the other threads do each time the thread sleeps in
  \<open>free_some_memory\<close>; when it ends, the thread still waits (\<open>None\<close>).\<close>

fun wait_frame :: "'s world \<Rightarrow> ('s ksys \<Rightarrow> 's ksys) list \<Rightarrow> nat \<Rightarrow> u32 \<Rightarrow> 's ksys \<Rightarrow> ((nat \<times> ('s ksys \<Rightarrow> 's ksys) list) option \<times> 's ksys) res" where
  "wait_frame W others q off s =
     rbind (on_pager q (pager_get_frame (w_pager_ops W) off) s) (\<lambda>(f, s1).
       if f \<noteq> 0 then Inr (Some (f, others), s1)
       else (case others of [] \<Rightarrow> Inr (None, s1) | g # rest \<Rightarrow> wait_frame W rest q off (g s1)))"

fun wait_map :: "'s world \<Rightarrow> ('s ksys \<Rightarrow> 's ksys) list \<Rightarrow> u32 \<Rightarrow> nat \<Rightarrow> bool \<Rightarrow> 's ksys \<Rightarrow> (bool \<times> 's ksys) res" where
  "wait_map W others addr f rw s =
     rbind (on_paging (pd_map_page (w_image W) addr f rw) s) (\<lambda>(ok, s1).
       if ok then Inr (True, s1)
       else (case others of [] \<Rightarrow> Inr (False, s1) | g # rest \<Rightarrow> wait_map W rest addr f rw (g s1)))"

declare wait_frame.simps [simp del] wait_map.simps [simp del]

definition segfault_code :: "u32 \<Rightarrow> u32" where
  "segfault_code addr = (if addr < PAGE_SIZE then FAIL_ZEROPTR else FAIL_SEGFAULT)"

text \<open>The result is \<open>None\<close> when the thread still waits for memory.\<close>

definition proc_usermem_pf ::
  "'s world \<Rightarrow> ('s ksys \<Rightarrow> 's ksys) list \<Rightarrow> nat \<Rightarrow> u32 \<Rightarrow> u32 \<Rightarrow> 's ksys \<Rightarrow> (unit option outcome \<times> 's ksys) res" where
  "proc_usermem_pf W others p err_code addr s =
     rbind (find_user_region p addr s) (\<lambda>x.
       case x of
         None \<Rightarrow> current_process_exit PS_FAILURE (segfault_code addr) s
       | Some a \<Rightarrow>
           rbind (deref (k_regions s) a) (\<lambda>r.
             if err_code AND PF_WRITE_BIT \<noteq> 0 \<and> \<not> has_flag (scast (ur_mode r)) MM_WRITE
             then current_process_exit PS_FAILURE (segfault_code addr) s
             else if err_code AND PF_PRESENT_BIT \<noteq> 0 then Inl Panicked
             else
               (let addr = addr AND PAGE_MASK
                in rbind (wait_frame W others (ur_pager r) (addr - ur_addr r + ur_offset r) s) (\<lambda>(fo, s1).
                     case fo of
                       None \<Rightarrow> Inr (Returns None, s1)
                     | Some (f, rest) \<Rightarrow>
                         rbind (wait_map W rest addr f (has_flag (scast (ur_mode r)) MM_WRITE) s1) (\<lambda>(ok, s2).
                           Inr (Returns (if ok then Some () else None), s2))))))"

definition probe_for :: "u32 \<Rightarrow> u32 \<Rightarrow> u32 \<Rightarrow> 's ksys \<Rightarrow> (unit outcome \<times> 's ksys) res" where
  "probe_for flag addr len s =
     (case k_current s of
        None \<Rightarrow> Inl Bad_access
      | Some p \<Rightarrow>
          rbind (find_user_region p addr s) (\<lambda>x.
          rbind (case x of
                   None \<Rightarrow> Inr False
                 | Some a \<Rightarrow> rbind (deref (k_regions s) a) (\<lambda>r.
                     Inr (\<not> (addr + len > ur_addr r + ur_size r) \<and> has_flag (scast (ur_mode r)) flag))) (\<lambda>fine.
            if fine then Inr (Returns (), s) else current_process_exit PS_FAILURE FAIL_SC_SEGFAULT s)))"

definition probe_for_read :: "u32 \<Rightarrow> u32 \<Rightarrow> 's ksys \<Rightarrow> (unit outcome \<times> 's ksys) res" where
  "probe_for_read addr len s = probe_for MM_READ addr len s"

definition probe_for_write :: "u32 \<Rightarrow> u32 \<Rightarrow> 's ksys \<Rightarrow> (unit outcome \<times> 's ksys) res" where
  "probe_for_write addr len s = probe_for MM_WRITE addr len s"

end
