(* ===== verification/Proc_Life.thy ===== *)
theory Proc_Life
  imports Process
begin

text \<open>
  Processes (src/kernel/user/process.c), continued: the tables of file systems and of open files, the creation of
  processes and threads, their end, and the waiting of a parent.

  A process that ends ends its children; the number \<open>k\<close> bounds the depth of the tree, that a cycle of parents only
  would exceed. What the other threads do while a parent waits is a list, each with the answer of \<open>wait_on\<close>.
\<close>

section \<open>File systems of a process\<close>

text \<open>The end of the operations that hold the lock.\<close>

definition unlocking :: "nat \<Rightarrow> 'r \<Rightarrow> 's ksys \<Rightarrow> ('r \<times> 's ksys) res" where
  "unlocking p r s = rbind (unlock_proc p s) (\<lambda>s1. Inr (r, s1))"

definition proc_add_fs :: "nat \<Rightarrow> nat \<Rightarrow> string \<Rightarrow> 's ksys \<Rightarrow> (bool \<times> 's ksys) res" where
  "proc_add_fs p fs name s =
     (case strdup (k_heap s) name of
        (None, h) \<Rightarrow> Inr (False, s\<lparr>k_heap := h\<rparr>)
      | (Some n, h) \<Rightarrow>
          rbind (lock_proc p (s\<lparr>k_heap := h\<rparr>)) (\<lambda>s1. rbind (deref (k_procs s1) p) (\<lambda>pr.
            (case (case p_filesystems pr of
                     None \<Rightarrow> (False, s1)
                   | Some ht \<Rightarrow>
                       if hashtbl_find ht n \<noteq> None then (False, s1)
                       else (case hashtbl_add (k_heap s1) ht n fs of (ok, released, ht', h') \<Rightarrow>
                         (ok, set_proc p (pr\<lparr>p_filesystems := Some ht'\<rparr>) (s1\<lparr>k_heap := heap_frees (length released) h'\<rparr>)))) of
               (add_ok, s2) \<Rightarrow>
                 rbind (unlock_proc p s2) (\<lambda>s3. Inr (if add_ok then (True, s3) else (False, free_mem s3)))))))"

definition proc_find_fs :: "nat \<Rightarrow> string \<Rightarrow> 's ksys \<Rightarrow> (nat option \<times> 's ksys) res" where
  "proc_find_fs p name s =
     rbind (lock_proc p s) (\<lambda>s1. rbind (deref (k_procs s1) p) (\<lambda>pr.
       unlocking p (case p_filesystems pr of None \<Rightarrow> None | Some ht \<Rightarrow> hashtbl_find ht name) s1))"

definition unref_fs_at :: "'s world \<Rightarrow> nat \<Rightarrow> 's ksys \<Rightarrow> 's ksys res" where
  "unref_fs_at W fs s = on_vfs (\<lambda>v. unref_fs (w_code W) (depth v) fs v) s"

definition proc_rm_fs :: "'s world \<Rightarrow> nat \<Rightarrow> string \<Rightarrow> 's ksys \<Rightarrow> 's ksys res" where
  "proc_rm_fs W p name s =
     rbind (proc_find_fs p name s) (\<lambda>(f, s1).
       case f of
         None \<Rightarrow> Inr s1
       | Some fs \<Rightarrow>
           rbind (lock_proc p s1) (\<lambda>s2. rbind (unref_fs_at W fs s2) (\<lambda>s3. rbind (deref (k_procs s3) p) (\<lambda>pr.
             case p_filesystems pr of
               None \<Rightarrow> Inl Bad_access
             | Some ht \<Rightarrow>
                 (case hashtbl_remove (k_heap s3) ht name of (released, ht', h') \<Rightarrow>
                    unlock_proc p (set_proc p (pr\<lparr>p_filesystems := Some ht'\<rparr>)
                                     (s3\<lparr>k_heap := heap_frees (length released) h'\<rparr>)))))))"

section \<open>Open files of a process\<close>

definition proc_add_fd :: "nat \<Rightarrow> nat \<Rightarrow> 's ksys \<Rightarrow> (u32 \<times> 's ksys) res" where
  "proc_add_fd p f s =
     rbind (lock_proc p s) (\<lambda>s1. rbind (deref (k_procs s1) p) (\<lambda>pr0.
       (let fd = p_next_fd pr0; pr = pr0\<lparr>p_next_fd := fd + 1\<rparr>
        in case (case p_files pr of
                   None \<Rightarrow> (False, set_proc p pr s1)
                 | Some ht \<Rightarrow>
                     (case ht_put (k_heap s1) ht fd f of (ok, ht', h') \<Rightarrow>
                        (ok, set_proc p (pr\<lparr>p_files := Some ht'\<rparr>) (s1\<lparr>k_heap := h'\<rparr>)))) of
             (add_ok, s2) \<Rightarrow> unlocking p (if add_ok then fd else 0) s2)))"

definition proc_add_fd_as :: "nat \<Rightarrow> nat \<Rightarrow> u32 \<Rightarrow> 's ksys \<Rightarrow> (bool \<times> 's ksys) res" where
  "proc_add_fd_as p f fd s =
     (if sint fd \<le> 0 then Inr (False, s)
      else
        rbind (lock_proc p s) (\<lambda>s1. rbind (deref (k_procs s1) p) (\<lambda>pr.
          (case (case p_files pr of
                   None \<Rightarrow> (False, s1)
                 | Some ht \<Rightarrow>
                     if hashtbl_find ht fd \<noteq> None then (False, s1)
                     else
                       (case ht_put (k_heap s1) ht fd f of (ok, ht', h') \<Rightarrow>
                          (ok, set_proc p (pr\<lparr>p_next_fd := (if sint fd \<ge> sint (p_next_fd pr) then fd + 1 else p_next_fd pr),
                                             p_files := Some ht'\<rparr>) (s1\<lparr>k_heap := h'\<rparr>)))) of
             (add_ok, s2) \<Rightarrow> unlocking p add_ok s2))))"

definition fd_lookup :: "process \<Rightarrow> u32 \<Rightarrow> nat option" where
  "fd_lookup pr fd = (case p_files pr of None \<Rightarrow> None | Some ht \<Rightarrow> hashtbl_find ht fd)"

definition proc_read_fd :: "nat \<Rightarrow> u32 \<Rightarrow> 's ksys \<Rightarrow> (nat option \<times> 's ksys) res" where
  "proc_read_fd p fd s =
     rbind (lock_proc p s) (\<lambda>s1. rbind (deref (k_procs s1) p) (\<lambda>pr. unlocking p (fd_lookup pr fd) s1))"

definition proc_close_fd :: "'s world \<Rightarrow> nat \<Rightarrow> u32 \<Rightarrow> 's ksys \<Rightarrow> 's ksys res" where
  "proc_close_fd W p fd s =
     rbind (lock_proc p s) (\<lambda>s1. rbind (deref (k_procs s1) p) (\<lambda>pr0.
       rbind (case fd_lookup pr0 fd of
                None \<Rightarrow> Inr s1
              | Some x \<Rightarrow>
                  rbind (on_vfs (unref_file (w_code W) x) s1) (\<lambda>s2. rbind (deref (k_procs s2) p) (\<lambda>pr.
                    case p_files pr of
                      None \<Rightarrow> Inl Bad_access
                    | Some ht \<Rightarrow>
                        (case ht_del (k_heap s2) ht fd of (ht', h') \<Rightarrow>
                           Inr (set_proc p (pr\<lparr>p_files := Some ht'\<rparr>) (s2\<lparr>k_heap := h'\<rparr>)))))) (unlock_proc p)))"

section \<open>New processes\<close>

text \<open>The handler that \<open>new_process\<close> gives to the page directory.\<close>

definition PROC_USERMEM_PF :: nat where "PROC_USERMEM_PF = 1"

definition zero_process :: process where
  "zero_process = \<lparr>p_pd = None, p_regions = [], p_regions_idx = None, p_filesystems = None, p_files = None, p_next_fd = 0,
     p_threads = [], p_pid = 0, p_status = 0, p_exit_code = 0, p_parent = None, p_children = [], p_locked = False\<rparr>"

text \<open>The error path: what has been created is deleted, and the process freed.\<close>

definition new_process_error :: "process \<Rightarrow> 's ksys \<Rightarrow> (nat option \<times> 's ksys) res" where
  "new_process_error pr s =
     (let h1 = (case p_regions_idx pr of None \<Rightarrow> k_heap s | Some t \<Rightarrow> snd (delete_btree (k_heap s) t));
          h2 = (case p_filesystems pr of None \<Rightarrow> h1 | Some ht \<Rightarrow> snd (delete_hashtbl h1 ht));
          h3 = (case p_files pr of None \<Rightarrow> h2 | Some ht \<Rightarrow> snd (delete_hashtbl h2 ht))
      in Inr (None, s\<lparr>k_heap := heap_free h3\<rparr>))"

text \<open>The last part: the process \<open>pr\<close> at \<open>p\<close> is numbered and entered into the list of its parent.\<close>

definition enter_process :: "nat \<Rightarrow> process \<Rightarrow> 's ksys \<Rightarrow> (nat option \<times> 's ksys) res" where
  "enter_process p pr s =
     (let s1 = set_proc p (pr\<lparr>p_next_fd := 1, p_pid := k_next_pid s, p_status := PS_LOADING, p_exit_code := 0\<rparr>)
                 (s\<lparr>k_next_pid := k_next_pid s + 1\<rparr>)
      in case p_parent pr of
           None \<Rightarrow> Inr (Some p, s1)
         | Some par \<Rightarrow>
             rbind (lock_proc par s1) (\<lambda>s2. rbind (change_proc (\<lambda>q. q\<lparr>p_children := p # p_children q\<rparr>) par s2) (unlocking par (Some p))))"

definition new_process :: "'s world \<Rightarrow> nat option \<Rightarrow> 's ksys \<Rightarrow> (nat option \<times> 's ksys) res" where
  "new_process W parent s =
     (case heap_malloc (k_heap s) of (ok, h0) \<Rightarrow>
        if \<not> ok then Inr (None, s\<lparr>k_heap := h0\<rparr>)
        else
          (let p = k_next s; s0 = s\<lparr>k_next := p + 1\<rparr>
           in case create_hashtbl h0 str_key_eq_fun str_hash_fun True of (fo, h1) \<Rightarrow>
              (case fo of None \<Rightarrow> new_process_error zero_process (s0\<lparr>k_heap := h1\<rparr>) | Some fss \<Rightarrow>
              (case create_hashtbl h1 id_key_eq_fun id_hash_fun False of (fi, h2) \<Rightarrow>
              (let pr1 = zero_process\<lparr>p_filesystems := Some fss\<rparr>
               in case fi of None \<Rightarrow> new_process_error pr1 (s0\<lparr>k_heap := h2\<rparr>) | Some fls \<Rightarrow>
              (case create_btree h2 id_key_cmp_fun False of (ix, h3) \<Rightarrow>
              (let pr2 = pr1\<lparr>p_files := Some fls\<rparr>
               in case ix of None \<Rightarrow> new_process_error pr2 (s0\<lparr>k_heap := h3\<rparr>) | Some idx \<Rightarrow>
              (let pr3 = pr2\<lparr>p_regions_idx := Some idx\<rparr>
               in rbind (on_paging (create_pagedir (w_image W) (Some PROC_USERMEM_PF) p) (s0\<lparr>k_heap := h3\<rparr>)) (\<lambda>(d, s1).
                    case d of
                      None \<Rightarrow> new_process_error pr3 s1
                    | Some pd \<Rightarrow> enter_process p (pr3\<lparr>p_pd := Some pd, p_parent := parent\<rparr>) s1)))))))))"

section \<open>Threads of a process\<close>

text \<open>The result of \<open>malloc\<close> is written to without a check.\<close>

definition process_new_thread :: "nat \<Rightarrow> u32 \<Rightarrow> u32 \<Rightarrow> 's ksys \<Rightarrow> (bool \<times> 's ksys) res" where
  "process_new_thread p start sp s =
     (case heap_malloc (k_heap s) of (ok, h) \<Rightarrow>
        if \<not> ok then Inl Bad_access
        else
          (let stack = (k_stacks s = [] \<or> hd (k_stacks s)); t = k_next s;
               s1 = s\<lparr>k_heap := h, k_stacks := tl (k_stacks s)\<rparr>
           in if \<not> stack then Inr (False, s1)
              else
                rbind (lock_proc p (s1\<lparr>k_next := t + 1, k_threads := (k_threads s1)(t \<mapsto> p)\<rparr>)) (\<lambda>s2.
                rbind (change_proc (\<lambda>q. q\<lparr>p_threads := t # p_threads q\<rparr>) p s2) (\<lambda>s3.
                rbind (unlock_proc p s3) (\<lambda>s4. Inr (True, s4\<lparr>k_log := k_log s4 @ [Start_thread t start sp]\<rparr>))))))"

definition start_process :: "'s world \<Rightarrow> nat \<Rightarrow> u32 \<Rightarrow> 's ksys \<Rightarrow> (bool \<times> 's ksys) res" where
  "start_process W p start s =
     rbind (mmap W p USERSTACK_ADDR USERSTACK_SIZE (MM_READ OR MM_WRITE) s) (\<lambda>(stack_ok, s1).
       if \<not> stack_ok then Inr (False, s1)
       else
         rbind (change_proc (\<lambda>q. q\<lparr>p_status := PS_RUNNING\<rparr>) p s1) (\<lambda>s2.
         rbind (process_new_thread p start (USERSTACK_ADDR + USERSTACK_SIZE) s2) (\<lambda>(ok, s3).
           if ok then Inr (True, s3)
           else rbind (munmap W p USERSTACK_ADDR s3) (\<lambda>(_, s4). Inr (False, s4)))))"

section \<open>The end of a process\<close>

fun unref_files :: "'s world \<Rightarrow> nat list \<Rightarrow> 's ksys \<Rightarrow> 's ksys res" where
  "unref_files W [] s = Inr s"
| "unref_files W (h # hs) s = rbind (on_vfs (unref_file (w_code W) h) s) (unref_files W hs)"

fun unref_all_fs :: "'s world \<Rightarrow> nat list \<Rightarrow> 's ksys \<Rightarrow> 's ksys res" where
  "unref_all_fs W [] s = Inr s"
| "unref_all_fs W (f # fs) s = rbind (unref_fs_at W f s) (unref_all_fs W fs)"

text \<open>\<open>while (p->regions != 0) munmap_inner(p, p->regions)\<close>: each round takes the first region off the list.\<close>

fun unmap_regions :: "'s world \<Rightarrow> nat \<Rightarrow> nat list \<Rightarrow> 's ksys \<Rightarrow> 's ksys res" where
  "unmap_regions W p [] s = Inr s"
| "unmap_regions W p (a # rs) s = rbind (munmap_inner W p a s) (unmap_regions W p rs)"

definition kill_threads :: "nat \<Rightarrow> 's ksys \<Rightarrow> 's ksys res" where
  "kill_threads p s =
     rbind (deref (k_procs s) p) (\<lambda>pr.
       Inr (set_proc p (pr\<lparr>p_threads := []\<rparr>)
              (s\<lparr>k_log := k_log s @ concat (map (\<lambda>t. [Kill_thread t, Delete_thread t]) (p_threads pr)),
                 k_threads := (k_threads s) |` (- set (p_threads pr))\<rparr>)))"

text \<open>The release of what the process owns, in the order of the code: files, memory, file systems, address space.\<close>

definition release_files :: "'s world \<Rightarrow> nat \<Rightarrow> 's ksys \<Rightarrow> 's ksys res" where
  "release_files W p s =
     rbind (deref (k_procs s) p) (\<lambda>pr.
       case p_files pr of
         None \<Rightarrow> Inl Bad_access
       | Some ht \<Rightarrow>
           rbind (unref_files W (map snd (hashtbl_iter ht)) s) (\<lambda>s1.
             change_proc (\<lambda>q. q\<lparr>p_files := None\<rparr>) p (s1\<lparr>k_heap := snd (delete_hashtbl (k_heap s1) ht)\<rparr>)))"

definition release_memory :: "'s world \<Rightarrow> nat \<Rightarrow> 's ksys \<Rightarrow> 's ksys res" where
  "release_memory W p s =
     rbind (deref (k_procs s) p) (\<lambda>pr0. rbind (unmap_regions W p (p_regions pr0) s) (\<lambda>s1. rbind (deref (k_procs s1) p) (\<lambda>pr.
       case p_regions_idx pr of
         None \<Rightarrow> Inl Bad_access
       | Some idx \<Rightarrow>
           rbind (rassert (btree_count idx = 0)) (\<lambda>_.
             Inr (set_proc p (pr\<lparr>p_regions_idx := None\<rparr>) (s1\<lparr>k_heap := snd (delete_btree (k_heap s1) idx)\<rparr>))))))"

definition release_filesystems :: "'s world \<Rightarrow> nat \<Rightarrow> 's ksys \<Rightarrow> 's ksys res" where
  "release_filesystems W p s =
     rbind (deref (k_procs s) p) (\<lambda>pr.
       case p_filesystems pr of
         None \<Rightarrow> Inl Bad_access
       | Some ht \<Rightarrow>
           rbind (unref_all_fs W (map snd (hashtbl_iter ht)) s) (\<lambda>s1.
             (case delete_hashtbl (k_heap s1) ht of (released, h) \<Rightarrow>
                change_proc (\<lambda>q. q\<lparr>p_filesystems := None\<rparr>) p (s1\<lparr>k_heap := heap_frees (length released) h\<rparr>))))"

definition release_space :: "'s world \<Rightarrow> nat \<Rightarrow> 's ksys \<Rightarrow> 's ksys res" where
  "release_space W p s =
     rbind (on_space (switch_pagedir get_kernel_pagedir) s) (\<lambda>s1. rbind (deref (k_procs s1) p) (\<lambda>pr.
       case p_pd pr of
         None \<Rightarrow> Inl Bad_access
       | Some d \<Rightarrow> rbind (on_space (delete_pagedir (w_image W) d) s1) (change_proc (\<lambda>q. q\<lparr>p_pd := None\<rparr>) p)))"

definition notify_parent :: "nat \<Rightarrow> nat \<Rightarrow> 's ksys \<Rightarrow> 's ksys res" where
  "notify_parent p par s =
     rbind (deref (k_procs s) par) (\<lambda>q.
       Inr (if p_status q = PS_RUNNING then s\<lparr>k_log := k_log s @ [Resume_on (Children_of par), Resume_on (Process_at p)]\<rparr> else s))"

definition alive :: "process \<Rightarrow> bool" where
  "alive pr \<longleftrightarrow> p_status pr = PS_RUNNING \<or> p_status pr = PS_LOADING"

fun process_exit :: "'s world \<Rightarrow> nat \<Rightarrow> nat \<Rightarrow> u32 \<Rightarrow> u32 \<Rightarrow> 's ksys \<Rightarrow> 's ksys res"
  and exit_children :: "'s world \<Rightarrow> nat \<Rightarrow> nat \<Rightarrow> nat list \<Rightarrow> 's ksys \<Rightarrow> 's ksys res" where
  "process_exit W k p status exit_code s =
     (if k = 0 then Inl Diverged
      else
        rbind (rassert (k_current s \<noteq> Some p)) (\<lambda>_. rbind (deref (k_procs s) p) (\<lambda>pr.
          case p_parent pr of
            None \<Rightarrow> Inl Panicked
          | Some par \<Rightarrow>
              rbind (lock_proc p s) (\<lambda>s1.
                if \<not> alive pr then unlock_proc p s1
                else
                  rbind (change_proc (\<lambda>q. q\<lparr>p_status := status, p_exit_code := exit_code\<rparr>) p s1) (\<lambda>s2.
                  rbind (kill_threads p s2) (\<lambda>s3.
                  rbind (exit_children W (k - 1) p (p_children pr) s3) (\<lambda>s4.
                  rbind (release_files W p s4) (\<lambda>s5.
                  rbind (release_memory W p s5) (\<lambda>s6.
                  rbind (release_filesystems W p s6) (\<lambda>s7.
                  rbind (release_space W p s7) (\<lambda>s8.
                  rbind (notify_parent p par s8) (unlock_proc p))))))))))))"
| "exit_children W k p [] s = Inr s"
| "exit_children W k p (ch # chs) s =
     rbind (change_proc (\<lambda>q. q\<lparr>p_children := chs\<rparr>) p s) (\<lambda>s1.
     rbind (deref (k_procs s1) ch) (\<lambda>c.
     rbind (if alive c then process_exit W k ch PS_KILLED 0 s1 else Inr s1) (\<lambda>s2.
       exit_children W k p chs (free_mem (s2\<lparr>k_procs := (k_procs s2)(ch := None)\<rparr>)))))"

declare process_exit.simps [simp del] exit_children.simps [simp del]

text \<open>A thread that has ended is taken out of its process, that ends with its last thread.\<close>

definition process_thread_exited :: "'s world \<Rightarrow> nat \<Rightarrow> nat \<Rightarrow> 's ksys \<Rightarrow> 's ksys res" where
  "process_thread_exited W k t s =
     rbind (deref (k_threads s) t) (\<lambda>p. rbind (deref (k_procs s) p) (\<lambda>pr0.
       if p_status pr0 \<noteq> PS_RUNNING then Inr s
       else
         rbind (lock_proc p s) (\<lambda>s1.
         rbind (change_proc (\<lambda>q. q\<lparr>p_threads := remove1 t (p_threads q)\<rparr>) p s1) (\<lambda>s2.
           (let s3 = s2\<lparr>k_threads := (k_threads s2)(t := None), k_log := k_log s2 @ [Delete_thread t]\<rparr>
            in rbind (unlock_proc p s3) (\<lambda>s4. rbind (deref (k_procs s4) p) (\<lambda>pr.
                 if p_threads pr = [] then process_exit W k p PS_FINISHED 0 s4 else Inr s4)))))))"

section \<open>The children of a process\<close>

fun find_pid :: "'s ksys \<Rightarrow> u32 \<Rightarrow> nat list \<Rightarrow> nat option res" where
  "find_pid s pid [] = Inr None"
| "find_pid s pid (c # cs) =
     rbind (deref (k_procs s) c) (\<lambda>q. if p_pid q = pid then Inr (Some c) else find_pid s pid cs)"

definition process_find_child :: "nat \<Rightarrow> u32 \<Rightarrow> 's ksys \<Rightarrow> (nat option \<times> 's ksys) res" where
  "process_find_child p pid s =
     rbind (lock_proc p s) (\<lambda>s1. rbind (deref (k_procs s1) p) (\<lambda>pr.
     rbind (find_pid s1 pid (p_children pr)) (\<lambda>r. unlocking p r s1)))"

record proc_status_t =
  ps_pid :: u32
  ps_status :: u32
  ps_exit_code :: u32

definition process_get_status :: "nat \<Rightarrow> 's ksys \<Rightarrow> (proc_status_t \<times> 's ksys) res" where
  "process_get_status p s =
     rbind (lock_proc p s) (\<lambda>s1. rbind (deref (k_procs s1) p) (\<lambda>pr.
       unlocking p \<lparr>ps_pid = p_pid pr, ps_status = p_status pr, ps_exit_code = p_exit_code pr\<rparr> s1))"

text \<open>The child \<open>p\<close> is acknowledged: its status is read, and it leaves the list of \<open>par\<close> and is freed.\<close>

definition reap :: "nat \<Rightarrow> nat \<Rightarrow> 's ksys \<Rightarrow> (proc_status_t \<times> 's ksys) res" where
  "reap par p s =
     rbind (process_get_status p s) (\<lambda>(st, s1).
     rbind (change_proc (\<lambda>q. q\<lparr>p_children := remove1 p (p_children q)\<rparr>) par s1) (\<lambda>s2.
       Inr (st, free_mem (s2\<lparr>k_procs := (k_procs s2)(p := None)\<rparr>))))"

text \<open>\<open>st\<close> holds a process number and a status of zero until a child is acknowledged; the field \<open>exit_code\<close> is as the caller left it.
  The result is \<open>None\<close> while the thread waits. A wait that is interrupted leaves the lock free.\<close>

definition no_status :: "u32 \<Rightarrow> proc_status_t" where
  "no_status junk = \<lparr>ps_pid = 0, ps_status = 0, ps_exit_code = junk\<rparr>"

fun wait_child :: "u32 \<Rightarrow> (bool \<times> ('s ksys \<Rightarrow> 's ksys)) list \<Rightarrow> nat \<Rightarrow> nat \<Rightarrow> bool \<Rightarrow> 's ksys \<Rightarrow> (proc_status_t option \<times> 's ksys) res" where
  "wait_child junk others par p wait s =
     rbind (deref (k_procs s) par) (\<lambda>q.
       if p \<notin> set (p_children q) then unlocking par (Some (no_status junk)) s
       else
         rbind (deref (k_procs s) p) (\<lambda>pr.
           if \<not> alive pr then rbind (reap par p s) (\<lambda>(st, s1). unlocking par (Some st) s1)
           else if \<not> wait then unlocking par (Some (no_status junk)) s
           else
             rbind (unlock_proc par s) (\<lambda>s1.
               case others of
                 [] \<Rightarrow> Inr (None, s1)
               | (wait_ok, g) # rest \<Rightarrow>
                   if \<not> wait_ok then Inr (Some (no_status junk), g s1)
                   else rbind (lock_proc par (g s1)) (wait_child junk rest par p wait))))"

declare wait_child.simps [simp del]

definition process_wait :: "u32 \<Rightarrow> (bool \<times> ('s ksys \<Rightarrow> 's ksys)) list \<Rightarrow> nat \<Rightarrow> bool \<Rightarrow> 's ksys \<Rightarrow> (proc_status_t option \<times> 's ksys) res" where
  "process_wait junk others p wait s =
     rbind (deref (k_procs s) p) (\<lambda>pr.
       case p_parent pr of
         None \<Rightarrow> Inl Bad_access
       | Some par \<Rightarrow> rbind (lock_proc par s) (wait_child junk others par p wait))"

text \<open>The first child that has ended.\<close>

fun find_ended :: "'s ksys \<Rightarrow> nat list \<Rightarrow> nat option res" where
  "find_ended s [] = Inr None"
| "find_ended s (c # cs) = rbind (deref (k_procs s) c) (\<lambda>q. if \<not> alive q then Inr (Some c) else find_ended s cs)"

fun wait_any :: "u32 \<Rightarrow> (bool \<times> ('s ksys \<Rightarrow> 's ksys)) list \<Rightarrow> nat \<Rightarrow> bool \<Rightarrow> 's ksys \<Rightarrow> (proc_status_t option \<times> 's ksys) res" where
  "wait_any junk others par wait s =
     rbind (deref (k_procs s) par) (\<lambda>q. rbind (find_ended s (p_children q)) (\<lambda>x.
       case x of
         Some p \<Rightarrow> rbind (reap par p s) (\<lambda>(st, s1). unlocking par (Some st) s1)
       | None \<Rightarrow>
           if \<not> wait then unlocking par (Some (no_status junk)) s
           else
             rbind (unlock_proc par s) (\<lambda>s1.
               case others of
                 [] \<Rightarrow> Inr (None, s1)
               | (wait_ok, g) # rest \<Rightarrow>
                   if \<not> wait_ok then Inr (Some (no_status junk), g s1)
                   else rbind (lock_proc par (g s1)) (wait_any junk rest par wait))))"

declare wait_any.simps [simp del]

definition process_wait_any_child :: "u32 \<Rightarrow> (bool \<times> ('s ksys \<Rightarrow> 's ksys)) list \<Rightarrow> nat \<Rightarrow> bool \<Rightarrow> 's ksys \<Rightarrow> (proc_status_t option \<times> 's ksys) res" where
  "process_wait_any_child junk others par wait s = rbind (lock_proc par s) (wait_any junk others par wait)"

end
