(* ===== verification/User_Mem.thy ===== *)
theory User_Mem
  imports Proc_Life Ipc_Token
begin

text \<open>
  The memory of user programs, as the code that runs in the kernel for them sees it: an access goes through the
  tables of the address space in use, and a page that is not there is brought in by the handler of page
  faults of the process (theory \<open>Process\<close>).

  A call of the kernel for a process returns, or ends the process or the thread, or still waits. Addresses of the
  kernel's half are outside this memory: an access there is \<open>Bad_access\<close>. The write-protect bit of the processor is not set, so that the
  kernel may write to pages that are present and read-only.
\<close>

section \<open>Calls of the kernel\<close>

datatype 'a call_end = Done 'a | Exited u32 u32 | Waits | Thread_ends

datatype sc_event = Yields | Sleeps u32

text \<open>\<open>kn_waits\<close> gives, for each page fault to come, what the other threads do while it waits for memory (an
  exhausted list: it does not wait); \<open>kn_child_waits\<close> the same for the waits for a child.\<close>

record 's kernel =
  kn_sys :: "'s ksys"
  kn_tokens :: token_state
  kn_waits :: "('s ksys \<Rightarrow> 's ksys) list list"
  kn_child_waits :: "(bool \<times> ('s ksys \<Rightarrow> 's ksys)) list"
  kn_log :: "sc_event list"

type_synonym ('s, 'a) sc = "'s kernel \<Rightarrow> ('a call_end \<times> 's kernel) res"

definition sret :: "'a \<Rightarrow> ('s, 'a) sc" where
  "sret x s = Inr (Done x, s)"

definition sbind :: "('s, 'a) sc \<Rightarrow> ('a \<Rightarrow> ('s, 'b) sc) \<Rightarrow> ('s, 'b) sc" where
  "sbind m f s =
     rbind (m s) (\<lambda>(r, s1).
       case r of
         Done x \<Rightarrow> f x s1
       | Exited a b \<Rightarrow> Inr (Exited a b, s1)
       | Waits \<Rightarrow> Inr (Waits, s1)
       | Thread_ends \<Rightarrow> Inr (Thread_ends, s1))"

definition sthen :: "('s, unit) sc \<Rightarrow> ('s, 'b) sc \<Rightarrow> ('s, 'b) sc" where
  "sthen m n = sbind m (\<lambda>_. n)"

text \<open>The operations of the parts of the kernel as calls.\<close>

definition on_sys :: "('s ksys \<Rightarrow> ('a \<times> 's ksys) res) \<Rightarrow> ('s, 'a) sc" where
  "on_sys f s = rbind (f (kn_sys s)) (\<lambda>(r, s1). Inr (Done r, s\<lparr>kn_sys := s1\<rparr>))"

definition do_sys :: "('s ksys \<Rightarrow> 's ksys res) \<Rightarrow> ('s, unit) sc" where
  "do_sys f s = rbind (f (kn_sys s)) (\<lambda>s1. Inr (Done (), s\<lparr>kn_sys := s1\<rparr>))"

definition may_exit :: "('s ksys \<Rightarrow> ('a outcome \<times> 's ksys) res) \<Rightarrow> ('s, 'a) sc" where
  "may_exit f s =
     rbind (f (kn_sys s)) (\<lambda>(r, s1).
       Inr (case r of Returns x \<Rightarrow> Done x | Exits a b \<Rightarrow> Exited a b, s\<lparr>kn_sys := s1\<rparr>))"

definition on_files :: "('s vfs \<Rightarrow> ('a \<times> 's vfs) res) \<Rightarrow> ('s, 'a) sc" where
  "on_files f =
     on_sys (\<lambda>s. rbind (f ((k_vfs s)\<lparr>v_heap := k_heap s\<rparr>)) (\<lambda>(r, v). Inr (r, s\<lparr>k_vfs := v, k_heap := v_heap v\<rparr>)))"

definition do_files :: "('s vfs \<Rightarrow> 's vfs res) \<Rightarrow> ('s, unit) sc" where
  "do_files f = do_sys (on_vfs f)"

definition free_sc :: "('s, unit) sc" where
  "free_sc = do_sys (\<lambda>s. Inr (free_mem s))"

text \<open>\<open>current_process()\<close>, through which the callers go at once.\<close>

definition current_process :: "('s, nat) sc" where
  "current_process s = (case k_current (kn_sys s) of None \<Rightarrow> Inl Bad_access | Some p \<Rightarrow> Inr (Done p, s))"

section \<open>Bytes\<close>

definition user_fault :: "'s world \<Rightarrow> u32 \<Rightarrow> bool \<Rightarrow> ('s, unit) sc" where
  "user_fault W v wr s =
     (let sys = kn_sys s; d = get_current_pagedir (k_paging sys)
      in rbind (deref (pg_dirs (k_paging sys)) d) (\<lambda>pd.
           if v < PAGE_SIZE then Inl Panicked
           else (case user_pfh pd of
                   None \<Rightarrow> Inl Panicked
                 | Some _ \<Rightarrow>
                     rbind (proc_usermem_pf W (if kn_waits s = [] then [] else hd (kn_waits s)) (user_pfh_data pd)
                              (if wr then PF_WRITE_BIT else 0) v sys) (\<lambda>(r, sys').
                       Inr (case r of Exits a b \<Rightarrow> Exited a b | Returns None \<Rightarrow> Waits | Returns (Some _) \<Rightarrow> Done (),
                            s\<lparr>kn_sys := sys', kn_waits := tl (kn_waits s)\<rparr>)))))"

definition frame_at :: "'s kernel \<Rightarrow> u32 \<Rightarrow> nat option" where
  "frame_at s v = map_option fst (translate (k_paging (kn_sys s)) v)"

text \<open>The instruction is started again after the fault.\<close>

definition user_frame :: "'s world \<Rightarrow> u32 \<Rightarrow> bool \<Rightarrow> ('s, nat) sc" where
  "user_frame W v wr s =
     (if v \<ge> K_HIGHHALF_ADDR then Inl Bad_access
      else (case frame_at s v of
              Some f \<Rightarrow> sret f s
            | None \<Rightarrow> sbind (user_fault W v wr) (\<lambda>_ s1.
                        case frame_at s1 v of None \<Rightarrow> Inl Diverged | Some f \<Rightarrow> sret f s1) s))"

definition in_page :: "u32 \<Rightarrow> nat" where
  "in_page v = unat (v AND NOT PAGE_MASK)"

definition load_byte :: "'s world \<Rightarrow> u32 \<Rightarrow> ('s, u8) sc" where
  "load_byte W v = sbind (user_frame W v False) (\<lambda>f s. sret (pe_phys (k_env (kn_sys s)) f ! in_page v) s)"

definition store_byte :: "'s world \<Rightarrow> u32 \<Rightarrow> u8 \<Rightarrow> ('s, unit) sc" where
  "store_byte W v b =
     sbind (user_frame W v True) (\<lambda>f. do_sys (\<lambda>s.
       (let e = k_env s in Inr (s\<lparr>k_env := e\<lparr>pe_phys := (pe_phys e)(f := (pe_phys e f)[in_page v := b])\<rparr>\<rparr>))))"

fun load_bytes :: "'s world \<Rightarrow> u32 \<Rightarrow> nat \<Rightarrow> ('s, u8 list) sc" where
  "load_bytes W v 0 = sret []"
| "load_bytes W v (Suc n) = sbind (load_byte W v) (\<lambda>b. sbind (load_bytes W (v + 1) n) (\<lambda>bs. sret (b # bs)))"

fun store_bytes :: "'s world \<Rightarrow> u32 \<Rightarrow> u8 list \<Rightarrow> ('s, unit) sc" where
  "store_bytes W v [] = sret ()"
| "store_bytes W v (b # bs) = sthen (store_byte W v b) (store_bytes W (v + 1) bs)"

section \<open>Values in memory\<close>

text \<open>Integers are stored with the lowest byte first.\<close>

fun word_of :: "u8 list \<Rightarrow> u32" where
  "word_of [] = 0"
| "word_of (b # bs) = ucast b OR push_bit 8 (word_of bs)"

definition bytes_of :: "u32 \<Rightarrow> u8 list" where
  "bytes_of w = [ucast w, ucast (drop_bit 8 w), ucast (drop_bit 16 w), ucast (drop_bit 24 w)]"

lemma word_of_bytes_of: "word_of (bytes_of w) = w"
proof (rule bit_word_eqI)
  fix n assume n: "n < LENGTH(32)"
  then consider "n < 8" | "8 \<le> n \<and> n < 16" | "16 \<le> n \<and> n < 24" | "24 \<le> n \<and> n < 32" by fastforce
  then show "bit (word_of (bytes_of w)) n = bit w n"
    by cases (auto simp: bytes_of_def bit_simps)
qed

definition load_word :: "'s world \<Rightarrow> u32 \<Rightarrow> ('s, u32) sc" where
  "load_word W v = sbind (load_bytes W v 4) (\<lambda>bs. sret (word_of bs))"

definition store_words :: "'s world \<Rightarrow> u32 \<Rightarrow> u32 list \<Rightarrow> ('s, unit) sc" where
  "store_words W v ws = store_bytes W v (concat (map bytes_of ws))"

definition stat_words :: "stat_t \<Rightarrow> u32 list" where
  "stat_words st = [st_type st, st_access st, of_nat (st_size st)]"

text \<open>A buffer of bytes read as a C string ends at its first zero.\<close>

definition cstring :: "u8 list \<Rightarrow> string" where
  "cstring bs = map (\<lambda>b. char_of (unat b)) (takeWhile (\<lambda>b. b \<noteq> 0) bs)"

end
