(* ===== verification/Elf.thy ===== *)
theory Elf
  imports User_Mem
begin

text \<open>
  Loading of programs (src/kernel/user/elf.c, src/kernel/include/elf.h). A header is the list of the bytes read from the file;
  its fields are words at their offsets in the packed structures of elf.h. The program is read into the memory of the process
  through its address space, which is in use meanwhile.
\<close>

definition PT_LOAD :: u32 where "PT_LOAD = 1"
definition PF_X :: u32 where "PF_X = 1"
definition PF_W :: u32 where "PF_W = 2"
definition PF_R :: u32 where "PF_R = 4"

definition EHDR_SIZE :: nat where "EHDR_SIZE = 52"
definition PHDR_SIZE :: nat where "PHDR_SIZE = 32"

definition field :: "nat \<Rightarrow> nat \<Rightarrow> u8 list \<Rightarrow> u32" where
  "field off n bs = word_of (take n (drop off bs))"

record elf_phdr_t =
  ph_type :: u32
  ph_offset :: u32
  ph_vaddr :: u32
  ph_filesz :: u32
  ph_memsz :: u32
  ph_flags :: u32

definition phdr_of :: "u8 list \<Rightarrow> elf_phdr_t" where
  "phdr_of bs = \<lparr>ph_type = field 0 4 bs, ph_offset = field 4 4 bs, ph_vaddr = field 8 4 bs, ph_filesz = field 16 4 bs,
     ph_memsz = field 20 4 bs, ph_flags = field 24 4 bs\<rparr>"

definition is_elf :: "'s world \<Rightarrow> nat \<Rightarrow> ('s, bool) sc" where
  "is_elf W f =
     sbind (on_files (file_read (w_code W) f 0 EHDR_SIZE)) (\<lambda>h.
       sret (length h = EHDR_SIZE \<and> h ! 0 = 0x7F \<and> h ! 1 = 0x45 \<and> h ! 2 = 0x4C \<and> h ! 3 = 0x46))"

text \<open>One segment; the result says whether to go on.\<close>

definition load_private :: "'s world \<Rightarrow> nat \<Rightarrow> nat \<Rightarrow> elf_phdr_t \<Rightarrow> ('s, bool) sc" where
  "load_private W f p ph =
     (let r = (if has_flag (ph_flags ph) PF_R then MM_READ else 0)
      in sbind (on_sys (mmap W p (ph_vaddr ph) (ph_memsz ph) (r OR MM_WRITE))) (\<lambda>mmap_ok.
           if \<not> mmap_ok then sret False
           else
             sbind (on_files (file_read (w_code W) f (unat (ph_offset ph)) (unat (ph_filesz ph)))) (\<lambda>bs.
             sthen (store_bytes W (ph_vaddr ph) bs)
               (if length bs \<noteq> unat (ph_filesz ph) then sret False
                else if has_flag (ph_flags ph) PF_W then sret True
                else on_sys (mchmap W p (ph_vaddr ph) r)))))"

definition load_segment :: "'s world \<Rightarrow> nat \<Rightarrow> nat \<Rightarrow> elf_phdr_t \<Rightarrow> ('s, bool) sc" where
  "load_segment W f p ph s =
     (if ph_type ph \<noteq> PT_LOAD then sret True s
      else
        rbind (deref (v_files (k_vfs (kn_sys s))) f) (\<lambda>fh.
          if has_flag (ph_flags ph) PF_W \<or> \<not> has_flag (fh_mode fh) FM_MMAP then load_private W f p ph s
          else on_sys (mmap_file W p f (ph_offset ph) (ph_vaddr ph) (ph_memsz ph)
                 ((if has_flag (ph_flags ph) PF_R then MM_READ else 0) OR (if has_flag (ph_flags ph) PF_X then MM_EXEC else 0))) s))"

fun load_segments :: "'s world \<Rightarrow> nat \<Rightarrow> nat \<Rightarrow> u32 list \<Rightarrow> ('s, bool) sc" where
  "load_segments W f p [] = sret True"
| "load_segments W f p (off # offs) =
     sbind (on_files (file_read (w_code W) f (unat off) PHDR_SIZE)) (\<lambda>h.
       if length h \<noteq> PHDR_SIZE then sret False
       else sbind (load_segment W f p (phdr_of h)) (\<lambda>ok. if ok then load_segments W f p offs else sret False))"

text \<open>The offsets of the program headers, and the loading with the address space of \<open>p\<close> in use. The result is the entry
  point, zero on an error.\<close>

definition phdr_offsets :: "u8 list \<Rightarrow> u32 list" where
  "phdr_offsets h = map (\<lambda>i. field 28 4 h + of_nat (i * PHDR_SIZE)) [0..<unat (field 44 2 h)]"

definition elf_load :: "'s world \<Rightarrow> nat \<Rightarrow> nat \<Rightarrow> ('s, u32) sc" where
  "elf_load W f p =
     sbind (is_elf W f) (\<lambda>yes.
       if \<not> yes then sret 0
       else
         sbind (on_files (file_read (w_code W) f 0 EHDR_SIZE)) (\<lambda>h.
           if length h \<noteq> EHDR_SIZE then sret 0
           else (\<lambda>s.
             (let save = get_current_pagedir (k_paging (kn_sys s))
              in rbind (deref (k_procs (kn_sys s)) p) (\<lambda>pr.
                   case p_pd pr of
                     None \<Rightarrow> Inl Bad_access
                   | Some pd \<Rightarrow>
                       sthen (do_sys (on_space (switch_pagedir pd)))
                         (sbind (load_segments W f p (phdr_offsets h)) (\<lambda>ok.
                            sthen (do_sys (on_space (switch_pagedir save))) (sret (if ok then field 24 4 h else 0)))) s)))))"

end
