(* ===== verification/Syscall.thy ===== *)
theory Syscall
  imports Elf
begin

text \<open>
  System calls (src/kernel/user/syscall.c, src/common/include/proto/syscall.h).

  The data of a call is copied between the memory of the program and the kernel before or after the operation of the virtual file
  system, where the code hands the operation a pointer. What is printed is left out. \<open>make_channel\<close> and \<open>make_shm\<close>, that the
  theories \<open>Ipc_Channel\<close> and \<open>Ipc_Shm\<close> model over states of their own, are parameters. Copies of strings are freed at the end of a call, after the
  handle or the file system that it made has been given away or dropped.
\<close>

section \<open>Numbers\<close>

definition SC_MAX :: nat where "SC_MAX = 128"
definition SC_DBG_PRINT :: nat where "SC_DBG_PRINT = 0"
definition SC_EXIT :: nat where "SC_EXIT = 1"
definition SC_YIELD :: nat where "SC_YIELD = 2"
definition SC_USLEEP :: nat where "SC_USLEEP = 3"
definition SC_NEW_THREAD :: nat where "SC_NEW_THREAD = 4"
definition SC_EXIT_THREAD :: nat where "SC_EXIT_THREAD = 5"
definition SC_MMAP :: nat where "SC_MMAP = 10"
definition SC_MMAP_FILE :: nat where "SC_MMAP_FILE = 11"
definition SC_MCHMAP :: nat where "SC_MCHMAP = 12"
definition SC_MUNMAP :: nat where "SC_MUNMAP = 13"
definition SC_CREATE :: nat where "SC_CREATE = 20"
definition SC_DELETE :: nat where "SC_DELETE = 21"
definition SC_MOVE :: nat where "SC_MOVE = 22"
definition SC_STAT :: nat where "SC_STAT = 23"
definition SC_OPEN :: nat where "SC_OPEN = 30"
definition SC_CLOSE :: nat where "SC_CLOSE = 31"
definition SC_READ :: nat where "SC_READ = 32"
definition SC_WRITE :: nat where "SC_WRITE = 33"
definition SC_READDIR :: nat where "SC_READDIR = 34"
definition SC_STAT_OPEN :: nat where "SC_STAT_OPEN = 35"
definition SC_IOCTL :: nat where "SC_IOCTL = 36"
definition SC_FCTL :: nat where "SC_FCTL = 37"
definition SC_SELECT :: nat where "SC_SELECT = 38"
definition SC_MK_CHANNEL :: nat where "SC_MK_CHANNEL = 40"
definition SC_GEN_TOKEN :: nat where "SC_GEN_TOKEN = 42"
definition SC_USE_TOKEN :: nat where "SC_USE_TOKEN = 43"
definition SC_MAKE_FS :: nat where "SC_MAKE_FS = 50"
definition SC_FS_ADD_SRC :: nat where "SC_FS_ADD_SRC = 51"
definition SC_SUBFS :: nat where "SC_SUBFS = 52"
definition SC_RM_FS :: nat where "SC_RM_FS = 53"
definition SC_NEW_PROC :: nat where "SC_NEW_PROC = 60"
definition SC_BIND_FS :: nat where "SC_BIND_FS = 61"
definition SC_BIND_SUBFS :: nat where "SC_BIND_SUBFS = 62"
definition SC_BIND_MAKE_FS :: nat where "SC_BIND_MAKE_FS = 63"
definition SC_BIND_FD :: nat where "SC_BIND_FD = 64"
definition SC_PROC_EXEC :: nat where "SC_PROC_EXEC = 65"
definition SC_PROC_STATUS :: nat where "SC_PROC_STATUS = 66"
definition SC_PROC_KILL :: nat where "SC_PROC_KILL = 67"
definition SC_PROC_WAIT :: nat where "SC_PROC_WAIT = 68"

definition FC_GET_MODE :: u32 where "FC_GET_MODE = 1"
definition FC_SET_BLOCKING :: u32 where "FC_SET_BLOCKING = 2"
definition FC_SET_NONBLOCKING :: u32 where "FC_SET_NONBLOCKING = 3"

text \<open>The registers \<open>ebx\<close>, \<open>ecx\<close>, \<open>edx\<close>, \<open>esi\<close>, \<open>edi\<close>.\<close>

record sc_args_t =
  arg_a :: u32
  arg_b :: u32
  arg_c :: u32
  arg_d :: u32
  arg_e :: u32

type_synonym 's handler = "sc_args_t \<Rightarrow> ('s, u32) sc"

definition of_truth :: "bool \<Rightarrow> u32" where
  "of_truth b = (if b then 1 else 0)"

section \<open>Strings\<close>

text \<open>\<open>slen + 1\<close> wraps around for the largest \<open>slen\<close>: the copy then runs past the block.\<close>

definition sc_copy_string :: "'s world \<Rightarrow> u32 \<Rightarrow> u32 \<Rightarrow> ('s, string option) sc" where
  "sc_copy_string W addr slen =
     sthen (may_exit (probe_for_read addr slen))
       (sbind (on_sys (\<lambda>s. case heap_malloc (k_heap s) of (ok, h) \<Rightarrow> Inr (ok, s\<lparr>k_heap := h\<rparr>))) (\<lambda>ok s.
          if \<not> ok then sret None s
          else if slen + 1 \<le> slen then Inl Bad_access
          else sbind (load_bytes W addr (unat slen)) (\<lambda>bs. sret (Some (cstring bs))) s))"

text \<open>\<open>if (s) free(s)\<close>\<close>

definition free_if :: "'a option \<Rightarrow> ('s, unit) sc" where
  "free_if x = (case x of None \<Rightarrow> sret () | Some _ \<Rightarrow> free_sc)"

text \<open>What stands before and after the first colon.\<close>

definition split_path :: "string \<Rightarrow> (string \<times> string) option" where
  "split_path fn =
     (let n = takeWhile (\<lambda>c. c \<noteq> CHR '':'') fn
      in if length n = length fn then None else Some (n, drop (Suc (length n)) fn))"

definition find_fs :: "string \<Rightarrow> ('s, nat option) sc" where
  "find_fs name = sbind current_process (\<lambda>p. on_sys (proc_find_fs p name))"

text \<open>The calls on a path: copy it, split it, find the file system, and free the copy in the end. The result is zero when a
  step fails.\<close>

definition with_path :: "'s world \<Rightarrow> u32 \<Rightarrow> u32 \<Rightarrow> (nat \<Rightarrow> string \<Rightarrow> ('s, u32) sc) \<Rightarrow> ('s, u32) sc" where
  "with_path W addr len f =
     sbind (sc_copy_string W addr len) (\<lambda>fn.
     sbind (case fn of
              None \<Rightarrow> sret 0
            | Some path \<Rightarrow>
                (case split_path path of
                   None \<Rightarrow> sret 0
                 | Some (name, fl) \<Rightarrow>
                     sbind (find_fs name) (\<lambda>fs. case fs of None \<Rightarrow> sret 0 | Some a \<Rightarrow> f a fl))) (\<lambda>r.
     sthen (free_if fn) (sret r)))"

text \<open>The calls on an open file.\<close>

definition with_fd :: "u32 \<Rightarrow> u32 \<Rightarrow> (nat \<Rightarrow> ('s, u32) sc) \<Rightarrow> ('s, u32) sc" where
  "with_fd fd err f =
     sbind current_process (\<lambda>p. sbind (on_sys (proc_read_fd p fd)) (\<lambda>h. case h of None \<Rightarrow> sret err | Some x \<Rightarrow> f x))"

text \<open>The end of the calls that make a handle: it gets a number, or is dropped.\<close>

definition give_fd :: "'s world \<Rightarrow> nat \<Rightarrow> ('s, u32) sc" where
  "give_fd W h =
     sbind current_process (\<lambda>p. sbind (on_sys (proc_add_fd p h)) (\<lambda>fd.
       if fd = 0 then sthen (do_files (unref_file (w_code W) h)) (sret 0) else sret fd))"

section \<open>The current process\<close>

definition exit_sc :: "'s handler" where
  "exit_sc a = may_exit (current_process_exit PS_FINISHED (arg_a a))"

definition yield_sc :: "'s handler" where
  "yield_sc a s = sret 0 (s\<lparr>kn_log := kn_log s @ [Yields]\<rparr>)"

definition usleep_sc :: "'s handler" where
  "usleep_sc a s = sret 0 (s\<lparr>kn_log := kn_log s @ [Sleeps (arg_a a)]\<rparr>)"

definition dbg_print_sc :: "'s world \<Rightarrow> 's handler" where
  "dbg_print_sc W a =
     sbind (sc_copy_string W (arg_a a) (arg_b a)) (\<lambda>msg. case msg of None \<Rightarrow> sret (- 1) | Some _ \<Rightarrow> sthen free_sc (sret 0))"

definition new_thread_sc :: "'s handler" where
  "new_thread_sc a =
     sbind current_process (\<lambda>p. sbind (on_sys (process_new_thread p (arg_a a) (arg_b a))) (\<lambda>ok. sret (of_truth ok)))"

definition exit_thread_sc :: "'s handler" where
  "exit_thread_sc a s = Inr (Thread_ends, s)"

section \<open>Memory\<close>

definition mmap_sc :: "'s world \<Rightarrow> 's handler" where
  "mmap_sc W a =
     sbind current_process (\<lambda>p. sbind (on_sys (mmap W p (arg_a a) (arg_b a) (arg_c a))) (\<lambda>ok. sret (of_truth ok)))"

definition mmap_file_sc :: "'s world \<Rightarrow> 's handler" where
  "mmap_file_sc W a =
     with_fd (arg_a a) 0 (\<lambda>h. sbind current_process (\<lambda>p.
       sbind (on_sys (mmap_file W p h (arg_b a) (arg_c a) (arg_d a) (arg_e a))) (\<lambda>ok. sret (of_truth ok))))"

definition mchmap_sc :: "'s world \<Rightarrow> 's handler" where
  "mchmap_sc W a = sbind current_process (\<lambda>p. sbind (on_sys (mchmap W p (arg_a a) (arg_b a))) (\<lambda>ok. sret (of_truth ok)))"

definition munmap_sc :: "'s world \<Rightarrow> 's handler" where
  "munmap_sc W a = sbind current_process (\<lambda>p. sbind (on_sys (munmap W p (arg_a a))) (\<lambda>ok. sret (of_truth ok)))"

section \<open>File systems\<close>

definition create_sc :: "'s world \<Rightarrow> 's handler" where
  "create_sc W a =
     with_path W (arg_a a) (arg_b a) (\<lambda>fs fl. sbind (on_files (fs_create (w_code W) fs fl (arg_c a))) (\<lambda>ok. sret (of_truth ok)))"

definition delete_sc :: "'s world \<Rightarrow> 's handler" where
  "delete_sc W a =
     with_path W (arg_a a) (arg_b a) (\<lambda>fs fl. sbind (on_files (fs_delete (w_code W) fs fl)) (\<lambda>ok. sret (of_truth ok)))"

definition move_sc :: "'s world \<Rightarrow> 's handler" where
  "move_sc W a =
     sbind (sc_copy_string W (arg_a a) (arg_b a)) (\<lambda>fn_a.
     sbind (sc_copy_string W (arg_c a) (arg_d a)) (\<lambda>fn_b.
     sbind (case (fn_a, fn_b) of
              (Some pa, Some pb) \<Rightarrow>
                (case (split_path pa, split_path pb) of
                   (Some (na, fa), Some (nb, fb)) \<Rightarrow>
                     if na \<noteq> nb then sret 0
                     else sbind (find_fs na) (\<lambda>fs. case fs of
                            None \<Rightarrow> sret 0
                          | Some x \<Rightarrow> sbind (on_files (fs_move (w_code W) x fa fb)) (\<lambda>ok. sret (of_truth ok)))
                 | _ \<Rightarrow> sret 0)
            | _ \<Rightarrow> sret 0) (\<lambda>r.
     sthen (free_if fn_a) (sthen (free_if fn_b) (sret r)))))"

definition give_stat :: "'s world \<Rightarrow> u32 \<Rightarrow> stat_t option \<Rightarrow> ('s, u32) sc" where
  "give_stat W addr st = (case st of None \<Rightarrow> sret 0 | Some x \<Rightarrow> sthen (store_words W addr (stat_words x)) (sret 1))"

definition stat_sc :: "'s world \<Rightarrow> 's handler" where
  "stat_sc W a =
     with_path W (arg_a a) (arg_b a) (\<lambda>fs fl.
       sthen (may_exit (probe_for_write (arg_c a) 12))
         (sbind (on_files (fs_stat (w_code W) fs fl)) (give_stat W (arg_c a))))"

section \<open>Open files\<close>

definition open_sc :: "'s world \<Rightarrow> 's handler" where
  "open_sc W a =
     with_path W (arg_a a) (arg_b a) (\<lambda>fs fl.
       sbind (on_files (fs_open (w_code W) fs fl (arg_c a))) (\<lambda>h. case h of None \<Rightarrow> sret 0 | Some x \<Rightarrow> give_fd W x))"

definition close_sc :: "'s world \<Rightarrow> 's handler" where
  "close_sc W a = sbind current_process (\<lambda>p. sthen (do_sys (proc_close_fd W p (arg_a a))) (sret 0))"

definition read_sc :: "'s world \<Rightarrow> 's handler" where
  "read_sc W a =
     with_fd (arg_a a) 0 (\<lambda>h.
       sthen (may_exit (probe_for_write (arg_d a) (arg_c a)))
         (sbind (on_files (file_read (w_code W) h (unat (arg_b a)) (unat (arg_c a)))) (\<lambda>bs.
            sthen (store_bytes W (arg_d a) bs) (sret (of_nat (length bs))))))"

definition write_sc :: "'s world \<Rightarrow> 's handler" where
  "write_sc W a =
     with_fd (arg_a a) 0 (\<lambda>h.
       sthen (may_exit (probe_for_read (arg_d a) (arg_c a)))
         (sbind (load_bytes W (arg_d a) (unat (arg_c a))) (\<lambda>bs.
            sbind (on_files (file_write (w_code W) h (unat (arg_b a)) bs)) (\<lambda>n. sret (of_nat n)))))"

definition name_bytes :: "string \<Rightarrow> u8 list" where
  "name_bytes nm = take DIR_MAX (map of_char nm @ replicate DIR_MAX 0)"

definition readdir_sc :: "'s world \<Rightarrow> 's handler" where
  "readdir_sc W a =
     with_fd (arg_a a) 0 (\<lambda>h.
       sthen (may_exit (probe_for_write (arg_c a) (of_nat DIR_MAX + 12)))
         (sbind (on_files (file_readdir (w_code W) h (unat (arg_b a)))) (\<lambda>d.
            case d of
              None \<Rightarrow> sret 0
            | Some x \<Rightarrow> sthen (store_bytes W (arg_c a) (name_bytes (d_name x) @ concat (map bytes_of (stat_words (d_st x))))) (sret 1))))"

definition stat_open_sc :: "'s world \<Rightarrow> 's handler" where
  "stat_open_sc W a =
     with_fd (arg_a a) 0 (\<lambda>h.
       sthen (may_exit (probe_for_write (arg_b a) 12))
         (sbind (on_files (file_stat (w_code W) h)) (give_stat W (arg_b a))))"

definition ioctl_sc :: "'s world \<Rightarrow> 's handler" where
  "ioctl_sc W a =
     with_fd (arg_a a) (- 1) (\<lambda>h.
       if arg_c a \<ge> K_HIGHHALF_ADDR then sret (- 1)
       else sbind (on_files (file_ioctl (w_code W) h (sint (arg_b a)) (unat (arg_c a)))) (\<lambda>r. sret (of_int r)))"

definition fctl_sc :: "'s handler" where
  "fctl_sc a =
     with_fd (arg_a a) 0 (\<lambda>h.
       on_files (\<lambda>v. rbind (deref (v_files v) h) (\<lambda>fh.
         if arg_b a = FC_GET_MODE then Inr (fh_mode fh, v)
         else if arg_b a = FC_SET_BLOCKING then
           Inr (1, v\<lparr>v_files := (v_files v)(h \<mapsto> fh\<lparr>fh_mode := fh_mode fh OR FM_BLOCKING\<rparr>)\<rparr>)
         else if arg_b a = FC_SET_NONBLOCKING then
           Inr (1, v\<lparr>v_files := (v_files v)(h \<mapsto> fh\<lparr>fh_mode := fh_mode fh AND NOT FM_BLOCKING\<rparr>)\<rparr>)
         else Inr (0, v))))"

section \<open>Waiting for files\<close>

text \<open>The loop over the descriptors, of eight bytes each: \<open>fd\<close>, \<open>req_flags\<close> and \<open>got_flags\<close>. It counts the objects to wait on, in
  \<open>n_objs\<close>; the array that the code keeps them in has room for \<open>cap\<close>.\<close>

fun poll_fds :: "'s world \<Rightarrow> nat \<Rightarrow> u32 list \<Rightarrow> nat \<Rightarrow> bool \<Rightarrow> ('s, nat \<times> bool) sc" where
  "poll_fds W cap [] n_objs ret = sret (n_objs, ret)"
| "poll_fds W cap (ad # ads) n_objs ret =
     sbind current_process (\<lambda>p. sbind (load_word W ad) (\<lambda>fd. sbind (on_sys (proc_read_fd p fd)) (\<lambda>h.
       case h of
         None \<Rightarrow> poll_fds W cap ads n_objs ret
       | Some x \<Rightarrow>
           if cap \<le> n_objs then (\<lambda>s. Inl Bad_access)
           else
             sbind (on_files (file_poll (w_code W) x)) (\<lambda>(got, obj).
             sthen (store_bytes W (ad + 6) (take 2 (bytes_of got)))
               (sbind (load_word W (ad + 4)) (\<lambda>flags.
                  poll_fds W cap ads (if obj = None then n_objs else n_objs + 1)
                    (ret \<or> (drop_bit 16 flags) AND (flags AND 0xFFFF) \<noteq> 0)))))))"

definition now_sc :: "('s, u64) sc" where
  "now_sc s = sret (get_kernel_time (tk_work (kn_tokens s))) s"

text \<open>The wake-up: \<open>time - select_begin_time - timeout\<close>, cut to an \<open>int\<close>.\<close>

definition push_wake :: "u64 \<Rightarrow> u64 \<Rightarrow> u32 \<Rightarrow> ('s, unit) sc" where
  "push_wake time begun timeout s =
     (let tk = kn_tokens s; usecs = sint (ucast (time - begun - scast timeout) :: u32)
      in Inr (Done (), s\<lparr>kn_tokens := tk\<lparr>tk_next := tk_next tk + 1,
           tk_work := snd (worker_push_in (tk_next tk) usecs (Other_task 0) 0 (tk_work tk))\<rparr>\<rparr>))"

text \<open>Each round polls; \<open>others\<close> says what happens in each wait, and whether the wait was woken rather than interrupted.\<close>

fun select_loop ::
  "'s world \<Rightarrow> (bool \<times> ('s kernel \<Rightarrow> 's kernel)) list \<Rightarrow> nat \<Rightarrow> u32 list \<Rightarrow> u32 \<Rightarrow> u64 \<Rightarrow> ('s, bool) sc" where
  "select_loop W others cap ads timeout begun =
     sbind (poll_fds W cap ads (if 0 < sint timeout then 1 else 0) False) (\<lambda>(n_objs, ret). sbind now_sc (\<lambda>time.
       if ret then sret True
       else if n_objs = 0 then sret False
       else if 0 \<le> sint timeout \<and> scast timeout \<le> time - begun then sret False
       else
         sthen (if 0 < sint timeout then push_wake time begun timeout else sret ()) (\<lambda>s.
           case others of
             [] \<Rightarrow> Inr (Waits, s)
           | (woken, g) # rest \<Rightarrow>
               if \<not> woken then sret False (g s) else select_loop W rest cap ads timeout begun (g s))))"

declare select_loop.simps [simp del]

definition select_sc :: "'s world \<Rightarrow> (bool \<times> ('s kernel \<Rightarrow> 's kernel)) list \<Rightarrow> 's handler" where
  "select_sc W others a =
     (let n = arg_b a
      in sthen (may_exit (probe_for_write (arg_a a) (n * 8)))
           (sbind now_sc (\<lambda>begun.
            sbind (on_sys (\<lambda>s. case heap_malloc (k_heap s) of (ok, h) \<Rightarrow> Inr (ok, s\<lparr>k_heap := h\<rparr>))) (\<lambda>ok.
              if \<not> ok then sret 0
              else
                sbind (select_loop W others (unat ((n + 1) * 4) div 4)
                         (map (\<lambda>i. arg_a a + of_nat (i * 8)) [0..<unat n]) (arg_c a) begun) (\<lambda>ret.
                sthen free_sc (sret (of_truth ret)))))))"

section \<open>Channels\<close>

text \<open>A handle that got a number is closed by it and the number set to zero again, and dropped otherwise.\<close>

definition drop_end :: "'s world \<Rightarrow> u32 \<Rightarrow> nat option \<Rightarrow> ('s, unit) sc" where
  "drop_end W addr ch =
     sbind (load_word W addr) (\<lambda>fd.
       if fd \<noteq> 0 then sbind current_process (\<lambda>p. sbind (load_word W addr) (\<lambda>fd2.
         sthen (do_sys (proc_close_fd W p fd2)) (store_words W addr [0])))
       else (case ch of None \<Rightarrow> sret () | Some h \<Rightarrow> do_files (unref_file (w_code W) h)))"

definition make_channel_sc :: "'s world \<Rightarrow> (bool \<Rightarrow> 's vfs \<Rightarrow> ((nat option \<times> nat option) \<times> 's vfs) res) \<Rightarrow> 's handler" where
  "make_channel_sc W mk a =
     (let f = arg_b a
      in sthen (may_exit (probe_for_write f 8))
           (sthen (store_words W (f + 4) [0]) (sthen (store_words W f [0])
           (sbind (on_files (mk (arg_a a \<noteq> 0))) (\<lambda>(ca, cb).
            sbind (case (ca, cb) of
                     (Some ha, Some hb) \<Rightarrow>
                       sbind current_process (\<lambda>p. sbind (on_sys (proc_add_fd p ha)) (\<lambda>fa.
                       sthen (store_words W f [fa])
                         (if fa = 0 then sret False
                          else sbind (on_sys (proc_add_fd p hb)) (\<lambda>fb. sthen (store_words W (f + 4) [fb]) (sret (fb \<noteq> 0))))))
                   | _ \<Rightarrow> sret False) (\<lambda>ok.
              if ok then sret 1 else sthen (drop_end W f ca) (sthen (drop_end W (f + 4) cb) (sret 0))))))))"

text \<open>It is not in the table of calls.\<close>

definition make_shm_sc :: "'s world \<Rightarrow> (nat \<Rightarrow> 's vfs \<Rightarrow> (nat option \<times> 's vfs) res) \<Rightarrow> 's handler" where
  "make_shm_sc W mk a =
     sbind (on_files (mk (unat (arg_a a)))) (\<lambda>h. case h of None \<Rightarrow> sret 0 | Some x \<Rightarrow> give_fd W x)"

section \<open>Tokens\<close>

definition gen_token_sc :: "'s world \<Rightarrow> 's handler" where
  "gen_token_sc W a =
     with_fd (arg_a a) 0 (\<lambda>h.
       sthen (may_exit (probe_for_write (arg_b a) (of_nat TOKEN_LENGTH))) (\<lambda>s.
         rbind (gen_token_for h (kn_tokens s) (k_vfs (kn_sys s))) (\<lambda>(ok, tok, tk, v).
           sthen (case tok of None \<Rightarrow> sret () | Some bs \<Rightarrow> store_bytes W (arg_b a) bs) (sret (of_truth ok))
             (s\<lparr>kn_sys := (kn_sys s)\<lparr>k_vfs := v\<rparr>, kn_tokens := tk\<rparr>))))"

definition use_token_sc :: "'s world \<Rightarrow> 's handler" where
  "use_token_sc W a =
     sthen (may_exit (probe_for_read (arg_a a) (of_nat TOKEN_LENGTH)))
       (sbind (load_bytes W (arg_a a) TOKEN_LENGTH) (\<lambda>tok s.
          rbind (use_token tok (kn_tokens s)) (\<lambda>(h, tk).
            (case h of None \<Rightarrow> sret 0 | Some x \<Rightarrow> give_fd W x) (s\<lparr>kn_tokens := tk\<rparr>))))"

section \<open>File systems of processes\<close>

text \<open>\<open>sc_make_fs_args_t\<close>: \<open>driver\<close>, \<open>fs_name\<close> at 0 and 8, each followed by its length, \<open>source_fd\<close> at 16, \<open>opts\<close> and
  its length at 20 and 24, \<open>bind_to_pid\<close> at 28. The fields are read where they are used.\<close>

definition target_process :: "'s world \<Rightarrow> u32 \<Rightarrow> ('s, nat option) sc" where
  "target_process W addr =
     sbind (load_word W addr) (\<lambda>pid.
       if pid = 0 then sbind current_process (\<lambda>p. sret (Some p))
       else sbind current_process (\<lambda>p. sbind (load_word W addr) (\<lambda>pid2. on_sys (process_find_child p pid2))))"

definition copy_field :: "'s world \<Rightarrow> u32 \<Rightarrow> ('s, string option) sc" where
  "copy_field W addr = sbind (load_word W addr) (\<lambda>p. sbind (load_word W (addr + 4)) (\<lambda>n. sc_copy_string W p n))"

text \<open>Several strings are copied; the first that fails ends the call, and those copied are freed in any case.\<close>

fun with_fields :: "'s world \<Rightarrow> u32 list \<Rightarrow> string list \<Rightarrow> (string list \<Rightarrow> ('s, u32) sc) \<Rightarrow> ('s, u32) sc" where
  "with_fields W [] xs f = f (rev xs)"
| "with_fields W (ad # ads) xs f =
     sbind (copy_field W ad) (\<lambda>x.
       case x of
         None \<Rightarrow> sret 0
       | Some y \<Rightarrow> sbind (with_fields W ads (y # xs) f) (\<lambda>r. sthen free_sc (sret r)))"

text \<open>The new file system is given to the process under the name, or released again.\<close>

definition give_fs :: "'s world \<Rightarrow> nat \<Rightarrow> string \<Rightarrow> nat \<Rightarrow> ('s, u32) sc" where
  "give_fs W p name fs =
     sbind (on_sys (proc_add_fs p fs name)) (\<lambda>ok.
       if ok then sret 1 else sthen (do_sys (unref_fs_at W fs)) (sret 0))"

definition make_fs_sc :: "'s world \<Rightarrow> 's handler" where
  "make_fs_sc W a =
     (let base = arg_a a
      in sthen (may_exit (probe_for_read base 32))
           (sbind (target_process W (base + 28)) (\<lambda>t.
              case t of
                None \<Rightarrow> sret 0
              | Some p \<Rightarrow>
                  sbind (load_word W (base + 16)) (\<lambda>fd.
                  sbind (if fd = 0 then sret (Some None)
                         else sbind current_process (\<lambda>c. sbind (load_word W (base + 16)) (\<lambda>fd2.
                                sbind (on_sys (proc_read_fd c fd2)) (\<lambda>h. sret (map_option Some h))))) (\<lambda>source.
                    case source of
                      None \<Rightarrow> sret 0
                    | Some src \<Rightarrow>
                        with_fields W [base, base + 8, base + 20] [] (\<lambda>xs.
                          sbind (on_files (make_fs (w_code W) (Some (xs ! 0)) src (xs ! 2))) (\<lambda>fs.
                            case fs of None \<Rightarrow> sret 0 | Some x \<Rightarrow> give_fs W p (xs ! 1) x)))))))"

definition fs_add_src_sc :: "'s world \<Rightarrow> 's handler" where
  "fs_add_src_sc W a =
     sbind (sc_copy_string W (arg_a a) (arg_b a)) (\<lambda>fs_name.
       case fs_name of
         None \<Rightarrow> sret 0
       | Some nm \<Rightarrow>
           sbind (sc_copy_string W (arg_d a) (arg_e a)) (\<lambda>opts.
           sbind (case opts of
                    None \<Rightarrow> sret 0
                  | Some o2 \<Rightarrow>
                      sbind (find_fs nm) (\<lambda>fs. case fs of
                        None \<Rightarrow> sret 0
                      | Some x \<Rightarrow> with_fd (arg_c a) 0 (\<lambda>src.
                          sbind (on_files (fs_add_source (w_code W) x (Some src) o2)) (\<lambda>ok. sret (of_truth ok))))) (\<lambda>r.
           sthen free_sc (sthen (free_if opts) (sret r)))))"

text \<open>\<open>sc_subfs_args_t\<close>: \<open>new_name\<close>, \<open>from_fs\<close> and \<open>root\<close> at 0, 8 and 16 with their lengths, \<open>ok_modes\<close> at 24 and
  \<open>bind_to_pid\<close> at 28.\<close>

definition fs_subfs_sc :: "'s world \<Rightarrow> 's handler" where
  "fs_subfs_sc W a =
     (let base = arg_a a
      in sthen (may_exit (probe_for_read base 32))
           (sbind (target_process W (base + 28)) (\<lambda>t.
              case t of
                None \<Rightarrow> sret 0
              | Some p \<Rightarrow>
                  with_fields W [base, base + 8, base + 16] [] (\<lambda>xs.
                    sbind (find_fs (xs ! 1)) (\<lambda>orig. case orig of
                      None \<Rightarrow> sret 0
                    | Some fs \<Rightarrow>
                        sbind (load_word W (base + 24)) (\<lambda>modes.
                        sbind (on_files (fs_subfs (w_code W) fs (xs ! 2) modes)) (\<lambda>new_fs.
                          case new_fs of None \<Rightarrow> sret 0 | Some x \<Rightarrow> give_fs W p (xs ! 0) x)))))))"

definition rm_fs_sc :: "'s world \<Rightarrow> 's handler" where
  "rm_fs_sc W a =
     sbind (sc_copy_string W (arg_a a) (arg_b a)) (\<lambda>nm.
       case nm of
         None \<Rightarrow> sret 0
       | Some x \<Rightarrow> sbind current_process (\<lambda>p. sthen (do_sys (proc_rm_fs W p x)) (sthen free_sc (sret 1))))"

section \<open>Child processes\<close>

definition new_proc_sc :: "'s world \<Rightarrow> 's handler" where
  "new_proc_sc W a =
     sbind current_process (\<lambda>p. on_sys (\<lambda>s. rbind (new_process W (Some p) s) (\<lambda>(x, s1).
       case x of None \<Rightarrow> Inr (0, s1) | Some c \<Rightarrow> rbind (deref (k_procs s1) c) (\<lambda>pr. Inr (p_pid pr, s1)))))"

text \<open>The calls on a child.\<close>

definition with_child :: "u32 \<Rightarrow> (nat \<Rightarrow> ('s, u32) sc) \<Rightarrow> ('s, u32) sc" where
  "with_child pid f =
     sbind current_process (\<lambda>p. sbind (on_sys (process_find_child p pid)) (\<lambda>c. case c of None \<Rightarrow> sret 0 | Some x \<Rightarrow> f x))"

definition bind_fs_sc :: "'s world \<Rightarrow> 's handler" where
  "bind_fs_sc W a =
     with_child (arg_a a) (\<lambda>p.
       sbind (sc_copy_string W (arg_b a) (arg_c a)) (\<lambda>new_name.
         case new_name of
           None \<Rightarrow> sret 0
         | Some nn \<Rightarrow>
             sbind (sc_copy_string W (arg_d a) (arg_e a)) (\<lambda>old_name.
             sbind (case old_name of
                      None \<Rightarrow> sret 0
                    | Some old \<Rightarrow>
                        sbind (find_fs old) (\<lambda>f. case f of
                          None \<Rightarrow> sret 0
                        | Some fs \<Rightarrow> sthen (do_files (ref_fs fs)) (give_fs W p nn fs))) (\<lambda>r.
             sthen (free_if old_name) (sthen free_sc (sret r))))))"

definition bind_fd_sc :: "'s world \<Rightarrow> 's handler" where
  "bind_fd_sc W a =
     with_child (arg_a a) (\<lambda>p.
       with_fd (arg_c a) 0 (\<lambda>h.
         sthen (do_files (ref_file h))
           (sbind (on_sys (proc_add_fd_as p h (arg_b a))) (\<lambda>ok.
              if ok then sret 1 else sthen (do_files (unref_file (w_code W) h)) (sret 0)))))"

text \<open>The program file is opened for mapping, or else for reading.\<close>

definition open_program :: "'s world \<Rightarrow> nat \<Rightarrow> string \<Rightarrow> ('s, nat option) sc" where
  "open_program W fs fl =
     sbind (on_files (fs_open (w_code W) fs fl (FM_READ OR FM_MMAP))) (\<lambda>h.
       case h of Some x \<Rightarrow> sret (Some x) | None \<Rightarrow> on_files (fs_open (w_code W) fs fl FM_READ))"

definition proc_exec_sc :: "'s world \<Rightarrow> 's handler" where
  "proc_exec_sc W a =
     with_child (arg_a a) (\<lambda>p.
       with_path W (arg_b a) (arg_c a) (\<lambda>fs fl.
         sbind (open_program W fs fl) (\<lambda>h.
           case h of
             None \<Rightarrow> sret 0
           | Some x \<Rightarrow>
               sbind (elf_load W x p) (\<lambda>start.
               sbind (if start = 0 then sret 0
                      else sbind (on_sys (start_process W p start)) (\<lambda>ok. sret (of_truth ok))) (\<lambda>r.
               sthen (do_files (unref_file (w_code W) x)) (sret r))))))"

definition store_status :: "'s world \<Rightarrow> u32 \<Rightarrow> proc_status_t \<Rightarrow> ('s, unit) sc" where
  "store_status W addr st = store_words W addr [ps_pid st, ps_status st, ps_exit_code st]"

definition proc_status_sc :: "'s world \<Rightarrow> 's handler" where
  "proc_status_sc W a =
     sthen (may_exit (probe_for_write (arg_b a) 12))
       (with_child (arg_a a) (\<lambda>p.
          sbind (on_sys (process_get_status p)) (\<lambda>st. sthen (store_status W (arg_b a) st) (sret 1))))"

text \<open>A wait for a child: what the caller had in \<open>exit_code\<close> stays there when there is no status.\<close>

definition waiting :: "'s world \<Rightarrow> u32 \<Rightarrow> (u32 \<Rightarrow> (bool \<times> ('s ksys \<Rightarrow> 's ksys)) list \<Rightarrow> 's ksys \<Rightarrow> (proc_status_t option \<times> 's ksys) res) \<Rightarrow> ('s, u32) sc" where
  "waiting W addr f =
     sbind (load_word W (addr + 8)) (\<lambda>junk s.
       sbind (on_sys (f junk (kn_child_waits s))) (\<lambda>st s1.
         case st of None \<Rightarrow> Inr (Waits, s1) | Some x \<Rightarrow> sthen (store_status W addr x) (sret 1) s1) s)"

text \<open>The depth of the tree of processes is at most the number of addresses given out.\<close>

definition proc_kill_sc :: "'s world \<Rightarrow> 's handler" where
  "proc_kill_sc W a =
     sthen (may_exit (probe_for_write (arg_b a) 12))
       (with_child (arg_a a) (\<lambda>p.
          sthen (do_sys (\<lambda>s. process_exit W (Suc (k_next s)) p PS_KILLED 0 s))
            (waiting W (arg_b a) (\<lambda>junk others. process_wait junk others p True))))"

definition proc_wait_sc :: "'s world \<Rightarrow> 's handler" where
  "proc_wait_sc W a =
     sthen (may_exit (probe_for_write (arg_c a) 12))
       (let wait = (arg_b a \<noteq> 0)
        in if arg_a a = 0 then
             sbind current_process (\<lambda>p. waiting W (arg_c a) (\<lambda>junk others. process_wait_any_child junk others p wait))
           else
             with_child (arg_a a) (\<lambda>p. waiting W (arg_c a) (\<lambda>junk others. process_wait junk others p wait)))"

section \<open>The table of calls\<close>

definition sc_handlers ::
  "'s world \<Rightarrow> (bool \<Rightarrow> 's vfs \<Rightarrow> ((nat option \<times> nat option) \<times> 's vfs) res) \<Rightarrow> (bool \<times> ('s kernel \<Rightarrow> 's kernel)) list
     \<Rightarrow> nat \<Rightarrow> 's handler option" where
  "sc_handlers W mk others = map_of [
     (SC_EXIT, exit_sc), (SC_YIELD, yield_sc), (SC_DBG_PRINT, dbg_print_sc W), (SC_USLEEP, usleep_sc),
     (SC_NEW_THREAD, new_thread_sc), (SC_EXIT_THREAD, exit_thread_sc),
     (SC_MMAP, mmap_sc W), (SC_MMAP_FILE, mmap_file_sc W), (SC_MCHMAP, mchmap_sc W), (SC_MUNMAP, munmap_sc W),
     (SC_CREATE, create_sc W), (SC_DELETE, delete_sc W), (SC_MOVE, move_sc W), (SC_STAT, stat_sc W),
     (SC_OPEN, open_sc W), (SC_CLOSE, close_sc W), (SC_READ, read_sc W), (SC_WRITE, write_sc W),
     (SC_READDIR, readdir_sc W), (SC_STAT_OPEN, stat_open_sc W), (SC_IOCTL, ioctl_sc W), (SC_FCTL, fctl_sc),
     (SC_SELECT, select_sc W others), (SC_MK_CHANNEL, make_channel_sc W mk), (SC_GEN_TOKEN, gen_token_sc W), (SC_USE_TOKEN, use_token_sc W),
     (SC_MAKE_FS, make_fs_sc W), (SC_FS_ADD_SRC, fs_add_src_sc W), (SC_SUBFS, fs_subfs_sc W), (SC_RM_FS, rm_fs_sc W),
     (SC_NEW_PROC, new_proc_sc W), (SC_BIND_FS, bind_fs_sc W), (SC_BIND_SUBFS, fs_subfs_sc W), (SC_BIND_MAKE_FS, make_fs_sc W),
     (SC_BIND_FD, bind_fd_sc W), (SC_PROC_EXEC, proc_exec_sc W), (SC_PROC_STATUS, proc_status_sc W),
     (SC_PROC_KILL, proc_kill_sc W), (SC_PROC_WAIT, proc_wait_sc W)]"

text \<open>The value of \<open>eax\<close> after the call; a number beyond the table leaves it alone.\<close>

definition syscall_handler ::
  "'s world \<Rightarrow> (bool \<Rightarrow> 's vfs \<Rightarrow> ((nat option \<times> nat option) \<times> 's vfs) res) \<Rightarrow> (bool \<times> ('s kernel \<Rightarrow> 's kernel)) list
     \<Rightarrow> u32 \<Rightarrow> sc_args_t \<Rightarrow> ('s, u32) sc" where
  "syscall_handler W mk others eax args =
     (if unat eax < SC_MAX then (case sc_handlers W mk others (unat eax) of Some h \<Rightarrow> h args | None \<Rightarrow> sret (- 1))
      else sret eax)"

end
