(* ===== verification/Proc_Pagers.thy ===== *)
theory Proc_Pagers
  imports Pager_Props
begin

text \<open>
  What the processes need of a pager of anonymous memory: which frames it takes when a page is asked for, that an access
  changes the flags of its entries only, and that it gives its frames back when it is deleted.
\<close>

section \<open>Frames of a pager\<close>

definition pager_frames :: "pager \<Rightarrow> nat set" where
  "pager_frames p = {frame_of p x |x. entry p x \<noteq> 0}"

lemma in_pager_frames: "f \<in> pager_frames p \<longleftrightarrow> (\<exists>x. entry p x \<noteq> 0 \<and> f = frame_of p x)"
  by (auto simp: pager_frames_def)

text \<open>Frames are taken, and none that was in use; the contents of those in use, and the entries there are, stay.\<close>

definition grows :: "'s pstate \<Rightarrow> 's pstate \<Rightarrow> bool" where
  "grows s s' \<longleftrightarrow> used_set (pe_frames (snd s)) \<subseteq> used_set (pe_frames (snd s'))
     \<and> (\<forall>x. entry (fst s) x \<noteq> 0 \<longrightarrow> entry (fst s') x = entry (fst s) x)
     \<and> (\<forall>x. entry (fst s) x = 0 \<and> entry (fst s') x \<noteq> 0 \<longrightarrow> frame_of (fst s') x \<notin> used_set (pe_frames (snd s)))
     \<and> (\<forall>f \<in> used_set (pe_frames (snd s)). pe_phys (snd s') f = pe_phys (snd s) f)
     \<and> pe_dev (snd s') = pe_dev (snd s) \<and> pg_maps (fst s') = pg_maps (fst s)"

lemma grows_refl [simp]: "grows s s"
  by (simp add: grows_def)

lemma grows_trans:
  assumes "grows s t" and "grows t u"
  shows "grows s u"
  unfolding grows_def
proof (intro conjI allI impI ballI)
  fix x assume x: "entry (fst s) x = 0 \<and> entry (fst u) x \<noteq> 0"
  show "frame_of (fst u) x \<notin> used_set (pe_frames (snd s))"
  proof (cases "entry (fst t) x = 0")
    case True
    then show ?thesis using x assms unfolding grows_def by blast
  next
    case False
    then have "frame_of (fst u) x = frame_of (fst t) x" using assms(2) by (simp add: grows_def frame_of_def)
    then show ?thesis using x False assms(1) by (simp add: grows_def)
  qed
qed (use assms in \<open>auto simp: grows_def\<close>)

lemma get_frame_used:
  assumes "frames_ok (p, e)" and "get_frame e = Inr (f, e1)"
  shows "if f = 0 then used_set (pe_frames e1) = used_set (pe_frames e)
         else f \<notin> used_set (pe_frames e) \<and> used_set (pe_frames e1) = insert f (used_set (pe_frames e)) \<and> f < 2 ^ 20"
    and "e1 = e\<lparr>pe_frames := pe_frames e1\<rparr>" and "frame_ok (pe_frames e1)"
proof -
  obtain b fr where a: "frame_alloc 1 (pe_frames e) = Inr (b, fr)" "frame_ok fr"
    "b = 0 \<and> used_set fr = used_set (pe_frames e)
     \<or> b \<noteq> 0 \<and> run_at (pe_frames e) 1 b \<and> used_set fr = used_set (pe_frames e) \<union> {b ..< b + 1} \<and> used_set (pe_frames e) \<inter> {b ..< b + 1} = {}"
    using frame_alloc_law [OF frames_okD(2) [OF assms(1)], of 1] by auto
  have e1: "f = b" "e1 = e\<lparr>pe_frames := fr\<rparr>" using assms(2) a(1) by (simp_all add: get_frame_def)
  have "b < 2 ^ 20" if "run_at (pe_frames e) 1 b"
  proof -
    have "b div 32 < nframes (pe_frames e) div 32" using that by (simp add: run_at_def)
    then have "b < nframes (pe_frames e)" by (meson div_le_mono not_le)
    then show ?thesis using frames_okD(3) [OF assms(1)] by simp
  qed
  with a(3) e1 show "if f = 0 then used_set (pe_frames e1) = used_set (pe_frames e)
         else f \<notin> used_set (pe_frames e) \<and> used_set (pe_frames e1) = insert f (used_set (pe_frames e)) \<and> f < 2 ^ 20"
    by auto
  show "e1 = e\<lparr>pe_frames := pe_frames e1\<rparr>" "frame_ok (pe_frames e1)" using e1 a(2) by simp_all
qed

lemma map_answer_same: "map_answer e = (b, e') \<Longrightarrow> e' = e\<lparr>pe_tables := pe_tables e'\<rparr>"
  by (auto simp: map_answer_def)

lemma add_entry_maps: "add_entry page v (p, e) = (b, p', e') \<Longrightarrow> pg_maps p' = pg_maps p"
  by (auto simp: add_entry_def split: prod.splits)

lemma swap_one_grows:
  assumes ok: "frames_ok (p, e)" and run: "swap_page_in_one page (p, e) = Inr (p', e')"
  shows "grows (p, e) (p', e')"
proof (cases "entry p page = 0")
  case False
  then show ?thesis using run by (simp add: swap_page_in_one_def)
next
  case z: True
  obtain f e1 where g: "get_frame e = Inr (f, e1)" using get_frame_ok [OF ok] by metis
  note u = get_frame_used [OF ok g]
  show ?thesis
  proof (cases "f = 0")
    case True
    then have "(p', e') = (p, e1)" using run z g by (simp add: swap_page_in_one_def)
    then show ?thesis using u True by (simp add: grows_def) (metis pager_env.select_convs(2,7) pager_env.surjective pager_env.update_convs(1))
  next
    case False
    obtain m e2 where m: "map_answer e1 = (m, e2)" by (cases "map_answer e1")
    note m2 = map_answer_same [OF m]
    have e2: "pe_frames e2 = pe_frames e1" "pe_phys e2 = pe_phys e" "pe_dev e2 = pe_dev e"
      by (subst m2; subst u(2); simp)+
    have used: "used_set (pe_frames e1) = insert f (used_set (pe_frames e))" "f \<notin> used_set (pe_frames e)" "f < 2 ^ 20"
      using u(1) False by simp_all
    show ?thesis
    proof (cases m)
      case False
      then have "(p', e') = (p, e2)" using run z g m \<open>f \<noteq> 0\<close> by (simp add: swap_page_in_one_def)
      then show ?thesis using e2 used by (auto simp: grows_def)
    next
      case True
      define e3 where "e3 = e2\<lparr>pe_phys := (pe_phys e2)(f := zero_page)\<rparr>"
      let ?v = "push_bit ENT_FRAME_SHIFT (of_nat f) :: u32"
      have fv: "entry_frame ?v = f" by (rule entry_frame_shift [OF used(3)])
      obtain b q e4 where a: "add_entry page ?v (p, e3) = (b, q, e4)" by (metis prod_cases3)
      note a1 = entry_add [OF frames_okD(1) [OF ok] a]
      obtain h where h: "e4 = e3\<lparr>pe_heap := h\<rparr>" using a1(4) by blast
      have r: "(if b then Inr (q, e4) else release_frame f (q, e4)) = Inr (p', e')"
        using run z g m True \<open>f \<noteq> 0\<close> a by (simp add: swap_page_in_one_def e3_def)
      show ?thesis
      proof (cases b)
        case True
        then show ?thesis
          using r a1(2) used e2 fv z add_entry_maps [OF a] by (auto simp: grows_def h e3_def frame_of_def)
      next
        case False
        then obtain fr where fr: "frame_free (of_nat f) 1 (pe_frames e4) = Inr fr" "p' = q" "e' = e4\<lparr>pe_frames := fr\<rparr>"
          using r by (auto simp: release_frame_def rbind_Inr_iff)
        have "frame_ok (pe_frames e4)" "pe_frames e4 = pe_frames e1" using u(3) e2 by (simp_all add: h e3_def)
        then have "used_set fr = used_set (pe_frames e)"
          using frame_free_law [of "pe_frames e4" f] fr(1) used \<open>f \<noteq> 0\<close> by auto
        moreover have "entry q x = entry p x" for x using a1(2) False by simp
        ultimately show ?thesis
          using fr used e2 add_entry_maps [OF a] by (auto simp: grows_def h e3_def frame_of_def)
      qed
    qed
  qed
qed

lemma each_swap_grows:
  assumes "frames_ok s" and "each_page swap_page_in_one ps s = Inr s'"
  shows "grows s s'"
  using assms
proof (induction ps arbitrary: s)
  case (Cons x ps)
  obtain s1 where s1: "swap_page_in_one x s = Inr s1" "each_page swap_page_in_one ps s1 = Inr s'"
    using Cons.prems(2) by (auto simp: rbind_Inr_iff)
  have "frames_ok s1" using swap_page_in_one_ok [OF Cons.prems(1), of x] s1(1) by (auto simp: quiet_step_def)
  moreover have "grows s s1"
    using swap_one_grows [of "fst s" "snd s" x "fst s1" "snd s1"] Cons.prems(1) s1(1) by simp
  ultimately show ?case using Cons.IH [OF _ s1(2)] grows_trans by blast
qed simp

section \<open>The frame of a page\<close>

lemma one_page:
  assumes "PAGE_ALIGNED off" and "unat off + 4096 \<le> 2 ^ 32 - 4096"
  shows "page_range off PAGE_SIZE = Inr [off]"
proof -
  have "page_range (of_nat (unat off)) (of_nat 4096) = Inr (pages (unat off) 1)"
    unfolding page_range_def of_nat_add [symmetric] by (rule pages_from_eq) (use assms in simp_all)
  then show ?thesis by (simp add: pages_def PAGE_SIZE_def)
qed

lemma frames_ok_maps [simp]: "frames_ok (p\<lparr>pg_maps := m\<rparr>, e) = frames_ok (p, e)"
  by (rule frames_ok_same) simp

lemma entry_maps [simp]: "entry (p\<lparr>pg_maps := m\<rparr>) = entry p" "frame_of (p\<lparr>pg_maps := m\<rparr>) = frame_of p"
  by (simp_all add: entry_def frame_of_def fun_eq_iff)

lemma grows_lock:
  "grows (p\<lparr>pg_locked := b\<rparr>, e) (p', e') \<Longrightarrow> grows (p, e) (p'\<lparr>pg_locked := c\<rparr>, e')"
  by (simp add: grows_def)

lemma pager_get_frame_swap:
  assumes ok: "swap_ok (q, e)" and off: "PAGE_ALIGNED off" "unat off + 4096 \<le> 2 ^ 32 - 4096"
  shows "\<exists>q' e'. pager_get_frame V off (q, e) = Inr (frame_of q' off, q', e') \<and> swap_ok (q', e') \<and> grows (q, e) (q', e')
    \<and> same_pager q q'"
proof -
  obtain al where k: "pg_kind q = Swap_pager al" "\<not> pg_locked q" "unat (pg_size q) \<le> 2 ^ 32 - 4096" and fo: "frames_ok (q, e)"
    using ok by (auto simp: swap_ok_def)
  define q1 where "q1 = q\<lparr>pg_locked := True\<rparr>"
  have q1: "pg_kind q1 = Swap_pager al" "frames_ok (q1, e)" "lock_pager q = Inr q1" using k fo by (simp_all add: q1_def lock_pager_def)
  have "\<exists>q2 e2. (if entry q1 off = 0 then op_page_in V off PAGE_SIZE (q1, e) else Inr (q1, e)) = Inr (q2, e2)
      \<and> quiet_step (q1, e) (q2, e2) \<and> grows (q1, e) (q2, e2)"
  proof (cases "entry q1 off = 0")
    case False
    then show ?thesis using quiet_step_refl [OF q1(2)] by simp
  next
    case True
    obtain q2 e2 where r: "swap_page_in off PAGE_SIZE (q1, e) = Inr (q2, e2)" "quiet_step (q1, e) (q2, e2)"
      using swap_page_in_ok [OF q1(2) off(1) one_page [OF off]] by blast
    obtain ra e1 where ra: "region_answer e = (ra, e1)" by (cases "region_answer e")
    have e1: "e1 = e\<lparr>pe_regions := pe_regions e1\<rparr>" "frames_ok (q1, e1)"
      using ra region_answer_ok [OF q1(2) ra] by (auto simp: region_answer_def quiet_step_def)
    have g1: "grows (q1, e) (q1, e1)" by (subst e1(1)) (simp add: grows_def)
    have "grows (q1, e1) (q2, e2)"
      using r(1) ra off(1) one_page [OF off] e1(2) each_swap_grows [OF e1(2), of "[off]"]
      by (auto simp: swap_page_in_def rbind_Inr_iff split: if_splits)
    then show ?thesis using r q1(1) True grows_trans [OF g1] by (simp add: op_page_in_def)
  qed
  then obtain q2 e2 where 2: "(if entry q1 off = 0 then op_page_in V off PAGE_SIZE (q1, e) else Inr (q1, e)) = Inr (q2, e2)"
    "quiet_step (q1, e) (q2, e2)" "grows (q1, e) (q2, e2)" by blast
  let ?q = "q2\<lparr>pg_locked := False\<rparr>"
  have "pager_get_frame V off (q, e) = Inr (frame_of ?q off, ?q, e2)"
    using 2(1) q1(3) off(1) by (simp add: pager_get_frame_def unlock_pager_def frame_of_def)
  moreover have "swap_ok (?q, e2)"
    using 2(2) q1(1) k by (simp add: swap_ok_def quiet_step_def same_pager_def q1_def)
  moreover have "grows (q, e) (?q, e2)" using 2(3) unfolding q1_def by (rule grows_lock)
  moreover have "same_pager q ?q" using 2(2) k(2) by (simp add: quiet_step_def same_pager_def q1_def)
  ultimately show ?thesis by blast
qed

section \<open>Access and deletion\<close>

lemma flags_frame:
  assumes "drop_bit 12 w = (0::u32)"
  shows "entry_frame (v OR w) = entry_frame v"
proof -
  have "drop_bit 12 (v OR w) = drop_bit 12 v" using assms by simp
  then show ?thesis by (simp add: entry_frame_def ENT_FRAME_SHIFT_def)
qed

lemma or_nonzero: "v \<noteq> (0::u32) \<Longrightarrow> v OR w \<noteq> 0"
  by (metis or_eq_0_iff)

lemma change_entry_spec:
  assumes "ht_ok id_key_eq_fun id_hash_fun (pg_pages p)" and "entry p x \<noteq> 0"
  shows "ht_ok id_key_eq_fun id_hash_fun (pg_pages (change_entry x v p))"
    and "entry (change_entry x v p) y = (if y = x then v else entry p y)"
proof -
  obtain b ht where ch: "hashtbl_change (pg_pages p) x v = (b, ht)" by fastforce
  have inv: "ht_inv (pg_pages p)" "ht_ef (pg_pages p) = id_key_eq_fun" "ht_hf (pg_pages p) = id_hash_fun"
    using assms(1) by (simp_all add: ht_ok_def)
  note c = hashtbl_change_spec [OF inv(1) ch]
  have found: "hashtbl_find (pg_pages p) x \<noteq> None" using assms(2) by (auto simp: entry_def split: option.splits)
  show "ht_ok id_key_eq_fun id_hash_fun (pg_pages (change_entry x v p))"
    using c(1,2) inv ch by (simp add: change_entry_def ht_ok_def ht_same_funs_def)
  show "entry (change_entry x v p) y = (if y = x then v else entry p y)"
    using c(3,4) found inv ch by (auto simp: change_entry_def entry_def id_key_eq_fun_def)
qed

lemma pager_access_swap:
  assumes ok: "swap_ok (q, e)" and off: "PAGE_ALIGNED off" "unat off + 4096 \<le> 2 ^ 32 - 4096"
  shows "\<exists>q'. pager_access off PAGE_SIZE acc dirty (q, e) = Inr (q', e) \<and> swap_ok (q', e) \<and> same_pager q q'
    \<and> pg_maps q' = pg_maps q \<and> frame_of q' = frame_of q \<and> (\<forall>x. entry q' x = 0 \<longleftrightarrow> entry q x = 0)"
proof -
  have k: "\<not> pg_locked q" and fo: "frames_ok (q, e)" using ok by (auto simp: swap_ok_def)
  define q1 where "q1 = q\<lparr>pg_locked := True\<rparr>"
  define w where "w = (if acc then PAGE_ACCESSED else 0) OR (if dirty then PAGE_DIRTY else 0)"
  define q2 where "q2 = (if entry q1 off \<noteq> 0 then change_entry off (entry q1 off OR w) q1 else q1)"
  have w: "drop_bit 12 w = 0" by (simp add: w_def PAGE_ACCESSED_def PAGE_DIRTY_def)
  have ht: "ht_ok id_key_eq_fun id_hash_fun (pg_pages q1)" using frames_okD(1) [OF fo] by (simp add: q1_def)
  have e2: "entry q2 y = (if y = off \<and> entry q1 off \<noteq> 0 then entry q1 off OR w else entry q1 y)" for y
    using change_entry_spec(2) [OF ht] by (auto simp: q2_def)
  have z: "entry q2 y = 0 \<longleftrightarrow> entry q y = 0" for y using e2 or_nonzero by (auto simp: q1_def)
  have f: "frame_of q2 = frame_of q" by (rule ext) (simp add: frame_of_def e2 flags_frame [OF w] q1_def)
  have ht2: "ht_ok id_key_eq_fun id_hash_fun (pg_pages q2)" using change_entry_spec(1) [OF ht] ht by (simp add: q2_def)
  have "frames_ok (q2, e)" by (rule frames_transfer [OF fo ht2 f z]) simp_all
  moreover have sp: "pg_kind q2 = pg_kind q" "pg_size q2 = pg_size q" "pg_maps q2 = pg_maps q"
    by (simp_all add: q2_def q1_def change_entry_def)
  ultimately have "swap_ok (q2\<lparr>pg_locked := False\<rparr>, e)" using ok by (simp add: swap_ok_def)
  moreover have "pager_access off PAGE_SIZE acc dirty (q, e) = Inr (q2\<lparr>pg_locked := False\<rparr>, e)"
    using k off(1) by (simp add: pager_access_def lock_pager_def one_page [OF off] unlock_pager_def q2_def q1_def w_def Let_def or.assoc)
  moreover have "same_pager q (q2\<lparr>pg_locked := False\<rparr>)" using sp k by (simp add: same_pager_def)
  ultimately show ?thesis using f z sp by (intro exI [of _ "q2\<lparr>pg_locked := False\<rparr>"]) simp
qed

text \<open>Release of one page: its frame, and nothing else, goes.\<close>

definition shrinks :: "'s pstate \<Rightarrow> 's pstate \<Rightarrow> bool" where
  "shrinks s s' \<longleftrightarrow> frames_ok s' \<and> used_set (pe_frames (snd s')) \<subseteq> used_set (pe_frames (snd s))
     \<and> used_set (pe_frames (snd s)) - used_set (pe_frames (snd s')) \<subseteq> pager_frames (fst s)
     \<and> pager_frames (fst s') \<subseteq> pager_frames (fst s) \<and> pe_phys (snd s') = pe_phys (snd s) \<and> pe_dev (snd s') = pe_dev (snd s)
     \<and> pg_size (fst s') = pg_size (fst s)"

lemma shrinks_refl: "frames_ok s \<Longrightarrow> shrinks s s"
  by (simp add: shrinks_def)

lemma shrinks_trans: "shrinks s t \<Longrightarrow> shrinks t u \<Longrightarrow> shrinks s u"
  unfolding shrinks_def by auto

lemma release_one_shrinks:
  assumes ok: "frames_ok s"
  shows "\<exists>s'. release_one x s = Inr s' \<and> shrinks s s'"
proof -
  obtain q e where s: "s = (q, e)" by (cases s)
  have ok: "frames_ok (q, e)" using ok s by simp
  show ?thesis
  proof (cases "frame_of q x = 0")
    case True
    then show ?thesis using shrinks_refl [OF ok] s by (simp add: release_one_def frame_of_def)
  next
    case False
    then have en: "entry q x \<noteq> 0" by (auto simp: frame_of_def entry_frame_def)
    obtain ht h where del: "ht_del (pe_heap e) (pg_pages q) x = (ht, h)" by fastforce
    define q' where "q' = q\<lparr>pg_pages := ht\<rparr>"
    note d = ht_del_spec [OF frames_okD(1) [OF ok] del]
    have e': "entry q' y = (if y = x then 0 else entry q y)" for y
      using d(2) by (auto simp: entry_def q'_def id_key_eq_fun_def)
    have f': "y \<noteq> x \<Longrightarrow> frame_of q' y = frame_of q y" for y by (simp add: frame_of_def e')
    let ?f = "frame_of q x"
    note sx = frames_soundD [OF frames_okD(4) [OF ok] en]
    obtain fr where fr: "frame_free (of_nat ?f) 1 (pe_frames e) = Inr fr" "frame_ok fr" "used_set fr = used_set (pe_frames e) - {?f}"
      using frame_free_law [OF frames_okD(2) [OF ok], of ?f] sx by blast
    define e1 where "e1 = e\<lparr>pe_heap := h, pe_frames := fr\<rparr>"
    have run: "release_one x s = Inr (q', e1)"
      using False del fr(1) s by (simp add: release_one_def frame_of_def remove_entry_def release_frame_def q'_def e1_def Let_def)
    have other: "frame_of q y \<noteq> ?f" if "entry q y \<noteq> 0" "y \<noteq> x" for y
      using frames_apartD [OF frames_okD(5) [OF ok] that(1) en] that(2) by blast
    have "frames_sound q' e1"
      unfolding frames_sound_def
    proof (intro allI impI)
      fix y assume "entry q' y \<noteq> 0"
      then have y: "y \<noteq> x" "entry q y \<noteq> 0" by (auto simp: e' split: if_splits)
      then show "frame_of q' y \<noteq> 0 \<and> frame_of q' y \<in> used_set (pe_frames e1) \<and> length (pe_phys e1 (frame_of q' y)) = 4096"
        using frames_soundD [OF frames_okD(4) [OF ok] y(2)] other [OF y(2,1)] fr(3) f' by (simp add: e1_def)
    qed
    moreover have "frames_apart q'"
      unfolding frames_apart_def using frames_apartD [OF frames_okD(5) [OF ok]] f' e' by (metis (full_types))
    moreover have "nframes fr \<le> 2 ^ 20" using frame_free_nframes [OF fr(1)] frames_okD(3) [OF ok] by simp
    ultimately have "frames_ok (q', e1)" using d(1) fr(2) by (simp add: frames_ok_def q'_def e1_def)
    moreover have "pager_frames q' \<subseteq> pager_frames q"
    proof
      fix g assume "g \<in> pager_frames q'"
      then obtain y where "entry q' y \<noteq> 0" "g = frame_of q' y" by (auto simp: in_pager_frames)
      then have "entry q y \<noteq> 0" "g = frame_of q y" by (auto simp: e' f' split: if_splits)
      then show "g \<in> pager_frames q" unfolding in_pager_frames by blast
    qed
    moreover have "?f \<in> pager_frames q" using en by (auto simp: in_pager_frames)
    ultimately have "shrinks (q, e) (q', e1)" using fr(3) by (auto simp: shrinks_def e1_def q'_def)
    then show ?thesis using run s by blast
  qed
qed

lemma each_release_shrinks:
  "frames_ok s \<Longrightarrow> \<exists>s'. each_page release_one ps s = Inr s' \<and> shrinks s s'"
proof (induction ps arbitrary: s)
  case (Cons x ps)
  obtain s1 where s1: "release_one x s = Inr s1" "shrinks s s1" using release_one_shrinks [OF Cons.prems] by blast
  then have "frames_ok s1" by (simp add: shrinks_def)
  then obtain s2 where s2: "each_page release_one ps s1 = Inr s2" "shrinks s1 s2" using Cons.IH [of s1] by blast
  show ?case by (rule exI [of _ s2]) (simp add: s1(1) s2(1) shrinks_trans [OF s1(2) s2(2)])
qed (simp add: shrinks_refl)

lemma whole_range:
  assumes "unat sz \<le> 2 ^ 32 - 4096"
  shows "\<exists>ps. page_range 0 sz = Inr ps"
proof -
  have "PAGE_ALIGN_DOWN 0 = 0" by (simp add: PAGE_ALIGN_DOWN_def)
  then show ?thesis using span_range [of 0 sz] assms by simp
qed

lemma delete_pager_swap:
  assumes ok: "swap_ok (q, e)" and maps: "pg_maps q = []"
  shows "\<exists>e'. delete_pager V (q, e) = Inr e' \<and> used_set (pe_frames e') \<subseteq> used_set (pe_frames e)
    \<and> used_set (pe_frames e) - used_set (pe_frames e') \<subseteq> pager_frames q
    \<and> frame_ok (pe_frames e') \<and> nframes (pe_frames e') \<le> 2 ^ 20 \<and> pe_phys e' = pe_phys e \<and> pe_dev e' = pe_dev e"
proof -
  obtain al where k: "pg_kind q = Swap_pager al" "\<not> pg_locked q" "unat (pg_size q) \<le> 2 ^ 32 - 4096" and fo: "frames_ok (q, e)"
    using ok by (auto simp: swap_ok_def)
  define q1 where "q1 = q\<lparr>pg_locked := True\<rparr>"
  have fo1: "frames_ok (q1, e)" "pager_frames q1 = pager_frames q" using fo by (simp_all add: q1_def pager_frames_def)
  obtain ps where ps: "page_range 0 (pg_size q) = Inr ps" using whole_range [OF k(3)] by blast
  obtain q2 e2 where 2: "each_page release_one ps (q1, e) = Inr (q2, e2)" "shrinks (q1, e) (q2, e2)"
    using each_release_shrinks [OF fo1(1)] by (metis surj_pair)
  have "swap_page_release 0 (pg_size q) (q1, e) = Inr (q2, e2)"
    using ps 2(1) by (simp add: swap_page_release_def PAGE_ALIGNED_def)
  then have "delete_pager V (q, e) = Inr (e2\<lparr>pe_heap := heap_free (snd (delete_hashtbl (pe_heap e2) (pg_pages q2)))\<rparr>)"
    using k maps by (simp add: delete_pager_def lock_pager_def op_page_commit_def op_page_release_def q1_def)
  then show ?thesis using 2(2) fo1(2) frames_okD(2,3) [of q2 e2] by (auto simp: shrinks_def)
qed

end
