(* ===== verification/Proc_Mem.thy ===== *)
theory Proc_Mem
  imports Process Proc_Pagers
begin

text \<open>
  The memory regions of processes: the table of regions of a process is well formed, and every operation of theory
  \<open>Process\<close> keeps it so.
\<close>

section \<open>What the calls of other components leave alone\<close>

lemma sys_simps [simp]:
  "k_procs (set_proc p pr s) = (k_procs s)(p \<mapsto> pr)" "k_regions (set_proc p pr s) = k_regions s"
  "k_pagers (set_proc p pr s) = k_pagers s" "k_next (set_proc p pr s) = k_next s" "k_heap (set_proc p pr s) = k_heap s"
  "k_paging (set_proc p pr s) = k_paging s" "k_vfs (set_proc p pr s) = k_vfs s" "k_env (set_proc p pr s) = k_env s"
  "k_procs (set_region a r s) = k_procs s" "k_regions (set_region a r s) = (k_regions s)(a \<mapsto> r)"
  "k_pagers (set_region a r s) = k_pagers s" "k_next (set_region a r s) = k_next s" "k_heap (set_region a r s) = k_heap s"
  "k_paging (set_region a r s) = k_paging s" "k_vfs (set_region a r s) = k_vfs s" "k_env (set_region a r s) = k_env s"
  "k_procs (set_pager a q s) = k_procs s" "k_regions (set_pager a q s) = k_regions s"
  "k_pagers (set_pager a q s) = (k_pagers s)(a \<mapsto> q)" "k_next (set_pager a q s) = k_next s" "k_heap (set_pager a q s) = k_heap s"
  "k_paging (set_pager a q s) = k_paging s" "k_vfs (set_pager a q s) = k_vfs s" "k_env (set_pager a q s) = k_env s"
  "k_procs (put_env e s) = k_procs s" "k_regions (put_env e s) = k_regions s" "k_pagers (put_env e s) = k_pagers s"
  "k_next (put_env e s) = k_next s" "k_heap (put_env e s) = pe_heap e" "k_env (put_env e s) = e"
  "k_paging (put_env e s) = (k_paging s)\<lparr>pg_frames := pe_frames e\<rparr>" "k_vfs (put_env e s) = (k_vfs s)\<lparr>v_dev := pe_dev e\<rparr>"
  "k_procs (free_mem s) = k_procs s" "k_regions (free_mem s) = k_regions s" "k_pagers (free_mem s) = k_pagers s"
  "k_next (free_mem s) = k_next s" "k_paging (free_mem s) = k_paging s" "k_vfs (free_mem s) = k_vfs s" "k_env (free_mem s) = k_env s"
  by (simp_all add: set_proc_def set_region_def set_pager_def put_env_def free_mem_def)

text \<open>The tables of processes and regions and the open files.\<close>

definition fewer_pagers :: "'s ksys \<Rightarrow> 's ksys \<Rightarrow> bool" where
  "fewer_pagers s s' \<longleftrightarrow> (\<forall>a. k_pagers s a = None \<longrightarrow> k_pagers s' a = None)"

lemma fewer_pagers_trans: "fewer_pagers s t \<Longrightarrow> fewer_pagers t u \<Longrightarrow> fewer_pagers s u"
  by (simp add: fewer_pagers_def)

lemma fewer_pagers_same: "k_pagers s' = k_pagers s \<Longrightarrow> fewer_pagers s s'"
  by (simp add: fewer_pagers_def)

lemma fewer_pagers_simps [simp]:
  "fewer_pagers s s" "fewer_pagers (set_proc p pr s) t = fewer_pagers s t" "fewer_pagers (set_region a r s) t = fewer_pagers s t"
  "fewer_pagers s (set_proc p pr t) = fewer_pagers s t" "fewer_pagers s (free_mem t) = fewer_pagers s t"
  "fewer_pagers (s\<lparr>k_heap := h\<rparr>) t = fewer_pagers s t" "fewer_pagers (s\<lparr>k_next := n\<rparr>) t = fewer_pagers s t"
  "fewer_pagers s (t\<lparr>k_heap := h\<rparr>) = fewer_pagers s t" "fewer_pagers s (t\<lparr>k_next := n\<rparr>) = fewer_pagers s t"
  by (simp_all add: fewer_pagers_def)

definition same_tables :: "'s ksys \<Rightarrow> 's ksys \<Rightarrow> bool" where
  "same_tables s s' \<longleftrightarrow> k_procs s' = k_procs s \<and> k_regions s' = k_regions s \<and> k_next s' = k_next s
     \<and> v_files (k_vfs s') = v_files (k_vfs s) \<and> fewer_pagers s s'"

lemma same_tables_refl [simp]: "same_tables s s"
  by (simp add: same_tables_def fewer_pagers_def)

lemma same_tables_trans: "same_tables s t \<Longrightarrow> same_tables t u \<Longrightarrow> same_tables s u"
  unfolding same_tables_def by (auto intro: fewer_pagers_trans)

lemma same_tables_simps [simp]:
  "same_tables s (put_env e t) = same_tables s t"
  "same_tables s (free_mem t) = same_tables s t" "same_tables s (t\<lparr>k_heap := h\<rparr>) = same_tables s t"
  "same_tables s (t\<lparr>k_paging := g\<rparr>) = same_tables s t"
  by (simp_all add: same_tables_def fewer_pagers_def)

lemma on_pager_same: "on_pager a f s = Inr (x, s') \<Longrightarrow> same_tables s s'"
  by (auto simp: on_pager_def rbind_Inr_iff deref_Inr_iff same_tables_def fewer_pagers_def)

lemma on_paging_same: "on_paging f s = Inr (x, s') \<Longrightarrow> same_tables s s'"
  by (auto simp: on_paging_def rbind_Inr_iff same_tables_def fewer_pagers_def)

lemma on_space_same: "on_space f s = Inr s' \<Longrightarrow> same_tables s s'"
  by (auto simp: on_space_def rbind_Inr_iff dest: on_paging_same)

lemma free_pager_same: "free_pager W a s = Inr s' \<Longrightarrow> same_tables s s'"
  by (auto simp: free_pager_def rbind_Inr_iff Let_def same_tables_def fewer_pagers_def)

lemma each_page_same:
  assumes "\<And>x t t'. f x t = Inr t' \<Longrightarrow> same_tables t t'" and "each_page f ps s = Inr s'"
  shows "same_tables s s'"
  using assms(2) by (induction ps arbitrary: s) (auto simp: rbind_Inr_iff intro: same_tables_trans dest: assms(1))

lemma munmap_page_same: "munmap_page W r it s = Inr s' \<Longrightarrow> same_tables s s'"
  unfolding munmap_page_def rbind_Inr_iff
  by (auto simp: rbind_Inr_iff split: if_splits dest!: on_paging_same on_pager_same on_space_same intro: same_tables_trans)

lemma mchmap_page_same: "mchmap_page W b it s = Inr s' \<Longrightarrow> same_tables s s'"
  unfolding mchmap_page_def rbind_Inr_iff
  by (auto simp: rbind_Inr_iff split: if_splits dest!: on_paging_same intro: same_tables_trans)

lemma in_space_same:
  assumes "\<And>t t'. f t = Inr t' \<Longrightarrow> same_tables t t'" and "in_space_of p f s = Inr s'"
  shows "same_tables s s'"
proof -
  obtain d t u where "on_space (switch_pagedir d) s = Inr t" "f t = Inr u"
      "on_space (switch_pagedir (get_current_pagedir (k_paging s))) u = Inr s'"
    using assms(2) by (auto simp: in_space_of_def Let_def rbind_Inr_iff split: option.splits)
  then show ?thesis using on_space_same assms(1) same_tables_trans by blast
qed

section \<open>Files\<close>

text \<open>Dropping references to nodes and file systems leaves the open files alone.\<close>

lemma call_files: "call f s = Inr (r, s') \<Longrightarrow> v_files s' = v_files s"
  by (auto simp: call_def rbind_Inr_iff)

lemma run_op_files: "run_op f s = Inr s' \<Longrightarrow> v_files s' = v_files s"
  by (auto simp: run_op_def rbind_Inr_iff dest: call_files)

lemma small_files:
  "lock_node a s = Inr s' \<Longrightarrow> v_files s' = v_files s" "unlock_node a s = Inr s' \<Longrightarrow> v_files s' = v_files s"
  "lock_fs a s = Inr s' \<Longrightarrow> v_files s' = v_files s" "unlock_fs a s = Inr s' \<Longrightarrow> v_files s' = v_files s"
  "remove_child p nm s = Inr s' \<Longrightarrow> v_files s' = v_files s" "dispose_node C a s = Inr s' \<Longrightarrow> v_files s' = v_files s"
  "drop_children a s = Inr s' \<Longrightarrow> v_files s' = v_files s" "free_node a s = Inr s' \<Longrightarrow> v_files s' = v_files s"
  by (auto simp: lock_node_def unlock_node_def lock_fs_def unlock_fs_def remove_child_def dispose_node_def drop_children_def
      free_node_def free_block_def set_node_def rbind_Inr_iff Let_def case_prod_unfold split: option.split_asm if_split_asm dest: run_op_files)

lemma unref_files_kept:
  "(unref_fs_node C k a s = Inr s' \<longrightarrow> v_files s' = v_files s) \<and> (unref_fs C k b t = Inr t' \<longrightarrow> v_files t' = v_files t)"
proof (induction k arbitrary: a s s' b t t')
  case 0
  then show ?case by (simp add: unref_fs_node.simps [of C 0] unref_fs.simps [of C 0])
next
  case (Suc k)
  then have node: "unref_fs_node C k a s = Inr s' \<Longrightarrow> v_files s' = v_files s"
    and fs: "unref_fs C k a s = Inr s' \<Longrightarrow> v_files s' = v_files s" for a s s' by blast+
  have "v_files s' = v_files s" if "unref_fs_node C (Suc k) a s = Inr s'"
    using that
    by (subst (asm) unref_fs_node.simps)
      (auto simp: rbind_Inr_iff Let_def set_node_def split: if_split_asm option.split_asm dest!: small_files node fs)
  moreover have "v_files t' = v_files t" if "unref_fs C (Suc k) b t = Inr t'"
    using that
    by (subst (asm) unref_fs.simps)
      (auto simp: rbind_Inr_iff Let_def free_block_def split: if_split_asm option.split_asm dest!: small_files run_op_files node fs)
  ultimately show ?case by blast
qed

lemmas unref_files_kept_rules = unref_files_kept [THEN conjunct1, rule_format] unref_files_kept [THEN conjunct2, rule_format]

lemma unref_file_files:
  assumes "unref_file C h s = Inr s'"
  obtains fh where "v_files s h = Some fh"
    and "v_files s' = (v_files s)(h := (if fh_refs fh = 1 then None else Some (fh\<lparr>fh_refs := fh_refs fh - 1\<rparr>)))"
proof -
  obtain fh where fh: "v_files s h = Some fh" using assms by (auto simp: unref_file_def rbind_Inr_iff deref_Inr_iff)
  have "v_files s' = (v_files s)(h := (if fh_refs fh = 1 then None else Some (fh\<lparr>fh_refs := fh_refs fh - 1\<rparr>)))"
  proof (cases "fh_refs fh = 1")
    case False
    then show ?thesis using assms fh by (auto simp: unref_file_def Let_def rbind_Inr_iff split: if_splits)
  next
    case True
    then show ?thesis
      using assms fh
      by (auto simp: unref_file_def Let_def rbind_Inr_iff unref_node_def free_block_def split: if_splits option.splits
          dest!: run_op_files unref_files_kept_rules)
  qed
  with fh show ?thesis by (rule that)
qed

section \<open>The table of regions\<close>

definition region_at :: "'s ksys \<Rightarrow> nat \<Rightarrow> user_region" where
  "region_at s a = the (k_regions s a)"

definition covers :: "user_region \<Rightarrow> u32 \<Rightarrow> bool" where
  "covers r v \<longleftrightarrow> ur_addr r \<le> v \<and> v < ur_addr r + ur_size r"

text \<open>A region is a non-empty range of the user half that starts on a page. A private region owns its pager; a region of a
  file is on an open file that may be mapped and read, and is writable only if the file was opened for writing.\<close>

definition file_allows :: "(nat \<Rightarrow> fs_handle option) \<Rightarrow> user_region \<Rightarrow> bool" where
  "file_allows files r \<longleftrightarrow>
     (case ur_file r of
        None \<Rightarrow> ur_own_pager r \<and> ur_offset r = 0
      | Some h \<Rightarrow> \<not> ur_own_pager r \<and> (\<exists>fh. files h = Some fh \<and> has_flag (fh_mode fh) FM_MMAP \<and> has_flag (fh_mode fh) FM_READ
          \<and> (has_flag (scast (ur_mode r)) MM_WRITE \<longrightarrow> has_flag (fh_mode fh) FM_WRITE)))"

definition range_typed :: "user_region \<Rightarrow> bool" where
  "range_typed r \<longleftrightarrow> PAGE_ALIGNED (ur_addr r) \<and> PAGE_ALIGNED (ur_offset r) \<and> ur_size r \<noteq> 0
     \<and> unat (ur_addr r) + unat (ur_size r) \<le> unat K_HIGHHALF_ADDR"

text \<open>The list and the index of a process hold the same regions; no two start at the same address.\<close>

definition index_ok :: "'s ksys \<Rightarrow> process \<Rightarrow> bool" where
  "index_ok s pr \<longleftrightarrow>
     (case p_regions_idx pr of
        None \<Rightarrow> p_regions pr = []
      | Some t \<Rightarrow> bt_inv t \<and> bt_cf t = id_key_cmp_fun
          \<and> mset (btree_iter t) = mset (map (\<lambda>a. (ur_addr (region_at s a), a)) (p_regions pr)))"

definition table_ok :: "'s ksys \<Rightarrow> process \<Rightarrow> bool" where
  "table_ok s pr \<longleftrightarrow> distinct (p_regions pr) \<and> (\<forall>a \<in> set (p_regions pr). k_regions s a \<noteq> None)
     \<and> distinct (map (\<lambda>a. ur_addr (region_at s a)) (p_regions pr)) \<and> index_ok s pr"

definition mapped_by :: "'s ksys \<Rightarrow> nat \<Rightarrow> nat set" where
  "mapped_by s h = {a. \<exists>r. k_regions s a = Some r \<and> ur_file r = Some h}"

definition mem_typed :: "'s ksys \<Rightarrow> bool" where
  "mem_typed s \<longleftrightarrow>
     (\<forall>p pr. k_procs s p = Some pr \<longrightarrow> table_ok s pr)
     \<and> (\<forall>p q pr qr. k_procs s p = Some pr \<and> k_procs s q = Some qr \<and> p \<noteq> q \<longrightarrow> set (p_regions pr) \<inter> set (p_regions qr) = {})
     \<and> (\<forall>a r. k_regions s a = Some r \<longrightarrow> a < k_next s \<and> range_typed r \<and> file_allows (v_files (k_vfs s)) r)
     \<and> (\<forall>h fh. v_files (k_vfs s) h = Some fh \<longrightarrow> int (card (mapped_by s h)) \<le> fh_refs fh)"

lemma mem_typedD:
  assumes "mem_typed s"
  shows "k_procs s p = Some pr \<Longrightarrow> table_ok s pr"
    and "k_procs s p = Some pr \<Longrightarrow> k_procs s q = Some qr \<Longrightarrow> p \<noteq> q \<Longrightarrow> set (p_regions pr) \<inter> set (p_regions qr) = {}"
    and "k_regions s a = Some r \<Longrightarrow> a < k_next s" and "k_regions s a = Some r \<Longrightarrow> range_typed r"
    and "k_regions s a = Some r \<Longrightarrow> file_allows (v_files (k_vfs s)) r"
    and "v_files (k_vfs s) h = Some fh \<Longrightarrow> int (card (mapped_by s h)) \<le> fh_refs fh"
  using assms unfolding mem_typed_def by blast+

lemma table_okD:
  assumes "table_ok s pr"
  shows "distinct (p_regions pr)" and "a \<in> set (p_regions pr) \<Longrightarrow> k_regions s a = Some (region_at s a)"
    and "inj_on (\<lambda>a. ur_addr (region_at s a)) (set (p_regions pr))" and "index_ok s pr"
  using assms by (auto simp: table_ok_def region_at_def distinct_map)

lemma finite_mapped: "mem_typed s \<Longrightarrow> finite (mapped_by s h)"
  by (rule finite_subset [of _ "{..<k_next s}"]) (auto simp: mapped_by_def dest: mem_typedD(3))

lemma mem_typed_cong:
  assumes "k_procs s' = k_procs s" "k_regions s' = k_regions s" "k_next s' = k_next s" "v_files (k_vfs s') = v_files (k_vfs s)"
  shows "mem_typed s' = mem_typed s"
  using assms by (simp add: mem_typed_def table_ok_def index_ok_def region_at_def mapped_by_def cong: option.case_cong)

lemma mem_typed_same: "same_tables s s' \<Longrightarrow> mem_typed s' = mem_typed s"
  by (rule mem_typed_cong) (simp_all add: same_tables_def)

text \<open>Only the regions in the list of a process matter for its table.\<close>

lemma table_ok_cong:
  assumes "\<And>a. a \<in> set (p_regions pr) \<Longrightarrow> k_regions s' a \<noteq> None \<and> ur_addr (region_at s' a) = ur_addr (region_at s a)"
    and "p_regions pr' = p_regions pr" "p_regions_idx pr' = p_regions_idx pr" and "table_ok s pr"
  shows "table_ok s' pr'"
proof -
  have m: "map (\<lambda>a. ur_addr (region_at s' a)) (p_regions pr) = map (\<lambda>a. ur_addr (region_at s a)) (p_regions pr)"
    "map (\<lambda>a. (ur_addr (region_at s' a), a)) (p_regions pr) = map (\<lambda>a. (ur_addr (region_at s a), a)) (p_regions pr)"
    using assms(1) by simp_all
  show ?thesis
    using assms unfolding table_ok_def index_ok_def assms(2,3) m by (simp split: option.splits)
qed

section \<open>Ranges\<close>

lemma range_typed_end:
  assumes "range_typed r"
  shows "unat (ur_addr r + ur_size r) = unat (ur_addr r) + unat (ur_size r)"
proof -
  have "unat (ur_addr r) + unat (ur_size r) < 4294967296" using assms by (simp add: range_typed_def K_HIGHHALF_ADDR_def)
  then show ?thesis by (simp add: unat_add_u32)
qed

lemma covers_iff:
  assumes "range_typed r"
  shows "covers r v \<longleftrightarrow> unat (ur_addr r) \<le> unat v \<and> unat v < unat (ur_addr r) + unat (ur_size r)"
  using range_typed_end [OF assms] by (simp add: covers_def word_le_nat_alt word_less_nat_alt)

lemma covers_start: "range_typed r \<Longrightarrow> covers r (ur_addr r)"
  by (simp add: covers_iff) (simp add: range_typed_def unat_gt_0)

lemma good_range:
  assumes "\<not> bad_range addr sz"
  shows "unat addr + unat sz \<le> unat K_HIGHHALF_ADDR" "sz \<noteq> 0"
proof -
  have l: "unat addr < unat (addr + sz)" "unat (addr + sz) \<le> unat K_HIGHHALF_ADDR" and z: "sz \<noteq> 0"
    using assms by (auto simp: bad_range_def word_less_nat_alt word_le_nat_alt not_le)
  have "unat (addr + sz) = unat addr + unat sz"
    using l(1) unat_u32_less [of addr] unat_u32_less [of sz] unat_add_u32 [of addr sz] by (simp add: mod_if split: if_splits)
  with l(2) z show "unat addr + unat sz \<le> unat K_HIGHHALF_ADDR" "sz \<noteq> 0" by simp_all
qed

section \<open>Finding a region\<close>

text \<open>The region with the greatest start at most \<open>v\<close>.\<close>

definition nearest :: "'s ksys \<Rightarrow> process \<Rightarrow> u32 \<Rightarrow> nat \<Rightarrow> bool" where
  "nearest s pr v a \<longleftrightarrow> a \<in> set (p_regions pr) \<and> ur_addr (region_at s a) \<le> v
     \<and> (\<forall>b \<in> set (p_regions pr). ur_addr (region_at s b) \<le> v \<longrightarrow> ur_addr (region_at s b) \<le> ur_addr (region_at s a))"

lemma index_pairs:
  assumes "index_ok s pr" and "p_regions_idx pr = Some t"
  shows "(k, a) \<in> set (btree_iter t) \<longleftrightarrow> a \<in> set (p_regions pr) \<and> k = ur_addr (region_at s a)"
proof -
  have "set (btree_iter t) = set (map (\<lambda>a. (ur_addr (region_at s a), a)) (p_regions pr))"
    by (rule mset_eq_setD) (use assms in \<open>simp add: index_ok_def\<close>)
  then show ?thesis by auto
qed

lemma cmp_le: "0 \<le> id_key_cmp_fun v k \<longleftrightarrow> k \<le> v" "id_key_cmp_fun k v \<le> 0 \<longleftrightarrow> k \<le> v" "id_key_cmp_fun v k < 0 \<longleftrightarrow> v < k"
  by (auto simp: id_key_cmp_fun_def)

lemma find_region_spec:
  assumes p: "k_procs s p = Some pr" "\<not> p_locked pr" and t: "table_ok s pr"
  shows "\<exists>x. find_user_region p v s = Inr x \<and> (\<forall>a. x = Some a \<longleftrightarrow> nearest s pr v a \<and> covers (region_at s a) v)"
proof (cases "p_regions_idx pr")
  case None
  then have "p_regions pr = []" using table_okD(4) [OF t] by (simp add: index_ok_def)
  with None p show ?thesis by (simp add: find_user_region_def nearest_def)
next
  case (Some idx)
  note pairs = index_pairs [OF table_okD(4) [OF t] Some]
  have inv: "bt_inv idx" "bt_cf idx = id_key_cmp_fun" using table_okD(4) [OF t] Some by (simp_all add: index_ok_def)
  note low = btree_lower_upper_facts [OF inv(1), of v, THEN conjunct1, unfolded inv(2) cmp_le]
  show ?thesis
  proof (cases "btree_lower idx v")
    case None
    then have "\<not> ur_addr (region_at s a) \<le> v" if "a \<in> set (p_regions pr)" for a
      using low pairs [of "ur_addr (region_at s a)" a] that by (auto simp: not_le)
    then show ?thesis using None p Some by (auto simp: find_user_region_def nearest_def)
  next
    case (Some y)
    obtain k a where y: "y = (k, a)" by (cases y)
    have ka: "a \<in> set (p_regions pr)" "k = ur_addr (region_at s a)" "k \<le> v"
      and all: "\<forall>x \<in> set (btree_iter idx). fst x \<le> v \<longrightarrow> fst x \<le> k"
      using low pairs unfolding Some y by auto
    have mx: "ur_addr (region_at s b) \<le> k" if "b \<in> set (p_regions pr)" "ur_addr (region_at s b) \<le> v" for b
      using bspec [OF all, of "(ur_addr (region_at s b), b)"] pairs that by simp
    have n: "nearest s pr v a" using ka mx by (auto simp: nearest_def)
    have u: "b = a" if "nearest s pr v b" for b
    proof (rule inj_onD [OF table_okD(3) [OF t]])
      show "ur_addr (region_at s b) = ur_addr (region_at s a)" using that n unfolding nearest_def by (meson order.antisym)
    qed (use that n in \<open>simp_all add: nearest_def\<close>)
    have "find_user_region p v s = Inr (if v \<ge> ur_addr (region_at s a) + ur_size (region_at s a) then None else Some a)"
      using p \<open>p_regions_idx pr = Some idx\<close> Some y ka table_okD(2) [OF t ka(1)] by (simp add: find_user_region_def)
    moreover have "v \<ge> ur_addr (region_at s a) + ur_size (region_at s a) \<longleftrightarrow> \<not> covers (region_at s a) v"
      using ka by (auto simp: covers_def not_less)
    ultimately have f: "find_user_region p v s = Inr (if covers (region_at s a) v then Some a else None)" by simp
    have "(if covers (region_at s a) v then Some a else None) = Some b \<longleftrightarrow> nearest s pr v b \<and> covers (region_at s b) v" for b
      using n u [of b] by (metis option.inject option.distinct(1))
    then show ?thesis unfolding f by blast
  qed
qed

section \<open>Mapping memory\<close>

lemma unlocked_eq [simp]: "\<not> p_locked pr \<Longrightarrow> pr\<lparr>p_locked := False\<rparr> = pr"
  by (cases pr) simp

lemma unlock_last [simp]:
  "pr\<lparr>p_regions_idx := t, p_locked := b\<rparr> = pr\<lparr>p_locked := b, p_regions_idx := t\<rparr>"
  "pr\<lparr>p_regions := rs, p_locked := b\<rparr> = pr\<lparr>p_locked := b, p_regions := rs\<rparr>"
  "pr\<lparr>p_regions_idx := t, p_regions := rs\<rparr> = pr\<lparr>p_regions := rs, p_regions_idx := t\<rparr>"
  by simp_all

lemma maps_unlocked [simp]: "\<not> pg_locked q \<Longrightarrow> q\<lparr>pg_maps := m, pg_locked := False\<rparr> = q\<lparr>pg_maps := m\<rparr>"
  by (cases q) simp

lemma own_parts [simp]:
  "(k_paging s)\<lparr>pg_frames := pg_frames (k_paging s)\<rparr> = k_paging s" "(k_vfs s)\<lparr>v_dev := v_dev (k_vfs s)\<rparr> = k_vfs s"
  by simp_all

text \<open>A pager that has just been made holds no frame, and can be deleted again.\<close>

lemma new_swap_fresh:
  assumes "new_swap_pager sz al h = (Some q, h')"
  shows "pg_kind q = Swap_pager al" "pg_size q = sz" "\<not> pg_locked q" "pg_maps q = []" "entry q x = 0"
    and "ht_ok id_key_eq_fun id_hash_fun (pg_pages q)"
proof -
  obtain h1 ht where c: "create_hashtbl h1 id_key_eq_fun id_hash_fun False = (Some ht, h')"
    and q: "q = \<lparr>pg_kind = Swap_pager al, pg_size = sz, pg_pages = ht, pg_locked = False, pg_maps = []\<rparr>"
    using assms by (auto simp: new_swap_pager_def new_pager_def split: prod.splits option.splits if_splits)
  have t: "ht_inv ht" "ht_bindings ht = {#}" using create_hashtbl_inv [OF id_keys.hash_keys_axioms c] by simp_all
  show "pg_kind q = Swap_pager al" "pg_size q = sz" "\<not> pg_locked q" "pg_maps q = []" by (simp_all add: q)
  show "entry q x = 0"
    using hashtbl_find_bound [OF t(1), of x] t(2) by (auto simp: entry_def q split: option.splits)
  show "ht_ok id_key_eq_fun id_hash_fun (pg_pages q)" using t(1) create_hashtbl_funs [OF c] by (simp add: ht_ok_def q)
qed

lemma create_hashtbl_answers:
  assumes "create_hashtbl h ef hf b = (ho, h')" and "all_answers_ok h"
  shows "ho \<noteq> None \<and> all_answers_ok h'"
proof -
  obtain ok1 h1 where 1: "heap_malloc h = (ok1, h1)" by fastforce
  obtain ok2 h2 where 2: "heap_malloc h1 = (ok2, h2)" by fastforce
  note a = heap_malloc_ok [OF assms(2) 1]
  note b = heap_malloc_ok [OF a(2) 2]
  show ?thesis using assms(1) 1 2 a b by (auto simp: create_hashtbl_def)
qed

lemma new_swap_answers:
  assumes "new_swap_pager sz al h = (qo, h')" and "all_answers_ok h"
  shows "qo \<noteq> None \<and> all_answers_ok h'"
proof -
  obtain ok1 h1 where 1: "heap_malloc h = (ok1, h1)" by fastforce
  note a = heap_malloc_ok [OF assms(2) 1]
  obtain ho :: "(u32, u32) hashtbl option" and h2 where 2: "create_hashtbl h1 id_key_eq_fun id_hash_fun False = (ho, h2)" by fastforce
  note b = create_hashtbl_answers [OF 2 a(2)]
  show ?thesis using assms(1) 1 2 a b by (auto simp: new_swap_pager_def new_pager_def)
qed

lemma btree_add_answers:
  assumes "btree_add h t k v = (ok, t', h')" and "all_answers_ok h"
  shows "ok \<and> all_answers_ok h'"
proof -
  obtain ok1 h1 where 1: "heap_malloc h = (ok1, h1)" by fastforce
  show ?thesis using assms(1) 1 heap_malloc_ok [OF assms(2) 1] by (auto simp: btree_add_def Let_def)
qed

lemma delete_fresh:
  assumes n: "new_swap_pager sz al h = (Some q, h')" and sz: "unat sz \<le> 2 ^ 32 - 4096"
  shows "delete_pager V (q, e) = Inr (e\<lparr>pe_heap := heap_free (snd (delete_hashtbl (pe_heap e) (pg_pages q)))\<rparr>)"
proof -
  note f = new_swap_fresh [OF n]
  obtain ps where ps: "page_range 0 sz = Inr ps" using whole_range [OF sz] by blast
  have "release_one x (q\<lparr>pg_locked := True\<rparr>, e) = Inr (q\<lparr>pg_locked := True\<rparr>, e)" for x
    using f(5) by (simp add: release_one_def entry_frame_def)
  then have "each_page release_one ps (q\<lparr>pg_locked := True\<rparr>, e) = Inr (q\<lparr>pg_locked := True\<rparr>, e)"
    by (induction ps) simp_all
  then show ?thesis
    using f ps by (simp add: delete_pager_def lock_pager_def op_page_commit_def op_page_release_def swap_page_release_def PAGE_ALIGNED_def)
qed

lemma btree_add_index:
  assumes "bt_inv t" and "btree_add h t k v = (ok, t', h')"
  shows "bt_inv t'" "bt_cf t' = bt_cf t"
    and "mset (btree_iter t') = (if ok then add_mset (k, v) (mset (btree_iter t)) else mset (btree_iter t))"
proof -
  note f = btree_add_facts [OF assms]
  show "bt_inv t'" using f by blast
  show "bt_cf t' = bt_cf t" using assms(2) by (auto simp: btree_add_def Let_def split: prod.split_asm if_split_asm)
  have "mset (filter (\<lambda>x. 0 < bt_cf t k (fst x)) (btree_iter t)) + mset (filter (\<lambda>x. bt_cf t k (fst x) \<le> 0) (btree_iter t))
      = mset (btree_iter t)"
    using multiset_partition [of "mset (btree_iter t)" "\<lambda>x. 0 < bt_cf t k (fst x)"] by (simp add: not_less)
  then show "mset (btree_iter t') = (if ok then add_mset (k, v) (mset (btree_iter t)) else mset (btree_iter t))"
    using f by simp
qed

text \<open>What an operation on the table of one process leaves alone.\<close>

definition same_world :: "'s ksys \<Rightarrow> 's ksys \<Rightarrow> bool" where
  "same_world s s' \<longleftrightarrow> k_paging s' = k_paging s \<and> pager_env s' = (pager_env s)\<lparr>pe_heap := k_heap s'\<rparr> \<and> k_next s \<le> k_next s'"

text \<open>The table of the process \<open>p\<close> with the same regions, and with the region \<open>r\<close> added.\<close>

definition kept :: "'s ksys \<Rightarrow> nat \<Rightarrow> process \<Rightarrow> 's ksys \<Rightarrow> bool" where
  "kept s p pr s' \<longleftrightarrow> same_world s s' \<and> k_regions s' = k_regions s \<and> k_pagers s' = k_pagers s \<and> k_vfs s' = k_vfs s
     \<and> (\<exists>t'. k_procs s' = (k_procs s)(p \<mapsto> pr\<lparr>p_regions_idx := t'\<rparr>)
           \<and> (\<forall>t :: 's ksys. index_ok t pr \<longrightarrow> index_ok t (pr\<lparr>p_regions_idx := t'\<rparr>)))"

definition added :: "'s ksys \<Rightarrow> nat \<Rightarrow> process \<Rightarrow> user_region \<Rightarrow> 's ksys \<Rightarrow> bool" where
  "added s p pr r s' \<longleftrightarrow> same_world s s' \<and> k_regions s' = (k_regions s)(k_next s \<mapsto> r) \<and> k_next s < k_next s'
     \<and> (\<exists>t t'. p_regions_idx pr = Some t \<and> bt_inv t' \<and> bt_cf t' = bt_cf t
           \<and> mset (btree_iter t') = add_mset (ur_addr r, k_next s) (mset (btree_iter t))
           \<and> k_procs s' = (k_procs s)(p \<mapsto> pr\<lparr>p_regions := k_next s # p_regions pr, p_regions_idx := Some t'\<rparr>))"

lemma keptI:
  fixes s s' :: "'s ksys"
  assumes "k_paging s' = k_paging s" "pager_env s' = (pager_env s)\<lparr>pe_heap := k_heap s'\<rparr>" "k_next s \<le> k_next s'"
    "k_regions s' = k_regions s" "k_pagers s' = k_pagers s" "k_vfs s' = k_vfs s"
    "k_procs s' = (k_procs s)(p \<mapsto> pr\<lparr>p_regions_idx := t'\<rparr>)" "\<And>t :: 's ksys. index_ok t pr \<Longrightarrow> index_ok t (pr\<lparr>p_regions_idx := t'\<rparr>)"
  shows "kept s p pr s'"
  using assms unfolding kept_def same_world_def by blast

lemma same_index:
  assumes "p_regions_idx pr = Some t" "bt_inv t" "bt_inv t'" "bt_cf t' = bt_cf t" "mset (btree_iter t') = mset (btree_iter t)"
    and "index_ok s pr"
  shows "index_ok s (pr\<lparr>p_regions_idx := Some t'\<rparr>)"
  using assms by (simp add: index_ok_def region_at_def)

lemma pager_env_simps [simp]:
  "pager_env (set_proc p pr s) = pager_env s" "pager_env (set_region a r s) = pager_env s" "pager_env (set_pager a q s) = pager_env s"
  "pager_env (put_env e s) = e" "pager_env (s\<lparr>k_next := n\<rparr>) = pager_env s" "pager_env (s\<lparr>k_pagers := m\<rparr>) = pager_env s"
  "pager_env (s\<lparr>k_heap := h\<rparr>) = (pager_env s)\<lparr>pe_heap := h\<rparr>" "pe_heap (pager_env s) = k_heap s"
  "pe_frames (pager_env s) = pg_frames (k_paging s)" "pe_dev (pager_env s) = v_dev (k_vfs s)"
  "pager_env (free_mem s) = (pager_env s)\<lparr>pe_heap := heap_free (k_heap s)\<rparr>"
  by (simp_all add: pager_env_def set_proc_def set_region_def set_pager_def put_env_def free_mem_def)

text \<open>The region that \<open>mmap\<close> makes.\<close>

definition private_region :: "nat \<Rightarrow> nat \<Rightarrow> u32 \<Rightarrow> u32 \<Rightarrow> u32 \<Rightarrow> user_region" where
  "private_region p pa addr sz mode =
     \<lparr>ur_proc = p, ur_addr = addr, ur_size = sz, ur_file = None, ur_pager = pa, ur_offset = 0, ur_own_pager = True,
      ur_mode = ucast mode\<rparr>"

lemma mmap_locked_total:
  fixes addr mode :: u32
  assumes p: "k_procs s p = Some pr" "p_locked pr" and i: "p_regions_idx pr = Some t" "bt_inv t"
    and sz: "unat sz \<le> 2 ^ 32 - 4096" and fresh: "k_pagers s (k_next s) = None"
  defines "pu \<equiv> pr\<lparr>p_locked := False\<rparr>"
  defines "r \<equiv> private_region p (k_next s) addr sz mode"
  shows "\<exists>ok s'. mmap_locked W p a addr sz mode s = Inr (ok, s') \<and> (all_answers_ok (k_heap s) \<longrightarrow> ok)
    \<and> (if ok then same_world s s' \<and> k_regions s' = (k_regions s)(a \<mapsto> r) \<and> k_next s < k_next s' \<and> k_vfs s' = k_vfs s
            \<and> (\<exists>h h' q. new_swap_pager sz False h = (Some q, h') \<and> k_pagers s' = (k_pagers s)(k_next s \<mapsto> q\<lparr>pg_maps := [region_map r]\<rparr>))
            \<and> (\<exists>t'. bt_inv t' \<and> bt_cf t' = bt_cf t \<and> mset (btree_iter t') = add_mset (addr, a) (mset (btree_iter t))
                 \<and> k_procs s' = (k_procs s)(p \<mapsto> pu\<lparr>p_regions := a # p_regions pr, p_regions_idx := Some t'\<rparr>))
       else kept s p pu s')"
proof -
  obtain qo h where n: "new_swap_pager sz False (k_heap s) = (qo, h)" by fastforce
  show ?thesis
  proof (cases qo)
    case None
    have run: "mmap_locked W p a addr sz mode s = Inr (False, set_proc p pu (free_mem (s\<lparr>k_heap := h\<rparr>)))"
      using p i n None by (simp add: mmap_locked_def mmap_error_def unlock_proc_def pu_def)
    have "kept s p pu (set_proc p pu (free_mem (s\<lparr>k_heap := h\<rparr>)))"
      by (rule keptI [where t' = "p_regions_idx pr"]) (simp_all add: free_mem_def pu_def)
    moreover have "\<not> all_answers_ok (k_heap s)" using new_swap_answers [OF n] None by blast
    ultimately show ?thesis using run by auto
  next
    case (Some q)
    note f = new_swap_fresh [OF n [unfolded Some]]
    obtain ok t' h' where add: "btree_add h t addr a = (ok, t', h')" by (metis prod_cases3)
    note b = btree_add_index [OF i(2) add]
    define s1 where "s1 = set_proc p (pr\<lparr>p_regions_idx := Some t'\<rparr>) (set_pager (k_next s) q (s\<lparr>k_heap := h', k_next := k_next s + 1\<rparr>))"
    have run: "mmap_locked W p a addr sz mode s = (if \<not> ok then mmap_error W p (Some (k_next s)) s1 else mmap_end p a r s1)"
      using p i n Some add by (simp add: mmap_locked_def s1_def r_def private_region_def Let_def)
    show ?thesis
    proof (cases ok)
      case False
      define h2 where "h2 = heap_free (snd (delete_hashtbl h' (pg_pages q)))"
      define s2 where "s2 = (put_env ((pager_env s1)\<lparr>pe_heap := h2\<rparr>) s1)\<lparr>k_pagers := k_pagers s\<rparr>"
      have m: "(k_pagers s1)(k_next s := None) = k_pagers s" using fresh by (auto simp: s1_def fun_eq_iff)
      have "free_pager W (k_next s) s1 = Inr s2"
        using m
        by (simp add: free_pager_def s2_def h2_def s1_def Let_def delete_fresh [OF n [unfolded Some] sz] put_env_def)
      then have e: "mmap_locked W p a addr sz mode s = Inr (False, set_proc p (pu\<lparr>p_regions_idx := Some t'\<rparr>) (free_mem s2))"
        using run False by (simp add: mmap_error_def unlock_proc_def s2_def s1_def pu_def)
      have "kept s p pu (set_proc p (pu\<lparr>p_regions_idx := Some t'\<rparr>) (free_mem s2))"
      proof (rule keptI [where t' = "Some t'"])
        show "index_ok x pu \<Longrightarrow> index_ok x (pu\<lparr>p_regions_idx := Some t'\<rparr>)" for x
          by (rule same_index [where t = t]) (use i b False in \<open>simp_all add: pu_def\<close>)
      qed (simp_all add: s2_def s1_def free_mem_def)
      moreover have "\<not> all_answers_ok (k_heap s)"
        using new_swap_answers [OF n] btree_add_answers [OF add] False by blast
      ultimately show ?thesis using e by auto
    next
      case True
      define s3 where "s3 = set_proc p (pu\<lparr>p_regions := a # p_regions pr, p_regions_idx := Some t'\<rparr>)
        (set_pager (k_next s) (q\<lparr>pg_maps := [region_map r]\<rparr>)
          (put_env (pager_env s1) (set_proc p (pr\<lparr>p_regions_idx := Some t', p_regions := a # p_regions pr\<rparr>) (set_region a r s1))))"
      have e: "mmap_locked W p a addr sz mode s = Inr (True, s3)"
        using run True f
        by (simp add: mmap_end_def change_proc_def s1_def on_pager_def r_def private_region_def pager_add_map_def lock_pager_def unlock_proc_def s3_def pu_def)
      have "same_world s s3" by (simp add: same_world_def s3_def s1_def)
      moreover have "k_procs s3 = (k_procs s)(p \<mapsto> pu\<lparr>p_regions := a # p_regions pr, p_regions_idx := Some t'\<rparr>)"
        by (simp add: s3_def s1_def fun_eq_iff)
      moreover have "k_pagers s3 = (k_pagers s)(k_next s \<mapsto> q\<lparr>pg_maps := [region_map r]\<rparr>)"
        by (simp add: s3_def s1_def fun_eq_iff)
      moreover have "k_regions s3 = (k_regions s)(a \<mapsto> r)" "k_next s < k_next s3" "k_vfs s3 = k_vfs s"
        by (simp_all add: s3_def s1_def)
      ultimately show ?thesis using e b True n Some by (intro exI [of _ True] exI [of _ s3]) auto
    qed
  qed
qed

lemma kept_refl:
  assumes "k_procs s p = Some pr" shows "kept s p pr s"
  by (rule keptI [where t' = "p_regions_idx pr"]) (use assms in \<open>auto simp: pager_env_def\<close>)

lemma kept_heap:
  assumes "k_procs s p = Some pr" shows "kept s p pr (s\<lparr>k_heap := h\<rparr>)"
  by (rule keptI [where t' = "p_regions_idx pr"]) (use assms in auto)

definition pagers_below :: "'s ksys \<Rightarrow> bool" where
  "pagers_below s \<longleftrightarrow> (\<forall>a. k_pagers s a \<noteq> None \<longrightarrow> a < k_next s)"

lemma mmap_total:
  fixes addr sz mode :: u32
  assumes T: "mem_typed s" and P: "k_procs s p = Some pr" "\<not> p_locked pr" "p_regions_idx pr = Some t" and B: "pagers_below s"
  defines "r \<equiv> private_region p (k_next s + 1) addr sz mode"
  shows "\<exists>ok s'. mmap W p addr sz mode s = Inr (ok, s')
    \<and> (all_answers_ok (k_heap s) \<longrightarrow> (ok \<longleftrightarrow> find_user_region p addr s = Inr None \<and> PAGE_ALIGNED addr \<and> \<not> bad_range addr sz))
    \<and> (if ok then find_user_region p addr s = Inr None \<and> PAGE_ALIGNED addr \<and> \<not> bad_range addr sz
            \<and> added s p pr r s' \<and> k_next s + 1 < k_next s' \<and> k_vfs s' = k_vfs s
            \<and> (\<exists>h h' q. new_swap_pager sz False h = (Some q, h') \<and> k_pagers s' = (k_pagers s)(k_next s + 1 \<mapsto> q\<lparr>pg_maps := [region_map r]\<rparr>))
       else kept s p pr s')"
proof -
  obtain x where x: "find_user_region p addr s = Inr x" using find_region_spec [OF P(1,2) mem_typedD(1) [OF T P(1)]] by blast
  obtain ok0 h0 where m: "heap_malloc (k_heap s) = (ok0, h0)" by fastforce
  have al: "PAGE_ALIGNED addr \<longleftrightarrow> addr AND NOT PAGE_MASK = 0" by (simp add: PAGE_ALIGNED_def)
  show ?thesis
  proof (cases "x = None \<and> PAGE_ALIGNED addr \<and> \<not> bad_range addr sz")
    case False
    then have "mmap W p addr sz mode s = Inr (False, s)" using x al by (auto simp: mmap_def)
    then show ?thesis using kept_refl [OF P(1)] x False by (intro exI [of _ False] exI [of _ s]) auto
  next
    case fine: True
    show ?thesis
    proof (cases ok0)
      case False
      then have "mmap W p addr sz mode s = Inr (False, s\<lparr>k_heap := h0\<rparr>)" using x al fine m by (simp add: mmap_def)
      moreover have "\<not> all_answers_ok (k_heap s)" using heap_malloc_ok(1) [OF _ m] False by blast
      ultimately show ?thesis using kept_heap [OF P(1)] by (intro exI [of _ False]) auto
    next
      case True
      define pl where "pl = pr\<lparr>p_locked := True\<rparr>"
      define s1 where "s1 = set_proc p pl (s\<lparr>k_heap := h0, k_next := k_next s + 1\<rparr>)"
      have run: "mmap W p addr sz mode s = mmap_locked W p (k_next s) addr sz mode s1"
        using x al fine m True P by (simp add: mmap_def lock_proc_def s1_def pl_def)
      have i: "bt_inv t" using table_okD(4) [OF mem_typedD(1) [OF T P(1)]] P(3) by (simp add: index_ok_def)
      have sz: "unat sz \<le> 2 ^ 32 - 4096" using good_range [of addr sz] fine by (simp add: K_HIGHHALF_ADDR_def)
      have fresh: "k_pagers s1 (k_next s1) = None" using B by (auto simp: pagers_below_def s1_def)
      have pl: "k_procs s1 p = Some pl" "p_locked pl" "p_regions_idx pl = Some t" "pl\<lparr>p_locked := False\<rparr> = pr" "p_regions pl = p_regions pr"
        using P by (simp_all add: s1_def pl_def)
      have nx: "k_next s1 = k_next s + 1" by (simp add: s1_def)
      obtain ok s' where r1: "mmap_locked W p (k_next s) addr sz mode s1 = Inr (ok, s')" "all_answers_ok (k_heap s1) \<longrightarrow> ok"
        and r2: "if ok then same_world s1 s' \<and> k_regions s' = (k_regions s1)(k_next s \<mapsto> r) \<and> k_next s + 1 < k_next s' \<and> k_vfs s' = k_vfs s1
            \<and> (\<exists>h h' q. new_swap_pager sz False h = (Some q, h') \<and> k_pagers s' = (k_pagers s1)(k_next s + 1 \<mapsto> q\<lparr>pg_maps := [region_map r]\<rparr>))
            \<and> (\<exists>t'. bt_inv t' \<and> bt_cf t' = bt_cf t \<and> mset (btree_iter t') = add_mset (addr, k_next s) (mset (btree_iter t))
                 \<and> k_procs s' = (k_procs s1)(p \<mapsto> pr\<lparr>p_regions := k_next s # p_regions pr, p_regions_idx := Some t'\<rparr>))
          else kept s1 p pr s'"
        using mmap_locked_total [OF pl(1-3) i sz fresh, of W "k_next s" addr mode] unfolding pl(4,5) nx r_def by blast
      have w: "same_world s s'" if "same_world s1 s'" using that by (auto simp: same_world_def s1_def)
      have "all_answers_ok (k_heap s) \<longrightarrow> all_answers_ok (k_heap s1)" using heap_malloc_ok(2) [OF _ m] by (simp add: s1_def)
      then have full: "all_answers_ok (k_heap s) \<longrightarrow> ok" using r1(2) by blast
      have pm: "(k_procs s1)(p \<mapsto> q) = (k_procs s)(p \<mapsto> q)" for q by (simp add: s1_def)
      show ?thesis
      proof (cases ok)
        case True
        with r2 have r2: "same_world s1 s'" "k_regions s' = (k_regions s1)(k_next s \<mapsto> r)" "k_next s + 1 < k_next s'" "k_vfs s' = k_vfs s1"
            "\<exists>h h' q. new_swap_pager sz False h = (Some q, h') \<and> k_pagers s' = (k_pagers s1)(k_next s + 1 \<mapsto> q\<lparr>pg_maps := [region_map r]\<rparr>)"
            "\<exists>t'. bt_inv t' \<and> bt_cf t' = bt_cf t \<and> mset (btree_iter t') = add_mset (addr, k_next s) (mset (btree_iter t))
                 \<and> k_procs s' = (k_procs s1)(p \<mapsto> pr\<lparr>p_regions := k_next s # p_regions pr, p_regions_idx := Some t'\<rparr>)" by simp_all
        have "added s p pr r s'"
          unfolding added_def using w [OF r2(1)] r2(2,3,6) P(3) by (auto simp: pm) (auto simp: s1_def r_def private_region_def)
        moreover have "k_vfs s' = k_vfs s" using r2(4) by (simp add: s1_def)
        moreover have "\<exists>h h' q. new_swap_pager sz False h = (Some q, h') \<and> k_pagers s' = (k_pagers s)(k_next s + 1 \<mapsto> q\<lparr>pg_maps := [region_map r]\<rparr>)"
          using r2(5) by (simp add: s1_def)
        ultimately show ?thesis using run r1 True fine x r2(3) by (intro exI [of _ True] exI [of _ s']) simp
      next
        case False
        with r2 have k: "kept s1 p pr s'" by simp
        have "kept s p pr s'"
          using k w unfolding kept_def pm by (simp add: s1_def)
        then show ?thesis using run r1 False full by (intro exI [of _ False] exI [of _ s']) simp
      qed
    qed
  qed
qed

end
