(* ===== verification/Proc_Typed.thy ===== *)
theory Proc_Typed
  imports Proc_Mem
begin

text \<open>
  The tables of regions stay well formed, whatever is mapped, unmapped or changed, in private memory and in files.
\<close>

section \<open>Adding and removing a region\<close>

definition entered :: "'s ksys \<Rightarrow> nat \<Rightarrow> process \<Rightarrow> nat \<Rightarrow> user_region \<Rightarrow> 's ksys \<Rightarrow> bool" where
  "entered s p pr a r s' \<longleftrightarrow> k_regions s' = (k_regions s)(a \<mapsto> r) \<and> a < k_next s' \<and> k_next s \<le> k_next s'
     \<and> (\<exists>t t'. p_regions_idx pr = Some t \<and> bt_inv t' \<and> bt_cf t' = bt_cf t
           \<and> mset (btree_iter t') = add_mset (ur_addr r, a) (mset (btree_iter t))
           \<and> k_procs s' = (k_procs s)(p \<mapsto> pr\<lparr>p_regions := a # p_regions pr, p_regions_idx := Some t'\<rparr>))"

definition left :: "'s ksys \<Rightarrow> nat \<Rightarrow> process \<Rightarrow> nat \<Rightarrow> 's ksys \<Rightarrow> bool" where
  "left s p pr a s' \<longleftrightarrow> k_regions s' = (k_regions s)(a := None) \<and> k_next s' = k_next s
     \<and> (\<exists>t t'. p_regions_idx pr = Some t \<and> bt_inv t' \<and> bt_cf t' = bt_cf t
           \<and> mset (btree_iter t') = mset (btree_iter t) - {#(ur_addr (region_at s a), a)#}
           \<and> k_procs s' = (k_procs s)(p \<mapsto> pr\<lparr>p_regions := remove1 a (p_regions pr), p_regions_idx := Some t'\<rparr>))"

lemma added_entered: "added s p pr r s' \<Longrightarrow> entered s p pr (k_next s) r s'"
  by (auto simp: added_def entered_def same_world_def)

text \<open>The files before and after: the same, but for the references that regions hold.\<close>

definition modes_kept :: "(nat \<Rightarrow> fs_handle option) \<Rightarrow> (nat \<Rightarrow> fs_handle option) \<Rightarrow> user_region \<Rightarrow> bool" where
  "modes_kept files files' r \<longleftrightarrow>
     (\<forall>h fh. ur_file r = Some h \<and> files h = Some fh \<longrightarrow> (\<exists>fh'. files' h = Some fh' \<and> fh_mode fh' = fh_mode fh))"

lemma file_allows_kept: "modes_kept files files' r \<Longrightarrow> file_allows files r \<Longrightarrow> file_allows files' r"
  by (fastforce simp: modes_kept_def file_allows_def split: option.splits)

lemma region_at_other: "k_regions s' = (k_regions s)(a := x) \<Longrightarrow> b \<noteq> a \<Longrightarrow> region_at s' b = region_at s b"
  by (simp add: region_at_def)

lemma entered_table:
  assumes t: "table_ok s pr" and e: "entered s p pr a r s'" and new: "a \<notin> set (p_regions pr)"
    and start: "\<forall>b \<in> set (p_regions pr). ur_addr (region_at s b) \<noteq> ur_addr r"
    and pr': "k_procs s' p = Some pr'"
  shows "table_ok s' pr'"
proof -
  obtain tr tr' where i: "p_regions_idx pr = Some tr" "bt_inv tr'" "bt_cf tr' = bt_cf tr"
      "mset (btree_iter tr') = add_mset (ur_addr r, a) (mset (btree_iter tr))"
    and q: "pr' = pr\<lparr>p_regions := a # p_regions pr, p_regions_idx := Some tr'\<rparr>"
    using e pr' unfolding entered_def by auto
  have rg: "k_regions s' = (k_regions s)(a \<mapsto> r)" using e by (simp add: entered_def)
  have ra: "region_at s' a = r" using rg by (simp add: region_at_def)
  have rb: "region_at s' b = region_at s b" if "b \<in> set (p_regions pr)" for b
    by (rule region_at_other [OF rg]) (use that new in auto)
  have m: "map (\<lambda>b. ur_addr (region_at s' b)) (p_regions pr) = map (\<lambda>b. ur_addr (region_at s b)) (p_regions pr)"
    "map (\<lambda>b. (ur_addr (region_at s' b), b)) (p_regions pr) = map (\<lambda>b. (ur_addr (region_at s b), b)) (p_regions pr)"
    using rb by simp_all
  have ix: "bt_cf tr = id_key_cmp_fun" "mset (btree_iter tr) = mset (map (\<lambda>b. (ur_addr (region_at s b), b)) (p_regions pr))"
    using table_okD(4) [OF t] i(1) by (simp_all add: index_ok_def)
  have "map (\<lambda>b. (ur_addr (region_at s' b), b)) (p_regions pr') = (ur_addr r, a) # map (\<lambda>b. (ur_addr (region_at s b), b)) (p_regions pr)"
    using m(2) ra by (simp add: q)
  moreover have "p_regions_idx pr' = Some tr'" by (simp add: q)
  ultimately have "index_ok s' pr'" unfolding index_ok_def using i(2-4) ix by (simp del: mset_map)
  moreover have "distinct (map (\<lambda>b. ur_addr (region_at s' b)) (p_regions pr'))"
  proof -
    have "map (\<lambda>b. ur_addr (region_at s' b)) (p_regions pr') = ur_addr r # map (\<lambda>b. ur_addr (region_at s b)) (p_regions pr)"
      using m(1) ra by (simp add: q)
    then show ?thesis using t start by (auto simp: table_ok_def)
  qed
  ultimately show ?thesis using t new rg by (auto simp: table_ok_def q)
qed

lemma card_mapped_add:
  assumes T: "mem_typed s" and rg: "k_regions s' = (k_regions s)(a \<mapsto> r)" and new: "k_regions s a = None"
  shows "card (mapped_by s' h) = card (mapped_by s h) + (if ur_file r = Some h then 1 else 0)"
proof -
  have "mapped_by s' h = (if ur_file r = Some h then insert a (mapped_by s h) else mapped_by s h)"
    using new by (auto simp: mapped_by_def rg)
  moreover have "a \<notin> mapped_by s h" using new by (simp add: mapped_by_def)
  ultimately show ?thesis using finite_mapped [OF T] by simp
qed

lemma entered_typed:
  assumes T: "mem_typed s" and P: "k_procs s p = Some pr" and e: "entered s p pr a r s'" and new: "k_regions s a = None"
    and start: "\<forall>b \<in> set (p_regions pr). ur_addr (region_at s b) \<noteq> ur_addr r"
    and r: "range_typed r" "file_allows (v_files (k_vfs s')) r"
    and files: "\<And>x. modes_kept (v_files (k_vfs s)) (v_files (k_vfs s')) x"
    and refs: "\<And>h fh'. v_files (k_vfs s') h = Some fh' \<Longrightarrow>
      \<exists>fh. v_files (k_vfs s) h = Some fh \<and> fh_refs fh + (if ur_file r = Some h then 1 else 0) \<le> fh_refs fh'"
  shows "mem_typed s'"
proof -
  have rg: "k_regions s' = (k_regions s)(a \<mapsto> r)" and nx: "a < k_next s'" "k_next s \<le> k_next s'" using e by (simp_all add: entered_def)
  obtain t' where pc: "k_procs s' = (k_procs s)(p \<mapsto> pr\<lparr>p_regions := a # p_regions pr, p_regions_idx := Some t'\<rparr>)"
    using e by (auto simp: entered_def)
  have own: "a \<notin> set (p_regions qr)" if "k_procs s q = Some qr" for q qr
    using mem_typedD(1) [OF T that] new by (auto simp: table_ok_def)
  have 1: "table_ok s' qr" if "k_procs s' q = Some qr" for q qr
  proof (cases "q = p")
    case True
    then show ?thesis using entered_table [OF mem_typedD(1) [OF T P] e own [OF P] start] that by simp
  next
    case False
    then have q: "k_procs s q = Some qr" using that by (simp add: pc)
    show ?thesis
    proof (rule table_ok_cong [OF _ refl refl mem_typedD(1) [OF T q]])
      fix b assume b: "b \<in> set (p_regions qr)"
      then have "b \<noteq> a" using own [OF q] by auto
      then show "k_regions s' b \<noteq> None \<and> ur_addr (region_at s' b) = ur_addr (region_at s b)"
        using region_at_other [OF rg] table_okD(2) [OF mem_typedD(1) [OF T q] b] by (simp add: rg)
    qed
  qed
  have 2: "set (p_regions xr) \<inter> set (p_regions yr) = {}"
    if "k_procs s' x = Some xr" "k_procs s' y = Some yr" "x \<noteq> y" for x y xr yr
  proof -
    have *: "set (p_regions zr) \<inter> set (a # p_regions pr) = {}" if "k_procs s z = Some zr" "z \<noteq> p" for z zr
      using own [OF that(1)] mem_typedD(2) [OF T that(1) P that(2)] by auto
    show ?thesis
      using that * mem_typedD(2) [OF T] by (auto simp: pc split: if_splits) blast+
  qed
  have 3: "b < k_next s' \<and> range_typed x \<and> file_allows (v_files (k_vfs s')) x" if "k_regions s' b = Some x" for b x
    using that mem_typedD(3-5) [OF T] nx r file_allows_kept [OF files] by (fastforce simp: rg split: if_splits)
  have 4: "int (card (mapped_by s' h)) \<le> fh_refs fh'" if f': "v_files (k_vfs s') h = Some fh'" for h fh'
  proof -
    obtain fh where f: "v_files (k_vfs s) h = Some fh" "fh_refs fh + (if ur_file r = Some h then 1 else 0) \<le> fh_refs fh'"
      using refs [OF f'] by blast
    show ?thesis using mem_typedD(6) [OF T f(1)] f(2) by (simp add: card_mapped_add [OF T rg new] split: if_splits)
  qed
  show ?thesis unfolding mem_typed_def using 1 2 3 4 by blast
qed

lemma kept_typed:
  assumes T: "mem_typed s" and P: "k_procs s p = Some pr" and k: "kept s p pr s'"
  shows "mem_typed s'"
proof -
  obtain t' where k: "k_regions s' = k_regions s" "k_vfs s' = k_vfs s" "k_next s \<le> k_next s'"
      "k_procs s' = (k_procs s)(p \<mapsto> pr\<lparr>p_regions_idx := t'\<rparr>)" and ix: "\<forall>x :: 'a ksys. index_ok x pr \<longrightarrow> index_ok x (pr\<lparr>p_regions_idx := t'\<rparr>)"
    using k unfolding kept_def same_world_def by blast
  have ra: "region_at s' = region_at s" by (simp add: region_at_def fun_eq_iff k)
  have tb: "table_ok s' qr \<longleftrightarrow> table_ok s qr" for qr by (simp add: table_ok_def index_ok_def ra k cong: option.case_cong)
  have "table_ok s (pr\<lparr>p_regions_idx := t'\<rparr>)" using mem_typedD(1) [OF T P] ix by (simp add: table_ok_def)
  then have 1: "table_ok s' qr" if "k_procs s' q = Some qr" for q qr
    using that mem_typedD(1) [OF T] by (auto simp: tb k split: if_splits)
  have 2: "set (p_regions xr) \<inter> set (p_regions yr) = {}"
    if "k_procs s' x = Some xr" "k_procs s' y = Some yr" "x \<noteq> y" for x y xr yr
  proof -
    have "\<exists>zr'. k_procs s z = Some zr' \<and> p_regions zr' = p_regions zr" if "k_procs s' z = Some zr" for z zr
      using that P by (auto simp: k split: if_splits)
    then show ?thesis using that mem_typedD(2) [OF T _ _ that(3)] by metis
  qed
  have 3: "b < k_next s'" if "k_regions s' b = Some x" for b x
    using mem_typedD(3) [OF T, of b] that k(1,3) by simp
  have 4: "mapped_by s' = mapped_by s" by (simp add: mapped_by_def k fun_eq_iff)
  have 5: "range_typed x \<and> file_allows (v_files (k_vfs s')) x" if "k_regions s' b = Some x" for b x
    using mem_typedD(4,5) [OF T, of b] that k(1,2) by simp
  have 6: "int (card (mapped_by s' h)) \<le> fh_refs fh" if "v_files (k_vfs s') h = Some fh" for h fh
    using mem_typedD(6) [OF T, of h] that k(2) 4 by simp
  show ?thesis unfolding mem_typed_def using 1 2 3 5 6 by blast
qed

section \<open>The operations\<close>

lemma mode_bits: "has_flag (scast (ucast mode :: u16)) MM_WRITE = has_flag mode MM_WRITE"
proof -
  have w: "(x :: u32) AND MM_WRITE \<noteq> 0 \<longleftrightarrow> bit x 1" for x
    using bit_iff_and_push_bit_not_eq_0 [of x 1] by (simp add: MM_WRITE_def)
  show ?thesis unfolding has_flag_def w by (simp add: bit_simps)
qed

lemma find_free_start:
  assumes P: "k_procs s p = Some pr" "\<not> p_locked pr" and T: "mem_typed s" and f: "find_user_region p v s = Inr None"
  shows "\<forall>b \<in> set (p_regions pr). ur_addr (region_at s b) \<noteq> v"
proof (intro ballI notI)
  fix b assume b: "b \<in> set (p_regions pr)" "ur_addr (region_at s b) = v"
  note t = mem_typedD(1) [OF T P(1)]
  have "covers (region_at s b) v"
    using covers_start [OF mem_typedD(4) [OF T table_okD(2) [OF t b(1)]]] b(2) by simp
  moreover have "nearest s pr v b" using b by (auto simp: nearest_def)
  ultimately show False using find_region_spec [OF P t, of v] f by auto
qed

lemma fresh_region: "mem_typed s \<Longrightarrow> k_regions s (k_next s) = None"
  using mem_typedD(3) [of s "k_next s"] by (cases "k_regions s (k_next s)") auto

lemma mmap_typed:
  assumes T: "mem_typed s" and P: "k_procs s p = Some pr" "\<not> p_locked pr" "p_regions_idx pr = Some t" and B: "pagers_below s"
    and run: "mmap W p addr sz mode s = Inr (ok, s')"
  shows "mem_typed s'"
proof (cases ok)
  case True
  let ?r = "private_region p (k_next s + 1) addr sz mode"
  have m: "find_user_region p addr s = Inr None" "PAGE_ALIGNED addr" "\<not> bad_range addr sz" "added s p pr ?r s'" "k_vfs s' = k_vfs s"
    using mmap_total [OF T P B, of W addr sz mode] True unfolding run by auto
  show ?thesis
  proof (rule entered_typed [OF T P(1) added_entered [OF m(4)] fresh_region [OF T]])
    show "\<forall>b \<in> set (p_regions pr). ur_addr (region_at s b) \<noteq> ur_addr ?r"
      using find_free_start [OF P(1,2) T m(1)] by (simp add: private_region_def)
    show "range_typed ?r"
      using m(2) good_range [OF m(3)] by (simp add: range_typed_def private_region_def) (simp add: PAGE_ALIGNED_def)
    show "file_allows (v_files (k_vfs s')) ?r" by (simp add: file_allows_def private_region_def)
  qed (auto simp: m(5) modes_kept_def private_region_def)
next
  case False
  then have "kept s p pr s'" using mmap_total [OF T P B, of W addr sz mode] unfolding run by (elim exE conjE) (simp del: not_None_eq)
  then show ?thesis by (rule kept_typed [OF T P(1)])
qed

text \<open>The end of a mapping.\<close>

lemma mmap_end_effect:
  assumes "mmap_end p a r s = Inr (ok, s')"
  shows "ok \<and> (\<exists>pr. k_procs s p = Some pr \<and> k_regions s' = (k_regions s)(a \<mapsto> r) \<and> k_next s' = k_next s
     \<and> v_files (k_vfs s') = v_files (k_vfs s) \<and> fewer_pagers s s'
     \<and> k_procs s' = (k_procs s)(p \<mapsto> pr\<lparr>p_regions := a # p_regions pr, p_locked := False\<rparr>))"
proof -
  obtain pr where p: "k_procs s p = Some pr"
    using assms by (auto simp: mmap_end_def change_proc_def rbind_Inr_iff deref_Inr_iff)
  define s1 where "s1 = set_proc p (pr\<lparr>p_regions := a # p_regions pr\<rparr>) (set_region a r s)"
  obtain x s2 where s2: "on_pager (ur_pager r) (\<lambda>(q, e). rbind (pager_add_map (region_map r) q) (\<lambda>q1. Inr ((), q1, e))) s1 = Inr (x, s2)"
    and fin: "unlock_proc p s2 = Inr s'" "ok"
    using assms p by (auto simp: mmap_end_def change_proc_def rbind_Inr_iff s1_def)
  have "same_tables s1 s2" by (rule on_pager_same [OF s2])
  then have t: "k_procs s2 = (k_procs s)(p \<mapsto> pr\<lparr>p_regions := a # p_regions pr\<rparr>)" "k_regions s2 = (k_regions s)(a \<mapsto> r)"
    "k_next s2 = k_next s" "v_files (k_vfs s2) = v_files (k_vfs s)" "fewer_pagers s s2"
    by (simp_all add: same_tables_def s1_def)
  have "s' = set_proc p (pr\<lparr>p_regions := a # p_regions pr, p_locked := False\<rparr>) s2"
    using fin(1) by (simp add: unlock_proc_def t)
  then show ?thesis using fin(2) p t by (simp del: unlock_last)
qed

lemma on_vfs_tables:
  assumes "on_vfs f s = Inr s'"
  shows "k_procs s' = k_procs s" "k_regions s' = k_regions s" "k_next s' = k_next s" "k_pagers s' = k_pagers s"
    "\<exists>v. f ((k_vfs s)\<lparr>v_heap := k_heap s\<rparr>) = Inr v \<and> k_vfs s' = v"
  using assms by (auto simp: on_vfs_def rbind_Inr_iff)

lemma same_idx: "p_regions_idx pr = i \<Longrightarrow> pr\<lparr>p_regions_idx := i\<rparr> = pr"
  by (cases pr) simp

lemma mmap_file_typed:
  fixes s s' :: "'s ksys"
  assumes T: "mem_typed s" and P: "k_procs s p = Some pr" "\<not> p_locked pr"
    and run: "mmap_file W p h offset addr sz mode s = Inr (ok, s')"
  shows "mem_typed s'"
proof -
  obtain x where x: "find_user_region p addr s = Inr x" using run by (auto simp: mmap_file_def rbind_Inr_iff)
  have same: ?thesis if "s' = s \<or> (\<exists>hp. s' = s\<lparr>k_heap := hp\<rparr>)"
    using that mem_typed_same [of s s'] T by auto
  show ?thesis
  proof (cases "x = None \<and> addr AND NOT PAGE_MASK = 0 \<and> offset AND NOT PAGE_MASK = 0 \<and> \<not> bad_range addr sz")
    case False
    then show ?thesis using run x by (intro same) (auto simp: mmap_file_def rbind_Inr_iff split: if_split_asm option.split_asm)
  next
    case fine: True
    obtain fh n where fn: "on_file h (k_vfs s) = Inr (fh, n)" using run x fine by (auto simp: mmap_file_def rbind_Inr_iff)
    have fh: "v_files (k_vfs s) h = Some fh" using fn by (auto simp: on_file_def rbind_Inr_iff deref_Inr_iff)
    obtain ok0 hp where m: "heap_malloc (k_heap s) = (ok0, hp)" by fastforce
    let ?may = "has_flag (fh_mode fh) FM_MMAP \<and> has_flag (fh_mode fh) FM_READ
      \<and> (has_flag mode MM_WRITE \<longrightarrow> has_flag (fh_mode fh) FM_WRITE)"
    show ?thesis
    proof (cases "?may \<and> ok0")
      case False
      then show ?thesis
        using run x fine fn m by (intro same) (auto simp: mmap_file_def split: if_split_asm option.split_asm)
    next
      case may: True
      define s1 where "s1 = set_proc p (pr\<lparr>p_locked := True\<rparr>) (s\<lparr>k_heap := hp, k_next := k_next s + 1\<rparr>)"
      obtain pa where r1: "mmap_file_locked W p (k_next s) h pa offset addr sz mode s1 = Inr (ok, s')"
        using run x fine fn m may P by (auto simp: mmap_file_def lock_proc_def s1_def split: option.split_asm)
      have p1: "k_procs s1 p = Some (pr\<lparr>p_locked := True\<rparr>)" by (simp add: s1_def)
      have failed: ?thesis if "mmap_error W p None t = Inr (ok, s')" "k_procs t = (k_procs s)(p \<mapsto> pr\<lparr>p_locked := True, p_regions_idx := i\<rparr>)"
          "k_regions t = k_regions s" "k_next s \<le> k_next t" "k_vfs t = k_vfs s" "\<And>u :: 's ksys. index_ok u pr \<Longrightarrow> index_ok u (pr\<lparr>p_regions_idx := i\<rparr>)" for t i
      proof -
        have e: "s' = set_proc p (pr\<lparr>p_regions_idx := i\<rparr>) (free_mem t)"
          using that(1,2) P by (simp add: mmap_error_def unlock_proc_def)
        define s0 where "s0 = s\<lparr>k_paging := k_paging t, k_env := k_env t, k_heap := k_heap t, k_pagers := k_pagers t\<rparr>"
        have k: "kept s0 p pr s'"
          by (rule keptI [where t' = i]) (use that(2-6) e in \<open>simp_all add: s0_def free_mem_def pager_env_def\<close>)
        have t: "mem_typed s0" using mem_typed_cong [of s0 s] T by (simp add: s0_def)
        have p: "k_procs s0 p = Some pr" using P(1) by (simp add: s0_def)
        show ?thesis by (rule kept_typed [OF t p k])
      qed
      show ?thesis
      proof (cases "p_regions_idx pr")
        case None
        show ?thesis
          by (rule failed [where t = s1 and i = None])
            (use r1 p1 None in \<open>auto simp: mmap_file_locked_def s1_def same_idx [OF None]\<close>)
      next
        case (Some t)
        obtain add_ok t' h' where add: "btree_add (k_heap s1) t addr (k_next s) = (add_ok, t', h')" by (metis prod_cases3)
        have i: "bt_inv t" using table_okD(4) [OF mem_typedD(1) [OF T P(1)]] Some by (simp add: index_ok_def)
        note b = btree_add_index [OF i add]
        define s2 where "s2 = set_proc p (pr\<lparr>p_locked := True, p_regions_idx := Some t'\<rparr>) (s1\<lparr>k_heap := h'\<rparr>)"
        show ?thesis
        proof (cases add_ok)
          case False
          show ?thesis
          proof (rule failed [where t = s2 and i = "Some t'"])
            show "mmap_error W p None s2 = Inr (ok, s')"
              using r1 p1 Some add False by (simp add: mmap_file_locked_def s2_def)
            show "index_ok u (pr\<lparr>p_regions_idx := Some t'\<rparr>)" if "index_ok u pr" for u :: "'s ksys"
              by (rule same_index [where t = t]) (use Some i b False that in simp_all)
          qed (simp_all add: s2_def s1_def)
        next
          case True
          obtain s3 where s3: "on_vfs (ref_file h) s2 = Inr s3"
            using r1 p1 Some add True by (auto simp: mmap_file_locked_def s2_def rbind_Inr_iff)
          define r where "r = \<lparr>ur_proc = k_junk_proc s3, ur_addr = addr, ur_size = sz, ur_file = Some h, ur_pager = pa,
            ur_offset = offset, ur_own_pager = False, ur_mode = ucast mode\<rparr>"
          have en: "mmap_end p (k_next s) r s3 = Inr (ok, s')"
            using r1 p1 Some add True s3 by (simp add: mmap_file_locked_def s2_def r_def)
          note v = on_vfs_tables [OF s3]
          have f3: "v_files (k_vfs s3) = (v_files (k_vfs s))(h \<mapsto> fh\<lparr>fh_refs := fh_refs fh + 1\<rparr>)"
          proof -
            obtain u where u: "ref_file h ((k_vfs s2)\<lparr>v_heap := k_heap s2\<rparr>) = Inr u" "k_vfs s3 = u" using v(5) by blast
            have "v_files u = (v_files (k_vfs s))(h \<mapsto> fh\<lparr>fh_refs := fh_refs fh + 1\<rparr>)"
              using u(1) fh by (auto simp: ref_file_def s2_def s1_def split: if_splits)
            then show ?thesis using u(2) by simp
          qed
          have k3: "k_procs s3 = (k_procs s)(p \<mapsto> pr\<lparr>p_locked := True, p_regions_idx := Some t'\<rparr>)" "k_regions s3 = k_regions s"
            "k_next s3 = k_next s + 1" using v(1-3) by (simp_all add: s2_def s1_def)
          from mmap_end_effect [OF en] k3
          have e: "k_regions s' = (k_regions s)(k_next s \<mapsto> r)" "k_next s' = k_next s + 1" "v_files (k_vfs s') = v_files (k_vfs s3)"
            "k_procs s' = (k_procs s)(p \<mapsto> pr\<lparr>p_regions := k_next s # p_regions pr, p_regions_idx := Some t'\<rparr>)"
            using P(2) by auto
          have "entered s p pr (k_next s) r s'"
            unfolding entered_def using e Some b True by (auto simp: r_def)
          then show ?thesis
          proof (rule entered_typed [OF T P(1) _ fresh_region [OF T]])
            show "\<forall>b \<in> set (p_regions pr). ur_addr (region_at s b) \<noteq> ur_addr r"
              using find_free_start [OF P T] x fine by (simp add: r_def)
            show "range_typed r" using fine good_range [of addr sz] by (simp add: range_typed_def r_def PAGE_ALIGNED_def)
            show "file_allows (v_files (k_vfs s')) r"
              using may by (simp add: file_allows_def r_def e(3) f3 mode_bits)
          qed (auto simp: e(3) f3 fh modes_kept_def r_def)
        qed
      qed
    qed
  qed
qed

section \<open>Changing the mode\<close>

lemma mode_typed:
  assumes T: "mem_typed s" and a: "k_regions s a = Some r"
    and s': "k_procs s' = k_procs s" "k_regions s' = (k_regions s)(a \<mapsto> r\<lparr>ur_mode := m\<rparr>)" "k_next s' = k_next s"
      "v_files (k_vfs s') = v_files (k_vfs s)"
    and ok: "file_allows (v_files (k_vfs s)) (r\<lparr>ur_mode := m\<rparr>)"
  shows "mem_typed s'"
proof -
  have at: "ur_addr (region_at s' b) = ur_addr (region_at s b)" "k_regions s' b = None \<longleftrightarrow> k_regions s b = None" for b
    using a by (auto simp: region_at_def s'(2))
  have 1: "table_ok s' qr" if "k_procs s' q = Some qr" for q qr
  proof (rule table_ok_cong [OF _ refl refl])
    show t: "table_ok s qr" using mem_typedD(1) [OF T] that s'(1) by simp
    show "k_regions s' b \<noteq> None \<and> ur_addr (region_at s' b) = ur_addr (region_at s b)" if "b \<in> set (p_regions qr)" for b
      using table_okD(2) [OF t that] at by simp
  qed
  have 2: "mapped_by s' h = mapped_by s h" for h
    using a by (auto simp: mapped_by_def s'(2))
  have 3: "range_typed (r\<lparr>ur_mode := m\<rparr>)" using mem_typedD(4) [OF T a] by (simp add: range_typed_def)
  have 4: "b < k_next s' \<and> range_typed x \<and> file_allows (v_files (k_vfs s')) x" if "k_regions s' b = Some x" for b x
    using that mem_typedD(3-5) [OF T] a ok 3 by (auto simp: s' split: if_splits)
  have 5: "set (p_regions xr) \<inter> set (p_regions yr) = {}" if "k_procs s' x = Some xr" "k_procs s' y = Some yr" "x \<noteq> y" for x y xr yr
    using mem_typedD(2) [OF T, folded s'(1)] that by blast
  have 6: "int (card (mapped_by s' h)) \<le> fh_refs fh" if "v_files (k_vfs s') h = Some fh" for h fh
    using mem_typedD(6) [OF T, of h fh] that by (simp add: 2 s'(4))
  show ?thesis unfolding mem_typed_def using 1 4 5 6 by blast
qed

lemma mchmap_effect:
  assumes run: "mchmap W p addr mode s = Inr (ok, s')" and P: "k_procs s p = Some pr" "\<not> p_locked pr"
  shows "s' = s \<and> \<not> ok \<or> (\<exists>a r. ok \<and> find_user_region p addr s = Inr (Some a) \<and> k_regions s a = Some r
     \<and> (\<forall>h fh. ur_file r = Some h \<and> v_files (k_vfs s) h = Some fh \<and> has_flag mode MM_WRITE \<longrightarrow> has_flag (fh_mode fh) FM_WRITE)
     \<and> k_procs s' = k_procs s \<and> k_regions s' = (k_regions s)(a \<mapsto> r\<lparr>ur_mode := ucast mode\<rparr>) \<and> k_next s' = k_next s
     \<and> v_files (k_vfs s') = v_files (k_vfs s) \<and> fewer_pagers s s')"
proof -
  obtain x where x: "find_user_region p addr s = Inr x" using run by (auto simp: mchmap_def rbind_Inr_iff)
  show ?thesis
  proof (cases x)
    case None
    then show ?thesis using run x by (auto simp: mchmap_def)
  next
    case (Some a)
    obtain r where r: "k_regions s a = Some r" using run x Some by (auto simp: mchmap_def rbind_Inr_iff deref_Inr_iff)
    obtain b where b: "(case ur_file r of None \<Rightarrow> Inr True
          | Some h \<Rightarrow> rbind (deref (v_files (k_vfs s)) h) (\<lambda>fh. Inr (\<not> (has_flag mode MM_WRITE \<and> \<not> has_flag (fh_mode fh) FM_WRITE)))) = Inr b"
      using run x Some r by (auto simp: mchmap_def rbind_Inr_iff)
    show ?thesis
    proof (cases b)
      case False
      then show ?thesis using run x Some r b by (auto simp: mchmap_def)
    next
      case True
      have allowed: "has_flag (fh_mode fh) FM_WRITE" if "ur_file r = Some h" "v_files (k_vfs s) h = Some fh" "has_flag mode MM_WRITE" for h fh
        using b True that by simp
      define s1 where "s1 = set_region a (r\<lparr>ur_mode := ucast mode\<rparr>) (set_proc p (pr\<lparr>p_locked := True\<rparr>) s)"
      obtain s3 where s3: "in_space_of p (\<lambda>s2. rbind (page_range (ur_addr r) (ur_size r)) (\<lambda>ps.
          each_page (mchmap_page W (has_flag mode MM_WRITE)) ps s2)) s1 = Inr s3" and fin: "unlock_proc p s3 = Inr s'" "ok"
        using run x Some r b True P by (auto simp: mchmap_def lock_proc_def rbind_Inr_iff s1_def)
      have "same_tables s1 s3"
        by (rule in_space_same [OF _ s3]) (auto simp: rbind_Inr_iff intro: each_page_same mchmap_page_same)
      then have t: "k_procs s3 = (k_procs s)(p \<mapsto> pr\<lparr>p_locked := True\<rparr>)" "k_regions s3 = (k_regions s)(a \<mapsto> r\<lparr>ur_mode := ucast mode\<rparr>)"
        "k_next s3 = k_next s" "v_files (k_vfs s3) = v_files (k_vfs s)" "fewer_pagers s s3"
        by (simp_all add: same_tables_def s1_def)
      have "s' = set_proc p pr s3" using fin(1) P(2) by (simp add: unlock_proc_def t)
      then have "k_procs s' = k_procs s" "k_regions s' = k_regions s3" "k_next s' = k_next s" "v_files (k_vfs s') = v_files (k_vfs s)"
        "fewer_pagers s s'"
        using t P(1) by auto
      then show ?thesis using fin(2) x Some r allowed t(2) by auto
    qed
  qed
qed

lemma mchmap_typed:
  assumes T: "mem_typed s" and P: "k_procs s p = Some pr" "\<not> p_locked pr" and run: "mchmap W p addr mode s = Inr (ok, s')"
  shows "mem_typed s'"
  using mchmap_effect [OF run P]
proof (elim disjE exE conjE)
  fix a r
  assume a: "k_regions s a = Some r"
    and f: "\<forall>h fh. ur_file r = Some h \<and> v_files (k_vfs s) h = Some fh \<and> has_flag mode MM_WRITE \<longrightarrow> has_flag (fh_mode fh) FM_WRITE"
    and s': "k_procs s' = k_procs s" "k_regions s' = (k_regions s)(a \<mapsto> r\<lparr>ur_mode := ucast mode\<rparr>)" "k_next s' = k_next s"
      "v_files (k_vfs s') = v_files (k_vfs s)"
  show ?thesis
  proof (rule mode_typed [OF T a s'])
    show "file_allows (v_files (k_vfs s)) (r\<lparr>ur_mode := ucast mode\<rparr>)"
      using mem_typedD(5) [OF T a] f by (auto simp: file_allows_def mode_bits split: option.splits)
  qed
qed (use T in simp)

section \<open>Unmapping\<close>

lemma btree_remove_v_cf: "btree_remove_v h t k v = Inr (x, t', h') \<Longrightarrow> bt_cf t' = bt_cf t"
  by (auto simp: btree_remove_v_def split: sum.splits)

lemma remove_pair:
  assumes inv: "bt_inv t" "bt_cf t = id_key_cmp_fun" and d: "distinct (btree_iter t)"
    and r: "btree_remove_v h t k v = Inr (x, t', h')"
  shows "bt_inv t'" "bt_cf t' = id_key_cmp_fun" "mset (btree_iter t') = mset (btree_iter t) - {#(k, v)#}"
proof -
  obtain x1 t1 h1 where f: "btree_remove_v h t k v = Inr (x1, t1, h1)" "bt_inv t1"
    "btree_iter t1 = filter (\<lambda>y. \<not> (bt_cf t k (fst y) = 0 \<and> snd y = v)) (btree_iter t)"
    using btree_remove_v_facts [OF inv(1), of h k v] by blast
  then have t1: "t1 = t'" using r by simp
  show "bt_inv t'" using f(2) t1 by simp
  show "bt_cf t' = id_key_cmp_fun" using btree_remove_v_cf [OF r] inv(2) by simp
  have "(\<lambda>y. \<not> (id_key_cmp_fun k (fst y) = 0 \<and> snd y = v)) = (\<lambda>y. (k, v) \<noteq> y)"
    by (auto simp: id_key_cmp_fun_def fun_eq_iff)
  then have "btree_iter t' = remove1 (k, v) (btree_iter t)"
    using f(3) t1 inv(2) d by (simp add: distinct_remove1_removeAll removeAll_filter_not_eq)
  then show "mset (btree_iter t') = mset (btree_iter t) - {#(k, v)#}" by simp
qed

lemma index_distinct:
  assumes "table_ok s pr" and "p_regions_idx pr = Some t"
  shows "distinct (btree_iter t)"
proof -
  have m: "mset (btree_iter t) = mset (map (\<lambda>b. (ur_addr (region_at s b), b)) (p_regions pr))"
    using table_okD(4) [OF assms(1)] assms(2) by (simp add: index_ok_def)
  have "distinct (map (\<lambda>b. (ur_addr (region_at s b), b)) (p_regions pr))"
    using table_okD(1) [OF assms(1)] by (simp add: distinct_map inj_on_def)
  then show ?thesis using mset_eq_imp_distinct_iff [OF m] by simp
qed

lemma munmap_inner_effect:
  assumes run: "munmap_inner W p a s = Inr s'" and pr: "k_procs s p = Some pr" and t: "table_ok s pr"
  shows "\<exists>r. k_regions s a = Some r \<and> left s p pr a s' \<and> fewer_pagers s s'
    \<and> (case ur_file r of
         None \<Rightarrow> v_files (k_vfs s') = v_files (k_vfs s)
       | Some h \<Rightarrow> \<exists>fh. v_files (k_vfs s) h = Some fh
           \<and> v_files (k_vfs s') = (v_files (k_vfs s))(h := (if fh_refs fh = 1 then None else Some (fh\<lparr>fh_refs := fh_refs fh - 1\<rparr>))))"
proof -
  obtain r where r: "k_regions s a = Some r" using run by (auto simp: munmap_inner_def rbind_Inr_iff deref_Inr_iff)
  obtain idx where idx: "p_regions_idx pr = Some idx"
    using run r pr by (auto simp: munmap_inner_def split: option.splits)
  have i: "bt_inv idx" "bt_cf idx = id_key_cmp_fun" using table_okD(4) [OF t] idx by (simp_all add: index_ok_def)
  obtain x idx' h where rm: "btree_remove_v (k_heap s) idx (ur_addr r) a = Inr (x, idx', h)"
    using run r pr idx by (auto simp: munmap_inner_def rbind_Inr_iff)
  note rp = remove_pair [OF i index_distinct [OF t idx] rm]
  define s2 where "s2 = set_proc p (pr\<lparr>p_regions := remove1 a (p_regions pr), p_regions_idx := Some idx'\<rparr>) (s\<lparr>k_heap := h\<rparr>)"
  obtain s3 where s3: "in_space_of p (\<lambda>s2. rbind (page_range (ur_addr r) (ur_size r)) (\<lambda>ps. each_page (munmap_page W r) ps s2)) s2 = Inr s3"
    using run r pr idx rm by (auto simp: munmap_inner_def rbind_Inr_iff s2_def)
  obtain u s4 where s4: "on_pager (ur_pager r) (\<lambda>(q, e). rbind (pager_rm_map (region_map r) q) (\<lambda>q1. Inr ((), q1, e))) s3 = Inr (u, s4)"
    using run r pr idx rm s3 by (auto simp: munmap_inner_def rbind_Inr_iff s2_def)
  obtain s5 where s5: "(case ur_file r of None \<Rightarrow> Inr s4 | Some h \<Rightarrow> on_vfs (unref_file (w_code W) h) s4) = Inr s5"
    using run r pr idx rm s3 s4 by (auto simp: munmap_inner_def rbind_Inr_iff s2_def)
  obtain s6 where s6: "(if ur_own_pager r then free_pager W (ur_pager r) s5 else Inr s5) = Inr s6"
    and s': "s' = free_mem (s6\<lparr>k_regions := (k_regions s6)(a := None)\<rparr>)"
    using run r pr idx rm s3 s4 s5 by (auto simp: munmap_inner_def rbind_Inr_iff s2_def)
  have 23: "same_tables s2 s3" by (rule in_space_same [OF _ s3]) (auto simp: rbind_Inr_iff intro: each_page_same munmap_page_same)
  have 34: "same_tables s3 s4" by (rule on_pager_same [OF s4])
  have 45: "k_procs s5 = k_procs s4 \<and> k_regions s5 = k_regions s4 \<and> k_next s5 = k_next s4 \<and> k_pagers s5 = k_pagers s4"
    using s5 on_vfs_tables [of "unref_file (w_code W) _" s4 s5] by (auto split: option.splits)
  have 56: "same_tables s5 s6" using s6 free_pager_same by (auto split: if_splits)
  have t6: "k_procs s6 = k_procs s2" "k_regions s6 = k_regions s" "k_next s6 = k_next s" "v_files (k_vfs s6) = v_files (k_vfs s5)"
    "v_files (k_vfs s4) = v_files (k_vfs s)"
    using 23 34 45 56 by (simp_all add: same_tables_def s2_def)
  have "fewer_pagers s s2" "fewer_pagers s4 s5" using 45 by (simp_all add: s2_def fewer_pagers_def)
  then have "fewer_pagers s s6" using 23 34 56 unfolding same_tables_def by (blast intro: fewer_pagers_trans)
  then have dm: "fewer_pagers s s'" by (simp add: s' fewer_pagers_def)
  have "left s p pr a s'"
    unfolding left_def using idx rp i(2) t6 r by (auto simp: s' s2_def region_at_def)
  moreover have "case ur_file r of
         None \<Rightarrow> v_files (k_vfs s') = v_files (k_vfs s)
       | Some h \<Rightarrow> \<exists>fh. v_files (k_vfs s) h = Some fh
           \<and> v_files (k_vfs s') = (v_files (k_vfs s))(h := (if fh_refs fh = 1 then None else Some (fh\<lparr>fh_refs := fh_refs fh - 1\<rparr>)))"
  proof (cases "ur_file r")
    case None
    then show ?thesis using s5 t6 by (simp add: s')
  next
    case (Some h)
    then obtain v where v: "unref_file (w_code W) h ((k_vfs s4)\<lparr>v_heap := k_heap s4\<rparr>) = Inr v" "k_vfs s5 = v"
      using s5 on_vfs_tables(5) [of "unref_file (w_code W) h" s4 s5] by auto
    from v(1) show ?thesis by (rule unref_file_files) (use Some v(2) t6 in \<open>simp add: s'\<close>)
  qed
  ultimately show ?thesis using r dm by blast
qed

lemma left_table:
  assumes t: "table_ok s pr" and e: "left s p pr a s'" and mem: "a \<in> set (p_regions pr)" and pr': "k_procs s' p = Some pr'"
  shows "table_ok s' pr'"
proof -
  obtain tr tr' where i: "p_regions_idx pr = Some tr" "bt_inv tr'" "bt_cf tr' = bt_cf tr"
      "mset (btree_iter tr') = mset (btree_iter tr) - {#(ur_addr (region_at s a), a)#}"
    and q: "pr' = pr\<lparr>p_regions := remove1 a (p_regions pr), p_regions_idx := Some tr'\<rparr>"
    using e pr' unfolding left_def by auto
  have rg: "k_regions s' = (k_regions s)(a := None)" using e by (simp add: left_def)
  let ?rs = "remove1 a (p_regions pr)"
  have d: "distinct (p_regions pr)" "distinct (map (\<lambda>b. ur_addr (region_at s b)) (p_regions pr))" using t by (simp_all add: table_ok_def)
  have sub: "set ?rs = set (p_regions pr) - {a}" using d(1) by simp
  have rb: "region_at s' b = region_at s b" if "b \<in> set ?rs" for b
    by (rule region_at_other [OF rg]) (use that sub in auto)
  have ix: "bt_cf tr = id_key_cmp_fun" "mset (btree_iter tr) = mset (map (\<lambda>b. (ur_addr (region_at s b), b)) (p_regions pr))"
    using table_okD(4) [OF t] i(1) by (simp_all add: index_ok_def)
  have "mset (map (\<lambda>b. (ur_addr (region_at s' b), b)) ?rs) = mset (map (\<lambda>b. (ur_addr (region_at s b), b)) ?rs)"
    by (rule arg_cong [where f = mset], rule map_cong [OF refl]) (simp add: rb)
  also have "\<dots> = mset (map (\<lambda>b. (ur_addr (region_at s b), b)) (p_regions pr)) - {#(ur_addr (region_at s a), a)#}"
    using mem by (simp add: image_mset_Diff)
  finally have "mset (map (\<lambda>b. (ur_addr (region_at s' b), b)) ?rs) = mset (btree_iter tr')" using i(4) ix(2) by simp
  then have "index_ok s' pr'" using i(2,3) ix(1) by (simp add: index_ok_def q)
  moreover have "distinct (map (\<lambda>b. ur_addr (region_at s' b)) ?rs)"
  proof -
    have "inj_on (\<lambda>b. ur_addr (region_at s b)) (set ?rs)"
      using d(2) sub by (auto simp: distinct_map intro: inj_on_subset)
    then have "inj_on (\<lambda>b. ur_addr (region_at s' b)) (set ?rs)" using rb by (simp add: inj_on_def)
    then show ?thesis using d(1) by (simp add: distinct_map)
  qed
  moreover have "k_regions s' b \<noteq> None" if "b \<in> set ?rs" for b
    using that sub t by (auto simp: rg table_ok_def)
  ultimately show ?thesis using d(1) by (simp add: table_ok_def q)
qed

lemma munmap_inner_typed:
  assumes T: "mem_typed s" and P: "k_procs s p = Some pr" and mem: "a \<in> set (p_regions pr)" and run: "munmap_inner W p a s = Inr s'"
  shows "mem_typed s'"
proof -
  note t = mem_typedD(1) [OF T P]
  obtain r where r: "k_regions s a = Some r" and l: "left s p pr a s'"
    and f: "case ur_file r of
         None \<Rightarrow> v_files (k_vfs s') = v_files (k_vfs s)
       | Some h \<Rightarrow> \<exists>fh. v_files (k_vfs s) h = Some fh
           \<and> v_files (k_vfs s') = (v_files (k_vfs s))(h := (if fh_refs fh = 1 then None else Some (fh\<lparr>fh_refs := fh_refs fh - 1\<rparr>)))"
    using munmap_inner_effect [OF run P t] by blast
  obtain t' where rg: "k_regions s' = (k_regions s)(a := None)" and nx: "k_next s' = k_next s"
    and pc: "k_procs s' = (k_procs s)(p \<mapsto> pr\<lparr>p_regions := remove1 a (p_regions pr), p_regions_idx := Some t'\<rparr>)"
    using l by (auto simp: left_def)
  have sub: "set (remove1 a (p_regions pr)) \<subseteq> set (p_regions pr)" by (rule set_remove1_subset)
  have 1: "table_ok s' qr" if "k_procs s' q = Some qr" for q qr
  proof (cases "q = p")
    case True
    then show ?thesis using left_table [OF t l mem] that by simp
  next
    case False
    then have q: "k_procs s q = Some qr" using that by (simp add: pc)
    show ?thesis
    proof (rule table_ok_cong [OF _ refl refl mem_typedD(1) [OF T q]])
      fix b assume b: "b \<in> set (p_regions qr)"
      then have "b \<noteq> a" using mem_typedD(2) [OF T q P False] mem by auto
      then show "k_regions s' b \<noteq> None \<and> ur_addr (region_at s' b) = ur_addr (region_at s b)"
        using region_at_other [OF rg] table_okD(2) [OF mem_typedD(1) [OF T q] b] by (simp add: rg)
    qed
  qed
  have 2: "set (p_regions xr) \<inter> set (p_regions yr) = {}"
    if xy: "k_procs s' x = Some xr" "k_procs s' y = Some yr" "x \<noteq> y" for x y xr yr
  proof -
    have old: "\<exists>zr'. k_procs s z = Some zr' \<and> set (p_regions zr) \<subseteq> set (p_regions zr')" if "k_procs s' z = Some zr" for z zr
      using that P sub by (auto simp: pc split: if_splits)
    obtain xr' yr' where "k_procs s x = Some xr'" "set (p_regions xr) \<subseteq> set (p_regions xr')"
        "k_procs s y = Some yr'" "set (p_regions yr) \<subseteq> set (p_regions yr')"
      using old [OF xy(1)] old [OF xy(2)] by blast
    then show ?thesis using mem_typedD(2) [OF T, of x xr' y yr'] xy(3) by blast
  qed
  have cm: "mapped_by s' h = mapped_by s h - {a}" for h by (auto simp: mapped_by_def rg)
  have card: "card (mapped_by s' h) = card (mapped_by s h) - (if ur_file r = Some h then 1 else 0)" for h
  proof -
    have "a \<in> mapped_by s h \<longleftrightarrow> ur_file r = Some h" using r by (simp add: mapped_by_def)
    then show ?thesis using finite_mapped [OF T, of h] by (simp add: cm)
  qed
  have pos: "0 < card (mapped_by s h)" if "ur_file r = Some h" for h
    using finite_mapped [OF T, of h] that r by (auto simp: card_gt_0_iff mapped_by_def)
  have mk: "modes_kept (v_files (k_vfs s)) (v_files (k_vfs s')) x" if b: "k_regions s b = Some x" "b \<noteq> a" for b x
    unfolding modes_kept_def
  proof (intro allI impI)
    fix h fh assume h: "ur_file x = Some h \<and> v_files (k_vfs s) h = Some fh"
    show "\<exists>fh'. v_files (k_vfs s') h = Some fh' \<and> fh_mode fh' = fh_mode fh"
    proof (cases "ur_file r = Some h")
      case True
      have "{a, b} \<subseteq> mapped_by s h" using r True b(1) h by (simp add: mapped_by_def)
      then have "card {a, b} \<le> card (mapped_by s h)" by (rule card_mono [OF finite_mapped [OF T]])
      then have "fh_refs fh \<noteq> 1" using mem_typedD(6) [OF T, of h fh] h b(2) by auto
      then show ?thesis using f True h by auto
    next
      case False
      then show ?thesis using f h by (auto split: option.splits)
    qed
  qed
  have 3: "b < k_next s' \<and> range_typed x \<and> file_allows (v_files (k_vfs s')) x" if "k_regions s' b = Some x" for b x
  proof -
    have b: "k_regions s b = Some x" "b \<noteq> a" using that by (auto simp: rg split: if_splits)
    show ?thesis using mem_typedD(3-5) [OF T b(1)] file_allows_kept [OF mk [OF b]] nx by simp
  qed
  have 4: "int (card (mapped_by s' h)) \<le> fh_refs fh'" if f': "v_files (k_vfs s') h = Some fh'" for h fh'
  proof (cases "ur_file r = Some h")
    case True
    then show ?thesis using f f' card [of h] pos [OF True] mem_typedD(6) [OF T, of h] by (auto split: if_splits)
  next
    case False
    then have "v_files (k_vfs s) h = Some fh'" using f f' by (auto split: option.splits if_splits)
    then show ?thesis using mem_typedD(6) [OF T] card [of h] False by simp
  qed
  show ?thesis unfolding mem_typed_def using 1 2 3 4 by blast
qed

lemma lock_typed:
  assumes "mem_typed s" and "k_procs s p = Some pr"
  shows "mem_typed (set_proc p (pr\<lparr>p_locked := b\<rparr>) s)"
proof -
  have ra: "region_at (set_proc p x s) = region_at s" for x by (simp add: region_at_def fun_eq_iff)
  have k: "table_ok (set_proc p x s) y = table_ok s y" for x y :: process by (simp add: table_ok_def index_ok_def ra cong: option.case_cong)
  have t: "table_ok s (pr\<lparr>p_locked := b\<rparr>) = table_ok s pr" by (simp add: table_ok_def index_ok_def cong: option.case_cong)
  show ?thesis
    using assms unfolding mem_typed_def by (auto simp: k t mapped_by_def split: if_splits) blast+
qed

lemma munmap_typed:
  assumes T: "mem_typed s" and P: "k_procs s p = Some pr" "\<not> p_locked pr" and run: "munmap W p addr s = Inr (ok, s')"
  shows "mem_typed s'"
proof -
  obtain x where x: "find_user_region p addr s = Inr x" using run by (auto simp: munmap_def rbind_Inr_iff)
  show ?thesis
  proof (cases x)
    case None
    then show ?thesis using run x T by (auto simp: munmap_def)
  next
    case (Some a)
    have mem: "a \<in> set (p_regions pr)"
      using find_region_spec [OF P mem_typedD(1) [OF T P(1)], of addr] x Some by (auto simp: nearest_def)
    define s1 where "s1 = set_proc p (pr\<lparr>p_locked := True\<rparr>) s"
    have T1: "mem_typed s1" unfolding s1_def by (rule lock_typed [OF T P(1)])
    obtain s2 where s2: "munmap_inner W p a s1 = Inr s2" "unlock_proc p s2 = Inr s'"
      using run x Some P by (auto simp: munmap_def lock_proc_def rbind_Inr_iff s1_def)
    have T2: "mem_typed s2" by (rule munmap_inner_typed [OF T1 _ _ s2(1), of "pr\<lparr>p_locked := True\<rparr>"]) (use mem in \<open>simp_all add: s1_def\<close>)
    obtain q where q: "k_procs s2 p = Some q" "s' = set_proc p (q\<lparr>p_locked := False\<rparr>) s2"
      using s2(2) by (auto simp: unlock_proc_def rbind_Inr_iff deref_Inr_iff)
    show ?thesis using lock_typed [OF T2 q(1)] q(2) by simp
  qed
qed

section \<open>Sequences of calls\<close>

lemma mmap_file_pagers:
  assumes run: "mmap_file W p h offset addr sz mode s = Inr (ok, s')" and P: "k_procs s p = Some pr" "\<not> p_locked pr"
  shows "fewer_pagers s s' \<and> k_next s \<le> k_next s' \<and> (\<exists>pr'. k_procs s' = (k_procs s)(p \<mapsto> pr') \<and> \<not> p_locked pr')"
proof -
  have id: "k_procs s = (k_procs s)(p \<mapsto> pr)" using P(1) by auto
  have err: "fewer_pagers t t' \<and> k_next t' = k_next t \<and> (\<exists>pr'. k_procs t' = (k_procs t)(p \<mapsto> pr') \<and> \<not> p_locked pr')"
    if "mmap_error W p None t = Inr (ok, t')" for t t' :: "'a ksys"
    using that by (auto simp: mmap_error_def unlock_proc_def rbind_Inr_iff)
  have lck: "fewer_pagers t t' \<and> k_next t' = k_next t \<and> (\<exists>pr'. k_procs t' = (k_procs t)(p \<mapsto> pr') \<and> \<not> p_locked pr')"
    if r: "mmap_file_locked W p a h pa offset addr sz mode t = Inr (ok, t')" and q: "k_procs t p = Some q" for t t' :: "'a ksys" and a pa q
  proof (cases "p_regions_idx q")
    case None
    then show ?thesis using r q err by (simp add: mmap_file_locked_def)
  next
    case (Some idx)
    obtain add_ok idx' h' where add: "btree_add (k_heap t) idx addr a = (add_ok, idx', h')" by (metis prod_cases3)
    define t1 where "t1 = set_proc p (q\<lparr>p_regions_idx := Some idx'\<rparr>) (t\<lparr>k_heap := h'\<rparr>)"
    have t1: "fewer_pagers t t1" "k_next t1 = k_next t" "\<And>x. (k_procs t1)(p \<mapsto> x) = (k_procs t)(p \<mapsto> x)" by (simp_all add: t1_def)
    show ?thesis
    proof (cases add_ok)
      case False
      then have "mmap_error W p None t1 = Inr (ok, t')" using r q Some add by (simp add: mmap_file_locked_def t1_def)
      then show ?thesis using err [of t1 t'] t1 by (auto intro: fewer_pagers_trans)
    next
      case True
      then obtain t2 x where t2: "on_vfs (ref_file h) t1 = Inr t2" "mmap_end p a x t2 = Inr (ok, t')"
        using r q Some add by (auto simp: mmap_file_locked_def t1_def rbind_Inr_iff)
      note v = on_vfs_tables [OF t2(1)]
      have "fewer_pagers t t2" using v(4) t1(1) by (simp add: fewer_pagers_def)
      then show ?thesis using mmap_end_effect [OF t2(2)] v t1 by (auto intro: fewer_pagers_trans)
    qed
  qed
  obtain x where x: "find_user_region p addr s = Inr x" using run by (auto simp: mmap_file_def rbind_Inr_iff)
  show ?thesis
  proof (cases "s' = s \<or> (\<exists>hp. s' = s\<lparr>k_heap := hp\<rparr>)")
    case True
    then show ?thesis using id P(2) by auto
  next
    case False
    then obtain hp pa where r1: "mmap_file_locked W p (k_next s) h pa offset addr sz mode
        (set_proc p (pr\<lparr>p_locked := True\<rparr>) (s\<lparr>k_heap := hp, k_next := k_next s + 1\<rparr>)) = Inr (ok, s')"
      using run x P by (auto simp: mmap_file_def lock_proc_def rbind_Inr_iff split: if_split_asm option.split_asm prod.split_asm)
    show ?thesis using lck [OF r1] by auto
  qed
qed

text \<open>The calls that processes make on their memory. A process that is locked is in the middle of one.\<close>

datatype mem_call =
    Mmap u32 u32 u32
  | Mmap_file nat u32 u32 u32 u32
  | Mchmap u32 u32
  | Munmap u32

fun mem_do :: "'s world \<Rightarrow> nat \<Rightarrow> mem_call \<Rightarrow> 's ksys \<Rightarrow> (bool \<times> 's ksys) res" where
  "mem_do W p (Mmap addr sz mode) s = mmap W p addr sz mode s"
| "mem_do W p (Mmap_file h offset addr sz mode) s = mmap_file W p h offset addr sz mode s"
| "mem_do W p (Mchmap addr mode) s = mchmap W p addr mode s"
| "mem_do W p (Munmap addr) s = munmap W p addr s"

fun mem_run :: "'s world \<Rightarrow> (nat \<times> mem_call) list \<Rightarrow> 's ksys \<Rightarrow> (bool list \<times> 's ksys) res" where
  "mem_run W [] s = Inr ([], s)"
| "mem_run W ((p, c) # cs) s =
     rbind (mem_do W p c s) (\<lambda>(ok, s1). rbind (mem_run W cs s1) (\<lambda>(oks, s2). Inr (ok # oks, s2)))"

definition idle :: "'s ksys \<Rightarrow> bool" where
  "idle s \<longleftrightarrow> (\<forall>p pr. k_procs s p = Some pr \<longrightarrow> \<not> p_locked pr)"

lemma idle_one:
  assumes "idle s" and "k_procs s' = (k_procs s)(p \<mapsto> pr')" and "\<not> p_locked pr'"
  shows "idle s'"
  using assms by (auto simp: idle_def)

lemma fewer_below: "pagers_below s \<Longrightarrow> fewer_pagers s s' \<Longrightarrow> k_next s \<le> k_next s' \<Longrightarrow> pagers_below s'"
  unfolding pagers_below_def fewer_pagers_def by (meson order_less_le_trans)

text \<open>A process whose tables are gone gets no memory: the error path frees whatever the field \<open>pager\<close> holds.\<close>

lemma mmap_dead:
  assumes T: "mem_typed s" and P: "k_procs s p = Some pr" "\<not> p_locked pr" "p_regions_idx pr = None"
    and run: "mmap W p addr sz mode s = Inr (ok, s')"
  shows "mem_typed s' \<and> fewer_pagers s s' \<and> k_next s \<le> k_next s' \<and> k_procs s' = k_procs s"
proof -
  obtain x where x: "find_user_region p addr s = Inr x" using run by (auto simp: mmap_def rbind_Inr_iff)
  show ?thesis
  proof (cases "s' = s \<or> (\<exists>h. s' = s\<lparr>k_heap := h\<rparr>)")
    case True
    then show ?thesis using T mem_typed_cong [of s' s] by auto
  next
    case False
    then obtain h where r: "mmap_locked W p (k_next s) addr sz mode (set_proc p (pr\<lparr>p_locked := True\<rparr>) (s\<lparr>k_heap := h, k_next := k_next s + 1\<rparr>)) = Inr (ok, s')"
      using run x P by (auto simp: mmap_def lock_proc_def split: if_split_asm prod.split_asm)
    define s1 where "s1 = set_proc p (pr\<lparr>p_locked := True\<rparr>) (s\<lparr>k_heap := h, k_next := k_next s + 1\<rparr>)"
    obtain s2 where s2: "same_tables s1 s2" "unlock_proc p (free_mem s2) = Inr s'"
    proof (cases "k_junk s1")
      case None
      then show thesis using r P(3) that [of s1] by (simp add: mmap_locked_def mmap_error_def s1_def rbind_Inr_iff)
    next
      case (Some q)
      then obtain t where t: "free_pager W q s1 = Inr t" "unlock_proc p (free_mem t) = Inr s'"
        using r P(3) by (auto simp: mmap_locked_def mmap_error_def s1_def rbind_Inr_iff)
      show thesis by (rule that [OF free_pager_same [OF t(1)] t(2)])
    qed
    have t: "k_procs s2 = (k_procs s)(p \<mapsto> pr\<lparr>p_locked := True\<rparr>)" "k_regions s2 = k_regions s" "k_next s2 = k_next s + 1"
      "v_files (k_vfs s2) = v_files (k_vfs s)" "fewer_pagers s s2"
      using s2(1) by (simp_all add: same_tables_def s1_def)
    have e: "s' = set_proc p pr (free_mem s2)" using s2(2) t(1) P(2) by (simp add: unlock_proc_def)
    have pc: "k_procs s' = k_procs s" using e t(1) P(1) by auto
    have "mem_typed (s\<lparr>k_next := k_next s + 1\<rparr>)"
    proof (rule kept_typed [OF T P(1)])
      show "kept s p pr (s\<lparr>k_next := k_next s + 1\<rparr>)"
        by (rule keptI [where t' = None]) (use P(1) same_idx [OF P(3)] in \<open>auto simp: pager_env_def\<close>)
    qed
    then have "mem_typed s'" using mem_typed_cong [of s' "s\<lparr>k_next := k_next s + 1\<rparr>"] pc e t by simp
    then show ?thesis using pc e t by simp
  qed
qed

lemma mem_do_typed:
  assumes T: "mem_typed s" and I: "idle s" and B: "pagers_below s" and P: "k_procs s p = Some pr" and run: "mem_do W p c s = Inr (ok, s')"
  shows "mem_typed s' \<and> idle s' \<and> pagers_below s'"
proof -
  have ul: "\<not> p_locked pr" using I P by (simp add: idle_def)
  show ?thesis
  proof (cases c)
    case (Mmap addr sz mode)
    then have run: "mmap W p addr sz mode s = Inr (ok, s')" using run by simp
    show ?thesis
    proof (cases "p_regions_idx pr")
      case None
      then show ?thesis using mmap_dead [OF T P ul None run] I fewer_below [OF B] by (simp add: idle_def)
    next
      case (Some t)
      have T': "mem_typed s'" by (rule mmap_typed [OF T P ul Some B run])
      have "idle s' \<and> pagers_below s'"
      proof (cases ok)
        case True
        then have a: "added s p pr (private_region p (k_next s + 1) addr sz mode) s'" "k_next s + 1 < k_next s'"
          "\<exists>q. k_pagers s' = (k_pagers s)(k_next s + 1 \<mapsto> q)"
          using mmap_total [OF T P ul Some B, of W addr sz mode] unfolding run by auto
        have "pagers_below s'" using a(2,3) B unfolding pagers_below_def by (fastforce split: if_splits)
        moreover obtain t' where "k_procs s' = (k_procs s)(p \<mapsto> pr\<lparr>p_regions := k_next s # p_regions pr, p_regions_idx := Some t'\<rparr>)"
          using a(1) by (auto simp: added_def)
        ultimately show ?thesis using idle_one [OF I, of s' p] ul by auto
      next
        case False
        then have k: "kept s p pr s'"
          using mmap_total [OF T P ul Some B, of W addr sz mode] unfolding run by (elim exE conjE) (simp del: not_None_eq)
        then obtain t' where "k_procs s' = (k_procs s)(p \<mapsto> pr\<lparr>p_regions_idx := t'\<rparr>)" by (auto simp: kept_def)
        then have "idle s'" using idle_one [OF I, of s' p] ul by auto
        then show ?thesis using k fewer_below [OF B fewer_pagers_same] by (simp add: kept_def same_world_def)
      qed
      then show ?thesis using T' by simp
    qed
  next
    case (Mmap_file h offset addr sz mode)
    then have run: "mmap_file W p h offset addr sz mode s = Inr (ok, s')" using run by simp
    show ?thesis
      using mmap_file_typed [OF T P ul run] mmap_file_pagers [OF run P ul] fewer_below [OF B] idle_one [OF I] by blast
  next
    case (Mchmap addr mode)
    then have run: "mchmap W p addr mode s = Inr (ok, s')" using run by simp
    show ?thesis
      using mchmap_effect [OF run P ul] mchmap_typed [OF T P ul run]
    proof (elim disjE exE conjE)
      assume "k_procs s' = k_procs s" "k_next s' = k_next s" "fewer_pagers s s'" "mem_typed s'"
      then show ?thesis using I fewer_below [OF B] by (simp add: idle_def)
    qed (use T I B in simp)
  next
    case (Munmap addr)
    then have run: "munmap W p addr s = Inr (ok, s')" using run by simp
    obtain x where x: "find_user_region p addr s = Inr x" using run by (auto simp: munmap_def rbind_Inr_iff)
    have T': "mem_typed s'" by (rule munmap_typed [OF T P ul run])
    show ?thesis
    proof (cases x)
      case None
      then show ?thesis using run x T I B by (auto simp: munmap_def)
    next
      case (Some a)
      define s1 where "s1 = set_proc p (pr\<lparr>p_locked := True\<rparr>) s"
      have p1: "k_procs s1 p = Some (pr\<lparr>p_locked := True\<rparr>)" by (simp add: s1_def)
      obtain s2 where s2: "munmap_inner W p a s1 = Inr s2" "unlock_proc p s2 = Inr s'"
        using run x Some P ul by (auto simp: munmap_def lock_proc_def rbind_Inr_iff s1_def)
      have "left s1 p (pr\<lparr>p_locked := True\<rparr>) a s2" "fewer_pagers s1 s2"
        using munmap_inner_effect [OF s2(1) p1 mem_typedD(1) [OF lock_typed [OF T P, of True, folded s1_def] p1]] by blast+
      then obtain q where q: "k_procs s2 = (k_procs s1)(p \<mapsto> q)" "k_next s2 = k_next s1" "fewer_pagers s1 s2" by (auto simp: left_def)
      have "s' = set_proc p (q\<lparr>p_locked := False\<rparr>) s2" using s2(2) q(1) by (simp add: unlock_proc_def)
      then have "k_procs s' = (k_procs s)(p \<mapsto> q\<lparr>p_locked := False\<rparr>)" "k_next s' = k_next s" "fewer_pagers s s'"
        using q by (simp_all add: s1_def)
      then show ?thesis using T' idle_one [OF I, of s' p "q\<lparr>p_locked := False\<rparr>"] fewer_below [OF B, of s'] by simp
    qed
  qed
qed

lemma mem_do_live: "mem_do W p c s = Inr (ok, s') \<Longrightarrow> \<exists>pr. k_procs s p = Some pr"
  by (cases c) (auto simp: mmap_def mmap_file_def mchmap_def munmap_def find_user_region_def rbind_Inr_iff deref_Inr_iff)

lemma mem_run_typed:
  assumes "mem_typed s" and "idle s" and "pagers_below s" and "mem_run W calls s = Inr (oks, s')"
  shows "mem_typed s' \<and> idle s' \<and> pagers_below s'"
  using assms
proof (induction calls arbitrary: s oks)
  case (Cons x cs)
  obtain p c where x: "x = (p, c)" by (cases x)
  obtain ok s1 oks1 where r: "mem_do W p c s = Inr (ok, s1)" "mem_run W cs s1 = Inr (oks1, s')"
    using Cons.prems(4) by (auto simp: x rbind_Inr_iff)
  obtain pr where P: "k_procs s p = Some pr" using mem_do_live [OF r(1)] by blast
  show ?case using mem_do_typed [OF Cons.prems(1-3) P r(1)] Cons.IH [OF _ _ _ r(2)] by simp
qed simp

end
