(* ===== verification/Proc_Props.thy ===== *)
theory Proc_Props
  imports Proc_Typed Paging_Dirs
begin

text \<open>
  What the memory of processes promises: the tables of regions stay well formed over any sequence of calls, \<open>mmap\<close> does
  what its arguments allow, and the checks of ranges that let too much through.
\<close>

section \<open>A concrete state\<close>

text \<open>One process without regions, at \<open>0\<close>.\<close>

definition wit_proc :: process where
  "wit_proc = \<lparr>p_pd = Some 7, p_regions = [],
     p_regions_idx = Some \<lparr>bt_cf = id_key_cmp_fun, bt_releasef = False, bt_root = Null, bt_nitems = 0\<rparr>,
     p_filesystems = None, p_files = None, p_next_fd = 1, p_threads = [], p_pid = 1, p_status = PS_RUNNING,
     p_exit_code = 0, p_parent = None, p_children = [], p_locked = False\<rparr>"

definition wit_sys :: "unit ksys" where
  "wit_sys = \<lparr>k_procs = [0 \<mapsto> wit_proc], k_regions = Map.empty, k_pagers = Map.empty, k_next = 1, k_next_pid = 2,
     k_heap = fresh_heap, k_env = wit_env wit_frames, k_paging = wit_process,
     k_vfs = \<lparr>v_nodes = Map.empty, v_fs = Map.empty, v_files = Map.empty, v_next = 0, v_heap = fresh_heap, v_dev = (),
       v_drivers = [], v_junk = False\<rparr>,
     k_threads = Map.empty, k_stacks = [], k_log = [], k_current = Some 0, k_junk = None, k_junk_proc = 0\<rparr>"

lemma wit_sys_ok: "mem_typed wit_sys" "idle wit_sys" "pagers_below wit_sys" "all_answers_ok (k_heap wit_sys)"
proof -
  have "bt_inv \<lparr>bt_cf = id_key_cmp_fun, bt_releasef = False, bt_root = Null :: (u32, nat) btree_item, bt_nitems = 0\<rparr>"
    by (simp add: bt_inv_def btree_iter_def btree_count_def id_order.ordered_keys_axioms)
  then have "table_ok wit_sys wit_proc"
    by (simp add: table_ok_def index_ok_def wit_proc_def btree_iter_def)
  then show "mem_typed wit_sys" by (auto simp: mem_typed_def wit_sys_def split: if_splits)
  show "idle wit_sys" by (simp add: idle_def wit_sys_def wit_proc_def)
  show "pagers_below wit_sys" by (simp add: pagers_below_def wit_sys_def)
  show "all_answers_ok (k_heap wit_sys)" by (simp add: wit_sys_def fresh_heap_def all_answers_ok_def)
qed

lemma wit_sys_proc: "k_procs wit_sys 0 = Some wit_proc" "\<not> p_locked wit_proc" "p_regions_idx wit_proc \<noteq> None" "p_regions wit_proc = []"
  by (simp_all add: wit_sys_def wit_proc_def)

section \<open>Properties\<close>

text \<open>C25: the tables of memory regions are typed, and stay so over every sequence of the calls that processes make on their
  memory, whichever allocations fail. Typed means: each process has an ordered index that holds exactly the regions in
  its list, no two of them at one address, and no region belongs to two processes; a region is a non-empty range of the
  user half that starts on a page; private memory owns its pager, and a region of a file is on an open file that
  may be mapped and read, is writable only if the file was opened for writing, and holds a reference to it.\<close>

theorem regions_stay_typed:
  assumes "mem_typed s" and "idle s" and "pagers_below s" and "mem_run W calls s = Inr (oks, s')"
  shows "mem_typed s'"
  using mem_run_typed [OF assms] by simp

definition free_start :: "'s ksys \<Rightarrow> process \<Rightarrow> u32 \<Rightarrow> bool" where
  "free_start s pr v \<longleftrightarrow> (\<forall>a. nearest s pr v a \<longrightarrow> \<not> covers (region_at s a) v)"

lemma free_start_find:
  assumes "k_procs s p = Some pr" "\<not> p_locked pr" "mem_typed s"
  shows "find_user_region p v s = Inr None \<longleftrightarrow> free_start s pr v"
proof -
  obtain x where x: "find_user_region p v s = Inr x" "\<And>a. x = Some a \<longleftrightarrow> nearest s pr v a \<and> covers (region_at s a) v"
    using find_region_spec [OF assms(1,2) mem_typedD(1) [OF assms(3,1)], of v] by blast
  then show ?thesis by (cases x) (auto simp: free_start_def)
qed

definition mapped :: "'s ksys \<Rightarrow> nat \<Rightarrow> process \<Rightarrow> user_region \<Rightarrow> 's ksys \<Rightarrow> bool" where
  "mapped s p pr r s' \<longleftrightarrow>
     k_regions s' = (k_regions s)(k_next s \<mapsto> r)
     \<and> (\<exists>t'. k_procs s' = (k_procs s)(p \<mapsto> pr\<lparr>p_regions := k_next s # p_regions pr, p_regions_idx := Some t'\<rparr>))
     \<and> (\<exists>q. k_pagers s' = (k_pagers s)(k_next s + 1 \<mapsto> q) \<and> ur_pager r = k_next s + 1 \<and> pg_kind q = Swap_pager False
          \<and> pg_size q = ur_size r \<and> pg_maps q = [region_map r] \<and> (\<forall>x. entry q x = 0))
     \<and> k_vfs s' = k_vfs s \<and> k_paging s' = k_paging s"


lemma wit_range: "free_start wit_sys wit_proc 0x1000" "PAGE_ALIGNED 0x1000" "\<not> bad_range 0x1000 0x2000"
  by (simp_all add: free_start_def nearest_def wit_sys_proc PAGE_ALIGNED_def PAGE_MASK_def bad_range_def K_HIGHHALF_ADDR_def)

definition no_world :: "unit world" where
  "no_world = \<lparr>w_image = wit_image, w_pager_ops = no_driver,
     w_code = \<lparr>node_ops_at = \<lambda>_. \<lparr>op_open = None, op_read = None, op_write = None, op_readdir = None, op_poll = None, op_close = None,
         op_stat = None, op_ioctl = None, op_walk = None, op_delete = None, op_move = None, op_create = None, op_dispose = None\<rparr>,
       fs_ops_at = \<lambda>_. no_fs_ops, make_at = \<lambda>_ _ _ x io. Inr ((False, x), io)\<rparr>\<rparr>"

lemma wit_mmap:
  "\<exists>s'. mmap no_world 0 0x1000 0x2000 3 wit_sys = Inr (True, s')"
proof -
  obtain t where t: "p_regions_idx wit_proc = Some t" using wit_sys_proc(3) by blast
  show ?thesis
    using mmap_total [OF wit_sys_ok(1) wit_sys_proc(1,2) t wit_sys_ok(3), of no_world "0x1000" "0x2000" 3]
      free_start_find [OF wit_sys_proc(1,2) wit_sys_ok(1)] wit_range wit_sys_ok(4) by auto
qed


theorem regions_stay_typed_witness:
  "\<exists>oks s'. mem_run no_world [(0, Mmap 0x1000 0x2000 3)] wit_sys = Inr (oks, s') \<and> mem_typed s'"
proof -
  obtain s' where m: "mmap no_world 0 0x1000 0x2000 3 wit_sys = Inr (True, s')" using wit_mmap by blast
  then have "mem_run no_world [(0, Mmap 0x1000 0x2000 3)] wit_sys = Inr ([True], s')" by simp
  then show ?thesis using regions_stay_typed [OF wit_sys_ok(1-3)] by blast
qed

section \<open>Regions over regions\<close>

lemma keeps_current [simp]:
  "k_current (set_proc p pr s) = k_current s" "k_current (set_region a r s) = k_current s" "k_current (set_pager a q s) = k_current s"
  "k_current (put_env e s) = k_current s" "k_current (free_mem s) = k_current s"
  by (simp_all add: set_proc_def set_region_def set_pager_def put_env_def free_mem_def)

lemma free_pager_current: "free_pager W a s = Inr s' \<Longrightarrow> k_current s' = k_current s"
  by (auto simp: free_pager_def rbind_Inr_iff Let_def)

lemma mmap_error_current: "mmap_error W p pa s = Inr (ok, s') \<Longrightarrow> k_current s' = k_current s"
  by (auto simp: mmap_error_def unlock_proc_def rbind_Inr_iff dest!: free_pager_current split: option.split_asm)

lemma mmap_end_current: "mmap_end p a r s = Inr (ok, s') \<Longrightarrow> k_current s' = k_current s"
  by (auto simp: mmap_end_def change_proc_def on_pager_def unlock_proc_def rbind_Inr_iff)

lemma mmap_locked_current:
  assumes run: "mmap_locked W p a addr sz mode s = Inr (ok, s')"
  shows "k_current s' = k_current s"
proof -
  obtain pr where pr: "k_procs s p = Some pr" using run by (auto simp: mmap_locked_def rbind_Inr_iff deref_Inr_iff)
  obtain qo h where n: "new_swap_pager sz False (k_heap s) = (qo, h)" by fastforce
  show ?thesis
  proof (cases "p_regions_idx pr")
    case None
    then show ?thesis using run pr by (simp add: mmap_locked_def mmap_error_current)
  next
    case (Some idx)
    show ?thesis
    proof (cases qo)
      case None
      then show ?thesis using run pr Some n by (auto simp: mmap_locked_def dest: mmap_error_current)
    next
      case (Some q)
      obtain ok' idx' h' where b: "btree_add h idx addr a = (ok', idx', h')" by (metis prod_cases3)
      show ?thesis
        using run pr \<open>p_regions_idx pr = Some idx\<close> Some n b
        by (auto simp: mmap_locked_def Let_def dest!: mmap_error_current mmap_end_current split: if_split_asm)
    qed
  qed
qed

lemma mmap_current: "mmap W p addr sz mode s = Inr (ok, s') \<Longrightarrow> k_current s' = k_current s"
  unfolding mmap_def lock_proc_def
  by (auto simp: rbind_Inr_iff dest!: mmap_locked_current split: if_split_asm option.split_asm prod.split_asm)

text \<open>C35: only the start of the range that \<open>mmap\<close> is asked for is compared with the regions there are. A range that begins
  before a region \<open>b\<close> of the process and reaches beyond it is mapped all the same, and hides behind \<open>b\<close>: an
  address of the new region after the end of \<open>b\<close> is not found, and its first use ends the process with a segmentation
  fault.\<close>

theorem mmap_accepts_overlap:
  assumes "mem_typed s" and "pagers_below s" and "k_procs s p = Some pr" and "\<not> p_locked pr" and "p_regions_idx pr \<noteq> None"
    and "all_answers_ok (k_heap s)" and "free_start s pr addr" and "PAGE_ALIGNED addr" and "\<not> bad_range addr sz"
    and "b \<in> set (p_regions pr)" and "addr < ur_addr (region_at s b)"
    and "ur_addr (region_at s b) + ur_size (region_at s b) \<le> v" and "v < addr + sz" and "nearest s pr v b"
    and "k_current s = Some p"
  shows "\<exists>s'. mmap W p addr sz mode s = Inr (True, s') \<and> covers (region_at s' (k_next s)) v
    \<and> find_user_region p v s' = Inr None
    \<and> (\<exists>s''. proc_usermem_pf W others p err v s' = Inr (Exits PS_FAILURE (segfault_code v), s''))"
proof -
  obtain t where t: "p_regions_idx pr = Some t" using assms(5) by blast
  note fs = free_start_find [OF assms(3,4,1), of addr]
  let ?r = "private_region p (k_next s + 1) addr sz mode"
  obtain s' where r: "mmap W p addr sz mode s = Inr (True, s')" and a: "added s p pr ?r s'"
    using mmap_total [OF assms(1,3,4) t assms(2), of W addr sz mode] assms(6-9) fs by auto
  have T: "mem_typed s'" by (rule mmap_typed [OF assms(1,3,4) t assms(2) r])
  obtain t' where P: "k_procs s' p = Some (pr\<lparr>p_regions := k_next s # p_regions pr, p_regions_idx := Some t'\<rparr>)"
    and rg: "k_regions s' = (k_regions s)(k_next s \<mapsto> ?r)" using a by (auto simp: added_def)
  let ?pr = "pr\<lparr>p_regions := k_next s # p_regions pr, p_regions_idx := Some t'\<rparr>"
  have ra: "region_at s' (k_next s) = ?r" by (simp add: region_at_def rg)
  have old: "c \<noteq> k_next s" "region_at s' c = region_at s c" if "c \<in> set (p_regions pr)" for c
  proof -
    have "k_regions s c \<noteq> None" using table_okD(2) [OF mem_typedD(1) [OF assms(1,3)] that] by simp
    then show "c \<noteq> k_next s" using fresh_region [OF assms(1)] by auto
    then show "region_at s' c = region_at s c" by (simp add: region_at_def rg)
  qed
  have near: "nearest s' ?pr v b"
    using assms(11,14) old ra unfolding nearest_def by (auto simp: private_region_def)
  obtain x where x: "find_user_region p v s' = Inr x" "\<And>a. x = Some a \<longleftrightarrow> nearest s' ?pr v a \<and> covers (region_at s' a) v"
    using find_region_spec [OF P _ mem_typedD(1) [OF T P], of v] assms(4) by auto
  have "x = None"
  proof (rule ccontr)
    assume "x \<noteq> None"
    then obtain c where c: "nearest s' ?pr v c" "covers (region_at s' c) v" using x(2) by blast
    have "ur_addr (region_at s' c) = ur_addr (region_at s' b)"
      using c(1) near unfolding nearest_def by (meson order.antisym)
    moreover have "inj_on (\<lambda>a. ur_addr (region_at s' a)) (set (p_regions ?pr))"
      by (rule table_okD(3) [OF mem_typedD(1) [OF T P]])
    ultimately have "c = b" using c(1) near unfolding nearest_def inj_on_def by blast
    then show False using c(2) assms(12) old(2) [OF assms(10)] by (auto simp: covers_def)
  qed
  then have f: "find_user_region p v s' = Inr None" using x(1) by simp
  have "addr \<le> v" using assms(11,14) unfolding nearest_def by (meson less_imp_le order_trans)
  then have "covers (region_at s' (k_next s)) v" using assms(13) by (simp add: ra covers_def private_region_def)
  moreover have "k_current s' = Some p" using mmap_current [OF r] assms(15) by simp
  ultimately show ?thesis using r f by (simp add: proc_usermem_pf_def current_process_exit_def)
qed

text \<open>The process with a region at \<open>0x2000\<close>.\<close>

definition wit_over_proc :: process where
  "wit_over_proc = wit_proc\<lparr>p_regions := [1],
     p_regions_idx := Some \<lparr>bt_cf = id_key_cmp_fun, bt_releasef = False, bt_root = Item 0x2000 1 1 Null Null, bt_nitems = 1\<rparr>\<rparr>"

definition wit_over :: "unit ksys" where
  "wit_over = wit_sys\<lparr>k_procs := [0 \<mapsto> wit_over_proc], k_regions := [1 \<mapsto> private_region 0 2 0x2000 0x1000 3], k_next := 3\<rparr>"

lemma wit_over_region: "region_at wit_over 1 = private_region 0 2 0x2000 0x1000 3"
  by (simp add: region_at_def wit_over_def)

lemma wit_over_ok: "mem_typed wit_over" "pagers_below wit_over" "all_answers_ok (k_heap wit_over)"
proof -
  have "bt_inv \<lparr>bt_cf = id_key_cmp_fun, bt_releasef = False, bt_root = Item 0x2000 1 1 Null Null :: (u32, nat) btree_item, bt_nitems = 1\<rparr>"
    by (simp add: bt_inv_def btree_iter_def btree_count_def id_order.ordered_keys_axioms)
  then have "table_ok wit_over wit_over_proc"
    using wit_over_region by (simp add: table_ok_def index_ok_def wit_over_proc_def btree_iter_def private_region_def)
      (simp add: wit_over_def)
  moreover have "range_typed (private_region 0 2 0x2000 0x1000 3)" "file_allows fs (private_region 0 2 0x2000 0x1000 3)" for fs
    by (simp_all add: range_typed_def private_region_def PAGE_ALIGNED_def PAGE_MASK_def K_HIGHHALF_ADDR_def file_allows_def)
  ultimately show "mem_typed wit_over"
    by (auto simp: mem_typed_def) (auto simp: wit_over_def wit_sys_def mapped_by_def split: if_splits)
  show "pagers_below wit_over" by (simp add: pagers_below_def wit_over_def wit_sys_def)
  show "all_answers_ok (k_heap wit_over)" by (simp add: wit_over_def wit_sys_def fresh_heap_def all_answers_ok_def)
qed

theorem mmap_accepts_overlap_witness:
  "\<exists>s' s''. mmap no_world 0 0x1000 0x4000 3 wit_over = Inr (True, s')
     \<and> proc_usermem_pf no_world [] 0 0 0x4000 s' = Inr (Exits PS_FAILURE FAIL_SEGFAULT, s'')"
proof -
  have p: "k_procs wit_over 0 = Some wit_over_proc" "\<not> p_locked wit_over_proc" "p_regions_idx wit_over_proc \<noteq> None"
    "p_regions wit_over_proc = [1]" "k_current wit_over = Some 0"
    by (simp_all add: wit_over_def wit_over_proc_def wit_proc_def wit_sys_def)
  have r: "free_start wit_over wit_over_proc 0x1000" "nearest wit_over wit_over_proc 0x4000 1"
    using wit_over_region by (simp_all add: free_start_def nearest_def p private_region_def)
  have a: "PAGE_ALIGNED 0x1000" "\<not> bad_range 0x1000 0x4000"
    by (simp_all add: PAGE_ALIGNED_def PAGE_MASK_def bad_range_def K_HIGHHALF_ADDR_def)
  have "segfault_code 0x4000 = FAIL_SEGFAULT" by (simp add: segfault_code_def PAGE_SIZE_def)
  then show ?thesis
    using mmap_accepts_overlap [OF wit_over_ok(1,2) p(1-3) wit_over_ok(3) r(1) a, of 1 "0x4000" no_world 3 "[]" 0] r(2) p wit_over_region
    by (simp add: private_region_def) blast
qed

section \<open>Accesses of the kernel\<close>

text \<open>C31: when \<open>probe_for_read\<close> lets a range pass whose end does not wrap around, the whole range lies in one readable region of the process,
  in the user half; the same holds of \<open>probe_for_write\<close> and writable regions. When it does not let it pass, the process exits.\<close>

theorem probe_checks_range:
  assumes "mem_typed s" and "k_current s = Some p" and "k_procs s p = Some pr" and "\<not> p_locked pr" and "unat addr + unat len < 2 ^ 32"
  shows "\<exists>out s'. probe_for flag addr len s = Inr (out, s')
    \<and> (out = Returns () \<longrightarrow> s' = s \<and> (\<exists>a \<in> set (p_regions pr). has_flag (scast (ur_mode (region_at s a))) flag
          \<and> (\<forall>v. unat addr \<le> unat v \<and> unat v < unat addr + unat len \<longrightarrow> covers (region_at s a) v \<and> v < K_HIGHHALF_ADDR)))
    \<and> (out \<noteq> Returns () \<longrightarrow> out = Exits PS_FAILURE FAIL_SC_SEGFAULT)"
proof -
  note T = mem_typedD(1) [OF assms(1,3)]
  obtain x where x: "find_user_region p addr s = Inr x" "\<And>a. x = Some a \<longleftrightarrow> nearest s pr addr a \<and> covers (region_at s a) addr"
    using find_region_spec [OF assms(3,4) T, of addr] by blast
  show ?thesis
  proof (cases x)
    case None
    then show ?thesis using x(1) assms(2) by (simp add: probe_for_def current_process_exit_def)
  next
    case (Some a)
    then have a: "a \<in> set (p_regions pr)" "covers (region_at s a) addr" using x(2) by (auto simp: nearest_def)
    let ?r = "region_at s a"
    have r: "k_regions s a = Some ?r" "range_typed ?r" using table_okD(2) [OF T a(1)] mem_typedD(4) [OF assms(1)] by blast+
    have l: "unat (addr + len) = unat addr + unat len" using assms(5) by (simp add: unat_add_u32)
    have in_region: "covers ?r v \<and> v < K_HIGHHALF_ADDR"
      if "\<not> addr + len > ur_addr ?r + ur_size ?r" "unat addr \<le> unat v" "unat v < unat addr + unat len" for v
    proof -
      have "unat (addr + len) \<le> unat (ur_addr ?r + ur_size ?r)" using that(1) by (simp add: not_less word_le_nat_alt)
      then have "unat v < unat (ur_addr ?r) + unat (ur_size ?r)" using that(3) l range_typed_end [OF r(2)] by simp
      then show ?thesis
        using a(2) that(2) r(2) by (simp add: covers_iff word_less_nat_alt) (simp add: range_typed_def)
    qed
    show ?thesis
      using x(1) Some assms(2) r(1) a(1) in_region by (auto simp: probe_for_def current_process_exit_def)
  qed
qed

lemma probe_wraps:
  assumes "k_current s = Some p" and "find_user_region p addr s = Inr (Some a)"
    and "has_flag (scast (ur_mode (region_at s a))) flag" and "2 ^ 32 \<le> unat addr + unat len"
  shows "probe_for flag addr len s = Inr (Returns (), s)"
proof -
  obtain r where r: "k_regions s a = Some r" "ur_addr r \<le> addr" "addr < ur_addr r + ur_size r"
    using assms(2) by (auto simp: find_user_region_def rbind_Inr_iff deref_Inr_iff rassert_def not_le split: if_split_asm option.split_asm)
  have "unat (addr + len) \<le> unat addr"
    using assms(4) unat_u32_less [of addr] unat_u32_less [of len] unat_add_u32 [of addr len] by (simp add: mod_if split: if_splits)
  then have "addr + len \<le> ur_addr r + ur_size r" using r(3) by (simp add: word_le_nat_alt word_less_nat_alt)
  then show ?thesis using assms(1-3) r(1) by (simp add: probe_for_def region_at_def not_less)
qed

text \<open>C32: a range whose end wraps around passes: \<open>addr + len\<close> is then small, and below the end of any region. A system
  call with a readable address and a length of nearly \<open>2 ^ 32\<close> makes the kernel read its own half.\<close>

theorem probe_accepts_wrapping_range:
  assumes "k_current s = Some p" and "find_user_region p addr s = Inr (Some a)"
    and "has_flag (scast (ur_mode (region_at s a))) flag" and "2 ^ 32 \<le> unat addr + unat len"
  shows "probe_for flag addr len s = Inr (Returns (), s)"
  by (rule probe_wraps [OF assms])

lemma wit_over_find: "find_user_region 0 0x2004 wit_over = Inr (Some 1)"
proof -
  have p: "k_procs wit_over 0 = Some wit_over_proc" "\<not> p_locked wit_over_proc" "p_regions wit_over_proc = [1]"
    by (simp_all add: wit_over_def wit_over_proc_def wit_proc_def)
  have "nearest wit_over wit_over_proc 0x2004 1" "covers (region_at wit_over 1) 0x2004"
    using wit_over_region by (simp_all add: nearest_def covers_def p private_region_def)
  then show ?thesis using find_region_spec [OF p(1,2) mem_typedD(1) [OF wit_over_ok(1) p(1)], of "0x2004"] by auto
qed

theorem probe_checks_range_witness:
  "\<exists>out s'. probe_for MM_READ 0x2004 16 wit_over = Inr (out, s') \<and> (out = Returns () \<or> out = Exits PS_FAILURE FAIL_SC_SEGFAULT)"
proof -
  have p: "k_current wit_over = Some 0" "k_procs wit_over 0 = Some wit_over_proc" "\<not> p_locked wit_over_proc"
    by (simp_all add: wit_over_def wit_over_proc_def wit_proc_def wit_sys_def)
  then show ?thesis using probe_checks_range [OF wit_over_ok(1) p, of "0x2004" 16 MM_READ] by auto
qed

theorem probe_accepts_wrapping_range_witness:
  "probe_for_read 0x2004 0xFFFFFFF0 wit_over = Inr (Returns (), wit_over)"
proof -
  have "k_current wit_over = Some 0" by (simp add: wit_over_def wit_sys_def)
  moreover have "has_flag (scast (ur_mode (region_at wit_over 1))) MM_READ"
    unfolding wit_over_region by (simp add: private_region_def has_flag_def MM_READ_def)
  ultimately show ?thesis
    unfolding probe_for_read_def by (intro probe_accepts_wrapping_range [OF _ wit_over_find]) simp_all
qed

end
