(* ===== verification/Proc_Life_Props.thy ===== *)
theory Proc_Life_Props
  imports Proc_Life Proc_Props
begin

text \<open>
  The life of processes: a new process leaks nothing when it cannot be made, and a parent gets the status of each of its
  children once.
\<close>

section \<open>New processes\<close>

lemma kernel_ready_heap: "kernel_ready im D b e (g\<lparr>pg_heap := h\<rparr>) = kernel_ready im D b e g"
  by (simp add: kernel_ready_def spaces_ok_rest)

lemma create_undone_live:
  assumes "create_undone im D (g\<lparr>pg_heap := h\<rparr>) g'" and "hp_live h' - hp_live (pg_heap g') = hp_live h0 - hp_live h"
  shows "create_undone im D (g\<lparr>pg_heap := h0\<rparr>) (g'\<lparr>pg_heap := h'\<rparr>)"
proof -
  have t: "tables im D (x\<lparr>pg_heap := k\<rparr>) = tables im D x" for x k by (rule mem_cong) simp
  show ?thesis using assms by (simp add: create_undone_def spaces_ok_rest t)
qed

lemma undone_refl:
  assumes "kernel_ready im D b e g" and "hp_live h' = hp_live h"
  shows "create_undone im D (g\<lparr>pg_heap := h\<rparr>) (g\<lparr>pg_heap := h'\<rparr>)"
proof -
  have t: "tables im D (g\<lparr>pg_heap := k\<rparr>) = tables im D g" for k by (rule mem_cong) simp
  show ?thesis using assms by (simp add: create_undone_def spaces_ok_rest t kernel_ready_def) (rule exI [of _ "{}"], simp)
qed

lemma create_delete_hashtbl:
  assumes "hash_keys ef hf" and "create_hashtbl h ef hf rel = (Some ht, h')"
  shows "hp_live (snd (delete_hashtbl k ht)) = hp_live k - 2"
proof -
  note c = create_hashtbl_inv [OF assms]
  obtain log k' where d: "delete_hashtbl k ht = (log, k')" by fastforce
  have "hashtbl_count ht = 0" using assms(2) by (auto simp: create_hashtbl_def hashtbl_count_def split: prod.split_asm if_split_asm)
  then show ?thesis using delete_hashtbl_spec(2) [OF c(1) d] d by simp
qed

lemma create_hashtbl_none: "create_hashtbl h ef hf rel = (None, h') \<Longrightarrow> hp_live h' = hp_live h"
  by (auto simp: create_hashtbl_def dest!: heap_malloc_live split: prod.split_asm if_split_asm)

lemma create_delete_btree:
  assumes "create_btree h cf rel = (Some t, h')"
  shows "hp_live (snd (delete_btree k t)) = hp_live k - 1"
  using assms by (auto simp: create_btree_def delete_btree_def Let_def split: prod.split_asm if_split_asm)

lemma create_btree_none: "create_btree h cf rel = (None, h') \<Longrightarrow> hp_live h' = hp_live h"
  by (auto simp: create_btree_def dest!: heap_malloc_live split: prod.split_asm if_split_asm)

text \<open>The space of the process at \<open>p\<close> exists, and the process is entered.\<close>

definition process_made :: "image \<Rightarrow> nat set \<Rightarrow> nat option \<Rightarrow> 's ksys \<Rightarrow> nat \<Rightarrow> 's ksys \<Rightarrow> bool" where
  "process_made im D parent s p s' \<longleftrightarrow> p = k_next s \<and> hp_live (k_heap s') = hp_live (k_heap s) + 7
     \<and> (\<exists>h pd. directory_made im D ((k_paging s)\<lparr>pg_heap := h\<rparr>) (Some PROC_USERMEM_PF) p pd (k_paging s')
          \<and> (\<exists>pr. k_procs s' p = Some pr \<and> p_pd pr = Some pd \<and> p_regions pr = [] \<and> p_threads pr = [] \<and> p_children pr = []
               \<and> p_regions_idx pr \<noteq> None \<and> (\<forall>fd. fd_lookup pr fd = None) \<and> p_next_fd pr = 1 \<and> p_pid pr = k_next_pid s
               \<and> p_status pr = PS_LOADING \<and> p_parent pr = parent \<and> \<not> p_locked pr \<and> table_ok s' pr))
     \<and> (\<forall>q. q \<noteq> p \<longrightarrow> k_procs s' q =
          (if parent = Some q then map_option (\<lambda>x. x\<lparr>p_children := p # p_children x\<rparr>) (k_procs s q) else k_procs s q))"

definition not_made :: "image \<Rightarrow> nat set \<Rightarrow> 's ksys \<Rightarrow> 's ksys \<Rightarrow> bool" where
  "not_made im D s s' \<longleftrightarrow> k_procs s' = k_procs s
     \<and> create_undone im D ((k_paging s)\<lparr>pg_heap := k_heap s\<rparr>) ((k_paging s')\<lparr>pg_heap := k_heap s'\<rparr>)"

definition parent_ready :: "nat option \<Rightarrow> 's ksys \<Rightarrow> bool" where
  "parent_ready parent s \<longleftrightarrow> (\<forall>q. parent = Some q \<longrightarrow> q < k_next s \<and> (\<exists>x. k_procs s q = Some x \<and> \<not> p_locked x))"

lemma enter_process_spec:
  assumes "parent_ready (p_parent pr) s" and "p = k_next s" and "k_procs s1 = k_procs s" and "k_next_pid s1 = k_next_pid s"
  defines "q \<equiv> pr\<lparr>p_next_fd := 1, p_pid := k_next_pid s, p_status := PS_LOADING, p_exit_code := 0\<rparr>"
  shows "\<exists>s'. enter_process p pr s1 = Inr (Some p, s') \<and> k_heap s' = k_heap s1 \<and> k_paging s' = k_paging s1 \<and> k_procs s' p = Some q
    \<and> k_regions s' = k_regions s1
    \<and> (\<forall>x. x \<noteq> p \<longrightarrow> k_procs s' x =
          (if p_parent pr = Some x then map_option (\<lambda>y. y\<lparr>p_children := p # p_children y\<rparr>) (k_procs s x) else k_procs s x))"
proof (cases "p_parent pr")
  case None
  then show ?thesis using assms by (simp add: enter_process_def Let_def)
next
  case (Some par)
  obtain y where y: "par \<noteq> p" "k_procs s par = Some y" "\<not> p_locked y"
    using assms(1,2) Some unfolding parent_ready_def by auto
  have u: "y\<lparr>p_locked := True, p_children := c, p_locked := False\<rparr> = y\<lparr>p_children := c\<rparr>" for c using y(3) by (cases y) simp
  show ?thesis
    using assms(3,4) Some y
    by (simp add: enter_process_def Let_def lock_proc_def change_proc_def unlocking_def unlock_proc_def q_def u)
qed

text \<open>Once the tables of the process are there, its space is made.\<close>

lemma new_process_space:
  fixes fss :: "(string, nat) hashtbl" and fls :: "(u32, nat) hashtbl" and idx :: "(u32, nat) btree"
  assumes rdy: "kernel_ready (w_image W) D b e (k_paging s)" and par: "parent_ready parent s"
    and m: "heap_malloc (k_heap s) = (True, h0)" and f1: "create_hashtbl h0 str_key_eq_fun str_hash_fun True = (Some fss, h1)"
    and g1: "create_hashtbl h1 id_key_eq_fun id_hash_fun False = (Some fls, h2)"
    and t1: "create_btree h2 id_key_cmp_fun False = (Some idx, h3)"
  shows "\<exists>r s'. new_process W parent s = Inr (r, s')
    \<and> (case r of None \<Rightarrow> not_made (w_image W) D s s' | Some p \<Rightarrow> process_made (w_image W) D parent s p s')"
proof -
  let ?im = "w_image W" and ?g = "k_paging s"
  define s0 where "s0 = s\<lparr>k_next := k_next s + 1\<rparr>"
  note m' = heap_malloc_live [OF m]
  have l1: "hp_live h1 = hp_live h0 + 2" by (rule create_hashtbl_inv(3) [OF str_keys.hash_keys_axioms f1])
  note d1 = create_delete_hashtbl [OF str_keys.hash_keys_axioms f1]
  have l2: "hp_live h2 = hp_live h1 + 2" by (rule create_hashtbl_inv(3) [OF id_keys.hash_keys_axioms g1])
  note d2 = create_delete_hashtbl [OF id_keys.hash_keys_axioms g1]
  have l3: "hp_live h3 = hp_live h2 + 1" using create_btree_inv [OF id_order.ordered_keys_axioms t1] by simp
  note d3 = create_delete_btree [OF t1]
  obtain r g' where c: "create_pagedir ?im (Some PROC_USERMEM_PF) (k_next s) (?g\<lparr>pg_heap := h3\<rparr>) = Inr (r, g')"
    and c': "case r of None \<Rightarrow> create_undone ?im D (?g\<lparr>pg_heap := h3\<rparr>) g' | Some a \<Rightarrow> directory_made ?im D (?g\<lparr>pg_heap := h3\<rparr>) (Some PROC_USERMEM_PF) (k_next s) a g'"
    using create_pagedir_spec [OF iffD2 [OF kernel_ready_heap [where h = h3] rdy]] by blast
  define pr where "pr = zero_process\<lparr>p_filesystems := Some fss, p_files := Some fls, p_regions_idx := Some idx\<rparr>"
  define s1 where "s1 = s0\<lparr>k_paging := g', k_heap := pg_heap g'\<rparr>"
  have run: "new_process W parent s = (case r of None \<Rightarrow> new_process_error pr s1
      | Some pd \<Rightarrow> enter_process (k_next s) (pr\<lparr>p_pd := Some pd, p_parent := parent\<rparr>) s1)"
    using m f1 g1 t1 c
    by (simp add: new_process_def on_paging_def pr_def s1_def s0_def Let_def split: option.split)
  show ?thesis
  proof (cases r)
    case None
    define h4 where "h4 = heap_free (snd (delete_hashtbl (snd (delete_hashtbl (snd (delete_btree (pg_heap g') idx)) fss)) fls))"
    have "new_process_error pr s1 = Inr (None, s1\<lparr>k_heap := h4\<rparr>)"
      by (simp add: new_process_error_def pr_def h4_def s1_def)
    moreover have "not_made ?im D s (s1\<lparr>k_heap := h4\<rparr>)"
    proof -
      have "hp_live h4 = hp_live (pg_heap g') - 6" by (simp add: h4_def d1 d2 d3)
      then have "create_undone ?im D (?g\<lparr>pg_heap := k_heap s\<rparr>) (g'\<lparr>pg_heap := h4\<rparr>)"
        using c' None l1 l2 l3 m' by (intro create_undone_live [where h = h3]) simp_all
      then show ?thesis by (simp add: not_made_def s1_def s0_def)
    qed
    ultimately show ?thesis using run None by simp
  next
    case (Some pd)
    let ?pr = "pr\<lparr>p_pd := Some pd, p_parent := parent\<rparr>"
    have "k_next_pid s1 = k_next_pid s" "k_procs s1 = k_procs s" "parent_ready (p_parent ?pr) s"
      using par by (simp_all add: s1_def s0_def)
    then obtain s' where s': "enter_process (k_next s) ?pr s1 = Inr (Some (k_next s), s')" "k_heap s' = k_heap s1" "k_paging s' = k_paging s1"
        "k_procs s' (k_next s) = Some (?pr\<lparr>p_next_fd := 1, p_pid := k_next_pid s, p_status := PS_LOADING, p_exit_code := 0\<rparr>)"
      and oth: "\<forall>x. x \<noteq> k_next s \<longrightarrow> k_procs s' x =
        (if parent = Some x then map_option (\<lambda>y. y\<lparr>p_children := k_next s # p_children y\<rparr>) (k_procs s x) else k_procs s x)"
      using enter_process_spec [of ?pr s "k_next s" s1] by auto
    have e: "hashtbl_find fls fd = None" for fd
      using create_hashtbl_inv(1,2) [OF id_keys.hash_keys_axioms g1] hashtbl_find_bound [of fls fd] by (auto split: option.splits)
    have i: "bt_inv idx" "btree_iter idx = []" "bt_cf idx = id_key_cmp_fun"
      using create_btree_inv [OF id_order.ordered_keys_axioms t1] by simp_all
    have "hp_live (k_heap s') = hp_live (k_heap s) + 7"
      using c' Some l1 l2 l3 m' s'(2) by (simp add: directory_made_def s1_def)
    moreover have "directory_made ?im D (?g\<lparr>pg_heap := h3\<rparr>) (Some PROC_USERMEM_PF) (k_next s) pd (k_paging s')"
      using c' Some s'(3) by (simp add: s1_def)
    ultimately have "process_made ?im D parent s (k_next s) s'"
      using s'(4) oth e i unfolding process_made_def
      by (auto simp: pr_def zero_process_def fd_lookup_def table_ok_def index_ok_def)
    then show ?thesis using run Some s'(1) by simp
  qed
qed

text \<open>C27: \<open>new_process\<close> makes a loading process with empty tables, the next number and a new address space whose lower half is empty,
  entered in front of the children of its parent; or, whichever of its allocations fails, it gives back every
  block and every frame it took and the table of processes is as before. (Page tables that the kernel got for its own half on
  the way stay, in either case.)\<close>

theorem new_process_correct:
  assumes rdy: "kernel_ready (w_image W) D b e (k_paging s)" and par: "parent_ready parent s"
  shows "\<exists>r s'. new_process W parent s = Inr (r, s')
    \<and> (case r of None \<Rightarrow> not_made (w_image W) D s s' | Some p \<Rightarrow> process_made (w_image W) D parent s p s')"
proof -
  let ?im = "w_image W" and ?g = "k_paging s"
  obtain ok h0 where m: "heap_malloc (k_heap s) = (ok, h0)" by fastforce
  obtain fo :: "(string, nat) hashtbl option" and h1 where f: "create_hashtbl h0 str_key_eq_fun str_hash_fun True = (fo, h1)" by fastforce
  obtain fi :: "(u32, nat) hashtbl option" and h2 where g: "create_hashtbl h1 id_key_eq_fun id_hash_fun False = (fi, h2)" by fastforce
  obtain ix :: "(u32, nat) btree option" and h3 where t: "create_btree h2 id_key_cmp_fun False = (ix, h3)" by fastforce
  note m' = heap_malloc_live [OF m]
  show ?thesis
  proof (cases ok)
    case False
    then show ?thesis using m m' undone_refl [OF rdy, of h0 "k_heap s"] by (simp add: new_process_def not_made_def)
  next
    case ok: True
    show ?thesis
    proof (cases fo)
      case None
      then show ?thesis
        using m m' ok f create_hashtbl_none [OF f [unfolded None]] undone_refl [OF rdy, of "heap_free h1" "k_heap s"]
        by (simp add: new_process_def new_process_error_def zero_process_def not_made_def Let_def)
    next
      case fss: (Some fss)
      note f1 = f [unfolded fss]
      have l1: "hp_live h1 = hp_live h0 + 2" by (rule create_hashtbl_inv(3) [OF str_keys.hash_keys_axioms f1])
      note d1 = create_delete_hashtbl [OF str_keys.hash_keys_axioms f1]
      show ?thesis
      proof (cases fi)
        case None
        then show ?thesis
          using m m' ok f1 fss g l1 d1 create_hashtbl_none [OF g [unfolded None]]
            undone_refl [OF rdy, of "heap_free (snd (delete_hashtbl h2 fss))" "k_heap s"]
          by (simp add: new_process_def new_process_error_def zero_process_def not_made_def Let_def)
      next
        case fls: (Some fls)
        note g1 = g [unfolded fls]
        have l2: "hp_live h2 = hp_live h1 + 2" by (rule create_hashtbl_inv(3) [OF id_keys.hash_keys_axioms g1])
        note d2 = create_delete_hashtbl [OF id_keys.hash_keys_axioms g1]
        show ?thesis
        proof (cases ix)
          case None
          then show ?thesis
            using m m' ok f1 fss g1 fls t l1 l2 d1 d2 create_btree_none [OF t [unfolded None]]
              undone_refl [OF rdy, of "heap_free (snd (delete_hashtbl (snd (delete_hashtbl h3 fss)) fls))" "k_heap s"]
            by (simp add: new_process_def new_process_error_def zero_process_def not_made_def Let_def)
        next
          case idx: (Some idx)
          show ?thesis using new_process_space [OF rdy par m [unfolded eqTrueI [OF ok]] f1 g1 t [unfolded idx]] .
        qed
      qed
    qed
  qed
qed

section \<open>Waiting for children\<close>

definition proc_at :: "'s ksys \<Rightarrow> nat \<Rightarrow> process" where
  "proc_at s p = the (k_procs s p)"

definition ended :: "'s ksys \<Rightarrow> nat \<Rightarrow> bool" where
  "ended s c \<longleftrightarrow> \<not> alive (proc_at s c)"

definition status_of :: "'s ksys \<Rightarrow> nat \<Rightarrow> proc_status_t" where
  "status_of s c = \<lparr>ps_pid = p_pid (proc_at s c), ps_status = p_status (proc_at s c), ps_exit_code = p_exit_code (proc_at s c)\<rparr>"

text \<open>A process that can wait: it is not locked, and neither is any of its children.\<close>

definition family :: "nat \<Rightarrow> 's ksys \<Rightarrow> bool" where
  "family par s \<longleftrightarrow> k_procs s par \<noteq> None \<and> \<not> p_locked (proc_at s par) \<and> distinct (p_children (proc_at s par))
     \<and> par \<notin> set (p_children (proc_at s par))
     \<and> (\<forall>c \<in> set (p_children (proc_at s par)). k_procs s c \<noteq> None \<and> \<not> p_locked (proc_at s c))"

definition reaped :: "nat \<Rightarrow> nat \<Rightarrow> 's ksys \<Rightarrow> 's ksys" where
  "reaped par c s = free_mem (s\<lparr>k_procs := (k_procs s)(par \<mapsto> (proc_at s par)\<lparr>p_children := remove1 c (p_children (proc_at s par))\<rparr>, c := None)\<rparr>)"

lemma find_ended_find:
  "(\<forall>c \<in> set cs. k_procs s c \<noteq> None) \<Longrightarrow> find_ended s cs = Inr (find (ended s) cs)"
  by (induction cs) (auto simp: ended_def proc_at_def)

lemma proc_unlock [simp]: "\<not> p_locked q \<Longrightarrow> q\<lparr>p_locked := True, p_children := cs, p_locked := False\<rparr> = q\<lparr>p_children := cs\<rparr>"
  by (cases q) simp

lemma procs_self [simp]: "m x = Some y \<Longrightarrow> m(x \<mapsto> y) = m"
  by auto

lemma wait_any_start:
  fixes s :: "'s ksys"
  assumes F: "family par s"
  shows "process_wait_any_child junk others par wait s =
     (case find (ended s) (p_children (proc_at s par)) of
        Some c \<Rightarrow> Inr (Some (status_of s c), reaped par c s)
      | None \<Rightarrow>
          if \<not> wait then Inr (Some (no_status junk), s)
          else (case others of
                  [] \<Rightarrow> Inr (None, s)
                | (wait_ok, g) # rest \<Rightarrow>
                    if \<not> wait_ok then Inr (Some (no_status junk), g s)
                    else process_wait_any_child junk rest par wait (g s)))"
proof -
  obtain q where q: "k_procs s par = Some q" "proc_at s par = q" "\<not> p_locked q" using F by (auto simp: family_def proc_at_def)
  let ?s1 = "set_proc par (q\<lparr>p_locked := True\<rparr>) s"
  have ch: "c \<noteq> par \<and> k_procs s c = Some (proc_at s c) \<and> \<not> p_locked (proc_at s c)" if "c \<in> set (p_children q)" for c
    using F that q by (auto simp: family_def proc_at_def)
  have e: "find (ended ?s1) (p_children q) = find (ended s) (p_children q)"
  proof (rule find_cong [OF refl])
    fix c assume "c \<in> set (p_children q)"
    then show "ended ?s1 c = ended s c" using ch [of c] by (simp add: ended_def proc_at_def)
  qed
  have f: "find_ended ?s1 (p_children q) = Inr (find (ended s) (p_children q))"
    using find_ended_find [of "p_children q" ?s1] ch e by auto
  have restored: "set_proc par q ?s1 = s" using q by (simp add: set_proc_def)
  show ?thesis
  proof (cases "find (ended s) (p_children q)")
    case None
    then show ?thesis
      using q f restored
      by (cases others)
        (auto simp: process_wait_any_child_def lock_proc_def wait_any.simps [of _ _ _ _ ?s1] unlocking_def unlock_proc_def split: option.splits)
  next
    case (Some c)
    then have c: "c \<in> set (p_children q)" by (auto simp: find_Some_iff)
    have "reap par c ?s1 = Inr (status_of s c, free_mem (?s1\<lparr>k_procs := (k_procs ?s1)(par \<mapsto> q\<lparr>p_locked := True, p_children := remove1 c (p_children q)\<rparr>, c := None)\<rparr>))"
      using ch [OF c] q
      by (simp add: reap_def process_get_status_def lock_proc_def unlocking_def unlock_proc_def change_proc_def status_of_def set_proc_def fun_upd_twist)
    moreover have "unlocking par (Some st) (free_mem (?s1\<lparr>k_procs := (k_procs ?s1)(par \<mapsto> q\<lparr>p_locked := True, p_children := remove1 c (p_children q)\<rparr>, c := None)\<rparr>))
        = Inr (Some st, reaped par c s)" for st
      using ch [OF c] q by (simp add: unlocking_def unlock_proc_def reaped_def set_proc_def free_mem_def fun_upd_twist)
    ultimately show ?thesis
      using q f Some by (simp add: process_wait_any_child_def lock_proc_def wait_any.simps [of _ _ _ _ ?s1])
  qed
qed

lemma reaped_simps:
  assumes "family par s" and "c \<in> set (p_children (proc_at s par))"
  shows "proc_at (reaped par c s) par = (proc_at s par)\<lparr>p_children := remove1 c (p_children (proc_at s par))\<rparr>"
    and "x \<noteq> par \<Longrightarrow> x \<noteq> c \<Longrightarrow> k_procs (reaped par c s) x = k_procs s x" and "k_procs (reaped par c s) c = None"
    and "hp_live (k_heap (reaped par c s)) = hp_live (k_heap s) - 1" and "family par (reaped par c s)"
proof -
  have "c \<noteq> par" using assms by (auto simp: family_def)
  then show 1: "proc_at (reaped par c s) par = (proc_at s par)\<lparr>p_children := remove1 c (p_children (proc_at s par))\<rparr>"
    by (simp add: reaped_def proc_at_def)
  show 2: "x \<noteq> par \<Longrightarrow> x \<noteq> c \<Longrightarrow> k_procs (reaped par c s) x = k_procs s x" for x by (simp add: reaped_def)
  show "k_procs (reaped par c s) c = None" "hp_live (k_heap (reaped par c s)) = hp_live (k_heap s) - 1" by (simp_all add: reaped_def free_mem_def)
  have "k_procs (reaped par c s) par \<noteq> None" using \<open>c \<noteq> par\<close> by (simp add: reaped_def)
  moreover have "k_procs (reaped par c s) x = k_procs s x" if "x \<in> set (p_children (proc_at s par))" "x \<noteq> c" for x
    by (rule 2) (use assms(1) that in \<open>auto simp: family_def\<close>)
  then have "k_procs (reaped par c s) x \<noteq> None \<and> \<not> p_locked (proc_at (reaped par c s) x)"
    if "x \<in> set (remove1 c (p_children (proc_at s par)))" for x
    using assms(1) that by (auto simp: family_def proc_at_def [of _ x])
  ultimately show "family par (reaped par c s)"
    using assms(1) unfolding family_def 1 by (simp add: notin_set_remove1)
qed

lemma ended_reaped:
  assumes "family par s" and "c \<in> set (p_children (proc_at s par))" and "x \<noteq> c" and "x \<in> set (p_children (proc_at s par))"
  shows "ended (reaped par c s) x = ended s x" and "status_of (reaped par c s) x = status_of s x"
proof -
  have "x \<noteq> par" using assms(1,4) by (auto simp: family_def)
  then have "proc_at (reaped par c s) x = proc_at s x" using reaped_simps(2) [OF assms(1,2), of x] assms(3) by (simp add: proc_at_def)
  then show "ended (reaped par c s) x = ended s x" "status_of (reaped par c s) x = status_of s x"
    by (simp_all add: ended_def status_of_def)
qed

text \<open>A parent that asks \<open>n\<close> times without waiting.\<close>

fun ask_children :: "u32 \<Rightarrow> nat \<Rightarrow> nat \<Rightarrow> 's ksys \<Rightarrow> (proc_status_t option list \<times> 's ksys) res" where
  "ask_children junk 0 par s = Inr ([], s)"
| "ask_children junk (Suc n) par s =
     rbind (process_wait_any_child junk [] par False s) (\<lambda>(st, s1).
     rbind (ask_children junk n par s1) (\<lambda>(sts, s2). Inr (st # sts, s2)))"

lemma filter_find:
  assumes "find P xs = Some c" and "distinct xs"
  shows "filter P xs = c # filter P (remove1 c xs)" and "filter (\<lambda>x. \<not> P x) (remove1 c xs) = filter (\<lambda>x. \<not> P x) xs" and "c \<in> set xs" and "P c"
  using assms by (induction xs) (auto split: if_splits simp: filter_empty_conv filter_id_conv)

text \<open>C28: a parent that asks for the status of its children gets the status of each child that has ended, once and in the
  order of its list, and each of them is freed; after that it is told that there is none, and the children that are
  left are those that still run. No other process changes.\<close>

theorem children_reaped_once:
  assumes "family par s"
  defines "dead \<equiv> filter (ended s) (p_children (proc_at s par))"
  shows "\<exists>s'. ask_children junk (length dead + 1) par s = Inr (map (\<lambda>c. Some (status_of s c)) dead @ [Some (no_status junk)], s')
    \<and> p_children (proc_at s' par) = filter (\<lambda>c. \<not> ended s c) (p_children (proc_at s par))
    \<and> (\<forall>c \<in> set dead. k_procs s' c = None) \<and> (\<forall>x. x \<noteq> par \<and> x \<notin> set dead \<longrightarrow> k_procs s' x = k_procs s x)
    \<and> hp_live (k_heap s') = hp_live (k_heap s) - int (length dead)"
  using assms(1) unfolding dead_def
proof (induction "length (p_children (proc_at s par))" arbitrary: s rule: less_induct)
  case less
  let ?cs = "p_children (proc_at s par)"
  note F = less.prems
  show ?case
  proof (cases "find (ended s) ?cs")
    case None
    then have "filter (ended s) ?cs = []" "filter (\<lambda>c. \<not> ended s c) ?cs = ?cs" by (auto simp: find_None_iff filter_empty_conv filter_id_conv)
    then show ?thesis using wait_any_start [OF F, of junk "[]" False] None by simp
  next
    case (Some c)
    let ?t = "reaped par c s"
    have d: "distinct ?cs" using F by (simp add: family_def)
    note ff = filter_find [OF Some d]
    note r = reaped_simps [OF F ff(3)]
    have cs: "p_children (proc_at ?t par) = remove1 c ?cs" using r(1) by simp
    have sub: "x \<in> set ?cs \<and> x \<noteq> c" if "x \<in> set (remove1 c ?cs)" for x using that d by auto
    have er: "ended ?t x = ended s x" if "x \<in> set (remove1 c ?cs)" for x
      using ended_reaped(1) [OF F ff(3)] sub [OF that] by blast
    have e: "filter (ended ?t) (remove1 c ?cs) = filter (ended s) (remove1 c ?cs)"
      "filter (\<lambda>x. \<not> ended ?t x) (remove1 c ?cs) = filter (\<lambda>x. \<not> ended s x) (remove1 c ?cs)"
      by (rule filter_cong [OF refl], use er in simp)+
    have st: "status_of ?t x = status_of s x" if "x \<in> set (remove1 c ?cs)" for x
      using ended_reaped(2) [OF F ff(3)] sub [OF that] by blast
    have m: "map (\<lambda>x. Some (status_of ?t x)) (filter (ended s) (remove1 c ?cs)) = map (\<lambda>x. Some (status_of s x)) (filter (ended s) (remove1 c ?cs))"
      by (rule map_cong [OF refl], use st in simp)
    have "length (p_children (proc_at ?t par)) < length ?cs"
      unfolding cs using ff(3) length_pos_if_in_set [OF ff(3)] by (simp add: length_remove1)
    from less.hyps [OF this r(5)]
    obtain s' where ih: "ask_children junk (length (filter (ended s) (remove1 c ?cs)) + 1) par ?t
        = Inr (map (\<lambda>x. Some (status_of s x)) (filter (ended s) (remove1 c ?cs)) @ [Some (no_status junk)], s')"
      "p_children (proc_at s' par) = filter (\<lambda>x. \<not> ended s x) (remove1 c ?cs)"
      "\<forall>x \<in> set (filter (ended s) (remove1 c ?cs)). k_procs s' x = None"
      "\<forall>x. x \<noteq> par \<and> x \<notin> set (filter (ended s) (remove1 c ?cs)) \<longrightarrow> k_procs s' x = k_procs ?t x"
      "hp_live (k_heap s') = hp_live (k_heap ?t) - int (length (filter (ended s) (remove1 c ?cs)))"
      unfolding cs e m by blast
    have "c \<noteq> par" using F ff(3) by (auto simp: family_def)
    have "k_procs s' c = None" using ih(4) r(3) \<open>c \<noteq> par\<close> d by auto
    moreover have "k_procs s' x = k_procs s x" if "x \<noteq> par" "x \<notin> set (filter (ended s) ?cs)" for x
      using that ih(4) r(2) [OF that(1)] ff(1) by auto
    moreover have "ask_children junk (length (filter (ended s) ?cs) + 1) par s
        = Inr (map (\<lambda>x. Some (status_of s x)) (filter (ended s) ?cs) @ [Some (no_status junk)], s')"
      unfolding ff(1) using wait_any_start [OF F, of junk "[]" False] Some ih(1) by simp
    moreover have "hp_live (k_heap s') = hp_live (k_heap s) - int (length (filter (ended s) ?cs))"
      unfolding ff(1) using ih(5) r(4) by simp
    moreover have "\<forall>x \<in> set (filter (ended s) ?cs). k_procs s' x = None" unfolding ff(1) using ih(3) calculation(1) by simp
    moreover have "p_children (proc_at s' par) = filter (\<lambda>x. \<not> ended s x) ?cs" using ih(2) ff(2) by simp
    ultimately show ?thesis by blast
  qed
qed

text \<open>What the other threads do, one after the other.\<close>

definition after :: "('s ksys \<Rightarrow> 's ksys) list \<Rightarrow> 's ksys \<Rightarrow> 's ksys" where
  "after gs s = fold (\<lambda>g. g) gs s"

lemma after_simps [simp]: "after [] s = s" "after (g # gs) s = after gs (g s)"
  by (simp_all add: after_def)


section \<open>Open files\<close>

text \<open>The table of open files of a process: the numbers in use are positive and below the next one.\<close>

definition fds_ok :: "process \<Rightarrow> bool" where
  "fds_ok pr \<longleftrightarrow> (\<exists>ht. p_files pr = Some ht \<and> ht_ok id_key_eq_fun id_hash_fun ht) \<and> 0 < sint (p_next_fd pr)
     \<and> (\<forall>fd. fd_lookup pr fd \<noteq> None \<longrightarrow> 0 < sint fd \<and> sint fd < sint (p_next_fd pr))"

lemma sint_succ:
  assumes "0 < sint (x :: u32)" and "sint x < 2 ^ 31 - 1"
  shows "sint (x + 1) = sint x + 1"
  using assms by (simp add: signed_take_bit_int_eq_self sint_word_ariths)

lemma put_fd:
  assumes "ht_ok id_key_eq_fun id_hash_fun ht" and "ht_put h ht fd v = (ok, ht', h')"
  shows "ht_ok id_key_eq_fun id_hash_fun ht'" and "hashtbl_find ht' x = (if ok \<and> x = fd then Some v else hashtbl_find ht x)"
  using id_table.put_good [OF assms] id_table.look_put [OF assms, of x] by (auto simp: id_key_eq_fun_def)

text \<open>C30: the number that \<open>proc_add_fd\<close> gives to an open file was not in use, reads back as that file, and does not change what the
  others read; on a failed allocation it answers zero and nothing changes. The numbers stay positive as long as the
  next one is not the largest \<open>int\<close>.\<close>

theorem fd_read_back:
  assumes "k_procs s p = Some pr" and "\<not> p_locked pr" and "fds_ok pr"
  shows "\<exists>fd s' pr'. proc_add_fd p f s = Inr (fd, s') \<and> k_procs s' = (k_procs s)(p \<mapsto> pr')
    \<and> (fd \<noteq> 0 \<longrightarrow> 0 < sint fd \<and> fd_lookup pr fd = None)
    \<and> (\<forall>x. proc_read_fd p x s' = Inr (if fd \<noteq> 0 \<and> x = fd then Some f else fd_lookup pr x, s'))
    \<and> (sint (p_next_fd pr) < 2 ^ 31 - 1 \<longrightarrow> fds_ok pr')"
proof -
  obtain ht where ht: "p_files pr = Some ht" "ht_ok id_key_eq_fun id_hash_fun ht" using assms(3) by (auto simp: fds_ok_def)
  let ?fd = "p_next_fd pr"
  obtain ok ht' h' where put: "ht_put (k_heap s) ht ?fd f = (ok, ht', h')" by (metis prod_cases3)
  note ps = put_fd [OF ht(2) put]
  have pos: "0 < sint ?fd" and below: "\<And>x. fd_lookup pr x \<noteq> None \<Longrightarrow> 0 < sint x \<and> sint x < sint ?fd"
    using assms(3) by (simp_all add: fds_ok_def)
  define pr' where "pr' = pr\<lparr>p_next_fd := ?fd + 1, p_files := Some ht'\<rparr>"
  define s' where "s' = set_proc p pr' (s\<lparr>k_heap := h'\<rparr>)"
  have l: "\<not> p_locked pr'" using assms(2) by (simp add: pr'_def)
  have run: "proc_add_fd p f s = Inr (if ok then ?fd else 0, s')"
    using assms(1,2) ht put
    by (simp add: proc_add_fd_def lock_proc_def unlocking_def unlock_proc_def Let_def) (simp add: s'_def pr'_def set_proc_def)
  have look: "fd_lookup pr' x = (if ok \<and> x = ?fd then Some f else fd_lookup pr x)" for x
    using ps(2) ht(1) by (simp add: fd_lookup_def pr'_def)
  have "proc_read_fd p x s' = Inr (fd_lookup pr' x, s')" for x
  proof -
    have "fd_lookup (pr'\<lparr>p_locked := True\<rparr>) x = fd_lookup pr' x" by (simp add: fd_lookup_def)
    then show ?thesis using l by (simp add: proc_read_fd_def lock_proc_def unlocking_def unlock_proc_def s'_def set_proc_def)
  qed
  moreover have "fds_ok pr'" if "sint ?fd < 2 ^ 31 - 1"
  proof -
    have "p_next_fd pr' = ?fd + 1" "p_files pr' = Some ht'" by (simp_all add: pr'_def)
    moreover have "0 < sint x \<and> sint x < sint ?fd + 1" if "fd_lookup pr' x \<noteq> None" for x
    proof (cases "x = ?fd")
      case False
      then show ?thesis using that below [of x] look by simp
    qed (use pos in simp)
    ultimately show ?thesis using sint_succ [OF pos that] pos ps(1) unfolding fds_ok_def by auto
  qed
  moreover have "fd_lookup pr ?fd = None" using below [of ?fd] by (cases "fd_lookup pr ?fd") auto
  moreover have "?fd \<noteq> 0" using pos by (metis less_irrefl signed_0)
  moreover have "k_procs s' = (k_procs s)(p \<mapsto> pr')" by (simp add: s'_def)
  ultimately show ?thesis using run pos look by (intro exI [of _ "if ok then ?fd else 0"] exI [of _ s'] exI [of _ pr']) simp
qed

lemma put_answers:
  assumes "all_answers_ok h" and "ht_load_ok t"
  shows "fst (ht_put h t k v) \<and> all_answers_ok (snd (snd (ht_put h t k v))) \<and> ht_load_ok (fst (snd (ht_put h t k v)))"
proof -
  obtain ok rel t' h' where a: "hashtbl_add h t k v = (ok, rel, t', h')" by (metis prod_cases4)
  show ?thesis using add_load [OF a assms] a by (simp add: ht_put_def)
qed

text \<open>A child can be given an open file under the number \<open>2 ^ 31 - 1\<close>; \<open>next_fd\<close> then wraps around to a negative
  number, and the next file that the process opens gets it, where only positive numbers stand for files
  (\<open>proc_add_fd_as\<close> refuses that very number).\<close>

theorem fd_numbers_wrap:
  assumes "k_procs s p = Some pr" and "\<not> p_locked pr" and "p_files pr = Some ht" and "hashtbl_find ht 0x7FFFFFFF = None"
    and "0 < sint (p_next_fd pr)" and "all_answers_ok (k_heap s)" and "ht_load_ok ht"
  shows "\<exists>s1 s2. proc_add_fd_as p f 0x7FFFFFFF s = Inr (True, s1) \<and> proc_add_fd p g s1 = Inr (0x80000000, s2)
    \<and> sint (0x80000000 :: u32) < 0 \<and> proc_add_fd_as p g 0x80000000 s2 = Inr (False, s2)"
proof -
  have m: "sint (0x7FFFFFFF :: u32) = 0x7FFFFFFF" "sint (0x80000000 :: u32) < 0" by simp_all
  have le: "sint (p_next_fd pr) \<le> 0x7FFFFFFF" using sint_range_size [of "p_next_fd pr"] by (simp add: word_size)
  obtain ht1 h1 where p1: "ht_put (k_heap s) ht 0x7FFFFFFF f = (True, ht1, h1)" "all_answers_ok h1" "ht_load_ok ht1"
    using put_answers [OF assms(6,7), of "0x7FFFFFFF" f] by (metis prod.collapse)
  obtain ht2 h2 where p2: "ht_put h1 ht1 0x80000000 g = (True, ht2, h2)" using put_answers [OF p1(2,3), of "0x80000000" g] by (metis prod.collapse)
  define pr1 where "pr1 = pr\<lparr>p_next_fd := 0x80000000, p_files := Some ht1\<rparr>"
  define s1 where "s1 = set_proc p pr1 (s\<lparr>k_heap := h1\<rparr>)"
  have r1: "proc_add_fd_as p f 0x7FFFFFFF s = Inr (True, s1)"
    unfolding proc_add_fd_as_def lock_proc_def unlocking_def unlock_proc_def Let_def
    by (simp add: assms(1-4) p1(1) le) (simp add: s1_def pr1_def set_proc_def assms(2))
  have q: "k_procs s1 p = Some pr1" "\<not> p_locked pr1" "p_files pr1 = Some ht1" "p_next_fd pr1 = 0x80000000" "k_heap s1 = h1"
    using assms(2) by (simp_all add: s1_def pr1_def)
  obtain s2 where r2: "proc_add_fd p g s1 = Inr (0x80000000, s2)"
    using q p2 by (simp add: proc_add_fd_def lock_proc_def unlocking_def unlock_proc_def Let_def)
  then show ?thesis using r1 m(2) by (auto simp: proc_add_fd_as_def)
qed

section \<open>Witnesses\<close>

theorem new_process_correct_witness:
  "\<exists>s r s'. k_procs s = k_procs wit_sys \<and> new_process no_world (Some 0) s = Inr (r, s')
     \<and> (case r of None \<Rightarrow> not_made wit_image {1} s s' | Some p \<Rightarrow> process_made wit_image {1} (Some 0) s p s')"
proof -
  obtain r where r: "kernel_ready wit_image {1} 0xC0001000 0xFFC00000 (wit_paging\<lparr>pg_regions := r\<rparr>)" using wit_ready by blast
  let ?s = "wit_sys\<lparr>k_paging := wit_paging\<lparr>pg_regions := r\<rparr>\<rparr>"
  have "parent_ready (Some 0) ?s" using wit_sys_proc(2) by (simp add: parent_ready_def wit_sys_def)
  moreover have w: "w_image no_world = wit_image" by (simp add: no_world_def)
  moreover have "k_paging ?s = wit_paging\<lparr>pg_regions := r\<rparr>" "k_procs ?s = k_procs wit_sys" by simp_all
  ultimately show ?thesis
    using new_process_correct [of no_world "{1}" "0xC0001000" "0xFFC00000" ?s "Some 0"] r by metis
qed

text \<open>A parent with one child that has ended with code 5 and one that runs.\<close>

definition wit_family :: "unit ksys" where
  "wit_family = wit_sys\<lparr>k_procs := [0 \<mapsto> wit_proc\<lparr>p_children := [1, 2]\<rparr>,
     1 \<mapsto> wit_proc\<lparr>p_pid := 2, p_status := PS_FINISHED, p_exit_code := 5\<rparr>, 2 \<mapsto> wit_proc\<lparr>p_pid := 3\<rparr>]\<rparr>"

lemma wit_family_ok: "family 0 wit_family" "filter (ended wit_family) (p_children (proc_at wit_family 0)) = [1]"
  by (simp_all add: family_def proc_at_def wit_family_def wit_proc_def ended_def alive_def ps_states)

theorem children_reaped_once_witness:
  "\<exists>s'. ask_children 9 2 0 wit_family
     = Inr ([Some \<lparr>ps_pid = 2, ps_status = PS_FINISHED, ps_exit_code = 5\<rparr>, Some \<lparr>ps_pid = 0, ps_status = 0, ps_exit_code = 9\<rparr>], s')"
proof -
  have "status_of wit_family 1 = \<lparr>ps_pid = 2, ps_status = PS_FINISHED, ps_exit_code = 5\<rparr>"
    by (simp add: status_of_def proc_at_def wit_family_def)
  then show ?thesis
    using children_reaped_once [OF wit_family_ok(1), of 9] unfolding wit_family_ok(2)
    by (auto simp: no_status_def numeral_2_eq_2)
qed

definition wit_child_ends :: "unit ksys \<Rightarrow> unit ksys" where
  "wit_child_ends s = s\<lparr>k_procs := (k_procs s)(1 \<mapsto> wit_proc\<lparr>p_pid := 2, p_status := PS_FINISHED, p_exit_code := 5\<rparr>)\<rparr>"

definition wit_busy :: "unit ksys" where
  "wit_busy = wit_sys\<lparr>k_procs := [0 \<mapsto> wit_proc\<lparr>p_children := [1]\<rparr>, 1 \<mapsto> wit_proc\<lparr>p_pid := 2\<rparr>]\<rparr>"


text \<open>The process with a table of open files that is empty.\<close>

lemma wit_files:
  obtains pr :: process and s :: "unit ksys" and ht where "k_procs s 0 = Some pr" and "\<not> p_locked pr" and "fds_ok pr"
    and "p_files pr = Some ht" and "\<And>x. hashtbl_find ht x = None" and "ht_load_ok ht" and "all_answers_ok (k_heap s)" and "p_next_fd pr = 1"
proof -
  obtain ho :: "(u32, nat) hashtbl option" and h where c: "create_hashtbl fresh_heap id_key_eq_fun id_hash_fun False = (ho, h)" by fastforce
  have ok: "ho \<noteq> None \<and> all_answers_ok h" by (rule create_hashtbl_answers [OF c]) (simp add: fresh_heap_def all_answers_ok_def)
  then obtain ht where ht: "ho = Some ht" by blast
  note c = c [unfolded ht]
  have inv: "ht_inv ht" "ht_bindings ht = {#}" using create_hashtbl_inv [OF id_keys.hash_keys_axioms c] by simp_all
  have e: "hashtbl_find ht x = None" for x using hashtbl_find_bound [OF inv(1), of x] inv(2) by (auto split: option.splits)
  let ?pr = "wit_proc\<lparr>p_files := Some ht\<rparr>"
  let ?s = "wit_sys\<lparr>k_procs := [0 \<mapsto> ?pr], k_heap := h\<rparr>"
  have "fds_ok ?pr" using inv(1) create_hashtbl_funs [OF c] e by (simp add: fds_ok_def ht_ok_def fd_lookup_def) (simp add: wit_proc_def)
  moreover have "\<not> p_locked ?pr" "p_next_fd ?pr = 1" by (simp_all add: wit_proc_def)
  ultimately show thesis using that [of ?s ?pr ht] e ok create_hashtbl_funs [OF c] by simp
qed

theorem fd_read_back_witness:
  "\<exists>s s' fd. proc_add_fd 0 5 s = Inr (fd, s' :: unit ksys) \<and> proc_read_fd 0 fd s' = Inr (if fd \<noteq> 0 then Some 5 else None, s')"
proof -
  obtain pr :: process and s :: "unit ksys" and ht where w: "k_procs s 0 = Some pr" "\<not> p_locked pr" "fds_ok pr" "p_files pr = Some ht"
    "\<And>x. hashtbl_find ht x = None" by (rule wit_files) blast
  then have n: "fd_lookup pr x = None" for x by (simp add: fd_lookup_def)
  obtain fd s' where "proc_add_fd 0 5 s = Inr (fd, s')" "\<And>x. proc_read_fd 0 x s' = Inr (if fd \<noteq> 0 \<and> x = fd then Some 5 else fd_lookup pr x, s')"
    using fd_read_back [OF w(1-3), of 5] by blast
  then show ?thesis using n by (intro exI [of _ s] exI [of _ s'] exI [of _ fd]) simp
qed

theorem fd_numbers_wrap_witness:
  "\<exists>s s1 s2. proc_add_fd_as 0 5 0x7FFFFFFF s = Inr (True, s1) \<and> proc_add_fd 0 6 s1 = Inr (0x80000000, s2 :: unit ksys)"
proof -
  obtain pr :: process and s :: "unit ksys" and ht where w: "k_procs s 0 = Some pr" "\<not> p_locked pr" "p_files pr = Some ht"
    "\<And>x. hashtbl_find ht x = None" "p_next_fd pr = 1" "all_answers_ok (k_heap s)" "ht_load_ok ht" by (rule wit_files) blast
  then show ?thesis using fd_numbers_wrap [OF w(1-3) w(4) _ w(6,7), of 5 6] by simp blast
qed

end
