(* ===== verification/Syscall_Props.thy ===== *)
theory Syscall_Props
  imports Syscall Proc_Life_Props
begin

text \<open>
  What system calls promise: what is read from a file is in the memory of the program, a file given to a child keeps
  its count, and the one string length that breaks the copying of strings.
\<close>

section \<open>Calls\<close>

lemma sret_simps [simp]: "sbind (sret x) f = f x" "sthen (sret ()) m = m"
  by (simp_all add: sbind_def sret_def sthen_def fun_eq_iff)

lemma sbind_done: "m s = Inr (Done x, s1) \<Longrightarrow> sbind m f s = f x s1"
  by (simp add: sbind_def)

lemma sthen_done: "m s = Inr (Done (), s1) \<Longrightarrow> sthen m n s = n s1"
  by (simp add: sthen_def sbind_done)

lemma sbind_Done_iff: "sbind m f s = Inr (Done y, s') \<longleftrightarrow> (\<exists>x s1. m s = Inr (Done x, s1) \<and> f x s1 = Inr (Done y, s'))"
proof -
  have "(case r of Done x \<Rightarrow> f x t | Exited a b \<Rightarrow> Inr (Exited a b, t) | Waits \<Rightarrow> Inr (Waits, t) | Thread_ends \<Rightarrow> Inr (Thread_ends, t)) = Inr (Done y, s')
      \<longleftrightarrow> (\<exists>x. r = Done x \<and> f x t = Inr (Done y, s'))" for r t
    by (cases r) auto
  then show ?thesis by (auto simp: sbind_def rbind_Inr_iff)
qed

lemma sthen_Done_iff: "sthen m n s = Inr (Done y, s') \<longleftrightarrow> (\<exists>s1. m s = Inr (Done (), s1) \<and> n s1 = Inr (Done y, s'))"
  by (simp add: sthen_def sbind_Done_iff)

section \<open>Copying strings\<close>

text \<open>The length of a string is the program's word. With the largest one, \<open>slen + 1\<close> is zero: the kernel allocates
  nothing and copies \<open>2 ^ 32 - 1\<close> bytes into it. The check of the range does not prevent this, since its end wraps around: any
  readable address will do, in every call that takes a string, \<open>SC_DBG_PRINT\<close> for one.\<close>

theorem string_length_overflows:
  assumes "k_current (kn_sys s) = Some p" and "find_user_region p addr (kn_sys s) = Inr (Some a)"
    and "has_flag (scast (ur_mode (region_at (kn_sys s) a))) MM_READ" and "addr \<noteq> 0"
    and "all_answers_ok (k_heap (kn_sys s))"
  shows "syscall_handler W mk others 0 \<lparr>arg_a = addr, arg_b = - 1, arg_c = c, arg_d = d, arg_e = e\<rparr> s = Inl Bad_access"
proof -
  have "unat (- 1 :: u32) = 2 ^ 32 - 1" by (simp add: unsigned_minus_1_eq_mask mask_eq_exp_minus_1)
  moreover have "0 < unat addr" using assms(4) by (simp add: unat_gt_0)
  ultimately have long: "2 ^ 32 \<le> unat addr + unat (- 1 :: u32)" by linarith
  have probe: "probe_for_read addr (- 1) (kn_sys s) = Inr (Returns (), kn_sys s)"
    unfolding probe_for_read_def by (rule probe_wraps [OF assms(1-3) long])
  obtain h where h: "heap_malloc (k_heap (kn_sys s)) = (True, h)"
    using heap_malloc_ok(1) [OF assms(5)] by (metis surj_pair)
  let ?s1 = "s\<lparr>kn_sys := (kn_sys s)\<lparr>k_heap := h\<rparr>\<rparr>"
  have c: "sc_copy_string W addr (- 1) s = Inl Bad_access"
  proof -
    have "may_exit (probe_for_read addr (- 1)) s = Inr (Done (), s)" by (simp add: may_exit_def probe)
    moreover have "on_sys (\<lambda>s. case heap_malloc (k_heap s) of (ok, h) \<Rightarrow> Inr (ok, s\<lparr>k_heap := h\<rparr>)) s = Inr (Done True, ?s1)"
      by (simp add: on_sys_def h)
    ultimately show ?thesis unfolding sc_copy_string_def by (simp add: sthen_done sbind_def)
  qed
  have "sc_handlers W mk others 0 = Some (dbg_print_sc W)" 
    by (simp only: sc_handlers_def map_of.simps fst_conv snd_conv fun_upd_apply SC_DBG_PRINT_def SC_EXIT_def SC_YIELD_def
        zero_neq_one zero_neq_numeral if_False refl if_True)
  then show ?thesis using c by (simp add: syscall_handler_def SC_MAX_def dbg_print_sc_def sbind_def)
qed

section \<open>Bytes in user memory\<close>

definition phys :: "'s kernel \<Rightarrow> nat \<Rightarrow> u8 list" where
  "phys s = pe_phys (k_env (kn_sys s))"

lemma phys_vfs [simp]: "phys (s\<lparr>kn_sys := (kn_sys s)\<lparr>k_vfs := v, k_heap := h\<rparr>\<rparr>) = phys s"
  by (simp add: phys_def)

definition put_byte :: "nat \<Rightarrow> nat \<Rightarrow> u8 \<Rightarrow> 's kernel \<Rightarrow> 's kernel" where
  "put_byte f k b s = s\<lparr>kn_sys := (kn_sys s)\<lparr>k_env := (k_env (kn_sys s))\<lparr>pe_phys := (phys s)(f := (phys s f)[k := b])\<rparr>\<rparr>\<rparr>"

lemma put_byte_simps [simp]:
  "frame_at (put_byte f k b s) = frame_at s" "phys (put_byte f k b s) = (phys s)(f := (phys s f)[k := b])"
  "k_vfs (kn_sys (put_byte f k b s)) = k_vfs (kn_sys s)" "k_procs (kn_sys (put_byte f k b s)) = k_procs (kn_sys s)"
  by (simp_all add: put_byte_def frame_at_def phys_def fun_eq_iff)

lemma in_page_less: "in_page v < 4096"
proof -
  have "in_page v = unat v mod 4096" unfolding in_page_def by (rule page_offset_mod)
  then show ?thesis by simp
qed

lemma byte_stored:
  assumes "v < K_HIGHHALF_ADDR" and "frame_at s v = Some f"
  shows "sthen (store_byte W v b) m s = m (put_byte f (in_page v) b s)"
  using assms
  by (auto simp: store_byte_def user_frame_def sthen_def sbind_def sret_def do_sys_def put_byte_def phys_def Let_def)

lemma byte_loaded:
  assumes "v < K_HIGHHALF_ADDR" and "frame_at s v = Some f"
  shows "sbind (load_byte W v) g s = g (phys s f ! in_page v) s"
  using assms by (auto simp: load_byte_def user_frame_def sbind_def sret_def phys_def)

text \<open>Where the byte of an address is.\<close>

definition place :: "'s kernel \<Rightarrow> u32 \<Rightarrow> nat \<times> nat" where
  "place s v = (the (frame_at s v), in_page v)"

definition user_byte :: "'s kernel \<Rightarrow> nat \<times> nat \<Rightarrow> u8" where
  "user_byte s x = phys s (fst x) ! snd x"

text \<open>The range is in the half of the program, every page of it is in memory, and no two of its addresses share a byte.\<close>

definition resident :: "'s kernel \<Rightarrow> u32 \<Rightarrow> nat \<Rightarrow> bool" where
  "resident s v n \<longleftrightarrow>
     (\<forall>i < n. v + of_nat i < K_HIGHHALF_ADDR \<and> (\<exists>f. frame_at s (v + of_nat i) = Some f \<and> length (phys s f) = 4096))
     \<and> inj_on (\<lambda>i. place s (v + of_nat i)) {..<n}"

lemma resident_Suc:
  assumes "resident s v (Suc n)"
  shows "v < K_HIGHHALF_ADDR" and "\<exists>f. frame_at s v = Some f \<and> length (phys s f) = 4096" and "resident s (v + 1) n"
    and "\<And>i. i < n \<Longrightarrow> place s (v + 1 + of_nat i) \<noteq> place s v"
proof -
  note a = assms [unfolded resident_def]
  show "v < K_HIGHHALF_ADDR" "\<exists>f. frame_at s v = Some f \<and> length (phys s f) = 4096" using a by (auto dest: spec [of _ 0])
  have e: "v + 1 + of_nat i = v + of_nat (Suc i)" for i by simp
  have "inj_on (\<lambda>i. place s (v + 1 + of_nat i)) {..<n}"
    unfolding e using a by (auto simp: inj_on_def simp del: of_nat_Suc)
  moreover have "v + 1 + of_nat i < K_HIGHHALF_ADDR \<and> (\<exists>f. frame_at s (v + 1 + of_nat i) = Some f \<and> length (phys s f) = 4096)"
    if "i < n" for i unfolding e using a that by (metis Suc_less_eq)
  ultimately show "resident s (v + 1) n" by (simp add: resident_def)
  show "place s (v + 1 + of_nat i) \<noteq> place s v" if "i < n" for i
  proof
    assume "place s (v + 1 + of_nat i) = place s v"
    then have "place s (v + of_nat (Suc i)) = place s (v + of_nat 0)" by (simp add: add.assoc)
    then have "Suc i = 0" by (rule inj_onD [OF conjunct2 [OF a]]) (use that in simp_all)
    then show False by simp
  qed
qed

lemma place_put [simp]: "place (put_byte f k b s) = place s"
  by (simp add: place_def fun_eq_iff)

lemma resident_put [simp]: "resident (put_byte f k b s) v n = resident s v n"
  unfolding resident_def place_put put_byte_simps by (rule arg_cong2 [of _ _ _ _ "(\<and>)"]) auto

lemma user_byte_put:
  assumes "length (phys s f) = 4096" and "k < 4096"
  shows "user_byte (put_byte f k b s) x = (if x = (f, k) then b else user_byte s x)"
  using assms by (cases x) (auto simp: user_byte_def nth_list_update)

text \<open>A store of bytes, one after the other.\<close>

lemma stores:
  assumes "resident s v (length bs)"
  shows "\<exists>s'. store_bytes W v bs s = Inr (Done (), s') \<and> frame_at s' = frame_at s \<and> (\<forall>u n. resident s' u n = resident s u n)
      \<and> k_vfs (kn_sys s') = k_vfs (kn_sys s) \<and> k_procs (kn_sys s') = k_procs (kn_sys s)
      \<and> (\<forall>i < length bs. user_byte s' (place s (v + of_nat i)) = bs ! i)
      \<and> (\<forall>x. (\<forall>i < length bs. x \<noteq> place s (v + of_nat i)) \<longrightarrow> user_byte s' x = user_byte s x)"
  using assms
proof (induction bs arbitrary: v s)
  case (Cons b bs)
  note r = resident_Suc [OF Cons.prems [simplified]]
  obtain f where f: "frame_at s v = Some f" "length (phys s f) = 4096" using r(2) by blast
  let ?t = "put_byte f (in_page v) b s"
  have p: "place s v = (f, in_page v)" by (simp add: place_def f)
  note put = user_byte_put [OF f(2) in_page_less [of v], of b]
  obtain s' where s': "store_bytes W (v + 1) bs ?t = Inr (Done (), s')" "frame_at s' = frame_at ?t"
      "\<forall>u n. resident s' u n = resident ?t u n \<and> k_vfs (kn_sys s') = k_vfs (kn_sys ?t) \<and> k_procs (kn_sys s') = k_procs (kn_sys ?t)"
      "\<forall>i < length bs. user_byte s' (place ?t (v + 1 + of_nat i)) = bs ! i"
      "\<forall>x. (\<forall>i < length bs. x \<noteq> place ?t (v + 1 + of_nat i)) \<longrightarrow> user_byte s' x = user_byte ?t x"
    using Cons.IH [of ?t "v + 1"] r(3) by auto
  have one: "user_byte s' (place s v) = b" using s'(5) r(4) put [of "place s v"] p by (simp add: eq_commute)
  have e: "v + of_nat (Suc i) = v + 1 + of_nat i" for i by simp
  have "user_byte s' (place s (v + of_nat i)) = (b # bs) ! i" if "i < length (b # bs)" for i
    using that one s'(4) by (cases i) (auto simp: e simp del: of_nat_Suc)
  moreover have "user_byte s' x = user_byte s x" if "\<forall>i < length (b # bs). x \<noteq> place s (v + of_nat i)" for x
  proof -
    have "x \<noteq> (f, in_page v)" using that [rule_format, of 0] p by simp
    moreover have "\<forall>i < length bs. x \<noteq> place ?t (v + 1 + of_nat i)"
      using that by (metis Suc_less_eq e length_Cons place_put)
    ultimately have "user_byte s' x = user_byte ?t x" using s'(5) by blast
    then show ?thesis using put \<open>x \<noteq> (f, in_page v)\<close> by simp
  qed
  ultimately show ?case using s'(1-3) by (simp add: byte_stored [OF r(1) f(1)])
qed (simp add: sret_def)

lemma loads:
  assumes "resident s v n"
  shows "load_bytes W v n s = Inr (Done (map (\<lambda>i. user_byte s (place s (v + of_nat i))) [0..<n]), s)"
  using assms
proof (induction n arbitrary: v)
  case (Suc n)
  note r = resident_Suc [OF Suc.prems]
  obtain f where f: "frame_at s v = Some f" using r(2) by blast
  have m: "[0..<Suc n] = 0 # map Suc [0..<n]" by (simp add: upt_conv_Cons map_Suc_upt del: upt_Suc)
  show ?case
    unfolding m
    by (simp add: byte_loaded [OF r(1) f] sbind_done [where m = "load_bytes W (v + 1) n", OF Suc.IH [OF r(3)]] f sret_def comp_def user_byte_def place_def add.assoc del: upt_Suc)
qed (simp add: sret_def)

text \<open>Bytes that the kernel stores for a program, in memory that is there, are what it reads back from the same addresses, and no
  other byte of the machine changes.\<close>

lemma store_load_bytes:
  assumes "resident s v (length bs)"
  shows "\<exists>s'. store_bytes W v bs s = Inr (Done (), s') \<and> load_bytes W v (length bs) s' = Inr (Done bs, s')
      \<and> k_vfs (kn_sys s') = k_vfs (kn_sys s) \<and> k_procs (kn_sys s') = k_procs (kn_sys s)
      \<and> (\<forall>x. (\<forall>i < length bs. x \<noteq> place s (v + of_nat i)) \<longrightarrow> user_byte s' x = user_byte s x)"
proof -
  obtain s' where s': "store_bytes W v bs s = Inr (Done (), s')" "frame_at s' = frame_at s" "resident s' v (length bs)"
      "\<forall>i < length bs. user_byte s' (place s (v + of_nat i)) = bs ! i"
      "k_vfs (kn_sys s') = k_vfs (kn_sys s)" "k_procs (kn_sys s') = k_procs (kn_sys s)"
      "\<forall>x. (\<forall>i < length bs. x \<noteq> place s (v + of_nat i)) \<longrightarrow> user_byte s' x = user_byte s x"
    using stores [OF assms, of W] assms by auto
  have "map (\<lambda>i. user_byte s' (place s' (v + of_nat i))) [0..<length bs] = bs"
    by (rule nth_equalityI) (use s'(2,4) in \<open>simp_all add: place_def\<close>)
  then show ?thesis using s'(1,5-7) loads [OF s'(3), of W] by auto
qed

section \<open>Giving a file to a child\<close>

lemma proc_same: "k_procs s p = Some pr \<Longrightarrow> s\<lparr>k_procs := (k_procs s)(p \<mapsto> pr)\<rparr> = s"
  by (simp add: map_upd_triv)

lemma find_pid_cong:
  assumes "\<And>c. map_option p_pid (k_procs s c) = map_option p_pid (k_procs t c)"
  shows "find_pid s pid cs = find_pid t pid cs"
proof (induction cs)
  case (Cons c cs)
  then show ?case using assms [of c] by (cases "k_procs s c"; cases "k_procs t c") (simp_all add: deref_def)
qed simp

lemma unlocked_again:
  assumes "k_procs s p = Some pr" and "\<not> p_locked pr"
  shows "lock_proc p s = Inr (set_proc p (pr\<lparr>p_locked := True\<rparr>) s)"
    and "unlocking p r (set_proc p (pr\<lparr>p_locked := True\<rparr>) s) = Inr (r, s)"
  using assms by (simp_all add: lock_proc_def unlocking_def unlock_proc_def set_proc_def proc_same)

lemma read_fd:
  assumes "k_procs s p = Some pr" and "\<not> p_locked pr"
  shows "proc_read_fd p fd s = Inr (fd_lookup pr fd, s)"
proof -
  have "fd_lookup (pr\<lparr>p_locked := True\<rparr>) fd = fd_lookup pr fd" by (simp add: fd_lookup_def)
  then show ?thesis using unlocked_again [OF assms] by (simp add: proc_read_fd_def) (simp add: set_proc_def)
qed

lemma find_child:
  assumes "k_procs s p = Some pr" and "\<not> p_locked pr" and "find_pid s pid (p_children pr) = Inr r"
  shows "process_find_child p pid s = Inr (r, s)"
proof -
  have "find_pid (set_proc p (pr\<lparr>p_locked := True\<rparr>) s) pid (p_children pr) = Inr r"
    using find_pid_cong [of "set_proc p (pr\<lparr>p_locked := True\<rparr>) s" s] assms(1,3) by (simp add: set_proc_def)
  then show ?thesis using unlocked_again [OF assms(1,2)] by (simp add: process_find_child_def) (simp add: set_proc_def)
qed

lemma add_fd_as:
  assumes "k_procs s p = Some pr" and "\<not> p_locked pr" and "p_files pr = Some ht" and "ht_ok id_key_eq_fun id_hash_fun ht"
  shows "\<exists>ok pr' h. proc_add_fd_as p f fd s = Inr (ok, s\<lparr>k_procs := (k_procs s)(p \<mapsto> pr'), k_heap := h\<rparr>)
      \<and> (\<forall>x. fd_lookup pr' x = (if ok \<and> x = fd then Some f else fd_lookup pr x))
      \<and> (ok \<longrightarrow> 0 < sint fd \<and> fd_lookup pr fd = None)"
proof -
  have same: "s = s\<lparr>k_procs := (k_procs s)(p \<mapsto> pr), k_heap := k_heap s\<rparr>" using proc_same [OF assms(1)] by simp
  consider "sint fd \<le> 0" | "0 < sint fd" "hashtbl_find ht fd \<noteq> None" | "0 < sint fd" "hashtbl_find ht fd = None" by linarith
  then show ?thesis
  proof cases
    case 1
    then show ?thesis using same by (intro exI [of _ False] exI [of _ pr] exI [of _ "k_heap s"]) (simp add: proc_add_fd_as_def)
  next
    case 2
    then have "proc_add_fd_as p f fd s = Inr (False, s)"
      using unlocked_again [OF assms(1,2)] assms(3) by (auto simp: proc_add_fd_as_def not_le) (simp_all add: set_proc_def)
    then show ?thesis using same by (intro exI [of _ False] exI [of _ pr] exI [of _ "k_heap s"]) simp
  next
    case 3
    obtain ok ht' h where put: "ht_put (k_heap s) ht fd f = (ok, ht', h)" by (metis prod_cases3)
    define pr' where "pr' = pr\<lparr>p_next_fd := (if sint fd \<ge> sint (p_next_fd pr) then fd + 1 else p_next_fd pr), p_files := Some ht'\<rparr>"
    have "proc_add_fd_as p f fd s = Inr (ok, s\<lparr>k_procs := (k_procs s)(p \<mapsto> pr'), k_heap := h\<rparr>)"
      using 3 assms(1,2,3) put
      by (simp add: proc_add_fd_as_def lock_proc_def unlocking_def unlock_proc_def set_proc_def not_le) (simp add: pr'_def)
    moreover have "fd_lookup pr' x = (if ok \<and> x = fd then Some f else fd_lookup pr x)" for x
      using put_fd(2) [OF assms(4) put] assms(3) by (simp add: fd_lookup_def pr'_def)
    ultimately show ?thesis using 3 assms(3) by (intro exI [of _ ok] exI [of _ pr'] exI [of _ h]) (simp add: fd_lookup_def)
  qed
qed

text \<open>C34: a file that a process gives to its child gets the number that it asks for, if that is positive and free, and is then held once
  more; otherwise neither the files of the child nor the count of the file change, also when an allocation fails.\<close>

theorem bind_fd_shares_file:
  assumes "k_current (kn_sys s) = Some p" and "k_procs (kn_sys s) p = Some pr" and "\<not> p_locked pr"
    and "find_pid (kn_sys s) (arg_a a) (p_children pr) = Inr (Some c)" and "k_procs (kn_sys s) c = Some ch" and "\<not> p_locked ch"
    and "p_files ch = Some ht" and "ht_ok id_key_eq_fun id_hash_fun ht"
    and "fd_lookup pr (arg_c a) = Some f" and "v_files (k_vfs (kn_sys s)) f = Some fh" and "\<not> fh_locked fh" and "0 < fh_refs fh"
  shows "\<exists>ok s' ch'. bind_fd_sc W a s = Inr (Done (of_truth ok), s')
      \<and> k_procs (kn_sys s') = (k_procs (kn_sys s))(c \<mapsto> ch')
      \<and> (\<forall>x. fd_lookup ch' x = (if ok \<and> x = arg_b a then Some f else fd_lookup ch x))
      \<and> v_files (k_vfs (kn_sys s')) = (v_files (k_vfs (kn_sys s)))(f \<mapsto> fh\<lparr>fh_refs := fh_refs fh + (if ok then 1 else 0)\<rparr>)
      \<and> (ok \<longrightarrow> 0 < sint (arg_b a) \<and> fd_lookup ch (arg_b a) = None)"
proof -
  define k where "k = kn_sys s"
  note k = assms(1,2,4,5,10) [folded k_def]
  define v where "v = (k_vfs k)\<lparr>v_heap := k_heap k, v_files := (v_files (k_vfs k))(f \<mapsto> fh\<lparr>fh_refs := fh_refs fh + 1\<rparr>)\<rparr>"
  define k1 where "k1 = k\<lparr>k_vfs := v\<rparr>"
  have ref: "do_files (ref_file f) s = Inr (Done (), s\<lparr>kn_sys := k1\<rparr>)"
    using k(5) assms(11) by (simp add: do_files_def do_sys_def on_vfs_def ref_file_def k_def [symmetric]) (simp add: k1_def v_def)
  have c1: "k_procs k1 c = Some ch" using k(4) by (simp add: k1_def)
  obtain ok ch' h where add: "proc_add_fd_as c f (arg_b a) k1 = Inr (ok, k1\<lparr>k_procs := (k_procs k1)(c \<mapsto> ch'), k_heap := h\<rparr>)"
      "\<forall>x. fd_lookup ch' x = (if ok \<and> x = arg_b a then Some f else fd_lookup ch x)"
      "ok \<longrightarrow> 0 < sint (arg_b a) \<and> fd_lookup ch (arg_b a) = None"
    using add_fd_as [OF c1 assms(6,7,8)] by blast
  define k2 where "k2 = k1\<lparr>k_procs := (k_procs k1)(c \<mapsto> ch'), k_heap := h\<rparr>"
  have fd: "with_fd (arg_c a) 0 g s = g f s" for g
    using k assms(9) read_fd [OF k(2) assms(3)]
    by (simp add: with_fd_def sbind_def current_process_def on_sys_def k_def [symmetric]) (simp add: k_def)
  have child: "with_child (arg_a a) g s = g c s" for g
    using k find_child [OF k(2) assms(3) k(3)]
    by (simp add: with_child_def sbind_def current_process_def on_sys_def k_def [symmetric]) (simp add: k_def)
  have seq: "sthen (do_files (ref_file f)) m s = m (s\<lparr>kn_sys := k1\<rparr>)" for m :: "('a, u32) sc"
    using ref by (rule sthen_done)
  have run: "bind_fd_sc W a s = (if ok then sret 1 else sthen (do_files (unref_file (w_code W) f)) (sret 0)) (s\<lparr>kn_sys := k2\<rparr>)"
    unfolding bind_fd_sc_def child fd seq using add(1) by (simp add: sbind_def on_sys_def k2_def [symmetric])
  show ?thesis
  proof (cases ok)
    case True
    then show ?thesis using run add(2,3)
      by (intro exI [of _ True] exI [of _ "s\<lparr>kn_sys := k2\<rparr>"] exI [of _ ch'])
        (simp add: sret_def of_truth_def k2_def k1_def v_def k_def)
  next
    case False
    define k3 where "k3 = k2\<lparr>k_vfs := v\<lparr>v_heap := h, v_files := (v_files (k_vfs k))(f \<mapsto> fh)\<rparr>\<rparr>"
    have "do_files (unref_file (w_code W) f) (s\<lparr>kn_sys := k2\<rparr>) = Inr (Done (), s\<lparr>kn_sys := k3\<rparr>)"
      using assms(11,12) by (simp add: do_files_def do_sys_def on_vfs_def unref_file_def Let_def k2_def k1_def v_def) (simp add: k3_def k2_def k1_def v_def)
    then have "bind_fd_sc W a s = Inr (Done 0, s\<lparr>kn_sys := k3\<rparr>)" using run False by (simp add: sthen_done sret_def)
    then show ?thesis using add(2,3) False
      by (intro exI [of _ False] exI [of _ "s\<lparr>kn_sys := k3\<rparr>"] exI [of _ ch'])
        (simp add: of_truth_def k3_def k2_def k1_def v_def k_def)
  qed
qed

section \<open>Reading a file\<close>

lemma resident_vfs: "resident (s\<lparr>kn_sys := (kn_sys s)\<lparr>k_vfs := v, k_heap := h\<rparr>\<rparr>) = resident s"
  and place_vfs: "place (s\<lparr>kn_sys := (kn_sys s)\<lparr>k_vfs := v, k_heap := h\<rparr>\<rparr>) = place s"
  and user_byte_vfs: "user_byte (s\<lparr>kn_sys := (kn_sys s)\<lparr>k_vfs := v, k_heap := h\<rparr>\<rparr>) = user_byte s"
  by (simp_all add: resident_def place_def user_byte_def frame_at_def fun_eq_iff)


section \<open>Examples\<close>

text \<open>A page of the process, at \<open>0x2000\<close>, is in frame 3.\<close>

definition wit_kernel :: "unit kernel" where
  "wit_kernel = \<lparr>kn_sys = wit_over\<lparr>k_paging := wit_paging\<lparr>pg_mem := (\<lambda>f i. if f = 1 \<and> i = 0 then 0x2007 else if f = 2 \<and> i = 2 then 0x3007 else 0)\<rparr>\<rparr>,
     kn_tokens = tokens0 fresh_heap prng_init wit_tasks, kn_waits = [], kn_child_waits = [], kn_log = []\<rparr>"

theorem string_length_overflows_witness:
  "syscall_handler no_world (\<lambda>_ v. Inr ((None, None), v)) [] 0 \<lparr>arg_a = 0x2004, arg_b = - 1, arg_c = 0, arg_d = 0, arg_e = 0\<rparr> (wit_kernel\<lparr>kn_sys := wit_over\<rparr>) = Inl Bad_access"
proof -
  have "k_current wit_over = Some 0" by (simp add: wit_over_def wit_sys_def)
  moreover have "has_flag (scast (ur_mode (region_at wit_over 1))) MM_READ"
    unfolding wit_over_region by (simp add: private_region_def has_flag_def MM_READ_def)
  ultimately show ?thesis by (intro string_length_overflows [of _ 0 _ 1]) (simp_all add: wit_over_find wit_over_ok)
qed

lemma wit_kernel_resident: "resident wit_kernel 0x2004 2"
proof -
  have e: "present 0x2007" "present 0x3007" "pte_frame 0x1000 = 1" "pte_frame 0x2007 = 2" "pte_frame 0x3007 = 3"
    by (simp_all add: present_def PTE_PRESENT_def pte_frame_def PTE_FRAME_SHIFT_def)
  have f: "frame_at wit_kernel v = Some 3" if "v = 0x2004 \<or> v = 0x2005" for v
    using that
    by (auto simp: frame_at_def translate_def wit_kernel_def wit_paging_def cr3_frame_def e PT_OF_ADDR_def PAGE_OF_ADDR_def
        PT_SHIFT_def PAGE_SHIFT_def N_PAGES_IN_PT_def)
  have l: "length (phys wit_kernel g) = 4096" for g
    by (simp add: phys_def wit_kernel_def wit_over_def wit_sys_def wit_env_def zero_page_def)
  have i: "in_page 0x2004 = 4" "in_page 0x2005 = 5" by (simp_all add: in_page_def PAGE_MASK_def)
  have "v + of_nat j \<in> {v, v + 1}" if "j < 2" for v :: u32 and j using that by (cases j) auto
  have n: "j < 2 \<longleftrightarrow> j = 0 \<or> j = 1" for j :: nat by auto
  show ?thesis
    unfolding resident_def inj_on_def Ball_def lessThan_iff n by (auto simp: f l place_def i K_HIGHHALF_ADDR_def)
qed

lemma find_region_same:
  assumes "k_procs s p = Some pr" and "k_procs t p = Some qr" and "p_locked pr = p_locked qr" and "p_regions_idx pr = p_regions_idx qr"
    and "k_regions s = k_regions t"
  shows "find_user_region p v s = find_user_region p v t"
  unfolding find_user_region_def assms(5) using assms(1-4) by simp

text \<open>A driver whose files read as the bytes 1 and 2.\<close>

definition wit_reader :: "unit world" where
  "wit_reader = no_world\<lparr>w_code := (w_code no_world)\<lparr>node_ops_at := (\<lambda>n. (node_ops_at (w_code no_world) n)\<lparr>op_read := Some (\<lambda>_ _ _ _ io. Inr ([1, 2], io))\<rparr>)\<rparr>\<rparr>"


theorem bind_fd_shares_file_witness:
  "\<exists>(s :: unit kernel) s' ok. bind_fd_sc no_world \<lparr>arg_a = 2, arg_b = 7, arg_c = 3, arg_d = 0, arg_e = 0\<rparr> s = Inr (Done (of_truth ok), s')
     \<and> fh_refs (the (v_files (k_vfs (kn_sys s')) 9)) = (if ok then 2 else 1)"
proof -
  obtain pr :: process and x :: "unit ksys" and ht where w: "\<not> p_locked pr" "fds_ok pr" "p_files pr = Some ht"
    "ht_load_ok ht" "all_answers_ok (k_heap x)" by (rule wit_files) blast
  have ht: "ht_ok id_key_eq_fun id_hash_fun ht" using w(2,3) by (simp add: fds_ok_def)
  obtain ht1 h1 where put: "ht_put (k_heap x) ht 3 9 = (True, ht1, h1)" using put_answers [OF w(5,4), of 3 9] by (metis prod.collapse)
  define fh where "fh = \<lparr>fh_refs = 1, fh_locked = False, fh_fs = None, fh_node = 0, fh_mode = FM_READ\<rparr>"
  define par where "par = pr\<lparr>p_files := Some ht1, p_children := [1]\<rparr>"
  define ch where "ch = pr\<lparr>p_pid := 2\<rparr>"
  define k where "k = wit_sys\<lparr>k_procs := [0 \<mapsto> par, 1 \<mapsto> ch], k_vfs := (k_vfs wit_sys)\<lparr>v_files := [9 \<mapsto> fh]\<rparr>\<rparr>"
  define a where "a = \<lparr>arg_a = 2, arg_b = 7, arg_c = 3, arg_d = 0, arg_e = 0\<rparr>"
  have p: "k_procs k 0 = Some par" "k_procs k 1 = Some ch" "k_current k = Some 0" "v_files (k_vfs k) 9 = Some fh"
    by (simp_all add: k_def wit_sys_def)
  have q: "\<not> p_locked par" "\<not> p_locked ch" "p_children par = [1]" "p_pid ch = 2" "p_files ch = Some ht" "\<not> fh_locked fh" "fh_refs fh = 1"
    using w(1,3) by (simp_all add: par_def ch_def fh_def)
  have l: "fd_lookup par 3 = Some 9" using put_fd(2) [OF ht put, of 3] by (simp add: fd_lookup_def par_def)
  have c: "find_pid k (arg_a a) (p_children par) = Inr (Some 1)" using p(2) q(3,4) by (simp add: a_def)
  let ?s = "wit_kernel\<lparr>kn_sys := k\<rparr>"
  obtain ok s' where "bind_fd_sc no_world a ?s = Inr (Done (of_truth ok), s')"
    "v_files (k_vfs (kn_sys s')) = (v_files (k_vfs k))(9 \<mapsto> fh\<lparr>fh_refs := fh_refs fh + (if ok then 1 else 0)\<rparr>)"
    using bind_fd_shares_file [of ?s 0 par a 1 ch ht 9 fh no_world] p q l c ht by (auto simp: a_def)
  then show ?thesis using q(7) unfolding a_def by (intro exI [of _ ?s] exI [of _ s'] exI [of _ ok]) simp
qed

end
