(* ===== verification/Spec2Isabelle.thy ===== *)
theory Spec2Isabelle
  imports Cstring Paging_Dirs Hashtbl Btree Frame Malloc_Props Proto_Fs Ipc_Channel_Props Prng Thread_Props Worker Mutex Pager_Props Ipc_Token Ipc_Shm Printf_Props Syscall_Props
begin

text \<open>
  A verification development for kogata, a small operating system for 32-bit x86 machines written in C.

  \<^bold>\<open>The program.\<close> The kernel (src/kernel) manages physical frames, virtual memory, threads, worker tasks, file
  systems, memory pagers and communication between processes; it shares a library of data structures with user programs
  (src/common) and user programs link a small C library (src/lib/libc). Control comes from system calls, from interrupts
  and from page faults. The parts rest on each other as follows. Page directories, kernel regions and pagers take
  frames from the frame allocator; the region allocator hands out kernel addresses and the slab allocator carves objects
  out of regions, which is the kernel's \<open>malloc\<close>; hash tables and search trees are built on \<open>malloc\<close>; the scheduler
  runs threads that wait on addresses and the workers run delayed tasks on it; the virtual file system calls drivers, of
  which the in-memory one stores its files in pagers; channels, shared memory and tokens are nodes and handles of the
  virtual file system.

  \<^bold>\<open>Conventions.\<close> A C structure is a record, a tagged union a datatype, a 32-bit integer a \<open>32 word\<close> wherever its
  wrap-around matters (sizes, addresses, page table entries, character codes, hash values) and a natural number
  where the code keeps it in a small range. Shared, mutable objects live in maps from addresses (natural numbers) to
  records. An operation takes the state and returns a result, \<open>fault + 'a\<close> (theory \<open>Kogata_Base\<close>): a failed
  \<open>ASSERT\<close>, a \<open>PANIC\<close>, an access through a dangling pointer or outside an array, an undefined shift, a thread
  waiting for its own lock and a pointer walk that never ends are all values, so that "it does not fault" is a
  statement. Whether a \<open>malloc\<close> succeeds is an answer drawn from a list in the state (record \<open>heap\<close>), with a count of the
  live blocks: a theorem about all lists is one about every pattern of failures, and the count makes leaks visible.
  Definitions are executable; the witnesses evaluate them.

  \<^bold>\<open>Theories.\<close>
  \<^item> \<open>Kogata_Base\<close> (prelude: types, faults, heap, shared list and word lemmas), \<open>Linked\<close> (null-terminated lists
    through pointers), \<open>Kernel_Sys\<close> (src/kernel/include/sys.h: alignment macros, loops over pages).
  \<^item> \<open>Cstring\<close>: src/common/libc/string.c and ctype.c. \<open>Printf\<close>, \<open>Printf_Props\<close>: src/common/libc/printf.c.
  \<^item> \<open>Kv_Keys\<close>, \<open>Hashtbl\<close>, \<open>Btree\<close>: src/common/libkogata/keyval.c, hashtbl.c, btree.c. A locale of key equality and
    hash laws, interpreted on the key functions of the code, carries the hash table lemmas.
  \<^item> \<open>Region_Alloc\<close> and \<open>Region_Lists\<close>, \<open>Region_Inv\<close>, \<open>Region_Correct\<close>, \<open>Region_Props\<close>:
    src/common/libkogata/region_alloc.c. The four lists of descriptors are lists of addresses.
  \<^item> \<open>Slab\<close>, \<open>Slab_Inv\<close>, \<open>Slab_Ops\<close>, \<open>Slab_Free\<close>, \<open>Slab_Alloc_Free\<close>, \<open>Slab_Correct\<close>: src/common/libkogata/slab_alloc.c
    over any provider of pages; \<open>Malloc\<close>, \<open>Malloc_Props\<close>: src/lib/libc/malloc.c, which instantiates it.
  \<^item> \<open>Frame\<close>: src/kernel/core/frame.c. The locale \<open>frame_provider\<close> states what its clients rely on.
  \<^item> \<open>Paging\<close>, \<open>Paging_Props\<close>, \<open>Paging_Dirs\<close>: src/kernel/core/paging.c and region.c. Physical memory is read by frames
    of 1024 words, the processor's two-level walk is part of the model, and the tables are edited through the mirror
    as the code does, page faults included.
  \<^item> \<open>Thread\<close>, \<open>Thread_Inv\<close>, \<open>Thread_Wake\<close>, \<open>Thread_Steps\<close>, \<open>Thread_Events\<close>, \<open>Thread_Machine\<close>, \<open>Thread_Props\<close>:
    src/kernel/core/thread.c, the interrupt handler of idt.c and the context switch. The queue and the list of waiters
    are linked through the thread structures; the machine is an inductive step relation. \<open>Mutex\<close>:
    src/common/libkogata/mutex.c. \<open>Worker_Tasks\<close>, \<open>Worker\<close>: src/kernel/core/worker.c. \<open>Prng\<close>: src/kernel/core/prng.c.
  \<^item> \<open>Proto_Fs\<close>: the constants of src/common/include/proto. \<open>Vfs\<close>: src/kernel/user/vfs.c, over drivers given as records of
    functions; \<open>Vfs_Inv\<close>, \<open>Vfs_Refs\<close>, \<open>Vfs_Walk\<close>, \<open>Vfs_Ops\<close>, \<open>Vfs_Props\<close>: reference counts. \<open>Nullfs\<close>, \<open>Nullfs_Inv\<close>:
    the in-memory driver src/kernel/user/nullfs.c.
  \<^item> \<open>Pager\<close>, \<open>Pager_Props\<close>: src/kernel/user/pager.c. \<open>Ipc_Channel\<close>, \<open>Ipc_Channel_Props\<close>, \<open>Ipc_Shm\<close>, \<open>Ipc_Token\<close>:
    src/kernel/user/ipc.c.

  \<^bold>\<open>What the lemmas show.\<close> For each data structure, an invariant that every operation keeps, an abstract value (a map,
  a sorted list, a set of used frames or bytes, a queue, an array of bytes) and that the operations act on the
  abstract value as they should, for every pattern of allocation failures; that nothing leaks; that no assertion
  fails. For the scheduler and the file system, the same over every sequence of calls, by rule induction on a step
  relation. For string and printing functions, their effect on memory, byte by byte. Where the code does not do what it
  means to, a theorem states what it does (the properties of kind "error").

  \<^bold>\<open>Bounds.\<close> Walks along pointers carry a bound of \<open>2 ^ 32\<close> steps: addresses have 32 bits, so a longer walk is on a
  cycle; the invariants show that the bound is never reached. Loops over pages carry a bound of \<open>2 ^ 20\<close>, the number of
  pages of an address space. The mutual recursion that releases nodes carries a depth, and any depth above the
  number of live nodes and file systems is proved enough. The expiration of tokens and the recursions on lists of
  descriptors end, and this is proved. Loops that really may not end (blocking reads and writes on channels) are
  recursions on the list of what other threads do at each wait.

  \<^bold>\<open>Not modelled.\<close> Code that is inline assembly or drives hardware (boot, descriptor tables, port access, PCI, IDE,
  VESA, virtual 8086 mode, logging); third-party code kept in the repository (the Lua interpreter, the stb headers) and
  the glue that binds it; the system programs, which are sequences of system calls. Mutexes of the allocators, tables
  and pagers make their operations atomic steps and interrupts are off while page tables change, so that those models
  are sequential; the interleaving of threads is the subject of the thread theories alone. The translation cache of
  the processor and the accessed and dirty bits it sets are left out.
\<close>

end
